(* ===== verification/Prelude.thy ===== *)
theory Prelude
  imports Main "HOL-Library.Word"
begin

text \<open>
  What every component theory shares: the names of the machine types (\<open>byte\<close>,
  \<open>u32\<close>, \<open>u64\<close>), the embedding of ASCII text into bytes, the reading of a
  NUL-terminated C string at an index, and the bit-level and list lemmas that the
  codec, hashing and container theories use.
\<close>

unbundle bit_operations_syntax

type_synonym byte = "8 word"
type_synonym bytes = "8 word list"
type_synonym u32 = "32 word"
type_synonym u64 = "64 word"

named_theorems word_bits \<open>equations that read a word bit by bit\<close>
named_theorems c_string \<open>reading a NUL-terminated C string\<close>

section \<open>Text as bytes\<close>

definition bytes_of :: "string \<Rightarrow> bytes" where
  "bytes_of s = map of_char s"

definition byte_of :: "char \<Rightarrow> byte" where
  "byte_of c = of_char c"

lemma bytes_of_Nil [simp]: "bytes_of [] = []"
  by (simp add: bytes_of_def)

lemma bytes_of_Cons [simp]: "bytes_of (c # s) = of_char c # bytes_of s"
  by (simp add: bytes_of_def)

lemma length_bytes_of [simp]: "length (bytes_of s) = length s"
  by (simp add: bytes_of_def)

section \<open>C strings\<close>

text \<open>
  \<open>c_at s i\<close> is the read \<open>s[i]\<close> of a C string whose characters are the list
  \<open>s\<close>: the byte, the terminating NUL at index \<open>length s\<close>, and \<open>None\<close> for a
  read past the terminator, which C leaves undefined.
\<close>

definition c_at :: "bytes \<Rightarrow> nat \<Rightarrow> byte option" where
  "c_at s i = (if i < length s then Some (s ! i) else if i = length s then Some 0 else None)"

lemma c_at_less [c_string]: "i < length s \<Longrightarrow> c_at s i = Some (s ! i)"
  by (simp add: c_at_def)

lemma c_at_length [c_string]: "c_at s (length s) = Some 0"
  by (simp add: c_at_def)

lemma c_at_Some_le: "c_at s i = Some c \<Longrightarrow> i \<le> length s"
  by (simp add: c_at_def split: if_splits)

lemma c_at_nonzero_less: "c_at s i = Some c \<Longrightarrow> c \<noteq> 0 \<Longrightarrow> i < length s"
  by (simp add: c_at_def split: if_splits)

lemma c_at_append_right [c_string]: "c_at (xs @ ys) (length xs + i) = c_at ys i"
  by (auto simp: c_at_def nth_append)

lemma c_at_append_start [c_string]: "c_at (xs @ y # ys) (length xs) = Some y"
  by (simp add: c_at_def nth_append)

section \<open>Words bit by bit\<close>

lemma bit_unat_less: "unat (x :: 'a::len word) < 2 ^ k \<Longrightarrow> k \<le> n \<Longrightarrow> \<not> bit x n"
proof -
  assume a: "unat x < 2 ^ k" "k \<le> n"
  then have "take_bit k (unat x) = unat x" by (simp add: take_bit_nat_eq_self)
  then have "\<not> bit (unat x) n" using a(2) by (metis bit_take_bit_iff not_le)
  then show ?thesis by (auto simp: bit_unsigned_iff possible_bit_def dest: bit_imp_le_length)
qed

lemma less8_cases:
  "n < (8::nat) \<Longrightarrow> n = 0 \<or> n = 1 \<or> n = 2 \<or> n = 3 \<or> n = 4 \<or> n = 5 \<or> n = 6 \<or> n = 7"
  by arith

lemma word8_eqI:
  fixes x y :: "8 word"
  assumes "bit x 0 = bit y 0" "bit x 1 = bit y 1" "bit x 2 = bit y 2" "bit x 3 = bit y 3"
    "bit x 4 = bit y 4" "bit x 5 = bit y 5" "bit x 6 = bit y 6" "bit x 7 = bit y 7"
  shows "x = y"
proof (rule bit_word_eqI)
  fix n assume "n < LENGTH(8)"
  then have "n < 8" by simp
  then show "bit x n = bit y n"
    by (elim less8_cases [elim_format] disjE) (simp_all only: assms)
qed

lemma less32_cases:
  assumes "n < (32::nat)"
  obtains m where "m < 8" "n = m \<or> n = 8 + m \<or> n = 16 + m \<or> n = 24 + m"
proof -
  consider "n < 8" | "8 \<le> n" "n < 16" | "16 \<le> n" "n < 24" | "24 \<le> n"
    by linarith
  then show thesis
  proof cases
    case 1
    then show ?thesis by (intro that [of n]) simp_all
  next
    case 2
    then show ?thesis by (intro that [of "n - 8"]) simp_all
  next
    case 3
    then show ?thesis by (intro that [of "n - 16"]) simp_all
  next
    case 4
    with assms show ?thesis by (intro that [of "n - 24"]) simp_all
  qed
qed

lemma word32_eqI:
  fixes x y :: "32 word"
  assumes "\<And>n. n < 8 \<Longrightarrow> bit x n = bit y n"
    and "\<And>n. n < 8 \<Longrightarrow> bit x (8 + n) = bit y (8 + n)"
    and "\<And>n. n < 8 \<Longrightarrow> bit x (16 + n) = bit y (16 + n)"
    and "\<And>n. n < 8 \<Longrightarrow> bit x (24 + n) = bit y (24 + n)"
  shows "x = y"
proof (rule bit_word_eqI)
  fix n assume "n < LENGTH(32)"
  then have "n < 32" by simp
  then show "bit x n = bit y n"
    by (elim less32_cases) (use assms in auto)
qed

end
