(* ===== verification/Utf8.thy ===== *)
theory Utf8
  imports Prelude
begin

text \<open>
  The UTF-8 helpers of \<open>utf8.h\<close>: the encoder, the lenient decoder over a
  NUL-terminated string and over a stream, the codepoint walks built on it, and the
  strict validator.  Reads of a C string go through \<open>c_at\<close>, so a read past the
  terminating NUL shows as \<open>None\<close>.
\<close>

section \<open>The encoder and the decoders\<close>

definition utf8_encode :: "u32 \<Rightarrow> bytes" where
  "utf8_encode cp =
     (if cp < 0x80 then [ucast cp]
      else if cp < 0x800 then
        [ucast (0xC0 OR drop_bit 6 cp), ucast (0x80 OR (cp AND 0x3F))]
      else if cp < 0x10000 then
        [ucast (0xE0 OR drop_bit 12 cp), ucast (0x80 OR (drop_bit 6 cp AND 0x3F)),
         ucast (0x80 OR (cp AND 0x3F))]
      else
        [ucast (0xF0 OR drop_bit 18 cp), ucast (0x80 OR (drop_bit 12 cp AND 0x3F)),
         ucast (0x80 OR (drop_bit 6 cp AND 0x3F)), ucast (0x80 OR (cp AND 0x3F))])"

text \<open>
  The classification of a lead byte at or above 0x80: its payload bits and the number of
  continuation bytes, or \<open>None\<close> for a stray continuation byte or an invalid lead.
\<close>

definition utf8_lead :: "byte \<Rightarrow> (u32 \<times> nat) option" where
  "utf8_lead c =
     (if c AND 0xE0 = 0xC0 then Some (ucast (c AND 0x1F), 1)
      else if c AND 0xF0 = 0xE0 then Some (ucast (c AND 0x0F), 2)
      else if c AND 0xF8 = 0xF0 then Some (ucast (c AND 0x07), 3)
      else None)"

text \<open>One continuation byte joins the codepoint: \<open>cp = (cp << 6) | (cc & 0x3F)\<close>.\<close>

definition utf8_join :: "u32 \<Rightarrow> byte \<Rightarrow> u32" where
  "utf8_join cp cc = push_bit 6 cp OR ucast (cc AND 0x3F)"

text \<open>
  The continuation loop of \<open>utf8_decode_at\<close> from index \<open>i\<close>, \<open>n\<close>
  bytes still to read: \<open>None\<close> is a read past the terminator,
  \<open>Some None\<close> a byte that is no continuation.
\<close>

fun utf8_decode_cont :: "bytes \<Rightarrow> nat \<Rightarrow> nat \<Rightarrow> u32 \<Rightarrow> u32 option option" where
  "utf8_decode_cont s i 0 cp = Some (Some cp)"
| "utf8_decode_cont s i (Suc n) cp =
     (case c_at s i of
        None \<Rightarrow> None
      | Some cc \<Rightarrow>
          if cc AND 0xC0 \<noteq> 0x80 then Some None
          else utf8_decode_cont s (Suc i) n (utf8_join cp cc))"

definition utf8_decode_at :: "bytes \<Rightarrow> nat \<Rightarrow> (u32 \<times> nat) option" where
  "utf8_decode_at s off =
     (case c_at s off of
        None \<Rightarrow> None
      | Some c \<Rightarrow>
          if c < 0x80 then Some (ucast c, off + 1)
          else case utf8_lead c of
            None \<Rightarrow> Some (ucast c, off + 1)
          | Some (cp, n) \<Rightarrow>
              (case utf8_decode_cont s (off + 1) n cp of
                 None \<Rightarrow> None
               | Some None \<Rightarrow> Some (ucast c, off + 1)
               | Some (Some cp') \<Rightarrow> Some (cp', off + (n + 1))))"

text \<open>
  The stream decoder: the first byte is already read, the rest of the stream is a byte
  list, and what is left of it is returned.  End of file and a byte that is no
  continuation both end the loop with the bits collected so far.
\<close>

fun utf8_stream_cont :: "nat \<Rightarrow> bytes \<Rightarrow> u32 \<Rightarrow> u32 \<times> bytes" where
  "utf8_stream_cont 0 stream cp = (cp, stream)"
| "utf8_stream_cont (Suc n) [] cp = (cp, [])"
| "utf8_stream_cont (Suc n) (cc # stream) cp =
     (if cc AND 0xC0 \<noteq> 0x80 then (cp, cc # stream)
      else utf8_stream_cont n stream (utf8_join cp cc))"

definition utf8_decode_stream :: "byte \<Rightarrow> bytes \<Rightarrow> u32 \<times> bytes" where
  "utf8_decode_stream first stream =
     (if first < 0x80 then (ucast first, stream)
      else case utf8_lead first of
        None \<Rightarrow> (ucast first, stream)
      | Some (cp, n) \<Rightarrow> utf8_stream_cont n stream cp)"

section \<open>The strict validator\<close>

definition utf8_lead_strict :: "byte \<Rightarrow> (nat \<times> u32 \<times> u32) option" where
  "utf8_lead_strict c =
     (if c AND 0xE0 = 0xC0 then Some (2, ucast (c AND 0x1F), 0x80)
      else if c AND 0xF0 = 0xE0 then Some (3, ucast (c AND 0x0F), 0x800)
      else if c AND 0xF8 = 0xF0 then Some (4, ucast (c AND 0x07), 0x10000)
      else None)"

fun utf8_valid_cont :: "bytes \<Rightarrow> nat \<Rightarrow> nat \<Rightarrow> u32 \<Rightarrow> u32 option" where
  "utf8_valid_cont p i 0 cp = Some cp"
| "utf8_valid_cont p i (Suc k) cp =
     (if (p ! i) AND 0xC0 \<noteq> 0x80 then None
      else utf8_valid_cont p (Suc i) k (utf8_join cp (p ! i)))"

text \<open>\<open>None\<close> is the C result 1 (valid); \<open>Some b\<close> is 0 with \<open>*bad = b\<close>.\<close>

function utf8_valid_from :: "bytes \<Rightarrow> nat \<Rightarrow> nat option" where
  "utf8_valid_from p i =
     (if i < length p then
        if p ! i < 0x80 then utf8_valid_from p (i + 1)
        else (case utf8_lead_strict (p ! i) of
            None \<Rightarrow> Some i
          | Some (len, cp, mn) \<Rightarrow>
              if i + len > length p then Some i
              else (case utf8_valid_cont p (i + 1) (len - 1) cp of
                  None \<Rightarrow> Some i
                | Some cp' \<Rightarrow>
                    if cp' < mn \<or> cp' > 0x10FFFF \<or> (cp' \<ge> 0xD800 \<and> cp' \<le> 0xDFFF)
                    then Some i
                    else utf8_valid_from p (i + len)))
      else None)"
  by pat_completeness auto
termination
  by (relation "measure (\<lambda>(p, i). length p - i)")
    (auto simp: utf8_lead_strict_def split: if_splits)

declare utf8_valid_from.simps [simp del]

definition utf8_valid :: "bytes \<Rightarrow> nat option" where
  "utf8_valid p = utf8_valid_from p 0"


lemma utf8_decode_cont_total: "i \<le> length s \<Longrightarrow> utf8_decode_cont s i n cp \<noteq> None"
proof (induction s i n cp rule: utf8_decode_cont.induct)
  case (2 s i n cp)
  show ?case
  proof (cases "i < length s")
    case True
    with 2 show ?thesis by (auto simp: c_string)
  next
    case False
    with 2 show ?thesis by (simp add: c_at_def)
  qed
qed simp

lemma utf8_decode_cont_bound:
  "utf8_decode_cont s i n cp = Some (Some cp') \<Longrightarrow> i \<le> length s \<Longrightarrow> i + n \<le> length s"
proof (induction s i n cp rule: utf8_decode_cont.induct)
  case (2 s i n cp)
  then have "i < length s"
    by (auto simp: c_at_def split: if_splits)
  with 2 show ?case by (simp add: c_string split: if_splits)
qed simp

text \<open>
  One decoding step reads inside the string: at an index before the terminator it
  returns, moves forward, and does not move past the terminator.
\<close>

lemma utf8_decode_at_in_bounds:
  assumes "off < length s"
  shows "\<exists>cp off'. utf8_decode_at s off = Some (cp, off') \<and> off < off' \<and> off' \<le> length s"
proof (cases "utf8_lead (s ! off)")
  case None
  with assms show ?thesis by (simp add: utf8_decode_at_def c_string)
next
  case (Some l)
  obtain cp n where l: "l = (cp, n)" by (cases l)
  have "utf8_decode_cont s (Suc off) n cp \<noteq> None"
    using assms by (intro utf8_decode_cont_total) simp
  then obtain r where r: "utf8_decode_cont s (Suc off) n cp = Some r" by auto
  show ?thesis
  proof (cases r)
    case None
    with assms Some l r show ?thesis by (simp add: utf8_decode_at_def c_string)
  next
    case (Some cp')
    with r have "Suc off + n \<le> length s"
      using assms by (intro utf8_decode_cont_bound) auto
    with assms Some l r \<open>utf8_lead (s ! off) = Some l\<close> show ?thesis
      by (simp add: utf8_decode_at_def c_string)
  qed
qed

lemma utf8_decode_at_advances: "utf8_decode_at s off = Some (cp, off') \<Longrightarrow> off < off'"
  by (auto simp: utf8_decode_at_def split: option.splits if_splits)

section \<open>Bits\<close>
lemma bit_int_63 [word_bits]: "bit (63 :: int) n = (n < 6)"
proof -
  have m: "(63 :: int) = mask 6" by (simp add: mask_eq_exp_minus_1)
  show ?thesis by (subst m, simp only: bit_mask_iff) auto
qed

lemma utf8_join_bits [word_bits]:
  "bit (utf8_join cp cc) n = (n < 32 \<and> (if n < 6 then bit cc n else bit cp (n - 6)))"
  by (auto simp: utf8_join_def bit_simps bit_int_63 dest: bit_imp_le_length)

lemma utf8_encode2_lead:
  assumes "unat cp < 0x800" "\<not> cp < 0x80"
  shows "utf8_lead (ucast (0xC0 OR drop_bit 6 cp)) = Some (drop_bit 6 cp, 1)"
proof -
  have h: "\<And>n. 11 \<le> n \<Longrightarrow> \<not> bit cp n" using bit_unat_less [of cp 11] assms by simp
  have "(ucast (0xC0 OR drop_bit 6 cp) :: byte) AND 0xE0 = 0xC0"
    by (rule word8_eqI; simp add: bit_simps h)
  moreover have "(ucast ((ucast (0xC0 OR drop_bit 6 cp) :: byte) AND 0x1F) :: u32) = drop_bit 6 cp"
    by (rule word32_eqI; elim less8_cases [elim_format] disjE; simp add: bit_simps h)
  ultimately show ?thesis by (simp add: utf8_lead_def)
qed

lemma utf8_encode_cont:
  "(ucast (0x80 OR (x AND 0x3F) :: u32) :: byte) AND 0xC0 = 0x80"
  by (rule word8_eqI; simp add: bit_simps)

lemma bit_int_128 [word_bits]: "bit (128 :: int) n = (n = 7)"
proof -
  have m: "(128 :: int) = 2 ^ 7" by simp
  show ?thesis by (subst m, simp only: bit_exp_iff possible_bit_int) auto
qed

lemma utf8_join_encoded:
  "utf8_join (drop_bit 6 cp) (ucast (0x80 OR (cp AND 0x3F) :: u32)) = cp"
  by (rule bit_word_eqI) (auto simp: utf8_join_bits bit_simps bit_int_63 bit_int_128)

lemma utf8_encode3_lead:
  assumes "unat cp < 0x10000" 
  shows "utf8_lead (ucast (0xE0 OR drop_bit 12 cp)) = Some (drop_bit 12 cp, 2)"
proof -
  have h: "\<And>n. 16 \<le> n \<Longrightarrow> \<not> bit cp n" using bit_unat_less [of cp 16] assms by simp
  have "(ucast (0xE0 OR drop_bit 12 cp) :: byte) AND 0xE0 \<noteq> 0xC0"
  proof
    assume a: "(ucast (0xE0 OR drop_bit 12 cp) :: byte) AND 0xE0 = 0xC0"
    have "bit ((ucast (0xE0 OR drop_bit 12 cp) :: byte) AND 0xE0) 5" by (simp add: bit_simps)
    with a show False by (simp add: bit_simps)
  qed
  moreover have "(ucast (0xE0 OR drop_bit 12 cp) :: byte) AND 0xF0 = 0xE0"
    by (rule word8_eqI; simp add: bit_simps h)
  moreover have "(ucast ((ucast (0xE0 OR drop_bit 12 cp) :: byte) AND 0x0F) :: u32) = drop_bit 12 cp"
    by (rule word32_eqI; elim less8_cases [elim_format] disjE; simp add: bit_simps h)
  ultimately show ?thesis by (simp add: utf8_lead_def)
qed

lemma utf8_encode4_lead:
  assumes "unat cp < 0x200000" 
  shows "utf8_lead (ucast (0xF0 OR drop_bit 18 cp)) = Some (drop_bit 18 cp, 3)"
proof -
  have h: "\<And>n. 21 \<le> n \<Longrightarrow> \<not> bit cp n" using bit_unat_less [of cp 21] assms by simp
  let ?c = "ucast (0xF0 OR drop_bit 18 cp) :: byte"
  have "?c AND 0xE0 \<noteq> 0xC0"
  proof
    assume a: "?c AND 0xE0 = 0xC0"
    have "bit (?c AND 0xE0) 5" by (simp add: bit_simps)
    with a show False by (simp add: bit_simps)
  qed
  moreover have "?c AND 0xF0 \<noteq> 0xE0"
  proof
    assume a: "?c AND 0xF0 = 0xE0"
    have "bit (?c AND 0xF0) 4" by (simp add: bit_simps)
    with a show False by (simp add: bit_simps)
  qed
  moreover have "?c AND 0xF8 = 0xF0"
    by (rule word8_eqI; simp add: bit_simps h)
  moreover have "(ucast (?c AND 0x07) :: u32) = drop_bit 18 cp"
    by (rule word32_eqI; elim less8_cases [elim_format] disjE; simp add: bit_simps h)
  ultimately show ?thesis by (simp add: utf8_lead_def)
qed

lemma byte_high: "bit (x :: byte) 7 \<Longrightarrow> \<not> x < 0x80"
  using bit_unat_less [of x 7 7] by (auto simp: word_less_nat_alt)

lemma utf8_encode_lead_high:
  "\<not> (ucast (0xC0 OR x :: u32) :: byte) < 0x80"
  "\<not> (ucast (0xE0 OR x :: u32) :: byte) < 0x80"
  "\<not> (ucast (0xF0 OR x :: u32) :: byte) < 0x80"
  by (rule byte_high, simp add: bit_simps)+

lemma utf8_decode_cont_shift:
  "utf8_decode_cont (pre @ s) (length pre + i) n cp = utf8_decode_cont s i n cp"
  by (induction s i n cp rule: utf8_decode_cont.induct)
    (auto simp: c_string split: option.splits)

lemma utf8_decode_at_shift:
  "utf8_decode_at (pre @ s) (length pre + i) = map_option (apsnd ((+) (length pre))) (utf8_decode_at s i)"
  using utf8_decode_cont_shift [of pre s "Suc i"]
  by (auto simp: utf8_decode_at_def c_string split: option.splits)

lemma c_at_Cons [c_string]: "c_at (x # s) 0 = Some x" "c_at (x # s) (Suc i) = c_at s i"
  by (auto simp: c_at_def)

lemma ucast_ascii:
  assumes "(cp :: u32) < 0x80"
  shows "(ucast cp :: byte) < 0x80" "(ucast (ucast cp :: byte) :: u32) = cp"
proof -
  have u: "unat cp < 0x80" using assms by (simp add: word_less_nat_alt)
  then have h: "\<And>n. 7 \<le> n \<Longrightarrow> \<not> bit cp n" using bit_unat_less [of cp 7] by simp
  show "(ucast (ucast cp :: byte) :: u32) = cp"
    by (rule word32_eqI; elim less8_cases [elim_format] disjE; simp add: bit_simps h)
  have "unat (ucast cp :: byte) = unat cp"
    using u by (simp add: unsigned_ucast_eq take_bit_word_eq_self word_less_nat_alt take_bit_nat_eq_self)
  with u show "(ucast cp :: byte) < 0x80" by (simp add: word_less_nat_alt)
qed

lemma utf8_decode_encode_0:
  assumes "unat cp < 0x200000"
  shows "utf8_decode_at (utf8_encode cp @ post) 0 = Some (cp, length (utf8_encode cp))"
proof -
  note step = c_string utf8_encode_cont utf8_encode_lead_high
  have j: "\<And>k. utf8_join (drop_bit (6 + k) cp) (ucast (0x80 OR (drop_bit k cp AND 0x3F) :: u32)) = drop_bit k cp"
    using utf8_join_encoded [of "drop_bit k cp" for k] by (simp add: drop_bit_drop_bit)
  note joins = j [of 6, simplified] j [of 12, simplified] utf8_join_encoded
  consider "cp < 0x80" | "\<not> cp < 0x80" "cp < 0x800" | "\<not> cp < 0x80" "\<not> cp < 0x800" "cp < 0x10000"
    | "\<not> cp < 0x80" "\<not> cp < 0x800" "\<not> cp < 0x10000"
    by blast
  then show ?thesis
  proof cases
    case 1
    then show ?thesis by (simp add: utf8_decode_at_def utf8_encode_def step ucast_ascii)
  next
    case 2
    then have "unat cp < 0x800" by (simp add: word_less_nat_alt)
    with 2 show ?thesis 
      by (simp add: utf8_decode_at_def utf8_encode_def step utf8_encode2_lead joins)
  next
    case 3
    then have "unat cp < 0x10000" by (simp add: word_less_nat_alt)
    with 3 show ?thesis 
      by (simp add: utf8_decode_at_def utf8_encode_def step utf8_encode3_lead joins numeral_2_eq_2 numeral_3_eq_3)
  next
    case 4
    with assms show ?thesis 
      by (simp add: utf8_decode_at_def utf8_encode_def step utf8_encode4_lead joins numeral_2_eq_2 numeral_3_eq_3)
  qed
qed

section \<open>The codepoint walks\<close>

lemma utf8_walk_measure:
  assumes "c_at s off = Some c" "c \<noteq> 0" "utf8_decode_at s off = Some (cp, off')"
  shows "length s - off' < length s - off"
  using c_at_nonzero_less [OF assms(1,2)] utf8_decode_at_advances [OF assms(3)] by simp

function utf8_strlen_from :: "bytes \<Rightarrow> nat \<Rightarrow> int \<Rightarrow> int option" where
  "utf8_strlen_from s off n =
     (case c_at s off of
        None \<Rightarrow> None
      | Some c \<Rightarrow>
          if c = 0 then Some n
          else (case utf8_decode_at s off of
              None \<Rightarrow> None
            | Some (_, off') \<Rightarrow> utf8_strlen_from s off' (n + 1)))"
  by pat_completeness auto
termination
  by (relation "measure (\<lambda>(s, off, n). length s - off)") (auto intro: utf8_walk_measure)

definition utf8_strlen :: "bytes \<Rightarrow> int option" where
  "utf8_strlen s = utf8_strlen_from s 0 0"

text \<open>
  \<open>utf8_index\<close> returns 0 with \<open>*out\<close> unset as \<open>Some None\<close>, and 1 as
  \<open>Some (Some cp)\<close>.
\<close>

function utf8_index_from :: "bytes \<Rightarrow> nat \<Rightarrow> int \<Rightarrow> int \<Rightarrow> u32 option option" where
  "utf8_index_from s off k i =
     (case c_at s off of
        None \<Rightarrow> None
      | Some c \<Rightarrow>
          if c = 0 then Some None
          else (case utf8_decode_at s off of
              None \<Rightarrow> None
            | Some (cp, off') \<Rightarrow>
                if k = i then Some (Some cp) else utf8_index_from s off' (k + 1) i))"
  by pat_completeness auto
termination
  by (relation "measure (\<lambda>(s, off, k, i). length s - off)") (auto intro: utf8_walk_measure)

definition utf8_index :: "bytes \<Rightarrow> int \<Rightarrow> u32 option option" where
  "utf8_index s i = (if i < 0 then Some None else utf8_index_from s 0 0 i)"

function utf8_byte_offset_from :: "bytes \<Rightarrow> nat \<Rightarrow> int \<Rightarrow> int \<Rightarrow> nat option" where
  "utf8_byte_offset_from s off k i =
     (case c_at s off of
        None \<Rightarrow> None
      | Some c \<Rightarrow>
          if c \<noteq> 0 \<and> k < i
          then (case utf8_decode_at s off of
              None \<Rightarrow> None
            | Some (_, off') \<Rightarrow> utf8_byte_offset_from s off' (k + 1) i)
          else Some off)"
  by pat_completeness auto
termination
  by (relation "measure (\<lambda>(s, off, k, i). length s - off)") (auto intro: utf8_walk_measure)

definition utf8_byte_offset :: "bytes \<Rightarrow> int \<Rightarrow> nat option" where
  "utf8_byte_offset s i = utf8_byte_offset_from s 0 0 i"

function utf8_count_bytes_from :: "bytes \<Rightarrow> nat \<Rightarrow> nat \<Rightarrow> int \<Rightarrow> int option" where
  "utf8_count_bytes_from s nbytes off n =
     (if off < nbytes then
        (case c_at s off of
           None \<Rightarrow> None
         | Some c \<Rightarrow>
             if c = 0 then Some n
             else (case utf8_decode_at s off of
                 None \<Rightarrow> None
               | Some (_, off') \<Rightarrow> utf8_count_bytes_from s nbytes off' (n + 1)))
      else Some n)"
  by pat_completeness auto
termination
  by (relation "measure (\<lambda>(s, nbytes, off, n). length s - off)") (auto intro: utf8_walk_measure)

definition utf8_count_bytes :: "bytes \<Rightarrow> nat \<Rightarrow> int option" where
  "utf8_count_bytes s nbytes = utf8_count_bytes_from s nbytes 0 0"

declare utf8_strlen_from.simps [simp del] utf8_index_from.simps [simp del]
  utf8_byte_offset_from.simps [simp del] utf8_count_bytes_from.simps [simp del]

section \<open>Encoded text\<close>

text \<open>
  \<open>utf8_text cps\<close> is the byte string of a list of codepoints; \<open>utf8_text_ok\<close>
  says that each is a nonzero value below 2^21, the range \<open>utf8_encode\<close> covers.
\<close>

definition utf8_text :: "u32 list \<Rightarrow> bytes" where
  "utf8_text cps = concat (map utf8_encode cps)"

definition utf8_text_ok :: "u32 list \<Rightarrow> bool" where
  "utf8_text_ok cps = (\<forall>cp \<in> set cps. cp \<noteq> 0 \<and> unat cp < 0x200000)"

lemma utf8_text_simps [simp]:
  "utf8_text [] = []" "utf8_text (cp # cps) = utf8_encode cp @ utf8_text cps"
  "utf8_text_ok []" "utf8_text_ok (cp # cps) = (cp \<noteq> 0 \<and> unat cp < 0x200000 \<and> utf8_text_ok cps)"
  by (simp_all add: utf8_text_def utf8_text_ok_def)

lemma byte_high_nonzero: "\<not> (x :: byte) < 0x80 \<Longrightarrow> x \<noteq> 0"
  by auto

lemma utf8_encode_first:
  assumes "cp \<noteq> 0"
  shows "\<exists>c cs. utf8_encode cp = c # cs \<and> c \<noteq> 0"
proof -
  have "(ucast cp :: byte) \<noteq> 0" if "cp < 0x80"
    using assms ucast_ascii [OF that] by (metis unsigned_0)
  then show ?thesis
    using utf8_encode_lead_high [THEN byte_high_nonzero]
    by (auto simp: utf8_encode_def)
qed

lemma utf8_walk_step:
  assumes "utf8_text_ok (cp # cps)"
  shows "\<exists>c. c \<noteq> 0 \<and> c_at (pre @ utf8_text (cp # cps)) (length pre) = Some c"
    and "utf8_decode_at (pre @ utf8_text (cp # cps)) (length pre)
         = Some (cp, length (pre @ utf8_encode cp))"
proof -
  obtain c cs where "utf8_encode cp = c # cs" "c \<noteq> 0"
    using utf8_encode_first [of cp] assms by auto
  then show "\<exists>c. c \<noteq> 0 \<and> c_at (pre @ utf8_text (cp # cps)) (length pre) = Some c"
    by (simp add: c_string)
  show "utf8_decode_at (pre @ utf8_text (cp # cps)) (length pre)
         = Some (cp, length (pre @ utf8_encode cp))"
    using utf8_decode_at_shift [of pre "utf8_encode cp @ utf8_text cps" 0]
      utf8_decode_encode_0 [of cp "utf8_text cps"] assms by simp
qed

lemma c_at_end [c_string]: "c_at pre (length pre) = Some 0"
  by (simp add: c_at_def)

lemma utf8_strlen_from_text:
  "utf8_text_ok cps \<Longrightarrow>
   utf8_strlen_from (pre @ utf8_text cps) (length pre) n = Some (n + int (length cps))"
proof (induction cps arbitrary: pre n)
  case Nil
  then show ?case by (subst utf8_strlen_from.simps) (simp add: c_string)
next
  case (Cons cp cps)
  from Cons.prems obtain c where "c \<noteq> 0" "c_at (pre @ utf8_text (cp # cps)) (length pre) = Some c"
    using utf8_walk_step(1) by blast
  with Cons.IH [of "pre @ utf8_encode cp" "n + 1"] Cons.prems utf8_walk_step(2) [of cp cps pre]
  show ?case by (subst utf8_strlen_from.simps) simp
qed

lemma utf8_index_from_text:
  "utf8_text_ok cps \<Longrightarrow> k \<le> i \<Longrightarrow>
   utf8_index_from (pre @ utf8_text cps) (length pre) k i
   = Some (if nat (i - k) < length cps then Some (cps ! nat (i - k)) else None)"
proof (induction cps arbitrary: pre k)
  case Nil
  then show ?case by (subst utf8_index_from.simps) (simp add: c_string)
next
  case (Cons cp cps)
  from Cons.prems obtain c where "c \<noteq> 0" "c_at (pre @ utf8_text (cp # cps)) (length pre) = Some c"
    using utf8_walk_step(1) by blast
  moreover have "k \<noteq> i \<Longrightarrow> nat (i - k) = Suc (nat (i - (k + 1)))" using Cons.prems by simp
  ultimately show ?case
    using Cons.IH [of "k + 1" "pre @ utf8_encode cp"] Cons.prems utf8_walk_step(2) [of cp cps pre]
    by (subst utf8_index_from.simps) (auto simp del: nat_less_iff)
qed

lemma utf8_byte_offset_from_text:
  "utf8_text_ok cps \<Longrightarrow>
   utf8_byte_offset_from (pre @ utf8_text cps) (length pre) k i
   = Some (length pre + length (utf8_text (take (nat (i - k)) cps)))"
proof (induction cps arbitrary: pre k)
  case Nil
  then show ?case by (subst utf8_byte_offset_from.simps) (simp add: c_string)
next
  case (Cons cp cps)
  from Cons.prems obtain c where "c \<noteq> 0" "c_at (pre @ utf8_text (cp # cps)) (length pre) = Some c"
    using utf8_walk_step(1) by blast
  moreover have "k < i \<Longrightarrow> nat (i - k) = Suc (nat (i - (k + 1)))" by simp
  ultimately show ?case
    using Cons.IH [of "pre @ utf8_encode cp" "k + 1"] Cons.prems utf8_walk_step(2) [of cp cps pre]
    by (subst utf8_byte_offset_from.simps) auto
qed


lemma utf8_count_bytes_from_text:
  "utf8_text_ok cps \<Longrightarrow>
   utf8_count_bytes_from (pre @ utf8_text cps) (length pre + length (utf8_text (take j cps)))
     (length pre) n
   = Some (n + int (min j (length cps)))"
proof (induction cps arbitrary: pre n j)
  case Nil
  then show ?case by (subst utf8_count_bytes_from.simps) (simp add: c_string)
next
  case (Cons cp cps)
  from Cons.prems obtain c cs where "c \<noteq> 0" "utf8_encode cp = c # cs"
    using utf8_encode_first [of cp] by auto
  moreover from this have "c_at (pre @ utf8_text (cp # cps)) (length pre) = Some c"
    by (simp add: c_string)
  ultimately show ?case
    using Cons.IH [of "pre @ utf8_encode cp" "j - 1" "n + 1"] Cons.prems
      utf8_walk_step(2) [of cp cps pre]
    by (cases j; subst utf8_count_bytes_from.simps) (auto simp: ac_simps)
qed

section \<open>What the validator accepts\<close>

definition utf8_scalar :: "u32 \<Rightarrow> bool" where
  "utf8_scalar cp = (cp \<le> 0x10FFFF \<and> \<not> (0xD800 \<le> cp \<and> cp \<le> 0xDFFF))"

lemma and_eq_bit: "x AND y = z \<Longrightarrow> bit z n = (bit x n \<and> bit y n)" for x :: byte
  by (auto simp: bit_and_iff)

lemma lead_bits:
  "(c :: byte) AND 0xE0 = 0xC0 \<Longrightarrow> bit c 7 \<and> bit c 6 \<and> \<not> bit c 5"
  "c AND 0xF0 = 0xE0 \<Longrightarrow> bit c 7 \<and> bit c 6 \<and> bit c 5 \<and> \<not> bit c 4"
  "c AND 0xF8 = 0xF0 \<Longrightarrow> bit c 7 \<and> bit c 6 \<and> bit c 5 \<and> bit c 4 \<and> \<not> bit c 3"
  "c AND 0xC0 = 0x80 \<Longrightarrow> bit c 7 \<and> \<not> bit c 6"
proof -
  assume e: "c AND 0xE0 = 0xC0"
  show "bit c 7 \<and> bit c 6 \<and> \<not> bit c 5"
    using and_eq_bit [OF e, of 7] and_eq_bit [OF e, of 6] and_eq_bit [OF e, of 5]
    by (simp add: bit_simps)
next
  assume e: "c AND 0xF0 = 0xE0"
  show "bit c 7 \<and> bit c 6 \<and> bit c 5 \<and> \<not> bit c 4"
    using and_eq_bit [OF e, of 7] and_eq_bit [OF e, of 6] and_eq_bit [OF e, of 5]
      and_eq_bit [OF e, of 4] by (simp add: bit_simps)
next
  assume e: "c AND 0xF8 = 0xF0"
  show "bit c 7 \<and> bit c 6 \<and> bit c 5 \<and> bit c 4 \<and> \<not> bit c 3"
    using and_eq_bit [OF e, of 7] and_eq_bit [OF e, of 6] and_eq_bit [OF e, of 5]
      and_eq_bit [OF e, of 4] and_eq_bit [OF e, of 3] by (simp add: bit_simps)
next
  assume e: "c AND 0xC0 = 0x80"
  show "bit c 7 \<and> \<not> bit c 6"
    using and_eq_bit [OF e, of 7] and_eq_bit [OF e, of 6] by (simp add: bit_simps)
qed

lemma join_parts:
  "utf8_join x cc AND 0x3F = ucast (cc AND 0x3F)"
  "unat x < 2 ^ 26 \<Longrightarrow> drop_bit 6 (utf8_join x cc) = x"
proof -
  show "utf8_join x cc AND 0x3F = ucast (cc AND 0x3F)"
    by (rule bit_word_eqI) (auto simp: word_bits bit_simps dest: bit_imp_le_length)
  assume "unat x < 2 ^ 26"
  then have h: "\<And>n. 26 \<le> n \<Longrightarrow> \<not> bit x n" using bit_unat_less [of x 26] by simp
  show "drop_bit 6 (utf8_join x cc) = x"
    by (rule bit_word_eqI) (use h in \<open>auto simp: word_bits bit_simps intro: leI\<close>)
qed

lemma cont_byte: "(cc :: byte) AND 0xC0 = 0x80 \<Longrightarrow> ucast (0x80 OR ucast (cc AND 0x3F) :: u32) = cc"
  by (frule lead_bits, rule word8_eqI; simp add: bit_simps)

lemma lead_byte:
  "(c :: byte) AND 0xE0 = 0xC0 \<Longrightarrow> ucast (0xC0 OR ucast (c AND 0x1F) :: u32) = c"
  "c AND 0xF0 = 0xE0 \<Longrightarrow> ucast (0xE0 OR ucast (c AND 0x0F) :: u32) = c"
  "c AND 0xF8 = 0xF0 \<Longrightarrow> ucast (0xF0 OR ucast (c AND 0x07) :: u32) = c"
  by (frule lead_bits, rule word8_eqI; simp add: bit_simps)+

lemma unat_less_bit: "(\<And>n. k \<le> n \<Longrightarrow> \<not> bit x n) \<Longrightarrow> unat (x :: 'a::len word) < 2 ^ k"
proof -
  assume h: "\<And>n. k \<le> n \<Longrightarrow> \<not> bit x n"
  have "unat x = take_bit k (unat x)"
    by (rule bit_eqI) (use h in \<open>auto simp: bit_simps bit_unsigned_iff intro: leI\<close>)
  then show ?thesis by (metis take_bit_nat_less_exp)
qed

lemma unat_lead:
  "unat (ucast ((c :: byte) AND 0x1F) :: u32) < 2 ^ 5"
  "unat (ucast ((c :: byte) AND 0x0F) :: u32) < 2 ^ 4"
  "unat (ucast ((c :: byte) AND 0x07) :: u32) < 2 ^ 3"
proof -
  have m: "c AND 0x1F = take_bit 5 c" "c AND 0x0F = take_bit 4 c" "c AND 0x07 = take_bit 3 c"
    by (simp_all add: take_bit_eq_mask mask_eq_exp_minus_1)
  show "unat (ucast (c AND 0x1F) :: u32) < 2 ^ 5" "unat (ucast (c AND 0x0F) :: u32) < 2 ^ 4"
    "unat (ucast (c AND 0x07) :: u32) < 2 ^ 3"
    by (rule unat_less_bit, simp add: m bit_simps)+
qed

lemma unat_join:
  "unat x < 2 ^ k \<Longrightarrow> unat (utf8_join x cc) < 2 ^ (k + 6)"
  using bit_unat_less [of x k] by (intro unat_less_bit) (auto simp: word_bits)

lemma drop_bit_twice:
  "drop_bit 12 (x :: u32) = drop_bit 6 (drop_bit 6 x)"
  "drop_bit 18 (x :: u32) = drop_bit 6 (drop_bit 6 (drop_bit 6 x))"
  by (simp_all add: drop_bit_drop_bit)

text \<open>The C comparison of a codepoint with the length thresholds, on what a lead and its
  continuation bytes can hold.\<close>

lemma utf8_encode_of_parts:
  "c AND 0xE0 = 0xC0 \<Longrightarrow> c1 AND 0xC0 = 0x80 \<Longrightarrow>
   \<not> utf8_join (ucast (c AND 0x1F)) c1 < 0x80 \<Longrightarrow>
   utf8_encode (utf8_join (ucast (c AND 0x1F)) c1) = [c, c1]"
  "c AND 0xF0 = 0xE0 \<Longrightarrow> c1 AND 0xC0 = 0x80 \<Longrightarrow> c2 AND 0xC0 = 0x80 \<Longrightarrow>
   \<not> utf8_join (utf8_join (ucast (c AND 0x0F)) c1) c2 < 0x800 \<Longrightarrow>
   utf8_encode (utf8_join (utf8_join (ucast (c AND 0x0F)) c1) c2) = [c, c1, c2]"
  "c AND 0xF8 = 0xF0 \<Longrightarrow> c1 AND 0xC0 = 0x80 \<Longrightarrow> c2 AND 0xC0 = 0x80 \<Longrightarrow> c3 AND 0xC0 = 0x80 \<Longrightarrow>
   \<not> utf8_join (utf8_join (utf8_join (ucast (c AND 0x07)) c1) c2) c3 < 0x10000 \<Longrightarrow>
   utf8_encode (utf8_join (utf8_join (utf8_join (ucast (c AND 0x07)) c1) c2) c3) = [c, c1, c2, c3]"
proof -
  assume c: "c AND 0xE0 = 0xC0" "c1 AND 0xC0 = 0x80"
    and n: "\<not> utf8_join (ucast (c AND 0x1F)) c1 < 0x80"
  have "unat (utf8_join (ucast (c AND 0x1F)) c1) < 2 ^ 11"
    using unat_join [OF unat_lead(1), of c c1] by simp
  moreover have "drop_bit 6 (utf8_join (ucast (c AND 0x1F)) c1) = ucast (c AND 0x1F)"
    using unat_lead(1) [of c] by (intro join_parts) simp
  ultimately show "utf8_encode (utf8_join (ucast (c AND 0x1F)) c1) = [c, c1]"
    using n by (simp add: utf8_encode_def word_less_nat_alt join_parts(1) cont_byte lead_byte c)
next
  let ?x = "ucast (c AND 0x0F) :: u32"
  assume c: "c AND 0xF0 = 0xE0" "c1 AND 0xC0 = 0x80" "c2 AND 0xC0 = 0x80"
    and n: "\<not> utf8_join (utf8_join ?x c1) c2 < 0x800"
  have a: "unat (utf8_join ?x c1) < 2 ^ 10" "unat (utf8_join (utf8_join ?x c1) c2) < 2 ^ 16"
    using unat_join [OF unat_lead(2), of c c1] unat_join [OF unat_join [OF unat_lead(2)], of c c1 c2]
    by simp_all
  have d: "drop_bit 6 (utf8_join ?x c1) = ?x"
    "drop_bit 6 (utf8_join (utf8_join ?x c1) c2) = utf8_join ?x c1"
    using unat_lead(2) [of c] a by (simp_all add: join_parts)
  then have "drop_bit 12 (utf8_join (utf8_join ?x c1) c2) = ?x"
    by (simp add: drop_bit_twice)
  with d a n show "utf8_encode (utf8_join (utf8_join ?x c1) c2) = [c, c1, c2]"
    by (simp add: utf8_encode_def word_less_nat_alt join_parts(1) cont_byte lead_byte c)
next
  let ?x = "ucast (c AND 0x07) :: u32"
  let ?y = "utf8_join (utf8_join ?x c1) c2"
  assume c: "c AND 0xF8 = 0xF0" "c1 AND 0xC0 = 0x80" "c2 AND 0xC0 = 0x80" "c3 AND 0xC0 = 0x80"
    and n: "\<not> utf8_join ?y c3 < 0x10000"
  have a: "unat (utf8_join ?x c1) < 2 ^ 9" "unat ?y < 2 ^ 15"
    using unat_join [OF unat_lead(3), of c c1] unat_join [OF unat_join [OF unat_lead(3)], of c c1 c2]
    by simp_all
  have d: "drop_bit 6 (utf8_join ?x c1) = ?x" "drop_bit 6 ?y = utf8_join ?x c1"
    "drop_bit 6 (utf8_join ?y c3) = ?y"
    using unat_lead(3) [of c] a by (simp_all add: join_parts)
  then have "drop_bit 12 (utf8_join ?y c3) = utf8_join ?x c1" "drop_bit 18 (utf8_join ?y c3) = ?x"
    by (simp_all add: drop_bit_twice)
  with d n show "utf8_encode (utf8_join ?y c3) = [c, c1, c2, c3]"
    by (simp add: utf8_encode_def word_less_nat_alt join_parts(1) cont_byte lead_byte c)
qed

definition utf8_scalars :: "u32 list \<Rightarrow> bool" where
  "utf8_scalars cps = (\<forall>cp \<in> set cps. utf8_scalar cp)"

lemma utf8_scalars_simps [simp]:
  "utf8_scalars []" "utf8_scalars (cp # cps) = (utf8_scalar cp \<and> utf8_scalars cps)"
  by (simp_all add: utf8_scalars_def)

lemma utf8_lead_strict_lead:
  "utf8_lead_strict c = map_option (\<lambda>(cp, n). (n + 1, cp, if n = 1 then 0x80 else if n = 2 then 0x800 else 0x10000)) (utf8_lead c)"
  by (simp add: utf8_lead_strict_def utf8_lead_def)

lemma ascii_word: "c < 0x80 \<Longrightarrow> (ucast (c :: byte) :: u32) < 0x80 \<and> ucast (ucast c :: u32) = c"
proof -
  assume "c < 0x80"
  then have u: "unat c < 0x80" by (simp add: word_less_nat_alt)
  have "unat (ucast c :: u32) = unat c"
    using u by (simp add: unsigned_ucast_eq take_bit_word_eq_self word_less_nat_alt take_bit_nat_eq_self)
  moreover have "ucast (ucast c :: u32) = c"
    by (rule word8_eqI; simp add: bit_simps)
  ultimately show ?thesis using u by (simp add: word_less_nat_alt)
qed

lemma utf8_valid_cont_append:
  "utf8_valid_cont (pre @ s) (length pre + i) k cp = utf8_valid_cont s i k cp"
  by (induction s i k cp rule: utf8_valid_cont.induct) (auto simp: nth_append)

lemma utf8_valid_scalar_step:
  assumes "utf8_scalar cp"
  shows "utf8_valid_from (pre @ utf8_encode cp @ post) (length pre)
         = utf8_valid_from (pre @ utf8_encode cp @ post) (length (pre @ utf8_encode cp))"
proof -
  let ?p = "pre @ utf8_encode cp @ post"
  note step = utf8_encode_cont utf8_encode_lead_high nth_append
  have cont: "utf8_valid_cont ?p (Suc (length pre)) k c = utf8_valid_cont (utf8_encode cp @ post) 1 k c"
    for k c using utf8_valid_cont_append [of pre "utf8_encode cp @ post" 1 k c] by simp
  have j: "\<And>k. utf8_join (drop_bit (6 + k) cp) (ucast (0x80 OR (drop_bit k cp AND 0x3F) :: u32)) = drop_bit k cp"
    using utf8_join_encoded [of "drop_bit k cp" for k] by (simp add: drop_bit_drop_bit)
  note joins = j [of 6, simplified] j [of 12, simplified] utf8_join_encoded
  have ok: "\<not> (cp > 0x10FFFF \<or> (cp \<ge> 0xD800 \<and> cp \<le> 0xDFFF))" and u: "unat cp < 0x200000"
    using assms by (auto simp: utf8_scalar_def word_le_nat_alt word_less_nat_alt)
  consider "cp < 0x80" | "\<not> cp < 0x80" "cp < 0x800" | "\<not> cp < 0x80" "\<not> cp < 0x800" "cp < 0x10000"
    | "\<not> cp < 0x80" "\<not> cp < 0x800" "\<not> cp < 0x10000"
    by blast
  then show ?thesis
  proof cases
    case 1
    then show ?thesis
      by (subst utf8_valid_from.simps) (simp add: utf8_encode_def step ucast_ascii)
  next
    case 2
    then have "unat cp < 0x800" by (simp add: word_less_nat_alt)
    with 2 ok cont [of 1] show ?thesis
      by (subst utf8_valid_from.simps)
        (auto simp: utf8_encode_def step utf8_lead_strict_lead utf8_encode2_lead joins)
  next
    case 3
    then have "unat cp < 0x10000" by (simp add: word_less_nat_alt)
    with 3 ok cont [of 2] show ?thesis
      by (subst utf8_valid_from.simps)
        (auto simp: utf8_encode_def step utf8_lead_strict_lead utf8_encode3_lead joins numeral_2_eq_2)
  next
    case 4
    with u ok cont [of 3] show ?thesis
      by (subst utf8_valid_from.simps)
        (auto simp: utf8_encode_def step utf8_lead_strict_lead utf8_encode4_lead joins numeral_3_eq_3 numeral_2_eq_2)
  qed
qed

lemma utf8_valid_from_text:
  "utf8_scalars cps \<Longrightarrow> utf8_valid_from (pre @ utf8_text cps) (length pre) = None"
proof (induction cps arbitrary: pre)
  case Nil
  then show ?case by (subst utf8_valid_from.simps) simp
next
  case (Cons cp cps)
  then show ?case
    using utf8_valid_scalar_step [of cp pre "utf8_text cps"] Cons.IH [of "pre @ utf8_encode cp"] by simp
qed

lemma take_drop_nth:
  "i + 2 \<le> length p \<Longrightarrow> take 2 (drop i p) = [p ! i, p ! (i + 1)]"
  "i + 3 \<le> length p \<Longrightarrow> take 3 (drop i p) = [p ! i, p ! (i + 1), p ! (i + 2)]"
  "i + 4 \<le> length p \<Longrightarrow> take 4 (drop i p) = [p ! i, p ! (i + 1), p ! (i + 2), p ! (i + 3)]"
  by (simp_all add: take_Suc_conv_app_nth numeral_eq_Suc)

lemma utf8_valid_step:
  assumes "\<not> p ! i < 0x80" "utf8_lead_strict (p ! i) = Some (len, cp, mn)" "i + len \<le> length p"
    "utf8_valid_cont p (i + 1) (len - 1) cp = Some cp'"
    "\<not> (cp' < mn \<or> cp' > 0x10FFFF \<or> (cp' \<ge> 0xD800 \<and> cp' \<le> 0xDFFF))"
  shows "utf8_scalar cp' \<and> take len (drop i p) = utf8_encode cp'"
proof
  show "utf8_scalar cp'" using assms(5) by (auto simp: utf8_scalar_def)
  note td = take_drop_nth [of i p]
  consider "(p ! i) AND 0xE0 = 0xC0" "len = 2" "cp = ucast (p ! i AND 0x1F)" "mn = 0x80"
    | "(p ! i) AND 0xF0 = 0xE0" "len = 3" "cp = ucast (p ! i AND 0x0F)" "mn = 0x800"
    | "(p ! i) AND 0xF8 = 0xF0" "len = 4" "cp = ucast (p ! i AND 0x07)" "mn = 0x10000"
    using assms(2) by (auto simp: utf8_lead_strict_def split: if_splits)
  then show "take len (drop i p) = utf8_encode cp'"
  proof cases
    case 1
    with assms show ?thesis
      using utf8_encode_of_parts(1) [of "p ! i" "p ! (i + 1)"] td by (auto split: if_splits)
  next
    case 2
    with assms show ?thesis
      using utf8_encode_of_parts(2) [of "p ! i" "p ! (i + 1)" "p ! (i + 2)"] td
      by (auto simp: numeral_2_eq_2 split: if_splits)
  next
    case 3
    with assms show ?thesis
      using utf8_encode_of_parts(3) [of "p ! i" "p ! (i + 1)" "p ! (i + 2)" "p ! (i + 3)"] td
      by (auto simp: numeral_3_eq_3 numeral_2_eq_2 split: if_splits)
  qed
qed

lemma text_of_step: "take len (drop i p) = e \<Longrightarrow> drop (i + len) p = r \<Longrightarrow> drop i p = e @ r"
  by (metis append_take_drop_id drop_drop add.commute)

lemma utf8_valid_from_sound:
  "utf8_valid_from p i = r \<Longrightarrow> i \<le> length p \<Longrightarrow>
   (case r of
      None \<Rightarrow> \<exists>cps. utf8_scalars cps \<and> drop i p = utf8_text cps
    | Some b \<Rightarrow> i \<le> b \<and> b < length p \<and> (\<exists>cps. utf8_scalars cps \<and> take (b - i) (drop i p) = utf8_text cps))"
proof (induction p i arbitrary: r rule: utf8_valid_from.induct)
  case (1 p i)
  let ?P = "\<lambda>r i. case r of None \<Rightarrow> \<exists>cps. utf8_scalars cps \<and> drop i p = utf8_text cps
    | Some b \<Rightarrow> i \<le> b \<and> b < length p \<and> (\<exists>cps. utf8_scalars cps \<and> take (b - i) (drop i p) = utf8_text cps)"
  have nil: "?P None i" if "length p \<le> i" using that by (auto intro: exI [of _ "[]"])
  have here: "?P (Some i) i" if "i < length p" using that by (auto intro: exI [of _ "[]"])
  have adv: "?P r i" if e: "take len (drop i p) = utf8_encode cp" "utf8_scalar cp" "?P r (i + len)"
    "i + len \<le> length p" for r len cp
  proof (cases r)
    case None
    with e obtain cps where "utf8_scalars cps" "drop (i + len) p = utf8_text cps" by auto
    then have "drop i p = utf8_text (cp # cps)" "utf8_scalars (cp # cps)"
      using text_of_step [OF e(1)] e(2) by simp_all
    with None show ?thesis by (auto intro: exI [of _ "cp # cps"])
  next
    case (Some b)
    with e obtain cps where c: "i + len \<le> b" "b < length p" "utf8_scalars cps"
      "take (b - (i + len)) (drop (i + len) p) = utf8_text cps" by auto
    obtain k where k: "b = i + len + k" using c(1) le_Suc_ex by blast
    have "take (b - i) (drop i p) = take len (drop i p) @ take (b - (i + len)) (drop (i + len) p)"
      by (simp add: k take_add add.commute [of len i])
    then have "take (b - i) (drop i p) = utf8_text (cp # cps)" "utf8_scalars (cp # cps)"
      using c e by simp_all
    with Some c show ?thesis by (auto intro: exI [of _ "cp # cps"])
  qed
  show ?case
  proof (cases "i < length p")
    case False
    then have "utf8_valid_from p i = None" by (subst utf8_valid_from.simps) simp
    with 1(3) have "r = None" by simp
    with nil False show ?thesis by simp
  next
    case True
    note here = here [OF True]
    show ?thesis
    proof (cases "p ! i < 0x80")
      case a: True
      then have v: "utf8_valid_from p i = utf8_valid_from p (i + 1)"
        using True by (subst utf8_valid_from.simps) simp
      have e: "take 1 (drop i p) = utf8_encode (ucast (p ! i))"
        using True a ascii_word [OF a] by (simp add: utf8_encode_def take_Suc_conv_app_nth)
      have sc: "utf8_scalar (ucast (p ! i))"
        using ascii_word [OF a] by (auto simp: utf8_scalar_def word_le_nat_alt word_less_nat_alt)
      show ?thesis
        by (rule adv [OF e sc]) (use 1 True a v in auto)
    next
      case a: False
      show ?thesis
      proof (cases "utf8_lead_strict (p ! i)")
        case None
        with True a have "utf8_valid_from p i = Some i" by (subst utf8_valid_from.simps) simp
        with 1(3) have "r = Some i" by simp
          with here show ?thesis by simp
      next
        case l: (Some t)
        obtain len cp mn where t: "t = (len, cp, mn)" by (cases t)
        show ?thesis
        proof (cases "i + len \<le> length p \<and> (\<exists>cp'. utf8_valid_cont p (i + 1) (len - 1) cp = Some cp' \<and> 
            \<not> (cp' < mn \<or> cp' > 0x10FFFF \<or> (cp' \<ge> 0xD800 \<and> cp' \<le> 0xDFFF)))")
          case f: False
          have "utf8_valid_from p i = Some i"
            using True a l t f by (subst utf8_valid_from.simps) (auto split: option.splits)
          with 1(3) have "r = Some i" by simp
          with here show ?thesis by simp
        next
          case f: True
          then obtain cp' where cp': "utf8_valid_cont p (i + 1) (len - 1) cp = Some cp'"
            "\<not> (cp' < mn \<or> cp' > 0x10FFFF \<or> (cp' \<ge> 0xD800 \<and> cp' \<le> 0xDFFF))" by blast
          have v: "utf8_valid_from p i = utf8_valid_from p (i + len)"
            using True a l t f cp' by (subst utf8_valid_from.simps) auto
          note st = utf8_valid_step [OF a l [unfolded t] _ cp']
          have "?P r (i + len)"
            using 1(2) [OF True a l t [symmetric]] f cp' v 1(3) by auto
          then show ?thesis
            using st f by (auto intro: adv)
        qed
      qed
    qed
  qed
qed

section \<open>Every walk stays inside the string\<close>

lemma utf8_decode_at_bounded:
  assumes "off \<le> length s" "c_at s off = Some c" "c \<noteq> 0"
  obtains cp off' where "utf8_decode_at s off = Some (cp, off')" "off' \<le> length s"
  using utf8_decode_at_in_bounds [of off s] c_at_nonzero_less [OF assms(2,3)] by blast

lemma c_at_in: "off \<le> length s \<Longrightarrow> \<exists>c. c_at s off = Some c"
  by (simp add: c_at_def)

lemma utf8_strlen_from_total: "off \<le> length s \<Longrightarrow> utf8_strlen_from s off n \<noteq> None"
proof (induction s off n rule: utf8_strlen_from.induct)
  case (1 s off n)
  obtain c where c: "c_at s off = Some c" using c_at_in [OF 1(2)] by blast
  show ?case
  proof (cases "c = 0")
    case False
    then obtain cp off' where "utf8_decode_at s off = Some (cp, off')" "off' \<le> length s"
      using utf8_decode_at_bounded [OF 1(2) c] by blast
    with 1(1) c False show ?thesis by (subst utf8_strlen_from.simps) simp
  qed (subst utf8_strlen_from.simps, simp add: c)
qed

lemma utf8_index_from_total: "off \<le> length s \<Longrightarrow> utf8_index_from s off k i \<noteq> None"
proof (induction s off k i rule: utf8_index_from.induct)
  case (1 s off k i)
  obtain c where c: "c_at s off = Some c" using c_at_in [OF 1(2)] by blast
  show ?case
  proof (cases "c = 0")
    case False
    then obtain cp off' where "utf8_decode_at s off = Some (cp, off')" "off' \<le> length s"
      using utf8_decode_at_bounded [OF 1(2) c] by blast
    with 1(1) c False show ?thesis by (subst utf8_index_from.simps) simp
  qed (subst utf8_index_from.simps, simp add: c)
qed

lemma utf8_byte_offset_from_total:
  "off \<le> length s \<Longrightarrow> \<exists>o'. utf8_byte_offset_from s off k i = Some o' \<and> o' \<le> length s"
proof (induction s off k i rule: utf8_byte_offset_from.induct)
  case (1 s off k i)
  obtain c where c: "c_at s off = Some c" using c_at_in [OF 1(2)] by blast
  show ?case
  proof (cases "c \<noteq> 0 \<and> k < i")
    case True
    then obtain cp off' where "utf8_decode_at s off = Some (cp, off')" "off' \<le> length s"
      using utf8_decode_at_bounded [OF 1(2) c] by blast
    with 1(1) c True show ?thesis by (subst utf8_byte_offset_from.simps) simp
  next
    case False
    with 1(2) c show ?thesis by (subst utf8_byte_offset_from.simps) auto
  qed
qed

lemma utf8_count_bytes_from_total: "off \<le> length s \<Longrightarrow> utf8_count_bytes_from s nb off n \<noteq> None"
proof (induction s nb off n rule: utf8_count_bytes_from.induct)
  case (1 s nb off n)
  obtain c where c: "c_at s off = Some c" using c_at_in [OF 1(2)] by blast
  show ?case
  proof (cases "c = 0 \<or> \<not> off < nb")
    case False
    then have "c \<noteq> 0" by simp
    then obtain cp off' where "utf8_decode_at s off = Some (cp, off')" "off' \<le> length s"
      using utf8_decode_at_bounded [OF 1(2) c] by blast
    with 1(1) c False show ?thesis by (subst utf8_count_bytes_from.simps) auto
  next
    case True
    with c show ?thesis by (subst utf8_count_bytes_from.simps) auto
  qed
qed

section \<open>The stream decoder\<close>

lemma utf8_decode_stream_encode:
  assumes "unat cp < 0x200000"
  shows "utf8_decode_stream (hd (utf8_encode cp)) (tl (utf8_encode cp) @ rest) = (cp, rest)"
proof -
  note step = utf8_encode_cont utf8_encode_lead_high
  have j: "\<And>k. utf8_join (drop_bit (6 + k) cp) (ucast (0x80 OR (drop_bit k cp AND 0x3F) :: u32)) = drop_bit k cp"
    using utf8_join_encoded [of "drop_bit k cp" for k] by (simp add: drop_bit_drop_bit)
  note joins = j [of 6, simplified] j [of 12, simplified] utf8_join_encoded
  consider "cp < 0x80" | "\<not> cp < 0x80" "cp < 0x800" "unat cp < 0x800"
    | "\<not> cp < 0x80" "\<not> cp < 0x800" "cp < 0x10000" "unat cp < 0x10000"
    | "\<not> cp < 0x80" "\<not> cp < 0x800" "\<not> cp < 0x10000"
    by (auto simp: word_less_nat_alt)
  then show ?thesis
  proof cases
    case 1
    then show ?thesis by (simp add: utf8_decode_stream_def utf8_encode_def ucast_ascii)
  next
    case 2
    then show ?thesis
      by (simp add: utf8_decode_stream_def utf8_encode_def step utf8_encode2_lead joins)
  next
    case 3
    then show ?thesis
      by (simp add: utf8_decode_stream_def utf8_encode_def step utf8_encode3_lead joins numeral_2_eq_2)
  next
    case 4
    with assms show ?thesis
      by (simp add: utf8_decode_stream_def utf8_encode_def step utf8_encode4_lead joins
          numeral_3_eq_3 numeral_2_eq_2)
  qed
qed

section \<open>Properties\<close>

text \<open>
  C30. Every codepoint below 2^21 is decoded back from its encoding, wherever it stands in
  a string, and the decoder stops right after it; the stream decoder returns the same
  codepoint and leaves the rest of the stream.
\<close>

theorem utf8_decode_encode:
  assumes "unat cp < 0x200000"
  shows "utf8_decode_at (pre @ utf8_encode cp @ post) (length pre)
           = Some (cp, length pre + length (utf8_encode cp))
         \<and> utf8_decode_stream (hd (utf8_encode cp)) (tl (utf8_encode cp) @ post) = (cp, post)"
  using utf8_decode_at_shift [of pre "utf8_encode cp @ post" 0] utf8_decode_encode_0 [OF assms]
    utf8_decode_stream_encode [OF assms] by simp

theorem utf8_decode_encode_witness:
  "utf8_decode_at ([0x41] @ utf8_encode 0x20AC @ [0x42]) 1
     = Some (0x20AC, 1 + length (utf8_encode 0x20AC))"
  using utf8_decode_encode [of "0x20AC" "[0x41]" "[0x42]"] by simp

text \<open>
  On the encoding of nonzero codepoints, the walks agree with the list: the length is
  the number of codepoints, indexing selects the codepoint (and reports an index outside
  the list), the byte offset of an index is the length of the encoding of the codepoints
  before it, and counting codepoints up to that offset returns the index.
\<close>

theorem utf8_walks_on_text:
  assumes "utf8_text_ok cps"
  shows "utf8_strlen (utf8_text cps) = Some (int (length cps))
    \<and> utf8_index (utf8_text cps) i
        = Some (if 0 \<le> i \<and> nat i < length cps then Some (cps ! nat i) else None)
    \<and> utf8_byte_offset (utf8_text cps) i = Some (length (utf8_text (take (nat i) cps)))
    \<and> utf8_count_bytes (utf8_text cps) (length (utf8_text (take (nat i) cps)))
        = Some (int (min (nat i) (length cps)))"
  using utf8_strlen_from_text [OF assms, of "[]" 0] utf8_index_from_text [OF assms, of 0 i "[]"]
    utf8_byte_offset_from_text [OF assms, of "[]" 0 i]
    utf8_count_bytes_from_text [OF assms, of "[]" "nat i" 0]
  by (auto simp: utf8_strlen_def utf8_index_def utf8_byte_offset_def utf8_count_bytes_def)

theorem utf8_walks_on_text_witness:
  "utf8_strlen (utf8_text [0x41, 0xE9, 0x20AC, 0x1F600]) = Some 4
   \<and> utf8_index (utf8_text [0x41, 0xE9, 0x20AC, 0x1F600]) 2 = Some (Some 0x20AC)"
  using utf8_walks_on_text [of "[0x41, 0xE9, 0x20AC, 0x1F600]" 2] by simp

text \<open>
  The walks are total on every byte string, well-formed or not: each returns, no
  read passes the terminating NUL, and the byte offset is inside the string.
\<close>

theorem utf8_walks_in_bounds:
  "utf8_strlen s \<noteq> None \<and> utf8_index s i \<noteq> None \<and> utf8_count_bytes s nb \<noteq> None
   \<and> (\<exists>o'. utf8_byte_offset s i = Some o' \<and> o' \<le> length s)"
  using utf8_strlen_from_total [of 0 s] utf8_index_from_total [of 0 s]
    utf8_count_bytes_from_total [of 0 s] utf8_byte_offset_from_total [of 0 s]
  by (simp add: utf8_strlen_def utf8_index_def utf8_count_bytes_def utf8_byte_offset_def)

text \<open>
  C16. The validator accepts exactly the encodings of sequences of Unicode scalar values
  (no overlong form, surrogate or value above U+10FFFF), and the offset it reports
  otherwise lies in the input, after a valid prefix.
\<close>

theorem utf8_valid_exact:
  "case utf8_valid p of
     None \<Rightarrow> \<exists>cps. utf8_scalars cps \<and> p = utf8_text cps
   | Some b \<Rightarrow> b < length p \<and> (\<exists>cps. utf8_scalars cps \<and> take b p = utf8_text cps)
       \<and> (\<nexists>cps. utf8_scalars cps \<and> p = utf8_text cps)"
  using utf8_valid_from_sound [OF refl, of 0 p] utf8_valid_from_text [of _ "[]"]
  by (auto simp: utf8_valid_def split: option.splits)

text \<open>
  The stream decoder keeps the bits it collected when a sequence is malformed: a lead
  byte 0xC3 before an ASCII byte decodes to 3, not to the lead byte.
\<close>

lemma utf8_decode_stream_malformed: "utf8_decode_stream 0xC3 [0x41] = (3, [0x41])"
  by (simp add: utf8_decode_stream_def utf8_lead_def)

end
