(* ===== verification/Interfaces.thy ===== *)
theory Interfaces
  imports Prelude
begin

text \<open>
  The contracts several components share, as locales: a key-value store (the chained
  dictionary and the persistent trie of the sources), a
  self-delimiting byte codec, and a double-ended queue.  The lemmas a client needs are
  proved here once; each providing component interprets the locale on its own model.
\<close>

section \<open>Key-value stores\<close>

text \<open>
  \<open>keyof\<close> is the identity of a key: two keys address the same entry when it agrees
  (a C string up to its terminator, a value up to the language's equality).
  \<open>legal\<close> bounds the keys the laws speak of.
\<close>

locale kv_store =
  fixes empty :: "'s"
    and lookup :: "'s \<Rightarrow> 'k \<Rightarrow> 'v option"
    and update :: "'s \<Rightarrow> 'k \<Rightarrow> 'v \<Rightarrow> 's"
    and delete :: "'s \<Rightarrow> 'k \<Rightarrow> 's"
    and invar :: "'s \<Rightarrow> bool"
    and keyof :: "'k \<Rightarrow> 'i"
    and legal :: "'k \<Rightarrow> bool"
  assumes invar_empty: "invar empty"
    and invar_update: "invar s \<Longrightarrow> legal k \<Longrightarrow> invar (update s k v)"
    and invar_delete: "invar s \<Longrightarrow> legal k \<Longrightarrow> invar (delete s k)"
    and lookup_empty: "legal k \<Longrightarrow> lookup empty k = None"
    and lookup_update: "invar s \<Longrightarrow> legal k \<Longrightarrow> legal k' \<Longrightarrow>
      lookup (update s k v) k' = (if keyof k' = keyof k then Some v else lookup s k')"
    and lookup_delete: "invar s \<Longrightarrow> legal k \<Longrightarrow> legal k' \<Longrightarrow>
      lookup (delete s k) k' = (if keyof k' = keyof k then None else lookup s k')"

datatype ('k, 'v) kv_op = Kv_put 'k 'v | Kv_del 'k | Kv_get 'k

fun kv_key :: "('k, 'v) kv_op \<Rightarrow> 'k" where
  "kv_key (Kv_put k v) = k"
| "kv_key (Kv_del k) = k"
| "kv_key (Kv_get k) = k"

text \<open>A client's session on a store: the answers of its lookups and the final state.\<close>

fun kv_run :: "('s \<Rightarrow> 'k \<Rightarrow> 'v option) \<Rightarrow> ('s \<Rightarrow> 'k \<Rightarrow> 'v \<Rightarrow> 's) \<Rightarrow> ('s \<Rightarrow> 'k \<Rightarrow> 's)
    \<Rightarrow> ('k, 'v) kv_op list \<Rightarrow> 's \<Rightarrow> 'v option list \<times> 's" where
  "kv_run lk up de [] s = ([], s)"
| "kv_run lk up de (Kv_put k v # ops) s = kv_run lk up de ops (up s k v)"
| "kv_run lk up de (Kv_del k # ops) s = kv_run lk up de ops (de s k)"
| "kv_run lk up de (Kv_get k # ops) s = (let (r, s') = kv_run lk up de ops s in (lk s k # r, s'))"

text \<open>The same session on a finite map.\<close>

fun kv_spec :: "('k \<Rightarrow> 'i) \<Rightarrow> ('k, 'v) kv_op list \<Rightarrow> ('i \<rightharpoonup> 'v) \<Rightarrow> 'v option list \<times> ('i \<rightharpoonup> 'v)" where
  "kv_spec ky [] m = ([], m)"
| "kv_spec ky (Kv_put k v # ops) m = kv_spec ky ops (m(ky k \<mapsto> v))"
| "kv_spec ky (Kv_del k # ops) m = kv_spec ky ops (m(ky k := None))"
| "kv_spec ky (Kv_get k # ops) m = (let (r, m') = kv_spec ky ops m in (m (ky k) # r, m'))"

definition kv_legal :: "('k \<Rightarrow> bool) \<Rightarrow> ('k, 'v) kv_op list \<Rightarrow> bool" where
  "kv_legal lg ops = list_all (\<lambda>p. lg (kv_key p)) ops"

context kv_store
begin

lemma run_refines:
  assumes "invar s" "kv_legal legal ops" "\<And>k. legal k \<Longrightarrow> lookup s k = m (keyof k)"
  shows "fst (kv_run lookup update delete ops s) = fst (kv_spec keyof ops m)
    \<and> invar (snd (kv_run lookup update delete ops s))
    \<and> (\<forall>k. legal k \<longrightarrow> lookup (snd (kv_run lookup update delete ops s)) k
                          = snd (kv_spec keyof ops m) (keyof k))"
  using assms
proof (induction ops arbitrary: s m)
  case (Cons p ops)
  show ?case
  proof (cases p)
    case (Kv_put k v)
    with Cons.prems have l: "legal k" "kv_legal legal ops" by (simp_all add: kv_legal_def)
    show ?thesis
      unfolding Kv_put kv_run.simps kv_spec.simps
      by (rule Cons.IH) (use l Cons.prems in \<open>simp_all add: invar_update lookup_update\<close>)
  next
    case (Kv_del k)
    with Cons.prems have l: "legal k" "kv_legal legal ops" by (simp_all add: kv_legal_def)
    show ?thesis
      unfolding Kv_del kv_run.simps kv_spec.simps
      by (rule Cons.IH) (use l Cons.prems in \<open>simp_all add: invar_delete lookup_delete\<close>)
  next
    case (Kv_get k)
    with Cons.prems have l: "legal k" "kv_legal legal ops" by (simp_all add: kv_legal_def)
    then show ?thesis
      using Cons.IH [of s m] Cons.prems Kv_get by (auto simp: split_beta)
  qed
qed simp

lemma run_from_empty:
  assumes "kv_legal legal ops"
  shows "fst (kv_run lookup update delete ops empty) = fst (kv_spec keyof ops (\<lambda>_. None))
    \<and> invar (snd (kv_run lookup update delete ops empty))"
  using run_refines [OF invar_empty assms, of "\<lambda>_. None"] by (simp add: lookup_empty)

lemma update_idem:
  "invar s \<Longrightarrow> legal k \<Longrightarrow> legal k' \<Longrightarrow> lookup (update (update s k v) k w) k' = lookup (update s k w) k'"
  by (simp add: lookup_update invar_update)

lemma delete_update:
  "invar s \<Longrightarrow> legal k \<Longrightarrow> legal k' \<Longrightarrow> lookup (delete (update s k v) k) k' = lookup (delete s k) k'"
  by (simp add: lookup_update lookup_delete invar_update)

end

section \<open>Self-delimiting byte codecs\<close>

text \<open>
  Writers that return the bytes they append, or \<open>None\<close> when they fail: two in a row,
  and one for each element of a list.
\<close>

definition put_and :: "bytes option \<Rightarrow> bytes option \<Rightarrow> bytes option" where
  "put_and a b = (case a of None \<Rightarrow> None | Some x \<Rightarrow> map_option ((@) x) b)"

fun put_all :: "('a \<Rightarrow> bytes option) \<Rightarrow> 'a list \<Rightarrow> bytes option" where
  "put_all put [] = Some []"
| "put_all put (x # xs) = put_and (put x) (put_all put xs)"

lemma put_and_Some: "(put_and a b = Some bs) = (\<exists>x y. a = Some x \<and> b = Some y \<and> bs = x @ y)"
  by (auto simp: put_and_def split: option.splits)

text \<open>Reading a given number of values in a row, as array decoders do.\<close>

fun dec_many :: "(bytes \<Rightarrow> ('a \<times> bytes) option) \<Rightarrow> nat \<Rightarrow> bytes \<Rightarrow> ('a list \<times> bytes) option" where
  "dec_many dc 0 bs = Some ([], bs)"
| "dec_many dc (Suc n) bs =
     (case dc bs of
        None \<Rightarrow> None
      | Some (x, r) \<Rightarrow> map_option (\<lambda>(xs, r'). (x # xs, r')) (dec_many dc n r))"

text \<open>
  An encoder that may refuse a value and a decoder: the decoder reads one encoded value
  from the front of any input and returns the rest.  What it reads of the value \<open>x\<close> is
  \<open>view x\<close>, for the values \<open>ok\<close> holds of.
\<close>

locale byte_codec =
  fixes enc :: "'a \<Rightarrow> bytes option"
    and dec :: "bytes \<Rightarrow> ('b \<times> bytes) option"
    and view :: "'a \<Rightarrow> 'b"
    and ok :: "'a \<Rightarrow> bool"
  assumes dec_enc: "ok x \<Longrightarrow> enc x = Some bs \<Longrightarrow> dec (bs @ rest) = Some (view x, rest)"
    and enc_nonempty: "ok x \<Longrightarrow> enc x = Some bs \<Longrightarrow> bs \<noteq> []"
begin

lemma dec_enc_alone: "ok x \<Longrightarrow> enc x = Some bs \<Longrightarrow> dec bs = Some (view x, [])"
  using dec_enc [of x bs "[]"] by simp

lemma enc_prefix_free:
  assumes "ok x" "ok y" "enc x = Some bs" "enc y = Some cs" "bs @ r = cs @ r'"
  shows "view x = view y \<and> r = r'"
  using dec_enc [OF assms(1,3), of r] dec_enc [OF assms(2,4), of r'] by (simp only: assms(5)) simp

lemma enc_inj: "ok x \<Longrightarrow> ok y \<Longrightarrow> enc x = Some bs \<Longrightarrow> enc y = Some bs \<Longrightarrow> view x = view y"
  using enc_prefix_free [of x y bs bs "[]" "[]"] by blast

lemma dec_many_enc:
  "list_all ok xs \<Longrightarrow> put_all enc xs = Some bs \<Longrightarrow>
   dec_many dec (length xs) (bs @ rest) = Some (map view xs, rest)"
proof (induction xs arbitrary: bs)
  case (Cons x xs)
  then obtain b c where bc: "enc x = Some b" "put_all enc xs = Some c" "bs = b @ c"
    by (auto simp: put_and_Some)
  with Cons show ?case using dec_enc [of x b "c @ rest"] by simp
qed simp

lemma put_all_length: "list_all ok xs \<Longrightarrow> put_all enc xs = Some bs \<Longrightarrow> length xs \<le> length bs"
proof (induction xs arbitrary: bs)
  case (Cons x xs)
  then obtain b c where bc: "enc x = Some b" "put_all enc xs = Some c" "bs = b @ c"
    by (auto simp: put_and_Some)
  have "Suc 0 \<le> length b" using Cons.prems(1) enc_nonempty [OF _ bc(1)] by (cases b) simp_all
  moreover have "length xs \<le> length c" using Cons.IH [OF _ bc(2)] Cons.prems(1) by simp
  ultimately show ?case unfolding bc(3) length_Cons length_append by linarith
qed simp

end

section \<open>Double-ended queues\<close>

text \<open>
  \<open>rep s xs\<close> says that the representation \<open>s\<close> holds the elements
  \<open>xs\<close>.  Popping returns the element, or \<open>None\<close> when there is none.
\<close>

locale deque_adt =
  fixes rep :: "'s \<Rightarrow> 'v list \<Rightarrow> bool"
    and push_right :: "'v \<Rightarrow> 's \<Rightarrow> 's"
    and push_left :: "'v \<Rightarrow> 's \<Rightarrow> 's"
    and pop_right :: "'s \<Rightarrow> 's \<times> 'v option"
    and pop_left :: "'s \<Rightarrow> 's \<times> 'v option"
  assumes rep_push_right: "rep s xs \<Longrightarrow> rep (push_right v s) (xs @ [v])"
    and rep_push_left: "rep s xs \<Longrightarrow> rep (push_left v s) (v # xs)"
    and rep_pop_right: "rep s xs \<Longrightarrow> rep (fst (pop_right s)) (butlast xs)
      \<and> snd (pop_right s) = (if xs = [] then None else Some (last xs))"
    and rep_pop_left: "rep s xs \<Longrightarrow> rep (fst (pop_left s)) (tl xs)
      \<and> snd (pop_left s) = (if xs = [] then None else Some (hd xs))"

datatype 'v deque_op = Push_right 'v | Push_left 'v | Pop_right | Pop_left

fun deque_run :: "('v \<Rightarrow> 's \<Rightarrow> 's) \<Rightarrow> ('v \<Rightarrow> 's \<Rightarrow> 's) \<Rightarrow> ('s \<Rightarrow> 's \<times> 'v option) \<Rightarrow> ('s \<Rightarrow> 's \<times> 'v option)
    \<Rightarrow> 'v deque_op list \<Rightarrow> 's \<Rightarrow> 'v option list \<times> 's" where
  "deque_run pr pl qr ql [] s = ([], s)"
| "deque_run pr pl qr ql (Push_right v # ops) s = deque_run pr pl qr ql ops (pr v s)"
| "deque_run pr pl qr ql (Push_left v # ops) s = deque_run pr pl qr ql ops (pl v s)"
| "deque_run pr pl qr ql (Pop_right # ops) s =
     (let (r, s') = deque_run pr pl qr ql ops (fst (qr s)) in (snd (qr s) # r, s'))"
| "deque_run pr pl qr ql (Pop_left # ops) s =
     (let (r, s') = deque_run pr pl qr ql ops (fst (ql s)) in (snd (ql s) # r, s'))"

text \<open>The same session on a list.\<close>

fun deque_spec :: "'v deque_op list \<Rightarrow> 'v list \<Rightarrow> 'v option list \<times> 'v list" where
  "deque_spec [] xs = ([], xs)"
| "deque_spec (Push_right v # ops) xs = deque_spec ops (xs @ [v])"
| "deque_spec (Push_left v # ops) xs = deque_spec ops (v # xs)"
| "deque_spec (Pop_right # ops) xs =
     (let (r, ys) = deque_spec ops (butlast xs) in ((if xs = [] then None else Some (last xs)) # r, ys))"
| "deque_spec (Pop_left # ops) xs =
     (let (r, ys) = deque_spec ops (tl xs) in ((if xs = [] then None else Some (hd xs)) # r, ys))"

context deque_adt
begin

lemma run_refines_list:
  assumes "rep s xs"
  shows "fst (deque_run push_right push_left pop_right pop_left ops s) = fst (deque_spec ops xs)
    \<and> rep (snd (deque_run push_right push_left pop_right pop_left ops s)) (snd (deque_spec ops xs))"
  using assms
proof (induction ops arbitrary: s xs)
  case (Cons p ops)
  show ?case
  proof (cases p)
    case (Push_right v)
    then show ?thesis using Cons.IH [OF rep_push_right [OF Cons.prems]] by simp
  next
    case (Push_left v)
    then show ?thesis using Cons.IH [OF rep_push_left [OF Cons.prems]] by simp
  next
    case Pop_right
    then show ?thesis using Cons.IH [of "fst (pop_right s)" "butlast xs"] rep_pop_right [OF Cons.prems]
      by (simp add: split_beta Let_def)
  next
    case Pop_left
    then show ?thesis using Cons.IH [of "fst (pop_left s)" "tl xs"] rep_pop_left [OF Cons.prems]
      by (simp add: split_beta Let_def)
  qed
qed simp

end

end
