(* ===== verification/Dict.thy ===== *)
theory Dict
  imports Interfaces
begin

text \<open>
  The chained hash table of \<open>dict.h\<close> (\<open>dict_t\<close>): the Bernstein hash, creation,
  copy, the combined lookup and insertion \<open>set_get_keyval_dict\<close> with its growth, the
  timestamps, and deletion.  Dictionaries hold the program's variable bindings, the
  language's dicts and sets.  The second table \<open>ht[1]\<close> of the C structure is never
  filled, and is not modelled; allocation does not fail.
\<close>

section \<open>State\<close>

text \<open>The content of a C string: the bytes before its first NUL.\<close>

definition c_str :: "bytes \<Rightarrow> bytes" where
  "c_str s = takeWhile (\<lambda>b. b \<noteq> 0) s"

datatype 'v keyval = Keyval (kv_name: bytes) (kv_val: 'v) (kv_timestamp: int)

text \<open>
  A dictionary is its bucket array (empty for the \<open>NULL\<close> table of size 0), each bucket
  its chain in order, and the entry count \<open>used\<close>.  The size and its mask are the
  array's length.
\<close>

datatype 'v dict = Dict (dict_table: "'v keyval list list") (dict_used: nat)

definition dict_size :: "'v dict \<Rightarrow> nat" where
  "dict_size d = length (dict_table d)"

section \<open>Hashing\<close>

definition bernstein_seed :: u32 where
  "bernstein_seed = 3102"

definition bernstein_step :: "u32 \<Rightarrow> byte \<Rightarrow> u32" where
  "bernstein_step hash b = (hash + push_bit 5 hash) XOR ucast b"

definition bernstein_hash :: "bytes \<Rightarrow> u32" where
  "bernstein_hash key = foldl bernstein_step bernstein_seed key"

fun bernstein_hash_z_from :: "u32 \<Rightarrow> bytes \<Rightarrow> u32" where
  "bernstein_hash_z_from hash [] = hash"
| "bernstein_hash_z_from hash (b # p) =
     (if b = 0 then hash else bernstein_hash_z_from (bernstein_step hash b) p)"

definition bernstein_hash_z :: "bytes \<Rightarrow> u32" where
  "bernstein_hash_z key = bernstein_hash_z_from bernstein_seed key"

definition tolower :: "byte \<Rightarrow> byte" where
  "tolower b = (if 0x41 \<le> b \<and> b \<le> 0x5A then b + 0x20 else b)"

definition bernstein_uhash :: "bytes \<Rightarrow> u32" where
  "bernstein_uhash key = foldl (\<lambda>hash b. (hash + push_bit 5 hash) XOR ucast (tolower b)) bernstein_seed key"

section \<open>Operations\<close>

definition create_dict :: "'v dict" where
  "create_dict = Dict [] 0"

definition strcmp_eq :: "bytes \<Rightarrow> bytes \<Rightarrow> bool" where
  "strcmp_eq a b = (c_str a = c_str b)"

definition dict_strdup :: "bytes \<Rightarrow> bytes" where
  "dict_strdup s = c_str s"

text \<open>The bucket of a hash: the mask is an \<open>unsigned long\<close> of the table's size.\<close>

definition dict_slot :: "u32 \<Rightarrow> nat \<Rightarrow> nat" where
  "dict_slot h n = unat ((ucast h :: u64) AND (of_nat n - 1))"

text \<open>The rehash links every entry at the head of its new chain, in table order.\<close>

definition rehash_link :: "u32 \<Rightarrow> 'v keyval \<Rightarrow> 'v keyval list list \<Rightarrow> 'v keyval list list" where
  "rehash_link new_mask k t =
     (let slot = unat (bernstein_hash_z (kv_name k) AND new_mask) in t[slot := k # t ! slot])"

definition dict_rehash :: "'v dict \<Rightarrow> u32 \<Rightarrow> 'v dict" where
  "dict_rehash d new_size =
     (if new_size = 0 \<or> (new_size AND (new_size - 1)) \<noteq> 0 then d
      else Dict (fold (rehash_link (new_size - 1)) (concat (dict_table d))
                   (replicate (unat new_size) []))
                (dict_used d))"

text \<open>The walk down a chain, stopping at the key's entry or at the last one.\<close>

fun chain_find :: "bytes \<Rightarrow> 'v keyval list \<Rightarrow> 'v keyval option" where
  "chain_find key [] = None"
| "chain_find key (k # ks) = (if strcmp_eq key (kv_name k) then Some k else chain_find key ks)"

text \<open>
  Insertion in a chain: the entry with the key keeps its name and timestamp and takes the
  value; otherwise a zeroed entry is linked at the end.  The flag says that an entry was
  added, the last component is the entry.
\<close>

fun chain_put :: "bytes \<Rightarrow> 'v \<Rightarrow> 'v keyval list \<Rightarrow> 'v keyval list \<times> bool \<times> 'v keyval" where
  "chain_put key val [] =
     (let k = Keyval (dict_strdup key) val 0 in ([k], True, k))"
| "chain_put key val (k # ks) =
     (if strcmp_eq key (kv_name k) then
        (let k' = Keyval (kv_name k) val (kv_timestamp k) in (k' # ks, False, k'))
      else (let (ks', added, r) = chain_put key val ks in (k # ks', added, r)))"

definition dict_grow :: "'v dict \<Rightarrow> 'v dict" where
  "dict_grow d =
     (if dict_used d \<ge> dict_size d
      then dict_rehash d (if dict_size d \<ge> (2 ^ 32 - 1) div 2 then of_nat (dict_size d)
                          else of_nat (dict_size d * 2))
      else d)"

definition DICT_KVHT_INITIAL_SIZE :: nat where
  "DICT_KVHT_INITIAL_SIZE = 32"

text \<open>
  \<open>set_get_keyval_dict\<close>: a lookup when \<open>val\<close> is \<open>None\<close> (the \<open>NULL\<close> of
  the C code), otherwise an insertion that returns the entry.
\<close>

definition set_get_keyval_dict :: "'v dict \<Rightarrow> bytes \<Rightarrow> 'v option \<Rightarrow> 'v dict \<times> 'v keyval option" where
  "set_get_keyval_dict d key val =
     (let h = bernstein_hash_z key; t = dict_table d in
      case val of
        None \<Rightarrow>
          (d, if dict_size d = 0 then None else chain_find key (t ! dict_slot h (dict_size d)))
      | Some v \<Rightarrow>
          if dict_size d = 0 then
            (let t0 = replicate DICT_KVHT_INITIAL_SIZE [];
                 i = dict_slot h DICT_KVHT_INITIAL_SIZE;
                 (c, added, k) = chain_put key v (t0 ! i)
             in (dict_grow (Dict (t0[i := c]) (dict_used d + 1)), Some k))
          else
            (let i = dict_slot h (dict_size d);
                 (c, added, k) = chain_put key v (t ! i)
             in (dict_grow (Dict (t[i := c]) (if added then dict_used d + 1 else dict_used d)),
                 Some k)))"

definition dict_copy :: "'v dict option \<Rightarrow> 'v dict option" where
  "dict_copy src =
     (case src of
        None \<Rightarrow> None
      | Some s \<Rightarrow> Some (fold (\<lambda>kv dst. fst (set_get_keyval_dict dst (kv_name kv) (Some (kv_val kv))))
                         (concat (dict_table s)) create_dict))"

fun chain_stamp :: "bytes \<Rightarrow> int \<Rightarrow> 'v keyval list \<Rightarrow> 'v keyval list" where
  "chain_stamp key ts [] = []"
| "chain_stamp key ts (k # ks) =
     (if strcmp_eq key (kv_name k) then Keyval (kv_name k) (kv_val k) ts # ks
      else k # chain_stamp key ts ks)"

definition set_keyval_dict_timestamp :: "'v dict \<Rightarrow> bytes \<Rightarrow> int \<Rightarrow> 'v dict \<times> 'v option" where
  "set_keyval_dict_timestamp d key timestamp =
     (case snd (set_get_keyval_dict d key None) of
        None \<Rightarrow> (d, None)
      | Some k \<Rightarrow>
          (let i = dict_slot (bernstein_hash_z key) (dict_size d) in
           (Dict ((dict_table d)[i := chain_stamp key timestamp (dict_table d ! i)]) (dict_used d),
            Some (kv_val k))))"

definition get_keyval_dict_timestamp :: "'v dict \<Rightarrow> bytes \<Rightarrow> int" where
  "get_keyval_dict_timestamp d key =
     (case snd (set_get_keyval_dict d key None) of
        None \<Rightarrow> 0
      | Some k \<Rightarrow> kv_timestamp k)"

text \<open>Unlinking from a chain: the shortened chain, or \<open>None\<close> when the key is not in it.\<close>

fun chain_del :: "bytes \<Rightarrow> 'v keyval list \<Rightarrow> 'v keyval list option" where
  "chain_del key [] = None"
| "chain_del key (k # ks) =
     (if strcmp_eq key (kv_name k) then Some ks else map_option (\<lambda>ks'. k # ks') (chain_del key ks))"

definition del_keyval_dict :: "'v dict \<Rightarrow> bytes \<Rightarrow> 'v dict \<times> bool" where
  "del_keyval_dict d key =
     (if dict_size d = 0 then (d, False)
      else (let i = dict_slot (bernstein_hash_z key) (dict_size d) in
            case chain_del key (dict_table d ! i) of
              None \<Rightarrow> (d, False)
            | Some c \<Rightarrow> (Dict ((dict_table d)[i := c]) (dict_used d - 1), True)))"

section \<open>Entries and invariant\<close>

definition dict_entries :: "'v dict \<Rightarrow> 'v keyval list" where
  "dict_entries d = concat (dict_table d)"

definition dict_pow2 :: "nat \<Rightarrow> bool" where
  "dict_pow2 n = (\<exists>k \<le> 31. n = 2 ^ k)"

text \<open>
  The invariant: an unallocated table, or one whose size is a power of two, with every
  entry in the bucket of its hash, no key twice, names free of NULs, and \<open>used\<close>
  the number of entries.
\<close>

definition bucket_ok :: "nat \<Rightarrow> nat \<Rightarrow> 'v keyval list \<Rightarrow> bool" where
  "bucket_ok n i c =
     (list_all (\<lambda>k. c_str (kv_name k) = kv_name k
                   \<and> dict_slot (bernstein_hash_z (kv_name k)) n = i) c
      \<and> distinct (map kv_name c))"

definition dict_ok :: "'v dict \<Rightarrow> bool" where
  "dict_ok d =
     ((dict_size d = 0 \<or> dict_pow2 (dict_size d))
      \<and> (\<forall>i < dict_size d. bucket_ok (dict_size d) i (dict_table d ! i))
      \<and> dict_used d = length (dict_entries d))"

definition dict_lookup :: "'v dict \<Rightarrow> bytes \<Rightarrow> 'v option" where
  "dict_lookup d key = map_option kv_val (snd (set_get_keyval_dict d key None))"


section \<open>Strings, slots and chains\<close>

lemma c_str_idem [simp]: "c_str (c_str s) = c_str s"
  by (simp add: c_str_def takeWhile_idem)

lemma bernstein_hash_z_from_c_str: "bernstein_hash_z_from h (c_str s) = bernstein_hash_z_from h s"
  by (induction s arbitrary: h) (simp_all add: c_str_def)

lemma bernstein_hash_z_c_str [simp]: "bernstein_hash_z (c_str s) = bernstein_hash_z s"
  by (simp add: bernstein_hash_z_def bernstein_hash_z_from_c_str)

lemma bernstein_hash_z_foldl: "bernstein_hash_z_from h s = foldl bernstein_step h (c_str s)"
  by (induction s arbitrary: h) (simp_all add: c_str_def)

lemma dict_strdup_c_str [simp]: "c_str (dict_strdup s) = dict_strdup s" "dict_strdup s = c_str s"
  by (simp_all add: dict_strdup_def)

lemma pow2_minus_1: "(of_nat (2 ^ k) - 1 :: 'a::len word) = mask k"
  by (simp add: mask_eq_exp_minus_1)

lemma dict_slot_pow2: "dict_slot h (2 ^ k) = unat h mod 2 ^ k"
proof -
  have "unat (ucast h :: u64) = unat h"
    using less_trans [OF unsigned_less [of h], of "2 ^ 64 :: nat"]
    by (simp add: unsigned_ucast_eq take_bit_word_beyond_length_eq take_bit_nat_eq_self)
  then show ?thesis
    by (simp only: dict_slot_def pow2_minus_1 take_bit_eq_mask [symmetric] unsigned_take_bit_eq)
      (simp only: take_bit_eq_mod)
qed

lemma dict_slot_less: "dict_pow2 n \<Longrightarrow> dict_slot h n < n"
  by (auto simp: dict_pow2_def dict_slot_pow2)

lemma rehash_slot: "unat (h AND ((of_nat (2 ^ k) :: u32) - 1)) = dict_slot h (2 ^ k)"
  by (simp only: dict_slot_pow2 pow2_minus_1 take_bit_eq_mask [symmetric] unsigned_take_bit_eq)
    (simp only: take_bit_eq_mod)

lemma chain_find_put:
  "chain_find key' (fst (chain_put key v c))
   = (if c_str key' = c_str key then Some (snd (snd (chain_put key v c))) else chain_find key' c)"
  by (induction c) (auto simp: strcmp_eq_def Let_def split_beta)

lemma chain_put_entry:
  "kv_val (snd (snd (chain_put key v c))) = v"
  "list_all (\<lambda>k. c_str (kv_name k) = kv_name k) c \<Longrightarrow> kv_name (snd (snd (chain_put key v c))) = c_str key"
  "kv_timestamp (snd (snd (chain_put key v c)))
     = (case chain_find key c of None \<Rightarrow> 0 | Some k \<Rightarrow> kv_timestamp k)"
  by (induction c) (auto simp: strcmp_eq_def Let_def split_beta)

lemma chain_put_names:
  "list_all (\<lambda>k. c_str (kv_name k) = kv_name k) c \<Longrightarrow>
   map kv_name (fst (chain_put key v c))
   = (if c_str key \<in> set (map kv_name c) then map kv_name c else map kv_name c @ [c_str key])
   \<and> fst (snd (chain_put key v c)) = (c_str key \<notin> set (map kv_name c))"
  by (induction c) (auto simp: strcmp_eq_def Let_def split_beta)

lemma chain_put_length:
  "length (fst (chain_put key v c)) = length c + (if fst (snd (chain_put key v c)) then 1 else 0)"
  by (induction c) (auto simp: Let_def split_beta)

lemma chain_find_Some:
  "bucket_ok n i c \<Longrightarrow>
   (chain_find key c = Some k) = (k \<in> set c \<and> kv_name k = c_str key)"
  by (induction c) (auto simp: bucket_ok_def strcmp_eq_def image_iff)

lemma chain_find_None: "bucket_ok n i c \<Longrightarrow> (chain_find key c = None) = (c_str key \<notin> set (map kv_name c))"
  by (induction c) (auto simp: bucket_ok_def strcmp_eq_def)

lemma bucket_ok_names:
  "bucket_ok n i c = ((\<forall>x \<in> set (map kv_name c). c_str x = x \<and> dict_slot (bernstein_hash_z x) n = i)
     \<and> distinct (map kv_name c))"
  by (auto simp: bucket_ok_def list_all_iff)

lemma bucket_ok_put:
  assumes "bucket_ok n i c" "dict_slot (bernstein_hash_z key) n = i"
  shows "bucket_ok n i (fst (chain_put key v c))"
proof -
  have "list_all (\<lambda>k. c_str (kv_name k) = kv_name k) c"
    using assms by (auto simp: bucket_ok_def list_all_iff)
  then show ?thesis
    using assms chain_put_names [of c key v] by (auto simp: bucket_ok_names)
qed

lemma chain_del_spec:
  "bucket_ok n i c \<Longrightarrow>
   (case chain_del key c of
      None \<Rightarrow> c_str key \<notin> set (map kv_name c)
    | Some c' \<Rightarrow> bucket_ok n i c' \<and> length c = Suc (length c') \<and> set c' \<subseteq> set c
        \<and> (\<forall>key'. chain_find key' c' = (if c_str key' = c_str key then None else chain_find key' c)))"
proof (induction c)
  case (Cons k c)
  then have b: "bucket_ok n i c" by (simp add: bucket_ok_def)
  show ?case
  proof (cases "strcmp_eq key (kv_name k)")
    case True
    then have "c_str key = kv_name k" "kv_name k \<notin> set (map kv_name c)"
      using Cons.prems by (auto simp: bucket_ok_def strcmp_eq_def)
    with True b chain_find_None [OF b] show ?thesis by (auto simp: strcmp_eq_def)
  next
    case False
    then show ?thesis using Cons b
      by (auto simp: strcmp_eq_def bucket_ok_def list_all_iff split: option.splits)
  qed
qed simp

lemma chain_del_None: "(chain_del key c = None) = (chain_find key c = None)"
  by (induction c) auto

lemma chain_stamp_spec:
  "chain_find key' (chain_stamp key ts c)
   = (case chain_find key' c of
        None \<Rightarrow> None
      | Some k \<Rightarrow> Some (if c_str key' = c_str key then Keyval (kv_name k) (kv_val k) ts else k))
   \<and> map kv_name (chain_stamp key ts c) = map kv_name c"
  by (induction c) (auto simp: strcmp_eq_def split: option.splits)

section \<open>The table\<close>

lemma length_concat_update:
  "i < length t \<Longrightarrow> length (concat (t[i := c])) + length (t ! i) = length (concat t) + length c"
  by (induction t arbitrary: i) (auto simp: nth_Cons split: nat.splits)

lemma set_concat_update:
  "i < length t \<Longrightarrow> set (concat (t[i := k # t ! i])) = insert k (set (concat t))"
  by (induction t arbitrary: i) (auto simp: nth_Cons split: nat.splits)


lemma in_concat_nth: "x \<in> set (concat t) \<longleftrightarrow> (\<exists>i < length t. x \<in> set (t ! i))"
  by (auto dest: nth_mem) (metis in_set_conv_nth)

lemma bucket_ok_mem:
  "bucket_ok n i c \<Longrightarrow> k \<in> set c \<Longrightarrow> c_str (kv_name k) = kv_name k"
  "bucket_ok n i c \<Longrightarrow> k \<in> set c \<Longrightarrow> dict_slot (bernstein_hash_z (kv_name k)) n = i"
  by (auto simp: bucket_ok_def list_all_iff)

lemma names_distinct_concat:
  assumes "\<forall>i < length t. bucket_ok n (s + i) (t ! i)"
  shows "distinct (map kv_name (concat t))"
  using assms
proof (induction t arbitrary: s)
  case (Cons c t)
  have c: "bucket_ok n s c" using Cons.prems by force
  have t: "\<forall>i < length t. bucket_ok n (Suc s + i) (t ! i)"
    using Cons.prems by (auto dest: spec [of _ "Suc _"])
  have "dict_slot (bernstein_hash_z (kv_name k)) n \<noteq> s" if "k \<in> set (concat t)" for k
  proof -
    from that obtain i where "i < length t" "k \<in> set (t ! i)"
      unfolding in_concat_nth by blast
    with t show ?thesis using bucket_ok_mem(2) [of n "Suc s + i" "t ! i" k] by simp
  qed
  then have "set (map kv_name c) \<inter> set (map kv_name (concat t)) = {}"
    using c bucket_ok_mem(2) [OF c] by fastforce
  with c Cons.IH [OF t] show ?case by (auto simp: bucket_ok_def)
qed simp

lemma dict_names_distinct: "dict_ok d \<Longrightarrow> distinct (map kv_name (dict_entries d))"
  unfolding dict_entries_def
  by (rule names_distinct_concat [of _ "dict_size d" 0]) (simp add: dict_ok_def dict_size_def)

lemma dict_ok_size: "dict_ok d \<Longrightarrow> dict_size d \<noteq> 0 \<Longrightarrow> dict_slot h (dict_size d) < dict_size d"
  by (auto simp: dict_ok_def dict_slot_less)

lemma dict_get_entry:
  assumes "dict_ok d"
  shows "(snd (set_get_keyval_dict d key None) = Some k)
         = (k \<in> set (dict_entries d) \<and> kv_name k = c_str key)"
proof (cases "dict_size d = 0")
  case True
  then show ?thesis
    by (simp add: set_get_keyval_dict_def dict_entries_def dict_size_def)
next
  case False
  let ?i = "dict_slot (bernstein_hash_z key) (dict_size d)"
  have i: "?i < dict_size d" by (rule dict_ok_size [OF assms False])
  then have b: "bucket_ok (dict_size d) ?i (dict_table d ! ?i)"
    using assms by (simp add: dict_ok_def)
  have "k \<in> set (dict_table d ! ?i)" if k: "k \<in> set (dict_entries d)" "kv_name k = c_str key"
  proof -
    from k obtain j where j: "j < dict_size d" "k \<in> set (dict_table d ! j)"
      unfolding dict_entries_def dict_size_def in_concat_nth by blast
    then have "dict_slot (bernstein_hash_z (kv_name k)) (dict_size d) = j"
      using assms by (auto simp: dict_ok_def bucket_ok_def list_all_iff)
    with j k show ?thesis by simp
  qed
  then show ?thesis
    using False i chain_find_Some [OF b, of key k]
    by (auto simp: set_get_keyval_dict_def dict_entries_def dict_size_def)
qed

lemma dict_entry_name:
  assumes "dict_ok d" "k \<in> set (dict_entries d)"
  shows "c_str (kv_name k) = kv_name k"
proof -
  from assms(2) obtain i where i: "i < dict_size d" "k \<in> set (dict_table d ! i)"
    unfolding dict_entries_def dict_size_def in_concat_nth by blast
  with assms(1) show ?thesis
    using bucket_ok_mem(1) [of "dict_size d" i "dict_table d ! i" k] by (simp add: dict_ok_def)
qed

text \<open>Linking entries with distinct names builds a table that is in order.\<close>

lemma rehash_fold:
  assumes "\<forall>i < 2 ^ n. bucket_ok (2 ^ n) i (t ! i)" "length t = 2 ^ n"
    "distinct (map kv_name (concat t) @ map kv_name ks)"
    "\<forall>k \<in> set ks. c_str (kv_name k) = kv_name k"
  defines "t' \<equiv> fold (rehash_link ((2 ^ n :: u32) - 1)) ks t"
  shows "(\<forall>i < 2 ^ n. bucket_ok (2 ^ n) i (t' ! i)) \<and> length t' = 2 ^ n
    \<and> set (concat t') = set (concat t) \<union> set ks \<and> length (concat t') = length (concat t) + length ks"
  unfolding t'_def using assms(1-4)
proof (induction ks arbitrary: t)
  case (Cons k ks)
  define i where "i = dict_slot (bernstein_hash_z (kv_name k)) (2 ^ n)"
  define u where "u = t[i := k # t ! i]"
  have i: "i < length t" using Cons.prems(2) by (simp add: i_def dict_slot_pow2)
  have u: "rehash_link ((2 ^ n :: u32) - 1) k t = u"
    using rehash_slot [of "bernstein_hash_z (kv_name k)" n]
    by (simp add: rehash_link_def u_def i_def Let_def)
  have set_u: "set (concat u) = insert k (set (concat t))"
    using set_concat_update [OF i] by (simp add: u_def)
  have len_u: "length (concat u) = Suc (length (concat t))"
    using length_concat_update [OF i, of "k # t ! i"] by (simp add: u_def)
  have ok_u: "\<forall>j < 2 ^ n. bucket_ok (2 ^ n) j (u ! j)"
  proof (intro allI impI)
    fix j :: nat assume j: "j < 2 ^ n"
    have "kv_name k \<notin> set (map kv_name (t ! i))"
      using Cons.prems(3) i in_concat_nth [of _ t] by fastforce
    then show "bucket_ok (2 ^ n) j (u ! j)"
      using Cons.prems(1,2,4) j i by (auto simp: u_def nth_list_update bucket_ok_def i_def)
  qed
  have "distinct (map kv_name (concat u))"
    by (rule names_distinct_concat [of _ "2 ^ n" 0]) (use ok_u Cons.prems(2) in \<open>auto simp: u_def\<close>)
  moreover have "set (map kv_name (concat u)) = insert (kv_name k) (set (map kv_name (concat t)))"
    using set_u by simp
  ultimately have d: "distinct (map kv_name (concat u) @ map kv_name ks)"
    using Cons.prems(3) by auto
  have "length u = 2 ^ n" using Cons.prems(2) by (simp add: u_def)
  from Cons.IH [OF ok_u this d] Cons.prems(4) show ?case
    using set_u len_u by (simp add: u)
qed simp

lemma dict_rehash_ok:
  assumes "dict_ok d" "n \<le> 31"
  shows "dict_ok (dict_rehash d (2 ^ n)) \<and> set (dict_entries (dict_rehash d (2 ^ n))) = set (dict_entries d)"
proof -
  have un: "unat (2 ^ n :: u32) = 2 ^ n"
  proof -
    have "unat (of_nat (2 ^ n) :: u32) = take_bit 32 (2 ^ n)" by (simp only: unsigned_of_nat) simp
    also have "\<dots> = 2 ^ n" using assms(2) power_strict_increasing [of n 32 "2 :: nat"]
      by (simp add: take_bit_nat_eq_self)
    finally show ?thesis by simp
  qed
  then have nz: "(2 ^ n :: u32) \<noteq> 0" by (metis power_not_zero unsigned_0 zero_neq_numeral)
  have "(2 ^ n :: u32) AND (2 ^ n - 1) = 0"
    by (rule bit_word_eqI) (auto simp: mask_eq_exp_minus_1 [symmetric] bit_simps)
  then have r: "dict_rehash d (2 ^ n) =
     Dict (fold (rehash_link ((2 ^ n :: u32) - 1)) (dict_entries d) (replicate (2 ^ n) [])) (dict_used d)"
    using nz un by (simp add: dict_rehash_def dict_entries_def)
  have names: "\<forall>k \<in> set (dict_entries d). c_str (kv_name k) = kv_name k"
    using dict_entry_name [OF assms(1)] by blast
  show ?thesis
    using rehash_fold [of n "replicate (2 ^ n) []" "dict_entries d"] dict_names_distinct [OF assms(1)] names assms
    by (auto simp: r dict_ok_def dict_size_def bucket_ok_def dict_pow2_def dict_entries_def)
qed

lemma dict_get_eqI:
  assumes "dict_ok d" "dict_ok d'" "set (dict_entries d) = set (dict_entries d')"
  shows "snd (set_get_keyval_dict d key None) = snd (set_get_keyval_dict d' key None)"
  using dict_get_entry [OF assms(1), of key] dict_get_entry [OF assms(2), of key] assms(3)
  by (metis option.exhaust)

lemma dict_pow2_cap:
  assumes "dict_pow2 n" "\<not> n \<ge> (2 ^ 32 - 1) div 2"
  obtains k where "n = 2 ^ k" "k \<le> 30"
proof -
  from assms obtain k where k: "n = 2 ^ k" "k \<le> 31" by (auto simp: dict_pow2_def)
  moreover have "k \<noteq> 31" using assms(2) k by auto
  ultimately show thesis using that [of k] by simp
qed

lemma dict_grow_ok:
  assumes "dict_ok d" "dict_size d \<noteq> 0"
  shows "dict_ok (dict_grow d) \<and> set (dict_entries (dict_grow d)) = set (dict_entries d)"
proof (cases "dict_used d \<ge> dict_size d")
  case True
  have p: "dict_pow2 (dict_size d)" using assms by (simp add: dict_ok_def)
  show ?thesis
  proof (cases "dict_size d \<ge> (2 ^ 32 - 1) div 2")
    case big: True
    from p obtain k where "dict_size d = 2 ^ k" "k \<le> 31" by (auto simp: dict_pow2_def)
    then show ?thesis using dict_rehash_ok [OF assms(1), of k] True big by (simp add: dict_grow_def)
  next
    case small: False
    then obtain k where "dict_size d = 2 ^ k" "k \<le> 30" using dict_pow2_cap [OF p] by blast
    then show ?thesis
      using dict_rehash_ok [OF assms(1), of "Suc k"] True small
      by (simp add: dict_grow_def mult.commute)
  qed
qed (use assms in \<open>simp add: dict_grow_def\<close>)

definition dict_put_at :: "'v dict \<Rightarrow> bytes \<Rightarrow> 'v \<Rightarrow> 'v dict" where
  "dict_put_at d key v =
     (let i = dict_slot (bernstein_hash_z key) (dict_size d);
          (c, added, k) = chain_put key v (dict_table d ! i)
      in Dict ((dict_table d)[i := c]) (if added then dict_used d + 1 else dict_used d))"

text \<open>The table a first insertion allocates.\<close>

definition dict_alloc :: "'v dict \<Rightarrow> 'v dict" where
  "dict_alloc d = (if dict_size d = 0 then Dict (replicate 32 []) (dict_used d) else d)"

lemma dict_put_alloc:
  "fst (set_get_keyval_dict d key (Some v)) = dict_grow (dict_put_at (dict_alloc d) key v)"
proof (cases "dict_size d = 0")
  case True
  have "dict_slot (bernstein_hash_z key) 32 < 32"
    using dict_slot_pow2 [of "bernstein_hash_z key" 5] by simp
  with True show ?thesis
    by (simp add: set_get_keyval_dict_def dict_put_at_def dict_alloc_def Let_def split_beta
        dict_size_def DICT_KVHT_INITIAL_SIZE_def)
qed (simp add: set_get_keyval_dict_def dict_put_at_def dict_alloc_def Let_def split_beta dict_size_def)

lemma dict_alloc_ok:
  assumes "dict_ok d"
  shows "dict_ok (dict_alloc d)" "dict_size (dict_alloc d) \<noteq> 0"
    "snd (set_get_keyval_dict (dict_alloc d) key None) = snd (set_get_keyval_dict d key None)"
    "dict_entries (dict_alloc d) = dict_entries d"
proof -
  have "dict_pow2 32" by (auto simp: dict_pow2_def intro!: exI [of _ 5])
  then show ok: "dict_ok (dict_alloc d)"
    using assms by (auto simp: dict_alloc_def dict_ok_def dict_size_def dict_entries_def bucket_ok_def)
  show "dict_size (dict_alloc d) \<noteq> 0" by (simp add: dict_alloc_def dict_size_def)
  show e: "dict_entries (dict_alloc d) = dict_entries d"
    by (simp add: dict_alloc_def dict_size_def dict_entries_def)
  show "snd (set_get_keyval_dict (dict_alloc d) key None) = snd (set_get_keyval_dict d key None)"
    by (rule dict_get_eqI [OF ok assms]) (simp add: e)
qed

lemma dict_get_chain:
  "dict_size d \<noteq> 0 \<Longrightarrow> snd (set_get_keyval_dict d key None)
     = chain_find key (dict_table d ! dict_slot (bernstein_hash_z key) (dict_size d))"
  by (simp add: set_get_keyval_dict_def Let_def)

lemma dict_slot_neq: "dict_slot (bernstein_hash_z k) n \<noteq> dict_slot (bernstein_hash_z k') n \<Longrightarrow> c_str k \<noteq> c_str k'"
  by (metis bernstein_hash_z_c_str)

lemma dict_put_at_ok:
  assumes "dict_ok d" "dict_size d \<noteq> 0"
  shows "dict_ok (dict_put_at d key v)"
    "snd (set_get_keyval_dict (dict_put_at d key v) key' None)
     = (if c_str key' = c_str key
        then Some (Keyval (c_str key) v
               (case snd (set_get_keyval_dict d key None) of None \<Rightarrow> 0 | Some k \<Rightarrow> kv_timestamp k))
        else snd (set_get_keyval_dict d key' None))"
    "dict_size (dict_put_at d key v) = dict_size d"
proof -
  define i where "i = dict_slot (bernstein_hash_z key) (dict_size d)"
  define c where "c = dict_table d ! i"
  have i: "i < dict_size d" using dict_ok_size [OF assms] by (simp add: i_def)
  then have b: "bucket_ok (dict_size d) i c" using assms by (simp add: dict_ok_def c_def)
  then have names: "list_all (\<lambda>k. c_str (kv_name k) = kv_name k) c"
    by (auto simp: bucket_ok_def list_all_iff)
  have eq: "dict_put_at d key v = Dict ((dict_table d)[i := fst (chain_put key v c)])
     (if fst (snd (chain_put key v c)) then dict_used d + 1 else dict_used d)"
    by (simp add: dict_put_at_def i_def c_def Let_def split_beta)
  show sz: "dict_size (dict_put_at d key v) = dict_size d"
    by (simp add: eq dict_size_def)
  have "length (fst (chain_put key v c)) = length c + (if fst (snd (chain_put key v c)) then 1 else 0)"
    by (rule chain_put_length)
  then have len: "length (concat ((dict_table d)[i := fst (chain_put key v c)]))
     = dict_used (dict_put_at d key v)"
    using length_concat_update [of i "dict_table d" "fst (chain_put key v c)"] i assms
    by (auto simp: dict_size_def dict_ok_def dict_entries_def c_def eq)
  show "dict_ok (dict_put_at d key v)"
    using assms i bucket_ok_put [OF b, of key v] len
    by (auto simp: dict_ok_def sz eq dict_entries_def nth_list_update dict_size_def i_def)
  have entry: "snd (snd (chain_put key v c)) = Keyval (c_str key) v
               (case snd (set_get_keyval_dict d key None) of None \<Rightarrow> 0 | Some k \<Rightarrow> kv_timestamp k)"
    using chain_put_entry(1) [of key v c] chain_put_entry(2) [OF names, of key v]
      chain_put_entry(3) [of key v c] dict_get_chain [OF assms(2), of key]
    by (intro keyval.expand) (simp add: c_def i_def)
  show "snd (set_get_keyval_dict (dict_put_at d key v) key' None)
     = (if c_str key' = c_str key
        then Some (Keyval (c_str key) v
               (case snd (set_get_keyval_dict d key None) of None \<Rightarrow> 0 | Some k \<Rightarrow> kv_timestamp k))
        else snd (set_get_keyval_dict d key' None))"
  proof (cases "dict_slot (bernstein_hash_z key') (dict_size d) = i")
    case True
    then show ?thesis
      using dict_get_chain [of "dict_put_at d key v" key'] sz assms(2) i chain_find_put [of key' key v c] entry
        dict_get_chain [OF assms(2), of key']
      by (simp add: eq dict_size_def c_def)
  next
    case False
    then have "c_str key' \<noteq> c_str key" using dict_slot_neq unfolding i_def by blast
    with False show ?thesis
      using dict_get_chain [of "dict_put_at d key v" key'] sz assms(2)
        dict_get_chain [OF assms(2), of key']
      by (simp add: eq dict_size_def)
  qed
qed

section \<open>Laws of the operations\<close>

lemma dict_create_ok: "dict_ok create_dict" "snd (set_get_keyval_dict create_dict key None) = None"
  by (simp_all add: create_dict_def dict_ok_def dict_size_def dict_entries_def set_get_keyval_dict_def)

lemma dict_set_ok:
  assumes "dict_ok d"
  shows "dict_ok (fst (set_get_keyval_dict d key (Some v)))"
    "snd (set_get_keyval_dict (fst (set_get_keyval_dict d key (Some v))) key' None)
     = (if c_str key' = c_str key
        then Some (Keyval (c_str key) v
               (case snd (set_get_keyval_dict d key None) of None \<Rightarrow> 0 | Some k \<Rightarrow> kv_timestamp k))
        else snd (set_get_keyval_dict d key' None))"
proof -
  note a = dict_alloc_ok [OF assms]
  note p = dict_put_at_ok [OF a(1,2), of key v]
  have g: "dict_ok (dict_grow (dict_put_at (dict_alloc d) key v))
    \<and> set (dict_entries (dict_grow (dict_put_at (dict_alloc d) key v)))
      = set (dict_entries (dict_put_at (dict_alloc d) key v))"
    using p a(2) by (intro dict_grow_ok) simp_all
  then show "dict_ok (fst (set_get_keyval_dict d key (Some v)))"
    by (simp add: dict_put_alloc)
  have "snd (set_get_keyval_dict (dict_grow (dict_put_at (dict_alloc d) key v)) key' None)
      = snd (set_get_keyval_dict (dict_put_at (dict_alloc d) key v) key' None)"
    using g p by (intro dict_get_eqI) simp_all
  then show "snd (set_get_keyval_dict (fst (set_get_keyval_dict d key (Some v))) key' None)
     = (if c_str key' = c_str key
        then Some (Keyval (c_str key) v
               (case snd (set_get_keyval_dict d key None) of None \<Rightarrow> 0 | Some k \<Rightarrow> kv_timestamp k))
        else snd (set_get_keyval_dict d key' None))"
    using p(2) [of key'] a(3) by (simp add: dict_put_alloc)
qed

lemma dict_set_entry:
  assumes "dict_ok d"
  shows "snd (set_get_keyval_dict d key (Some v))
    = snd (set_get_keyval_dict (fst (set_get_keyval_dict d key (Some v))) key None)"
proof -
  define c where "c = dict_table (dict_alloc d) ! dict_slot (bernstein_hash_z key) (dict_size (dict_alloc d))"
  note a = dict_alloc_ok [OF assms]
  have "bucket_ok (dict_size (dict_alloc d)) (dict_slot (bernstein_hash_z key) (dict_size (dict_alloc d))) c"
    using a dict_ok_size [OF a(1,2)] by (simp add: dict_ok_def c_def)
  then have names: "list_all (\<lambda>k. c_str (kv_name k) = kv_name k) c"
    by (auto simp: bucket_ok_def list_all_iff)
  have r: "snd (set_get_keyval_dict d key (Some v)) = Some (snd (snd (chain_put key v c)))"
    using dict_slot_pow2 [of "bernstein_hash_z key" 5]
    by (auto simp: set_get_keyval_dict_def c_def dict_alloc_def Let_def split_beta dict_size_def
        DICT_KVHT_INITIAL_SIZE_def)
  have "snd (snd (chain_put key v c)) = Keyval (c_str key) v
               (case snd (set_get_keyval_dict d key None) of None \<Rightarrow> 0 | Some k \<Rightarrow> kv_timestamp k)"
    using chain_put_entry(1) [of key v c] chain_put_entry(2) [OF names, of key v]
      chain_put_entry(3) [of key v c] dict_get_chain [OF a(2), of key] a(3) [of key]
    by (intro keyval.expand) (simp add: c_def)
  then show ?thesis using r dict_set_ok(2) [OF assms, of key v key] by simp
qed

lemma dict_update_ok:
  assumes "dict_ok d" "i < dict_size d" "bucket_ok (dict_size d) i c"
    "n + length (dict_table d ! i) = dict_used d + length c"
  shows "dict_ok (Dict ((dict_table d)[i := c]) n)"
  using assms length_concat_update [of i "dict_table d" c]
  by (auto simp: dict_ok_def dict_size_def nth_list_update dict_entries_def)

lemma dict_del_ok:
  assumes "dict_ok d"
  shows "dict_ok (fst (del_keyval_dict d key))"
    "snd (set_get_keyval_dict (fst (del_keyval_dict d key)) key' None)
     = (if c_str key' = c_str key then None else snd (set_get_keyval_dict d key' None))"
    "snd (del_keyval_dict d key) = (snd (set_get_keyval_dict d key None) \<noteq> None)"
proof (atomize (full), cases "dict_size d = 0")
  case True
  then show "dict_ok (fst (del_keyval_dict d key)) \<and>
    snd (set_get_keyval_dict (fst (del_keyval_dict d key)) key' None)
     = (if c_str key' = c_str key then None else snd (set_get_keyval_dict d key' None)) \<and>
    snd (del_keyval_dict d key) = (snd (set_get_keyval_dict d key None) \<noteq> None)"
    using assms by (simp add: del_keyval_dict_def set_get_keyval_dict_def)
next
  case False
  define i where "i = dict_slot (bernstein_hash_z key) (dict_size d)"
  define c where "c = dict_table d ! i"
  have i: "i < dict_size d" using dict_ok_size [OF assms False] by (simp add: i_def)
  then have b: "bucket_ok (dict_size d) i c" using assms by (simp add: dict_ok_def c_def)
  show "dict_ok (fst (del_keyval_dict d key)) \<and>
    snd (set_get_keyval_dict (fst (del_keyval_dict d key)) key' None)
     = (if c_str key' = c_str key then None else snd (set_get_keyval_dict d key' None)) \<and>
    snd (del_keyval_dict d key) = (snd (set_get_keyval_dict d key None) \<noteq> None)"
  proof (cases "chain_del key c")
    case None
    then have f: "chain_find key c = None"
      using chain_del_spec [OF b, of key] chain_find_None [OF b, of key] by simp
    have "snd (set_get_keyval_dict d key' None) = None" if "c_str key' = c_str key"
      using f that dict_get_chain [OF False] chain_find_None [OF b] bernstein_hash_z_c_str
      by (metis c_def i_def)
    then show ?thesis
      using assms False None f dict_get_chain [OF False, of key]
      by (simp add: del_keyval_dict_def i_def c_def Let_def)
  next
    case (Some c')
    define d' where "d' = Dict ((dict_table d)[i := c']) (dict_used d - 1)"
    have d: "del_keyval_dict d key = (d', True)"
      using False Some by (simp add: del_keyval_dict_def i_def c_def d'_def Let_def)
    have s: "bucket_ok (dict_size d) i c'" "length c = Suc (length c')"
      "\<And>key'. chain_find key' c' = (if c_str key' = c_str key then None else chain_find key' c)"
      using chain_del_spec [OF b, of key] Some by simp_all
    have u: "dict_used d \<ge> length c"
      using assms i by (auto simp: dict_ok_def dict_entries_def c_def dict_size_def length_concat
          intro!: member_le_sum_list)
    have ok: "dict_ok d'"
      unfolding d'_def by (rule dict_update_ok [OF assms i s(1)]) (use s(2) u in \<open>simp add: c_def\<close>)
    have sz: "dict_size d' = dict_size d" by (simp add: d'_def dict_size_def)
    have "snd (set_get_keyval_dict d' key' None)
     = (if c_str key' = c_str key then None else snd (set_get_keyval_dict d key' None))"
    proof (cases "dict_slot (bernstein_hash_z key') (dict_size d) = i")
      case True
      then show ?thesis
        using dict_get_chain [of d' key'] sz False i s(3) [of key'] dict_get_chain [OF False, of key']
        by (simp add: d'_def dict_size_def c_def)
    next
      case neq: False
      then have "c_str key' \<noteq> c_str key" using dict_slot_neq unfolding i_def by blast
      with neq show ?thesis
        using dict_get_chain [of d' key'] sz False dict_get_chain [OF False, of key']
        by (simp add: d'_def dict_size_def)
    qed
    moreover have "snd (set_get_keyval_dict d key None) \<noteq> None"
      using chain_del_None [of key c] Some dict_get_chain [OF False, of key]
      by (simp add: c_def i_def)
    ultimately show ?thesis using ok by (simp add: d)
  qed
qed

lemma dict_stamp_ok:
  assumes "dict_ok d"
  shows "dict_ok (fst (set_keyval_dict_timestamp d key ts))"
    "snd (set_get_keyval_dict (fst (set_keyval_dict_timestamp d key ts)) key' None)
     = (if c_str key' = c_str key
        then map_option (\<lambda>k. Keyval (kv_name k) (kv_val k) ts) (snd (set_get_keyval_dict d key' None))
        else snd (set_get_keyval_dict d key' None))"
proof (atomize (full), cases "snd (set_get_keyval_dict d key None)")
  case None
  have "snd (set_get_keyval_dict d key' None) = None" if "c_str key' = c_str key"
    using None that dict_get_entry [OF assms] by (metis option.exhaust)
  then show "dict_ok (fst (set_keyval_dict_timestamp d key ts)) \<and>
    snd (set_get_keyval_dict (fst (set_keyval_dict_timestamp d key ts)) key' None)
     = (if c_str key' = c_str key
        then map_option (\<lambda>k. Keyval (kv_name k) (kv_val k) ts) (snd (set_get_keyval_dict d key' None))
        else snd (set_get_keyval_dict d key' None))"
    using None assms by (simp add: set_keyval_dict_timestamp_def)
next
  case (Some k)
  then have sz: "dict_size d \<noteq> 0" by (auto simp: set_get_keyval_dict_def split: if_splits)
  define i where "i = dict_slot (bernstein_hash_z key) (dict_size d)"
  define c where "c = chain_stamp key ts (dict_table d ! i)"
  define d' where "d' = Dict ((dict_table d)[i := c]) (dict_used d)"
  have d: "fst (set_keyval_dict_timestamp d key ts) = d'"
    using Some by (simp add: set_keyval_dict_timestamp_def d'_def c_def i_def Let_def)
  have i: "i < dict_size d" using dict_ok_size [OF assms sz] by (simp add: i_def)
  then have b: "bucket_ok (dict_size d) i (dict_table d ! i)" using assms by (simp add: dict_ok_def)
  have names: "map kv_name c = map kv_name (dict_table d ! i)"
    using chain_stamp_spec [of key key ts "dict_table d ! i"] by (simp add: c_def)
  then have bc: "bucket_ok (dict_size d) i c" using b unfolding bucket_ok_names by metis
  have len: "length c = length (dict_table d ! i)" using names by (metis length_map)
  have ok: "dict_ok d'"
    unfolding d'_def by (rule dict_update_ok [OF assms i bc]) (simp add: len)
  have sz': "dict_size d' = dict_size d" by (simp add: d'_def dict_size_def)
  have "snd (set_get_keyval_dict d' key' None)
     = (if c_str key' = c_str key
        then map_option (\<lambda>k. Keyval (kv_name k) (kv_val k) ts) (snd (set_get_keyval_dict d key' None))
        else snd (set_get_keyval_dict d key' None))"
  proof (cases "dict_slot (bernstein_hash_z key') (dict_size d) = i")
    case True
    then show ?thesis
      using dict_get_chain [of d' key'] sz' sz i dict_get_chain [OF sz, of key']
        chain_stamp_spec [of key' key ts "dict_table d ! i"]
      by (auto simp: d'_def dict_size_def c_def split: option.splits)
  next
    case neq: False
    then have "c_str key' \<noteq> c_str key" using dict_slot_neq unfolding i_def by blast
    with neq show ?thesis
      using dict_get_chain [of d' key'] sz' sz dict_get_chain [OF sz, of key']
      by (simp add: d'_def dict_size_def)
  qed
  with ok show "dict_ok (fst (set_keyval_dict_timestamp d key ts)) \<and>
    snd (set_get_keyval_dict (fst (set_keyval_dict_timestamp d key ts)) key' None)
     = (if c_str key' = c_str key
        then map_option (\<lambda>k. Keyval (kv_name k) (kv_val k) ts) (snd (set_get_keyval_dict d key' None))
        else snd (set_get_keyval_dict d key' None))"
    by (simp add: d)
qed

lemma dict_copy_fold:
  assumes "dict_ok dst" "distinct (map kv_name ks)" "\<forall>k \<in> set ks. c_str (kv_name k) = kv_name k"
    "\<forall>k \<in> set ks. snd (set_get_keyval_dict dst (kv_name k) None) = None"
  defines "put \<equiv> \<lambda>kv dst. fst (set_get_keyval_dict dst (kv_name kv) (Some (kv_val kv)))"
  shows "dict_ok (fold put ks dst) \<and>
    snd (set_get_keyval_dict (fold put ks dst) key None)
    = (case find (\<lambda>k. kv_name k = c_str key) ks of
         None \<Rightarrow> snd (set_get_keyval_dict dst key None)
       | Some k \<Rightarrow> Some (Keyval (kv_name k) (kv_val k) 0))"
  using assms(1-4)
proof (induction ks arbitrary: dst)
  case (Cons k ks)
  note p = dict_set_ok [OF Cons.prems(1), of "kv_name k" "kv_val k"]
  have "\<forall>j \<in> set ks. snd (set_get_keyval_dict (put k dst) (kv_name j) None) = None"
    using p(2) Cons.prems by (auto simp: put_def image_iff)
  then have ih: "dict_ok (fold put ks (put k dst)) \<and>
    snd (set_get_keyval_dict (fold put ks (put k dst)) key None)
    = (case find (\<lambda>k. kv_name k = c_str key) ks of
         None \<Rightarrow> snd (set_get_keyval_dict (put k dst) key None)
       | Some k \<Rightarrow> Some (Keyval (kv_name k) (kv_val k) 0))"
    using Cons.IH [of "put k dst"] Cons.prems p(1) by (simp add: put_def)
  show ?case
  proof (cases "kv_name k = c_str key")
    case True
    then have "find (\<lambda>j. kv_name j = c_str key) ks = None"
      using Cons.prems(2) by (auto simp: find_None_iff image_iff)
    then show ?thesis
      using ih True p(2) [of key] Cons.prems(4) by (simp add: put_def)
  next
    case False
    then show ?thesis using ih p(2) [of key] Cons.prems(3)
      by (auto simp: put_def split: option.splits)
  qed
qed simp

lemma dict_get_find:
  assumes "dict_ok d"
  shows "snd (set_get_keyval_dict d key None) = find (\<lambda>k. kv_name k = c_str key) (dict_entries d)"
proof (cases "find (\<lambda>k. kv_name k = c_str key) (dict_entries d)")
  case None
  then have "snd (set_get_keyval_dict d key None) \<noteq> Some k" for k
    using dict_get_entry [OF assms, of key k] by (auto simp: find_None_iff)
  with None show ?thesis by (metis option.exhaust)
next
  case (Some k)
  then have "k \<in> set (dict_entries d) \<and> kv_name k = c_str key"
    by (auto simp: find_Some_iff)
  with Some show ?thesis using dict_get_entry [OF assms, of key k] by simp
qed

lemma dict_copy_ok:
  assumes "dict_ok d"
  shows "\<exists>c. dict_copy (Some d) = Some c \<and> dict_ok c
    \<and> (\<forall>key. snd (set_get_keyval_dict c key None)
        = map_option (\<lambda>k. Keyval (kv_name k) (kv_val k) 0) (snd (set_get_keyval_dict d key None)))"
proof -
  have "\<forall>k \<in> set (dict_entries d). c_str (kv_name k) = kv_name k"
    using dict_entry_name [OF assms] by blast
  note f = dict_copy_fold [OF dict_create_ok(1) dict_names_distinct [OF assms] this, simplified dict_create_ok(2)]
  show ?thesis
    using f dict_get_find [OF assms]
    by (auto simp: dict_copy_def dict_entries_def split: option.splits)
qed

interpretation dict_kv: kv_store create_dict dict_lookup
  "\<lambda>d k v. fst (set_get_keyval_dict d k (Some v))" "\<lambda>d k. fst (del_keyval_dict d k)"
  dict_ok c_str "\<lambda>_. True"
  by unfold_locales (simp_all add: dict_create_ok dict_set_ok dict_del_ok dict_lookup_def)

section \<open>Properties\<close>

text \<open>
  C11. A dictionary behaves as a finite map on C strings: whatever sequence of insertions,
  deletions and lookups is run from a fresh dictionary, through however many rehashes,
  every lookup answers as the map does, and the table stays well formed.
\<close>

theorem dict_sessions_refine_map:
  "fst (kv_run dict_lookup (\<lambda>d k v. fst (set_get_keyval_dict d k (Some v)))
          (\<lambda>d k. fst (del_keyval_dict d k)) ops create_dict)
     = fst (kv_spec c_str ops (\<lambda>_. None))
   \<and> dict_ok (snd (kv_run dict_lookup (\<lambda>d k v. fst (set_get_keyval_dict d k (Some v)))
          (\<lambda>d k. fst (del_keyval_dict d k)) ops create_dict))"
  by (rule dict_kv.run_from_empty) (simp add: kv_legal_def list_all_iff)

text \<open>
  One insertion in a well-formed dictionary: the call returns the stored entry, the
  entry keeps the timestamp the key had (0 for a new key), and every other key keeps its
  entry; the invariant holds afterwards, growth included.
\<close>

theorem dict_set_keeps_timestamp:
  assumes "dict_ok d"
  shows "dict_ok (fst (set_get_keyval_dict d key (Some v)))
    \<and> snd (set_get_keyval_dict d key (Some v))
        = Some (Keyval (c_str key) v (get_keyval_dict_timestamp d key))
    \<and> (c_str key' \<noteq> c_str key \<longrightarrow>
        snd (set_get_keyval_dict (fst (set_get_keyval_dict d key (Some v))) key' None)
        = snd (set_get_keyval_dict d key' None))"
  using dict_set_ok [OF assms, of key v] dict_set_entry [OF assms, of key v]
  by (simp add: get_keyval_dict_timestamp_def split: option.splits)

theorem dict_set_keeps_timestamp_witness:
  "snd (set_get_keyval_dict (create_dict :: nat dict) (bytes_of ''abc'') (Some 7))
     = Some (Keyval (bytes_of ''abc'') 7 0)"
proof -
  have "snd (set_get_keyval_dict (create_dict :: nat dict) (bytes_of ''abc'') (Some 7))
     = Some (Keyval (c_str (bytes_of ''abc'')) 7 (get_keyval_dict_timestamp (create_dict :: nat dict) (bytes_of ''abc'')))"
    using dict_set_keeps_timestamp [OF dict_create_ok(1), of "bytes_of ''abc''" "7 :: nat"] by blast
  moreover have "c_str (bytes_of ''abc'') = bytes_of ''abc''" by code_simp
  ultimately show ?thesis
    by (simp add: get_keyval_dict_timestamp_def dict_create_ok(2))
qed

text \<open>
  Copying a dictionary gives a well-formed dictionary with the same keys and values,
  in which every timestamp is 0; stamping a key changes that key's timestamp only.
\<close>

theorem dict_copy_and_stamp:
  assumes "dict_ok d"
  shows "(\<exists>c. dict_copy (Some d) = Some c \<and> dict_ok c
      \<and> (\<forall>key. dict_lookup c key = dict_lookup d key \<and> get_keyval_dict_timestamp c key = 0))
    \<and> dict_ok (fst (set_keyval_dict_timestamp d key ts))
    \<and> snd (set_keyval_dict_timestamp d key ts) = dict_lookup d key
    \<and> dict_lookup (fst (set_keyval_dict_timestamp d key ts)) key' = dict_lookup d key'
    \<and> get_keyval_dict_timestamp (fst (set_keyval_dict_timestamp d key ts)) key'
        = (if c_str key' = c_str key \<and> dict_lookup d key' \<noteq> None then ts
           else get_keyval_dict_timestamp d key')"
proof -
  have "\<exists>c. dict_copy (Some d) = Some c \<and> dict_ok c
      \<and> (\<forall>key. dict_lookup c key = dict_lookup d key \<and> get_keyval_dict_timestamp c key = 0)"
    using dict_copy_ok [OF assms]
    by (auto simp: dict_lookup_def get_keyval_dict_timestamp_def option.map_comp comp_def
        split: option.splits)
  moreover have "snd (set_keyval_dict_timestamp d key ts) = dict_lookup d key"
    by (auto simp: set_keyval_dict_timestamp_def dict_lookup_def Let_def split: option.splits)
  ultimately show ?thesis
    using dict_stamp_ok [OF assms, of key ts]
    by (auto simp: dict_lookup_def get_keyval_dict_timestamp_def option.map_comp comp_def
        split: option.splits)
qed

theorem dict_copy_and_stamp_witness:
  "dict_lookup (fst (set_keyval_dict_timestamp
      (fst (set_get_keyval_dict (create_dict :: nat dict) [0x61] (Some 7))) [0x61] 99)) [0x61] = Some 7"
proof -
  have "dict_lookup (fst (set_get_keyval_dict (create_dict :: nat dict) [0x61] (Some 7))) [0x61] = Some 7"
    by (simp add: dict_lookup_def dict_set_ok dict_create_ok)
  then show ?thesis
    using dict_copy_and_stamp [OF dict_set_ok(1) [OF dict_create_ok(1)], of "[0x61]" "7 :: nat" "[0x61]" 99 "[0x61]"]
    by simp
qed

end
