(* ===== verification/Value.thy ===== *)
theory Value
  imports Dict
begin

text \<open>
  The language's values (\<open>exp_t\<close> of \<open>alcove.h\<close>), with the fixnum tag range,
  truth (\<open>istrue\<close>), value equality (\<open>isequal\<close>), the key text of a dictionary key
  (\<open>alc_key_to_cstr\<close>), and the IEEE double operations the codecs use, on bit patterns.

  Reference counts, flags and addresses are not part of a value: a value is the tree it
  denotes.  Functions, ports, errors and the other types with no structure here are
  \<open>OPAQUE\<close> objects told apart by an identity.
\<close>

section \<open>Values\<close>

record alc_rat_t =
  rat_num :: int
  rat_den :: int

record alc_dec_t =
  dec_coef :: int
  dec_scale :: nat

text \<open>
  \<open>NIL_EXP\<close> and \<open>TRUE_EXP\<close> are the singletons.  \<open>PAIR\<close> is a cons cell
  with its \<open>content\<close> and \<open>next\<close> pointers, \<open>None\<close> for \<open>NULL\<close>.
  The three vector kinds are those of the flag bits; a deque, a dict and a set hold their
  elements, entries and keyed members.
\<close>

datatype exp =
    NIL_EXP
  | TRUE_EXP
  | FIX int
  | CHARACTER u32
  | TYPE_OBJ u32
  | FLOAT u64
  | STRING bytes
  | SYMBOL bytes
  | BLOB bytes
  | RATIONAL alc_rat_t
  | DECIMAL alc_dec_t
  | PAIR "exp option" "exp option"
  | VEC_GEN "exp list"
  | VEC_I64 "int list"
  | VEC_F64 "u64 list"
  | LIST "exp list"
  | DICT "exp dict"
  | SET "exp dict"
  | OPAQUE nat

text \<open>The error codes an error value carries (\<open>ALC_ERRORS\<close>).\<close>

datatype alc_error =
    EXP_ERROR_PARSING_MACROCHAR
  | EXP_ERROR_PARSING_ILLEGAL_CHAR
  | EXP_ERROR_PARSING_EOF
  | EXP_ERROR_PARSING_ESCAPE
  | EXP_ERROR_INVALID_KEY_UPDATE
  | EXP_ERROR_BODY_NOT_LIST
  | EXP_ERROR_PARAM_NOT_LIST
  | EXP_ERROR_MISSING_NAME
  | ERROR_ILLEGAL_VALUE
  | ERROR_DIV_BY0
  | ERROR_MISSING_PARAMETER
  | ERROR_UNBOUND_VARIABLE
  | ERROR_NUMBER_EXPECTED
  | ERROR_INDEX_OUT_OF_RANGE
  | ERROR_USER

section \<open>Fixnums\<close>

definition INT64_MIN :: int where "INT64_MIN = - (2 ^ 63)"
definition INT64_MAX :: int where "INT64_MAX = 2 ^ 63 - 1"

definition int64 :: "int \<Rightarrow> bool" where
  "int64 n = (INT64_MIN \<le> n \<and> n \<le> INT64_MAX)"

text \<open>\<open>FIX_VAL(MAKE_FIX(v))\<close>: shifted up by the tag and back down, 61 bits remain.\<close>

definition fix_trunc :: "int \<Rightarrow> int" where
  "fix_trunc v = signed_take_bit 60 v"

definition MAKE_FIX :: "int \<Rightarrow> exp" where
  "MAKE_FIX v = FIX (fix_trunc v)"

definition FIX_FITS :: "int \<Rightarrow> bool" where
  "FIX_FITS v = (fix_trunc v = v)"

lemma FIX_FITS_range: "FIX_FITS v = (- (2 ^ 60) \<le> v \<and> v < 2 ^ 60)"
  unfolding FIX_FITS_def fix_trunc_def
  by (auto simp: signed_take_bit_int_eq_self_iff)

lemma MAKE_FIX_fits: "FIX_FITS v \<Longrightarrow> MAKE_FIX v = FIX v"
  by (simp add: MAKE_FIX_def FIX_FITS_def)

section \<open>Doubles as bit patterns\<close>

definition f64_frac :: "u64 \<Rightarrow> nat" where "f64_frac b = unat b mod 2 ^ 52"
definition f64_expo :: "u64 \<Rightarrow> nat" where "f64_expo b = unat b div 2 ^ 52 mod 2 ^ 11"
definition f64_sign :: "u64 \<Rightarrow> bool" where "f64_sign b = (unat b \<ge> 2 ^ 63)"

definition f64_is_nan :: "u64 \<Rightarrow> bool" where
  "f64_is_nan b = (f64_expo b = 2047 \<and> f64_frac b \<noteq> 0)"

definition f64_is_inf :: "u64 \<Rightarrow> bool" where
  "f64_is_inf b = (f64_expo b = 2047 \<and> f64_frac b = 0)"

definition f64_is_zero :: "u64 \<Rightarrow> bool" where
  "f64_is_zero b = (f64_expo b = 0 \<and> f64_frac b = 0)"

text \<open>The C operator \<open>==\<close> on doubles.\<close>

definition f64_eq :: "u64 \<Rightarrow> u64 \<Rightarrow> bool" where
  "f64_eq a b = (\<not> f64_is_nan a \<and> \<not> f64_is_nan b \<and> (a = b \<or> (f64_is_zero a \<and> f64_is_zero b)))"

lemma f64_zero_0: "f64_is_zero 0"
  by (simp add: f64_is_zero_def f64_expo_def f64_frac_def)

lemma f64_eq_norm:
  "\<not> f64_is_nan a \<Longrightarrow> \<not> f64_is_nan b \<Longrightarrow>
   f64_eq a b = ((if f64_is_zero a then 0 else a) = (if f64_is_zero b then 0 else b))"
  using f64_zero_0 by (auto simp: f64_eq_def)

text \<open>The C conversion of an integer to a double, rounding to nearest, ties to even.\<close>

fun nat_bits :: "nat \<Rightarrow> nat" where
  "nat_bits n = (if n = 0 then 0 else Suc (nat_bits (n div 2)))"

declare nat_bits.simps [simp del]

definition round_even :: "nat \<Rightarrow> nat \<Rightarrow> nat" where
  "round_even n d =
     (let q = n div d; r = n mod d in
      if 2 * r < d then q else if 2 * r > d then q + 1 else if even q then q else q + 1)"

definition f64_of_nat :: "nat \<Rightarrow> nat" where
  "f64_of_nat n =
     (if n = 0 then 0
      else (let e = nat_bits n - 1;
                m = (if e \<le> 52 then n * 2 ^ (52 - e) else round_even n (2 ^ (e - 52)))
            in (e + 1023) * 2 ^ 52 + (m - 2 ^ 52)))"

definition f64_of_int :: "int \<Rightarrow> u64" where
  "f64_of_int i = of_nat (if i < 0 then 2 ^ 63 + f64_of_nat (nat (- i)) else f64_of_nat (nat i))"

text \<open>The C conversion of a \<open>float\<close>, given by its bits, to a double.\<close>

definition f64_of_f32 :: "u32 \<Rightarrow> u64" where
  "f64_of_f32 b =
     (let s = unat b div 2 ^ 31; e = unat b div 2 ^ 23 mod 2 ^ 8; f = unat b mod 2 ^ 23 in
      of_nat (s * 2 ^ 63 +
        (if e = 255 then 2047 * 2 ^ 52 + (if f = 0 then 0 else 2 ^ 51 + f mod 2 ^ 22 * 2 ^ 29)
         else if e = 0 then
           (if f = 0 then 0
            else (let k = nat_bits f - 1 in (k + 874) * 2 ^ 52 + (f * 2 ^ (52 - k) - 2 ^ 52)))
         else (e + 896) * 2 ^ 52 + f * 2 ^ 29)))"

section \<open>Truth and equality\<close>

fun ispair :: "exp \<Rightarrow> bool" where
  "ispair NIL_EXP = True"
| "ispair (PAIR _ _) = True"
| "ispair _ = False"

fun istrue :: "exp \<Rightarrow> bool" where
  "istrue NIL_EXP = False"
| "istrue TRUE_EXP = True"
| "istrue (FIX n) = (n \<noteq> 0)"
| "istrue (CHARACTER _) = False"
| "istrue (TYPE_OBJ _) = False"
| "istrue (PAIR c n) = (c \<noteq> None \<or> n \<noteq> None)"
| "istrue (SYMBOL s) = (c_str s \<noteq> bytes_of ''nil'')"
| "istrue (STRING s) = (c_str s \<noteq> [])"
| "istrue (FLOAT f) = (\<not> f64_is_zero f)"
| "istrue (VEC_GEN xs) = (xs \<noteq> [])"
| "istrue (VEC_I64 xs) = (xs \<noteq> [])"
| "istrue (VEC_F64 xs) = (xs \<noteq> [])"
| "istrue (BLOB b) = (b \<noteq> [])"
| "istrue (LIST l) = (l \<noteq> [])"
| "istrue (SET d) = (dict_used d > 0)"
| "istrue (DICT d) = (dict_used d > 0)"
| "istrue (RATIONAL _) = False"
| "istrue (DECIMAL _) = False"
| "istrue (OPAQUE _) = True"

text \<open>
  \<open>isequal\<close> on two values that are not the same pointer.  Containers, pairs and
  opaque objects are compared by pointer, so they differ here.
\<close>

definition isequal_val :: "exp \<Rightarrow> exp \<Rightarrow> bool" where
  "isequal_val a b =
     (case a of
        NIL_EXP \<Rightarrow> (case b of NIL_EXP \<Rightarrow> True | _ \<Rightarrow> False)
      | TRUE_EXP \<Rightarrow> (case b of TRUE_EXP \<Rightarrow> True | SYMBOL t \<Rightarrow> strcmp_eq (bytes_of ''t'') t | _ \<Rightarrow> False)
      | FIX m \<Rightarrow> (case b of FIX n \<Rightarrow> m = n | _ \<Rightarrow> False)
      | CHARACTER c \<Rightarrow> (case b of CHARACTER d \<Rightarrow> c = d | _ \<Rightarrow> False)
      | TYPE_OBJ c \<Rightarrow> (case b of TYPE_OBJ d \<Rightarrow> c = d | _ \<Rightarrow> False)
      | FLOAT x \<Rightarrow> (case b of FLOAT y \<Rightarrow> f64_eq x y | _ \<Rightarrow> False)
      | SYMBOL s \<Rightarrow> (case b of SYMBOL t \<Rightarrow> strcmp_eq s t | TRUE_EXP \<Rightarrow> strcmp_eq s (bytes_of ''t'') | _ \<Rightarrow> False)
      | STRING s \<Rightarrow> (case b of STRING t \<Rightarrow> strcmp_eq s t | _ \<Rightarrow> False)
      | BLOB s \<Rightarrow> (case b of BLOB t \<Rightarrow> s = t | _ \<Rightarrow> False)
      | RATIONAL p \<Rightarrow>
          (case b of RATIONAL q \<Rightarrow> rat_num p = rat_num q \<and> rat_den p = rat_den q | _ \<Rightarrow> False)
      | DECIMAL p \<Rightarrow>
          (case b of DECIMAL q \<Rightarrow> dec_coef p = dec_coef q \<and> dec_scale p = dec_scale q | _ \<Rightarrow> False)
      | _ \<Rightarrow> False)"

section \<open>The key text of a dictionary key\<close>

text \<open>Decimal digits, as \<open>printf\<close> writes them with \<open>%u\<close> and \<open>%lld\<close>.\<close>

fun fmt_nat :: "nat \<Rightarrow> bytes" where
  "fmt_nat n = (if n < 10 then [of_nat (48 + n)] else fmt_nat (n div 10) @ [of_nat (48 + n mod 10)])"

declare fmt_nat.simps [simp del]

definition fmt_int :: "int \<Rightarrow> bytes" where
  "fmt_int i = (if i < 0 then 0x2D # fmt_nat (nat (- i)) else fmt_nat (nat i))"

definition alc_key_to_cstr :: "exp option \<Rightarrow> bytes option" where
  "alc_key_to_cstr k =
     (case k of
        Some (SYMBOL s) \<Rightarrow> Some s
      | Some (STRING s) \<Rightarrow> Some s
      | Some TRUE_EXP \<Rightarrow> Some (bytes_of ''t'')
      | Some (FIX n) \<Rightarrow> Some (fmt_int n)
      | Some (TYPE_OBJ i) \<Rightarrow> Some (1 # fmt_nat (unat i))
      | _ \<Rightarrow> None)"

text \<open>Back from a key to a value: keywords, fixnums, strings.\<close>

fun dec_val :: "int \<Rightarrow> bytes \<Rightarrow> int" where
  "dec_val acc [] = acc"
| "dec_val acc (c # cs) = dec_val (acc * 10 + (uint c - 48)) cs"

definition is_digit :: "byte \<Rightarrow> bool" where
  "is_digit c = (0x30 \<le> c \<and> c \<le> 0x39)"

section \<open>Digits\<close>

lemma digit_byte:
  assumes "n < 10"
  shows "is_digit (of_nat (48 + n))" "uint (of_nat (48 + n) :: byte) = 48 + int n"
proof -
  have u: "unat (of_nat (48 + n) :: byte) = 48 + n"
    using assms by (simp only: unsigned_of_nat) (simp add: take_bit_nat_eq_self)
  show "is_digit (of_nat (48 + n))"
    unfolding is_digit_def word_le_nat_alt u using assms by simp
  show "uint (of_nat (48 + n) :: byte) = 48 + int n"
    by (metis u uint_nat of_nat_add of_nat_numeral)
qed

lemma digit_byte':
  "n < 10 \<Longrightarrow> is_digit (48 + of_nat n)" "n < 10 \<Longrightarrow> uint (48 + of_nat n :: byte) = 48 + int n"
  using digit_byte [of n] by simp_all

lemma fmt_nat_digits: "list_all is_digit (fmt_nat n)"
proof (induction n rule: fmt_nat.induct)
  case (1 n)
  then show ?case by (subst fmt_nat.simps) (auto simp: digit_byte')
qed

lemma fmt_nat_nonempty: "fmt_nat n \<noteq> []"
  by (subst fmt_nat.simps) simp

lemma dec_val_append: "dec_val acc (xs @ ys) = dec_val (dec_val acc xs) ys"
  by (induction xs arbitrary: acc) auto

lemma dec_val_fmt_nat: "dec_val 0 (fmt_nat n) = int n"
proof (induction n rule: fmt_nat.induct)
  case (1 n)
  show ?case
  proof (cases "n < 10")
    case True
    then show ?thesis by (subst fmt_nat.simps) (simp add: digit_byte')
  next
    case False
    have "int (n div 10) * 10 + int (n mod 10) = int n"
      by (metis div_mult_mod_eq of_nat_add of_nat_mult of_nat_numeral)
    with False 1 show ?thesis
      using digit_byte'(2) [of "n mod 10"]
      by (subst fmt_nat.simps) (simp add: dec_val_append)
  qed
qed

lemma fmt_nat_inj: "fmt_nat m = fmt_nat n \<Longrightarrow> m = n"
  by (metis dec_val_fmt_nat of_nat_eq_iff)

lemma fmt_int_inj: "fmt_int i = fmt_int j \<Longrightarrow> i = j"
proof -
  have d: "\<not> is_digit 0x2D" by (simp add: is_digit_def)
  have h: "fmt_nat n \<noteq> 0x2D # xs" for n xs
    using fmt_nat_digits [of n] d by (metis list.pred_inject(2))
  assume "fmt_int i = fmt_int j"
  then show ?thesis
    using h h [symmetric] by (auto simp: fmt_int_def dest: fmt_nat_inj split: if_splits)
qed

end
