(* ===== verification/Numeric.thy ===== *)
theory Numeric
  imports Complex_Main Value
begin

text \<open>
  The exact numbers of \<open>numeric.h\<close>: rationals of two 64-bit integers, and bounded
  base-10 decimals of a 128-bit coefficient and a scale.  Integers are mathematical; the
  128-bit intermediate results of the rational operations are proved to fit, and the
  checked 128-bit operations of the decimals are options.
\<close>

section \<open>C division\<close>

text \<open>The C operators \<open>/\<close> and \<open>%\<close>, which truncate toward zero.\<close>

definition c_div :: "int \<Rightarrow> int \<Rightarrow> int" where
  "c_div a b = sgn a * sgn b * (\<bar>a\<bar> div \<bar>b\<bar>)"

definition c_mod :: "int \<Rightarrow> int \<Rightarrow> int" where
  "c_mod a b = sgn a * (\<bar>a\<bar> mod \<bar>b\<bar>)"

section \<open>Rationals\<close>

function gcd_loop :: "nat \<Rightarrow> nat \<Rightarrow> nat" where
  "gcd_loop a b = (if b = 0 then a else gcd_loop b (a mod b))"
  by pat_completeness auto
termination
  by (relation "measure snd") simp_all

declare gcd_loop.simps [simp del]

text \<open>The magnitudes are \<open>uint64_t\<close>; the result is cast back to a signed integer.\<close>

definition alc_gcd64 :: "int \<Rightarrow> int \<Rightarrow> int" where
  "alc_gcd64 a b =
     (let ua = (if a < 0 then nat (- (a + 1)) + 1 else nat a);
          ub = (if b < 0 then nat (- (b + 1)) + 1 else nat b)
      in signed_take_bit 63 (int (gcd_loop ua ub)))"

definition make_rational :: "int \<Rightarrow> int \<Rightarrow> exp option" where
  "make_rational num den =
     (if den = 0 then None
      else if den < 0 \<and> den = INT64_MIN then None
      else if den < 0 \<and> num = INT64_MIN then None
      else
        (let (num, den) = (if den < 0 then (- num, - den) else (num, den));
             g = alc_gcd64 num den;
             (num, den) = (if g > 1 then (c_div num g, c_div den g) else (num, den))
         in if den = 1 \<and> FIX_FITS num then Some (MAKE_FIX num)
            else Some (RATIONAL \<lparr>rat_num = num, rat_den = den\<rparr>)))"

text \<open>The pair is the result and the flag \<open>*over\<close>.\<close>

definition rat_from_i128 :: "int \<Rightarrow> int \<Rightarrow> exp option \<times> bool" where
  "rat_from_i128 num den =
     (let (num, den) = (if den < 0 then (- num, - den) else (num, den));
          a = int (gcd_loop (nat (if num < 0 then - num else num)) (nat den));
          (num, den) = (if a > 1 then (c_div num a, c_div den a) else (num, den))
      in if num < INT64_MIN \<or> num > INT64_MAX \<or> den > INT64_MAX then (None, True)
         else (make_rational num den, False))"

definition exact_parts :: "exp \<Rightarrow> int \<times> int" where
  "exact_parts e =
     (case e of
        RATIONAL r \<Rightarrow> (rat_num r, rat_den r)
      | FIX n \<Rightarrow> (n, 1)
      | _ \<Rightarrow> (0, 1))"

datatype num_err = Divzero | Num_overflow

text \<open>The operator is the C character; the error is the static reason, if any.\<close>

definition rat_operands :: "char \<Rightarrow> int \<Rightarrow> int \<Rightarrow> int \<Rightarrow> int \<Rightarrow> num_err + (int \<times> int)" where
  "rat_operands op an ad bn bd =
     (if op = CHR ''+'' then Inr (an * bd + bn * ad, ad * bd)
      else if op = CHR ''-'' then Inr (an * bd - bn * ad, ad * bd)
      else if op = CHR ''*'' then Inr (an * bn, ad * bd)
      else if op = CHR ''/'' then (if bn = 0 then Inl Divzero else Inr (an * bd, ad * bn))
      else Inl Num_overflow)"

definition rat_binop :: "char \<Rightarrow> exp \<Rightarrow> exp \<Rightarrow> exp option \<times> num_err option" where
  "rat_binop op a b =
     (let (an, ad) = exact_parts a; (bn, bd) = exact_parts b in
      case rat_operands op an ad bn bd of
        Inl e \<Rightarrow> (None, Some e)
      | Inr (num, den) \<Rightarrow>
          (let (r, over) = rat_from_i128 num den in (r, if over then Some Num_overflow else None)))"

text \<open>
  \<open>fix_op_ovf\<close>: the flag and the accumulator, which the overflow builtins also
  write (wrapped) when they report an overflow.
\<close>

definition ovf64 :: "int \<Rightarrow> bool \<times> int" where
  "ovf64 r = (\<not> int64 r, signed_take_bit 63 r)"

definition fix_op_ovf :: "char \<Rightarrow> int \<Rightarrow> int \<Rightarrow> bool \<times> int" where
  "fix_op_ovf op acc b =
     (if op = CHR ''+'' then ovf64 (acc + b)
      else if op = CHR ''-'' then ovf64 (acc - b)
      else if op = CHR ''*'' then ovf64 (acc * b)
      else if op = CHR ''/'' then
        (if acc = INT64_MIN \<and> b = - 1 then (True, acc) else (False, c_div acc b))
      else (False, acc))"

definition rat_cmp :: "exp \<Rightarrow> exp \<Rightarrow> int" where
  "rat_cmp a b =
     (let (an, ad) = exact_parts a; (bn, bd) = exact_parts b;
          lhs = an * bd; rhs = bn * ad
      in if lhs < rhs then - 1 else if lhs > rhs then 1 else 0)"

section \<open>Decimals\<close>

definition DEC_MAX_SCALE :: nat where "DEC_MAX_SCALE = 28"

definition i128 :: "int \<Rightarrow> bool" where
  "i128 r = (- (2 ^ 127) \<le> r \<and> r < 2 ^ 127)"

text \<open>The overflow-checked operations: \<open>None\<close> is the flag 1.\<close>

definition i128_mul_ovf :: "int \<Rightarrow> int \<Rightarrow> int option" where
  "i128_mul_ovf a b = (if i128 (a * b) then Some (a * b) else None)"

definition i128_add_ovf :: "int \<Rightarrow> int \<Rightarrow> int option" where
  "i128_add_ovf a b = (if i128 (a + b) then Some (a + b) else None)"

definition i128_sub_ovf :: "int \<Rightarrow> int \<Rightarrow> int option" where
  "i128_sub_ovf a b = (if i128 (a - b) then Some (a - b) else None)"

fun dec_pow10 :: "nat \<Rightarrow> int" where
  "dec_pow10 0 = 1"
| "dec_pow10 (Suc n) = dec_pow10 n * 10"

text \<open>Trimming of trailing fractional zeros.\<close>

fun dec_trim :: "int \<Rightarrow> nat \<Rightarrow> int \<times> nat" where
  "dec_trim coef 0 = (coef, 0)"
| "dec_trim coef (Suc s) = (if c_mod coef 10 = 0 then dec_trim (c_div coef 10) s else (coef, Suc s))"

text \<open>Rounding of a coefficient at a scale beyond the largest one.\<close>

definition dec_round :: "int \<Rightarrow> nat \<Rightarrow> int" where
  "dec_round coef excess =
     (let divisor = dec_pow10 excess;
          r = c_mod coef divisor;
          rem = (if r < 0 then - r else r);
          coef' = c_div coef divisor
      in if rem * 2 \<ge> divisor then coef' + (if coef' < 0 then - 1 else 1) else coef')"

text \<open>
  The value of \<open>*over\<close>: 0 no error, 1 overflow, 2 division by zero, 3 malformed.
\<close>

definition make_decimal_raw :: "int \<Rightarrow> nat \<Rightarrow> exp option \<times> nat" where
  "make_decimal_raw coef scale =
     (let (coef, scale) = dec_trim coef scale;
          (coef, scale) =
            (if scale > DEC_MAX_SCALE
             then dec_trim (dec_round coef (scale - DEC_MAX_SCALE)) DEC_MAX_SCALE
             else (coef, scale))
      in if coef = - (2 ^ 127) then (None, 1)
         else if (if coef < 0 then - coef else coef) \<ge> dec_pow10 29 then (None, 1)
         else (Some (DECIMAL \<lparr>dec_coef = coef, dec_scale = scale\<rparr>), 0))"

text \<open>The digit loop of the parser; \<open>Inl\<close> is the error it returns.\<close>

fun dec_parse_loop :: "bytes \<Rightarrow> int \<Rightarrow> nat \<Rightarrow> bool \<Rightarrow> bool \<Rightarrow> nat \<Rightarrow> nat + (int \<times> nat \<times> bool)" where
  "dec_parse_loop [] coef scale seen dot ndig = Inr (coef, scale, seen)"
| "dec_parse_loop (c # cs) coef scale seen dot ndig =
     (if c = 0x2E then
        (if dot then Inl 3 else dec_parse_loop cs coef scale seen True ndig)
      else if c < 0x30 \<or> c > 0x39 then Inl 3
      else if ndig + 1 > 38 then Inl 1
      else dec_parse_loop cs (coef * 10 + (uint c - 0x30)) (if dot then scale + 1 else scale)
             True dot (ndig + 1))"

definition dec_parse :: "bytes \<Rightarrow> exp option \<times> nat" where
  "dec_parse s =
     (let signed = (s \<noteq> [] \<and> (hd s = 0x2B \<or> hd s = 0x2D));
          neg = (signed \<and> hd s = 0x2D)
      in case dec_parse_loop (if signed then tl s else s) 0 0 False False 0 of
           Inl e \<Rightarrow> (None, e)
         | Inr (coef, scale, seen) \<Rightarrow>
             if \<not> seen then (None, 3)
             else make_decimal_raw (if neg then - coef else coef) scale)"

definition dec_align :: "alc_dec_t \<Rightarrow> alc_dec_t \<Rightarrow> (int \<times> int \<times> nat) option" where
  "dec_align a b =
     (let s = (if dec_scale a > dec_scale b then dec_scale a else dec_scale b) in
      case i128_mul_ovf (dec_coef a) (dec_pow10 (s - dec_scale a)) of
        None \<Rightarrow> None
      | Some ca \<Rightarrow>
          (case i128_mul_ovf (dec_coef b) (dec_pow10 (s - dec_scale b)) of
             None \<Rightarrow> None
           | Some cb \<Rightarrow> Some (ca, cb, s)))"

definition dec_addsub :: "alc_dec_t \<Rightarrow> alc_dec_t \<Rightarrow> bool \<Rightarrow> exp option \<times> nat" where
  "dec_addsub a b sub =
     (case dec_align a b of
        None \<Rightarrow> (None, 1)
      | Some (ca, cb, s) \<Rightarrow>
          (case (if sub then i128_sub_ovf ca cb else i128_add_ovf ca cb) of
             None \<Rightarrow> (None, 1)
           | Some r \<Rightarrow> make_decimal_raw r s))"

definition dec_mul :: "alc_dec_t \<Rightarrow> alc_dec_t \<Rightarrow> exp option \<times> nat" where
  "dec_mul a b =
     (case i128_mul_ovf (dec_coef a) (dec_coef b) of
        None \<Rightarrow> (None, 1)
      | Some r \<Rightarrow> make_decimal_raw r (dec_scale a + dec_scale b))"

text \<open>
  The long division: at most \<open>left\<close> more digits are produced; \<open>None\<close> is a
  128-bit overflow, otherwise the quotient, remainder and scale.
\<close>

fun dec_div_loop :: "int \<Rightarrow> nat \<Rightarrow> int \<Rightarrow> int \<Rightarrow> nat \<Rightarrow> (int \<times> int \<times> nat) option" where
  "dec_div_loop d 0 q rem scale = Some (q, rem, scale)"
| "dec_div_loop d (Suc left) q rem scale =
     (if rem = 0 then Some (q, rem, scale)
      else (case (i128_mul_ovf q 10, i128_mul_ovf rem 10) of
          (Some q10, Some rem10) \<Rightarrow>
            (case i128_add_ovf q10 (c_div rem10 d) of
               None \<Rightarrow> None
             | Some q' \<Rightarrow> dec_div_loop d left q' (c_mod rem10 d) (scale + 1))
        | _ \<Rightarrow> None))"

definition dec_div :: "alc_dec_t \<Rightarrow> alc_dec_t \<Rightarrow> exp option \<times> nat" where
  "dec_div a b =
     (if dec_coef b = 0 then (None, 2)
      else (case (i128_mul_ovf (dec_coef a) (dec_pow10 (dec_scale b)),
                  i128_mul_ovf (dec_coef b) (dec_pow10 (dec_scale a))) of
          (Some N, Some D) \<Rightarrow>
            (let neg = ((N < 0) \<noteq> (D < 0));
                 n = (if N < 0 then - N else N);
                 d = (if D < 0 then - D else D)
             in case dec_div_loop d DEC_MAX_SCALE (c_div n d) (c_mod n d) 0 of
                  None \<Rightarrow> (None, 1)
                | Some (q, rem, scale) \<Rightarrow>
                    (let q' = (if rem \<noteq> 0 \<and> rem \<ge> d - rem then q + 1 else q)
                     in make_decimal_raw (if neg then - q' else q') scale))
        | _ \<Rightarrow> (None, 1)))"

text \<open>
  The comparison falls back on doubles when aligning the coefficients overflows;
  \<open>cmp_double\<close> is that comparison of \<open>coef * pow(10, -scale)\<close>.
\<close>

definition dec_cmp :: "(alc_dec_t \<Rightarrow> alc_dec_t \<Rightarrow> int) \<Rightarrow> alc_dec_t \<Rightarrow> alc_dec_t \<Rightarrow> int" where
  "dec_cmp cmp_double a b =
     (if dec_scale a = dec_scale b then
        (if dec_coef a < dec_coef b then - 1 else if dec_coef a > dec_coef b then 1 else 0)
      else (case dec_align a b of
          Some (ca, cb, s) \<Rightarrow> (if ca < cb then - 1 else if ca > cb then 1 else 0)
        | None \<Rightarrow> cmp_double a b))"

definition dec_binop :: "char \<Rightarrow> alc_dec_t \<Rightarrow> alc_dec_t \<Rightarrow> exp option \<times> nat" where
  "dec_binop op a b =
     (if op = CHR ''+'' then dec_addsub a b False
      else if op = CHR ''-'' then dec_addsub a b True
      else if op = CHR ''*'' then dec_mul a b
      else if op = CHR ''/'' then dec_div a b
      else (None, 1))"

text \<open>The digits of the magnitude, least significant first, and the rendering loop.\<close>

fun dec_digits :: "nat \<Rightarrow> bytes" where
  "dec_digits m = (if m = 0 then [] else of_nat (48 + m mod 10) # dec_digits (m div 10))"

declare dec_digits.simps [simp del]

fun dec_emit :: "nat \<Rightarrow> nat \<Rightarrow> nat \<Rightarrow> bytes \<Rightarrow> bytes" where
  "dec_emit scale intlen k [] = []"
| "dec_emit scale intlen k (c # cs) =
     (if scale > 0 \<and> k = intlen then 0x2E # c # dec_emit scale intlen (k + 1) cs
      else c # dec_emit scale intlen (k + 1) cs)"

definition dec_to_str :: "alc_dec_t \<Rightarrow> bytes" where
  "dec_to_str d =
     (let m = nat (if dec_coef d < 0 then - dec_coef d else dec_coef d);
          digits = (if m = 0 then [0x30] else dec_digits m);
          digits = digits @ replicate (dec_scale d + 1 - length digits) 0x30;
          nd = length digits
      in (if dec_coef d < 0 then [0x2D] else [])
         @ dec_emit (dec_scale d) (nd - dec_scale d) 0 (rev digits))"


section \<open>Exact values\<close>

text \<open>
  The well-formed exact values: fixnums of the tag range, and reduced rationals with a
  positive denominator and 64-bit parts that are no fixnum.
\<close>

definition exact_ok :: "exp \<Rightarrow> bool" where
  "exact_ok e =
     (case e of
        FIX n \<Rightarrow> FIX_FITS n
      | RATIONAL r \<Rightarrow> int64 (rat_num r) \<and> int64 (rat_den r) \<and> rat_den r > 0
          \<and> coprime (rat_num r) (rat_den r) \<and> (rat_den r = 1 \<longrightarrow> \<not> FIX_FITS (rat_num r))
      | _ \<Rightarrow> False)"

definition exact_val :: "exp \<Rightarrow> rat" where
  "exact_val e = (case exact_parts e of (n, d) \<Rightarrow> of_int n / of_int d)"

lemma gcd_loop_gcd: "gcd_loop a b = gcd a b"
proof (induction a b rule: gcd_loop.induct)
  case (1 a b)
  then show ?case by (subst gcd_loop.simps) (auto simp: gcd_red_nat [symmetric] gcd.commute)
qed

lemma alc_gcd64_gcd:
  assumes "int64 b" "0 < b"
  shows "alc_gcd64 a b = gcd a b"
proof -
  have a: "(if a < 0 then nat (- (a + 1)) + 1 else nat a) = nat \<bar>a\<bar>" by auto
  have b: "(if b < 0 then nat (- (b + 1)) + 1 else nat b) = nat \<bar>b\<bar>" using assms by simp
  have g: "int (gcd_loop (nat \<bar>a\<bar>) (nat \<bar>b\<bar>)) = gcd a b"
    by (simp only: gcd_loop_gcd gcd_int_def)
  have "gcd a b \<le> b" by (rule zdvd_imp_le) (use assms in simp_all)
  moreover have "b < 2 ^ 63" using assms by (simp add: int64_def INT64_MAX_def)
  moreover have "0 \<le> gcd a b" by simp
  ultimately have "signed_take_bit 63 (gcd a b) = gcd a b"
    by (intro signed_take_bit_int_eq_self) linarith+
  then show ?thesis unfolding alc_gcd64_def Let_def a b g .
qed

lemma c_div_exact: "0 < g \<Longrightarrow> g dvd n \<Longrightarrow> c_div n g = n div g"
  by (auto simp: c_div_def sgn_mult abs_mult mult_sgn_abs elim!: dvdE)

lemma reduced_parts:
  fixes num den :: int
  assumes "0 < den"
  defines "g \<equiv> gcd num den"
  shows "(if g > 1 then (c_div num g, c_div den g) else (num, den)) = (num div g, den div g)"
    "coprime (num div g) (den div g)" "0 < den div g" "(of_int (num div g) :: rat) / of_int (den div g) = of_int num / of_int den"
    "\<bar>num div g\<bar> \<le> \<bar>num\<bar>" "den div g \<le> den"
proof -
  have g: "0 < g" "g dvd num" "g dvd den" using assms by (simp_all add: g_def)
  then show "(if g > 1 then (c_div num g, c_div den g) else (num, den)) = (num div g, den div g)"
    by (cases "g = 1") (simp_all add: c_div_exact)
  show "coprime (num div g) (den div g)" using assms by (simp add: g_def div_gcd_coprime)
  show p: "0 < den div g" using g assms by (simp add: pos_imp_zdiv_pos_iff zdvd_imp_le)
  obtain n d where nd: "num = g * n" "den = g * d" using g by (auto elim!: dvdE)
  with g show "(of_int (num div g) :: rat) / of_int (den div g) = of_int num / of_int den" by simp
  have "\<bar>n\<bar> \<le> g * \<bar>n\<bar>" "d \<le> g * d" using g p nd by (simp_all add: mult_le_cancel_right1)
  with g nd show "\<bar>num div g\<bar> \<le> \<bar>num\<bar>" "den div g \<le> den" by (simp_all add: abs_mult)
qed

lemma int64_bound: "int64 n \<Longrightarrow> 0 < d \<Longrightarrow> int64 (n div gcd n d)"
proof -
  assume "int64 n" "0 < d"
  define g where "g = gcd n d"
  have "0 < g" "g dvd n" using \<open>0 < d\<close> by (simp_all add: g_def)
  then obtain k where k: "n = g * k" by (auto elim!: dvdE)
  have "0 \<le> k \<Longrightarrow> k \<le> n" "k < 0 \<Longrightarrow> n \<le> k" using k \<open>0 < g\<close>
    by (simp_all add: mult_le_cancel_right1 mult_le_cancel_right2)
  with \<open>int64 n\<close> have "int64 k"
    by (cases "0 \<le> k") (simp_all add: int64_def INT64_MIN_def INT64_MAX_def)
  moreover have "n div g = k" using k \<open>0 < g\<close> by simp
  ultimately show ?thesis by (simp add: g_def)
qed

lemma make_rational_ok:
  assumes "int64 num" "int64 den" "0 < den"
  shows "\<exists>r. make_rational num den = Some r \<and> exact_ok r \<and> exact_val r = of_int num / of_int den"
proof -
  note r = reduced_parts [OF assms(3), of num]
  let ?n = "num div gcd num den" and ?d = "den div gcd num den"
  have e: "make_rational num den =
     (if ?d = 1 \<and> FIX_FITS ?n then Some (MAKE_FIX ?n) else Some (RATIONAL \<lparr>rat_num = ?n, rat_den = ?d\<rparr>))"
  proof -
    have "make_rational num den = (let (n, d) = (if gcd num den > 1
        then (c_div num (gcd num den), c_div den (gcd num den)) else (num, den))
      in if d = 1 \<and> FIX_FITS n then Some (MAKE_FIX n) else Some (RATIONAL \<lparr>rat_num = n, rat_den = d\<rparr>))"
      using assms by (simp add: make_rational_def alc_gcd64_gcd Let_def)
    then show ?thesis unfolding r(1) by simp
  qed
  have "int64 ?n" using int64_bound [OF assms(1,3)] .
  moreover have "int64 ?d"
    using r(3,6) assms by (simp add: int64_def INT64_MIN_def INT64_MAX_def)
  ultimately show ?thesis using r(2-4)
    by (auto simp: e exact_ok_def exact_val_def exact_parts_def MAKE_FIX_fits)
qed

lemma rat_from_i128_ok:
  assumes "den \<noteq> 0"
  shows "case rat_from_i128 num den of
      (Some r, False) \<Rightarrow> exact_ok r \<and> exact_val r = of_int num / of_int den
    | (None, True) \<Rightarrow> (\<forall>r. exact_ok r \<longrightarrow> exact_val r \<noteq> of_int num / of_int den)
    | _ \<Rightarrow> False"
proof -
  define n d where "n = (if den < 0 then - num else num)" and "d = (if den < 0 then - den else den)"
  have d: "0 < d" and v: "(of_int n :: rat) / of_int d = of_int num / of_int den"
    using assms by (auto simp: n_def d_def)
  let ?n = "n div gcd n d" and ?d = "d div gcd n d"
  have g: "int (gcd_loop (nat (if n < 0 then - n else n)) (nat d)) = gcd n d"
    using d by (simp only: gcd_loop_gcd gcd_int_def abs_if [symmetric]) simp
  note r = reduced_parts [OF d, of n]
  have e: "rat_from_i128 num den = (if ?n < INT64_MIN \<or> ?n > INT64_MAX \<or> ?d > INT64_MAX then (None, True)
     else (make_rational ?n ?d, False))"
  proof -
    have "(if den < 0 then (- num, - den) else (num, den)) = (n, d)" by (simp add: n_def d_def)
    then show ?thesis by (simp only: rat_from_i128_def Let_def prod.case g r(1))
  qed
  show ?thesis
  proof (cases "?n < INT64_MIN \<or> ?n > INT64_MAX \<or> ?d > INT64_MAX")
    case True
    have "exact_val q \<noteq> of_int num / of_int den" if q: "exact_ok q" for q
    proof
      assume "exact_val q = of_int num / of_int den"
      obtain a b where ab: "exact_parts q = (a, b)" by fastforce
      have ok: "0 < b" "coprime a b" "int64 a" "int64 b"
        using q ab by (auto simp: exact_ok_def exact_parts_def FIX_FITS_range int64_def
            INT64_MIN_def INT64_MAX_def split: exp.splits)
      from \<open>exact_val q = of_int num / of_int den\<close> ab
      have "(of_int a :: rat) / of_int b = of_int ?n / of_int ?d" by (simp add: exact_val_def v r(4))
      then have "(of_int (a * ?d) :: rat) = of_int (?n * b)" using ok r(3)
        by (simp add: field_simps)
      then have x: "a * ?d = ?n * b" by (simp only: of_int_eq_iff)
      have "b dvd ?d"
        using x ok(2) by (metis coprime_commute coprime_dvd_mult_right_iff dvd_triv_right)
      moreover have "?d dvd b"
        using x r(2) by (metis coprime_commute coprime_dvd_mult_right_iff dvd_triv_right)
      ultimately have "b = ?d" using ok(1) r(3) zdvd_antisym_nonneg by simp
      with x r(3) have "a = ?n" by simp
      with True ok \<open>b = ?d\<close> show False by (auto simp: int64_def)
    qed
    with True show ?thesis by (simp add: e)
  next
    case False
    then have "int64 ?n" "int64 ?d" using r(3) by (auto simp: int64_def INT64_MIN_def)
    with make_rational_ok [OF this r(3)] False show ?thesis by (auto simp: e r(4) v)
  qed
qed


lemma exact_parts_ok:
  assumes "exact_ok a" "exact_parts a = (n, d)"
  shows "0 < d" "int64 n" "int64 d" "coprime n d" "exact_val a = of_int n / of_int d"
  using assms by (auto simp: exact_ok_def exact_parts_def exact_val_def FIX_FITS_range int64_def
      INT64_MIN_def INT64_MAX_def split: exp.splits)

text \<open>A value has one well-formed form: structural equality is value equality.\<close>

lemma exact_val_inj:
  assumes "exact_ok a" "exact_ok b" "exact_val a = exact_val b"
  shows "a = b"
proof -
  obtain n d where a: "exact_parts a = (n, d)" by fastforce
  obtain m e where b: "exact_parts b = (m, e)" by fastforce
  note pa = exact_parts_ok [OF assms(1) a] and pb = exact_parts_ok [OF assms(2) b]
  have "(of_int n :: rat) / of_int d = of_int m / of_int e" using pa(5) pb(5) assms(3) by simp
  then have "(of_int (n * e) :: rat) = of_int (m * d)" using pa(1) pb(1)
    by (simp add: field_simps)
  then have x: "n * e = m * d" by (simp only: of_int_eq_iff)
  have "d dvd e" using x pa(4) by (metis coprime_commute coprime_dvd_mult_right_iff dvd_triv_right)
  moreover have "e dvd d" using x pb(4)
    by (metis coprime_commute coprime_dvd_mult_right_iff dvd_triv_right)
  ultimately have e: "e = d" using pa(1) pb(1) zdvd_antisym_nonneg by simp
  with x pa(1) have m: "n = m" by simp
  show ?thesis
    using assms(1,2) a b unfolding e m
    by (auto simp: exact_ok_def exact_parts_def split: exp.splits)
qed

fun rat_op :: "char \<Rightarrow> rat \<Rightarrow> rat \<Rightarrow> rat option" where
  "rat_op op x y =
     (if op = CHR ''+'' then Some (x + y) else if op = CHR ''-'' then Some (x - y)
      else if op = CHR ''*'' then Some (x * y)
      else if op = CHR ''/'' then (if y = 0 then None else Some (x / y)) else None)"

lemma rat_operands_ok:
  assumes "exact_ok a" "exact_ok b" "exact_parts a = (an, ad)" "exact_parts b = (bn, bd)"
    "op \<in> set ''+-*/''"
  shows "case rat_operands op an ad bn bd of
      Inl e \<Rightarrow> e = Divzero \<and> op = CHR ''/'' \<and> exact_val b = 0
    | Inr (num, den) \<Rightarrow> den \<noteq> 0 \<and> rat_op op (exact_val a) (exact_val b) = Some (of_int num / of_int den)"
proof -
  note pa = exact_parts_ok [OF assms(1,3)] and pb = exact_parts_ok [OF assms(2,4)]
  have d: "(of_int ad :: rat) \<noteq> 0" "(of_int bd :: rat) \<noteq> 0" using pa(1) pb(1) by simp_all
  have b: "exact_val b = 0 \<longleftrightarrow> bn = 0" using pb(5) d by simp
  from assms(5) consider "op = CHR ''+''" | "op = CHR ''-''" | "op = CHR ''*''" | "op = CHR ''/''" by auto
  then show ?thesis
  proof cases
    case 4
    with pa(1) pb d b show ?thesis by (simp add: rat_operands_def pa(5))
  qed (use pa(1,5) pb(1,5) d in \<open>simp_all add: rat_operands_def field_simps\<close>)
qed

text \<open>The bound on a product of two 64-bit integers, for the 128-bit intermediates.\<close>

lemma int64_abs: "int64 x \<Longrightarrow> \<bar>x\<bar> \<le> 2 ^ 63"
  by (simp add: int64_def INT64_MIN_def INT64_MAX_def abs_le_iff)

lemma int64_mult: "int64 x \<Longrightarrow> int64 y \<Longrightarrow> \<bar>x * y\<bar> \<le> 2 ^ 126"
proof -
  assume "int64 x" "int64 y"
  then have "\<bar>x\<bar> * \<bar>y\<bar> \<le> 2 ^ 63 * 2 ^ 63" by (intro mult_mono int64_abs) simp_all
  then show ?thesis by (simp add: abs_mult)
qed

lemma int64_mult_den:
  assumes "int64 x" "int64 d" "0 < d"
  shows "\<bar>x * d\<bar> < 2 ^ 126"
proof -
  have "\<bar>x\<bar> * \<bar>d\<bar> \<le> 2 ^ 63 * (2 ^ 63 - 1)"
    using assms by (intro mult_mono int64_abs) (simp_all add: int64_def INT64_MAX_def)
  then show ?thesis by (simp add: abs_mult)
qed

section \<open>Properties of the rationals\<close>

text \<open>
  C31. Arithmetic on two well-formed exact values is exact: a result is well formed and is
  the sum, difference, product or quotient of the operands as rational numbers; division
  by zero is reported exactly when a quotient is asked for and the divisor is zero; and the overflow
  error is given exactly when the result is defined and no well-formed value denotes it.
\<close>

theorem rat_binop_exact:
  assumes "exact_ok a" "exact_ok b" "op \<in> set ''+-*/''"
  shows "(rat_binop op a b = (None, Some Divzero)) = (op = CHR ''/'' \<and> exact_val b = 0)
    \<and> (rat_binop op a b = (None, Some Num_overflow)) = (\<exists>q. rat_op op (exact_val a) (exact_val b) = Some q \<and> (\<forall>r. exact_ok r \<longrightarrow> exact_val r \<noteq> q))
    \<and> (case rat_binop op a b of
        (Some r, None) \<Rightarrow> exact_ok r \<and> rat_op op (exact_val a) (exact_val b) = Some (exact_val r)
      | (None, Some e) \<Rightarrow> True
      | _ \<Rightarrow> False)"
proof -
  obtain an ad where a: "exact_parts a = (an, ad)" by fastforce
  obtain bn bd where b: "exact_parts b = (bn, bd)" by fastforce
  note o = rat_operands_ok [OF assms(1,2) a b assms(3)]
  show ?thesis
  proof (cases "rat_operands op an ad bn bd")
    case (Inl e)
    with o have d: "rat_binop op a b = (None, Some Divzero)" "op = CHR ''/''" "exact_val b = 0" by (simp_all add: rat_binop_def a b)
    then show ?thesis by simp
  next
    case (Inr p)
    obtain num den where p: "p = (num, den)" by fastforce
    then have den: "den \<noteq> 0" and v: "rat_op op (exact_val a) (exact_val b) = Some (of_int num / of_int den)"
      using o Inr by (simp_all del: rat_op.simps)
    obtain r over where f: "rat_from_i128 num den = (r, over)" by fastforce
    have bin: "rat_binop op a b = (r, if over then Some Num_overflow else None)" by (simp add: rat_binop_def a b Inr p f)
    have nz: "\<not> (op = CHR ''/'' \<and> exact_val b = 0)" using v by auto
    show ?thesis
      using rat_from_i128_ok [OF den, of num] nz unfolding bin f v by (auto split: option.splits bool.splits)
  qed
qed

theorem rat_binop_exact_witness:
  "exact_ok (RATIONAL \<lparr>rat_num = 1, rat_den = 2\<rparr>) \<and> exact_ok (RATIONAL \<lparr>rat_num = 1, rat_den = 3\<rparr>)
   \<and> rat_binop (CHR ''*'') (RATIONAL \<lparr>rat_num = 1, rat_den = 2\<rparr>) (RATIONAL \<lparr>rat_num = 1, rat_den = 3\<rparr>)
     = (Some (RATIONAL \<lparr>rat_num = 1, rat_den = 6\<rparr>), None)"
proof -
  have h: "exact_ok (RATIONAL \<lparr>rat_num = 1, rat_den = 2\<rparr>)" "exact_ok (RATIONAL \<lparr>rat_num = 1, rat_den = 3\<rparr>)"
    "exact_ok (RATIONAL \<lparr>rat_num = 1, rat_den = 6\<rparr>)"
    by (simp_all add: exact_ok_def int64_def INT64_MIN_def INT64_MAX_def coprime_iff_gcd_eq_1)
  have "rat_op (CHR ''*'') (exact_val (RATIONAL \<lparr>rat_num = 1, rat_den = 2\<rparr>))
       (exact_val (RATIONAL \<lparr>rat_num = 1, rat_den = 3\<rparr>)) = Some (exact_val (RATIONAL \<lparr>rat_num = 1, rat_den = 6\<rparr>))"
    by (simp add: exact_val_def exact_parts_def)
  moreover have "e = Divzero \<or> e = Num_overflow" for e by (cases e) simp_all
  ultimately show ?thesis using h rat_binop_exact [OF h(1,2), of "CHR ''*''"]
    by (fastforce simp del: rat_op.simps dest: exact_val_inj split: prod.splits option.splits)
qed

text \<open>
  The 128-bit intermediates of the rational operations and comparisons never overflow:
  on well-formed operands every numerator and denominator handed to the reduction, and its
  negation, is a 128-bit integer, so the unchecked C arithmetic is the arithmetic of the
  model.
\<close>

theorem rat_binop_fits_i128:
  assumes "exact_ok a" "exact_ok b" "exact_parts a = (an, ad)" "exact_parts b = (bn, bd)"
    "rat_operands op an ad bn bd = Inr (num, den)"
  shows "\<bar>num\<bar> < 2 ^ 127 \<and> \<bar>den\<bar> < 2 ^ 127 \<and> \<bar>an * bd\<bar> < 2 ^ 127 \<and> \<bar>bn * ad\<bar> < 2 ^ 127"
proof -
  note pa = exact_parts_ok [OF assms(1,3)] and pb = exact_parts_ok [OF assms(2,4)]
  have m: "\<bar>an * bd\<bar> < 2 ^ 126" "\<bar>bn * ad\<bar> < 2 ^ 126" "\<bar>ad * bd\<bar> < 2 ^ 126" "\<bar>ad * bn\<bar> < 2 ^ 126"
    "\<bar>an * bn\<bar> \<le> 2 ^ 126"
    using int64_mult_den [OF pa(2) pb(3,1)] int64_mult_den [OF pb(2) pa(3,1)]
      int64_mult_den [OF pa(3) pb(3,1)] int64_mult [OF pa(2) pb(2)] by (simp_all add: mult.commute)
  show ?thesis
    using assms(5) m by (auto simp: rat_operands_def split: if_splits)
qed

theorem rat_binop_fits_i128_witness:
  "\<bar>1 * 3 + 1 * (2 :: int)\<bar> < 2 ^ 127 \<and> \<bar>2 * (3 :: int)\<bar> < 2 ^ 127"
proof -
  have h: "exact_ok (RATIONAL \<lparr>rat_num = 1, rat_den = 2\<rparr>)" "exact_ok (RATIONAL \<lparr>rat_num = 1, rat_den = 3\<rparr>)"
    by (simp_all add: exact_ok_def int64_def INT64_MIN_def INT64_MAX_def coprime_iff_gcd_eq_1)
  show ?thesis
    using rat_binop_fits_i128 [OF h, of 1 2 1 3 "CHR ''+''" "1 * 3 + 1 * 2" "2 * 3"]
    by (simp add: exact_parts_def rat_operands_def)
qed

text \<open>
  Comparison of exact values is the order of the rational numbers, and two well-formed
  values compare equal only when they are the same value.
\<close>

theorem rat_cmp_order:
  assumes "exact_ok a" "exact_ok b"
  shows "rat_cmp a b = (if exact_val a < exact_val b then - 1 else if exact_val a = exact_val b then 0 else 1)
    \<and> (rat_cmp a b = 0 \<longleftrightarrow> a = b)"
proof -
  obtain an ad where a: "exact_parts a = (an, ad)" by fastforce
  obtain bn bd where b: "exact_parts b = (bn, bd)" by fastforce
  note pa = exact_parts_ok [OF assms(1) a] and pb = exact_parts_ok [OF assms(2) b]
  have l: "exact_val a < exact_val b \<longleftrightarrow> an * bd < bn * ad"
  proof -
    have "exact_val a < exact_val b \<longleftrightarrow> (of_int (an * bd) :: rat) < of_int (bn * ad)"
      unfolding pa(5) pb(5) using pa(1) pb(1) by (simp add: field_simps)
    then show ?thesis by (simp only: of_int_less_iff)
  qed
  have q: "exact_val a = exact_val b \<longleftrightarrow> an * bd = bn * ad"
  proof -
    have "exact_val a = exact_val b \<longleftrightarrow> (of_int (an * bd) :: rat) = of_int (bn * ad)"
      unfolding pa(5) pb(5) using pa(1) pb(1) by (simp add: field_simps)
    then show ?thesis by (simp only: of_int_eq_iff)
  qed
  have c: "rat_cmp a b = (if exact_val a < exact_val b then - 1 else if exact_val a = exact_val b then 0 else 1)"
    unfolding l q by (simp add: rat_cmp_def a b)
  moreover have "a = b \<longleftrightarrow> exact_val a = exact_val b" using exact_val_inj [OF assms] by blast
  ultimately show ?thesis by auto
qed

theorem rat_cmp_order_witness:
  "rat_cmp (FIX 1) (RATIONAL \<lparr>rat_num = 1, rat_den = 2\<rparr>) = 1"
proof -
  have h: "exact_ok (FIX 1)" "exact_ok (RATIONAL \<lparr>rat_num = 1, rat_den = 2\<rparr>)"
    by (simp_all add: exact_ok_def int64_def INT64_MIN_def INT64_MAX_def coprime_iff_gcd_eq_1 FIX_FITS_range)
  show ?thesis using rat_cmp_order [OF h] by (simp add: exact_val_def exact_parts_def)
qed


section \<open>Decimals\<close>

definition dec_ok :: "alc_dec_t \<Rightarrow> bool" where
  "dec_ok d = (\<bar>dec_coef d\<bar> < 10 ^ 29 \<and> dec_scale d \<le> 28
     \<and> (dec_scale d = 0 \<or> dec_coef d mod 10 \<noteq> 0))"

definition dec_rat :: "alc_dec_t \<Rightarrow> rat" where
  "dec_rat d = of_int (dec_coef d) / 10 ^ dec_scale d"

lemma dec_pow10_pow [simp]: "dec_pow10 n = 10 ^ n"
  by (induction n) simp_all

lemma c_div_mod: "c_div a b * b + c_mod a b = a"
proof -
  have "c_div a b * b + c_mod a b = sgn a * (\<bar>a\<bar> div \<bar>b\<bar> * (sgn b * b) + \<bar>a\<bar> mod \<bar>b\<bar>)"
    by (simp add: c_div_def c_mod_def algebra_simps)
  also have "sgn b * b = \<bar>b\<bar>" by (simp add: sgn_if)
  finally show ?thesis by (simp add: sgn_mult_abs)
qed

lemma c_mod_abs: "0 < b \<Longrightarrow> \<bar>c_mod a b\<bar> < b"
  by (simp add: c_mod_def abs_mult sgn_if)

lemma c_mod_0: "0 < b \<Longrightarrow> (c_mod a b = 0) = (a mod b = 0)"
  by (auto simp: c_mod_def sgn_if mod_eq_0_iff_dvd)

lemma c_div_abs: "0 < b \<Longrightarrow> \<bar>c_div a b\<bar> = \<bar>a\<bar> div b"
  by (simp add: c_div_def abs_mult sgn_if pos_imp_zdiv_nonneg_iff)

lemma dec_trim_spec:
  "dec_trim c s = (c', s') \<Longrightarrow>
   c = c' * 10 ^ (s - s') \<and> s' \<le> s \<and> (s' = 0 \<or> c' mod 10 \<noteq> 0)"
proof (induction c s arbitrary: c' s' rule: dec_trim.induct)
  case (2 c s)
  show ?case
  proof (cases "c_mod c 10 = 0")
    case True
    with 2 have ih: "c_div c 10 = c' * 10 ^ (s - s')" "s' \<le> s" "s' = 0 \<or> c' mod 10 \<noteq> 0" by auto
    have "c = c_div c 10 * 10" using c_div_mod [of c 10] True by simp
    with ih show ?thesis by (simp add: Suc_diff_le)
  qed (use 2 c_mod_0 [of 10 c] in auto)
qed simp

lemma dec_trim_val:
  "dec_trim c s = (c', s') \<Longrightarrow> (of_int c' :: rat) / 10 ^ s' = of_int c / 10 ^ s"
  using dec_trim_spec [of c s c' s'] power_add [of "10 :: rat" s' "s - s'"]
  by (auto simp: field_simps)

lemma dec_trim_le: "dec_trim c s = (c', s') \<Longrightarrow> \<bar>c'\<bar> \<le> \<bar>c\<bar>"
  using dec_trim_spec [of c s c' s'] by (auto simp: abs_mult mult_le_cancel_left1)

text \<open>Normal forms are unique: structural equality is value equality.\<close>

lemma scaled_eq:
  fixes c c' :: int
  assumes "c mod 10 \<noteq> 0 \<or> s = 0" "(of_int c :: rat) / 10 ^ s = of_int c' / 10 ^ s'"
  shows "s \<le> s'"
proof (rule ccontr)
  assume "\<not> s \<le> s'"
  then obtain k where k: "s = s' + Suc k" by (metis add_Suc_right less_imp_Suc_add not_le)
  have "(of_int c :: rat) = of_int (c' * 10 ^ Suc k)"
    using assms(2) by (simp add: k power_add field_simps)
  then have "c = c' * 10 ^ Suc k" by (simp only: of_int_eq_iff)
  with assms(1) k show False by simp
qed

lemma dec_rat_inj:
  assumes "dec_ok a" "dec_ok b" "dec_rat a = dec_rat b"
  shows "a = b"
proof -
  have "dec_scale a = dec_scale b"
    using scaled_eq [of "dec_coef a" "dec_scale a" "dec_coef b" "dec_scale b"]
      scaled_eq [of "dec_coef b" "dec_scale b" "dec_coef a" "dec_scale a"] assms
    by (auto simp: dec_ok_def dec_rat_def intro: le_antisym)
  with assms(3) show ?thesis by (simp add: dec_rat_def)
qed

text \<open>
  \<open>make_decimal_raw\<close> on a coefficient whose scale is in range: the result is exact,
  and the overflow error means that no decimal denotes it.
\<close>

lemma make_decimal_exact:
  assumes "s \<le> 28"
  shows "case make_decimal_raw c s of
      (Some e, ov) \<Rightarrow> ov = 0 \<and> (\<exists>d. e = DECIMAL d \<and> dec_ok d \<and> dec_rat d = of_int c / 10 ^ s)
    | (None, ov) \<Rightarrow> ov = 1 \<and> (\<forall>d. dec_ok d \<longrightarrow> dec_rat d \<noteq> of_int c / 10 ^ s)"
proof -
  obtain c' s' where t: "dec_trim c s = (c', s')" by fastforce
  note sp = dec_trim_spec [OF t] and v = dec_trim_val [OF t]
  have e: "make_decimal_raw c s = (if \<bar>c'\<bar> \<ge> 10 ^ 29 then (None, 1)
     else (Some (DECIMAL \<lparr>dec_coef = c', dec_scale = s'\<rparr>), 0))"
  proof -
    have "s' \<le> 28" using sp assms by simp
    then show ?thesis
      by (simp add: make_decimal_raw_def t DEC_MAX_SCALE_def abs_if)
  qed
  show ?thesis
  proof (cases "\<bar>c'\<bar> \<ge> 10 ^ 29")
    case True
    have "dec_rat d \<noteq> of_int c / 10 ^ s" if d: "dec_ok d" for d
    proof
      assume q: "dec_rat d = of_int c / 10 ^ s"
      then have q': "(of_int (dec_coef d) :: rat) / 10 ^ dec_scale d = of_int c' / 10 ^ s'"
        using v by (simp add: dec_rat_def)
      have "dec_scale d = s'"
        using scaled_eq [OF _ q'] scaled_eq [OF _ q' [symmetric]] d sp
        by (auto simp: dec_ok_def intro: le_antisym)
      with q' have "dec_coef d = c'" by simp
      with True d show False by (simp add: dec_ok_def)
    qed
    with True show ?thesis by (simp add: e)
  next
    case False
    have "s' \<le> 28" "s' = 0 \<or> c' mod 10 \<noteq> 0" using sp assms by auto
    with False v show ?thesis by (simp add: e dec_ok_def dec_rat_def)
  qed
qed

text \<open>Rounding of a coefficient: within half a unit, unless it rounds a negative
  coefficient whose truncated quotient is zero.\<close>

lemma dec_round_half:
  assumes "0 \<le> c \<or> 10 ^ k \<le> \<bar>c\<bar>"
  shows "2 * \<bar>dec_round c k * 10 ^ k - c\<bar> \<le> 10 ^ k"
proof -
  define D :: int where "D = 10 ^ k"
  define q where "q = c_div c D"
  define r where "r = c_mod c D"
  have D: "0 < D" by (simp add: D_def)
  have c: "c = q * D + r" using c_div_mod [of c D] by (simp add: q_def r_def)
  have r: "\<bar>r\<bar> < D" using c_mod_abs [OF D] by (simp add: r_def)
  have sr: "0 \<le> c \<Longrightarrow> 0 \<le> r" "c \<le> 0 \<Longrightarrow> r \<le> 0"
    using D pos_mod_sign [OF D, of "\<bar>c\<bar>"] by (auto simp: r_def c_mod_def sgn_if)
  have sq: "0 \<le> c \<Longrightarrow> 0 \<le> q"
    using D by (auto simp: q_def c_div_def sgn_if pos_imp_zdiv_nonneg_iff)
  have nq: "c < 0 \<Longrightarrow> q < 0"
  proof -
    assume "c < 0"
    then have "1 \<le> \<bar>c\<bar> div D" using assms D pos_imp_zdiv_pos_iff [OF D, of "\<bar>c\<bar>"] by (simp add: D_def [symmetric])
    with \<open>c < 0\<close> D show "q < 0" by (simp add: q_def c_div_def sgn_if)
  qed
  have e: "dec_round c k = (if \<bar>r\<bar> * 2 \<ge> D then q + (if q < 0 then - 1 else 1) else q)"
    by (simp add: dec_round_def Let_def q_def r_def D_def abs_if)
  show ?thesis
  proof (cases "\<bar>r\<bar> * 2 \<ge> D")
    case False
    then have "dec_round c k = q" by (simp add: e)
    then have "dec_round c k * D - c = - r" using c by simp
    then have "\<bar>dec_round c k * D - c\<bar> = \<bar>r\<bar>" by simp
    with False show ?thesis unfolding D_def by (simp add: not_le)
  next
    case True
    show ?thesis
    proof (cases "c < 0")
      case neg: True
      have "dec_round c k = q - 1" using True nq [OF neg] by (simp add: e)
      moreover have "(q - 1) * D - c = - D - r" by (simp add: c algebra_simps)
      ultimately have "dec_round c k * D - c = - D - r" by simp
      then show ?thesis using True r sr(2) neg by (simp add: D_def [symmetric])
    next
      case pos: False
      have "dec_round c k = q + 1" using True sq pos by (simp add: e)
      moreover have "(q + 1) * D - c = D - r" by (simp add: c algebra_simps)
      ultimately have "dec_round c k * D - c = D - r" by simp
      then show ?thesis using True r sr(1) pos by (simp add: D_def [symmetric])
    qed
  qed
qed

lemma make_decimal_rounded:
  assumes "make_decimal_raw c s = (Some e, ov)" "0 \<le> c \<or> (1 :: rat) / 10 ^ 28 \<le> \<bar>of_int c / 10 ^ s\<bar>"
  shows "ov = 0 \<and> (\<exists>d. e = DECIMAL d \<and> dec_ok d \<and> \<bar>dec_rat d - of_int c / 10 ^ s\<bar> \<le> 1 / (2 * 10 ^ 28))"
proof -
  obtain c' s' where t: "dec_trim c s = (c', s')" by fastforce
  note sp = dec_trim_spec [OF t] and v = dec_trim_val [OF t]
  show ?thesis
  proof (cases "s' \<le> 28")
    case True
    have "dec_trim c' s' = (c', s')" using sp c_mod_0 [of 10 c'] by (cases s') auto
    then have "make_decimal_raw c' s' = make_decimal_raw c s"
      using t by (simp add: make_decimal_raw_def)
    with make_decimal_exact [OF True, of c'] assms(1) v show ?thesis by auto
  next
    case False
    define k where "k = s' - 28"
    have k: "s' = 28 + k" using False by (simp add: k_def)
    obtain c2 s2 where t2: "dec_trim (dec_round c' k) 28 = (c2, s2)" by fastforce
    note sp2 = dec_trim_spec [OF t2] and v2 = dec_trim_val [OF t2]
    have e: "e = DECIMAL \<lparr>dec_coef = c2, dec_scale = s2\<rparr>" "ov = 0" "\<bar>c2\<bar> < 10 ^ 29"
      using assms(1) False t2 by (auto simp: make_decimal_raw_def t DEC_MAX_SCALE_def k_def split: if_splits)
    have "0 \<le> c' \<or> 10 ^ k \<le> \<bar>c'\<bar>"
    proof (cases "0 \<le> c")
      case True
      moreover have "(0 :: int) < 10 ^ (s - s')" by simp
      ultimately show ?thesis using sp by (simp add: zero_le_mult_iff not_le)
    next
      case neg: False
      define T where "T = (10 :: rat) ^ 28"
      have T: "0 < T" by (simp add: T_def)
      have "1 / T \<le> \<bar>of_int c' / 10 ^ s'\<bar>" using neg assms(2) v by (simp add: T_def)
      then have "1 / T \<le> \<bar>of_int c'\<bar> / (T * 10 ^ k)" by (simp add: k power_add T_def)
      then have "(of_int (10 ^ k) :: rat) \<le> of_int \<bar>c'\<bar>"
        using T by (simp add: field_simps)
      then have "10 ^ k \<le> \<bar>c'\<bar>" by (simp only: of_int_le_iff)
      then show ?thesis by blast
    qed
    from dec_round_half [OF this]
    have "(of_int (2 * \<bar>dec_round c' k * 10 ^ k - c'\<bar>) :: rat) \<le> of_int (10 ^ k)"
      by (simp only: of_int_le_iff)
    then have h: "2 * \<bar>(of_int (dec_round c' k) :: rat) * 10 ^ k - of_int c'\<bar> \<le> 10 ^ k" by simp
    have "(of_int (dec_round c' k) :: rat) / 10 ^ 28 - of_int c' / 10 ^ s'
        = (of_int (dec_round c' k) * 10 ^ k - of_int c') / (10 ^ 28 * 10 ^ k)"
      by (simp add: k power_add field_simps)
    then have "\<bar>(of_int (dec_round c' k) :: rat) / 10 ^ 28 - of_int c' / 10 ^ s'\<bar>
        = \<bar>(of_int (dec_round c' k) :: rat) * 10 ^ k - of_int c'\<bar> / (10 ^ 28 * 10 ^ k)"
      by (simp add: abs_mult)
    also have "\<dots> \<le> 1 / (2 * 10 ^ 28)"
      using h by (simp add: field_simps)
    finally have "\<bar>(of_int c2 :: rat) / 10 ^ s2 - of_int c / 10 ^ s\<bar> \<le> 1 / (2 * 10 ^ 28)"
      by (simp only: v v2)
    moreover have "s2 \<le> 28" "s2 = 0 \<or> c2 mod 10 \<noteq> 0" using sp2 by auto
    ultimately show ?thesis using e by (simp add: dec_ok_def dec_rat_def)
  qed
qed


lemma dec_ok_parts: "dec_ok a \<Longrightarrow> \<bar>dec_coef a\<bar> < 10 ^ 29 \<and> dec_scale a \<le> 28"
  by (simp add: dec_ok_def)

lemma i128_small: "\<bar>x\<bar> < 10 ^ 38 \<Longrightarrow> i128 x"
  by (simp add: i128_def abs_less_iff)

text \<open>
  Aligning two well-formed decimals of different scales: the coefficient with the larger
  scale is unchanged and no multiple of ten, the other becomes one.
\<close>

lemma align_apart:
  fixes ca cb :: int
  assumes "cb mod 10 \<noteq> 0"
  shows "(ca * 10 ^ Suc k + cb) mod 10 \<noteq> 0" "(cb + ca * 10 ^ Suc k) mod 10 \<noteq> 0"
    "(ca * 10 ^ Suc k - cb) mod 10 \<noteq> 0" "(cb - ca * 10 ^ Suc k) mod 10 \<noteq> 0"
proof -
  have z: "ca * 10 ^ Suc k = 10 * (ca * 10 ^ k)" by simp
  show "(ca * 10 ^ Suc k + cb) mod 10 \<noteq> 0" "(cb + ca * 10 ^ Suc k) mod 10 \<noteq> 0"
    using assms unfolding z by simp_all
  have m: "- cb mod 10 \<noteq> 0" using assms by (simp add: zmod_zminus1_eq_if)
  have "ca * 10 ^ Suc k - cb = - cb + 10 * (ca * 10 ^ k)" "cb - ca * 10 ^ Suc k = cb + 10 * (- ca * 10 ^ k)"
    by simp_all
  then show "(ca * 10 ^ Suc k - cb) mod 10 \<noteq> 0" "(cb - ca * 10 ^ Suc k) mod 10 \<noteq> 0"
    using assms m by (simp_all only: mod_mult_self2) simp_all
qed

text \<open>A number in normal form with a coefficient beyond 29 digits is no decimal.\<close>

lemma dec_unrepresentable:
  assumes "c mod 10 \<noteq> 0 \<or> s = 0" "10 ^ 29 \<le> \<bar>c\<bar>" "dec_ok d"
  shows "dec_rat d \<noteq> of_int c / 10 ^ s"
proof
  assume q: "dec_rat d = of_int c / 10 ^ s"
  then have q': "(of_int (dec_coef d) :: rat) / 10 ^ dec_scale d = of_int c / 10 ^ s"
    by (simp add: dec_rat_def)
  have "dec_scale d = s"
    using scaled_eq [OF _ q'] scaled_eq [OF assms(1) q' [symmetric]] assms(3)
    by (auto simp: dec_ok_def intro: le_antisym)
  with q' have "dec_coef d = c" by simp
  with assms show False by (simp add: dec_ok_def)
qed

lemma dec_mult_big:
  fixes x y :: int
  assumes "\<not> i128 (x * 10 ^ k)" "\<bar>y\<bar> < 10 ^ 29"
  shows "10 ^ 29 \<le> \<bar>x * 10 ^ k + y\<bar>" "10 ^ 29 \<le> \<bar>x * 10 ^ k - y\<bar>"
    "10 ^ 29 \<le> \<bar>y + x * 10 ^ k\<bar>" "10 ^ 29 \<le> \<bar>y - x * 10 ^ k\<bar>"
  using assms by (auto simp: i128_def)

definition dec_sum :: "bool \<Rightarrow> int \<Rightarrow> int \<Rightarrow> int" where
  "dec_sum sub x y = (if sub then x - y else x + y)"

definition dec_common :: "alc_dec_t \<Rightarrow> alc_dec_t \<Rightarrow> nat" where
  "dec_common a b = max (dec_scale a) (dec_scale b)"

definition dec_raise :: "alc_dec_t \<Rightarrow> nat \<Rightarrow> int" where
  "dec_raise a s = dec_coef a * 10 ^ (s - dec_scale a)"

lemma dec_rat_raise: "dec_scale a \<le> s \<Longrightarrow> dec_rat a = of_int (dec_raise a s) / 10 ^ s"
  using power_add [of "10 :: rat" "dec_scale a" "s - dec_scale a"]
  by (simp add: dec_rat_def dec_raise_def field_simps)

lemma dec_addsub_alt:
  "dec_addsub a b sub =
   (let s = dec_common a b; x = dec_raise a s; y = dec_raise b s in
    if i128 x \<and> i128 y \<and> i128 (dec_sum sub x y) then make_decimal_raw (dec_sum sub x y) s else (None, 1))"
  by (auto simp: dec_addsub_def dec_align_def i128_mul_ovf_def i128_add_ovf_def i128_sub_ovf_def
      dec_sum_def dec_common_def dec_raise_def Let_def max_def)

lemma dec_addsub_overflow:
  assumes "dec_ok a" "dec_ok b"
    "\<not> (i128 (dec_raise a s) \<and> i128 (dec_raise b s) \<and> i128 (dec_sum sub (dec_raise a s) (dec_raise b s)))"
    "s = dec_common a b"
  shows "(dec_sum sub (dec_raise a s) (dec_raise b s) mod 10 \<noteq> 0 \<or> s = 0)
     \<and> 10 ^ 29 \<le> \<bar>dec_sum sub (dec_raise a s) (dec_raise b s)\<bar>"
proof -
  have pa: "\<bar>dec_coef a\<bar> < 10 ^ 29" and pb: "\<bar>dec_coef b\<bar> < 10 ^ 29"
    using assms by (simp_all add: dec_ok_def)
  consider "dec_scale a = dec_scale b" | "dec_scale a < dec_scale b" | "dec_scale b < dec_scale a"
    by linarith
  then show ?thesis
  proof cases
    case 1
    then have "dec_raise a s = dec_coef a" "dec_raise b s = dec_coef b"
      using assms(4) by (simp_all add: dec_raise_def dec_common_def)
    then have False
      using assms(3) pa pb by (auto simp: dec_sum_def i128_def split: if_splits)
    then show ?thesis ..
  next
    case 2
    then obtain k where k: "dec_scale b = dec_scale a + Suc k" using less_imp_Suc_add by fastforce
    have r: "dec_raise b s = dec_coef b" "dec_raise a s = dec_coef a * 10 ^ Suc k"
      using assms(4) k by (simp_all add: dec_raise_def dec_common_def)
    have m: "dec_coef b mod 10 \<noteq> 0" using assms(2) k by (auto simp: dec_ok_def)
    have big: "10 ^ 29 \<le> \<bar>dec_sum sub (dec_raise a s) (dec_raise b s)\<bar>"
    proof (cases "i128 (dec_coef a * 10 ^ Suc k)")
      case True
      have "i128 (dec_coef b)" using pb by (simp add: i128_def abs_less_iff)
      with True assms(3) r have "\<not> i128 (dec_sum sub (dec_raise a s) (dec_raise b s))" by simp
      then show ?thesis by (auto simp: i128_def)
    next
      case False
      then show ?thesis using dec_mult_big [OF False pb] unfolding r dec_sum_def by simp
    qed
    with align_apart [OF m, of "dec_coef a" k] show ?thesis unfolding r dec_sum_def by simp
  next
    case 3
    then obtain k where k: "dec_scale a = dec_scale b + Suc k" using less_imp_Suc_add by fastforce
    have r: "dec_raise a s = dec_coef a" "dec_raise b s = dec_coef b * 10 ^ Suc k"
      using assms(4) k by (simp_all add: dec_raise_def dec_common_def)
    have m: "dec_coef a mod 10 \<noteq> 0" using assms(1) k by (auto simp: dec_ok_def)
    have big: "10 ^ 29 \<le> \<bar>dec_sum sub (dec_raise a s) (dec_raise b s)\<bar>"
    proof (cases "i128 (dec_coef b * 10 ^ Suc k)")
      case True
      have "i128 (dec_coef a)" using pa by (simp add: i128_def abs_less_iff)
      with True assms(3) r have "\<not> i128 (dec_sum sub (dec_raise a s) (dec_raise b s))" by simp
      then show ?thesis by (auto simp: i128_def)
    next
      case False
      then show ?thesis using dec_mult_big [OF False pa] unfolding r dec_sum_def by simp
    qed
    with align_apart [OF m, of "dec_coef b" k] show ?thesis unfolding r dec_sum_def by simp
  qed
qed

section \<open>Properties of the decimals\<close>

text \<open>
  C32. Addition and subtraction of well-formed decimals are exact: the result is well
  formed and denotes the sum or difference, and the overflow error is given only when no
  decimal of 29 digits and scale 28 denotes it.
\<close>

theorem dec_addsub_exact:
  assumes "dec_ok a" "dec_ok b"
  shows "case dec_addsub a b sub of
      (Some e, ov) \<Rightarrow> ov = 0 \<and> (\<exists>d. e = DECIMAL d \<and> dec_ok d
          \<and> dec_rat d = (if sub then dec_rat a - dec_rat b else dec_rat a + dec_rat b))
    | (None, ov) \<Rightarrow> ov = 1
        \<and> (\<forall>d. dec_ok d \<longrightarrow> dec_rat d \<noteq> (if sub then dec_rat a - dec_rat b else dec_rat a + dec_rat b))"
proof -
  define s where "s = dec_common a b"
  have s: "dec_scale a \<le> s" "dec_scale b \<le> s" "s \<le> 28"
    using assms by (simp_all add: s_def dec_common_def dec_ok_def)
  let ?r = "dec_sum sub (dec_raise a s) (dec_raise b s)"
  have v: "(if sub then dec_rat a - dec_rat b else dec_rat a + dec_rat b) = of_int ?r / 10 ^ s"
    using dec_rat_raise [OF s(1)] dec_rat_raise [OF s(2)]
    by (simp add: dec_sum_def diff_divide_distrib add_divide_distrib)
  show ?thesis
  proof (cases "i128 (dec_raise a s) \<and> i128 (dec_raise b s) \<and> i128 ?r")
    case True
    then have "dec_addsub a b sub = make_decimal_raw ?r s" by (simp add: dec_addsub_alt s_def Let_def)
    then show ?thesis using make_decimal_exact [OF s(3), of ?r] unfolding v by simp
  next
    case False
    then have "dec_addsub a b sub = (None, 1)" by (auto simp: dec_addsub_alt s_def Let_def)
    moreover have "dec_rat d \<noteq> of_int ?r / 10 ^ s" if "dec_ok d" for d
      using dec_addsub_overflow [OF assms False s_def] dec_unrepresentable [OF _ _ that] by blast
    ultimately show ?thesis unfolding v by simp
  qed
qed

theorem dec_addsub_exact_witness:
  "dec_addsub \<lparr>dec_coef = 15, dec_scale = 1\<rparr> \<lparr>dec_coef = 25, dec_scale = 2\<rparr> False
     = (Some (DECIMAL \<lparr>dec_coef = 175, dec_scale = 2\<rparr>), 0)"
proof -
  have h: "dec_ok \<lparr>dec_coef = 15, dec_scale = 1\<rparr>" "dec_ok \<lparr>dec_coef = 25, dec_scale = 2\<rparr>"
    "dec_ok \<lparr>dec_coef = 175, dec_scale = 2\<rparr>"
    by (simp_all add: dec_ok_def)
  have "dec_rat \<lparr>dec_coef = 15, dec_scale = 1\<rparr> + dec_rat \<lparr>dec_coef = 25, dec_scale = 2\<rparr>
      = dec_rat \<lparr>dec_coef = 175, dec_scale = 2\<rparr>"
    by (simp add: dec_rat_def)
  with dec_addsub_exact [OF h(1,2), of False] h(3) show ?thesis
    by (auto split: prod.splits option.splits dest: dec_rat_inj)
qed


text \<open>
  C33. Multiplication of well-formed decimals: a product whose combined scale is at most
  28 is exact; otherwise it is rounded to within half a unit of the 28th fractional
  digit, unless it is negative and below that unit; the only error is the overflow.
\<close>

theorem dec_mul_rounded:
  assumes "dec_ok a" "dec_ok b"
    "0 \<le> dec_rat a * dec_rat b \<or> 1 / 10 ^ 28 \<le> \<bar>dec_rat a * dec_rat b\<bar>"
  shows "case dec_mul a b of
      (Some e, ov) \<Rightarrow> ov = 0 \<and> (\<exists>d. e = DECIMAL d \<and> dec_ok d
          \<and> \<bar>dec_rat d - dec_rat a * dec_rat b\<bar> \<le> 1 / (2 * 10 ^ 28)
          \<and> (dec_scale a + dec_scale b \<le> 28 \<longrightarrow> dec_rat d = dec_rat a * dec_rat b))
    | (None, ov) \<Rightarrow> ov = 1"
proof (cases "i128 (dec_coef a * dec_coef b)")
  case False
  then show ?thesis by (simp add: dec_mul_def i128_mul_ovf_def)
next
  case True
  define c where "c = dec_coef a * dec_coef b"
  define s where "s = dec_scale a + dec_scale b"
  have v: "dec_rat a * dec_rat b = of_int c / 10 ^ s"
    by (simp add: dec_rat_def c_def s_def power_add)
  have e: "dec_mul a b = make_decimal_raw c s"
    using True by (simp add: dec_mul_def i128_mul_ovf_def c_def s_def)
  have pos: "0 \<le> c \<or> (1 :: rat) / 10 ^ 28 \<le> \<bar>of_int c / 10 ^ s\<bar>"
  proof -
    have "(0 :: rat) < 10 ^ s" by simp
    then have "0 \<le> (of_int c :: rat) / 10 ^ s \<longleftrightarrow> 0 \<le> c" 
      using pos_le_divide_eq [of "10 ^ s" 0 "of_int c :: rat"] by simp
    then show ?thesis using assms(3) unfolding v by blast
  qed
  obtain r ov where m: "make_decimal_raw c s = (r, ov)" by fastforce
  show ?thesis
  proof (cases r)
    case None
    then have "ov = 1" using m by (auto simp: make_decimal_raw_def Let_def split: prod.splits if_splits)
    with None m show ?thesis by (simp add: e)
  next
    case (Some x)
    then have x: "ov = 0" "\<exists>d. x = DECIMAL d \<and> dec_ok d \<and> \<bar>dec_rat d - of_int c / 10 ^ s\<bar> \<le> 1 / (2 * 10 ^ 28)"
      using make_decimal_rounded [OF _ pos] m by blast+
    have ex: "\<exists>d. x = DECIMAL d \<and> dec_rat d = of_int c / 10 ^ s" if "s \<le> 28"
      using make_decimal_exact [OF that, of c] m Some by auto
    show ?thesis
      using x ex m Some unfolding e v s_def [symmetric] by auto
  qed
qed

theorem dec_mul_rounded_witness:
  "\<exists>d. dec_mul \<lparr>dec_coef = 15, dec_scale = 1\<rparr> \<lparr>dec_coef = 25, dec_scale = 2\<rparr> = (Some (DECIMAL d), 0)
     \<and> dec_rat d = 375 / 1000"
proof -
  have h: "dec_ok \<lparr>dec_coef = 15, dec_scale = 1\<rparr>" "dec_ok \<lparr>dec_coef = 25, dec_scale = 2\<rparr>"
    by (simp_all add: dec_ok_def)
  have p: "dec_rat \<lparr>dec_coef = 15, dec_scale = 1\<rparr> * dec_rat \<lparr>dec_coef = 25, dec_scale = 2\<rparr> = 375 / 1000"
    by (simp add: dec_rat_def)
  have "dec_mul \<lparr>dec_coef = 15, dec_scale = 1\<rparr> \<lparr>dec_coef = 25, dec_scale = 2\<rparr>
      = (Some (DECIMAL \<lparr>dec_coef = 375, dec_scale = 3\<rparr>), 0)"
    by code_simp
  with dec_mul_rounded [OF h] p show ?thesis by auto
qed

text \<open>
  Rounding loses the sign of a negative product below the last digit: the product
  of -3e-14 and 2e-15, exactly -6e-29, is computed as +1e-28, although the rounding is
  meant to go away from zero (\<open>coef\<close> is already 0 when its sign is tested).
\<close>

theorem dec_mul_sign_lost:
  "dec_mul \<lparr>dec_coef = - 3, dec_scale = 14\<rparr> \<lparr>dec_coef = 2, dec_scale = 15\<rparr>
     = (Some (DECIMAL \<lparr>dec_coef = 1, dec_scale = 28\<rparr>), 0)
   \<and> dec_mul \<lparr>dec_coef = 3, dec_scale = 14\<rparr> \<lparr>dec_coef = 2, dec_scale = 15\<rparr>
     = (Some (DECIMAL \<lparr>dec_coef = 1, dec_scale = 28\<rparr>), 0)"
  by code_simp

text \<open>The long division keeps \<open>n * 10^scale = q * d + rem\<close>.\<close>

lemma c_div_nonneg: "0 \<le> a \<Longrightarrow> 0 < b \<Longrightarrow> c_div a b = a div b"
  by (auto simp: c_div_def sgn_if)

lemma c_mod_nonneg: "0 \<le> a \<Longrightarrow> 0 < b \<Longrightarrow> c_mod a b = a mod b"
  by (auto simp: c_mod_def sgn_if)

lemma dec_div_loop_inv:
  "dec_div_loop d left q rem scale = Some (q', rem', scale') \<Longrightarrow> 0 \<le> rem \<Longrightarrow> rem < d \<Longrightarrow>
   scale \<le> scale' \<and> scale' \<le> scale + left \<and> 0 \<le> rem' \<and> rem' < d
   \<and> (q * d + rem) * 10 ^ (scale' - scale) = q' * d + rem'
   \<and> (rem' = 0 \<or> scale' = scale + left)"
proof (induction d left q rem scale rule: dec_div_loop.induct)
  case (2 d left q rem scale)
  show ?case
  proof (cases "rem = 0")
    case False
    with 2(2) have i: "i128 (q * 10)" "i128 (rem * 10)"
      by (auto simp: i128_mul_ovf_def split: if_splits)
    have dv: "c_div (rem * 10) d = rem * 10 div d" "c_mod (rem * 10) d = rem * 10 mod d"
      using 2(3,4) by (simp_all add: c_div_nonneg c_mod_nonneg)
    have i3: "i128 (q * 10 + rem * 10 div d)"
      using 2(2) False i by (auto simp: i128_mul_ovf_def i128_add_ovf_def dv split: if_splits)
    have l: "dec_div_loop d left (q * 10 + rem * 10 div d) (rem * 10 mod d) (scale + 1) = Some (q', rem', scale')"
      using 2(2) False i by (auto simp: i128_mul_ovf_def i128_add_ovf_def dv split: if_splits)
    have ih: "scale + 1 \<le> scale' \<and> scale' \<le> scale + 1 + left \<and> 0 \<le> rem' \<and> rem' < d
      \<and> ((q * 10 + rem * 10 div d) * d + rem * 10 mod d) * 10 ^ (scale' - (scale + 1)) = q' * d + rem'
      \<and> (rem' = 0 \<or> scale' = scale + 1 + left)"
      using 2(1) False i i3 l 2(3,4) by (simp add: i128_mul_ovf_def i128_add_ovf_def dv)
    have "(q * 10 + rem * 10 div d) * d + rem * 10 mod d = (q * d + rem) * 10"
      by (simp add: algebra_simps)
    moreover have "scale' - scale = Suc (scale' - (scale + 1))" using ih by linarith
    ultimately show ?thesis using ih by (simp add: algebra_simps)
  qed (use 2 in auto)
qed auto

lemma dec_div_round:
  fixes d q rem :: int
  assumes "0 < d" "0 \<le> rem" "rem < d" "n * 10 ^ s = q * d + rem" "rem = 0 \<or> s = 28"
  shows "\<bar>(of_int (if rem \<noteq> 0 \<and> rem \<ge> d - rem then q + 1 else q) :: rat) / 10 ^ s - of_int n / of_int d\<bar>
    \<le> 1 / (2 * 10 ^ 28)"
proof -
  define q' where "q' = (if rem \<noteq> 0 \<and> rem \<ge> d - rem then q + 1 else q)"
  have e: "(of_int q' :: rat) / 10 ^ s - of_int n / of_int d = of_int (q' * d - n * 10 ^ s) / (10 ^ s * of_int d)"
    using assms(1) by (simp add: field_simps)
  show ?thesis
  proof (cases "rem = 0")
    case True
    then have "q' * d - n * 10 ^ s = 0" using assms(4) by (simp add: q'_def)
    then show ?thesis using e unfolding q'_def [symmetric] by simp
  next
    case False
    then have s: "s = 28" using assms(5) by simp
    have "q' * d - n * 10 ^ s = (if rem \<ge> d - rem then d - rem else - rem)"
      using False assms(4) by (simp add: q'_def algebra_simps)
    then have "2 * \<bar>q' * d - n * 10 ^ s\<bar> \<le> d" using assms(2,3) by (auto split: if_splits)
    then have "(of_int (2 * \<bar>q' * d - n * 10 ^ s\<bar>) :: rat) \<le> of_int d" by (simp only: of_int_le_iff)
    then have h: "2 * \<bar>of_int (q' * d - n * 10 ^ s)\<bar> \<le> (of_int d :: rat)" by simp
    have d: "(0 :: rat) < of_int d" using assms(1) by simp
    define T where "T = (10 :: rat) ^ 28"
    have T: "0 < T" by (simp add: T_def)
    have "\<bar>of_int (q' * d - n * 10 ^ s) / (T * of_int d)\<bar> = \<bar>of_int (q' * d - n * 10 ^ s)\<bar> / (T * (of_int d :: rat))"
      using d T by (simp add: abs_mult)
    also have "\<dots> \<le> 1 / (2 * T)" using h d T by (simp add: field_simps)
    finally show ?thesis
      unfolding q'_def [symmetric] e unfolding s T_def .
  qed
qed

lemma dec_div_quotient:
  assumes "dec_coef b \<noteq> 0"
  shows "dec_rat a / dec_rat b
    = of_int (dec_coef a * 10 ^ dec_scale b) / of_int (dec_coef b * 10 ^ dec_scale a)"
  using assms by (simp add: dec_rat_def field_simps)

text \<open>
  Division of well-formed decimals: a zero divisor is the error 2 and nothing else
  is; a result is well formed and within half a unit of the 28th fractional digit of the
  quotient; the only other error is the overflow.
\<close>

theorem dec_div_rounded:
  assumes "dec_ok a" "dec_ok b"
  shows "case dec_div a b of
      (Some e, ov) \<Rightarrow> ov = 0 \<and> dec_coef b \<noteq> 0 \<and> (\<exists>d. e = DECIMAL d \<and> dec_ok d
          \<and> \<bar>dec_rat d - dec_rat a / dec_rat b\<bar> \<le> 1 / (2 * 10 ^ 28))
    | (None, ov) \<Rightarrow> ov = (if dec_coef b = 0 then 2 else 1)"
proof (cases "dec_coef b = 0")
  case True
  then show ?thesis by (simp add: dec_div_def)
next
  case False
  define N where "N = dec_coef a * 10 ^ dec_scale b"
  define D where "D = dec_coef b * 10 ^ dec_scale a"
  have D: "D \<noteq> 0" using False by (simp add: D_def)
  have v: "dec_rat a / dec_rat b = of_int N / of_int D"
    unfolding N_def D_def by (rule dec_div_quotient [OF False])
  show ?thesis
  proof (cases "i128 N \<and> i128 D")
    case ov: False
    then show ?thesis using False by (auto simp: dec_div_def i128_mul_ovf_def N_def D_def)
  next
    case nov: True
    define n d where "n = \<bar>N\<bar>" and "d = \<bar>D\<bar>"
    have d: "0 < d" "0 \<le> n" using D by (simp_all add: n_def d_def)
    have e: "dec_div a b = (case dec_div_loop d 28 (n div d) (n mod d) 0 of
        None \<Rightarrow> (None, 1)
      | Some (q, rem, scale) \<Rightarrow>
          (let q' = (if rem \<noteq> 0 \<and> rem \<ge> d - rem then q + 1 else q)
           in make_decimal_raw (if (N < 0) = (\<not> D < 0) then - q' else q') scale))"
    proof -
      have nn: "(if N < 0 then - N else N) = n" "(if D < 0 then - D else D) = d"
        by (simp_all add: n_def d_def)
      show ?thesis
        using nov False d
        by (simp add: dec_div_def i128_mul_ovf_def N_def [symmetric] D_def [symmetric] Let_def
            DEC_MAX_SCALE_def nn c_div_nonneg c_mod_nonneg del: if_split)
    qed
    show ?thesis
    proof (cases "dec_div_loop d 28 (n div d) (n mod d) 0")
      case None
      then show ?thesis using False by (simp add: e)
    next
      case (Some t)
      obtain q rem s where t: "t = (q, rem, s)" by (cases t)
      have inv: "s \<le> 28" "0 \<le> rem" "rem < d" "n * 10 ^ s = q * d + rem" "rem = 0 \<or> s = 28"
        using dec_div_loop_inv [OF Some [unfolded t]] d by simp_all
      define q' where "q' = (if rem \<noteq> 0 \<and> rem \<ge> d - rem then q + 1 else q)"
      define c where "c = (if (N < 0) = (\<not> D < 0) then - q' else q')"
      have e2: "dec_div a b = make_decimal_raw c s"
        by (simp add: e Some t q'_def c_def Let_def)
      have "\<bar>(of_int q' :: rat) / 10 ^ s - of_int n / of_int d\<bar> \<le> 1 / (2 * 10 ^ 28)"
        unfolding q'_def by (rule dec_div_round [OF d(1) inv(2-5)])
      moreover have "\<bar>- x - - y\<bar> = \<bar>x - y\<bar>" for x y :: rat by (simp add: abs_minus_commute)
      moreover have "(of_int N :: rat) / of_int D = - (of_int n / of_int d) \<and> c = - q'
          \<or> (of_int N :: rat) / of_int D = of_int n / of_int d \<and> c = q'"
        by (auto simp: n_def d_def c_def)
      ultimately have b: "\<bar>(of_int c :: rat) / 10 ^ s - of_int N / of_int D\<bar> \<le> 1 / (2 * 10 ^ 28)"
        by (elim disjE conjE) (simp_all only: of_int_minus minus_divide_left [symmetric])
      show ?thesis
        using make_decimal_exact [OF inv(1), of c] b False unfolding e2 v
        by (auto split: prod.splits option.splits)
    qed
  qed
qed

theorem dec_div_rounded_witness:
  "\<exists>d. dec_div \<lparr>dec_coef = 1, dec_scale = 0\<rparr> \<lparr>dec_coef = 3, dec_scale = 0\<rparr> = (Some (DECIMAL d), 0)
     \<and> \<bar>dec_rat d - 1 / 3\<bar> \<le> 1 / (2 * 10 ^ 28)"
proof -
  have h: "dec_ok \<lparr>dec_coef = 1, dec_scale = 0\<rparr>" "dec_ok \<lparr>dec_coef = 3, dec_scale = 0\<rparr>"
    by (simp_all add: dec_ok_def)
  have "dec_div \<lparr>dec_coef = 1, dec_scale = 0\<rparr> \<lparr>dec_coef = 3, dec_scale = 0\<rparr>
      = (Some (DECIMAL \<lparr>dec_coef = 3333333333333333333333333333, dec_scale = 28\<rparr>), 0)"
    by code_simp
  with dec_div_rounded [OF h] show ?thesis by (auto simp: dec_rat_def)
qed


text \<open>
  The digit loop of the printer and the one of the parser, on a list of digits, most
  significant first, with a point after \<open>il\<close> of them when the scale is positive.
\<close>

lemma dec_emit_append:
  "dec_emit sc il k xs = (if 0 < sc \<and> k \<le> il \<and> il < k + length xs
     then take (il - k) xs @ [0x2E] @ drop (il - k) xs else xs)"
proof (induction xs arbitrary: k)
  case (Cons c cs)
  show ?case
  proof (cases "0 < sc \<and> k = il")
    case True
    then show ?thesis using Cons.IH [of "Suc k"] by simp
  next
    case False
    then show ?thesis using Cons.IH [of "Suc k"]
      by (cases "il - k") (auto simp: le_Suc_eq Suc_diff_Suc take_Cons' drop_Cons' diff_Suc split: nat.splits)
  qed
qed simp

lemma digit_range: "is_digit c \<Longrightarrow> \<not> c < 0x30 \<and> \<not> c > 0x39 \<and> c \<noteq> 0x2E"
  by (auto simp: is_digit_def not_less)

lemma dec_parse_digits:
  "list_all is_digit ds \<Longrightarrow> nd + length ds \<le> 38 \<Longrightarrow>
   dec_parse_loop (ds @ rest) coef sc seen dot nd
   = dec_parse_loop rest (dec_val coef ds) (if dot then sc + length ds else sc)
       (seen \<or> ds \<noteq> []) dot (nd + length ds)"
  by (induction ds arbitrary: coef sc seen nd) (auto dest: digit_range simp: add.commute)

lemma dec_digits_spec:
  "list_all is_digit (dec_digits m) \<and> dec_val 0 (rev (dec_digits m)) = int m"
proof (induction m rule: dec_digits.induct)
  case (1 m)
  show ?case
  proof (cases "m = 0")
    case False
    have "int (m div 10) * 10 + int (m mod 10) = int m"
      by (metis div_mult_mod_eq of_nat_add of_nat_mult of_nat_numeral)
    with False 1 show ?thesis
      using digit_byte' [of "m mod 10"]
      by (subst (1 2) dec_digits.simps) (simp add: dec_val_append)
  qed (subst (1 2) dec_digits.simps, simp)
qed

lemma dec_digits_length: "m < 10 ^ n \<Longrightarrow> length (dec_digits m) \<le> n"
proof (induction n arbitrary: m)
  case (Suc n)
  then have "m div 10 < 10 ^ n" by (simp add: less_mult_imp_div_less)
  with Suc.IH show ?case by (subst dec_digits.simps) auto
qed (subst dec_digits.simps, simp)

lemma dec_val_zeros: "dec_val 0 (replicate n 0x30 @ ds) = dec_val 0 ds"
  by (induction n) (simp_all)

lemma dec_val_rev_pad: "dec_val 0 (rev (ds @ replicate n 0x30)) = dec_val 0 (rev ds)"
  by (simp add: dec_val_zeros)

lemma dec_text_roundtrip:
  assumes "dec_ok d"
  shows "dec_parse (dec_to_str d) = (Some (DECIMAL d), 0)"
proof -
  define m where "m = nat \<bar>dec_coef d\<bar>"
  define sc where "sc = dec_scale d"
  define ds0 where "ds0 = (if m = 0 then [0x30] else dec_digits m)"
  define ds where "ds = rev (ds0 @ replicate (sc + 1 - length ds0) 0x30)"
  define il where "il = length ds - sc"
  have m: "m < 10 ^ 29" using assms by (simp add: m_def dec_ok_def nat_less_iff)
  have sc: "sc \<le> 28" using assms by (simp add: sc_def dec_ok_def)
  have dz: "is_digit 0x30" by (simp add: is_digit_def)
  have l0: "1 \<le> length ds0" "length ds0 \<le> 29"
  proof -
    show "1 \<le> length ds0"
      by (cases "m = 0") (simp_all add: ds0_def dec_digits.simps [of m])
    show "length ds0 \<le> 29" using dec_digits_length [OF m] by (simp add: ds0_def)
  qed
  have dig: "list_all is_digit ds"
    using dec_digits_spec [of m] dz by (auto simp: ds_def ds0_def list_all_iff)
  have val: "dec_val 0 ds = int m"
    using dec_digits_spec [of m] unfolding ds_def dec_val_rev_pad by (simp add: ds0_def)
  have len: "sc < length ds" "length ds \<le> 29" using l0 sc by (simp_all add: ds_def)
  then have il: "0 < il" "il + sc = length ds" by (simp_all add: il_def)
  have tx: "dec_to_str d = (if dec_coef d < 0 then [0x2D] else []) @ dec_emit sc il 0 ds"
    by (simp add: dec_to_str_def Let_def sc_def il_def ds_def ds0_def m_def abs_if add.commute)
  have body: "dec_parse_loop (dec_emit sc il 0 ds) 0 0 False False 0 = Inr (int m, sc, True)"
  proof (cases "sc = 0")
    case True
    then have "dec_emit sc il 0 ds = ds @ []" by (simp add: dec_emit_append)
    moreover have "ds \<noteq> []" using len by auto
    ultimately show ?thesis
      using dec_parse_digits [OF dig, of 0 "[]" 0 0 False False] len True val by simp
  next
    case False
    define u v where "u = take il ds" and "v = drop il ds"
    have uv: "ds = u @ v" "length u = il" "length v = sc" using il by (simp_all add: u_def v_def)
    have du: "list_all is_digit u" "list_all is_digit v" using dig uv(1) by simp_all
    have e: "dec_emit sc il 0 ds = u @ 0x2E # v"
      using False il by (simp add: dec_emit_append u_def v_def)
    have "u \<noteq> []" using uv il by auto
    then have "dec_parse_loop (u @ 0x2E # v) 0 0 False False 0
        = dec_parse_loop (0x2E # v) (dec_val 0 u) 0 True False il"
      using dec_parse_digits [OF du(1), of 0 "0x2E # v" 0 0 False False] uv(2) il len by simp
    also have "\<dots> = dec_parse_loop (v @ []) (dec_val 0 u) 0 True True il" by simp
    also have "\<dots> = dec_parse_loop [] (dec_val (dec_val 0 u) v) sc True True (il + sc)"
      using dec_parse_digits [OF du(2), of il "[]" "dec_val 0 u" 0 True True] uv(3) il(2) len(2) by simp
    also have "dec_val (dec_val 0 u) v = int m"
      using val unfolding uv(1) dec_val_append .
    finally show ?thesis by (simp add: e)
  qed
  have hd: "dec_emit sc il 0 ds \<noteq> []" "hd (dec_emit sc il 0 ds) \<noteq> 0x2B" "hd (dec_emit sc il 0 ds) \<noteq> 0x2D"
  proof -
    obtain x xs where x: "ds = x # xs" using len by (cases ds) auto
    then have "is_digit x" using dig by simp
    then have n: "x \<noteq> 0x2B" "x \<noteq> 0x2D" by (auto simp: is_digit_def)
    have e: "\<exists>ys. dec_emit sc il 0 ds = x # ys" using il by (simp add: x)
    then show "dec_emit sc il 0 ds \<noteq> []" "hd (dec_emit sc il 0 ds) \<noteq> 0x2B" "hd (dec_emit sc il 0 ds) \<noteq> 0x2D"
      using n by auto
  qed
  have "dec_parse (dec_to_str d) = make_decimal_raw (dec_coef d) sc"
  proof (cases "dec_coef d < 0")
    case True
    then show ?thesis using body by (simp add: dec_parse_def tx m_def)
  next
    case False
    then show ?thesis using body hd by (simp add: dec_parse_def tx m_def Let_def)
  qed
  moreover have "make_decimal_raw (dec_coef d) sc = (Some (DECIMAL d), 0)"
  proof -
    have "dec_trim (dec_coef d) sc = (dec_coef d, sc)"
      using assms c_mod_0 [of 10 "dec_coef d"] by (cases sc) (auto simp: dec_ok_def sc_def)
    then show ?thesis
      using assms sc by (auto simp: make_decimal_raw_def dec_ok_def DEC_MAX_SCALE_def sc_def abs_if)
  qed
  ultimately show ?thesis by simp
qed

lemma dec_parse_loop_no_nul:
  "dec_parse_loop s coef scale seen dot ndig = Inr r \<Longrightarrow> 0 \<notin> set s"
  by (induction s coef scale seen dot ndig rule: dec_parse_loop.induct) (auto split: if_splits)

lemma dec_to_str_no_nul:
  assumes "dec_ok d"
  shows "0 \<notin> set (dec_to_str d)"
proof -
  define s where "s = dec_to_str d"
  define signed where "signed = (s \<noteq> [] \<and> (hd s = 0x2B \<or> hd s = 0x2D))"
  have p: "dec_parse s = (Some (DECIMAL d), 0)" unfolding s_def by (rule dec_text_roundtrip [OF assms])
  obtain r where "dec_parse_loop (if signed then tl s else s) 0 0 False False 0 = Inr r"
  proof (cases "dec_parse_loop (if signed then tl s else s) 0 0 False False 0")
    case (Inl e)
    then have "fst (dec_parse s) = None" unfolding dec_parse_def Let_def signed_def by simp
    with p show ?thesis by simp
  qed (rule that)
  then have "0 \<notin> set (if signed then tl s else s)" by (rule dec_parse_loop_no_nul)
  then have "0 \<notin> set s" unfolding signed_def by (cases s) (auto split: if_splits)
  then show ?thesis by (simp add: s_def)
qed

lemma dec_to_str_inj:
  assumes "dec_ok a" "dec_ok b" "dec_to_str a = dec_to_str b"
  shows "a = b"
proof -
  have "(Some (DECIMAL a), 0 :: nat) = dec_parse (dec_to_str b)"
    unfolding assms(3) [symmetric] by (rule dec_text_roundtrip [OF assms(1), symmetric])
  also have "\<dots> = (Some (DECIMAL b), 0)" by (rule dec_text_roundtrip [OF assms(2)])
  finally show ?thesis by (simp only: prod.inject option.inject exp.inject)
qed

text \<open>
  C34. Printing and parsing: a well-formed decimal is read back from its text.
\<close>

theorem dec_parse_to_str:
  assumes "dec_ok d"
  shows "dec_parse (dec_to_str d) = (Some (DECIMAL d), 0)"
  by (rule dec_text_roundtrip [OF assms])

theorem dec_parse_to_str_witness:
  "dec_parse (dec_to_str \<lparr>dec_coef = - 12345, dec_scale = 3\<rparr>)
     = (Some (DECIMAL \<lparr>dec_coef = - 12345, dec_scale = 3\<rparr>), 0)"
  by (rule dec_parse_to_str) (simp add: dec_ok_def)

text \<open>
  Comparison of well-formed decimals is exact: the comparison of doubles, used when
  aligning the coefficients overflows 128 bits, only ever sees operands whose magnitudes
  differ by more than a factor of 10^9, so it suffices that it orders such operands.
\<close>

theorem dec_cmp_exact:
  assumes "dec_ok a" "dec_ok b"
    and "\<And>x y. dec_ok x \<Longrightarrow> dec_ok y \<Longrightarrow>
      10 ^ 9 * \<bar>dec_rat x\<bar> < \<bar>dec_rat y\<bar> \<or> 10 ^ 9 * \<bar>dec_rat y\<bar> < \<bar>dec_rat x\<bar> \<Longrightarrow>
      cmp_double x y = (if dec_rat x < dec_rat y then - 1 else 1)"
  shows "dec_cmp cmp_double a b
    = (if dec_rat a < dec_rat b then - 1 else if dec_rat a = dec_rat b then 0 else 1)"
proof -
  define s where "s = dec_common a b"
  define x y where "x = dec_raise a s" and "y = dec_raise b s"
  have "dec_scale a \<le> s" "dec_scale b \<le> s" by (simp_all add: s_def dec_common_def)
  then have v: "dec_rat a = of_int x / 10 ^ s" "dec_rat b = of_int y / 10 ^ s"
    using dec_rat_raise unfolding x_def y_def by blast+
  have T: "(0 :: rat) < 10 ^ s" by simp
  have lt: "dec_rat a < dec_rat b \<longleftrightarrow> x < y" and eq: "dec_rat a = dec_rat b \<longleftrightarrow> x = y"
    using T unfolding v by (simp_all add: divide_less_cancel)
  have al: "dec_align a b = (if i128 x \<and> i128 y then Some (x, y, s) else None)"
    by (auto simp: dec_align_def i128_mul_ovf_def x_def y_def s_def dec_common_def dec_raise_def
        Let_def max_def)
  show ?thesis
  proof (cases "dec_scale a = dec_scale b")
    case True
    then have "x = dec_coef a" "y = dec_coef b" by (simp_all add: x_def y_def s_def dec_common_def dec_raise_def)
    with True show ?thesis by (auto simp: dec_cmp_def lt eq)
  next
    case ne: False
    show ?thesis
    proof (cases "i128 x \<and> i128 y")
      case True
      then show ?thesis using ne by (auto simp: dec_cmp_def al lt eq)
    next
      case False
      have big: "10 ^ 9 * \<bar>y\<bar> < \<bar>x\<bar> \<or> 10 ^ 9 * \<bar>x\<bar> < \<bar>y\<bar>"
      proof (cases "dec_scale a < dec_scale b")
        case True
        then have "y = dec_coef b" by (simp add: y_def s_def dec_common_def dec_raise_def)
        then have "\<bar>y\<bar> < 10 ^ 29" using assms(2) by (simp add: dec_ok_def)
        then have "i128 y" by (simp add: i128_def abs_less_iff)
        with False have "2 ^ 127 \<le> \<bar>x\<bar>" by (auto simp: i128_def)
        with \<open>\<bar>y\<bar> < 10 ^ 29\<close> show ?thesis by simp
      next
        case lt: False
        then have "x = dec_coef a" using ne by (simp add: x_def s_def dec_common_def dec_raise_def)
        then have "\<bar>x\<bar> < 10 ^ 29" using assms(1) by (simp add: dec_ok_def)
        then have "i128 x" by (simp add: i128_def abs_less_iff)
        with False have "2 ^ 127 \<le> \<bar>y\<bar>" by (auto simp: i128_def)
        with \<open>\<bar>x\<bar> < 10 ^ 29\<close> show ?thesis by simp
      qed
      have "10 ^ 9 * \<bar>dec_rat b\<bar> < \<bar>dec_rat a\<bar> \<or> 10 ^ 9 * \<bar>dec_rat a\<bar> < \<bar>dec_rat b\<bar>"
      proof -
        have sc: "10 ^ 9 * \<bar>(of_int p :: rat) / 10 ^ s\<bar> < \<bar>of_int q / 10 ^ s\<bar> \<longleftrightarrow> 10 ^ 9 * \<bar>p\<bar> < \<bar>q\<bar>" for p q
        proof -
          have "10 ^ 9 * \<bar>(of_int p :: rat) / 10 ^ s\<bar> < \<bar>of_int q / 10 ^ s\<bar>
              \<longleftrightarrow> (of_int (10 ^ 9 * \<bar>p\<bar>) :: rat) < of_int \<bar>q\<bar>"
            using T by (simp add: abs_divide divide_less_cancel)
          then show ?thesis by (simp only: of_int_less_iff)
        qed
        show ?thesis using big unfolding v sc by blast
      qed
      then have "cmp_double a b = (if dec_rat a < dec_rat b then - 1 else 1)"
        using assms by blast
      moreover have "x \<noteq> y" using big by auto
      moreover have "dec_align a b = None" using False by (simp add: al)
      ultimately show ?thesis using ne by (simp add: dec_cmp_def eq)
    qed
  qed
qed

theorem dec_cmp_exact_witness:
  "dec_cmp (\<lambda>x y. if dec_rat x < dec_rat y then - 1 else 1)
     \<lparr>dec_coef = 10 ^ 28, dec_scale = 0\<rparr> \<lparr>dec_coef = 1, dec_scale = 28\<rparr> = 1"
proof -
  have h: "dec_ok \<lparr>dec_coef = 10 ^ 28, dec_scale = 0\<rparr>" "dec_ok \<lparr>dec_coef = 1, dec_scale = 28\<rparr>"
    by (simp_all add: dec_ok_def)
  show ?thesis
    using dec_cmp_exact [OF h, of "\<lambda>x y. if dec_rat x < dec_rat y then - 1 else 1"]
    by (simp add: dec_rat_def)
qed

end
