(* ===== verification/Hamt.thy ===== *)
theory Hamt
  imports Value
begin

text \<open>
  The persistent map of \<open>hamt.h\<close>: a hash array mapped trie with five hash bits per
  level, bitmap-compressed nodes and collision buckets, its lookup, insertion, removal and
  walk, and the map commands built on them.

  A key is the tagged word the program passes around; \<open>heap\<close> is the value each word
  denotes (an immediate, or the object it points to).  A parameter of every operation
  that looks at keys, it stands for memory that the map does not change.
\<close>

section \<open>Nodes\<close>

text \<open>
  A slot with a non-\<open>NULL\<close> key is an entry, a slot with a \<open>NULL\<close> key is a
  child; the slot count \<open>n\<close> is the length of the list; \<open>bitmap = 0\<close> marks a
  collision bucket.  A \<open>NULL\<close> root is \<open>None\<close>.
\<close>

datatype 'v hamt_node = Hamt_node u32 "'v hamt_slot list"
  and 'v hamt_slot = Entry u64 'v | Child "'v hamt_node"

record 'v hamt_t =
  hamt_root :: "'v hamt_node option"
  hamt_count :: int

definition HAMT_BITS :: nat where "HAMT_BITS = 5"
definition HAMT_MASK :: u32 where "HAMT_MASK = 31"

section \<open>Keys\<close>

text \<open>The bytes of a machine word in memory, least significant first.\<close>

definition le_bytes8 :: "u64 \<Rightarrow> bytes" where
  "le_bytes8 w = map (\<lambda>i. ucast (drop_bit (8 * i) w)) [0, 1, 2, 3, 4, 5, 6, 7]"

definition le_bytes4 :: "u32 \<Rightarrow> bytes" where
  "le_bytes4 w = map (\<lambda>i. ucast (drop_bit (8 * i) w)) [0, 1, 2, 3]"

definition isequal :: "(u64 \<Rightarrow> exp) \<Rightarrow> u64 \<Rightarrow> u64 \<Rightarrow> bool" where
  "isequal heap a b = (a = b \<or> isequal_val (heap a) (heap b))"

definition hamt_hashkey :: "(u64 \<Rightarrow> exp) \<Rightarrow> u64 \<Rightarrow> u32" where
  "hamt_hashkey heap k =
     (case heap k of
        FIX n \<Rightarrow> bernstein_hash (le_bytes8 (word_of_int n))
      | CHARACTER c \<Rightarrow> bernstein_hash (le_bytes4 c)
      | FLOAT f \<Rightarrow> bernstein_hash (le_bytes8 (if f64_is_zero f then 0 else f))
      | STRING s \<Rightarrow> bernstein_hash_z s
      | SYMBOL s \<Rightarrow> bernstein_hash_z s
      | TRUE_EXP \<Rightarrow> bernstein_hash_z (bytes_of ''t'')
      | BLOB b \<Rightarrow> bernstein_hash b
      | _ \<Rightarrow> bernstein_hash (le_bytes8 k))"

section \<open>Node operations\<close>

definition popcount :: "u32 \<Rightarrow> nat" where
  "popcount w = length (filter (bit w) [0..<32])"

text \<open>The index of a hash at a level, its bit, and the slot position of a bit.\<close>

definition hamt_idx :: "u32 \<Rightarrow> nat \<Rightarrow> nat" where
  "hamt_idx hash shift = unat (drop_bit shift hash AND HAMT_MASK)"

definition hamt_bit :: "u32 \<Rightarrow> nat \<Rightarrow> u32" where
  "hamt_bit hash shift = push_bit (hamt_idx hash shift) 1"

definition hamt_pos :: "u32 \<Rightarrow> u32 \<Rightarrow> nat" where
  "hamt_pos bitmap b = popcount (bitmap AND (b - 1))"

text \<open>Building the subtree of two entries that collide above \<open>shift\<close>.\<close>

function hamt_merge :: "u64 \<Rightarrow> 'v \<Rightarrow> u32 \<Rightarrow> u64 \<Rightarrow> 'v \<Rightarrow> u32 \<Rightarrow> nat \<Rightarrow> 'v hamt_node" where
  "hamt_merge k1 v1 h1 k2 v2 h2 shift =
     (if shift \<ge> 32 then Hamt_node 0 [Entry k1 v1, Entry k2 v2]
      else
        (let i1 = hamt_idx h1 shift; i2 = hamt_idx h2 shift in
         if i1 = i2 then
           Hamt_node (push_bit i1 1) [Child (hamt_merge k1 v1 h1 k2 v2 h2 (shift + HAMT_BITS))]
         else
           Hamt_node (push_bit i1 1 OR push_bit i2 1)
             (if i1 < i2 then [Entry k1 v1, Entry k2 v2] else [Entry k2 v2, Entry k1 v1])))"
  by pat_completeness auto
termination
  by (relation "measure (\<lambda>(k1, v1, h1, k2, v2, h2, shift). 32 - shift)") (auto simp: HAMT_BITS_def)

declare hamt_merge.simps [simp del]

text \<open>The linear search of a bucket: the position and value of the first equal key.\<close>

fun bucket_find :: "(u64 \<Rightarrow> exp) \<Rightarrow> u64 \<Rightarrow> nat \<Rightarrow> 'v hamt_slot list \<Rightarrow> (nat \<times> u64 \<times> 'v) option" where
  "bucket_find heap key i [] = None"
| "bucket_find heap key i (Entry k v # sl) =
     (if isequal heap k key then Some (i, k, v) else bucket_find heap key (i + 1) sl)"
| "bucket_find heap key i (Child c # sl) = bucket_find heap key (i + 1) sl"

lemma hamt_child_size [termination_simp]:
  "sl ! pos = Child c \<Longrightarrow> pos < length sl \<Longrightarrow> size c < Suc (size_list size sl)"
proof -
  assume a: "sl ! pos = Child c" "pos < length sl"
  then have "Child c \<in> set sl" by (metis nth_mem)
  then have "size (Child c) \<le> size_list size sl" by (rule size_list_estimation') simp
  then show ?thesis by simp
qed

text \<open>A slot position past the slots, which C would leave undefined, reads as absent.\<close>

function hamt_node_get :: "(u64 \<Rightarrow> exp) \<Rightarrow> 'v hamt_node \<Rightarrow> u64 \<Rightarrow> u32 \<Rightarrow> nat \<Rightarrow> 'v option" where
  "hamt_node_get heap (Hamt_node bitmap sl) key hash shift =
     (if bitmap = 0 then map_option (\<lambda>(i, k, v). v) (bucket_find heap key 0 sl)
      else
        (let b = hamt_bit hash shift; pos = hamt_pos bitmap b in
         if bitmap AND b = 0 then None
         else if pos < length sl then
           (case sl ! pos of
              Entry k v \<Rightarrow> if isequal heap k key then Some v else None
            | Child c \<Rightarrow> hamt_node_get heap c key hash (shift + HAMT_BITS))
         else None))"
  by pat_completeness auto
termination
  by (relation "measure (\<lambda>(heap, node, key, hash, shift). size node)") (auto simp: hamt_child_size)

function hamt_assoc_node :: "(u64 \<Rightarrow> exp) \<Rightarrow> 'v hamt_node \<Rightarrow> u64 \<Rightarrow> 'v \<Rightarrow> u32 \<Rightarrow> nat
    \<Rightarrow> 'v hamt_node \<times> nat" where
  "hamt_assoc_node heap (Hamt_node bitmap sl) key val hash shift =
     (if bitmap = 0 then
        (case bucket_find heap key 0 sl of
           Some (i, k, v) \<Rightarrow> (Hamt_node 0 (sl[i := Entry k val]), 0)
         | None \<Rightarrow> (Hamt_node 0 (sl @ [Entry key val]), 1))
      else
        (let b = hamt_bit hash shift; pos = hamt_pos bitmap b in
         if bitmap AND b = 0 then
           (Hamt_node (bitmap OR b) (take pos sl @ [Entry key val] @ drop pos sl), 1)
         else if pos < length sl then
           (case sl ! pos of
              Entry ek ev \<Rightarrow>
                if isequal heap ek key then (Hamt_node bitmap (sl[pos := Entry ek val]), 0)
                else (Hamt_node bitmap (sl[pos := Child (hamt_merge ek ev (hamt_hashkey heap ek)
                                                   key val hash (shift + HAMT_BITS))]), 1)
            | Child c \<Rightarrow>
                (let (c', added) = hamt_assoc_node heap c key val hash (shift + HAMT_BITS)
                 in (Hamt_node bitmap (sl[pos := Child c']), added)))
         else (Hamt_node bitmap sl, 0)))"
  by pat_completeness auto
termination
  by (relation "measure (\<lambda>(heap, node, key, val, hash, shift). size node)") (auto simp: hamt_child_size)

definition hamt_node_assoc :: "(u64 \<Rightarrow> exp) \<Rightarrow> 'v hamt_node option \<Rightarrow> u64 \<Rightarrow> 'v \<Rightarrow> u32 \<Rightarrow> nat
    \<Rightarrow> 'v hamt_node \<times> nat" where
  "hamt_node_assoc heap node key val hash shift =
     (case node of
        None \<Rightarrow> (Hamt_node (hamt_bit hash shift) [Entry key val], 1)
      | Some n \<Rightarrow> hamt_assoc_node heap n key val hash shift)"

text \<open>A copy with one slot dropped.\<close>

definition drop_slot :: "nat \<Rightarrow> 'a list \<Rightarrow> 'a list" where
  "drop_slot pos sl = take pos sl @ drop (Suc pos) sl"

definition hamt_node_without :: "u32 \<Rightarrow> 'v hamt_slot list \<Rightarrow> nat \<Rightarrow> 'v hamt_node" where
  "hamt_node_without newbitmap sl pos = Hamt_node newbitmap (drop_slot pos sl)"

text \<open>Removal returns the new node, \<open>None\<close> when it becomes empty, and \<open>*removed\<close>.\<close>

function hamt_dissoc_node :: "(u64 \<Rightarrow> exp) \<Rightarrow> 'v hamt_node \<Rightarrow> u64 \<Rightarrow> u32 \<Rightarrow> nat
    \<Rightarrow> 'v hamt_node option \<times> bool" where
  "hamt_dissoc_node heap (Hamt_node bitmap sl) key hash shift =
     (if bitmap = 0 then
        (case bucket_find heap key 0 sl of
           Some (i, k, v) \<Rightarrow>
             (if length sl = 1 then None else Some (Hamt_node 0 (drop_slot i sl)), True)
         | None \<Rightarrow> (Some (Hamt_node bitmap sl), False))
      else
        (let b = hamt_bit hash shift; pos = hamt_pos bitmap b in
         if bitmap AND b = 0 then (Some (Hamt_node bitmap sl), False)
         else if pos < length sl then
           (case sl ! pos of
              Entry ek ev \<Rightarrow>
                if \<not> isequal heap ek key then (Some (Hamt_node bitmap sl), False)
                else if length sl = 1 then (None, True)
                else (Some (hamt_node_without (bitmap AND NOT b) sl pos), True)
            | Child c \<Rightarrow>
                (case hamt_dissoc_node heap c key hash (shift + HAMT_BITS) of
                   (_, False) \<Rightarrow> (Some (Hamt_node bitmap sl), False)
                 | (None, True) \<Rightarrow>
                     if length sl = 1 then (None, True)
                     else (Some (hamt_node_without (bitmap AND NOT b) sl pos), True)
                 | (Some c', True) \<Rightarrow> (Some (Hamt_node bitmap (sl[pos := Child c'])), True)))
         else (Some (Hamt_node bitmap sl), False)))"
  by pat_completeness auto
termination
  by (relation "measure (\<lambda>(heap, node, key, hash, shift). size node)") (auto simp: hamt_child_size)

declare hamt_node_get.simps [simp del] hamt_assoc_node.simps [simp del] hamt_dissoc_node.simps [simp del]

definition hamt_node_dissoc :: "(u64 \<Rightarrow> exp) \<Rightarrow> 'v hamt_node option \<Rightarrow> u64 \<Rightarrow> u32 \<Rightarrow> nat
    \<Rightarrow> 'v hamt_node option \<times> bool" where
  "hamt_node_dissoc heap node key hash shift =
     (case node of
        None \<Rightarrow> (None, False)
      | Some n \<Rightarrow> hamt_dissoc_node heap n key hash shift)"

text \<open>
  The depth-first walk with a visitor on a context \<open>'s\<close>; the visitor's flag is its C
  result, false to stop.
\<close>

fun hamt_foreach_node :: "(u64 \<Rightarrow> 'v \<Rightarrow> 's \<Rightarrow> 's \<times> bool) \<Rightarrow> 'v hamt_node \<Rightarrow> 's \<Rightarrow> 's \<times> bool"
  and hamt_foreach_slots :: "(u64 \<Rightarrow> 'v \<Rightarrow> 's \<Rightarrow> 's \<times> bool) \<Rightarrow> 'v hamt_slot list \<Rightarrow> 's \<Rightarrow> 's \<times> bool"
  and hamt_foreach_slot :: "(u64 \<Rightarrow> 'v \<Rightarrow> 's \<Rightarrow> 's \<times> bool) \<Rightarrow> 'v hamt_slot \<Rightarrow> 's \<Rightarrow> 's \<times> bool" where
  "hamt_foreach_node f (Hamt_node bitmap sl) ctx = hamt_foreach_slots f sl ctx"
| "hamt_foreach_slots f [] ctx = (ctx, True)"
| "hamt_foreach_slots f (s # sl) ctx =
     (case hamt_foreach_slot f s ctx of
        (ctx', True) \<Rightarrow> hamt_foreach_slots f sl ctx'
      | (ctx', False) \<Rightarrow> (ctx', False))"
| "hamt_foreach_slot f (Entry k v) ctx = f k v ctx"
| "hamt_foreach_slot f (Child c) ctx = hamt_foreach_node f c ctx"

definition hamt_node_foreach :: "(u64 \<Rightarrow> 'v \<Rightarrow> 's \<Rightarrow> 's \<times> bool) \<Rightarrow> 'v hamt_node option \<Rightarrow> 's \<Rightarrow> 's \<times> bool" where
  "hamt_node_foreach f node ctx =
     (case node of None \<Rightarrow> (ctx, True) | Some n \<Rightarrow> hamt_foreach_node f n ctx)"

definition hamt_get :: "(u64 \<Rightarrow> exp) \<Rightarrow> 'v hamt_node option \<Rightarrow> u64 \<Rightarrow> 'v option" where
  "hamt_get heap root key =
     (case root of None \<Rightarrow> None | Some n \<Rightarrow> hamt_node_get heap n key (hamt_hashkey heap key) 0)"


section \<open>Legal keys\<close>

text \<open>
  The keys the laws speak of: non-\<open>NULL\<close> words whose value is compared and hashed
  alike.  Excluded are \<open>nil\<close> (two words are nil), a NaN, type objects, and rationals
  and decimals, which \<open>isequal\<close> compares by value but the hash takes by address.
\<close>

definition hamt_legal :: "(u64 \<Rightarrow> exp) \<Rightarrow> u64 \<Rightarrow> bool" where
  "hamt_legal heap k =
     (k \<noteq> 0 \<and> (case heap k of
        NIL_EXP \<Rightarrow> False | FLOAT f \<Rightarrow> \<not> f64_is_nan f | RATIONAL q \<Rightarrow> False | DECIMAL d \<Rightarrow> False
      | TYPE_OBJ t \<Rightarrow> False | _ \<Rightarrow> True))"

text \<open>The identity of a key: its value for a scalar, its address for an object.\<close>

datatype hamt_kid = Kid_fix int | Kid_char u32 | Kid_float u64 | Kid_str bytes | Kid_sym bytes
  | Kid_blob bytes | Kid_obj u64

definition hamt_keyof :: "(u64 \<Rightarrow> exp) \<Rightarrow> u64 \<Rightarrow> hamt_kid" where
  "hamt_keyof heap k =
     (case heap k of
        FIX n \<Rightarrow> Kid_fix n
      | CHARACTER c \<Rightarrow> Kid_char c
      | FLOAT f \<Rightarrow> Kid_float (if f64_is_zero f then 0 else f)
      | STRING s \<Rightarrow> Kid_str (c_str s)
      | SYMBOL s \<Rightarrow> Kid_sym (c_str s)
      | TRUE_EXP \<Rightarrow> Kid_sym (c_str (bytes_of ''t''))
      | BLOB b \<Rightarrow> Kid_blob b
      | _ \<Rightarrow> Kid_obj k)"

lemma isequal_keyof:
  assumes "hamt_legal heap a" "hamt_legal heap b"
  shows "isequal heap a b = (hamt_keyof heap a = hamt_keyof heap b)"
  using assms
  by (cases "heap a"; cases "heap b")
    (auto simp: isequal_def isequal_val_def hamt_keyof_def hamt_legal_def f64_eq_norm strcmp_eq_def)

fun kid_hash :: "hamt_kid \<Rightarrow> u32" where
  "kid_hash (Kid_fix n) = bernstein_hash (le_bytes8 (word_of_int n))"
| "kid_hash (Kid_char c) = bernstein_hash (le_bytes4 c)"
| "kid_hash (Kid_float f) = bernstein_hash (le_bytes8 f)"
| "kid_hash (Kid_str s) = bernstein_hash_z s"
| "kid_hash (Kid_sym s) = bernstein_hash_z s"
| "kid_hash (Kid_blob b) = bernstein_hash b"
| "kid_hash (Kid_obj k) = bernstein_hash (le_bytes8 k)"

lemma hashkey_kid: "hamt_legal heap k \<Longrightarrow> hamt_hashkey heap k = kid_hash (hamt_keyof heap k)"
  by (cases "heap k") (simp_all add: hamt_keyof_def hamt_hashkey_def hamt_legal_def)

lemma hashkey_keyof:
  "hamt_legal heap a \<Longrightarrow> hamt_legal heap b \<Longrightarrow> hamt_keyof heap a = hamt_keyof heap b \<Longrightarrow>
   hamt_hashkey heap a = hamt_hashkey heap b"
  by (simp add: hashkey_kid)

section \<open>Bitmaps\<close>

definition bits_of :: "u32 \<Rightarrow> nat list" where
  "bits_of w = filter (bit w) [0..<32]"

lemma hamt_idx_less: "hamt_idx hash shift < 32"
proof -
  have "drop_bit shift hash AND HAMT_MASK = take_bit 5 (drop_bit shift hash)"
    by (simp add: HAMT_MASK_def take_bit_eq_mask mask_eq_exp_minus_1)
  then have "hamt_idx hash shift = take_bit 5 (unat (drop_bit shift hash))"
    by (simp add: hamt_idx_def unsigned_take_bit_eq)
  then show ?thesis using take_bit_nat_less_exp [of 5 "unat (drop_bit shift hash)"] by simp
qed

lemma upt_mid: "a \<le> b \<Longrightarrow> b < n \<Longrightarrow> [a..<n] = [a..<b] @ b # [Suc b..<n]"
  using upt_add_eq_append [of a b "n - b"] upt_conv_Cons [of b n] by simp

lemmas upt_split = upt_mid [of 0 _ 32, simplified]

lemma bits_split:
  assumes "b < 32"
  shows "bits_of w = filter (bit w) [0..<b] @ (if bit w b then [b] else []) @ filter (bit w) [Suc b..<32]"
  unfolding bits_of_def upt_split [OF assms] by simp

lemma bit_pow2: "bit (2 ^ b :: u32) n = (n = b \<and> b < 32)"
  by (auto simp: bit_simps)

lemma hamt_pos_filter: "b < 32 \<Longrightarrow> hamt_pos w (2 ^ b) = length (filter (bit w) [0..<b])"
proof -
  assume b: "b < 32"
  have n: "bit (w AND (2 ^ b - 1)) n = (n < b \<and> bit w n)" for n
    using b by (auto simp: bit_and_iff mask_eq_exp_minus_1 [symmetric] bit_mask_iff dest: bit_imp_le_length)
  have "filter (bit (w AND (2 ^ b - 1))) [0..<32] = filter (bit w) [0..<b]"
    unfolding upt_split [OF b] by (auto simp: n filter_empty_conv intro!: filter_cong)
  then show ?thesis by (simp add: hamt_pos_def popcount_def)
qed

lemma and_bit_0: "(w AND 2 ^ b = 0) = (\<not> bit w b)" if "b < 32" for w :: u32
proof -
  have n: "bit (w AND 2 ^ b) n = (n = b \<and> bit w b)" for n
    using that by (auto simp: bit_and_iff bit_pow2)
  show ?thesis
  proof
    assume "w AND 2 ^ b = 0"
    with n [of b] show "\<not> bit w b" by simp
  next
    assume "\<not> bit w b"
    then show "w AND 2 ^ b = 0" by (intro bit_word_eqI) (simp add: n)
  qed
qed

lemma bits_or:
  assumes "b < 32" "\<not> bit w b"
  shows "bits_of (w OR 2 ^ b) = take (hamt_pos w (2 ^ b)) (bits_of w) @ [b]
    @ drop (hamt_pos w (2 ^ b)) (bits_of w)"
proof -
  have n: "bit (w OR 2 ^ b) n = (bit w n \<or> n = b)" for n
    using assms(1) by (auto simp: bit_or_iff bit_pow2)
  have "filter (bit (w OR 2 ^ b)) [0..<b] = filter (bit w) [0..<b]"
    "filter (bit (w OR 2 ^ b)) [Suc b..<32] = filter (bit w) [Suc b..<32]"
    by (auto simp: n intro!: filter_cong)
  then show ?thesis
    using assms by (simp add: bits_split [OF assms(1)] hamt_pos_filter n)
qed

lemma bits_and_not:
  assumes "b < 32" "bit w b"
  shows "bits_of (w AND NOT (2 ^ b)) = drop_slot (hamt_pos w (2 ^ b)) (bits_of w)"
proof -
  have n: "bit (w AND NOT (2 ^ b)) n = (bit w n \<and> n \<noteq> b)" for n
    using assms(1) by (auto simp: bit_and_iff bit_not_iff bit_pow2 dest: bit_imp_le_length)
  have "filter (bit (w AND NOT (2 ^ b))) [0..<b] = filter (bit w) [0..<b]"
    "filter (bit (w AND NOT (2 ^ b))) [Suc b..<32] = filter (bit w) [Suc b..<32]"
    by (auto simp: n intro!: filter_cong)
  then show ?thesis
    using assms by (simp add: bits_split [OF assms(1)] hamt_pos_filter drop_slot_def n)
qed

lemma bits_pos:
  assumes "b < 32" "bit w b"
  shows "hamt_pos w (2 ^ b) < length (bits_of w)" "bits_of w ! hamt_pos w (2 ^ b) = b"
  using assms by (simp_all add: bits_split [OF assms(1)] hamt_pos_filter)

lemma bits_distinct: "distinct (bits_of w)"
  by (simp add: bits_of_def)

lemma bits_of_zero: "bits_of 0 = []"
  by (simp add: bits_of_def)

lemma bits_of_single: "b < 32 \<Longrightarrow> bits_of (2 ^ b) = [b]"
  using bits_or [of b 0] by (simp add: bits_of_zero)

lemma bits_of_0: "(bits_of w = []) = (w = 0)"
proof
  assume "bits_of w = []"
  then have "\<not> bit w n" if "n < 32" for n using that by (auto simp: bits_of_def filter_empty_conv)
  then show "w = 0" by (intro bit_word_eqI) simp
qed (simp add: bits_of_zero)

lemma bits_of_two:
  assumes "b < 32" "a < b"
  shows "bits_of (2 ^ a OR 2 ^ b) = [a, b]"
proof -
  have nb: "\<not> bit (2 ^ a :: u32) b" using assms by (auto simp: bit_pow2)
  have "filter (bit (2 ^ a :: u32)) [0..<b] = [a]"
    unfolding upt_mid [OF le0 assms(2)] using assms by (auto simp: bit_pow2 filter_empty_conv)
  then have "hamt_pos (2 ^ a) (2 ^ b) = 1" using assms by (simp add: hamt_pos_filter)
  then show ?thesis using bits_or [OF assms(1) nb] bits_of_single [of a] assms by simp
qed


section \<open>Entries and well-formed nodes\<close>

fun hamt_entries :: "'v hamt_node \<Rightarrow> (u64 \<times> 'v) list"
  and slots_entries :: "'v hamt_slot list \<Rightarrow> (u64 \<times> 'v) list"
  and slot_entries :: "'v hamt_slot \<Rightarrow> (u64 \<times> 'v) list" where
  "hamt_entries (Hamt_node bitmap sl) = slots_entries sl"
| "slots_entries [] = []"
| "slots_entries (s # sl) = slot_entries s @ slots_entries sl"
| "slot_entries (Entry k v) = [(k, v)]"
| "slot_entries (Child c) = hamt_entries c"

fun bucket_slot_ok :: "(u64 \<Rightarrow> exp) \<Rightarrow> 'v hamt_slot \<Rightarrow> bool" where
  "bucket_slot_ok heap (Entry k v) = hamt_legal heap k"
| "bucket_slot_ok heap (Child c) = False"

definition kids :: "(u64 \<Rightarrow> exp) \<Rightarrow> (u64 \<times> 'v) list \<Rightarrow> hamt_kid list" where
  "kids heap es = map (\<lambda>(k, v). hamt_keyof heap k) es"

lemma kids_append [simp]: "kids heap (xs @ ys) = kids heap xs @ kids heap ys"
  by (simp add: kids_def)

lemma kids_mem: "(i \<in> set (kids heap es)) = (\<exists>(k, v) \<in> set es. hamt_keyof heap k = i)"
  by (force simp: kids_def)

lemma kids_Cons [simp]: "kids heap ((k, v) # es) = hamt_keyof heap k # kids heap es"
  "kids heap [] = []"
  by (simp_all add: kids_def)

lemma kids_unique:
  "distinct (kids heap es) \<Longrightarrow> (k, v) \<in> set es \<Longrightarrow> (k', v') \<in> set es \<Longrightarrow>
   hamt_keyof heap k = hamt_keyof heap k' \<Longrightarrow> (k, v) = (k', v')"
proof (induction es)
  case (Cons e es)
  obtain k0 v0 where e: "e = (k0, v0)" by (cases e)
  have "hamt_keyof heap k0 \<noteq> hamt_keyof heap k1" if "(k1, v1) \<in> set es" for k1 v1
    using Cons.prems(1) that by (auto simp: e kids_mem)
  with this [of k v] this [of k' v'] Cons show ?case by (auto simp: e)
qed simp

text \<open>
  A well-formed node at a level: a bucket below the last hash bits, of entries with
  different keys; or a bitmap node with one slot per bit, in order, where an entry's key
  and every key below a child have the slot's index at that level.
\<close>

fun node_ok :: "(u64 \<Rightarrow> exp) \<Rightarrow> nat \<Rightarrow> 'v hamt_node \<Rightarrow> bool"
  and slots_ok :: "(u64 \<Rightarrow> exp) \<Rightarrow> nat \<Rightarrow> nat list \<Rightarrow> 'v hamt_slot list \<Rightarrow> bool"
  and slot_ok :: "(u64 \<Rightarrow> exp) \<Rightarrow> nat \<Rightarrow> nat \<Rightarrow> 'v hamt_slot \<Rightarrow> bool" where
  "node_ok heap shift (Hamt_node bitmap sl) =
     (if bitmap = 0 then 32 \<le> shift \<and> sl \<noteq> [] \<and> list_all (bucket_slot_ok heap) sl
        \<and> distinct (kids heap (slots_entries sl))
      else shift < 32 \<and> slots_ok heap shift (bits_of bitmap) sl)"
| "slots_ok heap shift [] [] = True"
| "slots_ok heap shift (b # bs) (s # sl) = (slot_ok heap shift b s \<and> slots_ok heap shift bs sl)"
| "slots_ok heap shift _ _ = False"
| "slot_ok heap shift b (Entry k v) = (hamt_legal heap k \<and> hamt_idx (hamt_hashkey heap k) shift = b)"
| "slot_ok heap shift b (Child c) =
     (node_ok heap (shift + HAMT_BITS) c \<and> hamt_entries c \<noteq> []
      \<and> list_all (\<lambda>(k, v). hamt_idx (hamt_hashkey heap k) shift = b) (hamt_entries c))"

lemma slots_ok_all2: "slots_ok heap shift bs sl = list_all2 (slot_ok heap shift) bs sl"
  by (induction bs arbitrary: sl; case_tac sl) auto

lemma slots_entries_append [simp]: "slots_entries (xs @ ys) = slots_entries xs @ slots_entries ys"
  by (induction xs) auto

lemma slots_entries_mem: "(e \<in> set (slots_entries sl)) = (\<exists>s \<in> set sl. e \<in> set (slot_entries s))"
  by (induction sl) auto

lemma node_ok_legal:
  fixes n :: "'v hamt_node" and sl :: "'v hamt_slot list" and s :: "'v hamt_slot"
  shows "node_ok heap shift n \<Longrightarrow> list_all (\<lambda>(k, v). hamt_legal heap k) (hamt_entries n)"
  "slots_ok heap shift bs sl \<Longrightarrow> list_all (\<lambda>(k, v). hamt_legal heap k) (slots_entries sl)"
  "slot_ok heap shift b s \<Longrightarrow> list_all (\<lambda>(k, v). hamt_legal heap k) (slot_entries s)"
proof (induction heap shift n and heap shift bs sl and heap shift b s
    rule: node_ok_slots_ok_slot_ok.induct)
  case (1 heap shift bitmap sl)
  have "list_all (\<lambda>(k, v). hamt_legal heap k) (slots_entries sl)" if "list_all (bucket_slot_ok heap) sl" for sl :: "'v hamt_slot list"
    using that by (induction sl) (auto elim: bucket_slot_ok.elims)
  with 1 show ?case by (auto split: if_splits)
qed auto

lemma slot_ok_idx:
  "slot_ok heap shift b s \<Longrightarrow> (k, v) \<in> set (slot_entries s) \<Longrightarrow> hamt_idx (hamt_hashkey heap k) shift = b"
  by (cases s) (auto simp: list_all_iff)

lemma slots_ok_idx:
  "slots_ok heap shift bs sl \<Longrightarrow> (k, v) \<in> set (slots_entries sl) \<Longrightarrow>
   hamt_idx (hamt_hashkey heap k) shift \<in> set bs"
  by (induction bs arbitrary: sl; case_tac sl) (auto dest: slot_ok_idx)

lemma node_ok_distinct:
  fixes n :: "'v hamt_node" and sl :: "'v hamt_slot list" and s :: "'v hamt_slot"
  shows "node_ok heap shift n \<Longrightarrow> distinct (kids heap (hamt_entries n))"
  "slots_ok heap shift bs sl \<Longrightarrow> distinct bs \<Longrightarrow> distinct (kids heap (slots_entries sl))"
  "slot_ok heap shift b s \<Longrightarrow> distinct (kids heap (slot_entries s))"
proof (induction heap shift n and heap shift bs sl and heap shift b s
    rule: node_ok_slots_ok_slot_ok.induct)
  case (1 heap shift bitmap sl)
  then show ?case by (auto split: if_splits simp: bits_distinct)
next
  case (3 heap shift b bs s sl)
  have "i \<notin> set (kids heap (slots_entries sl))" if i: "i \<in> set (kids heap (slot_entries s))" for i
  proof
    assume "i \<in> set (kids heap (slots_entries sl))"
    with i obtain k v k' v' where kv: "(k, v) \<in> set (slot_entries s)" "(k', v') \<in> set (slots_entries sl)"
      "hamt_keyof heap k = hamt_keyof heap k'"
      by (auto simp: kids_mem)
    have "hamt_legal heap k" "hamt_legal heap k'"
      using node_ok_legal(3) [of heap shift b s] node_ok_legal(2) [of heap shift bs sl] 3(3) kv
      by (auto simp: list_all_iff)
    then have h: "hamt_hashkey heap k = hamt_hashkey heap k'" using kv(3) hashkey_keyof by blast
    have "hamt_idx (hamt_hashkey heap k) shift = b" "hamt_idx (hamt_hashkey heap k') shift \<in> set bs"
      using 3(3) kv slot_ok_idx slots_ok_idx by auto
    with h 3(4) show False by simp
  qed
  with 3 show ?case by auto
qed (auto simp: kids_def)

lemma slot_split:
  assumes "slots_ok heap shift (bits_of w) sl" "b < 32" "bit w b"
  defines "p \<equiv> hamt_pos w (2 ^ b)"
  shows "p < length sl" "slot_ok heap shift b (sl ! p)"
    "slots_entries sl = slots_entries (take p sl) @ slot_entries (sl ! p) @ slots_entries (drop (Suc p) sl)"
proof -
  have l: "list_all2 (slot_ok heap shift) (bits_of w) sl" using assms(1) by (simp add: slots_ok_all2)
  show p: "p < length sl" using bits_pos [OF assms(2,3)] l unfolding p_def by (metis list_all2_lengthD)
  show "slot_ok heap shift b (sl ! p)"
    using list_all2_nthD [OF l] bits_pos [OF assms(2,3)] unfolding p_def by metis
  show "slots_entries sl = slots_entries (take p sl) @ slot_entries (sl ! p) @ slots_entries (drop (Suc p) sl)"
    by (subst id_take_nth_drop [OF p]) simp
qed

text \<open>The keys beside a slot have another index, so they are other keys.\<close>

lemma beside_slot:
  assumes "slots_ok heap shift (bits_of w) sl" "b < 32" "bit w b"
    "(k', v') \<in> set (slots_entries (take p sl)) \<union> set (slots_entries (drop (Suc p) sl))"
    "p = hamt_pos w (2 ^ b)"
  shows "hamt_idx (hamt_hashkey heap k') shift \<noteq> b"
proof -
  have l: "list_all2 (slot_ok heap shift) (bits_of w) sl" using assms(1) by (simp add: slots_ok_all2)
  from assms(4) obtain s where s: "s \<in> set (take p sl) \<union> set (drop (Suc p) sl)" "(k', v') \<in> set (slot_entries s)"
    by (auto simp: slots_entries_mem)
  then obtain i where i: "i < length sl" "i \<noteq> p" "s = sl ! i"
    by (auto simp: in_set_conv_nth nth_append) (metis add_Suc add_gr_0 less_irrefl less_add_Suc1 nat_add_left_cancel_less not_add_less1 add.commute le_add_diff_inverse2 less_diff_conv)+
  have "slot_ok heap shift (bits_of w ! i) s" using list_all2_nthD2 [OF l] i by simp
  then have "hamt_idx (hamt_hashkey heap k') shift = bits_of w ! i" using slot_ok_idx s(2) by fast
  moreover have "bits_of w ! i \<noteq> bits_of w ! p"
    using i bits_distinct [of w] bits_pos [OF assms(2,3)] list_all2_lengthD [OF l] assms(5)
    by (metis nth_eq_iff_index_eq)
  ultimately show ?thesis using bits_pos [OF assms(2,3)] assms(5) by simp
qed

lemma absent_bit:
  assumes "slots_ok heap shift (bits_of w) sl" "\<not> bit w b" "(k', v') \<in> set (slots_entries sl)"
  shows "hamt_idx (hamt_hashkey heap k') shift \<noteq> b"
  using slots_ok_idx [OF assms(1,3)] assms(2) by (auto simp: bits_of_def)

lemma other_idx:
  "hamt_legal heap k \<Longrightarrow> hamt_legal heap key \<Longrightarrow>
   hamt_idx (hamt_hashkey heap k) shift \<noteq> hamt_idx (hamt_hashkey heap key) shift \<Longrightarrow>
   hamt_keyof heap k \<noteq> hamt_keyof heap key"
  using hashkey_keyof by metis

lemma legal_mem: "list_all (\<lambda>(k, v). hamt_legal heap k) es \<Longrightarrow> (k, v) \<in> set es \<Longrightarrow> hamt_legal heap k"
  by (auto simp: list_all_iff)

section \<open>Lookup\<close>

lemma bucket_find_spec:
  assumes "list_all (bucket_slot_ok heap) sl" "hamt_legal heap key"
  shows "case bucket_find heap key i sl of
      None \<Rightarrow> \<forall>(k, v) \<in> set (slots_entries sl). hamt_keyof heap k \<noteq> hamt_keyof heap key
    | Some (j, k, v) \<Rightarrow> i \<le> j \<and> j < i + length sl \<and> sl ! (j - i) = Entry k v
        \<and> hamt_keyof heap k = hamt_keyof heap key"
  using assms
proof (induction sl arbitrary: i)
  case (Cons s sl)
  then obtain k v where s: "s = Entry k v" "hamt_legal heap k" by (cases s) auto
  show ?case
  proof (cases "isequal heap k key")
    case True
    then show ?thesis using s isequal_keyof [OF s(2) Cons.prems(2)] by simp
  next
    case False
    then show ?thesis
      using s isequal_keyof [OF s(2) Cons.prems(2)] Cons.IH [of "Suc i"] Cons.prems
      by (auto split: option.splits simp: nth_Cons' Suc_diff_Suc)
  qed
qed simp

lemma node_get:
  assumes "node_ok heap shift n" "hamt_legal heap key"
  shows "(hamt_node_get heap n key (hamt_hashkey heap key) shift = Some v)
    = (\<exists>k. (k, v) \<in> set (hamt_entries n) \<and> hamt_keyof heap k = hamt_keyof heap key)"
  using assms
proof (induction n arbitrary: shift rule: measure_induct_rule [of size])
  case (less n)
  obtain bm sl where n: "n = Hamt_node bm sl" by (cases n)
  define b where "b = hamt_idx (hamt_hashkey heap key) shift"
  have b: "b < 32" by (simp add: b_def hamt_idx_less)
  show ?case
  proof (cases "bm = 0")
    case True
    then have ok: "list_all (bucket_slot_ok heap) sl" "distinct (kids heap (slots_entries sl))"
      using less.prems n by simp_all
    have g: "hamt_node_get heap n key (hamt_hashkey heap key) shift
      = map_option (\<lambda>(i, k, v). v) (bucket_find heap key 0 sl)"
      by (simp add: n True hamt_node_get.simps)
    show ?thesis
    proof (cases "bucket_find heap key 0 sl")
      case None
      then show ?thesis unfolding g using bucket_find_spec [OF ok(1) less.prems(2), of 0] by (auto simp: n)
    next
      case (Some t)
      obtain j k w where t: "t = (j, k, w)" by (cases t)
      have j: "j < length sl" "sl ! j = Entry k w" "hamt_keyof heap k = hamt_keyof heap key"
        using bucket_find_spec [OF ok(1) less.prems(2), of 0] Some t by simp_all
      have e: "slots_entries sl = slots_entries (take j sl) @ (k, w) # slots_entries (drop (Suc j) sl)"
        by (subst id_take_nth_drop [OF j(1)]) (simp add: j(2))
      have "w = v" if "(k', v) \<in> set (slots_entries sl)" "hamt_keyof heap k' = hamt_keyof heap key" for k'
        using kids_unique [OF ok(2), of k w k' v] that j(3) e by simp
      then show ?thesis unfolding g using Some t j e by (auto simp: n)
    qed
  next
    case False
    then have ok: "slots_ok heap shift (bits_of bm) sl" "shift < 32" using less.prems n by simp_all
    show ?thesis
    proof (cases "bit bm b")
      case nb: False
      then have "hamt_node_get heap n key (hamt_hashkey heap key) shift = None"
        using False and_bit_0 [OF b, of bm]
        by (simp add: n hamt_node_get.simps hamt_bit_def b_def [symmetric] Let_def)
      moreover have "hamt_keyof heap k \<noteq> hamt_keyof heap key" if "(k, w) \<in> set (slots_entries sl)" for k w
        using other_idx [OF legal_mem [OF node_ok_legal(2) [OF ok(1)] that] less.prems(2), of shift]
          absent_bit [OF ok(1) nb that] by (simp add: b_def)
      ultimately show ?thesis using n by auto
    next
      case bb: True
      define p where "p = hamt_pos bm (2 ^ b)"
      note sp = slot_split [OF ok(1) b bb, folded p_def]
      have g: "hamt_node_get heap n key (hamt_hashkey heap key) shift =
          (case sl ! p of
              Entry k v \<Rightarrow> if isequal heap k key then Some v else None
            | Child c \<Rightarrow> hamt_node_get heap c key (hamt_hashkey heap key) (shift + HAMT_BITS))"
        using False bb and_bit_0 [OF b, of bm] sp(1)
        by (simp add: n hamt_node_get.simps hamt_bit_def b_def [symmetric] Let_def p_def [symmetric])
      have other: "hamt_keyof heap k \<noteq> hamt_keyof heap key"
        if m: "(k, w) \<in> set (slots_entries (take p sl)) \<union> set (slots_entries (drop (Suc p) sl))" for k w
      proof -
        have "(k, w) \<in> set (slots_entries sl)" unfolding sp(3) using m by auto
        then have "hamt_legal heap k" using legal_mem [OF node_ok_legal(2) [OF ok(1)]] by blast
        then show ?thesis
          using other_idx [OF _ less.prems(2), of k shift] beside_slot [OF ok(1) b bb m p_def] by (simp add: b_def)
      qed
      have "(hamt_node_get heap n key (hamt_hashkey heap key) shift = Some v)
        = (\<exists>k. (k, v) \<in> set (slot_entries (sl ! p)) \<and> hamt_keyof heap k = hamt_keyof heap key)"
      proof (cases "sl ! p")
        case (Entry k w)
        with sp(2) have "hamt_legal heap k" by simp
        then show ?thesis unfolding g using isequal_keyof [OF _ less.prems(2)] by (auto simp: Entry)
      next
        case (Child c)
        with sp(2) have "node_ok heap (shift + HAMT_BITS) c" by simp
        moreover have "size c < size n" using hamt_child_size [OF Child sp(1)] by (simp add: n)
        ultimately show ?thesis using less.IH [of c "shift + HAMT_BITS"] less.prems(2)
          unfolding g by (simp add: Child)
      qed
      moreover have "hamt_entries n = slots_entries (take p sl) @ slot_entries (sl ! p) @ slots_entries (drop (Suc p) sl)"
        using sp(3) by (simp add: n)
      ultimately show ?thesis using other by auto
    qed
  qed
qed


section \<open>Insertion\<close>

text \<open>
  What an insertion does to the list of entries: the value of the entry with the key is
  replaced in place, or the key, absent before, gets a new entry.
\<close>

definition hamt_ins :: "(u64 \<Rightarrow> exp) \<Rightarrow> u64 \<Rightarrow> 'v \<Rightarrow> (u64 \<times> 'v) list \<Rightarrow> (u64 \<times> 'v) list \<Rightarrow> nat \<Rightarrow> bool" where
  "hamt_ins heap key val old new added =
     (\<exists>xs ys. (\<exists>k0 v0. old = xs @ (k0, v0) # ys \<and> hamt_keyof heap k0 = hamt_keyof heap key
                \<and> hamt_legal heap k0 \<and> new = xs @ (k0, val) # ys \<and> added = 0)
       \<or> (old = xs @ ys \<and> new = xs @ (key, val) # ys \<and> added = 1
           \<and> hamt_keyof heap key \<notin> set (kids heap old)))"

lemma hamt_ins_context:
  assumes "hamt_ins heap key val old new added" "hamt_keyof heap key \<notin> set (kids heap pre)"
    "hamt_keyof heap key \<notin> set (kids heap post)"
  shows "hamt_ins heap key val (pre @ old @ post) (pre @ new @ post) added"
proof -
  from assms(1) consider
      (rep) xs ys k0 v0 where "old = xs @ (k0, v0) # ys" "hamt_keyof heap k0 = hamt_keyof heap key"
        "hamt_legal heap k0" "new = xs @ (k0, val) # ys" "added = 0"
    | (add) xs ys where "old = xs @ ys" "new = xs @ (key, val) # ys" "added = 1"
        "hamt_keyof heap key \<notin> set (kids heap old)"
    unfolding hamt_ins_def by blast
  then show ?thesis
  proof cases
    case rep
    then show ?thesis unfolding hamt_ins_def
      by (intro exI [of _ "pre @ xs"] exI [of _ "ys @ post"] disjI1) auto
  next
    case add
    then show ?thesis unfolding hamt_ins_def using assms(2,3)
      by (intro exI [of _ "pre @ xs"] exI [of _ "ys @ post"] disjI2) auto
  qed
qed

lemma hamt_ins_all:
  assumes "hamt_ins heap key val old new added" "hamt_legal heap key"
    "list_all (\<lambda>(k, v). P (hamt_hashkey heap k)) old" "P (hamt_hashkey heap key)"
  shows "list_all (\<lambda>(k, v). P (hamt_hashkey heap k)) new" "new \<noteq> []"
proof -
  from assms(1) consider
      (rep) xs ys k0 v0 where "old = xs @ (k0, v0) # ys" "new = xs @ (k0, val) # ys"
    | (add) xs ys where "old = xs @ ys" "new = xs @ (key, val) # ys"
    unfolding hamt_ins_def by blast
  then show "list_all (\<lambda>(k, v). P (hamt_hashkey heap k)) new" "new \<noteq> []"
    using assms(3,4) by (cases, auto)+
qed

lemma node_ok_nonempty: "node_ok heap shift n \<Longrightarrow> hamt_entries n \<noteq> []"
proof (cases n)
  case (Hamt_node bm sl)
  assume ok: "node_ok heap shift n"
  have "\<exists>s sl'. sl = s # sl' \<and> slot_entries s \<noteq> []"
  proof (cases "bm = 0")
    case True
    then have "sl \<noteq> []" "list_all (bucket_slot_ok heap) sl" using ok Hamt_node by simp_all
    then show ?thesis by (cases sl) (auto elim: bucket_slot_ok.elims)
  next
    case False
    then have "slots_ok heap shift (bits_of bm) sl" "bits_of bm \<noteq> []"
      using ok Hamt_node bits_of_0 by simp_all
    then obtain b bs s sl' where "sl = s # sl'" "slot_ok heap shift b s"
      by (cases "bits_of bm"; cases sl) auto
    then show ?thesis by (cases s) auto
  qed
  then show ?thesis using Hamt_node by auto
qed

lemma merge_ok:
  assumes "hamt_legal heap k1" "hamt_legal heap k2" "hamt_keyof heap k1 \<noteq> hamt_keyof heap k2"
  shows "node_ok heap shift (hamt_merge k1 v1 (hamt_hashkey heap k1) k2 v2 (hamt_hashkey heap k2) shift)
    \<and> hamt_entries (hamt_merge k1 v1 (hamt_hashkey heap k1) k2 v2 (hamt_hashkey heap k2) shift)
      \<in> {[(k1, v1), (k2, v2)], [(k2, v2), (k1, v1)]}"
proof (induction "32 - shift" arbitrary: shift rule: less_induct)
  case less
  define i1 i2 where "i1 = hamt_idx (hamt_hashkey heap k1) shift" and "i2 = hamt_idx (hamt_hashkey heap k2) shift"
  have i: "i1 < 32" "i2 < 32" by (simp_all add: i1_def i2_def hamt_idx_less)
  have nz: "(2 ^ b :: u32) \<noteq> 0" if "b < 32" for b
    using bits_of_single [OF that] bits_of_0 [of "2 ^ b"] by auto
  have nz2: "(2 ^ a OR 2 ^ b :: u32) \<noteq> 0" if "a < b" "b < 32" for a b
    using bits_of_two [OF that(2,1)] bits_of_0 [of "2 ^ a OR 2 ^ b"] by auto
  let ?m = "hamt_merge k1 v1 (hamt_hashkey heap k1) k2 v2 (hamt_hashkey heap k2)"
  consider "32 \<le> shift" | "shift < 32" "i1 = i2" | "shift < 32" "i1 < i2" | "shift < 32" "i2 < i1"
    by linarith
  then show ?case
  proof cases
    case 1
    then have "?m shift = Hamt_node 0 [Entry k1 v1, Entry k2 v2]" by (simp add: hamt_merge.simps)
    with 1 assms show ?thesis by simp
  next
    case 2
    then have m: "?m shift = Hamt_node (2 ^ i1) [Child (?m (shift + 5))]"
      by (subst hamt_merge.simps) (simp add: i1_def i2_def HAMT_BITS_def Let_def)
    have ih: "node_ok heap (shift + 5) (?m (shift + 5))"
      "hamt_entries (?m (shift + 5)) \<in> {[(k1, v1), (k2, v2)], [(k2, v2), (k1, v1)]}"
      using less [of "shift + 5"] 2 by auto
    have idx: "list_all (\<lambda>(k, v). hamt_idx (hamt_hashkey heap k) shift = i1) (hamt_entries (?m (shift + 5)))"
      using ih(2) 2 by (auto simp: i1_def i2_def)
    show ?thesis
      using ih idx i nz [OF i(1)] 2 node_ok_nonempty [OF ih(1)]
      by (simp add: m bits_of_single HAMT_BITS_def)
  next
    case 3
    then have m: "?m shift = Hamt_node (2 ^ i1 OR 2 ^ i2) [Entry k1 v1, Entry k2 v2]"
      by (subst hamt_merge.simps) (simp add: i1_def i2_def Let_def)
    show ?thesis using assms 3 i nz2 [OF 3(2) i(2)]
      by (simp add: m bits_of_two i1_def [symmetric] i2_def [symmetric])
  next
    case 4
    then have m: "?m shift = Hamt_node (2 ^ i2 OR 2 ^ i1) [Entry k2 v2, Entry k1 v1]"
      by (subst hamt_merge.simps) (simp add: i1_def i2_def Let_def or.commute)
    show ?thesis using assms 4 i nz2 [OF 4(2) i(1)]
      by (simp add: m bits_of_two i1_def [symmetric] i2_def [symmetric])
  qed
qed

lemma slots_ok_update:
  assumes "slots_ok heap shift (bits_of w) sl" "b < 32" "bit w b" "slot_ok heap shift b s"
  defines "p \<equiv> hamt_pos w (2 ^ b)"
  shows "slots_ok heap shift (bits_of w) (sl[p := s])"
    "slots_entries (sl[p := s]) = slots_entries (take p sl) @ slot_entries s @ slots_entries (drop (Suc p) sl)"
proof -
  have l: "list_all2 (slot_ok heap shift) (bits_of w) sl" using assms(1) by (simp add: slots_ok_all2)
  have p: "p < length sl" using slot_split(1) [OF assms(1-3)] by (simp add: p_def)
  have "list_all2 (slot_ok heap shift) ((bits_of w)[p := b]) (sl[p := s])"
    using l assms(4) by (rule list_all2_update_cong)
  moreover have "(bits_of w)[p := b] = bits_of w"
    using bits_pos [OF assms(2,3)] unfolding p_def by (metis list_update_id)
  ultimately show "slots_ok heap shift (bits_of w) (sl[p := s])" by (simp add: slots_ok_all2)
  show "slots_entries (sl[p := s]) = slots_entries (take p sl) @ slot_entries s @ slots_entries (drop (Suc p) sl)"
    using p by (simp add: upd_conv_take_nth_drop)
qed

lemma kids_beside:
  assumes "slots_ok heap shift (bits_of w) sl" "b < 32" "bit w b" "hamt_legal heap key"
    "hamt_idx (hamt_hashkey heap key) shift = b"
  defines "p \<equiv> hamt_pos w (2 ^ b)"
  shows "hamt_keyof heap key \<notin> set (kids heap (slots_entries (take p sl)))"
    "hamt_keyof heap key \<notin> set (kids heap (slots_entries (drop (Suc p) sl)))"
proof -
  have "hamt_keyof heap k \<noteq> hamt_keyof heap key"
    if m: "(k, v) \<in> set (slots_entries (take p sl)) \<union> set (slots_entries (drop (Suc p) sl))" for k v
  proof -
    have "(k, v) \<in> set (slots_entries sl)"
      using m slot_split(3) [OF assms(1-3)] by (auto simp: p_def)
    then have "hamt_legal heap k" using legal_mem [OF node_ok_legal(2) [OF assms(1)]] by blast
    then show ?thesis
      using other_idx [OF _ assms(4), of k shift] beside_slot [OF assms(1-3) m] by (simp add: p_def assms(5))
  qed
  then show "hamt_keyof heap key \<notin> set (kids heap (slots_entries (take p sl)))"
    "hamt_keyof heap key \<notin> set (kids heap (slots_entries (drop (Suc p) sl)))"
    by (auto simp: kids_mem)
qed

lemma assoc_bucket:
  fixes val :: 'v and hash :: u32
  assumes "list_all (bucket_slot_ok heap) sl" "distinct (kids heap (slots_entries sl))"
    "hamt_legal heap key" "32 \<le> shift"
  defines "r \<equiv> hamt_assoc_node heap (Hamt_node 0 sl) key val hash shift"
  shows "node_ok heap shift (fst r) \<and> hamt_ins heap key val (slots_entries sl) (hamt_entries (fst r)) (snd r)"
proof (cases "bucket_find heap key 0 sl")
  case None
  then have r: "r = (Hamt_node 0 (sl @ [Entry key val]), 1)" by (simp add: r_def hamt_assoc_node.simps)
  have n: "hamt_keyof heap key \<notin> set (kids heap (slots_entries sl))"
    using bucket_find_spec [OF assms(1,3), of 0] None by (auto simp: kids_mem)
  have "hamt_ins heap key val (slots_entries sl) (hamt_entries (fst r)) (snd r)"
    using n unfolding hamt_ins_def r
    by (intro exI [of _ "slots_entries sl"] exI [of _ "[]"] disjI2) simp
  with n r assms show ?thesis by simp
next
  case (Some t)
  obtain j k w where t: "t = (j, k, w)" by (cases t)
  have j: "j < length sl" "sl ! j = Entry k w" "hamt_keyof heap k = hamt_keyof heap key"
    using bucket_find_spec [OF assms(1,3), of 0] Some t by simp_all
  have r: "r = (Hamt_node 0 (sl[j := Entry k val]), 0)"
    using Some t by (simp add: r_def hamt_assoc_node.simps)
  have lk: "hamt_legal heap k" using assms(1) j by (metis bucket_slot_ok.simps(1) list_all_length)
  have e: "slots_entries sl = slots_entries (take j sl) @ (k, w) # slots_entries (drop (Suc j) sl)"
    by (subst id_take_nth_drop [OF j(1)]) (simp add: j(2))
  have e': "slots_entries (sl[j := Entry k val]) = slots_entries (take j sl) @ (k, val) # slots_entries (drop (Suc j) sl)"
    using j(1) by (simp add: upd_conv_take_nth_drop)
  have "hamt_ins heap key val (slots_entries sl) (hamt_entries (fst r)) (snd r)"
    using e e' j(3) lk unfolding hamt_ins_def r
    by (intro exI [of _ "slots_entries (take j sl)"] exI [of _ "slots_entries (drop (Suc j) sl)"] disjI1) simp
  moreover have "list_all (bucket_slot_ok heap) (sl[j := Entry k val])"
    using assms(1) lk j(1) by (auto simp: list_all_length nth_list_update)
  moreover have "distinct (kids heap (slots_entries (sl[j := Entry k val])))"
    using assms(2) unfolding e e' by simp
  ultimately show ?thesis using r j(1) assms(4) by auto
qed

lemma assoc_ok:
  fixes val :: 'v
  assumes "node_ok heap shift n" "hamt_legal heap key"
  defines "r \<equiv> hamt_assoc_node heap n key val (hamt_hashkey heap key) shift"
  shows "node_ok heap shift (fst r) \<and> hamt_ins heap key val (hamt_entries n) (hamt_entries (fst r)) (snd r)"
  unfolding r_def using assms(1,2)
proof (induction n arbitrary: shift rule: measure_induct_rule [of size])
  case (less n)
  obtain bm sl where n: "n = Hamt_node bm sl" by (cases n)
  define hash where "hash = hamt_hashkey heap key"
  define b where "b = hamt_idx hash shift"
  have b: "b < 32" by (simp add: b_def hamt_idx_less)
  define r where "r = hamt_assoc_node heap n key val hash shift"
  show ?case
  proof (cases "bm = 0")
    case True
    then show ?thesis using assoc_bucket [of heap sl key shift val hash] less.prems
      by (simp add: n hash_def [symmetric])
  next
    case False
    then have ok: "slots_ok heap shift (bits_of bm) sl" "shift < 32" using less.prems n by simp_all
    have l: "list_all2 (slot_ok heap shift) (bits_of bm) sl" using ok(1) by (simp add: slots_ok_all2)
    define p where "p = hamt_pos bm (2 ^ b)"
    show ?thesis
    proof (cases "bit bm b")
      case nb: False
      have r: "r = (Hamt_node (bm OR 2 ^ b) (take p sl @ [Entry key val] @ drop p sl), 1)"
        using False nb and_bit_0 [OF b, of bm]
        by (simp add: r_def n hamt_assoc_node.simps hamt_bit_def b_def [symmetric] Let_def p_def [symmetric])
      have s: "slot_ok heap shift b (Entry key val)" using less.prems(2) by (simp add: b_def hash_def)
      have "list_all2 (slot_ok heap shift) (take p (bits_of bm) @ [b] @ drop p (bits_of bm))
          (take p sl @ [Entry key val] @ drop p sl)"
        using l s by (intro list_all2_appendI) simp_all
      then have "slots_ok heap shift (bits_of (bm OR 2 ^ b)) (take p sl @ [Entry key val] @ drop p sl)"
        using bits_or [OF b nb] by (simp add: slots_ok_all2 p_def)
      moreover have "bm OR 2 ^ b \<noteq> 0"
        using bits_or [OF b nb] bits_of_0 [of "bm OR 2 ^ b"] by auto
      moreover have "hamt_keyof heap key \<notin> set (kids heap (slots_entries sl))"
      proof -
        have "hamt_keyof heap k \<noteq> hamt_keyof heap key" if m: "(k, v) \<in> set (slots_entries sl)" for k v
          using other_idx [OF legal_mem [OF node_ok_legal(2) [OF ok(1)] m] less.prems(2), of shift]
            absent_bit [OF ok(1) nb m] by (simp add: b_def hash_def)
        then show ?thesis by (auto simp: kids_mem)
      qed
      then have "hamt_ins heap key val (slots_entries sl) (slots_entries (take p sl @ [Entry key val] @ drop p sl)) 1"
        unfolding hamt_ins_def
        by - (rule exI [of _ "slots_entries (take p sl)"], rule exI [of _ "slots_entries (drop p sl)"],
            rule disjI2, use slots_entries_append [of "take p sl" "drop p sl"] in simp)
      ultimately show ?thesis using ok(2) r by (simp add: n r_def hash_def)
    next
      case bb: True
      note sp = slot_split [OF ok(1) b bb, folded p_def]
      note beside = kids_beside [OF ok(1) b bb less.prems(2), folded p_def, OF b_def [unfolded hash_def, symmetric]]
      have en: "hamt_entries n = slots_entries (take p sl) @ slot_entries (sl ! p) @ slots_entries (drop (Suc p) sl)"
        using sp(3) by (simp add: n)
      have step: "node_ok heap shift (Hamt_node bm (sl[p := s]))
          \<and> hamt_ins heap key val (hamt_entries n) (hamt_entries (Hamt_node bm (sl[p := s]))) added"
        if "slot_ok heap shift b s" "hamt_ins heap key val (slot_entries (sl ! p)) (slot_entries s) added" for s added
        using slots_ok_update [OF ok(1) b bb that(1), folded p_def] hamt_ins_context [OF that(2) beside]
          False ok(2) by (simp add: en)
      have r: "r = (case sl ! p of
              Entry ek ev \<Rightarrow>
                if isequal heap ek key then (Hamt_node bm (sl[p := Entry ek val]), 0)
                else (Hamt_node bm (sl[p := Child (hamt_merge ek ev (hamt_hashkey heap ek)
                                                   key val hash (shift + HAMT_BITS))]), 1)
            | Child c \<Rightarrow>
                (let (c', added) = hamt_assoc_node heap c key val hash (shift + HAMT_BITS)
                 in (Hamt_node bm (sl[p := Child c']), added)))"
        using False bb and_bit_0 [OF b, of bm] sp(1)
        by (simp add: r_def n hamt_assoc_node.simps hamt_bit_def b_def [symmetric] Let_def p_def [symmetric]
              split: hamt_slot.split)
      have "node_ok heap shift (fst r) \<and> hamt_ins heap key val (hamt_entries n) (hamt_entries (fst r)) (snd r)"
      proof (cases "sl ! p")
        case (Entry ek ev)
        with sp(2) have ek: "hamt_legal heap ek" "hamt_idx (hamt_hashkey heap ek) shift = b" by simp_all
        show ?thesis
        proof (cases "isequal heap ek key")
          case True
          then have "hamt_keyof heap ek = hamt_keyof heap key" using isequal_keyof [OF ek(1) less.prems(2)] by simp
          then have "hamt_ins heap key val [(ek, ev)] [(ek, val)] 0"
            unfolding hamt_ins_def using ek by (intro exI [of _ "[]"] disjI1) simp
          then show ?thesis using step [of "Entry ek val" 0] ek True by (simp add: r Entry del: node_ok.simps)
        next
          case ne: False
          then have d: "hamt_keyof heap ek \<noteq> hamt_keyof heap key" using isequal_keyof [OF ek(1) less.prems(2)] by simp
          define m where "m = hamt_merge ek ev (hamt_hashkey heap ek) key val hash (shift + HAMT_BITS)"
          have m: "node_ok heap (shift + HAMT_BITS) m"
            "hamt_entries m \<in> {[(ek, ev), (key, val)], [(key, val), (ek, ev)]}"
            using merge_ok [OF ek(1) less.prems(2) d, of "shift + HAMT_BITS" ev val, folded hash_def] by (simp_all add: m_def)
          have "slot_ok heap shift b (Child m)" using m ek(2) by (auto simp: b_def hash_def)
          moreover have "hamt_ins heap key val [(ek, ev)] (hamt_entries m) 1"
          proof -
            from m(2) consider "hamt_entries m = [(ek, ev)] @ (key, val) # []" | "hamt_entries m = [] @ (key, val) # [(ek, ev)]"
              by auto
            then show ?thesis
            proof cases
              case 1
              then show ?thesis unfolding hamt_ins_def using d
                by (intro exI [of _ "[(ek, ev)]"] exI [of _ "[]"] disjI2) simp
            next
              case 2
              then show ?thesis unfolding hamt_ins_def using d
                by (intro exI [of _ "[]"] exI [of _ "[(ek, ev)]"] disjI2) simp
            qed
          qed
          ultimately show ?thesis using step [of "Child m" 1] ne by (simp add: r Entry m_def [symmetric] del: node_ok.simps)
        qed
      next
        case (Child c)
        with sp(2) have c: "node_ok heap (shift + HAMT_BITS) c"
          "list_all (\<lambda>(k, v). hamt_idx (hamt_hashkey heap k) shift = b) (hamt_entries c)" by simp_all
        obtain c' added where a: "hamt_assoc_node heap c key val hash (shift + HAMT_BITS) = (c', added)" by fastforce
        have "size c < size n" using hamt_child_size [OF Child sp(1)] by (simp add: n)
        then have ih: "node_ok heap (shift + HAMT_BITS) c'" "hamt_ins heap key val (hamt_entries c) (hamt_entries c') added"
          using less.IH [of c "shift + HAMT_BITS"] c less.prems(2) a by (simp_all add: hash_def)
        have hb: "hamt_idx (hamt_hashkey heap key) shift = b" by (simp only: b_def hash_def)
        have "slot_ok heap shift b (Child c')"
          unfolding slot_ok.simps
          using ih(1) hamt_ins_all [OF ih(2) less.prems(2), of "\<lambda>h. hamt_idx h shift = b", OF c(2) hb]
          by blast
        moreover have "hamt_ins heap key val (slot_entries (sl ! p)) (slot_entries (Child c')) added"
          using ih(2) by (simp add: Child)
        ultimately have st: "node_ok heap shift (Hamt_node bm (sl[p := Child c']))"
          "hamt_ins heap key val (hamt_entries n) (hamt_entries (Hamt_node bm (sl[p := Child c']))) added"
          using step by blast+
        have "r = (Hamt_node bm (sl[p := Child c']), added)" unfolding r Child by (simp add: a)
        with st show ?thesis by (simp only: fst_conv snd_conv simp_thms)
      qed
      then show ?thesis by (simp add: r_def hash_def)
    qed
  qed
qed


section \<open>Removal\<close>

text \<open>
  What a removal does to the list of entries: the entry with the key is dropped, or no
  entry has the key and nothing changes.
\<close>

definition hamt_del :: "(u64 \<Rightarrow> exp) \<Rightarrow> u64 \<Rightarrow> (u64 \<times> 'v) list \<Rightarrow> (u64 \<times> 'v) list \<Rightarrow> bool \<Rightarrow> bool" where
  "hamt_del heap key old new removed =
     (\<exists>xs ys k0 v0. (removed \<and> old = xs @ (k0, v0) # ys \<and> hamt_keyof heap k0 = hamt_keyof heap key \<and> new = xs @ ys)
       \<or> (\<not> removed \<and> new = old \<and> hamt_keyof heap key \<notin> set (kids heap old)))"

definition root_entries :: "'v hamt_node option \<Rightarrow> (u64 \<times> 'v) list" where
  "root_entries r = (case r of None \<Rightarrow> [] | Some n \<Rightarrow> hamt_entries n)"

definition root_ok :: "(u64 \<Rightarrow> exp) \<Rightarrow> nat \<Rightarrow> 'v hamt_node option \<Rightarrow> bool" where
  "root_ok heap shift r = (case r of None \<Rightarrow> True | Some n \<Rightarrow> node_ok heap shift n)"

lemma root_simps [simp]:
  "root_entries None = []" "root_entries (Some n) = hamt_entries n"
  "root_ok heap shift None" "root_ok heap shift (Some n) = node_ok heap shift n"
  by (simp_all add: root_entries_def root_ok_def)

lemma hamt_del_hit: "hamt_keyof heap k0 = hamt_keyof heap key \<Longrightarrow> hamt_del heap key (xs @ (k0, v0) # ys) (xs @ ys) True"
  unfolding hamt_del_def by blast

lemma hamt_del_miss: "hamt_keyof heap key \<notin> set (kids heap es) \<Longrightarrow> hamt_del heap key es es False"
  unfolding hamt_del_def by blast

lemma hamt_del_cases:
  assumes "hamt_del heap key old new removed"
  obtains (hit) xs ys k0 v0 where "removed" "old = xs @ (k0, v0) # ys"
      "hamt_keyof heap k0 = hamt_keyof heap key" "new = xs @ ys"
    | (miss) "\<not> removed" "new = old" "hamt_keyof heap key \<notin> set (kids heap old)"
  using assms unfolding hamt_del_def by blast

lemma hamt_del_context:
  assumes "hamt_del heap key old new removed" "hamt_keyof heap key \<notin> set (kids heap pre)"
    "hamt_keyof heap key \<notin> set (kids heap post)"
  shows "hamt_del heap key (pre @ old @ post) (pre @ new @ post) removed"
  using assms(1)
proof (cases rule: hamt_del_cases)
  case (hit xs ys k0 v0)
  then show ?thesis using hamt_del_hit [of heap k0 key "pre @ xs" v0 "ys @ post"] by simp
next
  case miss
  then show ?thesis using assms(2,3) hamt_del_miss [of heap key "pre @ old @ post"] by simp
qed

lemma hamt_del_all:
  "hamt_del heap key old new removed \<Longrightarrow> list_all P old \<Longrightarrow> list_all P new"
  by (elim hamt_del_cases) auto

lemma length_drop_slot: "p < length sl \<Longrightarrow> length (drop_slot p sl) = length sl - 1"
  by (simp add: drop_slot_def)

lemma list_all2_drop_slot: "list_all2 P xs ys \<Longrightarrow> list_all2 P (drop_slot p xs) (drop_slot p ys)"
  unfolding drop_slot_def by (intro list_all2_appendI) simp_all

lemma single_slot: "p < length sl \<Longrightarrow> length sl = 1 \<Longrightarrow> take p sl = [] \<and> drop (Suc p) sl = []"
  by simp

lemma dissoc_bucket:
  fixes hash :: u32
  assumes "list_all (bucket_slot_ok heap) sl" "distinct (kids heap (slots_entries sl))"
    "hamt_legal heap key" "32 \<le> shift" "sl \<noteq> []"
  defines "r \<equiv> hamt_dissoc_node heap (Hamt_node 0 sl) key hash shift"
  shows "root_ok heap shift (fst r) \<and> hamt_del heap key (slots_entries sl) (root_entries (fst r)) (snd r)"
proof (cases "bucket_find heap key 0 sl")
  case None
  then have r: "r = (Some (Hamt_node 0 sl), False)" by (simp add: r_def hamt_dissoc_node.simps)
  have "hamt_keyof heap key \<notin> set (kids heap (slots_entries sl))"
    using bucket_find_spec [OF assms(1,3), of 0] None by (auto simp: kids_mem)
  from hamt_del_miss [OF this] show ?thesis using r assms by simp
next
  case (Some t)
  obtain j k w where t: "t = (j, k, w)" by (cases t)
  have j: "j < length sl" "sl ! j = Entry k w" "hamt_keyof heap k = hamt_keyof heap key"
    using bucket_find_spec [OF assms(1,3), of 0] Some t by simp_all
  have r: "r = (if length sl = 1 then None else Some (Hamt_node 0 (drop_slot j sl)), True)"
    using Some t by (simp add: r_def hamt_dissoc_node.simps)
  have e: "slots_entries sl = slots_entries (take j sl) @ (k, w) # slots_entries (drop (Suc j) sl)"
    by (subst id_take_nth_drop [OF j(1)]) (simp add: j(2))
  have e': "slots_entries (drop_slot j sl) = slots_entries (take j sl) @ slots_entries (drop (Suc j) sl)"
    by (simp add: drop_slot_def)
  note hit = hamt_del_hit [OF j(3), of "slots_entries (take j sl)" w "slots_entries (drop (Suc j) sl)", folded e e']
  show ?thesis
  proof (cases "length sl = 1")
    case True
    then show ?thesis using hit single_slot [OF j(1) True] by (simp add: r e')
  next
    case False
    have "list_all (bucket_slot_ok heap) (drop_slot j sl)"
      using assms(1) by (auto simp: drop_slot_def list_all_iff dest: in_set_takeD in_set_dropD)
    moreover have "distinct (kids heap (slots_entries (drop_slot j sl)))"
      using assms(2) unfolding e e' by simp
    moreover have "drop_slot j sl \<noteq> []" using False j(1) length_drop_slot [OF j(1)] by auto
    ultimately show ?thesis using hit False assms(4) by (simp add: r)
  qed
qed

lemma slots_ok_drop:
  assumes "slots_ok heap shift (bits_of w) sl" "b < 32" "bit w b" "shift < 32" "length sl \<noteq> 1"
  defines "p \<equiv> hamt_pos w (2 ^ b)"
  shows "node_ok heap shift (hamt_node_without (w AND NOT (2 ^ b)) sl p)"
    "hamt_entries (hamt_node_without (w AND NOT (2 ^ b)) sl p)
      = slots_entries (take p sl) @ slots_entries (drop (Suc p) sl)"
proof -
  have l: "list_all2 (slot_ok heap shift) (bits_of w) sl" using assms(1) by (simp add: slots_ok_all2)
  have p: "p < length sl" using slot_split(1) [OF assms(1-3)] by (simp add: p_def)
  have s: "slots_ok heap shift (bits_of (w AND NOT (2 ^ b))) (drop_slot p sl)"
    unfolding slots_ok_all2 bits_and_not [OF assms(2,3), folded p_def] by (rule list_all2_drop_slot [OF l])
  have "drop_slot p sl \<noteq> []" using assms(5) p length_drop_slot [OF p] by auto
  then have "bits_of (w AND NOT (2 ^ b)) \<noteq> []"
    using s unfolding slots_ok_all2 by auto
  then have "w AND NOT (2 ^ b) \<noteq> 0" using bits_of_0 by blast
  then show "node_ok heap shift (hamt_node_without (w AND NOT (2 ^ b)) sl p)"
    using s assms(4) by (simp add: hamt_node_without_def)
  show "hamt_entries (hamt_node_without (w AND NOT (2 ^ b)) sl p)
      = slots_entries (take p sl) @ slots_entries (drop (Suc p) sl)"
    by (simp add: hamt_node_without_def drop_slot_def)
qed

lemma dissoc_ok:
  assumes "node_ok heap shift n" "hamt_legal heap key"
  defines "r \<equiv> hamt_dissoc_node heap n key (hamt_hashkey heap key) shift"
  shows "root_ok heap shift (fst r) \<and> hamt_del heap key (hamt_entries n) (root_entries (fst r)) (snd r)"
  unfolding r_def using assms(1,2)
proof (induction n arbitrary: shift rule: measure_induct_rule [of size])
  case (less n)
  obtain bm sl where n: "n = Hamt_node bm sl" by (cases n)
  define hash where "hash = hamt_hashkey heap key"
  define b where "b = hamt_idx hash shift"
  have b: "b < 32" by (simp add: b_def hamt_idx_less)
  define r where "r = hamt_dissoc_node heap n key hash shift"
  have "root_ok heap shift (fst r) \<and> hamt_del heap key (hamt_entries n) (root_entries (fst r)) (snd r)"
  proof (cases "bm = 0")
    case True
    then show ?thesis using dissoc_bucket [of heap sl key shift hash] less.prems
      by (simp add: n hash_def [symmetric] r_def)
  next
    case False
    then have ok: "slots_ok heap shift (bits_of bm) sl" "shift < 32" using less.prems n by simp_all
    define p where "p = hamt_pos bm (2 ^ b)"
    show ?thesis
    proof (cases "bit bm b")
      case nb: False
      have r: "r = (Some n, False)"
        using False nb and_bit_0 [OF b, of bm]
        by (simp add: r_def n hamt_dissoc_node.simps hamt_bit_def b_def [symmetric] Let_def)
      have "hamt_keyof heap key \<notin> set (kids heap (slots_entries sl))"
      proof -
        have "hamt_keyof heap k \<noteq> hamt_keyof heap key" if m: "(k, v) \<in> set (slots_entries sl)" for k v
          using other_idx [OF legal_mem [OF node_ok_legal(2) [OF ok(1)] m] less.prems(2), of shift]
            absent_bit [OF ok(1) nb m] by (simp add: b_def hash_def)
        then show ?thesis by (auto simp: kids_mem)
      qed
      then show ?thesis using less.prems hamt_del_miss [of heap key "hamt_entries n"] by (simp add: r n del: node_ok.simps)
    next
      case bb: True
      note sp = slot_split [OF ok(1) b bb, folded p_def]
      note beside = kids_beside [OF ok(1) b bb less.prems(2), folded p_def, OF b_def [unfolded hash_def, symmetric]]
      have en: "hamt_entries n = slots_entries (take p sl) @ slot_entries (sl ! p) @ slots_entries (drop (Suc p) sl)"
        using sp(3) by (simp add: n)
      have miss: "hamt_del heap key (hamt_entries n) (hamt_entries n) False"
        if "hamt_keyof heap key \<notin> set (kids heap (slot_entries (sl ! p)))"
        using that beside hamt_del_miss [of heap key "hamt_entries n"] unfolding en by simp
      have drop: "root_ok heap shift (if length sl = 1 then None else Some (hamt_node_without (bm AND NOT (2 ^ b)) sl p))
          \<and> hamt_del heap key (hamt_entries n)
              (root_entries (if length sl = 1 then None else Some (hamt_node_without (bm AND NOT (2 ^ b)) sl p))) True"
        if "hamt_del heap key (slot_entries (sl ! p)) [] True"
      proof (cases "length sl = 1")
        case True
        then have "take p sl = []" "drop (Suc p) sl = []" using single_slot [OF sp(1)] by blast+
        then have "hamt_entries n = slot_entries (sl ! p)"
          by (simp only: en slots_entries.simps append_Nil append_Nil2)
        then show ?thesis using True that by simp
      next
        case False
        then show ?thesis using hamt_del_context [OF that beside] slots_ok_drop [OF ok(1) b bb ok(2), folded p_def]
          by (simp add: en)
      qed
      have r: "r = (case sl ! p of
              Entry ek ev \<Rightarrow>
                if \<not> isequal heap ek key then (Some n, False)
                else (if length sl = 1 then None else Some (hamt_node_without (bm AND NOT (2 ^ b)) sl p), True)
            | Child c \<Rightarrow>
                (case hamt_dissoc_node heap c key hash (shift + HAMT_BITS) of
                   (_, False) \<Rightarrow> (Some n, False)
                 | (None, True) \<Rightarrow>
                     (if length sl = 1 then None else Some (hamt_node_without (bm AND NOT (2 ^ b)) sl p), True)
                 | (Some c', True) \<Rightarrow> (Some (Hamt_node bm (sl[p := Child c'])), True)))"
        using False bb and_bit_0 [OF b, of bm] sp(1)
        by (simp add: r_def n hamt_dissoc_node.simps hamt_bit_def b_def [symmetric] Let_def p_def [symmetric]
              split: hamt_slot.split prod.split option.split bool.split)
      show ?thesis
      proof (cases "sl ! p")
        case (Entry ek ev)
        with sp(2) have ek: "hamt_legal heap ek" by simp
        show ?thesis
        proof (cases "isequal heap ek key")
          case True
          then have "hamt_keyof heap ek = hamt_keyof heap key" using isequal_keyof [OF ek(1) less.prems(2)] by simp
          then have "hamt_del heap key (slot_entries (sl ! p)) [] True"
            using hamt_del_hit [of heap ek key "[]" ev "[]"] by (simp add: Entry)
          from drop [OF this] show ?thesis unfolding r Entry using True by simp
        next
          case ne: False
          then have "hamt_keyof heap ek \<noteq> hamt_keyof heap key" using isequal_keyof [OF ek(1) less.prems(2)] by simp
          then have "hamt_keyof heap key \<notin> set (kids heap (slot_entries (sl ! p)))" by (simp add: Entry)
          from miss [OF this] show ?thesis unfolding r Entry using ne less.prems(1) by simp
        qed
      next
        case (Child c)
        with sp(2) have c: "node_ok heap (shift + HAMT_BITS) c"
          "list_all (\<lambda>(k, v). hamt_idx (hamt_hashkey heap k) shift = b) (hamt_entries c)" by simp_all
        obtain rc removed where a: "hamt_dissoc_node heap c key hash (shift + HAMT_BITS) = (rc, removed)" by fastforce
        have "size c < size n" using hamt_child_size [OF Child sp(1)] by (simp add: n)
        then have ih: "root_ok heap (shift + HAMT_BITS) rc" "hamt_del heap key (hamt_entries c) (root_entries rc) removed"
          using less.IH [of c "shift + HAMT_BITS"] c less.prems(2) a by (simp_all add: hash_def)
        consider "\<not> removed" | "removed" "rc = None" | c' where "removed" "rc = Some c'" by (cases rc) auto
        then show ?thesis
        proof cases
          case 1
          with ih(2) have "hamt_keyof heap key \<notin> set (kids heap (slot_entries (sl ! p)))"
            by (auto elim: hamt_del_cases simp: Child)
          from miss [OF this] show ?thesis unfolding r Child using 1 less.prems(1) a
            by (simp split: option.split)
        next
          case 2
          with ih(2) have "hamt_del heap key (slot_entries (sl ! p)) [] True" by (simp add: Child)
          from drop [OF this] show ?thesis unfolding r Child using 2 a by simp
        next
          case 3
          have "slot_ok heap shift b (Child c')"
            using ih 3 node_ok_nonempty [of heap "shift + HAMT_BITS" c'] hamt_del_all [OF ih(2) c(2)] by simp
          from slots_ok_update [OF ok(1) b bb this, folded p_def]
          have "node_ok heap shift (Hamt_node bm (sl[p := Child c']))"
            "hamt_entries (Hamt_node bm (sl[p := Child c'])) = slots_entries (take p sl) @ hamt_entries c' @ slots_entries (drop (Suc p) sl)"
            using False ok(2) by simp_all
          moreover have "hamt_del heap key (slot_entries (sl ! p)) (hamt_entries c') True"
            using ih(2) 3 by (simp add: Child)
          then have "hamt_del heap key (hamt_entries n) (slots_entries (take p sl) @ hamt_entries c' @ slots_entries (drop (Suc p) sl)) True"
            unfolding en by (rule hamt_del_context [OF _ beside])
          ultimately show ?thesis unfolding r Child using 3 a by (simp del: node_ok.simps hamt_entries.simps)
        qed
      qed
    qed
  qed
  then show ?case by (simp add: r_def hash_def)
qed


section \<open>The map as a finite map\<close>

definition ent_lookup :: "(u64 \<Rightarrow> exp) \<Rightarrow> (u64 \<times> 'v) list \<Rightarrow> hamt_kid \<rightharpoonup> 'v" where
  "ent_lookup heap es = map_of (map (\<lambda>(k, v). (hamt_keyof heap k, v)) es)"

lemma kids_fst: "map fst (map (\<lambda>(k, v). (hamt_keyof heap k, v)) es) = kids heap es"
  by (auto simp: kids_def)

lemma ent_lookup_Some:
  "distinct (kids heap es) \<Longrightarrow>
   (ent_lookup heap es i = Some v) = (\<exists>k. (k, v) \<in> set es \<and> hamt_keyof heap k = i)"
  unfolding ent_lookup_def
  by (subst map_of_eq_Some_iff) (auto simp only: kids_fst, force+)

lemma ent_lookup_dom: "dom (ent_lookup heap es) = set (kids heap es)"
  unfolding ent_lookup_def dom_map_of_conv_image_fst kids_def by force

lemma ent_lookup_None: "i \<notin> set (kids heap es) \<Longrightarrow> ent_lookup heap es i = None"
  using ent_lookup_dom [of heap es] by blast

lemma ent_lookup_simps [simp]:
  "ent_lookup heap [] = (\<lambda>_. None)"
  "ent_lookup heap ((k, v) # es) = (ent_lookup heap es)(hamt_keyof heap k \<mapsto> v)"
  by (simp_all add: ent_lookup_def)

lemma ent_lookup_mid:
  "hamt_keyof heap k \<notin> set (kids heap xs) \<Longrightarrow>
   ent_lookup heap (xs @ (k, v) # ys) = (ent_lookup heap (xs @ ys))(hamt_keyof heap k \<mapsto> v)"
  by (induction xs) (auto simp: fun_upd_twist kids_def)

lemma hamt_ins_lookup:
  assumes "hamt_ins heap key val old new added" "distinct (kids heap old)"
  shows "ent_lookup heap new = (ent_lookup heap old)(hamt_keyof heap key \<mapsto> val)"
    "distinct (kids heap new)" "length new = length old + added"
    "added = (if hamt_keyof heap key \<in> set (kids heap old) then 0 else 1)"
proof (atomize (full), goal_cases)
  case 1
  from assms(1) consider
      (rep) xs ys k0 v0 where "old = xs @ (k0, v0) # ys" "hamt_keyof heap k0 = hamt_keyof heap key"
        "new = xs @ (k0, val) # ys" "added = 0"
    | (add) xs ys where "old = xs @ ys" "new = xs @ (key, val) # ys" "added = 1"
        "hamt_keyof heap key \<notin> set (kids heap old)"
    unfolding hamt_ins_def by blast
  then show ?case
  proof cases
    case rep
    then show ?thesis using assms(2) by (simp add: ent_lookup_mid)
  next
    case add
    then show ?thesis using assms(2) by (simp add: ent_lookup_mid)
  qed
qed

lemma hamt_del_lookup:
  assumes "hamt_del heap key old new removed" "distinct (kids heap old)"
  shows "ent_lookup heap new = (ent_lookup heap old)(hamt_keyof heap key := None)"
    "length old = length new + (if removed then 1 else 0)"
    "removed = (hamt_keyof heap key \<in> set (kids heap old))"
proof (atomize (full), goal_cases)
  case 1
  from assms(1) show ?case
  proof (cases rule: hamt_del_cases)
    case (hit xs ys k0 v0)
    then have "ent_lookup heap new (hamt_keyof heap key) = None"
      using assms(2) by (intro ent_lookup_None) simp
    then show ?thesis using hit assms(2) by (simp add: ent_lookup_mid fun_upd_idem)
  next
    case miss
    then show ?thesis by (simp add: ent_lookup_None fun_upd_idem)
  qed
qed

lemma root_distinct: "root_ok heap shift r \<Longrightarrow> distinct (kids heap (root_entries r))"
  by (cases r) (auto simp: node_ok_distinct(1))

lemma root_legal: "root_ok heap shift r \<Longrightarrow> (k, v) \<in> set (root_entries r) \<Longrightarrow> hamt_legal heap k"
  by (cases r) (auto dest: legal_mem [OF node_ok_legal(1)])

lemma root_get:
  assumes "root_ok heap 0 r" "hamt_legal heap key"
  shows "hamt_get heap r key = ent_lookup heap (root_entries r) (hamt_keyof heap key)"
proof -
  have "(hamt_get heap r key = Some v) = (ent_lookup heap (root_entries r) (hamt_keyof heap key) = Some v)" for v
    unfolding ent_lookup_Some [OF root_distinct [OF assms(1)]]
    using assms node_get [of heap 0 _ key v] by (cases r) (simp_all add: hamt_get_def)
  then show ?thesis by (metis not_Some_eq)
qed

lemma root_assoc:
  assumes "root_ok heap 0 r" "hamt_legal heap key"
  shows "root_ok heap 0 (Some (fst (hamt_node_assoc heap r key val (hamt_hashkey heap key) 0)))"
    "hamt_ins heap key val (root_entries r)
      (hamt_entries (fst (hamt_node_assoc heap r key val (hamt_hashkey heap key) 0)))
      (snd (hamt_node_assoc heap r key val (hamt_hashkey heap key) 0))"
proof (atomize (full), cases r)
  case None
  define b where "b = hamt_idx (hamt_hashkey heap key) 0"
  have b: "b < 32" by (simp add: b_def hamt_idx_less)
  then have "bits_of (2 ^ b) = [b]" by (rule bits_of_single)
  moreover from this have "(2 ^ b :: u32) \<noteq> 0" using bits_of_0 [of "2 ^ b"] by auto
  moreover have "hamt_ins heap key val [] [(key, val)] 1"
    unfolding hamt_ins_def by (rule exI [of _ "[]"], rule exI [of _ "[]"]) simp
  ultimately show "root_ok heap 0 (Some (fst (hamt_node_assoc heap r key val (hamt_hashkey heap key) 0))) \<and>
    hamt_ins heap key val (root_entries r)
      (hamt_entries (fst (hamt_node_assoc heap r key val (hamt_hashkey heap key) 0)))
      (snd (hamt_node_assoc heap r key val (hamt_hashkey heap key) 0))"
    using assms(2) by (simp add: None hamt_node_assoc_def hamt_bit_def b_def [symmetric])
next
  case (Some n)
  then show "root_ok heap 0 (Some (fst (hamt_node_assoc heap r key val (hamt_hashkey heap key) 0))) \<and>
    hamt_ins heap key val (root_entries r)
      (hamt_entries (fst (hamt_node_assoc heap r key val (hamt_hashkey heap key) 0)))
      (snd (hamt_node_assoc heap r key val (hamt_hashkey heap key) 0))"
    using assms assoc_ok [of heap 0 n key val] by (simp add: hamt_node_assoc_def)
qed

lemma root_dissoc:
  assumes "root_ok heap 0 r" "hamt_legal heap key"
  shows "root_ok heap 0 (fst (hamt_node_dissoc heap r key (hamt_hashkey heap key) 0))"
    "hamt_del heap key (root_entries r)
      (root_entries (fst (hamt_node_dissoc heap r key (hamt_hashkey heap key) 0)))
      (snd (hamt_node_dissoc heap r key (hamt_hashkey heap key) 0))"
proof (atomize (full), cases r)
  case None
  then show "root_ok heap 0 (fst (hamt_node_dissoc heap r key (hamt_hashkey heap key) 0)) \<and>
    hamt_del heap key (root_entries r) (root_entries (fst (hamt_node_dissoc heap r key (hamt_hashkey heap key) 0)))
      (snd (hamt_node_dissoc heap r key (hamt_hashkey heap key) 0))"
    by (simp add: hamt_node_dissoc_def hamt_del_miss)
next
  case (Some n)
  then show "root_ok heap 0 (fst (hamt_node_dissoc heap r key (hamt_hashkey heap key) 0)) \<and>
    hamt_del heap key (root_entries r) (root_entries (fst (hamt_node_dissoc heap r key (hamt_hashkey heap key) 0)))
      (snd (hamt_node_dissoc heap r key (hamt_hashkey heap key) 0))"
    using assms dissoc_ok [of heap 0 n key] by (simp add: hamt_node_dissoc_def)
qed

interpretation hamt_kv: kv_store None "hamt_get heap"
  "\<lambda>r k v. Some (fst (hamt_node_assoc heap r k v (hamt_hashkey heap k) 0))"
  "\<lambda>r k. fst (hamt_node_dissoc heap r k (hamt_hashkey heap k) 0)"
  "root_ok heap 0" "hamt_keyof heap" "hamt_legal heap"
proof unfold_locales
  fix r :: "'v hamt_node option" and k k' v
  assume r: "root_ok heap 0 r" and k: "hamt_legal heap k"
  note d = root_distinct [OF r]
  note a = root_assoc [OF r k, of v] and x = root_dissoc [OF r k]
  show "root_ok heap 0 (Some (fst (hamt_node_assoc heap r k v (hamt_hashkey heap k) 0)))" by (rule a(1))
  show "root_ok heap 0 (fst (hamt_node_dissoc heap r k (hamt_hashkey heap k) 0))" by (rule x(1))
  assume k': "hamt_legal heap k'"
  show "hamt_get heap (Some (fst (hamt_node_assoc heap r k v (hamt_hashkey heap k) 0))) k'
      = (if hamt_keyof heap k' = hamt_keyof heap k then Some v else hamt_get heap r k')"
    unfolding root_get [OF a(1) k'] root_get [OF r k'] root_simps hamt_ins_lookup(1) [OF a(2) d] by simp
  show "hamt_get heap (fst (hamt_node_dissoc heap r k (hamt_hashkey heap k) 0)) k'
      = (if hamt_keyof heap k' = hamt_keyof heap k then None else hamt_get heap r k')"
    unfolding root_get [OF x(1) k'] root_get [OF r k'] hamt_del_lookup(1) [OF x(2) d] by simp
qed (simp_all add: hamt_get_def)

section \<open>The walk\<close>

fun walk :: "(u64 \<Rightarrow> 'v \<Rightarrow> 's \<Rightarrow> 's \<times> bool) \<Rightarrow> (u64 \<times> 'v) list \<Rightarrow> 's \<Rightarrow> 's \<times> bool" where
  "walk f [] ctx = (ctx, True)"
| "walk f ((k, v) # es) ctx =
     (case f k v ctx of (ctx', True) \<Rightarrow> walk f es ctx' | (ctx', False) \<Rightarrow> (ctx', False))"

lemma walk_append:
  "walk f (xs @ ys) ctx = (case walk f xs ctx of (c, True) \<Rightarrow> walk f ys c | (c, False) \<Rightarrow> (c, False))"
  by (induction f xs ctx rule: walk.induct) (auto split: prod.split bool.split)

lemma foreach_walk:
  fixes n :: "'v hamt_node" and sl :: "'v hamt_slot list" and s :: "'v hamt_slot" and ctx :: 's
  shows "hamt_foreach_node f n ctx = walk f (hamt_entries n) ctx"
    "hamt_foreach_slots f sl ctx = walk f (slots_entries sl) ctx"
    "hamt_foreach_slot f s ctx = walk f (slot_entries s) ctx"
proof (induction f n ctx and f sl ctx and f s ctx
    rule: hamt_foreach_node_hamt_foreach_slots_hamt_foreach_slot.induct)
  case (3 f s sl ctx)
  then show ?case by (auto simp: walk_append split: prod.split bool.split)
qed (auto split: prod.split bool.split)

lemma node_foreach_walk: "hamt_node_foreach f r ctx = walk f (root_entries r) ctx"
  by (cases r) (simp_all add: hamt_node_foreach_def foreach_walk)

lemma walk_fold:
  "(\<And>k v c. f k v c = (g k v c, True)) \<Longrightarrow> walk f es ctx = (fold (\<lambda>(k, v). g k v) es ctx, True)"
  by (induction es arbitrary: ctx) auto


section \<open>The map commands\<close>

text \<open>
  The commands on evaluated arguments.  \<open>Not_hamt\<close> is a first argument that is no map;
  a constructor argument whose evaluation failed is \<open>Arg_error\<close>.  The values of a map
  are words too, as in the program.
\<close>

datatype 'v hamt_arg = Is_hamt "'v hamt_t" | Not_hamt
datatype 'v evaluated = Arg_val 'v | Arg_error nat
datatype hamt_error = Hamt_error alc_error | Error_argument nat

definition key_is_nan :: "(u64 \<Rightarrow> exp) \<Rightarrow> u64 \<Rightarrow> bool" where
  "key_is_nan heap k = (case heap k of FLOAT f \<Rightarrow> f64_is_nan f | _ \<Rightarrow> False)"

definition hamt_wrap :: "'v hamt_node option \<Rightarrow> int \<Rightarrow> 'v hamt_t" where
  "hamt_wrap root count = \<lparr>hamt_root = root, hamt_count = count\<rparr>"

text \<open>One insertion with its count, the step of the constructor and of the merge.\<close>

definition hamt_put :: "(u64 \<Rightarrow> exp) \<Rightarrow> u64 \<Rightarrow> 'v \<Rightarrow> 'v hamt_t \<Rightarrow> 'v hamt_t" where
  "hamt_put heap k v h =
     (let (nr, added) = hamt_node_assoc heap (hamt_root h) k v (hamt_hashkey heap k) 0
      in hamt_wrap (Some nr) (hamt_count h + int added))"

fun hamtcmd_from :: "(u64 \<Rightarrow> exp) \<Rightarrow> u64 hamt_t \<Rightarrow> u64 evaluated list \<Rightarrow> hamt_error + u64 hamt_t" where
  "hamtcmd_from heap h [] = Inr h"
| "hamtcmd_from heap h [x] = Inl (Hamt_error ERROR_MISSING_PARAMETER)"
| "hamtcmd_from heap h (x # y # args) =
     (case x of
        Arg_error e \<Rightarrow> Inl (Error_argument e)
      | Arg_val k \<Rightarrow>
          if key_is_nan heap k then Inl (Hamt_error ERROR_ILLEGAL_VALUE)
          else (case y of
                  Arg_error e \<Rightarrow> Inl (Error_argument e)
                | Arg_val v \<Rightarrow> hamtcmd_from heap (hamt_put heap k v h) args))"

definition hamtcmd :: "(u64 \<Rightarrow> exp) \<Rightarrow> u64 evaluated list \<Rightarrow> hamt_error + u64 hamt_t" where
  "hamtcmd heap args = hamtcmd_from heap (hamt_wrap None 0) args"

definition hamtassoccmd :: "(u64 \<Rightarrow> exp) \<Rightarrow> 'v hamt_arg \<Rightarrow> u64 \<Rightarrow> 'v \<Rightarrow> hamt_error + 'v hamt_t" where
  "hamtassoccmd heap m k v =
     (case m of
        Not_hamt \<Rightarrow> Inl (Hamt_error ERROR_ILLEGAL_VALUE)
      | Is_hamt h \<Rightarrow> if key_is_nan heap k then Inl (Hamt_error ERROR_ILLEGAL_VALUE) else Inr (hamt_put heap k v h))"

text \<open>
  The result of a lookup command.  Values are words: a value may be a C \<open>NULL\<close>, the word 0, and one
  bound to a key counts as absent; so does a default that is \<open>NULL\<close>, as when none is given, and the
  answer is then nil.
\<close>

definition or_null :: "u64 option \<Rightarrow> u64" where
  "or_null v = (case v of None \<Rightarrow> 0 | Some w \<Rightarrow> w)"

definition hamtgetcmd :: "(u64 \<Rightarrow> exp) \<Rightarrow> u64 \<Rightarrow> u64 hamt_arg \<Rightarrow> u64 \<Rightarrow> u64 option \<Rightarrow> hamt_error + u64" where
  "hamtgetcmd heap nil m k dflt =
     (case m of
        Not_hamt \<Rightarrow> Inl (Hamt_error ERROR_ILLEGAL_VALUE)
      | Is_hamt h \<Rightarrow>
          (let v = or_null (hamt_get heap (hamt_root h) k); d = or_null dflt in
           Inr (if v \<noteq> 0 then v else if d \<noteq> 0 then d else nil)))"

definition hamtdissoccmd :: "(u64 \<Rightarrow> exp) \<Rightarrow> 'v hamt_arg \<Rightarrow> u64 \<Rightarrow> hamt_error + 'v hamt_t" where
  "hamtdissoccmd heap m k =
     (case m of
        Not_hamt \<Rightarrow> Inl (Hamt_error ERROR_ILLEGAL_VALUE)
      | Is_hamt h \<Rightarrow>
          (let (nr, removed) = hamt_node_dissoc heap (hamt_root h) k (hamt_hashkey heap k) 0
           in Inr (hamt_wrap nr (hamt_count h - (if removed then 1 else 0)))))"

definition hamtcountcmd :: "'v hamt_arg \<Rightarrow> hamt_error + int" where
  "hamtcountcmd m =
     (case m of Not_hamt \<Rightarrow> Inl (Hamt_error ERROR_ILLEGAL_VALUE) | Is_hamt h \<Rightarrow> Inr (fix_trunc (hamt_count h)))"

definition hamtcontainspcmd :: "(u64 \<Rightarrow> exp) \<Rightarrow> u64 hamt_arg \<Rightarrow> u64 \<Rightarrow> hamt_error + bool" where
  "hamtcontainspcmd heap m k =
     (case m of
        Not_hamt \<Rightarrow> Inl (Hamt_error ERROR_ILLEGAL_VALUE)
      | Is_hamt h \<Rightarrow> Inr (or_null (hamt_get heap (hamt_root h) k) \<noteq> 0))"

definition hamtpcmd :: "'v hamt_arg \<Rightarrow> bool" where
  "hamtpcmd m = (case m of Is_hamt h \<Rightarrow> True | Not_hamt \<Rightarrow> False)"

text \<open>The visitors of the listing commands append to the list built so far.\<close>

definition hamt_collect_keys :: "u64 \<Rightarrow> 'v \<Rightarrow> u64 list \<Rightarrow> u64 list \<times> bool" where
  "hamt_collect_keys key val acc = (acc @ [key], True)"

definition hamt_collect_vals :: "u64 \<Rightarrow> 'v \<Rightarrow> 'v list \<Rightarrow> 'v list \<times> bool" where
  "hamt_collect_vals key val acc = (acc @ [val], True)"

definition hamt_collect_kv :: "u64 \<Rightarrow> u64 \<Rightarrow> u64 list \<Rightarrow> u64 list \<times> bool" where
  "hamt_collect_kv key val acc = (acc @ [key, val], True)"

definition hamtkeyscmd :: "'v hamt_arg \<Rightarrow> hamt_error + u64 list" where
  "hamtkeyscmd m =
     (case m of
        Not_hamt \<Rightarrow> Inl (Hamt_error ERROR_ILLEGAL_VALUE)
      | Is_hamt h \<Rightarrow> Inr (fst (hamt_node_foreach hamt_collect_keys (hamt_root h) [])))"

definition hamtvalscmd :: "'v hamt_arg \<Rightarrow> hamt_error + 'v list" where
  "hamtvalscmd m =
     (case m of
        Not_hamt \<Rightarrow> Inl (Hamt_error ERROR_ILLEGAL_VALUE)
      | Is_hamt h \<Rightarrow> Inr (fst (hamt_node_foreach hamt_collect_vals (hamt_root h) [])))"

definition hamtlistcmd :: "u64 hamt_arg \<Rightarrow> hamt_error + u64 list" where
  "hamtlistcmd m =
     (case m of
        Not_hamt \<Rightarrow> Inl (Hamt_error ERROR_ILLEGAL_VALUE)
      | Is_hamt h \<Rightarrow> Inr (fst (hamt_node_foreach hamt_collect_kv (hamt_root h) [])))"

definition hamt_merge_one :: "(u64 \<Rightarrow> exp) \<Rightarrow> u64 \<Rightarrow> 'v \<Rightarrow> 'v hamt_t \<Rightarrow> 'v hamt_t \<times> bool" where
  "hamt_merge_one heap key val acc = (hamt_put heap key val acc, True)"

definition hamtmergecmd :: "(u64 \<Rightarrow> exp) \<Rightarrow> 'v hamt_arg \<Rightarrow> 'v hamt_arg \<Rightarrow> hamt_error + 'v hamt_t" where
  "hamtmergecmd heap a b =
     (case (a, b) of
        (Is_hamt ha, Is_hamt hb) \<Rightarrow>
          Inr (fst (hamt_node_foreach (hamt_merge_one heap) (hamt_root hb) ha))
      | _ \<Rightarrow> Inl (Hamt_error ERROR_ILLEGAL_VALUE))"

text \<open>Deep equality of two maps, given deep equality of values.\<close>

definition hamt_iso_visit :: "(u64 \<Rightarrow> exp) \<Rightarrow> (u64 \<Rightarrow> u64 \<Rightarrow> bool) \<Rightarrow> u64 hamt_t
    \<Rightarrow> u64 \<Rightarrow> u64 \<Rightarrow> bool \<Rightarrow> bool \<times> bool" where
  "hamt_iso_visit heap isoeq b key val ctx_ok =
     (case hamt_get heap (hamt_root b) key of
        None \<Rightarrow> (False, False)
      | Some bv \<Rightarrow> if bv \<noteq> 0 \<and> isoeq val bv then (ctx_ok, True) else (False, False))"

definition hamt_iso :: "(u64 \<Rightarrow> exp) \<Rightarrow> (u64 \<Rightarrow> u64 \<Rightarrow> bool) \<Rightarrow> u64 hamt_t \<Rightarrow> u64 hamt_t \<Rightarrow> bool" where
  "hamt_iso heap isoeq a b =
     (hamt_count a = hamt_count b
      \<and> fst (hamt_node_foreach (hamt_iso_visit heap isoeq b) (hamt_root a) True))"

subsection \<open>Their effect\<close>

definition hamt_ok :: "(u64 \<Rightarrow> exp) \<Rightarrow> 'v hamt_t \<Rightarrow> bool" where
  "hamt_ok heap h = (root_ok heap 0 (hamt_root h) \<and> hamt_count h = int (length (root_entries (hamt_root h))))"

text \<open>The finite map a map value denotes.\<close>

definition hamt_abs :: "(u64 \<Rightarrow> exp) \<Rightarrow> 'v hamt_t \<Rightarrow> hamt_kid \<rightharpoonup> 'v" where
  "hamt_abs heap h = ent_lookup heap (root_entries (hamt_root h))"

lemma hamt_ok_card:
  assumes "hamt_ok heap h"
  shows "finite (dom (hamt_abs heap h))" "hamt_count h = int (card (dom (hamt_abs heap h)))"
proof -
  have d: "distinct (kids heap (root_entries (hamt_root h)))"
    using assms by (auto simp: hamt_ok_def intro: root_distinct)
  show "finite (dom (hamt_abs heap h))" by (simp add: hamt_abs_def ent_lookup_dom)
  have "length (kids heap (root_entries (hamt_root h))) = length (root_entries (hamt_root h))"
    by (simp add: kids_def)
  then show "hamt_count h = int (card (dom (hamt_abs heap h)))"
    using assms distinct_card [OF d] by (simp add: hamt_ok_def hamt_abs_def ent_lookup_dom)
qed

lemma hamt_get_abs:
  "hamt_ok heap h \<Longrightarrow> hamt_legal heap k \<Longrightarrow> hamt_get heap (hamt_root h) k = hamt_abs heap h (hamt_keyof heap k)"
  by (simp add: hamt_ok_def hamt_abs_def root_get)

lemma hamt_empty_ok: "hamt_ok heap (hamt_wrap None 0)" "hamt_abs heap (hamt_wrap None 0) = (\<lambda>_. None)"
  by (simp_all add: hamt_ok_def hamt_abs_def hamt_wrap_def)

lemma hamt_put_ok:
  assumes "hamt_ok heap h" "hamt_legal heap k"
  shows "hamt_ok heap (hamt_put heap k v h)"
    "hamt_abs heap (hamt_put heap k v h) = (hamt_abs heap h)(hamt_keyof heap k \<mapsto> v)"
proof -
  have r: "root_ok heap 0 (hamt_root h)" using assms(1) by (simp add: hamt_ok_def)
  note a = root_assoc [OF r assms(2), of v]
  note l = hamt_ins_lookup [OF a(2) root_distinct [OF r]]
  show "hamt_ok heap (hamt_put heap k v h)"
    using a(1) l(3) assms(1) by (simp add: hamt_ok_def hamt_put_def hamt_wrap_def split_beta Let_def)
  show "hamt_abs heap (hamt_put heap k v h) = (hamt_abs heap h)(hamt_keyof heap k \<mapsto> v)"
    using l(1) by (simp add: hamt_abs_def hamt_put_def hamt_wrap_def split_beta Let_def)
qed

lemma hamt_del_ok:
  assumes "hamt_ok heap h" "hamt_legal heap k"
  shows "\<exists>h'. hamtdissoccmd heap (Is_hamt h) k = Inr h' \<and> hamt_ok heap h'
    \<and> hamt_abs heap h' = (hamt_abs heap h)(hamt_keyof heap k := None)"
proof -
  have r: "root_ok heap 0 (hamt_root h)" using assms(1) by (simp add: hamt_ok_def)
  note x = root_dissoc [OF r assms(2)]
  note l = hamt_del_lookup [OF x(2) root_distinct [OF r]]
  show ?thesis
    using x(1) l(1,2) assms(1)
    by (simp add: hamtdissoccmd_def hamt_ok_def hamt_abs_def hamt_wrap_def split_beta Let_def)
qed

lemma legal_not_nan: "hamt_legal heap k \<Longrightarrow> \<not> key_is_nan heap k"
  by (cases "heap k") (auto simp: hamt_legal_def key_is_nan_def)

lemma hamt_put_fold:
  assumes "hamt_ok heap h" "list_all (\<lambda>(k, v). hamt_legal heap k) es" "distinct (kids heap es)"
  shows "hamt_ok heap (fold (\<lambda>(k, v). hamt_put heap k v) es h)
    \<and> hamt_abs heap (fold (\<lambda>(k, v). hamt_put heap k v) es h) = hamt_abs heap h ++ ent_lookup heap es"
  using assms
proof (induction es arbitrary: h)
  case (Cons e es)
  obtain k v where e: "e = (k, v)" by (cases e)
  have "hamt_keyof heap k \<notin> dom (ent_lookup heap es)" using Cons.prems by (simp add: e ent_lookup_dom)
  then have "(hamt_abs heap h)(hamt_keyof heap k \<mapsto> v) ++ ent_lookup heap es
      = hamt_abs heap h ++ (ent_lookup heap es)(hamt_keyof heap k \<mapsto> v)"
    by (simp add: map_add_upd_left)
  then show ?case
    using Cons hamt_put_ok [OF Cons.prems(1), of k v] by (simp add: e del: map_add_upd fun_upd_apply)
qed simp

lemma hamt_merge_fold:
  "fst (hamt_node_foreach (hamt_merge_one heap) r h) = fold (\<lambda>(k, v). hamt_put heap k v) (root_entries r) h"
  by (simp add: node_foreach_walk walk_fold [where g = "hamt_put heap"] hamt_merge_one_def)

fun flat_args :: "(u64 \<times> u64) list \<Rightarrow> u64 list" where
  "flat_args [] = []"
| "flat_args ((k, v) # es) = k # v # flat_args es"

lemma flat_args_append: "flat_args (xs @ ys) = flat_args xs @ flat_args ys"
  by (induction xs rule: flat_args.induct) simp_all

lemma hamtlist_flat: "hamtlistcmd (Is_hamt h) = Inr (flat_args (root_entries (hamt_root h)))"
proof -
  have "fold (\<lambda>(k, v) acc. acc @ [k, v]) es acc = acc @ flat_args es" for es acc
    by (induction es arbitrary: acc rule: flat_args.induct) simp_all
  then show ?thesis
    by (simp add: hamtlistcmd_def node_foreach_walk walk_fold [where g = "\<lambda>k v acc. acc @ [k, v]"]
        hamt_collect_kv_def)
qed

lemma hamtcmd_flat:
  "list_all (\<lambda>(k, v). hamt_legal heap k) es \<Longrightarrow>
   hamtcmd_from heap h (map Arg_val (flat_args es)) = Inr (fold (\<lambda>(k, v). hamt_put heap k v) es h)"
  by (induction es arbitrary: h rule: flat_args.induct) (simp_all add: legal_not_nan)

lemma root_legal_all: "root_ok heap 0 r \<Longrightarrow> list_all (\<lambda>(k, v). hamt_legal heap k) (root_entries r)"
  by (auto simp: list_all_iff dest: root_legal)

lemma hamt_iso_walk:
  "fst (walk (hamt_iso_visit heap isoeq b) es c)
    = (c \<and> (\<forall>(k, v) \<in> set es. \<exists>bv. hamt_get heap (hamt_root b) k = Some bv \<and> bv \<noteq> 0 \<and> isoeq v bv))"
  by (induction es arbitrary: c)
    (auto simp: hamt_iso_visit_def split: option.split prod.split bool.split if_splits)


section \<open>Properties\<close>

text \<open>
  C10. A trie behaves as a finite map on legal keys: whatever sequence of insertions,
  removals and lookups is run from the empty trie, through splits, collision buckets and
  emptied subtrees, every lookup answers as the map does and the trie stays well formed.
\<close>

theorem hamt_sessions_refine_map:
  assumes "kv_legal (hamt_legal heap) ops"
  shows "fst (kv_run (hamt_get heap)
            (\<lambda>r k v. Some (fst (hamt_node_assoc heap r k v (hamt_hashkey heap k) 0)))
            (\<lambda>r k. fst (hamt_node_dissoc heap r k (hamt_hashkey heap k) 0)) ops None)
      = fst (kv_spec (hamt_keyof heap) ops (\<lambda>_. None))
    \<and> root_ok heap 0 (snd (kv_run (hamt_get heap)
            (\<lambda>r k v. Some (fst (hamt_node_assoc heap r k v (hamt_hashkey heap k) 0)))
            (\<lambda>r k. fst (hamt_node_dissoc heap r k (hamt_hashkey heap k) 0)) ops None))"
  by (rule hamt_kv.run_from_empty [OF assms])

theorem hamt_sessions_refine_map_witness:
  "fst (kv_run (hamt_get (\<lambda>w. FIX (uint w)))
            (\<lambda>r k v. Some (fst (hamt_node_assoc (\<lambda>w. FIX (uint w)) r k v (hamt_hashkey (\<lambda>w. FIX (uint w)) k) 0)))
            (\<lambda>r k. fst (hamt_node_dissoc (\<lambda>w. FIX (uint w)) r k (hamt_hashkey (\<lambda>w. FIX (uint w)) k) 0))
            [Kv_put 1 10, Kv_put 2 (20 :: nat), Kv_del 1, Kv_get 1, Kv_get 2] None)
      = [None, Some 20]"
  using hamt_sessions_refine_map [of "\<lambda>w. FIX (uint w)" "[Kv_put 1 10, Kv_put 2 (20 :: nat), Kv_del 1, Kv_get 1, Kv_get 2]"]
  by (simp add: kv_legal_def hamt_legal_def hamt_keyof_def)



text \<open>
  Merging two well-formed maps gives a well-formed map with the entries of both, the
  second map's value winning on a common key, and with the count of the union; an argument
  that is no map is an error.
\<close>

theorem hamt_merge_right_wins:
  assumes "hamt_ok heap a" "hamt_ok heap b"
  shows "(\<exists>m. hamtmergecmd heap (Is_hamt a) (Is_hamt b) = Inr m \<and> hamt_ok heap m
      \<and> hamt_abs heap m = hamt_abs heap a ++ hamt_abs heap b
      \<and> hamt_count m = int (card (dom (hamt_abs heap a) \<union> dom (hamt_abs heap b))))
    \<and> hamtmergecmd heap Not_hamt (Is_hamt b) = Inl (Hamt_error ERROR_ILLEGAL_VALUE)
    \<and> hamtmergecmd heap (Is_hamt a) Not_hamt = Inl (Hamt_error ERROR_ILLEGAL_VALUE)"
proof -
  have r: "root_ok heap 0 (hamt_root b)" using assms(2) by (simp add: hamt_ok_def)
  note f = hamt_put_fold [OF assms(1) root_legal_all [OF r] root_distinct [OF r], folded hamt_abs_def]
  define m where "m = fold (\<lambda>(k, v). hamt_put heap k v) (root_entries (hamt_root b)) a"
  have m: "hamt_ok heap m" "hamt_abs heap m = hamt_abs heap a ++ hamt_abs heap b"
    using f unfolding m_def by blast+
  have "hamt_count m = int (card (dom (hamt_abs heap a) \<union> dom (hamt_abs heap b)))"
    using hamt_ok_card(2) [OF m(1)] m(2) by (simp add: Un_commute)
  with m show ?thesis by (simp add: hamtmergecmd_def hamt_merge_fold m_def [symmetric])
qed

theorem hamt_merge_right_wins_witness:
  "\<exists>m. hamtmergecmd (\<lambda>w. FIX (uint w)) (Is_hamt (hamt_put (\<lambda>w. FIX (uint w)) 8 (1 :: nat) (hamt_wrap None 0)))
      (Is_hamt (hamt_put (\<lambda>w. FIX (uint w)) 8 2 (hamt_wrap None 0))) = Inr m \<and> hamt_count m = 1"
proof -
  have l: "hamt_legal (\<lambda>w. FIX (uint w)) 8" by (simp add: hamt_legal_def)
  note p = hamt_put_ok [OF hamt_empty_ok(1) l, unfolded hamt_empty_ok(2)]
  show ?thesis
    using hamt_merge_right_wins [OF p(1) p(1), of "1 :: nat" 2] by (auto simp: p(2))
qed

text \<open>
  Listing and rebuilding: \<open>(apply hamt (hamt->list m))\<close> is a well-formed map equal
  to \<open>m\<close>; \<open>hamt-keys\<close> lists each key once, as many as the count.
\<close>

theorem hamt_list_roundtrip:
  assumes "hamt_ok heap m"
  shows "(\<exists>l m'. hamtlistcmd (Is_hamt m) = Inr l \<and> hamtcmd heap (map Arg_val l) = Inr m'
      \<and> hamt_ok heap m' \<and> hamt_abs heap m' = hamt_abs heap m)
    \<and> (\<exists>ks. hamtkeyscmd (Is_hamt m) = Inr ks \<and> int (length ks) = hamt_count m
      \<and> distinct (map (hamt_keyof heap) ks)
      \<and> set (map (hamt_keyof heap) ks) = dom (hamt_abs heap m))"
proof -
  define es where "es = root_entries (hamt_root m)"
  have r: "root_ok heap 0 (hamt_root m)" using assms by (simp add: hamt_ok_def)
  note d = root_distinct [OF r, folded es_def]
  note f = hamt_put_fold [OF hamt_empty_ok(1) root_legal_all [OF r, folded es_def] d,
      unfolded hamt_empty_ok(2) empty_map_add]
  have a: "hamtcmd heap (map Arg_val (flat_args es)) = Inr (fold (\<lambda>(k, v). hamt_put heap k v) es (hamt_wrap None 0))"
    unfolding hamtcmd_def by (rule hamtcmd_flat [OF root_legal_all [OF r, folded es_def]])
  have k: "fold (\<lambda>(k, v) acc. acc @ [k]) xs acc = acc @ map fst xs" for xs :: "(u64 \<times> u64) list" and acc
    by (induction xs arbitrary: acc) auto
  have "hamtkeyscmd (Is_hamt m) = Inr (map fst es)"
    by (simp add: hamtkeyscmd_def node_foreach_walk walk_fold [where g = "\<lambda>k v acc. acc @ [k]"]
        hamt_collect_keys_def k es_def [symmetric])
  moreover have ks: "map (hamt_keyof heap) (map fst es) = kids heap es" by (auto simp: kids_def)
  moreover have "hamt_keyof heap ` fst ` set es = dom (ent_lookup heap es)"
    using arg_cong [OF ks, of set] ent_lookup_dom [of heap es] by (simp add: image_image)
  moreover have "int (length es) = hamt_count m" using assms by (simp add: hamt_ok_def es_def)
  ultimately show ?thesis
    using f a d hamtlist_flat [of m, folded es_def]
    by (simp add: hamt_abs_def es_def [symmetric])
qed

theorem hamt_list_roundtrip_witness:
  "hamtlistcmd (Is_hamt (hamt_put (\<lambda>w. FIX (uint w)) 8 9 (hamt_wrap None 0))) = Inr [8, 9]
   \<and> (\<exists>ks. hamtkeyscmd (Is_hamt (hamt_put (\<lambda>w. FIX (uint w)) 8 (9 :: u64) (hamt_wrap None 0))) = Inr ks \<and> length ks = 1)"
proof -
  have l: "hamt_legal (\<lambda>w. FIX (uint w)) 8" by (simp add: hamt_legal_def)
  note p = hamt_put_ok [OF hamt_empty_ok(1) l, of "9 :: u64", unfolded hamt_empty_ok(2)]
  have c: "hamt_count (hamt_put (\<lambda>w. FIX (uint w)) 8 (9 :: u64) (hamt_wrap None 0)) = 1"
    using hamt_ok_card(2) [OF p(1)] by (simp add: p(2))
  have f: "hamtlistcmd (Is_hamt (hamt_put (\<lambda>w. FIX (uint w)) 8 9 (hamt_wrap None 0))) = Inr [8, 9]"
    by (simp add: hamtlist_flat hamt_put_def hamt_wrap_def hamt_node_assoc_def)
  from hamt_list_roundtrip [OF p(1)] c
  have "\<exists>ks. hamtkeyscmd (Is_hamt (hamt_put (\<lambda>w. FIX (uint w)) 8 (9 :: u64) (hamt_wrap None 0))) = Inr ks \<and> length ks = 1"
    by (elim conjE exE) simp
  with f show ?thesis by blast
qed

text \<open>
  Deep equality of maps: counting entries and looking up one map's keys in the other
  decides whether both have the same keys with equal values; a \<open>NULL\<close> value in the second
  map is equal to none.
\<close>

theorem hamt_iso_exact:
  assumes "hamt_ok heap a" "hamt_ok heap b"
  shows "hamt_iso heap isoeq a b = (\<forall>i. rel_option (\<lambda>v w. w \<noteq> 0 \<and> isoeq v w) (hamt_abs heap a i) (hamt_abs heap b i))"
proof -
  define es where "es = root_entries (hamt_root a)"
  have r: "root_ok heap 0 (hamt_root a)" using assms by (simp add: hamt_ok_def)
  note d = root_distinct [OF r, folded es_def]
  have look: "hamt_get heap (hamt_root b) k = hamt_abs heap b (hamt_keyof heap k)" if "(k, v) \<in> set es" for k v
    using root_legal [OF r that [unfolded es_def]] by (rule hamt_get_abs [OF assms(2)])
  have ab: "(hamt_abs heap a i = Some v) = (\<exists>k. (k, v) \<in> set es \<and> hamt_keyof heap k = i)" for i v
    using ent_lookup_Some [OF d] by (simp add: hamt_abs_def es_def)
  have w: "fst (hamt_node_foreach (hamt_iso_visit heap isoeq b) (hamt_root a) True)
      = (\<forall>i v. hamt_abs heap a i = Some v \<longrightarrow> (\<exists>bv. hamt_abs heap b i = Some bv \<and> bv \<noteq> 0 \<and> isoeq v bv))"
    using look by (force simp: node_foreach_walk hamt_iso_walk es_def [symmetric] ab)
  note ca = hamt_ok_card [OF assms(1)] and cb = hamt_ok_card [OF assms(2)]
  show ?thesis
  proof
    assume i: "hamt_iso heap isoeq a b"
    then have sub: "dom (hamt_abs heap a) \<subseteq> dom (hamt_abs heap b)" using w by (auto simp: hamt_iso_def)
    have "card (dom (hamt_abs heap a)) = card (dom (hamt_abs heap b))"
      using i ca(2) cb(2) by (simp add: hamt_iso_def)
    then have "dom (hamt_abs heap a) = dom (hamt_abs heap b)" using card_subset_eq [OF cb(1) sub] by simp
    then have none: "hamt_abs heap b j = None" if "hamt_abs heap a j = None" for j using that by blast
    have "rel_option (\<lambda>v w. w \<noteq> 0 \<and> isoeq v w) (hamt_abs heap a j) (hamt_abs heap b j)" for j
    proof (cases "hamt_abs heap a j")
      case (Some v)
      then obtain bv where "hamt_abs heap b j = Some bv" "bv \<noteq> 0" "isoeq v bv" using i w by (auto simp: hamt_iso_def)
      with Some show ?thesis by simp
    qed (simp add: none)
    then show "\<forall>j. rel_option (\<lambda>v w. w \<noteq> 0 \<and> isoeq v w) (hamt_abs heap a j) (hamt_abs heap b j)" ..
  next
    assume l: "\<forall>j. rel_option (\<lambda>v w. w \<noteq> 0 \<and> isoeq v w) (hamt_abs heap a j) (hamt_abs heap b j)"
    have "dom (hamt_abs heap a) = dom (hamt_abs heap b)"
    proof (rule set_eqI)
      fix j
      show "(j \<in> dom (hamt_abs heap a)) = (j \<in> dom (hamt_abs heap b))"
        using l [rule_format, of j] by (cases "hamt_abs heap a j"; cases "hamt_abs heap b j") auto
    qed
    moreover have "\<exists>bv. hamt_abs heap b j = Some bv \<and> bv \<noteq> 0 \<and> isoeq v bv" if "hamt_abs heap a j = Some v" for j v
      using l [rule_format, of j] that by (cases "hamt_abs heap b j") auto
    ultimately show "hamt_iso heap isoeq a b"
      using ca(2) cb(2) by (simp add: hamt_iso_def w)
  qed
qed

theorem hamt_iso_exact_witness:
  "hamt_iso (\<lambda>w. FIX (uint w)) (=) (hamt_put (\<lambda>w. FIX (uint w)) 8 (5 :: u64) (hamt_wrap None 0))
      (hamt_put (\<lambda>w. FIX (uint w)) 8 5 (hamt_wrap None 0))
   \<and> \<not> hamt_iso (\<lambda>w. FIX (uint w)) (=) (hamt_put (\<lambda>w. FIX (uint w)) 8 (5 :: u64) (hamt_wrap None 0))
      (hamt_put (\<lambda>w. FIX (uint w)) 9 5 (hamt_wrap None 0))"
proof -
  have l: "hamt_legal (\<lambda>w. FIX (uint w)) 8" "hamt_legal (\<lambda>w. FIX (uint w)) 9" by (simp_all add: hamt_legal_def)
  note p = hamt_put_ok [OF hamt_empty_ok(1) l(1), of "5 :: u64", unfolded hamt_empty_ok(2)]
  note q = hamt_put_ok [OF hamt_empty_ok(1) l(2), of "5 :: u64", unfolded hamt_empty_ok(2)]
  show ?thesis
    using hamt_iso_exact [OF p(1) p(1), of "(=)"] hamt_iso_exact [OF p(1) q(1), of "(=)"]
    by (auto simp: p(2) q(2) hamt_keyof_def option.rel_eq intro!: exI [of _ "Kid_fix 8"])
qed

text \<open>
  A rational is hashed by its address though compared by its value: a map that holds
  a rational key misses it when it is looked up through another, equal rational object.
\<close>

definition two_halves :: "u64 \<Rightarrow> exp" where
  "two_halves w = (if w = 0x1000 \<or> w = 0x1010 then RATIONAL \<lparr>rat_num = 1, rat_den = 2\<rparr> else NIL_EXP)"

theorem hamt_rational_key_missed:
  "isequal two_halves 0x1000 0x1010
   \<and> hamtcontainspcmd two_halves
       (Is_hamt (hamt_put two_halves 0x1000 (7 :: u64) (hamt_wrap None 0))) 0x1000 = Inr True
   \<and> hamtcontainspcmd two_halves
       (Is_hamt (hamt_put two_halves 0x1000 (7 :: u64) (hamt_wrap None 0))) 0x1010 = Inr False"
  by code_simp

end
