(* ===== verification/Codec.thy ===== *)
theory Codec imports Value Utf8 begin

text \<open>
  The byte blobs of \<open>blob.h\<close>: construction, length, indexed read, conversion to and
  from strings, and the base64 and hex codecs.

  A command takes its evaluated arguments and returns an error code or a value.  A string
  result passes through the \<open>int\<close> length of \<open>make_string\<close>, exact below
  \<open>2 ^ 31\<close> bytes; the properties of the encoders assume it.
\<close>

section \<open>Blobs\<close>

definition makeblobcmd :: "exp \<Rightarrow> alc_error + exp" where
  "makeblobcmd a =
     (case a of
        FIX n \<Rightarrow> if n < 0 then Inl ERROR_ILLEGAL_VALUE else Inr (BLOB (replicate (nat n) 0))
      | STRING s \<Rightarrow> Inr (BLOB (c_str s))
      | _ \<Rightarrow> Inl ERROR_ILLEGAL_VALUE)"

definition bloblencmd :: "exp \<Rightarrow> alc_error + exp" where
  "bloblencmd b =
     (case b of BLOB bs \<Rightarrow> Inr (MAKE_FIX (int (length bs))) | _ \<Rightarrow> Inl ERROR_ILLEGAL_VALUE)"

definition blobrefcmd :: "exp \<Rightarrow> exp \<Rightarrow> alc_error + exp" where
  "blobrefcmd b i =
     (case b of
        BLOB bs \<Rightarrow>
          (case i of
             FIX idx \<Rightarrow>
               if idx < 0 \<or> nat idx \<ge> length bs then Inl ERROR_INDEX_OUT_OF_RANGE
               else Inr (MAKE_FIX (uint (bs ! nat idx)))
           | _ \<Rightarrow> Inl ERROR_NUMBER_EXPECTED)
      | _ \<Rightarrow> Inl ERROR_ILLEGAL_VALUE)"

definition blob2stringcmd :: "exp \<Rightarrow> alc_error + exp" where
  "blob2stringcmd b =
     (case b of
        BLOB bs \<Rightarrow>
          if 0 \<in> set bs then Inl ERROR_ILLEGAL_VALUE
          else if utf8_valid bs \<noteq> None then Inl ERROR_ILLEGAL_VALUE
          else Inr (STRING bs)
      | _ \<Rightarrow> Inl ERROR_ILLEGAL_VALUE)"

definition string2blobcmd :: "exp \<Rightarrow> alc_error + exp" where
  "string2blobcmd s =
     (case s of STRING t \<Rightarrow> Inr (BLOB (c_str t)) | _ \<Rightarrow> Inl ERROR_ILLEGAL_VALUE)"

definition blob_or_string_bytes :: "exp \<Rightarrow> bytes option" where
  "blob_or_string_bytes v =
     (case v of BLOB bs \<Rightarrow> Some bs | STRING s \<Rightarrow> Some (c_str s) | _ \<Rightarrow> None)"

section \<open>Base64\<close>

definition SIZE_MAX :: nat where "SIZE_MAX = 2 ^ 64 - 1"

definition b64_tab :: bytes where
  "b64_tab = bytes_of ''ABCDEFGHIJKLMNOPQRSTUVWXYZabcdefghijklmnopqrstuvwxyz0123456789+/''"

definition b64_char :: "u32 \<Rightarrow> byte" where
  "b64_char w = b64_tab ! unat (w AND 63)"

text \<open>The groups of three bytes; a short last group is padded.\<close>

fun b64_groups :: "bytes \<Rightarrow> bytes" where
  "b64_groups [] = []"
| "b64_groups [a] =
     (let w = push_bit 16 (ucast a) :: u32
      in [b64_char (drop_bit 18 w), b64_char (drop_bit 12 w), 0x3D, 0x3D])"
| "b64_groups [a, b] =
     (let w = push_bit 16 (ucast a) OR push_bit 8 (ucast b) :: u32
      in [b64_char (drop_bit 18 w), b64_char (drop_bit 12 w), b64_char (drop_bit 6 w), 0x3D])"
| "b64_groups (a # b # c # src) =
     (let w = push_bit 16 (ucast a) OR push_bit 8 (ucast b) OR ucast c :: u32
      in [b64_char (drop_bit 18 w), b64_char (drop_bit 12 w), b64_char (drop_bit 6 w), b64_char w]
         @ b64_groups src)"

definition base64encodecmd :: "exp \<Rightarrow> alc_error + exp" where
  "base64encodecmd v =
     (case blob_or_string_bytes v of
        None \<Rightarrow> Inl ERROR_ILLEGAL_VALUE
      | Some src \<Rightarrow>
          if length src > SIZE_MAX div 2 then Inl ERROR_ILLEGAL_VALUE
          else Inr (STRING (b64_groups src)))"

fun strchr :: "bytes \<Rightarrow> byte \<Rightarrow> nat option" where
  "strchr [] c = None"
| "strchr (t # ts) c = (if t = c then Some 0 else map_option Suc (strchr ts c))"

text \<open>The decoder's loop: accumulated bits, how many characters they hold, output.\<close>

fun b64_loop :: "bytes \<Rightarrow> u32 \<Rightarrow> nat \<Rightarrow> bytes \<Rightarrow> (u32 \<times> nat \<times> bytes) option" where
  "b64_loop [] w nb out = Some (w, nb, out)"
| "b64_loop (c # src) w nb out =
     (case strchr b64_tab c of
        None \<Rightarrow> None
      | Some p \<Rightarrow>
          if c = 0 then None
          else (let w' = push_bit 6 w OR of_nat p in
                if nb + 1 = 4 then
                  b64_loop src 0 0 (out @ [ucast (drop_bit 16 w'), ucast (drop_bit 8 w'), ucast w'])
                else b64_loop src w' (nb + 1) out))"

definition b64_tail :: "u32 \<Rightarrow> nat \<Rightarrow> bytes" where
  "b64_tail w nb =
     (if nb = 3 then [ucast (drop_bit 10 w), ucast (drop_bit 2 w)]
      else if nb = 2 then [ucast (drop_bit 4 w)]
      else [])"

text \<open>The text without its trailing padding, and the size of the output buffer.\<close>

definition b64_strip :: "bytes \<Rightarrow> bytes" where
  "b64_strip s = rev (dropWhile (\<lambda>c. c = 0x3D) (rev s))"

definition b64_outn :: "nat \<Rightarrow> nat" where
  "b64_outn n = n div 4 * 3 + (if n mod 4 = 3 then 2 else if n mod 4 = 2 then 1 else 0)"

definition base64decode :: "bytes \<Rightarrow> bytes option" where
  "base64decode src =
     (let t = b64_strip src; n = length t in
      if length src mod 4 \<noteq> 0 \<and> length src \<noteq> 0 \<or> length src - n > 2 then None
      else if n mod 4 = 1 then None
      else (case b64_loop t 0 0 [] of
              None \<Rightarrow> None
            | Some (w, nb, out) \<Rightarrow> Some (out @ b64_tail w nb)))"

definition base64decodecmd :: "exp \<Rightarrow> alc_error + exp" where
  "base64decodecmd s =
     (case s of
        STRING t \<Rightarrow>
          (case base64decode (c_str t) of None \<Rightarrow> Inl ERROR_ILLEGAL_VALUE | Some bs \<Rightarrow> Inr (BLOB bs))
      | _ \<Rightarrow> Inl ERROR_ILLEGAL_VALUE)"

section \<open>Hex\<close>

definition hx :: bytes where "hx = bytes_of ''0123456789abcdef''"

fun hex_digits :: "bytes \<Rightarrow> bytes" where
  "hex_digits [] = []"
| "hex_digits (b # src) = hx ! unat (drop_bit 4 b) # hx ! unat (b AND 15) # hex_digits src"

definition hexencodecmd :: "exp \<Rightarrow> alc_error + exp" where
  "hexencodecmd v =
     (case blob_or_string_bytes v of
        None \<Rightarrow> Inl ERROR_ILLEGAL_VALUE
      | Some src \<Rightarrow>
          if length src > (SIZE_MAX - 1) div 2 then Inl ERROR_ILLEGAL_VALUE
          else Inr (STRING (hex_digits src)))"

text \<open>The table \<open>chr2hex\<close>: the value of a hex digit of either case, else -1.\<close>

definition chr2hex :: "byte \<Rightarrow> int" where
  "chr2hex c =
     (if 0x30 \<le> c \<and> c \<le> 0x39 then uint c - 0x30
      else if 0x41 \<le> c \<and> c \<le> 0x46 then uint c - 0x41 + 10
      else if 0x61 \<le> c \<and> c \<le> 0x66 then uint c - 0x61 + 10
      else -1)"

fun hex_loop :: "bytes \<Rightarrow> nat \<Rightarrow> bytes \<Rightarrow> bytes option" where
  "hex_loop [] i out = Some out"
| "hex_loop (c # src) i out =
     (let d = chr2hex c in
      if d < 0 then None
      else if i mod 2 = 1 then hex_loop src (i + 1) (out[i div 2 := out ! (i div 2) OR word_of_int d])
      else hex_loop src (i + 1) (out[i div 2 := push_bit 4 (word_of_int d)]))"

definition hexdecode :: "bytes \<Rightarrow> bytes option" where
  "hexdecode src =
     (if length src mod 2 \<noteq> 0 then None
      else map_option (take (length src div 2)) (hex_loop src 0 (replicate (length src div 2 + 1) 0)))"

definition hexdecodecmd :: "exp \<Rightarrow> alc_error + exp" where
  "hexdecodecmd s =
     (case s of
        STRING t \<Rightarrow>
          (case hexdecode (c_str t) of None \<Rightarrow> Inl ERROR_ILLEGAL_VALUE | Some bs \<Rightarrow> Inr (BLOB bs))
      | _ \<Rightarrow> Inl ERROR_ILLEGAL_VALUE)"

section \<open>Base64 round trip\<close>

lemma and_63: "w AND 63 = take_bit 6 w" for w :: u32
  by (simp add: take_bit_eq_mask mask_eq_exp_minus_1)

lemma unat_of_char: "unat (of_char c :: byte) = of_char c"
proof -
  have "of_char c = (of_nat (of_char c :: nat) :: byte)" by (cases c) simp
  moreover have "(of_char c :: nat) < 256" using nat_of_char_less_256 [of c] by simp
  ultimately show ?thesis by (simp only: unsigned_of_nat) (simp add: take_bit_nat_eq_self)
qed

lemma bytes_of_distinct: "distinct s \<Longrightarrow> distinct (bytes_of s)"
proof -
  have "inj (of_char :: char \<Rightarrow> byte)"
    by (rule injI) (metis unat_of_char of_char_eq_iff)
  then show "distinct s \<Longrightarrow> distinct (bytes_of s)"
    by (auto simp: bytes_of_def distinct_map intro: inj_on_subset)
qed

lemma strchr_nth: "distinct xs \<Longrightarrow> k < length xs \<Longrightarrow> strchr xs (xs ! k) = Some k"
  by (induction xs arbitrary: k) (auto simp: nth_Cons' split: nat.split)

lemma b64_tab_facts: "distinct b64_tab" "length b64_tab = 64" "0 \<notin> set b64_tab" "0x3D \<notin> set b64_tab"
proof -
  show "distinct b64_tab" unfolding b64_tab_def by (rule bytes_of_distinct) simp
  show "length b64_tab = 64" by (simp add: b64_tab_def)
  show "0 \<notin> set b64_tab" "0x3D \<notin> set b64_tab" by (simp_all add: b64_tab_def)
qed

lemma b64_tab_index:
  assumes "k < 64"
  shows "strchr b64_tab (b64_tab ! k) = Some k" "b64_tab ! k \<noteq> 0" "b64_tab ! k \<noteq> 0x3D"
  using b64_tab_facts assms by (auto simp: strchr_nth) (metis nth_mem)+

lemma and_63_less: "unat (w AND 63) < 64" for w :: u32
proof -
  have "unat (w AND 63) = take_bit 6 (unat w)" by (simp add: and_63 unsigned_take_bit_eq)
  then show ?thesis using take_bit_nat_less_exp [of 6 "unat w"] by simp
qed

lemma b64_char_simps:
  "strchr b64_tab (b64_char w) = Some (unat (w AND 63))" "b64_char w \<noteq> 0" "b64_char w \<noteq> 0x3D"
  "b64_char w \<noteq> 61" "0 \<noteq> b64_char w" "61 \<noteq> b64_char w"
  using b64_tab_index [OF and_63_less [of w]] by (auto simp: b64_char_def)

lemma b64_loop_char:
  "b64_loop (b64_char x # src) w nb out =
     (let w' = push_bit 6 w OR (x AND 63) in
      if nb = 3 then b64_loop src 0 0 (out @ [ucast (drop_bit 16 w'), ucast (drop_bit 8 w'), ucast w'])
      else b64_loop src w' (Suc nb) out)"
  by (simp add: b64_char_simps Let_def)

text \<open>Joining the six-bit pieces of a group gives back its bits.\<close>

lemma b64_join:
  "push_bit 6 (take_bit m (drop_bit (6 + k) w)) OR take_bit 6 (drop_bit k w) = take_bit (m + 6) (drop_bit k w)"
  for w :: u32
proof (rule bit_word_eqI)
  fix n assume n: "n < LENGTH(32)"
  show "bit (push_bit 6 (take_bit m (drop_bit (6 + k) w)) OR take_bit 6 (drop_bit k w)) n
      = bit (take_bit (m + 6) (drop_bit k w)) n"
  proof (cases "n < 6")
    case True
    with n show ?thesis by (simp add: bit_or_iff bit_push_bit_iff bit_take_bit_iff bit_drop_bit_eq)
  next
    case False
    then obtain j where "n = 6 + j" by (auto simp: not_less le_iff_add)
    with n show ?thesis
      by (simp add: bit_or_iff bit_push_bit_iff bit_take_bit_iff bit_drop_bit_eq ac_simps)
  qed
qed

lemmas b64_joins = b64_join [where m = 6 and k = 12, simplified] b64_join [where m = 12 and k = 6, simplified]
  b64_join [where m = 18 and k = 0, simplified]

text \<open>The bytes of a group.\<close>

lemma bit_byte_ge: "\<not> bit (b :: byte) (8 + n)" "\<not> bit (b :: byte) (n + 8)"
  by (auto dest: bit_imp_le_length)

lemma group_bytes:
  fixes a b c :: byte
  defines "w \<equiv> push_bit 16 (ucast a) OR push_bit 8 (ucast b) OR ucast c :: u32"
  shows "(ucast (drop_bit 16 (take_bit 24 w)) :: byte) = a"
    "(ucast (drop_bit 8 (take_bit 24 w)) :: byte) = b"
    "(ucast (take_bit 24 w) :: byte) = c"
  unfolding w_def
  by (rule bit_word_eqI, auto simp: bit_simps bit_byte_ge dest: bit_imp_le_length)+

lemma group_bytes2:
  fixes a b :: byte
  defines "w \<equiv> push_bit 16 (ucast a) OR push_bit 8 (ucast b) :: u32"
  shows "(ucast (drop_bit 10 (take_bit 18 (drop_bit 6 w))) :: byte) = a"
    "(ucast (drop_bit 2 (take_bit 18 (drop_bit 6 w))) :: byte) = b"
  unfolding w_def
  by (rule bit_word_eqI, auto simp: bit_simps bit_byte_ge dest: bit_imp_le_length)+

lemma group_bytes1:
  fixes a :: byte
  shows "(ucast (drop_bit 4 (take_bit 12 (drop_bit 12 (push_bit 16 (ucast a) :: u32)))) :: byte) = a"
  by (rule bit_word_eqI, auto simp: bit_simps bit_byte_ge dest: bit_imp_le_length)

lemma b64_loop_mid:
  "nb \<noteq> 3 \<Longrightarrow> b64_loop (b64_char x # src) w nb out = b64_loop src (push_bit 6 w OR take_bit 6 x) (Suc nb) out"
  by (simp only: b64_loop_char Let_def and_63 if_False)

lemma b64_loop_chars:
  "b64_loop (b64_char (drop_bit 18 w) # src) 0 0 out = b64_loop src (take_bit 6 (drop_bit 18 w)) (Suc 0) out"
  "b64_loop (b64_char (drop_bit 12 w) # src) (take_bit 6 (drop_bit 18 w)) (Suc 0) out
    = b64_loop src (take_bit 12 (drop_bit 12 w)) 2 out"
  "b64_loop (b64_char (drop_bit 6 w) # src) (take_bit 12 (drop_bit 12 w)) 2 out
    = b64_loop src (take_bit 18 (drop_bit 6 w)) 3 out"
  "b64_loop (b64_char w # src) (take_bit 18 (drop_bit 6 w)) 3 out
    = b64_loop src 0 0 (out @ [ucast (drop_bit 16 (take_bit 24 w)), ucast (drop_bit 8 (take_bit 24 w)),
        ucast (take_bit 24 w)])"
proof -
  show "b64_loop (b64_char (drop_bit 18 w) # src) 0 0 out = b64_loop src (take_bit 6 (drop_bit 18 w)) (Suc 0) out"
    using b64_loop_mid [of 0 "drop_bit 18 w" src 0 out] by simp
  show "b64_loop (b64_char (drop_bit 12 w) # src) (take_bit 6 (drop_bit 18 w)) (Suc 0) out
    = b64_loop src (take_bit 12 (drop_bit 12 w)) 2 out"
    using b64_loop_mid [of "Suc 0" "drop_bit 12 w" src "take_bit 6 (drop_bit 18 w)" out]
    unfolding b64_joins numeral_2_eq_2 by simp
  show "b64_loop (b64_char (drop_bit 6 w) # src) (take_bit 12 (drop_bit 12 w)) 2 out
    = b64_loop src (take_bit 18 (drop_bit 6 w)) 3 out"
    using b64_loop_mid [of 2 "drop_bit 6 w" src "take_bit 12 (drop_bit 12 w)" out]
    unfolding b64_joins by (simp del: b64_loop.simps)
  show "b64_loop (b64_char w # src) (take_bit 18 (drop_bit 6 w)) 3 out
    = b64_loop src 0 0 (out @ [ucast (drop_bit 16 (take_bit 24 w)), ucast (drop_bit 8 (take_bit 24 w)),
        ucast (take_bit 24 w)])"
    unfolding b64_loop_char and_63 b64_joins Let_def by (simp only: if_True refl)
qed

lemma b64_loop_group:
  "b64_loop (b64_groups [a, b, c] @ src) 0 0 out = b64_loop src 0 0 (out @ [a, b, c])"
proof -
  define w :: u32 where "w = push_bit 16 (ucast a) OR push_bit 8 (ucast b) OR ucast c"
  have "b64_groups [a, b, c] = [b64_char (drop_bit 18 w), b64_char (drop_bit 12 w), b64_char (drop_bit 6 w), b64_char w]"
    by (simp add: w_def Let_def)
  then show ?thesis
    by (simp only: append_Cons append_Nil b64_loop_chars group_bytes [of a b c, folded w_def])
qed

lemma b64_tail_groups:
  "b64_tail (take_bit 18 (drop_bit 6 (push_bit 16 (ucast a) OR push_bit 8 (ucast b)))) 3 = [a, b]"
  "b64_tail (take_bit 12 (drop_bit 12 (push_bit 16 (ucast a)))) 2 = [a]"
  by (simp_all only: b64_tail_def group_bytes2 group_bytes1) simp_all

lemma b64_groups_split:
  "\<exists>body p w nb out'. b64_groups bs = body @ replicate p 0x3D \<and> 0x3D \<notin> set body \<and> p \<le> 2
     \<and> length (b64_groups bs) mod 4 = 0 \<and> length body mod 4 \<noteq> 1
     \<and> 0 \<notin> set (b64_groups bs)
     \<and> b64_loop body 0 0 out = Some (w, nb, out') \<and> out' @ b64_tail w nb = out @ bs"
proof (induction bs arbitrary: out rule: b64_groups.induct)
  case 1
  show ?case by (rule exI [of _ "[]"], rule exI [of _ 0]) (simp add: b64_tail_def)
next
  case (2 a)
  define w :: u32 where "w = push_bit 16 (ucast a)"
  have g: "b64_groups [a] = [b64_char (drop_bit 18 w), b64_char (drop_bit 12 w)] @ replicate (Suc (Suc 0)) 0x3D"
    by (simp add: w_def Let_def)
  have "b64_loop [b64_char (drop_bit 18 w), b64_char (drop_bit 12 w)] 0 0 out = Some (take_bit 12 (drop_bit 12 w), 2, out)"
    by (simp only: b64_loop_chars b64_loop.simps(1))
  with g b64_tail_groups(2) [of a, folded w_def] show ?case
    by (intro exI [of _ "[b64_char (drop_bit 18 w), b64_char (drop_bit 12 w)]"] exI [of _ "Suc (Suc 0)"]
        exI [of _ "take_bit 12 (drop_bit 12 w)"] exI [of _ 2] exI [of _ out])
      (simp add: b64_char_simps del: b64_groups.simps b64_loop.simps)
next
  case (3 a b)
  define w :: u32 where "w = push_bit 16 (ucast a) OR push_bit 8 (ucast b)"
  have g: "b64_groups [a, b] = [b64_char (drop_bit 18 w), b64_char (drop_bit 12 w), b64_char (drop_bit 6 w)] @ replicate 1 0x3D"
    by (simp add: w_def Let_def)
  have "b64_loop [b64_char (drop_bit 18 w), b64_char (drop_bit 12 w), b64_char (drop_bit 6 w)] 0 0 out
      = Some (take_bit 18 (drop_bit 6 w), 3, out)"
    by (simp only: b64_loop_chars b64_loop.simps(1))
  with g b64_tail_groups(1) [of a b, folded w_def] show ?case
    by (intro exI [of _ "[b64_char (drop_bit 18 w), b64_char (drop_bit 12 w), b64_char (drop_bit 6 w)]"] exI [of _ 1]
        exI [of _ "take_bit 18 (drop_bit 6 w)"] exI [of _ 3] exI [of _ out])
      (simp add: b64_char_simps del: b64_groups.simps b64_loop.simps)
next
  case (4 a b c src)
  from 4 [OF refl, of "out @ [a, b, c]"] obtain body p w nb out' where ih:
    "b64_groups src = body @ replicate p 0x3D" "0x3D \<notin> set body" "p \<le> 2"
    "length (b64_groups src) mod 4 = 0" "length body mod 4 \<noteq> 1" "0 \<notin> set (b64_groups src)"
    "b64_loop body 0 0 (out @ [a, b, c]) = Some (w, nb, out')" "out' @ b64_tail w nb = (out @ [a, b, c]) @ src"
    by (elim exE conjE) (rule that)
  define g where "g = b64_groups [a, b, c]"
  have g: "b64_groups (a # b # c # src) = g @ b64_groups src" by (simp add: g_def Let_def)
  have g': "length g = 4" "0x3D \<notin> set g" "0 \<notin> set g"
    by (simp_all add: g_def Let_def b64_char_simps)
  show ?case
    using ih b64_loop_group [of a b c body out, folded g_def] g'
    by - (rule exI [of _ "g @ body"], rule exI [of _ p], rule exI [of _ w], rule exI [of _ nb],
        rule exI [of _ out'], simp add: g del: b64_groups.simps)
qed


lemma b64_strip_pad:
  assumes "0x3D \<notin> set body"
  shows "b64_strip (body @ replicate p 0x3D) = body"
proof -
  have "dropWhile (\<lambda>c. c = 0x3D) (replicate p 0x3D @ rev body) = dropWhile (\<lambda>c. c = 0x3D) (rev body)"
    by (rule dropWhile_append2) simp
  also have "\<dots> = rev body"
    using assms by (cases body rule: rev_cases) auto
  finally show ?thesis by (simp add: b64_strip_def)
qed

lemma base64_groups_decode: "base64decode (b64_groups bs) = Some bs"
proof -
  obtain body p w nb out' where s:
    "b64_groups bs = body @ replicate p 0x3D" "0x3D \<notin> set body" "p \<le> 2"
    "length (b64_groups bs) mod 4 = 0" "length body mod 4 \<noteq> 1"
    "b64_loop body 0 0 [] = Some (w, nb, out')" "out' @ b64_tail w nb = [] @ bs"
    using b64_groups_split [of bs "[]"] by (elim exE conjE) (rule that)
  have t: "b64_strip (b64_groups bs) = body" unfolding s(1) by (rule b64_strip_pad [OF s(2)])
  have "length (b64_groups bs) - length body \<le> 2" using s(1,3) by simp
  then show ?thesis using s(4-7) t by (simp add: base64decode_def Let_def)
qed

lemma b64_groups_no_nul: "0 \<notin> set (b64_groups bs)"
  using b64_groups_split [of bs "[]"] by (elim exE conjE)

lemma c_str_no_nul: "0 \<notin> set s \<Longrightarrow> c_str s = s"
  by (auto simp: c_str_def takeWhile_eq_all_conv)

lemma b64_groups_length: "length (b64_groups bs) = (length bs + 2) div 3 * 4"
proof (induction bs rule: b64_groups.induct)
  case (4 a b c src)
  have "(length (a # b # c # src) + 2) div 3 = Suc ((length src + 2) div 3)" by simp
  then show ?case using 4 by (simp add: Let_def)
qed (simp_all add: Let_def)

text \<open>The loop stops exactly at a character outside the alphabet.\<close>

lemma strchr_None: "(strchr xs c = None) = (c \<notin> set xs)"
  by (induction xs) auto

lemma strchr_zero: "strchr b64_tab 0 = None"
  using b64_tab_facts(3) by (simp add: strchr_None)

lemma b64_loop_result:
  "nb < 4 \<Longrightarrow>
   (case b64_loop src w nb out of
      None \<Rightarrow> \<not> set src \<subseteq> set b64_tab
    | Some (w', nb', out') \<Rightarrow> set src \<subseteq> set b64_tab \<and> nb' = (nb + length src) mod 4
        \<and> length out' = length out + (nb + length src) div 4 * 3)"
proof (induction src arbitrary: w nb out)
  case (Cons c src)
  show ?case
  proof (cases "strchr b64_tab c")
    case None
    then have "c \<notin> set b64_tab" by (simp add: strchr_None)
    moreover have "b64_loop (c # src) w nb out = None" by (simp add: None)
    ultimately show ?thesis by simp
  next
    case (Some p)
    then have c: "c \<in> set b64_tab" "c \<noteq> 0" using strchr_None [of b64_tab c] strchr_zero by auto
    show ?thesis
    proof (cases "nb = 3")
      case True
      then show ?thesis
        using Some c Cons.IH [where nb = 0 and w = 0 and out = "out @ [ucast (drop_bit 16 (push_bit 6 w OR of_nat p)),
            ucast (drop_bit 8 (push_bit 6 w OR of_nat p)), ucast (push_bit 6 w OR of_nat p)]"]
          div_add_self1 [of "4 :: nat" "length src"]
        by (auto simp: Let_def split: option.splits prod.splits)
    next
      case False
      then show ?thesis
        using Some c Cons.prems Cons.IH [where nb = "Suc nb" and w = "push_bit 6 w OR of_nat p" and out = out]
        by (auto simp: Let_def split: option.splits prod.splits)
    qed
  qed
qed simp

lemma base64decode_result:
  "base64decode src =
     (if (length src mod 4 = 0 \<and> length src - length (b64_strip src) \<le> 2
          \<and> length (b64_strip src) mod 4 \<noteq> 1 \<and> set (b64_strip src) \<subseteq> set b64_tab)
      then base64decode src else None)
   \<and> (length src mod 4 = 0 \<and> length src - length (b64_strip src) \<le> 2
          \<and> length (b64_strip src) mod 4 \<noteq> 1 \<and> set (b64_strip src) \<subseteq> set b64_tab \<longrightarrow>
      (\<exists>bs. base64decode src = Some bs \<and> length bs = b64_outn (length (b64_strip src))))"
proof -
  define t where "t = b64_strip src"
  have r: "case b64_loop t 0 0 [] of
      None \<Rightarrow> \<not> set t \<subseteq> set b64_tab
    | Some (w', nb', out') \<Rightarrow> set t \<subseteq> set b64_tab \<and> nb' = length t mod 4 \<and> length out' = length t div 4 * 3"
    using b64_loop_result [where nb = 0 and src = t and w = 0 and out = "[]"]
    by (auto split: option.splits)
  show ?thesis
    unfolding t_def [symmetric] base64decode_def Let_def
    using r by (auto simp: b64_tail_def b64_outn_def split: option.splits prod.splits)
qed

section \<open>Hex\<close>

lemma hx_table: "list_all (\<lambda>k. chr2hex (hx ! k) = int k) [0..<16]"
  by code_simp

lemma chr2hex_hx: "k < 16 \<Longrightarrow> chr2hex (hx ! k) = int k"
  using hx_table by (simp add: list_all_iff)

text \<open>The bytes that pairs of digits denote.\<close>

fun hex_pairs :: "bytes \<Rightarrow> bytes option" where
  "hex_pairs [] = Some []"
| "hex_pairs [a] = None"
| "hex_pairs (a # b # src) =
     (if chr2hex a < 0 \<or> chr2hex b < 0 then None
      else map_option (\<lambda>bs. (push_bit 4 (word_of_int (chr2hex a)) OR word_of_int (chr2hex b)) # bs) (hex_pairs src))"

lemma hex_loop_pairs:
  assumes "length src = 2 * m" "j + m \<le> length out"
  shows "hex_loop src (2 * j) out
    = map_option (\<lambda>bs. take j out @ bs @ drop (j + m) out) (hex_pairs src)"
  using assms
proof (induction src arbitrary: j m out rule: hex_pairs.induct)
  case (3 a b src)
  then obtain m' where m: "m = Suc m'" by (cases m) auto
  show ?case
  proof (cases "chr2hex a < 0 \<or> chr2hex b < 0")
    case True
    then show ?thesis by (auto simp: Let_def)
  next
    case False
    define w :: byte where "w = push_bit 4 (word_of_int (chr2hex a)) OR word_of_int (chr2hex b)"
    have j: "j < length out" using 3(3) m by simp
    have "hex_loop (a # b # src) (2 * j) out = hex_loop src (2 * Suc j) (out[j := w])"
      using False j by (simp add: Let_def w_def)
    also have "\<dots> = map_option (\<lambda>bs. take (Suc j) (out[j := w]) @ bs @ drop (Suc j + m') (out[j := w])) (hex_pairs src)"
      using 3 False m by (intro "3.IH") auto
    also have "take (Suc j) (out[j := w]) = take j out @ [w]"
      using j by (simp add: take_Suc_conv_app_nth)
    finally show ?thesis using False m j by (simp add: w_def [symmetric] option.map_comp comp_def)
  qed
qed simp_all

lemma hexdecode_pairs: "hexdecode src = hex_pairs src"
proof (cases "length src mod 2 = 0")
  case True
  then obtain m where m: "length src = 2 * m" by auto
  have "hex_loop src 0 (replicate (Suc m) 0) = map_option (\<lambda>bs. bs @ drop m (replicate (Suc m) 0)) (hex_pairs src)"
    using hex_loop_pairs [of src m 0 "replicate (Suc m) 0"] m by simp
  moreover have "length bs = m" if "hex_pairs src = Some bs" for bs
  proof -
    have "length src = 2 * length bs"
      using that by (induction src arbitrary: bs rule: hex_pairs.induct) (auto split: if_splits)
    with m show ?thesis by simp
  qed
  ultimately show ?thesis using m
    by (cases "hex_pairs src") (auto simp: hexdecode_def)
next
  case False
  have "hex_pairs src = None" using False
    by (induction src rule: hex_pairs.induct) auto
  then show ?thesis using False by (simp add: hexdecode_def)
qed


lemma and_15: "b AND 15 = take_bit 4 b" for b :: byte
  by (simp add: take_bit_eq_mask mask_eq_exp_minus_1)

lemma nibbles: "unat (drop_bit 4 b) < 16" "unat (b AND 15) < 16" for b :: byte
proof -
  have "unat (b AND 15) = take_bit 4 (unat b)" by (simp add: and_15 unsigned_take_bit_eq)
  then show "unat (b AND 15) < 16" using take_bit_nat_less_exp [of 4 "unat b"] by simp
  have "unat b < 256" using unsigned_less [of b] by simp
  then show "unat (drop_bit 4 b) < 16"
    by (simp only: unsigned_drop_bit_eq) (simp add: drop_bit_eq_div take_bit_nat_eq_self less_mult_imp_div_less)
qed

lemma nibble_join: "push_bit 4 (drop_bit 4 b) OR take_bit 4 b = b" for b :: byte
  by (rule bit_word_eqI) (auto simp: bit_simps)

lemma hex_digits_pairs: "hex_pairs (hex_digits bs) = Some bs"
proof (induction bs)
  case (Cons b bs)
  have "push_bit 4 (word_of_int (chr2hex (hx ! unat (drop_bit 4 b)))) OR word_of_int (chr2hex (hx ! unat (b AND 15))) = b"
    using nibbles [of b] nibble_join [of b] by (simp add: chr2hex_hx and_15)
  then show ?case using Cons nibbles [of b] by (simp add: chr2hex_hx)
qed simp

lemma hex_digits_no_nul: "0 \<notin> set (hex_digits bs)"
proof (induction bs)
  case (Cons b bs)
  have "0 \<noteq> hx ! k" if "k < 16" for k
    using chr2hex_hx [OF that] by (auto simp: chr2hex_def)
  then show ?case using Cons nibbles [of b] by simp
qed simp

lemma hex_digits_length: "length (hex_digits bs) = 2 * length bs"
  by (induction bs) simp_all

lemma hx_bytes: "hx = [48, 49, 50, 51, 52, 53, 54, 55, 56, 57, 97, 98, 99, 100, 101, 102]"
  by (simp add: hx_def)

lemma hex_lower_table:
  assumes "n \<in> set ([48..<58] @ [65..<71] @ [97..<103])"
  shows "chr2hex (of_nat n) < 16 \<and> hx ! nat (chr2hex (of_nat n)) = tolower (of_nat n)"
proof -
  have "n = 48 \<or> n = 49 \<or> n = 50 \<or> n = 51 \<or> n = 52 \<or> n = 53 \<or> n = 54 \<or> n = 55 \<or> n = 56 \<or> n = 57
    \<or> n = 65 \<or> n = 66 \<or> n = 67 \<or> n = 68 \<or> n = 69 \<or> n = 70
    \<or> n = 97 \<or> n = 98 \<or> n = 99 \<or> n = 100 \<or> n = 101 \<or> n = 102"
    using assms by simp
  then show ?thesis
    by (elim disjE; hypsubst) (simp_all add: chr2hex_def hx_bytes tolower_def)
qed

lemma hex_lower:
  assumes "chr2hex c \<ge> 0"
  shows "chr2hex c < 16 \<and> hx ! nat (chr2hex c) = tolower c"
proof -
  have "unat c \<in> set ([48..<58] @ [65..<71] @ [97..<103])"
    unfolding set_append set_upt
    using assms by (auto simp: chr2hex_def word_le_nat_alt split: if_splits)
  then have "chr2hex (of_nat (unat c)) < 16 \<and> hx ! nat (chr2hex (of_nat (unat c))) = tolower (of_nat (unat c))"
    by (rule hex_lower_table)
  then show ?thesis by simp
qed

lemma nibble_split_word:
  "drop_bit 4 (push_bit 4 (take_bit 4 x) OR take_bit 4 y) = take_bit 4 x"
  "take_bit 4 (push_bit 4 (take_bit 4 x) OR take_bit 4 y) = take_bit 4 y" for x y :: byte
  by (rule bit_word_eqI, auto simp: bit_simps)+

lemma nibble_word:
  assumes "0 \<le> x" "x < (16 :: int)"
  shows "take_bit 4 (word_of_int x :: byte) = word_of_int x" "unat (word_of_int x :: byte) = nat x"
proof -
  define m where "m = nat x"
  have m: "m < 16" "x = int m" using assms by (simp_all add: m_def)
  have u: "unat (of_nat m :: byte) = m" using m(1) by (simp only: unsigned_of_nat) (simp add: take_bit_nat_eq_self)
  then show "unat (word_of_int x :: byte) = nat x" by (simp add: m(2))
  have "unat (take_bit 4 (of_nat m :: byte)) = unat (of_nat m :: byte)"
    unfolding unsigned_take_bit_eq u using m(1) by (simp add: take_bit_nat_eq_self)
  then have "take_bit 4 (of_nat m :: byte) = of_nat m" by (simp only: word_unat_eq_iff)
  then show "take_bit 4 (word_of_int x :: byte) = word_of_int x" by (simp add: m(2))
qed

lemma nibble_split:
  assumes "0 \<le> x" "x < 16" "0 \<le> y" "y < (16 :: int)"
  shows "unat (drop_bit 4 (push_bit 4 (word_of_int x) OR word_of_int y :: byte)) = nat x"
    "unat ((push_bit 4 (word_of_int x) OR word_of_int y :: byte) AND 15) = nat y"
  using nibble_split_word [of "word_of_int x" "word_of_int y"]
  unfolding nibble_word(1) [OF assms(1,2)] nibble_word(1) [OF assms(3,4)] and_15
  by (simp_all only: nibble_word(2) [OF assms(1,2)] nibble_word(2) [OF assms(3,4)])

lemma hex_pairs_digits: "hex_pairs src = Some bs \<Longrightarrow> hex_digits bs = map tolower src"
proof (induction src arbitrary: bs rule: hex_pairs.induct)
  case (3 a b src)
  then obtain bs' where bs: "0 \<le> chr2hex a" "0 \<le> chr2hex b" "hex_pairs src = Some bs'"
    "bs = (push_bit 4 (word_of_int (chr2hex a)) OR word_of_int (chr2hex b)) # bs'"
    by (auto split: if_splits)
  then have "hex_digits bs' = map tolower src" using 3 by auto
  then show ?case using bs hex_lower [OF bs(1)] hex_lower [OF bs(2)] nibble_split by simp
qed simp_all

lemma hex_pairs_None: "(hex_pairs src = None) = (odd (length src) \<or> (\<exists>c \<in> set src. chr2hex c < 0))"
  by (induction src rule: hex_pairs.induct) auto


lemma blob_bytes_blob [simp]: "blob_or_string_bytes (BLOB bs) = Some bs"
  by (simp add: blob_or_string_bytes_def)

section \<open>Properties\<close>

text \<open>
  Base64 round trip: encoding a blob gives a NUL-free padded string of
  \<open>4 * ceil(n / 3)\<close> characters, and decoding that string gives the blob back.
\<close>

theorem base64_roundtrip:
  assumes "length bs < 2 ^ 28"
  shows "\<exists>s. base64encodecmd (BLOB bs) = Inr (STRING s) \<and> length s = (length bs + 2) div 3 * 4
    \<and> c_str s = s \<and> base64decodecmd (STRING s) = Inr (BLOB bs)"
  using assms base64_groups_decode [of bs] c_str_no_nul [OF b64_groups_no_nul [of bs]]
  by (simp add: base64encodecmd_def base64decodecmd_def b64_groups_length SIZE_MAX_def)

theorem base64_roundtrip_witness:
  "\<exists>s. base64encodecmd (BLOB [0xFF, 0x00]) = Inr (STRING s) \<and> length s = 4
    \<and> base64decodecmd (STRING s) = Inr (BLOB [0xFF, 0x00])"
  using base64_roundtrip [of "[0xFF, 0x00]"] by auto

text \<open>
  C36. The base64 decoder succeeds exactly on strings whose length is a multiple of four,
  with at most two padding characters at the end and only alphabet characters before them;
  it then writes exactly the bytes its output buffer was sized for.
\<close>

theorem base64_decode_exact:
  "(let src = c_str s; t = b64_strip src in
    if length src mod 4 = 0 \<and> length src - length t \<le> 2 \<and> length t mod 4 \<noteq> 1 \<and> set t \<subseteq> set b64_tab
    then \<exists>bs. base64decodecmd (STRING s) = Inr (BLOB bs) \<and> length bs = b64_outn (length t)
    else base64decodecmd (STRING s) = Inl ERROR_ILLEGAL_VALUE)"
  using base64decode_result [of "c_str s"]
  by (auto simp: base64decodecmd_def Let_def split: option.splits if_splits)

text \<open>
  Hex codec: encoding then decoding a blob is the identity; decoding fails exactly on
  an odd length or a character that is no hex digit, and a decoded string encodes back to
  its lower-case form.
\<close>

theorem hex_roundtrip:
  assumes "length bs < 2 ^ 30"
  shows "(\<exists>s. hexencodecmd (BLOB bs) = Inr (STRING s) \<and> length s = 2 * length bs
        \<and> hexdecodecmd (STRING s) = Inr (BLOB bs))
    \<and> (hexdecodecmd (STRING t) = Inl ERROR_ILLEGAL_VALUE)
        = (odd (length (c_str t)) \<or> (\<exists>c \<in> set (c_str t). chr2hex c < 0))
    \<and> (hexdecodecmd (STRING t) = Inr (BLOB bs) \<longrightarrow>
        hexencodecmd (BLOB bs) = Inr (STRING (map tolower (c_str t))))"
proof -
  have n: "\<not> length bs > (SIZE_MAX - 1) div 2" using assms by (simp add: SIZE_MAX_def)
  have "hexencodecmd (BLOB bs) = Inr (STRING (hex_digits bs))" using n by (simp add: hexencodecmd_def)
  moreover have "hexdecodecmd (STRING (hex_digits bs)) = Inr (BLOB bs)"
    by (simp add: hexdecodecmd_def c_str_no_nul [OF hex_digits_no_nul] hexdecode_pairs hex_digits_pairs)
  moreover have "hexdecodecmd (STRING t) = (case hex_pairs (c_str t) of None \<Rightarrow> Inl ERROR_ILLEGAL_VALUE | Some bs \<Rightarrow> Inr (BLOB bs))"
    by (simp add: hexdecodecmd_def hexdecode_pairs)
  ultimately show ?thesis
    using hex_pairs_None [of "c_str t"] hex_pairs_digits [of "c_str t" bs]
    by (auto simp: hex_digits_length split: option.splits)
qed

theorem hex_roundtrip_witness:
  "(\<exists>s. hexencodecmd (BLOB [0xAB]) = Inr (STRING s) \<and> length s = 2 \<and> hexdecodecmd (STRING s) = Inr (BLOB [0xAB]))
   \<and> hexdecodecmd (STRING [0x61]) = Inl ERROR_ILLEGAL_VALUE"
  using hex_roundtrip [of "[0xAB]" "[0x61]"] by (auto simp: c_str_def)

text \<open>
  Blobs and strings: \<open>blob->string\<close> succeeds exactly on NUL-free blobs that are the
  UTF-8 encoding of some text, and \<open>string->blob\<close> then gives the blob back.
\<close>

theorem blob_string_exact:
  "(if 0 \<notin> set bs \<and> (\<exists>cps. utf8_scalars cps \<and> bs = utf8_text cps)
    then blob2stringcmd (BLOB bs) = Inr (STRING bs) \<and> string2blobcmd (STRING bs) = Inr (BLOB bs)
    else blob2stringcmd (BLOB bs) = Inl ERROR_ILLEGAL_VALUE)"
proof -
  have "(utf8_valid bs = None) = (\<exists>cps. utf8_scalars cps \<and> bs = utf8_text cps)"
    using utf8_valid_from_sound [OF refl, of 0 bs] utf8_valid_from_text [where pre = "[]"]
    by (auto simp: utf8_valid_def split: option.splits)
  then show ?thesis by (auto simp: blob2stringcmd_def string2blobcmd_def c_str_no_nul)
qed

text \<open>
  Reading a blob of at most \<open>2 ^ 60\<close> bytes: the length is exact, \<open>blob-ref\<close> returns
  the byte at every index in range as a number from 0 to 255, and an error at every other.
\<close>

lemma blob_ref_bounds:
  assumes "length bs < 2 ^ 60"
  shows "bloblencmd (BLOB bs) = Inr (FIX (int (length bs)))
    \<and> (if 0 \<le> i \<and> i < int (length bs)
       then \<exists>v. blobrefcmd (BLOB bs) (FIX i) = Inr (FIX v) \<and> 0 \<le> v \<and> v \<le> 255 \<and> v = uint (bs ! nat i)
       else blobrefcmd (BLOB bs) (FIX i) = Inl ERROR_INDEX_OUT_OF_RANGE)"
proof -
  have u: "0 \<le> uint w \<and> uint w \<le> 255" for w :: byte using unsigned_greater_eq [of w] uint_lt2p [of w] by simp
  have "FIX_FITS (uint w)" for w :: byte
    using u [of w] by (simp add: FIX_FITS_range) (rule order_trans [of _ 0], simp_all)
  moreover have "FIX_FITS (int (length bs))" using assms by (simp add: FIX_FITS_range)
  ultimately show ?thesis
    using u by (auto simp: bloblencmd_def blobrefcmd_def MAKE_FIX_fits nat_le_iff)
qed

end
