(* ===== verification/SetOps.thy ===== *)
theory SetOps imports Codec Numeric begin

text \<open>
  The hash sets of \<open>set.h\<close>: the canonical key text of a member, the stored copy, the
  constructor, in-place insertion and removal, membership, union, intersection, difference
  and listing.  A set is a dictionary whose entries are named by the key of their value.
\<close>

section \<open>Watched containers\<close>

text \<open>
  What the hooks of a container do to one mutation: nothing when it has none; else the
  validator may reject it before the write, and a watcher may fail after it.  Only the outcome of
  the hooks is given: hooks that change the very container they run for are left out here
  (\<open>Watch\<close> has what they may do to the registry).
\<close>

datatype watched = Unwatched | Watched "alc_error option" "alc_error option"

definition watched_write :: "watched \<Rightarrow> 's \<Rightarrow> 's \<Rightarrow> 'r \<Rightarrow> 's \<times> (alc_error + 'r)" where
  "watched_write w before after r =
     (case w of
        Unwatched \<Rightarrow> (after, Inr r)
      | Watched (Some verr) _ \<Rightarrow> (before, Inl verr)
      | Watched None (Some werr) \<Rightarrow> (after, Inl werr)
      | Watched None None \<Rightarrow> (after, Inr r))"

section \<open>Keys of members\<close>

definition set_key_hex :: "bytes \<Rightarrow> bytes" where
  "set_key_hex bs = hex_digits bs"

text \<open>The \<open>printf\<close> format \<open>%016llx\<close>.\<close>

definition fmt_hex16 :: "u64 \<Rightarrow> bytes" where
  "fmt_hex16 w = hex_digits (map (\<lambda>i. ucast (drop_bit (8 * i) w)) [7, 6, 5, 4, 3, 2, 1, 0])"

definition set_is_nil :: "exp \<Rightarrow> bool" where
  "set_is_nil v = (v = NIL_EXP \<or> (ispair v \<and> \<not> istrue v))"

definition set_key_for_value :: "exp \<Rightarrow> bytes option" where
  "set_key_for_value v =
     (if set_is_nil v then Some (bytes_of ''N:'')
      else (case v of
          TRUE_EXP \<Rightarrow> Some (bytes_of ''T:'')
        | FIX n \<Rightarrow> Some (bytes_of ''I:'' @ fmt_int n)
        | CHARACTER c \<Rightarrow> Some (bytes_of ''C:'' @ fmt_nat (unat c))
        | FLOAT f \<Rightarrow> Some (bytes_of ''F:'' @ fmt_hex16 (if f64_is_zero f then 0 else f))
        | RATIONAL r \<Rightarrow> Some (bytes_of ''R:'' @ fmt_int (rat_num r) @ bytes_of ''/'' @ fmt_int (rat_den r))
        | DECIMAL d \<Rightarrow> Some (bytes_of ''D:'' @ dec_to_str d)
        | STRING s \<Rightarrow> Some (bytes_of ''S:'' @ set_key_hex (c_str s))
        | SYMBOL s \<Rightarrow> Some (bytes_of ''Y:'' @ set_key_hex (c_str s))
        | BLOB b \<Rightarrow> Some (bytes_of ''B:'' @ set_key_hex b)
        | _ \<Rightarrow> None))"

definition set_value_clone :: "exp \<Rightarrow> exp option" where
  "set_value_clone v =
     (if set_is_nil v then Some NIL_EXP
      else (case v of
          TRUE_EXP \<Rightarrow> Some TRUE_EXP
        | FIX n \<Rightarrow> Some v
        | CHARACTER c \<Rightarrow> Some v
        | FLOAT f \<Rightarrow> Some (FLOAT f)
        | RATIONAL r \<Rightarrow> make_rational (rat_num r) (rat_den r)
        | DECIMAL d \<Rightarrow> fst (make_decimal_raw (dec_coef d) (dec_scale d))
        | STRING s \<Rightarrow> Some (STRING (c_str s))
        | SYMBOL s \<Rightarrow> Some (SYMBOL (c_str s))
        | BLOB b \<Rightarrow> Some (BLOB b)
        | _ \<Rightarrow> None))"

section \<open>Operations\<close>

definition set_insert_value :: "exp dict \<Rightarrow> exp \<Rightarrow> exp dict \<times> bool" where
  "set_insert_value d v =
     (case set_key_for_value v of
        None \<Rightarrow> (d, False)
      | Some ks \<Rightarrow>
          (case set_value_clone v of
             None \<Rightarrow> (d, False)
           | Some stored \<Rightarrow> (fst (set_get_keyval_dict d ks (Some stored)), True)))"

fun setcmd_from :: "exp dict \<Rightarrow> exp list \<Rightarrow> alc_error + exp dict" where
  "setcmd_from d [] = Inr d"
| "setcmd_from d (v # vs) =
     (case set_insert_value d v of
        (d', True) \<Rightarrow> setcmd_from d' vs
      | (_, False) \<Rightarrow> Inl ERROR_ILLEGAL_VALUE)"

definition setcmd :: "exp list \<Rightarrow> alc_error + exp" where
  "setcmd args = map_sum id SET (setcmd_from create_dict args)"

text \<open>The in-place commands: the set after the call, and its result.\<close>

definition setaddbangcmd :: "watched \<Rightarrow> exp dict \<Rightarrow> exp \<Rightarrow> exp dict \<times> (alc_error + unit)" where
  "setaddbangcmd w d v =
     (case set_key_for_value v of
        None \<Rightarrow> (d, Inl ERROR_ILLEGAL_VALUE)
      | Some ks \<Rightarrow>
          (case set_value_clone v of
             None \<Rightarrow> (d, Inl ERROR_ILLEGAL_VALUE)
           | Some stored \<Rightarrow> watched_write w d (fst (set_get_keyval_dict d ks (Some stored))) ()))"

definition setdelbangcmd :: "watched \<Rightarrow> exp dict \<Rightarrow> exp \<Rightarrow> exp dict \<times> (alc_error + unit)" where
  "setdelbangcmd w d v =
     (case set_key_for_value v of
        None \<Rightarrow> (d, Inr ())
      | Some ks \<Rightarrow> watched_write w d (fst (del_keyval_dict d ks)) ())"

definition set_contains_key :: "exp dict \<Rightarrow> bytes \<Rightarrow> bool" where
  "set_contains_key d key = (snd (set_get_keyval_dict d key None) \<noteq> None)"

definition sethaspcmd :: "exp dict \<Rightarrow> exp \<Rightarrow> bool" where
  "sethaspcmd d v =
     (case set_key_for_value v of None \<Rightarrow> False | Some ks \<Rightarrow> set_contains_key d ks)"

text \<open>One pass over the entries of \<open>src\<close>, inserting the kept ones into \<open>dst\<close>.\<close>

definition set_insert_all :: "(exp keyval \<Rightarrow> bool) \<Rightarrow> exp dict \<Rightarrow> exp dict \<Rightarrow> exp dict" where
  "set_insert_all keep src dst =
     fold (\<lambda>k d. if keep k then fst (set_insert_value d (kv_val k)) else d) (concat (dict_table src)) dst"

definition set_copy_exp :: "exp dict \<Rightarrow> exp dict" where
  "set_copy_exp src = set_insert_all (\<lambda>k. True) src create_dict"

definition setunioncmd :: "exp \<Rightarrow> exp \<Rightarrow> alc_error + exp" where
  "setunioncmd a b =
     (case (a, b) of
        (SET ad, SET bd) \<Rightarrow> Inr (SET (set_insert_all (\<lambda>k. True) bd (set_copy_exp ad)))
      | _ \<Rightarrow> Inl ERROR_ILLEGAL_VALUE)"

definition setintersectioncmd :: "exp \<Rightarrow> exp \<Rightarrow> alc_error + exp" where
  "setintersectioncmd a b =
     (case (a, b) of
        (SET ad, SET bd) \<Rightarrow> Inr (SET (set_insert_all (\<lambda>k. set_contains_key bd (kv_name k)) ad create_dict))
      | _ \<Rightarrow> Inl ERROR_ILLEGAL_VALUE)"

definition setdifferencecmd :: "exp \<Rightarrow> exp \<Rightarrow> alc_error + exp" where
  "setdifferencecmd a b =
     (case (a, b) of
        (SET ad, SET bd) \<Rightarrow> Inr (SET (set_insert_all (\<lambda>k. \<not> set_contains_key bd (kv_name k)) ad create_dict))
      | _ \<Rightarrow> Inl ERROR_ILLEGAL_VALUE)"

text \<open>The elements of the listed set, in table order; a \<open>NULL\<close> copy stays \<open>None\<close>.\<close>

definition setlistcmd :: "exp \<Rightarrow> alc_error + exp option list" where
  "setlistcmd s =
     (case s of
        SET d \<Rightarrow> Inr (map (\<lambda>k. set_value_clone (kv_val k)) (concat (dict_table d)))
      | _ \<Rightarrow> Inl ERROR_ILLEGAL_VALUE)"

section \<open>Keys and equality\<close>

text \<open>The values a set can hold, in normal form.\<close>

definition set_member :: "exp \<Rightarrow> bool" where
  "set_member v =
     (set_is_nil v \<or>
      (case v of
         TRUE_EXP \<Rightarrow> True | FIX n \<Rightarrow> True | CHARACTER c \<Rightarrow> True | FLOAT f \<Rightarrow> True
       | RATIONAL r \<Rightarrow> exact_ok v | DECIMAL d \<Rightarrow> dec_ok d
       | STRING s \<Rightarrow> True | SYMBOL s \<Rightarrow> True | BLOB b \<Rightarrow> True | _ \<Rightarrow> False))"

text \<open>Two members are one when both are nil, or equal (\<open>t\<close> is no symbol here).\<close>

definition set_same :: "exp \<Rightarrow> exp \<Rightarrow> bool" where
  "set_same v w =
     (set_is_nil v \<and> set_is_nil w
      \<or> \<not> set_is_nil v \<and> \<not> set_is_nil w \<and> isequal_val v w \<and> (v = TRUE_EXP \<longleftrightarrow> w = TRUE_EXP))"

lemma set_is_nil_cases: "set_is_nil v \<Longrightarrow> v = NIL_EXP \<or> v = PAIR None None"
  by (cases v) (auto simp: set_is_nil_def)

lemma set_is_nil_simps [simp]:
  "set_is_nil NIL_EXP" "\<not> set_is_nil TRUE_EXP" "\<not> set_is_nil (FIX n)" "\<not> set_is_nil (CHARACTER c)"
  "\<not> set_is_nil (FLOAT f)" "\<not> set_is_nil (RATIONAL r)" "\<not> set_is_nil (DECIMAL d)"
  "\<not> set_is_nil (STRING s)" "\<not> set_is_nil (SYMBOL s)" "\<not> set_is_nil (BLOB b)"
  by (simp_all add: set_is_nil_def)

lemma hex_digits_inj: "hex_digits a = hex_digits b \<Longrightarrow> a = b"
  by (metis hex_digits_pairs option.inject)

lemma word64_eqI:
  fixes v w :: u64
  assumes "map (\<lambda>i. ucast (drop_bit (8 * i) v) :: byte) [7, 6, 5, 4, 3, 2, 1, 0]
    = map (\<lambda>i. ucast (drop_bit (8 * i) w)) [7, 6, 5, 4, 3, 2, 1, 0]"
  shows "v = w"
proof (rule bit_word_eqI)
  fix n assume n: "n < LENGTH(64)"
  have b: "\<forall>i \<in> {0, 1, 2, 3, 4, 5, 6, 7}. (ucast (drop_bit (8 * i) v) :: byte) = ucast (drop_bit (8 * i) w)"
    using assms by simp
  have "n div 8 < 8" using n by (simp add: less_mult_imp_div_less)
  then have "n div 8 \<in> {0, 1, 2, 3, 4, 5, 6, 7}" using less8_cases [of "n div 8"] by auto
  then have "(ucast (drop_bit (8 * (n div 8)) v) :: byte) = ucast (drop_bit (8 * (n div 8)) w)" using b by blast
  then have "bit (ucast (drop_bit (8 * (n div 8)) v) :: byte) (n mod 8) = bit (ucast (drop_bit (8 * (n div 8)) w) :: byte) (n mod 8)"
    by simp
  then show "bit v n = bit w n" by (simp add: bit_ucast_iff bit_drop_bit_eq)
qed

lemma fmt_hex16_inj: "fmt_hex16 v = fmt_hex16 w \<Longrightarrow> v = w"
  unfolding fmt_hex16_def by (drule hex_digits_inj) (rule word64_eqI)

lemma digit_not: "is_digit c \<Longrightarrow> c \<noteq> 0 \<and> c \<noteq> 0x2F"
  by (auto simp: is_digit_def)

lemma fmt_int_chars: "0 \<notin> set (fmt_int n)" "0x2F \<notin> set (fmt_int n)"
  using fmt_nat_digits [of "nat n"] fmt_nat_digits [of "nat (- n)"] digit_not
  by (auto simp: fmt_int_def list_all_iff)

lemma split_slash:
  assumes "xs @ (0x2F :: byte) # ys = xs' @ 0x2F # ys'" "0x2F \<notin> set xs" "0x2F \<notin> set xs'"
  shows "xs = xs' \<and> ys = ys'"
  using assms by (induction xs arbitrary: xs') (auto simp: Cons_eq_append_conv append_eq_Cons_conv)

lemma set_key_Some: "(set_key_for_value v \<noteq> None) =
    (set_is_nil v \<or> (case v of TRUE_EXP \<Rightarrow> True | FIX n \<Rightarrow> True | CHARACTER c \<Rightarrow> True | FLOAT f \<Rightarrow> True
      | RATIONAL r \<Rightarrow> True | DECIMAL d \<Rightarrow> True | STRING s \<Rightarrow> True | SYMBOL s \<Rightarrow> True | BLOB b \<Rightarrow> True
      | _ \<Rightarrow> False))"
  by (cases v) (auto simp: set_key_for_value_def)

lemma set_key_nil: "set_is_nil v \<Longrightarrow> set_key_for_value v = Some (bytes_of ''N:'')"
  by (simp add: set_key_for_value_def)

lemma exact_rat_eq: "(RATIONAL p = RATIONAL q) = (rat_num p = rat_num q \<and> rat_den p = rat_den q)"
  by (cases p; cases q) simp

lemma dec_eq: "(p = q) = (dec_coef p = dec_coef q \<and> dec_scale p = dec_scale q)" for p q :: alc_dec_t
  by (cases p; cases q) simp

lemma rat_key_inj:
  "fmt_int a @ 0x2F # fmt_int b = fmt_int c @ 0x2F # fmt_int d \<Longrightarrow> a = c \<and> b = d"
  using split_slash [of "fmt_int a" "fmt_int b" "fmt_int c" "fmt_int d"] fmt_int_chars fmt_int_inj by blast

lemma set_key_same:
  assumes "set_member v" "set_member w" "\<And>f. v = FLOAT f \<Longrightarrow> \<not> f64_is_nan f" "\<And>f. w = FLOAT f \<Longrightarrow> \<not> f64_is_nan f"
  shows "(set_key_for_value v = set_key_for_value w) = set_same v w"
proof (cases "set_is_nil v \<or> set_is_nil w")
  case True
  have "set_key_for_value u \<noteq> Some (bytes_of ''N:'')" if "set_member u" "\<not> set_is_nil u" for u
    using that by (cases u) (auto simp: set_member_def set_key_for_value_def)
  note n = this
  show ?thesis
  proof (cases "set_is_nil v")
    case True
    then show ?thesis using n [OF assms(2)] by (cases "set_is_nil w") (auto simp: set_same_def set_key_nil)
  next
    case False
    with True show ?thesis using n [OF assms(1) False] by (simp add: set_same_def set_key_nil)
  qed
next
  case False
  have wd: "(unat c = unat d) = (c = d)" for c d :: u32 by (simp add: word_unat_eq_iff)
  have inj: "(fmt_int a = fmt_int b) = (a = b)" "(fmt_nat m = fmt_nat n) = (m = n)"
    "(fmt_hex16 x = fmt_hex16 y) = (x = y)" "(hex_digits p = hex_digits q) = (p = q)"
    "(fmt_int a @ 0x2F # fmt_int b = fmt_int a' @ 0x2F # fmt_int b') = (a = a' \<and> b = b')" for a b a' b' m n x y p q
    using fmt_int_inj fmt_nat_inj fmt_hex16_inj hex_digits_inj rat_key_inj by blast+
  have "dec_to_str a = dec_to_str b \<longleftrightarrow> a = b" if "dec_ok a" "dec_ok b" for a b
    using dec_to_str_inj [OF that] by blast
  then show ?thesis using False assms
    by (cases v; cases w)
      (simp_all add: set_member_def set_same_def set_key_for_value_def isequal_val_def set_key_hex_def inj wd
        f64_eq_norm strcmp_eq_def dec_eq)
qed


section \<open>Sets of members\<close>

lemma make_rational_self: "exact_ok (RATIONAL r) \<Longrightarrow> make_rational (rat_num r) (rat_den r) = Some (RATIONAL r)"
proof -
  assume a: "exact_ok (RATIONAL r)"
  then have "int64 (rat_num r)" "int64 (rat_den r)" "0 < rat_den r" by (simp_all add: exact_ok_def)
  from make_rational_ok [OF this] obtain e where
    "make_rational (rat_num r) (rat_den r) = Some e" "exact_ok e" "exact_val e = of_int (rat_num r) / of_int (rat_den r)"
    by blast
  moreover have "exact_val (RATIONAL r) = of_int (rat_num r) / of_int (rat_den r)"
    by (simp add: exact_val_def exact_parts_def)
  ultimately show ?thesis using exact_val_inj [OF _ a] by metis
qed

lemma make_decimal_self:
  assumes "dec_ok d"
  shows "make_decimal_raw (dec_coef d) (dec_scale d) = (Some (DECIMAL d), 0)"
proof -
  have "dec_trim (dec_coef d) (dec_scale d) = (dec_coef d, dec_scale d)"
    using assms c_mod_0 [of 10 "dec_coef d"] by (cases "dec_scale d") (auto simp: dec_ok_def)
  then show ?thesis
    using assms by (auto simp: make_decimal_raw_def dec_ok_def DEC_MAX_SCALE_def abs_if)
qed

lemma clone_member:
  assumes "set_member v"
  shows "\<exists>w. set_value_clone v = Some w \<and> set_member w \<and> set_key_for_value w = set_key_for_value v"
proof (cases "set_is_nil v")
  case True
  then show ?thesis by (simp add: set_value_clone_def set_key_nil set_member_def)
next
  case False
  with assms show ?thesis
    by (cases v) (simp_all add: set_member_def set_value_clone_def make_rational_self make_decimal_self
        set_key_for_value_def)
qed

lemma hex16_no_nul: "0 \<notin> set (fmt_hex16 w)"
  unfolding fmt_hex16_def by (rule hex_digits_no_nul)

lemma fmt_nat_no_nul: "0 \<notin> set (fmt_nat n)"
  using fmt_nat_digits [of n] digit_not by (auto simp: list_all_iff)

lemma member_key:
  assumes "set_member v"
  shows "\<exists>ks. set_key_for_value v = Some ks \<and> c_str ks = ks"
proof -
  have "\<exists>ks. set_key_for_value v = Some ks \<and> 0 \<notin> set ks"
  proof (cases "set_is_nil v")
    case True
    then show ?thesis by (simp add: set_key_nil)
  next
    case False
    with assms show ?thesis
      using fmt_int_chars(1) hex16_no_nul fmt_nat_no_nul hex_digits_no_nul dec_to_str_no_nul
      by (cases v) (auto simp: set_member_def set_key_for_value_def set_key_hex_def)
  qed
  then show ?thesis using c_str_no_nul by blast
qed

definition set_ok :: "exp dict \<Rightarrow> bool" where
  "set_ok d = (dict_ok d \<and> (\<forall>k \<in> set (dict_entries d).
      set_member (kv_val k) \<and> set_key_for_value (kv_val k) = Some (kv_name k)))"

definition set_keys :: "exp dict \<Rightarrow> bytes set" where
  "set_keys d = kv_name ` set (dict_entries d)"

lemma set_ok_empty: "set_ok create_dict" "set_keys create_dict = {}"
proof -
  have "dict_entries (create_dict :: exp dict) = []" by (simp add: dict_entries_def create_dict_def)
  then show "set_ok create_dict" "set_keys create_dict = {}"
    by (simp_all add: set_ok_def set_keys_def dict_create_ok)
qed

lemma contains_keys:
  assumes "dict_ok d" "c_str key = key"
  shows "set_contains_key d key = (key \<in> set_keys d)"
  using dict_get_entry [OF assms(1), of key] assms(2)
  by (auto simp: set_contains_key_def set_keys_def)

lemma name_c_str: "dict_ok d \<Longrightarrow> n \<in> set_keys d \<Longrightarrow> c_str n = n"
  by (auto simp: set_keys_def dict_entry_name)

lemma set_keys_get:
  "dict_ok d \<Longrightarrow> (n \<in> set_keys d) = (c_str n = n \<and> snd (set_get_keyval_dict d n None) \<noteq> None)"
  using contains_keys [of d n] name_c_str [of d n] by (auto simp: set_contains_key_def)

lemma set_put:
  assumes "set_ok d" "set_member v" "set_key_for_value v = Some ks"
  shows "set_ok (fst (set_get_keyval_dict d ks (Some v)))"
    "set_keys (fst (set_get_keyval_dict d ks (Some v))) = insert ks (set_keys d)"
proof -
  have ok: "dict_ok d" using assms(1) by (simp add: set_ok_def)
  have c: "c_str ks = ks" using member_key [OF assms(2)] assms(3) by auto
  let ?d = "fst (set_get_keyval_dict d ks (Some v))"
  note s = dict_set_ok [OF ok, of ks v]
  show "set_keys ?d = insert ks (set_keys d)"
    by (rule set_eqI) (auto simp: set_keys_get [OF s(1)] set_keys_get [OF ok] s(2) c)
  have "set_member (kv_val k) \<and> set_key_for_value (kv_val k) = Some (kv_name k)"
    if "k \<in> set (dict_entries ?d)" for k
  proof -
    have n: "c_str (kv_name k) = kv_name k" using dict_entry_name [OF s(1) that] .
    then have "snd (set_get_keyval_dict ?d (kv_name k) None) = Some k"
      using dict_get_entry [OF s(1)] that by simp
    then have "kv_name k = ks \<and> kv_val k = v \<or> snd (set_get_keyval_dict d (kv_name k) None) = Some k"
      using n c by (cases k) (auto simp: s(2) split: if_splits)
    then consider "kv_name k = ks" "kv_val k = v" | "snd (set_get_keyval_dict d (kv_name k) None) = Some k"
      by blast
    then show ?thesis
    proof cases
      case 2
      then have "k \<in> set (dict_entries d)" using dict_get_entry [OF ok] by blast
      with assms(1) show ?thesis by (simp add: set_ok_def)
    qed (simp add: assms)
  qed
  with s(1) show "set_ok ?d" by (simp add: set_ok_def)
qed

lemma set_insert_ok:
  assumes "set_ok d" "set_member v" "set_key_for_value v = Some ks"
  shows "snd (set_insert_value d v)" "set_ok (fst (set_insert_value d v))"
    "set_keys (fst (set_insert_value d v)) = insert ks (set_keys d)"
proof -
  obtain w where w: "set_value_clone v = Some w" "set_member w" "set_key_for_value w = Some ks"
    using clone_member [OF assms(2)] assms(3) by auto
  note p = set_put [OF assms(1) w(2,3)]
  show "snd (set_insert_value d v)" "set_ok (fst (set_insert_value d v))"
    "set_keys (fst (set_insert_value d v)) = insert ks (set_keys d)"
    using p by (simp_all add: set_insert_value_def assms(3) w(1))
qed

lemma set_remove:
  assumes "set_ok d" "c_str ks = ks"
  shows "set_ok (fst (del_keyval_dict d ks))" "set_keys (fst (del_keyval_dict d ks)) = set_keys d - {ks}"
proof -
  have ok: "dict_ok d" using assms(1) by (simp add: set_ok_def)
  let ?d = "fst (del_keyval_dict d ks)"
  note s = dict_del_ok(1,2) [OF ok, of ks]
  show "set_keys ?d = set_keys d - {ks}"
    by (rule set_eqI) (auto simp: set_keys_get [OF s(1)] set_keys_get [OF ok] s(2) assms(2))
  have "k \<in> set (dict_entries d)" if "k \<in> set (dict_entries ?d)" for k
  proof -
    have "snd (set_get_keyval_dict ?d (kv_name k) None) = Some k"
      using dict_get_entry [OF s(1)] dict_entry_name [OF s(1) that] that by simp
    then have "snd (set_get_keyval_dict d (kv_name k) None) = Some k" by (simp add: s(2) split: if_splits)
    then show ?thesis using dict_get_entry [OF ok] by blast
  qed
  with s(1) assms(1) show "set_ok ?d" by (auto simp: set_ok_def)
qed

lemma set_insert_all_ok:
  assumes "set_ok src" "set_ok dst"
  shows "set_ok (set_insert_all keep src dst)
    \<and> set_keys (set_insert_all keep src dst) = set_keys dst \<union> kv_name ` {k \<in> set (dict_entries src). keep k}"
proof -
  have "set_ok (fold (\<lambda>k d. if keep k then fst (set_insert_value d (kv_val k)) else d) ks dst)
    \<and> set_keys (fold (\<lambda>k d. if keep k then fst (set_insert_value d (kv_val k)) else d) ks dst)
      = set_keys dst \<union> kv_name ` {k \<in> set ks. keep k}"
    if "\<forall>k \<in> set ks. set_member (kv_val k) \<and> set_key_for_value (kv_val k) = Some (kv_name k)" for ks
    using that assms(2)
  proof (induction ks arbitrary: dst)
    case (Cons k ks)
    show ?case
    proof (cases "keep k")
      case True
      have k: "set_member (kv_val k)" "set_key_for_value (kv_val k) = Some (kv_name k)" using Cons.prems by simp_all
      note p = set_insert_ok [OF Cons.prems(2) k]
      have "{j \<in> set (k # ks). keep j} = insert k {j \<in> set ks. keep j}" using True by auto
      then show ?thesis using Cons.IH [OF _ p(2)] Cons.prems(1) True p(3) by simp
    next
      case False
      then have "{j \<in> set (k # ks). keep j} = {j \<in> set ks. keep j}" by auto
      then show ?thesis using Cons False by simp
    qed
  qed simp
  from this [of "dict_entries src"] assms(1) show ?thesis
    unfolding set_insert_all_def set_ok_def dict_entries_def by blast
qed

section \<open>Properties\<close>

text \<open>
  The key text is exact: two values a set can hold, neither a NaN, get the same key
  exactly when they are the same member (both nil, or equal values; \<open>t\<close> and the
  symbol of that name are two members); a value has a key exactly when its type is
  supported, and a supported value has a stored copy with the same key.
\<close>

theorem set_key_exact:
  assumes "set_member v" "set_member w" "\<And>f. v = FLOAT f \<Longrightarrow> \<not> f64_is_nan f" "\<And>f. w = FLOAT f \<Longrightarrow> \<not> f64_is_nan f"
  shows "(set_key_for_value v = set_key_for_value w) = set_same v w
    \<and> (\<exists>ks. set_key_for_value v = Some ks \<and> c_str ks = ks)
    \<and> (\<exists>c. set_value_clone v = Some c \<and> set_key_for_value c = set_key_for_value v)"
  using set_key_same [OF assms] member_key [OF assms(1)] clone_member [OF assms(1)] by blast

theorem set_key_exact_witness:
  "set_key_for_value (FLOAT 0) = set_key_for_value (FLOAT 0x8000000000000000)
   \<and> set_key_for_value (FIX 2) \<noteq> set_key_for_value (STRING (bytes_of ''2''))"
proof -
  have z: "f64_is_zero 0x8000000000000000" "\<not> f64_is_nan 0x8000000000000000" "\<not> f64_is_nan 0"
    by (simp_all add: f64_is_zero_def f64_is_nan_def f64_expo_def f64_frac_def)
  then show ?thesis
    using set_key_exact [of "FLOAT 0" "FLOAT 0x8000000000000000"] set_key_exact [of "FIX 2" "STRING (bytes_of ''2'')"]
      f64_zero_0 by (auto simp: set_member_def set_same_def isequal_val_def f64_eq_def)
qed

text \<open>
  C37. Set algebra: on well-formed sets, union, intersection and difference give well-formed
  sets of exactly the keys of the corresponding operation; insertion and removal change the
  set by the one member; a validator that rejects either of them leaves the set unchanged and
  gives its error, a watcher that fails after either gives its error and the write stays;
  membership answers from the keys.
\<close>

theorem set_algebra:
  assumes "set_ok a" "set_ok b" "set_member v" "set_key_for_value v = Some ks"
  shows "(\<exists>r. setunioncmd (SET a) (SET b) = Inr (SET r) \<and> set_ok r \<and> set_keys r = set_keys a \<union> set_keys b)
    \<and> (\<exists>r. setintersectioncmd (SET a) (SET b) = Inr (SET r) \<and> set_ok r \<and> set_keys r = set_keys a \<inter> set_keys b)
    \<and> (\<exists>r. setdifferencecmd (SET a) (SET b) = Inr (SET r) \<and> set_ok r \<and> set_keys r = set_keys a - set_keys b)
    \<and> set_ok (fst (setaddbangcmd h a v)) \<and> set_ok (fst (setdelbangcmd h a v))
    \<and> set_keys (fst (setaddbangcmd Unwatched a v)) = insert ks (set_keys a)
    \<and> set_keys (fst (setdelbangcmd Unwatched a v)) = set_keys a - {ks}
    \<and> setaddbangcmd (Watched (Some verr) werr) a v = (a, Inl verr)
    \<and> setdelbangcmd (Watched (Some verr) werr) a v = (a, Inl verr)
    \<and> setaddbangcmd (Watched None (Some e)) a v = (fst (setaddbangcmd Unwatched a v), Inl e)
    \<and> setdelbangcmd (Watched None (Some e)) a v = (fst (setdelbangcmd Unwatched a v), Inl e)
    \<and> sethaspcmd a v = (ks \<in> set_keys a)"
proof -
  have okb: "dict_ok b" and oka: "dict_ok a" using assms(1,2) by (simp_all add: set_ok_def)
  have c: "c_str ks = ks" using member_key [OF assms(3)] assms(4) by auto
  have all: "{k \<in> set (dict_entries d). True} = set (dict_entries d)" for d :: "exp dict" by simp
  have copy: "set_ok (set_copy_exp a)" "set_keys (set_copy_exp a) = set_keys a"
    using set_insert_all_ok [OF assms(1) set_ok_empty(1), of "\<lambda>k. True"]
    unfolding set_copy_exp_def set_ok_empty(2) all by (simp_all add: set_keys_def)
  have u: "set_ok (set_insert_all (\<lambda>k. True) b (set_copy_exp a))"
    "set_keys (set_insert_all (\<lambda>k. True) b (set_copy_exp a)) = set_keys a \<union> set_keys b"
    using set_insert_all_ok [OF assms(2) copy(1), of "\<lambda>k. True"] unfolding copy(2) all by (simp_all add: set_keys_def)
  have cb: "set_contains_key b (kv_name k) = (kv_name k \<in> set_keys b)" if "k \<in> set (dict_entries a)" for k
    using contains_keys [OF okb dict_entry_name [OF oka that]] .
  have "kv_name ` {k \<in> set (dict_entries a). set_contains_key b (kv_name k)} = set_keys a \<inter> set_keys b"
    "kv_name ` {k \<in> set (dict_entries a). \<not> set_contains_key b (kv_name k)} = set_keys a - set_keys b"
    using cb by (auto simp: set_keys_def)
  note id = this
  note i = set_insert_all_ok [OF assms(1) set_ok_empty(1), unfolded set_ok_empty(2) Un_empty_left]
  obtain w where w: "set_value_clone v = Some w" "set_member w" "set_key_for_value w = Some ks"
    using clone_member [OF assms(3)] assms(4) by auto
  note p = set_put [OF assms(1) w(2,3)] and r = set_remove [OF assms(1) c]
  show ?thesis
    using u i [of "\<lambda>k. set_contains_key b (kv_name k)"] i [of "\<lambda>k. \<not> set_contains_key b (kv_name k)"] p r assms(1)
      contains_keys [OF oka c]
    unfolding id
    by (simp add: setunioncmd_def setintersectioncmd_def setdifferencecmd_def setaddbangcmd_def setdelbangcmd_def
        sethaspcmd_def assms(4) w(1) watched_write_def split: watched.split option.split)
qed

theorem set_algebra_witness:
  "\<exists>r. setunioncmd (SET (fst (set_insert_value create_dict (FIX 1)))) (SET create_dict) = Inr (SET r)
     \<and> set_keys r = {bytes_of ''I:1''}"
proof -
  have m: "set_member (FIX 1)" by (simp add: set_member_def)
  have f: "fmt_nat 1 = [49]" by (subst fmt_nat.simps) simp
  have k: "set_key_for_value (FIX 1) = Some (bytes_of ''I:1'')"
    using f by (simp add: set_key_for_value_def fmt_int_def)
  note p = set_insert_ok [OF set_ok_empty(1) m k]
  from conjunct1 [OF set_algebra [OF p(2) set_ok_empty(1) m k]] show ?thesis
    unfolding p(3) set_ok_empty(2) by auto
qed

end
