(* ===== verification/Deque.thy ===== *)
theory Deque imports SetOps Interfaces begin

text \<open>
  The double-ended queue of \<open>deque.h\<close>: a doubly linked list of heap nodes, its pushes,
  pops and peeks at both ends, and the deque commands with their hooks.

  The heap is explicit: a map from addresses to nodes, so that a stale or crossed link is
  a state of the model.  \<open>malloc\<close> is the allocator; its contract is that the address it
  returns is not in use.
\<close>

section \<open>Nodes\<close>

record 'v alc_listnode_t =
  node_val :: 'v
  node_prev :: "nat option"
  node_next :: "nat option"

record 'v alc_list_t =
  list_heap :: "nat \<rightharpoonup> 'v alc_listnode_t"
  list_head :: "nat option"
  list_tail :: "nat option"
  list_len :: int

definition make_list_exp :: "'v alc_list_t" where
  "make_list_exp = \<lparr>list_heap = (\<lambda>_. None), list_head = None, list_tail = None, list_len = 0\<rparr>"

text \<open>\<open>n->next = x\<close> and \<open>n->prev = x\<close> through a pointer.\<close>

definition set_next :: "nat \<Rightarrow> nat option \<Rightarrow> (nat \<rightharpoonup> 'v alc_listnode_t) \<Rightarrow> nat \<rightharpoonup> 'v alc_listnode_t" where
  "set_next a x h = (case h a of None \<Rightarrow> h | Some n \<Rightarrow> h(a \<mapsto> n\<lparr>node_next := x\<rparr>))"

definition set_prev :: "nat \<Rightarrow> nat option \<Rightarrow> (nat \<rightharpoonup> 'v alc_listnode_t) \<Rightarrow> nat \<rightharpoonup> 'v alc_listnode_t" where
  "set_prev a x h = (case h a of None \<Rightarrow> h | Some n \<Rightarrow> h(a \<mapsto> n\<lparr>node_prev := x\<rparr>))"

section \<open>Operations\<close>

definition alc_list_push_right :: "((nat \<rightharpoonup> 'v alc_listnode_t) \<Rightarrow> nat) \<Rightarrow> 'v \<Rightarrow> 'v alc_list_t \<Rightarrow> 'v alc_list_t" where
  "alc_list_push_right malloc val l =
     (let n = malloc (list_heap l);
          h = (list_heap l)(n \<mapsto> \<lparr>node_val = val, node_prev = list_tail l, node_next = None\<rparr>)
      in case list_tail l of
           Some t \<Rightarrow> l\<lparr>list_heap := set_next t (Some n) h, list_tail := Some n, list_len := list_len l + 1\<rparr>
         | None \<Rightarrow> l\<lparr>list_heap := h, list_head := Some n, list_tail := Some n, list_len := list_len l + 1\<rparr>)"

definition alc_list_push_left :: "((nat \<rightharpoonup> 'v alc_listnode_t) \<Rightarrow> nat) \<Rightarrow> 'v \<Rightarrow> 'v alc_list_t \<Rightarrow> 'v alc_list_t" where
  "alc_list_push_left malloc val l =
     (let n = malloc (list_heap l);
          h = (list_heap l)(n \<mapsto> \<lparr>node_val = val, node_prev = None, node_next = list_head l\<rparr>)
      in case list_head l of
           Some t \<Rightarrow> l\<lparr>list_heap := set_prev t (Some n) h, list_head := Some n, list_len := list_len l + 1\<rparr>
         | None \<Rightarrow> l\<lparr>list_heap := h, list_tail := Some n, list_head := Some n, list_len := list_len l + 1\<rparr>)"

text \<open>The pops return the removed element; a dangling head would be undefined in C.\<close>

definition pop_left :: "'v alc_list_t \<Rightarrow> 'v alc_list_t \<times> 'v option" where
  "pop_left l =
     (case list_head l of
        None \<Rightarrow> (l, None)
      | Some a \<Rightarrow>
          (case list_heap l a of
             None \<Rightarrow> (l, None)
           | Some n \<Rightarrow>
               (case node_next n of
                  Some b \<Rightarrow> (l\<lparr>list_heap := (set_prev b None (list_heap l))(a := None),
                              list_head := Some b, list_len := list_len l - 1\<rparr>, Some (node_val n))
                | None \<Rightarrow> (l\<lparr>list_heap := (list_heap l)(a := None), list_head := None, list_tail := None,
                             list_len := list_len l - 1\<rparr>, Some (node_val n)))))"

definition pop_right :: "'v alc_list_t \<Rightarrow> 'v alc_list_t \<times> 'v option" where
  "pop_right l =
     (case list_tail l of
        None \<Rightarrow> (l, None)
      | Some a \<Rightarrow>
          (case list_heap l a of
             None \<Rightarrow> (l, None)
           | Some n \<Rightarrow>
               (case node_prev n of
                  Some b \<Rightarrow> (l\<lparr>list_heap := (set_next b None (list_heap l))(a := None),
                              list_tail := Some b, list_len := list_len l - 1\<rparr>, Some (node_val n))
                | None \<Rightarrow> (l\<lparr>list_heap := (list_heap l)(a := None), list_tail := None, list_head := None,
                             list_len := list_len l - 1\<rparr>, Some (node_val n)))))"

definition peek_left :: "'v alc_list_t \<Rightarrow> 'v option" where
  "peek_left l = (case list_head l of None \<Rightarrow> None | Some a \<Rightarrow> map_option node_val (list_heap l a))"

definition peek_right :: "'v alc_list_t \<Rightarrow> 'v option" where
  "peek_right l = (case list_tail l of None \<Rightarrow> None | Some a \<Rightarrow> map_option node_val (list_heap l a))"

text \<open>The commands: the deque after the call and the result, nil as \<open>None\<close>.\<close>

definition dequecmd :: "((nat \<rightharpoonup> 'v alc_listnode_t) \<Rightarrow> nat) \<Rightarrow> 'v list \<Rightarrow> 'v alc_list_t" where
  "dequecmd malloc args = fold (alc_list_push_right malloc) args make_list_exp"

definition deque_push_cmd :: "watched \<Rightarrow> ('v \<Rightarrow> 'v alc_list_t \<Rightarrow> 'v alc_list_t) \<Rightarrow> 'v alc_list_t \<Rightarrow> 'v
    \<Rightarrow> 'v alc_list_t \<times> (alc_error + unit)" where
  "deque_push_cmd w push_fn d v = watched_write w d (push_fn v d) ()"

definition deque_pop_cmd :: "watched \<Rightarrow> ('v alc_list_t \<Rightarrow> 'v alc_list_t \<times> 'v option) \<Rightarrow> 'v alc_list_t
    \<Rightarrow> 'v alc_list_t \<times> (alc_error + 'v option)" where
  "deque_pop_cmd w pop_fn d =
     (let (d', ret) = pop_fn d in
      case w of
        Unwatched \<Rightarrow> (d', Inr ret)
      | Watched verr werr \<Rightarrow>
          (case (if ret \<noteq> None then verr else None) of
             Some e \<Rightarrow> (d, Inl e)
           | None \<Rightarrow> (d', case werr of Some e \<Rightarrow> Inl e | None \<Rightarrow> Inr ret)))"

section \<open>Linked segments\<close>

text \<open>
  The cells \<open>as\<close> of the heap, linked in order, hold the elements; \<open>p\<close> and
  \<open>q\<close> are the neighbours of the segment.
\<close>

fun dlseg :: "(nat \<rightharpoonup> 'v alc_listnode_t) \<Rightarrow> nat option \<Rightarrow> nat list \<Rightarrow> 'v list \<Rightarrow> nat option \<Rightarrow> bool" where
  "dlseg h p [] [] q = True"
| "dlseg h p (a # as) (v # vs) q =
     (h a = Some \<lparr>node_val = v, node_prev = p, node_next = (if as = [] then q else Some (hd as))\<rparr>
      \<and> dlseg h (Some a) as vs q)"
| "dlseg h p _ _ q = False"

definition deque_at :: "'v alc_list_t \<Rightarrow> nat list \<Rightarrow> 'v list \<Rightarrow> bool" where
  "deque_at l as vs =
     (dlseg (list_heap l) None as vs None \<and> distinct as \<and> dom (list_heap l) = set as
      \<and> list_head l = (if as = [] then None else Some (hd as))
      \<and> list_tail l = (if as = [] then None else Some (last as))
      \<and> list_len l = int (length vs))"

definition deque_rep :: "'v alc_list_t \<Rightarrow> 'v list \<Rightarrow> bool" where
  "deque_rep l vs = (\<exists>as. deque_at l as vs)"

definition malloc_ok :: "((nat \<rightharpoonup> 'v alc_listnode_t) \<Rightarrow> nat) \<Rightarrow> bool" where
  "malloc_ok malloc = (\<forall>h. finite (dom h) \<longrightarrow> h (malloc h) = None)"

lemma dlseg_length: "dlseg h p as vs q \<Longrightarrow> length as = length vs"
  by (induction h p as vs q rule: dlseg.induct) auto

lemma dlseg_cong: "dlseg h p as vs q \<Longrightarrow> (\<And>a. a \<in> set as \<Longrightarrow> h' a = h a) \<Longrightarrow> dlseg h' p as vs q"
  by (induction h p as vs q rule: dlseg.induct) auto

lemma dlseg_append:
  "length as = length vs \<Longrightarrow>
   dlseg h p (as @ bs) (vs @ ws) q
    = (dlseg h p as vs (if bs = [] then q else Some (hd bs))
       \<and> dlseg h (if as = [] then p else Some (last as)) bs ws q)"
proof (induction h p as vs q rule: dlseg.induct)
  case (1 h p q)
  show ?case by (cases bs; cases ws) auto
qed auto

lemma dlseg_snoc:
  "length as = length vs \<Longrightarrow>
   dlseg h p (as @ [a]) (vs @ [v]) q
    = (dlseg h p as vs (Some a)
       \<and> h a = Some \<lparr>node_val = v, node_prev = (if as = [] then p else Some (last as)), node_next = q\<rparr>)"
  by (simp add: dlseg_append)

text \<open>Changing the neighbour links at the two ends of a segment.\<close>

lemma dlseg_set_next:
  assumes "dlseg h p (as @ [a]) vs q" "distinct (as @ [a])"
  shows "dlseg (set_next a x h) p (as @ [a]) vs x"
proof -
  obtain ws v where vs: "vs = ws @ [v]"
    using dlseg_length [OF assms(1)] by (cases vs rule: rev_cases) auto
  then have l: "length as = length ws" using dlseg_length [OF assms(1)] by simp
  from assms(1) have s: "dlseg h p as ws (Some a)"
    "h a = Some \<lparr>node_val = v, node_prev = (if as = [] then p else Some (last as)), node_next = q\<rparr>"
    by (simp_all add: vs dlseg_snoc [OF l])
  have "dlseg (set_next a x h) p as ws (Some a)"
    using s(1) by (rule dlseg_cong) (use assms(2) s(2) in \<open>auto simp: set_next_def\<close>)
  then show ?thesis using s(2) by (simp add: vs dlseg_snoc [OF l] set_next_def)
qed

lemma dlseg_set_prev:
  assumes "dlseg h p (a # as) vs q" "distinct (a # as)"
  shows "dlseg (set_prev a x h) x (a # as) vs q"
proof -
  obtain v ws where vs: "vs = v # ws" using dlseg_length [OF assms(1)] by (cases vs) auto
  from assms(1) have s: "h a = Some \<lparr>node_val = v, node_prev = p, node_next = (if as = [] then q else Some (hd as))\<rparr>"
    "dlseg h (Some a) as ws q" by (simp_all add: vs)
  have "dlseg (set_prev a x h) (Some a) as ws q"
    using s(2) by (rule dlseg_cong) (use assms(2) s(1) in \<open>auto simp: set_prev_def\<close>)
  then show ?thesis using s(1) by (simp add: vs set_prev_def)
qed

lemma dom_set_link: "a \<in> dom h \<Longrightarrow> dom (set_next a x h) = dom h" "a \<in> dom h \<Longrightarrow> dom (set_prev a x h) = dom h"
  by (auto simp: set_next_def set_prev_def split: if_splits)

lemma deque_empty: "deque_at make_list_exp [] []"
  by (simp add: deque_at_def make_list_exp_def)

lemma deque_fresh: "malloc_ok malloc \<Longrightarrow> deque_at l as vs \<Longrightarrow> malloc (list_heap l) \<notin> set as"
proof -
  assume "malloc_ok malloc" and d: "deque_at l as vs"
  moreover have "finite (dom (list_heap l))" using d by (simp add: deque_at_def)
  ultimately have "list_heap l (malloc (list_heap l)) = None" by (simp add: malloc_ok_def)
  then show ?thesis using d by (metis deque_at_def domIff)
qed

lemma push_right_at:
  assumes "malloc_ok malloc" "deque_at l as vs"
  shows "deque_at (alc_list_push_right malloc v l) (as @ [malloc (list_heap l)]) (vs @ [v])"
proof -
  define n where "n = malloc (list_heap l)"
  define h where "h = (list_heap l)(n \<mapsto> \<lparr>node_val = v, node_prev = list_tail l, node_next = None\<rparr>)"
  have n: "n \<notin> set as" using deque_fresh [OF assms] by (simp add: n_def)
  have l: "length as = length vs" using assms(2) dlseg_length by (auto simp: deque_at_def)
  have s: "dlseg h None as vs None"
    using assms(2) unfolding deque_at_def by (elim conjE) (erule dlseg_cong, use n in \<open>auto simp: h_def\<close>)
  show ?thesis
  proof (cases as rule: rev_cases)
    case Nil
    then show ?thesis using assms(2) l
      by (simp add: deque_at_def alc_list_push_right_def n_def [symmetric] Let_def)
  next
    case (snoc bs t)
    then have t: "as \<noteq> []" "last as = t" "list_tail l = Some t" "t \<in> set as"
      using assms(2) by (auto simp: deque_at_def)
    have "dlseg (set_next t (Some n) h) None as vs (Some n)"
      using s assms(2) unfolding snoc by (intro dlseg_set_next) (simp_all add: deque_at_def)
    moreover have "set_next t (Some n) h n = h n" using n t(4) by (auto simp: set_next_def split: option.splits)
    ultimately have seg: "dlseg (set_next t (Some n) h) None (as @ [n]) (vs @ [v]) None"
      using t by (simp add: dlseg_snoc [OF l]) (simp add: h_def)
    have d: "dom (set_next t (Some n) h) = insert n (set as)"
      using assms(2) t(4) by (subst dom_set_link) (auto simp: h_def deque_at_def)
    have e: "alc_list_push_right malloc v l
        = l\<lparr>list_heap := set_next t (Some n) h, list_tail := Some n, list_len := list_len l + 1\<rparr>"
      using t(3) by (simp add: alc_list_push_right_def n_def [symmetric] h_def Let_def)
    show ?thesis
      unfolding n_def [symmetric] deque_at_def e
      using seg d t n assms(2) by (simp add: deque_at_def)
  qed
qed

lemma push_left_at:
  assumes "malloc_ok malloc" "deque_at l as vs"
  shows "deque_at (alc_list_push_left malloc v l) (malloc (list_heap l) # as) (v # vs)"
proof -
  define n where "n = malloc (list_heap l)"
  define h where "h = (list_heap l)(n \<mapsto> \<lparr>node_val = v, node_prev = None, node_next = list_head l\<rparr>)"
  have n: "n \<notin> set as" using deque_fresh [OF assms] by (simp add: n_def)
  have s: "dlseg h None as vs None"
    using assms(2) unfolding deque_at_def by (elim conjE) (erule dlseg_cong, use n in \<open>auto simp: h_def\<close>)
  show ?thesis
  proof (cases as)
    case Nil
    then have "vs = []" using assms(2) dlseg_length by (fastforce simp: deque_at_def)
    with Nil show ?thesis using assms(2)
      by (simp add: deque_at_def alc_list_push_left_def n_def [symmetric] Let_def)
  next
    case (Cons t bs)
    have "dlseg (set_prev t (Some n) h) (Some n) (t # bs) vs None"
      using s assms(2) unfolding Cons by (intro dlseg_set_prev) (simp_all add: deque_at_def)
    moreover have "set_prev t (Some n) h n = h n" using n Cons by (auto simp: set_prev_def split: option.splits)
    moreover have "dom (set_prev t (Some n) h) = insert n (set as)"
      using assms(2) Cons by (subst dom_set_link) (auto simp: h_def deque_at_def)
    ultimately show ?thesis
      using assms(2) n
      by (simp add: deque_at_def alc_list_push_left_def n_def [symmetric] h_def [symmetric] Let_def Cons)
        (simp add: h_def)
  qed
qed

lemma pop_left_at:
  assumes "deque_at l as vs"
  shows "deque_at (fst (pop_left l)) (tl as) (tl vs) \<and> snd (pop_left l) = (if vs = [] then None else Some (hd vs))"
proof (cases as)
  case Nil
  then have "vs = []" using assms dlseg_length by (fastforce simp: deque_at_def)
  with Nil assms show ?thesis by (simp add: deque_at_def pop_left_def)
next
  case (Cons a bs)
  then obtain v ws where vs: "vs = v # ws" using assms by (cases vs) (auto simp: deque_at_def)
  have a: "list_heap l a = Some \<lparr>node_val = v, node_prev = None, node_next = (if bs = [] then None else Some (hd bs))\<rparr>"
    "dlseg (list_heap l) (Some a) bs ws None" "distinct (a # bs)" "dom (list_heap l) = set (a # bs)"
    using assms by (simp_all add: deque_at_def Cons vs)
  show ?thesis
  proof (cases bs)
    case Nil
    then have "ws = []" using a(2) dlseg_length by fastforce
    then show ?thesis using assms a Nil by (simp add: deque_at_def pop_left_def Cons vs)
  next
    case (Cons b cs)
    have s: "dlseg (set_prev b None (list_heap l)) None bs ws None"
      using a(2,3) unfolding Cons by (intro dlseg_set_prev) simp_all
    have "dlseg ((set_prev b None (list_heap l))(a := None)) None bs ws None"
      using s by (rule dlseg_cong) (use a(3) in auto)
    moreover have "dom ((set_prev b None (list_heap l))(a := None)) = set bs"
      using a(3,4) Cons by (subst dom_fun_upd) (auto simp: dom_set_link(2))
    ultimately show ?thesis
      using assms a by (simp add: deque_at_def pop_left_def \<open>as = a # bs\<close> vs Cons)
  qed
qed

lemma pop_right_at:
  assumes "deque_at l as vs"
  shows "deque_at (fst (pop_right l)) (butlast as) (butlast vs)
    \<and> snd (pop_right l) = (if vs = [] then None else Some (last vs))"
proof (cases as rule: rev_cases)
  case Nil
  then have "vs = []" using assms dlseg_length by (fastforce simp: deque_at_def)
  with Nil assms show ?thesis by (simp add: deque_at_def pop_right_def)
next
  case (snoc bs a)
  have "length as = length vs" using assms dlseg_length by (auto simp: deque_at_def)
  then obtain v ws where vs: "vs = ws @ [v]" "length bs = length ws"
    using snoc by (cases vs rule: rev_cases) auto
  have a: "list_heap l a = Some \<lparr>node_val = v, node_prev = (if bs = [] then None else Some (last bs)), node_next = None\<rparr>"
    "dlseg (list_heap l) None bs ws (Some a)" "distinct (bs @ [a])" "dom (list_heap l) = insert a (set bs)"
    using assms by (simp_all add: deque_at_def snoc vs dlseg_snoc [OF vs(2)])
  show ?thesis
  proof (cases bs rule: rev_cases)
    case Nil
    then show ?thesis using assms a vs by (simp add: deque_at_def pop_right_def snoc)
  next
    case c: (snoc cs b)
    have s: "dlseg (set_next b None (list_heap l)) None bs ws None"
      using a(2,3) unfolding c by (intro dlseg_set_next) simp_all
    have "dlseg ((set_next b None (list_heap l))(a := None)) None bs ws None"
      using s by (rule dlseg_cong) (use a(3) in auto)
    moreover have "dom ((set_next b None (list_heap l))(a := None)) = set bs"
      using a(3,4) c by (subst dom_fun_upd) (auto simp: dom_set_link(1))
    ultimately show ?thesis
      using assms a by (simp add: deque_at_def pop_right_def snoc vs c butlast_append hd_append)
  qed
qed

text \<open>One legal allocator makes the list operations a deque.\<close>

definition least_free :: "(nat \<rightharpoonup> 'v alc_listnode_t) \<Rightarrow> nat" where
  "least_free h = (LEAST a. h a = None)"

lemma least_free_ok: "malloc_ok (least_free :: (nat \<rightharpoonup> 'v alc_listnode_t) \<Rightarrow> nat)"
proof -
  have "h (least_free h) = None" if fin: "finite (dom h)" for h :: "nat \<rightharpoonup> 'v alc_listnode_t"
  proof -
    obtain a where "a \<notin> dom h" using ex_new_if_finite [OF infinite_UNIV_nat fin] ..
    then have "h a = None" by blast
    then show ?thesis unfolding least_free_def by (rule LeastI)
  qed
  then show ?thesis by (simp add: malloc_ok_def)
qed

lemma deque_rep_ops:
  assumes "deque_rep l vs"
  shows "malloc_ok malloc \<Longrightarrow> deque_rep (alc_list_push_right malloc v l) (vs @ [v])"
    "malloc_ok malloc \<Longrightarrow> deque_rep (alc_list_push_left malloc v l) (v # vs)"
    "deque_rep (fst (pop_right l)) (butlast vs) \<and> snd (pop_right l) = (if vs = [] then None else Some (last vs))"
    "deque_rep (fst (pop_left l)) (tl vs) \<and> snd (pop_left l) = (if vs = [] then None else Some (hd vs))"
proof -
  obtain as where a: "deque_at l as vs" using assms by (auto simp: deque_rep_def)
  show "malloc_ok malloc \<Longrightarrow> deque_rep (alc_list_push_right malloc v l) (vs @ [v])"
    "malloc_ok malloc \<Longrightarrow> deque_rep (alc_list_push_left malloc v l) (v # vs)"
    unfolding deque_rep_def using push_right_at [OF _ a] push_left_at [OF _ a] by blast+
  show "deque_rep (fst (pop_right l)) (butlast vs) \<and> snd (pop_right l) = (if vs = [] then None else Some (last vs))"
    "deque_rep (fst (pop_left l)) (tl vs) \<and> snd (pop_left l) = (if vs = [] then None else Some (hd vs))"
    unfolding deque_rep_def using pop_right_at [OF a] pop_left_at [OF a] by blast+
qed

interpretation alc_deque: deque_adt "\<lambda>(m, l) vs. malloc_ok m \<and> deque_rep l vs"
  "\<lambda>v (m, l). (m, alc_list_push_right m v l)" "\<lambda>v (m, l). (m, alc_list_push_left m v l)"
  "\<lambda>(m, l). ((m, fst (pop_right l)), snd (pop_right l))" "\<lambda>(m, l). ((m, fst (pop_left l)), snd (pop_left l))"
  by unfold_locales (simp_all add: split_beta deque_rep_ops)

lemma deque_rep_len: "deque_rep l vs \<Longrightarrow> list_len l = int (length vs)"
  by (auto simp: deque_rep_def deque_at_def)

lemma peek_rep:
  assumes "deque_rep l vs"
  shows "peek_left l = (if vs = [] then None else Some (hd vs))"
    "peek_right l = (if vs = [] then None else Some (last vs))"
proof -
  obtain as where a: "deque_at l as vs" using assms by (auto simp: deque_rep_def)
  have l: "length as = length vs" using a dlseg_length by (auto simp: deque_at_def)
  show "peek_left l = (if vs = [] then None else Some (hd vs))"
    using a l by (cases as; cases vs) (auto simp: peek_left_def deque_at_def)
  show "peek_right l = (if vs = [] then None else Some (last vs))"
  proof (cases as rule: rev_cases)
    case Nil
    then show ?thesis using a l by (simp add: peek_right_def deque_at_def)
  next
    case (snoc bs t)
    then obtain ws v where vs: "vs = ws @ [v]" using l by (cases vs rule: rev_cases) auto
    then have "length bs = length ws" using l snoc by simp
    then show ?thesis using a by (simp add: peek_right_def deque_at_def snoc vs dlseg_snoc)
  qed
qed

lemma dequecmd_rep: "malloc_ok m \<Longrightarrow> deque_rep (dequecmd m vs) vs"
proof -
  assume m: "malloc_ok m"
  have "deque_rep (fold (alc_list_push_right m) ws l) (vs @ ws)" if "deque_rep l vs" for ws l and vs :: "'a list"
    using that
  proof (induction ws arbitrary: l vs)
    case (Cons w ws)
    then obtain as where "deque_at l as vs" by (auto simp: deque_rep_def)
    then have "deque_rep (alc_list_push_right m w l) (vs @ [w])"
      using push_right_at [OF m] unfolding deque_rep_def by blast
    from Cons.IH [OF this] show ?case by simp
  qed simp
  from this [of make_list_exp "[]" vs] show ?thesis
    using deque_empty by (auto simp: dequecmd_def deque_rep_def)
qed

section \<open>Properties\<close>

text \<open>
  C14. The doubly linked list is a deque: for every allocator that returns unused addresses,
  a deque built from some elements and driven by any sequence of pushes and pops at both
  ends answers as a list does, and its nodes stay a well-linked list of the remaining
  elements, with no node leaked and the length exact.
\<close>

theorem deque_sessions_refine_list:
  assumes "malloc_ok malloc"
  shows "fst (deque_run (\<lambda>v (m, l). (m, alc_list_push_right m v l)) (\<lambda>v (m, l). (m, alc_list_push_left m v l))
        (\<lambda>(m, l). ((m, fst (pop_right l)), snd (pop_right l))) (\<lambda>(m, l). ((m, fst (pop_left l)), snd (pop_left l)))
        ops (malloc, dequecmd malloc vs)) = fst (deque_spec ops vs)
    \<and> deque_rep (snd (snd (deque_run (\<lambda>v (m, l). (m, alc_list_push_right m v l)) (\<lambda>v (m, l). (m, alc_list_push_left m v l))
        (\<lambda>(m, l). ((m, fst (pop_right l)), snd (pop_right l))) (\<lambda>(m, l). ((m, fst (pop_left l)), snd (pop_left l)))
        ops (malloc, dequecmd malloc vs)))) (snd (deque_spec ops vs))"
  using alc_deque.run_refines_list [of "(malloc, dequecmd malloc vs)" vs ops] dequecmd_rep [OF assms] assms
  by (auto split: prod.splits)

theorem deque_sessions_refine_list_witness:
  "fst (deque_run (\<lambda>v (m, l). (m, alc_list_push_right m v l)) (\<lambda>v (m, l). (m, alc_list_push_left m v l))
        (\<lambda>(m, l). ((m, fst (pop_right l)), snd (pop_right l))) (\<lambda>(m, l). ((m, fst (pop_left l)), snd (pop_left l)))
        [Push_left 1, Pop_right, Pop_right, Pop_left] (least_free, dequecmd least_free [2 :: nat]))
   = [Some 2, Some 1, None]"
  using deque_sessions_refine_list [OF least_free_ok, of "[Push_left 1, Pop_right, Pop_right, Pop_left]" "[2 :: nat]"]
  by simp

text \<open>
  The deque commands on a well-formed deque: a push or pop a validator rejects leaves
  the deque as it was, a watcher's error is reported after the write took place, an
  unwatched pop of an empty deque returns nil and changes nothing, and the peeks return the
  end elements without a change.
\<close>

theorem deque_commands_hooks:
  assumes "malloc_ok malloc" "deque_rep l vs"
  shows "deque_push_cmd (Watched (Some e) w) (alc_list_push_right malloc) l v = (l, Inl e)
    \<and> (\<exists>l'. deque_push_cmd (Watched None (Some e)) (alc_list_push_right malloc) l v = (l', Inl e) \<and> deque_rep l' (vs @ [v]))
    \<and> (vs \<noteq> [] \<longrightarrow> deque_pop_cmd (Watched (Some e) w) pop_left l = (l, Inl e))
    \<and> (\<exists>l'. deque_pop_cmd Unwatched pop_left l = (l', Inr (if vs = [] then None else Some (hd vs))) \<and> deque_rep l' (tl vs))
    \<and> (\<exists>l'. deque_pop_cmd Unwatched pop_right l = (l', Inr (if vs = [] then None else Some (last vs))) \<and> deque_rep l' (butlast vs))
    \<and> peek_left l = (if vs = [] then None else Some (hd vs))
    \<and> peek_right l = (if vs = [] then None else Some (last vs))"
  using deque_rep_ops [OF assms(2)] peek_rep [OF assms(2)] assms(1)
  by (simp add: deque_push_cmd_def deque_pop_cmd_def watched_write_def split_beta Let_def)

theorem deque_commands_hooks_witness:
  "\<exists>l'. deque_pop_cmd Unwatched pop_left (dequecmd least_free [1 :: nat, 2]) = (l', Inr (Some 1)) \<and> deque_rep l' [2]"
  using deque_commands_hooks [OF least_free_ok dequecmd_rep [OF least_free_ok, of "[1 :: nat, 2]"]] by simp

end
