(* ===== verification/DictCmds.thy ===== *)
theory DictCmds imports SetOps begin

text \<open>
  The hash-map commands of \<open>builtins_dict.h\<close>: construction, \<open>assoc!\<close>,
  \<open>dissoc!\<close>, \<open>get\<close>, \<open>contains?\<close>, \<open>keys\<close>, \<open>vals\<close> and the polymorphic
  \<open>count\<close>, with the reading of a stored key back into a value.
\<close>

section \<open>Keys back from their text\<close>

text \<open>\<open>strtoll\<close> and the range check on the digits of an integer literal.\<close>

definition make_integer :: "bytes \<Rightarrow> alc_error + exp" where
  "make_integer s =
     (let v = (if s \<noteq> [] \<and> hd s = 0x2D then - dec_val 0 (tl s) else dec_val 0 s) in
      if \<not> int64 v \<or> \<not> FIX_FITS v then Inl ERROR_ILLEGAL_VALUE else Inr (MAKE_FIX v))"

definition alc_cstr_to_key :: "bytes \<Rightarrow> alc_error + exp" where
  "alc_cstr_to_key k =
     (let k = c_str k in
      if k \<noteq> [] \<and> hd k = 0x3A then Inr (SYMBOL k)
      else
        (let p = (if k \<noteq> [] \<and> hd k = 0x2D then tl k else k) in
         if p \<noteq> [] \<and> list_all is_digit p then make_integer (take 31 k)
         else Inr (STRING k)))"

section \<open>Commands\<close>

text \<open>
  An evaluated argument may be a C \<open>NULL\<close>, here \<open>None\<close>.  It is no key, and storing it is a look-up:
  \<open>set_get_keyval_dict\<close> without a value inserts nothing.
\<close>

fun hashmap_from :: "exp dict \<Rightarrow> exp option list \<Rightarrow> alc_error + exp dict" where
  "hashmap_from d [] = Inr d"
| "hashmap_from d [k] = Inl ERROR_MISSING_PARAMETER"
| "hashmap_from d (k # v # args) =
     (case alc_key_to_cstr k of
        None \<Rightarrow> Inl ERROR_ILLEGAL_VALUE
      | Some ks \<Rightarrow> hashmap_from (fst (set_get_keyval_dict d ks v)) args)"

definition hashmapcmd :: "exp option list \<Rightarrow> alc_error + exp" where
  "hashmapcmd args = map_sum id DICT (hashmap_from create_dict args)"

definition assocbangcmd :: "watched \<Rightarrow> exp dict \<Rightarrow> exp option \<Rightarrow> exp option \<Rightarrow> exp dict \<times> (alc_error + unit)" where
  "assocbangcmd w d k v =
     (case alc_key_to_cstr k of
        None \<Rightarrow> (d, Inl ERROR_ILLEGAL_VALUE)
      | Some ks \<Rightarrow> watched_write w d (fst (set_get_keyval_dict d ks v)) ())"

definition dissocbangcmd :: "watched \<Rightarrow> exp dict \<Rightarrow> exp option \<Rightarrow> exp dict \<times> (alc_error + unit)" where
  "dissocbangcmd w d k =
     (case alc_key_to_cstr k of
        None \<Rightarrow> (d, Inr ())
      | Some ks \<Rightarrow> watched_write w d (fst (del_keyval_dict d ks)) ())"

text \<open>The default, when given, is evaluated only on a miss; \<open>Some None\<close> is a default that is \<open>NULL\<close>.\<close>

definition getcmd :: "exp dict \<Rightarrow> exp option \<Rightarrow> exp option option \<Rightarrow> exp option" where
  "getcmd d k dflt =
     (let miss = (case dflt of Some v \<Rightarrow> v | None \<Rightarrow> Some NIL_EXP) in
      case alc_key_to_cstr k of
        None \<Rightarrow> miss
      | Some ks \<Rightarrow> (case snd (set_get_keyval_dict d ks None) of Some kv \<Rightarrow> Some (kv_val kv) | None \<Rightarrow> miss))"

definition containspcmd :: "exp dict \<Rightarrow> exp option \<Rightarrow> bool" where
  "containspcmd d k =
     (case alc_key_to_cstr k of
        None \<Rightarrow> False
      | Some ks \<Rightarrow> snd (set_get_keyval_dict d ks None) \<noteq> None)"

definition keyscmd :: "exp dict \<Rightarrow> (alc_error + exp) list" where
  "keyscmd d = map (\<lambda>k. alc_cstr_to_key (kv_name k)) (concat (dict_table d))"

definition valscmd :: "exp dict \<Rightarrow> exp list" where
  "valscmd d = map kv_val (concat (dict_table d))"

text \<open>
  The walk of \<open>count\<close> over a list: \<open>p->next\<close> of a pair is its tail, of another heap
  object \<open>NULL\<close>; of an immediate it is a read through a tagged word, \<open>None\<close>.
\<close>

fun count_list :: "exp option \<Rightarrow> int \<Rightarrow> int option" where
  "count_list None n = Some n"
| "count_list (Some (PAIR c t)) n = (if c \<noteq> None \<or> t \<noteq> None then count_list t (n + 1) else Some n)"
| "count_list (Some (FIX i)) n = (if i \<noteq> 0 then None else Some n)"
| "count_list (Some v) n = (if istrue v then Some (n + 1) else Some n)"

definition countcmd :: "exp \<Rightarrow> (alc_error + exp) option" where
  "countcmd x =
     (case x of
        DICT d \<Rightarrow> Some (Inr (MAKE_FIX (int (dict_used d))))
      | SET d \<Rightarrow> Some (Inr (MAKE_FIX (int (dict_used d))))
      | LIST l \<Rightarrow> Some (Inr (MAKE_FIX (int (length l))))
      | BLOB b \<Rightarrow> Some (Inr (MAKE_FIX (int (length b))))
      | VEC_GEN xs \<Rightarrow> Some (Inr (MAKE_FIX (int (length xs))))
      | VEC_I64 xs \<Rightarrow> Some (Inr (MAKE_FIX (int (length xs))))
      | VEC_F64 xs \<Rightarrow> Some (Inr (MAKE_FIX (int (length xs))))
      | STRING s \<Rightarrow> Some (Inr (MAKE_FIX (int (length (c_str s)))))
      | NIL_EXP \<Rightarrow> Some (Inr (MAKE_FIX 0))
      | PAIR c t \<Rightarrow> map_option (\<lambda>n. Inr (MAKE_FIX n)) (count_list (Some x) 0)
      | _ \<Rightarrow> Some (Inl ERROR_ILLEGAL_VALUE))"

section \<open>Their effect\<close>

lemma dec_val_nonneg: "list_all is_digit s \<Longrightarrow> 0 \<le> a \<Longrightarrow> 0 \<le> dec_val a s"
proof (induction s arbitrary: a)
  case (Cons c s)
  have "48 \<le> uint c" using Cons.prems by (simp add: is_digit_def word_le_def)
  then show ?case using Cons by simp
qed simp

lemma fmt_int_shape:
  "fmt_int n = (if n < 0 then 0x2D # fmt_nat (nat (- n)) else fmt_nat (nat n))"
  by (simp add: fmt_int_def)

lemma digit_not_sign: "is_digit c \<Longrightarrow> c \<noteq> 0x2D \<and> c \<noteq> 0x3A"
  by (auto simp: is_digit_def)

lemma fmt_nat_hd: "is_digit (hd (fmt_nat n))"
  using fmt_nat_digits [of n] fmt_nat_nonempty [of n] by (cases "fmt_nat n") auto

lemma fmt_nat_length: "n < 10 ^ k \<Longrightarrow> 0 < k \<Longrightarrow> length (fmt_nat n) \<le> k"
proof (induction k arbitrary: n)
  case (Suc k)
  show ?case
  proof (cases "n < 10")
    case True
    then show ?thesis by (subst fmt_nat.simps) simp
  next
    case False
    then have "k \<noteq> 0" using Suc.prems by (cases k) auto
    moreover have "n div 10 < 10 ^ k" using Suc.prems by (simp add: less_mult_imp_div_less)
    ultimately show ?thesis using Suc.IH [of "n div 10"] False by (subst fmt_nat.simps) simp
  qed
qed simp

lemma fix_key_back:
  assumes "FIX_FITS n"
  shows "alc_cstr_to_key (fmt_int n) = Inr (FIX n)"
proof -
  have r: "- (2 ^ 60) \<le> n" "n < 2 ^ 60" using assms by (simp_all add: FIX_FITS_range)
  have i: "int64 n" using r by (simp add: int64_def INT64_MIN_def INT64_MAX_def)
  have m: "nat \<bar>n\<bar> < 10 ^ 19" using r by (simp add: nat_less_iff abs_le_iff) 
  then have l: "length (fmt_nat (nat \<bar>n\<bar>)) \<le> 19" by (intro fmt_nat_length) simp_all
  have d: "list_all is_digit (fmt_nat (nat \<bar>n\<bar>))" "fmt_nat (nat \<bar>n\<bar>) \<noteq> []"
    by (simp_all add: fmt_nat_digits fmt_nat_nonempty)
  have h: "hd (fmt_nat (nat \<bar>n\<bar>)) \<noteq> 0x2D" "hd (fmt_nat (nat \<bar>n\<bar>)) \<noteq> 0x3A"
    using digit_not_sign [OF fmt_nat_hd [of "nat \<bar>n\<bar>"]] by simp_all
  have c: "c_str (fmt_int n) = fmt_int n" by (rule c_str_no_nul [OF fmt_int_chars(1)])
  have v: "dec_val 0 (fmt_nat (nat \<bar>n\<bar>)) = \<bar>n\<bar>" by (simp add: dec_val_fmt_nat)
  show ?thesis
  proof (cases "n < 0")
    case True
    then have e: "fmt_int n = 0x2D # fmt_nat (nat \<bar>n\<bar>)" by (simp add: fmt_int_def abs_if)
    have "make_integer (take 31 (0x2D # fmt_nat (nat \<bar>n\<bar>))) = Inr (FIX n)"
      using l v i assms True by (simp add: make_integer_def MAKE_FIX_fits)
    then show ?thesis unfolding alc_cstr_to_key_def Let_def e c [unfolded e] using d by simp
  next
    case False
    then have e: "fmt_int n = fmt_nat (nat \<bar>n\<bar>)" by (simp add: fmt_int_def)
    have "make_integer (take 31 (fmt_nat (nat \<bar>n\<bar>))) = Inr (FIX n)"
      using l v i assms False h by (simp add: make_integer_def MAKE_FIX_fits)
    then show ?thesis unfolding alc_cstr_to_key_def Let_def e c [unfolded e] using d h by simp
  qed
qed

lemma get_after_set:
  assumes "dict_ok d"
  shows "dict_lookup (fst (set_get_keyval_dict d ks (Some v))) ks' =
    (if c_str ks' = c_str ks then Some v else dict_lookup d ks')"
  using dict_set_ok(2) [OF assms, of ks v ks'] by (simp add: dict_lookup_def)

lemma get_lookup: "getcmd d k dflt =
    (let miss = (case dflt of Some v \<Rightarrow> v | None \<Rightarrow> Some NIL_EXP) in
     case alc_key_to_cstr k of
       None \<Rightarrow> miss
     | Some ks \<Rightarrow> (case dict_lookup d ks of Some v \<Rightarrow> Some v | None \<Rightarrow> miss))"
  by (simp add: getcmd_def dict_lookup_def Let_def split: option.split)

lemma contains_lookup: "containspcmd d k =
    (case alc_key_to_cstr k of None \<Rightarrow> False | Some ks \<Rightarrow> dict_lookup d ks \<noteq> None)"
  by (simp add: containspcmd_def dict_lookup_def split: option.split)

lemma lookup_keeps: "fst (set_get_keyval_dict d ks None) = d"
  by (simp add: set_get_keyval_dict_def Let_def)

text \<open>The types of keys that are supported.\<close>

definition supported_key :: "exp option \<Rightarrow> bool" where
  "supported_key k = (\<exists>s n i. k \<in> {Some (SYMBOL s), Some (STRING s), Some TRUE_EXP, Some (FIX n), Some (TYPE_OBJ i)})"

lemma unsupported: "(alc_key_to_cstr k = None) = (\<not> supported_key k)"
  by (auto simp: alc_key_to_cstr_def supported_key_def split: option.split exp.split)

fun proper_list :: "exp option \<Rightarrow> bool" where
  "proper_list None = True"
| "proper_list (Some (PAIR c t)) = proper_list t"
| "proper_list (Some v) = False"

section \<open>Properties\<close>



text \<open>
  \<open>count\<close> of a proper list is defined; of a pair whose tail is a non-zero fixnum it
  follows the tail's tagged word as a pointer.
\<close>

theorem count_improper_list:
  "(proper_list (Some (PAIR c t)) \<longrightarrow> countcmd (PAIR c t) \<noteq> None)
   \<and> countcmd (PAIR (Some (FIX 1)) (Some (FIX 5))) = None"
proof -
  have "proper_list p \<Longrightarrow> count_list p n \<noteq> None" for p n
    by (induction p arbitrary: n rule: proper_list.induct) auto
  then show ?thesis by (auto simp: countcmd_def)
qed

theorem count_improper_list_witness:
  "countcmd (PAIR (Some (FIX 1)) (Some (PAIR None None))) \<noteq> None"
  using count_improper_list [of "Some (FIX 1)" "Some (PAIR None None)"] by simp

end
