(* ===== verification/Msgpack.thy ===== *)
theory Msgpack
  imports Codec
begin

text \<open>
  The MessagePack codec of \<open>msgpack.h\<close>.  An encoder returns the bytes it appends to
  the buffer, or \<open>None\<close> where the code returns 0; storage for the buffer is taken to
  be available.  A decoder takes the bytes from \<open>*pos\<close> on, so that \<open>len - *pos\<close>
  is their number, and returns the value with the bytes left, or \<open>None\<close> for
  \<open>NULL\<close>.  The first argument of both is the number of levels left under the depth
  cap: the encoder starts with \<open>MP_MAX_DEPTH\<close> (it fails at a depth \<open>>= 512\<close>),
  the decoder with one more (it fails at a depth \<open>> 512\<close>).
\<close>

section \<open>Encoding\<close>

definition MP_MAX_DEPTH :: nat where
  "MP_MAX_DEPTH = 512"

definition mp_put_be :: "u64 \<Rightarrow> nat \<Rightarrow> bytes" where
  "mp_put_be v nbytes = map (\<lambda>i. ucast (drop_bit (i * 8) v)) (rev [0..<nbytes])"

definition mp_put_sized :: "byte \<Rightarrow> nat \<Rightarrow> byte \<Rightarrow> byte \<Rightarrow> byte \<Rightarrow> nat \<Rightarrow> bytes option" where
  "mp_put_sized fixmask fixlim tag8 tag16 tag32 n =
     (if fixlim \<noteq> 0 \<and> n < fixlim then Some [fixmask OR of_nat n]
      else if tag8 \<noteq> 0 \<and> n \<le> 0xFF then Some (tag8 # mp_put_be (of_nat n) 1)
      else if n \<le> 0xFFFF then Some (tag16 # mp_put_be (of_nat n) 2)
      else if n > 0xFFFFFFFF then None
      else Some (tag32 # mp_put_be (of_nat n) 4))"

definition mp_encode_int :: "int \<Rightarrow> bytes" where
  "mp_encode_int n =
     (let u = of_int n :: u64 in
      if n \<ge> 0 then
        if n < 128 then [of_int n]
        else if n \<le> 0xFF then 0xCC # mp_put_be u 1
        else if n \<le> 0xFFFF then 0xCD # mp_put_be u 2
        else if n \<le> 0xFFFFFFFF then 0xCE # mp_put_be u 4
        else 0xD3 # mp_put_be u 8
      else
        if n \<ge> - 32 then [of_int n]
        else if n \<ge> - 128 then 0xD0 # mp_put_be u 1
        else if n \<ge> - 32768 then 0xD1 # mp_put_be u 2
        else if n \<ge> - 2147483648 then 0xD2 # mp_put_be u 4
        else 0xD3 # mp_put_be u 8)"

definition mp_encode_strlen :: "nat \<Rightarrow> bytes option" where
  "mp_encode_strlen l = mp_put_sized 0xA0 32 0xD9 0xDA 0xDB l"

text \<open>A length-prefixed C string, as strings, symbols and keys are written.\<close>

definition mp_put_str :: "bytes \<Rightarrow> bytes option" where
  "mp_put_str s = put_and (mp_encode_strlen (length (c_str s))) (Some (c_str s))"

text \<open>
  The contents the two loops over a list visit: up to a tail that is not a pair, or a
  cell whose content is \<open>NULL\<close>.
\<close>

fun pair_contents :: "exp option \<Rightarrow> exp list" where
  "pair_contents (Some (PAIR (Some c) n)) = c # pair_contents n"
| "pair_contents _ = []"

definition mp_encode_1 :: "(exp \<Rightarrow> bytes option) \<Rightarrow> exp option \<Rightarrow> bytes option" where
  "mp_encode_1 enc v =
     (case v of
        None \<Rightarrow> Some [0xC0]
      | Some NIL_EXP \<Rightarrow> Some [0xC0]
      | Some TRUE_EXP \<Rightarrow> Some [0xC3]
      | Some (FIX n) \<Rightarrow> Some (mp_encode_int n)
      | Some (CHARACTER c) \<Rightarrow> Some (mp_encode_int (uint c))
      | Some (FLOAT f) \<Rightarrow> Some (0xCB # mp_put_be f 8)
      | Some (STRING s) \<Rightarrow> mp_put_str s
      | Some (SYMBOL s) \<Rightarrow> mp_put_str s
      | Some (BLOB b) \<Rightarrow> put_and (mp_put_sized 0 0 0xC4 0xC5 0xC6 (length b)) (Some b)
      | Some (PAIR c n) \<Rightarrow>
          (let els = pair_contents (Some (PAIR c n)) in
           put_and (mp_put_sized 0x90 16 0 0xDC 0xDD (length els)) (put_all enc els))
      | Some (DICT d) \<Rightarrow>
          put_and (mp_put_sized 0x80 16 0 0xDE 0xDF (dict_used d))
            (put_all (\<lambda>k. put_and (mp_put_str (kv_name k)) (enc (kv_val k))) (dict_entries d))
      | _ \<Rightarrow> None)"

fun mp_encode :: "nat \<Rightarrow> exp option \<Rightarrow> bytes option" where
  "mp_encode 0 v = None"
| "mp_encode (Suc levels) v = mp_encode_1 (\<lambda>x. mp_encode levels (Some x)) v"

section \<open>Decoding\<close>

definition mp_get_be :: "bytes \<Rightarrow> nat \<Rightarrow> u64" where
  "mp_get_be b n = foldl (\<lambda>v x. push_bit 8 v OR ucast x) 0 (take n b)"

definition mp_sext :: "u64 \<Rightarrow> nat \<Rightarrow> int" where
  "mp_sext v nb = sint (signed_drop_bit (64 - nb * 8) (push_bit (64 - nb * 8) v))"

fun list_of :: "exp list \<Rightarrow> exp option" where
  "list_of [] = None"
| "list_of (x # xs) = Some (PAIR (Some x) (list_of xs))"

text \<open>A fresh list, \<open>NIL_EXP\<close> when nothing was appended.\<close>

definition mk_list :: "exp list \<Rightarrow> exp" where
  "mk_list xs = (case list_of xs of None \<Rightarrow> NIL_EXP | Some l \<Rightarrow> l)"

definition mp_decode_array :: "(bytes \<Rightarrow> (exp \<times> bytes) option) \<Rightarrow> nat \<Rightarrow> bytes \<Rightarrow> (exp \<times> bytes) option" where
  "mp_decode_array dec n b = map_option (\<lambda>(els, r). (mk_list els, r)) (dec_many dec n b)"

fun mp_decode_map :: "(bytes \<Rightarrow> (exp \<times> bytes) option) \<Rightarrow> nat \<Rightarrow> exp dict \<Rightarrow> bytes \<Rightarrow> (exp \<times> bytes) option" where
  "mp_decode_map dec 0 d b = Some (DICT d, b)"
| "mp_decode_map dec (Suc n) d b =
     (case dec b of
        Some (STRING key, r) \<Rightarrow>
          (case dec r of
             None \<Rightarrow> None
           | Some (val, r') \<Rightarrow> mp_decode_map dec n (fst (set_get_keyval_dict d key (Some val))) r')
      | _ \<Rightarrow> None)"

definition INT_MAX :: nat where "INT_MAX = 2147483647"

text \<open>A body of \<open>n\<close> bytes after the prefix.\<close>

definition mp_body :: "nat \<Rightarrow> (bytes \<Rightarrow> exp) \<Rightarrow> bytes \<Rightarrow> (exp \<times> bytes) option" where
  "mp_body n mk b = (if n > length b then None else Some (mk (take n b), drop n b))"

text \<open>A prefix of \<open>nb\<close> bytes (\<open>MP_NEED\<close>), read and passed to the rest of the arm.\<close>

definition mp_prefixed :: "nat \<Rightarrow> (u64 \<Rightarrow> bytes \<Rightarrow> (exp \<times> bytes) option) \<Rightarrow> bytes \<Rightarrow> (exp \<times> bytes) option" where
  "mp_prefixed nb k b = (if nb > length b then None else k (mp_get_be b nb) (drop nb b))"

definition mp_uint :: "nat \<Rightarrow> u64 \<Rightarrow> exp" where
  "mp_uint nb uv =
     (if (nb < 8 \<or> uint uv \<le> INT64_MAX) \<and> FIX_FITS (sint uv) then MAKE_FIX (sint uv)
      else FLOAT (f64_of_int (uint uv)))"

definition mp_int :: "nat \<Rightarrow> u64 \<Rightarrow> exp" where
  "mp_int nb uv =
     (let v = mp_sext uv nb in if FIX_FITS v then MAKE_FIX v else FLOAT (f64_of_int v))"

definition mp_decode_1 :: "(bytes \<Rightarrow> (exp \<times> bytes) option) \<Rightarrow> byte \<Rightarrow> bytes \<Rightarrow> (exp \<times> bytes) option" where
  "mp_decode_1 dec c b =
     (if c \<le> 0x7F then Some (MAKE_FIX (uint c), b)
      else if c \<ge> 0xE0 then Some (MAKE_FIX (sint c), b)
      else if c AND 0xE0 = 0xA0 then mp_body (unat (c AND 0x1F)) STRING b
      else if c AND 0xF0 = 0x90 then mp_decode_array dec (unat (c AND 0x0F)) b
      else if c AND 0xF0 = 0x80 then mp_decode_map dec (unat (c AND 0x0F)) create_dict b
      else if c = 0xC0 then Some (NIL_EXP, b)
      else if c = 0xC2 then Some (NIL_EXP, b)
      else if c = 0xC3 then Some (TRUE_EXP, b)
      else if c = 0xCC \<or> c = 0xCD \<or> c = 0xCE \<or> c = 0xCF then
        (let nb = (if c = 0xCC then 1 else if c = 0xCD then 2 else if c = 0xCE then 4 else 8) in
         mp_prefixed nb (\<lambda>uv r. Some (mp_uint nb uv, r)) b)
      else if c = 0xD0 \<or> c = 0xD1 \<or> c = 0xD2 \<or> c = 0xD3 then
        (let nb = (if c = 0xD0 then 1 else if c = 0xD1 then 2 else if c = 0xD2 then 4 else 8) in
         mp_prefixed nb (\<lambda>uv r. Some (mp_int nb uv, r)) b)
      else if c = 0xCA then
        mp_prefixed 4 (\<lambda>bits r. Some (FLOAT (f64_of_f32 (ucast bits)), r)) b
      else if c = 0xCB then mp_prefixed 8 (\<lambda>bits r. Some (FLOAT bits, r)) b
      else if c = 0xD9 \<or> c = 0xDA \<or> c = 0xDB then
        mp_prefixed (if c = 0xD9 then 1 else if c = 0xDA then 2 else 4)
          (\<lambda>n r. if unat n > length r then None else if unat n > INT_MAX then None
                 else mp_body (unat n) STRING r) b
      else if c = 0xC4 \<or> c = 0xC5 \<or> c = 0xC6 then
        mp_prefixed (if c = 0xC4 then 1 else if c = 0xC5 then 2 else 4)
          (\<lambda>n r. mp_body (unat n) BLOB r) b
      else if c = 0xDC \<or> c = 0xDD then
        mp_prefixed (if c = 0xDC then 2 else 4)
          (\<lambda>n r. if unat n > length r then None else mp_decode_array dec (unat n) r) b
      else if c = 0xDE \<or> c = 0xDF then
        mp_prefixed (if c = 0xDE then 2 else 4)
          (\<lambda>n r. if unat n > length r then None else mp_decode_map dec (unat n) create_dict r) b
      else None)"

fun mp_decode :: "nat \<Rightarrow> bytes \<Rightarrow> (exp \<times> bytes) option" where
  "mp_decode 0 b = None"
| "mp_decode (Suc levels) [] = None"
| "mp_decode (Suc levels) (c # b) = mp_decode_1 (mp_decode levels) c b"

section \<open>The commands\<close>

definition msgpackencodecmd :: "exp \<Rightarrow> alc_error + exp" where
  "msgpackencodecmd v =
     (case mp_encode MP_MAX_DEPTH (Some v) of
        None \<Rightarrow> Inl ERROR_ILLEGAL_VALUE
      | Some bs \<Rightarrow> Inr (BLOB bs))"

definition msgpackdecodecmd :: "exp \<Rightarrow> alc_error + exp" where
  "msgpackdecodecmd b =
     (case b of
        BLOB bs \<Rightarrow>
          (case mp_decode (Suc MP_MAX_DEPTH) bs of
             Some (v, []) \<Rightarrow> Inr v
           | _ \<Rightarrow> Inl ERROR_ILLEGAL_VALUE)
      | _ \<Rightarrow> Inl ERROR_ILLEGAL_VALUE)"

section \<open>Big-endian fields\<close>

lemma mp_put_be_Suc: "mp_put_be v (Suc n) = ucast (drop_bit (n * 8) v) # mp_put_be v n"
  by (simp add: mp_put_be_def)

lemma mp_put_be_0 [simp]: "mp_put_be v 0 = []"
  by (simp add: mp_put_be_def)

lemma length_mp_put_be [simp]: "length (mp_put_be v n) = n"
  by (simp add: mp_put_be_def)

lemma mp_get_acc:
  "foldl (\<lambda>v x. push_bit 8 v OR ucast x) acc (mp_put_be v n)
     = push_bit (n * 8) acc OR take_bit (n * 8) v" for acc v :: u64
proof (induction n arbitrary: acc)
  case (Suc n)
  have "push_bit (n * 8) (push_bit 8 acc OR ucast (ucast (drop_bit (n * 8) v) :: byte)) OR take_bit (n * 8) v
    = push_bit (Suc n * 8) acc OR take_bit (Suc n * 8) v"
    by (rule bit_word_eqI)
      (auto simp: bit_simps algebra_simps)
  with Suc show ?case by (simp add: mp_put_be_Suc)
qed simp

lemma mp_get_put: "mp_get_be (mp_put_be v n @ rest) n = take_bit (n * 8) v"
  by (simp add: mp_get_be_def mp_get_acc)

lemma mp_prefixed_put [simp]: "mp_prefixed n k (mp_put_be v n @ rest) = k (take_bit (n * 8) v) rest"
  by (simp add: mp_prefixed_def mp_get_put)


lemma mp_sext_eq:
  assumes "0 < nb" "nb \<le> 8"
  shows "mp_sext v nb = signed_take_bit (nb * 8 - 1) (uint v)"
proof (rule bit_eqI)
  fix m
  have e: "64 - nb * 8 + (nb * 8 - 1) = 63" using assms by simp
  show "bit (mp_sext v nb) m = bit (signed_take_bit (nb * 8 - 1) (uint v)) m"
  proof (cases "m \<le> nb * 8 - 1")
    case True
    then have "64 - nb * 8 + m \<le> 63" "min (nb * 8 - 1) m = m" using assms by simp_all
    then show ?thesis
      by (simp add: mp_sext_def sint_signed_drop_bit_eq bit_simps min_def)
  next
    case False
    then have "63 \<le> 64 - nb * 8 + m" "min (nb * 8 - 1) m = nb * 8 - 1" using assms by simp_all
    then show ?thesis using e assms
      by (auto simp: mp_sext_def sint_signed_drop_bit_eq bit_simps min_def)
  qed
qed

lemma uint_take_of_int:
  "m \<le> 64 \<Longrightarrow> uint (take_bit m (of_int n :: u64)) = take_bit m n"
  by (simp add: unsigned_take_bit_eq unsigned_of_int min_def)

lemma mp_int_put:
  assumes "0 < nb" "nb \<le> 8" "- (2 ^ (nb * 8 - 1)) \<le> n" "n < 2 ^ (nb * 8 - 1)"
  shows "mp_sext (take_bit (nb * 8) (of_int n)) nb = n"
proof -
  have "mp_sext (take_bit (nb * 8) (of_int n)) nb = signed_take_bit (nb * 8 - 1) (take_bit (nb * 8) n)"
    using assms by (simp add: mp_sext_eq uint_take_of_int)
  also have "\<dots> = signed_take_bit (nb * 8 - 1) n"
    using assms(1) by (cases nb) (simp_all add: signed_take_bit_take_bit)
  finally show ?thesis using assms by (simp add: signed_take_bit_int_eq_self)
qed

lemma mp_uint_put:
  assumes "0 < nb" "nb \<le> 8" "0 \<le> n" "n < 2 ^ (nb * 8)"
  shows "uint (take_bit (nb * 8) (of_int n :: u64)) = n"
  using assms by (simp add: uint_take_of_int take_bit_int_eq_self)

lemma unat_take_of_nat:
  assumes "0 < nb" "nb \<le> 8" "n < 2 ^ (nb * 8)"
  shows "unat (take_bit (nb * 8) (of_nat n :: u64)) = n"
  using mp_uint_put [OF assms(1,2), of "int n"] assms(3)
  by (simp add: unat_eq_nat_uint)

lemma sint_small: "uint (w :: u64) < 2 ^ 63 \<Longrightarrow> sint w = uint w"
proof -
  assume "uint w < 2 ^ 63"
  moreover have "- (2 ^ 63) \<le> uint w" by (rule order_trans [OF _ uint_ge_0]) simp
  ultimately have "signed_take_bit 63 (uint w) = uint w" by (intro signed_take_bit_int_eq_self) simp_all
  then show ?thesis by (simp add: sint_uint)
qed

section \<open>Tag bytes\<close>

lemma fixstr_tags: "list_all (\<lambda>n. let c = (0xA0 :: byte) OR of_nat n in
   \<not> c \<le> 0x7F \<and> \<not> c \<ge> 0xE0 \<and> c AND 0xE0 = 0xA0 \<and> unat (c AND 0x1F) = n) [0..<32]"
  by (simp add: upt_rec Let_def)

lemma fixarray_tags: "list_all (\<lambda>n. let c = (0x90 :: byte) OR of_nat n in
   \<not> c \<le> 0x7F \<and> \<not> c \<ge> 0xE0 \<and> \<not> c AND 0xE0 = 0xA0 \<and> c AND 0xF0 = 0x90 \<and> unat (c AND 0x0F) = n) [0..<16]"
  by (simp add: upt_rec Let_def)

lemma fixmap_tags: "list_all (\<lambda>n. let c = (0x80 :: byte) OR of_nat n in
   \<not> c \<le> 0x7F \<and> \<not> c \<ge> 0xE0 \<and> \<not> c AND 0xE0 = 0xA0 \<and> \<not> c AND 0xF0 = 0x90 \<and> c AND 0xF0 = 0x80
   \<and> unat (c AND 0x0F) = n) [0..<16]"
  by (simp add: upt_rec Let_def)

lemma decode_fixstr: "n < 32 \<Longrightarrow> mp_decode_1 dec (0xA0 OR of_nat n) b = mp_body n STRING b"
  using fixstr_tags by (simp add: list_all_iff Let_def mp_decode_1_def)

lemma decode_fixarray: "n < 16 \<Longrightarrow> mp_decode_1 dec (0x90 OR of_nat n) b = mp_decode_array dec n b"
  using fixarray_tags by (simp add: list_all_iff Let_def mp_decode_1_def)

lemma decode_fixmap: "n < 16 \<Longrightarrow> mp_decode_1 dec (0x80 OR of_nat n) b = mp_decode_map dec n create_dict b"
  using fixmap_tags by (simp add: list_all_iff Let_def mp_decode_1_def)

lemma decode_tags:
  "mp_decode_1 dec 0xC0 b = Some (NIL_EXP, b)"
  "mp_decode_1 dec 0xC3 b = Some (TRUE_EXP, b)"
  "mp_decode_1 dec 0xCB b = mp_prefixed 8 (\<lambda>bits r. Some (FLOAT bits, r)) b"
  "mp_decode_1 dec 0xCC b = mp_prefixed 1 (\<lambda>uv r. Some (mp_uint 1 uv, r)) b"
  "mp_decode_1 dec 0xCD b = mp_prefixed 2 (\<lambda>uv r. Some (mp_uint 2 uv, r)) b"
  "mp_decode_1 dec 0xCE b = mp_prefixed 4 (\<lambda>uv r. Some (mp_uint 4 uv, r)) b"
  "mp_decode_1 dec 0xD0 b = mp_prefixed 1 (\<lambda>uv r. Some (mp_int 1 uv, r)) b"
  "mp_decode_1 dec 0xD1 b = mp_prefixed 2 (\<lambda>uv r. Some (mp_int 2 uv, r)) b"
  "mp_decode_1 dec 0xD2 b = mp_prefixed 4 (\<lambda>uv r. Some (mp_int 4 uv, r)) b"
  "mp_decode_1 dec 0xD3 b = mp_prefixed 8 (\<lambda>uv r. Some (mp_int 8 uv, r)) b"
  by (simp_all add: mp_decode_1_def Let_def)

abbreviation str_arm :: "u64 \<Rightarrow> bytes \<Rightarrow> (exp \<times> bytes) option" where
  "str_arm n r \<equiv> (if unat n > length r then None else if unat n > INT_MAX then None
                 else mp_body (unat n) STRING r)"

lemma decode_len_tags:
  "mp_decode_1 dec 0xD9 b = mp_prefixed 1 str_arm b"
  "mp_decode_1 dec 0xDA b = mp_prefixed 2 str_arm b"
  "mp_decode_1 dec 0xDB b = mp_prefixed 4 str_arm b"
  "mp_decode_1 dec 0xC4 b = mp_prefixed 1 (\<lambda>n r. mp_body (unat n) BLOB r) b"
  "mp_decode_1 dec 0xC5 b = mp_prefixed 2 (\<lambda>n r. mp_body (unat n) BLOB r) b"
  "mp_decode_1 dec 0xC6 b = mp_prefixed 4 (\<lambda>n r. mp_body (unat n) BLOB r) b"
  "mp_decode_1 dec 0xDC b = mp_prefixed 2 (\<lambda>n r. if unat n > length r then None else mp_decode_array dec (unat n) r) b"
  "mp_decode_1 dec 0xDD b = mp_prefixed 4 (\<lambda>n r. if unat n > length r then None else mp_decode_array dec (unat n) r) b"
  "mp_decode_1 dec 0xDE b = mp_prefixed 2 (\<lambda>n r. if unat n > length r then None else mp_decode_map dec (unat n) create_dict r) b"
  "mp_decode_1 dec 0xDF b = mp_prefixed 4 (\<lambda>n r. if unat n > length r then None else mp_decode_map dec (unat n) create_dict r) b"
  by (simp_all add: mp_decode_1_def)


section \<open>Length prefixes read back\<close>

lemma mp_body_append: "mp_body (length s) mk (s @ r) = Some (mk s, r)"
  by (simp add: mp_body_def)

lemmas unat_take = unat_take_of_nat [of 1, simplified] unat_take_of_nat [of 2, simplified]
  unat_take_of_nat [of 4, simplified]

lemma take_bit_64: "take_bit 64 (v :: u64) = v"
  by (simp add: take_bit_word_eq_self)

lemmas put_prefixed = mp_prefixed_put [where n = 1, simplified] mp_prefixed_put [where n = 2, simplified]
  mp_prefixed_put [where n = 4, simplified] mp_prefixed_put [where n = 8, simplified, unfolded take_bit_64]

lemma decode_Cons: "mp_decode (Suc lv) (c # b) = mp_decode_1 (mp_decode lv) c b"
  by simp

lemma strlen_back:
  assumes "mp_encode_strlen (length s) = Some h" "length s \<le> INT_MAX"
  shows "mp_decode (Suc lv) (h @ s @ r) = Some (STRING s, r)" and "h \<noteq> []"
proof -
  let ?n = "length s"
  have i: "?n \<le> 2147483647" using assms(2) by (simp add: INT_MAX_def)
  consider (fx) "?n < 32" "h = [0xA0 OR of_nat ?n]"
    | (one) "\<not> ?n < 32" "?n \<le> 255" "h = 0xD9 # mp_put_be (of_nat ?n) 1"
    | (two) "\<not> ?n \<le> 255" "?n \<le> 65535" "h = 0xDA # mp_put_be (of_nat ?n) 2"
    | (four) "\<not> ?n \<le> 65535" "h = 0xDB # mp_put_be (of_nat ?n) 4"
    using assms(1) by (auto simp: mp_encode_strlen_def mp_put_sized_def split: if_splits)
  then have "mp_decode (Suc lv) (h @ s @ r) = Some (STRING s, r) \<and> h \<noteq> []"
  proof cases
    case fx
    then show ?thesis by (simp add: decode_fixstr mp_body_append)
  next
    case one
    then show ?thesis using i assms(2)
      by (simp add: decode_len_tags put_prefixed unat_take mp_body_append)
  next
    case two
    then show ?thesis using i assms(2)
      by (simp add: decode_len_tags put_prefixed unat_take mp_body_append)
  next
    case four
    then show ?thesis using i assms(2)
      by (simp add: decode_len_tags put_prefixed unat_take mp_body_append)
  qed
  then show "mp_decode (Suc lv) (h @ s @ r) = Some (STRING s, r)" "h \<noteq> []" by simp_all
qed

lemma binlen_back:
  assumes "mp_put_sized 0 0 0xC4 0xC5 0xC6 (length s) = Some h"
  shows "mp_decode (Suc lv) (h @ s @ r) = Some (BLOB s, r)" and "h \<noteq> []"
proof -
  let ?n = "length s"
  consider (one) "?n \<le> 255" "h = 0xC4 # mp_put_be (of_nat ?n) 1"
    | (two) "\<not> ?n \<le> 255" "?n \<le> 65535" "h = 0xC5 # mp_put_be (of_nat ?n) 2"
    | (four) "\<not> ?n \<le> 65535" "?n \<le> 4294967295" "h = 0xC6 # mp_put_be (of_nat ?n) 4"
    using assms by (auto simp: mp_put_sized_def split: if_splits)
  then have "mp_decode (Suc lv) (h @ s @ r) = Some (BLOB s, r) \<and> h \<noteq> []"
    by cases (simp_all add: decode_len_tags put_prefixed unat_take mp_body_append)
  then show "mp_decode (Suc lv) (h @ s @ r) = Some (BLOB s, r)" "h \<noteq> []" by simp_all
qed

lemma arraylen_back:
  assumes "mp_put_sized 0x90 16 0 0xDC 0xDD n = Some h" "n \<le> length b"
  shows "mp_decode (Suc lv) (h @ b) = mp_decode_array (mp_decode lv) n b" and "h \<noteq> []"
proof -
  consider (fx) "n < 16" "h = [0x90 OR of_nat n]"
    | (two) "n \<le> 65535" "h = 0xDC # mp_put_be (of_nat n) 2"
    | (four) "\<not> n \<le> 65535" "n \<le> 4294967295" "h = 0xDD # mp_put_be (of_nat n) 4"
    using assms by (auto simp: mp_put_sized_def split: if_splits)
  then have "mp_decode (Suc lv) (h @ b) = mp_decode_array (mp_decode lv) n b \<and> h \<noteq> []"
    by cases (use assms(2) in \<open>simp_all add: decode_len_tags put_prefixed unat_take decode_fixarray\<close>)
  then show "mp_decode (Suc lv) (h @ b) = mp_decode_array (mp_decode lv) n b" "h \<noteq> []" by simp_all
qed

lemma maplen_back:
  assumes "mp_put_sized 0x80 16 0 0xDE 0xDF n = Some h" "n \<le> length b"
  shows "mp_decode (Suc lv) (h @ b) = mp_decode_map (mp_decode lv) n create_dict b" and "h \<noteq> []"
proof -
  consider (fx) "n < 16" "h = [0x80 OR of_nat n]"
    | (two) "n \<le> 65535" "h = 0xDE # mp_put_be (of_nat n) 2"
    | (four) "\<not> n \<le> 65535" "n \<le> 4294967295" "h = 0xDF # mp_put_be (of_nat n) 4"
    using assms by (auto simp: mp_put_sized_def split: if_splits)
  then have "mp_decode (Suc lv) (h @ b) = mp_decode_map (mp_decode lv) n create_dict b \<and> h \<noteq> []"
    by cases (use assms(2) in \<open>simp_all add: decode_len_tags put_prefixed unat_take decode_fixmap\<close>)
  then show "mp_decode (Suc lv) (h @ b) = mp_decode_map (mp_decode lv) n create_dict b" "h \<noteq> []" by simp_all
qed

section \<open>Integers read back\<close>

lemma fixint_tags: "list_all (\<lambda>n. (of_nat n :: byte) \<le> 0x7F \<and> uint (of_nat n :: byte) = int n) [0..<128]"
  by (simp add: upt_rec)

lemma negfixint_tags: "list_all (\<lambda>n. \<not> (- of_nat n :: byte) \<le> 0x7F \<and> (- of_nat n :: byte) \<ge> 0xE0
    \<and> sint (- of_nat n :: byte) = - int n) [1..<33]"
  by (simp add: upt_rec word_le_nat_alt unsigned_minus_1_eq_mask mask_eq_exp_minus_1)

lemma fixint_pos:
  assumes "0 \<le> n" "n < 128"
  shows "(of_int n :: byte) \<le> 0x7F" "uint (of_int n :: byte) = n"
proof -
  obtain m where m: "n = int m" using assms(1) by (rule nonneg_int_cases)
  then have "m \<in> set [0..<128]" using assms by simp
  then have "(of_nat m :: byte) \<le> 0x7F \<and> uint (of_nat m :: byte) = int m"
    using fixint_tags unfolding list_all_iff by blast
  then show "(of_int n :: byte) \<le> 0x7F" "uint (of_int n :: byte) = n" unfolding m of_int_of_nat_eq by blast+
qed

lemma fixint_neg:
  assumes "n < 0" "- 32 \<le> n"
  shows "\<not> (of_int n :: byte) \<le> 0x7F" "(of_int n :: byte) \<ge> 0xE0" "sint (of_int n :: byte) = n"
proof -
  obtain m where m: "n = - int m" using assms(1) by (metis less_imp_le nonpos_int_cases)
  then have "m \<in> set [1..<33]" using assms by auto
  then have "\<not> (- of_nat m :: byte) \<le> 0x7F \<and> (- of_nat m :: byte) \<ge> 0xE0
    \<and> sint (- of_nat m :: byte) = - int m"
    using negfixint_tags unfolding list_all_iff by blast
  then show "\<not> (of_int n :: byte) \<le> 0x7F" "(of_int n :: byte) \<ge> 0xE0" "sint (of_int n :: byte) = n"
    unfolding m of_int_minus of_int_of_nat_eq by blast+
qed

lemma uint_arm:
  assumes "nb = 1 \<or> nb = 2 \<or> nb = 4" "0 \<le> n" "n < 2 ^ (nb * 8)"
  shows "mp_uint nb (take_bit (nb * 8) (of_int n)) = FIX n"
proof -
  let ?w = "take_bit (nb * 8) (of_int n) :: u64"
  have b: "n < 2 ^ 32" using assms(1,3) by auto
  have u: "uint ?w = n" using assms by (intro mp_uint_put) auto
  then have s: "sint ?w = n" using b by (subst sint_small) simp_all
  have f: "FIX_FITS n" using assms(2) b by (simp add: FIX_FITS_range)
  have "nb < 8" using assms(1) by auto
  then show ?thesis by (simp only: mp_uint_def s f MAKE_FIX_fits simp_thms if_True)
qed

lemma sint_arm:
  assumes "0 < nb" "nb \<le> 8" "- (2 ^ (nb * 8 - 1)) \<le> n" "n < 2 ^ (nb * 8 - 1)" "FIX_FITS n"
  shows "mp_int nb (take_bit (nb * 8) (of_int n)) = FIX n"
  by (simp add: mp_int_def mp_int_put [OF assms(1-4)] assms(5) MAKE_FIX_fits)

lemmas int_arms = uint_arm [where nb = 1, simplified] uint_arm [where nb = 2, simplified]
  uint_arm [where nb = 4, simplified] sint_arm [where nb = 1, simplified] sint_arm [where nb = 2, simplified]
  sint_arm [where nb = 4, simplified] sint_arm [where nb = 8, simplified, unfolded take_bit_64]

lemma int_back:
  assumes "FIX_FITS n"
  shows "mp_decode (Suc lv) (mp_encode_int n @ r) = Some (FIX n, r)" and "mp_encode_int n \<noteq> []"
proof -
  have b: "- (2 ^ 60) \<le> n" "n < 2 ^ 60" using assms by (simp_all add: FIX_FITS_range)
  show "mp_encode_int n \<noteq> []" by (simp add: mp_encode_int_def Let_def)
  consider (p) "0 \<le> n" "n < 128" | (m) "n < 0" "- 32 \<le> n" | (q) "n \<ge> 128" | (k) "n < - 32" by linarith
  then show "mp_decode (Suc lv) (mp_encode_int n @ r) = Some (FIX n, r)"
  proof cases
    case p
    then show ?thesis using fixint_pos [OF p] assms
      by (simp add: mp_encode_int_def mp_decode_1_def MAKE_FIX_fits)
  next
    case m
    then show ?thesis using fixint_neg [OF m] assms
      by (simp add: mp_encode_int_def mp_decode_1_def MAKE_FIX_fits)
  next
    case q
    then show ?thesis using b assms
      by (simp add: mp_encode_int_def Let_def decode_tags put_prefixed int_arms take_bit_64)
  next
    case k
    then show ?thesis using b assms
      by (simp add: mp_encode_int_def Let_def decode_tags put_prefixed int_arms take_bit_64)
  qed
qed


section \<open>What a value is read back as\<close>

lemma pair_contents_size: "x \<in> set (pair_contents v) \<Longrightarrow> size x < size_option size v"
  by (induction v rule: pair_contents.induct) auto

lemma pair_contents_less: "x \<in> set (pair_contents (Some (PAIR c n))) \<Longrightarrow> size x < size (PAIR c n)"
  using pair_contents_size [of x n] by (cases c) auto

lemma dict_entries_size:
  "k \<in> set (dict_entries d) \<Longrightarrow> size (kv_val k) < size_dict size d"
proof -
  assume "k \<in> set (dict_entries d)"
  then obtain c where c: "c \<in> set (dict_table d)" "k \<in> set c" by (auto simp: dict_entries_def)
  have "size (kv_val k) \<le> size_keyval size k" by (cases k) simp
  also have "\<dots> \<le> size_list (size_keyval size) c" by (rule size_list_estimation' [OF c(2)]) simp
  also have "\<dots> \<le> size_list (size_list (size_keyval size)) (dict_table d)"
    by (rule size_list_estimation' [OF c(1)]) simp
  finally show ?thesis by (cases d) simp
qed

text \<open>
  The value an encoded value is decoded to: characters become numbers, symbols strings,
  texts end at their first NUL, a list stops at a tail or a content the encoder stops at,
  and a dictionary is built afresh in the order of its entries.
\<close>

function mp_norm :: "exp \<Rightarrow> exp" where
  "mp_norm v =
     (case v of
        CHARACTER c \<Rightarrow> FIX (uint c)
      | STRING s \<Rightarrow> STRING (c_str s)
      | SYMBOL s \<Rightarrow> STRING (c_str s)
      | PAIR c n \<Rightarrow> mk_list (map mp_norm (pair_contents (Some (PAIR c n))))
      | DICT d \<Rightarrow>
          DICT (foldl (\<lambda>a k. fst (set_get_keyval_dict a (kv_name k) (Some (mp_norm (kv_val k)))))
                  create_dict (dict_entries d))
      | _ \<Rightarrow> v)"
  by pat_completeness auto
termination
  by (relation "measure size")
    (auto dest!: pair_contents_less dict_entries_size)

declare mp_norm.simps [simp del]


text \<open>
  Values the codec round-trips: fixnums in range, texts of an \<open>int\<close> length,
  dictionaries in order, all the way down.
\<close>

function mp_ok :: "exp \<Rightarrow> bool" where
  "mp_ok v =
     (case v of
        FIX n \<Rightarrow> FIX_FITS n
      | STRING s \<Rightarrow> length (c_str s) \<le> INT_MAX
      | SYMBOL s \<Rightarrow> length (c_str s) \<le> INT_MAX
      | PAIR c n \<Rightarrow> list_all mp_ok (pair_contents (Some (PAIR c n)))
      | DICT d \<Rightarrow> dict_ok d
          \<and> list_all (\<lambda>k. length (kv_name k) \<le> INT_MAX \<and> mp_ok (kv_val k)) (dict_entries d)
      | _ \<Rightarrow> True)"
  by pat_completeness auto
termination
  by (relation "measure size") (auto dest!: pair_contents_less dict_entries_size)

declare mp_ok.simps [simp del]

lemma list_of_Cons_mk: "xs \<noteq> [] \<Longrightarrow> list_of xs = Some (mk_list xs)"
  by (cases xs) (simp_all add: mk_list_def)

lemma pair_contents_list_of [simp]: "pair_contents (list_of xs) = xs"
  by (induction xs) simp_all

lemma decode_array_back:
  assumes "byte_codec enc dec view ok" "list_all ok els" "put_all enc els = Some bs"
  shows "mp_decode_array dec (length els) (bs @ r) = Some (mk_list (map view els), r)"
  using byte_codec.dec_many_enc [OF assms] by (simp add: mp_decode_array_def)

text \<open>Reading entries: a key and its value at a time.\<close>

lemma decode_map_back:
  assumes "byte_codec enc (mp_decode (Suc lv)) view ok"
    and "list_all (\<lambda>k. length (kv_name k) \<le> INT_MAX \<and> c_str (kv_name k) = kv_name k \<and> ok (kv_val k)) ks"
    and "put_all (\<lambda>k. put_and (mp_put_str (kv_name k)) (enc (kv_val k))) ks = Some bs"
  shows "mp_decode_map (mp_decode (Suc lv)) (length ks) d (bs @ r)
      = Some (DICT (foldl (\<lambda>a k. fst (set_get_keyval_dict a (kv_name k) (Some (view (kv_val k))))) d ks), r)
    \<and> length ks \<le> length bs"
  using assms(2,3)
proof (induction ks arbitrary: d bs)
  case (Cons k ks)
  from Cons.prems(2) obtain h b c where
    h: "mp_encode_strlen (length (kv_name k)) = Some h" and b: "enc (kv_val k) = Some b"
    and c: "put_all (\<lambda>k. put_and (mp_put_str (kv_name k)) (enc (kv_val k))) ks = Some c"
    and bs: "bs = h @ kv_name k @ b @ c"
    using Cons.prems(1) by (auto simp: put_and_Some mp_put_str_def)
  have s: "mp_decode (Suc lv) (h @ kv_name k @ b @ c @ r) = Some (STRING (kv_name k), b @ c @ r)" "h \<noteq> []"
    using strlen_back [OF h] Cons.prems(1) by simp_all
  have v: "mp_decode (Suc lv) (b @ c @ r) = Some (view (kv_val k), c @ r)"
    using byte_codec.dec_enc [OF assms(1) _ b] Cons.prems(1) by simp
  have ih: "mp_decode_map (mp_decode (Suc lv)) (length ks) e (c @ r)
      = Some (DICT (foldl (\<lambda>a k. fst (set_get_keyval_dict a (kv_name k) (Some (view (kv_val k))))) e ks), r)"
    "length ks \<le> length c" for e
    using Cons.IH [OF _ c] Cons.prems(1) by simp_all
  have "Suc 0 \<le> length h" using s(2) by (cases h) simp_all
  then have "length (k # ks) \<le> length bs"
    using ih(2) unfolding bs length_Cons length_append by linarith
  with ih(1) s(1) v show ?case by (simp add: bs del: mp_decode.simps)
qed simp

lemma str_back:
  assumes "mp_put_str s = Some bs" "length (c_str s) \<le> INT_MAX"
  shows "mp_decode (Suc lv) (bs @ r) = Some (STRING (c_str s), r) \<and> bs \<noteq> []"
  using assms strlen_back(1) [of "c_str s" _ lv r] strlen_back(2) [of "c_str s"]
  by (auto simp: mp_put_str_def put_and_Some simp del: mp_decode.simps)

lemma bin_back:
  assumes "put_and (mp_put_sized 0 0 0xC4 0xC5 0xC6 (length b)) (Some b) = Some bs"
  shows "mp_decode (Suc lv) (bs @ r) = Some (BLOB b, r) \<and> bs \<noteq> []"
  using assms binlen_back(1) [of b _ lv r] binlen_back(2) [of b]
  by (auto simp: put_and_Some simp del: mp_decode.simps)

lemma mp_norm_scalars:
  "mp_norm NIL_EXP = NIL_EXP" "mp_norm TRUE_EXP = TRUE_EXP" "mp_norm (FIX n) = FIX n"
  "mp_norm (CHARACTER c) = FIX (uint c)" "mp_norm (FLOAT f) = FLOAT f" "mp_norm (STRING s) = STRING (c_str s)"
  "mp_norm (SYMBOL s) = STRING (c_str s)" "mp_norm (BLOB b) = BLOB b"
  by (subst mp_norm.simps, simp)+

lemma mp_ok_scalars:
  "mp_ok NIL_EXP" "mp_ok TRUE_EXP" "mp_ok (CHARACTER c)" "mp_ok (FLOAT f)" "mp_ok (BLOB b)"
  "mp_ok (FIX n) = FIX_FITS n"
  "mp_ok (STRING s) = (length (c_str s) \<le> INT_MAX)" "mp_ok (SYMBOL s) = (length (c_str s) \<le> INT_MAX)"
  by (subst mp_ok.simps, simp)+

lemma char_fits: "FIX_FITS (uint (c :: u32))"
proof -
  have "uint c < 2 ^ 32" using uint_lt2p [of c] by simp
  then have "uint c < 2 ^ 60" by (rule less_trans) simp
  moreover have "- (2 ^ 60) \<le> uint c" by (rule order_trans [OF _ uint_ge_0]) simp
  ultimately show ?thesis by (simp only: FIX_FITS_range simp_thms)
qed

lemma mp_encode_back:
  assumes "mp_encode lv (Some v) = Some bs" "mp_ok v"
  shows "mp_decode (Suc lv) (bs @ r) = Some (mp_norm v, r) \<and> bs \<noteq> []"
  using assms
proof (induction lv arbitrary: v bs r)
  case (Suc lv)
  let ?enc = "\<lambda>x. mp_encode lv (Some x)"
  have cd: "byte_codec ?enc (mp_decode (Suc lv)) mp_norm mp_ok"
    by unfold_locales (use Suc.IH in blast)+
  have e: "mp_encode_1 ?enc (Some v) = Some bs" using Suc.prems(1) by simp
  have d: "mp_decode (Suc (Suc lv)) ([0xC0] @ r) = Some (NIL_EXP, r)"
    "mp_decode (Suc (Suc lv)) ([0xC3] @ r) = Some (TRUE_EXP, r)"
    "mp_decode (Suc (Suc lv)) ((0xCB # mp_put_be f 8) @ r) = Some (FLOAT f, r)" for f
    by (simp_all add: decode_tags put_prefixed take_bit_64)
  show ?case
  proof (cases v)
    case (PAIR c n)
    let ?els = "pair_contents (Some v)"
    from e PAIR obtain h b where h: "mp_put_sized 0x90 16 0 0xDC 0xDD (length ?els) = Some h"
      and b: "put_all ?enc ?els = Some b" and bs: "bs = h @ b"
      by (auto simp: mp_encode_1_def Let_def put_and_Some)
    have ok: "list_all mp_ok ?els" using Suc.prems(2) PAIR by (subst (asm) mp_ok.simps) simp
    have l: "length ?els \<le> length (b @ r)" using byte_codec.put_all_length [OF cd ok b] by simp
    show ?thesis
      using arraylen_back(1) [OF h l, of "Suc lv"] arraylen_back(2) [OF h l] decode_array_back [OF cd ok b, of r] PAIR
      by (subst mp_norm.simps) (simp add: bs del: mp_decode.simps)
  next
    case (DICT dc)
    let ?ks = "dict_entries dc"
    have ok: "dict_ok dc" "list_all (\<lambda>k. length (kv_name k) \<le> INT_MAX \<and> mp_ok (kv_val k)) ?ks"
        using Suc.prems(2) unfolding DICT by (simp_all add: mp_ok.simps [of "DICT dc"])
    then have ok': "list_all (\<lambda>k. length (kv_name k) \<le> INT_MAX \<and> c_str (kv_name k) = kv_name k \<and> mp_ok (kv_val k)) ?ks"
      using dict_entry_name [OF ok(1)] by (simp add: list_all_iff)
    have u: "dict_used dc = length ?ks" using ok(1) by (simp add: dict_ok_def)
    from e DICT u obtain h b where h: "mp_put_sized 0x80 16 0 0xDE 0xDF (length ?ks) = Some h"
      and b: "put_all (\<lambda>k. put_and (mp_put_str (kv_name k)) (?enc (kv_val k))) ?ks = Some b" and bs: "bs = h @ b"
      by (auto simp: mp_encode_1_def put_and_Some)
    note m = decode_map_back [OF cd ok' b]
    have "length ?ks \<le> length b" using m by blast
    then have l: "length ?ks \<le> length (b @ r)" by simp
    show ?thesis
      using maplen_back(1) [OF h l, of "Suc lv"] maplen_back(2) [OF h l] m DICT
      by (subst mp_norm.simps) (simp add: bs del: mp_decode.simps)
  next
    case (FIX n)
    then show ?thesis using e Suc.prems(2) int_back(1) [of n "Suc lv" r] int_back(2) [of n]
      by (auto simp: mp_encode_1_def mp_norm_scalars mp_ok_scalars simp del: mp_decode.simps)
  next
    case (CHARACTER c)
    then show ?thesis using e int_back(1) [OF char_fits [of c], of "Suc lv" r] int_back(2) [OF char_fits [of c]]
      by (auto simp: mp_encode_1_def mp_norm_scalars simp del: mp_decode.simps)
  next
    case (STRING s)
    then show ?thesis using e Suc.prems(2) str_back [of s bs "Suc lv" r]
      by (auto simp: mp_encode_1_def mp_norm_scalars mp_ok_scalars simp del: mp_decode.simps)
  next
    case (SYMBOL s)
    then show ?thesis using e Suc.prems(2) str_back [of s bs "Suc lv" r]
      by (auto simp: mp_encode_1_def mp_norm_scalars mp_ok_scalars simp del: mp_decode.simps)
  next
    case (BLOB b)
    then show ?thesis using e bin_back [of b bs "Suc lv" r]
      by (auto simp: mp_encode_1_def mp_norm_scalars simp del: mp_decode.simps)
  qed (use e d in \<open>auto simp: mp_encode_1_def mp_norm_scalars simp del: mp_decode.simps\<close>)
qed simp


section \<open>What the decoder yields\<close>

text \<open>The entries after an insertion are the new one and old ones.\<close>

lemma dict_set_entries:
  assumes "dict_ok d" "e \<in> set (dict_entries (fst (set_get_keyval_dict d key (Some v))))"
  shows "(kv_name e = c_str key \<and> kv_val e = v) \<or> e \<in> set (dict_entries d)"
proof -
  let ?d' = "fst (set_get_keyval_dict d key (Some v))"
  have ok: "dict_ok ?d'" by (rule dict_set_ok(1) [OF assms(1)])
  have n: "c_str (kv_name e) = kv_name e" by (rule dict_entry_name [OF ok assms(2)])
  have "snd (set_get_keyval_dict ?d' (kv_name e) None) = Some e"
    using dict_get_entry [OF ok, of "kv_name e" e] assms(2) n by simp
  then show ?thesis
    using dict_set_ok(2) [OF assms(1), of key v "kv_name e"] dict_get_entry [OF assms(1), of "kv_name e" e] n
    by (auto split: if_splits)
qed

lemma length_c_str: "length (c_str s) \<le> length s"
  by (simp add: c_str_def length_takeWhile_le)

text \<open>
  An arm of the decoder: what it yields is in order, what it leaves is the end of its
  input, and bytes added after the input are left untouched.
\<close>

definition arm :: "(bytes \<Rightarrow> ('a \<times> bytes) option) \<Rightarrow> ('a \<Rightarrow> bool) \<Rightarrow> bool" where
  "arm f P = (\<forall>b v r. f b = Some (v, r) \<longrightarrow>
     P v \<and> (\<exists>u. b = u @ r) \<and> (\<forall>x. f (b @ x) = Some (v, r @ x)))"

lemma armI:
  assumes "\<And>b v r. f b = Some (v, r) \<Longrightarrow> P v \<and> (\<exists>u. b = u @ r) \<and> (\<forall>x. f (b @ x) = Some (v, r @ x))"
  shows "arm f P"
  using assms by (simp add: arm_def)

lemma armD:
  assumes "arm f P" "f b = Some (v, r)"
  shows "P v" "\<exists>u. b = u @ r" "f (b @ x) = Some (v, r @ x)"
  using assms by (auto simp: arm_def)

lemma arm_None: "arm (\<lambda>b. None) P"
  by (simp add: arm_def)

lemma arm_const: "P v \<Longrightarrow> arm (\<lambda>b. Some (v, b)) P"
  by (simp add: arm_def)

lemma arm_if: "(c \<Longrightarrow> arm f P) \<Longrightarrow> (\<not> c \<Longrightarrow> arm g P) \<Longrightarrow> arm (\<lambda>b. if c then f b else g b) P"
  by (cases c) simp_all

lemma arm_guard: "arm f P \<Longrightarrow> arm (\<lambda>b. if n > length b then None else f b) P"
  by (auto simp: arm_def split: if_splits)

lemma arm_body:
  assumes "\<And>s. length s = n \<Longrightarrow> P (mk s)"
  shows "arm (mp_body n mk) P"
proof (rule armI)
  fix b v r
  assume "mp_body n mk b = Some (v, r)"
  then have h: "n \<le> length b" "v = mk (take n b)" "r = drop n b"
    by (auto simp: mp_body_def split: if_splits)
  then have "\<exists>u. b = u @ r" by (metis append_take_drop_id)
  with h assms [of "take n b"] show "P v \<and> (\<exists>u. b = u @ r) \<and> (\<forall>x. mp_body n mk (b @ x) = Some (v, r @ x))"
    by (auto simp: mp_body_def)
qed

lemma arm_prefixed:
  assumes "\<And>n. arm (k n) P"
  shows "arm (mp_prefixed nb k) P"
proof (rule armI)
  fix b v r
  assume a: "mp_prefixed nb k b = Some (v, r)"
  then have n: "nb \<le> length b" and f: "k (mp_get_be b nb) (drop nb b) = Some (v, r)"
    by (auto simp: mp_prefixed_def split: if_splits)
  from armD(2) [OF assms f] obtain u where u: "drop nb b = u @ r" by blast
  then have "b = (take nb b @ u) @ r" by (metis append.assoc append_take_drop_id)
  moreover have "mp_get_be (b @ x) nb = mp_get_be b nb" for x using n by (simp add: mp_get_be_def)
  then have "mp_prefixed nb k (b @ x) = Some (v, r @ x)" for x
    using n armD(3) [OF assms f, of x] by (simp add: mp_prefixed_def)
  ultimately show "P v \<and> (\<exists>u. b = u @ r) \<and> (\<forall>x. mp_prefixed nb k (b @ x) = Some (v, r @ x))"
    using armD(1) [OF assms f] by blast
qed

lemma mp_ok_list: "list_all mp_ok xs \<Longrightarrow> mp_ok (mk_list xs)"
proof (cases xs)
  case (Cons x ys)
  assume "list_all mp_ok xs"
  then show ?thesis using Cons pair_contents_list_of [of xs]
    by (simp add: mk_list_def mp_ok.simps [of "PAIR (Some x) (list_of ys)"])
qed (simp add: mk_list_def mp_ok_scalars)

lemma dec_many_arm: "arm dec P \<Longrightarrow> arm (dec_many dec n) (list_all P)"
proof (induction n)
  case (Suc n)
  show ?case
  proof (rule armI)
    fix b xs r
    assume "dec_many dec (Suc n) b = Some (xs, r)"
    then obtain x ys b' where x: "dec b = Some (x, b')" "dec_many dec n b' = Some (ys, r)" "xs = x # ys"
      by (auto split: option.splits)
    note 1 = armD [OF Suc.prems x(1)] and 2 = armD [OF Suc.IH [OF Suc.prems] x(2)]
    show "list_all P xs \<and> (\<exists>u. b = u @ r) \<and> (\<forall>z. dec_many dec (Suc n) (b @ z) = Some (xs, r @ z))"
      using 1 2 x(3) by (auto intro: exI [of _ "u @ v" for u v])
  qed
qed (simp add: arm_def)

lemma arm_array:
  assumes "arm dec mp_ok"
  shows "arm (mp_decode_array dec n) mp_ok"
proof (rule armI)
  fix b v r
  assume "mp_decode_array dec n b = Some (v, r)"
  then obtain xs where x: "dec_many dec n b = Some (xs, r)" "v = mk_list xs"
    by (auto simp: mp_decode_array_def)
  show "mp_ok v \<and> (\<exists>u. b = u @ r) \<and> (\<forall>x. mp_decode_array dec n (b @ x) = Some (v, r @ x))"
    using armD [OF dec_many_arm [OF assms] x(1)] x(2) by (simp add: mp_decode_array_def mp_ok_list)
qed

lemma mp_ok_dict_set:
  assumes "mp_ok (DICT d)" "mp_ok v" "length (c_str key) \<le> INT_MAX"
  shows "mp_ok (DICT (fst (set_get_keyval_dict d key (Some v))))"
proof -
  have d: "dict_ok d" "\<forall>k \<in> set (dict_entries d). length (kv_name k) \<le> INT_MAX \<and> mp_ok (kv_val k)"
    using assms(1) by (simp_all add: mp_ok.simps [of "DICT d"] list_all_iff)
  have "\<forall>k \<in> set (dict_entries (fst (set_get_keyval_dict d key (Some v)))).
      length (kv_name k) \<le> INT_MAX \<and> mp_ok (kv_val k)"
    using dict_set_entries [OF d(1)] d(2) assms(2,3) by metis
  then show ?thesis using dict_set_ok(1) [OF d(1)] by (subst mp_ok.simps) (simp add: list_all_iff)
qed



lemma mp_decode_map_arm:
  assumes "arm dec mp_ok"
  shows "mp_ok (DICT d) \<Longrightarrow> arm (mp_decode_map dec n d) mp_ok"
proof (induction n arbitrary: d)
  case (Suc n)
  show ?case
  proof (rule armI)
    fix b v r
    assume "mp_decode_map dec (Suc n) d b = Some (v, r)"
    then obtain key val b1 b2 where x: "dec b = Some (STRING key, b1)" "dec b1 = Some (val, b2)"
      and m: "mp_decode_map dec n (fst (set_get_keyval_dict d key (Some val))) b2 = Some (v, r)"
      by (auto split: option.splits prod.splits exp.splits)
    have "length (c_str key) \<le> INT_MAX" using armD(1) [OF assms x(1)] by (simp add: mp_ok_scalars)
    then have "mp_ok (DICT (fst (set_get_keyval_dict d key (Some val))))"
      by (intro mp_ok_dict_set Suc.prems armD(1) [OF assms x(2)])
    note 3 = armD [OF Suc.IH [OF this] m]
    show "mp_ok v \<and> (\<exists>u. b = u @ r) \<and> (\<forall>z. mp_decode_map dec (Suc n) d (b @ z) = Some (v, r @ z))"
      using armD(2,3) [OF assms x(1)] armD(2,3) [OF assms x(2)] 3 by fastforce
  qed
qed (simp add: arm_def)

lemma fixed_lengths: "unat (c AND 0x1F :: byte) \<le> INT_MAX"
proof -
  have "unat (c AND 0x1F) < 2 ^ 8" using unsigned_less [of "c AND 0x1F"] by simp
  then show ?thesis unfolding INT_MAX_def by (rule order_trans [OF less_imp_le]) simp
qed

lemma MAKE_FIX_ok: "mp_ok (MAKE_FIX i)"
proof -
  have "FIX_FITS (fix_trunc i)" by (simp add: FIX_FITS_def fix_trunc_def)
  then show ?thesis by (simp add: MAKE_FIX_def mp_ok_scalars)
qed

lemma numbers_ok: "mp_ok (mp_uint nb w)" "mp_ok (mp_int nb w)"
  by (simp_all add: mp_uint_def mp_int_def MAKE_FIX_ok mp_ok_scalars Let_def)

lemma string_ok: "length s \<le> INT_MAX \<Longrightarrow> mp_ok (STRING s)"
  using length_c_str [of s] by (simp add: mp_ok_scalars)

lemma empty_dict_ok: "mp_ok (DICT create_dict)"
  by (subst mp_ok.simps) (simp add: dict_create_ok dict_entries_def, simp add: create_dict_def)

lemma mp_decode_1_arm:
  assumes "arm dec mp_ok"
  shows "arm (mp_decode_1 dec c) mp_ok"
  unfolding mp_decode_1_def Let_def
  by (intro arm_if arm_const arm_None arm_prefixed arm_guard arm_body arm_array [OF assms]
      mp_decode_map_arm [OF assms] MAKE_FIX_ok numbers_ok string_ok)
    (auto simp: mp_ok_scalars empty_dict_ok fixed_lengths)

lemma mp_decode_arm: "arm (mp_decode lv) mp_ok"
proof (induction lv)
  case (Suc lv)
  show ?case
  proof (rule armI)
    fix b v r
    assume a: "mp_decode (Suc lv) b = Some (v, r)"
    then obtain c b' where b: "b = c # b'" "mp_decode_1 (mp_decode lv) c b' = Some (v, r)"
      by (cases b) auto
    show "mp_ok v \<and> (\<exists>u. b = u @ r) \<and> (\<forall>x. mp_decode (Suc lv) (b @ x) = Some (v, r @ x))"
      using armD [OF mp_decode_1_arm [OF Suc.IH] b(2)] b(1) by auto
  qed
qed (simp add: arm_def)


section \<open>Properties\<close>

interpretation mp_codec: byte_codec "\<lambda>v. mp_encode MP_MAX_DEPTH (Some v)" "mp_decode (Suc MP_MAX_DEPTH)"
  mp_norm mp_ok
  by unfold_locales (use mp_encode_back in blast)+

lemma mp_encode_two:
  "k = Suc (Suc n) \<Longrightarrow>
   mp_encode k v = mp_encode_1 (\<lambda>x. mp_encode_1 (\<lambda>y. mp_encode n (Some y)) (Some x)) v"
  by simp

lemma mp_encode_top:
  "mp_encode MP_MAX_DEPTH v = mp_encode_1 (\<lambda>x. mp_encode_1 (\<lambda>y. mp_encode 510 (Some y)) (Some x)) v"
  by (rule mp_encode_two) (simp add: MP_MAX_DEPTH_def)

lemma msgpack_commands_back:
  assumes "mp_ok v" "msgpackencodecmd v = Inr w"
  shows "msgpackdecodecmd w = Inr (mp_norm v)"
proof -
  from assms(2) obtain bs where e: "mp_encode MP_MAX_DEPTH (Some v) = Some bs" "w = BLOB bs"
    by (auto simp: msgpackencodecmd_def split: option.splits)
  with mp_codec.dec_enc_alone [OF assms(1) e(1)] show ?thesis by (simp add: msgpackdecodecmd_def)
qed



text \<open>
  Every corruption of length is an error: an encoded value with bytes added after it,
  or cut anywhere before its end, is not decoded.
\<close>

theorem msgpack_length_errors:
  assumes "mp_ok v" "msgpackencodecmd v = Inr (BLOB bs)"
  shows "(x \<noteq> [] \<longrightarrow> msgpackdecodecmd (BLOB (bs @ x)) = Inl ERROR_ILLEGAL_VALUE)
    \<and> (bs = p @ q \<and> q \<noteq> [] \<longrightarrow> msgpackdecodecmd (BLOB p) = Inl ERROR_ILLEGAL_VALUE)"
proof -
  have e: "mp_encode MP_MAX_DEPTH (Some v) = Some bs"
    using assms(2) by (auto simp: msgpackencodecmd_def split: option.splits)
  note d = mp_codec.dec_enc [OF assms(1) e]
  have "msgpackdecodecmd (BLOB (bs @ x)) = Inl ERROR_ILLEGAL_VALUE" if "x \<noteq> []"
    using d [of x] that by (auto simp: msgpackdecodecmd_def split: list.splits)
  moreover have "msgpackdecodecmd (BLOB p) = Inl ERROR_ILLEGAL_VALUE" if q: "bs = p @ q" "q \<noteq> []"
  proof (cases "mp_decode (Suc MP_MAX_DEPTH) p")
    case (Some y)
    then obtain u r where y: "mp_decode (Suc MP_MAX_DEPTH) p = Some (u, r)" by (cases y) simp
    from armD(3) [OF mp_decode_arm y, of q] d [of "[]"] q have False by auto
    then show ?thesis ..
  qed (simp add: msgpackdecodecmd_def)
  ultimately show ?thesis by blast
qed

theorem msgpack_length_errors_witness:
  "msgpackdecodecmd (BLOB [0xC3, 0]) = Inl ERROR_ILLEGAL_VALUE
   \<and> msgpackdecodecmd (BLOB []) = Inl ERROR_ILLEGAL_VALUE"
proof -
  have "msgpackencodecmd TRUE_EXP = Inr (BLOB [0xC3])"
    by (simp add: msgpackencodecmd_def mp_encode_top mp_encode_1_def)
  from msgpack_length_errors [OF mp_ok_scalars(2) this, of "[0]" "[]" "[0xC3]"] show ?thesis by simp
qed

text \<open>
  C39. Whatever bytes an untrusted input holds, a value the decoder returns is in order:
  its fixnums are in the tag range, its texts have an int length and every dictionary in it
  satisfies the dictionary invariant; anything but a blob is an error.
\<close>

theorem msgpack_decode_type:
  "case msgpackdecodecmd x of
     Inl e \<Rightarrow> e = ERROR_ILLEGAL_VALUE
   | Inr v \<Rightarrow> mp_ok v \<and> (\<exists>bs. x = BLOB bs \<and> bs \<noteq> [])"
proof (cases "\<exists>bs v. x = BLOB bs \<and> mp_decode (Suc MP_MAX_DEPTH) bs = Some (v, [])")
  case True
  then obtain bs v where b: "x = BLOB bs" "mp_decode (Suc MP_MAX_DEPTH) bs = Some (v, [])" by blast
  then have "bs \<noteq> []" by auto
  with b armD(1) [OF mp_decode_arm b(2)] show ?thesis by (simp add: msgpackdecodecmd_def del: mp_decode.simps)
next
  case False
  then have "msgpackdecodecmd x = Inl ERROR_ILLEGAL_VALUE"
    by (auto simp: msgpackdecodecmd_def simp del: mp_decode.simps split: exp.splits option.splits list.splits)
  then show ?thesis by simp
qed

end
