(* ===== verification/FloatText.thy ===== *)
theory FloatText
  imports Value Complex_Main
begin

text \<open>
  The two conversions of the C library between doubles and text that the codecs use:
  \<open>printf\<close> with \<open>%.17g\<close> on a finite double, and \<open>strtod\<close> on a decimal literal.
  Both are exact integer computations on the bits; \<open>strtod_fmt_g17\<close> says that reading
  back what was printed gives the same double.
\<close>

section \<open>The value of a finite double\<close>

text \<open>A finite double is \<open>f64_mant * 2 ^ f64_exp2\<close> up to its sign.\<close>

definition f64_mant :: "u64 \<Rightarrow> nat" where
  "f64_mant b = (if f64_expo b = 0 then f64_frac b else 2 ^ 52 + f64_frac b)"

definition f64_exp2 :: "u64 \<Rightarrow> int" where
  "f64_exp2 b = (if f64_expo b = 0 then - 1074 else int (f64_expo b) - 1075)"

definition f64_finite :: "u64 \<Rightarrow> bool" where
  "f64_finite b = (\<not> f64_is_nan b \<and> \<not> f64_is_inf b)"

text \<open>A power with an integer exponent, as a numerator and a denominator.\<close>

definition scale_num :: "nat \<Rightarrow> int \<Rightarrow> nat" where "scale_num base k = base ^ nat k"
definition scale_den :: "nat \<Rightarrow> int \<Rightarrow> nat" where "scale_den base k = base ^ nat (- k)"

section \<open>Printing\<close>

text \<open>The decimal exponent of \<open>num / den\<close>: the greatest \<open>E\<close> with \<open>10 ^ E <= num / den\<close>.\<close>

definition exp10 :: "nat \<Rightarrow> nat \<Rightarrow> int" where
  "exp10 num den =
     (if den \<le> num then int (length (fmt_nat (num div den))) - 1
      else - int (length (fmt_nat ((den - 1) div num))))"

text \<open>The 17 significant digits, rounded to nearest, with their exponent.\<close>

definition digits17 :: "nat \<Rightarrow> nat \<Rightarrow> nat \<times> int" where
  "digits17 num den =
     (let e = exp10 num den;
          n = round_even (num * scale_num 10 (16 - e)) (den * scale_den 10 (16 - e))
      in if n = 10 ^ 17 then (10 ^ 16, e + 1) else (n, e))"

definition strip_zeros :: "bytes \<Rightarrow> bytes" where
  "strip_zeros ds = rev (dropWhile (\<lambda>d. d = 0x30) (rev ds))"

definition with_point :: "bytes \<Rightarrow> bytes \<Rightarrow> bytes" where
  "with_point ip fp = (let f = strip_zeros fp in if f = [] then ip else ip @ 0x2E # f)"

definition fmt_exp :: "int \<Rightarrow> bytes" where
  "fmt_exp e =
     0x65 # (if e < 0 then 0x2D else 0x2B) # (if \<bar>e\<bar> < 10 then [0x30] else []) @ fmt_nat (nat \<bar>e\<bar>)"

definition fmt_digits :: "nat \<Rightarrow> int \<Rightarrow> bytes" where
  "fmt_digits n e =
     (let ds = fmt_nat n in
      if - 4 \<le> e \<and> e < 17 then
        (if 0 \<le> e then with_point (take (nat e + 1) ds) (drop (nat e + 1) ds)
         else with_point [0x30] (replicate (nat (- e) - 1) 0x30 @ ds))
      else with_point (take 1 ds) (drop 1 ds) @ fmt_exp e)"

definition fmt_g17 :: "u64 \<Rightarrow> bytes" where
  "fmt_g17 b =
     (if f64_sign b then [0x2D] else []) @
     (if f64_is_zero b then [0x30]
      else (let (n, e) = digits17 (f64_mant b * scale_num 2 (f64_exp2 b)) (scale_den 2 (f64_exp2 b))
            in fmt_digits n e))"

section \<open>Reading\<close>

text \<open>The binary exponent of \<open>num / den\<close>.\<close>

definition exp2_of :: "nat \<Rightarrow> nat \<Rightarrow> int" where
  "exp2_of num den =
     (if den \<le> num then int (nat_bits (num div den)) - 1
      else - int (nat_bits ((den - 1) div num)))"

text \<open>
  The bits of the double nearest to \<open>num / den\<close>, ties to even: a mantissa rounded at
  the exponent of the last place.  Bit patterns of increasing doubles are consecutive, so a
  mantissa that rounds up to the next power of two carries into the exponent.
\<close>

definition f64_of_ratio :: "nat \<Rightarrow> nat \<Rightarrow> nat" where
  "f64_of_ratio num den =
     (if num = 0 then 0
      else (let q = max (exp2_of num den - 52) (- 1074);
                m = round_even (num * scale_den 2 q) (den * scale_num 2 q)
            in min (nat (q + 1074) * 2 ^ 52 + m) (2047 * 2 ^ 52)))"

text \<open>The parts of a decimal literal: digits, digits after a point, exponent.\<close>

definition lit_frac :: "bytes \<Rightarrow> bytes" where
  "lit_frac s = (case s of c # t \<Rightarrow> if c = 0x2E then takeWhile is_digit t else [] | [] \<Rightarrow> [])"

definition lit_after_frac :: "bytes \<Rightarrow> bytes" where
  "lit_after_frac s = (case s of c # t \<Rightarrow> if c = 0x2E then dropWhile is_digit t else s | [] \<Rightarrow> [])"

definition lit_exp :: "bytes \<Rightarrow> int" where
  "lit_exp s =
     (case s of
        c # t \<Rightarrow>
          if c = 0x65 \<or> c = 0x45 then
            (case t of
               sg # u \<Rightarrow>
                 if sg = 0x2D then - dec_val 0 (takeWhile is_digit u)
                 else if sg = 0x2B then dec_val 0 (takeWhile is_digit u)
                 else dec_val 0 (takeWhile is_digit t)
             | [] \<Rightarrow> 0)
          else 0
      | [] \<Rightarrow> 0)"

definition strtod_pos :: "bytes \<Rightarrow> nat" where
  "strtod_pos s =
     (let ip = takeWhile is_digit s; r = dropWhile is_digit s; fp = lit_frac r;
          k = lit_exp (lit_after_frac r) - int (length fp)
      in f64_of_ratio (nat (dec_val 0 (ip @ fp)) * scale_num 10 k) (scale_den 10 k))"

definition strtod :: "bytes \<Rightarrow> u64" where
  "strtod s =
     (case s of
        c # t \<Rightarrow> if c = 0x2D then of_nat (2 ^ 63 + strtod_pos t) else of_nat (strtod_pos s)
      | [] \<Rightarrow> 0)"

section \<open>Exponents and rounding\<close>

lemma scale_ratio: "0 < b \<Longrightarrow> real (scale_num b k) / real (scale_den b k) = real b powi k"
  by (auto simp: scale_num_def scale_den_def power_int_def field_simps)

lemma scale_den_pos: "0 < b \<Longrightarrow> 0 < scale_den b k" "0 < b \<Longrightarrow> 0 < scale_num b k"
  by (simp_all add: scale_num_def scale_den_def)

text \<open>Exponents found by counting the digits of an integer quotient, in any base.\<close>

lemma floor_exponent:
  assumes len: "\<And>f. 0 < f \<Longrightarrow> 0 < len f \<and> b ^ (len f - 1) \<le> f \<and> f < b ^ len f"
    and pos: "0 < num" "0 < den" "1 < b"
  shows "real b powi (if den \<le> num then int (len (num div den)) - 1 else - int (len ((den - 1) div num)))
      \<le> real num / real den
    \<and> real num / real den
      < real b powi ((if den \<le> num then int (len (num div den)) - 1 else - int (len ((den - 1) div num))) + 1)"
proof (cases "den \<le> num")
  case True
  let ?f = "num div den"
  have f: "0 < ?f" using True pos by (simp add: div_greater_zero_iff)
  note l = len [OF f]
  have e: "real b powi (int (len ?f) - 1) = real (b ^ (len ?f - 1))"
    using l by (simp add: power_int_def of_nat_diff nat_diff_distrib)
  have "real (b ^ (len ?f - 1)) \<le> real ?f" using l by (simp del: of_nat_power)
  also have "\<dots> \<le> real num / real den" by (rule of_nat_div_le_of_nat)
  finally have 1: "real b powi (int (len ?f) - 1) \<le> real num / real den" by (simp only: e)
  have "num < (?f + 1) * den" using dividend_less_times_div [OF pos(2), of num] by (simp add: algebra_simps)
  also have "\<dots> \<le> b ^ len ?f * den" using l by (intro mult_right_mono) simp_all
  finally have "real num < real (b ^ len ?f) * real den" by (metis of_nat_less_iff of_nat_mult)
  then have 2: "real num / real den < real b powi (int (len ?f))"
    using pos by (simp add: divide_less_eq power_int_def)
  show ?thesis using 1 2 True by simp
next
  case False
  let ?g = "(den - 1) div num"
  have g: "0 < ?g" using False pos by (simp add: div_greater_zero_iff)
  note l = len [OF g]
  have "den - 1 < (?g + 1) * num" using dividend_less_times_div [OF pos(1), of "den - 1"] by (simp add: algebra_simps)
  then have "den \<le> (?g + 1) * num" using pos by linarith
  also have "\<dots> \<le> b ^ len ?g * num" using l by (intro mult_right_mono) simp_all
  finally have "real den \<le> real (b ^ len ?g) * real num" by (metis of_nat_le_iff of_nat_mult)
  then have 1: "real b powi (- int (len ?g)) \<le> real num / real den"
    using pos by (simp add: power_int_minus field_simps)
  have "b ^ (len ?g - 1) * num \<le> ?g * num" using l by (intro mult_right_mono) simp_all
  also have "\<dots> \<le> den - 1" by simp
  also have "\<dots> < den" using pos by simp
  finally have "real (b ^ (len ?g - 1)) * real num < real den" by (metis of_nat_less_iff of_nat_mult)
  moreover have "real b powi (- int (len ?g) + 1) = 1 / real (b ^ (len ?g - 1))"
  proof -
    have "- int (len ?g) + 1 = - int (len ?g - 1)" using l by (simp add: of_nat_diff)
    then show ?thesis using pos by (simp only: power_int_minus) (simp add: power_int_def field_simps)
  qed
  moreover have "0 < real (b ^ (len ?g - 1))" using pos by simp
  ultimately have 2: "real num / real den < real b powi (- int (len ?g) + 1)"
    using pos by (simp only: divide_less_eq less_divide_eq of_nat_0_less_iff if_True mult_1 times_divide_eq_left mult.commute)
  show ?thesis using 1 2 False by simp
qed

lemma fmt_nat_len:
  "0 < n \<Longrightarrow> 0 < length (fmt_nat n) \<and> 10 ^ (length (fmt_nat n) - 1) \<le> n \<and> n < 10 ^ length (fmt_nat n)"
proof (induction n rule: fmt_nat.induct)
  case (1 n)
  show ?case
  proof (cases "n < 10")
    case True
    with 1 show ?thesis by (subst (1 2 3) fmt_nat.simps) simp
  next
    case False
    then have p: "0 < n div 10" by (simp add: div_greater_zero_iff)
    define l where "l = length (fmt_nat (n div 10))"
    have l: "length (fmt_nat n) = l + 1" using False by (subst fmt_nat.simps) (simp add: l_def)
    have ih: "0 < l" "10 ^ (l - 1) \<le> n div 10" "n div 10 < 10 ^ l"
      using 1(1) [OF False p] by (simp_all add: l_def)
    have "10 ^ l = 10 * 10 ^ (l - 1)" using ih(1) by (cases l) simp_all
    also have "\<dots> \<le> 10 * (n div 10)" using ih(2) by simp
    also have "\<dots> \<le> n" by simp
    finally have a: "10 ^ l \<le> n" .
    have "n < 10 * (n div 10 + 1)" by simp
    also have "\<dots> \<le> 10 * 10 ^ l" using ih(3) by simp
    finally show ?thesis using a l by simp
  qed
qed

lemma nat_bits_len: "0 < n \<Longrightarrow> 0 < nat_bits n \<and> 2 ^ (nat_bits n - 1) \<le> n \<and> n < 2 ^ nat_bits n"
proof (induction n rule: nat_bits.induct)
  case (1 n)
  have b: "nat_bits n = Suc (nat_bits (n div 2))" using 1(2) by (subst nat_bits.simps) simp
  show ?case
  proof (cases "n div 2 = 0")
    case True
    then have "n = 1" using 1(2) by (simp add: div_eq_0_iff)
    moreover have "nat_bits 0 = 0" by (subst nat_bits.simps) simp
    ultimately show ?thesis using b by simp
  next
    case False
    define l where "l = nat_bits (n div 2)"
    have ih: "0 < l" "2 ^ (l - 1) \<le> n div 2" "n div 2 < 2 ^ l"
      using 1(1) 1(2) False by (simp_all add: l_def)
    have "2 ^ l = 2 * 2 ^ (l - 1)" using ih(1) by (cases l) simp_all
    also have "\<dots> \<le> 2 * (n div 2)" using ih(2) by simp
    also have "\<dots> \<le> n" by simp
    finally have a: "2 ^ l \<le> n" .
    have "n < 2 * (n div 2 + 1)" by simp
    also have "\<dots> \<le> 2 * 2 ^ l" using ih(3) by simp
    finally show ?thesis using a b by (simp add: l_def)
  qed
qed

lemma exp10_bounds:
  assumes "0 < num" "0 < den"
  shows "10 powi exp10 num den \<le> real num / real den" "real num / real den < 10 powi (exp10 num den + 1)"
  using floor_exponent [of "\<lambda>f. length (fmt_nat f)" 10 num den, OF fmt_nat_len] assms
  by (simp_all only: exp10_def of_nat_numeral)

lemma exp2_bounds:
  assumes "0 < num" "0 < den"
  shows "2 powi exp2_of num den \<le> real num / real den" "real num / real den < 2 powi (exp2_of num den + 1)"
  using floor_exponent [of nat_bits 2 num den, OF nat_bits_len] assms
  by (simp_all only: exp2_of_def of_nat_numeral)

lemma round_even_near:
  assumes "0 < d"
  shows "\<bar>real (round_even n d) - real n / real d\<bar> \<le> 1 / 2"
proof -
  define q r where qr: "q = n div d" "r = n mod d"
  have n: "n = q * d + r" "r < d" using assms by (simp_all add: qr)
  have v: "real n / real d = real q + real r / real d" using assms by (simp add: n(1) field_simps)
  have f: "0 \<le> real r / real d" "real r / real d < 1" using n(2) by simp_all
  consider "2 * r < d" | "2 * r > d" | "2 * r = d" by linarith
  then show ?thesis
  proof cases
    case 1
    then have "real r / real d \<le> 1 / 2" using assms by (simp add: field_simps)
    with 1 f show ?thesis unfolding v by (simp add: round_even_def Let_def qr [symmetric])
  next
    case 2
    then have "1 / 2 \<le> real r / real d" using assms by (simp add: field_simps)
    with 2 f show ?thesis unfolding v by (simp add: round_even_def Let_def qr [symmetric])
  next
    case 3
    then have "real r / real d = 1 / 2" using assms by (simp add: field_simps)
    with 3 f show ?thesis unfolding v by (simp add: round_even_def Let_def qr [symmetric])
  qed
qed

lemma round_even_eqI:
  assumes "0 < d" "\<bar>real m - real n / real d\<bar> < 1 / 2"
  shows "round_even n d = m"
proof -
  have "\<bar>real (round_even n d) - real m\<bar> < 1" using round_even_near [OF assms(1), of n] assms(2) by linarith
  then show ?thesis by linarith
qed


section \<open>Seventeen digits determine a double\<close>

text \<open>The value a number of digits and an exponent stand for.\<close>

definition digits_value :: "nat \<Rightarrow> int \<Rightarrow> real" where
  "digits_value n e = real n * 10 powi (e - 16)"

lemma round_scaled:
  assumes "0 < den" "0 < b"
  shows "\<bar>real (round_even (num * scale_num b k) (den * scale_den b k)) - real num / real den * real b powi k\<bar> \<le> 1 / 2"
proof -
  have "0 < den * scale_den b k" using assms by (simp add: scale_den_pos)
  note r = round_even_near [OF this, of "num * scale_num b k"]
  have "real (num * scale_num b k) / real (den * scale_den b k) = real num / real den * real b powi k"
    using scale_ratio [OF assms(2), of k] by (simp only: of_nat_mult times_divide_times_eq [symmetric])
  with r show ?thesis by simp
qed

lemma powi_split: "(10 :: real) powi (a - b) * 10 powi (b - a) = 1"
  by (simp flip: power_int_add)

lemma digits17_near:
  assumes "0 < num" "0 < den" "digits17 num den = (n, e)"
  shows "\<bar>digits_value n e - real num / real den\<bar> \<le> real num / real den / 10 ^ 16 / 2"
    and "10 ^ 16 \<le> n" "n < 10 ^ 17"
proof -
  define x where "x = real num / real den"
  define E where "E = exp10 num den"
  define r where "r = round_even (num * scale_num 10 (16 - E)) (den * scale_den 10 (16 - E))"
  note b = exp10_bounds [OF assms(1,2), folded x_def E_def]
  define y where "y = x * 10 powi (16 - E)"
  have p: "(0 :: real) < 10 powi k" for k :: int by simp
  have ry: "\<bar>real r - y\<bar> \<le> 1 / 2"
    using round_scaled [of den 10 num "16 - E"] assms(2) by (simp add: r_def y_def x_def)
  have "10 powi E * 10 powi (16 - E) = (10 :: real) ^ 16" by (simp flip: power_int_add)
  then have y1: "10 ^ 16 \<le> y" using b(1) p [of "16 - E"] unfolding y_def by (metis mult_right_mono less_imp_le)
  have "10 powi (E + 1) * 10 powi (16 - E) = (10 :: real) ^ 17" by (simp flip: power_int_add)
  then have y2: "y < 10 ^ 17" using b(2) p [of "16 - E"] unfolding y_def by (metis mult_strict_right_mono)
  have r1: "10 ^ 16 \<le> r" and r2: "r \<le> 10 ^ 17"
  proof -
    have c: "real (10 ^ 16) = 10 ^ 16" "real (10 ^ 17) = 10 ^ 17" by simp_all
    have "real (10 ^ 16) < real r + 1" using ry y1 unfolding c by linarith
    then show "10 ^ 16 \<le> r" by linarith
    have "real r < real (10 ^ 17) + 1" using ry y2 unfolding c by linarith
    then show "r \<le> 10 ^ 17" by linarith
  qed
  have d: "(n, e) = (if r = 10 ^ 17 then (10 ^ 16, E + 1) else (r, E))"
    using assms(3) unfolding digits17_def Let_def r_def E_def by (rule sym)
  have v: "digits_value n e = real r * 10 powi (E - 16)"
  proof (cases "r = 10 ^ 17")
    case True
    have "(10 :: real) powi (E + 1 - 16) = 10 * 10 powi (E - 16)"
      using power_int_add [of "10 :: real" "E - 16" 1] by (simp add: algebra_simps)
    with True d show ?thesis by (simp add: digits_value_def)
  qed (use d in \<open>simp add: digits_value_def\<close>)
  have x: "x = y * 10 powi (E - 16)" using powi_split [of "16" E] by (simp add: y_def algebra_simps)
  have "\<bar>digits_value n e - x\<bar> = \<bar>real r - y\<bar> * 10 powi (E - 16)"
    unfolding v x by (simp add: left_diff_distrib [symmetric] abs_mult)
  also have "\<dots> \<le> 1 / 2 * 10 powi (E - 16)" using ry p by (intro mult_right_mono) simp_all
  also have "\<dots> \<le> 1 / 2 * (x / 10 ^ 16)"
  proof -
    have "(10 :: real) powi (E - 16) = 10 powi E / 10 ^ 16" by (simp add: power_int_diff)
    with b(1) show ?thesis by (simp add: divide_right_mono)
  qed
  finally show "\<bar>digits_value n e - real num / real den\<bar> \<le> real num / real den / 10 ^ 16 / 2"
    by (simp add: x_def)
  show "10 ^ 16 \<le> n" "n < 10 ^ 17" using d r1 r2 by (auto split: if_splits)
qed


text \<open>
  A ratio within 2^53 / 10^16 / 2 of a unit in the last place of a mantissa rounds to it.
\<close>

lemma f64_of_ratio_near:
  fixes M :: nat and q :: int
  assumes "0 < num" "0 < den"
    and M: "0 < M" "M < 2 ^ 53" "- 1074 \<le> q" "2 ^ 52 \<le> M \<or> q = - 1074"
    and fin: "nat (q + 1074) * 2 ^ 52 + M < 2047 * 2 ^ 52"
    and near: "\<bar>real num / real den - real M * 2 powi q\<bar> \<le> real M * 2 powi q / 10 ^ 16 / 2"
  shows "f64_of_ratio num den = nat (q + 1074) * 2 ^ 52 + M"
proof -
  define y where "y = real num / real den"
  define e where "e = exp2_of num den"
  define p where "p = max (e - 52) (- 1074)"
  define m where "m = round_even (num * scale_den 2 p) (den * scale_num 2 p)"
  note b = exp2_bounds [OF assms(1,2), folded y_def e_def]
  have pq: "(0 :: real) < 2 powi q" by simp
  define z where "z = y / 2 powi q"
  have y: "y = z * 2 powi q" by (simp add: z_def)
  have zM: "\<bar>z - real M\<bar> \<le> real M / 10 ^ 16 / 2"
  proof -
    have "\<bar>z - real M\<bar> * 2 powi q = \<bar>y - real M * 2 powi q\<bar>"
      using pq by (simp add: y left_diff_distrib [symmetric] abs_mult)
    also have "\<dots> \<le> real M / 10 ^ 16 / 2 * 2 powi q" using near by (simp add: y_def)
    finally show ?thesis using pq by (simp only: mult_le_cancel_right_pos)
  qed
  have "real M \<le> real (2 ^ 53 - 1)" using M(2) by (intro of_nat_mono) simp
  then have Mr: "real M \<le> 2 ^ 53 - 1" "1 \<le> real M" using M(1) by simp_all
  have z1: "\<bar>z - real M\<bar> < 1 / 2" using zM Mr by simp
  have er: "round_even (num * scale_den 2 k) (den * scale_num 2 k) = r"
    if "\<bar>real r - y / 2 powi k\<bar> < 1 / 2" for r k
  proof (rule round_even_eqI)
    show "0 < den * scale_num 2 k" using assms(2) by (simp add: scale_den_pos)
    have "real (scale_den 2 k) / real (scale_num 2 k) = 1 / 2 powi k"
      using scale_ratio [of 2 k] scale_den_pos [of 2 k] by (simp add: field_simps)
    then have "real (num * scale_den 2 k) / real (den * scale_num 2 k) = y / 2 powi k"
      unfolding y_def of_nat_mult times_divide_times_eq [symmetric] by simp
    with that show "\<bar>real r - real (num * scale_den 2 k) / real (den * scale_num 2 k)\<bar> < 1 / 2" by simp
  qed
  have powl: "j < k" if "(2 :: real) powi j < 2 powi k" for j k
  proof (rule ccontr)
    assume "\<not> j < k"
    then have "(2 :: real) powi k \<le> 2 powi j" by (intro power_int_increasing) simp_all
    with that show False by simp
  qed
  have "z < 2 ^ 53" using z1 Mr by linarith
  then have "y < 2 powi (q + 53)" using pq by (simp add: y power_int_add mult.commute)
  then have "2 powi e < (2 :: real) powi (q + 53)" using b(1) by linarith
  then have e1: "e < q + 53" by (rule powl)
  have main: "min (nat (p + 1074) * 2 ^ 52 + m) (2047 * 2 ^ 52) = nat (q + 1074) * 2 ^ 52 + M"
  proof (cases "p = q")
    case True
    have "m = M" unfolding m_def True by (rule er) (use z1 in \<open>simp add: z_def abs_minus_commute\<close>)
    with True fin show ?thesis by simp
  next
    case False
    then have q: "q \<noteq> - 1074" using e1 by (auto simp: p_def)
    then have M52: "2 ^ 52 \<le> M" using M(4) by simp
    then have "real (2 ^ 52) \<le> real M" by (rule of_nat_mono)
    then have M52r: "2 ^ 52 \<le> real M" by simp
    moreover have "(2 :: real) ^ 52 = 2 * 2 ^ 51" "(1 :: real) \<le> 2 ^ 51" by simp_all
    ultimately have "2 ^ 51 < z" using z1 by linarith
    then have "2 powi (q + 51) < y" using pq by (simp add: y power_int_add mult.commute)
    then have "(2 :: real) powi (q + 51) < 2 powi (e + 1)" using b(2) by linarith
    then have "q + 51 < e + 1" by (rule powl)
    with e1 False q M(3) have p: "p = q - 1" "e = q + 51" by (auto simp: p_def)
    then have "y < 2 powi (q + 52)" using b(2) by (simp add: algebra_simps)
    then have z2: "z < 2 ^ 52" using pq by (simp add: y power_int_add mult.commute)
    then have "real M < 2 ^ 52 + 1" using z1 by linarith
    then have "real M < real (2 ^ 52 + 1)" by simp
    then have "M = 2 ^ 52" using M52 by (simp only: of_nat_less_iff)
    then have M': "M = 2 ^ 52" "real M = 2 ^ 52" by simp_all
    have h: "y / 2 powi (q - 1) = 2 * z"
      using pq by (simp add: z_def power_int_diff)
    define w where "w = z - 2 ^ 52"
    have w: "z = w + 2 ^ 52" by (simp add: w_def)
    have "\<bar>w\<bar> \<le> 2 ^ 52 / 10 ^ 16 / 2" using zM unfolding M'(2) w_def .
    also have "\<dots> < (1 :: real) / 4" by simp
    finally have zq: "\<bar>w\<bar> < 1 / 4" .
    have "m = 2 ^ 53" unfolding m_def p(1)
    proof (rule er)
      show "\<bar>real (2 ^ 53 :: nat) - y / 2 powi (q - 1)\<bar> < 1 / 2" unfolding h using zq by (simp add: w abs_mult)
    qed
    moreover have "nat (p + 1074) + 1 = nat (q + 1074)" using p(1) q M(3) by simp
    then have "nat (p + 1074) * 2 ^ 52 + 2 ^ 53 = nat (q + 1074) * 2 ^ 52 + 2 ^ 52" by (simp flip: \<open>nat (p + 1074) + 1 = nat (q + 1074)\<close>)
    ultimately show ?thesis using fin M'(1) by simp
  qed
  have n0: "num \<noteq> 0" using assms(1) by simp
  show ?thesis using main n0
    unfolding f64_of_ratio_def Let_def m_def p_def e_def by (simp only: if_False)
qed


text \<open>The bits of a finite double from its mantissa and exponent.\<close>

lemma f64_parts:
  "unat b mod 2 ^ 63 = f64_expo b * 2 ^ 52 + f64_frac b"
  "unat b = (if f64_sign b then 2 ^ 63 else 0) + unat b mod 2 ^ 63"
proof -
  have "unat b mod (2 ^ 52 * 2 ^ 11) = 2 ^ 52 * (unat b div 2 ^ 52 mod 2 ^ 11) + unat b mod 2 ^ 52"
    by (rule mod_mult2_eq)
  then show "unat b mod 2 ^ 63 = f64_expo b * 2 ^ 52 + f64_frac b"
    by (simp add: f64_expo_def f64_frac_def)
  have u: "unat b < 2 ^ 64" using unsigned_less [of b] by simp
  show "unat b = (if f64_sign b then 2 ^ 63 else 0) + unat b mod 2 ^ 63"
  proof (cases "f64_sign b")
    case True
    then have "2 ^ 63 \<le> unat b" by (simp add: f64_sign_def)
    then have "unat b mod 2 ^ 63 = (unat b - 2 ^ 63) mod 2 ^ 63" by (rule le_mod_geq)
    also have "\<dots> = unat b - 2 ^ 63" using u by simp
    finally show ?thesis using True \<open>2 ^ 63 \<le> unat b\<close> by simp
  next
    case False
    then have "unat b < 2 ^ 63" by (simp add: f64_sign_def)
    with False show ?thesis by simp
  qed
qed

lemma f64_mant_facts:
  assumes "f64_finite b" "\<not> f64_is_zero b"
  shows "0 < f64_mant b" "f64_mant b < 2 ^ 53" "- 1074 \<le> f64_exp2 b"
    "2 ^ 52 \<le> f64_mant b \<or> f64_exp2 b = - 1074"
    "nat (f64_exp2 b + 1074) * 2 ^ 52 + f64_mant b = unat b mod 2 ^ 63"
    "unat b mod 2 ^ 63 < 2047 * 2 ^ 52"
proof -
  have f: "f64_frac b < 2 ^ 52" by (simp add: f64_frac_def)
  have e: "f64_expo b < 2048" by (simp add: f64_expo_def)
  then have e': "f64_expo b \<le> 2046" using assms(1) by (auto simp: f64_finite_def f64_is_nan_def f64_is_inf_def)
  show "0 < f64_mant b" using assms(2) by (auto simp: f64_mant_def f64_is_zero_def)
  show "f64_mant b < 2 ^ 53" using f by (simp add: f64_mant_def)
  show "- 1074 \<le> f64_exp2 b" "2 ^ 52 \<le> f64_mant b \<or> f64_exp2 b = - 1074"
    by (auto simp: f64_exp2_def f64_mant_def)
  show "nat (f64_exp2 b + 1074) * 2 ^ 52 + f64_mant b = unat b mod 2 ^ 63"
    unfolding f64_parts(1)
  proof (cases "f64_expo b = 0")
    case False
    then obtain k where k: "f64_expo b = Suc k" by (cases "f64_expo b") simp_all
    then have "nat (f64_exp2 b + 1074) = k" by (simp add: f64_exp2_def)
    with k show "nat (f64_exp2 b + 1074) * 2 ^ 52 + f64_mant b = f64_expo b * 2 ^ 52 + f64_frac b"
      by (simp add: f64_mant_def)
  qed (simp add: f64_exp2_def f64_mant_def)
  have "f64_expo b * 2 ^ 52 \<le> 2046 * 2 ^ 52" using e' by (intro mult_right_mono) simp_all
  then show "unat b mod 2 ^ 63 < 2047 * 2 ^ 52" unfolding f64_parts(1) using f by linarith
qed

lemma digits_back:
  assumes "f64_finite b" "\<not> f64_is_zero b"
    and "digits17 (f64_mant b * scale_num 2 (f64_exp2 b)) (scale_den 2 (f64_exp2 b)) = (n, e)"
    and "0 < num" "0 < den" "real num / real den = digits_value n e"
  shows "f64_of_ratio num den = unat b mod 2 ^ 63"
proof -
  note m = f64_mant_facts [OF assms(1,2)]
  have v: "real (f64_mant b * scale_num 2 (f64_exp2 b)) / real (scale_den 2 (f64_exp2 b))
      = real (f64_mant b) * 2 powi f64_exp2 b"
    using scale_ratio [of 2 "f64_exp2 b"] by (simp only: of_nat_mult times_divide_eq_right [symmetric]) simp
  have p: "0 < f64_mant b * scale_num 2 (f64_exp2 b)" "0 < scale_den 2 (f64_exp2 b)"
    using m(1) by (simp_all add: scale_den_pos)
  have "\<bar>real num / real den - real (f64_mant b) * 2 powi f64_exp2 b\<bar>
      \<le> real (f64_mant b) * 2 powi f64_exp2 b / 10 ^ 16 / 2"
    using digits17_near(1) [OF p assms(3)] unfolding v assms(6) .
  from f64_of_ratio_near [OF assms(4,5) m(1-4) _ this] show ?thesis using m(5,6) by simp
qed

section \<open>The text of a number\<close>

text \<open>A decimal literal: digits, a fraction when there is one, an exponent when there is one.\<close>

definition lit :: "bytes \<Rightarrow> bytes \<Rightarrow> int option \<Rightarrow> bytes" where
  "lit ip fp ex =
     ip @ (if fp = [] then [] else 0x2E # fp) @ (case ex of None \<Rightarrow> [] | Some e \<Rightarrow> fmt_exp e)"

definition lit_ok :: "bytes \<Rightarrow> bytes \<Rightarrow> bool" where
  "lit_ok ip fp = (list_all is_digit ip \<and> ip \<noteq> [] \<and> list_all is_digit fp \<and> (ip = [0x30] \<or> hd ip \<noteq> 0x30))"

definition lit_k :: "bytes \<Rightarrow> int option \<Rightarrow> int" where
  "lit_k fp ex = (case ex of None \<Rightarrow> 0 | Some e \<Rightarrow> e) - int (length fp)"

lemma takeWhile_digits: "list_all is_digit ds \<Longrightarrow> (r = [] \<or> \<not> is_digit (hd r)) \<Longrightarrow>
    takeWhile is_digit (ds @ r) = ds \<and> dropWhile is_digit (ds @ r) = r"
  by (induction ds) (cases r, auto)

lemma not_digits: "\<not> is_digit 0x2E" "\<not> is_digit 0x65" "\<not> is_digit 0x2D" "\<not> is_digit 0x2B" "\<not> is_digit 0x45"
  "is_digit 0x30"
  by (simp_all add: is_digit_def)

lemma fmt_exp_digits: "list_all is_digit ((if \<bar>e :: int\<bar> < 10 then [0x30] else []) @ fmt_nat (nat \<bar>e\<bar>))"
  by (simp add: fmt_nat_digits not_digits)

lemma lit_exp_fmt: "lit_exp (fmt_exp e) = e"
proof -
  let ?ds = "(if \<bar>e\<bar> < 10 then [0x30] else []) @ fmt_nat (nat \<bar>e\<bar>)"
  have t: "takeWhile is_digit ?ds = ?ds" using fmt_exp_digits by (simp add: list_all_iff)
  have v: "dec_val 0 ?ds = \<bar>e\<bar>" by (simp add: dec_val_fmt_nat)
  have "lit_exp (fmt_exp e) = (if e < 0 then - dec_val 0 (takeWhile is_digit ?ds) else dec_val 0 (takeWhile is_digit ?ds))"
    by (simp add: fmt_exp_def lit_exp_def del: takeWhile_eq_all_conv)
  then show ?thesis unfolding t v by simp
qed

lemma strtod_lit:
  assumes "lit_ok ip fp"
  shows "strtod_pos (lit ip fp ex)
    = f64_of_ratio (nat (dec_val 0 (ip @ fp)) * scale_num 10 (lit_k fp ex)) (scale_den 10 (lit_k fp ex))"
proof -
  let ?ex = "case ex of None \<Rightarrow> [] | Some e \<Rightarrow> fmt_exp e"
  let ?r = "(if fp = [] then [] else 0x2E # fp) @ ?ex"
  have d: "list_all is_digit ip" "list_all is_digit fp" using assms by (simp_all add: lit_ok_def)
  have x: "?ex = [] \<or> \<not> is_digit (hd ?ex)" by (cases ex) (simp_all add: fmt_exp_def not_digits)
  have r: "?r = [] \<or> \<not> is_digit (hd ?r)" using x by (auto simp: not_digits)
  have ne: "?ex \<noteq> [] \<Longrightarrow> hd ?ex \<noteq> 0x2E" by (cases ex) (simp_all add: fmt_exp_def)
  have f: "lit_frac ?r = fp \<and> lit_after_frac ?r = ?ex"
  proof (cases "fp = []")
    case True
    then show ?thesis using ne by (cases ?ex) (simp_all add: lit_frac_def lit_after_frac_def)
  next
    case False
    then show ?thesis using takeWhile_digits [OF d(2) x] by (simp add: lit_frac_def lit_after_frac_def)
  qed
  have e: "lit_exp ?ex = (case ex of None \<Rightarrow> 0 | Some e \<Rightarrow> e)"
    using lit_exp_fmt by (cases ex) (simp add: lit_exp_def, simp)
  show ?thesis
    using takeWhile_digits [OF d(1) r] f e
    by (simp add: strtod_pos_def lit_def Let_def lit_k_def)
qed


text \<open>The value of a literal.\<close>

definition lit_value :: "bytes \<Rightarrow> bytes \<Rightarrow> int option \<Rightarrow> real" where
  "lit_value ip fp ex = real_of_int (dec_val 0 (ip @ fp)) * 10 powi lit_k fp ex"

lemma dec_val_ge: "list_all is_digit s \<Longrightarrow> 0 \<le> a \<Longrightarrow> a \<le> dec_val a s"
proof (induction s arbitrary: a)
  case (Cons c s)
  have "0x30 \<le> uint c" using Cons.prems(1) by (simp add: is_digit_def word_le_def)
  then have "a \<le> a * 10 + (uint c - 48)" using Cons.prems(2) by simp
  with Cons.IH [of "a * 10 + (uint c - 48)"] Cons.prems show ?case by simp
qed simp

lemma lit_back:
  assumes "f64_finite b" "\<not> f64_is_zero b"
    and "digits17 (f64_mant b * scale_num 2 (f64_exp2 b)) (scale_den 2 (f64_exp2 b)) = (n, e)"
    and "lit_ok ip fp" "lit_value ip fp ex = digits_value n e" "0 < n"
  shows "strtod_pos (lit ip fp ex) = unat b mod 2 ^ 63"
proof -
  let ?N = "nat (dec_val 0 (ip @ fp))"
  have dn: "0 \<le> dec_val 0 (ip @ fp)"
    using dec_val_ge [of "ip @ fp" 0] assms(4) by (simp add: lit_ok_def)
  have "real (?N * scale_num 10 (lit_k fp ex)) / real (scale_den 10 (lit_k fp ex)) = lit_value ip fp ex"
    using scale_ratio [of 10 "lit_k fp ex"] dn
    by (simp only: of_nat_mult times_divide_eq_right [symmetric]) (simp add: lit_value_def)
  then have v: "real (?N * scale_num 10 (lit_k fp ex)) / real (scale_den 10 (lit_k fp ex)) = digits_value n e"
    by (simp add: assms(5))
  have "0 < digits_value n e" using assms(6) by (simp add: digits_value_def)
  then have "0 < ?N * scale_num 10 (lit_k fp ex)" unfolding v [symmetric] by (cases "?N * scale_num 10 (lit_k fp ex) = 0") simp_all
  then show ?thesis
    unfolding strtod_lit [OF assms(4)]
    by (intro digits_back [OF assms(1-3) _ _ v]) (simp_all add: scale_den_pos)
qed

lemma dec_val_acc: "dec_val a s = a * 10 ^ length s + dec_val 0 s"
proof (induction s arbitrary: a)
  case (Cons c s)
  show ?case using Cons [of "a * 10 + (uint c - 48)"] Cons [of "uint c - 48"] by (simp add: algebra_simps)
qed simp

lemma lit_val_zeros: "dec_val a (replicate k 0x30) = a * 10 ^ k"
  by (induction k arbitrary: a) simp_all

lemma strip_zeros_split: "\<exists>k. ds = strip_zeros ds @ replicate k 0x30"
proof -
  have "rev ds = takeWhile (\<lambda>d. d = 0x30) (rev ds) @ dropWhile (\<lambda>d. d = 0x30) (rev ds)" by simp
  then have "ds = rev (dropWhile (\<lambda>d. d = 0x30) (rev ds)) @ rev (takeWhile (\<lambda>d. d = 0x30) (rev ds))"
    by (metis rev_append rev_rev_ident)
  moreover have "takeWhile (\<lambda>d. d = 0x30) xs = replicate (length (takeWhile (\<lambda>d. d = 0x30) xs)) 0x30" for xs :: bytes
    by (induction xs) auto
  ultimately show ?thesis unfolding strip_zeros_def by (metis rev_replicate)
qed

lemma lit_value_strip:
  "lit_value ip (strip_zeros fp) ex = lit_value ip fp ex"
proof -
  obtain k where k: "fp = strip_zeros fp @ replicate k 0x30" using strip_zeros_split by blast
  let ?s = "strip_zeros fp"
  have 1: "dec_val 0 (ip @ fp) = dec_val 0 (ip @ ?s) * 10 ^ k"
    by (subst k) (simp only: append_assoc [symmetric] dec_val_append [of _ "ip @ ?s"] lit_val_zeros)
  have 2: "lit_k ?s ex = lit_k fp ex + int k" by (subst (2) k) (simp add: lit_k_def)
  show ?thesis unfolding lit_value_def 1 2 by (simp add: power_int_add)
qed

lemma strip_digits: "list_all is_digit fp \<Longrightarrow> list_all is_digit (strip_zeros fp)"
  using strip_zeros_split [of fp] by (metis list_all_append)

lemma lit_value_split: "lit_value (take j ds) (drop j ds) ex
    = real_of_int (dec_val 0 ds) * 10 powi ((case ex of None \<Rightarrow> 0 | Some e \<Rightarrow> e) - int (length ds - j))"
  by (simp add: lit_value_def lit_k_def)

lemma with_point_lit: "with_point ip fp = lit ip (strip_zeros fp) None"
  "lit ip fp None @ fmt_exp e = lit ip fp (Some e)"
  by (simp_all add: with_point_def lit_def Let_def)


lemma fmt_nat_hd_nonzero: "0 < n \<Longrightarrow> hd (fmt_nat n) \<noteq> 0x30"
proof (induction n rule: fmt_nat.induct)
  case (1 n)
  show ?case
  proof (cases "n < 10")
    case True
    have "of_nat (48 + n) \<noteq> (0x30 :: byte)"
    proof
      assume "of_nat (48 + n) = (0x30 :: byte)"
      then have "uint (of_nat (48 + n) :: byte) = uint (0x30 :: byte)" by simp
      then show False using digit_byte(2) [OF True] 1(2) by simp
    qed
    with True show ?thesis by (subst fmt_nat.simps) simp
  next
    case False
    then show ?thesis using 1(1) fmt_nat_nonempty [of "n div 10"]
      by (subst fmt_nat.simps) (simp add: div_greater_zero_iff)
  qed
qed

lemma fmt_digits_lit:
  assumes "10 ^ 16 \<le> n" "n < 10 ^ 17"
  shows "\<exists>ip fp ex. fmt_digits n e = lit ip fp ex \<and> lit_ok ip fp \<and> lit_value ip fp ex = digits_value n e"
proof -
  define ds where "ds = fmt_nat n"
  have n: "0 < n" using assms(1) by (rule less_le_trans [rotated]) simp
  have len: "length ds = 17"
  proof -
    note l = fmt_nat_len [OF n, folded ds_def]
    have "(10 :: nat) ^ (length ds - 1) < 10 ^ 17" "(10 :: nat) ^ 16 < 10 ^ length ds" using l assms by linarith+
    then show ?thesis by (simp only: power_strict_increasing_iff)
  qed
  have dig: "list_all is_digit ds" by (simp add: ds_def fmt_nat_digits)
  have hd0: "hd ds \<noteq> 0x30" unfolding ds_def by (rule fmt_nat_hd_nonzero [OF n])
  have v: "dec_val 0 ds = int n" by (simp add: ds_def dec_val_fmt_nat)
  have dt: "list_all is_digit (take j ds)" "list_all is_digit (drop j ds)" for j
    using dig by (metis append_take_drop_id list_all_append)+
  have ok: "lit_ok (take (Suc j) ds) (strip_zeros (drop (Suc j) ds))" for j
    using dt(1) [of "Suc j"] strip_digits [OF dt(2) [of "Suc j"]] hd0 len
    by (simp add: lit_ok_def hd_take) auto
  consider (a) "0 \<le> e" "e < 17" | (b) "- 4 \<le> e" "e < 0" | (c) "e < - 4 \<or> 17 \<le> e" by linarith
  then show ?thesis
  proof cases
    case a
    have "int (length ds - (nat e + 1)) = 16 - e" using a len by simp
    then have "lit_value (take (nat e + 1) ds) (drop (nat e + 1) ds) None = digits_value n e"
      unfolding lit_value_split by (simp add: v digits_value_def)
    then show ?thesis
      using a ok [of "nat e"] by - (rule exI [of _ "take (nat e + 1) ds"], rule exI [of _ "strip_zeros (drop (nat e + 1) ds)"], rule exI [of _ None],
          simp add: fmt_digits_def Let_def ds_def [symmetric] with_point_lit lit_value_strip)
  next
    case b
    let ?f = "replicate (nat (- e) - 1) 0x30 @ ds"
    have 1: "dec_val 0 ([0x30] @ ?f) = int n"
      by (simp add: dec_val_append lit_val_zeros v)
    have "int (length ?f) = 16 - e" using b len by simp
    then have "lit_value [0x30] ?f None = digits_value n e"
      unfolding lit_value_def 1 lit_k_def by (simp add: digits_value_def)
    moreover have "list_all is_digit ?f" using dig by (auto simp: list_all_iff not_digits)
    then have "lit_ok [0x30] (strip_zeros ?f)"
      using strip_digits [of ?f] by (simp add: lit_ok_def not_digits)
    ultimately show ?thesis
      using b by - (rule exI [of _ "[0x30]"], rule exI [of _ "strip_zeros ?f"], rule exI [of _ None],
          simp add: fmt_digits_def Let_def ds_def [symmetric] with_point_lit lit_value_strip)
  next
    case c
    have "lit_value (take 1 ds) (drop 1 ds) (Some e) = digits_value n e"
      unfolding lit_value_split using len by (simp add: v digits_value_def)
    moreover have "\<not> (- 4 \<le> e \<and> e < 17)" using c by linarith
    ultimately show ?thesis
      using ok [of 0] by - (rule exI [of _ "take 1 ds"], rule exI [of _ "strip_zeros (drop 1 ds)"], rule exI [of _ "Some e"],
          simp add: fmt_digits_def Let_def ds_def [symmetric] with_point_lit lit_value_strip;
          linarith)
  qed
qed

definition f64_sg :: "u64 \<Rightarrow> bytes" where
  "f64_sg b = (if f64_sign b then [0x2D] else [])"

lemma lit_hd: "lit_ok ip fp \<Longrightarrow> \<exists>c t. lit ip fp ex = c # t \<and> is_digit c"
  by (cases ip) (auto simp: lit_ok_def lit_def)

lemma strtod_sg:
  assumes "lit_ok ip fp" "strtod_pos (lit ip fp ex) = unat b mod 2 ^ 63"
  shows "strtod (f64_sg b @ lit ip fp ex) = b"
proof -
  obtain c t where c: "lit ip fp ex = c # t" "is_digit c" using lit_hd [OF assms(1)] by blast
  have "strtod (f64_sg b @ lit ip fp ex) = of_nat ((if f64_sign b then 2 ^ 63 else 0) + unat b mod 2 ^ 63)"
    using c assms(2) not_digits(3) by (auto simp: strtod_def f64_sg_def)
  also have "\<dots> = b" unfolding f64_parts(2) [symmetric] by simp
  finally show ?thesis .
qed

lemma fmt_g17_lit:
  assumes "f64_finite b"
  shows "\<exists>ip fp ex. fmt_g17 b = f64_sg b @ lit ip fp ex \<and> lit_ok ip fp
    \<and> (\<forall>fp'. lit_ok ip fp' \<longrightarrow> lit_value ip fp' ex = lit_value ip fp ex \<longrightarrow> strtod (f64_sg b @ lit ip fp' ex) = b)"
proof (cases "f64_is_zero b")
  case True
  have z: "unat b mod 2 ^ 63 = 0" using True f64_parts(1) [of b] by (simp add: f64_is_zero_def)
  have "strtod (f64_sg b @ lit [0x30] fp' None) = b"
    if ok: "lit_ok [0x30] fp'" and v: "lit_value [0x30] fp' None = lit_value [0x30] [] None" for fp'
  proof (rule strtod_sg [OF ok])
    have "dec_val 0 ([0x30] @ fp') = 0" using v by (simp add: lit_value_def)
    then show "strtod_pos (lit [0x30] fp' None) = unat b mod 2 ^ 63"
      unfolding strtod_lit [OF ok] z by (simp add: f64_of_ratio_def)
  qed
  moreover have "fmt_g17 b = f64_sg b @ lit [0x30] [] None" "lit_ok [0x30] []"
    using True by (simp_all add: fmt_g17_def f64_sg_def lit_def lit_ok_def not_digits)
  ultimately show ?thesis by blast
next
  case False
  obtain n e where d: "digits17 (f64_mant b * scale_num 2 (f64_exp2 b)) (scale_den 2 (f64_exp2 b)) = (n, e)"
    by (metis surj_pair)
  have p: "0 < f64_mant b * scale_num 2 (f64_exp2 b)" "0 < scale_den 2 (f64_exp2 b)"
    using f64_mant_facts(1) [OF assms False] by (simp_all add: scale_den_pos)
  note n = digits17_near(2,3) [OF p d]
  then have n0: "0 < n" by (intro less_le_trans [OF _ n(1)]) simp
  from fmt_digits_lit [OF n, of e] obtain ip fp ex where
    l: "fmt_digits n e = lit ip fp ex" "lit_ok ip fp" "lit_value ip fp ex = digits_value n e" by blast
  have "fmt_g17 b = f64_sg b @ lit ip fp ex" using False d l(1) by (simp add: fmt_g17_def f64_sg_def)
  moreover have "strtod (f64_sg b @ lit ip fp' ex) = b"
    if "lit_ok ip fp'" "lit_value ip fp' ex = lit_value ip fp ex" for fp'
    by (rule strtod_sg [OF that(1) lit_back [OF assms False d that(1) _ n0]]) (simp add: that(2) l(3))
  ultimately show ?thesis using l(2) by blast
qed

lemma strtod_fmt_g17: "f64_finite b \<Longrightarrow> strtod (fmt_g17 b) = b"
  using fmt_g17_lit [of b] by metis

end
