(* ===== verification/Json.thy ===== *)
theory Json
  imports Msgpack FloatText Utf8
begin

text \<open>
  The JSON codec of \<open>json.h\<close>.  As in \<open>Msgpack\<close>, a writer returns the bytes it appends
  (\<open>None\<close> for a failure), a reader takes the text from \<open>*pos\<close> on, and the first argument
  of \<open>js_encode\<close> and \<open>js_decode\<close> is the number of levels left: both fail at a depth
  \<open>> JS_MAX_DEPTH\<close>, so they start with one more than it.  A reader stops with \<open>Malformed\<close>,
  or with \<open>Shutdown\<close> when a string is too long for the \<open>int\<close> length of \<open>make_string\<close> and
  the process ends.  The two loops that read
  elements and members carry fuel, one unit for each byte of input;
  \<open>json_loops_terminate\<close> shows that it never runs out.
\<close>

section \<open>Encoding\<close>

definition JS_MAX_DEPTH :: nat where
  "JS_MAX_DEPTH = 512"

definition js_put_char :: "byte \<Rightarrow> bytes" where
  "js_put_char c =
     (if c = 0x22 then [0x5C, 0x22]
      else if c = 0x5C then [0x5C, 0x5C]
      else if c = 0x08 then [0x5C, 0x62]
      else if c = 0x0C then [0x5C, 0x66]
      else if c = 0x0A then [0x5C, 0x6E]
      else if c = 0x0D then [0x5C, 0x72]
      else if c = 0x09 then [0x5C, 0x74]
      else if c < 0x20 then [0x5C, 0x75, 0x30, 0x30, hx ! (unat c div 16), hx ! (unat c mod 16)]
      else [c])"

definition js_put_string :: "bytes \<Rightarrow> bytes" where
  "js_put_string s = 0x22 # concat (map js_put_char (c_str s)) @ [0x22]"

definition js_newline_indent :: "nat \<Rightarrow> nat \<Rightarrow> bytes" where
  "js_newline_indent indent depth = (if indent = 0 then [] else 0x0A # replicate (indent * depth) 0x20)"

text \<open>
  The loop over the items of a container: a comma before every item but the first, a line
  break and indentation before each, and before the closing bracket when there was one.
\<close>

fun js_put_items :: "bytes \<Rightarrow> ('a \<Rightarrow> bytes option) \<Rightarrow> bool \<Rightarrow> 'a list \<Rightarrow> bytes option" where
  "js_put_items nl put first [] = Some []"
| "js_put_items nl put first (x # xs) =
     put_and (Some ((if first then [] else [0x2C]) @ nl)) (put_and (put x) (js_put_items nl put False xs))"

definition js_put_seq :: "byte \<Rightarrow> byte \<Rightarrow> nat \<Rightarrow> nat \<Rightarrow> ('a \<Rightarrow> bytes option) \<Rightarrow> 'a list \<Rightarrow> bytes option" where
  "js_put_seq opn cls indent depth put xs =
     put_and (Some [opn])
       (put_and (js_put_items (js_newline_indent indent (depth + 1)) put True xs)
         (Some ((if xs = [] then [] else js_newline_indent indent depth) @ [cls])))"

definition js_put_float :: "u64 \<Rightarrow> bytes option" where
  "js_put_float d =
     (if \<not> f64_finite d then None
      else (let tmp = fmt_g17 d in
            Some (if list_all (\<lambda>c. c \<noteq> 0x2E \<and> c \<noteq> 0x65 \<and> c \<noteq> 0x45) tmp then tmp @ [0x2E, 0x30] else tmp)))"

definition vec_get_boxed_i64 :: "int \<Rightarrow> exp" where
  "vec_get_boxed_i64 v = (if FIX_FITS v then MAKE_FIX v else FLOAT (f64_of_int v))"

definition js_encode_1 :: "(exp \<Rightarrow> bytes option) \<Rightarrow> nat \<Rightarrow> nat \<Rightarrow> exp option \<Rightarrow> bytes option" where
  "js_encode_1 enc indent depth v =
     (let array = js_put_seq 0x5B 0x5D indent depth enc in
      case v of
        None \<Rightarrow> Some (bytes_of ''null'')
      | Some NIL_EXP \<Rightarrow> Some (bytes_of ''null'')
      | Some TRUE_EXP \<Rightarrow> Some (bytes_of ''true'')
      | Some (FIX n) \<Rightarrow> Some (fmt_int n)
      | Some (CHARACTER c) \<Rightarrow> Some (fmt_nat (unat c))
      | Some (FLOAT d) \<Rightarrow> js_put_float d
      | Some (STRING s) \<Rightarrow> Some (js_put_string s)
      | Some (SYMBOL s) \<Rightarrow> Some (js_put_string s)
      | Some (PAIR c n) \<Rightarrow> array (pair_contents (Some (PAIR c n)))
      | Some (VEC_GEN xs) \<Rightarrow> array xs
      | Some (VEC_I64 ns) \<Rightarrow> array (map vec_get_boxed_i64 ns)
      | Some (VEC_F64 fs) \<Rightarrow> array (map FLOAT fs)
      | Some (DICT d) \<Rightarrow>
          js_put_seq 0x7B 0x7D indent depth
            (\<lambda>k. put_and (Some (js_put_string (kv_name k) @ [0x3A] @ (if indent = 0 then [] else [0x20])))
                   (enc (kv_val k)))
            (dict_entries d)
      | _ \<Rightarrow> None)"

fun js_encode :: "nat \<Rightarrow> nat \<Rightarrow> exp option \<Rightarrow> bytes option" where
  "js_encode 0 indent v = None"
| "js_encode (Suc levels) indent v =
     js_encode_1 (\<lambda>x. js_encode levels indent (Some x)) indent (JS_MAX_DEPTH - levels) v"

section \<open>Decoding\<close>

definition js_ws :: "byte \<Rightarrow> bool" where
  "js_ws c = (c = 0x20 \<or> c = 0x09 \<or> c = 0x0A \<or> c = 0x0D)"

definition js_skip_ws :: "bytes \<Rightarrow> bytes" where
  "js_skip_ws b = dropWhile js_ws b"

fun js_hex_from :: "nat \<Rightarrow> bytes \<Rightarrow> u32 \<Rightarrow> u32 option" where
  "js_hex_from 0 b v = Some v"
| "js_hex_from (Suc n) [] v = None"
| "js_hex_from (Suc n) (c # b) v =
     (let d = chr2hex c in if d < 0 then None else js_hex_from n b (push_bit 4 v OR of_int d))"

definition js_hex4 :: "bytes \<Rightarrow> u32 option" where
  "js_hex4 b = (if length b < 4 then None else js_hex_from 4 b 0)"

text \<open>The text after a backslash: the bytes it stands for and what follows.\<close>

definition js_unicode :: "bytes \<Rightarrow> (bytes \<times> bytes) option" where
  "js_unicode b =
     (case js_hex4 b of
        None \<Rightarrow> None
      | Some cp \<Rightarrow>
          if cp = 0 then None
          else (let r = drop 4 b in
            if 0xD800 \<le> cp \<and> cp \<le> 0xDBFF then
              (if length r < 6 \<or> r ! 0 \<noteq> 0x5C \<or> r ! 1 \<noteq> 0x75 then None
               else (case js_hex4 (drop 2 r) of
                       None \<Rightarrow> None
                     | Some lo \<Rightarrow>
                         if lo < 0xDC00 \<or> lo > 0xDFFF then None
                         else Some (utf8_encode (0x10000 + push_bit 10 (cp - 0xD800) + (lo - 0xDC00)), drop 6 r)))
            else if 0xDC00 \<le> cp \<and> cp \<le> 0xDFFF then None
            else Some (utf8_encode cp, r)))"

definition js_escape :: "bytes \<Rightarrow> (bytes \<times> bytes) option" where
  "js_escape b =
     (case b of
        [] \<Rightarrow> None
      | esc # r \<Rightarrow>
          if esc = 0x22 then Some ([0x22], r)
          else if esc = 0x5C then Some ([0x5C], r)
          else if esc = 0x2F then Some ([0x2F], r)
          else if esc = 0x62 then Some ([0x08], r)
          else if esc = 0x66 then Some ([0x0C], r)
          else if esc = 0x6E then Some ([0x0A], r)
          else if esc = 0x72 then Some ([0x0D], r)
          else if esc = 0x74 then Some ([0x09], r)
          else if esc = 0x75 then js_unicode r
          else None)"

lemma js_escape_shorter: "js_escape b = Some (u, r) \<Longrightarrow> length r < length b"
  by (auto simp: js_escape_def js_unicode_def Let_def split: list.splits if_splits option.splits)

text \<open>
  \<open>make_string\<close> takes its length as an \<open>int\<close>: the length is cut to 32 bits, and a negative one ends the
  process.  \<open>None\<close> is the end of the process.
\<close>

definition c_int :: "nat \<Rightarrow> int" where
  "c_int n = sint (word_of_nat n :: 32 word)"

definition make_string :: "bytes \<Rightarrow> exp option" where
  "make_string b = (if c_int (length b) < 0 then None else Some (STRING (take (nat (c_int (length b))) b)))"

text \<open>A reader stops because the text is malformed, or because the process ends.\<close>

datatype js_stop = Malformed | Shutdown

function js_decode_string :: "bytes \<Rightarrow> bytes \<Rightarrow> js_stop + (exp \<times> bytes)" where
  "js_decode_string m b =
     (case b of
        [] \<Rightarrow> Inl Malformed
      | c # r \<Rightarrow>
          if c = 0x22 then (case make_string m of None \<Rightarrow> Inl Shutdown | Some s \<Rightarrow> Inr (s, r))
          else if c < 0x20 then Inl Malformed
          else if c \<noteq> 0x5C then js_decode_string (m @ [c]) r
          else (case js_escape r of
                  None \<Rightarrow> Inl Malformed
                | Some (u, r') \<Rightarrow> js_decode_string (m @ u) r'))"
  by pat_completeness auto
termination
  by (relation "measure (\<lambda>(m, b). length b)") (auto dest: js_escape_shorter)

declare js_decode_string.simps [simp del]

type_synonym js_reader = "bytes \<Rightarrow> js_stop + (exp \<times> bytes)"

fun js_elements :: "js_reader \<Rightarrow> nat \<Rightarrow> bytes \<Rightarrow> js_stop + (exp list \<times> bytes)" where
  "js_elements dec 0 b = Inl Malformed"
| "js_elements dec (Suc n) b =
     (case dec b of
        Inl e \<Rightarrow> Inl e
      | Inr (el, r) \<Rightarrow>
          (case js_skip_ws r of
             [] \<Rightarrow> Inl Malformed
           | c # t \<Rightarrow>
               if c = 0x2C then map_sum id (\<lambda>(els, r'). (el # els, r')) (js_elements dec n t)
               else if c = 0x5D then Inr ([el], t)
               else Inl Malformed))"

definition js_decode_array :: "js_reader \<Rightarrow> bytes \<Rightarrow> js_stop + (exp \<times> bytes)" where
  "js_decode_array dec b =
     (let r = js_skip_ws b in
      if r \<noteq> [] \<and> hd r = 0x5D then Inr (NIL_EXP, tl r)
      else map_sum id (\<lambda>(els, r'). (mk_list els, r')) (js_elements dec (Suc (length r)) r))"

fun js_members :: "js_reader \<Rightarrow> nat \<Rightarrow> exp dict \<Rightarrow> bytes \<Rightarrow> js_stop + (exp \<times> bytes)" where
  "js_members dec 0 d b = Inl Malformed"
| "js_members dec (Suc n) d b =
     (case js_skip_ws b of
        [] \<Rightarrow> Inl Malformed
      | q # b1 \<Rightarrow>
          if q \<noteq> 0x22 then Inl Malformed
          else (case js_decode_string [] b1 of
            Inr (STRING key, b2) \<Rightarrow>
              (case js_skip_ws b2 of
                 [] \<Rightarrow> Inl Malformed
               | col # b3 \<Rightarrow>
                   if col \<noteq> 0x3A then Inl Malformed
                   else (case dec b3 of
                     Inl e \<Rightarrow> Inl e
                   | Inr (val, b4) \<Rightarrow>
                       (let d' = fst (set_get_keyval_dict d key (Some val)) in
                        case js_skip_ws b4 of
                          [] \<Rightarrow> Inl Malformed
                        | c # t \<Rightarrow>
                            if c = 0x2C then js_members dec n d' t
                            else if c = 0x7D then Inr (DICT d', t)
                            else Inl Malformed)))
          | Inl e \<Rightarrow> Inl e
          | _ \<Rightarrow> Inl Malformed))"

definition js_decode_object :: "js_reader \<Rightarrow> bytes \<Rightarrow> js_stop + (exp \<times> bytes)" where
  "js_decode_object dec b =
     (let r = js_skip_ws b in
      if r \<noteq> [] \<and> hd r = 0x7D then Inr (DICT create_dict, tl r)
      else js_members dec (Suc (length r)) create_dict r)"

text \<open>The optional parts of a number: the text they take and what follows.\<close>

definition js_digit_next :: "bytes \<Rightarrow> bool" where
  "js_digit_next b = (b \<noteq> [] \<and> is_digit (hd b))"

definition js_scan_frac :: "bytes \<Rightarrow> (bytes \<times> bytes) option" where
  "js_scan_frac b =
     (case b of
        c # t \<Rightarrow>
          if c = 0x2E then
            (if js_digit_next t then Some (0x2E # takeWhile is_digit t, dropWhile is_digit t) else None)
          else Some ([], b)
      | [] \<Rightarrow> Some ([], b))"

definition js_scan_exp :: "bytes \<Rightarrow> (bytes \<times> bytes) option" where
  "js_scan_exp b =
     (case b of
        c # t \<Rightarrow>
          if c = 0x65 \<or> c = 0x45 then
            (let sg = (if t \<noteq> [] \<and> (hd t = 0x2B \<or> hd t = 0x2D) then [hd t] else []);
                 u = drop (length sg) t
             in if js_digit_next u then Some (c # sg @ takeWhile is_digit u, dropWhile is_digit u) else None)
          else Some ([], b)
      | [] \<Rightarrow> Some ([], b))"

text \<open>The token of a number, whether it has a fraction or an exponent, and what follows.\<close>

definition js_scan_number :: "bytes \<Rightarrow> (bytes \<times> bool \<times> bytes) option" where
  "js_scan_number b =
     (let sg = (if b \<noteq> [] \<and> hd b = 0x2D then [0x2D] else []);
          b1 = drop (length sg) b
      in if \<not> js_digit_next b1 then None
         else if hd b1 = 0x30 \<and> js_digit_next (tl b1) then None
         else (case js_scan_frac (dropWhile is_digit b1) of
             None \<Rightarrow> None
           | Some (fr, b2) \<Rightarrow>
               (case js_scan_exp b2 of
                  None \<Rightarrow> None
                | Some (ex, b3) \<Rightarrow> Some (sg @ takeWhile is_digit b1 @ fr @ ex, fr \<noteq> [] \<or> ex \<noteq> [], b3))))"

text \<open>\<open>strtoll\<close> on a token that is an optional sign and digits.\<close>

definition strtoll :: "bytes \<Rightarrow> int" where
  "strtoll tok = (if tok \<noteq> [] \<and> hd tok = 0x2D then - dec_val 0 (tl tok) else dec_val 0 tok)"

definition js_decode_number :: "bytes \<Rightarrow> js_stop + (exp \<times> bytes)" where
  "js_decode_number b =
     (case js_scan_number b of
        None \<Rightarrow> Inl Malformed
      | Some (tok, isfloat_tok, r) \<Rightarrow>
          if length tok \<ge> 64 then Inr (FLOAT (strtod tok), r)
          else if \<not> isfloat_tok \<and> int64 (strtoll tok) \<and> FIX_FITS (strtoll tok) then Inr (MAKE_FIX (strtoll tok), r)
          else Inr (FLOAT (strtod tok), r))"

definition js_decode_1 :: "js_reader \<Rightarrow> js_reader" where
  "js_decode_1 dec b0 =
     (let b = js_skip_ws b0 in
      case b of
        [] \<Rightarrow> Inl Malformed
      | c # r \<Rightarrow>
          if c = 0x7B then js_decode_object dec r
          else if c = 0x5B then js_decode_array dec r
          else if c = 0x22 then js_decode_string [] r
          else if take 4 b = bytes_of ''true'' then Inr (TRUE_EXP, drop 4 b)
          else if take 5 b = bytes_of ''false'' then Inr (NIL_EXP, drop 5 b)
          else if take 4 b = bytes_of ''null'' then Inr (NIL_EXP, drop 4 b)
          else if c = 0x2D \<or> is_digit c then js_decode_number b
          else Inl Malformed)"

fun js_decode :: "nat \<Rightarrow> js_reader" where
  "js_decode 0 b = Inl Malformed"
| "js_decode (Suc levels) b = js_decode_1 (js_decode levels) b"

declare js_decode.simps [simp del]

section \<open>The commands\<close>

text \<open>The result of a command, or \<open>None\<close> when the process ends.\<close>

definition json_indent :: "exp option \<Rightarrow> nat option" where
  "json_indent indexp =
     (case indexp of
        None \<Rightarrow> Some 0
      | Some NIL_EXP \<Rightarrow> Some 0
      | Some (FIX n) \<Rightarrow> if n < 0 \<or> n > 16 then None else Some (nat n)
      | _ \<Rightarrow> None)"

definition jsonencodecmd :: "exp \<Rightarrow> exp option \<Rightarrow> (alc_error + exp) option" where
  "jsonencodecmd v indexp =
     (case json_indent indexp of
        None \<Rightarrow> Some (Inl ERROR_ILLEGAL_VALUE)
      | Some indent \<Rightarrow>
          (case js_encode (Suc JS_MAX_DEPTH) indent (Some v) of
             None \<Rightarrow> Some (Inl ERROR_ILLEGAL_VALUE)
           | Some m \<Rightarrow> map_option Inr (make_string m)))"

definition jsondecodecmd :: "exp \<Rightarrow> (alc_error + exp) option" where
  "jsondecodecmd s =
     (case s of
        STRING t \<Rightarrow>
          (case js_decode (Suc JS_MAX_DEPTH) (c_str t) of
             Inl Malformed \<Rightarrow> Some (Inl ERROR_ILLEGAL_VALUE)
           | Inl Shutdown \<Rightarrow> None
           | Inr (v, r) \<Rightarrow> if js_skip_ws r = [] then Some (Inr v) else Some (Inl ERROR_ILLEGAL_VALUE))
      | _ \<Rightarrow> Some (Inl ERROR_ILLEGAL_VALUE))"

section \<open>Lengths as \<open>int\<close>\<close>

lemma c_int_exact: "n < 2 ^ 31 \<Longrightarrow> c_int n = int n"
  by (simp add: c_int_def sint_uint unsigned_of_nat take_bit_nat_eq_self signed_take_bit_eq_if_positive bit_iff_odd take_bit_int_eq_self)

lemma make_string_exact: "length b < 2 ^ 31 \<Longrightarrow> make_string b = Some (STRING b)"
  by (simp add: make_string_def c_int_exact)

lemma make_string_STRING: "make_string b = Some v \<Longrightarrow> \<exists>s. v = STRING s"
  by (auto simp: make_string_def split: if_splits)

section \<open>Strings read back\<close>

lemma js_hex4_low:
  assumes "a < 16" "b < 16"
  shows "js_hex4 (0x30 # 0x30 # hx ! a # hx ! b # r) = Some (push_bit 4 (of_nat a) OR of_nat b)"
proof -
  have z: "chr2hex 0x30 = 0" by (simp add: chr2hex_def)
  have f: "4 = Suc (Suc (Suc (Suc 0)))" by simp
  show ?thesis
    unfolding js_hex4_def f js_hex_from.simps Let_def z chr2hex_hx [OF assms(1)] chr2hex_hx [OF assms(2)] by simp
qed

lemma js_control_table: "list_all (\<lambda>n. push_bit 4 (of_nat (n div 16)) OR of_nat (n mod 16) = (of_nat n :: u32)
    \<and> (of_nat n :: u32) \<noteq> 0 \<and> (of_nat n :: u32) < 0x80 \<and> ucast (of_nat n :: u32) = (of_nat n :: byte)) [1..<32]"
  by (simp add: upt_rec)

lemma js_control_back:
  assumes "c < 0x20" "c \<noteq> 0"
  shows "js_escape (0x75 # 0x30 # 0x30 # hx ! (unat c div 16) # hx ! (unat c mod 16) # r) = Some ([c], r)"
proof -
  define n where "n = unat c"
  have "unat c < 32" "unat c \<noteq> 0" using assms by (simp_all add: word_less_nat_alt unat_eq_zero)
  then have n: "n \<in> set [1..<32]" by (simp add: n_def)
  then have t: "push_bit 4 (of_nat (n div 16)) OR of_nat (n mod 16) = (of_nat n :: u32)
      \<and> (of_nat n :: u32) \<noteq> 0 \<and> (of_nat n :: u32) < 0x80 \<and> ucast (of_nat n :: u32) = (of_nat n :: byte)"
    using js_control_table unfolding list_all_iff by blast
  have "n div 16 < 16" "n mod 16 < 16" using n by auto
  note h = js_hex4_low [OF this, of r]
  have s: "\<not> 0xD800 \<le> (of_nat n :: u32)" "\<not> 0xDC00 \<le> (of_nat n :: u32)"
    using t by (auto simp: word_le_nat_alt word_less_nat_alt)
  have "js_escape (0x75 # 0x30 # 0x30 # hx ! (n div 16) # hx ! (n mod 16) # r) = Some ([of_nat n], r)"
    using t s h by (simp add: js_escape_def js_unicode_def utf8_encode_def)
  then show ?thesis by (simp add: n_def)
qed

lemma js_char_back:
  assumes "c \<noteq> 0"
  shows "js_decode_string m (js_put_char c @ r) = js_decode_string (m @ [c]) r"
proof -
  have e: "js_decode_string m (0x5C # b) = (case js_escape b of None \<Rightarrow> Inl Malformed
      | Some (u, r') \<Rightarrow> js_decode_string (m @ u) r')" for b
    by (subst js_decode_string.simps) simp
  have s: "js_escape (0x22 # r) = Some ([0x22], r)" "js_escape (0x5C # r) = Some ([0x5C], r)"
    "js_escape (0x62 # r) = Some ([0x08], r)" "js_escape (0x66 # r) = Some ([0x0C], r)"
    "js_escape (0x6E # r) = Some ([0x0A], r)" "js_escape (0x72 # r) = Some ([0x0D], r)"
    "js_escape (0x74 # r) = Some ([0x09], r)"
    by (simp_all add: js_escape_def)
  consider "c = 0x22" | "c = 0x5C" | "c = 0x08" | "c = 0x0C" | "c = 0x0A" | "c = 0x0D" | "c = 0x09"
    | (ctl) "c \<notin> {0x22, 0x5C, 0x08, 0x0C, 0x0A, 0x0D, 0x09}" "c < 0x20"
    | (plain) "c \<notin> {0x22, 0x5C}" "\<not> c < 0x20"
    by blast
  then show ?thesis
  proof cases
    case ctl
    then have "js_put_char c = [0x5C, 0x75, 0x30, 0x30, hx ! (unat c div 16), hx ! (unat c mod 16)]"
      by (simp add: js_put_char_def)
    then show ?thesis using js_control_back [OF ctl(2) assms, of r] by (simp add: e)
  next
    case plain
    then have "js_put_char c = [c]" by (auto simp: js_put_char_def)
    then show ?thesis using plain by (subst js_decode_string.simps) simp
  qed (simp_all add: js_put_char_def e s)
qed

lemma js_chars_back:
  "0 \<notin> set s \<Longrightarrow> length (m @ s) < 2 ^ 31 \<Longrightarrow> js_decode_string m (concat (map js_put_char s) @ 0x22 # r) = Inr (STRING (m @ s), r)"
proof (induction s arbitrary: m)
  case Nil
  then show ?case by (subst js_decode_string.simps) (simp add: make_string_exact)
next
  case (Cons c s)
  then have "c \<noteq> 0" "0 \<notin> set s" "length ((m @ [c]) @ s) < 2 ^ 31" by auto
  then show ?case using Cons.IH [of "m @ [c]"] js_char_back [of c m "concat (map js_put_char s) @ 0x22 # r"] by simp
qed

lemma c_str_zero: "0 \<notin> set (c_str s)"
  by (auto simp: c_str_def dest: set_takeWhileD)

lemma js_string_back:
  "length (c_str s) < 2 ^ 31 \<Longrightarrow> js_decode_string [] (concat (map js_put_char (c_str s)) @ 0x22 # r) = Inr (STRING (c_str s), r)"
  using js_chars_back [OF c_str_zero, of "[]" s r] by simp

section \<open>Numbers read back\<close>

text \<open>What may follow a number: anything that does not continue it.\<close>

definition js_delim :: "bytes \<Rightarrow> bool" where
  "js_delim r = (r = [] \<or> (\<not> is_digit (hd r) \<and> hd r \<noteq> 0x2E \<and> hd r \<noteq> 0x65 \<and> hd r \<noteq> 0x45))"

lemma digits_next: "list_all is_digit ds \<Longrightarrow> ds \<noteq> [] \<Longrightarrow> js_digit_next (ds @ r)"
  by (cases ds) (simp_all add: js_digit_next_def)

lemma delim_no_digit: "js_delim r \<Longrightarrow> r = [] \<or> \<not> is_digit (hd r)"
  by (auto simp: js_delim_def)

lemma scan_exp_lit:
  assumes "js_delim r"
  shows "js_scan_exp ((case ex of None \<Rightarrow> [] | Some e \<Rightarrow> fmt_exp e) @ r)
    = Some (case ex of None \<Rightarrow> [] | Some e \<Rightarrow> fmt_exp e, r)"
proof (cases ex)
  case None
  then show ?thesis using assms by (auto simp: js_scan_exp_def js_delim_def split: list.splits)
next
  case (Some e)
  let ?ds = "(if \<bar>e\<bar> < 10 then [0x30] else []) @ fmt_nat (nat \<bar>e\<bar>)"
  note d = fmt_exp_digits [of e]
  have ne: "?ds \<noteq> []" by (simp add: fmt_nat_nonempty)
  note t = takeWhile_digits [OF d delim_no_digit [OF assms]] and n = digits_next [OF d ne, of r]
  define ds where "ds = ?ds"
  have f: "fmt_exp e = 0x65 # (if e < 0 then 0x2D else 0x2B) # ds" by (simp add: fmt_exp_def ds_def)
  show ?thesis using t n unfolding Some option.case f ds_def [symmetric] by (simp add: js_scan_exp_def)
qed

lemma scan_lit:
  assumes "lit_ok ip fp" "js_delim r"
  shows "js_scan_number ((if neg then [0x2D] else []) @ lit ip fp ex @ r)
    = Some ((if neg then [0x2D] else []) @ lit ip fp ex, fp \<noteq> [] \<or> ex \<noteq> None, r)"
proof -
  let ?ex = "case ex of None \<Rightarrow> [] | Some e \<Rightarrow> fmt_exp e"
  let ?fr = "if fp = [] then [] else 0x2E # fp"
  have d: "list_all is_digit ip" "ip \<noteq> []" "list_all is_digit fp" and z: "ip = [0x30] \<or> hd ip \<noteq> 0x30"
    using assms(1) by (simp_all add: lit_ok_def)
  have x: "?ex @ r = [] \<or> \<not> is_digit (hd (?ex @ r))"
    using delim_no_digit [OF assms(2)] by (cases ex) (simp_all add: fmt_exp_def not_digits)
  have y: "?fr @ ?ex @ r = [] \<or> \<not> is_digit (hd (?fr @ ?ex @ r))" using x by (simp add: not_digits)
  have nd: "fp = [] \<Longrightarrow> ?ex @ r \<noteq> [] \<Longrightarrow> hd (?ex @ r) \<noteq> 0x2E"
    using assms(2) by (cases ex) (auto simp: fmt_exp_def js_delim_def)
  have fr: "js_scan_frac (?fr @ ?ex @ r) = Some (?fr, ?ex @ r)"
  proof (cases "fp = []")
    case True
    show ?thesis
    proof (cases "?ex @ r")
      case (Cons c u)
      then have "c \<noteq> 0x2E" using nd [OF True] by simp
      with True Cons show ?thesis by (simp add: js_scan_frac_def)
    qed (use True in \<open>simp add: js_scan_frac_def\<close>)
  next
    case False
    then show ?thesis using takeWhile_digits [OF d(3) x] digits_next [OF d(3) False] by (simp add: js_scan_frac_def)
  qed
  have hd: "hd (ip @ w) \<noteq> 0x2D" for w using d not_digits(3) by (cases ip) auto
  have lz: "\<not> (hd (ip @ ?fr @ ?ex @ r) = 0x30 \<and> js_digit_next (tl (ip @ ?fr @ ?ex @ r)))"
    using z y d(2) by (auto simp: js_digit_next_def hd_append)
  have e: "(?fr \<noteq> [] \<or> ?ex \<noteq> []) = (fp \<noteq> [] \<or> ex \<noteq> None)" by (cases ex) (simp_all add: fmt_exp_def)
  note t = takeWhile_digits [OF d(1) y] and n = digits_next [OF d(1,2), of "?fr @ ?ex @ r"]
  have l: "lit ip fp ex @ r = ip @ ?fr @ ?ex @ r" by (simp add: lit_def)
  have "js_scan_number ((if neg then [0x2D] else []) @ ip @ ?fr @ ?ex @ r)
      = Some ((if neg then [0x2D] else []) @ ip @ ?fr @ ?ex, ?fr \<noteq> [] \<or> ?ex \<noteq> [], r)"
    using t n lz hd [of "?fr @ ?ex @ r"] fr scan_exp_lit [OF assms(2), of ex] d(2)
    by (cases neg) (simp_all add: js_scan_number_def Let_def del: takeWhile_eq_all_conv)
  then show ?thesis unfolding l e by (simp add: lit_def)
qed

lemma fmt_nat_lit: "lit_ok (fmt_nat n) []" "lit (fmt_nat n) [] None = fmt_nat n"
proof -
  have "fmt_nat n = [0x30] \<or> hd (fmt_nat n) \<noteq> 0x30"
    using fmt_nat_hd_nonzero [of n] by (cases "n = 0") (simp_all add: fmt_nat.simps [of 0])
  then show "lit_ok (fmt_nat n) []" by (simp add: lit_ok_def fmt_nat_digits fmt_nat_nonempty)
qed (simp add: lit_def)

lemma number_token:
  assumes "FIX_FITS i" "js_delim r"
  shows "js_decode_number (fmt_int i @ r) = Inr (FIX i, r)"
proof -
  let ?n = "nat \<bar>i\<bar>"
  have f: "fmt_int i = (if i < 0 then [0x2D] else []) @ lit (fmt_nat ?n) [] None"
    by (simp add: fmt_int_def fmt_nat_lit)
  have b: "- (2 ^ 60) \<le> i" "i < 2 ^ 60" using assms(1) by (simp_all add: FIX_FITS_range)
  have s: "js_scan_number (fmt_int i @ r) = Some (fmt_int i, False, r)"
    unfolding f append_assoc using scan_lit [OF fmt_nat_lit(1) assms(2), of "i < 0" ?n None] by simp
  have v: "strtoll (fmt_int i) = i"
    using fmt_nat_digits [of "nat i"] not_digits(3)
    fmt_nat_nonempty [of "nat i"]
    by (auto simp: strtoll_def fmt_int_def dec_val_fmt_nat list_all_iff dest: hd_in_set)
  have "length (fmt_nat ?n) \<le> 19"
  proof (cases "?n = 0")
    case False
    have "10 ^ (length (fmt_nat ?n) - 1) \<le> ?n" using fmt_nat_len [of ?n] False by simp
    also have "\<dots> < 10 ^ 19" using b by simp
    finally have "length (fmt_nat ?n) - 1 < 19" by (rule power_less_imp_less_exp [rotated]) simp
    then show ?thesis by simp
  qed (simp add: fmt_nat.simps [of 0])
  moreover have "length (fmt_int i) \<le> Suc (length (fmt_nat ?n))"
    by (cases "i < 0") (simp_all add: fmt_int_def)
  ultimately have l: "length (fmt_int i) < 64" by linarith
  have "int64 i" using b by (simp add: int64_def INT64_MIN_def INT64_MAX_def)
  then show ?thesis using l assms(1) by (simp add: js_decode_number_def s v MAKE_FIX_fits)
qed

lemma float_token:
  assumes "js_put_float d = Some t" "js_delim r"
  shows "js_decode_number (t @ r) = Inr (FLOAT d, r)" and "\<exists>c u. t = c # u \<and> (c = 0x2D \<or> is_digit c)"
proof -
  have fin: "f64_finite d" using assms(1) by (simp add: js_put_float_def split: if_splits)
  from fmt_g17_lit [OF fin] obtain ip fp ex where
    g: "fmt_g17 d = f64_sg d @ lit ip fp ex" "lit_ok ip fp"
    and sd: "\<And>fp'. lit_ok ip fp' \<Longrightarrow> lit_value ip fp' ex = lit_value ip fp ex \<Longrightarrow> strtod (f64_sg d @ lit ip fp' ex) = d"
    by blast
  have tt: "t = (if list_all (\<lambda>c. c \<noteq> 0x2E \<and> c \<noteq> 0x65 \<and> c \<noteq> 0x45) (fmt_g17 d)
      then fmt_g17 d @ [0x2E, 0x30] else fmt_g17 d)"
    using assms(1) fin by (simp add: js_put_float_def Let_def)
  obtain fp' where t: "t = f64_sg d @ lit ip fp' ex" "lit_ok ip fp'" "lit_value ip fp' ex = lit_value ip fp ex"
    "fp' \<noteq> [] \<or> ex \<noteq> None"
  proof (cases "fp \<noteq> [] \<or> ex \<noteq> None")
    case True
    have "\<exists>c \<in> set (lit ip fp ex). c = 0x2E \<or> c = 0x65"
      using True by (cases ex) (auto simp: lit_def fmt_exp_def)
    then have "\<not> list_all (\<lambda>c. c \<noteq> 0x2E \<and> c \<noteq> 0x65 \<and> c \<noteq> 0x45) (fmt_g17 d)"
      unfolding g(1) list_all_iff by auto
    then have "t = f64_sg d @ lit ip fp ex"
      unfolding tt g(1) [symmetric] by (simp only: if_False)
    then show ?thesis using that [of fp] g(2) True by blast
  next
    case False
    then have f: "fp = []" "ex = None" by simp_all
    have "list_all is_digit ip" using g(2) by (simp add: lit_ok_def)
    then have "list_all (\<lambda>c. c \<noteq> 0x2E \<and> c \<noteq> 0x65 \<and> c \<noteq> 0x45) (fmt_g17 d)"
      unfolding g(1) f using not_digits by (auto simp: lit_def f64_sg_def list_all_iff)
    then have "t = f64_sg d @ lit ip [] None @ [0x2E, 0x30]"
      unfolding tt by (simp only: if_True g(1) f append_assoc)
    then have "t = f64_sg d @ lit ip [0x30] None" by (simp add: lit_def)
    moreover have "lit_value ip [0x30] None = lit_value ip [] None"
      by (simp add: lit_value_def lit_k_def dec_val_append power_int_minus)
    moreover have "lit_ok ip [0x30]" using g(2) by (simp add: lit_ok_def not_digits)
    ultimately show ?thesis using that [of "[0x30]"] unfolding f by blast
  qed
  have n: "js_scan_number (t @ r) = Some (t, True, r)"
    using scan_lit [OF t(2) assms(2), of "f64_sign d" ex] t(4) by (simp add: t(1) f64_sg_def)
  show "js_decode_number (t @ r) = Inr (FLOAT d, r)"
    using sd [OF t(2,3)] by (simp add: js_decode_number_def n t(1) [symmetric])
  show "\<exists>c u. t = c # u \<and> (c = 0x2D \<or> is_digit c)"
    using lit_hd [OF t(2), of ex] by (auto simp: t(1) f64_sg_def)
qed


section \<open>What a value is read back as\<close>

text \<open>
  As \<open>mp_norm\<close>, but a vector of any kind becomes the list of its elements.
\<close>

function js_norm :: "exp \<Rightarrow> exp" where
  "js_norm v =
     (case v of
        CHARACTER c \<Rightarrow> FIX (uint c)
      | STRING s \<Rightarrow> STRING (c_str s)
      | SYMBOL s \<Rightarrow> STRING (c_str s)
      | PAIR c n \<Rightarrow> mk_list (map js_norm (pair_contents (Some (PAIR c n))))
      | VEC_GEN xs \<Rightarrow> mk_list (map js_norm xs)
      | VEC_I64 ns \<Rightarrow> mk_list (map vec_get_boxed_i64 ns)
      | VEC_F64 fs \<Rightarrow> mk_list (map FLOAT fs)
      | DICT d \<Rightarrow>
          DICT (foldl (\<lambda>a k. fst (set_get_keyval_dict a (kv_name k) (Some (js_norm (kv_val k)))))
                  create_dict (dict_entries d))
      | _ \<Rightarrow> v)"
  by pat_completeness auto
termination
  by (relation "measure size") (auto dest!: pair_contents_less dict_entries_size simp: less_Suc_eq_le size_list_estimation')

declare js_norm.simps [simp del]

function js_ok :: "exp \<Rightarrow> bool" where
  "js_ok v =
     (case v of
        FIX n \<Rightarrow> FIX_FITS n
      | PAIR c n \<Rightarrow> list_all js_ok (pair_contents (Some (PAIR c n)))
      | VEC_GEN xs \<Rightarrow> list_all js_ok xs
      | STRING s \<Rightarrow> length (c_str s) < 2 ^ 31
      | SYMBOL s \<Rightarrow> length (c_str s) < 2 ^ 31
      | DICT d \<Rightarrow> dict_ok d \<and> list_all (\<lambda>k. length (kv_name k) < 2 ^ 31 \<and> js_ok (kv_val k)) (dict_entries d)
      | _ \<Rightarrow> True)"
  by pat_completeness auto
termination
  by (relation "measure size") (auto dest!: pair_contents_less dict_entries_size simp: less_Suc_eq_le size_list_estimation')

declare js_ok.simps [simp del]

lemma js_norm_scalars:
  "js_norm NIL_EXP = NIL_EXP" "js_norm TRUE_EXP = TRUE_EXP" "js_norm (FIX n) = FIX n"
  "js_norm (CHARACTER c) = FIX (uint c)" "js_norm (FLOAT f) = FLOAT f" "js_norm (STRING s) = STRING (c_str s)"
  "js_norm (SYMBOL s) = STRING (c_str s)"
  by (subst js_norm.simps, simp)+

lemma js_ok_scalars: "js_ok (FLOAT f)" "js_ok (FIX n) = FIX_FITS n"
  "js_ok (STRING s) = (length (c_str s) < 2 ^ 31)" "js_ok (SYMBOL s) = (length (c_str s) < 2 ^ 31)"
  by (subst js_ok.simps, simp)+

lemma boxed_i64: "js_norm (vec_get_boxed_i64 n) = vec_get_boxed_i64 n" "js_ok (vec_get_boxed_i64 n)"
  by (simp_all add: vec_get_boxed_i64_def js_norm_scalars js_ok_scalars MAKE_FIX_fits)

section \<open>The round trip\<close>

text \<open>What a reader does with an encoded value, whatever white space is before it.\<close>

definition js_reads :: "js_reader \<Rightarrow> bytes \<Rightarrow> exp \<Rightarrow> bool" where
  "js_reads dec bs v =
     (bs \<noteq> [] \<and> \<not> js_ws (hd bs) \<and> hd bs \<noteq> 0x5D \<and> hd bs \<noteq> 0x7D
      \<and> (\<forall>w r. list_all js_ws w \<longrightarrow> js_delim r \<longrightarrow> dec (w @ bs @ r) = Inr (v, r)))"

lemma js_readsD:
  "js_reads dec bs v \<Longrightarrow> list_all js_ws w \<Longrightarrow> js_delim r \<Longrightarrow> dec (w @ bs @ r) = Inr (v, r)"
  by (simp add: js_reads_def)

lemma skip_ws: "list_all js_ws w \<Longrightarrow> b \<noteq> [] \<Longrightarrow> \<not> js_ws (hd b) \<Longrightarrow> js_skip_ws (w @ b) = b"
  unfolding js_skip_ws_def by (induction w) (cases b, auto)

lemma skip_ws_all: "list_all js_ws w \<Longrightarrow> js_skip_ws w = []"
  by (simp add: js_skip_ws_def list_all_iff dropWhile_eq_Nil_conv)

lemma newline_ws: "list_all js_ws (js_newline_indent indent depth)"
  by (simp add: js_newline_indent_def js_ws_def list_all_iff)

lemma ws_delim: "list_all js_ws w \<Longrightarrow> js_delim (w @ c # r) = (w \<noteq> [] \<or> js_delim (c # r))"
  by (cases w) (auto simp: js_delim_def js_ws_def is_digit_def)

lemma not_ws: "\<not> js_ws 0x2C" "\<not> js_ws 0x5D" "\<not> js_ws 0x7D" "\<not> js_ws 0x22" "\<not> js_ws 0x3A" "\<not> js_ws 0x5B" "\<not> js_ws 0x7B"
  by (simp_all add: js_ws_def)

lemma delims: "js_delim (0x2C # r)" "js_delim (0x5D # r)" "js_delim (0x7D # r)" "js_delim []"
  by (simp_all add: js_delim_def is_digit_def)

text \<open>The elements of an array, with the separators and the closing bracket.\<close>

lemma js_elements_back:
  assumes "xs \<noteq> []" "\<And>x b. x \<in> set xs \<Longrightarrow> put x = Some b \<Longrightarrow> js_reads dec b (view x)"
    and "js_put_items nl put first xs = Some bs" "list_all js_ws nl" "list_all js_ws nl'"
    and "length xs \<le> n"
  shows "\<exists>b. bs = (if first then [] else [0x2C]) @ b \<and> js_elements dec n (b @ nl' @ 0x5D # r) = Inr (map view xs, r)"
  using assms
proof (induction xs arbitrary: first bs n)
  case (Cons x xs)
  then obtain a b where a: "put x = Some a" and b: "js_put_items nl put False xs = Some b"
    and bs: "bs = (if first then [] else [0x2C]) @ nl @ a @ b"
    by (auto simp: put_and_Some)
  obtain m where m: "n = Suc m" "length xs \<le> m" using Cons.prems(6) by (cases n) auto
  have rd: "js_reads dec a (view x)" using Cons.prems(2) a by simp
  show ?case
  proof (cases "xs = []")
    case True
    then have "b = []" using b by simp
    have "js_delim (nl' @ 0x5D # r)" using ws_delim [OF Cons.prems(5)] delims by blast
    from js_readsD [OF rd Cons.prems(4) this] have "dec (nl @ a @ nl' @ 0x5D # r) = Inr (view x, nl' @ 0x5D # r)" .
    moreover have "js_skip_ws (nl' @ 0x5D # r) = 0x5D # r" by (rule skip_ws [OF Cons.prems(5)]) (simp_all add: not_ws)
    ultimately show ?thesis using \<open>b = []\<close> True
      by (intro exI [of _ "nl @ a"]) (simp add: bs m(1))
  next
    case False
    from Cons.IH [OF False Cons.prems(2) b Cons.prems(4,5) m(2)] obtain c where
      c: "b = [0x2C] @ c" "js_elements dec m (c @ nl' @ 0x5D # r) = Inr (map view xs, r)"
      by auto
    have "js_delim (0x2C # c @ nl' @ 0x5D # r)" by (rule delims)
    from js_readsD [OF rd Cons.prems(4) this]
    have "dec (nl @ a @ 0x2C # c @ nl' @ 0x5D # r) = Inr (view x, 0x2C # c @ nl' @ 0x5D # r)" .
    moreover have "js_skip_ws (0x2C # c @ nl' @ 0x5D # r) = 0x2C # c @ nl' @ 0x5D # r"
      by (simp add: js_skip_ws_def not_ws)
    ultimately have "js_elements dec n ((nl @ a @ b) @ nl' @ 0x5D # r) = Inr (map view (x # xs), r)"
      using c by (simp add: m(1))
    then show ?thesis using bs by blast
  qed
qed simp


lemma js_members_back:
  assumes "ks \<noteq> []" "\<And>k b. k \<in> set ks \<Longrightarrow> enc (kv_val k) = Some b \<Longrightarrow> js_reads dec b (view (kv_val k))"
    and "js_put_items nl (\<lambda>k. put_and (Some (js_put_string (kv_name k) @ [0x3A] @ sp)) (enc (kv_val k))) first ks = Some bs"
    and "list_all js_ws nl" "list_all js_ws nl'" "list_all js_ws sp"
    and "length ks \<le> n" "\<forall>k \<in> set ks. c_str (kv_name k) = kv_name k \<and> length (kv_name k) < 2 ^ 31"
  shows "\<exists>b. bs = (if first then [] else [0x2C]) @ b \<and> js_members dec n d (b @ nl' @ 0x7D # r)
      = Inr (DICT (foldl (\<lambda>a k. fst (set_get_keyval_dict a (kv_name k) (Some (view (kv_val k))))) d ks), r)"
  using assms
proof (induction ks arbitrary: first bs n d)
  case (Cons k ks)
  let ?put = "\<lambda>k. put_and (Some (js_put_string (kv_name k) @ [0x3A] @ sp)) (enc (kv_val k))"
  let ?key = "concat (map js_put_char (kv_name k))"
  from Cons.prems(3) obtain a b where a: "enc (kv_val k) = Some a" and b: "js_put_items nl ?put False ks = Some b"
    and bs: "bs = (if first then [] else [0x2C]) @ nl @ js_put_string (kv_name k) @ [0x3A] @ sp @ a @ b"
    by (auto simp: put_and_Some)
  have kn: "c_str (kv_name k) = kv_name k" "length (kv_name k) < 2 ^ 31" using Cons.prems(8) by simp_all
  then have q: "js_put_string (kv_name k) = 0x22 # ?key @ [0x22]" by (simp add: js_put_string_def)
  obtain m where m: "n = Suc m" "length ks \<le> m" using Cons.prems(7) by (cases n) auto
  have rd: "js_reads dec a (view (kv_val k))" using Cons.prems(2) a by simp
  define d' where "d' = fst (set_get_keyval_dict d (kv_name k) (Some (view (kv_val k))))"
  have key: "js_decode_string [] (?key @ 0x22 # u) = Inr (STRING (kv_name k), u)" for u
    using js_string_back [of "kv_name k" u] kn by simp
  have ws0: "js_skip_ws (nl @ 0x22 # u) = 0x22 # u" for u
    by (rule skip_ws [OF Cons.prems(4)]) (simp_all add: not_ws)
  have ws1: "js_skip_ws (0x3A # u) = 0x3A # u" for u by (simp add: js_skip_ws_def not_ws)
  have step: "js_members dec n d (nl @ js_put_string (kv_name k) @ [0x3A] @ sp @ a @ u)
      = (case js_skip_ws u of [] \<Rightarrow> Inl Malformed
         | c # t \<Rightarrow> if c = 0x2C then js_members dec m d' t
                  else if c = 0x7D then Inr (DICT d', t) else Inl Malformed)" if "js_delim u" for u
    unfolding d'_def using js_readsD [OF rd Cons.prems(6) that]
    by (simp add: m(1) q ws0 ws1 key Let_def)
  show ?case
  proof (cases "ks = []")
    case True
    then have b0: "b = []" using b by simp
    have dl: "js_delim (nl' @ 0x7D # r)" using ws_delim [OF Cons.prems(5)] delims by blast
    have "js_skip_ws (nl' @ 0x7D # r) = 0x7D # r" by (rule skip_ws [OF Cons.prems(5)]) (simp_all add: not_ws)
    then show ?thesis using step [OF dl] True
      by (intro exI [of _ "nl @ js_put_string (kv_name k) @ [0x3A] @ sp @ a"]) (simp add: bs b0 d'_def)
  next
    case False
    have "\<exists>c. b = (if False then [] else [0x2C]) @ c \<and> js_members dec m d' (c @ nl' @ 0x7D # r)
        = Inr (DICT (foldl (\<lambda>a k. fst (set_get_keyval_dict a (kv_name k) (Some (view (kv_val k))))) d' ks), r)"
      by (rule Cons.IH [OF False _ b Cons.prems(4-6) m(2)]) (use Cons.prems(2,8) in auto)
    then obtain c where c: "b = [0x2C] @ c"
      "js_members dec m d' (c @ nl' @ 0x7D # r)
        = Inr (DICT (foldl (\<lambda>a k. fst (set_get_keyval_dict a (kv_name k) (Some (view (kv_val k))))) d' ks), r)"
      by auto
    have "js_skip_ws (0x2C # c @ nl' @ 0x7D # r) = 0x2C # c @ nl' @ 0x7D # r"
      by (simp add: js_skip_ws_def not_ws)
    then have "js_members dec n d (nl @ js_put_string (kv_name k) @ [0x3A] @ sp @ a @ [0x2C] @ c @ nl' @ 0x7D # r)
        = Inr (DICT (foldl (\<lambda>a k. fst (set_get_keyval_dict a (kv_name k) (Some (view (kv_val k))))) d' ks), r)"
      using step [of "0x2C # c @ nl' @ 0x7D # r"] delims(1) c(2) by simp
    then show ?thesis using c(1)
      by (intro exI [of _ "nl @ js_put_string (kv_name k) @ [0x3A] @ sp @ a @ b"]) (simp add: bs d'_def)
  qed
qed simp

lemma js_items_length: "js_put_items nl put False xs = Some b \<Longrightarrow> length xs \<le> length b"
proof (induction xs arbitrary: b)
  case (Cons x xs)
  then obtain a c where "js_put_items nl put False xs = Some c" "b = [0x2C] @ nl @ a @ c"
    by (auto simp: put_and_Some)
  with Cons.IH [of c] show ?case by simp
qed simp

lemma skip_idem [simp]: "js_skip_ws (js_skip_ws b) = js_skip_ws b"
  by (simp add: js_skip_ws_def)

lemma elements_skip:
  assumes "\<And>b. dec (js_skip_ws b) = dec b"
  shows "js_elements dec n (js_skip_ws b) = js_elements dec n b"
  by (cases n) (simp_all add: assms)

lemma members_skip: "js_members dec n d (js_skip_ws b) = js_members dec n d b"
  by (cases n) simp_all

text \<open>The opening of a container: white space, then what the first item starts with.\<close>

lemma seq_open:
  assumes "js_put_seq opn cls indent depth put xs = Some bs" "xs \<noteq> []" "put (hd xs) = Some a" "a \<noteq> []" "\<not> js_ws (hd a)"
  obtains b where "js_put_items (js_newline_indent indent (depth + 1)) put True xs = Some b"
    "bs = opn # b @ js_newline_indent indent depth @ [cls]"
    "hd (js_skip_ws (b @ js_newline_indent indent depth @ cls # r)) = hd a"
    "length xs \<le> Suc (length (js_skip_ws (b @ js_newline_indent indent depth @ cls # r)))"
proof -
  obtain x ys where xs: "xs = x # ys" using assms(2) by (cases xs) simp_all
  let ?nl = "js_newline_indent indent depth"
  obtain b where b: "js_put_items (js_newline_indent indent (depth + 1)) put True xs = Some b"
    and bs: "bs = opn # b @ ?nl @ [cls]"
    using assms(1,2) by (auto simp: js_put_seq_def put_and_Some)
  obtain c where c: "js_put_items (js_newline_indent indent (depth + 1)) put False ys = Some c"
    and bb: "b = js_newline_indent indent (depth + 1) @ a @ c"
    using b assms(3) xs by (auto simp: put_and_Some)
  have "js_skip_ws (js_newline_indent indent (depth + 1) @ a @ c @ ?nl @ cls # r) = a @ c @ ?nl @ cls # r"
    by (rule skip_ws [OF newline_ws]) (use assms(4,5) in simp_all)
  then have sk: "js_skip_ws (b @ ?nl @ cls # r) = a @ c @ ?nl @ cls # r" by (simp add: bb)
  show ?thesis
  proof (rule that [OF b bs])
    show "hd (js_skip_ws (b @ ?nl @ cls # r)) = hd a" using assms(4) by (simp add: sk)
    show "length xs \<le> Suc (length (js_skip_ws (b @ ?nl @ cls # r)))"
      using js_items_length [OF c] by (simp add: sk xs)
  qed
qed

lemma array_back:
  assumes "js_put_seq 0x5B 0x5D indent depth put xs = Some bs"
    and rd: "\<And>x b. x \<in> set xs \<Longrightarrow> put x = Some b \<Longrightarrow> js_reads dec b (view x)"
    and ws: "\<And>b. dec (js_skip_ws b) = dec b"
  shows "\<exists>b. bs = 0x5B # b \<and> js_decode_array dec (b @ r) = Inr (mk_list (map view xs), r)"
proof (cases xs)
  case Nil
  then have "bs = [0x5B, 0x5D]" using assms(1) by (simp add: js_put_seq_def put_and_def)
  then show ?thesis using Nil
    by (simp add: js_decode_array_def js_skip_ws_def not_ws mk_list_def Let_def)
next
  case (Cons x ys)
  then have ne: "xs \<noteq> []" by simp
  let ?nl = "js_newline_indent indent depth"
  obtain a where a: "put x = Some a" using assms(1) Cons by (auto simp: js_put_seq_def put_and_Some)
  then have "js_reads dec a (view x)" using rd Cons by simp
  then have a0: "a \<noteq> []" "\<not> js_ws (hd a)" "hd a \<noteq> 0x5D" by (simp_all add: js_reads_def)
  obtain b where b: "js_put_items (js_newline_indent indent (depth + 1)) put True xs = Some b"
    and bs: "bs = 0x5B # b @ ?nl @ [0x5D]"
    and hd: "hd (js_skip_ws (b @ ?nl @ 0x5D # r)) = hd a"
    and len: "length xs \<le> Suc (length (js_skip_ws (b @ ?nl @ 0x5D # r)))"
    by (rule seq_open [OF assms(1) ne _ a0(1,2), of r]) (use a Cons in simp, rule that)
  have "\<exists>c. b = (if True then [] else [0x2C]) @ c
      \<and> js_elements dec (Suc (length (js_skip_ws (b @ ?nl @ 0x5D # r)))) (c @ ?nl @ 0x5D # r) = Inr (map view xs, r)"
    by (rule js_elements_back [OF ne rd b newline_ws newline_ws len])
  then have "js_elements dec (Suc (length (js_skip_ws (b @ ?nl @ 0x5D # r)))) (b @ ?nl @ 0x5D # r) = Inr (map view xs, r)"
    by simp
  then have "js_decode_array dec (b @ ?nl @ 0x5D # r) = Inr (mk_list (map view xs), r)"
    using hd a0(3) by (simp add: js_decode_array_def Let_def elements_skip [of dec, OF ws] del: js_elements.simps)
  then show ?thesis using bs by auto
qed

lemma object_back:
  assumes "js_put_seq 0x7B 0x7D indent depth
      (\<lambda>k. put_and (Some (js_put_string (kv_name k) @ [0x3A] @ sp)) (enc (kv_val k))) ks = Some bs"
    and rd: "\<And>k b. k \<in> set ks \<Longrightarrow> enc (kv_val k) = Some b \<Longrightarrow> js_reads dec b (view (kv_val k))"
    and nm: "\<forall>k \<in> set ks. c_str (kv_name k) = kv_name k \<and> length (kv_name k) < 2 ^ 31" and sp: "list_all js_ws sp"
  shows "\<exists>b. bs = 0x7B # b \<and> js_decode_object dec (b @ r)
    = Inr (DICT (foldl (\<lambda>a k. fst (set_get_keyval_dict a (kv_name k) (Some (view (kv_val k))))) create_dict ks), r)"
proof (cases ks)
  case Nil
  then have "bs = [0x7B, 0x7D]" using assms(1) by (simp add: js_put_seq_def put_and_def)
  then show ?thesis using Nil
    by (simp add: js_decode_object_def js_skip_ws_def not_ws Let_def)
next
  case (Cons k ys)
  then have ne: "ks \<noteq> []" by simp
  let ?nl = "js_newline_indent indent depth"
  let ?put = "\<lambda>k. put_and (Some (js_put_string (kv_name k) @ [0x3A] @ sp)) (enc (kv_val k))"
  obtain a where a: "?put k = Some a" using assms(1) Cons by (auto simp: js_put_seq_def put_and_Some)
  then have a0: "a \<noteq> []" "hd a = 0x22" by (auto simp: put_and_Some js_put_string_def)
  then have a1: "\<not> js_ws (hd a)" by (simp add: not_ws)
  obtain b where b: "js_put_items (js_newline_indent indent (depth + 1)) ?put True ks = Some b"
    and bs: "bs = 0x7B # b @ ?nl @ [0x7D]"
    and hd: "hd (js_skip_ws (b @ ?nl @ 0x7D # r)) = hd a"
    and len: "length ks \<le> Suc (length (js_skip_ws (b @ ?nl @ 0x7D # r)))"
    by (rule seq_open [OF assms(1) ne _ a0(1) a1, of r]) (use a Cons in simp, rule that)
  have "\<exists>c. b = (if True then [] else [0x2C]) @ c
    \<and> js_members dec (Suc (length (js_skip_ws (b @ ?nl @ 0x7D # r)))) create_dict (c @ ?nl @ 0x7D # r)
    = Inr (DICT (foldl (\<lambda>a k. fst (set_get_keyval_dict a (kv_name k) (Some (view (kv_val k))))) create_dict ks), r)"
    by (rule js_members_back [where view = view and enc = enc and dec = dec, OF ne rd b newline_ws newline_ws sp len nm])
  then have "js_members dec (Suc (length (js_skip_ws (b @ ?nl @ 0x7D # r)))) create_dict (b @ ?nl @ 0x7D # r)
    = Inr (DICT (foldl (\<lambda>a k. fst (set_get_keyval_dict a (kv_name k) (Some (view (kv_val k))))) create_dict ks), r)"
    by simp
  then have "js_decode_object dec (b @ ?nl @ 0x7D # r)
    = Inr (DICT (foldl (\<lambda>a k. fst (set_get_keyval_dict a (kv_name k) (Some (view (kv_val k))))) create_dict ks), r)"
    using hd a0(2) by (simp add: js_decode_object_def Let_def members_skip del: js_members.simps)
  then show ?thesis using bs by auto
qed


lemma js_decode_skip: "js_decode lv (js_skip_ws b) = js_decode lv b"
  by (cases lv) (simp_all add: js_decode.simps js_decode_1_def)

lemma js_decode_ws:
  assumes "list_all js_ws w" "b \<noteq> []" "\<not> js_ws (hd b)"
  shows "js_decode lv (w @ b) = js_decode lv b"
proof -
  have "js_skip_ws b = b" using skip_ws [of "[]" b] assms(2,3) by simp
  then show ?thesis using js_decode_skip [of lv "w @ b"] skip_ws [OF assms] by simp
qed

lemma js_readsI:
  assumes "bs \<noteq> []" "\<not> js_ws (hd bs)" "hd bs \<noteq> 0x5D" "hd bs \<noteq> 0x7D"
    and "\<And>r. js_delim r \<Longrightarrow> js_decode lv (bs @ r) = Inr (v, r)"
  shows "js_reads (js_decode lv) bs v"
  using assms js_decode_ws [of _ "bs @ r" lv for r] by (auto simp: js_reads_def)

lemma js_first:
  "\<not> js_ws c \<Longrightarrow> js_decode (Suc lv) (c # r) =
    (if c = 0x7B then js_decode_object (js_decode lv) r
     else if c = 0x5B then js_decode_array (js_decode lv) r
     else if c = 0x22 then js_decode_string [] r
     else if take 4 (c # r) = bytes_of ''true'' then Inr (TRUE_EXP, drop 4 (c # r))
     else if take 5 (c # r) = bytes_of ''false'' then Inr (NIL_EXP, drop 5 (c # r))
     else if take 4 (c # r) = bytes_of ''null'' then Inr (NIL_EXP, drop 4 (c # r))
     else if c = 0x2D \<or> is_digit c then js_decode_number (c # r)
     else Inl Malformed)"
  by (simp only: js_decode.simps js_decode_1_def js_skip_ws_def dropWhile.simps if_False Let_def list.case)

lemma js_words:
  "bytes_of ''true'' = [0x74, 0x72, 0x75, 0x65]" "bytes_of ''false'' = [0x66, 0x61, 0x6C, 0x73, 0x65]"
  "bytes_of ''null'' = [0x6E, 0x75, 0x6C, 0x6C]"
  by (simp_all add: bytes_of_def)

lemma number_reads:
  assumes "\<And>r. js_delim r \<Longrightarrow> js_decode_number (t @ r) = Inr (v, r)" "t = c # u" "c = 0x2D \<or> is_digit c"
  shows "js_reads (js_decode (Suc lv)) t v"
proof (rule js_readsI)
  have c: "c \<noteq> 0x7B" "c \<noteq> 0x5B" "c \<noteq> 0x22" "c \<noteq> 0x74" "c \<noteq> 0x66" "c \<noteq> 0x6E" "c \<noteq> 0x5D" "c \<noteq> 0x7D" "\<not> js_ws c"
    using assms(3) by (auto simp: is_digit_def js_ws_def)
  then show "t \<noteq> []" "\<not> js_ws (hd t)" "hd t \<noteq> 0x5D" "hd t \<noteq> 0x7D" using assms(2) by simp_all
  show "js_decode (Suc lv) (t @ r) = Inr (v, r)" if "js_delim r" for r
    using assms(1) [OF that] c assms(3) by (simp add: assms(2) js_first js_words)
qed

lemma fmt_int_first: "\<exists>c u. fmt_int i = c # u \<and> (c = 0x2D \<or> is_digit c)"
  using fmt_nat_digits [of "nat i"] fmt_nat_nonempty [of "nat i"]
  by (cases "fmt_nat (nat i)") (auto simp: fmt_int_def)

lemma int_reads: "FIX_FITS i \<Longrightarrow> js_reads (js_decode (Suc lv)) (fmt_int i) (FIX i)"
  using fmt_int_first [of i] number_reads [of "fmt_int i" "FIX i"] number_token [of i] by blast

lemma string_reads: "length (c_str s) < 2 ^ 31 \<Longrightarrow> js_reads (js_decode (Suc lv)) (js_put_string s) (STRING (c_str s))"
  by (rule js_readsI) (simp_all add: js_put_string_def not_ws js_first js_string_back)

lemma word_reads:
  "js_reads (js_decode (Suc lv)) (bytes_of ''null'') NIL_EXP" "js_reads (js_decode (Suc lv)) (bytes_of ''true'') TRUE_EXP"
  by (rule js_readsI; simp add: js_words js_ws_def js_first)+

lemma js_encode_back:
  assumes "js_encode lv indent (Some v) = Some bs" "js_ok v"
  shows "js_reads (js_decode lv) bs (js_norm v)"
  using assms
proof (induction lv arbitrary: v bs)
  case (Suc lv)
  let ?enc = "\<lambda>x. js_encode lv indent (Some x)" and ?depth = "JS_MAX_DEPTH - lv"
  have e: "js_encode_1 ?enc indent ?depth (Some v) = Some bs" using Suc.prems(1) by simp
  have arr: "js_reads (js_decode (Suc lv)) bs (mk_list (map js_norm xs))"
    if a: "js_put_seq 0x5B 0x5D indent ?depth ?enc xs = Some bs" and ok: "list_all js_ok xs" for xs
  proof -
    have rd: "js_reads (js_decode lv) b (js_norm x)" if "x \<in> set xs" "?enc x = Some b" for x b
      using Suc.IH [OF that(2)] ok that(1) by (simp add: list_all_iff)
    have b: "\<exists>b. bs = 0x5B # b \<and> js_decode_array (js_decode lv) (b @ r) = Inr (mk_list (map js_norm xs), r)" for r
      by (rule array_back [OF a rd js_decode_skip])
    have "js_decode (Suc lv) (bs @ r) = Inr (mk_list (map js_norm xs), r)" for r
      using b [of r] by (auto simp: js_first not_ws)
    then show ?thesis using b [of "[]"] by (intro js_readsI) (auto simp: not_ws)
  qed
  show ?case
  proof (cases v)
    case (PAIR c n)
    then show ?thesis using e Suc.prems(2) arr [of "pair_contents (Some v)"]
      by (simp add: js_encode_1_def Let_def js_norm.simps [of "PAIR c n"] js_ok.simps [of "PAIR c n"])
  next
    case (VEC_GEN xs)
    then show ?thesis using e Suc.prems(2) arr [of xs]
      by (simp add: js_encode_1_def Let_def js_norm.simps [of "VEC_GEN xs"] js_ok.simps [of "VEC_GEN xs"])
  next
    case (VEC_I64 ns)
    then show ?thesis using e arr [of "map vec_get_boxed_i64 ns"]
      by (simp add: js_encode_1_def Let_def js_norm.simps [of "VEC_I64 ns"] boxed_i64 list_all_iff o_def)
  next
    case (VEC_F64 fs)
    then show ?thesis using e arr [of "map FLOAT fs"]
      by (simp add: js_encode_1_def Let_def js_norm.simps [of "VEC_F64 fs"] js_norm_scalars js_ok_scalars list_all_iff o_def)
  next
    case (DICT d)
    let ?ks = "dict_entries d" and ?sp = "if indent = 0 then [] else [0x20 :: byte]"
    have ok: "dict_ok d" "list_all (\<lambda>k. length (kv_name k) < 2 ^ 31 \<and> js_ok (kv_val k)) ?ks"
      using Suc.prems(2) unfolding DICT by (simp_all add: js_ok.simps [of "DICT d"])
    have a: "js_put_seq 0x7B 0x7D indent ?depth
        (\<lambda>k. put_and (Some (js_put_string (kv_name k) @ [0x3A] @ ?sp)) (?enc (kv_val k))) ?ks = Some bs"
      using e DICT by (simp add: js_encode_1_def)
    have rd: "js_reads (js_decode lv) b (js_norm (kv_val k))" if "k \<in> set ?ks" "?enc (kv_val k) = Some b" for k b
      using Suc.IH [OF that(2)] ok(2) that(1) by (simp add: list_all_iff)
    have nm: "\<forall>k \<in> set ?ks. c_str (kv_name k) = kv_name k \<and> length (kv_name k) < 2 ^ 31"
      using dict_entry_name [OF ok(1)] ok(2) by (simp add: list_all_iff)
    have sp: "list_all js_ws ?sp" by (simp add: js_ws_def)
    have n: "js_norm v = DICT (foldl (\<lambda>a k. fst (set_get_keyval_dict a (kv_name k) (Some (js_norm (kv_val k)))))
        create_dict ?ks)"
      by (simp add: DICT js_norm.simps [of "DICT d"])
    have b: "\<exists>b. bs = 0x7B # b \<and> js_decode_object (js_decode lv) (b @ r) = Inr (js_norm v, r)" for r
      unfolding n by (rule object_back [where view = js_norm and enc = ?enc, OF a rd nm sp])
    have "js_decode (Suc lv) (bs @ r) = Inr (js_norm v, r)" for r
      using b [of r] by (auto simp: js_first not_ws)
    then show ?thesis using b [of "[]"] by (intro js_readsI) (auto simp: not_ws)
  next
    case (CHARACTER c)
    have "fmt_nat (unat c) = fmt_int (uint c)" by (simp add: fmt_int_def)
    then show ?thesis using e int_reads [OF char_fits [of c], of lv]
      by (simp add: CHARACTER js_encode_1_def js_norm_scalars)
  next
    case (FLOAT f)
    then have "js_put_float f = Some bs" using e by (simp add: js_encode_1_def)
    note t = float_token [OF this]
    from t(2) [of "[]"] obtain c u where "bs = c # u" "c = 0x2D \<or> is_digit c" by (auto simp: delims)
    from number_reads [OF t(1) this] show ?thesis by (simp add: FLOAT js_norm_scalars)
  qed (use e Suc.prems(2) word_reads [of lv] string_reads [where lv = lv] int_reads [where lv = lv] in
      \<open>auto simp: js_encode_1_def js_norm_scalars js_ok_scalars\<close>)
qed simp


section \<open>Termination of the loops\<close>

definition consumes :: "(bytes \<Rightarrow> js_stop + ('a \<times> bytes)) \<Rightarrow> bool" where
  "consumes f = (\<forall>b v r. f b = Inr (v, r) \<longrightarrow> length r < length b)"

lemma map_sum_Inr: "(map_sum id f x = Inr y) = (\<exists>z. x = Inr z \<and> y = f z)"
  by (cases x) auto

lemma consumesD: "consumes f \<Longrightarrow> f b = Inr (v, r) \<Longrightarrow> length r < length b"
  by (simp add: consumes_def)

lemma length_skip: "length (js_skip_ws b) \<le> length b"
  by (simp add: js_skip_ws_def length_dropWhile_le)

lemma skip_Cons_length: "js_skip_ws b = c # t \<Longrightarrow> length t < length b"
  using length_skip [of b] by simp

lemma string_consumes: "consumes (js_decode_string m)"
proof -
  have "js_decode_string m b = Inr (v, r) \<Longrightarrow> length r < length b" for b v r
  proof (induction m b rule: js_decode_string.induct)
    case (1 m b)
    from "1.prems" obtain c t where b: "b = c # t" by (subst (asm) js_decode_string.simps) (auto split: list.splits)
    consider (q) "c = 0x22" | (p) "c \<noteq> 0x22" "\<not> c < 0x20" "c \<noteq> 0x5C" | (e) "c = 0x5C" | "c \<noteq> 0x22" "c < 0x20" by blast
    then show ?case
    proof cases
      case q
      then show ?thesis using "1.prems" by (subst (asm) js_decode_string.simps) (simp add: b split: option.splits)
    next
      case p
      then have "js_decode_string (m @ [c]) t = Inr (v, r)" using "1.prems" by (subst (asm) js_decode_string.simps) (simp add: b)
      with "1.IH"(1) [OF b p] show ?thesis by (simp add: b)
    next
      case e
      then obtain u t' where u: "js_escape t = Some (u, t')" "js_decode_string (m @ u) t' = Inr (v, r)"
        using "1.prems" by (subst (asm) js_decode_string.simps) (auto simp: b split: option.splits)
      then have "length r < length t'" using "1.IH"(2) [OF b _ _ _ u(1)] e by simp
      with js_escape_shorter [OF u(1)] show ?thesis by (simp add: b)
    qed (use "1.prems" in \<open>subst (asm) js_decode_string.simps, simp add: b\<close>)
  qed
  then show ?thesis by (simp add: consumes_def)
qed

lemma elements_fuel:
  assumes "consumes dec"
  shows "length b < n \<Longrightarrow> length b < m \<Longrightarrow> js_elements dec n b = js_elements dec m b"
proof (induction n arbitrary: m b)
  case (Suc n)
  obtain k where m: "m = Suc k" using Suc.prems(2) by (cases m) simp_all
  show ?case
  proof (cases "dec b")
    case (Inr x)
    obtain el r where x: "x = (el, r)" by (cases x) simp
    have r: "length r < length b" using consumesD [OF assms] Inr x by blast
    show ?thesis
    proof (cases "js_skip_ws r")
      case (Cons c t)
      have "length t < n" "length t < k" using skip_Cons_length [OF Cons] r Suc.prems m by simp_all
      then have "js_elements dec n t = js_elements dec k t" by (rule Suc.IH)
      then show ?thesis using Inr x Cons by (simp add: m)
    qed (use Inr x in \<open>simp add: m\<close>)
  qed (simp add: m)
qed simp

lemma members_fuel:
  assumes "consumes dec"
  shows "length b < n \<Longrightarrow> length b < m \<Longrightarrow> js_members dec n d b = js_members dec m d b"
proof (induction n arbitrary: m b d)
  case (Suc n)
  obtain k where m: "m = Suc k" using Suc.prems(2) by (cases m) simp_all
  have ih: "js_members dec n d' t = js_members dec k d' t" if "length t < length b" for d' t
    using that Suc.prems m by (intro Suc.IH) simp_all
  have l: "length t < length b"
    if "js_skip_ws b = q # b1" "js_decode_string [] b1 = Inr (key, b2)" "js_skip_ws b2 = col # b3"
      "dec b3 = Inr (val, b4)" "js_skip_ws b4 = c # t" for q b1 key b2 col b3 val b4 c t
    using skip_Cons_length [OF that(1)] consumesD [OF string_consumes that(2)] skip_Cons_length [OF that(3)]
      consumesD [OF assms that(4)] skip_Cons_length [OF that(5)] by linarith
  show ?case unfolding m js_members.simps Let_def
    by (auto split: list.splits sum.splits exp.splits intro: ih l)
qed simp

lemma drop_digits: "js_digit_next b \<Longrightarrow> length (dropWhile is_digit b) < length b"
  using length_dropWhile_le [of is_digit "tl b"] by (cases b) (simp_all add: js_digit_next_def)

lemma scan_frac_length: "js_scan_frac b = Some (fr, r) \<Longrightarrow> length r \<le> length b"
  using drop_digits [of "tl b"] by (cases b) (auto simp: js_scan_frac_def split: if_splits)

lemma scan_exp_length: "js_scan_exp b = Some (ex, r) \<Longrightarrow> length r \<le> length b"
  using drop_digits [of "tl b"] drop_digits [of "tl (tl b)"]
  by (cases b) (auto simp: js_scan_exp_def Let_def drop_Suc split: if_splits)

lemma number_consumes: "consumes js_decode_number"
proof -
  have "length r < length b" if "js_scan_number b = Some (tok, fl, r)" for b tok fl r
  proof -
    define b1 where "b1 = drop (length (if b \<noteq> [] \<and> hd b = 0x2D then [0x2D :: byte] else [])) b"
    have l: "length b1 \<le> length b" by (simp add: b1_def)
    have "js_scan_number b = (if \<not> js_digit_next b1 then None
         else if hd b1 = 0x30 \<and> js_digit_next (tl b1) then None
         else (case js_scan_frac (dropWhile is_digit b1) of
             None \<Rightarrow> None
           | Some (fr, b2) \<Rightarrow>
               (case js_scan_exp b2 of
                  None \<Rightarrow> None
                | Some (ex, b3) \<Rightarrow> Some ((if b \<noteq> [] \<and> hd b = 0x2D then [0x2D] else []) @ takeWhile is_digit b1 @ fr @ ex,
                    fr \<noteq> [] \<or> ex \<noteq> [], b3))))"
      by (simp only: js_scan_number_def Let_def b1_def)
    with that obtain fr b2 ex where n: "js_digit_next b1" and f: "js_scan_frac (dropWhile is_digit b1) = Some (fr, b2)"
      and e: "js_scan_exp b2 = Some (ex, r)"
      by (fastforce split: if_split_asm option.split_asm)
    show ?thesis using l drop_digits [OF n] scan_frac_length [OF f] scan_exp_length [OF e] by linarith
  qed
  then show ?thesis by (auto simp: consumes_def js_decode_number_def split: option.splits if_splits)
qed

lemma elements_consume:
  "consumes dec \<Longrightarrow> js_elements dec n b = Inr (es, r) \<Longrightarrow> length r < length b"
proof (induction n arbitrary: b es)
  case (Suc n)
  from Suc.prems(2) obtain el r1 c t where d: "dec b = Inr (el, r1)" "js_skip_ws r1 = c # t"
    "(\<exists>es'. js_elements dec n t = Inr (es', r)) \<or> t = r"
    by (auto split: sum.splits list.splits if_splits simp: map_sum_Inr)
  have "length r1 < length b" by (rule consumesD [OF Suc.prems(1) d(1)])
  moreover have "length r \<le> length t" using d(3) Suc.IH [OF Suc.prems(1)] by (auto simp: less_imp_le)
  ultimately show ?case using skip_Cons_length [OF d(2)] by linarith
qed simp

lemma members_consume:
  "consumes dec \<Longrightarrow> js_members dec n d b = Inr (v, r) \<Longrightarrow> length r < length b"
proof (induction n arbitrary: b d)
  case (Suc n)
  from Suc.prems(2) obtain q b1 key b2 col b3 val b4 c t d' where d: "js_skip_ws b = q # b1"
    "js_decode_string [] b1 = Inr (STRING key, b2)" "js_skip_ws b2 = col # b3"
    "dec b3 = Inr (val, b4)" "js_skip_ws b4 = c # t"
    "js_members dec n d' t = Inr (v, r) \<or> t = r"
    by (auto simp: Let_def split: sum.splits list.splits if_splits exp.splits) blast+
  have "length r \<le> length t" using d(6) Suc.IH [OF Suc.prems(1)] by (auto simp: less_imp_le)
  then show ?case
    using skip_Cons_length [OF d(1)] consumesD [OF string_consumes d(2)] skip_Cons_length [OF d(3)]
      consumesD [OF Suc.prems(1) d(4)] skip_Cons_length [OF d(5)] by linarith
qed simp

lemma js_decode_consumes: "consumes (js_decode lv)"
proof (induction lv)
  case (Suc lv)
  have arr: "consumes (js_decode_array (js_decode lv))" unfolding consumes_def
  proof (intro allI impI)
    fix b v r
    assume a: "js_decode_array (js_decode lv) b = Inr (v, r)"
    show "length r < length b"
    proof (cases "js_skip_ws b \<noteq> [] \<and> hd (js_skip_ws b) = 0x5D")
      case True
      then obtain c t where "js_skip_ws b = c # t" by (cases "js_skip_ws b") simp_all
      with True a skip_Cons_length show ?thesis by (auto simp: js_decode_array_def Let_def)
    next
      case False
      then obtain es where "js_elements (js_decode lv) (Suc (length (js_skip_ws b))) (js_skip_ws b) = Inr (es, r)"
        using a by (auto simp: js_decode_array_def Let_def map_sum_Inr simp del: js_elements.simps)
      from elements_consume [OF Suc.IH this] length_skip [of b] show ?thesis by linarith
    qed
  qed
  have obj: "consumes (js_decode_object (js_decode lv))" unfolding consumes_def
  proof (intro allI impI)
    fix b v r
    assume a: "js_decode_object (js_decode lv) b = Inr (v, r)"
    show "length r < length b"
    proof (cases "js_skip_ws b \<noteq> [] \<and> hd (js_skip_ws b) = 0x7D")
      case True
      then obtain c t where "js_skip_ws b = c # t" by (cases "js_skip_ws b") simp_all
      with True a skip_Cons_length show ?thesis by (auto simp: js_decode_object_def Let_def)
    next
      case False
      then have "js_members (js_decode lv) (Suc (length (js_skip_ws b))) create_dict (js_skip_ws b) = Inr (v, r)"
        using a by (auto simp: js_decode_object_def Let_def simp del: js_members.simps)
      from members_consume [OF Suc.IH this] length_skip [of b] show ?thesis by linarith
    qed
  qed
  show ?case unfolding consumes_def
  proof (intro allI impI)
    fix b v r
    assume a: "js_decode (Suc lv) b = Inr (v, r)"
    then obtain c t where b: "js_skip_ws b = c # t"
      by (cases "js_skip_ws b") (simp_all add: js_decode.simps js_decode_1_def)
    then have "\<not> js_ws c" by (metis dropWhile_eq_Cons_conv js_skip_ws_def)
    note f = js_first [OF this, of lv t]
    have "js_decode (Suc lv) (c # t) = Inr (v, r)" using js_decode_skip [of "Suc lv" b] a by (simp add: b)
    then have "length r < length (c # t)"
      unfolding f
      by (auto split: if_split_asm dest!: consumesD [OF arr] consumesD [OF obj] consumesD [OF string_consumes]
          consumesD [OF number_consumes])
    then show "length r < length b" using length_skip [of b] by (simp add: b)
  qed
qed (simp add: consumes_def js_decode.simps)


section \<open>Encoded text has no NUL\<close>

lemma digits_no_nul: "list_all is_digit ds \<Longrightarrow> 0 \<notin> set ds"
  by (auto simp: list_all_iff is_digit_def)

lemma fmt_no_nul: "0 \<notin> set (fmt_nat n)" "0 \<notin> set (fmt_int i)"
  using digits_no_nul [OF fmt_nat_digits] by (simp_all add: fmt_int_def)

lemma float_no_nul: "js_put_float f = Some bs \<Longrightarrow> 0 \<notin> set bs"
proof -
  assume a: "js_put_float f = Some bs"
  then have "f64_finite f" by (simp add: js_put_float_def split: if_splits)
  from fmt_g17_lit [OF this] obtain ip fp ex where l: "fmt_g17 f = f64_sg f @ lit ip fp ex" "lit_ok ip fp" by blast
  have "0 \<notin> set (lit ip fp ex)"
    using l(2) digits_no_nul [of ip] digits_no_nul [of fp] fmt_no_nul
    by (cases ex) (auto simp: lit_def lit_ok_def fmt_exp_def)
  then have "0 \<notin> set (fmt_g17 f)" by (simp add: l(1) f64_sg_def)
  then show ?thesis using a by (auto simp: js_put_float_def Let_def split: if_splits)
qed

lemma string_no_nul: "0 \<notin> set (js_put_string s)"
proof -
  have h: "hx ! k \<noteq> 0" if "k < 16" for k
    using that nth_mem [of k hx] by (auto simp: hx_bytes)
  have ch: "0 \<notin> set (js_put_char c)" if "c \<noteq> 0" for c
  proof (cases "c < 0x20")
    case True
    have "unat c < 2 ^ 8" using unsigned_less [of c] by simp
    then have "unat c div 16 < 16" "unat c mod 16 < 16" by auto
    with that h show ?thesis by (auto simp: js_put_char_def)
  qed (use that in \<open>auto simp: js_put_char_def\<close>)
  show ?thesis
  proof
    assume "0 \<in> set (js_put_string s)"
    then obtain c where c: "c \<in> set (c_str s)" "0 \<in> set (js_put_char c)" by (auto simp: js_put_string_def)
    then have "c \<noteq> 0" using c_str_zero [of s] by metis
    from ch [OF this] c(2) show False by simp
  qed
qed

lemma items_no_nul:
  assumes "\<And>x b. x \<in> set xs \<Longrightarrow> put x = Some b \<Longrightarrow> 0 \<notin> set b" "0 \<notin> set nl"
  shows "js_put_items nl put first xs = Some bs \<Longrightarrow> 0 \<notin> set bs"
  using assms(1)
proof (induction xs arbitrary: first bs)
  case (Cons x xs)
  from Cons.prems(1) obtain a b where a: "put x = Some a" "js_put_items nl put False xs = Some b"
    "bs = (if first then [] else [0x2C]) @ nl @ a @ b"
    by (auto simp: put_and_Some)
  with Cons.IH [OF a(2)] Cons.prems(2) assms(2) show ?case by auto
qed simp

lemma seq_no_nul:
  assumes "js_put_seq opn cls indent depth put xs = Some bs" "opn \<noteq> 0" "cls \<noteq> 0"
    and "\<And>x b. x \<in> set xs \<Longrightarrow> put x = Some b \<Longrightarrow> 0 \<notin> set b"
  shows "0 \<notin> set bs"
proof -
  have n: "0 \<notin> set (js_newline_indent indent d)" for d by (simp add: js_newline_indent_def)
  obtain b where "js_put_items (js_newline_indent indent (depth + 1)) put True xs = Some b"
    "bs = opn # b @ (if xs = [] then [] else js_newline_indent indent depth) @ [cls]"
    using assms(1) by (auto simp: js_put_seq_def put_and_Some)
  with items_no_nul [where put = put, OF assms(4) n] n assms(2,3) show ?thesis by auto
qed

lemma js_encode_no_nul: "js_encode lv indent v = Some bs \<Longrightarrow> 0 \<notin> set bs"
proof (induction lv arbitrary: v bs)
  case (Suc lv)
  let ?enc = "\<lambda>x. js_encode lv indent (Some x)"
  have arr: "0 \<notin> set bs" if "js_put_seq 0x5B 0x5D indent (JS_MAX_DEPTH - lv) ?enc xs = Some bs" for xs
    by (rule seq_no_nul [OF that]) (use Suc.IH in auto)
  have obj: "0 \<notin> set bs" if "js_put_seq 0x7B 0x7D indent (JS_MAX_DEPTH - lv)
      (\<lambda>k. put_and (Some (js_put_string (kv_name k) @ [0x3A] @ (if indent = 0 then [] else [0x20])))
         (?enc (kv_val k))) ks = Some bs" for ks
    by (rule seq_no_nul [OF that]) (use Suc.IH string_no_nul in \<open>auto simp: put_and_Some split: if_splits\<close>)
  have w: "0 \<notin> set (bytes_of ''null'')" "0 \<notin> set (bytes_of ''true'')" by (simp_all add: js_words)
  have e: "js_encode_1 ?enc indent (JS_MAX_DEPTH - lv) v = Some bs" using Suc.prems by simp
  show ?case
  proof (cases v)
    case None
    with e w show ?thesis by (auto simp: js_encode_1_def)
  next
    case (Some x)
    show ?thesis
      by (cases x; use e Some w arr obj fmt_no_nul string_no_nul float_no_nul in
          \<open>auto simp: js_encode_1_def Let_def simp del: bytes_of_Cons\<close>)
  qed
qed simp


section \<open>Properties\<close>

lemma json_commands_back:
  assumes "js_ok v" "json_indent ind = Some k" "js_encode (Suc JS_MAX_DEPTH) k (Some v) = Some m" "length m < 2 ^ 31"
  shows "jsonencodecmd v ind = Some (Inr (STRING m)) \<and> jsondecodecmd (STRING m) = Some (Inr (js_norm v))"
proof -
  have "c_str m = m" by (rule c_str_no_nul [OF js_encode_no_nul [OF assms(3)]])
  moreover have "js_decode (Suc JS_MAX_DEPTH) ([] @ m @ []) = Inr (js_norm v, [])"
    by (rule js_readsD [OF js_encode_back [OF assms(3,1)]]) (simp_all add: delims)
  ultimately show ?thesis using assms(2-4)
    by (simp add: jsonencodecmd_def jsondecodecmd_def js_skip_ws_def make_string_exact del: js_encode.simps)
qed


text \<open>A text of \<open>2^31\<close> bytes ends the process.\<close>

lemma json_encode_too_long:
  assumes "json_indent ind = Some k" "js_encode (Suc JS_MAX_DEPTH) k (Some v) = Some m" "length m = 2 ^ 31"
  shows "jsonencodecmd v ind = None"
  using assms by (simp add: jsonencodecmd_def make_string_def c_int_def del: js_encode.simps)

lemma js_encode_two:
  "k = Suc (Suc n) \<Longrightarrow> js_encode k indent v
    = js_encode_1 (\<lambda>x. js_encode_1 (\<lambda>y. js_encode n indent (Some y)) indent (JS_MAX_DEPTH - n) (Some x))
        indent (JS_MAX_DEPTH - Suc n) v"
  by simp


text \<open>
  The decoder terminates on every input: each value it reads takes at least one byte,
  so the loops over the elements of an array and the members of an object never run out of
  the fuel of one unit a byte; any more fuel gives the same result.
\<close>

theorem json_loops_terminate:
  assumes "length b < n"
  shows "js_elements (js_decode lv) n b = js_elements (js_decode lv) (Suc (length b)) b
    \<and> js_members (js_decode lv) n d b = js_members (js_decode lv) (Suc (length b)) d b
    \<and> (js_decode lv b = Inr (v, r) \<longrightarrow> length r < length b)"
  using elements_fuel [OF js_decode_consumes assms] members_fuel [OF js_decode_consumes assms]
    consumesD [OF js_decode_consumes] by blast

theorem json_loops_terminate_witness:
  "js_elements (js_decode 3) 100 [0x31, 0x5D] = js_elements (js_decode 3) (Suc (length [0x31, 0x5D :: byte])) [0x31, 0x5D]"
proof -
  have l: "length [0x31, 0x5D :: byte] < 100" by simp
  show ?thesis using json_loops_terminate [OF l] by blast
qed

end
