(* ===== verification/Probe.thy ===== *)
theory Probe
  imports Codec
begin

text \<open>
  The open-addressing pointer tables of \<open>watch.h\<close> and \<open>weak.h\<close>, which share their
  code up to the fields of a slot and the initial capacity: linear probing from a
  multiplicative hash, tombstones, growth by rehashing the live slots.  The probing loops
  have no bound in the code; here they are partial functions, \<open>None\<close> for a loop that does
  not end, and the invariant \<open>tab_ok\<close> (a slot is always empty) makes every one of them end.
\<close>

section \<open>Tables\<close>

type_synonym addr = u64

definition TOMBSTONE :: addr where
  "TOMBSTONE = - 1"

definition legal_ptr :: "addr \<Rightarrow> bool" where
  "legal_ptr t = (t \<noteq> 0 \<and> t \<noteq> TOMBSTONE)"

datatype 'v slot = Slot (s_target: addr) (s_val: 'v)

record 'v ptab =
  tab :: "'v slot list"
  used :: nat

definition empty_tab :: "'v ptab" where
  "empty_tab = \<lparr>tab = [], used = 0\<rparr>"

definition ptr_hash :: "addr \<Rightarrow> u64" where
  "ptr_hash p = drop_bit 3 p * 0x9E3779B97F4A7C15"

definition ptr_index :: "addr \<Rightarrow> nat \<Rightarrow> nat" where
  "ptr_index p cap = unat (ptr_hash p AND (of_nat cap - 1))"

definition next_index :: "nat \<Rightarrow> nat \<Rightarrow> nat" where
  "next_index i cap = unat ((of_nat i + 1 :: u64) AND (of_nat cap - 1))"

partial_function (option) find_from :: "'v slot list \<Rightarrow> addr \<Rightarrow> nat \<Rightarrow> nat option option" where
  "find_from tb t i =
     (if s_target (tb ! i) = 0 then Some None
      else if s_target (tb ! i) = t then Some (Some i)
      else find_from tb t (next_index i (length tb)))"

definition tab_find :: "'v ptab \<Rightarrow> addr \<Rightarrow> nat option option" where
  "tab_find r t = (if tab r = [] then Some None else find_from (tab r) t (ptr_index t (length (tab r))))"

partial_function (option) free_from :: "'v slot list \<Rightarrow> nat \<Rightarrow> nat option" where
  "free_from nt j = (if s_target (nt ! j) = 0 then Some j else free_from nt (next_index j (length nt)))"

fun rehash_into :: "'v slot list \<Rightarrow> 'v slot list \<Rightarrow> nat \<Rightarrow> ('v slot list \<times> nat) option" where
  "rehash_into [] nt live = Some (nt, live)"
| "rehash_into (s # ss) nt live =
     (if s_target s = 0 \<or> s_target s = TOMBSTONE then rehash_into ss nt live
      else (case free_from nt (ptr_index (s_target s) (length nt)) of
              None \<Rightarrow> None
            | Some j \<Rightarrow> rehash_into ss (nt[j := s]) (live + 1)))"

text \<open>
  Growing: \<open>None\<close> is a loop that does not end, \<open>Some None\<close> the failure of \<open>calloc\<close>,
  which fails when the size of the array overflows or when \<open>alloc\<close> says so.
  \<open>icap\<close> is the first capacity, \<open>sz\<close> the size of a slot, \<open>blank\<close> its zeroed fields.
\<close>

definition tab_grow :: "(nat \<Rightarrow> bool) \<Rightarrow> nat \<Rightarrow> nat \<Rightarrow> 'v \<Rightarrow> 'v ptab \<Rightarrow> 'v ptab option option" where
  "tab_grow alloc icap sz blank r =
     (let ncap = (if tab r = [] then icap else length (tab r) * 2) in
      if ncap * sz > SIZE_MAX \<or> \<not> alloc ncap then Some None
      else map_option (\<lambda>(nt, live). Some \<lparr>tab = nt, used = live\<rparr>)
             (rehash_into (tab r) (replicate ncap (Slot 0 blank)) 0))"

declare find_from.simps [code] free_from.simps [code]

text \<open>The walk that looks for the target, remembering the first tombstone.\<close>

partial_function (option) ensure_from ::
    "'v slot list \<Rightarrow> addr \<Rightarrow> nat option \<Rightarrow> nat \<Rightarrow> (nat + nat option \<times> nat) option" where
  "ensure_from tb t tomb i =
     (if s_target (tb ! i) = 0 then Some (Inr (tomb, i))
      else if s_target (tb ! i) = t then Some (Inl i)
      else ensure_from tb t
             (if s_target (tb ! i) = TOMBSTONE \<and> tomb = None then Some i else tomb)
             (next_index i (length tb)))"

declare ensure_from.simps [code]

text \<open>Find or create: the table with the slot, and its index.\<close>

definition ensure_slot :: "(nat \<Rightarrow> bool) \<Rightarrow> nat \<Rightarrow> nat \<Rightarrow> 'v \<Rightarrow> 'v ptab \<Rightarrow> addr \<Rightarrow> ('v ptab \<times> nat) option option" where
  "ensure_slot alloc icap sz blank r t =
     (case (if tab r = [] \<or> (used r + 1) * 10 > length (tab r) * 7
            then tab_grow alloc icap sz blank r else Some (Some r)) of
        None \<Rightarrow> None
      | Some None \<Rightarrow> Some None
      | Some (Some r1) \<Rightarrow>
          (case ensure_from (tab r1) t None (ptr_index t (length (tab r1))) of
             None \<Rightarrow> None
           | Some (Inl i) \<Rightarrow> Some (Some (r1, i))
           | Some (Inr (tomb, i)) \<Rightarrow>
               (let j = (case tomb of Some k \<Rightarrow> k | None \<Rightarrow> i) in
                Some (Some (\<lparr>tab = (tab r1)[j := Slot t blank],
                             used = (if tomb = None then used r1 + 1 else used r1)\<rparr>, j)))))"

text \<open>Writing the fields of a slot, and turning it into a tombstone.\<close>

definition put_slot :: "'v ptab \<Rightarrow> nat \<Rightarrow> 'v \<Rightarrow> 'v ptab" where
  "put_slot r i v = r\<lparr>tab := (tab r)[i := Slot (s_target (tab r ! i)) v]\<rparr>"

definition drop_slot_at :: "'v ptab \<Rightarrow> nat \<Rightarrow> 'v \<Rightarrow> 'v ptab" where
  "drop_slot_at r i blank = r\<lparr>tab := (tab r)[i := Slot TOMBSTONE blank]\<rparr>"

section \<open>Indices\<close>

definition cap_ok :: "nat \<Rightarrow> bool" where
  "cap_ok n = (\<exists>k. 5 \<le> k \<and> k \<le> 62 \<and> n = 2 ^ k)"

lemma mask_index:
  assumes "cap_ok n"
  shows "unat (w AND (of_nat n - 1) :: u64) = unat w mod n"
proof -
  obtain k where k: "n = 2 ^ k" "k \<le> 62" using assms by (auto simp: cap_ok_def)
  have "(of_nat n - 1 :: u64) = mask k" unfolding k(1) by (rule pow2_minus_1)
  then have "unat (w AND (of_nat n - 1)) = unat (take_bit k w)" by (simp only: take_bit_eq_mask)
  also have "\<dots> = take_bit k (unat w)" by (rule unsigned_take_bit_eq)
  finally show ?thesis by (simp only: k(1) take_bit_eq_mod)
qed

lemma cap_pos: "cap_ok n \<Longrightarrow> 32 \<le> n"
proof -
  assume "cap_ok n"
  then obtain k where k: "5 \<le> k" "n = 2 ^ k" by (auto simp: cap_ok_def)
  have "(2 :: nat) ^ 5 \<le> 2 ^ k" using k(1) by (rule power_increasing) simp
  then show ?thesis by (simp add: k(2))
qed

lemma cap_bound: "cap_ok n \<Longrightarrow> n \<le> 2 ^ 62"
proof -
  assume "cap_ok n"
  then obtain k where k: "k \<le> 62" "n = 2 ^ k" by (auto simp: cap_ok_def)
  show ?thesis unfolding k(2) using k(1) by (rule power_increasing) simp
qed

lemma ptr_index_mod: "cap_ok n \<Longrightarrow> ptr_index p n = unat (ptr_hash p) mod n"
  by (simp add: ptr_index_def mask_index)

lemma next_index_mod:
  assumes "cap_ok n" "i < n"
  shows "next_index i n = (i + 1) mod n"
proof -
  have "i + 1 < 2 ^ 64" using assms(2) cap_bound [OF assms(1)] by simp
  then have "unat (of_nat (i + 1) :: u64) = i + 1"
    by (simp only: unsigned_of_nat) (simp add: take_bit_nat_eq_self)
  then have "unat (of_nat i + 1 :: u64) = i + 1" by (simp add: add.commute)
  then show ?thesis by (simp add: next_index_def mask_index [OF assms(1)])
qed

section \<open>Probe sequences\<close>

definition pos :: "nat \<Rightarrow> nat \<Rightarrow> nat \<Rightarrow> nat" where
  "pos n h m = (h + m) mod n"

lemma pos_next: "cap_ok n \<Longrightarrow> next_index (pos n h m) n = pos n h (Suc m)"
  using cap_pos [of n] by (subst next_index_mod) (simp_all add: pos_def mod_Suc_eq)

lemma pos_0: "h < n \<Longrightarrow> pos n h 0 = h"
  by (simp add: pos_def)

lemma pos_less: "cap_ok n \<Longrightarrow> pos n h m < n"
  using cap_pos [of n] by (simp add: pos_def)

lemma pos_dist: "h < n \<Longrightarrow> j < n \<Longrightarrow> \<exists>m < n. pos n h m = j"
proof (cases "h \<le> j")
  case True
  assume "h < n" "j < n"
  with True show ?thesis by (intro exI [of _ "j - h"]) (simp add: pos_def)
next
  case False
  assume a: "h < n" "j < n"
  with False show ?thesis by (intro exI [of _ "j + n - h"]) (simp add: pos_def)
qed

lemma pos_inj:
  assumes "m < n" "m' < n" "pos n h m = pos n h m'"
  shows "m = m'"
proof -
  have le: "a = b" if "a \<le> b" "b < n" "(h + a) mod n = (h + b) mod n" for a b
  proof -
    have "n dvd (h + b) - (h + a)" using that mod_eq_dvd_iff_nat [of "h + a" "h + b" n] by simp
    then show ?thesis using that(1,2) using dvd_imp_le [of n "b - a"] by (cases "b - a = 0") auto
  qed
  show ?thesis using le [of m m'] le [of m' m] assms unfolding pos_def by linarith
qed

text \<open>A walk reaches its first stop.\<close>

definition first_stop :: "'v slot list \<Rightarrow> addr \<Rightarrow> nat \<Rightarrow> nat \<Rightarrow> bool" where
  "first_stop tb t h m =
     ((s_target (tb ! pos (length tb) h m) = 0 \<or> s_target (tb ! pos (length tb) h m) = t)
      \<and> (\<forall>m' < m. s_target (tb ! pos (length tb) h m') \<noteq> 0 \<and> s_target (tb ! pos (length tb) h m') \<noteq> t))"

lemma find_from_stop:
  assumes "cap_ok (length tb)" "first_stop tb t h m"
  shows "k \<le> m \<Longrightarrow> find_from tb t (pos (length tb) h k)
    = Some (if s_target (tb ! pos (length tb) h m) = 0 then None else Some (pos (length tb) h m))"
proof (induction "m - k" arbitrary: k)
  case 0
  then have "k = m" by simp
  with assms(2) show ?case by (subst find_from.simps) (auto simp: first_stop_def)
next
  case (Suc d)
  then have "k < m" "d = m - Suc k" "Suc k \<le> m" by linarith+
  then show ?case using Suc.hyps(1) [of "Suc k"] assms
    by (subst find_from.simps) (simp add: first_stop_def pos_next)
qed

lemma free_from_stop:
  assumes "cap_ok (length tb)" "first_stop tb 0 h m"
  shows "k \<le> m \<Longrightarrow> free_from tb (pos (length tb) h k) = Some (pos (length tb) h m)"
proof (induction "m - k" arbitrary: k)
  case 0
  then have "k = m" by simp
  with assms(2) show ?case by (subst free_from.simps) (simp add: first_stop_def)
next
  case (Suc d)
  then have "k < m" "d = m - Suc k" "Suc k \<le> m" by linarith+
  then show ?case using Suc.hyps(1) [of "Suc k"] assms
    by (subst free_from.simps) (simp add: first_stop_def pos_next)
qed

lemma ensure_from_stop:
  assumes "cap_ok (length tb)" "first_stop tb t h m"
  shows "k \<le> m \<Longrightarrow> \<exists>tomb'. ensure_from tb t tomb (pos (length tb) h k)
      = Some (if s_target (tb ! pos (length tb) h m) = 0 then Inr (tomb', pos (length tb) h m)
              else Inl (pos (length tb) h m))
    \<and> (tomb' = tomb \<or> (tomb = None \<and> (\<exists>j < m. tomb' = Some (pos (length tb) h j)
                          \<and> s_target (tb ! pos (length tb) h j) = TOMBSTONE)))"
proof (induction "m - k" arbitrary: k tomb)
  case 0
  then have "k = m" by simp
  with assms(2) show ?case by (subst ensure_from.simps) (auto simp: first_stop_def)
next
  case (Suc d)
  let ?p = "pos (length tb) h"
  let ?tomb = "if s_target (tb ! ?p k) = TOMBSTONE \<and> tomb = None then Some (?p k) else tomb"
  from Suc have k: "k < m" "d = m - Suc k" "Suc k \<le> m" by linarith+
  have "ensure_from tb t tomb (?p k) = ensure_from tb t ?tomb (?p (Suc k))"
    using assms k(1) by (subst ensure_from.simps) (simp add: first_stop_def pos_next)
  with Suc.hyps(1) [OF k(2,3), of ?tomb] k(1) show ?case by (auto split: if_split_asm)
qed


section \<open>The invariant\<close>

definition is_live :: "'v slot \<Rightarrow> bool" where
  "is_live s = legal_ptr (s_target s)"

definition home :: "'v slot list \<Rightarrow> addr \<Rightarrow> nat" where
  "home tb t = ptr_index t (length tb)"

text \<open>
  Every live slot is reached from the home of its target over occupied slots, and no target
  has two slots.
\<close>

definition probe_ok :: "'v slot list \<Rightarrow> bool" where
  "probe_ok tb =
     ((\<forall>j < length tb. is_live (tb ! j) \<longrightarrow>
         (\<exists>m < length tb. pos (length tb) (home tb (s_target (tb ! j))) m = j
            \<and> (\<forall>m' < m. s_target (tb ! pos (length tb) (home tb (s_target (tb ! j))) m') \<noteq> 0)))
      \<and> (\<forall>i < length tb. \<forall>j < length tb. is_live (tb ! i) \<longrightarrow> s_target (tb ! i) = s_target (tb ! j) \<longrightarrow> i = j))"

definition occupied :: "'v slot list \<Rightarrow> nat" where
  "occupied tb = length (filter (\<lambda>s. s_target s \<noteq> 0) tb)"

definition tab_ok :: "'v ptab \<Rightarrow> bool" where
  "tab_ok r =
     (if tab r = [] then used r = 0
      else cap_ok (length (tab r)) \<and> probe_ok (tab r) \<and> used r = occupied (tab r)
        \<and> used r * 10 \<le> length (tab r) * 7)"

text \<open>What a table holds: the fields of the slot of a target.\<close>

definition tab_map :: "'v ptab \<Rightarrow> addr \<Rightarrow> 'v option" where
  "tab_map r t =
     (if \<exists>j < length (tab r). s_target (tab r ! j) = t
      then Some (s_val (tab r ! (THE j. j < length (tab r) \<and> s_target (tab r ! j) = t)))
      else None)"

lemma home_less: "cap_ok (length tb) \<Longrightarrow> home tb t < length tb"
proof -
  assume c: "cap_ok (length tb)"
  then have "0 < length tb" using cap_pos [OF c] by linarith
  then show ?thesis by (simp add: home_def ptr_index_mod [OF c])
qed

lemma occupied_less_empty:
  assumes "occupied tb < length tb"
  obtains j where "j < length tb" "s_target (tb ! j) = 0"
proof -
  have "\<exists>s \<in> set tb. s_target s = 0"
  proof (rule ccontr)
    assume "\<not> (\<exists>s \<in> set tb. s_target s = 0)"
    then have "filter (\<lambda>s. s_target s \<noteq> 0) tb = tb" by (simp add: filter_id_conv)
    with assms show False by (simp add: occupied_def)
  qed
  then show ?thesis using that by (auto simp: in_set_conv_nth)
qed

lemma occupied_update:
  assumes "i < length tb"
  shows "occupied (tb[i := s]) + (if s_target (tb ! i) \<noteq> 0 then 1 else 0)
    = occupied tb + (if s_target s \<noteq> 0 then 1 else 0)"
  using assms
proof (induction tb arbitrary: i)
  case (Cons a tb)
  then show ?case by (cases i) (auto simp: occupied_def)
qed simp

text \<open>With an empty slot every walk stops.\<close>

lemma stop_exists:
  assumes "cap_ok (length tb)" "occupied tb < length tb"
  obtains m where "m < length tb" "first_stop tb t (home tb t') m"
proof -
  let ?h = "home tb t'"
  define P where "P m = (s_target (tb ! pos (length tb) ?h m) = 0 \<or> s_target (tb ! pos (length tb) ?h m) = t)" for m
  obtain j where j: "j < length tb" "s_target (tb ! j) = 0" by (rule occupied_less_empty [OF assms(2)])
  obtain m where m: "m < length tb" "pos (length tb) ?h m = j"
    using pos_dist [OF home_less [OF assms(1)] j(1)] by blast
  then have "P m" using j by (simp add: P_def)
  have "P (LEAST m. P m)" by (rule LeastI [of P m, OF \<open>P m\<close>])
  moreover have "\<forall>k < (LEAST m. P m). \<not> P k" by (intro allI impI not_less_Least)
  ultimately have "first_stop tb t ?h (LEAST m. P m)" unfolding first_stop_def P_def by blast
  moreover have "(LEAST m. P m) < length tb" using Least_le [of P m, OF \<open>P m\<close>] m(1) by linarith
  ultimately show ?thesis using that by blast
qed

text \<open>A target that is in the table is found where it is.\<close>

lemma stop_at_target:
  assumes "cap_ok (length tb)" "probe_ok tb" "legal_ptr t" "first_stop tb t (home tb t) m" "m < length tb"
    and j: "j < length tb" "s_target (tb ! j) = t"
  shows "pos (length tb) (home tb t) m = j"
proof -
  let ?p = "pos (length tb) (home tb t)"
  have "is_live (tb ! j)" using j assms(3) by (simp add: is_live_def)
  then have "\<exists>n < length tb. pos (length tb) (home tb (s_target (tb ! j))) n = j
      \<and> (\<forall>m' < n. s_target (tb ! pos (length tb) (home tb (s_target (tb ! j))) m') \<noteq> 0)"
    using assms(2) j(1) unfolding probe_ok_def by blast
  then obtain n where n: "n < length tb" "?p n = j" "\<forall>m' < n. s_target (tb ! ?p m') \<noteq> 0"
    unfolding j(2) by blast
  have "m \<le> n"
  proof (rule ccontr)
    assume "\<not> m \<le> n"
    then have "n < m" by simp
    then have "s_target (tb ! ?p n) \<noteq> t" using assms(4) unfolding first_stop_def by blast
    with n(2) j(2) show False by simp
  qed
  moreover have "\<not> m < n"
  proof
    assume "m < n"
    with n(3) assms(4) have "s_target (tb ! ?p m) = t" by (auto simp: first_stop_def)
    then have "is_live (tb ! ?p m)" using assms(3) by (simp add: is_live_def)
    then have "?p m = j" using assms(2) j \<open>s_target (tb ! ?p m) = t\<close> pos_less [OF assms(1), of "home tb t" m]
      unfolding probe_ok_def by metis
    then have "m = n" using pos_inj [OF assms(5) n(1), where h = "home tb t"] n(2) by simp
    with \<open>m < n\<close> show False by simp
  qed
  ultimately show ?thesis using n(2) by simp
qed

lemma tab_map_at:
  assumes "probe_ok (tab r)" "legal_ptr t" "j < length (tab r)" "s_target (tab r ! j) = t"
  shows "tab_map r t = Some (s_val (tab r ! j))"
proof -
  have "(THE j. j < length (tab r) \<and> s_target (tab r ! j) = t) = j"
  proof (rule the_equality)
    fix i assume "i < length (tab r) \<and> s_target (tab r ! i) = t"
    then show "i = j" using assms by (auto simp: probe_ok_def is_live_def)
  qed (use assms in simp)
  with assms show ?thesis by (auto simp: tab_map_def)
qed

lemma tab_ok_space: "tab_ok r \<Longrightarrow> tab r \<noteq> [] \<Longrightarrow> occupied (tab r) < length (tab r)"
  using cap_pos [of "length (tab r)"] by (auto simp: tab_ok_def)

lemma tab_find_spec:
  assumes "tab_ok r" "legal_ptr t"
  shows "\<exists>res. tab_find r t = Some res
    \<and> (case res of None \<Rightarrow> tab_map r t = None
       | Some i \<Rightarrow> i < length (tab r) \<and> s_target (tab r ! i) = t \<and> tab_map r t = Some (s_val (tab r ! i)))"
proof (cases "tab r = []")
  case True
  then show ?thesis by (simp add: tab_find_def tab_map_def)
next
  case False
  let ?tb = "tab r" and ?h = "home (tab r) t"
  have c: "cap_ok (length ?tb)" "probe_ok ?tb" using assms(1) False by (simp_all add: tab_ok_def)
  obtain m where m: "m < length ?tb" "first_stop ?tb t ?h m"
    by (rule stop_exists [OF c(1) tab_ok_space [OF assms(1) False]])
  let ?j = "pos (length ?tb) ?h m"
  have f: "tab_find r t = Some (if s_target (?tb ! ?j) = 0 then None else Some ?j)"
    using find_from_stop [OF c(1) m(2), of 0] False home_less [OF c(1), of t]
    by (simp add: tab_find_def pos_0 home_def)
  show ?thesis
  proof (cases "s_target (?tb ! ?j) = 0")
    case True
    have "\<not> (\<exists>i < length ?tb. s_target (?tb ! i) = t)"
    proof
      assume "\<exists>i < length ?tb. s_target (?tb ! i) = t"
      then obtain i where i: "i < length ?tb" "s_target (?tb ! i) = t" by blast
      from stop_at_target [OF c assms(2) m(2,1) i] True i(2) assms(2) show False by (simp add: legal_ptr_def)
    qed
    then have "tab_map r t = None" by (simp add: tab_map_def)
    with f True show ?thesis by simp
  next
    case False
    then have t: "s_target (?tb ! ?j) = t" using m(2) by (auto simp: first_stop_def)
    have l: "?j < length ?tb" by (rule pos_less [OF c(1)])
    with f False t tab_map_at [OF c(2) assms(2) l t] show ?thesis by simp
  qed
qed


section \<open>Updates of a table\<close>

definition uniq :: "'v slot list \<Rightarrow> bool" where
  "uniq tb = (\<forall>i < length tb. \<forall>j < length tb. is_live (tb ! i) \<longrightarrow> s_target (tb ! i) = s_target (tb ! j) \<longrightarrow> i = j)"

definition reach :: "'v slot list \<Rightarrow> nat \<Rightarrow> addr \<Rightarrow> bool" where
  "reach tb j t = (\<exists>m < length tb. pos (length tb) (home tb t) m = j
     \<and> (\<forall>m' < m. s_target (tb ! pos (length tb) (home tb t) m') \<noteq> 0))"

lemma probe_ok_alt: "probe_ok tb = ((\<forall>j < length tb. is_live (tb ! j) \<longrightarrow> reach tb j (s_target (tb ! j))) \<and> uniq tb)"
  by (simp only: probe_ok_def reach_def uniq_def)

lemma home_update [simp]: "home (tb[i := s]) t = home tb t"
  by (simp add: home_def)

lemma reach_update:
  assumes "reach tb j t" "s_target s \<noteq> 0"
  shows "reach (tb[i := s]) j t"
proof -
  have k: "s_target (tb[i := s] ! n) \<noteq> 0" if "s_target (tb ! n) \<noteq> 0" for n
    using that assms(2) by (cases "n = i"; cases "i < length tb") (simp_all add: list_update_beyond not_less)
  from assms(1) obtain m where m: "m < length tb" "pos (length tb) (home tb t) m = j"
    "\<forall>m' < m. s_target (tb ! pos (length tb) (home tb t) m') \<noteq> 0"
    unfolding reach_def by blast
  have "\<forall>m' < m. s_target (tb[i := s] ! pos (length tb) (home tb t) m') \<noteq> 0" using m(3) k by blast
  then show ?thesis unfolding reach_def using m(1,2) by auto
qed

lemma probe_update:
  assumes "probe_ok tb" "s_target s \<noteq> 0" "i < length tb"
    and new: "is_live s \<Longrightarrow> reach tb i (s_target s) \<and> (\<forall>j < length tb. j \<noteq> i \<longrightarrow> s_target (tb ! j) \<noteq> s_target s)"
  shows "probe_ok (tb[i := s])"
proof -
  have r: "reach (tb[i := s]) j (s_target (tb[i := s] ! j))"
    if "j < length tb" "is_live (tb[i := s] ! j)" for j
  proof (cases "j = i")
    case True
    with that new assms(3) show ?thesis by (intro reach_update [OF _ assms(2)]) simp
  next
    case False
    with that assms(1) show ?thesis by (intro reach_update [OF _ assms(2)]) (simp add: probe_ok_alt)
  qed
  have u: "uniq tb" using assms(1) by (simp add: probe_ok_alt)
  have "a = b" if "a < length tb" "b < length tb" "is_live (tb[i := s] ! a)"
      "s_target (tb[i := s] ! a) = s_target (tb[i := s] ! b)" for a b
  proof -
    consider "a = i" "b = i" | "a = i" "b \<noteq> i" | "a \<noteq> i" "b = i" | "a \<noteq> i" "b \<noteq> i" by blast
    then show ?thesis
    proof cases
      case 2
      then have "is_live s" "s_target s = s_target (tb ! b)" using that by simp_all
      with new 2 that show ?thesis by metis
    next
      case 3
      then have "is_live (tb ! a)" "s_target (tb ! a) = s_target s" using that by simp_all
      moreover then have "is_live s" by (simp add: is_live_def)
      ultimately show ?thesis using new 3 that by metis
    next
      case 4
      then show ?thesis using u that unfolding uniq_def by simp
    qed simp
  qed
  then have "uniq (tb[i := s])" unfolding uniq_def length_list_update by blast
  with r show ?thesis unfolding probe_ok_alt length_list_update by blast
qed

text \<open>The table as a map, by membership of slots.\<close>

lemma tab_map_iff:
  assumes "probe_ok (tab r)" "legal_ptr t"
  shows "(tab_map r t = Some v) = (Slot t v \<in> set (tab r))"
proof
  assume a: "tab_map r t = Some v"
  then obtain j where j: "j < length (tab r)" "s_target (tab r ! j) = t"
    by (auto simp: tab_map_def split: if_splits)
  with a tab_map_at [OF assms j] have "tab r ! j = Slot t v" by (cases "tab r ! j") simp
  with j(1) show "Slot t v \<in> set (tab r)" by (metis nth_mem)
next
  assume "Slot t v \<in> set (tab r)"
  then obtain j where "j < length (tab r)" "tab r ! j = Slot t v" by (auto simp: in_set_conv_nth)
  with tab_map_at [OF assms this(1)] show "tab_map r t = Some v" by simp
qed

lemma set_update_iff: "i < length xs \<Longrightarrow> (\<And>j. j < length xs \<Longrightarrow> xs ! j = x \<Longrightarrow> j \<noteq> i) \<Longrightarrow>
    x \<in> set (xs[i := y]) \<longleftrightarrow> x = y \<or> x \<in> set xs"
  by (auto simp: in_set_conv_nth nth_list_update) metis

lemma tab_map_eqI:
  assumes "\<And>v. (tab_map r t = Some v) = (m = Some v)"
  shows "tab_map r t = m"
  using assms by (metis option.exhaust)

lemma put_slot_ok:
  assumes "tab_ok r" "i < length (tab r)" "legal_ptr (s_target (tab r ! i))" "legal_ptr t'"
  shows "tab_ok (put_slot r i v)"
    and "tab_map (put_slot r i v) t' = (if t' = s_target (tab r ! i) then Some v else tab_map r t')"
proof -
  let ?s = "Slot (s_target (tab r ! i)) v"
  have ne: "tab r \<noteq> []" using assms(2) by auto
  have c: "cap_ok (length (tab r))" "probe_ok (tab r)" "used r = occupied (tab r)" "used r * 10 \<le> length (tab r) * 7"
    using assms(1) ne by (simp_all add: tab_ok_def)
  have l: "is_live (tab r ! i)" "s_target ?s \<noteq> 0" using assms(3) by (simp_all add: is_live_def legal_ptr_def)
  have p: "probe_ok ((tab r)[i := ?s])"
  proof (rule probe_update [OF c(2) l(2) assms(2)])
    show "reach (tab r) i (s_target ?s) \<and> (\<forall>j < length (tab r). j \<noteq> i \<longrightarrow> s_target (tab r ! j) \<noteq> s_target ?s)"
      using c(2) l(1) assms(2) unfolding probe_ok_alt uniq_def by (metis slot.sel(1))
  qed
  have o: "occupied ((tab r)[i := ?s]) = occupied (tab r)"
    using occupied_update [OF assms(2), of ?s] l by (simp split: if_splits)
  show "tab_ok (put_slot r i v)" using c p o ne by (simp add: tab_ok_def put_slot_def)
  have p': "probe_ok (tab (put_slot r i v))" using p by (simp add: put_slot_def)
  show "tab_map (put_slot r i v) t' = (if t' = s_target (tab r ! i) then Some v else tab_map r t')"
  proof (cases "t' = s_target (tab r ! i)")
    case True
    then show ?thesis using tab_map_at [OF p' assms(4), of i] assms(2) by (simp add: put_slot_def)
  next
    case False
    have "(tab_map (put_slot r i v) t' = Some w) = (tab_map r t' = Some w)" for w
    proof -
      have "j \<noteq> i" if "j < length (tab r)" "tab r ! j = Slot t' w" for j using that False by auto
      from set_update_iff [OF assms(2) this, where y = ?s] False show ?thesis
        unfolding tab_map_iff [OF p' assms(4)] tab_map_iff [OF c(2) assms(4)] by (simp add: put_slot_def)
    qed
    with False show ?thesis using tab_map_eqI [of "put_slot r i v" t' "tab_map r t'"] by auto
  qed
qed

lemma drop_slot_ok:
  assumes "tab_ok r" "i < length (tab r)" "legal_ptr (s_target (tab r ! i))" "legal_ptr t'"
  shows "tab_ok (drop_slot_at r i b)"
    and "tab_map (drop_slot_at r i b) t' = (if t' = s_target (tab r ! i) then None else tab_map r t')"
proof -
  let ?s = "Slot TOMBSTONE b"
  have ne: "tab r \<noteq> []" using assms(2) by auto
  have c: "cap_ok (length (tab r))" "probe_ok (tab r)" "used r = occupied (tab r)" "used r * 10 \<le> length (tab r) * 7"
    using assms(1) ne by (simp_all add: tab_ok_def)
  have l: "is_live (tab r ! i)" "s_target ?s \<noteq> 0" "\<not> is_live ?s"
    using assms(3) by (simp_all add: is_live_def legal_ptr_def TOMBSTONE_def)
  have p: "probe_ok ((tab r)[i := ?s])"
    using l(3) by (intro probe_update [OF c(2) l(2) assms(2)]) simp
  have o: "occupied ((tab r)[i := ?s]) = occupied (tab r)"
    using occupied_update [OF assms(2), of ?s] l assms(3) by (simp add: legal_ptr_def)
  show "tab_ok (drop_slot_at r i b)" using c p o ne by (simp add: tab_ok_def drop_slot_at_def)
  have p': "probe_ok (tab (drop_slot_at r i b))" using p by (simp add: drop_slot_at_def)
  have "(tab_map (drop_slot_at r i b) t' = Some w) = ((if t' = s_target (tab r ! i) then None else tab_map r t') = Some w)" for w
  proof (cases "t' = s_target (tab r ! i)")
    case True
    have "Slot t' w \<notin> set ((tab r)[i := ?s])"
    proof
      assume "Slot t' w \<in> set ((tab r)[i := ?s])"
      then obtain j where j: "j < length (tab r)" "(tab r)[i := ?s] ! j = Slot t' w" by (auto simp: in_set_conv_nth)
      then have "j \<noteq> i" using assms(2,4) by (auto simp: legal_ptr_def)
      moreover from this j True have "s_target (tab r ! i) = s_target (tab r ! j)" by simp
      with c(2) l(1) assms(2) j(1) have "i = j" unfolding probe_ok_alt uniq_def by blast
      ultimately show False by simp
    qed
    with True show ?thesis unfolding tab_map_iff [OF p' assms(4)] by (simp add: drop_slot_at_def)
  next
    case False
    then have "j \<noteq> i" if "j < length (tab r)" "tab r ! j = Slot t' w" for j using that by auto
    from set_update_iff [OF assms(2) this, where y = ?s] False assms(4) show ?thesis
      unfolding tab_map_iff [OF p' assms(4)] by (simp add: tab_map_iff [OF c(2) assms(4)] drop_slot_at_def legal_ptr_def)
  qed
  then show "tab_map (drop_slot_at r i b) t' = (if t' = s_target (tab r ! i) then None else tab_map r t')"
    by (rule tab_map_eqI)
qed


section \<open>Insertion\<close>

lemma reach_pos:
  assumes "m < length tb" "\<forall>m' < m. s_target (tb ! pos (length tb) (home tb t) m') \<noteq> 0"
  shows "reach tb (pos (length tb) (home tb t) m) t"
  using assms by (auto simp: reach_def)

text \<open>Writing a new target into a slot that is not live, on the walk from its home.\<close>

lemma insert_at:
  assumes "probe_ok tb" "legal_ptr t" "\<forall>j < length tb. s_target (tb ! j) \<noteq> t"
    and "i < length tb" "\<not> is_live (tb ! i)" "reach tb i t"
  shows "probe_ok (tb[i := Slot t v])"
    and "\<And>s. is_live s \<Longrightarrow> s \<in> set (tb[i := Slot t v]) \<longleftrightarrow> s = Slot t v \<or> s \<in> set tb"
proof -
  show "probe_ok (tb[i := Slot t v])"
    by (rule probe_update) (use assms in \<open>auto simp: legal_ptr_def\<close>)
  fix s :: "'a slot" assume "is_live s"
  then have "j \<noteq> i" if "j < length tb" "tb ! j = s" for j using that assms(5) by auto
  from set_update_iff [OF assms(4) this, where y = "Slot t v"]
  show "s \<in> set (tb[i := Slot t v]) \<longleftrightarrow> s = Slot t v \<or> s \<in> set tb" .
qed

lemma not_in_table:
  assumes "\<forall>s \<in> set tb. is_live s \<longrightarrow> s_target s \<noteq> t" "legal_ptr t"
  shows "\<forall>j < length tb. s_target (tb ! j) \<noteq> t"
  using assms by (auto simp: is_live_def)

lemma rehash_ok:
  assumes "cap_ok (length nt)" "probe_ok nt" "occupied nt = live" "uniq ss"
    and "live + length (filter is_live ss) < length nt"
    and "\<forall>s \<in> set ss. is_live s \<longrightarrow> (\<forall>s' \<in> set nt. s_target s' \<noteq> s_target s)"
  shows "\<exists>nt' live'. rehash_into ss nt live = Some (nt', live') \<and> length nt' = length nt \<and> probe_ok nt'
    \<and> occupied nt' = live' \<and> live' = live + length (filter is_live ss)
    \<and> (\<forall>s. is_live s \<longrightarrow> (s \<in> set nt' \<longleftrightarrow> s \<in> set nt \<or> s \<in> set ss))"
  using assms
proof (induction ss arbitrary: nt live)
  case (Cons s ss)
  have us: "uniq ss"
    using Cons.prems(4) unfolding uniq_def by (metis Suc_less_eq Suc_inject length_Cons nth_Cons_Suc)
  show ?case
  proof (cases "is_live s")
    case False
    then have "s_target s = 0 \<or> s_target s = TOMBSTONE" by (auto simp: is_live_def legal_ptr_def)
    moreover have "\<exists>nt' live'. rehash_into ss nt live = Some (nt', live') \<and> length nt' = length nt \<and> probe_ok nt'
      \<and> occupied nt' = live' \<and> live' = live + length (filter is_live ss)
      \<and> (\<forall>s. is_live s \<longrightarrow> (s \<in> set nt' \<longleftrightarrow> s \<in> set nt \<or> s \<in> set ss))"
      using Cons.prems False by (intro Cons.IH us) simp_all
    ultimately show ?thesis using False by auto
  next
    case True
    let ?t = "s_target s"
    have t: "legal_ptr ?t" using True by (simp add: is_live_def)
    have sp: "occupied nt < length nt" using Cons.prems(3,5) by simp
    obtain m where m: "m < length nt" "first_stop nt 0 (home nt ?t) m"
      by (rule stop_exists [OF Cons.prems(1) sp])
    let ?j = "pos (length nt) (home nt ?t) m"
    have j: "?j < length nt" by (rule pos_less [OF Cons.prems(1)])
    have fj: "free_from nt (ptr_index ?t (length nt)) = Some ?j"
      using free_from_stop [OF Cons.prems(1) m(2), of 0] home_less [OF Cons.prems(1), of ?t]
      by (simp add: pos_0 home_def)
    have tj: "s_target (nt ! ?j) = 0" using m(2) by (simp add: first_stop_def)
    then have nl: "\<not> is_live (nt ! ?j)" by (simp add: is_live_def legal_ptr_def)
    have out: "\<forall>j < length nt. s_target (nt ! j) \<noteq> ?t" using Cons.prems(6) True by auto
    have rc: "reach nt ?j ?t" by (rule reach_pos [OF m(1)]) (use m(2) in \<open>simp add: first_stop_def\<close>)
    note ins = insert_at [OF Cons.prems(2) t out j nl rc, where v = "s_val s"]
    let ?nt = "nt[?j := s]"
    have s: "Slot ?t (s_val s) = s" by simp
    have p: "probe_ok ?nt" using ins(1) by simp
    have o: "occupied ?nt = live + 1"
      using occupied_update [OF j, of s] tj t Cons.prems(3) by (simp add: legal_ptr_def)
    have fresh: "\<forall>s' \<in> set ss. is_live s' \<longrightarrow> s_target s' \<noteq> ?t"
    proof (intro ballI impI notI)
      fix s' assume "s' \<in> set ss" "is_live s'" "s_target s' = ?t"
      then obtain k where "k < length ss" "ss ! k = s'" by (auto simp: in_set_conv_nth)
      then have "0 = Suc k" using Cons.prems(4) True \<open>s_target s' = ?t\<close>
        unfolding uniq_def by (metis Suc_less_eq length_Cons nth_Cons_0 nth_Cons_Suc zero_less_Suc)
      then show False by simp
    qed
    have new: "\<forall>s' \<in> set ss. is_live s' \<longrightarrow> (\<forall>u \<in> set ?nt. s_target u \<noteq> s_target s')"
    proof (intro ballI impI notI)
      fix s' u assume a: "s' \<in> set ss" "is_live s'" "u \<in> set ?nt" "s_target u = s_target s'"
      then have "u \<in> set nt \<or> u = s" using set_update_subset_insert [of nt ?j s] by blast
      then show False using a fresh Cons.prems(6) by auto
    qed
    have "\<exists>nt' live'. rehash_into ss ?nt (live + 1) = Some (nt', live') \<and> length nt' = length ?nt \<and> probe_ok nt'
      \<and> occupied nt' = live' \<and> live' = live + 1 + length (filter is_live ss)
      \<and> (\<forall>s. is_live s \<longrightarrow> (s \<in> set nt' \<longleftrightarrow> s \<in> set ?nt \<or> s \<in> set ss))"
      by (rule Cons.IH) (use Cons.prems(1,5) p o us new True in simp_all)
    then obtain nt' live' where r: "rehash_into ss ?nt (live + 1) = Some (nt', live')" "length nt' = length nt"
      "probe_ok nt'" "occupied nt' = live'" "live' = live + 1 + length (filter is_live ss)"
      "\<forall>s. is_live s \<longrightarrow> (s \<in> set nt' \<longleftrightarrow> s \<in> set ?nt \<or> s \<in> set ss)" by auto
    have "rehash_into (s # ss) nt live = Some (nt', live')" using t fj r(1) by (simp add: legal_ptr_def)
    moreover have "\<forall>x. is_live x \<longrightarrow> (x \<in> set nt' \<longleftrightarrow> x \<in> set nt \<or> x \<in> set (s # ss))"
      using r(6) ins(2) by auto
    ultimately show ?thesis using r(2-5) True by auto
  qed
qed simp


lemma live_le_occupied: "length (filter is_live tb) \<le> occupied tb"
  by (induction tb) (auto simp: occupied_def is_live_def legal_ptr_def)

lemma uniq_tab: "tab_ok r \<Longrightarrow> uniq (tab r)"
  by (cases "tab r = []") (auto simp: tab_ok_def probe_ok_alt uniq_def)

lemma blank_table:
  "probe_ok (replicate n (Slot 0 b))" "occupied (replicate n (Slot 0 b)) = 0"
  by (simp_all add: probe_ok_def is_live_def legal_ptr_def occupied_def)

lemma new_cap_ok:
  assumes "tab_ok r" "cap_ok icap" "2 \<le> sz" "(if tab r = [] then icap else length (tab r) * 2) * sz \<le> SIZE_MAX"
  shows "cap_ok (if tab r = [] then icap else length (tab r) * 2)"
proof (cases "tab r = []")
  case False
  then obtain k where k: "5 \<le> k" "length (tab r) = 2 ^ k" using assms(1) by (auto simp: tab_ok_def cap_ok_def)
  have "length (tab r) * 2 * 2 \<le> length (tab r) * 2 * sz" using assms(3) by simp
  also have "\<dots> \<le> SIZE_MAX" using assms(4) False by simp
  also have "\<dots> < 2 ^ 64" by (simp add: SIZE_MAX_def)
  finally have "(2 :: nat) ^ (k + 2) < 2 ^ 64" using k(2) by (simp add: power_add)
  then have "k + 2 < 64" by (rule power_less_imp_less_exp [rotated]) simp
  then show ?thesis using k False by (auto simp: cap_ok_def intro!: exI [of _ "Suc k"])
qed (use assms(2) in simp)

lemma tab_grow_ok:
  assumes "tab_ok r" "cap_ok icap" "2 \<le> sz"
  shows "tab_grow alloc icap sz blank r = Some None
    \<or> (\<exists>r'. tab_grow alloc icap sz blank r = Some (Some r') \<and> tab_ok r' \<and> tab r' \<noteq> []
        \<and> (used r' + 1) * 10 \<le> length (tab r') * 7 \<and> (\<forall>t. legal_ptr t \<longrightarrow> tab_map r' t = tab_map r t))"
proof -
  define ncap where "ncap = (if tab r = [] then icap else length (tab r) * 2)"
  show ?thesis
  proof (cases "ncap * sz > SIZE_MAX \<or> \<not> alloc ncap")
    case True
    then show ?thesis by (simp add: tab_grow_def Let_def ncap_def [symmetric])
  next
    case False
    let ?nt = "replicate ncap (Slot 0 blank)"
    let ?live = "length (filter is_live (tab r))"
    have c: "cap_ok ncap" using new_cap_ok [OF assms(1-3)] False by (simp add: ncap_def)
    have l: "(?live + 1) * 10 \<le> ncap * 7"
    proof (cases "tab r = []")
      case True
      then show ?thesis using cap_pos [OF assms(2)] by (simp add: ncap_def)
    next
      case ne: False
      then have "?live * 10 \<le> length (tab r) * 7" "32 \<le> length (tab r)"
        using assms(1) live_le_occupied [of "tab r"] cap_pos [of "length (tab r)"] by (auto simp: tab_ok_def)
      then show ?thesis using ne by (simp add: ncap_def)
    qed
    have "\<exists>nt' live'. rehash_into (tab r) ?nt 0 = Some (nt', live') \<and> length nt' = length ?nt \<and> probe_ok nt'
      \<and> occupied nt' = live' \<and> live' = 0 + ?live
      \<and> (\<forall>s. is_live s \<longrightarrow> (s \<in> set nt' \<longleftrightarrow> s \<in> set ?nt \<or> s \<in> set (tab r)))"
    proof (rule rehash_ok)
      show "\<forall>s \<in> set (tab r). is_live s \<longrightarrow> (\<forall>s' \<in> set ?nt. s_target s' \<noteq> s_target s)"
        by (auto simp: is_live_def legal_ptr_def)
      show "0 + ?live < length ?nt" using l by simp
    qed (use c blank_table uniq_tab [OF assms(1)] in simp_all)
    then obtain nt' where r: "rehash_into (tab r) ?nt 0 = Some (nt', ?live)" "length nt' = ncap"
      "probe_ok nt'" "occupied nt' = ?live"
      "\<forall>s. is_live s \<longrightarrow> (s \<in> set nt' \<longleftrightarrow> s \<in> set ?nt \<or> s \<in> set (tab r))" by auto
    let ?r = "\<lparr>tab = nt', used = ?live\<rparr>"
    have g: "tab_grow alloc icap sz blank r = Some (Some ?r)"
      using False r(1) by (simp add: tab_grow_def Let_def ncap_def [symmetric])
    have ne: "nt' \<noteq> []" using cap_pos [OF c] r(2) by auto
    have ok: "tab_ok ?r" using c r(2-4) l ne by (simp add: tab_ok_def)
    have "tab_map ?r t = tab_map r t" if t: "legal_ptr t" for t
    proof (rule tab_map_eqI)
      fix v :: 'a
      have lv: "is_live (Slot t v)" using t by (simp add: is_live_def)
      then have "(Slot t v \<in> set nt') = (Slot t v \<in> set (tab r))" using r(5) by (auto simp: is_live_def legal_ptr_def)
      moreover have "(tab_map r t = Some v) = (Slot t v \<in> set (tab r))"
      proof (cases "tab r = []")
        case ne: False
        then show ?thesis using tab_map_iff [OF _ t, of r v] assms(1) by (simp add: tab_ok_def)
      qed (simp add: tab_map_def)
      ultimately show "(tab_map ?r t = Some v) = (tab_map r t = Some v)"
        using tab_map_iff [of ?r t v] r(3) t by simp
    qed
    then show ?thesis using g ok ne l r(2) by auto
  qed
qed

lemma ensure_slot_spec:
  assumes "tab_ok r" "legal_ptr t" "cap_ok icap" "2 \<le> sz"
  shows "ensure_slot alloc icap sz blank r t = Some None
    \<or> (\<exists>r' i. ensure_slot alloc icap sz blank r t = Some (Some (r', i)) \<and> tab_ok r' \<and> i < length (tab r')
        \<and> tab r' ! i = Slot t (case tab_map r t of None \<Rightarrow> blank | Some v \<Rightarrow> v)
        \<and> (\<forall>t'. legal_ptr t' \<longrightarrow> t' \<noteq> t \<longrightarrow> tab_map r' t' = tab_map r t'))"
proof -
  let ?g = "if tab r = [] \<or> (used r + 1) * 10 > length (tab r) * 7
            then tab_grow alloc icap sz blank r else Some (Some r)"
  have "?g = Some None \<or> (\<exists>r1. ?g = Some (Some r1) \<and> tab_ok r1 \<and> tab r1 \<noteq> []
        \<and> (used r1 + 1) * 10 \<le> length (tab r1) * 7 \<and> (\<forall>t. legal_ptr t \<longrightarrow> tab_map r1 t = tab_map r t))"
    using tab_grow_ok [OF assms(1,3,4), of alloc blank] assms(1) by auto
  then consider (oom) "?g = Some None" | (go) r1 where "?g = Some (Some r1)" "tab_ok r1" "tab r1 \<noteq> []"
      "(used r1 + 1) * 10 \<le> length (tab r1) * 7" "\<forall>t. legal_ptr t \<longrightarrow> tab_map r1 t = tab_map r t"
    by blast
  then show ?thesis
  proof cases
    case oom
    then show ?thesis by (simp add: ensure_slot_def)
  next
    case go
    let ?tb = "tab r1" and ?h = "home (tab r1) t"
    have c: "cap_ok (length ?tb)" "probe_ok ?tb" "used r1 = occupied ?tb" using go(2,3) by (simp_all add: tab_ok_def)
    obtain m where m: "m < length ?tb" "first_stop ?tb t ?h m"
      by (rule stop_exists [OF c(1) tab_ok_space [OF go(2,3)]])
    let ?p = "pos (length ?tb) ?h"
    have pl: "?p k < length ?tb" for k by (rule pos_less [OF c(1)])
    from ensure_from_stop [OF c(1) m(2), of 0 None] obtain tomb where
      e: "ensure_from ?tb t None (ptr_index t (length ?tb))
        = Some (if s_target (?tb ! ?p m) = 0 then Inr (tomb, ?p m) else Inl (?p m))"
      and tomb: "tomb = None \<or> (\<exists>j < m. tomb = Some (?p j) \<and> s_target (?tb ! ?p j) = TOMBSTONE)"
      using home_less [OF c(1), of t] by (auto simp: pos_0 home_def)
    show ?thesis
    proof (cases "s_target (?tb ! ?p m) = 0")
      case False
      then have t: "s_target (?tb ! ?p m) = t" using m(2) by (auto simp: first_stop_def)
      have "tab_map r t = Some (s_val (?tb ! ?p m))"
        using tab_map_at [OF c(2) assms(2) pl t] go(5) assms(2) by simp
      then have "?tb ! ?p m = Slot t (case tab_map r t of None \<Rightarrow> blank | Some v \<Rightarrow> v)"
        using t by (cases "?tb ! ?p m") simp
      moreover have "ensure_slot alloc icap sz blank r t = Some (Some (r1, ?p m))"
        unfolding ensure_slot_def go(1) using e False by simp
      ultimately show ?thesis using go pl by blast
    next
      case True
      have out: "\<forall>j < length ?tb. s_target (?tb ! j) \<noteq> t"
      proof (intro allI impI notI)
        fix j assume j: "j < length ?tb" "s_target (?tb ! j) = t"
        from stop_at_target [OF c(1,2) assms(2) m(2,1) j] True j(2) assms(2) show False by (simp add: legal_ptr_def)
      qed
      define j where "j = (case tomb of Some k \<Rightarrow> k | None \<Rightarrow> ?p m)"
      obtain n where n: "j = ?p n" "n \<le> m" and nl: "\<not> is_live (?tb ! j)"
        and tj: "s_target (?tb ! j) = 0 \<longleftrightarrow> tomb = None"
        using tomb
      proof
        assume "tomb = None"
        with True show ?thesis by (intro that [of m]) (simp_all add: j_def is_live_def legal_ptr_def)
      next
        assume "\<exists>j < m. tomb = Some (?p j) \<and> s_target (?tb ! ?p j) = TOMBSTONE"
        then obtain i where "i < m" "tomb = Some (?p i)" "s_target (?tb ! ?p i) = TOMBSTONE" by blast
        then show ?thesis by (intro that [of i]) (simp_all add: j_def is_live_def legal_ptr_def TOMBSTONE_def)
      qed
      have jl: "j < length ?tb" using pl n(1) by simp
      have rc: "reach ?tb j t" unfolding n(1)
        by (rule reach_pos) (use m n(2) in \<open>auto simp: first_stop_def\<close>)
      note ins = insert_at [OF c(2) assms(2) out jl nl rc, where v = blank]
      let ?r = "\<lparr>tab = ?tb[j := Slot t blank], used = (if tomb = None then used r1 + 1 else used r1)\<rparr>"
      have en: "ensure_slot alloc icap sz blank r t = Some (Some (?r, j))"
        unfolding ensure_slot_def go(1) using e True by (simp add: j_def Let_def)
      have o: "occupied (?tb[j := Slot t blank]) = used ?r"
        using occupied_update [OF jl, of "Slot t blank"] tj assms(2) c(3) by (auto simp: legal_ptr_def split: if_splits)
      have ok: "tab_ok ?r" using c(1) ins(1) o go(3,4) by (simp add: tab_ok_def)
      have none: "tab_map r t = None"
      proof -
        have "tab_map r1 t = None" using out by (auto simp: tab_map_def)
        then show ?thesis using go(5) assms(2) by simp
      qed
      have "tab_map ?r t' = tab_map r t'" if t': "legal_ptr t'" "t' \<noteq> t" for t'
      proof (rule tab_map_eqI)
        fix v :: 'a
        have "is_live (Slot t' v)" using t'(1) by (simp add: is_live_def)
        from ins(2) [OF this] t'(2) have "(Slot t' v \<in> set (?tb[j := Slot t blank])) = (Slot t' v \<in> set ?tb)" by simp
        then show "(tab_map ?r t' = Some v) = (tab_map r t' = Some v)"
          using tab_map_iff [of ?r t' v] tab_map_iff [OF c(2) t'(1), of v] ins(1) t'(1) go(5) by simp
      qed
      then show ?thesis using en ok jl none by auto
    qed
  qed
qed

end
