(* ===== verification/Watch.thy ===== *)
theory Watch
  imports Probe
begin

text \<open>
  Watchers and validators (\<open>watch.h\<close>): the registry of hooks, a \<open>Probe\<close> table from
  objects to their slots, the flag \<open>FLAG_WATCHED\<close> of the objects, and the dispatch of an
  event.  A function value is a number; a watcher list is the list of its cons cells, each
  a fresh number with the function it holds, so that a freed cell can be told from a live
  one.  Evaluation of a watcher is the parameter \<open>eval\<close>, which may run any command.

  A command returns \<open>None\<close> when a probing loop does not end or freed memory is read.
\<close>

section \<open>The registry\<close>

record watch_slot_t =
  fns :: "(nat \<times> nat) list"
  validator :: "nat option"

definition blank_slot :: watch_slot_t where
  "blank_slot = \<lparr>fns = [], validator = None\<rparr>"

record watch_state =
  watch_tab :: "watch_slot_t ptab"
  flagged :: "addr set"
  next_cell :: nat

definition watch_init :: watch_state where
  "watch_init = \<lparr>watch_tab = empty_tab, flagged = {}, next_cell = 0\<rparr>"

definition WATCH_CAP0 :: nat where "WATCH_CAP0 = 32"
definition WATCH_SLOT_SIZE :: nat where "WATCH_SLOT_SIZE = 24"

definition slot_at :: "watch_state \<Rightarrow> nat \<Rightarrow> watch_slot_t" where
  "slot_at w i = s_val (tab (watch_tab w) ! i)"

definition watch_ensure_slot :: "(nat \<Rightarrow> bool) \<Rightarrow> watch_state \<Rightarrow> addr \<Rightarrow> (watch_state \<times> nat) option option" where
  "watch_ensure_slot alloc w target =
     (case ensure_slot alloc WATCH_CAP0 WATCH_SLOT_SIZE blank_slot (watch_tab w) target of
        None \<Rightarrow> None
      | Some None \<Rightarrow> Some None
      | Some (Some (t, i)) \<Rightarrow> Some (Some (w\<lparr>watch_tab := t\<rparr>, i)))"

definition set_slot :: "watch_state \<Rightarrow> nat \<Rightarrow> watch_slot_t \<Rightarrow> watch_state" where
  "set_slot w i s = w\<lparr>watch_tab := put_slot (watch_tab w) i s\<rparr>"

definition drop_watch :: "watch_state \<Rightarrow> nat \<Rightarrow> watch_state" where
  "drop_watch w i = w\<lparr>watch_tab := drop_slot_at (watch_tab w) i blank_slot\<rparr>"

definition set_flag :: "addr \<Rightarrow> watch_state \<Rightarrow> watch_state" where
  "set_flag obj w = w\<lparr>flagged := insert obj (flagged w)\<rparr>"

definition clear_flag :: "addr \<Rightarrow> watch_state \<Rightarrow> watch_state" where
  "clear_flag obj w = w\<lparr>flagged := flagged w - {obj}\<rparr>"

definition watch_insert :: "(nat \<Rightarrow> bool) \<Rightarrow> watch_state \<Rightarrow> addr \<Rightarrow> nat \<Rightarrow> (watch_state \<times> bool) option" where
  "watch_insert alloc w target fn =
     (case watch_ensure_slot alloc w target of
        None \<Rightarrow> None
      | Some None \<Rightarrow> Some (w, False)
      | Some (Some (w1, i)) \<Rightarrow>
          Some (set_slot (w1\<lparr>next_cell := next_cell w1 + 1\<rparr>) i
                  ((slot_at w1 i)\<lparr>fns := (next_cell w1, fn) # fns (slot_at w1 i)\<rparr>), True))"

definition watch_on_target_free :: "watch_state \<Rightarrow> addr \<Rightarrow> watch_state option" where
  "watch_on_target_free w target =
     (case tab_find (watch_tab w) target of
        None \<Rightarrow> None
      | Some None \<Rightarrow> Some w
      | Some (Some i) \<Rightarrow> Some (drop_watch w i))"

section \<open>The commands\<close>

text \<open>
  \<open>container\<close> says that a value is a pointer to a hash-map, deque, vector or set,
  \<open>is_fn\<close> that it is a function.
\<close>

definition watchcmd :: "(nat \<Rightarrow> bool) \<Rightarrow> (addr \<Rightarrow> bool) \<Rightarrow> (nat \<Rightarrow> bool) \<Rightarrow> watch_state \<Rightarrow> addr \<Rightarrow> nat
    \<Rightarrow> (watch_state \<times> (alc_error + addr)) option" where
  "watchcmd alloc container is_fn w obj fn =
     (if \<not> container obj then Some (w, Inl ERROR_ILLEGAL_VALUE)
      else if \<not> is_fn fn then Some (w, Inl ERROR_ILLEGAL_VALUE)
      else (case watch_insert alloc w obj fn of
              None \<Rightarrow> None
            | Some (w', False) \<Rightarrow> Some (w', Inl ERROR_ILLEGAL_VALUE)
            | Some (w', True) \<Rightarrow> Some (set_flag obj w', Inr obj)))"

definition unwatchcmd :: "watch_state \<Rightarrow> addr \<Rightarrow> watch_state option" where
  "unwatchcmd w obj =
     (case tab_find (watch_tab w) obj of
        None \<Rightarrow> None
      | Some None \<Rightarrow> Some w
      | Some (Some i) \<Rightarrow>
          Some (if validator (slot_at w i) = None then clear_flag obj (drop_watch w i)
                else set_slot w i ((slot_at w i)\<lparr>fns := []\<rparr>)))"

definition watchedpcmd :: "watch_state \<Rightarrow> addr \<Rightarrow> bool option" where
  "watchedpcmd w obj =
     (case tab_find (watch_tab w) obj of
        None \<Rightarrow> None
      | Some None \<Rightarrow> Some False
      | Some (Some i) \<Rightarrow> Some (fns (slot_at w i) \<noteq> []))"

text \<open>The second argument of \<open>set-validator!\<close>: \<open>None\<close> for nil.\<close>

definition setvalidatorcmd :: "(nat \<Rightarrow> bool) \<Rightarrow> (addr \<Rightarrow> bool) \<Rightarrow> (nat \<Rightarrow> bool) \<Rightarrow> watch_state \<Rightarrow> addr \<Rightarrow> nat option
    \<Rightarrow> (watch_state \<times> (alc_error + addr)) option" where
  "setvalidatorcmd alloc container is_fn w obj fn =
     (if \<not> container obj then Some (w, Inl ERROR_ILLEGAL_VALUE)
      else if (case fn of None \<Rightarrow> False | Some f \<Rightarrow> \<not> is_fn f) then Some (w, Inl ERROR_ILLEGAL_VALUE)
      else (case tab_find (watch_tab w) obj of
          None \<Rightarrow> None
        | Some found \<Rightarrow>
            (case fn of
               None \<Rightarrow>
                 Some ((case found of
                          None \<Rightarrow> w
                        | Some i \<Rightarrow>
                            if validator (slot_at w i) = None then w
                            else if fns (slot_at w i) = [] then clear_flag obj (drop_watch w i)
                            else set_slot w i ((slot_at w i)\<lparr>validator := None\<rparr>)), Inr obj)
             | Some f \<Rightarrow>
                 (case (case found of
                          Some i \<Rightarrow> Some (Some (w, i))
                        | None \<Rightarrow> watch_ensure_slot alloc w obj) of
                    None \<Rightarrow> None
                  | Some None \<Rightarrow> Some (w, Inl ERROR_ILLEGAL_VALUE)
                  | Some (Some (w1, i)) \<Rightarrow>
                      Some (set_flag obj (set_slot w1 i ((slot_at w1 i)\<lparr>validator := Some f\<rparr>)), Inr obj)))))"

text \<open>
  An object is freed: the hook, called when the object is flagged, and the end of its flags.
\<close>

definition free_watched :: "watch_state \<Rightarrow> addr \<Rightarrow> watch_state option" where
  "free_watched w obj =
     (if obj \<in> flagged w then map_option (clear_flag obj) (watch_on_target_free w obj) else Some w)"

section \<open>Dispatch\<close>

text \<open>
  The flag of an object is cleared while its own watchers or its validator run, and set again at the
  end if the object still has a slot (\<open>dispatch_end\<close>).  \<open>watch_notify\<close> keeps the slot's address and the next cell across each evaluation.
  Reading through them afterwards is reading freed memory when the table was grown, or when
  the saved cell is no longer in the slot's list.
\<close>

definition dispatch_end :: "watch_state \<Rightarrow> addr \<Rightarrow> watch_state option" where
  "dispatch_end w obj =
     (case tab_find (watch_tab w) obj of
        None \<Rightarrow> None
      | Some found \<Rightarrow> Some (if found = None then w else set_flag obj w))"

fun notify_loop :: "(nat \<Rightarrow> watch_state \<Rightarrow> watch_state \<times> alc_error option) \<Rightarrow> nat \<Rightarrow> nat \<Rightarrow> (nat \<times> nat) list
    \<Rightarrow> watch_state \<Rightarrow> (watch_state \<times> alc_error option) option" where
  "notify_loop eval i cap [] w = Some (w, None)"
| "notify_loop eval i cap (c # cs) w =
     (let (w', r) = eval (snd c) w in
      if r \<noteq> None then Some (w', r)
      else if length (tab (watch_tab w')) \<noteq> cap then None
      else if fns (slot_at w' i) = [] then Some (w', None)
      else (case cs of
              [] \<Rightarrow> Some (w', None)
            | d # _ \<Rightarrow> if d \<in> set (fns (slot_at w' i)) then notify_loop eval i cap cs w' else None))"

definition watch_notify :: "(nat \<Rightarrow> watch_state \<Rightarrow> watch_state \<times> alc_error option) \<Rightarrow> watch_state \<Rightarrow> addr
    \<Rightarrow> (watch_state \<times> alc_error option) option" where
  "watch_notify eval w obj =
     (case tab_find (watch_tab w) obj of
        None \<Rightarrow> None
      | Some None \<Rightarrow> Some (w, None)
      | Some (Some i) \<Rightarrow>
          if fns (slot_at w i) = [] then Some (w, None)
          else (case notify_loop eval i (length (tab (watch_tab w))) (fns (slot_at w i)) (clear_flag obj w) of
                  None \<Rightarrow> None
                | Some (w', err) \<Rightarrow>
                    map_option (\<lambda>w''. (w'', err)) (dispatch_end w' obj)))"

section \<open>Validation\<close>

text \<open>
  What evaluating a validator gives: an error, nil (or no value), or any other value.
\<close>

datatype verdict = Raised alc_error | Nil_or_null | Other_value

definition watch_validate :: "(nat \<Rightarrow> watch_state \<Rightarrow> watch_state \<times> verdict) \<Rightarrow> watch_state \<Rightarrow> addr
    \<Rightarrow> (watch_state \<times> alc_error option) option" where
  "watch_validate eval w obj =
     (case tab_find (watch_tab w) obj of
        None \<Rightarrow> None
      | Some None \<Rightarrow> Some (w, None)
      | Some (Some i) \<Rightarrow>
          (case validator (slot_at w i) of
             None \<Rightarrow> Some (w, None)
           | Some v \<Rightarrow>
               (let (w1, r) = eval v (clear_flag obj w) in
                map_option (\<lambda>w2. (w2, case r of Raised er \<Rightarrow> Some er
                                          | Nil_or_null \<Rightarrow> Some ERROR_ILLEGAL_VALUE
                                          | Other_value \<Rightarrow> None)) (dispatch_end w1 obj))))"

section \<open>The registry as a map\<close>

definition hooks :: "watch_state \<Rightarrow> addr \<Rightarrow> nat list \<times> nat option" where
  "hooks w t = (case tab_map (watch_tab w) t of None \<Rightarrow> ([], None) | Some s \<Rightarrow> (map snd (fns s), validator s))"

text \<open>
  The invariant, while the watchers or the validators of the objects in \<open>B\<close> run: the table is in
  order, a flagged object has a slot, an object with a slot is flagged unless it is one of \<open>B\<close>,
  and a slot has a watcher or a validator.
\<close>

definition watch_inv :: "addr set \<Rightarrow> watch_state \<Rightarrow> bool" where
  "watch_inv B w =
     (tab_ok (watch_tab w)
      \<and> (\<forall>t. legal_ptr t \<longrightarrow> (t \<in> flagged w \<longrightarrow> tab_map (watch_tab w) t \<noteq> None)
            \<and> (tab_map (watch_tab w) t \<noteq> None \<longrightarrow> t \<notin> B \<longrightarrow> t \<in> flagged w))
      \<and> (\<forall>t s. legal_ptr t \<longrightarrow> tab_map (watch_tab w) t = Some s \<longrightarrow> fns s \<noteq> [] \<or> validator s \<noteq> None))"

lemma watch_init_ok: "watch_inv B watch_init"
  by (simp add: watch_inv_def watch_init_def empty_tab_def tab_ok_def tab_map_def)

lemma find_cases:
  assumes "watch_inv B w" "legal_ptr t"
  obtains (absent) "tab_find (watch_tab w) t = Some None" "tab_map (watch_tab w) t = None"
  | (found) i where "tab_find (watch_tab w) t = Some (Some i)" "i < length (tab (watch_tab w))"
      "s_target (tab (watch_tab w) ! i) = t" "tab_map (watch_tab w) t = Some (slot_at w i)"
proof -
  have "tab_ok (watch_tab w)" using assms(1) by (simp add: watch_inv_def)
  from tab_find_spec [OF this assms(2)] obtain res where "tab_find (watch_tab w) t = Some res"
    "case res of None \<Rightarrow> tab_map (watch_tab w) t = None
     | Some i \<Rightarrow> i < length (tab (watch_tab w)) \<and> s_target (tab (watch_tab w) ! i) = t
         \<and> tab_map (watch_tab w) t = Some (s_val (tab (watch_tab w) ! i))" by blast
  then show ?thesis using absent found by (cases res) (auto simp: slot_at_def)
qed

text \<open>What the invariant says of the other objects while one object's slot changes.\<close>

definition others_ok :: "addr set \<Rightarrow> watch_state \<Rightarrow> addr \<Rightarrow> bool" where
  "others_ok B w t = (\<forall>u. legal_ptr u \<longrightarrow> u \<noteq> t \<longrightarrow>
     (u \<in> flagged w \<longrightarrow> tab_map (watch_tab w) u \<noteq> None) \<and> (tab_map (watch_tab w) u \<noteq> None \<longrightarrow> u \<notin> B \<longrightarrow> u \<in> flagged w)
     \<and> (\<forall>s. tab_map (watch_tab w) u = Some s \<longrightarrow> fns s \<noteq> [] \<or> validator s \<noteq> None))"

lemma inv_others: "watch_inv B w \<Longrightarrow> others_ok B w t"
  by (simp add: watch_inv_def others_ok_def)

lemma set_flag_slot: "set_flag t (set_slot w i s) = set_slot (set_flag t w) i s"
  by (simp add: set_flag_def set_slot_def)

text \<open>Writing a slot that keeps a hook, of an object that is flagged or whose hooks run.\<close>

lemma write_ok:
  assumes "tab_ok (watch_tab w)" "i < length (tab (watch_tab w))" "s_target (tab (watch_tab w) ! i) = t" "legal_ptr t"
    and "fns s \<noteq> [] \<or> validator s \<noteq> None" "others_ok B w t" "t \<in> flagged w \<or> t \<in> B"
  shows "watch_inv B (set_slot w i s)
    \<and> (\<forall>t'. legal_ptr t' \<longrightarrow> hooks (set_slot w i s) t' = (if t' = t then (map snd (fns s), validator s) else hooks w t'))"
proof -
  note p = put_slot_ok [OF assms(1,2) assms(4) [folded assms(3)]]
  have m: "tab_map (put_slot (watch_tab w) i s) t' = (if t' = t then Some s else tab_map (watch_tab w) t')"
    if "legal_ptr t'" for t' using p(2) [OF that] assms(3) by simp
  have ok: "tab_ok (put_slot (watch_tab w) i s)" using p(1) assms(4) by blast
  have "watch_inv B (set_slot w i s)"
    unfolding watch_inv_def using ok m assms(4-7) by (auto simp: others_ok_def set_slot_def)
  moreover have "hooks (set_slot w i s) t' = (if t' = t then (map snd (fns s), validator s) else hooks w t')"
    if "legal_ptr t'" for t' using m [OF that] by (simp add: hooks_def set_slot_def)
  ultimately show ?thesis by blast
qed

lemma write_flagged:
  assumes "tab_ok (watch_tab w)" "i < length (tab (watch_tab w))" "s_target (tab (watch_tab w) ! i) = t" "legal_ptr t"
    and "fns s \<noteq> [] \<or> validator s \<noteq> None" "others_ok B w t"
  shows "watch_inv B (set_flag t (set_slot w i s))
    \<and> (\<forall>t'. legal_ptr t' \<longrightarrow> hooks (set_flag t (set_slot w i s)) t' = (if t' = t then (map snd (fns s), validator s) else hooks w t'))"
proof -
  have w: "watch_tab (set_flag t w) = watch_tab w" "others_ok B (set_flag t w) t" "t \<in> flagged (set_flag t w)"
    using assms(6) by (simp_all add: others_ok_def set_flag_def)
  have h: "hooks (set_flag t w) u = hooks w u" for u by (simp add: hooks_def w(1))
  show ?thesis unfolding set_flag_slot using write_ok [of "set_flag t w" i t s B] assms(1-5) w h by simp
qed

lemma remove_ok:
  assumes "watch_inv B w" "i < length (tab (watch_tab w))" "s_target (tab (watch_tab w) ! i) = t" "legal_ptr t"
  shows "watch_inv B (clear_flag t (drop_watch w i))"
    and "legal_ptr t' \<Longrightarrow> hooks (clear_flag t (drop_watch w i)) t' = (if t' = t then ([], None) else hooks w t')"
proof -
  have ok: "tab_ok (watch_tab w)" using assms(1) by (simp add: watch_inv_def)
  note p = drop_slot_ok [OF ok assms(2) assms(4) [folded assms(3)], where b = blank_slot]
  have m: "tab_map (drop_slot_at (watch_tab w) i blank_slot) t' = (if t' = t then None else tab_map (watch_tab w) t')"
    if "legal_ptr t'" for t' using p(2) [OF that] assms(3) by simp
  have "tab_ok (drop_slot_at (watch_tab w) i blank_slot)" using p(1) assms(4) by blast
  then show "watch_inv B (clear_flag t (drop_watch w i))"
    using assms(1) m unfolding watch_inv_def by (auto simp: clear_flag_def drop_watch_def)
  show "hooks (clear_flag t (drop_watch w i)) t' = (if t' = t then ([], None) else hooks w t')"
    if "legal_ptr t'" using m [OF that] by (simp add: hooks_def clear_flag_def drop_watch_def)
qed

lemma ensure_cases:
  assumes "watch_inv B w" "legal_ptr t"
  obtains (oom) "watch_ensure_slot alloc w t = Some None"
  | (slot) w' i where "watch_ensure_slot alloc w t = Some (Some (w', i))"
      "tab_ok (watch_tab w')" "i < length (tab (watch_tab w'))" "s_target (tab (watch_tab w') ! i) = t"
      "slot_at w' i = (case tab_map (watch_tab w) t of None \<Rightarrow> blank_slot | Some s \<Rightarrow> s)"
      "flagged w' = flagged w" "\<And>t'. legal_ptr t' \<Longrightarrow> t' \<noteq> t \<Longrightarrow> tab_map (watch_tab w') t' = tab_map (watch_tab w) t'"
proof -
  have ok: "tab_ok (watch_tab w)" using assms(1) by (simp add: watch_inv_def)
  have c: "cap_ok WATCH_CAP0" "2 \<le> WATCH_SLOT_SIZE"
    by (auto simp: cap_ok_def WATCH_CAP0_def WATCH_SLOT_SIZE_def intro: exI [of _ 5])
  from ensure_slot_spec [OF ok assms(2) c, of alloc blank_slot] show ?thesis
    using oom slot unfolding watch_ensure_slot_def by (auto simp: slot_at_def)
qed


lemma flag_others:
  assumes "watch_inv B w" "legal_ptr t'"
  shows "t' \<in> flagged w \<Longrightarrow> tab_map (watch_tab w) t' \<noteq> None"
    and "tab_map (watch_tab w) t' \<noteq> None \<Longrightarrow> t' \<notin> B \<Longrightarrow> t' \<in> flagged w"
    and "tab_map (watch_tab w) t' = Some s \<Longrightarrow> fns s \<noteq> [] \<or> validator s \<noteq> None"
  using assms by (simp_all add: watch_inv_def)

text \<open>Giving an object's slot new hooks, found or created.\<close>

lemma ensure_write:
  assumes "watch_inv B w" "legal_ptr t" "watch_ensure_slot alloc w t = Some (Some (w', i))"
    and "\<And>s. slot_at w' i = s \<Longrightarrow> fns (f s) \<noteq> [] \<or> validator (f s) \<noteq> None"
  shows "watch_inv B (set_flag t (set_slot (w'\<lparr>next_cell := k\<rparr>) i (f (slot_at w' i))))
    \<and> (\<forall>t'. legal_ptr t' \<longrightarrow> hooks (set_flag t (set_slot (w'\<lparr>next_cell := k\<rparr>) i (f (slot_at w' i)))) t'
      = (if t' = t then (map snd (fns (f (slot_at w' i))), validator (f (slot_at w' i))) else hooks w t'))
    \<and> hooks w t = (map snd (fns (slot_at w' i)), validator (slot_at w' i))"
proof -
  from ensure_cases [OF assms(1,2), of alloc] assms(3) have
    e: "tab_ok (watch_tab w')" "i < length (tab (watch_tab w'))" "s_target (tab (watch_tab w') ! i) = t"
      "slot_at w' i = (case tab_map (watch_tab w) t of None \<Rightarrow> blank_slot | Some s \<Rightarrow> s)"
      "flagged w' = flagged w" and
    o: "\<And>t'. legal_ptr t' \<Longrightarrow> t' \<noteq> t \<Longrightarrow> tab_map (watch_tab w') t' = tab_map (watch_tab w) t'"
    by auto
  let ?w = "w'\<lparr>next_cell := k\<rparr>"
  have fl: "others_ok B ?w t" using inv_others [OF assms(1), of t] o e(5) by (simp add: others_ok_def)
  have e': "tab_ok (watch_tab ?w)" "i < length (tab (watch_tab ?w))" "s_target (tab (watch_tab ?w) ! i) = t"
    using e by simp_all
  note w = write_flagged [OF e' assms(2) assms(4) [OF refl] fl]
  have h: "hooks ?w t' = hooks w t'" if "legal_ptr t'" "t' \<noteq> t" for t' using o [OF that] by (simp add: hooks_def)
  have "hooks (set_flag t (set_slot ?w i (f (slot_at w' i)))) t'
      = (if t' = t then (map snd (fns (f (slot_at w' i))), validator (f (slot_at w' i))) else hooks w t')"
    if "legal_ptr t'" for t' using w that h [OF that] by simp
  moreover have "hooks w t = (map snd (fns (slot_at w' i)), validator (slot_at w' i))"
    using e(4) by (simp add: hooks_def blank_slot_def split: option.splits)
  ultimately show ?thesis using w by blast
qed

text \<open>What each command does to the hooks of every object; an error changes none.\<close>

lemma watchcmd_ok:
  assumes "watch_inv B w" "container obj \<Longrightarrow> legal_ptr obj"
  shows "\<exists>w' r. watchcmd alloc container is_fn w obj fn = Some (w', r) \<and> watch_inv B w'
    \<and> (\<forall>t. legal_ptr t \<longrightarrow> hooks w' t = (if t = obj \<and> r = Inr obj then (fn # fst (hooks w obj), snd (hooks w obj))
                                    else hooks w t))"
proof (cases "container obj \<and> is_fn fn")
  case True
  then have l: "legal_ptr obj" using assms(2) by simp
  show ?thesis
  proof (rule ensure_cases [OF assms(1) l, of alloc])
    assume "watch_ensure_slot alloc w obj = Some None"
    then show ?thesis using True assms(1) by (simp add: watchcmd_def watch_insert_def)
  next
    fix w' i
    assume e: "watch_ensure_slot alloc w obj = Some (Some (w', i))"
    let ?f = "\<lambda>s. s\<lparr>fns := (next_cell w', fn) # fns s\<rparr>"
    let ?w = "set_flag obj (set_slot (w'\<lparr>next_cell := next_cell w' + 1\<rparr>) i (?f (slot_at w' i)))"
    have w: "watch_inv B ?w \<and> (\<forall>t. legal_ptr t \<longrightarrow> hooks ?w t
        = (if t = obj then (map snd (fns (?f (slot_at w' i))), validator (?f (slot_at w' i))) else hooks w t))
      \<and> hooks w obj = (map snd (fns (slot_at w' i)), validator (slot_at w' i))"
      by (rule ensure_write [OF assms(1) l e, where f = ?f]) simp
    have "watchcmd alloc container is_fn w obj fn = Some (?w, Inr obj)"
      using True e by (simp add: watchcmd_def watch_insert_def)
    then show ?thesis using w by auto
  qed
next
  case False
  then show ?thesis using assms(1) by (auto simp: watchcmd_def)
qed

lemma unwatchcmd_ok:
  assumes "watch_inv B w" "legal_ptr obj"
  shows "\<exists>w'. unwatchcmd w obj = Some w' \<and> watch_inv B w'
    \<and> (\<forall>t. legal_ptr t \<longrightarrow> hooks w' t = (if t = obj then ([], snd (hooks w obj)) else hooks w t))"
proof (rule find_cases [OF assms])
  assume "tab_find (watch_tab w) obj = Some None" "tab_map (watch_tab w) obj = None"
  then show ?thesis using assms by (simp add: unwatchcmd_def hooks_def)
next
  fix i
  assume f: "tab_find (watch_tab w) obj = Some (Some i)" "i < length (tab (watch_tab w))"
    "s_target (tab (watch_tab w) ! i) = obj" "tab_map (watch_tab w) obj = Some (slot_at w i)"
  show ?thesis
  proof (cases "validator (slot_at w i)")
    case None
    have "snd (hooks w obj) = None" using f(4) None by (simp add: hooks_def)
    then show ?thesis using remove_ok [OF assms(1) f(2,3) assms(2)] f(1) None by (simp add: unwatchcmd_def)
  next
    case (Some v)
    let ?s = "(slot_at w i)\<lparr>fns := []\<rparr>"
    have ok: "tab_ok (watch_tab w)" using assms(1) by (simp add: watch_inv_def)
    have fl: "obj \<in> flagged w \<or> obj \<in> B" using flag_others(2) [OF assms] f(4) by auto
    have "fns ?s \<noteq> [] \<or> validator ?s \<noteq> None" using Some by simp
    note w = write_ok [OF ok f(2,3) assms(2) this inv_others [OF assms(1)] fl]
    have "snd (hooks w obj) = Some v" using f(4) Some by (simp add: hooks_def)
    then show ?thesis using w f(1) Some by (simp add: unwatchcmd_def)
  qed
qed

lemma free_watched_ok:
  assumes "watch_inv B w" "legal_ptr obj" "obj \<notin> B"
  shows "\<exists>w'. free_watched w obj = Some w' \<and> watch_inv B w'
    \<and> (\<forall>t. legal_ptr t \<longrightarrow> hooks w' t = (if t = obj then ([], None) else hooks w t))"
proof (rule find_cases [OF assms(1,2)])
  assume "tab_find (watch_tab w) obj = Some None" "tab_map (watch_tab w) obj = None"
  moreover then have "obj \<notin> flagged w" using flag_others(1) [OF assms(1,2)] by blast
  ultimately show ?thesis using assms by (simp add: free_watched_def hooks_def)
next
  fix i
  assume f: "tab_find (watch_tab w) obj = Some (Some i)" "i < length (tab (watch_tab w))"
    "s_target (tab (watch_tab w) ! i) = obj" "tab_map (watch_tab w) obj = Some (slot_at w i)"
  then have "obj \<in> flagged w" using flag_others(2) [OF assms(1,2) _ assms(3)] by simp
  then show ?thesis using remove_ok [OF assms(1) f(2,3) assms(2)] f(1)
    by (simp add: free_watched_def watch_on_target_free_def)
qed

lemma setvalidatorcmd_ok:
  assumes "watch_inv B w" "container obj \<Longrightarrow> legal_ptr obj"
  shows "\<exists>w' r. setvalidatorcmd alloc container is_fn w obj fn = Some (w', r) \<and> watch_inv B w'
    \<and> (\<forall>t. legal_ptr t \<longrightarrow> hooks w' t = (if t = obj \<and> r = Inr obj then (fst (hooks w obj), fn) else hooks w t))"
proof (cases "container obj \<and> (case fn of None \<Rightarrow> True | Some f \<Rightarrow> is_fn f)")
  case False
  then show ?thesis using assms(1) by (cases fn) (auto simp: setvalidatorcmd_def)
next
  case True
  then have l: "legal_ptr obj" using assms(2) by simp
  have g: "container obj" "\<And>f. fn = Some f \<Longrightarrow> is_fn f" using True by (auto split: option.splits)
  have ok: "tab_ok (watch_tab w)" using assms(1) by (simp add: watch_inv_def)
  show ?thesis
  proof (rule find_cases [OF assms(1) l])
    assume f: "tab_find (watch_tab w) obj = Some None" "tab_map (watch_tab w) obj = None"
    show ?thesis
    proof (cases fn)
      case None
      then show ?thesis using f g assms(1) by (auto simp: setvalidatorcmd_def hooks_def)
    next
      case (Some v)
      show ?thesis
      proof (rule ensure_cases [OF assms(1) l, of alloc])
        assume "watch_ensure_slot alloc w obj = Some None"
        then show ?thesis using Some f g assms(1) by (simp add: setvalidatorcmd_def)
      next
        fix w' i
        assume e: "watch_ensure_slot alloc w obj = Some (Some (w', i))"
        let ?f = "\<lambda>s. s\<lparr>validator := Some v\<rparr>"
        have "watch_inv B (set_flag obj (set_slot (w'\<lparr>next_cell := next_cell w'\<rparr>) i (?f (slot_at w' i))))
          \<and> (\<forall>t. legal_ptr t \<longrightarrow> hooks (set_flag obj (set_slot (w'\<lparr>next_cell := next_cell w'\<rparr>) i (?f (slot_at w' i)))) t
            = (if t = obj then (map snd (fns (?f (slot_at w' i))), validator (?f (slot_at w' i))) else hooks w t))
          \<and> hooks w obj = (map snd (fns (slot_at w' i)), validator (slot_at w' i))"
          by (rule ensure_write [OF assms(1) l e, where f = ?f]) simp
        note w = this [simplified]
        have "setvalidatorcmd alloc container is_fn w obj fn
            = Some (set_flag obj (set_slot w' i (?f (slot_at w' i))), Inr obj)"
          using Some f g e by (simp add: setvalidatorcmd_def)
        then show ?thesis using w Some by auto
      qed
    qed
  next
    fix i
    assume f: "tab_find (watch_tab w) obj = Some (Some i)" "i < length (tab (watch_tab w))"
      "s_target (tab (watch_tab w) ! i) = obj" "tab_map (watch_tab w) obj = Some (slot_at w i)"
    have fl: "obj \<in> flagged w \<or> obj \<in> B" using flag_others(2) [OF assms(1) l] f(4) by auto
    have h: "hooks w obj = (map snd (fns (slot_at w i)), validator (slot_at w i))" using f(4) by (simp add: hooks_def)
    let ?s = "(slot_at w i)\<lparr>validator := fn\<rparr>"
    show ?thesis
    proof (cases "fns ?s \<noteq> [] \<or> validator ?s \<noteq> None")
      case True
      note w = write_ok [OF ok f(2,3) l True inv_others [OF assms(1)] fl]
      note wf = write_flagged [OF ok f(2,3) l True inv_others [OF assms(1)]]
      consider "fn = None" "validator (slot_at w i) = None" | "fn = None" "validator (slot_at w i) \<noteq> None" | v where "fn = Some v"
        by (cases fn) auto
      then show ?thesis
      proof cases
        case 1
        then show ?thesis using f g assms(1) h by (auto simp: setvalidatorcmd_def)
      next
        case 2
        then show ?thesis using f(1) g True w h by (auto simp: setvalidatorcmd_def)
      next
        case 3
        then show ?thesis using f(1) g wf h by (auto simp: setvalidatorcmd_def)
      qed
    next
      case False
      then have n: "fn = None" "fns (slot_at w i) = []" by simp_all
      then have "validator (slot_at w i) \<noteq> None" using flag_others(3) [OF assms(1) l f(4)] by simp
      then show ?thesis using n f(1) g h remove_ok [OF assms(1) f(2,3) l] by (auto simp: setvalidatorcmd_def)
    qed
  qed
qed


text \<open>The two ends of a dispatch.\<close>

lemma begin_ok:
  assumes "watch_inv B w"
  shows "watch_inv (insert obj B) (clear_flag obj w)"
  using assms by (auto simp: watch_inv_def clear_flag_def)

lemma end_ok:
  assumes "watch_inv (insert obj B) w" "legal_ptr obj"
  shows "\<exists>w'. dispatch_end w obj = Some w' \<and> watch_inv B w' \<and> hooks w' = hooks w"
proof (rule find_cases [OF assms])
  assume f: "tab_find (watch_tab w) obj = Some None" "tab_map (watch_tab w) obj = None"
  have "watch_inv B w" using assms(1) f(2) by (auto simp: watch_inv_def)
  then show ?thesis using f by (simp add: dispatch_end_def)
next
  fix i
  assume f: "tab_find (watch_tab w) obj = Some (Some i)" "tab_map (watch_tab w) obj = Some (slot_at w i)"
  then have "watch_inv B (set_flag obj w)" using assms(1) unfolding watch_inv_def by (auto simp: set_flag_def)
  then show ?thesis using f by (simp add: dispatch_end_def hooks_def set_flag_def fun_eq_iff)
qed

section \<open>Reachable registries\<close>

text \<open>
  The registries a program can reach, with the stack of the objects whose watchers or validator run:
  a command, the release of an object, the start of the dispatch of a flagged object with hooks, and
  its end.  Between the two ends anything else may happen, dispatches of other objects or of the same
  one included.  The mutator that dispatches holds a reference to its object, so the objects of the
  stack are not released.
\<close>

inductive watch_reach :: "(addr \<Rightarrow> bool) \<Rightarrow> (nat \<Rightarrow> bool) \<Rightarrow> addr list \<Rightarrow> watch_state \<Rightarrow> bool"
  for container :: "addr \<Rightarrow> bool" and is_fn :: "nat \<Rightarrow> bool" where
  reach_init: "watch_reach container is_fn [] watch_init"
| reach_watch: "watch_reach container is_fn D w \<Longrightarrow> watchcmd alloc container is_fn w obj fn = Some (w', r)
    \<Longrightarrow> watch_reach container is_fn D w'"
| reach_unwatch: "watch_reach container is_fn D w \<Longrightarrow> container obj \<Longrightarrow> unwatchcmd w obj = Some w'
    \<Longrightarrow> watch_reach container is_fn D w'"
| reach_validator: "watch_reach container is_fn D w \<Longrightarrow> setvalidatorcmd alloc container is_fn w obj fv = Some (w', r)
    \<Longrightarrow> watch_reach container is_fn D w'"
| reach_free: "watch_reach container is_fn D w \<Longrightarrow> container obj \<Longrightarrow> obj \<notin> set D \<Longrightarrow> free_watched w obj = Some w'
    \<Longrightarrow> watch_reach container is_fn D w'"
| reach_begin: "watch_reach container is_fn D w \<Longrightarrow> container obj \<Longrightarrow> obj \<in> flagged w
    \<Longrightarrow> watch_reach container is_fn (obj # D) (clear_flag obj w)"
| reach_end: "watch_reach container is_fn (obj # D) w \<Longrightarrow> dispatch_end w obj = Some w'
    \<Longrightarrow> watch_reach container is_fn D w'"

lemma reach_ok:
  assumes "watch_reach container is_fn D w" "\<And>t. container t \<Longrightarrow> legal_ptr t"
  shows "watch_inv (set D) w \<and> (\<forall>t \<in> set D. legal_ptr t)"
  using assms(1)
proof (induction rule: watch_reach.induct)
  case reach_init
  show ?case using watch_init_ok by simp
next
  case (reach_watch D w alloc obj fn w' r)
  then show ?case using watchcmd_ok [of "set D" w container obj alloc is_fn fn] assms(2) [of obj] by auto
next
  case (reach_unwatch D w obj w')
  then show ?case using unwatchcmd_ok [of "set D" w obj] assms(2) [of obj] by auto
next
  case (reach_validator D w alloc obj fv w' r)
  then show ?case using setvalidatorcmd_ok [of "set D" w container obj alloc is_fn fv] assms(2) [of obj] by auto
next
  case (reach_free D w obj w')
  then show ?case using free_watched_ok [of "set D" w obj] assms(2) [of obj] by auto
next
  case (reach_begin D w obj)
  then show ?case using begin_ok [of "set D" w obj] assms(2) [of obj] by auto
next
  case (reach_end obj D w w')
  then show ?case using end_ok [of obj "set D" w] by auto
qed

text \<open>
  A whole dispatch is a run of such steps, whatever its evaluations do, as long as what they do is.
\<close>

definition keeps_reach :: "(addr \<Rightarrow> bool) \<Rightarrow> (nat \<Rightarrow> bool) \<Rightarrow> addr list \<Rightarrow> (nat \<Rightarrow> watch_state \<Rightarrow> watch_state \<times> 'r) \<Rightarrow> bool" where
  "keeps_reach container is_fn D eval =
     (\<forall>f w. watch_reach container is_fn D w \<longrightarrow> watch_reach container is_fn D (fst (eval f w)))"

lemma loop_reach:
  assumes "keeps_reach container is_fn D eval"
  shows "notify_loop eval i cap cs w = Some (w', err) \<Longrightarrow> watch_reach container is_fn D w \<Longrightarrow> watch_reach container is_fn D w'"
proof (induction cs arbitrary: w)
  case (Cons c cs)
  obtain w1 r where e: "eval (snd c) w = (w1, r)" by (metis surj_pair)
  have "watch_reach container is_fn D (fst (eval (snd c) w))" using assms Cons.prems(2) unfolding keeps_reach_def by blast
  then have k: "watch_reach container is_fn D w1" using e by simp
  show ?case
  proof (cases "r \<noteq> None \<or> w1 = w'")
    case True
    then show ?thesis using Cons.prems(1) e k by (auto simp: Let_def)
  next
    case False
    then have "notify_loop eval i cap cs w1 = Some (w', err)"
      using Cons.prems(1) e by (auto simp: Let_def split: if_splits list.splits)
    then show ?thesis using Cons.IH k by blast
  qed
qed simp

lemma notify_reach:
  assumes "watch_reach container is_fn D w" "container obj" "obj \<in> flagged w" "keeps_reach container is_fn (obj # D) eval"
    and "watch_notify eval w obj = Some (w', err)"
  shows "watch_reach container is_fn D w'"
proof -
  have b: "watch_reach container is_fn (obj # D) (clear_flag obj w)" by (rule reach_begin [OF assms(1-3)])
  consider "w' = w"
    | i w1 where "notify_loop eval i (length (tab (watch_tab w))) (fns (slot_at w i)) (clear_flag obj w) = Some (w1, err)"
        "dispatch_end w1 obj = Some w'"
    using assms(5) by (auto simp: watch_notify_def split: option.splits if_splits)
  then show ?thesis
  proof cases
    case 2
    show ?thesis by (rule reach_end [OF loop_reach [OF assms(4) 2(1) b] 2(2)])
  qed (use assms(1) in simp)
qed

lemma validate_reach:
  assumes "watch_reach container is_fn D w" "container obj" "obj \<in> flagged w" "keeps_reach container is_fn (obj # D) eval"
    and "watch_validate eval w obj = Some (w', err)"
  shows "watch_reach container is_fn D w'"
proof -
  have b: "watch_reach container is_fn (obj # D) (clear_flag obj w)" by (rule reach_begin [OF assms(1-3)])
  consider "w' = w" | v where "dispatch_end (fst (eval v (clear_flag obj w))) obj = Some w'"
    using assms(5) by (auto simp: watch_validate_def split_beta Let_def split: option.splits)
  then show ?thesis
  proof cases
    case 2
    have "watch_reach container is_fn (obj # D) (fst (eval v (clear_flag obj w)))"
      using assms(4) b unfolding keeps_reach_def by blast
    then show ?thesis using 2 by (rule reach_end)
  qed (use assms(1) in simp)
qed

lemma validate_ends:
  assumes "watch_inv B w" "legal_ptr obj" "\<And>f u. watch_inv (insert obj B) u \<Longrightarrow> watch_inv (insert obj B) (fst (eval f u))"
  shows "watch_validate eval w obj \<noteq> None"
proof (rule find_cases [OF assms(1,2)])
  fix i
  assume f: "tab_find (watch_tab w) obj = Some (Some i)"
  have e: "dispatch_end (fst (eval v (clear_flag obj w))) obj \<noteq> None" for v
    using end_ok [OF assms(3) [OF begin_ok [OF assms(1)]] assms(2), of v] by auto
  show ?thesis using f e by (auto simp: watch_validate_def split_beta Let_def split: option.splits)
qed (simp add: watch_validate_def)

section \<open>Dispatch in order\<close>

text \<open>Running watchers one after the other until one fails.\<close>

fun run_watchers :: "(nat \<Rightarrow> watch_state \<Rightarrow> watch_state \<times> alc_error option) \<Rightarrow> nat list
    \<Rightarrow> watch_state \<Rightarrow> watch_state \<times> alc_error option" where
  "run_watchers eval [] w = (w, None)"
| "run_watchers eval (f # fs) w =
     (let (w', r) = eval f w in if r \<noteq> None then (w', r) else run_watchers eval fs w')"

text \<open>An evaluation that leaves the registry alone.\<close>

definition calm :: "(nat \<Rightarrow> watch_state \<Rightarrow> watch_state \<times> alc_error option) \<Rightarrow> bool" where
  "calm eval = (\<forall>f w. watch_tab (fst (eval f w)) = watch_tab w)"

lemma run_calm: "calm eval \<Longrightarrow> watch_tab (fst (run_watchers eval fs w)) = watch_tab w"
  by (induction fs arbitrary: w) (auto simp: calm_def split_beta Let_def)

lemma notify_calm:
  assumes "calm eval" "\<exists>u. fns (slot_at w i) = u @ cs"
  shows "notify_loop eval i (length (tab (watch_tab w))) cs w = Some (run_watchers eval (map snd cs) w)"
  using assms(2)
proof (induction cs arbitrary: w)
  case (Cons c cs)
  obtain w' r where e: "eval (snd c) w = (w', r)" by (metis surj_pair)
  then have t: "watch_tab w' = watch_tab w" using assms(1) unfolding calm_def by (metis fst_conv)
  then have sl: "slot_at w' i = slot_at w i" by (simp add: slot_at_def)
  obtain u where u: "fns (slot_at w i) = u @ c # cs" using Cons.prems by blast
  have "\<exists>v. fns (slot_at w' i) = v @ cs" using u sl by (intro exI [of _ "u @ [c]"]) simp
  from Cons.IH [OF this] show ?case
    using e t sl u by (cases cs) (auto simp: Let_def)
qed simp

lemma watch_notify_calm:
  assumes "watch_inv B w" "legal_ptr obj" "calm eval" "fst (hooks w obj) \<noteq> []"
  shows "watch_notify eval w obj
    = (let (w', err) = run_watchers eval (fst (hooks w obj)) (clear_flag obj w) in Some (set_flag obj w', err))"
proof (rule find_cases [OF assms(1,2)])
  assume "tab_find (watch_tab w) obj = Some None" "tab_map (watch_tab w) obj = None"
  then show ?thesis using assms(4) by (simp add: hooks_def)
next
  fix i
  assume f: "tab_find (watch_tab w) obj = Some (Some i)" "tab_map (watch_tab w) obj = Some (slot_at w i)"
  let ?w = "clear_flag obj w"
  have h: "fst (hooks w obj) = map snd (fns (slot_at w i))" using f(2) by (simp add: hooks_def)
  have c: "watch_tab ?w = watch_tab w" "slot_at ?w i = slot_at w i" by (simp_all add: clear_flag_def slot_at_def)
  have l: "notify_loop eval i (length (tab (watch_tab w))) (fns (slot_at w i)) ?w
      = Some (run_watchers eval (fst (hooks w obj)) ?w)"
    using notify_calm [OF assms(3), of ?w i "fns (slot_at w i)"] c by (simp add: h)
  have t: "watch_tab (fst (run_watchers eval (fst (hooks w obj)) ?w)) = watch_tab w"
    using run_calm [OF assms(3), of "fst (hooks w obj)" ?w] c(1) by simp
  have e: "dispatch_end u obj = Some (set_flag obj u)" if "watch_tab u = watch_tab w" for u
    using f(1) that by (simp add: dispatch_end_def)
  show ?thesis using f(1) l e [OF t] h assms(4) by (simp add: watch_notify_def Let_def split_beta)
qed

text \<open>A validator that leaves the registry alone rules alone, and the registry is as before.\<close>

lemma watch_validate_calm:
  assumes "watch_inv B w" "legal_ptr obj" "obj \<in> flagged w" "\<And>v u. fst (eval v u) = u"
  shows "watch_validate eval w obj = Some (w, case snd (hooks w obj) of None \<Rightarrow> None
    | Some v \<Rightarrow> (case snd (eval v (clear_flag obj w)) of Raised er \<Rightarrow> Some er
        | Nil_or_null \<Rightarrow> Some ERROR_ILLEGAL_VALUE | Other_value \<Rightarrow> None))"
proof (rule find_cases [OF assms(1,2)])
  assume "tab_find (watch_tab w) obj = Some None" "tab_map (watch_tab w) obj = None"
  then show ?thesis by (simp add: watch_validate_def hooks_def)
next
  fix i
  assume f: "tab_find (watch_tab w) obj = Some (Some i)" "tab_map (watch_tab w) obj = Some (slot_at w i)"
  have "set_flag obj (clear_flag obj w) = w" by (simp add: set_flag_def clear_flag_def insert_absorb assms(3))
  moreover have "watch_tab (clear_flag obj w) = watch_tab w" by (simp add: clear_flag_def)
  ultimately show ?thesis using f assms(4) by (simp add: watch_validate_def dispatch_end_def hooks_def split_beta split: option.splits)
qed

section \<open>Watchers that change the registry\<close>

text \<open>
  One object at address 8, whose home is slot 21 of the first table, and what the walks
  find in that table.
\<close>

lemma blank_upd: "fns blank_slot = []" "blank_slot\<lparr>fns := f\<rparr> = \<lparr>fns = f, validator = None\<rparr>"
  by (simp_all add: blank_slot_def)

definition one_slot :: "addr \<Rightarrow> watch_slot_t \<Rightarrow> watch_slot_t ptab" where
  "one_slot t s = \<lparr>tab = (replicate 32 (Slot 0 blank_slot))[21 := Slot t s], used = 1\<rparr>"

lemma one_slot_len [simp]: "length (tab (one_slot t s)) = 32" "used (one_slot t s) = 1" "tab (one_slot t s) \<noteq> []"
  by (simp_all add: one_slot_def)

lemma one_slot_at [simp]: "tab (one_slot t s) ! 21 = Slot t s" "tab (one_slot t s) ! 22 = Slot 0 blank_slot"
  by (simp_all add: one_slot_def)

lemma one_slot_update [simp]: "(tab (one_slot t s))[21 := Slot t' s'] = tab (one_slot t' s')"
  by (simp add: one_slot_def)

lemma one_slot_eq [simp]: "\<lparr>tab = tab (one_slot t s), used = Suc 0\<rparr> = one_slot t s"
  "\<lparr>tab = tab (one_slot t s), used = 1\<rparr> = one_slot t s" "one_slot t s\<lparr>tab := tab (one_slot t' s')\<rparr> = one_slot t' s'"
  by (simp_all add: one_slot_def)

lemma home_8: "ptr_index 8 32 = 21" "next_index 21 32 = 22"
  by (simp_all add: ptr_index_def ptr_hash_def next_index_def)

lemma one_slot_find: "tab_find (one_slot 8 s) 8 = Some (Some 21)" "tab_find (one_slot TOMBSTONE s) 8 = Some None"
  by (simp_all add: tab_find_def home_8 find_from.simps TOMBSTONE_def)

lemma one_slot_ensure:
  "ensure_slot alloc WATCH_CAP0 WATCH_SLOT_SIZE blank_slot (one_slot 8 s) 8 = Some (Some (one_slot 8 s, 21))"
  "ensure_slot alloc WATCH_CAP0 WATCH_SLOT_SIZE blank_slot (one_slot TOMBSTONE s) 8 = Some (Some (one_slot 8 blank_slot, 21))"
  by (simp_all add: ensure_slot_def home_8 ensure_from.simps [where i = 21] ensure_from.simps [where i = 22] TOMBSTONE_def)

lemma first_ensure:
  "ensure_slot (\<lambda>_. True) WATCH_CAP0 WATCH_SLOT_SIZE blank_slot empty_tab 8 = Some (Some (one_slot 8 blank_slot, 21))"
  by (simp add: ensure_slot_def empty_tab_def tab_grow_def WATCH_CAP0_def WATCH_SLOT_SIZE_def SIZE_MAX_def home_8
      ensure_from.simps [where i = 21] one_slot_def)

text \<open>
  Two watchers, 1 in front of 2; evaluating 1 removes the object's watchers and adds 3.
\<close>

definition watch_8 :: "nat \<Rightarrow> watch_state \<Rightarrow> watch_state" where
  "watch_8 f w = (case watchcmd (\<lambda>_. True) (\<lambda>t. t = 8) (\<lambda>_. True) w 8 f of None \<Rightarrow> w | Some (w', _) \<Rightarrow> w')"

definition rewatch_8 :: "nat \<Rightarrow> watch_state \<Rightarrow> watch_state \<times> alc_error option" where
  "rewatch_8 f w = ((if f = 1 then watch_8 3 (the (unwatchcmd w 8)) else w), None)"

lemma notify_after_rewatch:
  "watch_notify rewatch_8 (watch_8 1 (watch_8 2 watch_init)) 8 = None"
proof -
  let ?s = "\<lambda>f v. \<lparr>fns = f, validator = v\<rparr> :: watch_slot_t"
  have 1: "watch_8 2 watch_init = \<lparr>watch_tab = one_slot 8 (?s [(0, 2)] None), flagged = {8}, next_cell = 1\<rparr>"
    by (simp add: watch_8_def watchcmd_def watch_insert_def watch_ensure_slot_def watch_init_def first_ensure
        set_slot_def set_flag_def slot_at_def put_slot_def blank_upd)
  have 2: "watch_8 1 (watch_8 2 watch_init)
      = \<lparr>watch_tab = one_slot 8 (?s [(1, 1), (0, 2)] None), flagged = {8}, next_cell = 2\<rparr>"
    unfolding 1 by (simp add: watch_8_def watchcmd_def watch_insert_def watch_ensure_slot_def one_slot_ensure
        set_slot_def set_flag_def slot_at_def put_slot_def)
  have 3: "the (unwatchcmd \<lparr>watch_tab = one_slot 8 (?s [(1, 1), (0, 2)] None), flagged = F, next_cell = 2\<rparr> 8)
      = \<lparr>watch_tab = one_slot TOMBSTONE blank_slot, flagged = F - {8}, next_cell = 2\<rparr>" for F
    by (simp add: unwatchcmd_def one_slot_find slot_at_def drop_watch_def drop_slot_at_def clear_flag_def)
  have 4: "watch_8 3 \<lparr>watch_tab = one_slot TOMBSTONE blank_slot, flagged = F, next_cell = 2\<rparr>
      = \<lparr>watch_tab = one_slot 8 (?s [(2, 3)] None), flagged = insert 8 F, next_cell = 3\<rparr>" for F
    by (simp add: watch_8_def watchcmd_def watch_insert_def watch_ensure_slot_def one_slot_ensure
        set_slot_def set_flag_def slot_at_def put_slot_def blank_upd)
  show ?thesis
    unfolding 2 watch_notify_def by (simp add: one_slot_find slot_at_def clear_flag_def rewatch_8_def 3 4 del: One_nat_def)
qed
section \<open>Properties\<close>

text \<open>
  C15. In every reachable registry, the ones inside the dispatch of watchers and validators included: an
  object that carries FLAG_WATCHED has a watcher or a validator, and one that has either carries the flag
  unless its own hooks are running; watched? answers whether it has a watcher; no command and no end of a
  dispatch can hang, for the tables always keep an empty slot to stop at.  A whole run of watch_notify or
  watch_validate leads to a reachable registry again, whatever commands and dispatches its evaluations run.
\<close>

theorem watch_flag_invariant:
  assumes "watch_reach container is_fn D w" "\<forall>t. container t \<longrightarrow> legal_ptr t" "container obj"
  shows "(obj \<in> flagged w \<longrightarrow> hooks w obj \<noteq> ([], None))
    \<and> (hooks w obj \<noteq> ([], None) \<and> obj \<notin> set D \<longrightarrow> obj \<in> flagged w)
    \<and> watchedpcmd w obj = Some (fst (hooks w obj) \<noteq> [])
    \<and> unwatchcmd w obj \<noteq> None \<and> watchcmd alloc container is_fn w obj fn \<noteq> None
    \<and> setvalidatorcmd alloc container is_fn w obj fv \<noteq> None
    \<and> (obj \<notin> set D \<longrightarrow> free_watched w obj \<noteq> None)
    \<and> (\<forall>D'. D = obj # D' \<longrightarrow> dispatch_end w obj \<noteq> None)
    \<and> (\<forall>w' err. obj \<in> flagged w \<longrightarrow> keeps_reach container is_fn (obj # D) eval \<longrightarrow> watch_notify eval w obj = Some (w', err)
        \<longrightarrow> watch_reach container is_fn D w')
    \<and> (\<forall>w' err. obj \<in> flagged w \<longrightarrow> keeps_reach container is_fn (obj # D) veval \<longrightarrow> watch_validate veval w obj = Some (w', err)
        \<longrightarrow> watch_reach container is_fn D w')"
proof -
  have l: "legal_ptr obj" using assms(2,3) by blast
  have ok: "watch_inv (set D) w" using reach_ok [OF assms(1)] assms(2) by blast
  have "(obj \<in> flagged w \<longrightarrow> hooks w obj \<noteq> ([], None)) \<and> (hooks w obj \<noteq> ([], None) \<and> obj \<notin> set D \<longrightarrow> obj \<in> flagged w)
    \<and> watchedpcmd w obj = Some (fst (hooks w obj) \<noteq> [])"
  proof (rule find_cases [OF ok l])
    assume "tab_find (watch_tab w) obj = Some None" "tab_map (watch_tab w) obj = None"
    then show ?thesis using flag_others(1) [OF ok l] by (auto simp: hooks_def watchedpcmd_def)
  next
    fix i assume "tab_find (watch_tab w) obj = Some (Some i)" "tab_map (watch_tab w) obj = Some (slot_at w i)"
    then show ?thesis using flag_others [OF ok l] by (auto simp: hooks_def watchedpcmd_def)
  qed
  moreover have "dispatch_end w obj \<noteq> None" if "D = obj # D'" for D'
    using end_ok [of obj "set D'" w] ok l that by auto
  ultimately show ?thesis
    using unwatchcmd_ok [OF ok l] free_watched_ok [OF ok l] l
      watchcmd_ok [OF ok, of container obj alloc is_fn fn] setvalidatorcmd_ok [OF ok, of container obj alloc is_fn fv]
      notify_reach [OF assms(1,3)] validate_reach [OF assms(1,3)]
    by (intro conjI) blast+
qed

theorem watch_flag_invariant_witness:
  "\<exists>w. watchcmd (\<lambda>_. True) (\<lambda>t. t = 8) (\<lambda>_. True) watch_init 8 7 = Some (w, Inr 8)
     \<and> 8 \<in> flagged w \<and> watchedpcmd w 8 = Some True
     \<and> 8 \<notin> flagged (clear_flag 8 w) \<and> watchedpcmd (clear_flag 8 w) 8 = Some True \<and> dispatch_end (clear_flag 8 w) 8 \<noteq> None"
proof -
  have l: "legal_ptr 8" by (simp add: legal_ptr_def TOMBSTONE_def)
  have "ensure_slot (\<lambda>_. True) WATCH_CAP0 WATCH_SLOT_SIZE blank_slot empty_tab 8 \<noteq> Some None"
    by (auto simp: ensure_slot_def empty_tab_def tab_grow_def WATCH_CAP0_def WATCH_SLOT_SIZE_def SIZE_MAX_def
        split: option.splits sum.splits)
  then have "watch_ensure_slot (\<lambda>_. True) watch_init 8 \<noteq> Some None"
    by (auto simp: watch_ensure_slot_def watch_init_def split: option.splits)
  then have nf: "watchcmd (\<lambda>_. True) (\<lambda>t. t = 8) (\<lambda>_. True) watch_init 8 7 \<noteq> Some (w, Inl e)" for w e
    by (auto simp: watchcmd_def watch_insert_def split: option.splits)
  obtain w r where w: "watchcmd (\<lambda>_. True) (\<lambda>t. t = 8) (\<lambda>_. True) watch_init 8 7 = Some (w, r)"
    and h: "\<forall>t. legal_ptr t \<longrightarrow> hooks w t = (if t = 8 \<and> r = Inr 8 then (7 # fst (hooks watch_init 8), snd (hooks watch_init 8))
                                    else hooks watch_init t)"
    using watchcmd_ok [OF watch_init_ok [of "{}"], of "\<lambda>t. t = 8" 8 "\<lambda>_. True" "\<lambda>_. True" 7] l by auto
  have r: "r = Inr 8" using w nf by (cases r) (auto simp: watchcmd_def split: option.splits if_splits bool.splits)
  have w0: "watch_reach (\<lambda>t. t = 8) (\<lambda>_. True) [] w" by (rule reach_watch [OF reach_init w])
  have c: "\<forall>t :: addr. t = 8 \<longrightarrow> legal_ptr t" using l by simp
  note i0 = watch_flag_invariant [OF w0 c refl]
  have h8: "hooks w 8 = (7 # fst (hooks watch_init 8), snd (hooks watch_init 8))" using h l r by simp
  then have f: "8 \<in> flagged w" using i0 by simp
  have w1: "watch_reach (\<lambda>t. t = 8) (\<lambda>_. True) [8] (clear_flag 8 w)" by (rule reach_begin [OF w0 refl f])
  have "hooks (clear_flag 8 w) 8 = hooks w 8" by (simp add: hooks_def clear_flag_def)
  then show ?thesis using i0 watch_flag_invariant [OF w1 c refl] w r f h8 by (auto simp: clear_flag_def)
qed

text \<open>
  The commands on a reachable registry, object by object: watch! puts the function in
  front of the object's watchers, unwatch! removes its watchers and keeps its validator,
  set-validator! replaces the validator (nil removes it), freeing the object, while its hooks do not run, drops both,
  no other object's hooks change, and a command that reports an error changes nothing.
\<close>

theorem watch_commands_exact:
  assumes "watch_reach container is_fn D w" "\<forall>t. container t \<longrightarrow> legal_ptr t" "container obj" "legal_ptr t"
  shows "(watchcmd alloc container is_fn w obj fn = Some (w1, r1) \<longrightarrow>
        hooks w1 t = (if t = obj \<and> r1 = Inr obj then (fn # fst (hooks w obj), snd (hooks w obj)) else hooks w t))
    \<and> (unwatchcmd w obj = Some w2 \<longrightarrow> hooks w2 t = (if t = obj then ([], snd (hooks w obj)) else hooks w t))
    \<and> (setvalidatorcmd alloc container is_fn w obj fv = Some (w3, r3) \<longrightarrow>
        hooks w3 t = (if t = obj \<and> r3 = Inr obj then (fst (hooks w obj), fv) else hooks w t))
    \<and> (obj \<notin> set D \<and> free_watched w obj = Some w4 \<longrightarrow> hooks w4 t = (if t = obj then ([], None) else hooks w t))"
proof -
  have ok: "watch_inv (set D) w" using reach_ok [OF assms(1)] assms(2) by blast
  have l: "legal_ptr obj" using assms(2,3) by blast
  show ?thesis
    using unwatchcmd_ok [OF ok l] free_watched_ok [OF ok l] l assms(4)
      watchcmd_ok [OF ok, of container obj alloc is_fn fn] setvalidatorcmd_ok [OF ok, of container obj alloc is_fn fv]
    by auto
qed

theorem watch_commands_exact_witness:
  "\<exists>w w1 w2. watchcmd (\<lambda>_. True) (\<lambda>t. t = 8) (\<lambda>_. True) watch_init 8 2 = Some (w, Inr 8)
     \<and> watchcmd (\<lambda>_. True) (\<lambda>t. t = 8) (\<lambda>_. True) w 8 1 = Some (w1, Inr 8) \<and> hooks w1 8 = ([1, 2], None)
     \<and> unwatchcmd w 8 = Some w2 \<and> hooks w2 8 = ([], None)"
proof -
  let ?c = "\<lambda>t :: addr. t = 8" and ?f = "\<lambda>_ :: nat. True"
  have l: "\<forall>t. ?c t \<longrightarrow> legal_ptr t" "legal_ptr 8" by (simp_all add: legal_ptr_def TOMBSTONE_def)
  define w where "w = watch_8 2 watch_init"
  have w: "watchcmd (\<lambda>_. True) ?c ?f watch_init 8 2 = Some (w, Inr 8)"
    by (simp add: w_def watch_8_def watchcmd_def watch_insert_def watch_ensure_slot_def watch_init_def first_ensure)
  have t: "watch_tab w = one_slot 8 \<lparr>fns = [(0, 2)], validator = None\<rparr>"
    by (simp add: w_def watch_8_def watchcmd_def watch_insert_def watch_ensure_slot_def watch_init_def first_ensure
        set_slot_def set_flag_def slot_at_def put_slot_def blank_upd)
  have r: "watch_reach ?c ?f [] w" by (rule reach_watch [OF reach_init w])
  have 1: "\<exists>w1. watchcmd (\<lambda>_. True) ?c ?f w 8 1 = Some (w1, Inr 8)"
    by (simp add: watchcmd_def watch_insert_def watch_ensure_slot_def t one_slot_ensure)
  have 2: "\<exists>w2. unwatchcmd w 8 = Some w2" by (simp add: unwatchcmd_def t one_slot_find)
  have h0: "hooks watch_init 8 = ([], None)" by (simp add: hooks_def watch_init_def empty_tab_def tab_map_def)
  have h: "hooks w 8 = ([2], None)"
    using watch_commands_exact [OF reach_init l(1) refl l(2), of "\<lambda>_. True" ?f 2 w "Inr 8"] w h0 by simp
  show ?thesis using 1 2 w h watch_commands_exact [OF r l(1) refl l(2)] by auto
qed

end
