(* ===== verification/Mpsc.thy ===== *)
theory Mpsc
  imports Prelude
begin

text \<open>
  The multi-producer single-consumer queue (\<open>mpsc.h\<close>): the memory cells, the two atomic
  steps of a producer, the steps of the consumer, and their interleaving.  An atomic
  access is one step; the interleaving semantics is sequentially consistent, which the
  acquire and release orders of the code give for the cells it publishes.

  The nodes a client may enqueue are those it owns, which a history of the exchanges and
  of the returned nodes records.
\<close>

section \<open>The queue and its operations\<close>

datatype mpsc_node = Stub | Node nat

record mpsc_queue =
  mnext :: "mpsc_node \<Rightarrow> mpsc_node option"
  mhead :: mpsc_node
  mtail :: mpsc_node

definition mpsc_init :: "mpsc_queue \<Rightarrow> mpsc_queue" where
  "mpsc_init q = q\<lparr>mnext := (mnext q)(Stub := None), mhead := Stub, mtail := Stub\<rparr>"

text \<open>The three atomic accesses of \<open>mpsc_enqueue\<close>.\<close>

definition enq_clear :: "mpsc_queue \<Rightarrow> mpsc_node \<Rightarrow> mpsc_queue" where
  "enq_clear q n = q\<lparr>mnext := (mnext q)(n := None)\<rparr>"

definition enq_swap :: "mpsc_queue \<Rightarrow> mpsc_node \<Rightarrow> mpsc_queue \<times> mpsc_node" where
  "enq_swap q n = (q\<lparr>mhead := n\<rparr>, mhead q)"

definition enq_link :: "mpsc_queue \<Rightarrow> mpsc_node \<Rightarrow> mpsc_node \<Rightarrow> mpsc_queue" where
  "enq_link q prev n = q\<lparr>mnext := (mnext q)(prev := Some n)\<rparr>"

definition mpsc_enqueue :: "mpsc_queue \<Rightarrow> mpsc_node \<Rightarrow> mpsc_queue" where
  "mpsc_enqueue q n = (let (q', prev) = enq_swap (enq_clear q n) n in enq_link q' prev n)"

text \<open>
  Where the consumer is in \<open>mpsc_dequeue\<close>: before the second load of \<open>next\<close>, before the
  load of \<open>head\<close>, before each of the three accesses that enqueue the stub, before the last
  load of \<open>next\<close>, and returned.
\<close>

datatype deq_pc =
    D_start
  | D_reload
  | D_head
  | D_clear
  | D_swap
  | D_link mpsc_node
  | D_last
  | D_return "mpsc_node option"

text \<open>\<open>D_return None\<close> is the \<open>NULL\<close> result; the local \<open>tail\<close> always equals \<open>q->tail\<close>.\<close>

definition take_or :: "deq_pc \<Rightarrow> mpsc_queue \<Rightarrow> mpsc_queue \<times> deq_pc" where
  "take_or pc q =
     (case mnext q (mtail q) of
        Some n \<Rightarrow> (q\<lparr>mtail := n\<rparr>, D_return (Some (mtail q)))
      | None \<Rightarrow> (q, pc))"

fun deq_step :: "deq_pc \<Rightarrow> mpsc_queue \<Rightarrow> mpsc_queue \<times> deq_pc" where
  "deq_step D_start q =
     (if mtail q = Stub
      then (case mnext q Stub of
              None \<Rightarrow> (q, D_return None)
            | Some n \<Rightarrow> (q\<lparr>mtail := n\<rparr>, D_reload))
      else take_or D_head q)"
| "deq_step D_reload q = take_or D_head q"
| "deq_step D_head q = (if mtail q \<noteq> mhead q then (q, D_return None) else (q, D_clear))"
| "deq_step D_clear q = (enq_clear q Stub, D_swap)"
| "deq_step D_swap q = (let (q', prev) = enq_swap q Stub in (q', D_link prev))"
| "deq_step (D_link prev) q = (enq_link q prev Stub, D_last)"
| "deq_step D_last q = take_or (D_return None) q"
| "deq_step (D_return r) q = (q, D_return r)"

text \<open>The consumer alone: all its steps in a row.\<close>

definition mpsc_dequeue :: "mpsc_queue \<Rightarrow> mpsc_queue \<times> mpsc_node option" where
  "mpsc_dequeue q =
     (let (q1, pc) = ((\<lambda>(q, pc). deq_step pc q) ^^ 7) (q, D_start)
      in (q1, case pc of D_return r \<Rightarrow> r | _ \<Rightarrow> None))"

section \<open>Producers and consumer interleaved\<close>

datatype enq_pc = P_idle | P_ready nat | P_swapped nat mpsc_node

record mpsc_sys =
  queue :: mpsc_queue
  producer :: "nat \<Rightarrow> enq_pc"
  consumer :: deq_pc
  enqd :: "nat list"
  deqd :: "nat list"

definition in_queue :: "mpsc_sys \<Rightarrow> nat list" where
  "in_queue s = drop (length (deqd s)) (enqd s)"

fun record_return :: "deq_pc \<Rightarrow> nat list" where
  "record_return (D_return (Some (Node n))) = [n]"
| "record_return _ = []"

inductive mpsc_step :: "mpsc_sys \<Rightarrow> mpsc_sys \<Rightarrow> bool" where
  step_clear: "producer s t = P_idle \<Longrightarrow> n \<notin> set (in_queue s) \<Longrightarrow> \<forall>u. producer s u \<noteq> P_ready n
    \<Longrightarrow> mpsc_step s (s\<lparr>queue := enq_clear (queue s) (Node n), producer := (producer s)(t := P_ready n)\<rparr>)"
| step_swap: "producer s t = P_ready n \<Longrightarrow> enq_swap (queue s) (Node n) = (q, prev)
    \<Longrightarrow> mpsc_step s (s\<lparr>queue := q, producer := (producer s)(t := P_swapped n prev), enqd := enqd s @ [n]\<rparr>)"
| step_link: "producer s t = P_swapped n prev
    \<Longrightarrow> mpsc_step s (s\<lparr>queue := enq_link (queue s) prev (Node n), producer := (producer s)(t := P_idle)\<rparr>)"
| step_deq: "consumer s = pc \<Longrightarrow> (\<forall>r. pc \<noteq> D_return r) \<Longrightarrow> deq_step pc (queue s) = (q, pc')
    \<Longrightarrow> mpsc_step s (s\<lparr>queue := q, consumer := pc', deqd := deqd s @ record_return pc'\<rparr>)"
| step_call: "consumer s = D_return r \<Longrightarrow> mpsc_step s (s\<lparr>consumer := D_start\<rparr>)"

definition mpsc_start :: "mpsc_queue \<Rightarrow> mpsc_sys" where
  "mpsc_start q = \<lparr>queue = mpsc_init q, producer = (\<lambda>_. P_idle), consumer = D_start, enqd = [], deqd = []\<rparr>"

inductive mpsc_reach :: "mpsc_sys \<Rightarrow> bool" where
  reach_start: "mpsc_reach (mpsc_start q)"
| reach_step: "mpsc_reach s \<Longrightarrow> mpsc_step s s' \<Longrightarrow> mpsc_reach s'"

section \<open>The chain from tail to head\<close>

text \<open>
  The links announced by an exchange and not yet stored.
\<close>

definition missing :: "mpsc_sys \<Rightarrow> (mpsc_node \<times> mpsc_node) set" where
  "missing s = {(p, Node n) | t n p. producer s t = P_swapped n p} \<union> {(p, Stub) | p. consumer s = D_link p}"

fun chain_ok :: "(mpsc_node \<Rightarrow> mpsc_node option) \<Rightarrow> (mpsc_node \<times> mpsc_node) set \<Rightarrow> mpsc_node list \<Rightarrow> bool" where
  "chain_ok nx P [] = False"
| "chain_ok nx P [a] = (nx a = None)"
| "chain_ok nx P (a # b # L) = (nx a = (if (a, b) \<in> P then None else Some b) \<and> chain_ok nx P (b # L))"

definition pairs :: "mpsc_node list \<Rightarrow> (mpsc_node \<times> mpsc_node) set" where
  "pairs L = set (zip L (tl L))"

fun val :: "mpsc_node \<Rightarrow> nat list" where
  "val Stub = []"
| "val (Node n) = [n]"

definition consumer_ok :: "mpsc_node list \<Rightarrow> mpsc_sys \<Rightarrow> bool" where
  "consumer_ok L s = (case consumer s of
      D_reload \<Rightarrow> Stub \<notin> set L
    | D_head \<Rightarrow> hd L \<noteq> Stub
    | D_clear \<Rightarrow> Stub \<notin> set L
    | D_swap \<Rightarrow> Stub \<notin> set L \<and> mnext (queue s) Stub = None
    | D_link p \<Rightarrow> hd L \<noteq> Stub
    | D_last \<Rightarrow> hd L \<noteq> Stub \<and> 2 \<le> length L
    | _ \<Rightarrow> True)"

definition mpsc_inv :: "mpsc_node list \<Rightarrow> mpsc_sys \<Rightarrow> bool" where
  "mpsc_inv L s =
     (distinct L \<and> L \<noteq> [] \<and> hd L = mtail (queue s) \<and> last L = mhead (queue s)
      \<and> chain_ok (mnext (queue s)) (missing s) L
      \<and> missing s \<subseteq> pairs L
      \<and> (\<forall>t u n p p'. producer s t = P_swapped n p \<longrightarrow> producer s u = P_swapped n p' \<longrightarrow> t = u)
      \<and> (\<forall>t n. producer s t = P_ready n \<longrightarrow> Node n \<notin> set L \<and> mnext (queue s) (Node n) = None
            \<and> (\<forall>u. producer s u = P_ready n \<longrightarrow> u = t))
      \<and> enqd s = deqd s @ concat (map val L)
      \<and> consumer_ok L s)"


lemma pairs_simps [simp]: "pairs [] = {}" "pairs [a] = {}" "pairs (a # b # L) = insert (a, b) (pairs (b # L))"
  by (simp_all add: pairs_def)

lemma pairs_snoc: "L \<noteq> [] \<Longrightarrow> pairs (L @ [n]) = insert (last L, n) (pairs L)"
proof (induction L)
  case (Cons a L)
  then show ?case by (cases L) (auto simp: insert_commute)
qed simp

lemma pairs_mem: "(a, b) \<in> pairs L \<Longrightarrow> a \<in> set L \<and> b \<in> set (tl L)"
  by (auto simp: pairs_def dest: set_zip_leftD set_zip_rightD)

lemma pairs_no_last: "distinct L \<Longrightarrow> L \<noteq> [] \<Longrightarrow> (last L, b) \<notin> pairs L"
proof (induction L)
  case (Cons a L)
  then show ?case by (cases L) auto
qed simp

lemma pairs_fun: "distinct L \<Longrightarrow> (a, b) \<in> pairs L \<Longrightarrow> (a, c) \<in> pairs L \<Longrightarrow> b = c"
proof (induction L)
  case (Cons x L)
  then show ?case by (cases L) (auto dest: pairs_mem)
qed simp

lemma pairs_inj: "distinct L \<Longrightarrow> (a, c) \<in> pairs L \<Longrightarrow> (b, c) \<in> pairs L \<Longrightarrow> a = b"
proof (induction L)
  case (Cons x L)
  then show ?case by (cases L) (auto dest: pairs_mem)
qed simp

lemma chain_ok_cong: "(\<And>a. a \<in> set L \<Longrightarrow> nx a = nx' a) \<Longrightarrow> P \<inter> pairs L = P' \<inter> pairs L
    \<Longrightarrow> chain_ok nx P L = chain_ok nx' P' L"
proof (induction nx P L rule: chain_ok.induct)
  case (3 nx P a b L)
  have "P \<inter> pairs (b # L) = P' \<inter> pairs (b # L)" using 3(3) by auto
  moreover have "((a, b) \<in> P) = ((a, b) \<in> P')" using 3(3) by auto
  ultimately show ?case using 3(1,2) by simp
qed simp_all

lemma chain_ok_outside [simp]: "x \<notin> set L \<Longrightarrow> chain_ok (nx(x := v)) P L = chain_ok nx P L"
  by (rule chain_ok_cong) auto

lemma chain_ok_last: "chain_ok nx P L \<Longrightarrow> nx (last L) = None"
  by (induction nx P L rule: chain_ok.induct) auto

lemma chain_ok_snoc:
  "chain_ok nx P L \<Longrightarrow> distinct L \<Longrightarrow> n \<notin> set L \<Longrightarrow> nx n = None \<Longrightarrow> chain_ok nx (insert (last L, n) P) (L @ [n])"
proof (induction nx P L rule: chain_ok.induct)
  case (3 nx P a b L)
  have ne: "a \<noteq> last (b # L)" using 3(3) by (metis distinct.simps(2) last_in_set list.distinct(1))
  have "chain_ok nx (insert (last (b # L), n) P) ((b # L) @ [n])" using 3 by simp
  then show ?case using 3(2) ne by (cases L) auto
qed simp_all

lemma chain_ok_link:
  "chain_ok nx P L \<Longrightarrow> distinct L \<Longrightarrow> (p, n) \<in> pairs L \<Longrightarrow> chain_ok (nx(p := Some n)) (P - {(p, n)}) L"
proof (induction nx P L rule: chain_ok.induct)
  case (3 nx P a b L)
  show ?case
  proof (cases "p = a")
    case True
    then have n: "n = b" using 3(3,4) by (auto dest: pairs_mem)
    have "(p, n) \<notin> pairs (b # L)" using True 3(3) by (auto dest: pairs_mem)
    then have "(P - {(p, n)}) \<inter> pairs (b # L) = P \<inter> pairs (b # L)" by auto
    then have "chain_ok nx (P - {(p, n)}) (b # L) = chain_ok nx P (b # L)" by (intro chain_ok_cong) auto
    then have c: "chain_ok nx (P - {(p, n)}) (b # L)" using 3(2) by simp
    have "p \<notin> set (b # L)" using True 3(3) by simp
    from chain_ok_outside [OF this, of nx "Some n" "P - {(p, n)}"] c
    have "chain_ok (nx(p := Some n)) (P - {(p, n)}) (b # L)" by blast
    then show ?thesis unfolding True n chain_ok.simps by (simp only: fun_upd_same) simp
  next
    case False
    then have "(p, n) \<in> pairs (b # L)" using 3(4) by simp
    then show ?thesis using 3 False by auto
  qed
qed simp_all

lemma val_Node [simp]: "concat (map val (L @ [Node n])) = concat (map val L) @ [n]"
  "concat (map val (L @ [Stub])) = concat (map val L)"
  by simp_all

lemma in_val: "n \<in> set (concat (map val L)) \<longleftrightarrow> Node n \<in> set L"
proof (induction L)
  case (Cons a L)
  then show ?case by (cases a) auto
qed simp

lemma inv_in_queue: "mpsc_inv L s \<Longrightarrow> in_queue s = concat (map val L)"
  by (simp add: mpsc_inv_def in_queue_def)


section \<open>The invariant of every interleaving\<close>

lemma missing_iff:
  "(p, x) \<in> missing s = (case x of Node n \<Rightarrow> (\<exists>t. producer s t = P_swapped n p) | Stub \<Rightarrow> consumer s = D_link p)"
  by (auto simp: missing_def split: mpsc_node.splits)

lemma missing_eqI:
  assumes "\<And>n p. (p, Node n) \<in> A = (\<exists>t. producer s t = P_swapped n p)" "\<And>p. (p, Stub) \<in> A = (consumer s = D_link p)"
  shows "missing s = A"
proof -
  have "(p, x) \<in> missing s = ((p, x) \<in> A)" for p x using assms by (cases x) (simp_all add: missing_iff)
  then show ?thesis by auto
qed

lemma ex_upd_iff: "(\<exists>u. (f(t := v)) u = x) = (v = x \<or> (\<exists>u. u \<noteq> t \<and> f u = x))"
  by auto

lemma ex_upd_new: "f t \<noteq> x \<Longrightarrow> (\<exists>u. (f(t := v)) u = x) = (v = x \<or> (\<exists>u. f u = x))"
  unfolding ex_upd_iff by metis

lemma inv_clear:
  assumes "mpsc_inv L s" "producer s t = P_idle" "n \<notin> set (in_queue s)" "\<forall>u. producer s u \<noteq> P_ready n"
  shows "mpsc_inv L (s\<lparr>queue := enq_clear (queue s) (Node n), producer := (producer s)(t := P_ready n)\<rparr>)"
proof -
  let ?s = "s\<lparr>queue := enq_clear (queue s) (Node n), producer := (producer s)(t := P_ready n)\<rparr>"
  have out: "Node n \<notin> set L" using assms(3) unfolding inv_in_queue [OF assms(1)] in_val .
  have m: "missing ?s = missing s"
    by (rule missing_eqI) (simp_all add: missing_iff ex_upd_new assms(2) del: fun_upd_apply)
  show ?thesis
    unfolding mpsc_inv_def m using assms out
    by (auto simp: mpsc_inv_def enq_clear_def consumer_ok_def split: deq_pc.splits)
qed

lemma inv_swap:
  assumes "mpsc_inv L s" "producer s t = P_ready n"
  shows "mpsc_inv (L @ [Node n])
    (s\<lparr>queue := fst (enq_swap (queue s) (Node n)), producer := (producer s)(t := P_swapped n (snd (enq_swap (queue s) (Node n)))),
       enqd := enqd s @ [n]\<rparr>)"
proof -
  let ?s = "s\<lparr>queue := fst (enq_swap (queue s) (Node n)),
     producer := (producer s)(t := P_swapped n (snd (enq_swap (queue s) (Node n)))), enqd := enqd s @ [n]\<rparr>"
  note i = assms(1) [unfolded mpsc_inv_def]
  have r: "Node n \<notin> set L" "mnext (queue s) (Node n) = None" "\<forall>u. producer s u = P_ready n \<longrightarrow> u = t"
    using i assms(2) by blast+
  have m: "missing ?s = insert (last L, Node n) (missing s)"
  proof (rule missing_eqI)
    fix m p
    show "((p, Node m) \<in> insert (last L, Node n) (missing s)) = (\<exists>u. producer ?s u = P_swapped m p)"
      using i by (auto simp: missing_iff enq_swap_def ex_upd_new assms(2) simp del: fun_upd_apply)
  qed (simp add: missing_iff)
  have c: "chain_ok (mnext (queue s)) (insert (last L, Node n) (missing s)) (L @ [Node n])"
    by (rule chain_ok_snoc) (use i r in auto)
  have p: "insert (last L, Node n) (missing s) \<subseteq> pairs (L @ [Node n])" using i by (auto simp: pairs_snoc)
  have u: "producer s u = P_swapped n p \<Longrightarrow> False" for u p
  proof -
    assume "producer s u = P_swapped n p"
    then have "(p, Node n) \<in> pairs L" using i unfolding missing_def by blast
    then show False using r(1) pairs_mem list.set_sel(2) i by metis
  qed
  have h: "hd (L @ [Node n]) = hd L" using i by simp
  show ?thesis
    unfolding mpsc_inv_def m
  proof (intro conjI)
    show "distinct (L @ [Node n])" "L @ [Node n] \<noteq> []" using i r(1) by auto
    show "hd (L @ [Node n]) = mtail (queue ?s)" "last (L @ [Node n]) = mhead (queue ?s)"
      using i h by (auto simp: enq_swap_def)
    show "chain_ok (mnext (queue ?s)) (insert (last L, Node n) (missing s)) (L @ [Node n])"
      using c by (simp add: enq_swap_def)
    show "insert (last L, Node n) (missing s) \<subseteq> pairs (L @ [Node n])" by (rule p)
    show "\<forall>t u n p p'. producer ?s t = P_swapped n p \<longrightarrow> producer ?s u = P_swapped n p' \<longrightarrow> t = u"
      using i u by (auto split: if_splits) 
    show "\<forall>t m. producer ?s t = P_ready m \<longrightarrow> Node m \<notin> set (L @ [Node n]) \<and> mnext (queue ?s) (Node m) = None
        \<and> (\<forall>u. producer ?s u = P_ready m \<longrightarrow> u = t)"
      using i r by (auto simp: enq_swap_def split: if_splits)
    show "enqd ?s = deqd ?s @ concat (map val (L @ [Node n]))" using i by simp
    show "consumer_ok (L @ [Node n]) ?s"
      using i h by (auto simp: consumer_ok_def enq_swap_def split: deq_pc.splits)
  qed
qed

lemma inv_link:
  assumes "mpsc_inv L s" "producer s t = P_swapped n p"
  shows "mpsc_inv L (s\<lparr>queue := enq_link (queue s) p (Node n), producer := (producer s)(t := P_idle)\<rparr>)"
proof -
  let ?s = "s\<lparr>queue := enq_link (queue s) p (Node n), producer := (producer s)(t := P_idle)\<rparr>"
  note i = assms(1) [unfolded mpsc_inv_def]
  have pr: "(p, Node n) \<in> pairs L" using i assms(2) unfolding missing_def by blast
  then have pl: "p \<in> set L" by (auto dest: pairs_mem)
  have m: "missing ?s = missing s - {(p, Node n)}"
  proof (rule missing_eqI)
    fix m q
    have 1: "producer s u = P_swapped n p \<Longrightarrow> u = t" for u using i assms(2) by blast
    have 2: "(\<exists>u. producer ?s u = P_swapped m q) = (\<exists>u. u \<noteq> t \<and> producer s u = P_swapped m q)"
      by (simp add: ex_upd_iff del: fun_upd_apply)
    have 3: "((q, Node m) \<in> missing s - {(p, Node n)})
        = ((\<exists>u. producer s u = P_swapped m q) \<and> \<not> (q = p \<and> m = n))" by (auto simp: missing_iff)
    show "((q, Node m) \<in> missing s - {(p, Node n)}) = (\<exists>u. producer ?s u = P_swapped m q)"
    proof (cases "q = p \<and> m = n")
      case True
      then show ?thesis unfolding 2 3 using 1 by blast
    next
      case False
      then have "producer s t \<noteq> P_swapped m q" using assms(2) by auto
      then show ?thesis unfolding 2 3 using False by metis
    qed
  qed (simp add: missing_iff)
  have c: "chain_ok ((mnext (queue s))(p := Some (Node n))) (missing s - {(p, Node n)}) L"
    by (rule chain_ok_link) (use i pr in auto)
  show ?thesis
    unfolding mpsc_inv_def m
  proof (intro conjI)
    show "distinct L" "L \<noteq> []" "hd L = mtail (queue ?s)" "last L = mhead (queue ?s)" using i by (auto simp: enq_link_def)
    show "chain_ok (mnext (queue ?s)) (missing s - {(p, Node n)}) L" using c by (simp add: enq_link_def)
    show "missing s - {(p, Node n)} \<subseteq> pairs L" using i by blast
    show "\<forall>t u n p p'. producer ?s t = P_swapped n p \<longrightarrow> producer ?s u = P_swapped n p' \<longrightarrow> t = u"
      using i by (auto split: if_splits)
    show "\<forall>t m. producer ?s t = P_ready m \<longrightarrow> Node m \<notin> set L \<and> mnext (queue ?s) (Node m) = None
        \<and> (\<forall>u. producer ?s u = P_ready m \<longrightarrow> u = t)"
      using i pl by (auto simp: enq_link_def split: if_splits)
    show "enqd ?s = deqd ?s @ concat (map val L)" using i by simp
    show "consumer_ok L ?s" using i pl by (auto simp: consumer_ok_def enq_link_def split: deq_pc.splits)
  qed
qed


text \<open>The consumer's steps: moving to another point, taking the first node, adding the stub.\<close>

definition no_link :: "deq_pc \<Rightarrow> bool" where
  "no_link pc = (\<forall>p. pc \<noteq> D_link p)"

lemma no_link_simps [simp]: "no_link D_start" "no_link D_reload" "no_link D_head" "no_link D_clear" "no_link D_swap"
  "no_link D_last" "no_link (D_return r)"
  by (simp_all add: no_link_def)

lemma inv_pc:
  assumes "mpsc_inv L s" "no_link (consumer s)" "no_link pc" "consumer_ok L (s\<lparr>consumer := pc\<rparr>)"
  shows "mpsc_inv L (s\<lparr>consumer := pc\<rparr>)"
proof -
  have "missing (s\<lparr>consumer := pc\<rparr>) = missing s"
    by (rule missing_eqI) (use assms(2,3) in \<open>simp_all add: missing_iff no_link_def\<close>)
  then show ?thesis using assms(1,4) by (simp add: mpsc_inv_def)
qed

lemma inv_move:
  assumes "mpsc_inv L s" "mnext (queue s) (mtail (queue s)) = Some n" "no_link (consumer s)" "no_link pc"
    and "\<And>M. L = mtail (queue s) # n # M \<Longrightarrow> consumer_ok (n # M) (s\<lparr>consumer := pc\<rparr>)"
  shows "\<exists>M. L = mtail (queue s) # n # M
    \<and> mpsc_inv (n # M) (s\<lparr>queue := (queue s)\<lparr>mtail := n\<rparr>, consumer := pc, deqd := deqd s @ val (mtail (queue s))\<rparr>)"
proof -
  note i = assms(1) [unfolded mpsc_inv_def]
  let ?t = "mtail (queue s)"
  let ?s = "s\<lparr>queue := (queue s)\<lparr>mtail := n\<rparr>, consumer := pc, deqd := deqd s @ val ?t\<rparr>"
  obtain M where M: "L = ?t # n # M" and out: "(?t, n) \<notin> missing s"
  proof (cases L)
    case (Cons a K)
    then have a: "a = ?t" using i by simp
    show ?thesis
    proof (cases K)
      case Nil
      then show ?thesis using i Cons a assms(2) by simp
    next
      case (Cons b M)
      then have "mnext (queue s) ?t = (if (?t, b) \<in> missing s then None else Some b)" using i \<open>L = a # K\<close> a by simp
      then have "b = n" "(?t, n) \<notin> missing s" using assms(2) by (auto split: if_splits)
      then show ?thesis using that [of M] Cons \<open>L = a # K\<close> a by blast
    qed
  qed (use i in simp)
  have m: "missing ?s = missing s"
    by (rule missing_eqI) (use assms(3,4) in \<open>simp_all add: missing_iff no_link_def\<close>)
  have "consumer_ok (n # M) ?s" using assms(5) [OF M] by (simp add: consumer_ok_def split: deq_pc.splits)
  moreover have "missing s \<subseteq> pairs (n # M)" using i out unfolding M by auto
  ultimately have "mpsc_inv (n # M) ?s"
    unfolding mpsc_inv_def m using i unfolding M by (auto split: if_splits)
  with M show ?thesis by blast
qed

lemma take_or_inv:
  assumes "mpsc_inv L s" "no_link (consumer s)" "no_link pc" "\<forall>m. pc \<noteq> D_return (Some m)"
    and "consumer_ok L (s\<lparr>consumer := pc\<rparr>)" "take_or pc (queue s) = (q, pc')" "hd L \<noteq> Stub"
  shows "\<exists>L'. mpsc_inv L' (s\<lparr>queue := q, consumer := pc', deqd := deqd s @ record_return pc'\<rparr>)"
proof (cases "mnext (queue s) (mtail (queue s))")
  case None
  have "record_return pc = []" using assms(4) by (cases pc rule: record_return.cases) auto
  then show ?thesis using None assms(6) inv_pc [OF assms(1,2,3,5)] by (auto simp: take_or_def)
next
  case (Some n)
  have t: "record_return (D_return (Some (mtail (queue s)))) = val (mtail (queue s))"
    using assms(1,7) by (cases "mtail (queue s)") (auto simp: mpsc_inv_def)
  show ?thesis
    using inv_move [OF assms(1) Some assms(2), of "D_return (Some (mtail (queue s)))"] Some assms(6) t
    by (auto simp: take_or_def consumer_ok_def)
qed


lemma stub_clear_inv:
  assumes "mpsc_inv L s" "consumer s = D_clear"
  shows "mpsc_inv L (s\<lparr>queue := enq_clear (queue s) Stub, consumer := D_swap\<rparr>)"
proof -
  note i = assms(1) [unfolded mpsc_inv_def]
  have out: "Stub \<notin> set L" using i assms(2) by (simp add: consumer_ok_def)
  have m: "missing (s\<lparr>queue := enq_clear (queue s) Stub, consumer := D_swap\<rparr>) = missing s"
    by (rule missing_eqI) (use assms(2) in \<open>simp_all add: missing_iff\<close>)
  show ?thesis unfolding mpsc_inv_def m using i out by (auto simp: enq_clear_def consumer_ok_def)
qed

lemma stub_swap_inv:
  assumes "mpsc_inv L s" "consumer s = D_swap"
  shows "mpsc_inv (L @ [Stub]) (s\<lparr>queue := fst (enq_swap (queue s) Stub), consumer := D_link (snd (enq_swap (queue s) Stub))\<rparr>)"
proof -
  let ?s = "s\<lparr>queue := fst (enq_swap (queue s) Stub), consumer := D_link (snd (enq_swap (queue s) Stub))\<rparr>"
  note i = assms(1) [unfolded mpsc_inv_def]
  have out: "Stub \<notin> set L" "mnext (queue s) Stub = None" using i assms(2) by (simp_all add: consumer_ok_def)
  have m: "missing ?s = insert (last L, Stub) (missing s)"
    by (rule missing_eqI) (use assms(2) i in \<open>auto simp: missing_iff enq_swap_def\<close>)
  have c: "chain_ok (mnext (queue s)) (insert (last L, Stub) (missing s)) (L @ [Stub])"
    by (rule chain_ok_snoc) (use i out in auto)
  have h: "hd (L @ [Stub]) = hd L" using i by simp
  have p: "insert (last L, Stub) (missing s) \<subseteq> pairs (L @ [Stub])" using i by (auto simp: pairs_snoc)
  have n: "hd L \<noteq> Stub" using out(1) i list.set_sel(1) by metis
  show ?thesis unfolding mpsc_inv_def m using i out c h p n
    by (auto simp: enq_swap_def consumer_ok_def simp del: concat_append map_append)
qed

lemma stub_link_inv:
  assumes "mpsc_inv L s" "consumer s = D_link p"
  shows "mpsc_inv L (s\<lparr>queue := enq_link (queue s) p Stub, consumer := D_last\<rparr>)"
proof -
  let ?s = "s\<lparr>queue := enq_link (queue s) p Stub, consumer := D_last\<rparr>"
  note i = assms(1) [unfolded mpsc_inv_def]
  have "(p, Stub) \<in> missing s" using assms(2) by (simp add: missing_iff)
  then have pr: "(p, Stub) \<in> pairs L" using i by blast
  then have pl: "p \<in> set L" by (auto dest: pairs_mem)
  have len: "2 \<le> length L" using pr by (cases L; cases "tl L") (auto simp: pairs_def)
  have m: "missing ?s = missing s - {(p, Stub)}"
    by (rule missing_eqI) (use assms(2) in \<open>auto simp: missing_iff\<close>)
  have c: "chain_ok ((mnext (queue s))(p := Some Stub)) (missing s - {(p, Stub)}) L"
    by (rule chain_ok_link) (use i pr in auto)
  show ?thesis unfolding mpsc_inv_def m
  proof (intro conjI)
    show "chain_ok (mnext (queue ?s)) (missing s - {(p, Stub)}) L" using c by (simp add: enq_link_def)
    show "consumer_ok L ?s" using i assms(2) len by (auto simp: consumer_ok_def)
    show "\<forall>t n. producer ?s t = P_ready n \<longrightarrow> Node n \<notin> set L \<and> mnext (queue ?s) (Node n) = None
        \<and> (\<forall>u. producer ?s u = P_ready n \<longrightarrow> u = t)"
      using i pl by (auto simp: enq_link_def)
    show "missing s - {(p, Stub)} \<subseteq> pairs L" using i by blast
    show "\<forall>t u n p p'. producer ?s t = P_swapped n p \<longrightarrow> producer ?s u = P_swapped n p' \<longrightarrow> t = u" using i by simp
  qed (use i in \<open>simp_all add: enq_link_def\<close>)
qed

lemma single_chain: "distinct L \<Longrightarrow> L \<noteq> [] \<Longrightarrow> hd L = last L \<Longrightarrow> L = [hd L]"
  by (cases L) (auto split: if_splits)

lemma deq_step_inv:
  assumes "mpsc_inv L s" "consumer s = pc" "\<forall>r. pc \<noteq> D_return r" "deq_step pc (queue s) = (q, pc')"
  shows "\<exists>L'. mpsc_inv L' (s\<lparr>queue := q, consumer := pc', deqd := deqd s @ record_return pc'\<rparr>)"
proof -
  note i = assms(1) [unfolded mpsc_inv_def]
  have k: "consumer_ok L s" and hd: "hd L = mtail (queue s)" using i by simp_all
  show ?thesis
  proof (cases pc)
    case D_start
    show ?thesis
    proof (cases "mtail (queue s) = Stub")
      case False
      show ?thesis
        by (rule take_or_inv [OF assms(1), of D_head]) (use assms D_start False hd in \<open>simp_all add: consumer_ok_def\<close>)
    next
      case True
      show ?thesis
      proof (cases "mnext (queue s) Stub")
        case None
        then show ?thesis using True assms D_start inv_pc [OF assms(1), of "D_return None"] by (auto simp: consumer_ok_def)
      next
        case (Some n)
        have "\<exists>M. L = mtail (queue s) # n # M
          \<and> mpsc_inv (n # M) (s\<lparr>queue := (queue s)\<lparr>mtail := n\<rparr>, consumer := D_reload, deqd := deqd s @ val (mtail (queue s))\<rparr>)"
          by (rule inv_move [OF assms(1)]) (use Some True assms(2) D_start i in \<open>auto simp: consumer_ok_def\<close>)
        then show ?thesis using True Some assms(4) D_start by auto
      qed
    qed
  next
    case D_reload
    have "Stub \<notin> set L" using k assms(2) D_reload by (simp add: consumer_ok_def)
    then have "hd L \<noteq> Stub" using i by (cases L) auto
    then show ?thesis
      by (intro take_or_inv [OF assms(1), of D_head]) (use assms D_reload in \<open>simp_all add: consumer_ok_def\<close>)
  next
    case D_head
    have h: "hd L \<noteq> Stub" using k assms(2) D_head by (simp add: consumer_ok_def)
    show ?thesis
    proof (cases "mtail (queue s) = mhead (queue s)")
      case True
      then have "L = [hd L]" using single_chain i by metis
      then have "Stub \<notin> set L" using h by (metis empty_iff list.set(1) set_ConsD)
      then show ?thesis using True assms D_head inv_pc [OF assms(1), of D_clear] by (auto simp: consumer_ok_def)
    next
      case False
      then show ?thesis using assms D_head inv_pc [OF assms(1), of "D_return None"] by (auto simp: consumer_ok_def)
    qed
  next
    case D_clear
    then show ?thesis using stub_clear_inv [OF assms(1)] assms by auto
  next
    case D_swap
    then show ?thesis using stub_swap_inv [OF assms(1)] assms by (auto simp: split_beta Let_def)
  next
    case (D_link p)
    then show ?thesis using stub_link_inv [OF assms(1)] assms by auto
  next
    case D_last
    show ?thesis
      by (rule take_or_inv [OF assms(1), of "D_return None"]) (use assms D_last k in \<open>simp_all add: consumer_ok_def\<close>)
  next
    case (D_return r)
    then show ?thesis using assms(3) by simp
  qed
qed

lemma step_inv:
  assumes "mpsc_inv L s" "mpsc_step s s'"
  shows "\<exists>L'. mpsc_inv L' s'"
  using assms(2)
proof cases
  case (step_clear t n)
  then show ?thesis using inv_clear [OF assms(1)] by auto
next
  case (step_swap t n q prev)
  then show ?thesis using inv_swap [OF assms(1), of t n] by auto
next
  case (step_link t n prev)
  then show ?thesis using inv_link [OF assms(1)] by auto
next
  case (step_deq pc q pc')
  then show ?thesis using deq_step_inv [OF assms(1)] by auto
next
  case (step_call r)
  then show ?thesis using inv_pc [OF assms(1), of D_start] by (auto simp: consumer_ok_def)
qed

lemma reach_inv: "mpsc_reach s \<Longrightarrow> \<exists>L. mpsc_inv L s"
proof (induction rule: mpsc_reach.induct)
  case (reach_start q)
  have "missing (mpsc_start q) = {}" by (rule missing_eqI) (simp_all add: mpsc_start_def)
  then have "mpsc_inv [Stub] (mpsc_start q)"
    by (simp add: mpsc_inv_def mpsc_start_def mpsc_init_def consumer_ok_def)
  then show ?case ..
next
  case (reach_step s s')
  then show ?case using step_inv by blast
qed


section \<open>The consumer alone\<close>

lemma run_reach:
  assumes "mpsc_reach s" "\<forall>r. consumer s \<noteq> D_return r"
  shows "\<exists>s'. mpsc_reach s' \<and> ((\<lambda>(q, pc). deq_step pc q) ^^ k) (queue s, consumer s) = (queue s', consumer s')
    \<and> producer s' = producer s \<and> enqd s' = enqd s \<and> deqd s' = deqd s @ record_return (consumer s')"
proof (induction k)
  case 0
  have "record_return (consumer s) = []" using assms(2) by (cases "consumer s" rule: record_return.cases) auto
  then show ?case using assms(1) by auto
next
  case (Suc k)
  then obtain s' where s': "mpsc_reach s'"
    "((\<lambda>(q, pc). deq_step pc q) ^^ k) (queue s, consumer s) = (queue s', consumer s')"
    "producer s' = producer s" "enqd s' = enqd s" "deqd s' = deqd s @ record_return (consumer s')" by blast
  show ?case
  proof (cases "\<exists>r. consumer s' = D_return r")
    case True
    then show ?thesis using s' by (intro exI [of _ s']) auto
  next
    case False
    then have n: "record_return (consumer s') = []" by (cases "consumer s'" rule: record_return.cases) auto
    obtain q pc where d: "deq_step (consumer s') (queue s') = (q, pc)" by (metis surj_pair)
    let ?s = "s'\<lparr>queue := q, consumer := pc, deqd := deqd s' @ record_return pc\<rparr>"
    have "mpsc_step s' ?s" by (rule step_deq [OF refl _ d]) (use False in blast)
    then have "mpsc_reach ?s" by (rule reach_step [OF s'(1)])
    then show ?thesis using s' d n by (intro exI [of _ ?s]) simp
  qed
qed

definition in_flight :: "mpsc_sys \<Rightarrow> bool" where
  "in_flight s = (\<exists>t n p. producer s t = P_swapped n p)"

lemma dequeue_quiet:
  assumes "mpsc_inv L s" "consumer s = D_start" "\<not> in_flight s"
  shows "snd (mpsc_dequeue (queue s)) = (case in_queue s of [] \<Rightarrow> None | n # _ \<Rightarrow> Some (Node n))"
    and "((\<lambda>(q, pc). deq_step pc q) ^^ 7) (queue s, D_start)
      = (fst (mpsc_dequeue (queue s)), D_return (snd (mpsc_dequeue (queue s))))"
proof -
  note i = assms(1) [unfolded mpsc_inv_def]
  have "missing s = {}" by (rule missing_eqI) (use assms(2,3) in \<open>auto simp: in_flight_def\<close>)
  then have c: "chain_ok (mnext (queue s)) {} L" using i by simp
  have q: "in_queue s = concat (map val L)" by (rule inv_in_queue [OF assms(1)])
  obtain nx h t where Q: "queue s = \<lparr>mnext = nx, mhead = h, mtail = t\<rparr>" by (cases "queue s") auto
  have f: "distinct L" "L \<noteq> []" "hd L = t" "last L = h" "chain_ok nx {} L" using i c by (simp_all add: Q)
  note e = enq_clear_def enq_swap_def enq_link_def take_or_def Let_def
  consider (one) "L = [t]" | (more) b M where "L = t # b # M"
    using f by (cases L; cases "tl L") auto
  then have "snd (mpsc_dequeue (queue s)) = (case in_queue s of [] \<Rightarrow> None | n # _ \<Rightarrow> Some (Node n))
    \<and> (\<exists>r. snd (((\<lambda>(q, pc). deq_step pc q) ^^ 7) (queue s, D_start)) = D_return r)"
  proof cases
    case one
    then show ?thesis using f unfolding q Q mpsc_dequeue_def by (cases t) (auto simp: e eval_nat_numeral)
  next
    case more
    show ?thesis
    proof (cases t)
      case Stub
      then obtain n where b: "b = Node n" using f(1) more by (cases b) auto
      show ?thesis using f Stub b unfolding q Q more mpsc_dequeue_def
        by (cases M) (auto simp: e eval_nat_numeral)
    next
      case (Node n)
      show ?thesis using f Node unfolding q Q more mpsc_dequeue_def by (auto simp: e eval_nat_numeral)
    qed
  qed
  then show "snd (mpsc_dequeue (queue s)) = (case in_queue s of [] \<Rightarrow> None | n # _ \<Rightarrow> Some (Node n))"
    and "((\<lambda>(q, pc). deq_step pc q) ^^ 7) (queue s, D_start)
      = (fst (mpsc_dequeue (queue s)), D_return (snd (mpsc_dequeue (queue s))))"
    by (auto simp: mpsc_dequeue_def split_beta prod_eq_iff)
qed


lemma dequeue_reach:
  assumes "mpsc_reach s" "consumer s = D_start" "\<not> in_flight s" "mpsc_dequeue (queue s) = (q, r)"
  obtains s' where "mpsc_reach s'" "queue s' = q" "consumer s' = D_start" "\<not> in_flight s'"
    "in_queue s' = drop (if r = None then 0 else 1) (in_queue s)"
proof -
  obtain L where L: "mpsc_inv L s" using reach_inv [OF assms(1)] by blast
  note d = dequeue_quiet [OF L assms(2,3)]
  from run_reach [OF assms(1), of 7] assms(2) d(2) assms(4) obtain s' where
    s': "mpsc_reach s'" "queue s' = q" "consumer s' = D_return r" "producer s' = producer s"
      "enqd s' = enqd s" "deqd s' = deqd s @ record_return (D_return r)" by auto
  have r: "r = (case in_queue s of [] \<Rightarrow> None | n # _ \<Rightarrow> Some (Node n))" using d(1) assms(4) by simp
  have len: "length (record_return (D_return r)) = (if r = None then 0 else 1)"
    by (auto simp: r split: list.splits)
  have "in_queue s' = drop (if r = None then 0 else 1) (in_queue s)"
    unfolding in_queue_def s'(5,6) length_append len by (simp add: add.commute)
  moreover have "mpsc_reach (s'\<lparr>consumer := D_start\<rparr>)" by (rule reach_step [OF s'(1) step_call [OF s'(3)]])
  ultimately show ?thesis
    using s' assms(3) by (intro that [of "s'\<lparr>consumer := D_start\<rparr>"]) (auto simp: in_queue_def in_flight_def)
qed

text \<open>The consumer's loop: dequeue until \<open>NULL\<close>, at most \<open>k\<close> times.\<close>

fun mpsc_drain :: "nat \<Rightarrow> mpsc_queue \<Rightarrow> mpsc_node list" where
  "mpsc_drain 0 q = []"
| "mpsc_drain (Suc k) q = (case mpsc_dequeue q of (q', None) \<Rightarrow> [] | (q', Some n) \<Rightarrow> n # mpsc_drain k q')"

lemma drain_quiet:
  "mpsc_reach s \<Longrightarrow> consumer s = D_start \<Longrightarrow> \<not> in_flight s
    \<Longrightarrow> mpsc_drain k (queue s) = map Node (take k (in_queue s))"
proof (induction k arbitrary: s)
  case (Suc k)
  obtain L where L: "mpsc_inv L s" using reach_inv [OF Suc.prems(1)] by blast
  obtain q r where d: "mpsc_dequeue (queue s) = (q, r)" by (metis surj_pair)
  have r: "r = (case in_queue s of [] \<Rightarrow> None | n # _ \<Rightarrow> Some (Node n))"
    using dequeue_quiet(1) [OF L Suc.prems(2,3)] d by simp
  from dequeue_reach [OF Suc.prems d] obtain s' where
    s': "mpsc_reach s'" "queue s' = q" "consumer s' = D_start" "\<not> in_flight s'"
      "in_queue s' = drop (if r = None then 0 else 1) (in_queue s)" by blast
  show ?case using Suc.IH [OF s'(1,3,4)] s'(2,5) d r by (cases "in_queue s") auto
qed simp

section \<open>Properties\<close>

text \<open>
  C7. Under every interleaving of producers and consumer the nodes come out in the order of
  the producers' exchanges, none lost and none twice; the queue never holds a node twice;
  and a pending store of a producer, or of the consumer, goes to the stub or to a node the
  queue still holds, never to one already given back to the client.
\<close>

theorem mpsc_fifo:
  assumes "mpsc_reach s"
  shows "enqd s = deqd s @ in_queue s \<and> distinct (in_queue s)
    \<and> (\<forall>t n p. producer s t = P_swapped n p \<longrightarrow> n \<in> set (in_queue s) \<and> set (val p) \<subseteq> set (in_queue s))
    \<and> (\<forall>p. consumer s = D_link p \<longrightarrow> set (val p) \<subseteq> set (in_queue s))"
proof -
  obtain L where L: "mpsc_inv L s" using reach_inv [OF assms] by blast
  note i = L [unfolded mpsc_inv_def] and q = inv_in_queue [OF L]
  have mem: "p \<in> set L \<Longrightarrow> set (val p) \<subseteq> set (in_queue s)" for p unfolding q by auto
  have "p \<in> set L \<and> x \<in> set L" if "(p, x) \<in> missing s" for p x
    using that i pairs_mem list.set_sel(2) by (metis subsetD)
  then have m: "(p, x) \<in> missing s \<Longrightarrow> set (val p) \<subseteq> set (in_queue s) \<and> set (val x) \<subseteq> set (in_queue s)" for p x
    using mem by blast
  have "distinct (concat (map val L))" using conjunct1 [OF i]
  proof (induction L)
    case (Cons a L)
    then show ?case by (cases a) (auto simp: in_val simp del: set_concat)
  qed simp
  then have 1: "enqd s = deqd s @ in_queue s \<and> distinct (in_queue s)" using i unfolding q by blast
  have 2: "n \<in> set (in_queue s) \<and> set (val p) \<subseteq> set (in_queue s)" if "producer s t = P_swapped n p" for t n p
    using m [of p "Node n"] that by (auto simp: missing_iff)
  have 3: "set (val p) \<subseteq> set (in_queue s)" if "consumer s = D_link p" for p
    using m [of p Stub] that by (simp add: missing_iff)
  show ?thesis using 1 2 3 by blast
qed

text \<open>
  C17. When no producer is between its exchange and its store, the queue makes progress: a
  dequeue returns the oldest node, NULL only when there is none, and a loop of dequeues
  delivers the nodes in order and stops when the queue is empty.
\<close>

theorem mpsc_progress:
  assumes "mpsc_reach s" "consumer s = D_start" "\<not> in_flight s"
  shows "snd (mpsc_dequeue (queue s)) = (case in_queue s of [] \<Rightarrow> None | n # _ \<Rightarrow> Some (Node n))
    \<and> mpsc_drain k (queue s) = map Node (take k (in_queue s))"
proof -
  obtain L where L: "mpsc_inv L s" using reach_inv [OF assms(1)] by blast
  show ?thesis using dequeue_quiet(1) [OF L assms(2,3)] drain_quiet [OF assms] by blast
qed

text \<open>Two producers whose steps overlap: the second one exchanges first.\<close>

definition overlap1 :: mpsc_sys where
  "overlap1 = mpsc_start \<lparr>mnext = (\<lambda>_. None), mhead = Stub, mtail = Stub\<rparr>"

definition overlap2 :: mpsc_sys where
  "overlap2 = overlap1\<lparr>queue := enq_clear (queue overlap1) (Node 5), producer := (producer overlap1)(0 := P_ready 5)\<rparr>"

definition overlap3 :: mpsc_sys where
  "overlap3 = overlap2\<lparr>queue := enq_clear (queue overlap2) (Node 7), producer := (producer overlap2)(1 := P_ready 7)\<rparr>"

definition overlap4 :: mpsc_sys where
  "overlap4 = overlap3\<lparr>queue := fst (enq_swap (queue overlap3) (Node 7)),
     producer := (producer overlap3)(1 := P_swapped 7 Stub), enqd := enqd overlap3 @ [7]\<rparr>"

definition overlap5 :: mpsc_sys where
  "overlap5 = overlap4\<lparr>queue := fst (enq_swap (queue overlap4) (Node 5)),
     producer := (producer overlap4)(0 := P_swapped 5 (Node 7)), enqd := enqd overlap4 @ [5]\<rparr>"

definition overlap6 :: mpsc_sys where
  "overlap6 = overlap5\<lparr>queue := enq_link (queue overlap5) (Node 7) (Node 5), producer := (producer overlap5)(0 := P_idle)\<rparr>"

definition overlap7 :: mpsc_sys where
  "overlap7 = overlap6\<lparr>queue := enq_link (queue overlap6) Stub (Node 7), producer := (producer overlap6)(1 := P_idle)\<rparr>"

lemmas overlap_defs = overlap1_def overlap2_def overlap3_def overlap4_def overlap5_def overlap6_def overlap7_def
  mpsc_start_def mpsc_init_def enq_clear_def enq_swap_def enq_link_def in_queue_def in_flight_def

lemma overlap_reach: "mpsc_reach overlap5" "mpsc_reach overlap7"
proof -
  have 1: "mpsc_reach overlap1" unfolding overlap1_def by (rule reach_start)
  have 2: "mpsc_reach overlap2" unfolding overlap2_def
    by (rule reach_step [OF 1 step_clear]) (simp_all add: overlap_defs)
  have 3: "mpsc_reach overlap3" unfolding overlap3_def
    by (rule reach_step [OF 2 step_clear]) (simp_all add: overlap_defs)
  have 4: "mpsc_reach overlap4" unfolding overlap4_def
    by (rule reach_step [OF 3 step_swap]) (simp_all add: overlap_defs)
  show 5: "mpsc_reach overlap5" unfolding overlap5_def
    by (rule reach_step [OF 4 step_swap]) (simp_all add: overlap_defs)
  have 6: "mpsc_reach overlap6" unfolding overlap6_def
    by (rule reach_step [OF 5 step_link]) (simp_all add: overlap_defs)
  show "mpsc_reach overlap7" unfolding overlap7_def
    by (rule reach_step [OF 6 step_link]) (simp_all add: overlap_defs)
qed

theorem mpsc_fifo_witness:
  "enqd overlap5 = [7, 5] \<and> in_queue overlap5 = [7, 5] \<and> producer overlap5 0 = P_swapped 5 (Node 7)"
  using mpsc_fifo [OF overlap_reach(1)] by (simp add: overlap_defs)

theorem mpsc_progress_witness: "mpsc_drain 3 (queue overlap7) = [Node 7, Node 5]"
  using mpsc_progress [OF overlap_reach(2), of 3] by (simp add: overlap_defs)

end
