(* ===== verification/Epoch.thy ===== *)
theory Epoch
  imports Prelude
begin

text \<open>
  Epoch-based reclamation (\<open>epoch.c\<close>, \<open>epoch.h\<close>): the shared epoch and the threads' slots,
  the operations one thread runs, and the interleaving of their atomic accesses with readers
  and writers of a lock-free table.
\<close>

section \<open>State\<close>

definition EPOCH_MAX_THREADS :: nat where "EPOCH_MAX_THREADS = 64"
definition EPOCH_GC_THRESHOLD :: nat where "EPOCH_GC_THRESHOLD = 1024"
definition UINT64_MAX :: u64 where "UINT64_MAX = - 1"

text \<open>A retired pointer with its epoch, in the order of the list, newest first.\<close>

record epoch_retire_node =
  rptr :: nat
  retire_epoch :: u64

record epoch_thread =
  quiescent :: u64
  retire_list :: "epoch_retire_node list"
  retire_count :: nat

record epoch_state =
  epoch_threads :: "epoch_thread list"
  epoch_global :: u64
  epoch_nthreads :: nat

definition epoch_start :: epoch_state where
  "epoch_start = \<lparr>epoch_threads = replicate EPOCH_MAX_THREADS \<lparr>quiescent = 0, retire_list = [], retire_count = 0\<rparr>,
     epoch_global = 1, epoch_nthreads = 0\<rparr>"

definition upd_thread :: "nat \<Rightarrow> (epoch_thread \<Rightarrow> epoch_thread) \<Rightarrow> epoch_state \<Rightarrow> epoch_state" where
  "upd_thread i f s = s\<lparr>epoch_threads := (epoch_threads s)[i := f (epoch_threads s ! i)]\<rparr>"

section \<open>The operations of one thread\<close>

text \<open>\<open>my\<close> is the thread-local \<open>epoch_my_idx\<close>, \<open>None\<close> for \<open>-1\<close>.\<close>

definition epoch_update_quiescent :: "nat \<Rightarrow> epoch_state \<Rightarrow> epoch_state" where
  "epoch_update_quiescent idx s = upd_thread idx (\<lambda>t. t\<lparr>quiescent := epoch_global s\<rparr>) s"

definition epoch_register :: "nat option \<Rightarrow> epoch_state \<Rightarrow> epoch_state \<times> nat option" where
  "epoch_register my s =
     (case my of
        Some i \<Rightarrow> (s, Some i)
      | None \<Rightarrow>
          (let idx = epoch_nthreads s; s1 = s\<lparr>epoch_nthreads := epoch_nthreads s + 1\<rparr> in
           if idx \<ge> EPOCH_MAX_THREADS then (s1\<lparr>epoch_nthreads := epoch_nthreads s1 - 1\<rparr>, None)
           else (upd_thread idx (\<lambda>t. t\<lparr>retire_list := [], retire_count := 0\<rparr>) (epoch_update_quiescent idx s1),
                 Some idx)))"

definition scan_min :: "u64 \<Rightarrow> u64 \<Rightarrow> u64" where
  "scan_min q mn = (if q = 0 then mn else if q < mn then q else mn)"

definition epoch_min_quiescent :: "epoch_state \<Rightarrow> u64" where
  "epoch_min_quiescent s =
     (let n = min (epoch_nthreads s) EPOCH_MAX_THREADS in
      if n = 0 then UINT64_MAX
      else foldl (\<lambda>mn i. scan_min (quiescent (epoch_threads s ! i)) mn) UINT64_MAX [0..<n])"

text \<open>The walk of \<open>epoch_gc\<close>: what stays in the list and what is freed, in order.\<close>

fun gc_walk :: "u64 \<Rightarrow> epoch_retire_node list \<Rightarrow> epoch_retire_node list \<times> nat list" where
  "gc_walk safe [] = ([], [])"
| "gc_walk safe (n # ns) =
     (let (keep, free) = gc_walk safe ns in
      if retire_epoch n < safe then (keep, rptr n # free) else (n # keep, free))"

definition epoch_gc :: "nat option \<Rightarrow> epoch_state \<Rightarrow> epoch_state \<times> nat list" where
  "epoch_gc my s =
     (case my of
        None \<Rightarrow> (s, [])
      | Some i \<Rightarrow>
          (let safe = epoch_min_quiescent s in
           if safe = UINT64_MAX then (s, [])
           else (let (keep, free) = gc_walk safe (retire_list (epoch_threads s ! i)) in
                 (upd_thread i (\<lambda>t. t\<lparr>retire_list := keep, retire_count := retire_count t - length free\<rparr>) s, free))))"

definition epoch_tick :: "nat option \<Rightarrow> epoch_state \<Rightarrow> epoch_state \<times> nat list" where
  "epoch_tick my s =
     (case my of
        None \<Rightarrow> (s, [])
      | Some i \<Rightarrow>
          (let s1 = epoch_update_quiescent i s in
           if retire_count (epoch_threads s1 ! i) \<ge> EPOCH_GC_THRESHOLD then epoch_gc my s1 else (s1, [])))"

text \<open>
  \<open>epoch_retire\<close> of a pointer that is not \<open>NULL\<close>: freed at once by a thread that never
  registered, leaked when no list node can be allocated.
\<close>

definition push_retired :: "nat \<Rightarrow> u64 \<Rightarrow> epoch_thread \<Rightarrow> epoch_thread" where
  "push_retired p r t = t\<lparr>retire_list := \<lparr>rptr = p, retire_epoch = r\<rparr> # retire_list t, retire_count := retire_count t + 1\<rparr>"

definition epoch_retire :: "bool \<Rightarrow> nat \<Rightarrow> nat option \<Rightarrow> epoch_state \<Rightarrow> epoch_state \<times> nat list" where
  "epoch_retire alloc p my s =
     (case my of
        None \<Rightarrow> (s, [p])
      | Some i \<Rightarrow>
          (let r = epoch_global s; s1 = s\<lparr>epoch_global := epoch_global s + 1\<rparr> in
           if \<not> alloc then (s1, []) else (upd_thread i (push_retired p r) s1, [])))"

definition epoch_drain_all :: "nat option \<Rightarrow> epoch_state \<Rightarrow> epoch_state \<times> nat list" where
  "epoch_drain_all my s =
     (case my of
        None \<Rightarrow> (s, [])
      | Some i \<Rightarrow> (upd_thread i (\<lambda>t. t\<lparr>retire_list := [], retire_count := 0\<rparr>) s,
                   map rptr (retire_list (epoch_threads s ! i))))"

lemma gc_walk_filter:
  "gc_walk safe ns = (filter (\<lambda>n. \<not> retire_epoch n < safe) ns, map rptr (filter (\<lambda>n. retire_epoch n < safe) ns))"
  by (induction ns) auto

section \<open>Threads interleaved\<close>

text \<open>
  Where a thread is: running, between the steps of registration and of a tick (the epoch it
  loaded), between unlinking a pointer and retiring it, and in the scan of \<open>epoch_gc\<close>.
\<close>

datatype epoch_pc =
    E_run
  | E_seed
  | E_seed_store u64
  | E_store u64
  | E_unlinked nat
  | E_scan nat nat u64

text \<open>
  A pointer is published in the table once; \<open>held\<close> are the pointers a thread loaded since
  its last quiescent point; \<open>rolling\<close> counts the failed registrations not yet undone and
  \<open>retires\<close> all increments of the global epoch.
\<close>

record epoch_sys =
  es :: epoch_state
  my_idx :: "nat \<Rightarrow> nat option"
  epc :: "nat \<Rightarrow> epoch_pc"
  held :: "nat \<Rightarrow> nat set"
  published :: "nat set"
  ever :: "nat set"
  freed :: "nat set"
  rolling :: nat
  retires :: nat

abbreviation thr :: "epoch_sys \<Rightarrow> nat \<Rightarrow> epoch_thread" where
  "thr s i \<equiv> epoch_threads (es s) ! i"

inductive epoch_step :: "epoch_sys \<Rightarrow> epoch_sys \<Rightarrow> bool" where
  es_register: "my_idx s t = None \<Longrightarrow> epoch_nthreads (es s) < EPOCH_MAX_THREADS
    \<Longrightarrow> epoch_step s (s\<lparr>es := (es s)\<lparr>epoch_nthreads := epoch_nthreads (es s) + 1\<rparr>,
          my_idx := (my_idx s)(t := Some (epoch_nthreads (es s))), epc := (epc s)(t := E_seed)\<rparr>)"
| es_full: "epoch_nthreads (es s) \<ge> EPOCH_MAX_THREADS
    \<Longrightarrow> epoch_step s (s\<lparr>es := (es s)\<lparr>epoch_nthreads := epoch_nthreads (es s) + 1\<rparr>, rolling := rolling s + 1\<rparr>)"
| es_rollback: "rolling s = Suc k
    \<Longrightarrow> epoch_step s (s\<lparr>es := (es s)\<lparr>epoch_nthreads := epoch_nthreads (es s) - 1\<rparr>, rolling := k\<rparr>)"
| es_seed_load: "my_idx s t = Some i \<Longrightarrow> epc s t = E_seed
    \<Longrightarrow> epoch_step s (s\<lparr>epc := (epc s)(t := E_seed_store (epoch_global (es s)))\<rparr>)"
| es_seed_store: "my_idx s t = Some i \<Longrightarrow> epc s t = E_seed_store g
    \<Longrightarrow> epoch_step s (s\<lparr>es := upd_thread i (\<lambda>th. th\<lparr>quiescent := g, retire_list := [], retire_count := 0\<rparr>) (es s),
          epc := (epc s)(t := E_run)\<rparr>)"
| es_tick_load: "my_idx s t = Some i \<Longrightarrow> epc s t = E_run
    \<Longrightarrow> epoch_step s (s\<lparr>held := (held s)(t := {}), epc := (epc s)(t := E_store (epoch_global (es s)))\<rparr>)"
| es_tick_store: "my_idx s t = Some i \<Longrightarrow> epc s t = E_store g
    \<Longrightarrow> epoch_step s (s\<lparr>es := upd_thread i (\<lambda>th. th\<lparr>quiescent := g\<rparr>) (es s), epc := (epc s)(t := E_run)\<rparr>)"
| es_load: "my_idx s t = Some i \<Longrightarrow> epc s t = E_run \<Longrightarrow> p \<in> published s
    \<Longrightarrow> epoch_step s (s\<lparr>held := (held s)(t := insert p (held s t))\<rparr>)"
| es_publish: "p \<notin> ever s \<Longrightarrow> epoch_step s (s\<lparr>published := insert p (published s), ever := insert p (ever s)\<rparr>)"
| es_unlink: "my_idx s t = Some i \<Longrightarrow> epc s t = E_run \<Longrightarrow> p \<in> published s
    \<Longrightarrow> epoch_step s (s\<lparr>published := published s - {p}, epc := (epc s)(t := E_unlinked p)\<rparr>)"
| es_retire: "my_idx s t = Some i \<Longrightarrow> epc s t = E_unlinked p \<Longrightarrow> epoch_retire alloc p (Some i) (es s) = (e, fs)
    \<Longrightarrow> epoch_step s (s\<lparr>es := e, epc := (epc s)(t := E_run), retires := retires s + 1\<rparr>)"
| es_gc: "my_idx s t = Some i \<Longrightarrow> epc s t = E_run
    \<Longrightarrow> epoch_step s (s\<lparr>epc := (epc s)(t := E_scan 0 (min (epoch_nthreads (es s)) EPOCH_MAX_THREADS) UINT64_MAX)\<rparr>)"
| es_scan: "my_idx s t = Some i \<Longrightarrow> epc s t = E_scan j n mn \<Longrightarrow> j < n
    \<Longrightarrow> epoch_step s (s\<lparr>epc := (epc s)(t := E_scan (j + 1) n (scan_min (quiescent (thr s j)) mn))\<rparr>)"
| es_gc_none: "my_idx s t = Some i \<Longrightarrow> epc s t = E_scan n n mn \<Longrightarrow> mn = UINT64_MAX
    \<Longrightarrow> epoch_step s (s\<lparr>epc := (epc s)(t := E_run)\<rparr>)"
| es_gc_free: "my_idx s t = Some i \<Longrightarrow> epc s t = E_scan n n mn \<Longrightarrow> mn \<noteq> UINT64_MAX
    \<Longrightarrow> gc_walk mn (retire_list (thr s i)) = (keep, fs)
    \<Longrightarrow> epoch_step s (s\<lparr>es := upd_thread i (\<lambda>th. th\<lparr>retire_list := keep, retire_count := retire_count th - length fs\<rparr>) (es s),
          freed := freed s \<union> set fs, epc := (epc s)(t := E_run)\<rparr>)"

definition epoch_sys_start :: epoch_sys where
  "epoch_sys_start = \<lparr>es = epoch_start, my_idx = (\<lambda>_. None), epc = (\<lambda>_. E_run), held = (\<lambda>_. {}),
     published = {}, ever = {}, freed = {}, rolling = 0, retires = 0\<rparr>"

inductive epoch_reach :: "epoch_sys \<Rightarrow> bool" where
  er_start: "epoch_reach epoch_sys_start"
| er_step: "epoch_reach s \<Longrightarrow> epoch_step s s' \<Longrightarrow> epoch_reach s'"


section \<open>The invariant\<close>

lemma length_upd [simp]: "length (epoch_threads (upd_thread i f e)) = length (epoch_threads e)"
  by (simp add: upd_thread_def)

lemma upd_others [simp]: "epoch_global (upd_thread i f e) = epoch_global e" "epoch_nthreads (upd_thread i f e) = epoch_nthreads e"
  by (simp_all add: upd_thread_def)

lemma nth_upd: "i < length (epoch_threads e)
    \<Longrightarrow> epoch_threads (upd_thread i f e) ! j = (if j = i then f (epoch_threads e ! i) else epoch_threads e ! j)"
  by (simp add: upd_thread_def)

lemma retire_cases:
  assumes "epoch_retire alloc p (Some i) e = (e', fs)" "i < length (epoch_threads e)"
  shows "epoch_global e' = epoch_global e + 1" "epoch_nthreads e' = epoch_nthreads e"
    "length (epoch_threads e') = length (epoch_threads e)"
    "quiescent (epoch_threads e' ! j) = quiescent (epoch_threads e ! j)"
    "set (retire_list (epoch_threads e' ! j)) \<subseteq> set (retire_list (epoch_threads e ! j))
       \<union> (if j = i then {\<lparr>rptr = p, retire_epoch = epoch_global e\<rparr>} else {})"
  using assms by (auto simp: epoch_retire_def Let_def push_retired_def upd_thread_def nth_list_update split: if_splits)

text \<open>Registration: every registered thread has a slot of its own, counted in the number of threads.\<close>

definition inv_idx :: "epoch_sys \<Rightarrow> bool" where
  "inv_idx s =
     (length (epoch_threads (es s)) = EPOCH_MAX_THREADS
      \<and> rolling s \<le> epoch_nthreads (es s) \<and> epoch_nthreads (es s) - rolling s \<le> EPOCH_MAX_THREADS
      \<and> (rolling s > 0 \<longrightarrow> epoch_nthreads (es s) - rolling s = EPOCH_MAX_THREADS)
      \<and> (\<forall>t i. my_idx s t = Some i \<longrightarrow> i < epoch_nthreads (es s) - rolling s)
      \<and> (\<forall>t u i. my_idx s t = Some i \<longrightarrow> my_idx s u = Some i \<longrightarrow> t = u)
      \<and> (\<forall>t. my_idx s t = None \<longrightarrow> epc s t = E_run \<and> held s t = {}))"

lemma inv_idx_slot: "inv_idx s \<Longrightarrow> my_idx s t = Some i \<Longrightarrow> i < length (epoch_threads (es s)) \<and> i < EPOCH_MAX_THREADS \<and> i < epoch_nthreads (es s)"
  unfolding inv_idx_def by fastforce

lemma inv_idx_step: "epoch_step s s' \<Longrightarrow> inv_idx s \<Longrightarrow> inv_idx s'"
proof (induction rule: epoch_step.induct)
  case (es_register s t)
  then have "rolling s = 0" by (auto simp: inv_idx_def)
  then show ?case using es_register by (auto simp: inv_idx_def less_Suc_eq)
next
  case (es_retire s t i p alloc e fs)
  then show ?case using retire_cases [OF es_retire(3)] inv_idx_slot [OF es_retire(4,1)] by (auto simp: inv_idx_def)
qed (auto simp: inv_idx_def)

text \<open>Pointers: what is unlinked, retired or freed was published and is no longer.\<close>

definition inv_ptr :: "epoch_sys \<Rightarrow> bool" where
  "inv_ptr s =
     (published s \<subseteq> ever s \<and> freed s \<subseteq> ever s - published s
      \<and> (\<forall>t p. epc s t = E_unlinked p \<longrightarrow> p \<in> ever s - published s)
      \<and> (\<forall>i < EPOCH_MAX_THREADS. \<forall>n \<in> set (retire_list (thr s i)). rptr n \<in> ever s - published s))"

lemma inv_ptr_step: "epoch_step s s' \<Longrightarrow> inv_idx s \<Longrightarrow> inv_ptr s \<Longrightarrow> inv_ptr s'"
proof (induction rule: epoch_step.induct)
  case (es_retire s t i p alloc e fs)
  note c = retire_cases [OF es_retire(3) conjunct1 [OF inv_idx_slot [OF es_retire(4,1)]]]
  have "rptr n \<in> ever s - published s" if "j < EPOCH_MAX_THREADS" "n \<in> set (retire_list (epoch_threads e ! j))" for j n
    using subsetD [OF c(5) that(2)] that(1) es_retire(2,5) by (auto simp: inv_ptr_def split: if_splits)
  then show ?case using es_retire(2,5) by (auto simp: inv_ptr_def)
next
  case (es_gc_free s t i n mn keep fs)
  note sl = inv_idx_slot [OF es_gc_free(5,1)]
  have k: "keep = filter (\<lambda>n. \<not> retire_epoch n < mn) (retire_list (thr s i))"
    "fs = map rptr (filter (\<lambda>n. retire_epoch n < mn) (retire_list (thr s i)))"
    using es_gc_free(4) by (simp_all add: gc_walk_filter)
  show ?case using es_gc_free(6) sl unfolding k by (auto simp: inv_ptr_def nth_upd)
next
  case (es_seed_store s t i g)
  then show ?case using inv_idx_slot [OF es_seed_store(3,1)] by (auto simp: inv_ptr_def nth_upd)
next
  case (es_tick_store s t i g)
  then show ?case using inv_idx_slot [OF es_tick_store(3,1)] by (auto simp: inv_ptr_def nth_upd)
qed (auto simp: inv_ptr_def)


text \<open>Epochs: a thread's view never exceeds the shared epoch, which counts the retirements.\<close>

fun fresh_pc :: "epoch_pc \<Rightarrow> bool" where
  "fresh_pc E_seed = True"
| "fresh_pc (E_seed_store g) = True"
| "fresh_pc pc = False"

fun loaded_epoch :: "epoch_pc \<Rightarrow> u64 option" where
  "loaded_epoch (E_seed_store g) = Some g"
| "loaded_epoch (E_store g) = Some g"
| "loaded_epoch pc = None"

definition inv_epoch :: "epoch_sys \<Rightarrow> bool" where
  "inv_epoch s =
     (unat (epoch_global (es s)) = retires s + 1
      \<and> (\<forall>i < EPOCH_MAX_THREADS. quiescent (thr s i) \<le> epoch_global (es s))
      \<and> (\<forall>t g. loaded_epoch (epc s t) = Some g \<longrightarrow> 1 \<le> g \<and> g \<le> epoch_global (es s))
      \<and> (\<forall>t i. my_idx s t = Some i \<longrightarrow> \<not> fresh_pc (epc s t) \<longrightarrow> 1 \<le> quiescent (thr s i)))"

lemma global_next:
  assumes "unat g = n + 1" "Suc n < 2 ^ 64 - 1"
  shows "unat (g + 1 :: u64) = Suc n + 1" "g \<le> g + 1" "1 \<le> g"
proof -
  have "unat g + 1 < 2 ^ 64" using assms by simp
  then have *: "unat (g + 1) = unat g + 1"
    by (simp add: unat_word_ariths)
  then show "unat (g + 1) = Suc n + 1" using assms(1) by simp
  show "g \<le> g + 1" using * by (simp add: word_le_nat_alt)
  show "1 \<le> g" using assms(1) by (simp add: word_le_nat_alt)
qed

lemma global_pos: "inv_epoch s \<Longrightarrow> 1 \<le> epoch_global (es s)"
  by (simp add: inv_epoch_def word_le_nat_alt)

lemma inv_epoch_store:
  assumes "inv_idx s" "inv_epoch s" "my_idx s t = Some i" "loaded_epoch (epc s t) = Some g" "\<And>th. quiescent (f th) = g"
  shows "inv_epoch (s\<lparr>es := upd_thread i f (es s), epc := (epc s)(t := E_run)\<rparr>)"
proof -
  let ?s = "s\<lparr>es := upd_thread i f (es s), epc := (epc s)(t := E_run)\<rparr>"
  note e = assms(2) [unfolded inv_epoch_def]
  have g: "1 \<le> g" "g \<le> epoch_global (es s)" using e assms(4) by blast+
  have th: "quiescent (thr ?s j) = (if j = i then g else quiescent (thr s j))" for j
    using inv_idx_slot [OF assms(1,3)] assms(5) by (simp add: nth_upd)
  have uq: "u = t" if "my_idx s u = Some i" for u
    using assms(1,3) that unfolding inv_idx_def by blast
  have 4: "1 \<le> quiescent (thr ?s j)" if "my_idx s u = Some j" "\<not> fresh_pc (epc ?s u)" for u j
  proof (cases "j = i")
    case True
    then show ?thesis using th g by simp
  next
    case False
    then have "u \<noteq> t" using that(1) assms(3) by auto
    then show ?thesis using th False e that by simp
  qed
  have 3: "1 \<le> g' \<and> g' \<le> epoch_global (es ?s)" if "loaded_epoch (epc ?s u) = Some g'" for u g'
    using e that by (cases "u = t") simp_all
  show ?thesis unfolding inv_epoch_def using e th g 3 4 by simp
qed

lemma inv_epoch_step: "epoch_step s s' \<Longrightarrow> inv_idx s \<Longrightarrow> inv_epoch s \<Longrightarrow> retires s' < 2 ^ 64 - 1 \<Longrightarrow> inv_epoch s'"
proof (induction rule: epoch_step.induct)
  case (es_retire s t i p alloc e fs)
  note c = retire_cases [OF es_retire(3) conjunct1 [OF inv_idx_slot [OF es_retire(4,1)]]]
  have u: "unat (epoch_global (es s)) = retires s + 1" using es_retire(5) by (simp add: inv_epoch_def)
  have b: "Suc (retires s) < 2 ^ 64 - 1" using es_retire(6) by simp
  note g = global_next [OF u b]
  show ?case using es_retire(1,2,5) c(1,4) g order_trans [OF _ g(2)] by (auto simp: inv_epoch_def)
next
  case (es_gc_free s t i n mn keep fs)
  then show ?case using inv_idx_slot [OF es_gc_free(5,1)] by (auto simp: inv_epoch_def nth_upd)
next
  case (es_seed_store s t i g)
  then show ?case by (intro inv_epoch_store [where g = g]) simp_all
next
  case (es_tick_store s t i g)
  then show ?case by (intro inv_epoch_store [where g = g]) simp_all
next
  case (es_seed_load s t i)
  then show ?case using global_pos [OF es_seed_load(4)] by (auto simp: inv_epoch_def)
next
  case (es_tick_load s t i)
  then show ?case using global_pos [OF es_tick_load(4)] by (auto simp: inv_epoch_def)
qed (auto simp: inv_epoch_def)

text \<open>
  Held pointers: none is freed, and one that is in a retire list was retired at an epoch
  not below its holder's view.
\<close>

fun away :: "epoch_pc \<Rightarrow> bool" where
  "away E_seed = True"
| "away (E_seed_store g) = True"
| "away (E_store g) = True"
| "away pc = False"

definition inv_hold :: "epoch_sys \<Rightarrow> bool" where
  "inv_hold s =
     ((\<forall>t. away (epc s t) \<longrightarrow> held s t = {})
      \<and> (\<forall>t. held s t \<subseteq> ever s) \<and> (\<forall>t. held s t \<inter> freed s = {})
      \<and> (\<forall>t i j n. my_idx s t = Some i \<longrightarrow> j < EPOCH_MAX_THREADS \<longrightarrow> n \<in> set (retire_list (thr s j))
            \<longrightarrow> rptr n \<in> held s t \<longrightarrow> quiescent (thr s i) \<le> retire_epoch n))"

text \<open>
  The scan: a pointer of the scanning thread's list that is held by a thread whose slot has
  been read, or that registered after the scan began, survives it.
\<close>

definition inv_scan :: "epoch_sys \<Rightarrow> bool" where
  "inv_scan s =
     ((\<forall>u k m mn. epc s u = E_scan k m mn \<longrightarrow> k \<le> m \<and> m \<le> EPOCH_MAX_THREADS)
      \<and> (\<forall>u i k m mn t j n. my_idx s u = Some i \<longrightarrow> epc s u = E_scan k m mn \<longrightarrow> my_idx s t = Some j
            \<longrightarrow> j < k \<or> m \<le> j \<longrightarrow> n \<in> set (retire_list (thr s i)) \<longrightarrow> rptr n \<in> held s t \<longrightarrow> mn \<le> retire_epoch n))"

lemma unpublished: "inv_idx s \<Longrightarrow> inv_ptr s \<Longrightarrow> my_idx s t = Some i \<Longrightarrow> n \<in> set (retire_list (thr s i)) \<Longrightarrow> rptr n \<notin> published s"
  using inv_idx_slot [of s t i] by (auto simp: inv_ptr_def)


lemma one_slot_each: "inv_idx s \<Longrightarrow> my_idx s t = Some i \<Longrightarrow> my_idx s u = Some i \<Longrightarrow> u = t"
  unfolding inv_idx_def by blast

lemma in_list_unpublished: "inv_ptr s \<Longrightarrow> j < EPOCH_MAX_THREADS \<Longrightarrow> n \<in> set (retire_list (thr s j)) \<Longrightarrow> rptr n \<notin> published s"
  by (auto simp: inv_ptr_def)

lemma inv_holdI:
  assumes "\<And>t. away (epc s t) \<Longrightarrow> held s t = {}" "\<And>t. held s t \<subseteq> ever s" "\<And>t. held s t \<inter> freed s = {}"
    and "\<And>t i j n. my_idx s t = Some i \<Longrightarrow> j < EPOCH_MAX_THREADS \<Longrightarrow> n \<in> set (retire_list (thr s j))
      \<Longrightarrow> rptr n \<in> held s t \<Longrightarrow> quiescent (thr s i) \<le> retire_epoch n"
  shows "inv_hold s"
  using assms unfolding inv_hold_def by blast

lemma inv_holdD:
  assumes "inv_hold s"
  shows "away (epc s t) \<Longrightarrow> held s t = {}" "held s t \<subseteq> ever s" "held s t \<inter> freed s = {}"
    and "my_idx s t = Some i \<Longrightarrow> j < EPOCH_MAX_THREADS \<Longrightarrow> n \<in> set (retire_list (thr s j))
      \<Longrightarrow> rptr n \<in> held s t \<Longrightarrow> quiescent (thr s i) \<le> retire_epoch n"
  using assms unfolding inv_hold_def by blast+

text \<open>Changing the slot of a thread that holds nothing.\<close>

lemma inv_hold_store:
  assumes "inv_idx s" "inv_hold s" "my_idx s t = Some i" "away (epc s t)"
    and "\<And>th. set (retire_list (f th)) \<subseteq> set (retire_list th)"
  shows "inv_hold (s\<lparr>es := upd_thread i f (es s), epc := (epc s)(t := E_run)\<rparr>)"
proof (rule inv_holdI)
  let ?s = "s\<lparr>es := upd_thread i f (es s), epc := (epc s)(t := E_run)\<rparr>"
  note h = inv_holdD [OF assms(2)]
  have th: "thr ?s j = (if j = i then f (thr s j) else thr s j)" for j
    using inv_idx_slot [OF assms(1,3)] by (simp add: nth_upd)
  show "held ?s u = {}" if "away (epc ?s u)" for u using that h(1) [of u] by (cases "u = t") simp_all
  show "held ?s u \<subseteq> ever ?s" "held ?s u \<inter> freed ?s = {}" for u using h(2,3) [of u] by simp_all
  show "quiescent (thr ?s k) \<le> retire_epoch n"
    if "my_idx ?s u = Some k" "j < EPOCH_MAX_THREADS" "n \<in> set (retire_list (thr ?s j))" "rptr n \<in> held ?s u" for u k j n
  proof (cases "k = i")
    case True
    then have "u = t" using one_slot_each [OF assms(1,3), of u] that(1) by simp
    then have "held s u = {}" using h(1) [OF assms(4)] by simp
    then show ?thesis using that(4) by simp
  next
    case False
    have "n \<in> set (retire_list (thr s j))" using that(3) assms(5) [of "thr s j"] th by (auto split: if_splits)
    then show ?thesis using h(4) [of u k j n] that False th by simp
  qed
qed

lemma inv_hold_step:
  "epoch_step s s' \<Longrightarrow> inv_idx s \<Longrightarrow> inv_ptr s \<Longrightarrow> inv_epoch s \<Longrightarrow> inv_scan s \<Longrightarrow> inv_hold s \<Longrightarrow> inv_hold s'"
proof (induction rule: epoch_step.induct)
  case (es_register s t)
  note h = inv_holdD [OF es_register(7)]
  have n: "held s t = {}" using es_register(1,3) by (simp add: inv_idx_def)
  show ?case by (rule inv_holdI) (use h n in \<open>auto split: if_splits\<close>)
next
  case (es_seed_store s t i g)
  show ?case by (rule inv_hold_store [OF es_seed_store(3,7,1)]) (use es_seed_store(2) in simp_all)
next
  case (es_tick_store s t i g)
  show ?case by (rule inv_hold_store [OF es_tick_store(3,7,1)]) (use es_tick_store(2) in simp_all)
next
  case (es_load s t i p)
  note h = inv_holdD [OF es_load(8)]
  have p: "p \<in> ever s" "p \<notin> freed s" using es_load(3,5) by (auto simp: inv_ptr_def)
  have l: "rptr n \<noteq> p" if "j < EPOCH_MAX_THREADS" "n \<in> set (retire_list (thr s j))" for j n
    using in_list_unpublished [OF es_load(5) that] es_load(3) by auto
  show ?case
  proof (rule inv_holdI)
    let ?s = "s\<lparr>held := (held s)(t := insert p (held s t))\<rparr>"
    show "held ?s u = {}" if "away (epc ?s u)" for u using that h(1) [of u] es_load(2) by (cases "u = t") simp_all
    show "held ?s u \<subseteq> ever ?s" "held ?s u \<inter> freed ?s = {}" for u using h(2,3) [of u] p by (cases "u = t", simp_all)+
    show "quiescent (thr ?s k) \<le> retire_epoch n"
      if "my_idx ?s u = Some k" "j < EPOCH_MAX_THREADS" "n \<in> set (retire_list (thr ?s j))" "rptr n \<in> held ?s u" for u k j n
      using that h(4) [of u k j n] l [of j n] by (cases "u = t") simp_all
  qed
next
  case (es_tick_load s t i)
  note h = inv_holdD [OF es_tick_load(7)]
  show ?case by (rule inv_holdI) (use h in \<open>auto split: if_splits\<close>)
next
  case (es_publish p s)
  note h = inv_holdD [OF es_publish(6)]
  show ?case by (rule inv_holdI) (use h in \<open>auto split: if_splits\<close>)
next
  case (es_retire s t i p alloc e fs)
  note h = inv_holdD [OF es_retire(8)]
  note c = retire_cases [OF es_retire(3) conjunct1 [OF inv_idx_slot [OF es_retire(4,1)]]]
  let ?s = "s\<lparr>es := e, epc := (epc s)(t := E_run), retires := retires s + 1\<rparr>"
  show ?case
  proof (rule inv_holdI)
    show "held ?s u = {}" if "away (epc ?s u)" for u using that h(1) [of u] by (cases "u = t") simp_all
    show "held ?s u \<subseteq> ever ?s" "held ?s u \<inter> freed ?s = {}" for u using h(2,3) [of u] by simp_all
    show "quiescent (thr ?s k) \<le> retire_epoch n"
      if "my_idx ?s u = Some k" "j < EPOCH_MAX_THREADS" "n \<in> set (retire_list (thr ?s j))" "rptr n \<in> held ?s u" for u k j n
    proof -
      have "k < EPOCH_MAX_THREADS" using inv_idx_slot [OF es_retire(4), of u k] that(1) by simp
      then have q: "quiescent (thr s k) \<le> epoch_global (es s)" using es_retire(6) by (simp add: inv_epoch_def)
      have "n \<in> set (retire_list (thr s j)) \<or> retire_epoch n = epoch_global (es s)"
        using subsetD [OF c(5), of n j] that(3) by (auto split: if_splits)
      then show ?thesis using q h(4) [of u k j n] that c(4) by auto
    qed
  qed
next
  case (es_gc_free s t i n mn keep fs)
  note h = inv_holdD [OF es_gc_free(9)]
  note sl = inv_idx_slot [OF es_gc_free(5,1)]
  have k: "keep = filter (\<lambda>n. \<not> retire_epoch n < mn) (retire_list (thr s i))"
    "fs = map rptr (filter (\<lambda>n. retire_epoch n < mn) (retire_list (thr s i)))"
    using es_gc_free(4) by (simp_all add: gc_walk_filter)
  let ?f = "\<lambda>th. th\<lparr>retire_list := keep, retire_count := retire_count th - length fs\<rparr>"
  let ?s = "s\<lparr>es := upd_thread i ?f (es s), freed := freed s \<union> set fs, epc := (epc s)(t := E_run)\<rparr>"
  have out: "p \<notin> held s u" if pf: "p \<in> set fs" for p u
  proof
    assume hp: "p \<in> held s u"
    then obtain j where j: "my_idx s u = Some j" using es_gc_free(5) unfolding inv_idx_def by (metis empty_iff option.exhaust)
    obtain x where x: "x \<in> set (retire_list (thr s i))" "rptr x = p" "retire_epoch x < mn" using pf unfolding k by auto
    have "j < n \<or> n \<le> j" by arith
    then have "mn \<le> retire_epoch x" using es_gc_free(1,2,8) j x hp unfolding inv_scan_def by blast
    then show False using x(3) by simp
  qed
  have th: "set (retire_list (thr ?s j)) \<subseteq> set (retire_list (thr s j))" "quiescent (thr ?s j) = quiescent (thr s j)" for j
    using sl by (auto simp: nth_upd k)
  show ?case
  proof (rule inv_holdI)
    show "held ?s u = {}" if "away (epc ?s u)" for u using that h(1) [of u] by (cases "u = t") simp_all
    show "held ?s u \<subseteq> ever ?s" for u using h(2) [of u] by simp
    show "held ?s u \<inter> freed ?s = {}" for u using h(3) [of u] out by auto
    show "quiescent (thr ?s k) \<le> retire_epoch n"
      if "my_idx ?s u = Some k" "j < EPOCH_MAX_THREADS" "n \<in> set (retire_list (thr ?s j))" "rptr n \<in> held ?s u" for u k j n
      unfolding th(2) using h(4) [of u k j n] that th(1) [of j] by auto
  qed
qed (auto simp: inv_hold_def)


lemma inv_scanI:
  assumes "\<And>u k m mn. epc s u = E_scan k m mn \<Longrightarrow> k \<le> m \<and> m \<le> EPOCH_MAX_THREADS"
    and "\<And>u i k m mn t j n. my_idx s u = Some i \<Longrightarrow> epc s u = E_scan k m mn \<Longrightarrow> my_idx s t = Some j \<Longrightarrow> j < k \<or> m \<le> j
      \<Longrightarrow> n \<in> set (retire_list (thr s i)) \<Longrightarrow> rptr n \<in> held s t \<Longrightarrow> mn \<le> retire_epoch n"
  shows "inv_scan s"
  using assms unfolding inv_scan_def by blast

lemma inv_scanD:
  assumes "inv_scan s"
  shows "epc s u = E_scan k m mn \<Longrightarrow> k \<le> m \<and> m \<le> EPOCH_MAX_THREADS"
    and "my_idx s u = Some i \<Longrightarrow> epc s u = E_scan k m mn \<Longrightarrow> my_idx s t = Some j \<Longrightarrow> j < k \<or> m \<le> j
      \<Longrightarrow> n \<in> set (retire_list (thr s i)) \<Longrightarrow> rptr n \<in> held s t \<Longrightarrow> mn \<le> retire_epoch n"
  using assms unfolding inv_scan_def by blast+

text \<open>A step that adds no scan, no held pointer and nothing to a scanning thread's list.\<close>

lemma inv_scan_mono:
  assumes "inv_scan s" "\<And>u k m mn. epc s' u = E_scan k m mn \<Longrightarrow> epc s u = E_scan k m mn \<and> my_idx s u = my_idx s' u"
    and "\<And>u. held s' u \<noteq> {} \<Longrightarrow> my_idx s' u = my_idx s u" "\<And>u. held s' u \<subseteq> held s u"
    and "\<And>u i k m mn. my_idx s' u = Some i \<Longrightarrow> epc s' u = E_scan k m mn
      \<Longrightarrow> set (retire_list (thr s' i)) \<subseteq> set (retire_list (thr s i))"
  shows "inv_scan s'"
proof (rule inv_scanI)
  show "k \<le> m \<and> m \<le> EPOCH_MAX_THREADS" if "epc s' u = E_scan k m mn" for u k m mn
    using assms(2) [OF that] inv_scanD(1) [OF assms(1)] by blast
  show "mn \<le> retire_epoch n"
    if "my_idx s' u = Some i" "epc s' u = E_scan k m mn" "my_idx s' t = Some j" "j < k \<or> m \<le> j"
      "n \<in> set (retire_list (thr s' i))" "rptr n \<in> held s' t" for u i k m mn t j n
  proof -
    have "held s' t \<noteq> {}" using that(6) by blast
    then have "my_idx s t = Some j" using assms(3) that(3) by metis
    moreover have "my_idx s u = Some i" "epc s u = E_scan k m mn" using assms(2) [OF that(2)] that(1) by simp_all
    ultimately show ?thesis
      using inv_scanD(2) [OF assms(1)] that(4,6) subsetD [OF assms(5) [OF that(1,2)] that(5)] assms(4) [of t] by blast
  qed
qed

lemma scan_min_le: "scan_min q mn \<le> mn" "q \<noteq> 0 \<Longrightarrow> scan_min q mn \<le> q"
  by (auto simp: scan_min_def)

lemma inv_scan_step:
  "epoch_step s s' \<Longrightarrow> inv_idx s \<Longrightarrow> inv_ptr s \<Longrightarrow> inv_epoch s \<Longrightarrow> inv_hold s \<Longrightarrow> inv_scan s \<Longrightarrow> inv_scan s'"
proof (induction rule: epoch_step.induct)
  case (es_register s t)
  have n: "held s t = {}" using es_register(1,3) by (simp add: inv_idx_def)
  show ?case by (rule inv_scan_mono [OF es_register(7)]) (use n in \<open>auto split: if_splits\<close>)
next
  case (es_full s)
  show ?case by (rule inv_scan_mono [OF es_full(6)]) auto
next
  case (es_rollback s k)
  show ?case by (rule inv_scan_mono [OF es_rollback(6)]) auto
next
  case (es_seed_load s t i)
  show ?case by (rule inv_scan_mono [OF es_seed_load(7)]) (auto split: if_splits)
next
  case (es_seed_store s t i g)
  show ?case by (rule inv_scan_mono [OF es_seed_store(7)])
    (use inv_idx_slot [OF es_seed_store(3,1)] in \<open>auto simp: nth_upd split: if_splits\<close>)
next
  case (es_tick_load s t i)
  show ?case by (rule inv_scan_mono [OF es_tick_load(7)]) (auto split: if_splits)
next
  case (es_tick_store s t i g)
  show ?case by (rule inv_scan_mono [OF es_tick_store(7)])
    (use inv_idx_slot [OF es_tick_store(3,1)] in \<open>auto simp: nth_upd split: if_splits\<close>)
next
  case (es_load s t i p)
  have l: "rptr n \<noteq> p" if "my_idx s u = Some j" "n \<in> set (retire_list (thr s j))" for u j n
    using unpublished [OF es_load(4,5) that] es_load(3) by auto
  let ?s = "s\<lparr>held := (held s)(t := insert p (held s t))\<rparr>"
  show ?case
  proof (rule inv_scanI)
    show "k \<le> m \<and> m \<le> EPOCH_MAX_THREADS" if "epc ?s u = E_scan k m mn" for u k m mn
      using inv_scanD(1) [OF es_load(8)] that by simp
    show "mn \<le> retire_epoch n"
      if "my_idx ?s u = Some i" "epc ?s u = E_scan k m mn" "my_idx ?s v = Some j" "j < k \<or> m \<le> j"
        "n \<in> set (retire_list (thr ?s i))" "rptr n \<in> held ?s v" for u i k m mn v j n
      using inv_scanD(2) [OF es_load(8), of u i k m mn v j n] l [of u i n] that by (simp split: if_splits)
  qed
next
  case (es_publish p s)
  show ?case by (rule inv_scan_mono [OF es_publish(6)]) auto
next
  case (es_unlink s t i p)
  show ?case by (rule inv_scan_mono [OF es_unlink(8)]) (auto split: if_splits)
next
  case (es_retire s t i p alloc e fs)
  note c = retire_cases [OF es_retire(3) conjunct1 [OF inv_idx_slot [OF es_retire(4,1)]]]
  show ?case
  proof (rule inv_scan_mono [OF es_retire(8)])
    let ?s = "s\<lparr>es := e, epc := (epc s)(t := E_run), retires := retires s + 1\<rparr>"
    show "set (retire_list (thr ?s j)) \<subseteq> set (retire_list (thr s j))"
      if "my_idx ?s u = Some j" "epc ?s u = E_scan k m mn" for u j k m mn
    proof -
      have "u \<noteq> t" using that(2) by auto
      then have "j \<noteq> i" using one_slot_each [OF es_retire(4,1), of u] that(1) by auto
      then show ?thesis using c(5) [of j] by simp
    qed
  qed (auto split: if_splits)
next
  case (es_gc s t i)
  let ?n = "min (epoch_nthreads (es s)) EPOCH_MAX_THREADS"
  let ?s = "s\<lparr>epc := (epc s)(t := E_scan 0 ?n UINT64_MAX)\<rparr>"
  show ?case
  proof (rule inv_scanI)
    show "k \<le> m \<and> m \<le> EPOCH_MAX_THREADS" if "epc ?s u = E_scan k m mn" for u k m mn
      using inv_scanD(1) [OF es_gc(7)] that by (auto split: if_splits)
    show "mn \<le> retire_epoch n"
      if "my_idx ?s u = Some i" "epc ?s u = E_scan k m mn" "my_idx ?s v = Some j" "j < k \<or> m \<le> j"
        "n \<in> set (retire_list (thr ?s i))" "rptr n \<in> held ?s v" for u i k m mn v j n
    proof (cases "u = t")
      case True
      have "j < ?n" using inv_idx_slot [OF es_gc(3), of v j] that(3) by simp
      then show ?thesis using True that(2,4) by auto
    next
      case False
      then show ?thesis using inv_scanD(2) [OF es_gc(7), of u i k m mn v j n] that by simp
    qed
  qed
next
  case (es_scan s t i j0 n0 mn0)
  let ?s = "s\<lparr>epc := (epc s)(t := E_scan (j0 + 1) n0 (scan_min (quiescent (thr s j0)) mn0))\<rparr>"
  show ?case
  proof (rule inv_scanI)
    show "k \<le> m \<and> m \<le> EPOCH_MAX_THREADS" if "epc ?s u = E_scan k m mn" for u k m mn
      using inv_scanD(1) [OF es_scan(8)] that es_scan(2,3) by (auto split: if_splits)
    show "mn \<le> retire_epoch n"
      if "my_idx ?s u = Some i" "epc ?s u = E_scan k m mn" "my_idx ?s v = Some j" "j < k \<or> m \<le> j"
        "n \<in> set (retire_list (thr ?s i))" "rptr n \<in> held ?s v" for u i k m mn v j n
    proof (cases "u = t")
      case False
      then show ?thesis using inv_scanD(2) [OF es_scan(8), of u i k m mn v j n] that by simp
    next
      case True
      then have eq: "k = j0 + 1" "m = n0" "mn = scan_min (quiescent (thr s j0)) mn0" using that(2) by simp_all
      show ?thesis
      proof (cases "j = j0")
        case True
        have q: "quiescent (thr s j) \<le> retire_epoch n"
          using inv_holdD(4) [OF es_scan(7), of v j i n] inv_idx_slot [OF es_scan(4), of u i] that by simp
        have "\<not> away (epc s v)" using inv_holdD(1) [OF es_scan(7), of v] that(6) by auto
        then have "\<not> fresh_pc (epc s v)" by (cases "epc s v") simp_all
        then have "1 \<le> quiescent (thr s j)" using es_scan(6) that(3) by (simp add: inv_epoch_def)
        then have "quiescent (thr s j) \<noteq> 0" by auto
        then show ?thesis using scan_min_le(2) [of "quiescent (thr s j)" mn0] q True eq(3) by simp
      next
        case False
        then have "j < j0 \<or> n0 \<le> j" using that(4) eq by auto
        then have "mn0 \<le> retire_epoch n"
          using inv_scanD(2) [OF es_scan(8), of u i j0 n0 mn0 v j n] that True \<open>u = t\<close> es_scan(2) by simp
        then show ?thesis using scan_min_le(1) [of "quiescent (thr s j0)" mn0] eq(3) by (simp add: order_trans)
      qed
    qed
  qed
next
  case (es_gc_none s t i n mn)
  show ?case by (rule inv_scan_mono [OF es_gc_none(8)]) (auto split: if_splits)
next
  case (es_gc_free s t i n mn keep fs)
  have k: "set keep \<subseteq> set (retire_list (thr s i))" using es_gc_free(4) by (auto simp: gc_walk_filter)
  show ?case by (rule inv_scan_mono [OF es_gc_free(9)])
    (use inv_idx_slot [OF es_gc_free(5,1)] k in \<open>auto simp: nth_upd split: if_splits\<close>)
qed

definition epoch_inv :: "epoch_sys \<Rightarrow> bool" where
  "epoch_inv s = (inv_idx s \<and> inv_ptr s \<and> inv_epoch s \<and> inv_hold s \<and> inv_scan s)"

lemma retires_mono: "epoch_step s s' \<Longrightarrow> retires s \<le> retires s'"
  by (induction rule: epoch_step.induct) simp_all

lemma epoch_reach_inv: "epoch_reach s \<Longrightarrow> retires s < 2 ^ 64 - 1 \<Longrightarrow> epoch_inv s"
proof (induction rule: epoch_reach.induct)
  case er_start
  show ?case
    by (simp add: epoch_inv_def inv_idx_def inv_ptr_def inv_epoch_def inv_hold_def inv_scan_def epoch_sys_start_def
        epoch_start_def EPOCH_MAX_THREADS_def)
next
  case (er_step s s')
  then have "retires s < 2 ^ 64 - 1" using retires_mono [OF er_step(2)] by simp
  then have i: "inv_idx s" "inv_ptr s" "inv_epoch s" "inv_hold s" "inv_scan s" using er_step.IH by (simp_all add: epoch_inv_def)
  show ?case
    unfolding epoch_inv_def
    using inv_idx_step [OF er_step(2) i(1)] inv_ptr_step [OF er_step(2) i(1,2)]
      inv_epoch_step [OF er_step(2) i(1,3) er_step(4)] inv_hold_step [OF er_step(2) i(1,2,3,5,4)]
      inv_scan_step [OF er_step(2) i] by simp
qed


section \<open>The operations in a row\<close>

text \<open>
  Sessions: a new thread registers, or a registered one runs an operation to its end.  The
  freed pointers are collected in order.
\<close>

datatype epoch_op = Register | Tick nat | Retire nat bool nat | Gc nat | Drain nat

fun epoch_do :: "epoch_op \<Rightarrow> epoch_state \<Rightarrow> epoch_state \<times> nat list" where
  "epoch_do Register e = (fst (epoch_register None e), [])"
| "epoch_do (Tick i) e = (if i < epoch_nthreads e then epoch_tick (Some i) e else (e, []))"
| "epoch_do (Retire i alloc p) e = (if i < epoch_nthreads e then epoch_retire alloc p (Some i) e else (e, []))"
| "epoch_do (Gc i) e = (if i < epoch_nthreads e then epoch_gc (Some i) e else (e, []))"
| "epoch_do (Drain i) e = (if i < epoch_nthreads e then epoch_drain_all (Some i) e else (e, []))"

fun epoch_run :: "epoch_op list \<Rightarrow> epoch_state \<Rightarrow> epoch_state \<times> nat list" where
  "epoch_run [] e = (e, [])"
| "epoch_run (x # xs) e = (let (e1, fs) = epoch_do x e; (e2, gs) = epoch_run xs e1 in (e2, fs @ gs))"

definition epoch_ok :: "nat \<Rightarrow> epoch_state \<Rightarrow> bool" where
  "epoch_ok k e =
     (length (epoch_threads e) = EPOCH_MAX_THREADS \<and> epoch_nthreads e \<le> EPOCH_MAX_THREADS
      \<and> 1 \<le> unat (epoch_global e) \<and> unat (epoch_global e) \<le> k + 1
      \<and> (\<forall>i < EPOCH_MAX_THREADS. retire_count (epoch_threads e ! i) = length (retire_list (epoch_threads e ! i))
           \<and> (\<forall>n \<in> set (retire_list (epoch_threads e ! i)). retire_epoch n < epoch_global e)))"

lemma epoch_ok_upd:
  assumes "epoch_ok k e" "i < EPOCH_MAX_THREADS"
    and "retire_count (f (epoch_threads e ! i)) = length (retire_list (f (epoch_threads e ! i)))"
    and "\<And>n. n \<in> set (retire_list (f (epoch_threads e ! i))) \<Longrightarrow> retire_epoch n < epoch_global e"
  shows "epoch_ok k (upd_thread i f e)"
  using assms by (auto simp: epoch_ok_def nth_upd)

lemma gc_keep_ok:
  assumes "epoch_ok k e" "i < EPOCH_MAX_THREADS"
  shows "epoch_ok k (fst (epoch_gc (Some i) e)) \<and> epoch_nthreads (fst (epoch_gc (Some i) e)) = epoch_nthreads e"
proof -
  let ?l = "retire_list (epoch_threads e ! i)"
  have c: "retire_count (epoch_threads e ! i) = length ?l" using assms by (simp add: epoch_ok_def)
  have f: "length (filter (\<lambda>n. \<not> retire_epoch n < m) ?l) = length ?l - length (filter (\<lambda>n. retire_epoch n < m) ?l)" for m
    using sum_length_filter_compl [of "\<lambda>n. retire_epoch n < m" ?l] by simp
  have g: "\<forall>n \<in> set ?l. retire_epoch n < epoch_global e" using assms by (simp add: epoch_ok_def)
  show ?thesis
    using epoch_ok_upd [OF assms, of "\<lambda>t. t\<lparr>retire_list := filter (\<lambda>n. \<not> retire_epoch n < epoch_min_quiescent e) ?l,
        retire_count := retire_count t - length (filter (\<lambda>n. retire_epoch n < epoch_min_quiescent e) ?l)\<rparr>"] assms(1) c f g
    by (simp add: epoch_gc_def Let_def gc_walk_filter)
qed

lemma update_quiescent_ok: "epoch_ok k e \<Longrightarrow> i < EPOCH_MAX_THREADS \<Longrightarrow> epoch_ok k (epoch_update_quiescent i e)"
  unfolding epoch_update_quiescent_def by (rule epoch_ok_upd) (auto simp: epoch_ok_def)

lemma tick_ok:
  assumes "epoch_ok k e" "i < EPOCH_MAX_THREADS"
  shows "epoch_ok k (fst (epoch_tick (Some i) e)) \<and> epoch_nthreads (fst (epoch_tick (Some i) e)) = epoch_nthreads e"
proof -
  have u: "epoch_ok k (epoch_update_quiescent i e)" by (rule update_quiescent_ok [OF assms])
  have n: "epoch_nthreads (epoch_update_quiescent i e) = epoch_nthreads e" by (simp add: epoch_update_quiescent_def)
  show ?thesis using u n gc_keep_ok [OF u assms(2)] by (simp add: epoch_tick_def Let_def)
qed

lemma epoch_ok_mono: "epoch_ok k e \<Longrightarrow> k \<le> k' \<Longrightarrow> epoch_ok k' e"
  by (simp add: epoch_ok_def)

lemma epoch_ok_next:
  assumes "epoch_ok k e" "k < 2 ^ 64 - 2"
  shows "epoch_ok (Suc k) (e\<lparr>epoch_global := epoch_global e + 1\<rparr>)" "epoch_global e < epoch_global e + 1"
proof -
  have "unat (epoch_global e) + 1 < 2 ^ 64" using assms by (simp add: epoch_ok_def)
  then have u: "unat (epoch_global e + 1) = unat (epoch_global e) + 1" by (simp add: unat_word_ariths)
  then show l: "epoch_global e < epoch_global e + 1" by (simp add: word_less_nat_alt)
  show "epoch_ok (Suc k) (e\<lparr>epoch_global := epoch_global e + 1\<rparr>)"
    using assms(1) u l order.strict_trans [OF _ l] unfolding epoch_ok_def by auto
qed

lemma epoch_do_ok:
  assumes "epoch_ok k e" "k < 2 ^ 64 - 2"
  shows "epoch_ok (Suc k) (fst (epoch_do x e))"
proof -
  have t: "i < EPOCH_MAX_THREADS" if "i < epoch_nthreads e" for i using assms(1) that by (simp add: epoch_ok_def)
  have s: "epoch_ok (Suc k) e" by (rule epoch_ok_mono [OF assms(1)]) simp
  show ?thesis
  proof (cases x)
    case Register
    show ?thesis
    proof (cases "epoch_nthreads e \<ge> EPOCH_MAX_THREADS")
      case True
      then show ?thesis using s Register by (simp add: epoch_register_def Let_def)
    next
      case False
      let ?e = "e\<lparr>epoch_nthreads := epoch_nthreads e + 1\<rparr>"
      have "epoch_ok (Suc k) ?e" using s False by (auto simp: epoch_ok_def)
      from update_quiescent_ok [OF this, of "epoch_nthreads e"] False
      have "epoch_ok (Suc k) (upd_thread (epoch_nthreads e) (\<lambda>t. t\<lparr>retire_list := [], retire_count := 0\<rparr>)
          (epoch_update_quiescent (epoch_nthreads e) ?e))"
        by (intro epoch_ok_upd) simp_all
      then show ?thesis using False Register by (simp add: epoch_register_def Let_def)
    qed
  next
    case (Tick i)
    then show ?thesis using tick_ok [OF s t] s by simp
  next
    case (Gc i)
    then show ?thesis using gc_keep_ok [OF s t] s by simp
  next
    case (Drain i)
    have "epoch_ok (Suc k) (upd_thread i (\<lambda>t. t\<lparr>retire_list := [], retire_count := 0\<rparr>) e)" if "i < epoch_nthreads e"
      by (rule epoch_ok_upd [OF s t [OF that]]) simp_all
    then show ?thesis using Drain s by (simp add: epoch_drain_all_def)
  next
    case (Retire i alloc p)
    note n = epoch_ok_next [OF assms]
    have "epoch_ok (Suc k) (upd_thread i (push_retired p (epoch_global e)) (e\<lparr>epoch_global := epoch_global e + 1\<rparr>))"
      if "i < epoch_nthreads e"
      by (rule epoch_ok_upd [OF n(1) t [OF that]])
        (use n t [OF that] assms(1) order.strict_trans [OF _ n(2)] in \<open>auto simp: push_retired_def epoch_ok_def\<close>)
    then show ?thesis using Retire s n(1) by (simp add: epoch_retire_def Let_def)
  qed
qed

lemma epoch_run_ok: "epoch_ok k e \<Longrightarrow> k + length xs \<le> 2 ^ 64 - 2 \<Longrightarrow> epoch_ok (k + length xs) (fst (epoch_run xs e))"
proof (induction xs arbitrary: k e)
  case (Cons x xs)
  have "epoch_ok (Suc k) (fst (epoch_do x e))" using epoch_do_ok [OF Cons.prems(1)] Cons.prems(2) by simp
  from Cons.IH [OF this] Cons.prems(2) show ?case by (simp add: Let_def split_beta)
qed simp

lemma epoch_start_ok: "epoch_ok 0 epoch_start"
  by (simp add: epoch_ok_def epoch_start_def)


text \<open>A round in which every registered thread ticks.\<close>

definition rptrs :: "epoch_state \<Rightarrow> nat \<Rightarrow> nat set" where
  "rptrs e i = rptr ` set (retire_list (epoch_threads e ! i))"

lemma gc_effect:
  assumes "i < length (epoch_threads e)" "epoch_gc (Some i) e = (e', fs)"
  shows "epoch_global e' = epoch_global e \<and> epoch_nthreads e' = epoch_nthreads e
    \<and> length (epoch_threads e') = length (epoch_threads e)
    \<and> (\<forall>j. quiescent (epoch_threads e' ! j) = quiescent (epoch_threads e ! j) \<and> rptrs e j \<subseteq> rptrs e' j \<union> set fs)"
proof (cases "epoch_min_quiescent e = UINT64_MAX")
  case True
  then show ?thesis using assms by (simp add: epoch_gc_def)
next
  case False
  let ?l = "retire_list (epoch_threads e ! i)" and ?m = "epoch_min_quiescent e"
  let ?f = "\<lambda>t. t\<lparr>retire_list := filter (\<lambda>n. \<not> retire_epoch n < ?m) ?l,
    retire_count := retire_count t - length (filter (\<lambda>n. retire_epoch n < ?m) ?l)\<rparr>"
  have e': "e' = upd_thread i ?f e" "fs = map rptr (filter (\<lambda>n. retire_epoch n < ?m) ?l)"
    using False assms(2) by (simp_all add: epoch_gc_def Let_def gc_walk_filter)
  have th: "epoch_threads e' ! j = (if j = i then ?f (epoch_threads e ! i) else epoch_threads e ! j)" for j
    unfolding e'(1) by (rule nth_upd [OF assms(1)])
  have "rptrs e j \<subseteq> rptrs e' j \<union> set fs" for j
  proof
    fix x assume "x \<in> rptrs e j"
    then obtain n where n: "n \<in> set (retire_list (epoch_threads e ! j))" "x = rptr n" unfolding rptrs_def by blast
    show "x \<in> rptrs e' j \<union> set fs"
      using n unfolding rptrs_def th e'(2) by (cases "j = i"; cases "retire_epoch n < ?m") simp_all
  qed
  moreover have "quiescent (epoch_threads e' ! j) = quiescent (epoch_threads e ! j)" for j unfolding th by simp
  ultimately show ?thesis by (simp add: e'(1))
qed

lemma tick_effect:
  assumes "i < length (epoch_threads e)" "epoch_tick (Some i) e = (e', fs)"
  shows "epoch_global e' = epoch_global e \<and> epoch_nthreads e' = epoch_nthreads e
    \<and> length (epoch_threads e') = length (epoch_threads e)
    \<and> (\<forall>j. quiescent (epoch_threads e' ! j) = (if j = i then epoch_global e else quiescent (epoch_threads e ! j))
           \<and> rptrs e j \<subseteq> rptrs e' j \<union> set fs)"
proof -
  let ?e = "epoch_update_quiescent i e"
  have u: "epoch_global ?e = epoch_global e" "epoch_nthreads ?e = epoch_nthreads e"
    "length (epoch_threads ?e) = length (epoch_threads e)" "rptrs ?e j = rptrs e j"
    "quiescent (epoch_threads ?e ! j) = (if j = i then epoch_global e else quiescent (epoch_threads e ! j))" for j
    using assms(1) by (simp_all add: epoch_update_quiescent_def nth_upd rptrs_def)
  show ?thesis
  proof (cases "retire_count (epoch_threads ?e ! i) \<ge> EPOCH_GC_THRESHOLD")
    case True
    then have "epoch_gc (Some i) ?e = (e', fs)" using assms(2) by (simp add: epoch_tick_def)
    from gc_effect [OF _ this] show ?thesis using assms(1) u by simp
  next
    case False
    then have "e' = ?e" "fs = []" using assms(2) by (simp_all add: epoch_tick_def)
    then show ?thesis using u by simp
  qed
qed

lemma epoch_run_append:
  "epoch_run (xs @ ys) e = (let (e1, fs) = epoch_run xs e; (e2, gs) = epoch_run ys e1 in (e2, fs @ gs))"
  by (induction xs arbitrary: e) (auto simp: Let_def split_beta)

lemma round_effect:
  assumes "m \<le> epoch_nthreads e" "epoch_nthreads e \<le> length (epoch_threads e)" "epoch_run (map Tick [0..<m]) e = (e', fs)"
  shows "epoch_global e' = epoch_global e \<and> epoch_nthreads e' = epoch_nthreads e
    \<and> length (epoch_threads e') = length (epoch_threads e)
    \<and> (\<forall>j < m. quiescent (epoch_threads e' ! j) = epoch_global e) \<and> (\<forall>j. rptrs e j \<subseteq> rptrs e' j \<union> set fs)"
  using assms
proof (induction m arbitrary: e' fs)
  case (Suc m)
  obtain e1 f1 where 1: "epoch_run (map Tick [0..<m]) e = (e1, f1)" by (metis surj_pair)
  note i = Suc.IH [OF _ Suc.prems(2) 1]
  obtain e2 f2 where 2: "epoch_tick (Some m) e1 = (e2, f2)" by (metis surj_pair)
  have m: "m < epoch_nthreads e1" "m < length (epoch_threads e1)" using i Suc.prems(1,2) by simp_all
  have r: "e' = e2" "fs = f1 @ f2" using Suc.prems(3) 1 2 m by (simp_all add: epoch_run_append)
  have "rptrs e j \<subseteq> rptrs e' j \<union> set fs" for j
    using i tick_effect [OF m(2) 2] Suc.prems(1) unfolding r by (simp, blast)
  then show ?case using i tick_effect [OF m(2) 2] Suc.prems(1) unfolding r by (auto simp: less_Suc_eq)
qed simp

lemma scan_const:
  "(\<And>j. j < n \<Longrightarrow> q j = g) \<Longrightarrow> g \<noteq> 0
    \<Longrightarrow> foldl (\<lambda>mn j. scan_min (q j) mn) UINT64_MAX [0..<n] = (if n = 0 then UINT64_MAX else g)"
proof (induction n)
  case (Suc n)
  have "g \<le> UINT64_MAX" by (simp add: UINT64_MAX_def)
  then show ?case using Suc by (auto simp: scan_min_def)
qed simp

lemma min_after_round:
  assumes "0 < epoch_nthreads e" "epoch_nthreads e \<le> EPOCH_MAX_THREADS"
    "\<forall>j < epoch_nthreads e. quiescent (epoch_threads e ! j) = g" "g \<noteq> 0"
  shows "epoch_min_quiescent e = g"
  using assms scan_const [of "epoch_nthreads e" "\<lambda>j. quiescent (epoch_threads e ! j)" g]
  by (simp add: epoch_min_quiescent_def Let_def)

lemma round_then_gc:
  assumes "epoch_ok k e" "k < 2 ^ 64 - 2" "i < epoch_nthreads e"
    and "epoch_run (map Tick [0..<epoch_nthreads e] @ [Gc i]) e = (e', fs)"
  shows "retire_list (epoch_threads e' ! i) = [] \<and> rptrs e i \<subseteq> set fs"
proof -
  let ?n = "epoch_nthreads e"
  have e: "?n \<le> EPOCH_MAX_THREADS" "length (epoch_threads e) = EPOCH_MAX_THREADS" using assms(1) by (simp_all add: epoch_ok_def)
  obtain e1 f1 where 1: "epoch_run (map Tick [0..<?n]) e = (e1, f1)" by (metis surj_pair)
  note r = round_effect [OF _ _ 1]
  obtain e2 f2 where 2: "epoch_gc (Some i) e1 = (e2, f2)" by (metis surj_pair)
  have i: "i < epoch_nthreads e1" "i < length (epoch_threads e1)" using r e assms(3) by simp_all
  have res: "e' = e2" "fs = f1 @ f2" using assms(4) 1 2 i by (simp_all add: epoch_run_append)
  have ok1: "epoch_ok k e1"
  proof -
    have "epoch_ok k (fst (epoch_run (map Tick [0..<m]) e))" if "m \<le> ?n" for m using that
    proof (induction m)
      case (Suc m)
      obtain a b where ab: "epoch_run (map Tick [0..<m]) e = (a, b)" by (metis surj_pair)
      then have "epoch_ok k a" using Suc by simp
      moreover have "epoch_nthreads a = ?n" using round_effect [OF _ _ ab] Suc.prems e by simp
      ultimately show ?case using ab tick_ok [of k a m] Suc.prems e by (simp add: epoch_run_append split_beta Let_def)
    qed (use assms(1) in simp)
    from this [of ?n] 1 show ?thesis by simp
  qed
  have g: "epoch_global e1 \<noteq> 0" "epoch_global e1 \<noteq> UINT64_MAX"
  proof -
    have "1 \<le> unat (epoch_global e1)" "unat (epoch_global e1) \<le> k + 1" using ok1 by (simp_all add: epoch_ok_def)
    moreover have "unat UINT64_MAX = 2 ^ 64 - 1" by (simp add: UINT64_MAX_def unsigned_minus_1_eq_mask mask_eq_exp_minus_1)
    ultimately show "epoch_global e1 \<noteq> 0" "epoch_global e1 \<noteq> UINT64_MAX" using assms(2) by auto
  qed
  have mn: "epoch_min_quiescent e1 = epoch_global e1"
    by (rule min_after_round) (use r e assms(3) g in auto)
  have "\<forall>n \<in> set (retire_list (epoch_threads e1 ! i)). retire_epoch n < epoch_global e1"
    using ok1 i(2) e r assms(3) unfolding epoch_ok_def by (metis order_less_le_trans)
  then have "retire_list (epoch_threads e2 ! i) = []"
    using 2 i(2) g(2) by (auto simp: epoch_gc_def mn Let_def gc_walk_filter nth_upd)
  moreover then have "rptrs e i \<subseteq> set fs"
    using r e gc_effect [OF i(2) 2] assms(3) unfolding res by (fastforce simp: rptrs_def [of e2])
  ultimately show ?thesis using res by simp
qed

section \<open>Properties\<close>

text \<open>
  C5. No use after free: whatever the interleaving of registrations, ticks, loads, unlinks,
  retirements and collections, a pointer that a thread loaded since its last quiescent point
  has not been freed, and neither has one that is still published, as long as fewer than
  2^64 - 1 retirements moved the 64-bit epoch.
\<close>

theorem epoch_safe:
  assumes "epoch_reach s" "retires s < 2 ^ 64 - 1"
  shows "held s t \<inter> freed s = {} \<and> published s \<inter> freed s = {}"
  using epoch_reach_inv [OF assms] unfolding epoch_inv_def inv_hold_def inv_ptr_def by blast

text \<open>
  C18. Nothing waits for ever: after any session, once every registered thread has ticked, a
  collection by a thread empties its retire list, every pointer that was in it having been
  freed.
\<close>

theorem epoch_reclaims:
  assumes "length ops < 2 ^ 64 - 2" "e = fst (epoch_run ops epoch_start)" "i < epoch_nthreads e"
    and "epoch_run (map Tick [0..<epoch_nthreads e] @ [Gc i]) e = (e', fs)"
  shows "retire_list (epoch_threads e' ! i) = [] \<and> rptrs e i \<subseteq> set fs"
proof -
  have "epoch_ok (length ops) e" using epoch_run_ok [OF epoch_start_ok, of ops] assms(1,2) by simp
  then show ?thesis by (rule round_then_gc) (use assms in simp_all)
qed


text \<open>
  One thread that loads pointer 5, unlinks and retires it and collects before it ticks.
\<close>

definition lone :: "u64 \<Rightarrow> epoch_retire_node list \<Rightarrow> u64 \<Rightarrow> epoch_pc \<Rightarrow> nat set \<Rightarrow> nat set \<Rightarrow> nat \<Rightarrow> epoch_sys" where
  "lone q l g pc h pub r = \<lparr>es = \<lparr>epoch_threads = \<lparr>quiescent = q, retire_list = l, retire_count = length l\<rparr>
       # replicate 63 \<lparr>quiescent = 0, retire_list = [], retire_count = 0\<rparr>, epoch_global = g, epoch_nthreads = 1\<rparr>,
     my_idx = (\<lambda>_. None)(0 := Some 0), epc = (\<lambda>_. E_run)(0 := pc), held = (\<lambda>_. {})(0 := h),
     published = pub, ever = {5}, freed = {}, rolling = 0, retires = r\<rparr>"

lemma lone_step: "epoch_reach s \<Longrightarrow> epoch_step s s' \<Longrightarrow> s' = s'' \<Longrightarrow> epoch_reach s''"
  using epoch_reach.er_step by blast

lemma lone_reach: "epoch_reach (lone 1 [\<lparr>rptr = 5, retire_epoch = 1\<rparr>] 2 E_run {5} {} 1)"
proof -
  let ?n = "\<lparr>rptr = 5, retire_epoch = 1\<rparr>"
  let ?p = "epoch_sys_start\<lparr>published := {5}, ever := {5}\<rparr>"
  have lt: "(1 :: u64) < - 1" by (simp add: word_less_nat_alt unsigned_minus_1_eq_mask mask_eq_exp_minus_1)
  have 0: "epoch_reach ?p"
    by (rule lone_step [OF er_start es_publish [of 5]]) (simp_all add: epoch_sys_start_def)
  have r: "replicate EPOCH_MAX_THREADS x = x # replicate 63 x" for x :: epoch_thread
    by (simp add: EPOCH_MAX_THREADS_def flip: replicate_Suc)
  have 1: "epoch_reach (lone 0 [] 1 E_seed {} {5} 0)"
    by (rule lone_step [OF 0 es_register [of _ 0]])
      (simp_all add: epoch_sys_start_def epoch_start_def lone_def r fun_upd_idem, simp add: EPOCH_MAX_THREADS_def)
  have 2: "epoch_reach (lone 0 [] 1 (E_seed_store 1) {} {5} 0)"
    by (rule lone_step [OF 1 es_seed_load [of _ 0 0]]) (simp_all add: lone_def)
  have 3: "epoch_reach (lone 1 [] 1 E_run {} {5} 0)"
    by (rule lone_step [OF 2 es_seed_store [of _ 0 0 1]]) (simp_all add: lone_def upd_thread_def)
  have 4: "epoch_reach (lone 1 [] 1 E_run {5} {5} 0)"
    by (rule lone_step [OF 3 es_load [of _ 0 0 5]]) (simp_all add: lone_def)
  have 5: "epoch_reach (lone 1 [] 1 (E_unlinked 5) {5} {} 0)"
    by (rule lone_step [OF 4 es_unlink [of _ 0 0 5]]) (simp_all add: lone_def)
  have 6: "epoch_reach (lone 1 [?n] 2 E_run {5} {} 1)"
    by (rule lone_step [OF 5 es_retire [of _ 0 0 5 True "es (lone 1 [?n] 2 E_run {5} {} 1)" "[]"]])
      (simp_all add: lone_def epoch_retire_def upd_thread_def push_retired_def)
  have 7: "epoch_reach (lone 1 [?n] 2 (E_scan 0 1 UINT64_MAX) {5} {} 1)"
    by (rule lone_step [OF 6 es_gc [of _ 0 0]]) (simp_all add: lone_def EPOCH_MAX_THREADS_def)
  have 8: "epoch_reach (lone 1 [?n] 2 (E_scan 1 1 1) {5} {} 1)"
    by (rule lone_step [OF 7 es_scan [of _ 0 0 0 1 UINT64_MAX]])
      (use lt in \<open>simp_all add: lone_def scan_min_def UINT64_MAX_def\<close>)
  show ?thesis
    by (rule lone_step [OF 8 es_gc_free [of _ 0 0 1 1 "[?n]" "[]"]])
      (simp_all add: lone_def UINT64_MAX_def upd_thread_def)
qed

theorem epoch_safe_witness:
  "5 \<in> held (lone 1 [\<lparr>rptr = 5, retire_epoch = 1\<rparr>] 2 E_run {5} {} 1) 0
    \<and> 5 \<notin> freed (lone 1 [\<lparr>rptr = 5, retire_epoch = 1\<rparr>] 2 E_run {5} {} 1)"
  using epoch_safe [OF lone_reach, of 0] by (auto simp: lone_def)

theorem epoch_reclaims_witness:
  "\<exists>e' fs. epoch_run (map Tick [0..<2] @ [Gc 0]) (fst (epoch_run [Register, Register, Retire 0 True 5] epoch_start)) = (e', fs)
     \<and> retire_list (epoch_threads e' ! 0) = [] \<and> 5 \<in> set fs"
proof -
  define e where "e = fst (epoch_run [Register, Register, Retire 0 True 5] epoch_start)"
  have n: "epoch_nthreads e = 2" and l: "5 \<in> rptrs e 0"
    by (simp_all add: e_def epoch_start_def epoch_register_def epoch_retire_def Let_def EPOCH_MAX_THREADS_def upd_thread_def
        push_retired_def epoch_update_quiescent_def rptrs_def)
  obtain e' fs where r: "epoch_run (map Tick [0..<epoch_nthreads e] @ [Gc 0]) e = (e', fs)" by (metis surj_pair)
  have "retire_list (epoch_threads e' ! 0) = [] \<and> rptrs e 0 \<subseteq> set fs"
    by (rule epoch_reclaims [OF _ e_def _ r]) (simp_all add: n)
  then show ?thesis using r l n unfolding e_def by auto
qed

end
