(* ===== verification/Lfkv.thy ===== *)
theory Lfkv
  imports Probe
begin

text \<open>
  The lock-free keyspace of the server (\<open>lfkv.c\<close>, \<open>lfkv.h\<close>): a fixed open-addressed table
  of pointers to slot records, each with an immutable key and an entry (value and expiry)
  that is swapped atomically; deleted keys stay as tombstones.

  A slot record is an address in a heap that only grows.  Each operation is its probe of the
  table followed by its update; the update takes the result of the probe as an argument, so
  that another thread's update can come between them.  The loops that retry a failed
  compare-and-swap do not appear: an update runs on the entry it has just loaded.
\<close>

section \<open>Records\<close>

text \<open>A value is a pointer, \<open>None\<close> for \<open>NULL\<close>; an expiry of 0 is no expiry.\<close>

record lfentry =
  e_val :: "nat option"
  e_expiry :: int

record lfslot =
  khash :: u32
  klen :: u32
  s_key :: bytes
  s_entry :: "lfentry option"

text \<open>
  The emitted events are \<open>(op, key, value)\<close>; \<open>retired\<close> are the entries given to
  \<open>epoch_retire\<close>, \<open>refs\<close> the values whose reference count was raised.
\<close>

record lfkv =
  records :: "lfslot list"
  slots :: "nat option list"
  kcount :: u64
  retired :: "lfentry list"
  refs :: "nat list"
  watching :: bool
  emitted :: "(nat \<times> bytes \<times> nat option) list"

definition nslots :: "lfkv \<Rightarrow> nat" where
  "nslots kv = length (slots kv)"

definition lfkv_new :: "bool \<Rightarrow> bool \<Rightarrow> nat \<Rightarrow> lfkv option" where
  "lfkv_new alloc watch n =
     (if n = 0 \<or> n AND (n - 1) \<noteq> 0 \<or> \<not> alloc \<or> n * 8 > SIZE_MAX then None
      else Some \<lparr>records = [], slots = replicate n None, kcount = 0, retired = [], refs = [], watching = watch, emitted = []\<rparr>)"

definition emit :: "nat \<Rightarrow> bytes \<Rightarrow> nat option \<Rightarrow> lfkv \<Rightarrow> lfkv" where
  "emit op k v kv = (if watching kv then kv\<lparr>emitted := emitted kv @ [(op, k, v)]\<rparr> else kv)"

definition entry_expired :: "lfentry \<Rightarrow> int \<Rightarrow> bool" where
  "entry_expired e now = (e_expiry e \<noteq> 0 \<and> e_expiry e \<le> now)"

definition rec_at :: "lfkv \<Rightarrow> nat \<Rightarrow> lfslot" where
  "rec_at kv a = records kv ! a"

definition put_entry :: "nat \<Rightarrow> lfentry option \<Rightarrow> lfkv \<Rightarrow> lfkv" where
  "put_entry a e kv = kv\<lparr>records := (records kv)[a := (rec_at kv a)\<lparr>s_entry := e\<rparr>]\<rparr>"

definition slot_retire_entry :: "nat \<Rightarrow> lfentry \<Rightarrow> lfkv \<Rightarrow> lfkv" where
  "slot_retire_entry a e kv =
     emit 2 (s_key (rec_at kv a)) None
       ((put_entry a None kv)\<lparr>kcount := kcount kv - 1, retired := retired kv @ [e]\<rparr>)"

definition slot_replace_entry :: "nat \<Rightarrow> lfentry \<Rightarrow> lfkv \<Rightarrow> lfkv" where
  "slot_replace_entry a new kv =
     emit 1 (s_key (rec_at kv a)) (e_val new)
       (case s_entry (rec_at kv a) of
          None \<Rightarrow> (put_entry a (Some new) kv)\<lparr>kcount := kcount kv + 1\<rparr>
        | Some old \<Rightarrow> (put_entry a (Some new) kv)\<lparr>retired := retired kv @ [old]\<rparr>)"

definition slot_key_eq :: "lfslot \<Rightarrow> u32 \<Rightarrow> bytes \<Rightarrow> bool" where
  "slot_key_eq s h k = (if khash s \<noteq> h \<or> unat (klen s) \<noteq> length k then False else s_key s = k)"

definition slot_alloc :: "u32 \<Rightarrow> bytes \<Rightarrow> lfentry \<Rightarrow> lfslot" where
  "slot_alloc h k e = \<lparr>khash = h, klen = of_nat (length k), s_key = k, s_entry = Some e\<rparr>"

section \<open>Probing\<close>

definition home_index :: "u32 \<Rightarrow> nat \<Rightarrow> nat" where
  "home_index h n = (unat h AND (n - 1))"

definition after_index :: "nat \<Rightarrow> nat \<Rightarrow> nat" where
  "after_index i n = ((i + 1) AND (n - 1))"

text \<open>
  The loop with \<open>p\<close> indices left: the record found, the index where the key is or would be
  put, and the first tombstone met.
\<close>

fun probe_loop :: "lfkv \<Rightarrow> u32 \<Rightarrow> bytes \<Rightarrow> nat \<Rightarrow> nat \<Rightarrow> nat option \<Rightarrow> nat option \<times> nat \<times> nat option" where
  "probe_loop kv h k 0 i tomb = (None, home_index h (nslots kv), tomb)"
| "probe_loop kv h k (Suc p) i tomb =
     (case slots kv ! i of
        None \<Rightarrow> (None, i, tomb)
      | Some a \<Rightarrow>
          if s_entry (rec_at kv a) = None
          then probe_loop kv h k p (after_index i (nslots kv)) (if tomb = None then Some i else tomb)
          else if slot_key_eq (rec_at kv a) h k then (Some a, i, tomb)
          else probe_loop kv h k p (after_index i (nslots kv)) tomb)"

definition probe :: "lfkv \<Rightarrow> bytes \<Rightarrow> nat option \<times> nat \<times> nat option" where
  "probe kv k = (let h = bernstein_hash k in probe_loop kv h k (nslots kv) (home_index h (nslots kv)) None)"

section \<open>Operations\<close>

text \<open>
  Claiming an empty index: the first compare-and-swap at \<open>i\<close>, then the walk over the table.
\<close>

datatype claim = Claimed nat | Existing nat | Full

fun claim_walk :: "lfkv \<Rightarrow> u32 \<Rightarrow> bytes \<Rightarrow> nat \<Rightarrow> nat \<Rightarrow> claim" where
  "claim_walk kv h k 0 i = Full"
| "claim_walk kv h k (Suc p) i =
     (case slots kv ! i of
        None \<Rightarrow> Claimed i
      | Some a \<Rightarrow> if slot_key_eq (rec_at kv a) h k then Existing a
                  else claim_walk kv h k p (after_index i (nslots kv)))"

definition claim_slot :: "lfkv \<Rightarrow> u32 \<Rightarrow> bytes \<Rightarrow> nat \<Rightarrow> claim" where
  "claim_slot kv h k i =
     (case slots kv ! i of
        None \<Rightarrow> Claimed i
      | Some a \<Rightarrow> if slot_key_eq (rec_at kv a) h k then Existing a
                  else claim_walk kv h k (nslots kv) (after_index i (nslots kv)))"

text \<open>Publishing a fresh record at an index of the table.\<close>

definition publish :: "nat \<Rightarrow> lfslot \<Rightarrow> nat option \<Rightarrow> lfkv \<Rightarrow> lfkv" where
  "publish i s v kv =
     emit 1 (s_key s) v
       (kv\<lparr>records := records kv @ [s], slots := (slots kv)[i := Some (length (records kv))], kcount := kcount kv + 1\<rparr>)"

text \<open>
  \<open>lfkv_set\<close> after its probe.  \<open>mem\<close> says whether the allocations of the entry and of the
  record succeed.  The result is \<open>False\<close> for \<open>-1\<close>.
\<close>

definition set_commit :: "bool \<times> bool \<Rightarrow> bytes \<Rightarrow> nat option \<Rightarrow> nat option \<times> nat \<times> nat option \<Rightarrow> lfkv \<Rightarrow> lfkv \<times> bool" where
  "set_commit mem k v pr kv =
     (let h = bernstein_hash k; new = \<lparr>e_val = v, e_expiry = 0\<rparr>; (found, i, tomb) = pr in
      if \<not> fst mem then (kv, False)
      else (case found of
          Some a \<Rightarrow> (slot_replace_entry a new kv, True)
        | None \<Rightarrow>
            if \<not> snd mem then (kv, False)
            else if (case tomb of None \<Rightarrow> False
                     | Some t \<Rightarrow> (case slots kv ! t of None \<Rightarrow> False | Some b \<Rightarrow> s_entry (rec_at kv b) = None))
            then (publish (the tomb) (slot_alloc h k new) v kv, True)
            else (case claim_slot kv h k i of
                Claimed j \<Rightarrow> (publish j (slot_alloc h k new) v kv, True)
              | Existing a \<Rightarrow> (slot_replace_entry a new kv, True)
              | Full \<Rightarrow> (kv, False))))"

definition lfkv_set :: "bool \<times> bool \<Rightarrow> lfkv \<Rightarrow> bytes \<Rightarrow> nat option \<Rightarrow> lfkv \<times> bool" where
  "lfkv_set mem kv k v = set_commit mem k v (probe kv k) kv"

text \<open>
  What every other operation does with the entry it finds: nothing when there is none, its
  removal when it has expired, otherwise \<open>f\<close> on the record's address and the entry.
\<close>

definition with_entry :: "nat option \<Rightarrow> int \<Rightarrow> 'r \<Rightarrow> (nat \<Rightarrow> lfentry \<Rightarrow> lfkv \<Rightarrow> lfkv \<times> 'r) \<Rightarrow> lfkv \<Rightarrow> lfkv \<times> 'r" where
  "with_entry found now absent f kv =
     (case found of
        None \<Rightarrow> (kv, absent)
      | Some a \<Rightarrow>
          (case s_entry (rec_at kv a) of
             None \<Rightarrow> (kv, absent)
           | Some e \<Rightarrow> if entry_expired e now then (slot_retire_entry a e kv, absent) else f a e kv))"

definition refexp :: "nat option \<Rightarrow> lfkv \<Rightarrow> lfkv" where
  "refexp v kv = (case v of None \<Rightarrow> kv | Some x \<Rightarrow> kv\<lparr>refs := refs kv @ [x]\<rparr>)"

text \<open>The test of \<open>ent->val\<close>, made before that of the expiry.\<close>

definition null_val :: "lfkv \<Rightarrow> nat option \<Rightarrow> bool" where
  "null_val kv found = (case found of None \<Rightarrow> True
     | Some a \<Rightarrow> (case s_entry (rec_at kv a) of None \<Rightarrow> True | Some e \<Rightarrow> e_val e = None))"

definition lfkv_get :: "lfkv \<Rightarrow> bytes \<Rightarrow> int \<Rightarrow> lfkv \<times> nat option" where
  "lfkv_get kv k now =
     (let found = fst (probe kv k) in
      if null_val kv found then (kv, None)
      else with_entry found now None (\<lambda>a e kv. (refexp (e_val e) kv, e_val e)) kv)"

definition lfkv_peek :: "lfkv \<Rightarrow> bytes \<Rightarrow> int \<Rightarrow> lfkv \<times> nat option" where
  "lfkv_peek kv k now =
     (let found = fst (probe kv k) in
      if null_val kv found then (kv, None)
      else with_entry found now None (\<lambda>a e kv. (kv, e_val e)) kv)"

definition lfkv_del :: "lfkv \<Rightarrow> bytes \<Rightarrow> int \<Rightarrow> lfkv \<times> bool" where
  "lfkv_del kv k now = with_entry (fst (probe kv k)) now False (\<lambda>a e kv. (slot_retire_entry a e kv, True)) kv"

definition lfkv_count :: "lfkv \<Rightarrow> u64" where
  "lfkv_count kv = kcount kv"

text \<open>Replacing a live entry by another one: no change of the count.\<close>

definition swap_entry :: "nat \<Rightarrow> lfentry \<Rightarrow> lfentry \<Rightarrow> lfkv \<Rightarrow> lfkv" where
  "swap_entry a old new kv = (put_entry a (Some new) kv)\<lparr>retired := retired kv @ [old]\<rparr>"

definition lfkv_set_expiry :: "bool \<Rightarrow> lfkv \<Rightarrow> bytes \<Rightarrow> int \<Rightarrow> int \<Rightarrow> lfkv \<times> bool" where
  "lfkv_set_expiry mem kv k ts now =
     (let found = fst (probe kv k) in
      if null_val kv found then (kv, False)
      else with_entry found now False (\<lambda>a e kv.
        if \<not> mem then (kv, False)
        else (swap_entry a e \<lparr>e_val = e_val e, e_expiry = ts\<rparr> (refexp (e_val e) kv), True)) kv)"

definition lfkv_touch_if_value :: "bool \<Rightarrow> lfkv \<Rightarrow> bytes \<Rightarrow> nat option \<Rightarrow> int \<Rightarrow> int \<Rightarrow> lfkv \<times> bool" where
  "lfkv_touch_if_value mem kv k expected ts now =
     (if expected = None then (kv, False)
      else (let found = fst (probe kv k) in
        if (case found of None \<Rightarrow> False
            | Some a \<Rightarrow> (case s_entry (rec_at kv a) of None \<Rightarrow> False | Some e \<Rightarrow> e_val e \<noteq> expected)) then (kv, False)
        else with_entry found now False (\<lambda>a e kv.
          if ts = 0 \<and> e_expiry e = 0 then (kv, True)
          else if \<not> mem then (kv, False)
          else (swap_entry a e \<lparr>e_val = expected, e_expiry = ts\<rparr> (refexp expected kv), True)) kv))"

text \<open>\<open>-1\<close> for an absent key.\<close>

definition lfkv_get_expiry :: "lfkv \<Rightarrow> bytes \<Rightarrow> int \<Rightarrow> lfkv \<times> int" where
  "lfkv_get_expiry kv k now =
     (let found = fst (probe kv k) in
      if null_val kv found then (kv, -1)
      else with_entry found now (-1) (\<lambda>a e kv. (kv, e_expiry e)) kv)"

definition lfkv_set_xx :: "bool \<Rightarrow> lfkv \<Rightarrow> bytes \<Rightarrow> nat option \<Rightarrow> int \<Rightarrow> lfkv \<times> bool" where
  "lfkv_set_xx mem kv k v now =
     with_entry (fst (probe kv k)) now False (\<lambda>a e kv.
       if \<not> mem then (kv, False)
       else (emit 1 (s_key (rec_at kv a)) v (swap_entry a e \<lparr>e_val = v, e_expiry = 0\<rparr> kv), True)) kv"

definition lfkv_cas :: "bool \<Rightarrow> lfkv \<Rightarrow> bytes \<Rightarrow> nat option \<Rightarrow> nat option \<Rightarrow> int \<Rightarrow> lfkv \<times> bool" where
  "lfkv_cas mem kv k expected new now =
     (let found = fst (probe kv k) in
      if (case found of None \<Rightarrow> False
          | Some a \<Rightarrow> (case s_entry (rec_at kv a) of None \<Rightarrow> False | Some e \<Rightarrow> e_val e \<noteq> expected)) then (kv, False)
      else with_entry found now False (\<lambda>a e kv.
        (case new of
           None \<Rightarrow> (emit 2 (s_key (rec_at kv a)) None
                      ((put_entry a None kv)\<lparr>kcount := kcount kv - 1, retired := retired kv @ [e]\<rparr>), True)
         | Some v \<Rightarrow>
             if \<not> mem then (kv, False)
             else (emit 1 (s_key (rec_at kv a)) new (swap_entry a e \<lparr>e_val = new, e_expiry = e_expiry e\<rparr> kv), True))) kv)"


text \<open>
  \<open>lfkv_set_nx\<close>, which probes again after removing an expired entry and after finding its key
  on the way to an empty slot; \<open>None\<close> when it never returns.
\<close>

definition slot_install_if_null :: "nat \<Rightarrow> lfentry \<Rightarrow> lfkv \<Rightarrow> lfkv" where
  "slot_install_if_null a new kv =
     emit 1 (s_key (rec_at kv a)) (e_val new) ((put_entry a (Some new) kv)\<lparr>kcount := kcount kv + 1\<rparr>)"

partial_function (option) lfkv_set_nx :: "bool \<times> bool \<Rightarrow> bytes \<Rightarrow> nat option \<Rightarrow> int \<Rightarrow> lfkv \<Rightarrow> (lfkv \<times> bool) option" where
  "lfkv_set_nx mem k v now kv =
     (let h = bernstein_hash k; new = \<lparr>e_val = v, e_expiry = 0\<rparr> in
      case probe kv k of
        (Some a, _, _) \<Rightarrow>
          (case s_entry (rec_at kv a) of
             Some e \<Rightarrow>
               if entry_expired e now then lfkv_set_nx mem k v now (slot_retire_entry a e kv)
               else Some (kv, False)
           | None \<Rightarrow> if \<not> fst mem then Some (kv, False) else Some (slot_install_if_null a new kv, True))
      | (None, i, _) \<Rightarrow>
          if \<not> fst mem \<or> \<not> snd mem then Some (kv, False)
          else (case claim_slot kv h k i of
                  Claimed j \<Rightarrow> Some (publish j (slot_alloc h k new) v kv, True)
                | Existing a \<Rightarrow> lfkv_set_nx mem k v now kv
                | Full \<Rightarrow> Some (kv, False)))"

declare lfkv_set_nx.simps [code]

text \<open>The walks over the table.  The callback answers whether to stop, and its new context.\<close>

fun foreach_loop :: "lfkv \<Rightarrow> int \<Rightarrow> (bytes \<Rightarrow> nat \<Rightarrow> int \<Rightarrow> 'c \<Rightarrow> bool \<times> 'c) \<Rightarrow> nat list \<Rightarrow> 'c \<Rightarrow> 'c" where
  "foreach_loop kv now cb [] c = c"
| "foreach_loop kv now cb (i # is) c =
     (case slots kv ! i of
        None \<Rightarrow> foreach_loop kv now cb is c
      | Some a \<Rightarrow>
          (case s_entry (rec_at kv a) of
             None \<Rightarrow> foreach_loop kv now cb is c
           | Some e \<Rightarrow>
               (case e_val e of
                  None \<Rightarrow> foreach_loop kv now cb is c
                | Some v \<Rightarrow>
                    if entry_expired e now then foreach_loop kv now cb is c
                    else (let (stop, c') = cb (s_key (rec_at kv a)) v (e_expiry e) c in
                          if stop then c' else foreach_loop kv now cb is c'))))"

definition lfkv_foreach :: "lfkv \<Rightarrow> int \<Rightarrow> (bytes \<Rightarrow> nat \<Rightarrow> int \<Rightarrow> 'c \<Rightarrow> bool \<times> 'c) \<Rightarrow> 'c \<Rightarrow> 'c" where
  "lfkv_foreach kv now cb c = foreach_loop kv now cb [0..<nslots kv] c"

fun retire_loop :: "(lfentry \<Rightarrow> bool) \<Rightarrow> nat list \<Rightarrow> lfkv \<Rightarrow> nat \<Rightarrow> lfkv \<times> nat" where
  "retire_loop P [] kv n = (kv, n)"
| "retire_loop P (i # is) kv n =
     (case slots kv ! i of
        None \<Rightarrow> retire_loop P is kv n
      | Some a \<Rightarrow>
          (case s_entry (rec_at kv a) of
             None \<Rightarrow> retire_loop P is kv n
           | Some e \<Rightarrow> if P e then retire_loop P is (slot_retire_entry a e kv) (n + 1)
                       else retire_loop P is kv n))"

definition lfkv_evict_expired :: "lfkv \<Rightarrow> int \<Rightarrow> lfkv \<times> nat" where
  "lfkv_evict_expired kv now = retire_loop (\<lambda>e. entry_expired e now) [0..<nslots kv] kv 0"

definition lfkv_clear :: "lfkv \<Rightarrow> lfkv" where
  "lfkv_clear kv = fst (retire_loop (\<lambda>_. True) [0..<nslots kv] kv 0)"

text \<open>The entries that \<open>lfkv_destroy\<close> frees, in order.\<close>

definition lfkv_destroy :: "lfkv \<Rightarrow> lfentry list" where
  "lfkv_destroy kv = List.map_filter (\<lambda>s. case s of None \<Rightarrow> None | Some a \<Rightarrow> s_entry (rec_at kv a)) (slots kv)"

section \<open>The table as a map\<close>

definition entry_at :: "lfkv \<Rightarrow> nat \<Rightarrow> (bytes \<times> lfentry) option" where
  "entry_at kv i = (case slots kv ! i of None \<Rightarrow> None
     | Some a \<Rightarrow> map_option (\<lambda>e. (s_key (rec_at kv a), e)) (s_entry (rec_at kv a)))"

definition entries_map :: "nat \<Rightarrow> (nat \<Rightarrow> (bytes \<times> lfentry) option) \<Rightarrow> bytes \<rightharpoonup> lfentry" where
  "entries_map n E = map_of (List.map_filter E [0..<n])"

definition lfkv_map :: "lfkv \<Rightarrow> bytes \<rightharpoonup> lfentry" where
  "lfkv_map kv = entries_map (nslots kv) (entry_at kv)"

definition keys_unique :: "nat \<Rightarrow> (nat \<Rightarrow> (bytes \<times> lfentry) option) \<Rightarrow> bool" where
  "keys_unique n E = (\<forall>i < n. \<forall>j < n. \<forall>k e f. E i = Some (k, e) \<longrightarrow> E j = Some (k, f) \<longrightarrow> i = j)"

lemma map_filter_mem: "x \<in> set (List.map_filter E [0..<n]) \<longleftrightarrow> (\<exists>i < n. E i = Some x)"
proof -
  have "x \<in> set (List.map_filter E xs) \<longleftrightarrow> (\<exists>i \<in> set xs. E i = Some x)" for xs
    by (induction xs) (auto simp: List.map_filter_simps split: option.splits)
  then show ?thesis by auto
qed

lemma entries_map_iff:
  assumes "keys_unique n E"
  shows "entries_map n E k = Some e \<longleftrightarrow> (\<exists>i < n. E i = Some (k, e))"
proof
  assume "entries_map n E k = Some e"
  then have "(k, e) \<in> set (List.map_filter E [0..<n])" unfolding entries_map_def by (rule map_of_SomeD)
  then show "\<exists>i < n. E i = Some (k, e)" by (simp add: map_filter_mem)
next
  assume a: "\<exists>i < n. E i = Some (k, e)"
  then have "k \<in> fst ` set (List.map_filter E [0..<n])" using map_filter_mem by (metis fst_conv image_eqI)
  then obtain f where f: "entries_map n E k = Some f"
    unfolding entries_map_def by (metis map_of_eq_None_iff not_Some_eq)
  then have "(k, f) \<in> set (List.map_filter E [0..<n])" unfolding entries_map_def by (rule map_of_SomeD)
  then obtain j where "j < n" "E j = Some (k, f)" by (auto simp: map_filter_mem)
  with a assms have "e = f" unfolding keys_unique_def by (metis Pair_inject option.inject)
  then show "entries_map n E k = Some e" using f by simp
qed

lemma entries_map_None:
  "entries_map n E k = None \<longleftrightarrow> (\<forall>i < n. \<forall>e. E i \<noteq> Some (k, e))"
proof -
  have "k \<in> fst ` S \<longleftrightarrow> (\<exists>e. (k, e) \<in> S)" for S :: "(bytes \<times> lfentry) set" by force
  then have "k \<notin> fst ` set (List.map_filter E [0..<n]) \<longleftrightarrow> (\<forall>i < n. \<forall>e. E i \<noteq> Some (k, e))"
    by (simp add: map_filter_mem) blast
  then show ?thesis unfolding entries_map_def map_of_eq_None_iff .
qed

text \<open>An entry written at an index where its key may be, and one removed.\<close>

lemma entries_put:
  assumes "keys_unique n E" "i < n" "\<And>j f. j < n \<Longrightarrow> E j = Some (k, f) \<Longrightarrow> j = i"
    and "\<And>k' f. E i = Some (k', f) \<Longrightarrow> k' = k"
  shows "keys_unique n (E(i := Some (k, e)))" "entries_map n (E(i := Some (k, e))) = (entries_map n E)(k \<mapsto> e)"
proof -
  show u: "keys_unique n (E(i := Some (k, e)))"
    unfolding keys_unique_def
  proof (intro allI impI)
    fix a b k' e' f'
    assume h: "a < n" "b < n" "(E(i := Some (k, e))) a = Some (k', e')" "(E(i := Some (k, e))) b = Some (k', f')"
    consider "a = i" "b = i" | "a = i" "b \<noteq> i" | "a \<noteq> i" "b = i" | "a \<noteq> i" "b \<noteq> i" by blast
    then show "a = b"
    proof cases
      case 2
      then show ?thesis using h assms(3) [of b f'] by simp
    next
      case 3
      then show ?thesis using h assms(3) [of a e'] by simp
    next
      case 4
      then show ?thesis using h assms(1) unfolding keys_unique_def by auto
    qed simp
  qed
  show "entries_map n (E(i := Some (k, e))) = (entries_map n E)(k \<mapsto> e)"
  proof
    fix k'
    have "entries_map n (E(i := Some (k, e))) k' = Some f \<longleftrightarrow> ((entries_map n E)(k \<mapsto> e)) k' = Some f" for f
    proof (cases "k' = k")
      case True
      have "E j \<noteq> Some (k, f)" if "j < n" "j \<noteq> i" for j using assms(3) that by blast
      then have "(\<exists>j < n. (E(i := Some (k, e))) j = Some (k, f)) \<longleftrightarrow> f = e" using assms(2) by auto
      then show ?thesis unfolding True entries_map_iff [OF u] by auto
    next
      case False
      have "E i \<noteq> Some (k', f)" using False assms(4) by blast
      then have "(\<exists>j < n. (E(i := Some (k, e))) j = Some (k', f)) \<longleftrightarrow> (\<exists>j < n. E j = Some (k', f))"
        using False by (metis fun_upd_apply option.inject prod.inject)
      moreover have "(M(k := x)) k' = M k'" for M :: "bytes \<rightharpoonup> lfentry" and x using False by simp
      ultimately show ?thesis unfolding entries_map_iff [OF u] by (simp only: entries_map_iff [OF assms(1)])
    qed
    then show "entries_map n (E(i := Some (k, e))) k' = ((entries_map n E)(k \<mapsto> e)) k'"
      by (metis not_Some_eq)
  qed
qed

lemma entries_del:
  assumes "keys_unique n E" "i < n" "E i = Some (k, e)"
  shows "keys_unique n (E(i := None))" "entries_map n (E(i := None)) = (entries_map n E)(k := None)"
proof -
  show u: "keys_unique n (E(i := None))"
    unfolding keys_unique_def
  proof (intro allI impI)
    fix a b k' e' f'
    assume h: "a < n" "b < n" "(E(i := None)) a = Some (k', e')" "(E(i := None)) b = Some (k', f')"
    then have "E a = Some (k', e')" "E b = Some (k', f')" by (auto split: if_splits)
    then show "a = b" using h(1,2) assms(1) unfolding keys_unique_def by blast
  qed
  show "entries_map n (E(i := None)) = (entries_map n E)(k := None)"
  proof
    fix k'
    have "entries_map n (E(i := None)) k' = Some f \<longleftrightarrow> ((entries_map n E)(k := None)) k' = Some f" for f
    proof (cases "k' = k")
      case True
      have "E j \<noteq> Some (k, f)" if "j < n" "j \<noteq> i" for j
        using assms that unfolding keys_unique_def by blast
      then have "\<not> (\<exists>j < n. (E(i := None)) j = Some (k, f))" by simp
      then show ?thesis unfolding True entries_map_iff [OF u] by simp
    next
      case False
      have "E i \<noteq> Some (k', f)" using False assms(3) by simp
      then have "(\<exists>j < n. (E(i := None)) j = Some (k', f)) \<longleftrightarrow> (\<exists>j < n. E j = Some (k', f))"
        by (metis fun_upd_apply option.distinct(1))
      moreover have "(M(k := x)) k' = M k'" for M :: "bytes \<rightharpoonup> lfentry" and x using False by simp
      ultimately show ?thesis unfolding entries_map_iff [OF u] by (simp only: entries_map_iff [OF assms(1)])
    qed
    then show "entries_map n (E(i := None)) k' = ((entries_map n E)(k := None)) k'" by (metis not_Some_eq)
  qed
qed


section \<open>The invariant and what a probe finds\<close>

definition key_home :: "lfkv \<Rightarrow> bytes \<Rightarrow> nat" where
  "key_home kv k = home_index (bernstein_hash k) (nslots kv)"

text \<open>Every index before \<open>i\<close> on the probe sequence of \<open>k\<close> is taken.\<close>

definition reached :: "lfkv \<Rightarrow> bytes \<Rightarrow> nat \<Rightarrow> bool" where
  "reached kv k i = (\<exists>m < nslots kv. pos (nslots kv) (key_home kv k) m = i
     \<and> (\<forall>m' < m. slots kv ! pos (nslots kv) (key_home kv k) m' \<noteq> None))"

definition key_legal :: "bytes \<Rightarrow> bool" where
  "key_legal k = (length k < 2 ^ 32)"

definition rec_ok :: "lfslot \<Rightarrow> bool" where
  "rec_ok s = (khash s = bernstein_hash (s_key s) \<and> klen s = of_nat (length (s_key s)) \<and> key_legal (s_key s))"

definition live_count :: "nat \<Rightarrow> (nat \<Rightarrow> (bytes \<times> lfentry) option) \<Rightarrow> nat" where
  "live_count n E = card {i. i < n \<and> E i \<noteq> None}"

definition lf_ok :: "lfkv \<Rightarrow> bool" where
  "lf_ok kv =
     ((\<exists>b \<le> 62. nslots kv = 2 ^ b)
      \<and> (\<forall>i a. i < nslots kv \<longrightarrow> slots kv ! i = Some a \<longrightarrow> a < length (records kv) \<and> rec_ok (rec_at kv a))
      \<and> (\<forall>i j a. i < nslots kv \<longrightarrow> j < nslots kv \<longrightarrow> slots kv ! i = Some a \<longrightarrow> slots kv ! j = Some a \<longrightarrow> i = j)
      \<and> keys_unique (nslots kv) (entry_at kv)
      \<and> (\<forall>i k e. i < nslots kv \<longrightarrow> entry_at kv i = Some (k, e) \<longrightarrow> reached kv k i)
      \<and> kcount kv = of_nat (live_count (nslots kv) (entry_at kv)))"

lemma lf_okD:
  assumes "lf_ok kv"
  shows "\<exists>b \<le> 62. nslots kv = 2 ^ b" "0 < nslots kv"
    and "i < nslots kv \<Longrightarrow> slots kv ! i = Some a \<Longrightarrow> a < length (records kv) \<and> rec_ok (rec_at kv a)"
    and "i < nslots kv \<Longrightarrow> j < nslots kv \<Longrightarrow> slots kv ! i = Some a \<Longrightarrow> slots kv ! j = Some a \<Longrightarrow> i = j"
    and "keys_unique (nslots kv) (entry_at kv)"
    and "i < nslots kv \<Longrightarrow> entry_at kv i = Some (k, e) \<Longrightarrow> reached kv k i"
    and "kcount kv = of_nat (live_count (nslots kv) (entry_at kv))"
proof -
  show b: "\<exists>b \<le> 62. nslots kv = 2 ^ b" using assms by (simp add: lf_ok_def)
  then show "0 < nslots kv" by auto
qed (use assms in \<open>unfold lf_ok_def, blast+\<close>)

lemma and_pow2_nat: "(x :: nat) AND (2 ^ b - 1) = x mod 2 ^ b"
  by (simp only: mask_eq_exp_minus_1 [symmetric] take_bit_eq_mask [symmetric] take_bit_eq_mod)

lemma lf_index:
  assumes "lf_ok kv"
  shows "home_index h (nslots kv) < nslots kv" "after_index i (nslots kv) = (i + 1) mod nslots kv"
    "after_index (pos (nslots kv) h' m) (nslots kv) = pos (nslots kv) h' (Suc m)"
proof -
  obtain b where b: "nslots kv = 2 ^ b" using lf_okD(1) [OF assms] by blast
  show "home_index h (nslots kv) < nslots kv" unfolding home_index_def b and_pow2_nat by simp
  show a: "after_index i (nslots kv) = (i + 1) mod nslots kv" for i unfolding after_index_def b and_pow2_nat by simp
  show "after_index (pos (nslots kv) h' m) (nslots kv) = pos (nslots kv) h' (Suc m)"
    unfolding a by (simp add: pos_def mod_Suc_eq)
qed

lemma entry_at_Some: "entry_at kv i = Some (k, e) \<longleftrightarrow>
    (\<exists>a. slots kv ! i = Some a \<and> s_key (rec_at kv a) = k \<and> s_entry (rec_at kv a) = Some e)"
  by (auto simp: entry_at_def split: option.splits)

lemma key_eq_iff:
  assumes "rec_ok s" "key_legal k"
  shows "slot_key_eq s (bernstein_hash k) k = (s_key s = k)"
proof -
  have "unat (of_nat (length (s_key s)) :: u32) = length (s_key s)"
    using assms(1) by (simp add: rec_ok_def key_legal_def unsigned_of_nat take_bit_nat_eq_self)
  then show ?thesis using assms by (auto simp: slot_key_eq_def rec_ok_def)
qed

definition probe_result :: "lfkv \<Rightarrow> bytes \<Rightarrow> nat option \<times> nat \<times> nat option \<Rightarrow> bool" where
  "probe_result kv k r = (case r of
      (Some a, i, tb) \<Rightarrow> i < nslots kv \<and> slots kv ! i = Some a \<and> (\<exists>e. entry_at kv i = Some (k, e))
    | (None, i, tb) \<Rightarrow>
        i < nslots kv \<and> (\<forall>j < nslots kv. \<forall>e. entry_at kv j \<noteq> Some (k, e))
        \<and> (slots kv ! i = None \<and> reached kv k i \<or> (\<forall>j < nslots kv. slots kv ! j \<noteq> None))
        \<and> (case tb of None \<Rightarrow> (slots kv ! i = None \<or> (\<forall>j < nslots kv. entry_at kv j \<noteq> None))
           | Some t \<Rightarrow> t < nslots kv \<and> slots kv ! t \<noteq> None \<and> entry_at kv t = None \<and> reached kv k t))"

lemma probe_loop_spec:
  assumes "lf_ok kv" "key_legal k" "m + p = nslots kv"
    and "\<forall>m' < m. slots kv ! pos (nslots kv) (key_home kv k) m' \<noteq> None
          \<and> (\<forall>e. entry_at kv (pos (nslots kv) (key_home kv k) m') \<noteq> Some (k, e))"
    and "case tomb of None \<Rightarrow> \<forall>m' < m. entry_at kv (pos (nslots kv) (key_home kv k) m') \<noteq> None
          | Some t \<Rightarrow> t < nslots kv \<and> slots kv ! t \<noteq> None \<and> entry_at kv t = None \<and> reached kv k t"
  shows "probe_result kv k (probe_loop kv (bernstein_hash k) k p (pos (nslots kv) (key_home kv k) m) tomb)"
  using assms(3-5)
proof (induction p arbitrary: m tomb)
  case 0
  let ?n = "nslots kv" and ?h = "key_home kv k"
  note hl = lf_index(1) [OF assms(1), of "bernstein_hash k", folded key_home_def]
  have all: "slots kv ! j \<noteq> None \<and> (\<forall>e. entry_at kv j \<noteq> Some (k, e))
      \<and> (tomb = None \<longrightarrow> entry_at kv j \<noteq> None)" if j: "j < ?n" for j
  proof -
    obtain m' where m': "m' < ?n" "pos ?n ?h m' = j" using pos_dist [OF hl j] by blast
    then show ?thesis using 0 by (auto split: option.splits)
  qed
  have r: "probe_loop kv (bernstein_hash k) k 0 (pos ?n ?h m) tomb = (None, ?h, tomb)" by (simp add: key_home_def)
  show ?case unfolding r probe_result_def using all hl 0 by (auto split: option.splits)
next
  case (Suc p)
  let ?n = "nslots kv" and ?h = "key_home kv k"
  let ?i = "pos ?n ?h m"
  note hl = lf_index(1) [OF assms(1), of "bernstein_hash k", folded key_home_def]
  have il: "?i < ?n" using lf_okD(2) [OF assms(1)] by (simp add: pos_def)
  have ml: "m < ?n" using Suc.prems(1) by simp
  have ri: "reached kv k ?i" unfolding reached_def using Suc.prems(2) ml by blast
  note nx = lf_index(3) [OF assms(1), of ?h m]
  show ?case
  proof (cases "slots kv ! ?i")
    case None
    have no: "entry_at kv j \<noteq> Some (k, e)" if j: "j < ?n" for j e
    proof
      assume a: "entry_at kv j = Some (k, e)"
      then obtain m0 where m0: "m0 < ?n" "pos ?n ?h m0 = j" "\<forall>m' < m0. slots kv ! pos ?n ?h m' \<noteq> None"
        using lf_okD(6) [OF assms(1) j] unfolding reached_def by blast
      have "m0 \<le> m" using m0(3) None by (meson linorder_not_le)
      moreover have "m0 \<noteq> m" using a m0(2) None by (auto simp: entry_at_def)
      ultimately show False using Suc.prems(2) a m0(2) by auto
    qed
    have "probe_loop kv (bernstein_hash k) k (Suc p) ?i tomb = (None, ?i, tomb)" using None by simp
    then show ?thesis unfolding probe_result_def using il ri None no Suc.prems(3) by (auto split: option.splits)
  next
    case (Some a)
    have ra: "rec_ok (rec_at kv a)" using lf_okD(3) [OF assms(1) il Some] by blast
    show ?thesis
    proof (cases "s_entry (rec_at kv a)")
      case None
      then have e: "entry_at kv ?i = None" using Some by (simp add: entry_at_def)
      let ?t = "if tomb = None then Some ?i else tomb"
      have s: "probe_loop kv (bernstein_hash k) k (Suc p) ?i tomb
          = probe_loop kv (bernstein_hash k) k p (pos ?n ?h (Suc m)) ?t"
        using Some None nx by simp
      show ?thesis unfolding s
      proof (rule Suc.IH)
        show "\<forall>m' < Suc m. slots kv ! pos ?n ?h m' \<noteq> None \<and> (\<forall>e. entry_at kv (pos ?n ?h m') \<noteq> Some (k, e))"
          using Suc.prems(2) Some e by (auto simp: less_Suc_eq)
        show "case ?t of None \<Rightarrow> \<forall>m' < Suc m. entry_at kv (pos ?n ?h m') \<noteq> None
          | Some t \<Rightarrow> t < ?n \<and> slots kv ! t \<noteq> None \<and> entry_at kv t = None \<and> reached kv k t"
          using Suc.prems(3) il ri Some e by (cases tomb) simp_all
      qed (use Suc.prems(1) in simp)
    next
      case (Some e)
      note sa = \<open>slots kv ! ?i = Some a\<close>
      show ?thesis
      proof (cases "s_key (rec_at kv a) = k")
        case True
        then have "probe_loop kv (bernstein_hash k) k (Suc p) ?i tomb = (Some a, ?i, tomb)"
          using sa Some key_eq_iff [OF ra assms(2)] by simp
        then show ?thesis unfolding probe_result_def using il sa True Some by (auto simp: entry_at_def)
      next
        case False
        then have ne: "\<forall>f. entry_at kv ?i \<noteq> Some (k, f)" and en: "entry_at kv ?i \<noteq> None"
          using sa Some by (simp_all add: entry_at_def)
        have s: "probe_loop kv (bernstein_hash k) k (Suc p) ?i tomb
            = probe_loop kv (bernstein_hash k) k p (pos ?n ?h (Suc m)) tomb"
          using sa Some False key_eq_iff [OF ra assms(2)] nx by simp
        show ?thesis unfolding s
        proof (rule Suc.IH)
          show "\<forall>m' < Suc m. slots kv ! pos ?n ?h m' \<noteq> None \<and> (\<forall>e. entry_at kv (pos ?n ?h m') \<noteq> Some (k, e))"
            using Suc.prems(2) sa ne by (auto simp: less_Suc_eq)
          show "case tomb of None \<Rightarrow> \<forall>m' < Suc m. entry_at kv (pos ?n ?h m') \<noteq> None
            | Some t \<Rightarrow> t < ?n \<and> slots kv ! t \<noteq> None \<and> entry_at kv t = None \<and> reached kv k t"
            using Suc.prems(3) en by (cases tomb) (auto simp: less_Suc_eq)
        qed (use Suc.prems(1) in simp)
      qed
    qed
  qed
qed

lemma probe_spec: "lf_ok kv \<Longrightarrow> key_legal k \<Longrightarrow> probe_result kv k (probe kv k)"
proof -
  assume a: "lf_ok kv" "key_legal k"
  have "pos (nslots kv) (key_home kv k) 0 = key_home kv k"
    using lf_index(1) [OF a(1)] by (simp add: pos_0 key_home_def)
  then show ?thesis
    using probe_loop_spec [OF a, of 0 "nslots kv" None] by (simp add: probe_def Let_def key_home_def)
qed


section \<open>What the updates do to the map\<close>

definition same_table :: "lfkv \<Rightarrow> lfkv \<Rightarrow> bool" where
  "same_table kv kv' = (records kv' = records kv \<and> slots kv' = slots kv \<and> kcount kv' = kcount kv)"

lemma same_table_ok:
  assumes "same_table kv kv'"
  shows "lf_ok kv' = lf_ok kv" "lfkv_map kv' = lfkv_map kv" "nslots kv' = nslots kv"
proof -
  have r: "rec_at kv' = rec_at kv" "nslots kv' = nslots kv"
    using assms by (simp_all add: same_table_def rec_at_def nslots_def fun_eq_iff)
  have "entry_at kv' = entry_at kv" unfolding fun_eq_iff entry_at_def r using assms by (simp add: same_table_def)
  with r have e: "entry_at kv' = entry_at kv" "nslots kv' = nslots kv" "rec_at kv' = rec_at kv" by simp_all
  then show "lfkv_map kv' = lfkv_map kv" "nslots kv' = nslots kv" by (simp_all add: lfkv_map_def)
  have "reached kv' = reached kv" using assms e by (simp add: reached_def same_table_def key_home_def fun_eq_iff)
  then show "lf_ok kv' = lf_ok kv" using assms e by (simp add: lf_ok_def same_table_def)
qed

lemma same_table_simps [simp]: "same_table kv kv" "same_table kv (emit op k v kv)" "same_table kv (refexp x kv)"
  "same_table kv (kv\<lparr>retired := r\<rparr>)"
  by (auto simp: same_table_def emit_def refexp_def split: option.splits)

lemma same_table_trans: "same_table a b \<Longrightarrow> same_table b c \<Longrightarrow> same_table a c"
  by (simp add: same_table_def)

lemma entries_cong:
  assumes "\<And>j. j < n \<Longrightarrow> E j = E' j"
  shows "keys_unique n E = keys_unique n E'" "entries_map n E = entries_map n E'" "live_count n E = live_count n E'"
proof -
  show "keys_unique n E = keys_unique n E'" using assms by (auto simp: keys_unique_def)
  have "List.map_filter E [0..<n] = List.map_filter E' [0..<n]"
    using assms by (auto simp: List.map_filter_def intro!: map_cong filter_cong)
  then show "entries_map n E = entries_map n E'" by (simp add: entries_map_def)
  have "{i. i < n \<and> E i \<noteq> None} = {i. i < n \<and> E' i \<noteq> None}" using assms by auto
  then show "live_count n E = live_count n E'" by (simp add: live_count_def)
qed

lemma live_count_put: "i < n \<Longrightarrow> live_count n (E(i := Some x)) = (if E i = None then live_count n E + 1 else live_count n E)"
proof -
  assume i: "i < n"
  have "{j. j < n \<and> (E(i := Some x)) j \<noteq> None} = insert i {j. j < n \<and> E j \<noteq> None}" using i by auto
  then show ?thesis using i by (simp add: live_count_def card_insert_if)
qed

lemma live_count_del:
  assumes "i < n" "E i \<noteq> None"
  shows "live_count n E = live_count n (E(i := None)) + 1"
  using live_count_put [OF assms(1), of "E(i := None)" "the (E i)"] assms(2) by (auto simp: fun_upd_idem)

text \<open>The live record of a key.\<close>

definition live_rec :: "lfkv \<Rightarrow> nat \<Rightarrow> nat \<Rightarrow> bytes \<Rightarrow> lfentry \<Rightarrow> bool" where
  "live_rec kv i a k e = (i < nslots kv \<and> slots kv ! i = Some a \<and> s_key (rec_at kv a) = k \<and> s_entry (rec_at kv a) = Some e)"

lemma live_rec_entry: "live_rec kv i a k e \<Longrightarrow> i < nslots kv \<and> entry_at kv i = Some (k, e)"
  by (simp add: live_rec_def entry_at_def)

lemma live_rec_map: "lf_ok kv \<Longrightarrow> live_rec kv i a k e \<Longrightarrow> lfkv_map kv k = Some e"
  unfolding lfkv_map_def entries_map_iff [OF lf_okD(5)] using live_rec_entry by blast

lemma probe_cases:
  assumes "lf_ok kv" "key_legal k"
  obtains (absent) "fst (probe kv k) = None" "lfkv_map kv k = None"
  | (found) i a e where "fst (probe kv k) = Some a" "live_rec kv i a k e" "lfkv_map kv k = Some e"
proof -
  obtain f i tb where p: "probe kv k = (f, i, tb)" by (metis surj_pair)
  note r = probe_spec [OF assms, unfolded p probe_result_def, simplified]
  show ?thesis
  proof (cases f)
    case None
    then have "lfkv_map kv k = None" using r unfolding lfkv_map_def entries_map_None by simp
    then show ?thesis using absent p None by simp
  next
    case (Some a)
    then obtain e where "i < nslots kv" "slots kv ! i = Some a" "entry_at kv i = Some (k, e)" using r by auto
    then have l: "live_rec kv i a k e" by (auto simp: live_rec_def entry_at_def split: option.splits)
    show ?thesis using found [OF _ l live_rec_map [OF assms(1) l]] p Some by simp
  qed
qed

lemma rec_at_put: "a < length (records kv) \<Longrightarrow> rec_at (put_entry a x kv) b = (if b = a then (rec_at kv a)\<lparr>s_entry := x\<rparr> else rec_at kv b)"
  by (simp add: rec_at_def put_entry_def nth_list_update)

lemma put_entry_at:
  assumes "lf_ok kv" "live_rec kv i a k e" "j < nslots kv"
  shows "entry_at (put_entry a x kv) j = ((entry_at kv)(i := map_option (Pair k) x)) j"
proof -
  have s: "slots kv ! i = Some a" "i < nslots kv" "s_key (rec_at kv a) = k" using assms(2) by (simp_all add: live_rec_def)
  have al: "a < length (records kv)" using lf_okD(3) [OF assms(1) s(2,1)] by simp
  have inj: "slots kv ! j = Some a \<Longrightarrow> j = i" using lf_okD(4) [OF assms(1) assms(3) s(2) _ s(1)] by blast
  have sl: "slots (put_entry a x kv) = slots kv" by (simp add: put_entry_def)
  show ?thesis
  proof (cases "slots kv ! j")
    case None
    then have "j \<noteq> i" using s by auto
    then show ?thesis using None by (simp add: entry_at_def sl)
  next
    case (Some b)
    show ?thesis
    proof (cases "b = a")
      case True
      then have "j = i" using inj Some by simp
      then show ?thesis using s by (simp add: entry_at_def sl rec_at_put [OF al])
    next
      case False
      then have "j \<noteq> i" using s Some by auto
      then show ?thesis using Some False by (simp add: entry_at_def sl rec_at_put [OF al])
    qed
  qed
qed

lemma reached_slots: "slots kv' = slots kv \<Longrightarrow> reached kv' k i = reached kv k i"
  by (simp add: reached_def key_home_def nslots_def)

text \<open>Writing the entry of a live record, and removing it.\<close>

lemma put_entry_ok:
  assumes "lf_ok kv" "live_rec kv i a k e" "same_table (put_entry a x kv\<lparr>kcount := c\<rparr>) kv'"
    and "c = of_nat (live_count (nslots kv) ((entry_at kv)(i := map_option (Pair k) x)))"
  shows "lf_ok kv' \<and> nslots kv' = nslots kv \<and> lfkv_map kv' = (lfkv_map kv)(k := x)"
proof -
  let ?kv = "put_entry a x kv\<lparr>kcount := c\<rparr>" and ?n = "nslots kv"
  let ?E = "(entry_at kv)(i := map_option (Pair k) x)"
  have l: "i < ?n" "entry_at kv i = Some (k, e)" using live_rec_entry [OF assms(2)] by simp_all
  have sl: "slots ?kv = slots kv" "nslots ?kv = ?n" by (simp_all add: put_entry_def nslots_def)
  have s: "slots kv ! i = Some a" using assms(2) by (simp add: live_rec_def)
  have al: "a < length (records kv)" using lf_okD(3) [OF assms(1) l(1) s] by simp
  have ra: "rec_at ?kv b = (if b = a then (rec_at kv a)\<lparr>s_entry := x\<rparr> else rec_at kv b)" for b
    using rec_at_put [OF al, of x b] by (simp add: rec_at_def)
  have E: "entry_at ?kv j = ?E j" if "j < ?n" for j
  proof -
    have "entry_at ?kv j = entry_at (put_entry a x kv) j" by (simp add: entry_at_def rec_at_def split: option.split)
    then show ?thesis using put_entry_at [OF assms(1,2) that, of x] by simp
  qed
  note cong = entries_cong [of ?n "entry_at ?kv" ?E, OF E]
  have uq: "\<And>j f. j < ?n \<Longrightarrow> entry_at kv j = Some (k, f) \<Longrightarrow> j = i"
    using lf_okD(5) [OF assms(1)] l unfolding keys_unique_def by blast
  have up: "keys_unique ?n ?E \<and> entries_map ?n ?E = (entries_map ?n (entry_at kv))(k := x)"
  proof (cases x)
    case None
    then show ?thesis using entries_del [OF lf_okD(5) [OF assms(1)] l] by simp
  next
    case (Some y)
    then show ?thesis using entries_put [OF lf_okD(5) [OF assms(1)] l(1) uq, where e = y] l(2) by simp
  qed
  have "lf_ok ?kv"
    unfolding lf_ok_def sl(2)
  proof (intro conjI allI impI)
    fix j b assume j: "j < ?n" "slots ?kv ! j = Some b"
    then have "b < length (records kv) \<and> rec_ok (rec_at kv b)" using lf_okD(3) [OF assms(1)] sl by simp
    then show "b < length (records ?kv)" by (simp add: put_entry_def)
    show "rec_ok (rec_at ?kv b)"
      unfolding ra using \<open>b < length (records kv) \<and> rec_ok (rec_at kv b)\<close> by (auto simp: rec_ok_def)
  next
    fix j j' b assume "j < ?n" "j' < ?n" "slots ?kv ! j = Some b" "slots ?kv ! j' = Some b"
    then show "j = j'" using lf_okD(4) [OF assms(1)] sl by simp
  next
    fix j k' f assume j: "j < ?n" "entry_at ?kv j = Some (k', f)"
    then have "?E j = Some (k', f)" using E by simp
    then have "\<exists>f'. entry_at kv j = Some (k', f')" using l(2) by (cases "j = i"; cases x) auto
    then have "reached kv k' j" using lf_okD(6) [OF assms(1) j(1)] by blast
    then show "reached ?kv k' j" using reached_slots [OF sl(1)] by simp
  next
    show "keys_unique ?n (entry_at ?kv)" using cong(1) up by simp
    show "kcount ?kv = of_nat (live_count ?n (entry_at ?kv))" using cong(3) assms(4) by simp
  qed (use lf_okD(1) [OF assms(1)] in blast)
  moreover have "lfkv_map ?kv = (lfkv_map kv)(k := x)" using cong(2) up sl by (simp add: lfkv_map_def)
  ultimately show ?thesis using same_table_ok [OF assms(3)] sl(2) by simp
qed

lemma lf_replace_ok:
  assumes "lf_ok kv" "live_rec kv i a k e" "same_table (put_entry a (Some e') kv) kv'"
  shows "lf_ok kv' \<and> nslots kv' = nslots kv \<and> lfkv_map kv' = (lfkv_map kv)(k \<mapsto> e')"
proof -
  have l: "i < nslots kv" "entry_at kv i = Some (k, e)" using live_rec_entry [OF assms(2)] by simp_all
  have "kcount kv = of_nat (live_count (nslots kv) ((entry_at kv)(i := map_option (Pair k) (Some e'))))"
    using lf_okD(7) [OF assms(1)] live_count_put [OF l(1), of "entry_at kv" "(k, e')"] l(2) by simp
  moreover have "same_table (put_entry a (Some e') kv\<lparr>kcount := kcount kv\<rparr>) kv'"
    using assms(3) by (simp add: same_table_def put_entry_def)
  ultimately show ?thesis using put_entry_ok [OF assms(1,2)] by blast
qed

lemma lf_remove_ok:
  assumes "lf_ok kv" "live_rec kv i a k e" "same_table ((put_entry a None kv)\<lparr>kcount := kcount kv - 1\<rparr>) kv'"
  shows "lf_ok kv' \<and> nslots kv' = nslots kv \<and> lfkv_map kv' = (lfkv_map kv)(k := None)"
proof -
  have l: "i < nslots kv" "entry_at kv i = Some (k, e)" using live_rec_entry [OF assms(2)] by simp_all
  have "kcount kv - 1 = of_nat (live_count (nslots kv) ((entry_at kv)(i := map_option (Pair k) None)))"
    using lf_okD(7) [OF assms(1)] live_count_del [of i "nslots kv" "entry_at kv"] l by simp
  then show ?thesis using put_entry_ok [OF assms] by blast
qed


lemma publish_ok:
  assumes "lf_ok kv" "key_legal k" "i < nslots kv" "entry_at kv i = None" "reached kv k i"
    and "\<forall>j < nslots kv. \<forall>f. entry_at kv j \<noteq> Some (k, f)"
  shows "lf_ok (publish i (slot_alloc (bernstein_hash k) k e) v kv)
    \<and> nslots (publish i (slot_alloc (bernstein_hash k) k e) v kv) = nslots kv
    \<and> lfkv_map (publish i (slot_alloc (bernstein_hash k) k e) v kv) = (lfkv_map kv)(k \<mapsto> e)"
proof -
  let ?s = "slot_alloc (bernstein_hash k) k e" and ?n = "nslots kv" and ?r = "length (records kv)"
  let ?kv = "kv\<lparr>records := records kv @ [?s], slots := (slots kv)[i := Some ?r], kcount := kcount kv + 1\<rparr>"
  let ?E = "(entry_at kv)(i := Some (k, e))"
  have n: "nslots ?kv = ?n" by (simp add: nslots_def)
  have il: "i < length (slots kv)" using assms(3) by (simp add: nslots_def)
  have sl': "(slots kv)[i := Some ?r] ! j = (if j = i then Some ?r else slots kv ! j)" for j
    using il by (simp add: nth_list_update)
  then have sl: "slots ?kv ! j = (if j = i then Some ?r else slots kv ! j)" for j by simp
  have ra: "rec_at ?kv b = (if b = ?r then ?s else rec_at kv b)" if "b \<le> ?r" for b
    using that by (simp add: rec_at_def nth_append)
  have old: "b < ?r \<and> rec_ok (rec_at kv b)" if "j < ?n" "slots kv ! j = Some b" for j b using lf_okD(3) [OF assms(1) that] .
  have E: "entry_at ?kv j = ?E j" if j: "j < ?n" for j
  proof (cases "j = i")
    case True
    then show ?thesis using ra [of ?r] by (simp add: entry_at_def sl' slot_alloc_def)
  next
    case False
    have "entry_at ?kv j = entry_at kv j"
    proof (cases "slots kv ! j")
      case None
      then show ?thesis using False by (simp add: entry_at_def sl')
    next
      case (Some b)
      then have "rec_at ?kv b = rec_at kv b" using old [OF j Some] ra [of b] by simp
      then show ?thesis using Some False by (simp add: entry_at_def sl')
    qed
    then show ?thesis using False by simp
  qed
  note cong = entries_cong [of ?n "entry_at ?kv" ?E, OF E]
  have uq: "\<And>j f. j < ?n \<Longrightarrow> entry_at kv j = Some (k, f) \<Longrightarrow> j = i" using assms(6) by blast
  note put = entries_put [OF lf_okD(5) [OF assms(1)] assms(3) uq, where e = e]
  have mono: "reached ?kv k' j" if "reached kv k' j" for k' j
    using that unfolding reached_def key_home_def n by (metis sl option.distinct(1))
  have "lf_ok ?kv"
    unfolding lf_ok_def n
  proof (intro conjI allI impI)
    fix j b assume j: "j < ?n" "slots ?kv ! j = Some b"
    have "b < ?r \<and> rec_ok (rec_at kv b) \<or> b = ?r" using old [of j b] j sl by (auto split: if_splits)
    then show "b < length (records ?kv)" "rec_ok (rec_at ?kv b)"
      using ra [of b] assms(2) by (auto simp: rec_ok_def slot_alloc_def)
  next
    fix j j' b assume j: "j < ?n" "j' < ?n" "slots ?kv ! j = Some b" "slots ?kv ! j' = Some b"
    have fresh: "slots kv ! x = Some ?r \<Longrightarrow> x < ?n \<Longrightarrow> False" for x using old [of x ?r] by simp
    consider "j = i" "j' = i" | "j = i" "j' \<noteq> i" | "j \<noteq> i" "j' = i" | "j \<noteq> i" "j' \<noteq> i" by blast
    then show "j = j'"
    proof cases
      case 2
      then have "b = ?r" "slots kv ! j' = Some b" using j(3,4) unfolding sl by simp_all
      then show ?thesis using fresh j(2) by blast
    next
      case 3
      then have "b = ?r" "slots kv ! j = Some b" using j(3,4) unfolding sl by simp_all
      then show ?thesis using fresh j(1) by blast
    next
      case 4
      then have "slots kv ! j = Some b" "slots kv ! j' = Some b" using j(3,4) unfolding sl by simp_all
      then show ?thesis using lf_okD(4) [OF assms(1) j(1,2)] by blast
    qed simp
  next
    fix j k' f assume j: "j < ?n" "entry_at ?kv j = Some (k', f)"
    show "reached ?kv k' j"
    proof (cases "j = i")
      case True
      then have "k' = k" using E [OF j(1)] j(2) by simp
      then show ?thesis using mono [OF assms(5)] True by simp
    next
      case False
      then have "entry_at kv j = Some (k', f)" using E [OF j(1)] j(2) by simp
      then show ?thesis using mono lf_okD(6) [OF assms(1) j(1)] by blast
    qed
  next
    show "keys_unique ?n (entry_at ?kv)" using cong(1) put(1) assms(4) by simp
    have "live_count ?n ?E = live_count ?n (entry_at kv) + 1" using live_count_put [OF assms(3), of "entry_at kv"] assms(4) by simp
    then show "kcount ?kv = of_nat (live_count ?n (entry_at ?kv))" using cong(3) lf_okD(7) [OF assms(1)] by simp
  qed (use lf_okD(1) [OF assms(1)] in blast)
  then have a: "lf_ok ?kv \<and> nslots ?kv = ?n \<and> lfkv_map ?kv = (lfkv_map kv)(k \<mapsto> e)"
    using cong(2) put(2) assms(4) n by (simp add: lfkv_map_def)
  have "same_table ?kv (publish i ?s v kv)" by (simp add: publish_def)
  from same_table_ok [OF this] a show ?thesis by (simp only:)
qed

section \<open>Claiming an index\<close>

lemma claim_empty: "slots kv ! i = None \<Longrightarrow> claim_slot kv h k i = Claimed i"
  by (simp add: claim_slot_def)

text \<open>In a table without an empty index the walk ends without one, at a record of the key or not at all.\<close>

lemma claim_walk_taken:
  assumes "lf_ok kv" "\<forall>j < nslots kv. slots kv ! j \<noteq> None" "h < nslots kv"
  shows "(\<forall>j. claim_walk kv hk k p (pos (nslots kv) h m) \<noteq> Claimed j)
   \<and> (claim_walk kv hk k p (pos (nslots kv) h m) = Full) =
      (\<forall>m' a. m \<le> m' \<longrightarrow> m' < m + p \<longrightarrow> slots kv ! pos (nslots kv) h m' = Some a \<longrightarrow> \<not> slot_key_eq (rec_at kv a) hk k)"
proof (induction p arbitrary: m)
  case (Suc p)
  have "pos (nslots kv) h m < nslots kv" using lf_okD(2) [OF assms(1)] by (simp add: pos_def)
  then obtain a where a: "slots kv ! pos (nslots kv) h m = Some a" using assms(2) by blast
  show ?case
  proof (cases "slot_key_eq (rec_at kv a) hk k")
    case True
    then have "claim_walk kv hk k (Suc p) (pos (nslots kv) h m) = Existing a" using a by simp
    then show ?thesis using a True by (auto intro: exI [of _ m])
  next
    case False
    have e: "claim_walk kv hk k (Suc p) (pos (nslots kv) h m) = claim_walk kv hk k p (pos (nslots kv) h (Suc m))"
      using a False lf_index(3) [OF assms(1), of h m] by simp
    have "m \<le> m' \<longleftrightarrow> m' = m \<or> Suc m \<le> m'" for m' by auto
    then have "(\<forall>m' a. m \<le> m' \<longrightarrow> m' < m + Suc p \<longrightarrow> slots kv ! pos (nslots kv) h m' = Some a \<longrightarrow> \<not> slot_key_eq (rec_at kv a) hk k)
        = (\<forall>m' a. Suc m \<le> m' \<longrightarrow> m' < Suc m + p \<longrightarrow> slots kv ! pos (nslots kv) h m' = Some a \<longrightarrow> \<not> slot_key_eq (rec_at kv a) hk k)"
      using a False by auto
    then show ?thesis using Suc.IH [of "Suc m"] e by simp
  qed
qed auto

lemma claim_taken:
  assumes "lf_ok kv" "key_legal k" "\<forall>j < nslots kv. slots kv ! j \<noteq> None" "i < nslots kv"
  shows "claim_slot kv (bernstein_hash k) k i \<noteq> Claimed j"
    and "claim_slot kv (bernstein_hash k) k i = Full
      \<longleftrightarrow> (\<forall>j < nslots kv. \<forall>a. slots kv ! j = Some a \<longrightarrow> s_key (rec_at kv a) \<noteq> k)"
proof -
  let ?n = "nslots kv" and ?h = "bernstein_hash k"
  obtain a where a: "slots kv ! i = Some a" using assms(3,4) by blast
  have eq: "slot_key_eq (rec_at kv b) ?h k = (s_key (rec_at kv b) = k)" if "j < ?n" "slots kv ! j = Some b" for j b
    using key_eq_iff assms(2) lf_okD(3) [OF assms(1) that] by blast
  have p1: "after_index i ?n = pos ?n i 1" using lf_index(2) [OF assms(1), of i] by (simp add: pos_def)
  note w = claim_walk_taken [OF assms(1,3,4), of ?h k ?n 1, folded p1]
  show "claim_slot kv ?h k i \<noteq> Claimed j" using a w by (simp add: claim_slot_def)
  have cover: "(\<forall>m' b. 1 \<le> m' \<longrightarrow> m' < 1 + ?n \<longrightarrow> slots kv ! pos ?n i m' = Some b \<longrightarrow> \<not> slot_key_eq (rec_at kv b) ?h k)
      \<longleftrightarrow> (\<forall>j < ?n. \<forall>b. slots kv ! j = Some b \<longrightarrow> s_key (rec_at kv b) \<noteq> k)" (is "?L = ?R")
  proof
    assume ?L
    show ?R
    proof (intro allI impI)
      fix j b assume j: "j < ?n" "slots kv ! j = Some b"
      obtain m where m: "m < ?n" "pos ?n i m = j" using pos_dist [OF assms(4) j(1)] by blast
      have "pos ?n i (if m = 0 then ?n else m) = j" using m(2) by (auto simp: pos_def)
      moreover have "1 \<le> (if m = 0 then ?n else m)" "(if m = 0 then ?n else m) < 1 + ?n"
        using m(1) lf_okD(2) [OF assms(1)] by auto
      ultimately obtain m' where "1 \<le> m'" "m' < 1 + ?n" "pos ?n i m' = j" by blast
      then show "s_key (rec_at kv b) \<noteq> k" using \<open>?L\<close> j eq by blast
    qed
  next
    assume r: ?R
    have "pos ?n i m' < ?n" for m' using lf_okD(2) [OF assms(1)] by (simp add: pos_def)
    then show ?L using r eq by blast
  qed
  show "claim_slot kv ?h k i = Full \<longleftrightarrow> (\<forall>j < ?n. \<forall>a. slots kv ! j = Some a \<longrightarrow> s_key (rec_at kv a) \<noteq> k)"
    using w cover a eq [OF assms(4) a] assms(4) by (auto simp: claim_slot_def)
qed


section \<open>Sessions\<close>

datatype lf_op =
    L_set bytes "nat option"
  | L_get bytes
  | L_peek bytes
  | L_del bytes
  | L_set_expiry bytes int
  | L_get_expiry bytes
  | L_touch bytes "nat option" int
  | L_set_xx bytes "nat option"
  | L_cas bytes "nat option" "nat option"

datatype lf_res = R_val "nat option" | R_ok bool | R_set bool | R_ts int

fun lf_key :: "lf_op \<Rightarrow> bytes" where
  "lf_key (L_set k v) = k"
| "lf_key (L_get k) = k"
| "lf_key (L_peek k) = k"
| "lf_key (L_del k) = k"
| "lf_key (L_set_expiry k ts) = k"
| "lf_key (L_get_expiry k) = k"
| "lf_key (L_touch k x ts) = k"
| "lf_key (L_set_xx k v) = k"
| "lf_key (L_cas k x v) = k"

text \<open>An operation at a time, with enough memory.\<close>

fun lf_do :: "lf_op \<Rightarrow> int \<Rightarrow> lfkv \<Rightarrow> lfkv \<times> lf_res" where
  "lf_do (L_set k v) now kv = (let (kv', b) = lfkv_set (True, True) kv k v in (kv', R_set b))"
| "lf_do (L_get k) now kv = (let (kv', v) = lfkv_get kv k now in (kv', R_val v))"
| "lf_do (L_peek k) now kv = (let (kv', v) = lfkv_peek kv k now in (kv', R_val v))"
| "lf_do (L_del k) now kv = (let (kv', b) = lfkv_del kv k now in (kv', R_ok b))"
| "lf_do (L_set_expiry k ts) now kv = (let (kv', b) = lfkv_set_expiry True kv k ts now in (kv', R_ok b))"
| "lf_do (L_get_expiry k) now kv = (let (kv', t) = lfkv_get_expiry kv k now in (kv', R_ts t))"
| "lf_do (L_touch k x ts) now kv = (let (kv', b) = lfkv_touch_if_value True kv k x ts now in (kv', R_ok b))"
| "lf_do (L_set_xx k v) now kv = (let (kv', b) = lfkv_set_xx True kv k v now in (kv', R_ok b))"
| "lf_do (L_cas k x v) now kv = (let (kv', b) = lfkv_cas True kv k x v now in (kv', R_ok b))"

text \<open>The same on a map in which an expired entry is removed when the operation meets it.\<close>

definition on_entry :: "(bytes \<rightharpoonup> lfentry) \<Rightarrow> bytes \<Rightarrow> int \<Rightarrow> 'r \<Rightarrow> (lfentry \<Rightarrow> (bytes \<rightharpoonup> lfentry) \<times> 'r)
    \<Rightarrow> (bytes \<rightharpoonup> lfentry) \<times> 'r" where
  "on_entry M k now absent f = (case M k of None \<Rightarrow> (M, absent)
     | Some e \<Rightarrow> if entry_expired e now then (M(k := None), absent) else f e)"

fun lf_exact :: "lf_op \<Rightarrow> int \<Rightarrow> (bytes \<rightharpoonup> lfentry) \<Rightarrow> (bytes \<rightharpoonup> lfentry) \<times> lf_res" where
  "lf_exact (L_set k v) now M = (M(k \<mapsto> \<lparr>e_val = v, e_expiry = 0\<rparr>), R_set True)"
| "lf_exact (L_get k) now M =
     (if map_option e_val (M k) = Some None then (M, R_val None)
      else on_entry M k now (R_val None) (\<lambda>e. (M, R_val (e_val e))))"
| "lf_exact (L_peek k) now M =
     (if map_option e_val (M k) = Some None then (M, R_val None)
      else on_entry M k now (R_val None) (\<lambda>e. (M, R_val (e_val e))))"
| "lf_exact (L_del k) now M = on_entry M k now (R_ok False) (\<lambda>e. (M(k := None), R_ok True))"
| "lf_exact (L_set_expiry k ts) now M =
     (if map_option e_val (M k) = Some None then (M, R_ok False)
      else on_entry M k now (R_ok False) (\<lambda>e. (M(k \<mapsto> \<lparr>e_val = e_val e, e_expiry = ts\<rparr>), R_ok True)))"
| "lf_exact (L_get_expiry k) now M =
     (if map_option e_val (M k) = Some None then (M, R_ts (-1))
      else on_entry M k now (R_ts (-1)) (\<lambda>e. (M, R_ts (e_expiry e))))"
| "lf_exact (L_touch k x ts) now M =
     (if x = None \<or> (M k \<noteq> None \<and> map_option e_val (M k) \<noteq> Some x) then (M, R_ok False)
      else on_entry M k now (R_ok False) (\<lambda>e. (M(k \<mapsto> \<lparr>e_val = x, e_expiry = ts\<rparr>), R_ok True)))"
| "lf_exact (L_set_xx k v) now M =
     on_entry M k now (R_ok False) (\<lambda>e. (M(k \<mapsto> \<lparr>e_val = v, e_expiry = 0\<rparr>), R_ok True))"
| "lf_exact (L_cas k x v) now M =
     (if M k \<noteq> None \<and> map_option e_val (M k) \<noteq> Some x then (M, R_ok False)
      else on_entry M k now (R_ok False) (\<lambda>e.
        (if v = None then M(k := None) else M(k \<mapsto> \<lparr>e_val = v, e_expiry = e_expiry e\<rparr>), R_ok True)))"

lemma retire_same: "same_table ((put_entry a None kv)\<lparr>kcount := kcount kv - 1\<rparr>) (slot_retire_entry a e kv)"
  by (simp add: slot_retire_entry_def same_table_def emit_def)

lemma swap_same:
  "same_table (put_entry a (Some e') kv) (swap_entry a e e' kv)"
  "same_table (put_entry a (Some e') kv) (emit op k v (swap_entry a e e' kv))"
  "same_table (put_entry a (Some e') kv) (swap_entry a e e' (refexp x kv))"
  by (auto simp: swap_entry_def same_table_def emit_def refexp_def put_entry_def rec_at_def split: option.split)

text \<open>An operation that looks its key up and then works on the entry.\<close>

lemma with_entry_ok:
  assumes "lf_ok kv" "key_legal k"
    and "\<And>i a e. live_rec kv i a k e \<Longrightarrow> lfkv_map kv k = Some e \<Longrightarrow> \<not> entry_expired e now
      \<Longrightarrow> lf_ok (fst (f a e kv)) \<and> nslots (fst (f a e kv)) = nslots kv
        \<and> (lfkv_map (fst (f a e kv)), g (snd (f a e kv))) = F e"
  shows "lf_ok (fst (with_entry (fst (probe kv k)) now r f kv))
    \<and> nslots (fst (with_entry (fst (probe kv k)) now r f kv)) = nslots kv
    \<and> (lfkv_map (fst (with_entry (fst (probe kv k)) now r f kv)), g (snd (with_entry (fst (probe kv k)) now r f kv)))
      = on_entry (lfkv_map kv) k now (g r) F"
proof (rule probe_cases [OF assms(1,2)])
  assume "fst (probe kv k) = None" "lfkv_map kv k = None"
  then show ?thesis using assms(1) by (simp add: with_entry_def on_entry_def)
next
  fix i a e
  assume l: "fst (probe kv k) = Some a" "live_rec kv i a k e" "lfkv_map kv k = Some e"
  then have s: "s_entry (rec_at kv a) = Some e" by (simp add: live_rec_def)
  show ?thesis
  proof (cases "entry_expired e now")
    case True
    then show ?thesis using l(1,3) s lf_remove_ok [OF assms(1) l(2) retire_same] by (simp add: with_entry_def on_entry_def)
  next
    case False
    then show ?thesis using l(1,3) s assms(3) [OF l(2,3) False] by (simp add: with_entry_def on_entry_def)
  qed
qed

lemma null_val_map:
  assumes "lf_ok kv" "key_legal k"
  shows "null_val kv (fst (probe kv k)) = (lfkv_map kv k = None \<or> map_option e_val (lfkv_map kv k) = Some None)"
  by (rule probe_cases [OF assms]) (auto simp: null_val_def live_rec_def)

lemma other_val_map:
  assumes "lf_ok kv" "key_legal k"
  shows "(case fst (probe kv k) of None \<Rightarrow> False
      | Some a \<Rightarrow> (case s_entry (rec_at kv a) of None \<Rightarrow> False | Some e \<Rightarrow> e_val e \<noteq> x))
    = (lfkv_map kv k \<noteq> None \<and> map_option e_val (lfkv_map kv k) \<noteq> Some x)"
  by (rule probe_cases [OF assms]) (auto simp: live_rec_def)

lemma lfkv_set_ok:
  assumes "lf_ok kv" "key_legal k" "lfkv_set mem kv k v = (kv', b)"
  shows "lf_ok kv' \<and> nslots kv' = nslots kv
    \<and> (if b then lfkv_map kv' = (lfkv_map kv)(k \<mapsto> \<lparr>e_val = v, e_expiry = 0\<rparr>)
       else kv' = kv \<and> (mem = (True, True) \<longrightarrow> lfkv_map kv k = None \<and> (\<forall>j < nslots kv. entry_at kv j \<noteq> None)))"
proof -
  obtain f i tb where p: "probe kv k = (f, i, tb)" by (metis surj_pair)
  note pr = probe_spec [OF assms(1,2), unfolded p probe_result_def]
  let ?new = "\<lparr>e_val = v, e_expiry = 0\<rparr>"
  note d = assms(3) [unfolded lfkv_set_def set_commit_def p Let_def]
  show ?thesis
  proof (cases "fst mem")
    case False
    then show ?thesis using d assms(1) by auto
  next
    case m1: True
    show ?thesis
    proof (cases f)
      case (Some a)
      then obtain e where "i < nslots kv" "slots kv ! i = Some a" "entry_at kv i = Some (k, e)" using pr by auto
      then have l: "live_rec kv i a k e" by (auto simp: live_rec_def entry_at_def split: option.splits)
      have "same_table (put_entry a (Some ?new) kv) (slot_replace_entry a ?new kv)"
        using l by (simp add: slot_replace_entry_def live_rec_def same_table_def emit_def put_entry_def)
      then show ?thesis using d Some m1 lf_replace_ok [OF assms(1) l] by auto
    next
      case None
      note pr = pr [unfolded None, simplified]
      have mp: "lfkv_map kv k = None" using pr unfolding lfkv_map_def entries_map_None by blast
      show ?thesis
      proof (cases "snd mem")
        case False
        then show ?thesis using d None m1 assms(1) by auto
      next
        case m2: True
        show ?thesis
        proof (cases tb)
          case (Some t)
          then have t: "t < nslots kv" "slots kv ! t \<noteq> None" "entry_at kv t = None" "reached kv k t" using pr by auto
          then obtain a where "slots kv ! t = Some a" "s_entry (rec_at kv a) = None"
            by (auto simp: entry_at_def split: option.splits)
          then show ?thesis using d None Some m1 m2 publish_ok [OF assms(1,2) t(1,3,4)] pr by auto
        next
          case tb: None
          have il: "i < nslots kv" using pr by simp
          show ?thesis
          proof (cases "slots kv ! i")
            case n: None
            then have "reached kv k i" "entry_at kv i = None" using pr il by (auto simp: entry_at_def)
            then show ?thesis
              using d None tb m1 m2 claim_empty [OF n] publish_ok [OF assms(1,2) il, of ?new v] pr by auto
          next
            case (Some a)
            then have full: "\<forall>j < nslots kv. slots kv ! j \<noteq> None" "\<forall>j < nslots kv. entry_at kv j \<noteq> None" using pr tb by auto
            have "s_key (rec_at kv b) \<noteq> k" if jl: "j < nslots kv" and jb: "slots kv ! j = Some b" for j b
            proof -
              have "entry_at kv j \<noteq> None" using full(2) jl by blast
              then obtain e where "entry_at kv j = Some (s_key (rec_at kv b), e)"
                using jb by (cases "s_entry (rec_at kv b)") (simp_all add: entry_at_def)
              moreover have "entry_at kv j \<noteq> Some (k, e)" using pr jl by blast
              ultimately show ?thesis by auto
            qed
            then have "claim_slot kv (bernstein_hash k) k i = Full"
              using claim_taken(2) [OF assms(1,2) full(1) il] by blast
            then show ?thesis using d None tb m1 m2 assms(1) full(2) mp by auto
          qed
        qed
      qed
    qed
  qed
qed


lemma lf_do_exact:
  assumes "lf_ok kv" "key_legal (lf_key op)" "lf_do op now kv = (kv', r)" "r \<noteq> R_set False"
  shows "lf_ok kv' \<and> nslots kv' = nslots kv \<and> (lfkv_map kv', r) = lf_exact op now (lfkv_map kv)"
proof (cases op)
  case (L_set k v)
  obtain kv1 b where s: "lfkv_set (True, True) kv k v = (kv1, b)" by (metis surj_pair)
  then show ?thesis using lfkv_set_ok [OF assms(1) _ s] assms L_set by auto
next
  case (L_get k)
  then have k: "key_legal k" using assms(2) by simp
  note w = with_entry_ok [OF assms(1) k, where now = now and r = None and g = R_val
      and f = "\<lambda>a e kv. (refexp (e_val e) kv, e_val e)" and F = "\<lambda>e. (lfkv_map kv, R_val (e_val e))"]
  show ?thesis
    using assms(3) L_get w null_val_map [OF assms(1) k] assms(1) same_table_ok [OF same_table_simps(3), of _ kv]
    by (auto simp: lfkv_get_def Let_def split_beta on_entry_def split: if_splits)
next
  case (L_peek k)
  then have k: "key_legal k" using assms(2) by simp
  note w = with_entry_ok [OF assms(1) k, where now = now and r = None and g = R_val
      and f = "\<lambda>a e kv. (kv, e_val e)" and F = "\<lambda>e. (lfkv_map kv, R_val (e_val e))"]
  show ?thesis
    using assms(3) L_peek w null_val_map [OF assms(1) k] assms(1)
    by (auto simp: lfkv_peek_def Let_def split_beta on_entry_def split: if_splits)
next
  case (L_del k)
  then have k: "key_legal k" using assms(2) by simp
  note w = with_entry_ok [OF assms(1) k, where now = now and r = False and g = R_ok
      and f = "\<lambda>a e kv. (slot_retire_entry a e kv, True)" and F = "\<lambda>e. ((lfkv_map kv)(k := None), R_ok True)"]
  show ?thesis
    using assms(3) L_del w lf_remove_ok [OF assms(1) _ retire_same] by (auto simp: lfkv_del_def Let_def split_beta)
next
  case (L_get_expiry k)
  then have k: "key_legal k" using assms(2) by simp
  note w = with_entry_ok [OF assms(1) k, where now = now and r = "-1" and g = R_ts
      and f = "\<lambda>a e kv. (kv, e_expiry e)" and F = "\<lambda>e. (lfkv_map kv, R_ts (e_expiry e))"]
  show ?thesis
    using assms(3) L_get_expiry w null_val_map [OF assms(1) k] assms(1)
    by (auto simp: lfkv_get_expiry_def Let_def split_beta on_entry_def split: if_splits)
next
  case (L_set_expiry k ts)
  then have k: "key_legal k" using assms(2) by simp
  note w = with_entry_ok [OF assms(1) k, where now = now and r = False and g = R_ok
      and f = "\<lambda>a e kv. (swap_entry a e \<lparr>e_val = e_val e, e_expiry = ts\<rparr> (refexp (e_val e) kv), True)"
      and F = "\<lambda>e. ((lfkv_map kv)(k \<mapsto> \<lparr>e_val = e_val e, e_expiry = ts\<rparr>), R_ok True)"]
  show ?thesis
    using assms(3) L_set_expiry w null_val_map [OF assms(1) k] assms(1) lf_replace_ok [OF assms(1) _ swap_same(3)]
    by (auto simp: lfkv_set_expiry_def Let_def split_beta on_entry_def split: if_splits)
next
  case (L_set_xx k v)
  then have k: "key_legal k" using assms(2) by simp
  note w = with_entry_ok [OF assms(1) k, where now = now and r = False and g = R_ok
      and f = "\<lambda>a e kv. (emit 1 (s_key (rec_at kv a)) v (swap_entry a e \<lparr>e_val = v, e_expiry = 0\<rparr> kv), True)"
      and F = "\<lambda>e. ((lfkv_map kv)(k \<mapsto> \<lparr>e_val = v, e_expiry = 0\<rparr>), R_ok True)"]
  show ?thesis
    using assms(3) L_set_xx w lf_replace_ok [OF assms(1) _ swap_same(2)]
    by (auto simp: lfkv_set_xx_def Let_def split_beta)
next
  case (L_touch k x ts)
  then have k: "key_legal k" using assms(2) by simp
  let ?f = "\<lambda>a e kv. if ts = 0 \<and> e_expiry e = 0 then (kv, True)
      else (swap_entry a e \<lparr>e_val = x, e_expiry = ts\<rparr> (refexp x kv), True)"
  show ?thesis
  proof (cases "x = None \<or> (lfkv_map kv k \<noteq> None \<and> map_option e_val (lfkv_map kv k) \<noteq> Some x)")
    case True
    then show ?thesis using assms(1,3) L_touch other_val_map [OF assms(1) k, of x]
      by (auto simp: lfkv_touch_if_value_def Let_def split: if_splits)
  next
    case False
    then have e: "lfkv_map kv k = Some e \<Longrightarrow> e_val e = x" for e by auto
    have same: "(lfkv_map kv)(k \<mapsto> e) = lfkv_map kv" if "lfkv_map kv k = Some e" for e using that by (simp add: fun_upd_idem)
    have rec: "\<lparr>e_val = x, e_expiry = 0\<rparr> = e" if "e_val e = x" "e_expiry e = 0" for e :: lfentry using that by (cases e) simp
    note w = with_entry_ok [OF assms(1) k, where now = now and r = False and g = R_ok and f = ?f
        and F = "\<lambda>e. ((lfkv_map kv)(k \<mapsto> \<lparr>e_val = x, e_expiry = ts\<rparr>), R_ok True)"]
    let ?W = "with_entry (fst (probe kv k)) now False ?f kv"
    have "lf_ok (fst (?f a e kv)) \<and> nslots (fst (?f a e kv)) = nslots kv \<and>
        (lfkv_map (fst (?f a e kv)), R_ok (snd (?f a e kv))) = ((lfkv_map kv)(k \<mapsto> \<lparr>e_val = x, e_expiry = ts\<rparr>), R_ok True)"
      if l: "live_rec kv i a k e" and m: "lfkv_map kv k = Some e" for i a e
    proof (cases "ts = 0 \<and> e_expiry e = 0")
      case True
      then have "(lfkv_map kv)(k \<mapsto> \<lparr>e_val = x, e_expiry = ts\<rparr>) = lfkv_map kv"
        using same [OF m] rec [of e] e [OF m] by metis
      then show ?thesis using True assms(1) by simp
    next
      case False
      then show ?thesis using lf_replace_ok [OF assms(1) l swap_same(3)] by auto
    qed
    then have wf: "lf_ok (fst ?W) \<and> nslots (fst ?W) = nslots kv \<and> (lfkv_map (fst ?W), R_ok (snd ?W))
        = on_entry (lfkv_map kv) k now (R_ok False) (\<lambda>e. ((lfkv_map kv)(k \<mapsto> \<lparr>e_val = x, e_expiry = ts\<rparr>), R_ok True))"
      by (rule w)
    have d: "lfkv_touch_if_value True kv k x ts now = with_entry (fst (probe kv k)) now False ?f kv"
    proof -
      have n: "(case fst (probe kv k) of None \<Rightarrow> False
          | Some a \<Rightarrow> (case s_entry (rec_at kv a) of None \<Rightarrow> False | Some e \<Rightarrow> e_val e \<noteq> x)) = False"
        using False other_val_map [OF assms(1) k, of x] by blast
      have x: "(x = None) = False" using False by blast
      show ?thesis unfolding lfkv_touch_if_value_def Let_def n x
        by (simp only: if_False not_True_eq_False)
    qed
    obtain kv1 b where t: "lfkv_touch_if_value True kv k x ts now = (kv1, b)" by (metis surj_pair)
    have ex: "lf_exact op now (lfkv_map kv) = on_entry (lfkv_map kv) k now (R_ok False)
        (\<lambda>e. ((lfkv_map kv)(k \<mapsto> \<lparr>e_val = x, e_expiry = ts\<rparr>), R_ok True))"
      unfolding L_touch lf_exact.simps using False by (simp only: if_False)
    show ?thesis unfolding ex using wf [folded d] assms(3) t L_touch by simp
  qed
next
  case (L_cas k x v)
  then have k: "key_legal k" using assms(2) by simp
  let ?f = "\<lambda>a e kv. case v of
        None \<Rightarrow> (emit 2 (s_key (rec_at kv a)) None ((put_entry a None kv)\<lparr>kcount := kcount kv - 1, retired := retired kv @ [e]\<rparr>), True)
      | Some y \<Rightarrow> (emit 1 (s_key (rec_at kv a)) v (swap_entry a e \<lparr>e_val = v, e_expiry = e_expiry e\<rparr> kv), True)"
  let ?F = "\<lambda>e. (if v = None then (lfkv_map kv)(k := None) else (lfkv_map kv)(k \<mapsto> \<lparr>e_val = v, e_expiry = e_expiry e\<rparr>), R_ok True)"
  have st: "same_table ((put_entry a None kv)\<lparr>kcount := kcount kv - 1\<rparr>)
      (emit 2 (s_key (rec_at kv a)) None ((put_entry a None kv)\<lparr>kcount := kcount kv - 1, retired := r\<rparr>))" for a r
    by (simp add: same_table_def emit_def)
  show ?thesis
  proof (cases "lfkv_map kv k \<noteq> None \<and> map_option e_val (lfkv_map kv k) \<noteq> Some x")
    case True
    then show ?thesis using assms(1,3) L_cas other_val_map [OF assms(1) k, of x] by (auto simp: lfkv_cas_def Let_def)
  next
    case False
    note w = with_entry_ok [OF assms(1) k, where now = now and r = False and g = R_ok and f = ?f and F = ?F]
    let ?W = "with_entry (fst (probe kv k)) now False ?f kv"
    have "lf_ok (fst (?f a e kv)) \<and> nslots (fst (?f a e kv)) = nslots kv \<and>
        (lfkv_map (fst (?f a e kv)), R_ok (snd (?f a e kv))) = ?F e"
      if l: "live_rec kv i a k e" for i a e
      using lf_replace_ok [OF assms(1) l swap_same(2)] lf_remove_ok [OF assms(1) l st] by (cases v) auto
    then have wf: "lf_ok (fst ?W) \<and> nslots (fst ?W) = nslots kv \<and> (lfkv_map (fst ?W), R_ok (snd ?W))
        = on_entry (lfkv_map kv) k now (R_ok False) ?F"
      by (rule w)
    have d: "lfkv_cas True kv k x v now = with_entry (fst (probe kv k)) now False ?f kv"
    proof -
      have n: "(case fst (probe kv k) of None \<Rightarrow> False
          | Some a \<Rightarrow> (case s_entry (rec_at kv a) of None \<Rightarrow> False | Some e \<Rightarrow> e_val e \<noteq> x)) = False"
        using False other_val_map [OF assms(1) k, of x] by blast
      show ?thesis unfolding lfkv_cas_def Let_def n 
        by (simp only: if_False not_True_eq_False)
    qed
    obtain kv1 b where t: "lfkv_cas True kv k x v now = (kv1, b)" by (metis surj_pair)
    have ex: "lf_exact op now (lfkv_map kv) = on_entry (lfkv_map kv) k now (R_ok False) ?F"
      unfolding L_cas lf_exact.simps using False by (simp only: if_False)
    show ?thesis unfolding ex using wf [folded d] assms(3) t L_cas by simp
  qed
qed


text \<open>
  The contract: a map in which an entry disappears when its time comes, which no operation
  needs to know.
\<close>

definition purge :: "int \<Rightarrow> (bytes \<rightharpoonup> lfentry) \<Rightarrow> bytes \<rightharpoonup> lfentry" where
  "purge t M = (\<lambda>k. case M k of None \<Rightarrow> None | Some e \<Rightarrow> if entry_expired e t then None else Some e)"

fun lf_spec :: "lf_op \<Rightarrow> (bytes \<rightharpoonup> lfentry) \<Rightarrow> (bytes \<rightharpoonup> lfentry) \<times> lf_res" where
  "lf_spec (L_set k v) M = (M(k \<mapsto> \<lparr>e_val = v, e_expiry = 0\<rparr>), R_set True)"
| "lf_spec (L_get k) M = (M, R_val (Option.bind (M k) e_val))"
| "lf_spec (L_peek k) M = (M, R_val (Option.bind (M k) e_val))"
| "lf_spec (L_del k) M = (M(k := None), R_ok (M k \<noteq> None))"
| "lf_spec (L_set_expiry k ts) M =
     (case Option.bind (M k) e_val of None \<Rightarrow> (M, R_ok False)
      | Some v \<Rightarrow> (M(k \<mapsto> \<lparr>e_val = Some v, e_expiry = ts\<rparr>), R_ok True))"
| "lf_spec (L_get_expiry k) M =
     (M, R_ts (case M k of None \<Rightarrow> -1 | Some e \<Rightarrow> if e_val e = None then -1 else e_expiry e))"
| "lf_spec (L_touch k x ts) M =
     (if x \<noteq> None \<and> map_option e_val (M k) = Some x then (M(k \<mapsto> \<lparr>e_val = x, e_expiry = ts\<rparr>), R_ok True)
      else (M, R_ok False))"
| "lf_spec (L_set_xx k v) M =
     (if M k = None then (M, R_ok False) else (M(k \<mapsto> \<lparr>e_val = v, e_expiry = 0\<rparr>), R_ok True))"
| "lf_spec (L_cas k x v) M =
     (case M k of None \<Rightarrow> (M, R_ok False)
      | Some e \<Rightarrow>
          if e_val e \<noteq> x then (M, R_ok False)
          else (if v = None then M(k := None) else M(k \<mapsto> \<lparr>e_val = v, e_expiry = e_expiry e\<rparr>), R_ok True))"

lemma expired_later: "entry_expired e now \<Longrightarrow> now \<le> t \<Longrightarrow> entry_expired e t"
  by (simp add: entry_expired_def)

lemma purge_later: "now \<le> t \<Longrightarrow> purge t (purge now M) = purge t M"
  by (auto simp: purge_def fun_eq_iff expired_later split: option.splits)

lemma purge_upd: "purge t (M(k := x)) = (purge t M)(k := Option.bind x (\<lambda>e. if entry_expired e t then None else Some e))"
  by (auto simp: purge_def fun_eq_iff split: option.splits)

lemma purge_drop: "M k = Some e \<Longrightarrow> entry_expired e now \<Longrightarrow> now \<le> t \<Longrightarrow> purge t (M(k := None)) = purge t M"
  by (auto simp: purge_def fun_eq_iff expired_later)

text \<open>What an operation answers on the map with the expired entries is what it answers without them.\<close>

lemma purge_k: "purge t M k = (case M k of None \<Rightarrow> None | Some e \<Rightarrow> if entry_expired e t then None else Some e)"
  by (simp add: purge_def)

lemma exact_spec:
  assumes "lf_exact op now M = (M', r)" "lf_spec op (purge now M) = (N', r')"
  shows "r = r' \<and> (\<forall>t \<ge> now. purge t M' = purge t N')"
proof -
  have d: "M (lf_key op) = Some e \<Longrightarrow> entry_expired e now \<Longrightarrow> now \<le> t
    \<Longrightarrow> purge t (M(lf_key op := None)) = purge t (purge now M)" for e t
    by (simp add: purge_drop purge_later)
  have w: "now \<le> t \<Longrightarrow> purge t ((purge now M)(k := x)) = purge t (M(k := x))" for k x t
    by (simp add: purge_upd purge_later)
  show ?thesis
  proof (cases "M (lf_key op)")
    case None
    then have P: "purge now M (lf_key op) = None" by (simp add: purge_k)
    have "M(lf_key op := None) = M" using None by (simp add: fun_upd_idem)
    then show ?thesis using assms None P w
      by (cases op) (auto simp: on_entry_def purge_later simp del: fun_upd_apply split: if_splits)
  next
    case (Some e)
    show ?thesis
    proof (cases "entry_expired e now")
      case True
      then have P: "purge now M (lf_key op) = None" using Some by (simp add: purge_k)
      show ?thesis using assms Some P True d w
        by (cases op) (auto simp: on_entry_def purge_later simp del: fun_upd_apply split: if_splits)
    next
      case False
      then have P: "purge now M (lf_key op) = Some e" using Some by (simp add: purge_k)
      show ?thesis using assms Some P False w
        by (cases op) (auto simp: on_entry_def purge_later simp del: fun_upd_apply split: if_splits)
    qed
  qed
qed

fun lf_run :: "(int \<times> lf_op) list \<Rightarrow> lfkv \<Rightarrow> lfkv \<times> lf_res list" where
  "lf_run [] kv = (kv, [])"
| "lf_run ((now, op) # ops) kv =
     (let (kv1, r) = lf_do op now kv; (kv2, rs) = lf_run ops kv1 in (kv2, r # rs))"

fun lf_spec_run :: "(int \<times> lf_op) list \<Rightarrow> (bytes \<rightharpoonup> lfentry) \<Rightarrow> lf_res list" where
  "lf_spec_run [] M = []"
| "lf_spec_run ((now, op) # ops) M = (let (M1, r) = lf_spec op (purge now M) in r # lf_spec_run ops M1)"

lemma spec_run_cong:
  "(\<forall>t \<ge> now. purge t M = purge t N) \<Longrightarrow> \<forall>x \<in> set ops. now \<le> fst x \<Longrightarrow> lf_spec_run ops M = lf_spec_run ops N"
  by (cases ops) auto

lemma lf_run_ok:
  assumes "lf_ok kv" "\<forall>x \<in> set ops. key_legal (lf_key (snd x))" "sorted (map fst ops)"
    and "lf_run ops kv = (kv', rs)" "R_set False \<notin> set rs"
  shows "lf_ok kv' \<and> nslots kv' = nslots kv \<and> rs = lf_spec_run ops (lfkv_map kv)"
  using assms
proof (induction ops arbitrary: kv rs)
  case (Cons x ops)
  obtain now op where x: "x = (now, op)" by (metis surj_pair)
  obtain kv1 r where 1: "lf_do op now kv = (kv1, r)" by (metis surj_pair)
  obtain kv2 rs2 where 2: "lf_run ops kv1 = (kv2, rs2)" by (metis surj_pair)
  have r: "kv' = kv2" "rs = r # rs2" using Cons.prems(4) x 1 2 by simp_all
  have "r \<noteq> R_set False" using Cons.prems(5) r by auto
  then have d: "lf_ok kv1" "nslots kv1 = nslots kv" "(lfkv_map kv1, r) = lf_exact op now (lfkv_map kv)"
    using lf_do_exact [OF Cons.prems(1) _ 1] Cons.prems(2) x by auto
  have i: "lf_ok kv' \<and> nslots kv' = nslots kv1 \<and> rs2 = lf_spec_run ops (lfkv_map kv1)"
    using Cons.IH [OF d(1), of rs2] Cons.prems r 2 x by simp
  obtain N r' where s: "lf_spec op (purge now (lfkv_map kv)) = (N, r')" by (metis surj_pair)
  have e: "r = r'" "\<forall>t \<ge> now. purge t (lfkv_map kv1) = purge t N" using exact_spec [OF d(3) [symmetric] s] by simp_all
  have "\<forall>x \<in> set ops. now \<le> fst x" using Cons.prems(3) x by auto
  then have "lf_spec_run ops (lfkv_map kv1) = lf_spec_run ops N" by (rule spec_run_cong [OF e(2)])
  then show ?case using i r d(2) e(1) s x by simp
qed simp


section \<open>Insertion of an absent key\<close>

definition no_empty :: "lfkv \<Rightarrow> bool" where
  "no_empty kv = (\<forall>j < nslots kv. slots kv ! j \<noteq> None)"

lemma set_nx_absent:
  assumes "fst (probe kv k) = None"
  shows "lfkv_set_nx (True, True) k v now kv =
    (case claim_slot kv (bernstein_hash k) k (fst (snd (probe kv k))) of
       Claimed j \<Rightarrow> Some (publish j (slot_alloc (bernstein_hash k) k \<lparr>e_val = v, e_expiry = 0\<rparr>) v kv, True)
     | Existing a \<Rightarrow> lfkv_set_nx (True, True) k v now kv
     | Full \<Rightarrow> Some (kv, False))"
  using assms by (subst lfkv_set_nx.simps) (auto simp: Let_def split: prod.splits claim.splits)

lemma set_nx_present:
  assumes "live_rec kv i a k e" "fst (probe kv k) = Some a"
  shows "lfkv_set_nx mem k v now kv =
    (if entry_expired e now then lfkv_set_nx mem k v now (slot_retire_entry a e kv) else Some (kv, False))"
  using assms by (subst lfkv_set_nx.simps) (auto simp: Let_def live_rec_def split: prod.splits)

lemma set_nx_hang:
  assumes "fst (probe kv k) = None" "claim_slot kv (bernstein_hash k) k (fst (snd (probe kv k))) = Existing a"
  shows "lfkv_set_nx (True, True) k v now kv = None"
proof -
  have no: "\<not> (mem = (True, True) \<and> k' = k \<and> kv' = kv)"
    if "lfkv_set_nx mem k' v' now' kv' = Some y" for mem k' v' now' kv' y
  proof (rule lfkv_set_nx.raw_induct [OF _ that])
    fix f :: "bool \<times> bool \<Rightarrow> bytes \<Rightarrow> nat option \<Rightarrow> int \<Rightarrow> lfkv \<Rightarrow> (lfkv \<times> bool) option"
    fix mem k' v' now' kv' y
    assume ih: "\<And>mem k' v' now' kv' y. f mem k' v' now' kv' = Some y \<Longrightarrow> \<not> (mem = (True, True) \<and> k' = k \<and> kv' = kv)"
    have n: "f (True, True) k v' now' kv = None" using ih [of "(True, True)" k v' now' kv] by (cases "f (True, True) k v' now' kv") auto
    assume "(let h = bernstein_hash k'; new = \<lparr>e_val = v', e_expiry = 0\<rparr> in
      case probe kv' k' of
        (Some a, _, _) \<Rightarrow>
          (case s_entry (rec_at kv' a) of
             Some e \<Rightarrow>
               if entry_expired e now' then f mem k' v' now' (slot_retire_entry a e kv')
               else Some (kv', False)
           | None \<Rightarrow> if \<not> fst mem then Some (kv', False) else Some (slot_install_if_null a new kv', True))
      | (None, i, _) \<Rightarrow>
          if \<not> fst mem \<or> \<not> snd mem then Some (kv', False)
          else (case claim_slot kv' h k' i of
                  Claimed j \<Rightarrow> Some (publish j (slot_alloc h k' new) v' kv', True)
                | Existing a \<Rightarrow> f mem k' v' now' kv'
                | Full \<Rightarrow> Some (kv', False))) = Some y"
    then show "\<not> (mem = (True, True) \<and> k' = k \<and> kv' = kv)" using assms n by (auto simp: Let_def split: prod.splits)
  qed
  show ?thesis
  proof (cases "lfkv_set_nx (True, True) k v now kv")
    case (Some y)
    from no [OF this] show ?thesis by simp
  qed
qed

text \<open>
  \<open>set_nx\<close> of a key without a live entry: inserted when the table has an empty index; without
  one it gives up, or never returns when a record of the key is in the table.
\<close>

lemma set_nx_insert:
  assumes "lf_ok kv" "key_legal k" "fst (probe kv k) = None" "\<not> no_empty kv"
  obtains j where "slots kv ! j = None" "j < nslots kv"
    "lfkv_set_nx (True, True) k v now kv
      = Some (publish j (slot_alloc (bernstein_hash k) k \<lparr>e_val = v, e_expiry = 0\<rparr>) v kv, True)"
    "lf_ok (publish j (slot_alloc (bernstein_hash k) k \<lparr>e_val = v, e_expiry = 0\<rparr>) v kv)"
    "lfkv_map (publish j (slot_alloc (bernstein_hash k) k \<lparr>e_val = v, e_expiry = 0\<rparr>) v kv)
      = (lfkv_map kv)(k \<mapsto> \<lparr>e_val = v, e_expiry = 0\<rparr>)"
proof -
  obtain i tb where p: "probe kv k = (None, i, tb)" using assms(3) by (metis prod.collapse)
  note pr = probe_spec [OF assms(1,2), unfolded p probe_result_def, simplified]
  have i: "i < nslots kv" "slots kv ! i = None" "reached kv k i" using pr assms(4) unfolding no_empty_def by auto
  have e: "entry_at kv i = None" using i(2) by (simp add: entry_at_def)
  have r: "lfkv_set_nx (True, True) k v now kv
      = Some (publish i (slot_alloc (bernstein_hash k) k \<lparr>e_val = v, e_expiry = 0\<rparr>) v kv, True)"
    using set_nx_absent [OF assms(3), of v now] claim_empty [OF i(2)] p by simp
  show ?thesis using that [OF i(2,1) r] publish_ok [OF assms(1,2) i(1) e i(3)] pr by blast
qed

lemma set_nx_no_empty:
  assumes "lf_ok kv" "key_legal k" "fst (probe kv k) = None" "no_empty kv"
  shows "lfkv_set_nx (True, True) k v now kv =
    (if \<exists>j < nslots kv. \<exists>a. slots kv ! j = Some a \<and> s_key (rec_at kv a) = k then None else Some (kv, False))"
proof -
  obtain i tb where p: "probe kv k = (None, i, tb)" using assms(3) by (metis prod.collapse)
  have i: "i < nslots kv" using probe_spec [OF assms(1,2), unfolded p probe_result_def] by simp
  note c = claim_taken [OF assms(1,2) assms(4) [unfolded no_empty_def] i]
  show ?thesis
  proof (cases "claim_slot kv (bernstein_hash k) k i")
    case (Existing a)
    then show ?thesis using c(2) set_nx_hang [OF assms(3), of a v now] p by auto
  next
    case Full
    then show ?thesis using c(2) set_nx_absent [OF assms(3), of v now] p by auto
  qed (use c(1) in auto)
qed

text \<open>Removing an entry leaves the taken indices and the keys of the records.\<close>

lemma retire_slots: "slots (slot_retire_entry a e kv) = slots kv" "nslots (slot_retire_entry a e kv) = nslots kv"
  by (simp_all add: slot_retire_entry_def emit_def put_entry_def nslots_def)

lemma retire_key: "s_key (rec_at (slot_retire_entry a e kv) b) = s_key (rec_at kv b)"
  by (cases "a < length (records kv)")
    (simp_all add: slot_retire_entry_def emit_def put_entry_def rec_at_def nth_list_update list_update_beyond)

lemma set_nx_exact:
  assumes "lf_ok kv" "key_legal k"
  shows "(purge now (lfkv_map kv) k \<noteq> None \<longrightarrow> lfkv_set_nx (True, True) k v now kv = Some (kv, False))
    \<and> (purge now (lfkv_map kv) k = None \<and> \<not> no_empty kv \<longrightarrow>
        (\<exists>kv'. lfkv_set_nx (True, True) k v now kv = Some (kv', True) \<and> lf_ok kv'
           \<and> lfkv_map kv' = (lfkv_map kv)(k \<mapsto> \<lparr>e_val = v, e_expiry = 0\<rparr>)))
    \<and> (purge now (lfkv_map kv) k = None \<and> no_empty kv \<longrightarrow>
        lfkv_set_nx (True, True) k v now kv =
          (if \<exists>j < nslots kv. \<exists>a. slots kv ! j = Some a \<and> s_key (rec_at kv a) = k then None else Some (kv, False)))"
proof (rule probe_cases [OF assms])
  assume a: "fst (probe kv k) = None" "lfkv_map kv k = None"
  then have "purge now (lfkv_map kv) k = None" by (simp add: purge_k)
  then show ?thesis
    using set_nx_no_empty [OF assms a(1), of v now] by (cases "no_empty kv") (auto elim: set_nx_insert [OF assms a(1), of v now])
next
  fix i a e
  assume f: "fst (probe kv k) = Some a" "live_rec kv i a k e" "lfkv_map kv k = Some e"
  show ?thesis
  proof (cases "entry_expired e now")
    case False
    then show ?thesis using set_nx_present [OF f(2,1)] f(3) by (simp add: purge_k)
  next
    case True
    let ?kv = "slot_retire_entry a e kv"
    have P: "purge now (lfkv_map kv) k = None" using True f(3) by (simp add: purge_k)
    have r: "lfkv_set_nx (True, True) k v now kv = lfkv_set_nx (True, True) k v now ?kv"
      using set_nx_present [OF f(2,1)] True by simp
    have ok: "lf_ok ?kv" "lfkv_map ?kv = (lfkv_map kv)(k := None)" using lf_remove_ok [OF assms(1) f(2) retire_same] by auto
    have ab: "fst (probe ?kv k) = None"
      by (rule probe_cases [OF ok(1) assms(2)]) (use ok(2) in simp_all)
    have ne: "no_empty ?kv = no_empty kv" by (simp add: no_empty_def retire_slots)
    show ?thesis
    proof (cases "no_empty kv")
      case False
      then have "\<not> no_empty ?kv" using ne by simp
      from set_nx_insert [OF ok(1) assms(2) ab this, of v now] obtain j where
        "lfkv_set_nx (True, True) k v now ?kv
          = Some (publish j (slot_alloc (bernstein_hash k) k \<lparr>e_val = v, e_expiry = 0\<rparr>) v ?kv, True)"
        "lf_ok (publish j (slot_alloc (bernstein_hash k) k \<lparr>e_val = v, e_expiry = 0\<rparr>) v ?kv)"
        "lfkv_map (publish j (slot_alloc (bernstein_hash k) k \<lparr>e_val = v, e_expiry = 0\<rparr>) v ?kv)
          = (lfkv_map ?kv)(k \<mapsto> \<lparr>e_val = v, e_expiry = 0\<rparr>)" by blast
      then show ?thesis using P r False ok(2) by simp
    next
      case n: True
      then have "no_empty ?kv" using ne by simp
      moreover have "\<exists>j < nslots kv. \<exists>a. slots kv ! j = Some a \<and> s_key (rec_at kv a) = k"
        using f(2) unfolding live_rec_def by blast
      ultimately show ?thesis
        using P r n set_nx_no_empty [OF ok(1) assms(2) ab, of v now] by (simp add: retire_slots retire_key)
    qed
  qed
qed


section \<open>A new table, and cycles of insertion and removal\<close>

lemma power_of_two:
  assumes "n \<noteq> 0" "(n :: nat) AND (n - 1) = 0"
  shows "\<exists>b. n = 2 ^ b"
proof -
  obtain b where b: "2 ^ b \<le> n" "n < 2 ^ Suc b"
    using ex_power_ivl1 [of 2 n] assms(1) by auto
  have top: "bit m b" if "2 ^ b \<le> m" "m < 2 ^ Suc b" for m :: nat
  proof -
    have "m div 2 ^ b = 1" using that by (simp add: div_nat_eqI)
    then show ?thesis by (simp add: bit_iff_odd)
  qed
  have "n = 2 ^ b"
  proof (rule ccontr)
    assume "n \<noteq> 2 ^ b"
    then have "2 ^ b \<le> n - 1" "n - 1 < 2 ^ Suc b" using b by simp_all
    then have "bit (n AND (n - 1)) b" using top [of n] top [of "n - 1"] b by (simp only: bit_and_iff)
    then show False using assms(2) by simp
  qed
  then show ?thesis ..
qed

lemma lfkv_new_ok:
  assumes "lfkv_new alloc w n = Some kv"
  shows "lf_ok kv \<and> nslots kv = n \<and> lfkv_map kv = Map.empty \<and> slots kv = replicate n None \<and> records kv = []"
proof -
  have c: "n \<noteq> 0" "n AND (n - 1) = 0" "n * 8 \<le> SIZE_MAX"
    "kv = \<lparr>records = [], slots = replicate n None, kcount = 0, retired = [], refs = [], watching = w, emitted = []\<rparr>"
    using assms by (auto simp: lfkv_new_def split: if_splits)
  obtain b where b: "n = 2 ^ b" using power_of_two [OF c(1,2)] by blast
  have "(2 :: nat) ^ b < 2 ^ 62" using c(3) unfolding b by (simp add: SIZE_MAX_def)
  from power_less_imp_less_exp [OF _ this] have "b \<le> 62" by simp
  have n: "nslots kv = n" by (simp add: nslots_def c(4))
  have e: "j < n \<Longrightarrow> entry_at kv j = None" for j by (simp add: entry_at_def c(4))
  have "live_count n (entry_at kv) = 0" using e by (simp add: live_count_def)
  moreover have "lfkv_map kv = Map.empty" unfolding lfkv_map_def n using e by (auto simp: entries_map_None)
  moreover have "keys_unique n (entry_at kv)" using e by (simp add: keys_unique_def)
  ultimately show ?thesis using \<open>b \<le> 62\<close> b e unfolding lf_ok_def n by (auto simp: c(4))
qed

text \<open>A key taken with \<open>set_nx\<close> and deleted again, \<open>c\<close> times.\<close>

fun nx_cycles :: "nat \<Rightarrow> bytes \<Rightarrow> nat option \<Rightarrow> int \<Rightarrow> lfkv \<Rightarrow> lfkv option" where
  "nx_cycles 0 k v now kv = Some kv"
| "nx_cycles (Suc c) k v now kv =
     (case lfkv_set_nx (True, True) k v now kv of
        None \<Rightarrow> None
      | Some (kv1, _) \<Rightarrow> nx_cycles c k v now (fst (lfkv_del kv1 k now)))"

definition empty_count :: "lfkv \<Rightarrow> nat" where
  "empty_count kv = card {j. j < nslots kv \<and> slots kv ! j = None}"

definition only_key :: "bytes \<Rightarrow> lfkv \<Rightarrow> bool" where
  "only_key k kv = (\<forall>j < nslots kv. \<forall>a. slots kv ! j = Some a \<longrightarrow> s_key (rec_at kv a) = k)"

lemma publish_slots:
  "slots (publish j s v kv) = (slots kv)[j := Some (length (records kv))]"
  "records (publish j s v kv) = records kv @ [s]" "nslots (publish j s v kv) = nslots kv"
  by (simp_all add: publish_def emit_def nslots_def)

lemma nx_cycle:
  assumes "lf_ok kv" "key_legal k" "lfkv_map kv = Map.empty" "only_key k kv" "empty_count kv = Suc c"
  obtains kv1 where "lfkv_set_nx (True, True) k v now kv = Some (kv1, True)"
    "lf_ok (fst (lfkv_del kv1 k now))" "lfkv_map (fst (lfkv_del kv1 k now)) = Map.empty"
    "only_key k (fst (lfkv_del kv1 k now))" "empty_count (fst (lfkv_del kv1 k now)) = c"
    "nslots (fst (lfkv_del kv1 k now)) = nslots kv"
proof -
  have ab: "fst (probe kv k) = None" by (rule probe_cases [OF assms(1,2)]) (use assms(3) in simp_all)
  have "{j. j < nslots kv \<and> slots kv ! j = None} \<noteq> {}" using assms(5) unfolding empty_count_def by (metis card.empty nat.distinct(1))
  then have ne: "\<not> no_empty kv" unfolding no_empty_def by blast
  let ?s = "slot_alloc (bernstein_hash k) k \<lparr>e_val = v, e_expiry = 0\<rparr>"
  from set_nx_insert [OF assms(1,2) ab ne, of v now] obtain j where j: "slots kv ! j = None" "j < nslots kv"
    "lfkv_set_nx (True, True) k v now kv = Some (publish j ?s v kv, True)"
    "lf_ok (publish j ?s v kv)" "lfkv_map (publish j ?s v kv) = (lfkv_map kv)(k \<mapsto> \<lparr>e_val = v, e_expiry = 0\<rparr>)" by blast
  let ?kv1 = "publish j ?s v kv"
  obtain i a where a: "fst (probe ?kv1 k) = Some a" "live_rec ?kv1 i a k \<lparr>e_val = v, e_expiry = 0\<rparr>"
    by (rule probe_cases [OF j(4) assms(2)]) (use j(5) in auto)
  let ?e = "\<lparr>e_val = v, e_expiry = 0\<rparr>" and ?kv2 = "slot_retire_entry a \<lparr>e_val = v, e_expiry = 0\<rparr> ?kv1"
  have d: "fst (lfkv_del ?kv1 k now) = ?kv2"
    using a by (simp add: lfkv_del_def with_entry_def live_rec_def entry_expired_def)
  have r: "lf_ok ?kv2" "lfkv_map ?kv2 = Map.empty" using lf_remove_ok [OF j(4) a(2) retire_same] j(5) assms(3) by auto
  have jl: "j < length (slots kv)" using j(2) by (simp add: nslots_def)
  have sl: "slots ?kv2 ! x = (if x = j then Some (length (records kv)) else slots kv ! x)" for x
    using jl by (simp add: retire_slots publish_slots nth_list_update)
  have n2: "nslots ?kv2 = nslots kv" by (simp add: retire_slots publish_slots)
  have "only_key k ?kv2"
    unfolding only_key_def n2
  proof (intro allI impI)
    fix x b assume x: "x < nslots kv" "slots ?kv2 ! x = Some b"
    show "s_key (rec_at ?kv2 b) = k"
    proof (cases "x = j")
      case True
      then have "b = length (records kv)" using x(2) sl by simp
      then show ?thesis unfolding retire_key by (simp add: rec_at_def publish_slots slot_alloc_def)
    next
      case False
      then have b: "slots kv ! x = Some b" using x(2) by (simp add: sl)
      then have "b < length (records kv)" using lf_okD(3) [OF assms(1) x(1)] by blast
      then show ?thesis unfolding retire_key using assms(4) x(1) b
        by (simp add: rec_at_def publish_slots nth_append only_key_def)
    qed
  qed
  moreover have "empty_count ?kv2 = c"
  proof -
    have "{x. x < nslots kv \<and> slots kv ! x = None} = insert j {x. x < nslots kv \<and> slots ?kv2 ! x = None}"
      using j(1,2) sl by (auto split: if_splits)
    moreover have "j \<notin> {x. x < nslots kv \<and> slots ?kv2 ! x = None}" using sl by simp
    ultimately show ?thesis using assms(5) unfolding empty_count_def n2 by simp
  qed
  ultimately show ?thesis using that [OF j(3)] r d n2 by simp
qed

lemma nx_cycles_run:
  assumes "lf_ok kv" "key_legal k" "lfkv_map kv = Map.empty" "only_key k kv" "empty_count kv = c"
  shows "\<exists>kv'. nx_cycles c k v now kv = Some kv' \<and> lf_ok kv' \<and> lfkv_map kv' = Map.empty \<and> only_key k kv'
    \<and> empty_count kv' = 0 \<and> nslots kv' = nslots kv"
  using assms
proof (induction c arbitrary: kv)
  case (Suc c)
  show ?case
    by (rule nx_cycle [OF Suc.prems, of v now]) (use Suc.IH Suc.prems(2) in fastforce)
qed simp

lemma nx_cycles_hang:
  assumes "lfkv_new True w n = Some kv" "key_legal k"
  shows "\<exists>kv'. nx_cycles n k v now kv = Some kv' \<and> lfkv_map kv' = Map.empty \<and> lfkv_count kv' = 0
    \<and> lfkv_set_nx (True, True) k v now kv' = None"
proof -
  note ok = lfkv_new_ok [OF assms(1)]
  have "{j. j < n \<and> slots kv ! j = None} = {..<n}" using ok by auto
  then have "empty_count kv = n" using ok by (simp add: empty_count_def)
  moreover have "only_key k kv" using ok by (simp add: only_key_def)
  ultimately obtain kv' where k: "nx_cycles n k v now kv = Some kv'" "lf_ok kv'" "lfkv_map kv' = Map.empty" "only_key k kv'"
    "empty_count kv' = 0" "nslots kv' = nslots kv"
    using nx_cycles_run [of kv k n v now] ok assms(2) by auto
  have n: "0 < nslots kv'" using lf_okD(2) [OF k(2)] .
  have ne: "no_empty kv'" using k(5) by (simp add: empty_count_def no_empty_def)
  have ab: "fst (probe kv' k) = None" by (rule probe_cases [OF k(2) assms(2)]) (use k(3) in simp_all)
  obtain a where "slots kv' ! 0 = Some a" using ne n by (auto simp: no_empty_def)
  then have "\<exists>j < nslots kv'. \<exists>a. slots kv' ! j = Some a \<and> s_key (rec_at kv' a) = k"
    using k(4) n unfolding only_key_def by blast
  then have h: "lfkv_set_nx (True, True) k v now kv' = None" using set_nx_no_empty [OF k(2) assms(2) ab ne] by simp
  have "\<forall>j < nslots kv'. entry_at kv' j = None"
    using k(3) unfolding lfkv_map_def by (metis entries_map_None not_Some_eq prod.collapse)
  then have "live_count (nslots kv') (entry_at kv') = 0" by (simp add: live_count_def)
  then have "lfkv_count kv' = 0" using lf_okD(7) [OF k(2)] by (simp add: lfkv_count_def)
  then show ?thesis using k(1,3) h by blast
qed


section \<open>Walks over the table\<close>

lemma finite_map: "finite (dom (lfkv_map kv))"
  by (simp add: lfkv_map_def entries_map_def finite_dom_map_of)

definition retire_part :: "(lfentry \<Rightarrow> bool) \<Rightarrow> lfkv \<Rightarrow> nat list \<Rightarrow> bytes \<rightharpoonup> lfentry" where
  "retire_part P kv is = (\<lambda>k. case lfkv_map kv k of None \<Rightarrow> None
     | Some e \<Rightarrow> if P e \<and> (\<exists>i \<in> set is. entry_at kv i = Some (k, e)) then None else Some e)"

lemma retire_loop_ok:
  assumes "lf_ok kv" "\<forall>i \<in> set is. i < nslots kv" "retire_loop P is kv m = (kv', m')"
  shows "lf_ok kv' \<and> nslots kv' = nslots kv \<and> lfkv_map kv' = retire_part P kv is
    \<and> m' + card (dom (lfkv_map kv')) = m + card (dom (lfkv_map kv))"
  using assms
proof (induction "is" arbitrary: kv m)
  case Nil
  have "retire_part P kv [] = lfkv_map kv" by (simp add: retire_part_def fun_eq_iff split: option.split)
  then show ?case using Nil by simp
next
  case (Cons i "is")
  have il: "i < nslots kv" using Cons.prems(2) by simp
  show ?case
  proof (cases "\<exists>k e. entry_at kv i = Some (k, e) \<and> P e")
    case False
    have r: "retire_loop P (i # is) kv m = retire_loop P is kv m"
      using False by (auto simp: entry_at_def split: option.splits)
    have pr: "retire_part P kv (i # is) = retire_part P kv is"
      using False by (auto simp: retire_part_def fun_eq_iff split: option.split)
    have "retire_loop P is kv m = (kv', m')" using Cons.prems(3) unfolding r .
    then show ?thesis unfolding pr by (intro Cons.IH [OF Cons.prems(1)]) (use Cons.prems(2) in simp)
  next
    case True
    then obtain k e where e: "entry_at kv i = Some (k, e)" "P e" by blast
    then obtain a where a: "slots kv ! i = Some a" "s_key (rec_at kv a) = k" "s_entry (rec_at kv a) = Some e"
      by (auto simp: entry_at_Some)
    have l: "live_rec kv i a k e" using il a by (simp add: live_rec_def)
    have mk: "lfkv_map kv k = Some e" by (rule live_rec_map [OF Cons.prems(1) l])
    let ?kv = "slot_retire_entry a e kv"
    have r: "retire_loop P (i # is) kv m = retire_loop P is ?kv (m + 1)" using a e(2) by simp
    have ok: "lf_ok ?kv" "nslots ?kv = nslots kv" "lfkv_map ?kv = (lfkv_map kv)(k := None)"
      using lf_remove_ok [OF Cons.prems(1) l retire_same] by auto
    have E: "entry_at ?kv j = ((entry_at kv)(i := None)) j" if "j < nslots kv" for j
    proof -
      have "entry_at ?kv j = entry_at (put_entry a None kv) j"
        by (simp add: entry_at_def slot_retire_entry_def emit_def rec_at_def split: option.split)
      then show ?thesis using put_entry_at [OF Cons.prems(1) l that, of None] by simp
    qed
    have "retire_part P ?kv is = retire_part P kv (i # is)"
    proof
      fix k'
      show "retire_part P ?kv is k' = retire_part P kv (i # is) k'"
      proof (cases "k' = k")
        case True
        then show ?thesis using mk e ok(3) by (simp add: retire_part_def)
      next
        case False
        have "entry_at ?kv j = Some (k', f) \<longleftrightarrow> entry_at kv j = Some (k', f)" if "j < nslots kv" for j f
          using E [OF that] False e(1) by (cases "j = i") simp_all
        then have "(\<exists>j \<in> set is. entry_at ?kv j = Some (k', f)) = (\<exists>j \<in> set (i # is). entry_at kv j = Some (k', f))" for f
          using False e(1) Cons.prems(2) by auto
        then show ?thesis using False ok(3) by (simp add: retire_part_def split: option.split)
      qed
    qed
    moreover have "card (dom (lfkv_map kv)) = card (dom (lfkv_map ?kv)) + 1"
      using card_Suc_Diff1 [OF finite_map domI [of "lfkv_map kv", OF mk]] unfolding ok(3) by simp
    moreover have "retire_loop P is ?kv (m + 1) = (kv', m')" using Cons.prems(3) unfolding r .
    moreover have "\<forall>i \<in> set is. i < nslots ?kv" using Cons.prems(2) ok(2) by simp
    ultimately show ?thesis using Cons.IH [OF ok(1), of "m + 1"] ok(2) by auto
  qed
qed

lemma retire_all: "lf_ok kv \<Longrightarrow> retire_part P kv [0..<nslots kv] = (\<lambda>k. case lfkv_map kv k of None \<Rightarrow> None
    | Some e \<Rightarrow> if P e then None else Some e)"
proof -
  assume ok: "lf_ok kv"
  have "lfkv_map kv k = Some e \<Longrightarrow> \<exists>i \<in> set [0..<nslots kv]. entry_at kv i = Some (k, e)" for k e
    unfolding lfkv_map_def entries_map_iff [OF lf_okD(5) [OF ok]] by auto
  then show ?thesis by (auto simp: retire_part_def fun_eq_iff split: option.split)
qed

definition shown :: "lfkv \<Rightarrow> int \<Rightarrow> nat \<Rightarrow> (bytes \<times> nat \<times> int) option" where
  "shown kv now i = (case entry_at kv i of None \<Rightarrow> None
     | Some (k, e) \<Rightarrow> (case e_val e of None \<Rightarrow> None
        | Some v \<Rightarrow> if entry_expired e now then None else Some (k, v, e_expiry e)))"

lemma foreach_collect:
  "foreach_loop kv now (\<lambda>k v t c. (False, c @ [(k, v, t)])) is c = c @ List.map_filter (shown kv now) is"
proof (induction "is" arbitrary: c)
  case (Cons i "is")
  show ?case
  proof (cases "entry_at kv i")
    case None
    then show ?thesis using Cons.IH by (auto simp: shown_def entry_at_def List.map_filter_simps split: option.splits)
  next
    case (Some x)
    obtain k e where x: "x = (k, e)" by (metis surj_pair)
    then obtain a where "slots kv ! i = Some a" "s_key (rec_at kv a) = k" "s_entry (rec_at kv a) = Some e"
      using Some by (auto simp: entry_at_Some)
    then show ?thesis using Cons.IH Some x by (cases "e_val e") (simp_all add: shown_def List.map_filter_simps)
  qed
qed (simp add: List.map_filter_simps)

lemma shown_distinct:
  assumes "keys_unique n (entry_at kv)" "m \<le> n"
  shows "distinct (map fst (List.map_filter (shown kv now) [0..<m]))"
  using assms(2)
proof (induction m)
  case (Suc m)
  have k: "\<exists>e. entry_at kv i = Some (k, e)" if "shown kv now i = Some (k, x)" for i k x
    using that by (auto simp: shown_def split: option.splits if_splits)
  have mf: "List.map_filter f (xs @ [y]) = List.map_filter f xs @ (case f y of None \<Rightarrow> [] | Some z \<Rightarrow> [z])"
    for f :: "nat \<Rightarrow> (bytes \<times> nat \<times> int) option" and xs y
    by (induction xs) (auto simp: List.map_filter_simps split: option.split)
  have "k \<notin> fst ` set (List.map_filter (shown kv now) [0..<m])" if s: "shown kv now m = Some (k, x)" for k x
  proof
    assume "k \<in> fst ` set (List.map_filter (shown kv now) [0..<m])"
    then obtain y i where i: "i < m" "shown kv now i = Some (k, y)" by (auto simp: List.map_filter_def)
    obtain e f where "entry_at kv i = Some (k, e)" "entry_at kv m = Some (k, f)" using k [OF i(2)] k [OF s] by blast
    moreover have "i < n" "m < n" using i(1) Suc.prems by simp_all
    ultimately have "i = m" using assms(1) unfolding keys_unique_def by blast
    then show False using i(1) by simp
  qed
  then show ?case using Suc by (auto simp: mf split: option.split)
qed (simp add: List.map_filter_simps)


lemma shown_iff:
  "shown kv now i = Some (k, v, t) \<longleftrightarrow> entry_at kv i = Some (k, \<lparr>e_val = Some v, e_expiry = t\<rparr>)
     \<and> \<not> entry_expired \<lparr>e_val = Some v, e_expiry = t\<rparr> now"
proof (cases "entry_at kv i")
  case None
  then show ?thesis by (simp add: shown_def)
next
  case (Some x)
  obtain k' y t' where x: "x = (k', \<lparr>e_val = y, e_expiry = t'\<rparr>)" by (metis lfentry.cases surj_pair)
  show ?thesis using Some x by (cases y) (auto simp: shown_def)
qed

section \<open>Two writers of one key\<close>

text \<open>Both writers probe, then both commit.\<close>

definition two_sets :: "bytes \<Rightarrow> nat option \<Rightarrow> nat option \<Rightarrow> lfkv \<Rightarrow> lfkv \<times> bool \<times> bool" where
  "two_sets k v1 v2 kv =
     (let pr = probe kv k;
          (kv1, r1) = set_commit (True, True) k v1 pr kv;
          (kv2, r2) = set_commit (True, True) k v2 pr kv1
      in (kv2, r1, r2))"

text \<open>
  A probe of any table walks over the tombstones and the records of other keys, up to the first
  live record of its key.
\<close>

definition walked_over :: "lfkv \<Rightarrow> bytes \<Rightarrow> nat \<Rightarrow> bool" where
  "walked_over kv k j = (\<exists>a. slots kv ! j = Some a
     \<and> (s_entry (rec_at kv a) = None \<or> \<not> slot_key_eq (rec_at kv a) (bernstein_hash k) k))"

lemma walk_over:
  assumes "\<And>m. after_index (pos (nslots kv) h m) (nslots kv) = pos (nslots kv) h (Suc m)"
    and "\<And>m'. m \<le> m' \<Longrightarrow> m' < m + d \<Longrightarrow> walked_over kv k (pos (nslots kv) h m')"
  shows "\<exists>tb'. probe_loop kv (bernstein_hash k) k (d + p) (pos (nslots kv) h m) tb
    = probe_loop kv (bernstein_hash k) k p (pos (nslots kv) h (m + d)) tb'"
  using assms(2)
proof (induction d arbitrary: m tb)
  case (Suc d)
  obtain a where "slots kv ! pos (nslots kv) h m = Some a"
    "s_entry (rec_at kv a) = None \<or> \<not> slot_key_eq (rec_at kv a) (bernstein_hash k) k"
    using Suc.prems [of m] unfolding walked_over_def by auto
  then obtain tb1 where "probe_loop kv (bernstein_hash k) k (Suc d + p) (pos (nslots kv) h m) tb
      = probe_loop kv (bernstein_hash k) k (d + p) (pos (nslots kv) h (Suc m)) tb1"
    using assms(1) by (cases "s_entry (rec_at kv a) = None") auto
  moreover have "\<exists>tb'. probe_loop kv (bernstein_hash k) k (d + p) (pos (nslots kv) h (Suc m)) tb1
      = probe_loop kv (bernstein_hash k) k p (pos (nslots kv) h (Suc m + d)) tb'"
    by (rule Suc.IH) (use Suc.prems in simp)
  ultimately show ?case by simp
qed auto

lemma probe_finds:
  assumes "\<exists>b. nslots kv = 2 ^ b" "m < nslots kv"
    and "\<And>m'. m' < m \<Longrightarrow> walked_over kv k (pos (nslots kv) (key_home kv k) m')"
    and "slots kv ! pos (nslots kv) (key_home kv k) m = Some a" "s_entry (rec_at kv a) \<noteq> None"
    and "slot_key_eq (rec_at kv a) (bernstein_hash k) k"
  shows "fst (probe kv k) = Some a"
proof -
  let ?n = "nslots kv" and ?h = "key_home kv k"
  obtain b where b: "?n = 2 ^ b" using assms(1) by blast
  have st: "after_index (pos ?n ?h x) ?n = pos ?n ?h (Suc x)" for x
    unfolding after_index_def b and_pow2_nat by (simp add: pos_def mod_Suc_eq)
  have hm: "pos ?n ?h 0 = home_index (bernstein_hash k) ?n"
    unfolding key_home_def home_index_def b and_pow2_nat by (simp add: pos_def)
  obtain tb where "probe kv k = probe_loop kv (bernstein_hash k) k (?n - m) (pos ?n ?h m) tb"
    using walk_over [of kv ?h 0 m k "?n - m" None, OF st] assms(2,3) by (auto simp: probe_def Let_def hm)
  moreover obtain p where "?n - m = Suc p" using assms(2) by (metis Suc_diff_Suc)
  ultimately show ?thesis using assms(4-6) by simp
qed

text \<open>What a read and a deletion do with the record found.\<close>

lemma get_found:
  "fst (probe kv k) = Some a \<Longrightarrow> s_entry (rec_at kv a) = Some \<lparr>e_val = v, e_expiry = 0\<rparr> \<Longrightarrow> snd (lfkv_get kv k now) = v"
  by (simp add: lfkv_get_def Let_def null_val_def with_entry_def entry_expired_def)

lemma del_found:
  "fst (probe kv k) = Some a \<Longrightarrow> s_entry (rec_at kv a) = Some \<lparr>e_val = v, e_expiry = 0\<rparr>
    \<Longrightarrow> lfkv_del kv k now = (slot_retire_entry a \<lparr>e_val = v, e_expiry = 0\<rparr> kv, True)"
  by (simp add: lfkv_del_def with_entry_def entry_expired_def)

lemma two_sets_tombstone:
  assumes ok: "lf_ok kv" "key_legal k" and p: "probe kv k = (None, i, Some t)" "slots kv ! i = None"
  shows "\<exists>kv2. two_sets k v1 v2 kv = (kv2, True, True) \<and> kcount kv2 = kcount kv + 2
    \<and> snd (lfkv_get kv2 k now) = v1 \<and> snd (lfkv_del kv2 k now)
    \<and> snd (lfkv_get (fst (lfkv_del kv2 k now)) k now') = v2"
proof -
  let ?n = "nslots kv" and ?h = "key_home kv k" and ?r = "length (records kv)"
  let ?e1 = "\<lparr>e_val = v1, e_expiry = 0\<rparr>" and ?e2 = "\<lparr>e_val = v2, e_expiry = 0\<rparr>"
  let ?s1 = "slot_alloc (bernstein_hash k) k ?e1" and ?s2 = "slot_alloc (bernstein_hash k) k ?e2"
  note pr = probe_spec [OF ok, unfolded p(1) probe_result_def, simplified]
  have il: "i < ?n" "reached kv k i" and t: "t < ?n" "slots kv ! t \<noteq> None" "entry_at kv t = None"
    and ab: "\<And>j e. j < ?n \<Longrightarrow> entry_at kv j \<noteq> Some (k, e)"
    using pr p(2) by auto
  obtain at where at: "slots kv ! t = Some at" "s_entry (rec_at kv at) = None"
    using t by (auto simp: entry_at_def split: option.splits)
  have ti: "t \<noteq> i" using p(2) t(2) by auto
  obtain mi where mi: "mi < ?n" "pos ?n ?h mi = i" "\<forall>m' < mi. slots kv ! pos ?n ?h m' \<noteq> None"
    using il(2) unfolding reached_def by blast
  have hl: "?h < ?n" using lf_index(1) [OF ok(1), of "bernstein_hash k"] by (simp add: key_home_def)
  obtain mt where mt: "mt < ?n" "pos ?n ?h mt = t" "\<forall>m' < mt. slots kv ! pos ?n ?h m' \<noteq> None"
    using pr unfolding reached_def by blast
  have lt: "mt < mi"
  proof (rule ccontr)
    assume "\<not> mt < mi"
    then consider "mi < mt" | "mt = mi" by linarith
    then show False using mt mi ti p(2) by cases auto
  qed
  have pn: "pos ?n ?h m < ?n" for m using lf_okD(2) [OF ok(1)] by (simp add: pos_def)
  let ?kv1 = "publish t ?s1 v1 kv" and ?kv2 = "publish i ?s2 v2 (publish t ?s1 v1 kv)"
  have e: "s_entry ?s1 = Some ?e1" "s_entry ?s2 = Some ?e2" by (simp_all add: slot_alloc_def)
  have c1: "set_commit (True, True) k v1 (None, i, Some t) kv = (?kv1, True)"
    by (simp add: set_commit_def Let_def at)
  have len: "t < length (slots kv)" "i < length (slots kv)" using t il by (simp_all add: nslots_def)
  have r1: "rec_at ?kv1 ?r = ?s1" by (simp add: rec_at_def publish_slots)
  have sl1: "slots ?kv1 ! t = Some ?r" "slots ?kv1 ! i = None"
    using len ti p(2) by (simp_all add: publish_slots)
  have c2: "set_commit (True, True) k v2 (None, i, Some t) ?kv1 = (?kv2, True)"
    using claim_empty [OF sl1(2)] by (simp add: set_commit_def Let_def sl1 r1 e)
  have both: "two_sets k v1 v2 kv = (?kv2, True, True)" by (simp add: two_sets_def Let_def p(1) c1 c2)
  let ?kv3 = "slot_retire_entry ?r ?e1 ?kv2"
  have n: "nslots ?kv2 = ?n" "nslots ?kv3 = ?n" by (simp_all add: publish_slots retire_slots)
  have h: "key_home ?kv2 k = ?h" "key_home ?kv3 k = ?h" using n by (simp_all add: key_home_def)
  have b: "\<exists>b. ?n = 2 ^ b" using lf_okD(1) [OF ok(1)] by blast
  have sl: "slots ?kv2 ! j = (if j = i then Some (Suc ?r) else if j = t then Some ?r else slots kv ! j)"
    "slots ?kv3 ! j = (if j = i then Some (Suc ?r) else if j = t then Some ?r else slots kv ! j)" for j
    using len by (simp_all add: publish_slots retire_slots nth_list_update)
  have ra2: "rec_at ?kv2 ?r = ?s1" "rec_at ?kv2 (Suc ?r) = ?s2" "a < ?r \<Longrightarrow> rec_at ?kv2 a = rec_at kv a" for a
    by (simp_all add: rec_at_def publish_slots nth_append)
  have al: "?r < length (records ?kv2)" by (simp add: publish_slots)
  have ra3: "rec_at ?kv3 a = (if a = ?r then ?s1\<lparr>s_entry := None\<rparr> else rec_at ?kv2 a)" for a
    using rec_at_put [OF al, of None a] unfolding ra2(1)
    by (simp add: slot_retire_entry_def emit_def rec_at_def put_entry_def split: if_splits)
  have old: "\<exists>a < ?r. slots kv ! j = Some a
      \<and> (s_entry (rec_at kv a) = None \<or> \<not> slot_key_eq (rec_at kv a) (bernstein_hash k) k)"
    if j: "j < ?n" "slots kv ! j \<noteq> None" for j
  proof -
    obtain a where a: "slots kv ! j = Some a" using j(2) by blast
    note ao = lf_okD(3) [OF ok(1) j(1) a]
    have "s_entry (rec_at kv a) = None \<or> s_key (rec_at kv a) \<noteq> k"
      using ab [OF j(1)] a by (auto simp: entry_at_def split: option.splits)
    then show ?thesis using a ao key_eq_iff [of "rec_at kv a" k] ok(2) by auto
  qed
  have np: "pos ?n ?h m' \<noteq> i" if "m' < mi" for m' using pos_inj [of m' ?n mi ?h] that mi(1,2) by auto
  have npt: "pos ?n ?h m' \<noteq> t" if "m' < mt" for m' using pos_inj [of m' ?n mt ?h] that mt(1,2) by auto
  have eq: "slot_key_eq ?s1 (bernstein_hash k) k" "slot_key_eq ?s2 (bernstein_hash k) k"
    using ok(2) by (simp_all add: slot_key_eq_def slot_alloc_def key_legal_def unsigned_of_nat take_bit_nat_eq_self)
  have f2: "fst (probe ?kv2 k) = Some ?r"
  proof (rule probe_finds [where m = mt])
    fix m' assume m': "m' < mt"
    then have "slots kv ! pos ?n ?h m' \<noteq> None" using mt(3) by blast
    from old [OF pn this] obtain a where a: "a < ?r" "slots kv ! pos ?n ?h m' = Some a"
      "s_entry (rec_at kv a) = None \<or> \<not> slot_key_eq (rec_at kv a) (bernstein_hash k) k" by blast
    show "walked_over ?kv2 k (pos (nslots ?kv2) (key_home ?kv2 k) m')"
      unfolding walked_over_def n h sl
      by (rule exI [of _ a]) (use a np [of m'] npt [OF m'] m' lt in \<open>simp add: ra2(3)\<close>)
  qed (use b mt np [OF lt] eq(1) e in \<open>simp_all add: n h sl ra2\<close>)
  have f3: "fst (probe ?kv3 k) = Some (Suc ?r)"
  proof (rule probe_finds [where m = mi])
    fix m' assume m': "m' < mi"
    then have "slots kv ! pos ?n ?h m' \<noteq> None" using mi(3) by blast
    from old [OF pn this] obtain a where a: "a < ?r" "slots kv ! pos ?n ?h m' = Some a"
      "s_entry (rec_at kv a) = None \<or> \<not> slot_key_eq (rec_at kv a) (bernstein_hash k) k" by blast
    show "walked_over ?kv3 k (pos (nslots ?kv3) (key_home ?kv3 k) m')"
      unfolding walked_over_def n h sl
      by (cases "pos ?n ?h m' = t")
        (rule exI [of _ ?r], use np [OF m'] in \<open>simp add: ra3\<close>,
          rule exI [of _ a], use a np [OF m'] in \<open>simp add: ra2(3) ra3\<close>)
  qed (use b mi eq(2) e in \<open>simp_all add: n h sl ra2 ra3\<close>)
  have d: "lfkv_del ?kv2 k now = (?kv3, True)" by (rule del_found [OF f2]) (simp add: ra2 e)
  have g2: "snd (lfkv_get ?kv2 k now) = v1" by (rule get_found [OF f2]) (simp add: ra2 e)
  have g3: "snd (lfkv_get ?kv3 k now') = v2" by (rule get_found [OF f3]) (simp add: ra2 ra3 e)
  have kc: "kcount ?kv2 = kcount kv + 2" by (simp add: publish_def emit_def)
  show ?thesis using both d g2 g3 kc by (intro exI [of _ ?kv2]) simp
qed

lemma two_sets_empty:
  assumes ok: "lf_ok kv" "key_legal k" and p: "probe kv k = (None, i, None)" "slots kv ! i = None"
  shows "\<exists>kv2. two_sets k v1 v2 kv = (kv2, True, True) \<and> lf_ok kv2
    \<and> lfkv_map kv2 = (lfkv_map kv)(k \<mapsto> \<lparr>e_val = v2, e_expiry = 0\<rparr>)"
proof -
  let ?e1 = "\<lparr>e_val = v1, e_expiry = 0\<rparr>" and ?e2 = "\<lparr>e_val = v2, e_expiry = 0\<rparr>"
  let ?s1 = "slot_alloc (bernstein_hash k) k ?e1" and ?r = "length (records kv)"
  let ?kv1 = "publish i ?s1 v1 kv" and ?kv2 = "slot_replace_entry ?r ?e2 (publish i ?s1 v1 kv)"
  note pr = probe_spec [OF ok, unfolded p(1) probe_result_def, simplified]
  have il: "i < nslots kv" using pr by blast
  have c1: "set_commit (True, True) k v1 (None, i, None) kv = (?kv1, True)"
    by (simp add: set_commit_def Let_def claim_empty [OF p(2)])
  have "lfkv_set (True, True) kv k v1 = (?kv1, True)" by (simp add: lfkv_set_def p(1) c1)
  note ok1 = lfkv_set_ok [OF ok this]
  have r: "rec_at ?kv1 ?r = ?s1" "slots ?kv1 ! i = Some ?r"
    using il by (simp_all add: rec_at_def publish_slots nslots_def)
  have eq: "slot_key_eq ?s1 (bernstein_hash k) k"
    using ok(2) by (simp add: slot_key_eq_def slot_alloc_def key_legal_def unsigned_of_nat take_bit_nat_eq_self)
  have l: "live_rec ?kv1 i ?r k ?e1" using il unfolding live_rec_def r by (simp add: publish_slots slot_alloc_def)
  have "same_table (put_entry ?r (Some ?e2) ?kv1) ?kv2"
    using l by (simp add: slot_replace_entry_def live_rec_def same_table_def emit_def put_entry_def)
  note ok2 = lf_replace_ok [OF conjunct1 [OF ok1] l this]
  have c2: "set_commit (True, True) k v2 (None, i, None) ?kv1 = (?kv2, True)"
    by (simp add: set_commit_def Let_def claim_slot_def r eq)
  show ?thesis using ok1 ok2 by (intro exI [of _ ?kv2]) (simp add: two_sets_def Let_def p(1) c1 c2)
qed

text \<open>A table of four indices in which the key \<open>a\<close> was set and deleted.\<close>

definition four_slots :: lfkv where
  "four_slots = \<lparr>records = [], slots = replicate 4 None, kcount = 0, retired = [], refs = [], watching = False, emitted = []\<rparr>"

definition after_delete :: lfkv where
  "after_delete = fst (lfkv_del (fst (lfkv_set (True, True) four_slots [97] (Some 1))) [97] 0)"

definition rec_a :: "lfentry option \<Rightarrow> lfslot" where
  "rec_a e = \<lparr>khash = bernstein_hash [97], klen = 1, s_key = [97], s_entry = e\<rparr>"

definition val_a :: "nat \<Rightarrow> lfentry" where
  "val_a v = \<lparr>e_val = Some v, e_expiry = 0\<rparr>"

lemma hash_a: "home_index (bernstein_hash [97]) 4 = 3" "after_index 3 4 = 0" "after_index 0 4 = 1"
  by (simp_all add: home_index_def after_index_def bernstein_hash_def bernstein_step_def bernstein_seed_def)

lemma rec_a_eq [simp]: "slot_key_eq (rec_a e) (bernstein_hash [97]) [97]" "s_entry (rec_a e) = e" "s_key (rec_a e) = [97]"
  "(rec_a e)\<lparr>s_entry := f\<rparr> = rec_a f" "e_val (val_a v) = Some v" "\<not> entry_expired (val_a v) 0"
  by (simp_all add: rec_a_def slot_key_eq_def val_a_def entry_expired_def)

lemma alloc_a: "slot_alloc (bernstein_hash [97]) [97] \<lparr>e_val = Some v, e_expiry = 0\<rparr> = rec_a (Some (val_a v))"
  by (simp add: slot_alloc_def rec_a_def val_a_def)

definition tab_a :: "lfslot list \<Rightarrow> nat option list \<Rightarrow> u64 \<Rightarrow> lfentry list \<Rightarrow> lfkv" where
  "tab_a r s c d = \<lparr>records = r, slots = s, kcount = c, retired = d, refs = [], watching = False, emitted = []\<rparr>"

lemma tab_a_simps [simp]: "slots (tab_a r s c d) = s" "nslots (tab_a r [p0, p1, p2, p3] c d) = 4" "rec_at (tab_a r s c d) i = r ! i"
  "publish i x v (tab_a r s c d) = tab_a (r @ [x]) (s[i := Some (length r)]) (c + 1) d"
  "slot_retire_entry i e (tab_a r s c d) = tab_a (r[i := (r ! i)\<lparr>s_entry := None\<rparr>]) s (c - 1) (d @ [e])"
  by (simp_all add: tab_a_def nslots_def rec_at_def publish_def slot_retire_entry_def put_entry_def emit_def)

lemma four_slots_tab: "four_slots = tab_a [] [None, None, None, None] 0 []"
  by (simp add: four_slots_def tab_a_def eval_nat_numeral)

lemma probe_a:
  "probe (tab_a r [p0, p1, p2, p3] c d) [97] = probe_loop (tab_a r [p0, p1, p2, p3] c d) (bernstein_hash [97]) [97] 4 3 None"
  by (simp add: probe_def Let_def hash_a)

lemma loop_from_3: "n = Suc p \<Longrightarrow> probe_loop (tab_a r [p0, p1, p2, p3] c d) (bernstein_hash [97]) [97] n 3 tomb =
     (case p3 of None \<Rightarrow> (None, 3, tomb)
      | Some a \<Rightarrow>
          if s_entry (r ! a) = None
          then probe_loop (tab_a r [p0, p1, p2, p3] c d) (bernstein_hash [97]) [97] p 0 (if tomb = None then Some 3 else tomb)
          else if slot_key_eq (r ! a) (bernstein_hash [97]) [97] then (Some a, 3, tomb)
          else probe_loop (tab_a r [p0, p1, p2, p3] c d) (bernstein_hash [97]) [97] p 0 tomb)"
  using hash_a by (auto split: option.splits)

lemma loop_from_0: "n = Suc p \<Longrightarrow> probe_loop (tab_a r [p0, p1, p2, p3] c d) (bernstein_hash [97]) [97] n 0 tomb =
     (case p0 of None \<Rightarrow> (None, 0, tomb)
      | Some a \<Rightarrow>
          if s_entry (r ! a) = None
          then probe_loop (tab_a r [p0, p1, p2, p3] c d) (bernstein_hash [97]) [97] p 1 (if tomb = None then Some 0 else tomb)
          else if slot_key_eq (r ! a) (bernstein_hash [97]) [97] then (Some a, 0, tomb)
          else probe_loop (tab_a r [p0, p1, p2, p3] c d) (bernstein_hash [97]) [97] p 1 tomb)"
  using hash_a by (auto split: option.splits)

lemmas loop_a = loop_from_3 [of 4 3, simplified] loop_from_0 [of 3 2, simplified]

lemma after_delete_tab: "after_delete = tab_a [rec_a None] [None, None, None, Some 0] 0 [val_a 1]"
proof -
  have s: "lfkv_set (True, True) four_slots [97] (Some 1) = (tab_a [rec_a (Some (val_a 1))] [None, None, None, Some 0] 1 [], True)"
    by (simp add: four_slots_tab probe_a loop_a lfkv_set_def set_commit_def Let_def claim_slot_def alloc_a)
  show ?thesis unfolding after_delete_def s by (simp add: lfkv_del_def probe_a loop_a with_entry_def)
qed

lemma after_delete_ok: "lf_ok after_delete" "probe after_delete [97] = (None, 0, Some 3)" "slots after_delete ! 0 = None"
proof -
  have k: "key_legal [97]" by (simp add: key_legal_def)
  have "lfkv_new True False 4 = Some four_slots"
  proof -
    have "(4 :: nat) AND 3 = 0" using and_pow2_nat [of 4 2] by simp
    then show ?thesis by (simp add: lfkv_new_def four_slots_def SIZE_MAX_def)
  qed
  then have "lf_ok four_slots" using lfkv_new_ok by blast
  moreover obtain kv b where s: "lfkv_set (True, True) four_slots [97] (Some 1) = (kv, b)" by (metis surj_pair)
  ultimately have "lf_ok kv" using lfkv_set_ok [OF _ k s] by blast
  moreover obtain kv' r where d: "lfkv_del kv [97] 0 = (kv', r)" by (metis surj_pair)
  ultimately have "lf_ok kv'" using lf_do_exact [of kv "L_del [97]" 0 kv' "R_ok r"] k by simp
  then show "lf_ok after_delete" by (simp only: after_delete_def s d fst_conv)
qed (simp_all add: after_delete_tab probe_a loop_a)

section \<open>Properties\<close>

text \<open>
  C2. The table is a map with expiring entries: from any table in order, any session of
  sets, reads, deletions, expiries, compare-and-swaps and conditional writes at times that
  do not go back, of keys shorter than 2^32 bytes, gives answer by answer what a map gives
  in which an entry is simply gone from its deadline on, as long as no set reports a full
  table; and the table stays in order at its size.
\<close>

theorem lfkv_sessions_refine_map:
  assumes "lf_ok kv" "\<forall>x \<in> set ops. key_legal (lf_key (snd x))" "sorted (map fst ops)"
    and "lf_run ops kv = (kv', rs)" "R_set False \<notin> set rs"
  shows "rs = lf_spec_run ops (lfkv_map kv) \<and> lf_ok kv' \<and> nslots kv' = nslots kv"
  using lf_run_ok [OF assms] by blast

lemma two_slots: "\<exists>kv. lfkv_new True False 2 = Some kv"
proof -
  have "(2 :: nat) AND 1 = 0" using and_pow2_nat [of 2 1] by simp
  then show ?thesis by (simp add: lfkv_new_def SIZE_MAX_def)
qed

theorem lfkv_sessions_refine_map_witness:
  "\<exists>kv. lfkv_new True False 2 = Some kv
     \<and> snd (lf_run [(5, L_get [97]), (6, L_del [98])] kv) = [R_val None, R_ok False]"
proof -
  obtain kv where n: "lfkv_new True False 2 = Some kv" using two_slots by blast
  have ok: "lf_ok kv" "lfkv_map kv = Map.empty" using lfkv_new_ok [OF n] by simp_all
  let ?ops = "[(5, L_get [97]), (6, L_del [98])] :: (int \<times> lf_op) list"
  obtain kv' rs where r: "lf_run ?ops kv = (kv', rs)" by (metis surj_pair)
  have "R_set False \<notin> set rs" using r by (auto simp: Let_def split_beta)
  from lfkv_sessions_refine_map [OF ok(1) _ _ r this] have "rs = lf_spec_run ?ops (lfkv_map kv)"
    by (simp add: key_legal_def)
  then show ?thesis using n r ok(2) by (simp add: purge_def)
qed

text \<open>
  A set fails only for lack of memory or because every index of the table holds a live
  entry of another key, and then changes nothing; otherwise the key has the new value and no
  expiry, every other key is as it was, and the count is the number of live entries.
\<close>

theorem lfkv_set_full:
  assumes "lf_ok kv" "key_legal k" "lfkv_set mem kv k v = (kv', b)"
  shows "(b \<longrightarrow> lfkv_map kv' = (lfkv_map kv)(k \<mapsto> \<lparr>e_val = v, e_expiry = 0\<rparr>))
    \<and> (\<not> b \<longrightarrow> kv' = kv \<and> (mem = (True, True) \<longrightarrow> lfkv_map kv k = None \<and> (\<forall>j < nslots kv. entry_at kv j \<noteq> None)))
    \<and> lfkv_count kv' = of_nat (live_count (nslots kv') (entry_at kv'))"
  using lfkv_set_ok [OF assms] lf_okD(7) [of kv'] by (auto simp: lfkv_count_def split: if_splits)

theorem lfkv_set_full_witness:
  "\<exists>kv kv'. lfkv_new True False 2 = Some kv \<and> lfkv_set (True, True) kv [97] (Some 7) = (kv', True)
     \<and> lfkv_map kv' [97] = Some \<lparr>e_val = Some 7, e_expiry = 0\<rparr>"
proof -
  obtain kv where n: "lfkv_new True False 2 = Some kv" using two_slots by blast
  have ok: "lf_ok kv" "nslots kv = 2" "\<forall>j < 2. entry_at kv j = None" using lfkv_new_ok [OF n] by (auto simp: entry_at_def)
  obtain kv' b where s: "lfkv_set (True, True) kv [97] (Some 7) = (kv', b)" by (metis surj_pair)
  have "\<not> (\<forall>j < 2. entry_at kv j \<noteq> None)" using ok(3) by (metis zero_less_numeral)
  with lfkv_set_full [OF ok(1) _ s] ok(2) show ?thesis using n s by (cases b) (auto simp: key_legal_def)
qed

text \<open>
  Set-if-absent is exact while the table has an index that was never used: it refuses a
  key with an unexpired entry and inserts any other.  In a table without one it refuses an
  absent key as if it were present, and never returns when the table still has a record of
  the key, deleted or expired.
\<close>

theorem lfkv_set_nx_cases:
  assumes "lf_ok kv" "key_legal k"
  shows "(purge now (lfkv_map kv) k \<noteq> None \<longrightarrow> lfkv_set_nx (True, True) k v now kv = Some (kv, False))
    \<and> (purge now (lfkv_map kv) k = None \<and> \<not> no_empty kv \<longrightarrow>
        (\<exists>kv'. lfkv_set_nx (True, True) k v now kv = Some (kv', True) \<and> lf_ok kv'
           \<and> lfkv_map kv' = (lfkv_map kv)(k \<mapsto> \<lparr>e_val = v, e_expiry = 0\<rparr>)))
    \<and> (purge now (lfkv_map kv) k = None \<and> no_empty kv \<longrightarrow>
        lfkv_set_nx (True, True) k v now kv =
          (if \<exists>j < nslots kv. \<exists>a. slots kv ! j = Some a \<and> s_key (rec_at kv a) = k then None else Some (kv, False)))"
  by (rule set_nx_exact [OF assms])

theorem lfkv_set_nx_cases_witness:
  "\<exists>kv kv'. lfkv_new True False 2 = Some kv \<and> lfkv_set_nx (True, True) [97] (Some 7) 0 kv = Some (kv', True)
     \<and> lfkv_map kv' [97] = Some \<lparr>e_val = Some 7, e_expiry = 0\<rparr>"
proof -
  obtain kv where n: "lfkv_new True False 2 = Some kv" using two_slots by blast
  have ok: "lf_ok kv" "lfkv_map kv = Map.empty" "slots kv ! 0 = None" "nslots kv = 2" using lfkv_new_ok [OF n] by simp_all
  then have "\<not> no_empty kv" unfolding no_empty_def by (metis zero_less_numeral)
  then show ?thesis using n lfkv_set_nx_cases [OF ok(1), of "[97]" 0 "Some 7"] ok(2) by (auto simp: key_legal_def purge_def)
qed

text \<open>
  C19. A key taken with set-if-absent and deleted again, as a lock is, uses up one index each
  time: in a new table of n indices, after n such cycles the table is empty and the next
  set-if-absent of the key never returns.
\<close>

theorem lfkv_lock_cycles_hang:
  assumes "lfkv_new True w n = Some kv" "key_legal k"
  shows "\<exists>kv'. nx_cycles n k v now kv = Some kv' \<and> lfkv_map kv' = Map.empty \<and> lfkv_count kv' = 0
    \<and> lfkv_set_nx (True, True) k v now kv' = None"
  by (rule nx_cycles_hang [OF assms])

theorem lfkv_lock_cycles_hang_witness:
  "\<exists>kv kv'. lfkv_new True False 2 = Some kv \<and> nx_cycles 2 [97] (Some 7) 0 kv = Some kv'
     \<and> lfkv_set_nx (True, True) [97] (Some 7) 0 kv' = None"
proof -
  obtain kv where n: "lfkv_new True False 2 = Some kv" using two_slots by blast
  from lfkv_lock_cycles_hang [OF n, of "[97]" "Some 7" 0] show ?thesis using n by (auto simp: key_legal_def)
qed

text \<open>
  C20. Two sets of the same absent key that both probe before either commits, in any table in
  order with an unused index on the key's way, both report success.  When the probe met no
  tombstone the second replaces the value of the first, as one set after the other would.
  When it met one, whatever the table, key and values, the first set takes the tombstone and
  the second the unused index, so that the key has two live records, counted twice: a read
  finds the first value, a deletion succeeds, and a read after it finds the second value.
\<close>

theorem lfkv_concurrent_sets:
  assumes "lf_ok kv" "key_legal k" "probe kv k = (None, i, tb)" "slots kv ! i = None"
  shows "\<exists>kv2. two_sets k v1 v2 kv = (kv2, True, True)
    \<and> (tb = None \<longrightarrow> lf_ok kv2 \<and> lfkv_map kv2 = (lfkv_map kv)(k \<mapsto> \<lparr>e_val = v2, e_expiry = 0\<rparr>))
    \<and> (tb \<noteq> None \<longrightarrow> lfkv_count kv2 = lfkv_count kv + 2
        \<and> snd (lfkv_get kv2 k now) = v1 \<and> snd (lfkv_del kv2 k now)
        \<and> snd (lfkv_get (fst (lfkv_del kv2 k now)) k now') = v2)"
  using two_sets_tombstone [OF assms(1,2), of i _ v1 v2 now now'] two_sets_empty [OF assms(1,2), of i v1 v2] assms(3,4)
  by (cases tb) (auto simp: lfkv_count_def)
theorem lfkv_concurrent_sets_witness:
  "\<exists>kv. two_sets [97] (Some 2) (Some 3) after_delete = (kv, True, True) \<and> lfkv_count kv = lfkv_count after_delete + 2
     \<and> snd (lfkv_get kv [97] 0) = Some 2 \<and> snd (lfkv_del kv [97] 0)
     \<and> snd (lfkv_get (fst (lfkv_del kv [97] 0)) [97] 0) = Some 3"
  using lfkv_concurrent_sets [OF after_delete_ok(1) _ after_delete_ok(2,3), of "Some 2" "Some 3" 0 0]
  by (auto simp: key_legal_def)

text \<open>
  C21. The walks: eviction removes exactly the expired entries and counts them, clearing
  removes all, and an iteration that does not stop shows each unexpired entry with a value
  exactly once.
\<close>

theorem lfkv_walks_exact:
  assumes "lf_ok kv" "lfkv_evict_expired kv now = (kv', n)"
  shows "lfkv_map kv' = purge now (lfkv_map kv) \<and> n + card (dom (lfkv_map kv')) = card (dom (lfkv_map kv))
    \<and> lfkv_map (lfkv_clear kv) = Map.empty \<and> lf_ok (lfkv_clear kv)
    \<and> (let xs = lfkv_foreach kv now (\<lambda>k v t c. (False, c @ [(k, v, t)])) [] in
         distinct (map fst xs)
         \<and> (\<forall>k v t. ((k, v, t) \<in> set xs) = (purge now (lfkv_map kv) k = Some \<lparr>e_val = Some v, e_expiry = t\<rparr>)))"
proof -
  have all: "\<forall>i \<in> set [0..<nslots kv]. i < nslots kv" by simp
  note ev = retire_loop_ok [OF assms(1) all assms(2) [unfolded lfkv_evict_expired_def]]
  obtain kc c where c: "retire_loop (\<lambda>_. True) [0..<nslots kv] kv 0 = (kc, c)" by (metis surj_pair)
  note cl = retire_loop_ok [OF assms(1) all c]
  have "lfkv_clear kv = kc" by (simp add: lfkv_clear_def c)
  moreover have "lfkv_map kc = Map.empty" using cl by (simp add: retire_all [OF assms(1)] fun_eq_iff split: option.split)
  moreover have "lfkv_map kv' = purge now (lfkv_map kv)" using ev by (simp add: retire_all [OF assms(1)] purge_def)
  moreover have xs: "lfkv_foreach kv now (\<lambda>k v t c. (False, c @ [(k, v, t)])) [] = List.map_filter (shown kv now) [0..<nslots kv]"
    by (simp add: lfkv_foreach_def foreach_collect)
  moreover have "((k, v, t) \<in> set (List.map_filter (shown kv now) [0..<nslots kv]))
      = (purge now (lfkv_map kv) k = Some \<lparr>e_val = Some v, e_expiry = t\<rparr>)" for k v t
  proof -
    have "((k, v, t) \<in> set (List.map_filter (shown kv now) [0..<nslots kv])) = (\<exists>i < nslots kv. shown kv now i = Some (k, v, t))"
      by (auto simp: List.map_filter_def) force
    also have "\<dots> = (\<exists>i < nslots kv. entry_at kv i = Some (k, \<lparr>e_val = Some v, e_expiry = t\<rparr>)
        \<and> \<not> entry_expired \<lparr>e_val = Some v, e_expiry = t\<rparr> now)"
      by (simp only: shown_iff)
    also have "\<dots> = (lfkv_map kv k = Some \<lparr>e_val = Some v, e_expiry = t\<rparr> \<and> \<not> entry_expired \<lparr>e_val = Some v, e_expiry = t\<rparr> now)"
      unfolding lfkv_map_def entries_map_iff [OF lf_okD(5) [OF assms(1)]] by blast
    finally show ?thesis by (auto simp: purge_k split: option.split)
  qed
  moreover have "n + card (dom (lfkv_map kv')) = card (dom (lfkv_map kv))" "lf_ok kc" using ev cl unfolding add_0 by blast+
  ultimately show ?thesis using shown_distinct [OF lf_okD(5) [OF assms(1)] order_refl, of now] by (simp add: Let_def)
qed

theorem lfkv_walks_exact_witness:
  "\<exists>kv. lfkv_new True False 2 = Some kv \<and> lfkv_foreach kv 0 (\<lambda>k v t c. (False, c @ [(k, v, t)])) [] = []"
proof -
  obtain kv where n: "lfkv_new True False 2 = Some kv" using two_slots by blast
  have ok: "lf_ok kv" "lfkv_map kv = Map.empty" using lfkv_new_ok [OF n] by simp_all
  obtain kv' m where e: "lfkv_evict_expired kv 0 = (kv', m)" by (metis surj_pair)
  have "x \<notin> set (lfkv_foreach kv 0 (\<lambda>k v t c. (False, c @ [(k, v, t)])) [])" for x
    using lfkv_walks_exact [OF ok(1) e] ok(2) by (cases x) (simp add: Let_def purge_def)
  then have "set (lfkv_foreach kv 0 (\<lambda>k v t c. (False, c @ [(k, v, t)])) []) = {}" by (intro equals0I) simp
  then show ?thesis using n by (intro exI [of _ kv]) (simp only: set_empty simp_thms)
qed

end
