(* ===== verification/Refcount.thy ===== *)
theory Refcount
  imports Prelude "HOL-Library.Multiset"
begin

text \<open>
  Reference counts: \<open>unrefexp\<close> and \<open>unrefexp_free\<close> (\<open>alcove.h\<close>, \<open>alcove.c\<close>), \<open>bytecode_free\<close>
  (\<open>compiler.h\<close>), and the life of environments (\<open>env.h\<close>), with the closure cycles that
  \<open>env_break_self_cycle\<close> severs.

  The heap maps indices to cells and environments.  The recursion of the C code is a list of
  work to do: what an owner releases is put in front, in the order of the code, and the owner
  stops owning it at that moment.  \<open>None\<close> is a double free: an abort for a cell, the use of a
  freed environment otherwise.  The tables of weak references and watchers have their own
  theories and are not part of this heap.
\<close>

section \<open>Cells and environments\<close>

text \<open>A pointer is an index; \<open>None\<close> is \<open>NULL\<close> or a tagged immediate, which own nothing.\<close>

type_synonym ptr = "nat option"

text \<open>
  What a cell owns besides its \<open>next\<close>: a pair its content, a dictionary or set its values, a
  deque and a boxed vector their elements, a lambda or macro its parameters, and when compiled
  the parameters and constants of its bytecode.  \<open>Other_body\<close> is any other type, with the
  references its release drops.
\<close>

datatype gbody =
  Pair_body ptr
| Dict_body "ptr list"
| Deque_body "ptr list"
| Vector_body "ptr list"
| Ast_fn ptr
| Compiled_fn "(ptr \<times> ptr list) option"
| Other_body "ptr list"

text \<open>\<open>capt\<close> is the \<open>meta\<close> of the wrapper node behind a lambda, the environment it captured.\<close>

record gcell =
  nref :: int
  gbody :: gbody
  gnext :: ptr
  capt :: "nat option"
  shared :: bool

record genv =
  eref :: int
  inline_vals :: "ptr list"
  env_vals :: "ptr list"
  callingfnc :: ptr
  eroot :: "nat option"
  has_closure :: bool

record gheap =
  cell :: "nat \<Rightarrow> gcell"
  genv :: "nat \<Rightarrow> genv"
  ncells :: nat
  nenvs :: nat
  singletons :: "nat list"
  exp_freelist :: "nat list"

definition upd_cell :: "nat \<Rightarrow> (gcell \<Rightarrow> gcell) \<Rightarrow> gheap \<Rightarrow> gheap" where
  "upd_cell a f h = h\<lparr>cell := (cell h)(a := f (cell h a))\<rparr>"

definition upd_env :: "nat \<Rightarrow> (genv \<Rightarrow> genv) \<Rightarrow> gheap \<Rightarrow> gheap" where
  "upd_env v f h = h\<lparr>genv := (genv h)(v := f (genv h v))\<rparr>"

fun somes :: "ptr list \<Rightarrow> nat list" where
  "somes [] = []"
| "somes (None # ps) = somes ps"
| "somes (Some a # ps) = a # somes ps"

fun body_ptrs :: "gbody \<Rightarrow> ptr list" where
  "body_ptrs (Pair_body p) = [p]"
| "body_ptrs (Dict_body ps) = ps"
| "body_ptrs (Deque_body ps) = ps"
| "body_ptrs (Vector_body ps) = ps"
| "body_ptrs (Ast_fn p) = [p]"
| "body_ptrs (Compiled_fn bc) = (case bc of None \<Rightarrow> [] | Some (p, ps) \<Rightarrow> p # ps)"
| "body_ptrs (Other_body ps) = ps"

fun is_fn :: "gbody \<Rightarrow> bool" where
  "is_fn (Ast_fn p) = True"
| "is_fn (Compiled_fn bc) = True"
| "is_fn _ = False"

text \<open>The environment behind \<open>e->next->meta\<close> of a lambda or macro.\<close>

definition captured :: "gheap \<Rightarrow> nat \<Rightarrow> nat option" where
  "captured h a =
     (if is_fn (gbody (cell h a)) then (case gnext (cell h a) of None \<Rightarrow> None | Some w \<Rightarrow> capt (cell h w)) else None)"

text \<open>\<open>e->next->meta = NULL\<close>.\<close>

definition sever :: "nat \<Rightarrow> gheap \<Rightarrow> gheap" where
  "sever a h = (case gnext (cell h a) of None \<Rightarrow> h | Some w \<Rightarrow> upd_cell w (\<lambda>c. c\<lparr>capt := None\<rparr>) h)"

section \<open>Closure cycles\<close>

definition is_self_closure :: "gheap \<Rightarrow> nat \<Rightarrow> nat \<Rightarrow> bool" where
  "is_self_closure h v a = (is_fn (gbody (cell h a)) \<and> \<not> shared (cell h a) \<and> captured h a = Some v)"

definition self_closures :: "gheap \<Rightarrow> nat \<Rightarrow> nat list" where
  "self_closures h v = filter (is_self_closure h v) (somes (inline_vals (genv h v) @ env_vals (genv h v)))"

definition env_break_self_cycle :: "gheap \<Rightarrow> nat \<Rightarrow> int \<Rightarrow> bool" where
  "env_break_self_cycle h v residual =
     (let cs = self_closures h v in
      if \<exists>a \<in> set cs. nref (cell h a) \<noteq> 1 then False
      else \<not> (length cs = 0 \<or> int (length cs) \<noteq> residual))"

section \<open>Release\<close>

datatype work = Unref ptr | Drop_env "nat option" | Push nat

text \<open>
  The body of \<open>unrefexp_free\<close>: bytecode, captured environment, payload, the freelist, and the
  chain successor.
\<close>

definition free_work :: "gheap \<Rightarrow> nat \<Rightarrow> work list" where
  "free_work h a =
     (let c = cell h a; bs = map Unref (body_ptrs (gbody c)) in
      (case gbody c of
         Compiled_fn _ \<Rightarrow> bs @ [Drop_env (captured h a)]
       | Ast_fn _ \<Rightarrow> Drop_env (captured h a) # bs
       | _ \<Rightarrow> bs) @ [Push a, Unref (gnext c)])"

definition clear_cell :: "gcell \<Rightarrow> gcell" where
  "clear_cell c = c\<lparr>nref := 0, gbody := Other_body [], gnext := None\<rparr>"

definition env_work :: "genv \<Rightarrow> work list" where
  "env_work e = map Unref (inline_vals e) @ map Unref (env_vals e) @ [Unref (callingfnc e), Drop_env (eroot e)]"

definition blank_env :: genv where
  "blank_env = \<lparr>eref = 0, inline_vals = [], env_vals = [], callingfnc = None, eroot = None, has_closure = False\<rparr>"

fun release_step :: "work \<Rightarrow> gheap \<Rightarrow> (work list \<times> gheap) option" where
  "release_step (Unref None) h = Some ([], h)"
| "release_step (Unref (Some a)) h =
     (if a \<in> set (singletons h) then Some ([], h)
      else if a \<ge> ncells h then None
      else (let ret = nref (cell h a) - 1 in
        if ret > 0 then Some ([], upd_cell a (\<lambda>c. c\<lparr>nref := ret\<rparr>) h)
        else if ret < 0 then None
        else Some (free_work h a,
               upd_cell a clear_cell (if is_fn (gbody (cell h a)) then sever a h else h))))"
| "release_step (Push a) h = Some ([], h\<lparr>exp_freelist := a # exp_freelist h\<rparr>)"
| "release_step (Drop_env None) h = Some ([], h)"
| "release_step (Drop_env (Some v)) h =
     (if v \<ge> nenvs h then None
      else (let e = genv h v; residual = eref e - 1 in
        if residual < 0 then None
        else if residual > 0 \<and> (\<not> has_closure e \<or> \<not> env_break_self_cycle h v residual)
        then Some ([], upd_env v (\<lambda>e. e\<lparr>eref := residual\<rparr>) h)
        else Some (env_work e,
               upd_env v (\<lambda>_. blank_env) (if residual > 0 then fold sever (self_closures h v) h else h))))"

definition total_refs :: "gheap \<Rightarrow> nat" where
  "total_refs h = (\<Sum>a<ncells h. nat (nref (cell h a))) + (\<Sum>v<nenvs h. nat (eref (genv h v)))"

lemma sever_simps [simp]: "ncells (sever a h) = ncells h" "nenvs (sever a h) = nenvs h" "genv (sever a h) = genv h"
  "singletons (sever a h) = singletons h" "exp_freelist (sever a h) = exp_freelist h"
  "nref (cell (sever a h) b) = nref (cell h b)" "gbody (cell (sever a h) b) = gbody (cell h b)"
  "gnext (cell (sever a h) b) = gnext (cell h b)" "shared (cell (sever a h) b) = shared (cell h b)"
  by (auto simp: sever_def upd_cell_def split: option.splits)

lemma fold_sever_simps [simp]: "ncells (fold sever as h) = ncells h" "nenvs (fold sever as h) = nenvs h" "genv (fold sever as h) = genv h"
  "singletons (fold sever as h) = singletons h" "exp_freelist (fold sever as h) = exp_freelist h"
  "nref (cell (fold sever as h) b) = nref (cell h b)" "gbody (cell (fold sever as h) b) = gbody (cell h b)"
  "gnext (cell (fold sever as h) b) = gnext (cell h b)" "shared (cell (fold sever as h) b) = shared (cell h b)"
  by (induction as arbitrary: h) auto

lemma upd_cell_simps [simp]: "ncells (upd_cell a f h) = ncells h" "nenvs (upd_cell a f h) = nenvs h" "genv (upd_cell a f h) = genv h"
  "singletons (upd_cell a f h) = singletons h" "cell (upd_cell a f h) b = (if b = a then f (cell h a) else cell h b)"
  "exp_freelist (upd_cell a f h) = exp_freelist h"
  by (auto simp: upd_cell_def)

lemma upd_env_simps [simp]: "ncells (upd_env a f h) = ncells h" "nenvs (upd_env a f h) = nenvs h" "cell (upd_env a f h) = cell h"
  "singletons (upd_env a f h) = singletons h" "genv (upd_env a f h) v = (if v = a then f (genv h a) else genv h v)"
  "exp_freelist (upd_env a f h) = exp_freelist h"
  by (auto simp: upd_env_def)

lemma sum_less:
  fixes f g :: "nat \<Rightarrow> nat"
  assumes "a < n" "f a < g a" "\<forall>b. b \<noteq> a \<longrightarrow> f b = g b"
  shows "sum f {..<n} < sum g {..<n}"
proof (rule sum_strict_mono_ex1)
  show "\<forall>x \<in> {..<n}. f x \<le> g x"
  proof
    fix x show "f x \<le> g x" using assms(2,3) by (cases "x = a") simp_all
  qed
  show "\<exists>x \<in> {..<n}. f x < g x" using assms(1,2) by blast
qed simp

lemma total_cell_less:
  assumes "a < ncells h" "nref (cell h' a) < nref (cell h a)" "nref (cell h a) > 0"
    and "\<forall>b. b \<noteq> a \<longrightarrow> nref (cell h' b) = nref (cell h b)" "ncells h' = ncells h" "nenvs h' = nenvs h" "genv h' = genv h"
  shows "total_refs h' < total_refs h"
  using sum_less [of a "ncells h" "\<lambda>a. nat (nref (cell h' a))" "\<lambda>a. nat (nref (cell h a))"] assms
  by (simp add: total_refs_def)

lemma total_env_less:
  assumes "v < nenvs h" "eref (genv h' v) < eref (genv h v)" "eref (genv h v) > 0"
    and "\<forall>u. u \<noteq> v \<longrightarrow> genv h' u = genv h u" "ncells h' = ncells h" "nenvs h' = nenvs h"
    and "\<forall>b. nref (cell h' b) = nref (cell h b)"
  shows "total_refs h' < total_refs h"
  using sum_less [of v "nenvs h" "\<lambda>a. nat (eref (genv h' a))" "\<lambda>a. nat (eref (genv h a))"] assms
  by (simp add: total_refs_def)

lemma release_step_measure:
  assumes "release_step w h = Some (new, h')"
  shows "total_refs h' < total_refs h \<or> (total_refs h' = total_refs h \<and> new = [])"
proof (cases "(w, h)" rule: release_step.cases)
  case (2 a g)
  show ?thesis
  proof (cases "a \<in> set (singletons h)")
    case False
    have "total_refs h' < total_refs h"
      by (rule total_cell_less [of a]) (use assms 2 False in \<open>auto simp: Let_def clear_cell_def split: if_splits\<close>)
    then show ?thesis by simp
  qed (use assms 2 in simp)
next
  case (5 v g)
  have "total_refs h' < total_refs h"
    by (rule total_env_less [of v]) (use assms 5 in \<open>auto simp: Let_def blank_env_def split: if_splits\<close>)
  then show ?thesis by simp
qed (use assms in \<open>auto simp: total_refs_def\<close>)

function release :: "work list \<Rightarrow> gheap \<Rightarrow> gheap option" where
  "release [] h = Some h"
| "release (w # ws) h =
     (case release_step w h of None \<Rightarrow> None | Some (new, h') \<Rightarrow> release (new @ ws) h')"
  by pat_completeness auto
termination
  by (relation "measures [\<lambda>(ws, h). total_refs h, \<lambda>(ws, h). length ws]")
    (auto dest: release_step_measure)

definition unrefexp :: "ptr \<Rightarrow> gheap \<Rightarrow> gheap option" where
  "unrefexp p h = release [Unref p] h"

definition destroy_env :: "nat option \<Rightarrow> gheap \<Rightarrow> gheap option" where
  "destroy_env v h = release [Drop_env v] h"

definition refexp :: "ptr \<Rightarrow> gheap \<Rightarrow> gheap" where
  "refexp p h = (case p of None \<Rightarrow> h | Some a \<Rightarrow>
     if a \<in> set (singletons h) then h else upd_cell a (\<lambda>c. c\<lparr>nref := nref c + 1\<rparr>) h)"

definition ref_env :: "nat option \<Rightarrow> gheap \<Rightarrow> gheap" where
  "ref_env v h = (case v of None \<Rightarrow> h | Some u \<Rightarrow> upd_env u (\<lambda>e. e\<lparr>eref := eref e + 1\<rparr>) h)"

text \<open>A fresh environment; the slots of the arena are not modelled.\<close>

definition make_env :: "nat option \<Rightarrow> gheap \<Rightarrow> gheap \<times> nat" where
  "make_env root h =
     (let h1 = ref_env root h; v = nenvs h1 in
      ((upd_env v (\<lambda>_. blank_env\<lparr>eref := 1, eroot := root\<rparr>) h1)\<lparr>nenvs := Suc v\<rparr>, v))"


section \<open>The graph of references\<close>

datatype node = C nat | V nat

definition nodes :: "gheap \<Rightarrow> node set" where
  "nodes h = C ` {..<ncells h} \<union> V ` {..<nenvs h}"

definition immortal :: "gheap \<Rightarrow> node set" where
  "immortal h = C ` set (singletons h)"

fun cnt :: "gheap \<Rightarrow> node \<Rightarrow> int" where
  "cnt h (C a) = nref (cell h a)"
| "cnt h (V v) = eref (genv h v)"

fun cell_refs :: "gheap \<Rightarrow> nat \<Rightarrow> nat list" where
  "cell_refs h a = somes (body_ptrs (gbody (cell h a))) @ somes [gnext (cell h a)]"

fun env_refs :: "genv \<Rightarrow> nat list" where
  "env_refs e = somes (inline_vals e) @ somes (env_vals e) @ somes [callingfnc e]"

definition opt_env :: "nat option \<Rightarrow> node list" where
  "opt_env v = (case v of None \<Rightarrow> [] | Some u \<Rightarrow> [V u])"

fun refs :: "gheap \<Rightarrow> node \<Rightarrow> node list" where
  "refs h (C a) = map C (cell_refs h a) @ opt_env (captured h a)"
| "refs h (V v) = map C (env_refs (genv h v)) @ opt_env (eroot (genv h v))"

fun target :: "work \<Rightarrow> node list" where
  "target (Unref p) = (case p of None \<Rightarrow> [] | Some a \<Rightarrow> [C a])"
| "target (Drop_env v) = opt_env v"
| "target (Push a) = []"

definition pend :: "work list \<Rightarrow> node list" where
  "pend ws = concat (map target ws)"

definition in_refs :: "node set \<Rightarrow> gheap \<Rightarrow> node \<Rightarrow> nat" where
  "in_refs D h x = (\<Sum>y \<in> nodes h - D. count_list (refs h y) x)"

text \<open>
  Exact counts.  \<open>D\<close> is a set of nodes that are dying together and are left out: nothing
  outside it refers to it.  \<open>ext\<close> are the references held outside the heap, on the stack for
  example, and \<open>ws\<close> the references about to be dropped.
\<close>

definition lone_wrappers :: "gheap \<Rightarrow> bool" where
  "lone_wrappers h = (\<forall>a < ncells h. \<forall>b < ncells h. \<forall>w. a \<noteq> b \<and> is_fn (gbody (cell h a)) \<and> is_fn (gbody (cell h b))
     \<and> gnext (cell h a) = Some w \<and> gnext (cell h b) = Some w \<longrightarrow> capt (cell h w) = None)"

definition exact :: "node set \<Rightarrow> (node \<Rightarrow> nat) \<Rightarrow> work list \<Rightarrow> gheap \<Rightarrow> bool" where
  "exact D ext ws h =
     ((\<forall>x \<in> nodes h - D - immortal h. cnt h x = int (in_refs D h x + ext x + count_list (pend ws) x))
      \<and> (\<forall>y \<in> nodes h - D. set (refs h y) \<subseteq> nodes h - D \<and> (cnt h y = 0 \<longrightarrow> refs h y = []))
      \<and> set (pend ws) \<subseteq> nodes h - D
      \<and> immortal h \<subseteq> nodes h - D \<and> (\<forall>x \<in> immortal h. refs h x = [])
      \<and> lone_wrappers h)"

lemma finite_nodes [simp]: "finite (nodes h)"
  by (simp add: nodes_def)

lemma C_nodes [simp]: "C a \<in> nodes h \<longleftrightarrow> a < ncells h" and V_nodes [simp]: "V v \<in> nodes h \<longleftrightarrow> v < nenvs h"
  by (auto simp: nodes_def)

lemma nodes_cong: "ncells h' = ncells h \<Longrightarrow> nenvs h' = nenvs h \<Longrightarrow> nodes h' = nodes h"
  by (simp add: nodes_def)

lemma somes_append [simp]: "somes (ps @ qs) = somes ps @ somes qs"
  by (induction ps rule: somes.induct) auto

lemma somes_Cons: "somes (p # ps) = somes [p] @ somes ps"
  by (cases p) auto

lemma pend_simps [simp]: "pend [] = []" "pend (w # ws) = target w @ pend ws" "pend (us @ ws) = pend us @ pend ws"
  by (simp_all add: pend_def)

lemma pend_unref [simp]: "pend (map Unref ps) = map C (somes ps)"
  by (induction ps rule: somes.induct) auto

lemma target_unref: "(case p of None \<Rightarrow> [] | Some a \<Rightarrow> [C a]) = map C (somes [p])"
  by (cases p) auto

text \<open>What freeing a node puts to work is exactly what it owned.\<close>

lemma pend_free_work: "mset (pend (free_work h a)) = mset (refs h (C a))"
proof (cases "gbody (cell h a)")
  case (Ast_fn p)
  show ?thesis using Ast_fn by (simp add: free_work_def target_unref del: somes.simps)
next
  case (Compiled_fn bc)
  show ?thesis using Compiled_fn by (simp add: free_work_def target_unref del: somes.simps body_ptrs.simps)
qed (simp_all add: free_work_def target_unref captured_def opt_env_def del: somes.simps)

lemma pend_env_work: "pend (env_work e) = map C (env_refs e) @ opt_env (eroot e)"
  by (simp add: env_work_def target_unref del: somes.simps)

lemma count_mset_eq: "mset xs = mset ys \<Longrightarrow> count_list xs x = count_list ys x"
  by (metis count_mset)

lemma in_refs_emptied:
  assumes "x \<in> nodes h - D" "nodes h' = nodes h" "refs h' x = []"
    and "\<And>y. y \<in> nodes h - D \<Longrightarrow> y \<noteq> x \<Longrightarrow> count_list (refs h' y) z = count_list (refs h y) z"
  shows "in_refs D h' z + count_list (refs h x) z = in_refs D h z"
proof -
  have "in_refs D h z = count_list (refs h x) z + (\<Sum>y \<in> nodes h - D - {x}. count_list (refs h y) z)"
    unfolding in_refs_def by (rule sum.remove) (use assms(1) in auto)
  moreover have "in_refs D h' z = count_list (refs h' x) z + (\<Sum>y \<in> nodes h - D - {x}. count_list (refs h' y) z)"
    unfolding in_refs_def assms(2) by (rule sum.remove) (use assms(1) in auto)
  moreover have "(\<Sum>y \<in> nodes h - D - {x}. count_list (refs h' y) z) = (\<Sum>y \<in> nodes h - D - {x}. count_list (refs h y) z)"
    by (rule sum.cong) (use assms(4) in auto)
  ultimately show ?thesis using assms(3) by simp
qed

lemma in_refs_cong:
  assumes "nodes h' = nodes h" "\<And>y. y \<in> nodes h - D \<Longrightarrow> refs h' y = refs h y"
  shows "in_refs D h' z = in_refs D h z"
  unfolding in_refs_def using assms by simp


lemma exact_move:
  assumes "exact D ext (w # ws) h" "nodes h' = nodes h" "immortal h' = immortal h" "target w = [x]"
    and "\<And>z. z \<in> nodes h - D - immortal h \<Longrightarrow> z \<noteq> x \<Longrightarrow> cnt h' z = cnt h z"
    and "cnt h' x = int (in_refs D h' x + ext x + count_list (pend (new @ ws)) x)"
    and "\<And>z. z \<noteq> x \<Longrightarrow> in_refs D h' z + count_list (pend new) z = in_refs D h z"
    and "\<And>y. y \<in> nodes h \<Longrightarrow> set (refs h' y) \<subseteq> set (refs h y)" "set (pend new) \<subseteq> set (refs h x)"
    and "lone_wrappers h'" and "\<And>y. y \<in> nodes h - D \<Longrightarrow> cnt h' y = 0 \<Longrightarrow> refs h' y = []"
  shows "exact D ext (new @ ws) h'"
proof -
  have x: "x \<in> nodes h - D" using assms(1,4) by (auto simp: exact_def)
  have imm: "refs h y = []" if "y \<in> immortal h" for y using assms(1) that by (simp add: exact_def)
  have cl: "set (refs h y) \<subseteq> nodes h - D" if "y \<in> nodes h - D" for y using assms(1) that unfolding exact_def by blast
  have "cnt h' z = int (in_refs D h' z + ext z + count_list (pend (new @ ws)) z)" if z: "z \<in> nodes h - D - immortal h" for z
  proof (cases "z = x")
    case False
    have "cnt h z = int (in_refs D h z + ext z + count_list (pend (w # ws)) z)" using assms(1) z unfolding exact_def by blast
    then show ?thesis using assms(5) [OF z False] assms(7) [OF False] assms(4) False by simp
  qed (use assms(6) in simp)
  moreover have "set (refs h' y) \<subseteq> nodes h - D" if "y \<in> nodes h - D" for y
    using cl [OF that] assms(8) [of y] that by blast
  moreover have "set (pend (new @ ws)) \<subseteq> nodes h - D"
    using assms(1,9) cl [OF x] by (auto simp: exact_def)
  moreover have "refs h' y = []" if "y \<in> immortal h" for y
  proof -
    have "y \<in> nodes h" using assms(1) that unfolding exact_def by blast
    then show ?thesis using assms(8) [of y] imm [OF that] by simp
  qed
  ultimately show ?thesis using assms(1,2,3,10,11) unfolding exact_def by (simp del: pend_simps)
qed

lemma captured_sever:
  assumes "lone_wrappers h" "a < ncells h" "b < ncells h" "is_fn (gbody (cell h a))"
  shows "captured (sever a h) b = (if b = a then None else captured h b)"
  using assms unfolding lone_wrappers_def
  by (auto simp: captured_def sever_def split: option.splits)

lemma lone_sever: "lone_wrappers h \<Longrightarrow> lone_wrappers (sever a h)"
  unfolding lone_wrappers_def by (auto simp: sever_def split: option.splits)

lemma captured_fold_sever:
  assumes "lone_wrappers h" "\<forall>a \<in> set cs. a < ncells h \<and> is_fn (gbody (cell h a))" "b < ncells h"
  shows "captured (fold sever cs h) b = (if b \<in> set cs then None else captured h b)"
  using assms
proof (induction cs arbitrary: h)
  case (Cons a cs)
  show ?case using Cons.prems Cons.IH [OF lone_sever [OF Cons.prems(1)], of a] captured_sever [OF Cons.prems(1), of a b] by auto
qed simp

lemma lone_fold_sever: "lone_wrappers h \<Longrightarrow> lone_wrappers (fold sever cs h)"
  by (induction cs arbitrary: h) (auto intro: lone_sever)

lemma captured_clear: "captured (upd_cell a clear_cell h) b = (if b = a then None else captured h b)"
  by (auto simp: captured_def clear_cell_def split: option.splits)

lemma lone_clear: "lone_wrappers h \<Longrightarrow> lone_wrappers (upd_cell a clear_cell h)"
  unfolding lone_wrappers_def by (auto simp: clear_cell_def)


lemma exactD:
  assumes "exact D ext ws h"
  shows "x \<in> nodes h \<Longrightarrow> x \<notin> D \<Longrightarrow> x \<notin> immortal h \<Longrightarrow> cnt h x = int (in_refs D h x + ext x + count_list (pend ws) x)"
    and "y \<in> nodes h \<Longrightarrow> y \<notin> D \<Longrightarrow> set (refs h y) \<subseteq> nodes h - D"
    and "y \<in> nodes h \<Longrightarrow> y \<notin> D \<Longrightarrow> cnt h y = 0 \<Longrightarrow> refs h y = []"
    and "set (pend ws) \<subseteq> nodes h - D" "immortal h \<subseteq> nodes h - D" "x \<in> immortal h \<Longrightarrow> refs h x = []" "lone_wrappers h"
  using assms unfolding exact_def by blast+

text \<open>A reference dropped, and one dropped that was the last.\<close>

lemma exact_decr:
  assumes "exact D ext (w # ws) h" "nodes h' = nodes h" "immortal h' = immortal h" "target w = [x]"
    and "\<And>z. z \<in> nodes h \<Longrightarrow> cnt h' z = (if z = x then cnt h x - 1 else cnt h z)" "x \<notin> immortal h"
    and "\<And>y. y \<in> nodes h \<Longrightarrow> refs h' y = refs h y" "lone_wrappers h'" "cnt h x \<noteq> 1"
  shows "exact D ext ws h'"
proof -
  have x: "x \<in> nodes h" "x \<notin> D" using exactD(4) [OF assms(1)] assms(4) by auto
  have r: "in_refs D h' z = in_refs D h z" for z by (rule in_refs_cong) (use assms(2,7) in auto)
  have "exact D ext ([] @ ws) h'"
  proof (rule exact_move [OF assms(1,2,3,4)])
    show "cnt h' x = int (in_refs D h' x + ext x + count_list (pend ([] @ ws)) x)"
      using exactD(1) [OF assms(1) x assms(6)] assms(4) assms(5) [OF x(1)] r by simp
    show "refs h' y = []" if "y \<in> nodes h - D" "cnt h' y = 0" for y
      using exactD(3) [OF assms(1), of y] assms(5,7) [of y] that assms(9) by (auto split: if_splits)
  qed (use assms r in auto)
  then show ?thesis by simp
qed

lemma exact_free:
  assumes "exact D ext (w # ws) h" "nodes h' = nodes h" "immortal h' = immortal h" "target w = [x]" "x \<notin> immortal h"
    and "cnt h x = 1" "cnt h' x = 0" "\<And>z. z \<in> nodes h \<Longrightarrow> z \<noteq> x \<Longrightarrow> cnt h' z = cnt h z"
    and "refs h' x = []" "\<And>y. y \<in> nodes h \<Longrightarrow> y \<noteq> x \<Longrightarrow> refs h' y = refs h y"
    and "mset (pend new) = mset (refs h x)" "lone_wrappers h'"
  shows "exact D ext (new @ ws) h'"
proof (rule exact_move [OF assms(1,2,3,4)])
  have x: "x \<in> nodes h" "x \<notin> D" using exactD(4) [OF assms(1)] assms(4) by auto
  have r: "in_refs D h' z + count_list (refs h x) z = in_refs D h z" for z
    by (rule in_refs_emptied) (use x assms in auto)
  have p: "count_list (pend new) z = count_list (refs h x) z" for z using assms(11) by (rule count_mset_eq)
  show "in_refs D h' z + count_list (pend new) z = in_refs D h z" for z using r p by simp
  have "in_refs D h x = 0 \<and> ext x = 0 \<and> count_list (pend ws) x = 0"
    using exactD(1) [OF assms(1) x assms(5)] assms(4,6) by simp
  then show "cnt h' x = int (in_refs D h' x + ext x + count_list (pend (new @ ws)) x)"
    using r [of x] p [of x] assms(7) by simp
  show "set (pend new) \<subseteq> set (refs h x)" using mset_eq_setD [OF assms(11)] by simp
  show "set (refs h' y) \<subseteq> set (refs h y)" if "y \<in> nodes h" for y
    using assms(9) assms(10) [OF that] by (cases "y = x") auto
  show "refs h' y = []" if "y \<in> nodes h - D" "cnt h' y = 0" for y
    using exactD(3) [OF assms(1), of y] assms(8-10) that by (cases "y = x") auto
qed (use assms in auto)

lemma captured_upd_nref [simp]: "captured (upd_cell a (\<lambda>c. c\<lparr>nref := r\<rparr>) h) b = captured h b"
  by (auto simp: captured_def split: option.splits)

lemma captured_upd_env [simp]: "captured (upd_env v f h) b = captured h b"
  by (auto simp: captured_def split: option.splits)

lemma lone_upd_nref: "lone_wrappers h \<Longrightarrow> lone_wrappers (upd_cell a (\<lambda>c. c\<lparr>nref := r\<rparr>) h)"
  unfolding lone_wrappers_def by auto

lemma lone_upd_env [simp]: "lone_wrappers (upd_env v f h) = lone_wrappers h"
  unfolding lone_wrappers_def by simp

lemma nodes_upd [simp]: "nodes (upd_cell a f h) = nodes h" "nodes (upd_env v g h) = nodes h" "nodes (sever a h) = nodes h"
  "nodes (fold sever as h) = nodes h" "nodes (h\<lparr>exp_freelist := l\<rparr>) = nodes h"
  by (simp_all add: nodes_def)

lemma immortal_upd [simp]: "immortal (upd_cell a f h) = immortal h" "immortal (upd_env v g h) = immortal h" "immortal (sever a h) = immortal h"
  "immortal (fold sever as h) = immortal h" "immortal (h\<lparr>exp_freelist := l\<rparr>) = immortal h"
  by (simp_all add: immortal_def)

lemma C_immortal [simp]: "C a \<in> immortal h \<longleftrightarrow> a \<in> set (singletons h)" and V_immortal [simp]: "V v \<notin> immortal h"
  by (auto simp: immortal_def)


text \<open>The break of a closure cycle: all references to the environment come from its own closures.\<close>

lemma self_closures_mem: "a \<in> set (self_closures h v) \<Longrightarrow>
    is_fn (gbody (cell h a)) \<and> captured h a = Some v \<and> a \<in> set (somes (inline_vals (genv h v) @ env_vals (genv h v)))"
  by (auto simp: self_closures_def is_self_closure_def)

lemma length_filter_eq_sum:
  fixes f :: "'a \<Rightarrow> nat"
  assumes "distinct xs" "set xs \<subseteq> A" "finite A" "\<forall>x \<in> set xs. f x \<ge> 1"
  shows "length xs \<le> sum f A"
proof -
  have "length xs = card (set xs)" using assms(1) by (simp add: distinct_card)
  also have "\<dots> = (\<Sum>x \<in> set xs. 1)" by simp
  also have "\<dots> \<le> sum f (set xs)" using assms(4) by (intro sum_mono) auto
  also have "\<dots> \<le> sum f A" using assms(2,3) by (intro sum_mono2) auto
  finally show ?thesis .
qed

lemma distinct_count1: "(\<And>x. x \<in> set xs \<Longrightarrow> count_list xs x \<le> 1) \<Longrightarrow> distinct xs"
proof (induction xs)
  case (Cons x xs)
  have "count_list xs x = 0" using Cons.prems [of x] by simp
  then have "x \<notin> set xs" by (simp add: count_list_0_iff)
  moreover have "distinct xs"
  proof (rule Cons.IH)
    fix y assume "y \<in> set xs"
    then show "count_list xs y \<le> 1" using Cons.prems [of y] by (auto split: if_splits)
  qed
  ultimately show ?case by simp
qed simp

lemma count_ge1: "x \<in> set xs \<Longrightarrow> count_list xs x \<ge> 1"
  by (induction xs) auto

lemma count_filter_le: "count_list (filter P xs) x \<le> count_list xs x"
  by (induction xs) auto

lemma count_map_C: "count_list (map C xs) (C a) = count_list xs a"
  by (induction xs) auto

lemma count_map_C_V [simp]: "count_list (map C xs) (V v) = 0"
  by (simp add: count_list_0_iff image_iff)

lemma exact_break:
  assumes ex: "exact D ext (Drop_env (Some v) # ws) h" and res: "cnt h (V v) - 1 > 0"
    and br: "env_break_self_cycle h v (cnt h (V v) - 1)"
    and h': "h' = upd_env v (\<lambda>_. blank_env) (fold sever (self_closures h v) h)"
  shows "exact D ext (env_work (genv h v) @ ws) h'"
    and "a \<in> set (self_closures h v) \<Longrightarrow> in_refs D h' (C a) = 0 \<and> ext (C a) = 0"
proof -
  define cs where "cs = self_closures h v"
  have v: "V v \<in> nodes h" "V v \<notin> D" using exactD(4) [OF ex] by (auto simp: opt_env_def)
  have one: "nref (cell h a) = 1" if "a \<in> set cs" for a
    using br that by (auto simp: env_break_self_cycle_def cs_def Let_def split: if_splits)
  have len: "int (length cs) = cnt h (V v) - 1"
    using br by (auto simp: env_break_self_cycle_def cs_def Let_def split: if_splits)
  have inv: "C a \<in> set (refs h (V v))" if "a \<in> set cs" for a
    using self_closures_mem [of a h v] that by (auto simp: cs_def)
  have csn: "C a \<in> nodes h" "C a \<notin> D" "C a \<notin> immortal h" if "a \<in> set cs" for a
  proof -
    show n: "C a \<in> nodes h" and "C a \<notin> D" using inv [OF that] exactD(2) [OF ex v] by blast+
    show "C a \<notin> immortal h"
    proof
      assume "C a \<in> immortal h"
      then have "refs h (C a) = []" by (rule exactD(6) [OF ex])
      then show False using self_closures_mem [of a h v] that by (auto simp: cs_def opt_env_def)
    qed
  qed
  have le: "count_list (refs h y) x \<le> in_refs D h x" if "y \<in> nodes h" "y \<notin> D" for x y
    unfolding in_refs_def using that by (intro member_le_sum) auto
  have cle: "count_list cs a \<le> count_list (refs h (V v)) (C a)" for a
    using count_filter_le [of "is_self_closure h v" "somes (inline_vals (genv h v) @ env_vals (genv h v))" a]
    by (simp add: cs_def self_closures_def count_map_C)
  have dist: "distinct cs"
  proof (rule distinct_count1)
    fix a assume a: "a \<in> set cs"
    have "in_refs D h (C a) \<le> 1" using exactD(1) [OF ex csn [OF a]] one [OF a] by simp
    then show "count_list cs a \<le> 1" using cle [of a] le [OF v, of "C a"] by simp
  qed
  define S where "S = C ` set cs"
  have SN: "S \<subseteq> nodes h - D" using csn by (auto simp: S_def)
  have cV: "count_list (refs h (C a)) (V v) \<ge> 1" if "a \<in> set cs" for a
    using self_closures_mem [of a h v] that by (simp add: cs_def opt_env_def)
  have split: "in_refs D h (V v) = (\<Sum>y \<in> S. count_list (refs h y) (V v)) + (\<Sum>y \<in> nodes h - D - S. count_list (refs h y) (V v))"
    unfolding in_refs_def by (subst sum.subset_diff [OF SN]) (auto simp: finite_subset)
  have "length (map C cs) \<le> (\<Sum>y \<in> S. count_list (refs h y) (V v))"
    by (rule length_filter_eq_sum) (use dist cV in \<open>auto simp: S_def distinct_map inj_on_def\<close>)
  then have ge: "length cs \<le> (\<Sum>y \<in> S. count_list (refs h y) (V v))" by simp
  have all: "cnt h (V v) = int (in_refs D h (V v) + ext (V v) + count_list (pend (Drop_env (Some v) # ws)) (V v))"
    by (rule exactD(1) [OF ex v]) simp
  moreover have "count_list (pend (Drop_env (Some v) # ws)) (V v) = Suc (count_list (pend ws) (V v))" by (simp add: opt_env_def)
  ultimately have "int (length cs) = int (in_refs D h (V v) + ext (V v) + count_list (pend ws) (V v))"
    unfolding len by (simp only: of_nat_add of_nat_Suc)
  then have "length cs = in_refs D h (V v) + ext (V v) + count_list (pend ws) (V v)" by (simp only: of_nat_eq_iff)
  then have tight: "ext (V v) = 0" "count_list (pend ws) (V v) = 0" "(\<Sum>y \<in> nodes h - D - S. count_list (refs h y) (V v)) = 0"
    using ge unfolding split by linarith+
  have out: "count_list (refs h y) (V v) = 0" if "y \<in> nodes h" "y \<notin> D" "y \<notin> S" for y
    using tight(3) that by simp
  have fn: "\<forall>a \<in> set cs. a < ncells h \<and> is_fn (gbody (cell h a))"
    using csn self_closures_mem [of _ h v] by (auto simp: cs_def)
  have cap: "captured h' b = (if b \<in> set cs then None else captured h b)" if "b < ncells h" for b
    using captured_fold_sever [OF exactD(7) [OF ex] fn that] by (simp add: h' cs_def)
  have capv: "captured h b = Some v" if "b \<in> set cs" for b using self_closures_mem [of b h v] that by (simp add: cs_def)
  have refsC: "refs h' (C b) = (if b \<in> set cs then map C (cell_refs h b) else refs h (C b))" if "b < ncells h" for b
    using cap [OF that] by (simp add: h' opt_env_def)
  have refsV: "refs h' (V u) = (if u = v then [] else refs h (V u))" for u
    by (simp add: h' blank_env_def opt_env_def)
  have cntz: "count_list (refs h' y) z = count_list (refs h y) z" if "y \<in> nodes h" "y \<noteq> V v" "z \<noteq> V v" for y z
    using that refsC refsV capv by (cases y) (auto simp: opt_env_def)
  have nv: "count_list (refs h' y) (V v) = 0" if "y \<in> nodes h" "y \<notin> D" for y
  proof (cases "y \<in> S")
    case True
    then show ?thesis using that refsC by (auto simp: S_def)
  next
    case False
    then show ?thesis using out [OF that False] that refsC refsV by (cases y) (auto simp: S_def split: if_splits)
  qed
  have em: "in_refs D h' z + count_list (refs h (V v)) z = in_refs D h z" if "z \<noteq> V v" for z
  proof (rule in_refs_emptied)
    show "nodes h' = nodes h" by (simp add: h')
    show "refs h' (V v) = []" using refsV by simp
  qed (use v cntz [OF _ _ that] in blast)+
  have pe: "pend (env_work (genv h v)) = refs h (V v)" by (simp add: pend_env_work)
  show "exact D ext (env_work (genv h v) @ ws) h'"
  proof (rule exact_move [OF ex])
    show "in_refs D h' z + count_list (pend (env_work (genv h v))) z = in_refs D h z" if "z \<noteq> V v" for z
      using em [OF that] pe by simp
    have "in_refs D h' (V v) = 0" unfolding in_refs_def using nv by (simp add: h')
    moreover have "count_list (refs h (V v)) (V v) = 0" by (rule out) (use v in \<open>auto simp: S_def\<close>)
    ultimately show "cnt h' (V v) = int (in_refs D h' (V v) + ext (V v) + count_list (pend (env_work (genv h v) @ ws)) (V v))"
      using tight pe by (simp add: h' blank_env_def)
    show "cnt h' z = cnt h z" if "z \<noteq> V v" for z using that by (cases z) (auto simp: h')
    show "set (refs h' y) \<subseteq> set (refs h y)" if "y \<in> nodes h" for y
      using that refsC refsV capv by (cases y) auto
    show "refs h' y = []" if y: "y \<in> nodes h - D" "cnt h' y = 0" for y
    proof (cases "y = V v")
      case False
      then have "cnt h y = 0" using y(2) by (cases y) (auto simp: h')
      then have "refs h y = []" using exactD(3) [OF ex] y(1) by blast
      then show ?thesis using y(1) refsC refsV capv by (cases y) auto
    qed (use refsV in simp)
    show "lone_wrappers h'" unfolding h' by (simp add: lone_fold_sever [OF exactD(7) [OF ex]])
  qed (simp_all add: h' opt_env_def pe)
  show "in_refs D h' (C a) = 0 \<and> ext (C a) = 0" if "a \<in> set (self_closures h v)"
  proof -
    have a: "a \<in> set cs" using that by (simp add: cs_def)
    have "count_list (refs h (V v)) (C a) \<ge> 1" using inv [OF a] by (rule count_ge1)
    moreover have "in_refs D h (C a) + ext (C a) \<le> 1" using exactD(1) [OF ex csn [OF a]] one [OF a] by simp
    ultimately show ?thesis using em [of "C a"] by simp
  qed
qed


section \<open>A release keeps the counts exact\<close>

text \<open>What a node holds, without its count and without the captured environment.\<close>

definition same_node :: "gheap \<Rightarrow> gheap \<Rightarrow> node \<Rightarrow> bool" where
  "same_node h h' x =
     (case x of
        C a \<Rightarrow> gbody (cell h' a) = gbody (cell h a) \<and> gnext (cell h' a) = gnext (cell h a) \<and> shared (cell h' a) = shared (cell h a)
      | V v \<Rightarrow> inline_vals (genv h' v) = inline_vals (genv h v) \<and> env_vals (genv h' v) = env_vals (genv h v)
               \<and> callingfnc (genv h' v) = callingfnc (genv h v) \<and> eroot (genv h' v) = eroot (genv h v)
               \<and> has_closure (genv h' v) = has_closure (genv h v))"

text \<open>
  Nothing that still has a reference has changed, except that a closure may have lost its
  environment when all its references are about to be dropped; what dies with \<open>D\<close> is untouched.
\<close>

definition framed :: "node set \<Rightarrow> gheap \<Rightarrow> work list \<Rightarrow> gheap \<Rightarrow> bool" where
  "framed D h0 ws h =
     (ncells h = ncells h0 \<and> nenvs h = nenvs h0 \<and> singletons h = singletons h0
      \<and> (\<forall>x \<in> nodes h0 - D. cnt h x > 0 \<longrightarrow> cnt h0 x > 0 \<and> same_node h0 h x
           \<and> (refs h x = refs h0 x \<or> (cnt h x = int (count_list (pend ws) x) \<and> x \<notin> immortal h)))
      \<and> (\<forall>x \<in> D \<inter> nodes h0. cnt h x = cnt h0 x \<and> same_node h0 h x \<and> refs h x = refs h0 x))"

lemma same_node_refl [simp]: "same_node h h x"
  by (simp add: same_node_def split: node.split)

lemma framed_refl: "framed D h ws h"
  by (simp add: framed_def)

definition good :: "node set \<Rightarrow> (node \<Rightarrow> nat) \<Rightarrow> gheap \<Rightarrow> work list \<Rightarrow> gheap \<Rightarrow> bool" where
  "good D ext h0 ws h = (exact D ext ws h \<and> framed D h0 ws h)"

lemma same_node_trans: "same_node h0 h x \<Longrightarrow> same_node h h' x \<Longrightarrow> same_node h0 h' x"
  by (auto simp: same_node_def split: node.splits)

lemma step_frame:
  assumes fr: "framed D h0 (w # ws) h" and ex: "exact D ext (w # ws) h" and ex': "exact D ext (new @ ws) h'"
    and n: "ncells h' = ncells h" "nenvs h' = nenvs h" "singletons h' = singletons h"
    and sm: "\<And>x. x \<in> nodes h \<Longrightarrow> x \<notin> D \<Longrightarrow> cnt h' x > 0 \<Longrightarrow> cnt h x > 0 \<and> same_node h h' x
        \<and> (refs h' x = refs h x \<or> (in_refs D h' x = 0 \<and> ext x = 0 \<and> x \<notin> immortal h))"
    and dn: "\<And>x. x \<in> D \<Longrightarrow> x \<in> nodes h \<Longrightarrow> cnt h' x = cnt h x \<and> same_node h h' x \<and> refs h' x = refs h x"
    and up: "\<And>x. x \<in> nodes h \<Longrightarrow> x \<notin> D \<Longrightarrow> cnt h' x > 0 \<Longrightarrow> in_refs D h' x \<le> in_refs D h x"
  shows "framed D h0 (new @ ws) h'"
proof -
  have nd: "nodes h' = nodes h" "nodes h0 = nodes h" "immortal h' = immortal h"
    using fr n by (simp_all add: framed_def nodes_def immortal_def)
  have "cnt h0 x > 0 \<and> same_node h0 h' x \<and> (refs h' x = refs h0 x \<or> (cnt h' x = int (count_list (pend (new @ ws)) x) \<and> x \<notin> immortal h'))"
    if x: "x \<in> nodes h" "x \<notin> D" and c: "cnt h' x > 0" for x
  proof -
    have s: "cnt h x > 0" "same_node h h' x" and r: "refs h' x = refs h x \<or> (in_refs D h' x = 0 \<and> ext x = 0 \<and> x \<notin> immortal h)"
      using sm [OF x c] by auto
    have f: "cnt h0 x > 0" "same_node h0 h x" "refs h x = refs h0 x \<or> (cnt h x = int (count_list (pend (w # ws)) x) \<and> x \<notin> immortal h)"
      using fr x s(1) nd(2) by (auto simp: framed_def simp del: pend_simps)
    have eq: "cnt h' x = int (count_list (pend (new @ ws)) x)" if "in_refs D h' x = 0" "ext x = 0" "x \<notin> immortal h"
      using exactD(1) [OF ex', of x] that x nd by simp
    have "refs h' x = refs h0 x \<or> (cnt h' x = int (count_list (pend (new @ ws)) x) \<and> x \<notin> immortal h')"
    proof (cases "refs h' x = refs h x \<and> refs h x \<noteq> refs h0 x")
      case True
      then have "cnt h x = int (count_list (pend (w # ws)) x)" "x \<notin> immortal h" using f(3) by blast+
      then have "in_refs D h x = 0" "ext x = 0" using exactD(1) [OF ex, of x] x by simp_all
      then show ?thesis using eq up [OF x c] \<open>x \<notin> immortal h\<close> nd(3) by simp
    next
      case False
      then show ?thesis using r eq nd(3) by (metis)
    qed
    then show ?thesis using f(1) same_node_trans [OF f(2) s(2)] by blast
  qed
  moreover have "cnt h' x = cnt h0 x \<and> same_node h0 h' x \<and> refs h' x = refs h0 x" if "x \<in> D" "x \<in> nodes h" for x
  proof -
    have "cnt h x = cnt h0 x \<and> same_node h0 h x \<and> refs h x = refs h0 x" using fr that nd(2) by (simp add: framed_def)
    then show ?thesis using dn [OF that] same_node_trans by metis
  qed
  ultimately show ?thesis using fr n nd unfolding framed_def by auto
qed


lemma in_refs_zero_cell:
  "x \<in> nodes h \<Longrightarrow> x \<notin> D \<Longrightarrow> y \<in> nodes h \<Longrightarrow> y \<notin> D \<Longrightarrow> in_refs D h x = 0 \<Longrightarrow> x \<notin> set (refs h y)"
  by (auto simp: in_refs_def count_list_0_iff)

lemma step_decr:
  assumes g: "good D ext h0 (w # ws) h" and w: "target w = [x]" "x \<notin> immortal h"
    and h': "ncells h' = ncells h" "nenvs h' = nenvs h" "singletons h' = singletons h"
      "\<And>z. z \<in> nodes h \<Longrightarrow> cnt h' z = (if z = x then cnt h x - 1 else cnt h z)"
      "\<And>y. y \<in> nodes h \<Longrightarrow> refs h' y = refs h y \<and> same_node h h' y" "lone_wrappers h'" "cnt h x \<noteq> 1"
  shows "good D ext h0 ([] @ ws) h'"
proof -
  have ex: "exact D ext (w # ws) h" and fr: "framed D h0 (w # ws) h" using g by (simp_all add: good_def)
  have nd: "nodes h' = nodes h" "immortal h' = immortal h" using h' by (simp_all add: nodes_def immortal_def)
  have x: "x \<notin> D" using exactD(4) [OF ex] w(1) by auto
  have ex': "exact D ext ([] @ ws) h'"
    using exact_decr [OF ex nd w(1) h'(4) w(2) _ h'(6,7)] h'(5) by simp
  have "framed D h0 ([] @ ws) h'"
  proof (rule step_frame [OF fr ex ex' h'(1-3)])
    show "in_refs D h' z \<le> in_refs D h z" for z
      using in_refs_cong [OF nd(1), of D z] h'(5) by simp
  qed (use h' x in \<open>auto split: if_splits\<close>)
  then show ?thesis using ex' by (simp add: good_def)
qed

lemma step_free:
  assumes g: "good D ext h0 (w # ws) h" and w: "target w = [x]" "x \<notin> immortal h" "cnt h x = 1"
    and h': "ncells h' = ncells h" "nenvs h' = nenvs h" "singletons h' = singletons h" "cnt h' x = 0"
      "\<And>z. z \<in> nodes h \<Longrightarrow> z \<noteq> x \<Longrightarrow> cnt h' z = cnt h z" "refs h' x = []"
      "\<And>y. y \<in> nodes h \<Longrightarrow> y \<noteq> x \<Longrightarrow> refs h' y = refs h y \<and> same_node h h' y" "lone_wrappers h'"
    and new: "mset (pend new) = mset (refs h x)"
  shows "good D ext h0 (new @ ws) h'"
proof -
  have ex: "exact D ext (w # ws) h" and fr: "framed D h0 (w # ws) h" using g by (simp_all add: good_def)
  have nd: "nodes h' = nodes h" "immortal h' = immortal h" using h' by (simp_all add: nodes_def immortal_def)
  have x: "x \<in> nodes h" "x \<notin> D" using exactD(4) [OF ex] w(1) by auto
  have ex': "exact D ext (new @ ws) h'"
    by (rule exact_free [OF ex nd w h'(4,5,6) _ new h'(8)]) (use h'(7) in auto)
  have em: "in_refs D h' z + count_list (refs h x) z = in_refs D h z" for z
    by (rule in_refs_emptied) (use x nd h' in auto)
  have "framed D h0 (new @ ws) h'"
  proof (rule step_frame [OF fr ex ex' h'(1-3)])
    show "in_refs D h' z \<le> in_refs D h z" for z using em [of z] by simp
    show "cnt h y > 0 \<and> same_node h h' y \<and> (refs h' y = refs h y \<or> (in_refs D h' y = 0 \<and> ext y = 0 \<and> y \<notin> immortal h))"
      if "y \<in> nodes h" "y \<notin> D" "cnt h' y > 0" for y
      using that h' by (cases "y = x") auto
    show "cnt h' y = cnt h y \<and> same_node h h' y \<and> refs h' y = refs h y" if "y \<in> D" "y \<in> nodes h" for y
      using that h' x by (cases "y = x") auto
  qed
  then show ?thesis using ex' by (simp add: good_def)
qed

lemma step_break:
  assumes g: "good D ext h0 (Drop_env (Some v) # ws) h" and res: "cnt h (V v) - 1 > 0"
    and br: "env_break_self_cycle h v (cnt h (V v) - 1)"
    and h': "h' = upd_env v (\<lambda>_. blank_env) (fold sever (self_closures h v) h)"
  shows "good D ext h0 (env_work (genv h v) @ ws) h'"
proof -
  have ex: "exact D ext (Drop_env (Some v) # ws) h" and fr: "framed D h0 (Drop_env (Some v) # ws) h"
    using g by (simp_all add: good_def)
  have v: "V v \<in> nodes h" "V v \<notin> D" using exactD(4) [OF ex] by (auto simp: opt_env_def)
  have ex': "exact D ext (env_work (genv h v) @ ws) h'" by (rule exact_break(1) [OF ex res br h'])
  have z: "in_refs D h' (C a) = 0 \<and> ext (C a) = 0" if "a \<in> set (self_closures h v)" for a
    by (rule exact_break(2) [OF ex res br h' that])
  have mem: "C a \<in> nodes h - D" "is_fn (gbody (cell h a))" "captured h a = Some v" if "a \<in> set (self_closures h v)" for a
    using self_closures_mem [OF that] exactD(2) [OF ex v] by auto
  have fn: "\<forall>a \<in> set (self_closures h v). a < ncells h \<and> is_fn (gbody (cell h a))" using mem by auto
  have ni: "C a \<notin> immortal h" if "a \<in> set (self_closures h v)" for a
    using exactD(6) [OF ex, of "C a"] mem(3) [OF that] by (auto simp: opt_env_def)
  have cap: "captured h' b = (if b \<in> set (self_closures h v) then None else captured h b)" if "b < ncells h" for b
    using captured_fold_sever [OF exactD(7) [OF ex] fn that] by (simp add: h')
  have refsC: "refs h' (C b) = refs h (C b)" if "b < ncells h" "b \<notin> set (self_closures h v)" for b
    using cap [OF that(1)] that(2) by (simp add: h')
  have sm: "same_node h h' y" if "y \<noteq> V v" for y
    using that by (auto simp: same_node_def h' split: node.split)
  have "framed D h0 (env_work (genv h v) @ ws) h'"
  proof (rule step_frame [OF fr ex ex'])
    show "cnt h y > 0 \<and> same_node h h' y \<and> (refs h' y = refs h y \<or> (in_refs D h' y = 0 \<and> ext y = 0 \<and> y \<notin> immortal h))"
      if y: "y \<in> nodes h" "y \<notin> D" "cnt h' y > 0" for y
    proof (cases y)
      case (C a)
      then show ?thesis using y sm refsC z ni by (cases "a \<in> set (self_closures h v)") (auto simp: h' simp del: refs.simps)
    next
      case (V u)
      then show ?thesis using y sm [of y] by (auto simp: h' blank_env_def split: if_splits)
    qed
    show "cnt h' y = cnt h y \<and> same_node h h' y \<and> refs h' y = refs h y" if y: "y \<in> D" "y \<in> nodes h" for y
    proof (cases y)
      case (C a)
      then have "a \<notin> set (self_closures h v)" using mem(1) y by auto
      then show ?thesis using y sm [of y] refsC C by (auto simp: h' simp del: refs.simps)
    next
      case (V u)
      then show ?thesis using y v sm [of y] by (auto simp: h')
    qed
    show "in_refs D h' y \<le> in_refs D h y" if y: "y \<in> nodes h" "y \<notin> D" "cnt h' y > 0" for y
      unfolding in_refs_def
    proof (rule order.trans [OF sum_mono])
      show "count_list (refs h' k) y \<le> count_list (refs h k) y" if "k \<in> nodes h' - D" for k
      proof (cases k)
        case (C a)
        then show ?thesis using that cap [of a] by (auto simp: h' opt_env_def)
      next
        case (V u)
        then show ?thesis by (auto simp: h' blank_env_def opt_env_def)
      qed
    qed (simp add: h')
  qed (simp_all add: h')
  then show ?thesis using ex' by (simp add: good_def)
qed


lemma good_skip: "good D ext h0 (w # ws) h \<Longrightarrow> target w = [] \<Longrightarrow> good D ext h0 ([] @ ws) h"
  by (simp add: good_def exact_def framed_def)

lemma refs_freelist [simp]: "refs (h\<lparr>exp_freelist := l\<rparr>) x = refs h x"
proof (cases x)
  case (C a)
  have "captured (h\<lparr>exp_freelist := l\<rparr>) a = captured h a"
    by (auto simp: captured_def split: option.splits)
  then show ?thesis using C by simp
qed simp

lemma good_freelist: "good D ext h0 ws h \<Longrightarrow> good D ext h0 ws (h\<lparr>exp_freelist := l\<rparr>)"
proof -
  assume g: "good D ext h0 ws h"
  have c: "cnt (h\<lparr>exp_freelist := l\<rparr>) x = cnt h x" "same_node h0 (h\<lparr>exp_freelist := l\<rparr>) x = same_node h0 h x" for x
    by (cases x; simp add: same_node_def)+
  have i: "in_refs D (h\<lparr>exp_freelist := l\<rparr>) x = in_refs D h x" for x by (rule in_refs_cong) simp_all
  have "lone_wrappers (h\<lparr>exp_freelist := l\<rparr>) = lone_wrappers h" by (simp add: lone_wrappers_def)
  then show ?thesis using g unfolding good_def exact_def framed_def by (simp add: c i)
qed

lemma captured_clear_sever:
  assumes "lone_wrappers h" "a < ncells h" "b < ncells h"
  shows "captured (upd_cell a clear_cell (if is_fn (gbody (cell h a)) then sever a h else h)) b = (if b = a then None else captured h b)"
  using captured_sever [OF assms(1-3)] by (simp add: captured_clear)

lemma release_step_good:
  assumes g: "good D ext h0 (w # ws) h"
  shows "\<exists>new h'. release_step w h = Some (new, h') \<and> good D ext h0 (new @ ws) h'"
proof (cases "(w, h)" rule: release_step.cases)
  case (1 h)
  then show ?thesis using good_skip [OF g] by simp
next
  case (2 a h')
  have ex: "exact D ext (w # ws) h" using g by (simp add: good_def)
  have w: "w = Unref (Some a)" "target w = [C a]" using 2 by simp_all
  show ?thesis
  proof (cases "a \<in> set (singletons h)")
    case True
    have "good D ext h0 ([] @ ws) h"
    proof -
      have imm: "C a \<in> immortal h" using True by simp
      have "exact D ext ws h" using ex imm w unfolding exact_def by (auto split: if_splits)
      moreover have "framed D h0 ws h"
        using g imm w unfolding good_def framed_def by (auto split: if_splits)
      ultimately show ?thesis by (simp add: good_def)
    qed
    then show ?thesis using True w by simp
  next
    case False
    have a: "a < ncells h" "C a \<notin> D" using exactD(4) [OF ex] w by auto
    have ge: "nref (cell h a) \<ge> 1" using exactD(1) [OF ex, of "C a"] a False w by simp
    show ?thesis
    proof (cases "nref (cell h a) = 1")
      case True
      let ?h = "upd_cell a clear_cell (if is_fn (gbody (cell h a)) then sever a h else h)"
      have "good D ext h0 (free_work h a @ ws) ?h"
      proof (rule step_free [OF g w(2)])
        show "lone_wrappers ?h" using lone_clear lone_sever exactD(7) [OF ex] by simp
        show "refs ?h y = refs h y \<and> same_node h ?h y" if "y \<in> nodes h" "y \<noteq> C a" for y
          using that captured_clear_sever [OF exactD(7) [OF ex] a(1)] by (cases y) (auto simp: same_node_def)
        show "refs ?h (C a) = []"
          using captured_clear_sever [OF exactD(7) [OF ex] a(1) a(1)] by (simp add: clear_cell_def opt_env_def)
        show "cnt ?h y = cnt h y" if "y \<noteq> C a" for y using that by (cases y) auto
      qed (use True False pend_free_work in \<open>auto simp: clear_cell_def simp del: refs.simps\<close>)
      then show ?thesis using True False w a by simp
    next
      case F: False
      let ?h = "upd_cell a (\<lambda>c. c\<lparr>nref := nref (cell h a) - 1\<rparr>) h"
      have "good D ext h0 ([] @ ws) ?h"
      proof (rule step_decr [OF g w(2)])
        show "refs ?h y = refs h y \<and> same_node h ?h y" for y by (cases y) (auto simp: same_node_def)
        show "cnt ?h z = (if z = C a then cnt h (C a) - 1 else cnt h z)" for z by (cases z) auto
        show "lone_wrappers ?h" by (rule lone_upd_nref [OF exactD(7) [OF ex]])
      qed (use False F in auto)
      then show ?thesis using F False w a ge by simp
    qed
  qed
next
  case (3 a h)
  then show ?thesis using good_freelist [OF good_skip [OF g]] by simp
next
  case (4 h)
  then show ?thesis using good_skip [OF g] by (simp add: opt_env_def)
next
  case (5 v h')
  have ex: "exact D ext (w # ws) h" using g by (simp add: good_def)
  have w: "w = Drop_env (Some v)" "target w = [V v]" using 5 by (simp_all add: opt_env_def)
  have v: "v < nenvs h" "V v \<notin> D" using exactD(4) [OF ex] w by auto
  have ge: "eref (genv h v) \<ge> 1" using exactD(1) [OF ex, of "V v"] v w by simp
  let ?r = "eref (genv h v) - 1"
  show ?thesis
  proof (cases "?r > 0")
    case False
    let ?h = "upd_env v (\<lambda>_. blank_env) h"
    have "good D ext h0 (env_work (genv h v) @ ws) ?h"
    proof (rule step_free [OF g w(2)])
      show "refs ?h y = refs h y \<and> same_node h ?h y" if "y \<noteq> V v" for y using that by (cases y) (auto simp: same_node_def)
      show "cnt ?h y = cnt h y" if "y \<noteq> V v" for y using that by (cases y) auto
      show "mset (pend (env_work (genv h v))) = mset (refs h (V v))" by (simp add: pend_env_work)
    qed (use False ge exactD(7) [OF ex] in \<open>auto simp: blank_env_def opt_env_def\<close>)
    then show ?thesis using False w v ge by (simp add: Let_def)
  next
    case True
    show ?thesis
    proof (cases "has_closure (genv h v) \<and> env_break_self_cycle h v ?r")
      case br: True
      have "good D ext h0 (env_work (genv h v) @ ws) (upd_env v (\<lambda>_. blank_env) (fold sever (self_closures h v) h))"
        by (rule step_break [OF g [unfolded w(1)]]) (use True br in simp_all)
      then show ?thesis using True br w v by (simp add: Let_def)
    next
      case nb: False
      let ?h = "upd_env v (\<lambda>e. e\<lparr>eref := ?r\<rparr>) h"
      have "good D ext h0 ([] @ ws) ?h"
      proof (rule step_decr [OF g w(2)])
        show "refs ?h y = refs h y \<and> same_node h ?h y" for y by (cases y) (auto simp: same_node_def)
        show "cnt ?h z = (if z = V v then cnt h (V v) - 1 else cnt h z)" for z by (cases z) auto
      qed (use exactD(7) [OF ex] True in auto)
      then show ?thesis using True nb w v by (auto simp: Let_def)
    qed
  qed
qed

lemma release_good:
  "good D ext h0 ws h \<Longrightarrow> \<exists>h'. release ws h = Some h' \<and> good D ext h0 [] h'"
proof (induction ws h rule: release.induct)
  case (2 w ws h)
  obtain new h1 where s: "release_step w h = Some (new, h1)" "good D ext h0 (new @ ws) h1"
    using release_step_good [OF 2(2)] by blast
  then show ?case using 2(1) [OF s(1)] by simp
qed simp

lemma release_exact:
  assumes "exact D ext ws h"
  shows "\<exists>h'. release ws h = Some h' \<and> exact D ext [] h' \<and> framed D h [] h'"
  using release_good [of D ext h ws h] assms framed_refl by (auto simp: good_def)


section \<open>What is reachable survives\<close>

inductive reach :: "gheap \<Rightarrow> (node \<Rightarrow> nat) \<Rightarrow> node \<Rightarrow> bool" for h ext where
  held: "x \<in> nodes h \<Longrightarrow> ext x > 0 \<Longrightarrow> reach h ext x"
| ever: "x \<in> immortal h \<Longrightarrow> reach h ext x"
| via: "reach h ext x \<Longrightarrow> y \<in> set (refs h x) \<Longrightarrow> reach h ext y"

definition intact :: "gheap \<Rightarrow> gheap \<Rightarrow> node \<Rightarrow> bool" where
  "intact h h' x = (same_node h h' x \<and> refs h' x = refs h x \<and> (x \<in> immortal h \<or> cnt h' x > 0))"

lemma framed_intact:
  assumes "framed D h [] h'" "x \<in> nodes h" "x \<notin> D" "cnt h' x > 0"
  shows "intact h h' x"
  using assms unfolding framed_def intact_def by auto

lemma in_refs_pos: "x \<in> nodes h \<Longrightarrow> x \<notin> D \<Longrightarrow> y \<in> set (refs h x) \<Longrightarrow> in_refs D h y > 0"
proof -
  assume x: "x \<in> nodes h" "x \<notin> D" and y: "y \<in> set (refs h x)"
  have "count_list (refs h x) y \<le> in_refs D h y" unfolding in_refs_def using x by (intro member_le_sum) auto
  then show ?thesis using count_ge1 [OF y] by simp
qed

lemma reach_nodes: "reach h ext x \<Longrightarrow> exact {} ext ws h \<Longrightarrow> x \<in> nodes h"
proof (induction rule: reach.induct)
  case (ever x)
  then show ?case using exactD(5) by blast
next
  case (via x y)
  then show ?case using exactD(2) [of "{}" ext ws h x] by blast
qed simp

lemma reach_cnt_pos:
  assumes "exact {} ext ws h'" "nodes h' = nodes h" "immortal h' = immortal h" "x \<in> nodes h" "x \<notin> immortal h"
    and "ext x > 0 \<or> (\<exists>y \<in> nodes h. x \<in> set (refs h' y))"
  shows "cnt h' x > 0"
proof -
  have "in_refs {} h' x > 0 \<or> ext x > 0"
    using assms(2,6) in_refs_pos [of _ h' "{}" x] by auto
  then show ?thesis using exactD(1) [OF assms(1), of x] assms(2-5) by auto
qed

lemma reach_intact:
  assumes "reach h ext x" and ex: "exact {} ext ws h" and ex': "exact {} ext [] h'"
    and nd: "nodes h' = nodes h" "immortal h' = immortal h"
    and k: "\<And>x. reach h ext x \<Longrightarrow> x \<notin> immortal h \<Longrightarrow> cnt h' x > 0 \<Longrightarrow> intact h h' x"
  shows "x \<notin> immortal h \<longrightarrow> intact h h' x"
  using assms(1)
proof (induction rule: reach.induct)
  case (held x)
  then show ?case using k [OF reach.held] reach_cnt_pos [OF ex' nd] by simp
next
  case (via x y)
  have x: "x \<in> nodes h" "refs h' x = refs h x"
    using via reach_nodes [OF via(1) ex] exactD(6) [OF ex, of x] exactD(6) [OF ex', of x] nd by (auto simp: intact_def)
  have m: "y \<in> set (refs h' x)" using x(2) via(2) by (simp del: refs.simps)
  have y: "y \<in> nodes h" by (rule reach_nodes [OF reach.via [OF via(1,2)] ex])
  have "cnt h' y > 0" if "y \<notin> immortal h"
    by (rule reach_cnt_pos [OF ex' nd y that]) (use x(1) m in blast)
  then show ?case using k [OF reach.via [OF via(1,2)]] by blast
qed simp

text \<open>
  C8. Safety of \<open>unrefexp\<close> and \<open>destroy_env\<close>: dropping references that are counted never frees
  twice, always returns, keeps every count exact, and leaves whatever can still be reached as
  it was, the break of closure cycles included.
\<close>

theorem release_keeps_reachable:
  assumes "exact {} ext ws h"
  shows "\<exists>h'. release ws h = Some h' \<and> exact {} ext [] h'
    \<and> (\<forall>x. reach h ext x \<longrightarrow> x \<notin> immortal h \<longrightarrow> intact h h' x)"
proof -
  obtain h' where h': "release ws h = Some h'" "exact {} ext [] h'" "framed {} h [] h'"
    using release_exact [OF assms] by blast
  have nd: "nodes h' = nodes h" "immortal h' = immortal h"
    using h'(3) by (simp_all add: framed_def nodes_def immortal_def)
  have "x \<notin> immortal h \<longrightarrow> intact h h' x" if "reach h ext x" for x
    by (rule reach_intact [OF that assms h'(2) nd]) (use framed_intact [OF h'(3)] reach_nodes [OF _ assms] in simp)
  then show ?thesis using h'(1,2) by blast
qed


lemma release_stays_zero:
  assumes "exact D ext ws h" "release ws h = Some h'" "x \<in> nodes h" "x \<notin> D" "x \<notin> immortal h" "cnt h x = 0"
  shows "cnt h' x = 0"
proof -
  have e: "exact D ext [] h'" "framed D h [] h'" using release_exact [OF assms(1)] assms(2) by auto
  have nd: "nodes h' = nodes h" "immortal h' = immortal h" using e(2) by (simp_all add: framed_def nodes_def immortal_def)
  have "\<not> cnt h' x > 0" using e(2) assms(3,4,6) unfolding framed_def by fastforce
  moreover have "cnt h' x \<ge> 0" using exactD(1) [OF e(1), of x] nd assms(3-5) by simp
  ultimately show ?thesis by simp
qed

lemma self_closures_all:
  assumes ex: "exact {} ext (Drop_env (Some v) # ws) h" and z: "ext (V v) = 0" "count_list (pend ws) (V v) = 0"
    and own: "\<forall>y \<in> nodes h. V v \<in> set (refs h y) \<longrightarrow>
      (\<exists>a. y = C a \<and> \<not> shared (cell h a) \<and> nref (cell h a) = 1 \<and> a \<in> set (somes (inline_vals (genv h v) @ env_vals (genv h v))))"
  shows "cnt h (V v) = 1 + int (length (self_closures h v))" "\<forall>a \<in> set (self_closures h v). nref (cell h a) = 1"
proof -
  define A where "A = {a. a < ncells h \<and> captured h a = Some v}"
  let ?vals = "somes (inline_vals (genv h v) @ env_vals (genv h v))"
  have v: "V v \<in> nodes h" using exactD(4) [OF ex] by (auto simp: opt_env_def)
  have fA: "finite A" by (simp add: A_def)
  have inA: "\<not> shared (cell h a) \<and> nref (cell h a) = 1 \<and> a \<in> set ?vals" if "a \<in> A" for a
  proof -
    have "C a \<in> nodes h" "V v \<in> set (refs h (C a))" using that by (auto simp: A_def opt_env_def)
    then show ?thesis using own by blast
  qed
  have fn: "is_fn (gbody (cell h a))" if "captured h a = Some v" for a
    using that by (auto simp: captured_def split: if_splits)
  have sub: "C a \<in> nodes h" if "a \<in> set ?vals" for a
    using exactD(2) [OF ex v] that by auto
  have set: "set (self_closures h v) = A"
    using inA fn sub by (auto simp: self_closures_def is_self_closure_def A_def)
  show ones: "\<forall>a \<in> set (self_closures h v). nref (cell h a) = 1" using inA set by blast
  have dist: "distinct (self_closures h v)"
  proof (rule distinct_count1)
    fix a assume a: "a \<in> set (self_closures h v)"
    have an: "C a \<in> nodes h" "C a \<notin> immortal h"
      using a set exactD(6) [OF ex, of "C a"] by (auto simp: A_def opt_env_def)
    have "count_list (refs h (V v)) (C a) \<le> in_refs {} h (C a)"
      unfolding in_refs_def using v by (intro member_le_sum) auto
    also have "\<dots> \<le> 1" using exactD(1) [OF ex an(1) _ an(2)] ones a by simp
    finally have "count_list ?vals a \<le> 1" by (simp add: count_map_C)
    then show "count_list (self_closures h v) a \<le> 1"
      using count_filter_le [of "is_self_closure h v" ?vals a] by (simp add: self_closures_def)
  qed
  have c: "count_list (refs h y) (V v) = (if y \<in> C ` A then 1 else 0)" if yn: "y \<in> nodes h" for y
  proof (cases "V v \<in> set (refs h y)")
    case True
    then obtain a where "y = C a" using own yn by blast
    then show ?thesis using True yn by (auto simp: A_def opt_env_def split: option.splits)
  next
    case False
    moreover have "y \<notin> C ` A" using False by (auto simp: A_def opt_env_def)
    ultimately show ?thesis by (simp add: count_list_0_iff del: refs.simps)
  qed
  have "in_refs {} h (V v) = (\<Sum>y \<in> nodes h. if y \<in> C ` A then 1 else 0)"
    unfolding in_refs_def using c by simp
  also have "\<dots> = card (nodes h \<inter> C ` A)" by (simp add: sum.If_cases)
  also have "nodes h \<inter> C ` A = C ` A" by (auto simp: A_def)
  also have "card (C ` A) = card A" by (rule card_image) (simp add: inj_on_def)
  also have "\<dots> = length (self_closures h v)" using dist set by (metis distinct_card)
  finally show "cnt h (V v) = 1 + int (length (self_closures h v))"
    using exactD(1) [OF ex v] z by (simp add: opt_env_def)
qed

text \<open>
  C40. A closure cycle is freed: when every reference left to an environment comes from unshared
  closures that it alone owns, dropping the last outside reference frees the environment.
\<close>

theorem closure_cycle_freed:
  assumes "exact {} ext (Drop_env (Some v) # ws) h" "has_closure (genv h v)" "ext (V v) = 0" "count_list (pend ws) (V v) = 0"
    and "\<forall>y \<in> nodes h. V v \<in> set (refs h y) \<longrightarrow>
      (\<exists>a. y = C a \<and> \<not> shared (cell h a) \<and> nref (cell h a) = 1 \<and> a \<in> set (somes (inline_vals (genv h v) @ env_vals (genv h v))))"
  shows "\<exists>h'. release (Drop_env (Some v) # ws) h = Some h' \<and> exact {} ext [] h' \<and> eref (genv h' v) = 0"
proof -
  note sc = self_closures_all [OF assms(1,3,4,5)]
  let ?r = "eref (genv h v) - 1"
  have v: "v < nenvs h" using exactD(4) [OF assms(1)] by (auto simp: opt_env_def)
  have br: "env_break_self_cycle h v ?r" if "?r > 0"
    using sc that by (auto simp: env_break_self_cycle_def Let_def)
  obtain new h1 where st: "release_step (Drop_env (Some v)) h = Some (new, h1)" "good {} ext h (new @ ws) h1"
    using release_step_good [of "{}" ext h "Drop_env (Some v)" ws h] assms(1) framed_refl by (auto simp: good_def)
  have "cnt h1 (V v) = 0" using st(1) v sc(1) br assms(2) by (auto simp: Let_def blank_env_def split: if_splits)
  moreover obtain h' where h': "release (new @ ws) h1 = Some h'" "exact {} ext [] h'"
    using release_exact [of "{}" ext "new @ ws" h1] st(2) by (auto simp: good_def)
  moreover have "V v \<in> nodes h1" using st(2) v by (auto simp: good_def framed_def)
  ultimately have "cnt h' (V v) = 0"
    using release_stays_zero [of "{}" ext "new @ ws" h1 h' "V v"] st(2) by (simp add: good_def)
  then show ?thesis using h' st(1) by auto
qed


text \<open>A call frame that bound a local function: the environment 0, its closure 0 and the wrapper 1.\<close>

definition closure_heap :: gheap where
  "closure_heap = \<lparr>cell = (\<lambda>_. \<lparr>nref = 0, gbody = Other_body [], gnext = None, capt = None, shared = False\<rparr>)
      (0 := \<lparr>nref = 1, gbody = Ast_fn None, gnext = Some 1, capt = None, shared = False\<rparr>,
       1 := \<lparr>nref = 1, gbody = Pair_body None, gnext = None, capt = Some 0, shared = False\<rparr>),
     genv = (\<lambda>_. blank_env)(0 := blank_env\<lparr>eref := 2, inline_vals := [Some 0], has_closure := True\<rparr>),
     ncells = 2, nenvs = 1, singletons = [], exp_freelist = []\<rparr>"

lemma closure_nodes: "nodes closure_heap = {C 0, C 1, V 0}"
  by (auto simp: nodes_def closure_heap_def lessThan_Suc numeral_eq_Suc)

lemma closure_refs: "refs closure_heap (C 0) = [C 1, V 0]" "refs closure_heap (C 1) = []" "refs closure_heap (V 0) = [C 0]"
  by (simp_all add: closure_heap_def captured_def opt_env_def blank_env_def)

lemma closure_cnt: "cnt closure_heap (C 0) = 1" "cnt closure_heap (C 1) = 1" "cnt closure_heap (V 0) = 2"
  by (simp_all add: closure_heap_def)

lemma closure_in_refs: "in_refs {} closure_heap (C 0) = 1" "in_refs {} closure_heap (C 1) = 1" "in_refs {} closure_heap (V 0) = 1"
  by (simp_all add: in_refs_def closure_nodes closure_refs del: refs.simps One_nat_def)

lemma closure_exact: "exact {} (\<lambda>_. 0) [Drop_env (Some 0)] closure_heap"
proof -
  have "immortal closure_heap = {}" by (simp add: immortal_def closure_heap_def)
  moreover have "lone_wrappers closure_heap" by (auto simp: lone_wrappers_def closure_heap_def)
  ultimately show ?thesis
    by (simp add: exact_def closure_nodes closure_refs closure_in_refs closure_cnt opt_env_def del: refs.simps cnt.simps One_nat_def)
qed

lemma release_keeps_reachable_witness: "\<exists>h'. release [Drop_env (Some 0)] closure_heap = Some h' \<and> exact {} (\<lambda>_. 0) [] h'"
  using release_keeps_reachable [OF closure_exact] by blast

lemma closure_cycle_freed_witness: "\<exists>h'. release [Drop_env (Some 0)] closure_heap = Some h' \<and> eref (genv h' 0) = 0"
proof -
  have "\<forall>y \<in> nodes closure_heap. V 0 \<in> set (refs closure_heap y) \<longrightarrow>
      (\<exists>a. y = C a \<and> \<not> shared (cell closure_heap a) \<and> nref (cell closure_heap a) = 1
        \<and> a \<in> set (somes (inline_vals (genv closure_heap 0) @ env_vals (genv closure_heap 0))))"
    by (simp add: closure_nodes closure_refs del: refs.simps One_nat_def) (simp add: closure_heap_def blank_env_def)
  moreover have "has_closure (genv closure_heap 0)" by (simp add: closure_heap_def)
  ultimately have "\<exists>h'. release [Drop_env (Some 0)] closure_heap = Some h' \<and> exact {} (\<lambda>_. 0) [] h' \<and> eref (genv h' 0) = 0"
    by (intro closure_cycle_freed [OF closure_exact]) simp_all
  then show ?thesis by blast
qed

end
