(* ===== verification/Cycles.thy ===== *)
theory Cycles
  imports Refcount
begin

text \<open>
  The cycle collector \<open>(gc-cycles)\<close> of \<open>gc.h\<close>: counting the references that come from the
  walkable cells of the thread's arena and from the environments their closures captured,
  seeding the roots, marking, and the sweep.

  The first \<open>N\<close> indices of the heap are the cells of the arena, in the order of its sorted
  chunks; the others belong to other threads.  The flag words of the collector are sets.
\<close>

section \<open>Indexing the arena\<close>

definition EXP_BUMP_CHUNK :: nat where "EXP_BUMP_CHUNK = 256"
definition EXP_SIZE :: nat where "EXP_SIZE = 32"

text \<open>
  \<open>gc_cell_index\<close> on addresses: the binary search over the sorted chunk bases for the last one
  not above \<open>p\<close>, with \<open>lo\<close> and \<open>hi\<close> and the hit so far.
\<close>

function base_search :: "nat list \<Rightarrow> nat \<Rightarrow> int \<Rightarrow> int \<Rightarrow> int \<Rightarrow> int" where
  "base_search bs p lo hi hit =
     (if lo \<le> hi then
        (let mid = lo + (hi - lo) div 2 in
         if bs ! nat mid \<le> p then base_search bs p (mid + 1) hi mid
         else base_search bs p lo (mid - 1) hit)
      else hit)"
  by pat_completeness auto
termination
  by (relation "measure (\<lambda>(bs, p, lo, hi, hit). nat (hi - lo + 1))") auto

declare base_search.simps [simp del]

definition gc_cell_index :: "nat list \<Rightarrow> nat \<Rightarrow> int" where
  "gc_cell_index bs p =
     (if p = 0 \<or> p mod 8 \<noteq> 0 then -1
      else (let hit = base_search bs p 0 (int (length bs) - 1) (-1) in
        if hit < 0 then -1
        else (let off = p - bs ! nat hit in
          if off \<ge> EXP_BUMP_CHUNK * EXP_SIZE \<or> off mod EXP_SIZE \<noteq> 0 then -1
          else hit * int EXP_BUMP_CHUNK + int (off div EXP_SIZE))))"

section \<open>Edges\<close>

definition gc_walkable :: "gbody \<Rightarrow> bool" where
  "gc_walkable b = (case b of Other_body _ \<Rightarrow> False | _ \<Rightarrow> True)"

definition gc_captured_env :: "gheap \<Rightarrow> nat \<Rightarrow> nat option" where
  "gc_captured_env h a = captured h a"

fun gc_visit_edges :: "gcell \<Rightarrow> nat list" where
  "gc_visit_edges c =
     (case gbody c of
        Pair_body p \<Rightarrow> somes [p, gnext c]
      | Dict_body ps \<Rightarrow> somes ps
      | Deque_body ps \<Rightarrow> somes ps
      | Vector_body ps \<Rightarrow> somes ps
      | Compiled_fn None \<Rightarrow> somes [gnext c]
      | Compiled_fn (Some (p, ps)) \<Rightarrow> somes (p # ps @ [gnext c])
      | Ast_fn p \<Rightarrow> somes [p, gnext c]
      | Other_body _ \<Rightarrow> [])"

definition gc_visit_env_edges :: "genv \<Rightarrow> nat list" where
  "gc_visit_env_edges e = somes (inline_vals e @ env_vals e @ [callingfnc e])"

section \<open>The collector's tables\<close>

record gc_envnode =
  ge_env :: nat
  ge_interns :: u32
  ge_walk :: bool

record gc_ctx =
  interns :: "nat \<Rightarrow> u32"
  g_live :: "nat set"
  g_walk :: "nat set"
  g_mark :: "nat set"
  g_stack :: "nat list"
  g_envs :: "gc_envnode list"
  g_envcap :: nat
  g_emark :: "nat set"
  g_estack :: "nat list"

definition gc_init :: gc_ctx where
  "gc_init = \<lparr>interns = (\<lambda>_. 0), g_live = {}, g_walk = {}, g_mark = {}, g_stack = [], g_envs = [], g_envcap = 32,
     g_emark = {}, g_estack = []\<rparr>"

definition env_known :: "nat \<Rightarrow> gc_ctx \<Rightarrow> bool" where
  "env_known v g = (v \<in> ge_env ` set (g_envs g))"

definition env_walked :: "nat \<Rightarrow> gc_ctx \<Rightarrow> bool" where
  "env_walked v g = (\<exists>n \<in> set (g_envs g). ge_env n = v \<and> ge_walk n)"

definition upd_envnode :: "nat \<Rightarrow> (gc_envnode \<Rightarrow> gc_envnode) \<Rightarrow> gc_ctx \<Rightarrow> gc_ctx" where
  "upd_envnode v f g = g\<lparr>g_envs := map (\<lambda>n. if ge_env n = v then f n else n) (g_envs g)\<rparr>"

text \<open>\<open>grow\<close> says whether the table of environments can be enlarged to a capacity.\<close>

definition gc_env_add :: "(nat \<Rightarrow> bool) \<Rightarrow> nat \<Rightarrow> gc_ctx \<Rightarrow> gc_ctx option" where
  "gc_env_add grow v g =
     (if env_known v g then Some g
      else (let full = (length (g_envs g) = g_envcap g);
                cap = (if full then (if g_envcap g = 0 then 32 else g_envcap g * 2) else g_envcap g) in
        if full \<and> \<not> grow cap then None
        else Some (g\<lparr>g_envs := g_envs g @ [\<lparr>ge_env = v, ge_interns = 0, ge_walk = False\<rparr>], g_envcap := cap\<rparr>)))"

definition gc_count_edge :: "nat \<Rightarrow> nat \<Rightarrow> gc_ctx \<Rightarrow> gc_ctx" where
  "gc_count_edge N c g = (if c < N then g\<lparr>interns := (interns g)(c := interns g c + 1)\<rparr> else g)"

definition gc_mark_env :: "nat \<Rightarrow> gc_ctx \<Rightarrow> gc_ctx" where
  "gc_mark_env v g =
     (if \<not> env_known v g \<or> v \<in> g_emark g then g
      else (let g1 = g\<lparr>g_emark := insert v (g_emark g)\<rparr> in
        if env_walked v g then g1\<lparr>g_estack := v # g_estack g\<rparr> else g1))"

definition gc_mark_edge :: "nat \<Rightarrow> nat \<Rightarrow> gc_ctx \<Rightarrow> gc_ctx" where
  "gc_mark_edge N c g =
     (if c \<ge> N \<or> c \<in> g_mark g \<or> c \<notin> g_live g then g
      else (let g1 = g\<lparr>g_mark := insert c (g_mark g)\<rparr> in
        if c \<in> g_walk g then g1\<lparr>g_stack := c # g_stack g\<rparr> else g1))"


section \<open>Counting\<close>

lemma fold_count_env [simp]: "g_envs (fold (gc_count_edge N) cs g) = g_envs g" "g_envcap (fold (gc_count_edge N) cs g) = g_envcap g"
    "g_live (fold (gc_count_edge N) cs g) = g_live g" "g_walk (fold (gc_count_edge N) cs g) = g_walk g"
    "g_mark (fold (gc_count_edge N) cs g) = g_mark g" "g_stack (fold (gc_count_edge N) cs g) = g_stack g"
    "g_emark (fold (gc_count_edge N) cs g) = g_emark g" "g_estack (fold (gc_count_edge N) cs g) = g_estack g"
  by (induction cs arbitrary: g) (simp_all add: gc_count_edge_def)

definition unwalked :: "gheap \<Rightarrow> gc_ctx \<Rightarrow> nat set" where
  "unwalked h g = {v. v < nenvs h \<and> \<not> env_walked v g}"

lemma env_walked_upd: "(\<And>n. ge_walk (F n) = ge_walk n \<and> ge_env (F n) = ge_env n) \<Longrightarrow> env_walked u (upd_envnode v F g) = env_walked u g"
  by (auto simp: env_walked_def upd_envnode_def)

lemma env_walked_set: "env_walked u (upd_envnode v (\<lambda>n. n\<lparr>ge_walk := True\<rparr>) g) = (env_walked u g \<or> (u = v \<and> env_known v g))"
proof -
  have "(\<exists>n \<in> set (map (\<lambda>n. if ge_env n = v then n\<lparr>ge_walk := True\<rparr> else n) xs). ge_env n = u \<and> ge_walk n)
      = ((\<exists>n \<in> set xs. ge_env n = u \<and> ge_walk n) \<or> (u = v \<and> v \<in> ge_env ` set xs))" for xs
    by (induction xs) auto
  then show ?thesis by (simp add: env_walked_def upd_envnode_def env_known_def del: set_map)
qed

lemma map_env_upd: "(\<And>n. ge_env (F n) = ge_env n) \<Longrightarrow> map ge_env (g_envs (upd_envnode v F g)) = map ge_env (g_envs g)"
  by (simp add: upd_envnode_def)

lemma env_known_upd: "(\<And>n. ge_env (F n) = ge_env n) \<Longrightarrow> env_known u (upd_envnode v F g) = env_known u g"
  using map_env_upd [of F v g] unfolding env_known_def by (metis list.set_map)

lemma env_walked_fold [simp]: "env_walked u (fold (gc_count_edge N) cs g) = env_walked u g"
  "env_known u (fold (gc_count_edge N) cs g) = env_known u g"
  by (simp_all add: env_walked_def env_known_def)

lemma env_add_known:
  assumes "gc_env_add grow v g = Some g1"
  shows "env_known v g1" "env_walked u g1 = env_walked u g"
  using assms by (auto simp: gc_env_add_def env_known_def env_walked_def Let_def split: if_splits)

lemma unwalked_less:
  assumes "gc_env_add grow v g = Some g1" "\<not> env_walked v (upd_envnode v F g1)" "v < nenvs h" "\<And>n. ge_walk (F n) = ge_walk n \<and> ge_env (F n) = ge_env n"
  shows "card (unwalked h (fold (gc_count_edge N) cs (upd_envnode v (\<lambda>n. n\<lparr>ge_walk := True\<rparr>) (upd_envnode v F g1)))) < card (unwalked h g)"
proof (rule psubset_card_mono)
  let ?g = "fold (gc_count_edge N) cs (upd_envnode v (\<lambda>n. n\<lparr>ge_walk := True\<rparr>) (upd_envnode v F g1))"
  have "env_walked u ?g = (env_walked u g \<or> u = v)" for u
    using env_add_known [OF assms(1)] env_known_upd [of F v v g1] env_walked_upd [of F u v g1] assms(4) by (simp add: env_walked_set)
  moreover have "\<not> env_walked v g" using assms(2) env_walked_upd [of F v v g1] env_add_known(2) [OF assms(1), of v] assms(4) by simp
  ultimately show "unwalked h ?g \<subset> unwalked h g" using assms(3) by (auto simp: unwalked_def)
qed (simp add: unwalked_def)

text \<open>The walk up the chain of captured environments, until one already counted.\<close>

function gc_count_envs :: "gheap \<Rightarrow> nat \<Rightarrow> (nat \<Rightarrow> bool) \<Rightarrow> nat option \<Rightarrow> gc_ctx \<Rightarrow> gc_ctx option" where
  "gc_count_envs h N grow None g = Some g"
| "gc_count_envs h N grow (Some v) g =
     (case gc_env_add grow v g of
        None \<Rightarrow> None
      | Some g1 \<Rightarrow>
          (let g2 = upd_envnode v (\<lambda>n. n\<lparr>ge_interns := ge_interns n + 1\<rparr>) g1 in
           if env_walked v g2 \<or> v \<ge> nenvs h then Some g2
           else gc_count_envs h N grow (eroot (genv h v))
             (fold (gc_count_edge N) (gc_visit_env_edges (genv h v)) (upd_envnode v (\<lambda>n. n\<lparr>ge_walk := True\<rparr>) g2))))"
  by pat_completeness auto
termination
  by (relation "measure (\<lambda>(h, N, grow, v, g). card (unwalked h g))") (auto intro: unwalked_less)

fun gc_count_cells :: "gheap \<Rightarrow> nat \<Rightarrow> (nat \<Rightarrow> bool) \<Rightarrow> nat list \<Rightarrow> gc_ctx \<Rightarrow> gc_ctx option" where
  "gc_count_cells h N grow [] g = Some g"
| "gc_count_cells h N grow (c # cs) g =
     (if nref (cell h c) \<le> 0 then gc_count_cells h N grow cs g
      else (let g1 = g\<lparr>g_live := insert c (g_live g)\<rparr> in
        if c \<in> set (singletons h) then gc_count_cells h N grow cs g1
        else if gc_walkable (gbody (cell h c)) then
          (case gc_count_envs h N grow (gc_captured_env h c)
                  (fold (gc_count_edge N) (gc_visit_edges (cell h c)) (g1\<lparr>g_walk := insert c (g_walk g)\<rparr>)) of
             None \<Rightarrow> None
           | Some g2 \<Rightarrow> gc_count_cells h N grow cs g2)
        else gc_count_cells h N grow cs g1))"

section \<open>Marking\<close>

fun gc_seed_cells :: "gheap \<Rightarrow> nat list \<Rightarrow> gc_ctx \<Rightarrow> gc_ctx" where
  "gc_seed_cells h [] g = g"
| "gc_seed_cells h (c # cs) g =
     gc_seed_cells h cs
       (if c \<notin> g_live g \<or> c \<in> g_mark g then g
        else if c \<in> set (singletons h) \<or> c \<notin> g_walk g \<or> (of_int (nref (cell h c)) :: u32) > interns g c
        then (let g1 = g\<lparr>g_mark := insert c (g_mark g)\<rparr> in
              if c \<in> g_walk g then g1\<lparr>g_stack := c # g_stack g\<rparr> else g1)
        else g)"

fun gc_seed_envs :: "gheap \<Rightarrow> gc_envnode list \<Rightarrow> gc_ctx \<Rightarrow> gc_ctx" where
  "gc_seed_envs h [] g = g"
| "gc_seed_envs h (n # ns) g =
     gc_seed_envs h ns
       (if ge_env n \<notin> g_emark g \<and> (of_int (eref (genv h (ge_env n))) :: u32) > ge_interns n
        then gc_mark_env (ge_env n) g else g)"

definition mark_opt :: "nat option \<Rightarrow> gc_ctx \<Rightarrow> gc_ctx" where
  "mark_opt v g = (case v of None \<Rightarrow> g | Some u \<Rightarrow> gc_mark_env u g)"

definition mark_measure :: "nat \<Rightarrow> gc_ctx \<Rightarrow> nat" where
  "mark_measure N g =
     2 * card ({..<N} - g_mark g) + 2 * card (ge_env ` set (g_envs g) - g_emark g) + length (g_stack g) + length (g_estack g)"

lemma mark_env_measure: "mark_measure N (gc_mark_env v g) \<le> mark_measure N g"
proof (cases "\<not> env_known v g \<or> v \<in> g_emark g")
  case False
  let ?A = "ge_env ` set (g_envs g) - g_emark g"
  have "card (?A - {v}) < card ?A" by (rule card_Diff1_less) (use False in \<open>auto simp: env_known_def\<close>)
  moreover have "ge_env ` set (g_envs g) - insert v (g_emark g) = ?A - {v}" by blast
  ultimately show ?thesis using False by (simp add: mark_measure_def gc_mark_env_def Let_def)
qed (simp add: gc_mark_env_def)

lemma mark_edge_measure: "mark_measure N (gc_mark_edge N c g) \<le> mark_measure N g"
proof (cases "c \<ge> N \<or> c \<in> g_mark g \<or> c \<notin> g_live g")
  case False
  let ?A = "{..<N} - g_mark g"
  have "card (?A - {c}) < card ?A" by (rule card_Diff1_less) (use False in auto)
  moreover have "{..<N} - insert c (g_mark g) = ?A - {c}" by blast
  ultimately show ?thesis using False by (simp add: mark_measure_def gc_mark_edge_def Let_def)
qed (simp add: gc_mark_edge_def)

lemma mark_edges_measure: "mark_measure N (fold (gc_mark_edge N) cs g) \<le> mark_measure N g"
  by (induction cs arbitrary: g) (auto intro: order.trans mark_edge_measure)

lemma mark_opt_measure: "mark_measure N (mark_opt v g) \<le> mark_measure N g"
  by (simp add: mark_opt_def mark_env_measure split: option.split)

text \<open>The two inner loops and the outer one; the flag says which inner loop is running.\<close>

function gc_mark_loop :: "gheap \<Rightarrow> nat \<Rightarrow> bool \<Rightarrow> gc_ctx \<Rightarrow> gc_ctx" where
  "gc_mark_loop h N cells g =
     (if cells then
        (case g_stack g of
           p # st \<Rightarrow> gc_mark_loop h N True
             (mark_opt (gc_captured_env h p) (fold (gc_mark_edge N) (gc_visit_edges (cell h p)) (g\<lparr>g_stack := st\<rparr>)))
         | [] \<Rightarrow> gc_mark_loop h N False g)
      else
        (case g_estack g of
           v # st \<Rightarrow> gc_mark_loop h N False
             (mark_opt (eroot (genv h v)) (fold (gc_mark_edge N) (gc_visit_env_edges (genv h v)) (g\<lparr>g_estack := st\<rparr>)))
         | [] \<Rightarrow> if g_stack g = [] then g else gc_mark_loop h N True g))"
  by pat_completeness auto

definition mode_measure :: "bool \<Rightarrow> gc_ctx \<Rightarrow> nat" where
  "mode_measure cells g = (if cells then (if g_stack g = [] then 2 else 0) else (if g_estack g = [] \<and> g_stack g \<noteq> [] then 1 else 0))"

lemma pop_measure:
  "g_stack g = p # st \<Longrightarrow> mark_measure N (mark_opt v (fold (gc_mark_edge N) cs (g\<lparr>g_stack := st\<rparr>))) < mark_measure N g"
  "g_estack g = p # st \<Longrightarrow> mark_measure N (mark_opt v (fold (gc_mark_edge N) cs (g\<lparr>g_estack := st\<rparr>))) < mark_measure N g"
proof -
  assume "g_stack g = p # st"
  then have "mark_measure N (g\<lparr>g_stack := st\<rparr>) < mark_measure N g" by (simp add: mark_measure_def)
  then show "mark_measure N (mark_opt v (fold (gc_mark_edge N) cs (g\<lparr>g_stack := st\<rparr>))) < mark_measure N g"
    using mark_opt_measure mark_edges_measure by (meson le_less_trans)
next
  assume "g_estack g = p # st"
  then have "mark_measure N (g\<lparr>g_estack := st\<rparr>) < mark_measure N g" by (simp add: mark_measure_def)
  then show "mark_measure N (mark_opt v (fold (gc_mark_edge N) cs (g\<lparr>g_estack := st\<rparr>))) < mark_measure N g"
    using mark_opt_measure mark_edges_measure by (meson le_less_trans)
qed

termination gc_mark_loop
  by (relation "measures [\<lambda>(h, N, cells, g). mark_measure N g, \<lambda>(h, N, cells, g). mode_measure cells g]")
    (auto simp: mode_measure_def intro: pop_measure)

declare gc_mark_loop.simps [simp del]
declare gc_visit_edges.simps [simp del]

section \<open>Sweeping\<close>

definition gc_dead :: "nat \<Rightarrow> gc_ctx \<Rightarrow> nat list" where
  "gc_dead N g = filter (\<lambda>c. c \<in> g_live g \<and> c \<in> g_walk g \<and> c \<notin> g_mark g) [0..<N]"

definition gc_dead_envs :: "gc_ctx \<Rightarrow> nat list" where
  "gc_dead_envs g = map ge_env (filter (\<lambda>n. ge_walk n \<and> ge_env n \<notin> g_emark g) (g_envs g))"

text \<open>\<open>gc_release_edge\<close> over the edges of a node: those to dead cells dissolve.\<close>

definition release_edges :: "nat list \<Rightarrow> nat list \<Rightarrow> work list" where
  "release_edges dead es = map (\<lambda>c. Unref (Some c)) (filter (\<lambda>c. c \<notin> set dead) es)"

fun gc_release_cells :: "nat list \<Rightarrow> nat list \<Rightarrow> gheap \<Rightarrow> gheap option" where
  "gc_release_cells dead [] h = Some h"
| "gc_release_cells dead (c # cs) h =
     (case release (release_edges dead (gc_visit_edges (cell h c))) h of
        None \<Rightarrow> None | Some h1 \<Rightarrow> gc_release_cells dead cs h1)"

fun gc_release_captures :: "nat list \<Rightarrow> nat list \<Rightarrow> gheap \<Rightarrow> gheap option" where
  "gc_release_captures deadE [] h = Some h"
| "gc_release_captures deadE (c # cs) h =
     (case gc_captured_env h c of
        None \<Rightarrow> gc_release_captures deadE cs h
      | Some v \<Rightarrow>
          (case (if v \<in> set deadE then Some h else destroy_env (Some v) h) of
             None \<Rightarrow> None
           | Some h1 \<Rightarrow> gc_release_captures deadE cs (sever c h1)))"

fun gc_release_envs :: "nat list \<Rightarrow> nat list \<Rightarrow> gheap \<Rightarrow> gheap option" where
  "gc_release_envs dead [] h = Some h"
| "gc_release_envs dead (v # vs) h =
     (case release (release_edges dead (gc_visit_env_edges (genv h v))) h of
        None \<Rightarrow> None | Some h1 \<Rightarrow> gc_release_envs dead vs h1)"

fun gc_free_envs :: "nat list \<Rightarrow> nat list \<Rightarrow> gheap \<Rightarrow> gheap option" where
  "gc_free_envs deadE [] h = Some h"
| "gc_free_envs deadE (v # vs) h =
     (case (case eroot (genv h v) of
              None \<Rightarrow> Some h
            | Some r \<Rightarrow> if r \<in> set deadE then Some h else destroy_env (Some r) h) of
        None \<Rightarrow> None
      | Some h1 \<Rightarrow> gc_free_envs deadE vs (upd_env v (\<lambda>_. blank_env) h1))"

definition gc_free_dead_cell :: "nat \<Rightarrow> gheap \<Rightarrow> gheap" where
  "gc_free_dead_cell c h = (upd_cell c clear_cell h)\<lparr>exp_freelist := c # exp_freelist h\<rparr>"

definition gc_sweep :: "nat \<Rightarrow> gc_ctx \<Rightarrow> gheap \<Rightarrow> gheap option" where
  "gc_sweep N g h =
     (let dead = gc_dead N g; deadE = gc_dead_envs g in
      case gc_release_cells dead dead h of None \<Rightarrow> None | Some h1 \<Rightarrow>
      (case gc_release_captures deadE dead h1 of None \<Rightarrow> None | Some h2 \<Rightarrow>
      (case gc_release_envs dead deadE h2 of None \<Rightarrow> None | Some h3 \<Rightarrow>
      (case gc_free_envs deadE deadE h3 of None \<Rightarrow> None | Some h4 \<Rightarrow>
       Some (fold gc_free_dead_cell dead h4)))))"

text \<open>
  \<open>mem\<close> and \<open>emem\<close>: the tables, and later the stack of environments, can be allocated.  The
  result is the number of cells freed, or the out-of-memory error; \<open>None\<close> is a double free.
\<close>

datatype gc_result = Gc_freed nat | Gc_no_memory

definition gc_marked :: "gheap \<Rightarrow> nat \<Rightarrow> gc_ctx \<Rightarrow> gc_ctx" where
  "gc_marked h N g = (let g1 = gc_seed_cells h [0..<N] g in gc_mark_loop h N True (gc_seed_envs h (g_envs g1) g1))"

definition gccyclescmd :: "bool \<Rightarrow> (nat \<Rightarrow> bool) \<Rightarrow> bool \<Rightarrow> nat \<Rightarrow> gheap \<Rightarrow> (gheap \<times> gc_result) option" where
  "gccyclescmd mem grow emem N h =
     (if N = 0 then Some (h, Gc_freed 0)
      else if \<not> mem then Some (h, Gc_no_memory)
      else (case gc_count_cells h N grow [0..<N] gc_init of
          None \<Rightarrow> Some (h, Gc_freed 0)
        | Some g \<Rightarrow>
            if \<not> emem then Some (h, Gc_freed 0)
            else (let g2 = gc_marked h N g in
              (case gc_sweep N g2 h of
                 None \<Rightarrow> None
               | Some h' \<Rightarrow> Some (h', Gc_freed (length (gc_dead N g2)))))))"


section \<open>What the counting phase computes\<close>

text \<open>Containers have no \<open>next\<close>; then the edges visited are the references owned.\<close>

definition no_next :: "gheap \<Rightarrow> bool" where
  "no_next h = (\<forall>a < ncells h. (case gbody (cell h a) of
      Dict_body _ \<Rightarrow> gnext (cell h a) = None | Deque_body _ \<Rightarrow> gnext (cell h a) = None
    | Vector_body _ \<Rightarrow> gnext (cell h a) = None | _ \<Rightarrow> True))"

lemma somes_snoc: "somes (p # ps @ [q]) = somes (p # ps) @ somes [q]"
  by (cases p) auto

lemma somes_pair: "somes [p, q] = somes [p] @ somes [q]"
  by (cases p) auto

lemma visit_edges_refs:
  assumes "no_next h" "a < ncells h" "gc_walkable (gbody (cell h a))"
  shows "gc_visit_edges (cell h a) = cell_refs h a"
proof (cases "gbody (cell h a)")
  case (Compiled_fn bc)
  then show ?thesis by (cases bc) (auto simp: gc_visit_edges.simps somes_snoc somes.simps(1) simp del: somes.simps(2,3))
next
  case (Pair_body p)
  then show ?thesis by (simp add: gc_visit_edges.simps somes_pair del: somes.simps)
next
  case (Ast_fn p)
  then show ?thesis by (simp add: gc_visit_edges.simps somes_pair del: somes.simps)
next
  case (Dict_body ps)
  then have "gnext (cell h a) = None" using assms(1,2) by (auto simp: no_next_def)
  then show ?thesis using Dict_body by (simp add: gc_visit_edges.simps)
next
  case (Deque_body ps)
  then have "gnext (cell h a) = None" using assms(1,2) by (auto simp: no_next_def)
  then show ?thesis using Deque_body by (simp add: gc_visit_edges.simps)
next
  case (Vector_body ps)
  then have "gnext (cell h a) = None" using assms(1,2) by (auto simp: no_next_def)
  then show ?thesis using Vector_body by (simp add: gc_visit_edges.simps)
next
  case (Other_body ps)
  then show ?thesis using assms(3) by (simp add: gc_walkable_def)
qed

lemma visit_env_refs: "gc_visit_env_edges e = env_refs e"
  by (simp add: gc_visit_env_edges_def)

text \<open>The nodes the collector walks: live walkable cells of the arena and the environments behind them.\<close>

inductive cand :: "gheap \<Rightarrow> nat \<Rightarrow> node \<Rightarrow> bool" for h N where
  cand_cell: "c < N \<Longrightarrow> nref (cell h c) > 0 \<Longrightarrow> c \<notin> set (singletons h) \<Longrightarrow> gc_walkable (gbody (cell h c)) \<Longrightarrow> cand h N (C c)"
| cand_capt: "cand h N (C c) \<Longrightarrow> captured h c = Some v \<Longrightarrow> cand h N (V v)"
| cand_root: "cand h N (V v) \<Longrightarrow> eroot (genv h v) = Some u \<Longrightarrow> cand h N (V u)"

inductive_cases cand_CE: "cand h N (C c)"

definition icount :: "gheap \<Rightarrow> node set \<Rightarrow> node \<Rightarrow> nat" where
  "icount h Q x = (\<Sum>y \<in> Q. count_list (refs h y) x)"

definition kint :: "gc_ctx \<Rightarrow> nat \<Rightarrow> u32" where
  "kint g e = (case find (\<lambda>n. ge_env n = e) (g_envs g) of None \<Rightarrow> 0 | Some n \<Rightarrow> ge_interns n)"

definition count_inv :: "gheap \<Rightarrow> nat \<Rightarrow> node set \<Rightarrow> nat option \<Rightarrow> gc_ctx \<Rightarrow> bool" where
  "count_inv h N Q o' g =
     ((\<forall>c < N. interns g c = of_nat (icount h Q (C c)))
      \<and> (\<forall>e. kint g e + (if o' = Some e then 1 else 0) = of_nat (icount h Q (V e)))
      \<and> distinct (map ge_env (g_envs g)) \<and> (\<forall>n \<in> set (g_envs g). ge_walk n)
      \<and> (\<forall>v. V v \<in> Q \<longleftrightarrow> env_known v g) \<and> (\<forall>c. C c \<in> Q \<longleftrightarrow> c \<in> g_walk g)
      \<and> Q \<subseteq> nodes h \<and> (\<forall>x \<in> Q. cand h N x)
      \<and> (\<forall>v. o' = Some v \<longrightarrow> cand h N (V v) \<and> v < nenvs h)
      \<and> (\<forall>y \<in> Q. \<forall>u. V u \<in> set (refs h y) \<longrightarrow> V u \<in> Q \<or> o' = Some u))"

lemma interns_fold: "interns (fold (gc_count_edge N) cs g) c = interns g c + (if c < N then of_nat (count_list cs c) else 0)"
  by (induction cs arbitrary: g) (auto simp: gc_count_edge_def)

lemma icount_insert: "finite Q \<Longrightarrow> y \<notin> Q \<Longrightarrow> icount h (insert y Q) x = icount h Q x + count_list (refs h y) x"
  by (simp add: icount_def)

lemma kint_fold [simp]: "kint (fold (gc_count_edge N) cs g) e = kint g e"
  by (simp add: kint_def)

lemma find_map_upd:
  assumes "\<And>n. ge_env (F n) = ge_env n"
  shows "find (\<lambda>n. ge_env n = e) (map (\<lambda>n. if ge_env n = v then F n else n) xs)
    = (if e = v then map_option F (find (\<lambda>n. ge_env n = e) xs) else find (\<lambda>n. ge_env n = e) xs)"
  by (induction xs) (auto simp: assms)

lemma kint_incr:
  assumes "env_known v g"
  shows "kint (upd_envnode v (\<lambda>n. n\<lparr>ge_interns := ge_interns n + 1\<rparr>) g) e = kint g e + (if e = v then 1 else 0)"
proof -
  have "find (\<lambda>n. ge_env n = v) (g_envs g) \<noteq> None"
    using assms by (auto simp: env_known_def find_None_iff)
  then show ?thesis by (auto simp: kint_def upd_envnode_def find_map_upd split: option.splits)
qed

lemma kint_walk [simp]: "kint (upd_envnode v (\<lambda>n. n\<lparr>ge_walk := True\<rparr>) g) e = kint g e"
  by (auto simp: kint_def upd_envnode_def find_map_upd split: option.splits)

lemma find_append: "find P (xs @ ys) = (case find P xs of None \<Rightarrow> find P ys | Some x \<Rightarrow> Some x)"
  by (induction xs) auto

lemma kint_add:
  assumes "gc_env_add grow v g = Some g1"
  shows "kint g1 e = kint g e"
proof -
  have "g_envs g1 = g_envs g \<or> g_envs g1 = g_envs g @ [\<lparr>ge_env = v, ge_interns = 0, ge_walk = False\<rparr>]"
    using assms by (auto simp: gc_env_add_def Let_def split: if_splits)
  then show ?thesis by (auto simp: kint_def find_append split: option.splits if_splits)
qed

lemma env_add_other:
  assumes "gc_env_add grow v g = Some g1"
  shows "interns g1 = interns g" "g_walk g1 = g_walk g" "g_live g1 = g_live g" "g_mark g1 = g_mark g" "g_stack g1 = g_stack g"
    "g_emark g1 = g_emark g" "g_estack g1 = g_estack g" "env_known u g1 = (env_known u g \<or> u = v)"
    "distinct (map ge_env (g_envs g)) \<Longrightarrow> distinct (map ge_env (g_envs g1))"
    "\<forall>n \<in> set (g_envs g). ge_walk n \<Longrightarrow> \<forall>n \<in> set (g_envs g1). ge_walk n \<or> ge_env n = v"
  using assms by (auto simp: gc_env_add_def env_known_def Let_def split: if_splits)

lemma upd_envnode_other [simp]: "interns (upd_envnode v F g) = interns g" "g_walk (upd_envnode v F g) = g_walk g"
  "g_live (upd_envnode v F g) = g_live g" "g_mark (upd_envnode v F g) = g_mark g" "g_stack (upd_envnode v F g) = g_stack g"
  "g_emark (upd_envnode v F g) = g_emark g" "g_estack (upd_envnode v F g) = g_estack g"
  by (simp_all add: upd_envnode_def)


definition same_flags :: "gc_ctx \<Rightarrow> gc_ctx \<Rightarrow> bool" where
  "same_flags g g' = (g_live g' = g_live g \<and> g_walk g' = g_walk g \<and> g_mark g' = g_mark g \<and> g_stack g' = g_stack g
     \<and> g_emark g' = g_emark g \<and> g_estack g' = g_estack g)"

text \<open>One environment counted: the pending reference arrives, and the environment's own follow.\<close>

lemma count_inv_step:
  assumes inv: "count_inv h N Q (Some v) g" and add: "gc_env_add grow v g = Some g1" and fin: "finite Q"
    and g2: "g2 = upd_envnode v (\<lambda>n. n\<lparr>ge_interns := ge_interns n + 1\<rparr>) g1"
  shows "env_walked v g2 \<Longrightarrow> count_inv h N Q None g2"
    and "\<not> env_walked v g2 \<Longrightarrow> \<forall>v < nenvs h. \<forall>u. eroot (genv h v) = Some u \<longrightarrow> u < nenvs h \<Longrightarrow>
      count_inv h N (insert (V v) Q) (eroot (genv h v))
        (fold (gc_count_edge N) (gc_visit_env_edges (genv h v)) (upd_envnode v (\<lambda>n. n\<lparr>ge_walk := True\<rparr>) g2))"
proof -
  note e = env_add_other [OF add] and kn = env_add_known [OF add]
  have w: "env_walked u g = (V u \<in> Q)" for u
    using inv by (auto simp: count_inv_def env_walked_def env_known_def)
  have w2: "env_walked u g2 = (V u \<in> Q)" for u
    using env_walked_upd [of "\<lambda>n. n\<lparr>ge_interns := ge_interns n + 1\<rparr>" u v g1] w kn(2) by (simp add: g2)
  have k2: "kint g2 u = of_nat (icount h Q (V u))" for u
  proof -
    have "kint g u + (if Some v = Some u then 1 else 0) = of_nat (icount h Q (V u))" using inv unfolding count_inv_def by blast
    then show ?thesis using kint_incr [OF kn(1), of u] kint_add [OF add, of u] by (auto simp: g2 split: if_splits)
  qed
  have d2: "distinct (map ge_env (g_envs g2))"
    using e(9) inv by (simp add: count_inv_def g2 map_env_upd)
  have kn2: "env_known u g2 = (V u \<in> Q \<or> u = v)" for u
    using inv e(8) [of u] env_known_upd [of "\<lambda>n. n\<lparr>ge_interns := ge_interns n + 1\<rparr>" u v g1] by (auto simp: count_inv_def g2)
  have al: "\<forall>n \<in> set (g_envs g1). ge_walk n \<or> ge_env n = v" using e(10) inv by (simp add: count_inv_def)
  have i2: "interns g2 = interns g" "g_walk g2 = g_walk g" by (simp_all add: g2 e)
  show "count_inv h N Q None g2" if "env_walked v g2"
  proof -
    have vQ: "V v \<in> Q" using that w2 by simp
    have "\<forall>n \<in> set (g_envs g2). ge_walk n"
    proof
      fix n assume n: "n \<in> set (g_envs g2)"
      have "env_walked (ge_env n) g2" using n kn2 [of "ge_env n"] w2 [of "ge_env n"] vQ by (auto simp: env_known_def)
      then obtain m where "m \<in> set (g_envs g2)" "ge_env m = ge_env n" "ge_walk m" by (auto simp: env_walked_def)
      then show "ge_walk n" using d2 n by (metis distinct_map inj_onD)
    qed
    moreover have "V u \<in> Q" if "y \<in> Q" "V u \<in> set (refs h y)" for y u
    proof -
      have "V u \<in> Q \<or> Some v = Some u" using inv that unfolding count_inv_def by blast
      then show ?thesis using vQ by auto
    qed
    ultimately show ?thesis using inv k2 d2 kn2 vQ i2 unfolding count_inv_def by (auto simp del: refs.simps)
  qed
  assume nw: "\<not> env_walked v g2" and roots: "\<forall>v < nenvs h. \<forall>u. eroot (genv h v) = Some u \<longrightarrow> u < nenvs h"
  let ?g3 = "upd_envnode v (\<lambda>n. n\<lparr>ge_walk := True\<rparr>) g2"
  let ?g = "fold (gc_count_edge N) (gc_visit_env_edges (genv h v)) ?g3"
  have vQ: "V v \<notin> Q" using nw w2 by simp
  have v: "cand h N (V v)" "v < nenvs h" using inv by (auto simp: count_inv_def)
  have known: "env_known u ?g = (V u \<in> insert (V v) Q)" for u
    using kn2 [of u] env_known_upd [of "\<lambda>n. n\<lparr>ge_walk := True\<rparr>" u v g2] by (auto simp: image_iff)
  have "\<forall>n \<in> set (g_envs ?g). ge_walk n"
    using al by (auto simp: upd_envnode_def g2)
  moreover have "interns ?g c = of_nat (icount h (insert (V v) Q) (C c))" if "c < N" for c
    using inv that by (simp add: interns_fold icount_insert [OF fin vQ] i2 count_inv_def visit_env_refs count_map_C opt_env_def split: option.split)
  moreover have "kint ?g u + (if eroot (genv h v) = Some u then 1 else 0) = of_nat (icount h (insert (V v) Q) (V u))" for u
    by (simp add: k2 icount_insert [OF fin vQ] opt_env_def split: option.split)
  moreover have "distinct (map ge_env (g_envs ?g))" using d2 by (simp add: map_env_upd)
  moreover have "\<forall>u. eroot (genv h v) = Some u \<longrightarrow> cand h N (V u) \<and> u < nenvs h"
    using v roots cand_root by blast
  moreover have "\<forall>y \<in> insert (V v) Q. \<forall>u. V u \<in> set (refs h y) \<longrightarrow> V u \<in> insert (V v) Q \<or> eroot (genv h v) = Some u"
  proof (intro ballI allI impI)
    fix y u assume y: "y \<in> insert (V v) Q" and u: "V u \<in> set (refs h y)"
    have "V u \<in> Q \<or> Some v = Some u" if "y \<in> Q" using inv that u unfolding count_inv_def by blast
    then show "V u \<in> insert (V v) Q \<or> eroot (genv h v) = Some u"
      using y u by (cases "y = V v") (auto simp: opt_env_def split: option.splits)
  qed
  ultimately show "count_inv h N (insert (V v) Q) (eroot (genv h v)) ?g"
    using inv v known i2 unfolding count_inv_def by auto
qed

lemma count_envs_ok:
  assumes "count_inv h N Q o' g" "gc_count_envs h N grow o' g = Some g'" "finite Q"
    and "\<forall>v < nenvs h. \<forall>u. eroot (genv h v) = Some u \<longrightarrow> u < nenvs h"
  shows "\<exists>Q'. Q \<subseteq> Q' \<and> finite Q' \<and> count_inv h N Q' None g' \<and> same_flags g g'"
  using assms
proof (induction h N grow o' g arbitrary: Q rule: gc_count_envs.induct)
  case (1 h N grow g)
  then show ?case by (auto simp: same_flags_def)
next
  case (2 h N grow v g)
  obtain g1 where add: "gc_env_add grow v g = Some g1" using 2(3) by (auto split: option.splits)
  let ?g2 = "upd_envnode v (\<lambda>n. n\<lparr>ge_interns := ge_interns n + 1\<rparr>) g1"
  have fl: "same_flags g ?g2" using env_add_other [OF add] by (simp add: same_flags_def)
  have v: "v < nenvs h" using 2(2) by (simp add: count_inv_def)
  show ?case
  proof (cases "env_walked v ?g2")
    case True
    then show ?thesis using 2(3,4) add fl count_inv_step(1) [OF 2(2) add 2(4) refl True] by auto
  next
    case False
    let ?g3 = "fold (gc_count_edge N) (gc_visit_env_edges (genv h v)) (upd_envnode v (\<lambda>n. n\<lparr>ge_walk := True\<rparr>) ?g2)"
    have r: "gc_count_envs h N grow (eroot (genv h v)) ?g3 = Some g'" using 2(3) add False v by (simp add: Let_def)
    have inv: "count_inv h N (insert (V v) Q) (eroot (genv h v)) ?g3"
      by (rule count_inv_step(2) [OF 2(2) add 2(4) refl False 2(5)])
    obtain Q' where Q': "insert (V v) Q \<subseteq> Q'" "finite Q'" "count_inv h N Q' None g'" "same_flags ?g3 g'"
      using 2(1) [OF add refl _ inv r] False v 2(4,5) by auto
    then show ?thesis using fl by (auto simp: same_flags_def)
  qed
qed


definition graph_ok :: "gheap \<Rightarrow> bool" where
  "graph_ok h = (no_next h \<and> (\<forall>y \<in> nodes h. set (refs h y) \<subseteq> nodes h))"

lemma graph_okD:
  assumes "graph_ok h"
  shows "v < nenvs h \<Longrightarrow> eroot (genv h v) = Some u \<Longrightarrow> u < nenvs h"
    and "a < ncells h \<Longrightarrow> captured h a = Some u \<Longrightarrow> u < nenvs h" and "no_next h"
    and "y \<in> nodes h \<Longrightarrow> set (refs h y) \<subseteq> nodes h"
proof -
  show "u < nenvs h" if "v < nenvs h" "eroot (genv h v) = Some u"
  proof -
    have "V u \<in> set (refs h (V v))" using that by (simp add: opt_env_def)
    moreover have "V v \<in> nodes h" using that by simp
    ultimately show ?thesis using assms unfolding graph_ok_def by fastforce
  qed
  show "u < nenvs h" if "a < ncells h" "captured h a = Some u"
  proof -
    have "V u \<in> set (refs h (C a))" using that by (simp add: opt_env_def)
    moreover have "C a \<in> nodes h" using that by simp
    ultimately show ?thesis using assms unfolding graph_ok_def by fastforce
  qed
qed (use assms in \<open>auto simp: graph_ok_def\<close>)

lemma cand_visit:
  assumes "cand h N (C c)" "graph_ok h" "N \<le> ncells h"
  shows "gc_visit_edges (cell h c) = cell_refs h c"
proof (rule visit_edges_refs [OF graph_okD(3) [OF assms(2)]])
  show "c < ncells h" by (rule cand_CE [OF assms(1)]) (use assms(3) in simp)
  show "gc_walkable (gbody (cell h c))" by (rule cand_CE [OF assms(1)])
qed

lemma count_inv_cell:
  assumes inv: "count_inv h N Q None g" and fin: "finite Q" and c: "c < N" "N \<le> ncells h" "C c \<notin> Q" "cand h N (C c)"
    and ok: "graph_ok h"
  shows "count_inv h N (insert (C c) Q) (captured h c)
    (fold (gc_count_edge N) (gc_visit_edges (cell h c)) (g\<lparr>g_live := l, g_walk := insert c (g_walk g)\<rparr>))"
proof -
  let ?g = "fold (gc_count_edge N) (gc_visit_edges (cell h c)) (g\<lparr>g_live := l, g_walk := insert c (g_walk g)\<rparr>)"
  have vis: "gc_visit_edges (cell h c) = cell_refs h c"
    by (rule cand_visit [OF c(4) ok c(2)])
  have "interns ?g x = of_nat (icount h (insert (C c) Q) (C x))" if "x < N" for x
    using inv that unfolding vis interns_fold
    by (simp add: icount_insert [OF fin c(3)] count_inv_def count_map_C opt_env_def split: option.split)
  moreover have "kint ?g e + (if captured h c = Some e then 1 else 0) = of_nat (icount h (insert (C c) Q) (V e))" for e
  proof -
    have "kint g e = of_nat (icount h Q (V e))" using inv by (simp add: count_inv_def)
    moreover have "kint ?g e = kint g e" by (simp add: kint_def)
    ultimately show ?thesis by (simp add: icount_insert [OF fin c(3)] opt_env_def split: option.split)
  qed
  moreover have "V u \<in> insert (C c) Q \<or> captured h c = Some u"
    if y: "y \<in> insert (C c) Q" and u: "V u \<in> set (refs h y)" for y u
  proof (cases "y = C c")
    case False
    then have "V u \<in> Q \<or> None = Some u" using inv y u unfolding count_inv_def by blast
    then show ?thesis by simp
  qed (use u in \<open>auto simp: opt_env_def split: option.splits\<close>)
  moreover have "\<forall>v. captured h c = Some v \<longrightarrow> cand h N (V v) \<and> v < nenvs h"
    using cand_capt [OF c(4)] graph_okD(2) [OF ok, of c] c by auto
  moreover have "env_known v ?g = env_known v g" for v by (simp add: env_known_def)
  ultimately show ?thesis
    using inv c unfolding count_inv_def by (auto simp del: refs.simps)
qed

lemma count_inv_live: "count_inv h N Q o' (g\<lparr>g_live := l\<rparr>) = count_inv h N Q o' g"
  by (simp add: count_inv_def kint_def env_known_def)

lemma count_cells_ok:
  assumes "gc_count_cells h N grow cs g = Some g'" "count_inv h N Q None g" "finite Q" "distinct cs" "set cs \<subseteq> {..<N}"
    and "N \<le> ncells h" "set cs \<inter> g_walk g = {}" "graph_ok h"
  shows "\<exists>Q'. finite Q' \<and> count_inv h N Q' None g' \<and> g_live g' = g_live g \<union> {c \<in> set cs. nref (cell h c) > 0}
    \<and> g_walk g' = g_walk g \<union> {c \<in> set cs. cand h N (C c)} \<and> g_mark g' = g_mark g \<and> g_stack g' = g_stack g
    \<and> g_emark g' = g_emark g \<and> g_estack g' = g_estack g"
  using assms
proof (induction h N grow cs g arbitrary: Q rule: gc_count_cells.induct)
  case (1 h N grow g)
  then show ?case by auto
next
  case (2 h N grow c cs g)
  note prems = 2(5-12)
  let ?g1 = "g\<lparr>g_live := insert c (g_live g)\<rparr>"
  have rest: "set cs \<subseteq> {..<N}" "distinct cs" "c \<notin> set cs" "c < N" using prems(4,5) by auto
  consider (free) "nref (cell h c) \<le> 0" | (skip) "nref (cell h c) > 0" "\<not> cand h N (C c)" | (walk) "nref (cell h c) > 0" "cand h N (C c)"
    by linarith
  then show ?case
  proof cases
    case free
    have nc: "\<not> cand h N (C c)" using free by (auto elim: cand_CE)
    have r: "gc_count_cells h N grow cs g = Some g'" using prems(1) free by simp
    show ?thesis
      using 2(1) [OF free r prems(2,3) rest(2,1) prems(6) _ prems(8)] prems(7) free nc rest(3) by auto
  next
    case skip
    have r: "gc_count_cells h N grow cs ?g1 = Some g'"
      using prems(1) skip cand_cell [OF rest(4) skip(1)] by (auto simp: Let_def split: if_splits)
    have e: "\<exists>Q'. finite Q' \<and> count_inv h N Q' None g' \<and> g_live g' = g_live ?g1 \<union> {c \<in> set cs. nref (cell h c) > 0}
      \<and> g_walk g' = g_walk ?g1 \<union> {c \<in> set cs. cand h N (C c)} \<and> g_mark g' = g_mark ?g1 \<and> g_stack g' = g_stack ?g1
      \<and> g_emark g' = g_emark ?g1 \<and> g_estack g' = g_estack ?g1"
    proof (cases "c \<in> set (singletons h)")
      case True
      show ?thesis
        by (rule 2(2) [OF _ refl True r, of Q]) (use skip prems rest in \<open>auto simp: count_inv_live\<close>)
    next
      case False
      have nw: "\<not> gc_walkable (gbody (cell h c))" using skip cand_cell [OF rest(4) skip(1) False] by blast
      show ?thesis
        by (rule 2(4) [OF _ refl False nw r, of Q]) (use skip prems rest in \<open>auto simp: count_inv_live\<close>)
    qed
    show ?thesis using e skip by auto
  next
    case walk
    have w: "c \<notin> set (singletons h)" "gc_walkable (gbody (cell h c))" using cand_CE [OF walk(2)] by auto
    let ?g2 = "fold (gc_count_edge N) (gc_visit_edges (cell h c)) (?g1\<lparr>g_walk := insert c (g_walk ?g1)\<rparr>)"
    have cQ: "C c \<notin> Q" using prems(2,7) by (auto simp: count_inv_def)
    have i2: "count_inv h N (insert (C c) Q) (captured h c) ?g2"
      using count_inv_cell [OF prems(2,3) rest(4) prems(6) cQ walk(2) prems(8), of "insert c (g_live g)"] by simp
    obtain g3 where g3: "gc_count_envs h N grow (captured h c) ?g2 = Some g3" "gc_count_cells h N grow cs g3 = Some g'"
      using prems(1) walk w by (auto simp: Let_def gc_captured_env_def split: option.splits)
    have roots: "\<forall>v < nenvs h. \<forall>u. eroot (genv h v) = Some u \<longrightarrow> u < nenvs h"
      using graph_okD(1) [OF prems(8)] by blast
    obtain Q' where Q': "insert (C c) Q \<subseteq> Q'" "finite Q'" "count_inv h N Q' None g3" "same_flags ?g2 g3"
      using count_envs_ok [OF i2 g3(1) _ roots] prems(3) by auto
    have fl: "g_live g3 = insert c (g_live g)" "g_walk g3 = insert c (g_walk g)" "g_mark g3 = g_mark g" "g_stack g3 = g_stack g"
      "g_emark g3 = g_emark g" "g_estack g3 = g_estack g"
      using Q'(4) by (simp_all add: same_flags_def)
    have e: "\<exists>Q'. finite Q' \<and> count_inv h N Q' None g' \<and> g_live g' = g_live g3 \<union> {c \<in> set cs. nref (cell h c) > 0}
      \<and> g_walk g' = g_walk g3 \<union> {c \<in> set cs. cand h N (C c)} \<and> g_mark g' = g_mark g3 \<and> g_stack g' = g_stack g3
      \<and> g_emark g' = g_emark g3 \<and> g_estack g' = g_estack g3"
      by (rule 2(3) [of "?g1", OF _ refl w _ g3(2) Q'(3,2)]) (use walk g3(1) prems rest fl in \<open>auto simp: gc_captured_env_def\<close>)
    show ?thesis using e walk fl by auto
  qed
qed


definition cands :: "gheap \<Rightarrow> nat \<Rightarrow> node set" where
  "cands h N = {x. cand h N x}"

lemma count_phase:
  assumes "gc_count_cells h N grow [0..<N] gc_init = Some g" "N \<le> ncells h" "graph_ok h"
  shows "count_inv h N (cands h N) None g" "finite (cands h N)" "g_live g = {c. c < N \<and> nref (cell h c) > 0}"
    "g_walk g = {c. cand h N (C c)}" "g_mark g = {}" "g_stack g = []" "g_emark g = {}" "g_estack g = []"
proof -
  have i0: "count_inv h N {} None gc_init"
    by (simp add: count_inv_def gc_init_def icount_def kint_def env_known_def)
  obtain Q where Q: "finite Q" "count_inv h N Q None g"
    and f: "g_live g = {c \<in> set [0..<N]. nref (cell h c) > 0}" "g_walk g = {c \<in> set [0..<N]. cand h N (C c)}"
      "g_mark g = {}" "g_stack g = []" "g_emark g = {}" "g_estack g = []"
  proof -
    have "set [0..<N] \<subseteq> {..<N}" "set [0..<N] \<inter> g_walk gc_init = {}" by (auto simp: gc_init_def)
    from count_cells_ok [OF assms(1) i0 finite.emptyI distinct_upt this(1) assms(2) this(2) assms(3)]
    show thesis using that by (auto simp: gc_init_def)
  qed
  have "x \<in> Q" if "cand h N x" for x
    using that
  proof (induction rule: cand.induct)
    case (cand_cell c)
    then have "cand h N (C c)" by (rule cand.cand_cell)
    then show ?case using Q(2) f(2) cand_cell(1) by (simp add: count_inv_def)
  next
    case (cand_capt c v)
    have "V v \<in> set (refs h (C c))" using cand_capt(2) by (simp add: opt_env_def)
    then have "V v \<in> Q \<or> None = Some v" using Q(2) cand_capt(3) unfolding count_inv_def by blast
    then show ?case by simp
  next
    case (cand_root v u)
    have "V u \<in> set (refs h (V v))" using cand_root(2) by (simp add: opt_env_def)
    then have "V u \<in> Q \<or> None = Some u" using Q(2) cand_root(3) unfolding count_inv_def by blast
    then show ?case by simp
  qed
  moreover have "\<forall>x \<in> Q. cand h N x" using Q(2) unfolding count_inv_def by blast
  ultimately have "Q = cands h N" by (auto simp: cands_def)
  then show "count_inv h N (cands h N) None g" "finite (cands h N)" using Q by simp_all
  show "g_walk g = {c. cand h N (C c)}" using f(2) cand_CE by auto
  show "g_live g = {c. c < N \<and> nref (cell h c) > 0}" using f(1) by auto
  show "g_mark g = {}" "g_stack g = []" "g_emark g = {}" "g_estack g = []" using f by simp_all
qed


section \<open>What the marking phase computes\<close>

definition mk :: "gc_ctx \<Rightarrow> node set" where
  "mk g = C ` g_mark g \<union> V ` g_emark g"

definition stk :: "gc_ctx \<Rightarrow> node set" where
  "stk g = C ` set (g_stack g) \<union> V ` set (g_estack g)"

definition tables :: "gc_ctx \<Rightarrow> (nat \<Rightarrow> u32) \<times> nat set \<times> nat set \<times> gc_envnode list" where
  "tables g = (interns g, g_live g, g_walk g, g_envs g)"

definition tracked :: "gheap \<Rightarrow> nat \<Rightarrow> node set" where
  "tracked h N = C ` {c. c < N \<and> nref (cell h c) > 0} \<union> V ` {v. cand h N (V v)}"

definition tables_ok :: "gheap \<Rightarrow> nat \<Rightarrow> gc_ctx \<Rightarrow> bool" where
  "tables_ok h N g =
     (g_live g = {c. c < N \<and> nref (cell h c) > 0} \<and> g_walk g = {c. cand h N (C c)}
      \<and> (\<forall>v. env_known v g = cand h N (V v)) \<and> (\<forall>n \<in> set (g_envs g). ge_walk n))"

lemma tables_ok_cong: "tables g' = tables g \<Longrightarrow> tables_ok h N g' = tables_ok h N g"
  by (simp add: tables_def tables_ok_def env_known_def)

definition grows :: "gheap \<Rightarrow> nat \<Rightarrow> node set \<Rightarrow> gc_ctx \<Rightarrow> gc_ctx \<Rightarrow> bool" where
  "grows h N X g g' = (tables g' = tables g \<and> mk g' = mk g \<union> X \<and> stk g' = stk g \<union> ((X - mk g) \<inter> cands h N))"

lemma grows_refl: "X \<subseteq> mk g \<Longrightarrow> grows h N X g g"
  by (auto simp: grows_def)

lemma grows_trans: "grows h N X g g1 \<Longrightarrow> grows h N Y g1 g2 \<Longrightarrow> grows h N (X \<union> Y) g g2"
  by (auto simp: grows_def)

lemma grows_cong: "grows h N X g g' \<Longrightarrow> X = Y \<Longrightarrow> grows h N Y g g'"
  by simp

lemma mark_edge_grows:
  assumes "tables_ok h N g"
  shows "grows h N ({C c} \<inter> tracked h N) g (gc_mark_edge N c g)"
proof (cases "c \<ge> N \<or> c \<notin> g_live g")
  case True
  then have "{C c} \<inter> tracked h N = {}" using assms by (auto simp: tables_ok_def tracked_def)
  then show ?thesis using True by (auto simp: gc_mark_edge_def intro: grows_refl)
next
  case F: False
  have t: "{C c} \<inter> tracked h N = {C c}" using F assms by (auto simp: tables_ok_def tracked_def)
  show ?thesis
  proof (cases "c \<in> g_mark g")
    case True
    then show ?thesis unfolding t by (auto simp: gc_mark_edge_def mk_def intro!: grows_refl)
  next
    case False
    then show ?thesis using F assms unfolding t
      by (auto simp: gc_mark_edge_def grows_def tables_def mk_def stk_def cands_def tables_ok_def Let_def)
  qed
qed

lemma mark_env_grows:
  assumes "tables_ok h N g"
  shows "grows h N ({V v} \<inter> tracked h N) g (gc_mark_env v g)"
proof (cases "env_known v g")
  case False
  then have "{V v} \<inter> tracked h N = {}" using assms by (auto simp: tables_ok_def tracked_def)
  then show ?thesis using False by (auto simp: gc_mark_env_def intro: grows_refl)
next
  case T: True
  have t: "{V v} \<inter> tracked h N = {V v}" using T assms by (auto simp: tables_ok_def tracked_def)
  show ?thesis
  proof (cases "v \<in> g_emark g")
    case True
    then show ?thesis unfolding t by (auto simp: gc_mark_env_def mk_def intro!: grows_refl)
  next
    case False
    obtain n where "n \<in> set (g_envs g)" "v = ge_env n" using T by (auto simp: env_known_def)
    then have "env_walked v g" "cand h N (V v)" using T assms by (auto simp: tables_ok_def env_walked_def)
    then show ?thesis using T False unfolding t
      by (auto simp: gc_mark_env_def grows_def tables_def mk_def stk_def cands_def Let_def)
  qed
qed

lemma mark_edges_grows:
  "tables_ok h N g \<Longrightarrow> grows h N (C ` set cs \<inter> tracked h N) g (fold (gc_mark_edge N) cs g)"
proof (induction cs arbitrary: g)
  case (Cons c cs)
  have 1: "grows h N ({C c} \<inter> tracked h N) g (gc_mark_edge N c g)" by (rule mark_edge_grows [OF Cons.prems])
  have "tables_ok h N (gc_mark_edge N c g)" using Cons.prems 1 tables_ok_cong by (metis grows_def)
  from grows_trans [OF 1 Cons.IH [OF this]]
  have "grows h N (C ` set (c # cs) \<inter> tracked h N) g (fold (gc_mark_edge N) cs (gc_mark_edge N c g))"
    by (rule grows_cong) auto
  then show ?case by simp
qed (simp add: grows_refl)

lemma mark_opt_grows:
  "tables_ok h N g \<Longrightarrow> grows h N (set (opt_env v) \<inter> tracked h N) g (mark_opt v g)"
  using mark_env_grows [of h N g] by (auto simp: mark_opt_def opt_env_def grows_refl split: option.split)

lemma visit_grows:
  assumes "tables_ok h N g"
  shows "grows h N ((C ` set cs \<union> set (opt_env v)) \<inter> tracked h N) g (mark_opt v (fold (gc_mark_edge N) cs g))"
proof -
  have 1: "grows h N (C ` set cs \<inter> tracked h N) g (fold (gc_mark_edge N) cs g)" by (rule mark_edges_grows [OF assms])
  have "tables_ok h N (fold (gc_mark_edge N) cs g)" using assms 1 tables_ok_cong by (metis grows_def)
  from grows_trans [OF 1 mark_opt_grows [OF this]] show ?thesis by (rule grows_cong) blast
qed


lemma grows_tables: "grows h N X g g' \<Longrightarrow> tables_ok h N g \<Longrightarrow> tables_ok h N g'"
  using tables_ok_cong unfolding grows_def by blast

text \<open>Marked nodes that are not on a stack have all they refer to marked.\<close>

definition mark_inv :: "gheap \<Rightarrow> nat \<Rightarrow> node set \<Rightarrow> gc_ctx \<Rightarrow> bool" where
  "mark_inv h N R g =
     (tables_ok h N g \<and> mk g \<subseteq> R \<inter> tracked h N \<and> stk g \<subseteq> mk g \<inter> cands h N
      \<and> (\<forall>x \<in> mk g \<inter> cands h N - stk g. set (refs h x) \<inter> tracked h N \<subseteq> mk g))"

lemma mark_visit:
  assumes inv: "mark_inv h N R g" and x: "x \<in> stk g"
    and g1: "tables g1 = tables g" "mk g1 = mk g" "stk g \<subseteq> insert x (stk g1)" "stk g1 \<subseteq> stk g"
    and gr: "grows h N (set (refs h x) \<inter> tracked h N) g1 g'"
    and R: "set (refs h x) \<inter> tracked h N \<subseteq> R"
  shows "mark_inv h N R g' \<and> mk g \<subseteq> mk g'"
proof -
  have x': "x \<in> mk g \<inter> cands h N" using inv x unfolding mark_inv_def by blast
  have "set (refs h y) \<inter> tracked h N \<subseteq> mk g'" if y: "y \<in> mk g'" "y \<in> cands h N" "y \<notin> stk g'" for y
  proof (cases "y = x")
    case True
    then show ?thesis using gr by (auto simp: grows_def)
  next
    case False
    have "y \<in> mk g" using y gr g1(2) by (auto simp: grows_def)
    moreover have "y \<notin> stk g" using y False g1(3) gr by (auto simp: grows_def)
    ultimately have "set (refs h y) \<inter> tracked h N \<subseteq> mk g" using inv y(2) unfolding mark_inv_def by blast
    then show ?thesis using gr g1(2) by (auto simp: grows_def)
  qed
  moreover have "tables_ok h N g'"
    using inv gr g1(1) tables_ok_cong unfolding mark_inv_def grows_def by metis
  moreover have "mk g' \<subseteq> R \<inter> tracked h N" using inv gr g1(2) R by (auto simp: grows_def mark_inv_def)
  moreover have "stk g' \<subseteq> mk g' \<inter> cands h N" using inv gr g1(2,4) unfolding grows_def mark_inv_def by blast
  ultimately show ?thesis using gr g1(2) unfolding mark_inv_def grows_def by auto
qed

lemma mark_loop_ok:
  assumes "mark_inv h N R g" "graph_ok h" "N \<le> ncells h"
    and "\<forall>x \<in> R \<inter> cands h N. set (refs h x) \<inter> tracked h N \<subseteq> R"
  shows "mark_inv h N R (gc_mark_loop h N cells g) \<and> stk (gc_mark_loop h N cells g) = {} \<and> mk g \<subseteq> mk (gc_mark_loop h N cells g)"
  using assms
proof (induction h N cells g rule: gc_mark_loop.induct)
  case (1 h N cells g)
  note prems = 1(5-8)
  have inR: "set (refs h x) \<inter> tracked h N \<subseteq> R" if "x \<in> stk g" for x
    using prems(1,4) that unfolding mark_inv_def by blast
  show ?case
  proof (cases cells)
    case cells: True
    show ?thesis
    proof (cases "g_stack g")
      case Nil
      have e: "gc_mark_loop h N cells g = gc_mark_loop h N False g" using cells Nil by (subst gc_mark_loop.simps) simp
      show ?thesis unfolding e using 1(1) [OF cells Nil prems] .
    next
      case (Cons p st)
      let ?g1 = "g\<lparr>g_stack := st\<rparr>"
      let ?g' = "mark_opt (gc_captured_env h p) (fold (gc_mark_edge N) (gc_visit_edges (cell h p)) ?g1)"
      have e: "gc_mark_loop h N cells g = gc_mark_loop h N True ?g'" using cells Cons by (subst gc_mark_loop.simps) simp
      have p: "C p \<in> stk g" using Cons by (simp add: stk_def)
      have cp: "cand h N (C p)" using prems(1) p by (auto simp: mark_inv_def cands_def)
      have vis: "gc_visit_edges (cell h p) = cell_refs h p"
        by (rule cand_visit [OF cp prems(2,3)])
      have t1: "tables_ok h N ?g1" using prems(1) by (auto simp: mark_inv_def tables_ok_def env_known_def)
      have gr: "grows h N (set (refs h (C p)) \<inter> tracked h N) ?g1 ?g'"
        using visit_grows [OF t1, of "cell_refs h p" "captured h p"] by (simp add: vis gc_captured_env_def del: cell_refs.simps)
      have s1: "tables ?g1 = tables g" "mk ?g1 = mk g" "stk g \<subseteq> insert (C p) (stk ?g1)" "stk ?g1 \<subseteq> stk g"
        using Cons by (auto simp: tables_def mk_def stk_def)
      note v = mark_visit [OF prems(1) p s1 gr inR [OF p]]
      note f = 1(2) [OF cells Cons conjunct1 [OF v] prems(2-4)]
      show ?thesis
        unfolding e by (intro conjI f [THEN conjunct1] f [THEN conjunct2, THEN conjunct1] subset_trans [OF conjunct2 [OF v] f [THEN conjunct2, THEN conjunct2]])
    qed
  next
    case cells: False
    show ?thesis
    proof (cases "g_estack g")
      case Nil
      show ?thesis
      proof (cases "g_stack g = []")
        case True
        have e: "gc_mark_loop h N cells g = g" using cells Nil True by (subst gc_mark_loop.simps) simp
        show ?thesis unfolding e using prems(1) True Nil by (simp add: stk_def)
      next
        case False
        have e: "gc_mark_loop h N cells g = gc_mark_loop h N True g" using cells Nil False by (subst gc_mark_loop.simps) simp
        show ?thesis unfolding e using 1(3) [OF cells Nil False prems] .
      qed
    next
      case (Cons p st)
      let ?g1 = "g\<lparr>g_estack := st\<rparr>"
      let ?g' = "mark_opt (eroot (genv h p)) (fold (gc_mark_edge N) (gc_visit_env_edges (genv h p)) ?g1)"
      have e: "gc_mark_loop h N cells g = gc_mark_loop h N False ?g'" using cells Cons by (subst gc_mark_loop.simps) simp
      have p: "V p \<in> stk g" using Cons by (simp add: stk_def)
      have t1: "tables_ok h N ?g1" using prems(1) by (auto simp: mark_inv_def tables_ok_def env_known_def)
      have gr: "grows h N (set (refs h (V p)) \<inter> tracked h N) ?g1 ?g'"
        using visit_grows [OF t1, of "env_refs (genv h p)" "eroot (genv h p)"] by (simp add: visit_env_refs del: env_refs.simps)
      have s1: "tables ?g1 = tables g" "mk ?g1 = mk g" "stk g \<subseteq> insert (V p) (stk ?g1)" "stk ?g1 \<subseteq> stk g"
        using Cons by (auto simp: tables_def mk_def stk_def)
      note v = mark_visit [OF prems(1) p s1 gr inR [OF p]]
      note f = 1(4) [OF cells Cons conjunct1 [OF v] prems(2-4)]
      show ?thesis
        unfolding e by (intro conjI f [THEN conjunct1] f [THEN conjunct2, THEN conjunct1] subset_trans [OF conjunct2 [OF v] f [THEN conjunct2, THEN conjunct2]])
    qed
  qed
qed


text \<open>The roots: what is live but not walked, and what has more references than were counted.\<close>

definition seeds :: "gheap \<Rightarrow> nat \<Rightarrow> node set" where
  "seeds h N = {x \<in> tracked h N. \<not> cand h N x \<or> cnt h x > int (icount h (cands h N) x)}"

definition count_bound :: "gheap \<Rightarrow> bool" where
  "count_bound h = (\<forall>x \<in> nodes h. cnt h x < 2 ^ 31)"

lemma of_int_gt_of_nat:
  assumes "0 \<le> a" "a < 2 ^ 31" "int n \<le> a"
  shows "((of_int a :: u32) > of_nat n) = (a > int n)"
proof -
  have "uint (of_int a :: u32) = a" using assms by (simp add: word_of_int_inverse uint_word_of_int take_bit_int_eq_self)
  moreover have "uint (of_nat n :: u32) = int n"
  proof -
    have "int n < 2147483648" using assms by simp
    then have "n < 2 ^ 32" by simp
    then show ?thesis by (simp add: unsigned_of_nat take_bit_nat_eq_self)
  qed
  ultimately show ?thesis by (simp add: word_less_def)
qed

lemma icount_le: "finite Q \<Longrightarrow> Q \<subseteq> nodes h \<Longrightarrow> icount h Q x \<le> in_refs {} h x"
  unfolding icount_def in_refs_def by (intro sum_mono2) auto

lemma cands_nodes: "cand h N x \<Longrightarrow> graph_ok h \<Longrightarrow> N \<le> ncells h \<Longrightarrow> x \<in> nodes h"
proof (induction rule: cand.induct)
  case (cand_capt c v)
  have "c < ncells h" using cand_capt.IH [OF cand_capt.prems] by simp
  then show ?case using graph_okD(2) [OF cand_capt.prems(1) _ cand_capt.hyps(2)] by simp
next
  case (cand_root v u)
  have "v < nenvs h" using cand_root.IH [OF cand_root.prems] by simp
  then show ?case using graph_okD(1) [OF cand_root.prems(1) _ cand_root.hyps(2)] by simp
qed simp

lemma cand_not_immortal: "cand h N x \<Longrightarrow> x \<notin> immortal h"
  by (erule cand.cases) auto

lemma icount_le_cnt:
  assumes "exact {} ext [] h" "graph_ok h" "N \<le> ncells h" "cand h N x"
  shows "int (icount h (cands h N) x) \<le> cnt h x" "0 \<le> cnt h x"
proof -
  have x: "x \<in> nodes h" "x \<notin> immortal h" using cands_nodes [OF assms(4,2,3)] cand_not_immortal [OF assms(4)] by auto
  have sub: "cands h N \<subseteq> nodes h" using cands_nodes [OF _ assms(2,3)] by (auto simp: cands_def)
  have "icount h (cands h N) x \<le> in_refs {} h x" by (rule icount_le [OF finite_subset [OF sub] sub]) simp
  moreover have "cnt h x = int (in_refs {} h x + ext x)" using exactD(1) [OF assms(1) x(1) _ x(2)] by simp
  ultimately show "int (icount h (cands h N) x) \<le> cnt h x" "0 \<le> cnt h x" by simp_all
qed

lemma root_test:
  assumes "exact {} ext [] h" "graph_ok h" "N \<le> ncells h" "count_bound h" "cand h N x"
  shows "((of_int (cnt h x) :: u32) > of_nat (icount h (cands h N) x)) = (cnt h x > int (icount h (cands h N) x))"
proof (rule of_int_gt_of_nat)
  show "cnt h x < 2 ^ 31" using assms(4) cands_nodes [OF assms(5,2,3)] by (auto simp: count_bound_def)
qed (use icount_le_cnt [OF assms(1-3,5)] in auto)

lemma seed_cells_grows:
  assumes "tables_ok h N g" "set cs \<subseteq> {..<N}"
    and "\<forall>c \<in> set cs. cand h N (C c) \<longrightarrow> ((of_int (nref (cell h c)) :: u32) > interns g c) = (nref (cell h c) > int (icount h (cands h N) (C c)))"
  shows "grows h N (C ` set cs \<inter> seeds h N) g (gc_seed_cells h cs g)"
  using assms
proof (induction cs arbitrary: g)
  case (Cons c cs)
  let ?g = "if c \<notin> g_live g \<or> c \<in> g_mark g then g
        else if c \<in> set (singletons h) \<or> c \<notin> g_walk g \<or> (of_int (nref (cell h c)) :: u32) > interns g c
        then (let g1 = g\<lparr>g_mark := insert c (g_mark g)\<rparr> in
              if c \<in> g_walk g then g1\<lparr>g_stack := c # g_stack g\<rparr> else g1)
        else g"
  have ok: "g_live g = {c. c < N \<and> nref (cell h c) > 0}" "g_walk g = {c. cand h N (C c)}"
    using Cons.prems(1) by (simp_all add: tables_ok_def)
  have seed: "C c \<in> seeds h N \<longleftrightarrow> c \<in> g_live g \<and> (c \<in> set (singletons h) \<or> c \<notin> g_walk g \<or> (of_int (nref (cell h c)) :: u32) > interns g c)"
    using Cons.prems(2,3) ok cand_not_immortal [of h N "C c"] by (auto simp: seeds_def tracked_def)
  have 1: "grows h N ({C c} \<inter> seeds h N) g ?g"
  proof (cases "C c \<in> seeds h N")
    case True
    then show ?thesis using seed ok
      by (auto simp: grows_def tables_def mk_def stk_def cands_def Let_def)
  next
    case False
    then have "?g = g" using seed by auto
    then show ?thesis using False by (simp only:) (rule grows_refl, simp)
  qed
  have t: "tables_ok h N ?g" by (rule grows_tables [OF 1 Cons.prems(1)])
  have i: "interns ?g = interns g" by (simp add: Let_def)
  have "grows h N (C ` set cs \<inter> seeds h N) ?g (gc_seed_cells h cs ?g)"
    by (rule Cons.IH [OF t]) (use Cons.prems i in auto)
  from grows_trans [OF 1 this]
  have "grows h N (C ` set (c # cs) \<inter> seeds h N) g (gc_seed_cells h cs ?g)" by (rule grows_cong) auto
  then show ?case by simp
qed (simp add: grows_refl)

lemma seed_envs_grows:
  assumes "tables_ok h N g" "\<forall>n \<in> set ns. cand h N (V (ge_env n))"
    and "\<forall>n \<in> set ns. ((of_int (eref (genv h (ge_env n))) :: u32) > ge_interns n) = (eref (genv h (ge_env n)) > int (icount h (cands h N) (V (ge_env n))))"
  shows "grows h N (V ` ge_env ` set ns \<inter> seeds h N) g (gc_seed_envs h ns g)"
  using assms
proof (induction ns arbitrary: g)
  case (Cons n ns)
  let ?v = "ge_env n"
  let ?g = "if ?v \<notin> g_emark g \<and> (of_int (eref (genv h ?v)) :: u32) > ge_interns n then gc_mark_env ?v g else g"
  have seed: "V ?v \<in> seeds h N \<longleftrightarrow> (of_int (eref (genv h ?v)) :: u32) > ge_interns n" and tr: "V ?v \<in> tracked h N"
    using Cons.prems(2,3) by (auto simp: seeds_def tracked_def)
  have 1: "grows h N ({V ?v} \<inter> seeds h N) g ?g"
  proof (cases "V ?v \<in> seeds h N \<and> ?v \<notin> g_emark g")
    case True
    have "grows h N ({V ?v} \<inter> tracked h N) g (gc_mark_env ?v g)" by (rule mark_env_grows [OF Cons.prems(1)])
    then have "grows h N ({V ?v} \<inter> seeds h N) g (gc_mark_env ?v g)" by (rule grows_cong) (use True tr in auto)
    then show ?thesis using True seed by simp
  next
    case False
    then have "?g = g" using seed by auto
    then show ?thesis using False by (simp only:) (rule grows_refl, auto simp: mk_def)
  qed
  have t: "tables_ok h N ?g" by (rule grows_tables [OF 1 Cons.prems(1)])
  have "grows h N (V ` ge_env ` set ns \<inter> seeds h N) ?g (gc_seed_envs h ns ?g)"
    by (rule Cons.IH [OF t]) (use Cons.prems in auto)
  from grows_trans [OF 1 this]
  have "grows h N (V ` ge_env ` set (n # ns) \<inter> seeds h N) g (gc_seed_envs h ns ?g)" by (rule grows_cong) auto
  then show ?case by simp
qed (simp add: grows_refl)


lemma tables_mark [simp]: "tables (gc_mark_edge N c g) = tables g" "tables (gc_mark_env v g) = tables g"
  "tables (mark_opt u g) = tables g"
  by (auto simp: gc_mark_edge_def gc_mark_env_def mark_opt_def tables_def Let_def split: option.split)

lemma tables_mark_edges [simp]: "tables (fold (gc_mark_edge N) cs g) = tables g"
  by (induction cs arbitrary: g) auto

lemma tables_pop [simp]: "tables (g\<lparr>g_stack := st\<rparr>) = tables g" "tables (g\<lparr>g_estack := st\<rparr>) = tables g"
  by (simp_all add: tables_def)

lemma tables_mark_loop: "tables (gc_mark_loop h N cells g) = tables g"
proof (induction h N cells g rule: gc_mark_loop.induct)
  case (1 h N cells g)
  then show ?case by (subst gc_mark_loop.simps) (auto split: list.splits)
qed

lemma find_unique: "distinct (map f xs) \<Longrightarrow> n \<in> set xs \<Longrightarrow> find (\<lambda>m. f m = f n) xs = Some n"
proof (induction xs)
  case (Cons a xs)
  then show ?case by (cases "f a = f n") (auto simp: rev_image_eqI)
qed simp

lemma marked_ok:
  assumes ph: "gc_count_cells h N grow [0..<N] gc_init = Some g"
    and ex: "exact {} ext [] h" and ok: "graph_ok h" and N: "N \<le> ncells h" and bd: "count_bound h"
  defines "g2 \<equiv> gc_marked h N g"
  shows "tables g2 = tables g" "seeds h N \<subseteq> mk g2" "mk g2 \<subseteq> tracked h N"
    "x \<in> mk g2 \<Longrightarrow> cand h N x \<Longrightarrow> set (refs h x) \<inter> tracked h N \<subseteq> mk g2"
    "seeds h N \<subseteq> R \<Longrightarrow> \<forall>x \<in> R \<inter> cands h N. set (refs h x) \<inter> tracked h N \<subseteq> R \<Longrightarrow> mk g2 \<subseteq> R"
proof -
  note cp = count_phase [OF ph N ok]
  have e: "interns g c = of_nat (icount h (cands h N) (C c))" if "c < N" for c
    using cp(1) that by (simp add: count_inv_def)
  have k: "kint g v = of_nat (icount h (cands h N) (V v))" for v using cp(1) by (simp add: count_inv_def)
  have known: "env_known v g = cand h N (V v)" for v
  proof -
    have "env_known v g = (V v \<in> cands h N)" using cp(1) unfolding count_inv_def by blast
    then show ?thesis by (simp add: cands_def)
  qed
  have walked: "\<forall>n \<in> set (g_envs g). ge_walk n" and dist: "distinct (map ge_env (g_envs g))"
    using cp(1) unfolding count_inv_def by blast+
  have t0: "tables_ok h N g" using cp(3,4) known walked by (simp add: tables_ok_def)
  define g1 where "g1 = gc_seed_cells h [0..<N] g"
  have s1: "grows h N (C ` set [0..<N] \<inter> seeds h N) g g1"
    unfolding g1_def
  proof (rule seed_cells_grows [OF t0])
    show "\<forall>c \<in> set [0..<N]. cand h N (C c) \<longrightarrow> ((of_int (nref (cell h c)) :: u32) > interns g c)
        = (nref (cell h c) > int (icount h (cands h N) (C c)))"
    proof (intro ballI impI)
      fix c assume "c \<in> set [0..<N]" "cand h N (C c)"
      then show "((of_int (nref (cell h c)) :: u32) > interns g c) = (nref (cell h c) > int (icount h (cands h N) (C c)))"
        using root_test [OF ex ok N bd, of "C c"] e [of c] by simp
    qed
  qed auto
  have t1: "tables_ok h N g1" by (rule grows_tables [OF s1 t0])
  have envs1: "g_envs g1 = g_envs g" using s1 by (simp add: grows_def tables_def)
  define gs where "gs = gc_seed_envs h (g_envs g1) g1"
  have kn: "ge_interns n = kint g (ge_env n)" if "n \<in> set (g_envs g)" for n
  proof -
    have "find (\<lambda>m. ge_env m = ge_env n) (g_envs g) = Some n"
      by (rule find_unique [OF dist that])
    then show ?thesis by (simp add: kint_def)
  qed
  have s2: "grows h N (V ` ge_env ` set (g_envs g1) \<inter> seeds h N) g1 gs"
    unfolding gs_def
  proof (rule seed_envs_grows [OF t1])
    have c: "cand h N (V (ge_env n))" if "n \<in> set (g_envs g1)" for n
      using that known [of "ge_env n"] envs1 by (simp add: env_known_def)
    then show "\<forall>n \<in> set (g_envs g1). cand h N (V (ge_env n))" by blast
    show "\<forall>n \<in> set (g_envs g1). ((of_int (eref (genv h (ge_env n))) :: u32) > ge_interns n)
        = (eref (genv h (ge_env n)) > int (icount h (cands h N) (V (ge_env n))))"
    proof
      fix n assume n: "n \<in> set (g_envs g1)"
      show "((of_int (eref (genv h (ge_env n))) :: u32) > ge_interns n) = (eref (genv h (ge_env n)) > int (icount h (cands h N) (V (ge_env n))))"
        using root_test [OF ex ok N bd c [OF n]] kn [of n] k [of "ge_env n"] n envs1 by simp
    qed
  qed
  have s: "grows h N (seeds h N) g gs"
  proof (rule grows_cong [OF grows_trans [OF s1 s2]])
    have "V v \<in> V ` ge_env ` set (g_envs g1)" if "cand h N (V v)" for v
      using that known [of v] envs1 by (auto simp: env_known_def)
    then show "C ` set [0..<N] \<inter> seeds h N \<union> V ` ge_env ` set (g_envs g1) \<inter> seeds h N = seeds h N"
      by (auto simp: seeds_def tracked_def)
  qed
  have mk0: "mk g = {}" "stk g = {}" using cp(5-8) by (simp_all add: mk_def stk_def)
  have tr: "seeds h N \<subseteq> tracked h N" by (auto simp: seeds_def)
  have inv: "mark_inv h N R gs" if "seeds h N \<subseteq> R" for R
    using s mk0 that tr grows_tables [OF s t0] unfolding mark_inv_def grows_def by auto
  have g2: "g2 = gc_mark_loop h N True gs" by (simp add: g2_def gc_marked_def g1_def gs_def Let_def)
  have U: "mark_inv h N UNIV g2 \<and> stk g2 = {} \<and> mk gs \<subseteq> mk g2"
    unfolding g2 by (rule mark_loop_ok [OF inv ok N]) auto
  show "tables g2 = tables g" unfolding g2 tables_mark_loop using s by (simp add: grows_def)
  show "seeds h N \<subseteq> mk g2" using U s by (auto simp: grows_def)
  show "mk g2 \<subseteq> tracked h N" using U unfolding mark_inv_def by blast
  show "set (refs h x) \<inter> tracked h N \<subseteq> mk g2" if "x \<in> mk g2" "cand h N x"
    using U that unfolding mark_inv_def cands_def by blast
  show "mk g2 \<subseteq> R" if R: "seeds h N \<subseteq> R" "\<forall>x \<in> R \<inter> cands h N. set (refs h x) \<inter> tracked h N \<subseteq> R"
  proof -
    have "mark_inv h N R g2" unfolding g2 using mark_loop_ok [OF inv [OF R(1)] ok N R(2)] by blast
    then show ?thesis unfolding mark_inv_def by blast
  qed
qed


section \<open>Garbage\<close>

text \<open>
  What a collection keeps: whatever is referenced from outside, whatever is live and not
  walked, and what these reach.
\<close>

inductive kept :: "gheap \<Rightarrow> nat \<Rightarrow> (node \<Rightarrow> nat) \<Rightarrow> node \<Rightarrow> bool" for h N ext where
  kept_ext: "x \<in> nodes h \<Longrightarrow> ext x > 0 \<Longrightarrow> kept h N ext x"
| kept_out: "x \<in> nodes h \<Longrightarrow> cnt h x > 0 \<Longrightarrow> \<not> cand h N x \<Longrightarrow> kept h N ext x"
| kept_ref: "kept h N ext x \<Longrightarrow> y \<in> set (refs h x) \<Longrightarrow> kept h N ext y"

lemma cand_tracked: "cand h N x \<Longrightarrow> x \<in> tracked h N"
  by (cases x) (auto simp: tracked_def elim: cand_CE)

lemma sum_gt_pos:
  fixes f :: "'a \<Rightarrow> nat"
  assumes "finite B" "A \<subseteq> B" "y \<in> B - A" "f y > 0"
  shows "sum f A < sum f B"
proof -
  have "sum f (insert y A) \<le> sum f B" using assms by (intro sum_mono2) auto
  then show ?thesis using assms finite_subset [OF assms(2,1)] by simp
qed

lemma kept_nodes: "kept h N ext x \<Longrightarrow> graph_ok h \<Longrightarrow> x \<in> nodes h"
proof (induction rule: kept.induct)
  case (kept_ref x y)
  show ?case using graph_okD(4) [OF kept_ref.prems kept_ref.IH [OF kept_ref.prems]] kept_ref.hyps(2) by blast
qed simp_all

lemma seed_of:
  assumes ex: "exact {} ext [] h" and ok: "graph_ok h" and N: "N \<le> ncells h" and x: "cand h N x"
    and w: "ext x > 0 \<or> (\<exists>y \<in> nodes h. \<not> cand h N y \<and> x \<in> set (refs h y))"
  shows "x \<in> seeds h N"
proof -
  have n: "x \<in> nodes h" "x \<notin> immortal h" using cands_nodes [OF x ok N] cand_not_immortal [OF x] by auto
  have sub: "cands h N \<subseteq> nodes h" using cands_nodes [OF _ ok N] by (auto simp: cands_def)
  have c: "cnt h x = int (in_refs {} h x + ext x)" using exactD(1) [OF ex n(1) _ n(2)] by simp
  have le: "icount h (cands h N) x \<le> in_refs {} h x" by (rule icount_le [OF finite_subset [OF sub] sub]) simp
  have lt: "icount h (cands h N) x < in_refs {} h x" if y: "y \<in> nodes h" "\<not> cand h N y" "x \<in> set (refs h y)" for y
    unfolding icount_def in_refs_def Diff_empty
    by (rule sum_gt_pos [of _ _ y]) (use sub y count_ge1 [OF y(3)] in \<open>auto simp: cands_def\<close>)
  have "icount h (cands h N) x < in_refs {} h x + ext x"
  proof (cases "ext x > 0")
    case False
    then show ?thesis using w lt by auto
  qed (use le in simp)
  then have "cnt h x > int (icount h (cands h N) x)" unfolding c by linarith
  then show ?thesis using cand_tracked [OF x] by (simp add: seeds_def)
qed

lemma owner_kept:
  assumes ex: "exact {} ext [] h" and y: "y \<in> nodes h" "\<not> cand h N y" "x \<in> set (refs h y)"
  shows "kept h N ext y"
proof -
  have "y \<notin> immortal h" using exactD(6) [OF ex, of y] y(3) by auto
  moreover have "cnt h y \<noteq> 0" using exactD(3) [OF ex y(1)] y(3) by auto
  ultimately have "cnt h y > 0" using exactD(1) [OF ex y(1)] by auto
  then show ?thesis using y by (auto intro: kept_out)
qed

lemma seed_kept:
  assumes ex: "exact {} ext [] h" and ok: "graph_ok h" and N: "N \<le> ncells h" and x: "x \<in> seeds h N"
  shows "kept h N ext x"
proof (cases "cand h N x")
  case False
  then obtain c where c: "x = C c" "c < N" "nref (cell h c) > 0" using x by (auto simp: seeds_def tracked_def)
  show ?thesis by (rule kept_out) (use c N False in auto)
next
  case True
  have n: "x \<in> nodes h" "x \<notin> immortal h" using cands_nodes [OF True ok N] cand_not_immortal [OF True] by auto
  have sub: "cands h N \<subseteq> nodes h" using cands_nodes [OF _ ok N] by (auto simp: cands_def)
  have c: "cnt h x = int (in_refs {} h x + ext x)" using exactD(1) [OF ex n(1) _ n(2)] by simp
  have gt: "cnt h x > int (icount h (cands h N) x)" using x True by (simp add: seeds_def)
  show ?thesis
  proof (cases "ext x > 0")
    case False
    have "\<exists>y \<in> nodes h - cands h N. x \<in> set (refs h y)"
    proof (rule ccontr)
      assume "\<not> (\<exists>y \<in> nodes h - cands h N. x \<in> set (refs h y))"
      then have "\<forall>y \<in> nodes h - cands h N. count_list (refs h y) x = 0" by (simp add: count_list_0_iff)
      then have "icount h (cands h N) x = in_refs {} h x"
        unfolding icount_def in_refs_def using sub by (intro sum.mono_neutral_left) auto
      then show False using gt c False by simp
    qed
    then obtain y where y: "y \<in> nodes h" "\<not> cand h N y" "x \<in> set (refs h y)" by (auto simp: cands_def)
    show ?thesis by (rule kept_ref [OF owner_kept [OF ex y] y(3)])
  qed (use n in \<open>auto intro: kept_ext\<close>)
qed

lemma marked_kept:
  assumes ph: "gc_count_cells h N grow [0..<N] gc_init = Some g"
    and ex: "exact {} ext [] h" and ok: "graph_ok h" and N: "N \<le> ncells h" and bd: "count_bound h" and x: "cand h N x"
  shows "x \<in> mk (gc_marked h N g) \<longleftrightarrow> kept h N ext x"
proof
  note m = marked_ok [OF ph ex ok N bd]
  assume "x \<in> mk (gc_marked h N g)"
  moreover have "mk (gc_marked h N g) \<subseteq> {x. kept h N ext x}"
    by (rule m(5)) (use seed_kept [OF ex ok N] kept_ref in blast)+
  ultimately show "kept h N ext x" by blast
next
  note m = marked_ok [OF ph ex ok N bd]
  assume "kept h N ext x"
  then have "cand h N x \<longrightarrow> x \<in> mk (gc_marked h N g)"
  proof (induction rule: kept.induct)
    case (kept_ext x)
    then show ?case using seed_of [OF ex ok N, of x] m(2) by blast
  next
    case (kept_ref x y)
    show ?case
    proof
      assume y: "cand h N y"
      show "y \<in> mk (gc_marked h N g)"
      proof (cases "cand h N x")
        case True
        then show ?thesis using m(4) [of x] kept_ref cand_tracked [OF y] by blast
      next
        case False
        have "x \<in> nodes h" by (rule kept_nodes [OF kept_ref.hyps(1) ok])
        then show ?thesis using seed_of [OF ex ok N y] False kept_ref.hyps(2) m(2) by blast
      qed
    qed
  qed simp
  then show "x \<in> mk (gc_marked h N g)" using x by blast
qed

definition garbage :: "gheap \<Rightarrow> nat \<Rightarrow> (node \<Rightarrow> nat) \<Rightarrow> node set" where
  "garbage h N ext = {x. cand h N x \<and> \<not> kept h N ext x}"

lemma garbage_closed:
  assumes ex: "exact {} ext [] h" and y: "y \<in> nodes h" "y \<notin> garbage h N ext" "x \<in> set (refs h y)"
  shows "x \<notin> garbage h N ext"
proof -
  have "kept h N ext y" using owner_kept [OF ex y(1)] y(2,3) unfolding garbage_def by blast
  then show ?thesis using kept_ref [OF _ y(3)] unfolding garbage_def by blast
qed


section \<open>The sweep, phase by phase\<close>

text \<open>Each phase releases some references of a dead node and then may alter that node.\<close>

fun sweep_phase :: "(gheap \<Rightarrow> nat \<Rightarrow> work list) \<Rightarrow> (gheap \<Rightarrow> nat \<Rightarrow> gheap \<Rightarrow> gheap) \<Rightarrow> nat list \<Rightarrow> gheap \<Rightarrow> gheap option" where
  "sweep_phase wk md [] h = Some h"
| "sweep_phase wk md (c # cs) h =
     (case release (wk h c) h of None \<Rightarrow> None | Some h1 \<Rightarrow> sweep_phase wk md cs (md h c h1))"

definition capture_work :: "nat list \<Rightarrow> gheap \<Rightarrow> nat \<Rightarrow> work list" where
  "capture_work deadE h c = (case captured h c of None \<Rightarrow> [] | Some v \<Rightarrow> if v \<in> set deadE then [] else [Drop_env (Some v)])"

definition root_work :: "nat list \<Rightarrow> gheap \<Rightarrow> nat \<Rightarrow> work list" where
  "root_work deadE h v = (case eroot (genv h v) of None \<Rightarrow> [] | Some r \<Rightarrow> if r \<in> set deadE then [] else [Drop_env (Some r)])"

definition sever_captured :: "gheap \<Rightarrow> nat \<Rightarrow> gheap \<Rightarrow> gheap" where
  "sever_captured h c h1 = (if captured h c = None then h1 else sever c h1)"

lemma release_cells_phase: "gc_release_cells dead cs h = sweep_phase (\<lambda>h c. release_edges dead (gc_visit_edges (cell h c))) (\<lambda>_ _ h. h) cs h"
  by (induction cs arbitrary: h) (auto split: option.split)

lemma release_envs_phase: "gc_release_envs dead vs h = sweep_phase (\<lambda>h v. release_edges dead (gc_visit_env_edges (genv h v))) (\<lambda>_ _ h. h) vs h"
  by (induction vs arbitrary: h) (auto split: option.split)

lemma release_captures_phase: "gc_release_captures deadE cs h = sweep_phase (capture_work deadE) sever_captured cs h"
proof (induction cs arbitrary: h)
  case (Cons c cs)
  show ?case
  proof (cases "captured h c")
    case None
    then show ?thesis using Cons by (simp add: gc_captured_env_def capture_work_def sever_captured_def)
  next
    case (Some v)
    then show ?thesis using Cons by (auto simp: gc_captured_env_def capture_work_def sever_captured_def destroy_env_def split: option.split)
  qed
qed simp

lemma free_envs_phase: "gc_free_envs deadE vs h = sweep_phase (root_work deadE) (\<lambda>_ v. upd_env v (\<lambda>_. blank_env)) vs h"
proof (induction vs arbitrary: h)
  case (Cons v vs)
  show ?case
  proof (cases "eroot (genv h v)")
    case None
    then show ?thesis using Cons by (simp add: root_work_def)
  next
    case (Some r)
    then show ?thesis using Cons by (auto simp: root_work_def destroy_env_def split: option.split)
  qed
qed simp

lemma exact_shift:
  "exact D ext (us @ ws) h \<longleftrightarrow> exact D (\<lambda>x. ext x + count_list (pend ws) x) us h \<and> set (pend ws) \<subseteq> nodes h - D"
  unfolding exact_def by (auto simp: algebra_simps)

lemma exact_cong_out:
  assumes "exact D ext ws h" "nodes h' = nodes h" "immortal h' = immortal h" "lone_wrappers h'"
    and "\<And>x. x \<in> nodes h \<Longrightarrow> x \<notin> D \<Longrightarrow> cnt h' x = cnt h x \<and> refs h' x = refs h x"
  shows "exact D ext ws h'"
proof -
  have "in_refs D h' x = in_refs D h x" for x by (rule in_refs_cong) (use assms(2,5) in auto)
  moreover have "refs h' x = []" if "x \<in> immortal h" for x
    using exactD(5) [OF assms(1)] exactD(6) [OF assms(1) that] assms(5) [of x] that by auto
  ultimately show ?thesis using assms unfolding exact_def by auto
qed

definition outer :: "node set \<Rightarrow> gheap \<Rightarrow> gheap \<Rightarrow> bool" where
  "outer D h h' = (ncells h' = ncells h \<and> nenvs h' = nenvs h \<and> singletons h' = singletons h
     \<and> (\<forall>x \<in> nodes h - D. cnt h' x > 0 \<longrightarrow> cnt h x > 0 \<and> same_node h h' x \<and> refs h' x = refs h x))"

definition frozen :: "node set \<Rightarrow> gheap \<Rightarrow> gheap \<Rightarrow> bool" where
  "frozen S h h' = (\<forall>x \<in> S. cnt h' x = cnt h x \<and> same_node h h' x \<and> refs h' x = refs h x)"

lemma outer_nodes: "outer D h h' \<Longrightarrow> nodes h' = nodes h \<and> immortal h' = immortal h"
  by (simp add: outer_def nodes_def immortal_def)

lemma outer_trans: "outer D h h1 \<Longrightarrow> outer D h1 h2 \<Longrightarrow> outer D h h2"
  using outer_nodes [of D h h1] same_node_trans unfolding outer_def by (metis (no_types, lifting))

lemma frozen_trans: "frozen S h h1 \<Longrightarrow> frozen S h1 h2 \<Longrightarrow> frozen S h h2"
  using same_node_trans unfolding frozen_def by metis

lemma frozen_refl [simp]: "frozen S h h"
  by (simp add: frozen_def)

lemma framed_outer: "framed D h [] h' \<Longrightarrow> outer D h h' \<and> frozen (D \<inter> nodes h) h h'"
  unfolding framed_def outer_def frozen_def by auto

text \<open>
  What a phase may do to the node it has processed: change nothing outside \<open>D\<close>, nothing in
  \<open>S\<close>, and none of the work of the other nodes of the phase.
\<close>

definition mild :: "node set \<Rightarrow> node set \<Rightarrow> (gheap \<Rightarrow> nat \<Rightarrow> work list) \<Rightarrow> nat set \<Rightarrow> nat \<Rightarrow> gheap \<Rightarrow> gheap \<Rightarrow> bool" where
  "mild D S wk A c h h' =
     (ncells h' = ncells h \<and> nenvs h' = nenvs h \<and> singletons h' = singletons h \<and> lone_wrappers h'
      \<and> (\<forall>x \<in> nodes h - D. cnt h' x = cnt h x \<and> same_node h h' x \<and> refs h' x = refs h x)
      \<and> frozen S h h' \<and> (\<forall>c' \<in> A. c' \<noteq> c \<longrightarrow> wk h' c' = wk h c'))"

lemma phase_ok:
  assumes "distinct cs" "exact D ext (concat (map (wk h) cs) @ ws) h" "D \<subseteq> nodes h" "S \<subseteq> D" "set cs \<subseteq> A"
    and dep: "\<And>c h h'. c \<in> A \<Longrightarrow> nodes h = M \<Longrightarrow> frozen D h h' \<Longrightarrow> wk h' c = wk h c"
    and md: "\<And>c h h1. c \<in> A \<Longrightarrow> nodes h1 = M \<Longrightarrow> nodes h = M \<Longrightarrow> frozen D h h1 \<Longrightarrow> lone_wrappers h1 \<Longrightarrow> mild D S wk A c h1 (md h c h1)"
    and M: "M = nodes h"
    and Q: "\<And>c h h1. c \<in> A \<Longrightarrow> Q c (md h c h1)" "\<And>c h h'. c \<in> A \<Longrightarrow> Q c h \<Longrightarrow> frozen D h h' \<Longrightarrow> Q c h'"
      "\<And>c c' h h1. c \<in> A \<Longrightarrow> Q c h1 \<Longrightarrow> c' \<noteq> c \<Longrightarrow> Q c (md h c' h1)"
    and P: "P \<subseteq> A" "P \<inter> set cs = {}" "\<forall>c \<in> P. Q c h"
  shows "\<exists>h'. sweep_phase wk md cs h = Some h' \<and> exact D ext ws h' \<and> outer D h h' \<and> frozen S h h' \<and> (\<forall>c \<in> P \<union> set cs. Q c h')"
  using assms(1-5) M P
proof (induction cs arbitrary: h P)
  case Nil
  then show ?case by (auto simp: outer_def)
next
  case (Cons c cs)
  have cA: "c \<in> A" "set cs \<subseteq> A" using Cons.prems(5) by auto
  define rest where "rest = concat (map (wk h) cs) @ ws"
  have ex0: "exact D ext (wk h c @ rest) h" using Cons.prems(2) by (simp add: rest_def)
  obtain h1 where h1: "release (wk h c) h = Some h1" "exact D (\<lambda>x. ext x + count_list (pend rest) x) [] h1" "framed D h [] h1"
    using release_exact [of D _ "wk h c" h] ex0 unfolding exact_shift by blast
  have fr: "outer D h h1" "frozen D h h1"
    using framed_outer [OF h1(3)] Cons.prems(3) by (auto simp: Int_absorb2)
  have nd1: "nodes h1 = nodes h" "immortal h1 = immortal h" using outer_nodes [OF fr(1)] by auto
  have pr: "set (pend rest) \<subseteq> nodes h - D" using ex0 unfolding exact_shift by blast
  have "exact D ext ([] @ rest) h1" unfolding exact_shift using h1(2) pr nd1 by simp
  then have ex1: "exact D ext rest h1" by simp
  let ?h2 = "md h c h1"
  have mi: "mild D S wk A c h1 ?h2"
    by (rule md [OF cA(1)]) (use nd1 Cons.prems(6) fr(2) exactD(7) [OF ex1] in auto)
  have nd2: "nodes ?h2 = nodes h" "immortal ?h2 = immortal h1"
    using mi nd1 by (simp_all add: mild_def nodes_def immortal_def)
  have ex2: "exact D ext rest ?h2"
    by (rule exact_cong_out [OF ex1]) (use mi nd1 nd2 in \<open>auto simp: mild_def\<close>)
  have w2: "wk ?h2 c' = wk h c'" if "c' \<in> set cs" for c'
  proof -
    have "c' \<noteq> c" "c' \<in> A" using that Cons.prems(1) cA by auto
    then have "wk ?h2 c' = wk h1 c'" using mi unfolding mild_def by blast
    also have "\<dots> = wk h c'" by (rule dep [OF \<open>c' \<in> A\<close> _ fr(2)]) (use Cons.prems(6) in simp)
    finally show ?thesis .
  qed
  have e: "exact D ext (concat (map (wk ?h2) cs) @ ws) ?h2"
    using ex2 w2 by (simp add: rest_def cong: map_cong)
  have q1: "Q c' h1" if "c' \<in> P" for c' using Q(2) [OF _ _ fr(2)] Cons.prems(7,9) that by blast
  have q2: "\<forall>c' \<in> insert c P. Q c' ?h2"
  proof
    fix c' assume "c' \<in> insert c P"
    then show "Q c' ?h2"
      using Q(1) [OF cA(1)] Q(3) [of c' h1 c] q1 [of c'] Cons.prems(7,8) by (cases "c' = c") auto
  qed
  have p2: "insert c P \<subseteq> A" "insert c P \<inter> set cs = {}" using cA Cons.prems(1,7,8) by auto
  have "\<exists>h'. sweep_phase wk md cs ?h2 = Some h' \<and> exact D ext ws h' \<and> outer D ?h2 h' \<and> frozen S ?h2 h' \<and> (\<forall>c' \<in> insert c P \<union> set cs. Q c' h')"
    by (rule Cons.IH [of ?h2 "insert c P"]) (use e Cons.prems nd2 cA p2 q2 in auto)
  then obtain h' where h': "sweep_phase wk md cs ?h2 = Some h'" "exact D ext ws h'" "outer D ?h2 h'" "frozen S ?h2 h'"
    and q: "\<forall>c' \<in> insert c P \<union> set cs. Q c' h'"
    by blast
  have o2: "outer D h1 ?h2" using mi by (auto simp: mild_def outer_def)
  have f1: "frozen S h h1" using fr(2) Cons.prems(4) by (auto simp: frozen_def)
  have f2: "frozen S h1 ?h2" using mi by (simp add: mild_def)
  show ?case
    using h1(1) h'(1,2) outer_trans [OF outer_trans [OF fr(1) o2] h'(3)] frozen_trans [OF frozen_trans [OF f1 f2] h'(4)] q by simp
qed


section \<open>The whole sweep\<close>

lemma frozen_cell:
  assumes "frozen D h h'" "C c \<in> D"
  shows "gbody (cell h' c) = gbody (cell h c)" "gnext (cell h' c) = gnext (cell h c)" "captured h' c = captured h c"
proof -
  have f: "same_node h h' (C c)" "refs h' (C c) = refs h (C c)" using assms by (auto simp: frozen_def simp del: refs.simps)
  show b: "gbody (cell h' c) = gbody (cell h c)" "gnext (cell h' c) = gnext (cell h c)" using f(1) by (simp_all add: same_node_def)
  have "opt_env (captured h' c) = opt_env (captured h c)" using f(2) b by simp
  then show "captured h' c = captured h c" by (auto simp: opt_env_def split: option.splits)
qed

lemma frozen_env:
  assumes "frozen D h h'" "V v \<in> D"
  shows "genv h' v = genv h v"
proof -
  have "cnt h' (V v) = cnt h (V v)" "same_node h h' (V v)" using assms by (auto simp: frozen_def simp del: refs.simps cnt.simps)
  then show ?thesis by (auto simp: same_node_def)
qed

definition cell_work :: "nat list \<Rightarrow> gheap \<Rightarrow> nat \<Rightarrow> work list" where
  "cell_work ds h c = release_edges ds (gc_visit_edges (cell h c))"

definition env_edge_work :: "nat list \<Rightarrow> gheap \<Rightarrow> nat \<Rightarrow> work list" where
  "env_edge_work ds h v = release_edges ds (gc_visit_env_edges (genv h v))"

definition all_work :: "(gheap \<Rightarrow> nat \<Rightarrow> work list) \<Rightarrow> gheap \<Rightarrow> nat list \<Rightarrow> work list" where
  "all_work wk h cs = concat (map (wk h) cs)"

lemma visit_cong: "gbody c = gbody d \<Longrightarrow> gnext c = gnext d \<Longrightarrow> gc_visit_edges c = gc_visit_edges d"
  unfolding gc_visit_edges.simps by (simp only:)

lemma work_dep:
  assumes "frozen D h h'"
  shows "C c \<in> D \<Longrightarrow> cell_work ds h' c = cell_work ds h c" "C c \<in> D \<Longrightarrow> capture_work es h' c = capture_work es h c"
    "V v \<in> D \<Longrightarrow> env_edge_work ds h' v = env_edge_work ds h v" "V v \<in> D \<Longrightarrow> root_work es h' v = root_work es h v"
  using frozen_cell [OF assms] frozen_env [OF assms] visit_cong [of "cell h' c" "cell h c"]
  by (auto simp: cell_work_def capture_work_def env_edge_work_def root_work_def)

lemma mild_id: "lone_wrappers h \<Longrightarrow> mild D S wk A c h h"
  by (simp add: mild_def)

lemma mild_sever:
  assumes "lone_wrappers h" "C c \<in> D" "D \<subseteq> nodes h" "captured h c \<noteq> None" "\<forall>b \<in> A. b < ncells h"
  shows "mild D (D \<inter> range V) (capture_work es) A c h (sever c h)"
proof -
  have fn: "is_fn (gbody (cell h c))" using assms(4) by (auto simp: captured_def split: if_splits)
  have c: "c < ncells h" using assms(2,3) by auto
  have cap: "captured (sever c h) b = (if b = c then None else captured h b)" if "b < ncells h" for b
    by (rule captured_sever [OF assms(1) c that fn])
  have "cnt (sever c h) x = cnt h x \<and> same_node h (sever c h) x \<and> refs (sever c h) x = refs h x"
    if "x \<in> nodes h" "x \<notin> D" for x
    using that cap assms(2) by (cases x) (auto simp: same_node_def)
  moreover have "frozen (D \<inter> range V) h (sever c h)" by (auto simp: frozen_def same_node_def)
  moreover have "capture_work es (sever c h) b = capture_work es h b" if "b \<in> A" "b \<noteq> c" for b
    using cap that assms(5) by (simp add: capture_work_def)
  ultimately show ?thesis using lone_sever [OF assms(1)] by (simp add: mild_def)
qed

lemma mild_blank:
  assumes "lone_wrappers h" "V v \<in> D"
  shows "mild D {} (root_work es) A v h (upd_env v (\<lambda>_. blank_env) h)"
proof -
  let ?h = "upd_env v (\<lambda>_. blank_env) h"
  have "cnt ?h x = cnt h x \<and> same_node h ?h x \<and> refs ?h x = refs h x" if "x \<in> nodes h" "x \<notin> D" for x
    using that assms(2) by (cases x) (auto simp: same_node_def)
  moreover have "root_work es ?h b = root_work es h b" if "b \<noteq> v" for b using that by (simp add: root_work_def)
  ultimately show ?thesis using assms(1) by (simp add: mild_def frozen_def)
qed

lemma phases_ok:
  assumes D: "D = C ` set ds \<union> V ` set es" "D \<subseteq> nodes h" "distinct ds" "distinct es"
    and ex: "exact D ext (all_work (cell_work ds) h ds @ all_work (capture_work es) h ds
        @ all_work (env_edge_work ds) h es @ all_work (root_work es) h es) h"
  shows "\<exists>h1 h2 h3 h4. gc_release_cells ds ds h = Some h1 \<and> gc_release_captures es ds h1 = Some h2
    \<and> gc_release_envs ds es h2 = Some h3 \<and> gc_free_envs es es h3 = Some h4
    \<and> exact D ext [] h4 \<and> outer D h h4 \<and> (\<forall>v \<in> set es. genv h4 v = blank_env)"
proof -
  have cD: "C c \<in> D" if "c \<in> set ds" for c using that D(1) by simp
  have vD: "V v \<in> D" if "v \<in> set es" for v using that D(1) by simp
  let ?S = "D \<inter> range V"
  obtain h1 where h1: "gc_release_cells ds ds h = Some h1" "outer D h h1" "frozen D h h1"
      "exact D ext (all_work (capture_work es) h ds @ all_work (env_edge_work ds) h es @ all_work (root_work es) h es) h1"
    using phase_ok [where A = "set ds" and D = D and P = "{}" and Q = "\<lambda>_ _. True" and S = D and wk = "cell_work ds"
        and md = "\<lambda>_ _ h. h" and M = "nodes h" and cs = ds and h = h, OF D(3) ex [unfolded all_work_def [of "cell_work ds"]] D(2)]
      work_dep(1) mild_id cD
    unfolding release_cells_phase cell_work_def [abs_def] by blast
  have n1: "nodes h1 = nodes h" using outer_nodes [OF h1(2)] by simp
  have w1: "all_work (capture_work es) h1 ds = all_work (capture_work es) h ds"
    "all_work (env_edge_work ds) h1 es = all_work (env_edge_work ds) h es" "all_work (root_work es) h1 es = all_work (root_work es) h es"
    using work_dep(2,3,4) [OF h1(3)] cD vD by (simp_all add: all_work_def cong: map_cong)
  have e1: "exact D ext (concat (map (capture_work es h1) ds) @ all_work (env_edge_work ds) h1 es @ all_work (root_work es) h1 es) h1"
    using h1(4) unfolding w1 [symmetric] unfolding all_work_def [of "capture_work es"] .
  have D1: "D \<subseteq> nodes h1" using D(2) n1 by simp
  have md2: "mild D ?S (capture_work es) (set ds) c k1 (sever_captured k c k1)"
    if "c \<in> set ds" "nodes k1 = nodes h1" "frozen D k k1" "lone_wrappers k1" for c k k1
  proof (cases "captured k c = None")
    case True
    then show ?thesis using mild_id [OF that(4)] by (simp add: sever_captured_def)
  next
    case False
    then have k: "captured k1 c \<noteq> None" using frozen_cell(3) [OF that(3) cD [OF that(1)]] by simp
    have b: "\<forall>b \<in> set ds. b < ncells k1"
    proof
      fix b assume "b \<in> set ds"
      then have "C b \<in> nodes k1" using cD D1 unfolding that(2) by blast
      then show "b < ncells k1" unfolding C_nodes .
    qed
    have "mild D ?S (capture_work es) (set ds) c k1 (sever c k1)"
      by (rule mild_sever [OF that(4) cD [OF that(1)] _ k b]) (use D1 that(2) in simp)
    moreover have "sever_captured k c k1 = sever c k1" unfolding sever_captured_def using False by (rule if_not_P)
    ultimately show ?thesis by simp
  qed
  have "\<exists>h2. sweep_phase (capture_work es) sever_captured ds h1 = Some h2
      \<and> exact D ext (all_work (env_edge_work ds) h1 es @ all_work (root_work es) h1 es) h2 \<and> outer D h1 h2 \<and> frozen ?S h1 h2 \<and> (\<forall>c \<in> {} \<union> set ds. True)"
    by (rule phase_ok [where A = "set ds" and P = "{}" and Q = "\<lambda>_ _. True" and M = "nodes h1"])
      (rule D(3) e1 D1 Int_lower1 md2 work_dep(2) cD | assumption | simp)+
  then obtain h2 where h2: "gc_release_captures es ds h1 = Some h2" "outer D h1 h2" "frozen ?S h1 h2"
      "exact D ext (all_work (env_edge_work ds) h1 es @ all_work (root_work es) h1 es) h2"
    unfolding release_captures_phase by blast
  have n2: "nodes h2 = nodes h1" using outer_nodes [OF h2(2)] by simp
  have D2: "D \<subseteq> nodes h2" using D1 n2 by simp
  have w2: "all_work (env_edge_work ds) h2 es = all_work (env_edge_work ds) h1 es" "all_work (root_work es) h2 es = all_work (root_work es) h1 es"
    using work_dep(3,4) [OF h2(3)] vD by (simp_all add: all_work_def cong: map_cong)
  have e2: "exact D ext (concat (map (env_edge_work ds h2) es) @ all_work (root_work es) h2 es) h2"
    using h2(4) unfolding w2 [symmetric] unfolding all_work_def [of "env_edge_work ds"] .
  have "\<exists>h3. sweep_phase (env_edge_work ds) (\<lambda>_ _ h. h) es h2 = Some h3
      \<and> exact D ext (all_work (root_work es) h2 es) h3 \<and> outer D h2 h3 \<and> frozen D h2 h3 \<and> (\<forall>c \<in> {} \<union> set es. True)"
    by (rule phase_ok [where A = "set es" and P = "{}" and Q = "\<lambda>_ _. True" and M = "nodes h2"])
      (rule D(4) e2 D2 mild_id work_dep(3) vD | assumption | simp)+
  then obtain h3 where h3: "gc_release_envs ds es h2 = Some h3" "outer D h2 h3" "frozen D h2 h3" "exact D ext (all_work (root_work es) h2 es) h3"
    unfolding release_envs_phase env_edge_work_def [abs_def] by blast
  have D3: "D \<subseteq> nodes h3" using D2 outer_nodes [OF h3(2)] by simp
  have w3: "all_work (root_work es) h3 es = all_work (root_work es) h2 es"
    using work_dep(4) [OF h3(3)] vD by (simp_all add: all_work_def cong: map_cong)
  have e3: "exact D ext (concat (map (root_work es h3) es) @ []) h3"
    using h3(4) unfolding w3 [symmetric] unfolding all_work_def [of "root_work es"] by simp
  have "\<exists>h4. sweep_phase (root_work es) (\<lambda>_ v. upd_env v (\<lambda>_. blank_env)) es h3 = Some h4
      \<and> exact D ext [] h4 \<and> outer D h3 h4 \<and> frozen {} h3 h4 \<and> (\<forall>v \<in> {} \<union> set es. genv h4 v = blank_env)"
    by (rule phase_ok [where A = "set es" and P = "{}" and Q = "\<lambda>v h. genv h v = blank_env" and M = "nodes h3"])
      (rule D(4) e3 D3 mild_blank work_dep(4) vD | assumption | simp add: frozen_env vD)+
  then obtain h4 where h4: "gc_free_envs es es h3 = Some h4" "outer D h3 h4" "exact D ext [] h4" "\<forall>v \<in> set es. genv h4 v = blank_env"
    unfolding free_envs_phase by auto
  show ?thesis
    using h1(1) h2(1) h3(1) h4 outer_trans [OF outer_trans [OF outer_trans [OF h1(2) h2(2)] h3(2)] h4(2)] by blast
qed


section \<open>What the sweep releases and buries\<close>

lemma count_filter_eq: "count_list (filter P xs) x = (if P x then count_list xs x else 0)"
  by (induction xs) auto

lemma pend_release_edges: "pend (release_edges ds es) = map C (filter (\<lambda>c. c \<notin> set ds) es)"
proof -
  have "somes (map Some xs) = xs" for xs :: "nat list" by (induction xs) auto
  moreover have "release_edges ds es = map Unref (map Some (filter (\<lambda>c. c \<notin> set ds) es))" by (simp add: release_edges_def)
  ultimately show ?thesis by (simp only: pend_unref)
qed

lemma pend_dead_cell:
  assumes "D = C ` set ds \<union> V ` set es" "gc_visit_edges (cell h c) = cell_refs h c"
  shows "pend (cell_work ds h c @ capture_work es h c) = filter (\<lambda>x. x \<notin> D) (refs h (C c))"
proof -
  have m: "C c \<in> D \<longleftrightarrow> c \<in> set ds" "V v \<in> D \<longleftrightarrow> v \<in> set es" for c v using assms(1) by auto
  show ?thesis
    by (simp add: m assms(2) cell_work_def pend_release_edges capture_work_def opt_env_def filter_map comp_def del: cell_refs.simps split: option.split)
qed

lemma pend_dead_env:
  assumes "D = C ` set ds \<union> V ` set es"
  shows "pend (env_edge_work ds h v @ root_work es h v) = filter (\<lambda>x. x \<notin> D) (refs h (V v))"
proof -
  have m: "C c \<in> D \<longleftrightarrow> c \<in> set ds" "V v \<in> D \<longleftrightarrow> v \<in> set es" for c v using assms(1) by auto
  show ?thesis
    by (simp add: m env_edge_work_def pend_release_edges visit_env_refs root_work_def opt_env_def filter_map comp_def del: env_refs.simps split: option.split)
qed

lemma pend_all_work: "distinct cs \<Longrightarrow> count_list (pend (all_work wk h cs)) x = (\<Sum>c \<in> set cs. count_list (pend (wk h c)) x)"
  by (induction cs) (auto simp: all_work_def)

lemma pend_sweep:
  assumes D: "D = C ` set ds \<union> V ` set es" "distinct ds" "distinct es"
    and v: "\<And>c. c \<in> set ds \<Longrightarrow> gc_visit_edges (cell h c) = cell_refs h c"
  shows "count_list (pend (all_work (cell_work ds) h ds @ all_work (capture_work es) h ds
      @ all_work (env_edge_work ds) h es @ all_work (root_work es) h es)) x = (if x \<in> D then 0 else \<Sum>y \<in> D. count_list (refs h y) x)"
proof -
  let ?f = "\<lambda>y. count_list (filter (\<lambda>x. x \<notin> D) (refs h y)) x"
  have c: "count_list (pend (cell_work ds h c)) x + count_list (pend (capture_work es h c)) x = ?f (C c)" if "c \<in> set ds" for c
    using pend_dead_cell [OF D(1) v [OF that]] by (metis count_list_append pend_simps(3))
  have e: "count_list (pend (env_edge_work ds h v)) x + count_list (pend (root_work es h v)) x = ?f (V v)" for v
    using pend_dead_env [OF D(1)] by (metis count_list_append pend_simps(3))
  have "(\<Sum>y \<in> D. ?f y) = (\<Sum>y \<in> C ` set ds. ?f y) + (\<Sum>y \<in> V ` set es. ?f y)"
    unfolding D(1) by (rule sum.union_disjoint) auto
  also have "\<dots> = (\<Sum>c \<in> set ds. ?f (C c)) + (\<Sum>v \<in> set es. ?f (V v))" by (simp add: sum.reindex inj_on_def del: refs.simps)
  also have "(\<Sum>c \<in> set ds. ?f (C c)) = (\<Sum>c \<in> set ds. count_list (pend (cell_work ds h c)) x + count_list (pend (capture_work es h c)) x)"
    by (rule sum.cong) (simp_all add: c del: refs.simps)
  also have "(\<Sum>v \<in> set es. ?f (V v)) = (\<Sum>v \<in> set es. count_list (pend (env_edge_work ds h v)) x + count_list (pend (root_work es h v)) x)"
    by (rule sum.cong) (simp_all only: e)
  finally show ?thesis
    using D(2,3) by (auto simp: pend_all_work sum.distrib count_filter_eq simp del: refs.simps)
qed

lemma exact_dying:
  assumes ex: "exact {} ext [] h" and D: "D \<subseteq> nodes h" "D \<inter> immortal h = {}" "\<forall>y \<in> nodes h - D. set (refs h y) \<inter> D = {}"
    and ws: "\<And>x. count_list (pend ws) x = (if x \<in> D then 0 else \<Sum>y \<in> D. count_list (refs h y) x)"
  shows "exact D ext ws h"
proof -
  have "in_refs {} h x = in_refs D h x + (\<Sum>y \<in> D. count_list (refs h y) x)" for x
    unfolding in_refs_def Diff_empty by (rule sum.subset_diff) (use D in simp_all)
  then have "cnt h x = int (in_refs D h x + ext x + count_list (pend ws) x)" if "x \<in> nodes h - D - immortal h" for x
    using exactD(1) [OF ex, of x] that ws [of x] by simp
  moreover have "set (pend ws) \<subseteq> nodes h - D"
  proof
    fix x assume "x \<in> set (pend ws)"
    then have p: "count_list (pend ws) x > 0" using count_ge1 [of x "pend ws"] by simp
    then have x: "x \<notin> D" and "(\<Sum>y \<in> D. count_list (refs h y) x) > 0" using ws [of x] by (simp_all split: if_splits)
    then obtain y where "y \<in> D" "count_list (refs h y) x > 0" using sum.neutral [of D "\<lambda>y. count_list (refs h y) x"] by (metis less_irrefl neq0_conv)
    then have "x \<in> set (refs h y)" "y \<in> nodes h" using D(1) count_list_0_iff [of "refs h y" x] by auto
    then show "x \<in> nodes h - D" using exactD(2) [OF ex] x by auto
  qed
  moreover have "set (refs h y) \<subseteq> nodes h - D \<and> (cnt h y = 0 \<longrightarrow> refs h y = [])" if "y \<in> nodes h - D" for y
    using exactD(2,3) [OF ex, of y] D(3) that by auto
  moreover have "immortal h \<subseteq> nodes h - D" using exactD(5) [OF ex] D(2) by blast
  ultimately show ?thesis using exactD(6,7) [OF ex] unfolding exact_def by blast
qed

lemma exact_buried:
  assumes ex: "exact D ext [] h" and n: "nodes h' = nodes h" "immortal h' = immortal h" "lone_wrappers h'" "D \<subseteq> nodes h"
    and dead: "\<And>x. x \<in> D \<Longrightarrow> cnt h' x = 0 \<and> refs h' x = [] \<and> ext x = 0"
    and out: "\<And>x. x \<in> nodes h \<Longrightarrow> x \<notin> D \<Longrightarrow> cnt h' x = cnt h x \<and> refs h' x = refs h x"
  shows "exact {} ext [] h'"
proof -
  have i: "in_refs {} h' x = in_refs D h x" for x
    unfolding in_refs_def n(1) Diff_empty by (rule sum.mono_neutral_cong_right) (use dead out in auto)
  have z: "in_refs D h x = 0" if "x \<in> D" for x
    unfolding in_refs_def
  proof (rule sum.neutral, rule ballI)
    fix y assume y: "y \<in> nodes h - D"
    then have "x \<notin> set (refs h y)" using exactD(2) [OF ex, of y] that by auto
    then show "count_list (refs h y) x = 0" by (simp add: count_list_0_iff)
  qed
  have "cnt h' x = int (in_refs {} h' x + ext x + count_list (pend []) x)" if "x \<in> nodes h' - {} - immortal h'" for x
  proof (cases "x \<in> D")
    case True
    then show ?thesis using dead i z by simp
  next
    case False
    then show ?thesis using exactD(1) [OF ex, of x] out [of x] i n that by simp
  qed
  moreover have "set (refs h' y) \<subseteq> nodes h' - {} \<and> (cnt h' y = 0 \<longrightarrow> refs h' y = [])" if "y \<in> nodes h' - {}" for y
    using exactD(2,3) [OF ex, of y] dead [of y] out [of y] n that by (cases "y \<in> D") auto
  moreover have "refs h' x = []" if "x \<in> immortal h'" for x
    using exactD(5) [OF ex] exactD(6) [OF ex, of x] out [of x] that n by auto
  ultimately show ?thesis using exactD(5) [OF ex] n unfolding exact_def by auto
qed

lemma free_dead_simps [simp]: "ncells (fold gc_free_dead_cell ds h) = ncells h" "nenvs (fold gc_free_dead_cell ds h) = nenvs h"
  "genv (fold gc_free_dead_cell ds h) = genv h" "singletons (fold gc_free_dead_cell ds h) = singletons h"
  by (induction ds arbitrary: h) (auto simp: gc_free_dead_cell_def)

lemma clear_clear [simp]: "clear_cell (clear_cell c) = clear_cell c"
  by (simp add: clear_cell_def)

lemma free_dead_cell: "cell (fold gc_free_dead_cell ds h) c = (if c \<in> set ds then clear_cell (cell h c) else cell h c)"
  by (induction ds arbitrary: h) (auto simp: gc_free_dead_cell_def)

lemma free_dead_captured: "captured (fold gc_free_dead_cell ds h) c = (if c \<in> set ds then None else captured h c)"
  by (auto simp: captured_def free_dead_cell clear_cell_def split: option.split)

lemma free_dead_lone: "lone_wrappers h \<Longrightarrow> lone_wrappers (fold gc_free_dead_cell ds h)"
  unfolding lone_wrappers_def by (auto simp: free_dead_cell clear_cell_def)


section \<open>What a collection does\<close>

lemma dead_sets:
  assumes ph: "gc_count_cells h N grow [0..<N] gc_init = Some g"
    and ex: "exact {} ext [] h" and ok: "graph_ok h" and N: "N \<le> ncells h" and bd: "count_bound h"
  defines "g2 \<equiv> gc_marked h N g"
  shows "C c \<in> garbage h N ext \<longleftrightarrow> c \<in> set (gc_dead N g2)" "V v \<in> garbage h N ext \<longleftrightarrow> v \<in> set (gc_dead_envs g2)"
    "distinct (gc_dead N g2)" "distinct (gc_dead_envs g2)"
proof -
  note cp = count_phase [OF ph N ok] and m = marked_ok [OF ph ex ok N bd]
  have t: "g_live g2 = g_live g" "g_walk g2 = g_walk g" "g_envs g2 = g_envs g"
    using m(1) unfolding g2_def tables_def by simp_all
  have mk: "C c \<in> mk g2 \<longleftrightarrow> c \<in> g_mark g2" "V v \<in> mk g2 \<longleftrightarrow> v \<in> g_emark g2" for c v by (auto simp: mk_def)
  have g: "x \<in> garbage h N ext \<longleftrightarrow> cand h N x \<and> x \<notin> mk g2" for x
    using marked_kept [OF ph ex ok N bd, of x] unfolding garbage_def g2_def by blast
  have c: "cand h N (C c) \<longleftrightarrow> c < N \<and> c \<in> g_live g \<and> c \<in> g_walk g" for c
    using cp(3,4) by (auto elim: cand_CE)
  show "C c \<in> garbage h N ext \<longleftrightarrow> c \<in> set (gc_dead N g2)" by (auto simp: g c mk gc_dead_def t)
  have known: "env_known v g = cand h N (V v)" and walked: "\<forall>n \<in> set (g_envs g). ge_walk n" and dist: "distinct (map ge_env (g_envs g))"
  proof -
    have "env_known v g = (V v \<in> cands h N)" using cp(1) unfolding count_inv_def by blast
    then show "env_known v g = cand h N (V v)" by (simp add: cands_def)
    show "\<forall>n \<in> set (g_envs g). ge_walk n" "distinct (map ge_env (g_envs g))" using cp(1) unfolding count_inv_def by blast+
  qed
  show "V v \<in> garbage h N ext \<longleftrightarrow> v \<in> set (gc_dead_envs g2)"
    using known walked by (auto simp: g mk gc_dead_envs_def t env_known_def)
  show "distinct (gc_dead N g2)" by (simp add: gc_dead_def)
  show "distinct (gc_dead_envs g2)" unfolding gc_dead_envs_def t by (rule distinct_map_filter [OF dist])
qed

lemma garbage_facts:
  assumes ex: "exact {} ext [] h" and ok: "graph_ok h" and N: "N \<le> ncells h"
  shows "garbage h N ext \<subseteq> nodes h" "garbage h N ext \<inter> immortal h = {}" "x \<in> garbage h N ext \<Longrightarrow> ext x = 0"
    "reach h ext x \<Longrightarrow> x \<notin> garbage h N ext"
proof -
  show s: "garbage h N ext \<subseteq> nodes h" using cands_nodes [OF _ ok N] by (auto simp: garbage_def)
  show i: "garbage h N ext \<inter> immortal h = {}" using cand_not_immortal by (auto simp: garbage_def)
  show z: "ext x = 0" if "x \<in> garbage h N ext" for x
    using that s kept_ext [of x h ext N] by (auto simp: garbage_def)
  show "x \<notin> garbage h N ext" if "reach h ext x"
    using that
  proof (induction rule: reach.induct)
    case (held x)
    then show ?case using z [of x] by auto
  next
    case (ever x)
    then show ?case using i by blast
  next
    case (via x y)
    show ?case by (rule garbage_closed [OF ex reach_nodes [OF via(1) ex] via(3,2)])
  qed
qed

lemma gc_sweep_ok:
  assumes ph: "gc_count_cells h N grow [0..<N] gc_init = Some g"
    and ex: "exact {} ext [] h" and ok: "graph_ok h" and N: "N \<le> ncells h" and bd: "count_bound h"
  shows "\<exists>h'. gc_sweep N (gc_marked h N g) h = Some h' \<and> exact {} ext [] h' \<and> outer (garbage h N ext) h h'
    \<and> (\<forall>x \<in> garbage h N ext. cnt h' x = 0) \<and> length (gc_dead N (gc_marked h N g)) = card {c. C c \<in> garbage h N ext}"
proof -
  define ds where "ds = gc_dead N (gc_marked h N g)"
  define es where "es = gc_dead_envs (gc_marked h N g)"
  define D where "D = garbage h N ext"
  note ds = dead_sets [OF ph ex ok N bd, folded ds_def es_def D_def] and gf = garbage_facts [OF ex ok N, folded D_def]
  have DE: "D = C ` set ds \<union> V ` set es"
  proof (rule set_eqI)
    fix x show "x \<in> D \<longleftrightarrow> x \<in> C ` set ds \<union> V ` set es" using ds(1,2) by (cases x) auto
  qed
  let ?ws = "all_work (cell_work ds) h ds @ all_work (capture_work es) h ds @ all_work (env_edge_work ds) h es @ all_work (root_work es) h es"
  have vis: "gc_visit_edges (cell h c) = cell_refs h c" if "c \<in> set ds" for c
  proof -
    have "cand h N (C c)" using that ds(1) by (auto simp: D_def garbage_def)
    then show ?thesis using visit_edges_refs [of h c] graph_okD(3) [OF ok] N by (auto elim: cand_CE)
  qed
  have e0: "exact D ext ?ws h"
    by (rule exact_dying [OF ex gf(1,2)])
      (use garbage_closed [OF ex] pend_sweep [OF DE ds(3,4) vis] in \<open>auto simp: D_def simp del: refs.simps pend_simps\<close>)
  obtain h1 h2 h3 h4 where p: "gc_release_cells ds ds h = Some h1" "gc_release_captures es ds h1 = Some h2"
    "gc_release_envs ds es h2 = Some h3" "gc_free_envs es es h3 = Some h4"
    and e4: "exact D ext [] h4" and o4: "outer D h h4" and b: "\<forall>v \<in> set es. genv h4 v = blank_env"
    using phases_ok [OF DE gf(1) ds(3,4) e0] by blast
  define h5 where "h5 = fold gc_free_dead_cell ds h4"
  have n4: "nodes h4 = nodes h" "immortal h4 = immortal h" using outer_nodes [OF o4] by auto
  have n5: "nodes h5 = nodes h4" "immortal h5 = immortal h4" by (simp_all add: h5_def nodes_def immortal_def)
  have dead: "cnt h5 x = 0 \<and> refs h5 x = [] \<and> ext x = 0" if "x \<in> D" for x
  proof (cases x)
    case (C c)
    then have "c \<in> set ds" using that ds(1) by simp
    then show ?thesis using C gf(3) [OF that] by (simp add: h5_def free_dead_cell free_dead_captured clear_cell_def opt_env_def)
  next
    case (V v)
    then have "v \<in> set es" using that ds(2) by simp
    then show ?thesis using V gf(3) [OF that] b by (simp add: h5_def blank_env_def opt_env_def)
  qed
  have out: "cnt h5 x = cnt h4 x \<and> refs h5 x = refs h4 x \<and> same_node h4 h5 x" if "x \<notin> D" for x
  proof (cases x)
    case (C c)
    then have "c \<notin> set ds" using that ds(1) by simp
    then show ?thesis using C by (simp add: h5_def free_dead_cell free_dead_captured same_node_def)
  qed (simp add: h5_def same_node_def)
  have e5: "exact {} ext [] h5"
    by (rule exact_buried [OF e4 n5 _ _ dead]) (use free_dead_lone [OF exactD(7) [OF e4]] gf(1) n4 out in \<open>auto simp: h5_def\<close>)
  have "cnt h x > 0 \<and> same_node h h5 x \<and> refs h5 x = refs h x" if "x \<in> nodes h - D" "cnt h5 x > 0" for x
  proof -
    have "cnt h x > 0 \<and> same_node h h4 x \<and> refs h4 x = refs h x"
      using o4 out [of x] that unfolding outer_def by auto
    then show ?thesis using out [of x] that same_node_trans by auto
  qed
  then have o5: "outer D h h5" using o4 by (simp add: outer_def h5_def)
  have sw: "gc_sweep N (gc_marked h N g) h = Some h5"
    by (simp add: gc_sweep_def Let_def ds_def [symmetric] es_def [symmetric] p h5_def)
  have "card {c. C c \<in> D} = length ds" using ds(1) distinct_card [OF ds(3)] by simp
  then show ?thesis using sw e5 o5 dead unfolding ds_def [symmetric] D_def [symmetric] by auto
qed


section \<open>Properties\<close>

lemma gc_outcome:
  assumes ex: "exact {} ext [] h" and ok: "graph_ok h" and N: "N \<le> ncells h" and bd: "count_bound h"
  shows "(\<exists>r. gccyclescmd mem grow emem N h = Some (h, r))
    \<or> (\<exists>h'. gccyclescmd mem grow emem N h = Some (h', Gc_freed (card {c. C c \<in> garbage h N ext}))
        \<and> exact {} ext [] h' \<and> outer (garbage h N ext) h h' \<and> (\<forall>x \<in> garbage h N ext. cnt h' x = 0))"
proof (cases "N = 0 \<or> \<not> mem \<or> gc_count_cells h N grow [0..<N] gc_init = None \<or> \<not> emem")
  case True
  then show ?thesis by (auto simp: gccyclescmd_def split: option.split)
next
  case False
  then obtain g where g: "gc_count_cells h N grow [0..<N] gc_init = Some g" by auto
  show ?thesis using gc_sweep_ok [OF g ex ok N bd] False g by (auto simp: gccyclescmd_def Let_def)
qed

text \<open>
  C6. Safety of \<open>(gc-cycles)\<close>: whatever allocations fail, it returns, without a double free,
  with exact reference counts, and everything reachable from outside the heap is as it was.
\<close>

theorem gc_keeps_reachable:
  assumes ex: "exact {} ext [] h" and ok: "graph_ok h" and N: "N \<le> ncells h" and bd: "count_bound h"
  shows "\<exists>h' r. gccyclescmd mem grow emem N h = Some (h', r) \<and> exact {} ext [] h'
    \<and> (\<forall>x. reach h ext x \<longrightarrow> x \<notin> immortal h \<longrightarrow> intact h h' x)"
proof (cases "\<exists>r. gccyclescmd mem grow emem N h = Some (h, r)")
  case True
  then obtain r where r: "gccyclescmd mem grow emem N h = Some (h, r)" by blast
  have "x \<notin> immortal h \<longrightarrow> intact h h x" if "reach h ext x" for x
    by (rule reach_intact [OF that ex ex]) (simp_all add: intact_def same_node_refl)
  then show ?thesis using r ex by blast
next
  case False
  then obtain h' r where h': "gccyclescmd mem grow emem N h = Some (h', r)" "exact {} ext [] h'" "outer (garbage h N ext) h h'"
    using gc_outcome [OF assms, of mem grow emem] by blast
  have nd: "nodes h' = nodes h" "immortal h' = immortal h" using outer_nodes [OF h'(3)] by simp_all
  have "x \<notin> immortal h \<longrightarrow> intact h h' x" if "reach h ext x" for x
  proof (rule reach_intact [OF that ex h'(2) nd])
    fix y assume y: "reach h ext y" "cnt h' y > 0"
    have "y \<in> nodes h - garbage h N ext" using reach_nodes [OF y(1) ex] garbage_facts(4) [OF ex ok N y(1)] by blast
    then show "intact h h' y" using h'(3) y(2) unfolding outer_def intact_def by blast
  qed
  then show ?thesis using h' by blast
qed

lemma count_envs_grow: "grow = (\<lambda>_. True) \<Longrightarrow> \<exists>g'. gc_count_envs h N grow o' g = Some g'"
proof (induction h N grow o' g rule: gc_count_envs.induct)
  case (2 h N grow v g)
  have "gc_env_add grow v g \<noteq> None" using 2(2) by (simp add: gc_env_add_def Let_def)
  then obtain g1 where g1: "gc_env_add grow v g = Some g1" by blast
  show ?case
    using 2(1) [OF g1 refl _ 2(2)] unfolding gc_count_envs.simps g1 option.case Let_def by (cases "env_walked v (upd_envnode v (\<lambda>n. n\<lparr>ge_interns := ge_interns n + 1\<rparr>) g1) \<or> nenvs h \<le> v") simp_all
qed simp

lemma count_cells_grow: "\<exists>g'. gc_count_cells h N (\<lambda>_. True) cs g = Some g'"
proof (induction cs arbitrary: g)
  case (Cons c cs)
  have "\<exists>g'. gc_count_envs h N (\<lambda>_. True) o' g = Some g'" for o' g using count_envs_grow [OF refl] .
  then obtain g' where "gc_count_envs h N (\<lambda>_. True) (gc_captured_env h c)
      (fold (gc_count_edge N) (gc_visit_edges (cell h c)) (g\<lparr>g_live := insert c (g_live g), g_walk := insert c (g_walk g)\<rparr>)) = Some g'" by blast
  then show ?case using Cons.IH by (simp add: Let_def)
qed simp

lemma closed_garbage:
  assumes "S \<subseteq> {x. cand h N x \<and> ext x = 0}" "\<forall>y \<in> nodes h - S. set (refs h y) \<inter> S = {}" "graph_ok h"
  shows "S \<subseteq> garbage h N ext"
proof -
  have "x \<notin> S" if "kept h N ext x" for x
    using that
  proof (induction rule: kept.induct)
    case (kept_ref x y)
    then show ?case using kept_nodes [OF kept_ref(1) assms(3)] assms(2) by blast
  qed (use assms(1) in auto)
  then show ?thesis using assms(1) by (auto simp: garbage_def)
qed

text \<open>
  C9. Completeness of \<open>(gc-cycles)\<close>: with memory for its tables, it frees every set of walkable
  cells and captured environments that only members of the set refer to, closure cycles
  included, and it reports at least the cells of the set.
\<close>

theorem gc_frees_cycles:
  assumes ex: "exact {} ext [] h" and ok: "graph_ok h" and N: "N \<le> ncells h" and bd: "count_bound h"
    and S: "S \<subseteq> {x. cand h N x \<and> ext x = 0}" "\<forall>y \<in> nodes h - S. set (refs h y) \<inter> S = {}"
  shows "\<exists>h' n. gccyclescmd True (\<lambda>_. True) True N h = Some (h', Gc_freed n) \<and> (\<forall>x \<in> S. cnt h' x = 0) \<and> card {c. C c \<in> S} \<le> n"
proof -
  have sub: "S \<subseteq> garbage h N ext" by (rule closed_garbage [OF S ok])
  show ?thesis
  proof (cases "N = 0")
    case True
    have "\<not> cand h N x" for x
    proof
      show "cand h N x \<Longrightarrow> False" by (induction rule: cand.induct) (use True in auto)
    qed
    then have "S = {}" using S(1) by auto
    then show ?thesis using True by (simp add: gccyclescmd_def)
  next
    case False
    obtain g where g: "gc_count_cells h N (\<lambda>_. True) [0..<N] gc_init = Some g" using count_cells_grow by blast
    obtain h' where h': "gc_sweep N (gc_marked h N g) h = Some h'" "\<forall>x \<in> garbage h N ext. cnt h' x = 0"
      and l: "length (gc_dead N (gc_marked h N g)) = card {c. C c \<in> garbage h N ext}"
      using gc_sweep_ok [OF g ex ok N bd] by blast
    have "finite {c. C c \<in> garbage h N ext}"
      using finite_vimageI [OF finite_subset [OF garbage_facts(1) [OF ex ok N] finite_nodes], of C] by (simp add: inj_def vimage_def)
    then have "card {c. C c \<in> S} \<le> card {c. C c \<in> garbage h N ext}" by (rule card_mono) (use sub in blast)
    then show ?thesis using False g h' sub l by (auto simp: gccyclescmd_def Let_def)
  qed
qed

lemma base_search_ok:
  assumes "sorted bs" "0 \<le> lo" "lo \<le> hi + 1" "hi < int (length bs)" "hit = lo - 1"
    and "\<forall>k. int k < lo \<longrightarrow> bs ! k \<le> p" "\<forall>k < length bs. int k > hi \<longrightarrow> p < bs ! k"
  shows "\<exists>r. base_search bs p lo hi hit = r \<and> - 1 \<le> r \<and> r < int (length bs)
    \<and> (\<forall>k. int k \<le> r \<longrightarrow> bs ! k \<le> p) \<and> (\<forall>k < length bs. int k > r \<longrightarrow> p < bs ! k)"
  using assms
proof (induction bs p lo hi hit rule: base_search.induct)
  case (1 bs p lo hi hit)
  show ?case
  proof (cases "lo \<le> hi")
    case False
    then have "base_search bs p lo hi hit = hit" by (subst base_search.simps) simp
    then show ?thesis using 1(4-9) False by simp
  next
    case True
    define mid where "mid = lo + (hi - lo) div 2"
    have m: "lo \<le> mid" "mid \<le> hi" using True by (simp_all add: mid_def)
    have nm: "nat mid < length bs" using m 1(4,6) by linarith
    show ?thesis
    proof (cases "bs ! nat mid \<le> p")
      case le: True
      have "base_search bs p lo hi hit = base_search bs p (mid + 1) hi mid"
        using True le by (subst base_search.simps) (simp add: mid_def Let_def)
      moreover have "bs ! k \<le> p" if "int k < mid + 1" for k
      proof -
        have "k \<le> nat mid" using that by simp
        then show ?thesis using sorted_nth_mono [OF 1(3) _ nm] le by (meson order.trans)
      qed
      ultimately show ?thesis using 1(1) [OF True mid_def le 1(3)] m 1(4-9) by simp
    next
      case gt: False
      have "base_search bs p lo hi hit = base_search bs p lo (mid - 1) hit"
        using True gt by (subst base_search.simps) (simp add: mid_def Let_def)
      moreover have "p < bs ! k" if "k < length bs" "int k > mid - 1" for k
      proof -
        have "nat mid \<le> k" using that by simp
        then show ?thesis using sorted_nth_mono [OF 1(3) _ that(1)] gt by (meson leI order.strict_trans2)
      qed
      ultimately show ?thesis using 1(2) [OF True mid_def gt 1(3)] m 1(4-9) by simp
    qed
  qed
qed


text \<open>The chunks of the arena, sorted and apart.\<close>

definition arena_ok :: "nat list \<Rightarrow> bool" where
  "arena_ok bs = (sorted bs \<and> (\<forall>i < length bs. 0 < bs ! i \<and> bs ! i mod 8 = 0)
     \<and> (\<forall>i. Suc i < length bs \<longrightarrow> bs ! i + EXP_BUMP_CHUNK * EXP_SIZE \<le> bs ! Suc i))"

text \<open>
  \<open>gc_cell_index\<close> finds cell \<open>j\<close> of chunk \<open>i\<close> at its index, and no other address.
\<close>

theorem gc_cell_index_exact:
  assumes ok: "arena_ok bs" and j: "j < EXP_BUMP_CHUNK"
  shows "gc_cell_index bs p = int (i * EXP_BUMP_CHUNK + j) \<longleftrightarrow> i < length bs \<and> p = bs ! i + j * EXP_SIZE"
proof -
  have s: "sorted bs" using ok by (simp add: arena_ok_def)
  define r where "r = base_search bs p 0 (int (length bs) - 1) (- 1)"
  have r: "base_search bs p 0 (int (length bs) - 1) (- 1) = r" by (simp add: r_def)
  have "\<exists>r'. base_search bs p 0 (int (length bs) - 1) (- 1) = r' \<and> - 1 \<le> r' \<and> r' < int (length bs)
      \<and> (\<forall>k. int k \<le> r' \<longrightarrow> bs ! k \<le> p) \<and> (\<forall>k < length bs. int k > r' \<longrightarrow> p < bs ! k)"
    by (rule base_search_ok [OF s]) simp_all
  then have rb: "- 1 \<le> r" "r < int (length bs)" and le: "\<forall>k. int k \<le> r \<longrightarrow> bs ! k \<le> p"
    and gt: "\<forall>k < length bs. int k > r \<longrightarrow> p < bs ! k"
    unfolding r by blast+
  show ?thesis
  proof
    assume e: "gc_cell_index bs p = int (i * EXP_BUMP_CHUNK + j)"
    then have ne: "gc_cell_index bs p \<noteq> -1" by linarith
    define off where "off = p - bs ! nat r"
    have gci: "gc_cell_index bs p = (if p = 0 \<or> p mod 8 \<noteq> 0 \<or> r < 0 \<or> off \<ge> EXP_BUMP_CHUNK * EXP_SIZE \<or> off mod EXP_SIZE \<noteq> 0 then -1
        else r * int EXP_BUMP_CHUNK + int (off div EXP_SIZE))"
      unfolding gc_cell_index_def r Let_def off_def by simp
    have c: "\<not> r < 0" "off < EXP_BUMP_CHUNK * EXP_SIZE" "off mod EXP_SIZE = 0"
      and v: "gc_cell_index bs p = r * int EXP_BUMP_CHUNK + int (off div EXP_SIZE)"
    proof -
      let ?bad = "p = 0 \<or> p mod 8 \<noteq> 0 \<or> r < 0 \<or> off \<ge> EXP_BUMP_CHUNK * EXP_SIZE \<or> off mod EXP_SIZE \<noteq> 0"
      have nb: "\<not> ?bad" using ne gci by (cases ?bad) (simp_all only: if_P simp_thms)
      then show "\<not> r < 0" "off < EXP_BUMP_CHUNK * EXP_SIZE" "off mod EXP_SIZE = 0" by (simp_all only: de_Morgan_disj not_le simp_thms)
      show "gc_cell_index bs p = r * int EXP_BUMP_CHUNK + int (off div EXP_SIZE)" unfolding gci using nb by (rule if_not_P)
    qed
    obtain k where k: "off = EXP_SIZE * k" using c(3) by auto
    have k2: "off div EXP_SIZE = k" "k < 256" using c(2) by (simp_all add: k EXP_SIZE_def EXP_BUMP_CHUNK_def)
    have "r * 256 + int k = int (i * 256 + j)" using e v k2(1) by (simp add: EXP_BUMP_CHUNK_def)
    then have sum: "r * 256 + int k = int i * 256 + int j" by simp
    have "j < 256" using j by (simp add: EXP_BUMP_CHUNK_def)
    then have "\<not> r + 1 \<le> int i" "\<not> int i + 1 \<le> r" using sum k2(2) by linarith+
    then have "r = int i" by linarith
    then have "nat r = i \<and> k = j" using sum by simp
    moreover have "nat r < length bs" "bs ! nat r \<le> p" using rb(2) c(1) le by simp_all
    ultimately show "i < length bs \<and> p = bs ! i + j * EXP_SIZE" using k unfolding off_def by (metis le_add_diff_inverse mult.commute)
  next
    assume "i < length bs \<and> p = bs ! i + j * EXP_SIZE"
    then have i: "i < length bs" and p: "p = bs ! i + j * EXP_SIZE" by simp_all
    have lo: "p < bs ! i + EXP_BUMP_CHUNK * EXP_SIZE" using j by (simp add: p EXP_SIZE_def EXP_BUMP_CHUNK_def)
    have "\<not> r < int i" using gt i by (auto simp: p)
    moreover have "\<not> r > int i"
    proof
      assume "r > int i"
      then have "int (Suc i) \<le> r" "Suc i < length bs" using rb(2) by linarith+
      then show False using le ok lo unfolding arena_ok_def by fastforce
    qed
    ultimately have ri: "r = int i" by linarith
    have b: "0 < bs ! i" "bs ! i mod 8 = 0" using ok i by (simp_all add: arena_ok_def)
    have p8: "p mod 8 = 0"
    proof -
      obtain q where "bs ! i = 8 * q" using b(2) by auto
      then have "p = 8 * (q + 4 * j)" by (simp add: p EXP_SIZE_def)
      then show ?thesis by simp
    qed
    have off: "p - bs ! i = j * EXP_SIZE" and p0: "p \<noteq> 0" using b(1) by (simp_all add: p)
    have "j * EXP_SIZE < EXP_BUMP_CHUNK * EXP_SIZE" using lo p by simp
    then show "gc_cell_index bs p = int (i * EXP_BUMP_CHUNK + j)"
      unfolding gc_cell_index_def r ri Let_def nat_int off using p0 p8 by (simp add: EXP_SIZE_def)
  qed
qed

lemma gc_cell_index_exact_witness: "gc_cell_index [8192, 32768] (32768 + 3 * EXP_SIZE) = int (1 * EXP_BUMP_CHUNK + 3)"
  using gc_cell_index_exact [of "[8192, 32768]" 3 "32768 + 3 * EXP_SIZE" 1]
  by (simp add: arena_ok_def EXP_BUMP_CHUNK_def EXP_SIZE_def nth_Cons split: nat.splits)

text \<open>
  A dictionary that holds itself, a closure in the environment it captured, and a pair held from outside.
\<close>

definition sample_heap :: gheap where
  "sample_heap = \<lparr>cell = (\<lambda>_. \<lparr>nref = 0, gbody = Other_body [], gnext = None, capt = None, shared = False\<rparr>)
      (0 := \<lparr>nref = 1, gbody = Dict_body [Some 0], gnext = None, capt = None, shared = False\<rparr>,
       1 := \<lparr>nref = 1, gbody = Ast_fn None, gnext = Some 2, capt = None, shared = False\<rparr>,
       2 := \<lparr>nref = 1, gbody = Pair_body None, gnext = None, capt = Some 0, shared = False\<rparr>,
       3 := \<lparr>nref = 1, gbody = Pair_body None, gnext = None, capt = None, shared = False\<rparr>),
     genv = (\<lambda>_. blank_env)(0 := blank_env\<lparr>eref := 1, inline_vals := [Some 1]\<rparr>),
     ncells = 4, nenvs = 1, singletons = [], exp_freelist = []\<rparr>"

definition sample_ext :: "node \<Rightarrow> nat" where
  "sample_ext x = (if x = C 3 then 1 else 0)"


lemma sample_nodes: "nodes sample_heap = {C 0, C 1, C 2, C 3, V 0}"
  by (auto simp: nodes_def sample_heap_def lessThan_Suc numeral_eq_Suc)

lemma sample_refs: "refs sample_heap (C 0) = [C 0]" "refs sample_heap (C 1) = [C 2, V 0]" "refs sample_heap (C 2) = []"
  "refs sample_heap (C 3) = []" "refs sample_heap (V 0) = [C 1]"
  by (simp_all add: sample_heap_def captured_def opt_env_def blank_env_def)

lemma sample_in_refs: "in_refs {} sample_heap (C 0) = 1" "in_refs {} sample_heap (C 1) = 1" "in_refs {} sample_heap (C 2) = 1"
  "in_refs {} sample_heap (C 3) = 0" "in_refs {} sample_heap (V 0) = 1"
  by (simp_all add: in_refs_def sample_nodes sample_refs del: refs.simps One_nat_def)

lemma sample_lone: "lone_wrappers sample_heap"
  by (auto simp: lone_wrappers_def sample_heap_def)

lemma sample_cnt: "cnt sample_heap (C 0) = 1" "cnt sample_heap (C 1) = 1" "cnt sample_heap (C 2) = 1" "cnt sample_heap (C 3) = 1" "cnt sample_heap (V 0) = 1"
  by (simp_all add: sample_heap_def)

lemma sample_exact: "exact {} sample_ext [] sample_heap"
proof -
  have "immortal sample_heap = {}" by (simp add: immortal_def sample_heap_def)
  then show ?thesis
    using sample_lone by (simp add: exact_def sample_nodes sample_refs sample_in_refs sample_cnt sample_ext_def del: refs.simps cnt.simps One_nat_def)
qed

lemma sample_graph: "graph_ok sample_heap"
proof -
  have "no_next sample_heap" by (auto simp: no_next_def sample_heap_def)
  then show ?thesis by (simp add: graph_ok_def sample_nodes sample_refs del: refs.simps One_nat_def)
qed

lemma sample_count: "count_bound sample_heap"
  by (simp add: count_bound_def sample_nodes sample_cnt del: cnt.simps One_nat_def)

lemma sample_cand: "cand sample_heap 4 (C 0)" "cand sample_heap 4 (C 1)" "cand sample_heap 4 (C 2)" "cand sample_heap 4 (V 0)"
proof -
  show "cand sample_heap 4 (C 0)" by (rule cand_cell) (simp_all add: sample_heap_def gc_walkable_def)
  show 1: "cand sample_heap 4 (C 1)" by (rule cand_cell) (simp_all add: sample_heap_def gc_walkable_def)
  show "cand sample_heap 4 (C 2)" by (rule cand_cell) (simp_all add: sample_heap_def gc_walkable_def)
  show "cand sample_heap 4 (V 0)" by (rule cand_capt [OF 1]) (simp add: sample_heap_def captured_def)
qed

lemma gc_keeps_reachable_witness:
  "\<exists>h' r. gccyclescmd True (\<lambda>_. True) True 4 sample_heap = Some (h', r) \<and> intact sample_heap h' (C 3)"
proof -
  have "reach sample_heap sample_ext (C 3)" by (rule held) (simp_all add: sample_nodes sample_ext_def)
  moreover have "C 3 \<notin> immortal sample_heap" by (simp add: immortal_def sample_heap_def)
  ultimately show ?thesis
    using gc_keeps_reachable [OF sample_exact sample_graph _ sample_count, of 4 True "\<lambda>_. True" True] by (auto simp: sample_heap_def)
qed

lemma gc_frees_cycles_witness:
  "\<exists>h' n. gccyclescmd True (\<lambda>_. True) True 4 sample_heap = Some (h', Gc_freed n)
    \<and> (\<forall>x \<in> {C 0, C 1, C 2, V 0}. cnt h' x = 0) \<and> card {c. C c \<in> {C 0, C 1, C 2, V 0}} \<le> n"
proof (rule gc_frees_cycles [OF sample_exact sample_graph _ sample_count])
  show "4 \<le> ncells sample_heap" by (simp add: sample_heap_def)
  show "{C 0, C 1, C 2, V 0} \<subseteq> {x. cand sample_heap 4 x \<and> sample_ext x = 0}" using sample_cand by (auto simp: sample_ext_def)
  have "nodes sample_heap - {C 0, C 1, C 2, V 0} = {C 3}" by (auto simp: sample_nodes)
  then show "\<forall>y \<in> nodes sample_heap - {C 0, C 1, C 2, V 0}. set (refs sample_heap y) \<inter> {C 0, C 1, C 2, V 0} = {}"
    by (simp add: sample_refs del: refs.simps)
qed

end
