(* ===== verification/Resp.thy ===== *)
theory Resp
  imports DictCmds FloatText
begin

text \<open>
  The wire protocol of the server (\<open>resp.c\<close>): the output window of a client and the replies
  written into it, integers as text, the frame parser with its two command forms, and the
  table of command names.

  A client's buffers are byte lists of their capacity.  Whether an allocation of a given size
  succeeds is a parameter; fresh memory is zero here, and no operation reads it.
\<close>

section \<open>Output window\<close>

definition RESP_WBUF_MAX :: nat where "RESP_WBUF_MAX = 67108864"

record resp_client =
  wbuf :: bytes
  whead :: nat
  wlen :: nat
  wfail :: bool
  argv_cap :: nat

abbreviation wcap :: "resp_client \<Rightarrow> nat" where "wcap c \<equiv> length (wbuf c)"

text \<open>\<open>while (cap < need) cap *= 2\<close>.\<close>

function grow_cap :: "nat \<Rightarrow> nat \<Rightarrow> nat" where
  "grow_cap need cap = (if cap < need \<and> 0 < cap then grow_cap need (cap * 2) else cap)"
  by pat_completeness auto
termination
  by (relation "measure (\<lambda>(need, cap). need - cap)") auto

declare grow_cap.simps [simp del]

definition slide :: "resp_client \<Rightarrow> resp_client" where
  "slide c =
     (let live = wlen c - whead c in
      c\<lparr>wbuf := take live (drop (whead c) (wbuf c)) @ drop live (wbuf c), wlen := live, whead := 0\<rparr>)"

text \<open>The offset at which the reserved bytes start, or \<open>None\<close> when memory runs out.\<close>

definition resp_write_reserve :: "(nat \<Rightarrow> bool) \<Rightarrow> resp_client \<Rightarrow> nat \<Rightarrow> resp_client \<times> nat option" where
  "resp_write_reserve al c n =
     (if wlen c + n \<le> wcap c then (c\<lparr>wlen := wlen c + n\<rparr>, Some (wlen c))
      else (let c1 = (if whead c > 0 then slide c else c) in
        if wlen c1 + n \<le> wcap c1 then (c1\<lparr>wlen := wlen c1 + n\<rparr>, Some (wlen c1))
        else (let need = wlen c1 + n;
                  c2 = (if need > RESP_WBUF_MAX then c1\<lparr>wfail := True\<rparr> else c1);
                  cap = grow_cap need (if wcap c1 \<noteq> 0 then wcap c1 else 256) in
          if \<not> al cap then (c2\<lparr>wfail := True, wlen := wcap c2\<rparr>, None)
          else (c2\<lparr>wbuf := wbuf c2 @ replicate (cap - wcap c2) 0, wlen := wlen c2 + n\<rparr>, Some (wlen c2)))))"

definition put_at :: "nat \<Rightarrow> bytes \<Rightarrow> bytes \<Rightarrow> bytes" where
  "put_at off p mem = take off mem @ p @ drop (off + length p) mem"

definition resp_write :: "(nat \<Rightarrow> bool) \<Rightarrow> bytes \<Rightarrow> resp_client \<Rightarrow> resp_client" where
  "resp_write al p c =
     (case resp_write_reserve al c (length p) of
        (c1, None) \<Rightarrow> c1
      | (c1, Some off) \<Rightarrow> c1\<lparr>wbuf := put_at off p (wbuf c1)\<rparr>)"

text \<open>\<open>write\<close> on the socket: the bytes taken, or whether the error is a hard one.\<close>

definition resp_client_drain_write :: "bool + nat \<Rightarrow> resp_client \<Rightarrow> resp_client \<times> bool" where
  "resp_client_drain_write res c =
     (case res of
        Inl hard \<Rightarrow> (c, hard)
      | Inr n \<Rightarrow> if n = wlen c - whead c then (c\<lparr>whead := 0, wlen := 0\<rparr>, False) else (c\<lparr>whead := whead c + n\<rparr>, False))"

section \<open>Replies\<close>

definition CR :: byte where "CR = 0x0D"
definition LF :: byte where "LF = 0x0A"

text \<open>The digits in the order the loop produces them, last first.\<close>

fun u64_digits :: "nat \<Rightarrow> bytes" where
  "u64_digits v = of_nat (48 + v mod 10) # (if v div 10 = 0 then [] else u64_digits (v div 10))"

declare u64_digits.simps [simp del]

definition resp_u64_to_ascii :: "nat \<Rightarrow> bytes" where
  "resp_u64_to_ascii v = rev (u64_digits v)"

definition resp_i64_to_ascii :: "int \<Rightarrow> bytes" where
  "resp_i64_to_ascii v = (if v < 0 then 0x2D # resp_u64_to_ascii (nat (- (v + 1)) + 1) else resp_u64_to_ascii (nat v))"

text \<open>One line with a leading byte, \<open>+\<close> or \<open>-\<close>.\<close>

definition resp_write_line :: "(nat \<Rightarrow> bool) \<Rightarrow> byte \<Rightarrow> bytes \<Rightarrow> resp_client \<Rightarrow> resp_client" where
  "resp_write_line al lead s c =
     (case resp_write_reserve al c (length s + 3) of
        (c1, None) \<Rightarrow> c1
      | (c1, Some off) \<Rightarrow> c1\<lparr>wbuf := put_at off ([lead] @ s @ [CR, LF]) (wbuf c1)\<rparr>)"

text \<open>A header line in 32 reserved bytes, of which the unused ones are given back.\<close>

definition resp_write_header :: "(nat \<Rightarrow> bool) \<Rightarrow> byte \<Rightarrow> int \<Rightarrow> resp_client \<Rightarrow> resp_client" where
  "resp_write_header al lead v c =
     (case resp_write_reserve al c 32 of
        (c1, None) \<Rightarrow> c1
      | (c1, Some off) \<Rightarrow>
          (let p = [lead] @ resp_i64_to_ascii v @ [CR, LF] in
           c1\<lparr>wbuf := put_at off p (wbuf c1), wlen := wlen c1 - (32 - length p)\<rparr>))"

definition resp_write_int :: "(nat \<Rightarrow> bool) \<Rightarrow> int \<Rightarrow> resp_client \<Rightarrow> resp_client" where
  "resp_write_int al v = resp_write_header al 0x3A v"

definition resp_write_array_hdr :: "(nat \<Rightarrow> bool) \<Rightarrow> int \<Rightarrow> resp_client \<Rightarrow> resp_client" where
  "resp_write_array_hdr al v = resp_write_header al 0x2A v"

definition resp_write_bulk :: "(nat \<Rightarrow> bool) \<Rightarrow> bytes \<Rightarrow> resp_client \<Rightarrow> resp_client" where
  "resp_write_bulk al p c =
     (let hdr = [0x24] @ resp_u64_to_ascii (length p) @ [CR, LF] in
      case resp_write_reserve al c (length hdr + length p + 2) of
        (c1, None) \<Rightarrow> c1
      | (c1, Some off) \<Rightarrow> c1\<lparr>wbuf := put_at off (hdr @ p @ [CR, LF]) (wbuf c1)\<rparr>)"

text \<open>
  A reply as the sequence of its writes, each one of the kinds above.
\<close>

datatype reply = Status bytes | Error bytes | Number int | Bulk bytes | Null | Header int

fun resp_reply :: "(nat \<Rightarrow> bool) \<Rightarrow> reply \<Rightarrow> resp_client \<Rightarrow> resp_client" where
  "resp_reply al (Status s) c = resp_write_line al 0x2B s c"
| "resp_reply al (Error s) c = resp_write_line al 0x2D s c"
| "resp_reply al (Number v) c = resp_write_int al v c"
| "resp_reply al (Bulk p) c = resp_write_bulk al p c"
| "resp_reply al Null c = resp_write al (bytes_of ''$-1'' @ [CR, LF]) c"
| "resp_reply al (Header n) c = resp_write_array_hdr al n c"

text \<open>What each of them puts on the wire.\<close>

fun wire :: "reply \<Rightarrow> bytes" where
  "wire (Status s) = [0x2B] @ s @ [CR, LF]"
| "wire (Error s) = [0x2D] @ s @ [CR, LF]"
| "wire (Number v) = [0x3A] @ fmt_int v @ [CR, LF]"
| "wire (Bulk p) = [0x24] @ fmt_nat (length p) @ [CR, LF] @ p @ [CR, LF]"
| "wire Null = [0x24, 0x2D, 0x31, CR, LF]"
| "wire (Header n) = [0x2A] @ fmt_int n @ [CR, LF]"

lemma u64_ascii: "resp_u64_to_ascii v = fmt_nat v"
proof (induction v rule: fmt_nat.induct)
  case (1 n)
  have d: "of_nat (48 + n mod 10) = (48 + of_nat (n mod 10) :: byte)" by simp
  show ?case
  proof (cases "n < 10")
    case True
    then show ?thesis unfolding resp_u64_to_ascii_def by (subst u64_digits.simps, subst fmt_nat.simps) simp
  next
    case False
    then have "n div 10 \<noteq> 0" by simp
    then have "resp_u64_to_ascii n = resp_u64_to_ascii (n div 10) @ [of_nat (48 + n mod 10)]"
      unfolding resp_u64_to_ascii_def by (subst u64_digits.simps) simp
    then show ?thesis using 1 False by (subst fmt_nat.simps) simp
  qed
qed

lemma i64_ascii: "resp_i64_to_ascii v = fmt_int v"
proof -
  have "nat (- (v + 1)) + 1 = nat (- v)" if "v < 0" using that by simp
  then show ?thesis by (simp add: resp_i64_to_ascii_def u64_ascii fmt_int_def)
qed


section \<open>The window is a queue\<close>

definition client_ok :: "resp_client \<Rightarrow> bool" where
  "client_ok c = (whead c \<le> wlen c \<and> wlen c \<le> wcap c)"

definition live :: "resp_client \<Rightarrow> bytes" where
  "live c = drop (whead c) (take (wlen c) (wbuf c))"

lemma grow_cap_ge: "0 < cap \<Longrightarrow> need \<le> grow_cap need cap \<and> cap \<le> grow_cap need cap"
proof (induction need cap rule: grow_cap.induct)
  case (1 need cap)
  then show ?case by (subst (1 2) grow_cap.simps) auto
qed

lemma slide_ok: "client_ok c \<Longrightarrow> client_ok (slide c) \<and> live (slide c) = live c \<and> wcap (slide c) = wcap c \<and> whead (slide c) = 0 \<and> wfail (slide c) = wfail c"
  by (auto simp: slide_def client_ok_def live_def Let_def take_drop)

lemma reserve_ok:
  assumes "client_ok c" "resp_write_reserve al c n = (c1, Some off)"
  shows "wlen c1 = off + n \<and> wlen c1 \<le> wcap c1 \<and> whead c1 \<le> off \<and> drop (whead c1) (take off (wbuf c1)) = live c \<and> (wfail c \<longrightarrow> wfail c1)"
proof (cases "wlen c + n \<le> wcap c")
  case True
  then show ?thesis using assms by (auto simp: resp_write_reserve_def client_ok_def live_def)
next
  case False
  define d where "d = (if whead c > 0 then slide c else c)"
  have d: "client_ok d" "live d = live c" "wfail d = wfail c" using slide_ok [OF assms(1)] assms(1) by (auto simp: d_def)
  show ?thesis
  proof (cases "wlen d + n \<le> wcap d")
    case True
    then show ?thesis using assms False d by (auto simp: resp_write_reserve_def Let_def d_def [symmetric] client_ok_def live_def)
  next
    case False2: False
    define cap where "cap = grow_cap (wlen d + n) (if wcap d \<noteq> 0 then wcap d else 256)"
    have cap: "wlen d + n \<le> cap" "wcap d \<le> cap" using grow_cap_ge [of "if wcap d \<noteq> 0 then wcap d else 256" "wlen d + n"] by (auto simp: cap_def split: if_splits)
    have "resp_write_reserve al c n = (let c2 = (if wlen d + n > RESP_WBUF_MAX then d\<lparr>wfail := True\<rparr> else d) in
        if \<not> al cap then (c2\<lparr>wfail := True, wlen := wcap c2\<rparr>, None)
        else (c2\<lparr>wbuf := wbuf c2 @ replicate (cap - wcap c2) 0, wlen := wlen c2 + n\<rparr>, Some (wlen c2)))"
      unfolding resp_write_reserve_def Let_def d_def [symmetric] cap_def [symmetric] using False False2 by (simp only: if_False)
    then show ?thesis using assms(2) d cap by (auto simp: Let_def client_ok_def live_def split: if_splits)
  qed
qed

lemma reserve_None: "resp_write_reserve al c n = (c1, None) \<Longrightarrow> wfail c1 \<and> (client_ok c \<longrightarrow> client_ok c1)"
proof -
  assume r: "resp_write_reserve al c n = (c1, None)"
  define d where "d = (if whead c > 0 then slide c else c)"
  have "client_ok c \<longrightarrow> client_ok d" using slide_ok by (auto simp: d_def)
  then show ?thesis
    using r by (auto simp: resp_write_reserve_def Let_def d_def [symmetric] client_ok_def split: if_splits)
qed

text \<open>Writing at the reserved place, and giving back what is not used.\<close>

lemma put_live:
  assumes "client_ok c" "resp_write_reserve al c n = (c1, Some off)" "length p \<le> n"
  shows "client_ok (c1\<lparr>wbuf := put_at off p (wbuf c1), wlen := wlen c1 - (n - length p)\<rparr>)
    \<and> live (c1\<lparr>wbuf := put_at off p (wbuf c1), wlen := wlen c1 - (n - length p)\<rparr>) = live c @ p"
proof -
  have r: "wlen c1 = off + n" "wlen c1 \<le> wcap c1" "whead c1 \<le> off" "drop (whead c1) (take off (wbuf c1)) = live c"
    using reserve_ok [OF assms(1,2)] by simp_all
  have m: "length (put_at off p (wbuf c1)) = wcap c1" "take (off + length p) (put_at off p (wbuf c1)) = take off (wbuf c1) @ p"
    using r(1,2) assms(3) by (simp_all add: put_at_def)
  have w: "wlen c1 - (n - length p) = off + length p" using r(1) assms(3) by simp
  have o: "off \<le> wcap c1" using r(1,2) by simp
  show ?thesis unfolding w using r m o assms(3) by (simp add: client_ok_def live_def)
qed

lemma fmt_int_len: "int64 v \<Longrightarrow> length (fmt_int v) \<le> 21"
proof -
  assume v: "int64 v"
  have l: "length (fmt_nat m) \<le> 20" if "m < 10 ^ 20" for m by (rule fmt_nat_length [OF that]) simp
  have "- v \<le> 9223372036854775808" "v \<le> 9223372036854775808" using v by (simp_all add: int64_def INT64_MIN_def INT64_MAX_def)
  from this [THEN nat_mono] have "nat (- v) < 10 ^ 20" "nat v < 10 ^ 20" by simp_all
  then have "length (fmt_nat (nat (- v))) \<le> 20" "length (fmt_nat (nat v)) \<le> 20" using l by blast+
  then show ?thesis by (simp add: fmt_int_def)
qed

fun reply_int64 :: "reply \<Rightarrow> bool" where
  "reply_int64 (Number v) = int64 v"
| "reply_int64 (Header v) = int64 v"
| "reply_int64 _ = True"

lemma reply_case:
  assumes "client_ok c" "length p \<le> n"
    and "c' = (case resp_write_reserve al c n of (c1, None) \<Rightarrow> c1
        | (c1, Some off) \<Rightarrow> c1\<lparr>wbuf := put_at off p (wbuf c1), wlen := wlen c1 - (n - length p)\<rparr>)"
  shows "client_ok c' \<and> (wfail c \<longrightarrow> wfail c') \<and> (wfail c' \<or> live c' = live c @ p)"
proof (cases "resp_write_reserve al c n")
  case (Pair c1 o')
  show ?thesis
  proof (cases o')
    case None
    then show ?thesis using reserve_None [OF Pair [unfolded None]] assms(1,3) Pair by simp
  next
    case (Some off)
    then show ?thesis
      using put_live [OF assms(1) Pair [unfolded Some] assms(2)] reserve_ok [OF assms(1) Pair [unfolded Some]] assms(3) Pair by simp
  qed
qed

lemma reply_live:
  assumes "client_ok c" "reply_int64 r"
  shows "client_ok (resp_reply al r c) \<and> (wfail c \<longrightarrow> wfail (resp_reply al r c))
    \<and> (wfail (resp_reply al r c) \<or> live (resp_reply al r c) = live c @ wire r)"
proof (cases r)
  case (Status s)
  show ?thesis by (rule reply_case [OF assms(1), of _ "length s + 3" _ al])
      (simp_all add: Status resp_write_line_def)
next
  case (Error s)
  show ?thesis by (rule reply_case [OF assms(1), of _ "length s + 3" _ al])
      (simp_all add: Error resp_write_line_def)
next
  case (Number v)
  show ?thesis by (rule reply_case [OF assms(1), of _ 32 _ al])
      (use fmt_int_len assms(2) in \<open>auto simp: Number resp_write_int_def resp_write_header_def Let_def i64_ascii dest!: fmt_int_len\<close>)
next
  case (Bulk p)
  show ?thesis by (rule reply_case [OF assms(1), of _ "length (wire (Bulk p))" _ al])
      (simp_all add: Bulk resp_write_bulk_def Let_def u64_ascii)
next
  case Null
  show ?thesis by (rule reply_case [OF assms(1), of _ "length (wire Null)" _ al])
      (simp_all add: Null resp_write_def bytes_of_def)
next
  case (Header v)
  show ?thesis by (rule reply_case [OF assms(1), of _ 32 _ al])
      (use fmt_int_len assms(2) in \<open>auto simp: Header resp_write_array_hdr_def resp_write_header_def Let_def i64_ascii dest!: fmt_int_len\<close>)
qed


text \<open>Replies and drains in any order; the socket takes up to \<open>k\<close> bytes at a drain.\<close>

datatype wevent = Reply reply | Drain nat | Blocked

fun wire_run :: "(nat \<Rightarrow> bool) \<Rightarrow> wevent list \<Rightarrow> resp_client \<Rightarrow> bytes \<Rightarrow> resp_client \<times> bytes" where
  "wire_run al [] c sent = (c, sent)"
| "wire_run al (Reply r # evs) c sent = wire_run al evs (resp_reply al r c) sent"
| "wire_run al (Drain k # evs) c sent =
     wire_run al evs (fst (resp_client_drain_write (Inr (min k (wlen c - whead c))) c)) (sent @ take k (live c))"
| "wire_run al (Blocked # evs) c sent = wire_run al evs (fst (resp_client_drain_write (Inl False) c)) sent"

fun event_wire :: "wevent \<Rightarrow> bytes" where
  "event_wire (Reply r) = wire r"
| "event_wire _ = []"

lemma drain_live:
  assumes "client_ok c"
  shows "client_ok (fst (resp_client_drain_write (Inr (min k (wlen c - whead c))) c))
    \<and> live (fst (resp_client_drain_write (Inr (min k (wlen c - whead c))) c)) = drop k (live c)
    \<and> wfail (fst (resp_client_drain_write (Inr (min k (wlen c - whead c))) c)) = wfail c"
  using assms by (auto simp: resp_client_drain_write_def client_ok_def live_def min_def add.commute)

lemma wire_run_ok:
  assumes "client_ok c" "\<forall>r. Reply r \<in> set evs \<longrightarrow> reply_int64 r" "wire_run al evs c sent = (c', sent')"
  shows "(wfail c \<longrightarrow> wfail c') \<and> client_ok c' \<and> (wfail c' \<or> sent' @ live c' = sent @ live c @ concat (map event_wire evs))"
  using assms
proof (induction evs arbitrary: c sent)
  case (Cons ev evs)
  show ?case
  proof (cases ev)
    case (Reply r)
    note l = reply_live [OF Cons.prems(1), of r al]
    show ?thesis using Cons.IH [of "resp_reply al r c" sent] l Cons.prems(2,3) Reply by auto
  next
    case (Drain k)
    have t: "take k (live c) @ drop k (live c) @ x = live c @ x" for x by (metis append_assoc append_take_drop_id)
    define d where "d = fst (resp_client_drain_write (Inr (min k (wlen c - whead c))) c)"
    have d: "client_ok d" "live d = drop k (live c)" "wfail d = wfail c" using drain_live [OF Cons.prems(1), of k] by (simp_all add: d_def)
    have "wire_run al evs d (sent @ take k (live c)) = (c', sent')" using Cons.prems(3) Drain by (simp add: d_def)
    then show ?thesis using Cons.IH [OF d(1), of "sent @ take k (live c)"] Cons.prems(2) d t Drain by auto
  next
    case Blocked
    show ?thesis using Cons.IH [of c sent] Cons.prems Blocked by (auto simp: resp_client_drain_write_def)
  qed
qed simp

text \<open>
  C25. Replies reach the socket in order and unchanged: whatever the order of replies and of
  drains that take any number of bytes, as long as the client is not marked for dropping the
  bytes sent and those still in the window are the wire text of the replies, one after
  another; a mark once set stays.
\<close>

theorem resp_replies_in_order:
  assumes "client_ok c" "\<forall>r. Reply r \<in> set evs \<longrightarrow> reply_int64 r" "wire_run al evs c [] = (c', sent)"
  shows "(wfail c \<longrightarrow> wfail c') \<and> client_ok c' \<and> (wfail c' \<or> sent @ live c' = live c @ concat (map event_wire evs))"
  using wire_run_ok [OF assms] by simp

definition sample_client :: resp_client where
  "sample_client = \<lparr>wbuf = replicate 40 0, whead = 0, wlen = 0, wfail = False, argv_cap = 0\<rparr>"

definition sample_events :: "wevent list" where
  "sample_events = [Reply (Number (- 7)), Drain 2, Reply Null, Reply (Bulk [1, 2]), Drain 9]"

lemma sample_run: "\<not> wfail (fst (wire_run (\<lambda>_. True) sample_events sample_client []))"
  by code_simp

theorem resp_replies_in_order_witness:
  "\<exists>c' sent. wire_run (\<lambda>_. True) sample_events sample_client [] = (c', sent)
    \<and> sent @ live c' = wire (Number (- 7)) @ wire Null @ wire (Bulk [1, 2])"
proof -
  obtain c' sent where r: "wire_run (\<lambda>_. True) sample_events sample_client [] = (c', sent)" by (metis surj_pair)
  have "client_ok sample_client" by (simp add: client_ok_def sample_client_def)
  moreover have "\<forall>r. Reply r \<in> set sample_events \<longrightarrow> reply_int64 r"
    by (auto simp: sample_events_def int64_def INT64_MIN_def INT64_MAX_def)
  ultimately have "wfail c' \<or> sent @ live c' = live sample_client @ concat (map event_wire sample_events)"
    using resp_replies_in_order [OF _ _ r] by blast
  moreover have "\<not> wfail c'" using sample_run r by simp
  ultimately show ?thesis using r by (simp add: sample_events_def live_def sample_client_def)
qed


section \<open>The frame parser\<close>

definition RESP_MAX_BULK :: nat where "RESP_MAX_BULK = 536870912"
definition RESP_MAX_ARGS :: nat where "RESP_MAX_ARGS = 1048576"
definition RESP_ARGV_POOL_INIT :: nat where "RESP_ARGV_POOL_INIT = 8"

text \<open>
  The bytes consumed and the arguments as offsets and lengths in the buffer; \<open>0\<close> and \<open>-1\<close>
  of the code are the other two.
\<close>

datatype parsed = Need_more | Protocol_error | Parsed nat "(nat \<times> nat) list"

definition resp_argv_pool_reserve :: "(nat \<Rightarrow> bool) \<Rightarrow> nat \<Rightarrow> nat \<Rightarrow> nat option" where
  "resp_argv_pool_reserve al cap n =
     (if n \<le> cap then Some cap
      else (let cap' = grow_cap n (if cap \<noteq> 0 then cap else RESP_ARGV_POOL_INIT) in
        if al cap' then Some cap' else None))"

definition is_blank :: "byte \<Rightarrow> bool" where
  "is_blank b = (b = 0x20 \<or> b = 0x09)"

function skip_while :: "(byte \<Rightarrow> bool) \<Rightarrow> bytes \<Rightarrow> nat \<Rightarrow> nat \<Rightarrow> nat" where
  "skip_while P buf e p = (if p < e \<and> P (buf ! p) then skip_while P buf e (p + 1) else p)"
  by pat_completeness auto
termination
  by (relation "measure (\<lambda>(P, buf, e, p). e - p)") auto

declare skip_while.simps [simp del]

lemma skip_while_ge: "p \<le> skip_while P buf e p \<and> (p \<le> e \<longrightarrow> skip_while P buf e p \<le> e)"
proof (induction P buf e p rule: skip_while.induct)
  case (1 P buf e p)
  then show ?case by (subst (1 2) skip_while.simps) auto
qed

lemma skip_while_stop: "skip_while P buf e p < e \<Longrightarrow> \<not> P (buf ! skip_while P buf e p)"
proof (induction P buf e p rule: skip_while.induct)
  case (1 P buf e p)
  then show ?case
    by (cases "p < e \<and> P (buf ! p)") (simp_all add: skip_while.simps [of P buf e p])
qed

lemma skip_while_gr: "p < e \<Longrightarrow> P (buf ! p) \<Longrightarrow> p < skip_while P buf e p"
  using skip_while_ge [of "p + 1" P buf e] by (subst skip_while.simps) simp

lemma word_gr:
  assumes "p < e" "\<not> e \<le> skip_while is_blank buf e p"
  shows "p < skip_while (\<lambda>b. \<not> is_blank b) buf e (skip_while is_blank buf e p)"
  using skip_while_gr [of "skip_while is_blank buf e p" e "\<lambda>b. \<not> is_blank b" buf] skip_while_stop [of is_blank buf e p]
    skip_while_ge [of p is_blank buf e] assms by simp

text \<open>The words of the inline form, counted and then taken.\<close>

function count_words :: "bytes \<Rightarrow> nat \<Rightarrow> nat \<Rightarrow> nat \<Rightarrow> nat option" where
  "count_words buf e p n =
     (if p < e then
        (let p1 = skip_while is_blank buf e p in
         if p1 \<ge> e then Some n
         else if n + 1 > RESP_MAX_ARGS then None
         else count_words buf e (skip_while (\<lambda>b. \<not> is_blank b) buf e p1) (n + 1))
      else Some n)"
  by pat_completeness auto
termination
  by (relation "measure (\<lambda>(buf, e, p, n). e - p)") (use word_gr in \<open>auto intro: diff_less_mono2\<close>)

function fill_words :: "bytes \<Rightarrow> nat \<Rightarrow> nat \<Rightarrow> nat \<Rightarrow> (nat \<times> nat) list" where
  "fill_words buf e p n =
     (if p < e \<and> n > 0 then
        (let p1 = skip_while is_blank buf e p in
         if p1 \<ge> e then []
         else (let p2 = skip_while (\<lambda>b. \<not> is_blank b) buf e p1 in (p1, p2 - p1) # fill_words buf e p2 (n - 1)))
      else [])"
  by pat_completeness auto
termination
  by (relation "measure (\<lambda>(buf, e, p, n). e - p)") (use word_gr in \<open>auto intro: diff_less_mono2\<close>)

declare count_words.simps [simp del] fill_words.simps [simp del]

definition parse_inline :: "(nat \<Rightarrow> bool) \<Rightarrow> bytes \<Rightarrow> nat \<Rightarrow> parsed \<times> nat" where
  "parse_inline al buf cap =
     (let end = skip_while (\<lambda>b. b \<noteq> LF) buf (length buf) 0 in
      if end \<ge> length buf then (Need_more, cap)
      else (let line_end = (if end > 0 \<and> buf ! (end - 1) = CR then end - 1 else end) in
        case count_words buf line_end 0 0 of
          None \<Rightarrow> (Protocol_error, cap)
        | Some n \<Rightarrow>
            if n = 0 then (Parsed (end + 1) [], cap)
            else (case resp_argv_pool_reserve al cap n of
                None \<Rightarrow> (Protocol_error, cap)
              | Some cap' \<Rightarrow> (Parsed (end + 1) (fill_words buf line_end 0 n), cap'))))"

text \<open>The digits of a length up to \<open>\r\<close>.\<close>

function parse_num :: "bytes \<Rightarrow> nat \<Rightarrow> nat \<Rightarrow> nat \<Rightarrow> (nat \<times> nat) option" where
  "parse_num buf limit i n =
     (if i < length buf \<and> buf ! i \<noteq> CR then
        (if buf ! i < 0x30 \<or> buf ! i > 0x39 then None
         else (let n' = n * 10 + (unat (buf ! i) - 48) in
           if n' > limit then None else parse_num buf limit (i + 1) n'))
      else Some (i, n))"
  by pat_completeness auto
termination
  by (relation "measure (\<lambda>(buf, limit, i, n). length buf - i)") auto

declare parse_num.simps [simp del]

text \<open>One bulk argument: where its bytes are; the next one starts two bytes behind them.\<close>

definition parse_bulk :: "bytes \<Rightarrow> nat \<Rightarrow> parsed" where
  "parse_bulk buf i =
     (if i \<ge> length buf then Need_more
      else if buf ! i \<noteq> 0x24 then Protocol_error
      else (case parse_num buf RESP_MAX_BULK (i + 1) 0 of
          None \<Rightarrow> Protocol_error
        | Some (j, blen) \<Rightarrow>
            if j + 1 \<ge> length buf then Need_more
            else if buf ! j \<noteq> CR \<or> buf ! (j + 1) \<noteq> LF then Protocol_error
            else if j + 2 + blen + 2 > length buf then Need_more
            else if buf ! (j + 2 + blen) \<noteq> CR \<or> buf ! (j + 2 + blen + 1) \<noteq> LF then Protocol_error
            else Parsed (j + 2 + blen + 2) [(j + 2, blen)]))"

fun parse_bulks :: "(nat \<Rightarrow> bool) \<Rightarrow> bytes \<Rightarrow> nat \<Rightarrow> nat \<Rightarrow> nat \<Rightarrow> nat \<Rightarrow> parsed \<times> nat" where
  "parse_bulks al buf 0 a i cap = (Parsed i [], cap)"
| "parse_bulks al buf (Suc k) a i cap =
     (case parse_bulk buf i of
        Parsed i' sl \<Rightarrow>
          (case resp_argv_pool_reserve al cap (a + 1) of
             None \<Rightarrow> (Protocol_error, cap)
           | Some cap' \<Rightarrow>
               (case parse_bulks al buf k (a + 1) i' cap' of
                  (Parsed e sl', cap'') \<Rightarrow> (Parsed e (sl @ sl'), cap'')
                | r \<Rightarrow> r))
      | r \<Rightarrow> (r, cap))"

text \<open>
  The code returns the bytes used as an \<open>int\<close>; the cast is left out, since the window never holds
  more than \<open>RESP_RBUF_MAX\<close> bytes (16 MB).
\<close>

definition resp_parse_one :: "(nat \<Rightarrow> bool) \<Rightarrow> bytes \<Rightarrow> nat \<Rightarrow> parsed \<times> nat" where
  "resp_parse_one al buf cap =
     (if length buf = 0 then (Need_more, cap)
      else if buf ! 0 \<noteq> 0x2A then parse_inline al buf cap
      else (case parse_num buf RESP_MAX_ARGS 1 0 of
          None \<Rightarrow> (Protocol_error, cap)
        | Some (i, n) \<Rightarrow>
            if i + 1 \<ge> length buf then (Need_more, cap)
            else if buf ! i \<noteq> CR \<or> buf ! (i + 1) \<noteq> LF then (Protocol_error, cap)
            else (case resp_argv_pool_reserve al cap (if n < RESP_ARGV_POOL_INIT then n else RESP_ARGV_POOL_INIT) of
                None \<Rightarrow> (Protocol_error, cap)
              | Some cap' \<Rightarrow> parse_bulks al buf n 0 (i + 2) cap')))"


section \<open>What the parser reads\<close>

lemma digit_not_CR: "is_digit c \<Longrightarrow> c \<noteq> CR \<and> \<not> c < 0x30 \<and> \<not> c > 0x39"
  by (auto simp: is_digit_def CR_def)

lemma digit_value: "is_digit c \<Longrightarrow> int (n * 10 + (unat c - 48)) = int n * 10 + (uint c - 48)"
proof -
  assume "is_digit c"
  then have "48 \<le> unat c" by (simp add: is_digit_def word_le_nat_alt)
  then show ?thesis by (simp add: of_nat_diff)
qed

lemma parse_num_digits:
  assumes "list_all is_digit ds" "buf = pre @ ds @ rest" "rest = [] \<or> hd rest = CR" "dec_val (int n) ds \<le> int limit"
  shows "parse_num buf limit (length pre) n = Some (length pre + length ds, nat (dec_val (int n) ds))"
  using assms
proof (induction ds arbitrary: pre n)
  case Nil
  have "\<not> (length pre < length buf \<and> buf ! length pre \<noteq> CR)" using Nil(2,3) by (cases rest) (auto simp: nth_append)
  then show ?case by (subst parse_num.simps) auto
next
  case (Cons c ds)
  have d: "is_digit c" "list_all is_digit ds" using Cons.prems(1) by simp_all
  have b: "length pre < length buf" "buf ! length pre = c" using Cons.prems(2) by (simp_all add: nth_append)
  define n' where "n' = n * 10 + (unat c - 48)"
  have v: "dec_val (int n') ds = dec_val (int n) (c # ds)" using digit_value [OF d(1), of n] by (simp add: n'_def)
  have "int n' \<le> int limit" using dec_val_ge [OF d(2), of "int n'"] v Cons.prems(4) by simp
  then have "\<not> n' > limit" by simp
  then have "parse_num buf limit (length pre) n = parse_num buf limit (length (pre @ [c])) n'"
    using b digit_not_CR [OF d(1)] by (subst parse_num.simps) (simp add: n'_def Let_def)
  also have "\<dots> = Some (length (pre @ [c]) + length ds, nat (dec_val (int n') ds))"
    by (rule Cons.IH) (use d Cons.prems v in auto)
  finally show ?case using v by simp
qed

lemma parse_num_fmt:
  assumes "buf = pre @ fmt_nat m @ rest" "rest = [] \<or> hd rest = CR" "m \<le> limit"
  shows "parse_num buf limit (length pre) 0 = Some (length pre + length (fmt_nat m), m)"
  using parse_num_digits [OF fmt_nat_digits assms(1,2), of 0] assms(3) by (simp add: dec_val_fmt_nat)

text \<open>Part of a number.\<close>

lemma parse_num_part:
  assumes "buf = pre @ take k (fmt_nat m)" "m \<le> limit"
  shows "\<exists>v. parse_num buf limit (length pre) 0 = Some (length buf, v)"
proof -
  let ?ds = "take k (fmt_nat m)"
  have d: "list_all is_digit ?ds" "list_all is_digit (drop k (fmt_nat m))"
    using fmt_nat_digits [of m] by (metis append_take_drop_id list_all_append)+
  have "dec_val 0 ?ds \<le> dec_val (dec_val 0 ?ds) (drop k (fmt_nat m))"
    by (rule dec_val_ge [OF d(2)]) (rule dec_val_nonneg [OF d(1)], simp)
  also have "\<dots> = int m" using dec_val_append [of 0 ?ds "drop k (fmt_nat m)"] by (simp add: dec_val_fmt_nat)
  finally show ?thesis using parse_num_digits [OF d(1), of buf pre "[]" 0 limit] assms by simp
qed

lemma bulk_read:
  assumes "buf = pre @ wire (Bulk a) @ rest" "length a \<le> RESP_MAX_BULK"
  shows "parse_bulk buf (length pre) = Parsed (length pre + length (wire (Bulk a))) [(length pre + 3 + length (fmt_nat (length a)), length a)]"
    (is "_ = ?r")
proof -
  let ?ds = "fmt_nat (length a)"
  have b: "buf = (pre @ [0x24]) @ ?ds @ CR # LF # a @ CR # LF # rest" using assms(1) by simp
  have n: "parse_num buf RESP_MAX_BULK (length pre + 1) 0 = Some (length pre + 1 + length ?ds, length a)"
    using parse_num_fmt [OF b _ assms(2)] by simp
  have at: "buf ! length pre = 0x24" by (simp add: b nth_append)
  have x: "buf ! (length pre + 1 + length ?ds) = CR" "buf ! (length pre + 1 + length ?ds + 1) = LF"
    "buf ! (length pre + 1 + length ?ds + 2 + length a) = CR" "buf ! (length pre + 1 + length ?ds + 2 + length a + 1) = LF"
    by (simp_all add: b nth_append)
  have l: "length buf = length pre + 1 + length ?ds + 2 + length a + 2 + length rest" by (simp add: b)
  show ?thesis unfolding parse_bulk_def n using at x l by simp
qed

lemma bulk_part:
  assumes "buf = pre @ take k (wire (Bulk a))" "k < length (wire (Bulk a))" "length a \<le> RESP_MAX_BULK"
  shows "parse_bulk buf (length pre) = Need_more"
proof (cases k)
  case 0
  then show ?thesis using assms(1) by (simp add: parse_bulk_def)
next
  case (Suc k')
  let ?ds = "fmt_nat (length a)"
  have b: "buf = (pre @ [0x24]) @ take k' (?ds @ CR # LF # a @ [CR, LF])" using assms(1) Suc by simp
  then have at: "length pre < length buf" "buf ! length pre = 0x24" by (simp_all add: nth_append)
  consider "k' \<le> length ?ds" | "k' = length ?ds + 1" | t where "k' = length ?ds + 2 + t" "t < length a + 2"
    using assms(2) Suc that(3) [of "k' - (length ?ds + 2)"] by fastforce
  then show ?thesis
  proof cases
    case 1
    then have b1: "buf = (pre @ [0x24]) @ take k' ?ds" using b by simp
    obtain v where "parse_num buf RESP_MAX_BULK (length pre + 1) 0 = Some (length buf, v)"
      using parse_num_part [OF b1 assms(3)] by auto
    then show ?thesis using at by (simp add: parse_bulk_def)
  next
    case 2
    then have b2: "buf = (pre @ [0x24]) @ ?ds @ [CR]" using b by simp
    have "parse_num buf RESP_MAX_BULK (length pre + 1) 0 = Some (length pre + 1 + length ?ds, length a)"
      using parse_num_fmt [OF b2 _ assms(3)] by simp
    then show ?thesis using at b2 by (simp add: parse_bulk_def)
  next
    case (3 t)
    then have b3: "buf = (pre @ [0x24]) @ ?ds @ CR # LF # take t (a @ [CR, LF])" using b by (simp add: take_Cons')
    have n: "parse_num buf RESP_MAX_BULK (length pre + 1) 0 = Some (length pre + 1 + length ?ds, length a)"
      using parse_num_fmt [OF b3 _ assms(3)] by simp
    have x: "buf ! (length pre + 1 + length ?ds) = CR" "buf ! (length pre + 1 + length ?ds + 1) = LF" by (simp_all add: b3 nth_append)
    have l: "length buf = length pre + 1 + length ?ds + 2 + t" using 3 by (simp add: b3)
    then show ?thesis unfolding parse_bulk_def n using at x 3(2) by simp
  qed
qed

text \<open>A request as a client sends it.\<close>

definition bulks :: "bytes list \<Rightarrow> bytes" where
  "bulks args = concat (map (\<lambda>a. wire (Bulk a)) args)"

definition resp_request :: "bytes list \<Rightarrow> bytes" where
  "resp_request args = wire (Header (int (length args))) @ bulks args"

definition slices :: "bytes \<Rightarrow> (nat \<times> nat) list \<Rightarrow> bytes list" where
  "slices buf sl = map (\<lambda>(i, l). take l (drop i buf)) sl"

lemma pool_all: "\<exists>cap'. resp_argv_pool_reserve (\<lambda>_. True) cap n = Some cap'"
  by (simp add: resp_argv_pool_reserve_def Let_def)

lemma bulks_read:
  assumes "buf = pre @ bulks args @ rest" "\<forall>a \<in> set args. length a \<le> RESP_MAX_BULK"
  shows "\<exists>sl cap'. parse_bulks (\<lambda>_. True) buf (length args) k (length pre) cap = (Parsed (length pre + length (bulks args)) sl, cap')
    \<and> slices buf sl = args"
  using assms
proof (induction args arbitrary: pre k cap)
  case Nil
  then show ?case by (simp add: bulks_def slices_def)
next
  case (Cons a args)
  have b: "buf = pre @ wire (Bulk a) @ bulks args @ rest" using Cons.prems(1) by (simp add: bulks_def)
  have r: "parse_bulk buf (length pre) = Parsed (length pre + length (wire (Bulk a))) [(length pre + 3 + length (fmt_nat (length a)), length a)]"
    by (rule bulk_read [OF b]) (use Cons.prems(2) in simp)
  have s: "take (length a) (drop (length pre + 3 + length (fmt_nat (length a))) buf) = a"
  proof -
    have "buf = (pre @ [0x24] @ fmt_nat (length a) @ [CR, LF]) @ a @ [CR, LF] @ bulks args @ rest" by (simp add: b)
    moreover have "length pre + 3 + length (fmt_nat (length a)) = length (pre @ [0x24] @ fmt_nat (length a) @ [CR, LF])" by simp
    ultimately show ?thesis by (metis append_eq_conv_conj)
  qed
  obtain cap1 where c1: "resp_argv_pool_reserve (\<lambda>_. True) cap (k + 1) = Some cap1" using pool_all by blast
  have b2: "buf = (pre @ wire (Bulk a)) @ bulks args @ rest" using b by simp
  obtain sl cap' where i: "parse_bulks (\<lambda>_. True) buf (length args) (k + 1) (length (pre @ wire (Bulk a))) cap1
      = (Parsed (length (pre @ wire (Bulk a)) + length (bulks args)) sl, cap')" "slices buf sl = args"
  proof -
    have "\<forall>a \<in> set args. length a \<le> RESP_MAX_BULK" using Cons.prems(2) by simp
    from Cons.IH [OF b2 this, of "k + 1" cap1] show thesis using that by blast
  qed
  have lb: "length (bulks (a # args)) = length (wire (Bulk a)) + length (bulks args)" by (simp add: bulks_def)
  show ?case using r c1 i s lb by (simp add: slices_def del: wire.simps)
qed

lemma bulks_part:
  assumes "buf = pre @ take t (bulks args)" "t < length (bulks args)" "\<forall>a \<in> set args. length a \<le> RESP_MAX_BULK"
  shows "fst (parse_bulks (\<lambda>_. True) buf (length args) k (length pre) cap) = Need_more"
  using assms
proof (induction args arbitrary: pre k cap t)
  case (Cons a args)
  have ba: "bulks (a # args) = wire (Bulk a) @ bulks args" by (simp add: bulks_def)
  show ?case
  proof (cases "t < length (wire (Bulk a))")
    case True
    then have "buf = pre @ take t (wire (Bulk a))" using Cons.prems(1) ba by (simp del: wire.simps)
    then have "parse_bulk buf (length pre) = Need_more" by (rule bulk_part [OF _ True]) (use Cons.prems(3) in simp)
    then show ?thesis by simp
  next
    case False
    define u where "u = t - length (wire (Bulk a))"
    have b: "buf = pre @ wire (Bulk a) @ take u (bulks args)" using Cons.prems(1) ba False by (simp add: u_def del: wire.simps)
    have u: "u < length (bulks args)" using Cons.prems(2) ba False by (simp add: u_def del: wire.simps)
    have r: "parse_bulk buf (length pre) = Parsed (length pre + length (wire (Bulk a))) [(length pre + 3 + length (fmt_nat (length a)), length a)]"
      by (rule bulk_read [OF b]) (use Cons.prems(3) in simp)
    obtain cap1 where c1: "resp_argv_pool_reserve (\<lambda>_. True) cap (k + 1) = Some cap1" using pool_all by blast
    have b2: "buf = (pre @ wire (Bulk a)) @ take u (bulks args)" using b by simp
    have "fst (parse_bulks (\<lambda>_. True) buf (length args) (k + 1) (length (pre @ wire (Bulk a))) cap1) = Need_more"
      by (rule Cons.IH [OF b2 u]) (use Cons.prems(3) in simp)
    then show ?thesis using r c1 by (auto simp del: wire.simps split: prod.split)
  qed
qed (simp add: bulks_def)


lemma fmt_int_nat: "fmt_int (int n) = fmt_nat n"
  by (simp add: fmt_int_def)

lemma parse_request_ok:
  assumes "length args \<le> RESP_MAX_ARGS" "\<forall>a \<in> set args. length a \<le> RESP_MAX_BULK"
  shows "(\<exists>sl cap'. resp_parse_one (\<lambda>_. True) (resp_request args @ rest) cap = (Parsed (length (resp_request args)) sl, cap')
      \<and> slices (resp_request args @ rest) sl = args)
    \<and> (\<forall>t < length (resp_request args). fst (resp_parse_one (\<lambda>_. True) (take t (resp_request args)) cap) = Need_more)"
proof (intro conjI allI impI)
  let ?m = "length args"
  let ?ds = "fmt_nat ?m"
  have req: "resp_request args = [0x2A] @ ?ds @ CR # LF # bulks args" by (simp add: resp_request_def fmt_int_nat)
  define buf where "buf = resp_request args @ rest"
  have b: "buf = [0x2A] @ ?ds @ CR # LF # bulks args @ rest" by (simp add: buf_def req)
  have n: "parse_num buf RESP_MAX_ARGS 1 0 = Some (1 + length ?ds, ?m)"
    using parse_num_fmt [OF b _ assms(1)] by simp
  have x: "buf \<noteq> []" "buf ! 0 = 0x2A" "buf ! (1 + length ?ds) = CR" "buf ! (1 + length ?ds + 1) = LF" by (simp_all add: b nth_append)
  have l: "1 + length ?ds + 1 < length buf" by (simp add: b)
  obtain cap1 where c: "resp_argv_pool_reserve (\<lambda>_. True) cap (if ?m < RESP_ARGV_POOL_INIT then ?m else RESP_ARGV_POOL_INIT) = Some cap1"
    using pool_all by blast
  have b2: "buf = ([0x2A] @ ?ds @ [CR, LF]) @ bulks args @ rest" by (simp add: b)
  obtain sl cap' where p: "parse_bulks (\<lambda>_. True) buf ?m 0 (length ([0x2A] @ ?ds @ [CR, LF])) cap1
      = (Parsed (length ([0x2A] @ ?ds @ [CR, LF]) + length (bulks args)) sl, cap')" "slices buf sl = args"
    using bulks_read [OF b2 assms(2)] by blast
  have "length ([0x2A] @ ?ds @ [CR, LF]) = 1 + length ?ds + 2" "length ([0x2A] @ ?ds @ [CR, LF]) + length (bulks args) = length (resp_request args)"
    by (simp_all add: req)
  then show "\<exists>sl cap'. resp_parse_one (\<lambda>_. True) (resp_request args @ rest) cap = (Parsed (length (resp_request args)) sl, cap')
      \<and> slices (resp_request args @ rest) sl = args"
    using n x l c p unfolding buf_def [symmetric] resp_parse_one_def by simp
next
  fix t assume t: "t < length (resp_request args)"
  let ?m = "length args"
  let ?ds = "fmt_nat ?m"
  have req: "resp_request args = 0x2A # ?ds @ CR # LF # bulks args" by (simp add: resp_request_def fmt_int_nat)
  define buf where "buf = take t (resp_request args)"
  show "fst (resp_parse_one (\<lambda>_. True) (take t (resp_request args)) cap) = Need_more"
    unfolding buf_def [symmetric]
  proof (cases t)
    case 0
    then show "fst (resp_parse_one (\<lambda>_. True) buf cap) = Need_more" by (simp add: buf_def resp_parse_one_def)
  next
    case (Suc t')
    have b: "buf = [0x2A] @ take t' (?ds @ CR # LF # bulks args)" using Suc by (simp add: buf_def req)
    then have at: "buf \<noteq> []" "buf ! 0 = 0x2A" by simp_all
    consider "t' \<le> length ?ds" | "t' = length ?ds + 1" | u where "t' = length ?ds + 2 + u" "u < length (bulks args)"
      using t Suc that(3) [of "t' - (length ?ds + 2)"] req by fastforce
    then show "fst (resp_parse_one (\<lambda>_. True) buf cap) = Need_more"
    proof cases
      case 1
      then have b1: "buf = [0x2A] @ take t' ?ds" using b by simp
      obtain v where "parse_num buf RESP_MAX_ARGS 1 0 = Some (length buf, v)"
        using parse_num_part [OF b1 assms(1)] by auto
      then show ?thesis using at by (simp add: resp_parse_one_def)
    next
      case 2
      then have b2: "buf = [0x2A] @ ?ds @ [CR]" using b by simp
      have "parse_num buf RESP_MAX_ARGS 1 0 = Some (1 + length ?ds, ?m)" using parse_num_fmt [OF b2 _ assms(1)] by simp
      then show ?thesis using at b2 by (simp add: resp_parse_one_def)
    next
      case (3 u)
      then have b3: "buf = [0x2A] @ ?ds @ CR # LF # take u (bulks args)" using b by (simp add: take_Cons')
      have n: "parse_num buf RESP_MAX_ARGS 1 0 = Some (1 + length ?ds, ?m)" using parse_num_fmt [OF b3 _ assms(1)] by simp
      have x: "buf ! (1 + length ?ds) = CR" "buf ! (1 + length ?ds + 1) = LF" by (simp_all add: b3 nth_append)
      have l: "1 + length ?ds + 1 < length buf" by (simp add: b3)
      obtain cap1 where c: "resp_argv_pool_reserve (\<lambda>_. True) cap (if ?m < RESP_ARGV_POOL_INIT then ?m else RESP_ARGV_POOL_INIT) = Some cap1"
        using pool_all by blast
      have b4: "buf = ([0x2A] @ ?ds @ [CR, LF]) @ take u (bulks args)" by (simp add: b3)
      have "fst (parse_bulks (\<lambda>_. True) buf ?m 0 (length ([0x2A] @ ?ds @ [CR, LF])) cap1) = Need_more"
        by (rule bulks_part [OF b4 3(2) assms(2)])
      moreover have "length ([0x2A] @ ?ds @ [CR, LF]) = 1 + length ?ds + 2" by simp
      ultimately show ?thesis using n x l c at unfolding resp_parse_one_def by simp
    qed
  qed
qed

text \<open>
  C26. The parser reads what a client sends: a request is taken as a whole, whatever follows it
  in the buffer, and its arguments are the bytes that were sent; any part of it is answered by
  a request for more bytes, so how the network cuts a request does not matter.
\<close>

theorem resp_parse_request:
  assumes "length args \<le> RESP_MAX_ARGS" "\<forall>a \<in> set args. length a \<le> RESP_MAX_BULK"
  shows "(\<exists>sl cap'. resp_parse_one (\<lambda>_. True) (resp_request args @ rest) cap = (Parsed (length (resp_request args)) sl, cap')
      \<and> slices (resp_request args @ rest) sl = args)
    \<and> (\<forall>t < length (resp_request args). fst (resp_parse_one (\<lambda>_. True) (take t (resp_request args)) cap) = Need_more)"
  by (rule parse_request_ok [OF assms])

theorem resp_parse_request_witness:
  "fst (resp_parse_one (\<lambda>_. True) (take 9 (resp_request [bytes_of ''GET'', bytes_of ''k''])) 0) = Need_more"
proof -
  have "9 < length (resp_request [bytes_of ''GET'', bytes_of ''k''])" by (simp add: resp_request_def bulks_def)
  then show ?thesis
    using resp_parse_request [of "[bytes_of ''GET'', bytes_of ''k'']" "[]" 0] by (simp add: RESP_MAX_ARGS_def RESP_MAX_BULK_def)
qed


section \<open>Bounds\<close>

lemma parse_num_bounds:
  "parse_num buf limit i n = Some (j, m) \<Longrightarrow> i \<le> length buf \<Longrightarrow> n \<le> limit \<Longrightarrow> i \<le> j \<and> j \<le> length buf \<and> m \<le> limit"
proof (induction buf limit i n rule: parse_num.induct)
  case (1 buf limit i n)
  show ?case
  proof (cases "i < length buf \<and> buf ! i \<noteq> CR")
    case False
    then have "parse_num buf limit i n = Some (i, n)" by (subst parse_num.simps) auto
    then show ?thesis using 1 by simp
  next
    case True
    define n' where "n' = n * 10 + (unat (buf ! i) - 48)"
    have e: "parse_num buf limit i n = (if buf ! i < 0x30 \<or> buf ! i > 0x39 \<or> n' > limit then None else parse_num buf limit (i + 1) n')"
      using True by (subst parse_num.simps) (auto simp: n'_def Let_def)
    then have g: "\<not> (buf ! i < 0x30 \<or> buf ! i > 0x39)" "\<not> n' > limit" using 1(2) by (auto split: if_splits)
    then have "parse_num buf limit (i + 1) n' = Some (j, m)" using e 1(2) by simp
    then show ?thesis using 1(1) [OF True g(1) n'_def g(2)] True g(2) by simp
  qed
qed

lemma parse_bulk_bounds:
  assumes "parse_bulk buf i = Parsed i' sl"
  shows "\<exists>p l. sl = [(p, l)] \<and> i < i' \<and> i' \<le> length buf \<and> p + l < i' \<and> l \<le> RESP_MAX_BULK"
proof -
  have i: "i < length buf" using assms by (simp add: parse_bulk_def split: if_splits)
  obtain j l where j: "parse_num buf RESP_MAX_BULK (i + 1) 0 = Some (j, l)"
    using assms by (auto simp: parse_bulk_def split: if_splits option.splits)
  have "i + 1 \<le> j" "l \<le> RESP_MAX_BULK" using parse_num_bounds [OF j] i by simp_all
  then show ?thesis using assms j by (auto simp: parse_bulk_def split: if_splits)
qed

lemma pool_bounds: "resp_argv_pool_reserve al cap n = Some cap' \<Longrightarrow> n \<le> cap' \<and> cap \<le> cap'"
proof -
  assume r: "resp_argv_pool_reserve al cap n = Some cap'"
  define c where "c = (if cap \<noteq> 0 then cap else RESP_ARGV_POOL_INIT)"
  have "0 < c" "cap \<le> c" by (simp_all add: c_def RESP_ARGV_POOL_INIT_def)
  then have "n \<le> grow_cap n c" "cap \<le> grow_cap n c" using grow_cap_ge [of c n] by linarith+
  moreover have "resp_argv_pool_reserve al cap n = (if n \<le> cap then Some cap else if al (grow_cap n c) then Some (grow_cap n c) else None)"
    by (simp add: resp_argv_pool_reserve_def c_def Let_def)
  ultimately show ?thesis using r by (auto split: if_splits)
qed

definition slices_ok :: "nat \<Rightarrow> (nat \<times> nat) list \<Rightarrow> bool" where
  "slices_ok e sl = (\<forall>(p, l) \<in> set sl. p + l < e)"

lemma parse_bulks_bounds:
  assumes "parse_bulks al buf n k i cap = (Parsed e sl, cap')" "i \<le> length buf" "k \<le> cap"
  shows "i \<le> e \<and> e \<le> length buf \<and> slices_ok e sl \<and> length sl = n \<and> k + n \<le> cap'"
  using assms
proof (induction n arbitrary: k i cap sl)
  case (Suc n)
  obtain i' s1 where b: "parse_bulk buf i = Parsed i' s1" using Suc.prems(1) by (auto split: parsed.splits)
  obtain q l where s1: "s1 = [(q, l)]" "i < i'" "i' \<le> length buf" "q + l < i'" using parse_bulk_bounds [OF b] by blast
  obtain cap1 where c1: "resp_argv_pool_reserve al cap (k + 1) = Some cap1" using Suc.prems(1) b by (auto split: option.splits)
  obtain s2 where r: "parse_bulks al buf n (k + 1) i' cap1 = (Parsed e s2, cap')" and res: "sl = s1 @ s2"
    using Suc.prems(1) b c1 by (auto split: prod.splits parsed.splits)
  have "k + 1 \<le> cap1" using pool_bounds [OF c1] by simp
  then have "i' \<le> e \<and> e \<le> length buf \<and> slices_ok e s2 \<and> length s2 = n \<and> k + 1 + n \<le> cap'"
    using Suc.IH [OF r s1(3)] by simp
  then show ?case using s1 res by (auto simp: slices_ok_def)
qed (simp add: slices_ok_def)

lemma words_bounds:
  "count_words buf e p m = Some n \<Longrightarrow> m \<le> n \<and> (m \<le> RESP_MAX_ARGS \<longrightarrow> n \<le> RESP_MAX_ARGS)
    \<and> length (fill_words buf e p (n - m)) = n - m \<and> (\<forall>(q, l) \<in> set (fill_words buf e p (n - m)). q + l \<le> e)"
proof (induction buf e p m rule: count_words.induct)
  case (1 buf e p m)
  define p1 where "p1 = skip_while is_blank buf e p"
  show ?case
  proof (cases "p < e \<and> \<not> p1 \<ge> e")
    case False
    then have c: "count_words buf e p m = Some m" by (subst count_words.simps) (auto simp: p1_def Let_def)
    have "fill_words buf e p 0 = []" by (subst fill_words.simps) simp
    then show ?thesis using c 1(2) by simp
  next
    case True
    define p2 where "p2 = skip_while (\<lambda>b. \<not> is_blank b) buf e p1"
    have e: "count_words buf e p m = (if m + 1 > RESP_MAX_ARGS then None else count_words buf e p2 (m + 1))"
      using True by (subst count_words.simps) (simp add: p1_def p2_def Let_def)
    have m: "\<not> m + 1 > RESP_MAX_ARGS" using e 1(2) by (auto split: if_splits)
    then have c: "count_words buf e p2 (m + 1) = Some n" using e 1(2) by simp
    have ih: "m + 1 \<le> n" "n \<le> RESP_MAX_ARGS" "length (fill_words buf e p2 (n - (m + 1))) = n - (m + 1)"
        "\<forall>(q, l) \<in> set (fill_words buf e p2 (n - (m + 1))). q + l \<le> e"
      using 1(1) [OF _ p1_def, folded p2_def, OF _ _ m c] True m by auto
    have f: "fill_words buf e p (n - m) = (p1, p2 - p1) # fill_words buf e p2 (n - (m + 1))"
      using True ih(1) by (subst fill_words.simps) (simp add: p1_def p2_def Let_def)
    have "p1 \<le> p2" "p2 \<le> e" using skip_while_ge [of p1 "\<lambda>b. \<not> is_blank b" buf e] True by (simp_all add: p2_def)
    then show ?thesis using ih f by auto
  qed
qed

lemma parse_one_bounds:
  assumes "resp_parse_one al buf cap = (Parsed e sl, cap')"
  shows "0 < e \<and> e \<le> length buf \<and> slices_ok e sl \<and> length sl \<le> RESP_MAX_ARGS \<and> length sl \<le> cap'"
proof (cases "buf ! 0 = 0x2A")
  case True
  obtain i n where n: "parse_num buf RESP_MAX_ARGS 1 0 = Some (i, n)"
    using assms True by (auto simp: resp_parse_one_def split: if_splits option.splits)
  have ne: "buf \<noteq> []" using assms by (auto simp: resp_parse_one_def)
  have b: "i + 1 < length buf" using assms True n ne by (auto simp: resp_parse_one_def split: if_splits)
  have n2: "n \<le> RESP_MAX_ARGS" using parse_num_bounds [OF n] ne by (cases buf) auto
  obtain cap1 where "parse_bulks al buf n 0 (i + 2) cap1 = (Parsed e sl, cap')"
    using assms True n ne by (auto simp: resp_parse_one_def split: if_splits option.splits)
  then show ?thesis using parse_bulks_bounds [of al buf n 0 "i + 2" cap1 e sl cap'] b n2 by auto
next
  case False
  define lf where "lf = skip_while (\<lambda>b. b \<noteq> LF) buf (length buf) 0"
  define le where "le = (if lf > 0 \<and> buf ! (lf - 1) = CR then lf - 1 else lf)"
  have p: "parse_inline al buf cap = (Parsed e sl, cap')"
    using assms False by (auto simp: resp_parse_one_def split: if_splits)
  have pi: "parse_inline al buf cap = (if lf \<ge> length buf then (Need_more, cap)
      else (case count_words buf le 0 0 of None \<Rightarrow> (Protocol_error, cap)
        | Some n \<Rightarrow> if n = 0 then (Parsed (lf + 1) [], cap)
            else (case resp_argv_pool_reserve al cap n of None \<Rightarrow> (Protocol_error, cap)
              | Some cap' \<Rightarrow> (Parsed (lf + 1) (fill_words buf le 0 n), cap'))))"
    unfolding parse_inline_def Let_def lf_def [symmetric] le_def [symmetric] ..
  have lf: "lf < length buf" using p pi by (auto split: if_splits)
  obtain n where n: "count_words buf le 0 0 = Some n" using p pi lf by (auto split: option.splits)
  note w = words_bounds [OF n]
  show ?thesis
  proof (cases "n = 0")
    case True
    then show ?thesis using p pi lf n by (auto simp: slices_ok_def)
  next
    case False
    obtain c where c: "resp_argv_pool_reserve al cap n = Some c" using p pi lf n False by (auto split: option.splits)
    have "e = lf + 1" "sl = fill_words buf le 0 n" "cap' = c" using p pi lf n False c by simp_all
    moreover have "le \<le> lf" by (simp add: le_def)
    ultimately show ?thesis using w lf pool_bounds [OF c] by (fastforce simp: slices_ok_def)
  qed
qed

text \<open>
  C27. The parser is safe on any input: when it takes a command it consumes at least one byte and no
  more than there are, every argument lies in what it consumed, there are at most \<open>RESP_MAX_ARGS\<close>
  of them, and the pool they are written to has room for them, whatever allocations fail.
\<close>

theorem resp_parse_in_bounds:
  assumes "resp_parse_one al buf cap = (Parsed e sl, cap')"
  shows "0 < e \<and> e \<le> length buf \<and> slices_ok e sl \<and> length sl \<le> RESP_MAX_ARGS \<and> length sl \<le> cap'"
  by (rule parse_one_bounds [OF assms])

lemma sample_inline: "fst (resp_parse_one (\<lambda>_. True) (bytes_of ''GET a'' @ [CR, LF]) 0) = Parsed 7 [(0, 3), (4, 1)]"
  by (simp add: resp_parse_one_def parse_inline_def skip_while.simps count_words.simps fill_words.simps
      is_blank_def CR_def LF_def RESP_MAX_ARGS_def resp_argv_pool_reserve_def RESP_ARGV_POOL_INIT_def grow_cap.simps nth_Cons')

theorem resp_parse_in_bounds_witness: "\<exists>cap'. resp_parse_one (\<lambda>_. True) (bytes_of ''GET a'' @ [CR, LF]) 0 = (Parsed 7 [(0, 3), (4, 1)], cap')
    \<and> slices_ok 7 [(0, 3), (4, 1)]"
proof (intro exI conjI)
  show r: "resp_parse_one (\<lambda>_. True) (bytes_of ''GET a'' @ [CR, LF]) 0
      = (Parsed 7 [(0, 3), (4, 1)], snd (resp_parse_one (\<lambda>_. True) (bytes_of ''GET a'' @ [CR, LF]) 0))"
    unfolding sample_inline [symmetric] by (rule prod.collapse [symmetric])
  show "slices_ok 7 [(0, 3), (4, 1)]" using resp_parse_in_bounds [OF r] by (elim conjE)
qed

section \<open>Arguments\<close>

definition toupper :: "byte \<Rightarrow> byte" where
  "toupper b = (if 0x61 \<le> b \<and> b \<le> 0x7A then b - 32 else b)"

text \<open>\<open>want\<close> is upper case.\<close>

definition resp_cmd_eq :: "bytes \<Rightarrow> bytes \<Rightarrow> bool" where
  "resp_cmd_eq p want = (if length p \<noteq> length want then False else (\<forall>i < length want. toupper (p ! i) = want ! i))"

definition resp_dup_key :: "bytes \<Rightarrow> bytes option" where
  "resp_dup_key p = (if 0 \<in> set p then None else Some p)"

text \<open>
  The argument is copied with a terminator and read with \<open>strtoll\<close>: an optional sign, digits,
  the end of the string; a value out of range sets \<open>errno\<close>.
\<close>

definition resp_arg_to_ll :: "bytes \<Rightarrow> int option" where
  "resp_arg_to_ll p =
     (if length p = 0 \<or> length p > 30 then None
      else if \<not> is_digit (hd p) \<and> hd p \<noteq> 0x2D then None
      else (let buf = c_str p;
                ds = (if hd p = 0x2D then tl buf else buf);
                v = (if hd p = 0x2D then - dec_val 0 (takeWhile is_digit ds) else dec_val 0 (takeWhile is_digit ds)) in
        if takeWhile is_digit ds = [] \<or> dropWhile is_digit ds \<noteq> [] \<or> \<not> int64 v then None else Some v))"

definition resp_norm_index :: "int \<Rightarrow> int \<Rightarrow> int" where
  "resp_norm_index idx len =
     (let i = (if idx < 0 then idx + len else idx) in if i < 0 \<or> i \<ge> len then -1 else i)"

text \<open>
  A number that the server writes is read back as the same number when it is an argument,
  for every 64-bit integer, the least one included.
\<close>

theorem resp_int_roundtrip:
  assumes "int64 v"
  shows "resp_arg_to_ll (resp_i64_to_ascii v) = Some v"
proof -
  have d: "list_all is_digit (fmt_nat n)" "fmt_nat n \<noteq> []" for n by (rule fmt_nat_digits fmt_nat_nonempty)+
  have b: "Ball (set (fmt_nat n)) is_digit" for n using d(1) [of n] by (simp add: list_all_iff)
  have tw: "takeWhile is_digit (fmt_nat n) = fmt_nat n" "dropWhile is_digit (fmt_nat n) = []" for n
    using d(1) [of n] by (simp_all add: takeWhile_eq_all_conv list_all_iff)
  have cs: "c_str (fmt_int v) = fmt_int v"
    using fmt_int_chars(1) [of v] by (auto simp: c_str_def takeWhile_eq_all_conv)
  have l: "length (fmt_int v) \<le> 30" using fmt_int_len [OF assms] by simp
  show ?thesis
  proof (cases "v < 0")
    case True
    then have f: "fmt_int v = 0x2D # fmt_nat (nat (- v))" by (simp add: fmt_int_def)
    show ?thesis
      using cs l assms d b True by (simp add: resp_arg_to_ll_def i64_ascii f tw dec_val_fmt_nat Let_def)
  next
    case False
    then have f: "fmt_int v = fmt_nat (nat v)" by (simp add: fmt_int_def)
    have h: "is_digit (hd (fmt_nat (nat v)))" by (rule fmt_nat_hd)
    then have "hd (fmt_nat (nat v)) \<noteq> 0x2D" by (auto simp: is_digit_def)
    then show ?thesis
      using cs l assms d b False h by (simp add: resp_arg_to_ll_def i64_ascii f tw dec_val_fmt_nat Let_def)
  qed
qed

theorem resp_int_roundtrip_witness: "resp_arg_to_ll (resp_i64_to_ascii (- 9223372036854775808)) = Some (- 9223372036854775808)"
  by (rule resp_int_roundtrip) (simp add: int64_def INT64_MIN_def INT64_MAX_def)

text \<open>A number followed by a NUL and anything else is taken for the number.\<close>

lemma resp_arg_nul: "resp_arg_to_ll (bytes_of ''12'' @ [0] @ bytes_of ''x'') = Some 12"
  by code_simp

end
