(* ===== verification/RespTable.thy ===== *)
theory RespTable
  imports Resp
begin

text \<open>
  The table of command names of the server (\<open>resp.c\<close>): FNV-1a hashing, its construction by
  linear probing from the list of names, and the case-insensitive lookup with the fast path for
  four short names.
\<close>

datatype resp_kind_t =
  HK_PING | HK_ECHO | HK_QUIT | HK_COMMAND | HK_SELECT | HK_DBSIZE | HK_FLUSHDB | HK_KEYS | HK_TYPE | HK_DEL |
  HK_EXISTS | HK_EXPIRE_S | HK_EXPIRE_MS | HK_TTL_S | HK_TTL_MS | HK_PERSIST | HK_GET | HK_SET | HK_STRLEN |
  HK_INCR | HK_DECR | HK_INCRBY | HK_DECRBY | HK_APPEND | HK_LPUSH | HK_RPUSH | HK_LPOP | HK_RPOP | HK_LLEN |
  HK_LINDEX | HK_LRANGE | HK_HSET | HK_HGET | HK_HDEL | HK_HEXISTS | HK_HLEN | HK_HKEYS | HK_HVALS | HK_HGETALL
  | HK_SAVE | HK_BGSAVE

definition resp_cmd_seed :: "(bytes \<times> resp_kind_t) list" where
  "resp_cmd_seed =
    [(bytes_of ''PING'', HK_PING),  (bytes_of ''ECHO'', HK_ECHO),  (bytes_of ''QUIT'', HK_QUIT),  (bytes_of
    ''COMMAND'', HK_COMMAND),  (bytes_of ''SELECT'', HK_SELECT),  (bytes_of ''DBSIZE'', HK_DBSIZE),  (bytes_of
    ''FLUSHDB'', HK_FLUSHDB),  (bytes_of ''FLUSHALL'', HK_FLUSHDB),  (bytes_of ''KEYS'', HK_KEYS),  (bytes_of
    ''TYPE'', HK_TYPE),  (bytes_of ''DEL'', HK_DEL),  (bytes_of ''UNLINK'', HK_DEL),  (bytes_of ''EXISTS'',
    HK_EXISTS),  (bytes_of ''EXPIRE'', HK_EXPIRE_S),  (bytes_of ''PEXPIRE'', HK_EXPIRE_MS),  (bytes_of ''TTL'',
    HK_TTL_S),  (bytes_of ''PTTL'', HK_TTL_MS),  (bytes_of ''PERSIST'', HK_PERSIST),  (bytes_of ''GET'', HK_GET),
    (bytes_of ''SET'', HK_SET),  (bytes_of ''STRLEN'', HK_STRLEN),  (bytes_of ''INCR'', HK_INCR),  (bytes_of
    ''DECR'', HK_DECR),  (bytes_of ''INCRBY'', HK_INCRBY),  (bytes_of ''DECRBY'', HK_DECRBY),  (bytes_of
    ''APPEND'', HK_APPEND),  (bytes_of ''LPUSH'', HK_LPUSH),  (bytes_of ''RPUSH'', HK_RPUSH),  (bytes_of ''LPOP'',
    HK_LPOP),  (bytes_of ''RPOP'', HK_RPOP),  (bytes_of ''LLEN'', HK_LLEN),  (bytes_of ''LINDEX'', HK_LINDEX),
    (bytes_of ''LRANGE'', HK_LRANGE),  (bytes_of ''HSET'', HK_HSET),  (bytes_of ''HGET'', HK_HGET),  (bytes_of
    ''HDEL'', HK_HDEL),  (bytes_of ''HEXISTS'', HK_HEXISTS),  (bytes_of ''HLEN'', HK_HLEN),  (bytes_of ''HKEYS'',
    HK_HKEYS),  (bytes_of ''HVALS'', HK_HVALS),  (bytes_of ''HGETALL'', HK_HGETALL),  (bytes_of ''SAVE'',
    HK_SAVE),  (bytes_of ''BGSAVE'', HK_BGSAVE)]"

definition RESP_CMD_NAMEMAX :: nat where "RESP_CMD_NAMEMAX = 12"
definition RESP_CMD_TABLE_SIZE :: nat where "RESP_CMD_TABLE_SIZE = 64"

definition fnv1a :: "bytes \<Rightarrow> u32" where
  "fnv1a s = foldl (\<lambda>h b. (h XOR ucast b) * 16777619) 2166136261 s"

definition cmd_home :: "bytes \<Rightarrow> nat" where
  "cmd_home s = unat (fnv1a s AND 63)"

definition cmd_next :: "nat \<Rightarrow> nat" where
  "cmd_next i = (i + 1) mod RESP_CMD_TABLE_SIZE"

text \<open>An entry is free when its kind is 0; \<open>None\<close> as a result is the abort on overflow.\<close>

type_synonym resp_cmd_table = "(bytes \<times> resp_kind_t) option list"

fun cmd_insert :: "resp_cmd_table \<Rightarrow> bytes \<times> resp_kind_t \<Rightarrow> nat \<Rightarrow> nat \<Rightarrow> resp_cmd_table option" where
  "cmd_insert t e i 0 = None"
| "cmd_insert t e i (Suc p) = (if t ! i = None then Some (t[i := Some e]) else cmd_insert t e (cmd_next i) p)"

fun cmd_build :: "(bytes \<times> resp_kind_t) list \<Rightarrow> resp_cmd_table \<Rightarrow> resp_cmd_table option" where
  "cmd_build [] t = Some t"
| "cmd_build (e # es) t =
     (case cmd_insert t e (cmd_home (fst e)) RESP_CMD_TABLE_SIZE of None \<Rightarrow> None | Some t' \<Rightarrow> cmd_build es t')"

definition resp_cmd_table_init :: "resp_cmd_table option" where
  "resp_cmd_table_init = cmd_build resp_cmd_seed (replicate RESP_CMD_TABLE_SIZE None)"

fun cmd_find :: "resp_cmd_table \<Rightarrow> bytes \<Rightarrow> nat \<Rightarrow> nat \<Rightarrow> resp_kind_t option" where
  "cmd_find t up i 0 = None"
| "cmd_find t up i (Suc p) =
     (case t ! i of
        None \<Rightarrow> None
      | Some (name, kind) \<Rightarrow> if length name = length up \<and> name = up then Some kind else cmd_find t up (cmd_next i) p)"

definition resp_cmd_lookup :: "resp_cmd_table \<Rightarrow> bytes \<Rightarrow> resp_kind_t option" where
  "resp_cmd_lookup t cmd =
     (if length cmd = 0 \<or> length cmd > RESP_CMD_NAMEMAX then None
      else (let up = map toupper cmd in
        if length cmd = 3 \<and> up = bytes_of ''GET'' then Some HK_GET
        else if length cmd = 3 \<and> up = bytes_of ''SET'' then Some HK_SET
        else if length cmd = 3 \<and> up = bytes_of ''DEL'' then Some HK_DEL
        else if length cmd = 3 \<and> up = bytes_of ''TTL'' then Some HK_TTL_S
        else cmd_find t up (cmd_home up) RESP_CMD_TABLE_SIZE))"

section \<open>The table answers as the list of names\<close>

definition placed :: "resp_cmd_table \<Rightarrow> bytes \<times> resp_kind_t \<Rightarrow> nat \<Rightarrow> nat \<Rightarrow> bool" where
  "placed t e i d = (t ! ((i + d) mod 64) = Some e \<and> (\<forall>c < d. t ! ((i + c) mod 64) \<noteq> None))"

definition table_of :: "(bytes \<times> resp_kind_t) list \<Rightarrow> resp_cmd_table \<Rightarrow> bool" where
  "table_of es t =
     (length t = 64 \<and> (\<forall>j < 64. \<forall>e. t ! j = Some e \<longrightarrow> e \<in> set es)
      \<and> (\<forall>e \<in> set es. \<exists>d < 64. placed t e (cmd_home (fst e)) d)
      \<and> card {j. j < 64 \<and> t ! j \<noteq> None} = length es)"

lemma cmd_next_eq: "cmd_next (i mod 64) = Suc i mod 64"
  by (simp add: cmd_next_def RESP_CMD_TABLE_SIZE_def mod_Suc_eq)

lemma cmd_home_less: "cmd_home s < 64"
proof -
  have "unat (fnv1a s AND 63) \<le> unat (63 :: u32)" by (rule word_le_nat_alt [THEN iffD1]) (rule word_and_le1)
  then show ?thesis by (simp add: cmd_home_def)
qed

lemma insert_free:
  assumes "d < p" "t ! ((i + d) mod 64) = None" "\<forall>c < d. t ! ((i + c) mod 64) \<noteq> None"
  shows "cmd_insert t e (i mod 64) p = Some (t[(i + d) mod 64 := Some e])"
  using assms
proof (induction p arbitrary: i d)
  case (Suc p)
  show ?case
  proof (cases d)
    case 0
    then show ?thesis using Suc.prems by simp
  next
    case (Suc d')
    have "t ! (i mod 64) \<noteq> None" using Suc.prems(3) Suc by (metis add.right_neutral zero_less_Suc)
    then obtain y where n: "t ! (i mod 64) = Some y" by blast
    have "\<forall>c < d'. t ! ((Suc i + c) mod 64) \<noteq> None" using Suc.prems(3) Suc by (metis Suc_less_eq add_Suc_shift)
    then have "cmd_insert t e (Suc i mod 64) p = Some (t[(Suc i + d') mod 64 := Some e])"
      using Suc.IH [of d' "Suc i"] Suc.prems(1,2) Suc by simp
    then show ?thesis using n Suc by (simp add: cmd_next_eq)
  qed
qed simp

lemma find_placed:
  assumes "d < p" "t ! ((i + d) mod 64) = Some (up, k)" "\<forall>c < d. \<exists>e. t ! ((i + c) mod 64) = Some e \<and> fst e \<noteq> up"
  shows "cmd_find t up (i mod 64) p = Some k"
  using assms
proof (induction p arbitrary: i d)
  case (Suc p)
  show ?case
  proof (cases d)
    case 0
    then show ?thesis using Suc.prems by simp
  next
    case (Suc d')
    obtain e where e: "t ! (i mod 64) = Some e" "fst e \<noteq> up" using Suc.prems(3) Suc by (metis add.right_neutral zero_less_Suc)
    have "\<forall>c < d'. \<exists>e. t ! ((Suc i + c) mod 64) = Some e \<and> fst e \<noteq> up" using Suc.prems(3) Suc by (metis Suc_less_eq add_Suc_shift)
    then have "cmd_find t up (Suc i mod 64) p = Some k" using Suc.IH [of d' "Suc i"] Suc.prems(1,2) Suc by simp
    then show ?thesis using e by (cases e) (simp add: cmd_next_eq)
  qed
qed simp

lemma find_mem: "cmd_find t up i p = Some k \<Longrightarrow> i < 64 \<Longrightarrow> \<exists>j < 64. t ! j = Some (up, k)"
proof (induction t up i p rule: cmd_find.induct)
  case (2 t up i p)
  have n: "cmd_next i < 64" by (simp add: cmd_next_def RESP_CMD_TABLE_SIZE_def)
  show ?case using 2 n by (fastforce split: option.splits prod.splits if_splits)
qed simp

lemma first_free:
  assumes "length t = 64" "card {j. j < 64 \<and> t ! j \<noteq> None} < 64" "i < 64"
  shows "\<exists>d < 64. t ! ((i + d) mod 64) = None \<and> (\<forall>c < d. t ! ((i + c) mod 64) \<noteq> None)"
proof -
  have "\<exists>j < 64. t ! j = None"
  proof (rule ccontr)
    assume "\<not> (\<exists>j < 64. t ! j = None)"
    then have "{j. j < 64 \<and> t ! j \<noteq> None} = {..<64}" by auto
    then show False using assms(2) by simp
  qed
  then obtain j where j: "j < 64" "t ! j = None" by blast
  define d where "d = (j + 64 - i) mod 64"
  have "(i + d) mod 64 = (i + (j + 64 - i)) mod 64" by (simp add: d_def mod_add_right_eq)
  then have d: "d < 64" "t ! ((i + d) mod 64) = None" using j assms(3) by (simp_all add: d_def)
  define m where "m = (LEAST d. t ! ((i + d) mod 64) = None)"
  have "m \<le> d" unfolding m_def by (rule Least_le) (rule d(2))
  moreover have "t ! ((i + m) mod 64) = None" unfolding m_def by (rule LeastI) (rule d(2))
  moreover have "\<forall>c < m. t ! ((i + c) mod 64) \<noteq> None" unfolding m_def using not_less_Least by blast
  ultimately show ?thesis using d(1) by (meson le_less_trans)
qed

lemma insert_table:
  assumes t: "table_of es t" and e: "length es < 64"
  shows "\<exists>t'. cmd_insert t e (cmd_home (fst e)) 64 = Some t' \<and> table_of (es @ [e]) t'"
proof -
  let ?h = "cmd_home (fst e)"
  obtain d where d: "d < 64" "t ! ((?h + d) mod 64) = None" "\<forall>c < d. t ! ((?h + c) mod 64) \<noteq> None"
    using first_free [of t ?h] t e cmd_home_less by (auto simp: table_of_def)
  let ?j = "(?h + d) mod 64"
  let ?t = "t[?j := Some e]"
  have l: "length t = 64" using t by (simp add: table_of_def)
  have j: "?j < 64" by simp
  have at: "?t ! k = (if k = ?j then Some e else t ! k)" for k using l j by (simp add: nth_list_update)
  have keep: "placed ?t x i c" if "placed t x i c" for x i c
    using that d(2) unfolding placed_def at by auto
  have new: "placed ?t e ?h d" using d(3) unfolding placed_def at by auto
  have "{k. k < 64 \<and> ?t ! k \<noteq> None} = insert ?j {k. k < 64 \<and> t ! k \<noteq> None}" unfolding at using j by auto
  then have "card {k. k < 64 \<and> ?t ! k \<noteq> None} = Suc (length es)" using d(2) t by (simp add: table_of_def)
  moreover have "\<forall>k < 64. \<forall>x. ?t ! k = Some x \<longrightarrow> x \<in> set (es @ [e])" unfolding at using t by (auto simp: table_of_def)
  moreover have "\<forall>x \<in> set (es @ [e]). \<exists>c < 64. placed ?t x (cmd_home (fst x)) c"
  proof
    fix x assume x: "x \<in> set (es @ [e])"
    show "\<exists>c < 64. placed ?t x (cmd_home (fst x)) c"
    proof (cases "x = e")
      case True
      then show ?thesis using new d(1) by blast
    next
      case False
      then have "x \<in> set es" using x by simp
      then show ?thesis using t keep unfolding table_of_def by blast
    qed
  qed
  ultimately have "table_of (es @ [e]) ?t" using l by (simp add: table_of_def)
  moreover have "cmd_insert t e ?h 64 = Some ?t"
    using insert_free [OF d, of e] cmd_home_less [of "fst e"] by simp
  ultimately show ?thesis by blast
qed

lemma build_table: "table_of es t \<Longrightarrow> length es + length fs \<le> 64 \<Longrightarrow> \<exists>t'. cmd_build fs t = Some t' \<and> table_of (es @ fs) t'"
proof (induction fs arbitrary: es t)
  case (Cons f fs)
  have "length es < 64" using Cons.prems(2) by simp
  from insert_table [OF Cons.prems(1) this, of f]
  obtain t1 where t1: "cmd_insert t f (cmd_home (fst f)) 64 = Some t1" "table_of (es @ [f]) t1" by blast
  show ?case using Cons.IH [OF t1(2)] t1(1) Cons.prems(2) by (simp add: RESP_CMD_TABLE_SIZE_def)
qed simp

lemma find_table:
  assumes "table_of es t" "distinct (map fst es)"
  shows "cmd_find t up (cmd_home up) 64 = map_of es up"
proof (cases "map_of es up")
  case None
  have "cmd_find t up (cmd_home up) 64 = None"
  proof (rule ccontr)
    assume "cmd_find t up (cmd_home up) 64 \<noteq> None"
    then obtain k where "cmd_find t up (cmd_home up) 64 = Some k" by blast
    from find_mem [OF this cmd_home_less] have "(up, k) \<in> set es" using assms(1) by (auto simp: table_of_def)
    then show False using None by (simp add: map_of_eq_None_iff rev_image_eqI)
  qed
  then show ?thesis using None by simp
next
  case (Some k)
  then have m: "(up, k) \<in> set es" by (rule map_of_SomeD)
  then obtain d where d: "d < 64" "placed t (up, k) (cmd_home up) d" using assms(1) by (fastforce simp: table_of_def)
  define m where "m = (LEAST d. \<exists>k. t ! ((cmd_home up + d) mod 64) = Some (up, k))"
  have ex: "\<exists>k. t ! ((cmd_home up + d) mod 64) = Some (up, k)" using d(2) by (auto simp: placed_def)
  have le: "m \<le> d" unfolding m_def by (rule Least_le) (rule ex)
  obtain k' where k': "t ! ((cmd_home up + m) mod 64) = Some (up, k')"
    using LeastI [of "\<lambda>d. \<exists>k. t ! ((cmd_home up + d) mod 64) = Some (up, k)", OF ex] unfolding m_def by blast
  have before: "\<forall>c < m. \<exists>e. t ! ((cmd_home up + c) mod 64) = Some e \<and> fst e \<noteq> up"
  proof (intro allI impI)
    fix c assume c: "c < m"
    then have "t ! ((cmd_home up + c) mod 64) \<noteq> None" using d(2) le by (simp add: placed_def)
    then obtain e where e: "t ! ((cmd_home up + c) mod 64) = Some e" by blast
    have "\<not> (\<exists>k. t ! ((cmd_home up + c) mod 64) = Some (up, k))" using not_less_Least c unfolding m_def by blast
    then show "\<exists>e. t ! ((cmd_home up + c) mod 64) = Some e \<and> fst e \<noteq> up" using e by (cases e) auto
  qed
  have "cmd_find t up (cmd_home up) 64 = Some k'"
    using find_placed [OF _ k' before, of 64] le d(1) cmd_home_less [of up] by simp
  moreover have "(cmd_home up + m) mod 64 < 64" by simp
  then have "(up, k') \<in> set es" using assms(1) k' unfolding table_of_def by blast
  then have "map_of es up = Some k'" by (rule map_of_is_SomeI [OF assms(2)])
  ultimately show ?thesis by simp
qed

lemma seed_facts: "length resp_cmd_seed = 43" "distinct (map fst resp_cmd_seed)"
  "\<forall>e \<in> set resp_cmd_seed. 0 < length (fst e) \<and> length (fst e) \<le> RESP_CMD_NAMEMAX"
  by (simp_all add: resp_cmd_seed_def RESP_CMD_NAMEMAX_def)

lemma seed_fast: "map_of resp_cmd_seed (bytes_of ''GET'') = Some HK_GET" "map_of resp_cmd_seed (bytes_of ''SET'') = Some HK_SET"
  "map_of resp_cmd_seed (bytes_of ''DEL'') = Some HK_DEL" "map_of resp_cmd_seed (bytes_of ''TTL'') = Some HK_TTL_S"
  by (simp_all add: resp_cmd_seed_def)

lemma fast_names: "bytes_of ''SET'' \<noteq> bytes_of ''GET''" "bytes_of ''DEL'' \<noteq> bytes_of ''GET''" "bytes_of ''TTL'' \<noteq> bytes_of ''GET''"
  "bytes_of ''DEL'' \<noteq> bytes_of ''SET''" "bytes_of ''TTL'' \<noteq> bytes_of ''SET''" "bytes_of ''TTL'' \<noteq> bytes_of ''DEL''"
  by simp_all

lemma lookup_exact:
  "\<exists>t. resp_cmd_table_init = Some t \<and> (\<forall>cmd. resp_cmd_lookup t cmd = map_of resp_cmd_seed (map toupper cmd))"
proof -
  have z: "(replicate 64 None :: resp_cmd_table) ! j = None" if "j < 64" for j using that by simp
  then have "{j. j < 64 \<and> (replicate 64 None :: resp_cmd_table) ! j \<noteq> None} = {}" by auto
  then have "table_of [] (replicate 64 None)" using z by (simp add: table_of_def)
  then obtain t where t: "cmd_build resp_cmd_seed (replicate 64 None) = Some t" "table_of resp_cmd_seed t"
    using build_table [of "[]" "replicate 64 None" resp_cmd_seed] seed_facts(1) by auto
  have "resp_cmd_lookup t cmd = map_of resp_cmd_seed (map toupper cmd)" for cmd
  proof (cases "length cmd = 0 \<or> length cmd > RESP_CMD_NAMEMAX")
    case True
    have "map_of resp_cmd_seed (map toupper cmd) = None"
    proof (rule ccontr)
      assume "map_of resp_cmd_seed (map toupper cmd) \<noteq> None"
      then obtain k where "(map toupper cmd, k) \<in> set resp_cmd_seed" by (auto dest: map_of_SomeD)
      then show False using seed_facts(3) True by fastforce
    qed
    then show ?thesis using True by (auto simp: resp_cmd_lookup_def)
  next
    case False
    have f: "cmd_find t (map toupper cmd) (cmd_home (map toupper cmd)) 64 = map_of resp_cmd_seed (map toupper cmd)"
      by (rule find_table [OF t(2) seed_facts(2)])
    have e: "resp_cmd_lookup t cmd = (let up = map toupper cmd in
        if length cmd = 3 \<and> up = bytes_of ''GET'' then Some HK_GET
        else if length cmd = 3 \<and> up = bytes_of ''SET'' then Some HK_SET
        else if length cmd = 3 \<and> up = bytes_of ''DEL'' then Some HK_DEL
        else if length cmd = 3 \<and> up = bytes_of ''TTL'' then Some HK_TTL_S
        else map_of resp_cmd_seed up)"
      unfolding resp_cmd_lookup_def Let_def RESP_CMD_TABLE_SIZE_def f using False by (rule if_not_P)
    show ?thesis
    proof (cases "map toupper cmd \<in> {bytes_of ''GET'', bytes_of ''SET'', bytes_of ''DEL'', bytes_of ''TTL''}")
      case True
      then have "length cmd = 3" by (auto dest: arg_cong [of _ _ length])
      then show ?thesis using True seed_fast fast_names unfolding e Let_def by (elim insertE) (simp_all del: bytes_of_Cons bytes_of_Nil)
    next
      case F: False
      then show ?thesis unfolding e Let_def by (simp del: bytes_of_Cons bytes_of_Nil)
    qed
  qed
  then show ?thesis using t(1) by (auto simp: resp_cmd_table_init_def RESP_CMD_TABLE_SIZE_def)
qed

text \<open>
  C28. Building the command table does not overflow it, and looking a command up in it is looking up
  its upper-case name in the list of commands, for every sequence of bytes.
\<close>

theorem resp_cmd_lookup_exact:
  "\<exists>t. resp_cmd_table_init = Some t \<and> (\<forall>cmd. resp_cmd_lookup t cmd = map_of resp_cmd_seed (map toupper cmd))"
  by (rule lookup_exact)

end
