(* ===== verification/RespCmds.thy ===== *)
theory RespCmds
  imports RespTable Lfkv
begin

text \<open>
  The commands of the server (\<open>resp.c\<close>) on the lock-free keyspace of \<open>Lfkv\<close>: their dispatch,
  and the loop over a client's input.

  Values live in a store of objects that are never changed once they are in the keyspace; a value
  of the keyspace is the index of its object.  A command is a function of its arguments (the
  first is its name) and of the circumstances \<open>resp_env\<close>: the clock, whether allocations for
  the keyspace succeed, what a new keyspace would be, what \<open>SAVE\<close> and \<open>BGSAVE\<close> answer, and
  the commands defined in the language.  The clock is read once a command.
  The result is the new state and the writes of the reply, or \<open>None\<close> when the command does not
  return.  Between the steps of one command no other reactor runs.
\<close>

section \<open>State\<close>

record resp_srv =
  kv :: "lfkv option"
  objs :: "exp list"
  shut_rd :: bool

type_synonym cmd_result = "(resp_srv \<times> reply list) option"

record resp_env =
  now :: int
  kv_mem :: "bool \<times> bool"
  fresh_kv :: "lfkv option"
  save_cmd :: "bytes list \<Rightarrow> reply list"
  user_cmd :: "bytes list \<Rightarrow> resp_srv \<Rightarrow> cmd_result option"

definition new_obj :: "exp \<Rightarrow> resp_srv \<Rightarrow> resp_srv \<times> nat" where
  "new_obj v s = (s\<lparr>objs := objs s @ [v]\<rparr>, length (objs s))"

definition obj :: "resp_srv \<Rightarrow> nat \<Rightarrow> exp" where
  "obj s a = objs s ! a"

definition resp_kv_ensure :: "resp_env \<Rightarrow> resp_srv \<Rightarrow> resp_srv" where
  "resp_kv_ensure e s = (case kv s of Some _ \<Rightarrow> s | None \<Rightarrow> s\<lparr>kv := fresh_kv e\<rparr>)"

definition on_kv :: "'r \<Rightarrow> (lfkv \<Rightarrow> lfkv \<times> 'r) \<Rightarrow> resp_srv \<Rightarrow> resp_srv \<times> 'r" where
  "on_kv none f s = (case kv s of None \<Rightarrow> (s, none) | Some t \<Rightarrow> (let (t', r) = f t in (s\<lparr>kv := Some t'\<rparr>, r)))"

definition resp_kv_lookup :: "resp_env \<Rightarrow> bytes \<Rightarrow> resp_srv \<Rightarrow> resp_srv \<times> nat option" where
  "resp_kv_lookup e k = on_kv None (\<lambda>t. lfkv_get t k (now e))"

definition resp_kv_peek :: "resp_env \<Rightarrow> bytes \<Rightarrow> resp_srv \<Rightarrow> resp_srv \<times> nat option" where
  "resp_kv_peek e k = on_kv None (\<lambda>t. lfkv_peek t k (now e))"

definition resp_kv_set :: "resp_env \<Rightarrow> bytes \<Rightarrow> nat \<Rightarrow> resp_srv \<Rightarrow> resp_srv \<times> bool" where
  "resp_kv_set e k a s = on_kv False (\<lambda>t. lfkv_set (kv_mem e) t k (Some a)) (resp_kv_ensure e s)"

definition resp_kv_del :: "resp_env \<Rightarrow> bytes \<Rightarrow> resp_srv \<Rightarrow> resp_srv \<times> bool" where
  "resp_kv_del e k = on_kv False (\<lambda>t. lfkv_del t k (now e))"

definition resp_kv_clear :: "resp_srv \<Rightarrow> resp_srv" where
  "resp_kv_clear s = fst (on_kv () (\<lambda>t. (lfkv_clear t, ())) s)"

definition resp_kv_get_expiry :: "resp_env \<Rightarrow> bytes \<Rightarrow> resp_srv \<Rightarrow> resp_srv \<times> int" where
  "resp_kv_get_expiry e k = on_kv (-1) (\<lambda>t. lfkv_get_expiry t k (now e))"

definition resp_kv_set_expiry :: "resp_env \<Rightarrow> bytes \<Rightarrow> int \<Rightarrow> resp_srv \<Rightarrow> resp_srv \<times> bool" where
  "resp_kv_set_expiry e k ts = on_kv False (\<lambda>t. lfkv_set_expiry (fst (kv_mem e)) t k ts (now e))"

definition resp_kv_count :: "resp_srv \<Rightarrow> nat" where
  "resp_kv_count s = (case kv s of None \<Rightarrow> 0 | Some t \<Rightarrow> unat (lfkv_count t))"

definition resp_kv_evict_expired :: "resp_env \<Rightarrow> resp_srv \<Rightarrow> resp_srv" where
  "resp_kv_evict_expired e s = fst (on_kv 0 (\<lambda>t. lfkv_evict_expired t (now e)) s)"

definition RESP_SWEEP_INTERVAL_US :: int where "RESP_SWEEP_INTERVAL_US = 1000000"

text \<open>The throttled sweep; the second component is the time of the last one.\<close>

definition resp_kv_maybe_sweep :: "resp_env \<Rightarrow> resp_srv \<Rightarrow> int \<Rightarrow> resp_srv \<times> int" where
  "resp_kv_maybe_sweep e s t0 =
     (if kv s = None \<or> resp_kv_count s = 0 \<or> now e - t0 < RESP_SWEEP_INTERVAL_US then (s, t0)
      else (resp_kv_evict_expired e s, now e))"

definition touch_obj :: "resp_env \<Rightarrow> bytes \<Rightarrow> nat \<Rightarrow> int \<Rightarrow> resp_srv \<Rightarrow> resp_srv \<times> bool" where
  "touch_obj e k a ts = on_kv False (\<lambda>t. lfkv_touch_if_value (fst (kv_mem e)) t k (Some a) ts (now e))"

definition set_xx_obj :: "resp_env \<Rightarrow> bytes \<Rightarrow> nat \<Rightarrow> resp_srv \<Rightarrow> resp_srv \<times> bool" where
  "set_xx_obj e k a = on_kv False (\<lambda>t. lfkv_set_xx (fst (kv_mem e)) t k (Some a) (now e))"

text \<open>\<open>lfkv_cas\<close> and \<open>lfkv_set_nx\<close> on the keyspace a command has ensured.\<close>

definition cas_obj :: "resp_env \<Rightarrow> bytes \<Rightarrow> nat \<Rightarrow> nat option \<Rightarrow> resp_srv \<Rightarrow> resp_srv \<times> bool" where
  "cas_obj e k old new = on_kv False (\<lambda>t. lfkv_cas (fst (kv_mem e)) t k (Some old) new (now e))"

definition set_nx_obj :: "resp_env \<Rightarrow> bytes \<Rightarrow> nat \<Rightarrow> resp_srv \<Rightarrow> (resp_srv \<times> bool) option" where
  "set_nx_obj e k a s =
     (case kv s of
        None \<Rightarrow> Some (s, False)
      | Some t \<Rightarrow> map_option (\<lambda>(t', ok). (s\<lparr>kv := Some t'\<rparr>, ok)) (lfkv_set_nx (kv_mem e) k (Some a) (now e) t))"

section \<open>Values of the keyspace\<close>

definition blob_bytes :: "exp \<Rightarrow> bytes" where
  "blob_bytes v = (case v of BLOB b \<Rightarrow> b | _ \<Rightarrow> [])"

definition isblob :: "exp \<Rightarrow> bool" where "isblob v = (case v of BLOB _ \<Rightarrow> True | _ \<Rightarrow> False)"
definition islist :: "exp \<Rightarrow> bool" where "islist v = (case v of LIST _ \<Rightarrow> True | _ \<Rightarrow> False)"
definition isdict :: "exp \<Rightarrow> bool" where "isdict v = (case v of DICT _ \<Rightarrow> True | _ \<Rightarrow> False)"
definition isvector :: "exp \<Rightarrow> bool" where
  "isvector v = (case v of VEC_GEN _ \<Rightarrow> True | VEC_I64 _ \<Rightarrow> True | VEC_F64 _ \<Rightarrow> True | _ \<Rightarrow> False)"

definition list_items :: "exp \<Rightarrow> exp list" where "list_items v = (case v of LIST l \<Rightarrow> l | _ \<Rightarrow> [])"
definition dict_ptr :: "exp \<Rightarrow> exp dict" where "dict_ptr v = (case v of DICT d \<Rightarrow> d | _ \<Rightarrow> create_dict)"

definition resp_dict_field_get :: "exp dict \<Rightarrow> bytes \<Rightarrow> exp option" where
  "resp_dict_field_get d fk = map_option kv_val (snd (set_get_keyval_dict d fk None))"

text \<open>Whether a field was created.\<close>

definition resp_dict_field_set :: "exp dict \<Rightarrow> bytes \<Rightarrow> exp \<Rightarrow> exp dict \<times> bool" where
  "resp_dict_field_set d fk v = (let d' = fst (set_get_keyval_dict d fk (Some v)) in (d', dict_used d' > dict_used d))"

definition resp_dict_field_del :: "exp dict \<Rightarrow> bytes \<Rightarrow> exp dict \<times> bool" where
  "resp_dict_field_del d fk = del_keyval_dict d fk"

definition resp_dict_clone :: "exp dict \<Rightarrow> exp dict" where
  "resp_dict_clone src = fold (\<lambda>x dst. fst (set_get_keyval_dict dst (kv_name x) (Some (kv_val x)))) (concat (dict_table src)) create_dict"

definition resp_list_clone :: "exp list \<Rightarrow> exp list" where
  "resp_list_clone src = foldl (\<lambda>l x. l @ [x]) [] src"

section \<open>Replies of errors\<close>

definition err :: "string \<Rightarrow> reply list" where "err m = [Error (bytes_of m)]"

definition wrong_args :: "reply list" where "wrong_args = err ''ERR wrong number of arguments''"
definition wrongtype :: "reply list" where
  "wrongtype = err ''WRONGTYPE Operation against a key holding the wrong kind of value''"
definition not_integer :: "reply list" where "not_integer = err ''ERR value is not an integer or out of range''"
definition no_memory :: "reply list" where "no_memory = err ''ERR out of memory''"
definition many_retries :: "reply list" where "many_retries = err ''ERR OOM or too many retries''"
definition syntax_error :: "reply list" where "syntax_error = err ''ERR syntax error''"
definition ok_reply :: "reply list" where "ok_reply = [Status (bytes_of ''OK'')]"

text \<open>A string literal with a word in quotes.\<close>

definition quoted :: "string \<Rightarrow> string \<Rightarrow> string" where
  "quoted m w = m @ [CHR 0x27] @ w @ [CHR 0x27]"

section \<open>Connection and key commands\<close>

definition cmd_ping :: "bytes list \<Rightarrow> resp_srv \<Rightarrow> cmd_result" where
  "cmd_ping argv s = Some (s,
     if length argv = 1 then [Status (bytes_of ''PONG'')]
     else if length argv = 2 then [Bulk (argv ! 1)]
     else err (quoted ''ERR wrong number of arguments for '' ''ping''))"

definition cmd_echo :: "bytes list \<Rightarrow> resp_srv \<Rightarrow> cmd_result" where
  "cmd_echo argv s = Some (s, if length argv \<noteq> 2 then wrong_args else [Bulk (argv ! 1)])"

definition cmd_quit :: "resp_srv \<Rightarrow> cmd_result" where
  "cmd_quit s = Some (s\<lparr>shut_rd := True\<rparr>, ok_reply)"

definition cmd_select :: "bytes list \<Rightarrow> resp_srv \<Rightarrow> cmd_result" where
  "cmd_select argv s = Some (s,
     if length argv \<noteq> 2 then wrong_args
     else if argv ! 1 = bytes_of ''0'' then ok_reply
     else err ''ERR DB index out of range (alcove RESP has 1 db)'')"

definition cmd_dbsize :: "resp_srv \<Rightarrow> cmd_result" where
  "cmd_dbsize s = Some (s, [Number (int (resp_kv_count s))])"

definition cmd_flushdb :: "resp_srv \<Rightarrow> cmd_result" where
  "cmd_flushdb s = Some (resp_kv_clear s, ok_reply)"

definition resp_keys_snap_cb :: "bytes \<Rightarrow> nat \<Rightarrow> int \<Rightarrow> bytes list \<Rightarrow> bool \<times> bytes list" where
  "resp_keys_snap_cb k v ts ks = (False, ks @ [k])"

definition cmd_keys_star :: "resp_env \<Rightarrow> bytes list \<Rightarrow> resp_srv \<Rightarrow> cmd_result" where
  "cmd_keys_star e argv s =
     (if length argv \<noteq> 2 then Some (s, wrong_args)
      else if argv ! 1 \<noteq> bytes_of ''*'' then Some (s, err ''ERR alcove RESP server only supports KEYS *'')
      else (let s1 = resp_kv_evict_expired e s in
        case kv s1 of
          None \<Rightarrow> Some (s1, [Header 0])
        | Some t \<Rightarrow> (let ks = lfkv_foreach t (now e) resp_keys_snap_cb [] in
            Some (s1, Header (int (length ks)) # map Bulk ks))))"

definition resp_type_name :: "exp \<Rightarrow> string" where
  "resp_type_name v =
     (if isblob v then ''string'' else if islist v then ''list'' else if isdict v then ''hash''
      else if isvector v then ''vector'' else ''none'')"

definition cmd_type :: "resp_env \<Rightarrow> bytes list \<Rightarrow> resp_srv \<Rightarrow> cmd_result" where
  "cmd_type e argv s =
     (if length argv \<noteq> 2 then Some (s, wrong_args)
      else case resp_kv_lookup e (argv ! 1) s of
        (s1, None) \<Rightarrow> Some (s1, [Status (bytes_of ''none'')])
      | (s1, Some a) \<Rightarrow> Some (s1, [Status (bytes_of (resp_type_name (obj s1 a)))]))"

fun del_loop :: "resp_env \<Rightarrow> bytes list \<Rightarrow> resp_srv \<Rightarrow> int \<Rightarrow> resp_srv \<times> int" where
  "del_loop e [] s n = (s, n)"
| "del_loop e (k # ks) s n = (let (s1, hit) = resp_kv_del e k s in del_loop e ks s1 (if hit then n + 1 else n))"

definition cmd_del :: "resp_env \<Rightarrow> bytes list \<Rightarrow> resp_srv \<Rightarrow> cmd_result" where
  "cmd_del e argv s =
     (if length argv < 2 then Some (s, wrong_args)
      else let (s1, n) = del_loop e (tl argv) s 0 in Some (s1, [Number n]))"

fun exists_loop :: "resp_env \<Rightarrow> bytes list \<Rightarrow> resp_srv \<Rightarrow> int \<Rightarrow> resp_srv \<times> int" where
  "exists_loop e [] s n = (s, n)"
| "exists_loop e (k # ks) s n =
     (let (s1, v) = resp_kv_lookup e k s in exists_loop e ks s1 (if v \<noteq> None then n + 1 else n))"

definition cmd_exists :: "resp_env \<Rightarrow> bytes list \<Rightarrow> resp_srv \<Rightarrow> cmd_result" where
  "cmd_exists e argv s =
     (if length argv < 2 then Some (s, wrong_args)
      else let (s1, n) = exists_loop e (tl argv) s 0 in Some (s1, [Number n]))"

definition bool_reply :: "bool \<Rightarrow> reply list" where
  "bool_reply b = [Number (if b then 1 else 0)]"

definition cmd_expire :: "resp_env \<Rightarrow> bool \<Rightarrow> bytes list \<Rightarrow> resp_srv \<Rightarrow> cmd_result" where
  "cmd_expire e millis argv s =
     (if length argv \<noteq> 3 then Some (s, wrong_args)
      else case resp_arg_to_ll (argv ! 2) of
        None \<Rightarrow> Some (s, not_integer)
      | Some delta \<Rightarrow>
          if delta \<le> 0 then (let (s1, hit) = resp_kv_del e (argv ! 1) s in Some (s1, bool_reply hit))
          else (let mul = (if millis then 1000 else 1000000) in
            if delta > INT64_MAX div mul \<or> delta * mul > INT64_MAX - now e
            then Some (s, err (quoted ''ERR invalid expire time in '' ''expire''))
            else (let (s1, hit) = resp_kv_set_expiry e (argv ! 1) (now e + delta * mul) s in Some (s1, bool_reply hit))))"

definition cmd_ttl :: "resp_env \<Rightarrow> bool \<Rightarrow> bytes list \<Rightarrow> resp_srv \<Rightarrow> cmd_result" where
  "cmd_ttl e millis argv s =
     (if length argv \<noteq> 2 then Some (s, wrong_args)
      else let (s1, ts) = resp_kv_get_expiry e (argv ! 1) s in
        if ts < 0 then Some (s1, [Number (-2)])
        else if ts = 0 then Some (s1, [Number (-1)])
        else (let left = max 0 (ts - now e) in
              Some (s1, [Number (if millis then left div 1000 else left div 1000000)])))"

definition cmd_persist :: "resp_env \<Rightarrow> bytes list \<Rightarrow> resp_srv \<Rightarrow> cmd_result" where
  "cmd_persist e argv s =
     (if length argv \<noteq> 2 then Some (s, wrong_args)
      else let (s1, ts) = resp_kv_get_expiry e (argv ! 1) s in
        if ts \<le> 0 then Some (s1, [Number 0])
        else Some (fst (resp_kv_set_expiry e (argv ! 1) 0 s1), [Number 1]))"

section \<open>String commands\<close>

text \<open>The options of \<open>SET\<close>: the time to live in microseconds (0 for none), \<open>NX\<close> and \<open>XX\<close>.\<close>

record set_opts =
  expire_us :: int
  have_expire :: bool
  nx :: bool
  xx :: bool

definition set_expire_error :: "reply list" where
  "set_expire_error = err (quoted ''ERR invalid expire time in '' ''set'')"

definition expire_opt :: "bytes \<Rightarrow> int \<Rightarrow> set_opts \<Rightarrow> reply list + set_opts" where
  "expire_opt arg unit o1 =
     (if have_expire o1 then Inl syntax_error
      else case resp_arg_to_ll arg of
        None \<Rightarrow> Inl set_expire_error
      | Some t \<Rightarrow> if t \<le> 0 \<or> t > INT64_MAX div unit then Inl set_expire_error
                  else Inr (o1\<lparr>expire_us := t * unit, have_expire := True\<rparr>))"

fun set_options :: "bytes list \<Rightarrow> set_opts \<Rightarrow> reply list + set_opts" where
  "set_options [] o1 = Inr o1"
| "set_options (a # as) o1 =
     (if resp_cmd_eq a (bytes_of ''EX'') \<and> as \<noteq> [] then
        (case expire_opt (hd as) 1000000 o1 of Inl r \<Rightarrow> Inl r | Inr o2 \<Rightarrow> set_options (tl as) o2)
      else if resp_cmd_eq a (bytes_of ''PX'') \<and> as \<noteq> [] then
        (case expire_opt (hd as) 1000 o1 of Inl r \<Rightarrow> Inl r | Inr o2 \<Rightarrow> set_options (tl as) o2)
      else if resp_cmd_eq a (bytes_of ''NX'') then set_options as (o1\<lparr>nx := True\<rparr>)
      else if resp_cmd_eq a (bytes_of ''XX'') then set_options as (o1\<lparr>xx := True\<rparr>)
      else Inl syntax_error)"

text \<open>Rewriting the value a key already has only clears its expiry.\<close>

definition set_fast :: "resp_env \<Rightarrow> bytes \<Rightarrow> bytes \<Rightarrow> resp_srv \<Rightarrow> resp_srv \<times> bool" where
  "set_fast e k v s =
     (case resp_kv_peek e k s of
        (s1, None) \<Rightarrow> (s1, False)
      | (s1, Some a) \<Rightarrow> if isblob (obj s1 a) \<and> blob_bytes (obj s1 a) = v then touch_obj e k a 0 s1 else (s1, False))"

definition set_deadline :: "resp_env \<Rightarrow> bytes \<Rightarrow> int \<Rightarrow> resp_srv \<Rightarrow> resp_srv" where
  "set_deadline e k us s =
     (if us = 0 then s
      else let deadline = (if us > INT64_MAX - now e then INT64_MAX else now e + us) in
        case resp_kv_peek e k s of
          (s1, None) \<Rightarrow> s1
        | (s1, Some a) \<Rightarrow> fst (touch_obj e k a deadline s1))"

definition set_slow :: "resp_env \<Rightarrow> set_opts \<Rightarrow> bytes \<Rightarrow> bytes \<Rightarrow> resp_srv \<Rightarrow> cmd_result" where
  "set_slow e opts k v s =
     (let (s1, fresh) = new_obj (BLOB v) s; s2 = resp_kv_ensure e s1 in
      if kv s2 = None then Some (s2, no_memory)
      else if nx opts \<or> xx opts then
        (case (if nx opts then set_nx_obj e k fresh s2 else Some (set_xx_obj e k fresh s2)) of
           None \<Rightarrow> None
         | Some (s3, True) \<Rightarrow> Some (set_deadline e k (expire_us opts) s3, ok_reply)
         | Some (s3, False) \<Rightarrow>
             (case resp_kv_peek e k s3 of (s4, cur) \<Rightarrow>
                Some (s4, if (nx opts \<and> cur = None) \<or> (xx opts \<and> cur \<noteq> None) then err ''ERR OOM in SET'' else [Null])))
      else
        (case resp_kv_set e k fresh s2 of
           (s3, False) \<Rightarrow> Some (s3, err ''ERR table full'')
         | (s3, True) \<Rightarrow> Some (set_deadline e k (expire_us opts) s3, ok_reply)))"

definition no_opts :: set_opts where
  "no_opts = \<lparr>expire_us = 0, have_expire = False, nx = False, xx = False\<rparr>"

definition cmd_set :: "resp_env \<Rightarrow> bytes list \<Rightarrow> resp_srv \<Rightarrow> cmd_result" where
  "cmd_set e argv s =
     (if length argv < 3 then Some (s, wrong_args)
      else case set_options (drop 3 argv) no_opts of
        Inl r \<Rightarrow> Some (s, r)
      | Inr opts \<Rightarrow>
          if nx opts \<and> xx opts then Some (s, syntax_error)
          else if \<not> nx opts \<and> \<not> xx opts \<and> expire_us opts = 0 \<and> kv s \<noteq> None then
            (case set_fast e (argv ! 1) (argv ! 2) s of
               (s1, True) \<Rightarrow> Some (s1, ok_reply)
             | (s1, False) \<Rightarrow> set_slow e opts (argv ! 1) (argv ! 2) s1)
          else set_slow e opts (argv ! 1) (argv ! 2) s)"

definition cmd_get :: "resp_env \<Rightarrow> bytes list \<Rightarrow> resp_srv \<Rightarrow> cmd_result" where
  "cmd_get e argv s =
     (if length argv \<noteq> 2 then Some (s, wrong_args)
      else case resp_kv_peek e (argv ! 1) s of
        (s1, None) \<Rightarrow> Some (s1, [Null])
      | (s1, Some a) \<Rightarrow> Some (s1, if \<not> isblob (obj s1 a) then wrongtype else [Bulk (blob_bytes (obj s1 a))]))"

definition cmd_strlen :: "resp_env \<Rightarrow> bytes list \<Rightarrow> resp_srv \<Rightarrow> cmd_result" where
  "cmd_strlen e argv s =
     (if length argv \<noteq> 2 then Some (s, wrong_args)
      else case resp_kv_peek e (argv ! 1) s of
        (s1, None) \<Rightarrow> Some (s1, [Number 0])
      | (s1, Some a) \<Rightarrow> Some (s1, if \<not> isblob (obj s1 a) then wrongtype
                                  else [Number (int (length (blob_bytes (obj s1 a))))]))"

text \<open>
  A loop that starts over when the exchange at its end fails, a bounded number of times.  One
  turn answers nothing when it has to be repeated.
\<close>

type_synonym turn = "resp_srv \<Rightarrow> (resp_srv \<times> reply list option) option"

fun retry :: "nat \<Rightarrow> turn \<Rightarrow> resp_srv \<Rightarrow> cmd_result" where
  "retry 0 f s = Some (s, many_retries)"
| "retry (Suc n) f s =
     (case f s of
        None \<Rightarrow> None
      | Some (s1, Some r) \<Rightarrow> Some (s1, r)
      | Some (s1, None) \<Rightarrow> retry n f s1)"

text \<open>The exchange: \<open>lfkv_cas\<close> against the value found, \<open>lfkv_set_nx\<close> when there was none.\<close>

definition swap_obj :: "resp_env \<Rightarrow> bytes \<Rightarrow> nat option \<Rightarrow> exp \<Rightarrow> reply list \<Rightarrow> turn" where
  "swap_obj e k cur v r s =
     (let (s1, fresh) = new_obj v s in
      case (case cur of Some a \<Rightarrow> Some (cas_obj e k a (Some fresh) s1) | None \<Rightarrow> set_nx_obj e k fresh s1) of
        None \<Rightarrow> None
      | Some (s2, ok) \<Rightarrow> Some (s2, if ok then Some r else None))"

definition resp_blob_to_ll :: "exp \<Rightarrow> int option" where
  "resp_blob_to_ll v = resp_arg_to_ll (blob_bytes v)"

definition incr_add :: "resp_env \<Rightarrow> bytes \<Rightarrow> nat option \<Rightarrow> int \<Rightarrow> int \<Rightarrow> turn" where
  "incr_add e k cur n delta s =
     (if (delta > 0 \<and> n > INT64_MAX - delta) \<or> (delta < 0 \<and> n < INT64_MIN - delta)
      then Some (s, Some (err ''ERR increment or decrement would overflow''))
      else swap_obj e k cur (BLOB (resp_i64_to_ascii (n + delta))) [Number (n + delta)] s)"

definition incr_turn :: "resp_env \<Rightarrow> bytes \<Rightarrow> int \<Rightarrow> turn" where
  "incr_turn e k delta s =
     (case resp_kv_lookup e k s of (s1, cur) \<Rightarrow>
      case cur of
        Some a \<Rightarrow>
          if \<not> isblob (obj s1 a) then Some (s1, Some wrongtype)
          else (case resp_blob_to_ll (obj s1 a) of
                  None \<Rightarrow> Some (s1, Some not_integer)
                | Some n \<Rightarrow> incr_add e k cur n delta s1)
      | None \<Rightarrow> incr_add e k cur 0 delta s1)"

definition resp_apply_incr :: "resp_env \<Rightarrow> bytes \<Rightarrow> int \<Rightarrow> resp_srv \<Rightarrow> cmd_result" where
  "resp_apply_incr e k delta s =
     (let s1 = resp_kv_ensure e s in
      if kv s1 = None then Some (s1, no_memory) else retry 1002 (incr_turn e k delta) s1)"

definition cmd_incr_decr :: "resp_env \<Rightarrow> int \<Rightarrow> bytes list \<Rightarrow> resp_srv \<Rightarrow> cmd_result" where
  "cmd_incr_decr e sign argv s =
     (if length argv \<noteq> 2 then Some (s, wrong_args) else resp_apply_incr e (argv ! 1) sign s)"

definition cmd_incrby_decrby :: "resp_env \<Rightarrow> int \<Rightarrow> bytes list \<Rightarrow> resp_srv \<Rightarrow> cmd_result" where
  "cmd_incrby_decrby e sign argv s =
     (if length argv \<noteq> 3 then Some (s, wrong_args)
      else case resp_arg_to_ll (argv ! 2) of
        None \<Rightarrow> Some (s, not_integer)
      | Some delta \<Rightarrow>
          if sign < 0 then (if delta = INT64_MIN then Some (s, not_integer) else resp_apply_incr e (argv ! 1) (- delta) s)
          else resp_apply_incr e (argv ! 1) delta s)"

definition append_turn :: "resp_env \<Rightarrow> bytes \<Rightarrow> bytes \<Rightarrow> turn" where
  "append_turn e k add s =
     (case resp_kv_lookup e k s of (s1, cur) \<Rightarrow>
      case cur of
        None \<Rightarrow> swap_obj e k None (BLOB add) [Number (int (length add))] s1
      | Some a \<Rightarrow>
          if \<not> isblob (obj s1 a) then Some (s1, Some wrongtype)
          else (let v = blob_bytes (obj s1 a) @ add in swap_obj e k cur (BLOB v) [Number (int (length v))] s1))"

definition cmd_append :: "resp_env \<Rightarrow> bytes list \<Rightarrow> resp_srv \<Rightarrow> cmd_result" where
  "cmd_append e argv s =
     (if length argv \<noteq> 3 then Some (s, wrong_args)
      else let s1 = resp_kv_ensure e s in
        if kv s1 = None then Some (s1, no_memory) else retry 1001 (append_turn e (argv ! 1) (argv ! 2)) s1)"

section \<open>List commands\<close>

definition push_all :: "bool \<Rightarrow> bytes list \<Rightarrow> exp list \<Rightarrow> exp list" where
  "push_all left vs l = foldl (\<lambda>l v. if left then BLOB v # l else l @ [BLOB v]) l vs"

definition push_turn :: "resp_env \<Rightarrow> bool \<Rightarrow> bytes \<Rightarrow> bytes list \<Rightarrow> turn" where
  "push_turn e left k vs s =
     (case resp_kv_lookup e k s of (s1, cur) \<Rightarrow>
      if (case cur of Some a \<Rightarrow> \<not> islist (obj s1 a) | None \<Rightarrow> False) then Some (s1, Some wrongtype)
      else (let l = push_all left vs (case cur of Some a \<Rightarrow> resp_list_clone (list_items (obj s1 a)) | None \<Rightarrow> []) in
            swap_obj e k cur (LIST l) [Number (int (length l))] s1))"

definition cmd_lpush_rpush :: "resp_env \<Rightarrow> bool \<Rightarrow> bytes list \<Rightarrow> resp_srv \<Rightarrow> cmd_result" where
  "cmd_lpush_rpush e left argv s =
     (if length argv < 3 then Some (s, wrong_args)
      else let s1 = resp_kv_ensure e s in
        if kv s1 = None then Some (s1, no_memory)
        else retry 1001 (push_turn e left (argv ! 1) (drop 2 argv)) s1)"

text \<open>The rest of the list is copied node by node, from the second one or up to the last.\<close>

definition pop_turn :: "resp_env \<Rightarrow> bool \<Rightarrow> bytes \<Rightarrow> turn" where
  "pop_turn e left k s =
     (case resp_kv_lookup e k s of
        (s1, None) \<Rightarrow> Some (s1, Some [Null])
      | (s1, Some a) \<Rightarrow>
          if \<not> islist (obj s1 a) then Some (s1, Some wrongtype)
          else (let src = list_items (obj s1 a) in
            if src = [] then Some (s1, Some [Null])
            else (let r = [Bulk (blob_bytes (if left then hd src else last src))] in
              if length src = 1 then
                (let (s2, ok) = cas_obj e k a None s1 in Some (s2, if ok then Some r else None))
              else swap_obj e k (Some a) (LIST (resp_list_clone (if left then tl src else butlast src))) r s1)))"

definition cmd_lpop_rpop :: "resp_env \<Rightarrow> bool \<Rightarrow> bytes list \<Rightarrow> resp_srv \<Rightarrow> cmd_result" where
  "cmd_lpop_rpop e left argv s =
     (if length argv \<noteq> 2 then Some (s, wrong_args) else retry 1001 (pop_turn e left (argv ! 1)) s)"

text \<open>A command that reads the value of a key of one type.\<close>

definition read_cmd :: "resp_env \<Rightarrow> bytes \<Rightarrow> (exp \<Rightarrow> bool) \<Rightarrow> reply list \<Rightarrow> (exp \<Rightarrow> reply list) \<Rightarrow> resp_srv \<Rightarrow> cmd_result" where
  "read_cmd e k ok absent f s =
     (case resp_kv_lookup e k s of
        (s1, None) \<Rightarrow> Some (s1, absent)
      | (s1, Some a) \<Rightarrow> Some (s1, if \<not> ok (obj s1 a) then wrongtype else f (obj s1 a)))"

definition cmd_llen :: "resp_env \<Rightarrow> bytes list \<Rightarrow> resp_srv \<Rightarrow> cmd_result" where
  "cmd_llen e argv s =
     (if length argv \<noteq> 2 then Some (s, wrong_args)
      else read_cmd e (argv ! 1) islist [Number 0] (\<lambda>v. [Number (int (length (list_items v)))]) s)"

text \<open>The node is reached from the end that is nearer.\<close>

definition list_walk :: "exp list \<Rightarrow> int \<Rightarrow> exp" where
  "list_walk l ni = (if ni < int (length l) div 2 then l ! nat ni else rev l ! nat (int (length l) - 1 - ni))"

definition cmd_lindex :: "resp_env \<Rightarrow> bytes list \<Rightarrow> resp_srv \<Rightarrow> cmd_result" where
  "cmd_lindex e argv s =
     (if length argv \<noteq> 3 then Some (s, wrong_args)
      else case resp_arg_to_ll (argv ! 2) of
        None \<Rightarrow> Some (s, not_integer)
      | Some idx \<Rightarrow>
          read_cmd e (argv ! 1) islist [Null]
            (\<lambda>v. let l = list_items v; ni = resp_norm_index idx (int (length l)) in
                 if ni < 0 then [Null] else [Bulk (blob_bytes (list_walk l ni))]) s)"

definition range_reply :: "int \<Rightarrow> int \<Rightarrow> exp list \<Rightarrow> reply list" where
  "range_reply start stop l =
     (let len = int (length l);
          i = (if start < 0 then max 0 (start + len) else start);
          j = (let j0 = (if stop < 0 then stop + len else stop) in if j0 \<ge> len then len - 1 else j0) in
      if i > j \<or> i \<ge> len then [Header 0]
      else Header (j - i + 1) # map (\<lambda>v. Bulk (blob_bytes v)) (take (nat (j - i + 1)) (drop (nat i) l)))"

definition cmd_lrange :: "resp_env \<Rightarrow> bytes list \<Rightarrow> resp_srv \<Rightarrow> cmd_result" where
  "cmd_lrange e argv s =
     (if length argv \<noteq> 4 then Some (s, wrong_args)
      else case (resp_arg_to_ll (argv ! 2), resp_arg_to_ll (argv ! 3)) of
        (Some start, Some stop) \<Rightarrow>
          read_cmd e (argv ! 1) islist [Header 0] (\<lambda>v. range_reply start stop (list_items v)) s
      | _ \<Rightarrow> Some (s, not_integer))"

section \<open>Hash commands\<close>

text \<open>A field with an embedded NUL is passed over.\<close>

fun hset_fields :: "bytes list \<Rightarrow> exp dict \<Rightarrow> int \<Rightarrow> exp dict \<times> int" where
  "hset_fields (f # v # rest) h created =
     (case resp_dup_key f of
        None \<Rightarrow> hset_fields rest h created
      | Some fk \<Rightarrow>
          (let (h', new) = resp_dict_field_set h fk (BLOB v) in hset_fields rest h' (if new then created + 1 else created)))"
| "hset_fields _ h created = (h, created)"

definition hset_turn :: "resp_env \<Rightarrow> bytes \<Rightarrow> bytes list \<Rightarrow> turn" where
  "hset_turn e k fvs s =
     (case resp_kv_lookup e k s of (s1, cur) \<Rightarrow>
      if (case cur of Some a \<Rightarrow> \<not> isdict (obj s1 a) | None \<Rightarrow> False) then Some (s1, Some wrongtype)
      else (let (h, created) = hset_fields fvs (case cur of Some a \<Rightarrow> resp_dict_clone (dict_ptr (obj s1 a)) | None \<Rightarrow> create_dict) 0 in
            swap_obj e k cur (DICT h) [Number created] s1))"

definition cmd_hset :: "resp_env \<Rightarrow> bytes list \<Rightarrow> resp_srv \<Rightarrow> cmd_result" where
  "cmd_hset e argv s =
     (if length argv < 4 then Some (s, wrong_args)
      else if (length argv - 2) mod 2 \<noteq> 0 then Some (s, err (quoted ''ERR wrong number of arguments for '' ''hset''))
      else let s1 = resp_kv_ensure e s in
        if kv s1 = None then Some (s1, no_memory)
        else retry 1001 (hset_turn e (argv ! 1) (drop 2 argv)) s1)"

definition field_of :: "exp dict \<Rightarrow> bytes \<Rightarrow> exp option" where
  "field_of h f = (case resp_dup_key f of None \<Rightarrow> None | Some fk \<Rightarrow> resp_dict_field_get h fk)"

definition cmd_hget :: "resp_env \<Rightarrow> bytes list \<Rightarrow> resp_srv \<Rightarrow> cmd_result" where
  "cmd_hget e argv s =
     (if length argv \<noteq> 3 then Some (s, wrong_args)
      else read_cmd e (argv ! 1) isdict [Null]
        (\<lambda>v. case field_of (dict_ptr v) (argv ! 2) of None \<Rightarrow> [Null] | Some fv \<Rightarrow> [Bulk (blob_bytes fv)]) s)"

fun hdel_fields :: "bytes list \<Rightarrow> exp dict \<Rightarrow> int \<Rightarrow> exp dict \<times> int" where
  "hdel_fields [] h n = (h, n)"
| "hdel_fields (f # fs) h n =
     (case resp_dup_key f of
        None \<Rightarrow> hdel_fields fs h n
      | Some fk \<Rightarrow> (let (h', hit) = resp_dict_field_del h fk in hdel_fields fs h' (if hit then n + 1 else n)))"

definition hdel_turn :: "resp_env \<Rightarrow> bytes \<Rightarrow> bytes list \<Rightarrow> turn" where
  "hdel_turn e k fs s =
     (case resp_kv_lookup e k s of
        (s1, None) \<Rightarrow> Some (s1, Some [Number 0])
      | (s1, Some a) \<Rightarrow>
          if \<not> isdict (obj s1 a) then Some (s1, Some wrongtype)
          else (let (h, n) = hdel_fields fs (resp_dict_clone (dict_ptr (obj s1 a))) 0 in
            if dict_used h = 0 then
              (let (s2, ok) = cas_obj e k a None s1 in Some (s2, if ok then Some [Number n] else None))
            else swap_obj e k (Some a) (DICT h) [Number n] s1))"

definition cmd_hdel :: "resp_env \<Rightarrow> bytes list \<Rightarrow> resp_srv \<Rightarrow> cmd_result" where
  "cmd_hdel e argv s =
     (if length argv < 3 then Some (s, wrong_args) else retry 1001 (hdel_turn e (argv ! 1) (drop 2 argv)) s)"

definition cmd_hexists :: "resp_env \<Rightarrow> bytes list \<Rightarrow> resp_srv \<Rightarrow> cmd_result" where
  "cmd_hexists e argv s =
     (if length argv \<noteq> 3 then Some (s, wrong_args)
      else read_cmd e (argv ! 1) isdict [Number 0] (\<lambda>v. bool_reply (field_of (dict_ptr v) (argv ! 2) \<noteq> None)) s)"

definition cmd_hlen :: "resp_env \<Rightarrow> bytes list \<Rightarrow> resp_srv \<Rightarrow> cmd_result" where
  "cmd_hlen e argv s =
     (if length argv \<noteq> 2 then Some (s, wrong_args)
      else read_cmd e (argv ! 1) isdict [Number 0] (\<lambda>v. [Number (int (dict_used (dict_ptr v)))]) s)"

definition hash_emit :: "bool \<Rightarrow> bool \<Rightarrow> exp dict \<Rightarrow> reply list" where
  "hash_emit keys vals h =
     Header (int (dict_used h) * (if keys \<and> vals then 2 else 1))
     # concat (map (\<lambda>x. (if keys then [Bulk (kv_name x)] else []) @ (if vals then [Bulk (blob_bytes (kv_val x))] else []))
                   (concat (dict_table h)))"

definition cmd_hkeys_hvals_hgetall :: "resp_env \<Rightarrow> bool \<Rightarrow> bool \<Rightarrow> bytes list \<Rightarrow> resp_srv \<Rightarrow> cmd_result" where
  "cmd_hkeys_hvals_hgetall e keys vals argv s =
     (if length argv \<noteq> 2 then Some (s, wrong_args)
      else read_cmd e (argv ! 1) isdict [Header 0] (\<lambda>v. hash_emit keys vals (dict_ptr v)) s)"

section \<open>Dispatch\<close>

definition run_kind :: "resp_kind_t \<Rightarrow> resp_env \<Rightarrow> bytes list \<Rightarrow> resp_srv \<Rightarrow> cmd_result" where
  "run_kind h e argv s = (case h of
     HK_PING \<Rightarrow> cmd_ping argv s
   | HK_ECHO \<Rightarrow> cmd_echo argv s
   | HK_QUIT \<Rightarrow> cmd_quit s
   | HK_COMMAND \<Rightarrow> Some (s, [Header 0])
   | HK_SELECT \<Rightarrow> cmd_select argv s
   | HK_DBSIZE \<Rightarrow> cmd_dbsize s
   | HK_FLUSHDB \<Rightarrow> cmd_flushdb s
   | HK_KEYS \<Rightarrow> cmd_keys_star e argv s
   | HK_TYPE \<Rightarrow> cmd_type e argv s
   | HK_DEL \<Rightarrow> cmd_del e argv s
   | HK_EXISTS \<Rightarrow> cmd_exists e argv s
   | HK_EXPIRE_S \<Rightarrow> cmd_expire e False argv s
   | HK_EXPIRE_MS \<Rightarrow> cmd_expire e True argv s
   | HK_TTL_S \<Rightarrow> cmd_ttl e False argv s
   | HK_TTL_MS \<Rightarrow> cmd_ttl e True argv s
   | HK_PERSIST \<Rightarrow> cmd_persist e argv s
   | HK_GET \<Rightarrow> cmd_get e argv s
   | HK_SET \<Rightarrow> cmd_set e argv s
   | HK_STRLEN \<Rightarrow> cmd_strlen e argv s
   | HK_INCR \<Rightarrow> cmd_incr_decr e 1 argv s
   | HK_DECR \<Rightarrow> cmd_incr_decr e (-1) argv s
   | HK_INCRBY \<Rightarrow> cmd_incrby_decrby e 1 argv s
   | HK_DECRBY \<Rightarrow> cmd_incrby_decrby e (-1) argv s
   | HK_APPEND \<Rightarrow> cmd_append e argv s
   | HK_LPUSH \<Rightarrow> cmd_lpush_rpush e True argv s
   | HK_RPUSH \<Rightarrow> cmd_lpush_rpush e False argv s
   | HK_LPOP \<Rightarrow> cmd_lpop_rpop e True argv s
   | HK_RPOP \<Rightarrow> cmd_lpop_rpop e False argv s
   | HK_LLEN \<Rightarrow> cmd_llen e argv s
   | HK_LINDEX \<Rightarrow> cmd_lindex e argv s
   | HK_LRANGE \<Rightarrow> cmd_lrange e argv s
   | HK_HSET \<Rightarrow> cmd_hset e argv s
   | HK_HGET \<Rightarrow> cmd_hget e argv s
   | HK_HDEL \<Rightarrow> cmd_hdel e argv s
   | HK_HEXISTS \<Rightarrow> cmd_hexists e argv s
   | HK_HLEN \<Rightarrow> cmd_hlen e argv s
   | HK_HKEYS \<Rightarrow> cmd_hkeys_hvals_hgetall e True False argv s
   | HK_HVALS \<Rightarrow> cmd_hkeys_hvals_hgetall e False True argv s
   | HK_HGETALL \<Rightarrow> cmd_hkeys_hvals_hgetall e True True argv s
   | HK_SAVE \<Rightarrow> Some (s, save_cmd e argv)
   | HK_BGSAVE \<Rightarrow> Some (s, save_cmd e argv))"

text \<open>
  An unknown command is named in the error, up to its first NUL; the line is cut to what a buffer
  of 256 bytes holds.
\<close>

definition unknown_command :: "bytes \<Rightarrow> reply list" where
  "unknown_command cmd = [Error (take 255 (bytes_of (''ERR unknown command '' @ [CHR 0x27]) @ c_str cmd @ bytes_of [CHR 0x27]))]"

definition resp_dispatch :: "resp_cmd_table \<Rightarrow> resp_env \<Rightarrow> bytes list \<Rightarrow> resp_srv \<Rightarrow> cmd_result" where
  "resp_dispatch tbl e argv s =
     (if length argv < 1 then Some (s, [])
      else case resp_cmd_lookup tbl (argv ! 0) of
        Some h \<Rightarrow> run_kind h e argv s
      | None \<Rightarrow>
          (case user_cmd e argv s of
             Some r \<Rightarrow> r
           | None \<Rightarrow> Some (s, unknown_command (argv ! 0))))"

section \<open>The input of a client\<close>

text \<open>
  The read buffer is a window \<open>[rhead, rlen)\<close> of memory; \<open>pool\<close> is the capacity of the pool of
  arguments.
\<close>

record resp_in =
  rbuf :: bytes
  rhead :: nat
  rlen :: nat
  pool :: nat

definition rcap :: "resp_in \<Rightarrow> nat" where
  "rcap c = length (rbuf c)"

definition window :: "resp_in \<Rightarrow> bytes" where
  "window c = take (rlen c - rhead c) (drop (rhead c) (rbuf c))"

definition RESP_RBUF_INIT :: nat where "RESP_RBUF_INIT = 4096"
definition RESP_RBUF_MAX :: nat where "RESP_RBUF_MAX = 16777216"

definition resp_client_new :: resp_in where
  "resp_client_new = \<lparr>rbuf = replicate RESP_RBUF_INIT 0, rhead = 0, rlen = 0, pool = RESP_ARGV_POOL_INIT\<rparr>"

lemma input_step:
  assumes "(Parsed taken sl, cap) = resp_parse_one al (window c) (pool c)"
  shows "length (window (c\<lparr>pool := cap, rhead := rhead c + taken\<rparr>)) < length (window c)"
  using parse_one_bounds [OF assms [symmetric]] by (auto simp: window_def)

text \<open>
  The loop over the commands in the window; the \<open>i\<close>th runs under \<open>es i\<close>.  The end of the loop
  resets an empty window.
\<close>

function input_loop :: "(nat \<Rightarrow> bool) \<Rightarrow> resp_cmd_table \<Rightarrow> (nat \<Rightarrow> resp_env) \<Rightarrow> nat \<Rightarrow> resp_in \<Rightarrow> resp_srv
    \<Rightarrow> (resp_in \<times> resp_srv \<times> reply list \<times> bool) option" where
  "input_loop al tbl es i c s =
     (case resp_parse_one al (window c) (pool c) of
        (Need_more, cap) \<Rightarrow> Some (c\<lparr>pool := cap\<rparr>, s, [], True)
      | (Protocol_error, cap) \<Rightarrow> Some (c\<lparr>pool := cap\<rparr>, s\<lparr>shut_rd := True\<rparr>, err ''ERR Protocol error'', False)
      | (Parsed taken sl, cap) \<Rightarrow>
          (case resp_dispatch tbl (es i) (slices (window c) sl) s of
             None \<Rightarrow> None
           | Some (s1, r) \<Rightarrow>
               (case input_loop al tbl es (i + 1) (c\<lparr>pool := cap, rhead := rhead c + taken\<rparr>) s1 of
                  None \<Rightarrow> None
                | Some (c2, s2, rs, fine) \<Rightarrow> Some (c2, s2, r @ rs, fine))))"
  by pat_completeness auto
termination
  by (relation "measure (\<lambda>(al, tbl, es, i, c, s). length (window c))") (simp_all add: input_step)

declare input_loop.simps [simp del]

definition resp_process_input :: "(nat \<Rightarrow> bool) \<Rightarrow> resp_cmd_table \<Rightarrow> (nat \<Rightarrow> resp_env) \<Rightarrow> resp_in \<Rightarrow> resp_srv
    \<Rightarrow> (resp_in \<times> resp_srv \<times> reply list) option" where
  "resp_process_input al tbl es c s =
     (case input_loop al tbl es 0 c s of
        None \<Rightarrow> None
      | Some (c1, s1, rs, fine) \<Rightarrow>
          Some (if fine \<and> rhead c1 = rlen c1 then c1\<lparr>rhead := 0, rlen := 0\<rparr> else c1, s1, rs))"

text \<open>
  Before a read the window slides to the start of the buffer when there is little room after it,
  and the buffer doubles up to its bound; \<open>None\<close> when the client is dropped instead.
\<close>

definition read_slide :: "resp_in \<Rightarrow> resp_in" where
  "read_slide c =
     (if rlen c + 4096 > rcap c \<and> rhead c > 0
      then (let live = rlen c - rhead c in
            c\<lparr>rbuf := take live (drop (rhead c) (rbuf c)) @ drop live (rbuf c), rlen := live, rhead := 0\<rparr>)
      else c)"

definition read_room :: "(nat \<Rightarrow> bool) \<Rightarrow> resp_in \<Rightarrow> resp_in option" where
  "read_room al c0 =
     (let c = read_slide c0 in
      if rlen c + 4096 > rcap c then
        (if rcap c \<ge> RESP_RBUF_MAX then None
         else (let cap = min (rcap c * 2) RESP_RBUF_MAX in
           if \<not> al cap then None else Some (c\<lparr>rbuf := rbuf c @ replicate (cap - rcap c) 0\<rparr>)))
      else Some c)"

text \<open>\<open>read\<close> puts the bytes \<open>p\<close> of the socket, at most as many as there is room for, after the window.\<close>

definition read_bytes :: "bytes \<Rightarrow> resp_in \<Rightarrow> resp_in" where
  "read_bytes p c = c\<lparr>rbuf := put_at (rlen c) p (rbuf c), rlen := rlen c + length p\<rparr>"

text \<open>A readable socket that delivers \<open>p\<close>; \<open>None\<close> inside when the client is dropped.\<close>

definition resp_client_read :: "(nat \<Rightarrow> bool) \<Rightarrow> resp_cmd_table \<Rightarrow> (nat \<Rightarrow> resp_env) \<Rightarrow> bytes \<Rightarrow> resp_in \<Rightarrow> resp_srv
    \<Rightarrow> (resp_in \<times> resp_srv \<times> reply list) option option" where
  "resp_client_read al tbl es p c s =
     (case read_room al c of
        None \<Rightarrow> Some None
      | Some c1 \<Rightarrow>
          if p = [] then Some None
          else map_option Some (resp_process_input al tbl es (read_bytes (take (rcap c1 - rlen c1) p) c1) s))"

end
