(* ===== verification/RespSpec.thy ===== *)
theory RespSpec
  imports RespCmds
begin

text \<open>
  What the commands of the server promise: a map from keys to strings, lists and hashes with
  expiries, in which a key disappears when its time comes, and the proof that the commands of
  \<open>RespCmds\<close> implement it on the lock-free table.
\<close>

section \<open>The abstract database\<close>

datatype rvalue = Str bytes | Lst "bytes list" | Hsh "bytes \<rightharpoonup> bytes" | Other exp

type_synonym rdb = "bytes \<rightharpoonup> rvalue \<times> int"

definition hash_map :: "exp dict \<Rightarrow> bytes \<rightharpoonup> bytes" where
  "hash_map d = (\<lambda>f. if 0 \<in> set f then None else map_option blob_bytes (dict_lookup d f))"

definition abs_val :: "exp \<Rightarrow> rvalue" where
  "abs_val v = (case v of BLOB b \<Rightarrow> Str b | LIST l \<Rightarrow> Lst (map blob_bytes l) | DICT d \<Rightarrow> Hsh (hash_map d) | _ \<Rightarrow> Other v)"

definition val_ok :: "exp \<Rightarrow> bool" where
  "val_ok v = (case v of LIST l \<Rightarrow> list_all isblob l | DICT d \<Rightarrow> dict_ok d \<and> list_all (\<lambda>x. isblob (kv_val x)) (dict_entries d) | _ \<Rightarrow> True)"

definition obj_ok :: "resp_srv \<Rightarrow> nat option \<Rightarrow> bool" where
  "obj_ok s x = (\<exists>a. x = Some a \<and> a < length (objs s) \<and> val_ok (obj s a))"

definition ents :: "resp_srv \<Rightarrow> bytes \<rightharpoonup> lfentry" where
  "ents s = (case kv s of None \<Rightarrow> Map.empty | Some t \<Rightarrow> lfkv_map t)"

definition srv_ok :: "resp_srv \<Rightarrow> bool" where
  "srv_ok s = ((\<forall>t. kv s = Some t \<longrightarrow> lf_ok t) \<and> (\<forall>en \<in> ran (ents s). obj_ok s (e_val en)))"

definition deref :: "exp list \<Rightarrow> (bytes \<rightharpoonup> lfentry) \<Rightarrow> rdb" where
  "deref os E = (\<lambda>k. map_option (\<lambda>en. (abs_val (os ! the (e_val en)), e_expiry en)) (E k))"

text \<open>The database at a time, and the address of a key's value.\<close>

definition view :: "int \<Rightarrow> resp_srv \<Rightarrow> rdb" where
  "view n s = deref (objs s) (purge n (ents s))"

definition addr :: "int \<Rightarrow> resp_srv \<Rightarrow> bytes \<Rightarrow> nat option" where
  "addr n s k = Option.bind (purge n (ents s) k) e_val"

section \<open>The operations on the table\<close>

fun op_vals :: "lf_op \<Rightarrow> nat option list" where
  "op_vals (L_set k v) = [v]"
| "op_vals (L_set_xx k v) = [v]"
| "op_vals (L_cas k x v) = (if v = None then [] else [v])"
| "op_vals _ = []"

lemma exact_vals:
  assumes "\<forall>en \<in> ran M. P (e_val en)" "\<forall>v \<in> set (op_vals op). P v"
  shows "\<forall>en \<in> ran (fst (lf_exact op n M)). P (e_val en)"
proof -
  have d: "en \<in> ran M" if "en \<in> ran (M(k := None))" for k en
    using that by (auto simp: ran_def split: if_splits)
  have u: "en = e \<or> en \<in> ran M" if "en \<in> ran (M(k \<mapsto> e))" for k e en
    using that by (auto simp: ran_def split: if_splits)
  have m: "P x" if "M k = Some e" "e_val e = x" for k e x using that assms(1) by (auto simp: ran_def)
  show ?thesis
    by (cases op) (use assms in \<open>auto simp: on_entry_def simp del: fun_upd_apply dest!: u d intro: m split: option.splits if_splits\<close>)
qed

definition is_set :: "lf_op \<Rightarrow> bool" where "is_set op = (case op of L_set _ _ \<Rightarrow> True | _ \<Rightarrow> False)"

lemma put_slots [simp]: "slots (put_entry a x t) = slots t" "slots (refexp v t) = slots t" "slots (emit o1 k v t) = slots t"
  "slots (slot_retire_entry a e t) = slots t" "slots (swap_entry a e e' t) = slots t"
  by (simp_all add: put_entry_def refexp_def emit_def slot_retire_entry_def swap_entry_def split: option.split)

lemma with_entry_slots:
  assumes "\<And>a e. slots (fst (f a e t)) = slots t"
  shows "slots (fst (with_entry found n d f t)) = slots t"
  using assms by (auto simp: with_entry_def split: option.splits)

lemma lf_do_slots: "\<not> is_set op \<Longrightarrow> slots (fst (lf_do op n t)) = slots t"
  by (cases op)
    (auto simp: is_set_def split_beta Let_def lfkv_get_def lfkv_peek_def lfkv_del_def lfkv_set_expiry_def lfkv_get_expiry_def
      lfkv_touch_if_value_def lfkv_set_xx_def lfkv_cas_def intro!: with_entry_slots split: option.splits)

text \<open>An operation of \<open>Lfkv\<close> on the server's table.\<close>

definition kept :: "int \<Rightarrow> resp_srv \<Rightarrow> resp_srv \<Rightarrow> bool" where
  "kept n s s1 = (srv_ok s1 \<and> objs s1 = objs s \<and> shut_rd s1 = shut_rd s
     \<and> map_option slots (kv s1) = map_option slots (kv s) \<and> purge n (ents s1) = purge n (ents s))"

definition kv_do :: "lf_op \<Rightarrow> int \<Rightarrow> lf_res \<Rightarrow> resp_srv \<Rightarrow> resp_srv \<times> lf_res" where
  "kv_do op n d s = on_kv d (lf_do op n) s"

lemma kv_do_ok:
  assumes "srv_ok s" "key_legal (lf_key op)" "\<forall>v \<in> set (op_vals op). obj_ok s v"
    and "kv_do op n d s = (s1, r)" "r \<noteq> R_set False"
  shows "kv s = None \<and> s1 = s \<and> r = d
    \<or> kv s \<noteq> None \<and> srv_ok s1 \<and> objs s1 = objs s \<and> shut_rd s1 = shut_rd s \<and> kv s1 \<noteq> None
      \<and> (\<not> is_set op \<longrightarrow> map_option slots (kv s1) = map_option slots (kv s))
      \<and> purge n (ents s1) = purge n (fst (lf_spec op (purge n (ents s)))) \<and> r = snd (lf_spec op (purge n (ents s)))"
proof (cases "kv s")
  case None
  then show ?thesis using assms(4) by (simp add: kv_do_def on_kv_def)
next
  case (Some t)
  obtain t1 r1 where t1: "lf_do op n t = (t1, r1)" by (metis surj_pair)
  have s1: "s1 = s\<lparr>kv := Some t1\<rparr>" "r = r1" using assms(4) Some t1 by (simp_all add: kv_do_def on_kv_def)
  have ok: "lf_ok t" "ents s = lfkv_map t" using assms(1) Some by (simp_all add: srv_ok_def ents_def)
  have x: "lf_ok t1" "(lfkv_map t1, r) = lf_exact op n (lfkv_map t)"
    using lf_do_exact [OF ok(1) assms(2) t1] assms(5) s1 by simp_all
  obtain N r' where sp: "lf_spec op (purge n (lfkv_map t)) = (N, r')" by (metis surj_pair)
  have e: "r = r'" "purge n (lfkv_map t1) = purge n N" using exact_spec [OF x(2) [symmetric] sp] by simp_all
  have o1: "obj_ok s1 v = obj_ok s v" for v using s1 by (simp add: obj_ok_def obj_def)
  have m: "lfkv_map t1 = fst (lf_exact op n (lfkv_map t))" using x(2) by (metis fst_conv)
  have "\<forall>en \<in> ran (lfkv_map t1). obj_ok s (e_val en)"
    unfolding m by (rule exact_vals) (use assms(1,3) ok(2) in \<open>auto simp: srv_ok_def\<close>)
  then have "srv_ok s1" using x(1) s1 o1 by (simp add: srv_ok_def ents_def)
  moreover have "\<not> is_set op \<longrightarrow> slots t1 = slots t" using lf_do_slots [of op n t] t1 by auto
  ultimately show ?thesis using s1 Some e sp ok(2) by (simp add: ents_def)
qed

lemma kept_refl [simp]: "srv_ok s \<Longrightarrow> kept n s s"
  by (simp add: kept_def)

lemma keptD:
  assumes "kept n s s1"
  shows "srv_ok s1" "view n s1 = view n s" "addr n s1 k = addr n s k" "obj s1 a = obj s a" "objs s1 = objs s"
    "obj_ok s1 v = obj_ok s v" "shut_rd s1 = shut_rd s"
  using assms by (simp_all add: kept_def view_def addr_def obj_def obj_ok_def)

lemma kept_None: "kept n s s1 \<Longrightarrow> (kv s1 = None) = (kv s = None)"
  by (cases "kv s"; cases "kv s1") (simp_all add: kept_def)

lemma addr_obj:
  assumes "srv_ok s" "addr n s k = Some a"
  shows "a < length (objs s)" "val_ok (obj s a)" "obj_ok s (Some a)" "\<exists>x. view n s k = Some (abs_val (obj s a), x)"
proof -
  obtain en where en: "purge n (ents s) k = Some en" "e_val en = Some a"
    using assms(2) by (auto simp: addr_def bind_eq_Some_conv)
  then have "ents s k = Some en" by (auto simp: purge_k split: option.splits if_splits)
  then have "obj_ok s (e_val en)" using assms(1) by (auto simp: srv_ok_def ran_def)
  then show "a < length (objs s)" "val_ok (obj s a)" "obj_ok s (Some a)" using en by (auto simp: obj_ok_def)
  show "\<exists>x. view n s k = Some (abs_val (obj s a), x)" using en by (simp add: view_def deref_def obj_def)
qed

lemma addr_none:
  assumes "srv_ok s" "addr n s k = None"
  shows "purge n (ents s) k = None" "view n s k = None"
proof -
  show p: "purge n (ents s) k = None"
  proof (rule ccontr)
    assume "purge n (ents s) k \<noteq> None"
    then obtain en where en: "purge n (ents s) k = Some en" by blast
    then have "ents s k = Some en" by (auto simp: purge_k split: option.splits if_splits)
    then have "obj_ok s (e_val en)" using assms(1) by (auto simp: srv_ok_def ran_def)
    then show False using assms(2) en by (auto simp: obj_ok_def addr_def)
  qed
  then show "view n s k = None" by (simp add: view_def deref_def)
qed

lemma view_at:
  assumes "srv_ok s"
  shows "view n s k = (case addr n s k of None \<Rightarrow> None | Some a \<Rightarrow> Some (abs_val (obj s a), e_expiry (the (purge n (ents s) k))))"
proof (cases "addr n s k")
  case None
  then show ?thesis using addr_none [OF assms] by simp
next
  case (Some a)
  then obtain en where "purge n (ents s) k = Some en" "e_val en = Some a" by (auto simp: addr_def bind_eq_Some_conv)
  then show ?thesis using Some by (simp add: view_def deref_def obj_def)
qed

text \<open>Reading.\<close>

lemma kv_do_read:
  assumes "srv_ok s" "key_legal (lf_key op)" "op_vals op = []" "\<not> is_set op" "fst (lf_spec op (purge n (ents s))) = purge n (ents s)"
    and "kv_do op n d s = (s1, r)" "kv s = None \<longrightarrow> d = snd (lf_spec op (purge n (ents s)))" "r \<noteq> R_set False"
  shows "kept n s s1 \<and> r = snd (lf_spec op (purge n (ents s)))"
  using kv_do_ok [OF assms(1,2) _ assms(6,8)] assms by (auto simp: kept_def purge_later)

lemma lookup_ok:
  assumes "srv_ok s" "key_legal k" "resp_kv_lookup e k s = (s1, v)"
  shows "kept (now e) s s1 \<and> v = addr (now e) s k"
proof -
  have "kv_do (L_get k) (now e) (R_val None) s = (s1, R_val v)"
    using assms(3) by (auto simp: kv_do_def resp_kv_lookup_def on_kv_def split_beta Let_def split: option.splits)
  from kv_do_read [OF assms(1) _ _ _ _ this] show ?thesis
    using assms by (auto simp: addr_def ents_def is_set_def purge_def)
qed

lemma peek_ok:
  assumes "srv_ok s" "key_legal k" "resp_kv_peek e k s = (s1, v)"
  shows "kept (now e) s s1 \<and> v = addr (now e) s k"
proof -
  have "kv_do (L_peek k) (now e) (R_val None) s = (s1, R_val v)"
    using assms(3) by (auto simp: kv_do_def resp_kv_peek_def on_kv_def split_beta Let_def split: option.splits)
  from kv_do_read [OF assms(1) _ _ _ _ this] show ?thesis
    using assms by (auto simp: addr_def ents_def is_set_def purge_def)
qed

lemma get_expiry_ok:
  assumes "srv_ok s" "key_legal k" "resp_kv_get_expiry e k s = (s1, v)"
  shows "kept (now e) s s1 \<and> v = (case view (now e) s k of None \<Rightarrow> -1 | Some (x, t) \<Rightarrow> t)"
proof -
  let ?M = "purge (now e) (ents s)"
  have "kv_do (L_get_expiry k) (now e) (R_ts (-1)) s = (s1, R_ts v)"
    using assms(3) by (auto simp: kv_do_def resp_kv_get_expiry_def on_kv_def split_beta Let_def split: option.splits)
  from kv_do_read [OF assms(1) _ _ _ _ this]
  have 1: "kept (now e) s s1" "v = (case ?M k of None \<Rightarrow> -1 | Some e \<Rightarrow> if e_val e = None then -1 else e_expiry e)"
    using assms by (auto simp: ents_def is_set_def purge_def)
  moreover have "addr (now e) s k = (case ?M k of None \<Rightarrow> None | Some en \<Rightarrow> e_val en)"
    by (simp add: addr_def split: option.split)
  ultimately show ?thesis using view_at [OF assms(1), of "now e" k] by (auto split: option.splits)
qed

text \<open>Writing: the view afterwards.\<close>

lemma view_upd:
  assumes "purge n (ents s1) = purge n ((purge n (ents s))(k := x))" "objs s1 = objs s"
  shows "view n s1 = (view n s)(k := map_option (\<lambda>en. (abs_val (obj s (the (e_val en))), e_expiry en))
      (Option.bind x (\<lambda>en. if entry_expired en n then None else Some en)))"
  using assms by (auto simp: view_def deref_def obj_def purge_upd purge_later fun_eq_iff)

lemma kv_do_write:
  assumes "srv_ok s" "key_legal (lf_key op)" "\<forall>v \<in> set (op_vals op). obj_ok s v"
    and "kv_do op n d s = (s1, r)" "r \<noteq> R_set False" "\<not> is_set op" "lf_spec op Map.empty = (Map.empty, d)"
  shows "srv_ok s1 \<and> objs s1 = objs s \<and> shut_rd s1 = shut_rd s \<and> map_option slots (kv s1) = map_option slots (kv s)
    \<and> purge n (ents s1) = purge n (fst (lf_spec op (purge n (ents s)))) \<and> r = snd (lf_spec op (purge n (ents s)))"
proof (cases "kv s")
  case None
  have "purge n Map.empty = Map.empty" by (simp add: purge_def)
  then show ?thesis using kv_do_ok [OF assms(1-5)] None assms(1,7) by (auto simp: ents_def)
next
  case (Some t)
  then show ?thesis using kv_do_ok [OF assms(1-5)] assms(6) by auto
qed

lemma del_ok:
  assumes "srv_ok s" "key_legal k" "resp_kv_del e k s = (s1, b)"
  shows "srv_ok s1 \<and> objs s1 = objs s \<and> shut_rd s1 = shut_rd s \<and> b = (view (now e) s k \<noteq> None)
    \<and> view (now e) s1 = (view (now e) s)(k := None)"
proof -
  have "kv_do (L_del k) (now e) (R_ok False) s = (s1, R_ok b)"
    using assms(3) by (auto simp: kv_do_def resp_kv_del_def on_kv_def split_beta Let_def split: option.splits)
  note w = kv_do_write [OF assms(1) _ _ this, simplified, OF assms(2), unfolded is_set_def, simplified]
  have "view (now e) s1 = (view (now e) s)(k := None)" using view_upd [of "now e" s1 s k None] w by simp
  then show ?thesis using w by (simp add: view_def deref_def)
qed

lemma view_keep: "purge n (ents s1) = purge n (ents s) \<Longrightarrow> objs s1 = objs s \<Longrightarrow> view n s1 = view n s"
  by (simp add: view_def)

lemma set_expiry_ok:
  assumes "srv_ok s" "key_legal k" "resp_kv_set_expiry e k ts s = (s1, b)" "fst (kv_mem e)" "ts = 0 \<or> ts > now e"
  shows "srv_ok s1 \<and> objs s1 = objs s \<and> shut_rd s1 = shut_rd s \<and> b = (view (now e) s k \<noteq> None)
    \<and> view (now e) s1 = (case view (now e) s k of None \<Rightarrow> view (now e) s | Some (v, x) \<Rightarrow> (view (now e) s)(k \<mapsto> (v, ts)))"
proof -
  have "kv_do (L_set_expiry k ts) (now e) (R_ok False) s = (s1, R_ok b)"
    using assms(3,4) by (auto simp: kv_do_def resp_kv_set_expiry_def on_kv_def split_beta Let_def split: option.splits)
  note w = kv_do_write [OF assms(1) _ _ this, simplified, OF assms(2), unfolded is_set_def, simplified]
  show ?thesis
  proof (cases "addr (now e) s k")
    case None
    note n = addr_none [OF assms(1) None]
    show ?thesis using w n view_keep [of "now e" s1 s] by (simp add: purge_later)
  next
    case (Some a)
    let ?en = "\<lparr>e_val = Some a, e_expiry = ts\<rparr>"
    have ex: "\<not> entry_expired ?en (now e)" using assms(5) by (auto simp: entry_expired_def)
    have p: "purge (now e) (ents s1) = purge (now e) ((purge (now e) (ents s))(k := Some ?en))" "b"
      using w Some by (simp_all add: addr_def del: fun_upd_apply)
    show ?thesis using view_upd [OF p(1)] w ex p(2) Some view_at [OF assms(1), of "now e" k] by simp
  qed
qed

lemma touch_ok:
  assumes "srv_ok s" "key_legal k" "touch_obj e k a ts s = (s1, b)" "fst (kv_mem e)" "ts = 0 \<or> ts > now e"
    "addr (now e) s k = Some a"
  shows "srv_ok s1 \<and> objs s1 = objs s \<and> shut_rd s1 = shut_rd s \<and> b
    \<and> view (now e) s1 = (view (now e) s)(k \<mapsto> (abs_val (obj s a), ts))"
proof -
  have "kv_do (L_touch k (Some a) ts) (now e) (R_ok False) s = (s1, R_ok b)"
    using assms(3,4) by (auto simp: kv_do_def touch_obj_def on_kv_def split_beta Let_def split: option.splits)
  note w = kv_do_write [OF assms(1) _ _ this, simplified, OF assms(2), unfolded is_set_def, simplified]
  let ?en = "\<lparr>e_val = Some a, e_expiry = ts\<rparr>"
  have ex: "\<not> entry_expired ?en (now e)" using assms(5) by (auto simp: entry_expired_def)
  have "map_option e_val (purge (now e) (ents s) k) = Some (Some a)"
    using assms(6) by (auto simp: addr_def bind_eq_Some_conv)
  then have p: "purge (now e) (ents s1) = purge (now e) ((purge (now e) (ents s))(k := Some ?en))" "b"
    using w by (simp_all del: fun_upd_apply)
  show ?thesis using view_upd [OF p(1)] w ex p(2) by simp
qed

lemma set_xx_ok:
  assumes "srv_ok s" "key_legal k" "set_xx_obj e k a s = (s1, b)" "fst (kv_mem e)" "obj_ok s (Some a)"
  shows "srv_ok s1 \<and> objs s1 = objs s \<and> shut_rd s1 = shut_rd s \<and> b = (view (now e) s k \<noteq> None)
    \<and> view (now e) s1 = (if b then (view (now e) s)(k \<mapsto> (abs_val (obj s a), 0)) else view (now e) s)"
proof -
  have "kv_do (L_set_xx k (Some a)) (now e) (R_ok False) s = (s1, R_ok b)"
    using assms(3,4) by (auto simp: kv_do_def set_xx_obj_def on_kv_def split_beta Let_def split: option.splits)
  note w = kv_do_write [OF assms(1) _ _ this, simplified, OF assms(2) assms(5), unfolded is_set_def, simplified]
  let ?en = "\<lparr>e_val = Some a, e_expiry = 0\<rparr>"
  have ex: "\<not> entry_expired ?en (now e)" by (simp add: entry_expired_def)
  show ?thesis
  proof (cases "addr (now e) s k")
    case None
    note n = addr_none [OF assms(1) None]
    show ?thesis using w n view_keep [of "now e" s1 s] by (simp add: purge_later)
  next
    case (Some c)
    then obtain en where "purge (now e) (ents s) k = Some en" by (auto simp: addr_def bind_eq_Some_conv)
    then have p: "purge (now e) (ents s1) = purge (now e) ((purge (now e) (ents s))(k := Some ?en))" "b"
      using w by (simp_all del: fun_upd_apply)
    show ?thesis using view_upd [OF p(1)] w ex p(2) Some view_at [OF assms(1), of "now e" k] by simp
  qed
qed

lemma cas_ok:
  assumes "srv_ok s" "key_legal k" "cas_obj e k a new s = (s1, b)" "fst (kv_mem e)" "new = None \<or> obj_ok s new"
    "addr (now e) s k = Some a"
  shows "srv_ok s1 \<and> objs s1 = objs s \<and> shut_rd s1 = shut_rd s \<and> b
    \<and> view (now e) s1 = (view (now e) s)(k := map_option (\<lambda>c. (abs_val (obj s c), snd (the (view (now e) s k)))) new)"
proof -
  have "kv_do (L_cas k (Some a) new) (now e) (R_ok False) s = (s1, R_ok b)"
    using assms(3,4) by (auto simp: kv_do_def cas_obj_def on_kv_def split_beta Let_def split: option.splits)
  note w = kv_do_write [OF assms(1) _ _ this, simplified, OF assms(2), unfolded is_set_def, simplified]
  obtain en where en: "purge (now e) (ents s) k = Some en" "e_val en = Some a"
    using assms(6) by (auto simp: addr_def bind_eq_Some_conv)
  have v: "e_expiry en = snd (the (view (now e) s k))" using en by (simp add: view_def deref_def)
  have ex: "\<not> entry_expired en (now e)" using en(1) by (auto simp: purge_k split: option.splits if_splits)
  let ?x = "map_option (\<lambda>c. \<lparr>e_val = Some c, e_expiry = e_expiry en\<rparr>) new"
  have p: "purge (now e) (ents s1) = purge (now e) ((purge (now e) (ents s))(k := ?x)) \<and> b \<and> srv_ok s1 \<and> objs s1 = objs s \<and> shut_rd s1 = shut_rd s"
    using w en assms(5) by (cases new) (simp_all del: fun_upd_apply)
  then show ?thesis using view_upd [of "now e" s1 s k ?x] ex v by (cases new) (auto simp: entry_expired_def simp del: fun_upd_apply)
qed

text \<open>A fresh object changes nothing that is in the table.\<close>

lemma new_obj_ok:
  assumes "srv_ok s" "val_ok v" "new_obj v s = (s1, a)"
  shows "srv_ok s1 \<and> kv s1 = kv s \<and> shut_rd s1 = shut_rd s \<and> view n s1 = view n s \<and> addr n s1 k = addr n s k
    \<and> obj_ok s1 (Some a) \<and> obj s1 a = v"
proof -
  have d: "s1 = s\<lparr>objs := objs s @ [v]\<rparr>" "a = length (objs s)" using assms(3) by (simp_all add: new_obj_def)
  have e: "ents s1 = ents s" using d by (simp add: ents_def)
  have o: "obj_ok s x \<Longrightarrow> obj_ok s1 x \<and> abs_val (objs s1 ! the x) = abs_val (objs s ! the x)" for x
    using d by (auto simp: obj_ok_def obj_def nth_append)
  have "srv_ok s1" using assms(1) e o d by (auto simp: srv_ok_def)
  moreover have "view n s1 k = view n s k" for k
  proof (cases "purge n (ents s) k")
    case (Some en)
    then have "ents s k = Some en" by (auto simp: purge_k split: option.splits if_splits)
    then have "obj_ok s (e_val en)" using assms(1) by (auto simp: srv_ok_def ran_def)
    then show ?thesis using o Some by (simp add: view_def deref_def e)
  qed (simp add: view_def deref_def e)
  moreover have "addr n s1 k = addr n s k" by (simp add: addr_def e)
  moreover have "view n s1 = view n s" using calculation(2) by (rule ext)
  ultimately show ?thesis using d assms(2) by (simp add: obj_ok_def obj_def)
qed

text \<open>Room for a key: its record is there, or a slot is still unused.\<close>

definition has_room :: "resp_env \<Rightarrow> resp_srv \<Rightarrow> bytes \<Rightarrow> bool" where
  "has_room e s k =
     (case kv s of
        None \<Rightarrow> (\<exists>w n t. fresh_kv e = Some t \<and> lfkv_new True w n = Some t)
      | Some t \<Rightarrow> view (now e) s k \<noteq> None \<or> \<not> no_empty t)"

definition mem_ok :: "resp_env \<Rightarrow> bool" where
  "mem_ok e = (kv_mem e = (True, True))"

lemma ensure_ok:
  assumes "srv_ok s" "has_room e s k"
  shows "srv_ok (resp_kv_ensure e s) \<and> kv (resp_kv_ensure e s) \<noteq> None \<and> shut_rd (resp_kv_ensure e s) = shut_rd s
    \<and> view n (resp_kv_ensure e s) = view n s \<and> has_room e (resp_kv_ensure e s) k"
proof (cases "kv s")
  case (Some t)
  then show ?thesis using assms by (simp add: resp_kv_ensure_def)
next
  case None
  then obtain w m t where t: "fresh_kv e = Some t" "lfkv_new True w m = Some t" using assms(2) by (auto simp: has_room_def)
  note l = lfkv_new_ok [OF t(2)]
  have "m \<noteq> 0" using t(2) by (cases "m = 0") (simp_all add: lfkv_new_def)
  then have r: "\<not> no_empty t" using l by (auto simp: no_empty_def)
  have s1: "resp_kv_ensure e s = s\<lparr>kv := Some t\<rparr>" using None t by (simp add: resp_kv_ensure_def)
  have "ents (s\<lparr>kv := Some t\<rparr>) = ents s" using None l by (simp add: ents_def)
  then show ?thesis using s1 r l by (simp add: srv_ok_def view_def has_room_def ents_def)
qed

text \<open>Room is kept by operations that leave the slots alone.\<close>

lemma room_slots:
  assumes "has_room e s k" "map_option slots (kv s1) = map_option slots (kv s)" "view (now e) s1 = view (now e) s"
  shows "has_room e s1 k"
proof -
  have "no_empty t = (\<forall>j < length (slots t). slots t ! j \<noteq> None)" for t by (simp add: no_empty_def nslots_def)
  then show ?thesis using assms by (auto simp: has_room_def split: option.splits)
qed

lemma room_kept: "has_room e s k \<Longrightarrow> kept (now e) s s1 \<Longrightarrow> has_room e s1 k"
  by (rule room_slots) (simp_all add: kept_def view_def)

lemma set_ok:
  assumes "srv_ok s" "key_legal k" "mem_ok e" "kv s \<noteq> None" "has_room e s k" "obj_ok s (Some a)" "resp_kv_set e k a s = (s1, b)"
  shows "b \<and> srv_ok s1 \<and> objs s1 = objs s \<and> shut_rd s1 = shut_rd s \<and> view (now e) s1 = (view (now e) s)(k \<mapsto> (abs_val (obj s a), 0))"
proof -
  obtain t where t: "kv s = Some t" using assms(4) by blast
  then have lt: "lf_ok t" "ents s = lfkv_map t" using assms(1) by (simp_all add: srv_ok_def ents_def)
  obtain t1 b1 where t1: "lfkv_set (True, True) t k (Some a) = (t1, b1)" by (metis surj_pair)
  note l = lfkv_set_ok [OF lt(1) assms(2) t1]
  have b1: "b1"
  proof (rule ccontr)
    assume "\<not> b1"
    then have n: "lfkv_map t k = None" "\<forall>j < nslots t. entry_at t j \<noteq> None" using l by auto
    then have "view (now e) s k = None" using lt by (simp add: view_def deref_def purge_k)
    moreover have "no_empty t" using n(2) by (fastforce simp: no_empty_def entry_at_def split: option.splits)
    ultimately show False using assms(5) t by (simp add: has_room_def)
  qed
  have d: "kv_do (L_set k (Some a)) (now e) (R_set True) s = (s1, R_set b)"
    using assms(3,7) t by (auto simp: kv_do_def resp_kv_set_def resp_kv_ensure_def on_kv_def mem_ok_def split_beta Let_def)
  have b: "b" using assms(3,7) t t1 b1 by (auto simp: resp_kv_set_def resp_kv_ensure_def on_kv_def mem_ok_def)
  have p: "purge (now e) (ents s1) = purge (now e) ((purge (now e) (ents s))(k := Some \<lparr>e_val = Some a, e_expiry = 0\<rparr>))
      \<and> srv_ok s1 \<and> objs s1 = objs s \<and> shut_rd s1 = shut_rd s"
    using kv_do_ok [OF assms(1) _ _ d] assms(2,6) b t by (simp del: fun_upd_apply)
  then show ?thesis using b view_upd [of "now e" s1 s k] by (simp add: entry_expired_def)
qed

lemma set_nx_ok:
  assumes "srv_ok s" "key_legal k" "mem_ok e" "kv s \<noteq> None" "has_room e s k" "obj_ok s (Some a)"
  shows "\<exists>s1. set_nx_obj e k a s = Some (s1, view (now e) s k = None) \<and> srv_ok s1 \<and> objs s1 = objs s \<and> shut_rd s1 = shut_rd s
    \<and> view (now e) s1 = (if view (now e) s k = None then (view (now e) s)(k \<mapsto> (abs_val (obj s a), 0)) else view (now e) s)"
proof -
  obtain t where t: "kv s = Some t" using assms(4) by blast
  then have lt: "lf_ok t" "ents s = lfkv_map t" using assms(1) by (simp_all add: srv_ok_def ents_def)
  have v: "(view (now e) s k = None) = (purge (now e) (lfkv_map t) k = None)" by (simp add: view_def deref_def lt)
  note x = set_nx_exact [OF lt(1) assms(2), of "now e" "Some a"]
  show ?thesis
  proof (cases "view (now e) s k = None")
    case False
    then have "set_nx_obj e k a s = Some (s, False)" using x v t assms(3) by (simp add: set_nx_obj_def mem_ok_def)
    then show ?thesis using False assms(1) by (simp only: if_False HOL.simp_thms) auto
  next
    case True
    then have "\<not> no_empty t" using assms(5) t by (simp add: has_room_def)
    then obtain t1 where t1: "lfkv_set_nx (True, True) k (Some a) (now e) t = Some (t1, True)" "lf_ok t1"
      "lfkv_map t1 = (lfkv_map t)(k \<mapsto> \<lparr>e_val = Some a, e_expiry = 0\<rparr>)"
      using x True v by blast
    let ?s1 = "s\<lparr>kv := Some t1\<rparr>"
    have s1: "set_nx_obj e k a s = Some (?s1, True)" using t t1 assms(3) by (simp add: set_nx_obj_def mem_ok_def)
    have p: "purge (now e) (ents ?s1) = purge (now e) ((purge (now e) (ents s))(k := Some \<lparr>e_val = Some a, e_expiry = 0\<rparr>))"
      by (simp add: ents_def t1 t purge_upd purge_later)
    have "\<forall>en \<in> ran (lfkv_map t1). obj_ok ?s1 (e_val en)"
      using assms(1,6) t1(3) lt by (auto simp: srv_ok_def ran_def obj_ok_def obj_def split: if_splits)
    then have "srv_ok ?s1" using t1(2) by (simp add: srv_ok_def ents_def)
    then show ?thesis using s1 True view_upd [OF p] by (simp add: entry_expired_def)
  qed
qed

text \<open>A whole exchange.\<close>

definition put_val :: "rdb \<Rightarrow> bytes \<Rightarrow> rvalue \<Rightarrow> rdb" where
  "put_val M k v = M(k \<mapsto> (v, case M k of None \<Rightarrow> 0 | Some (w, x) \<Rightarrow> x))"

lemma swap_ok:
  assumes "srv_ok s" "key_legal k" "mem_ok e" "cur = addr (now e) s k" "cur = None \<longrightarrow> kv s \<noteq> None \<and> has_room e s k" "val_ok v"
  shows "\<exists>s1. swap_obj e k cur v r s = Some (s1, Some r) \<and> srv_ok s1 \<and> shut_rd s1 = shut_rd s
    \<and> view (now e) s1 = put_val (view (now e) s) k (abs_val v)"
proof -
  obtain s0 a where n: "new_obj v s = (s0, a)" by (metis surj_pair)
  note o = new_obj_ok [OF assms(1,6) n]
  show ?thesis
  proof (cases cur)
    case None
    then have "view (now e) s k = None" using addr_none [OF assms(1)] assms(4) by simp
    moreover have "has_room e s0 k" using room_slots [of e s k s0] None assms(5) o by simp
    moreover have "kv s0 \<noteq> None" using None assms(5) o by simp
    ultimately obtain s1 where "set_nx_obj e k a s0 = Some (s1, True)" "srv_ok s1" "shut_rd s1 = shut_rd s"
      "view (now e) s1 = (view (now e) s)(k \<mapsto> (abs_val v, 0))" "view (now e) s k = None"
      using set_nx_ok [of s0 k e a] o assms(2,3) by auto
    then show ?thesis using None n by (simp add: swap_obj_def put_val_def)
  next
    case (Some c)
    obtain s1 b where c: "cas_obj e k c (Some a) s0 = (s1, b)" by (metis surj_pair)
    have "fst (kv_mem e)" using assms(3) by (simp add: mem_ok_def)
    note w = cas_ok [OF _ assms(2) c this]
    have "addr (now e) s k = Some c" using Some assms(4) by simp
    from addr_obj(4) [OF assms(1) this] obtain v0 x where "view (now e) s k = Some (v0, x)" by blast
    then show ?thesis using w o Some assms(4) n c by (simp add: swap_obj_def put_val_def)
  qed
qed

lemma retry_first: "f s = Some (s1, Some r) \<Longrightarrow> 0 < m \<Longrightarrow> retry m f s = Some (s1, r)"
  by (cases m) simp_all

section \<open>Numbers in arguments\<close>

text \<open>
  The number an argument denotes: up to its first NUL it is decimal digits, with a minus sign before
  them or not, the whole argument has at most 30 bytes, and the number fits in 64 bits.
\<close>

definition decimal_value :: "bytes \<Rightarrow> int" where
  "decimal_value ds = (\<Sum>i<length ds. (uint (rev ds ! i) - 48) * 10 ^ i)"

definition arg_int :: "bytes \<Rightarrow> int option" where
  "arg_int p =
     (let w = takeWhile (\<lambda>c. c \<noteq> 0) p;
          minus = (w \<noteq> [] \<and> hd w = 0x2D);
          ds = (if minus then tl w else w);
          v = (if minus then - decimal_value ds else decimal_value ds) in
      if length p \<le> 30 \<and> ds \<noteq> [] \<and> list_all is_digit ds \<and> int64 v then Some v else None)"

lemma dec_digits: "dec_val 0 ds = decimal_value ds"
proof (induction ds rule: rev_induct)
  case (snoc c ds)
  have "decimal_value (ds @ [c]) = (uint c - 48) + decimal_value ds * 10"
    by (simp add: decimal_value_def sum.lessThan_Suc_shift sum_distrib_left ac_simps del: sum.lessThan_Suc)
  then show ?case using snoc by (simp add: dec_val_append)
qed (simp add: decimal_value_def)

lemma digits_split: "(takeWhile is_digit ds = [] \<or> dropWhile is_digit ds \<noteq> []) = (\<not> (ds \<noteq> [] \<and> list_all is_digit ds))"
  by (cases ds) (auto simp: list_all_iff dropWhile_eq_Nil_conv)

lemma arg_int_eq: "arg_int = resp_arg_to_ll"
proof
  fix p :: bytes
  define w where "w = takeWhile (\<lambda>c. c \<noteq> 0) p"
  show "arg_int p = resp_arg_to_ll p"
  proof (cases "p = [] \<or> \<not> is_digit (hd p) \<and> hd p \<noteq> 0x2D")
    case True
    then have "\<not> (w \<noteq> [] \<and> hd w = 0x2D)" "\<not> (w \<noteq> [] \<and> list_all is_digit w)"
      by (cases p; auto simp: w_def)+
    then show ?thesis using True by (auto simp: arg_int_def resp_arg_to_ll_def w_def [symmetric] Let_def)
  next
    case False
    then have w: "w \<noteq> []" "hd w = hd p" by (cases p; auto simp: w_def is_digit_def)+
    have core: "(if length p > 30 then None else if takeWhile is_digit ds = [] \<or> dropWhile is_digit ds \<noteq> [] \<or> \<not> int64 (f (dec_val 0 (takeWhile is_digit ds)))
          then None else Some (f (dec_val 0 (takeWhile is_digit ds))))
      = (if length p \<le> 30 \<and> ds \<noteq> [] \<and> list_all is_digit ds \<and> int64 (f (decimal_value ds)) then Some (f (decimal_value ds)) else None)"
      for ds and f :: "int \<Rightarrow> int"
    proof (cases "ds \<noteq> [] \<and> list_all is_digit ds")
      case True
      then have t: "takeWhile is_digit ds = ds" "dropWhile is_digit ds = []" by (simp_all add: takeWhile_eq_all_conv list_all_iff)
      show ?thesis unfolding t dec_digits using True by auto
    next
      case False
      then have "takeWhile is_digit ds = [] \<or> dropWhile is_digit ds \<noteq> []" using digits_split by blast
      then show ?thesis using False by auto
    qed
    show ?thesis
    proof (cases "hd p = 0x2D")
      case True
      have "arg_int p = (if length p \<le> 30 \<and> tl w \<noteq> [] \<and> list_all is_digit (tl w) \<and> int64 (- decimal_value (tl w)) then Some (- decimal_value (tl w)) else None)"
        using w True by (simp add: arg_int_def w_def [symmetric] Let_def)
      moreover have "resp_arg_to_ll p = (if length p > 30 then None
          else if takeWhile is_digit (tl w) = [] \<or> dropWhile is_digit (tl w) \<noteq> [] \<or> \<not> int64 (- dec_val 0 (takeWhile is_digit (tl w)))
          then None else Some (- dec_val 0 (takeWhile is_digit (tl w))))"
        using False True by (simp add: resp_arg_to_ll_def c_str_def w_def [symmetric] Let_def)
      ultimately show ?thesis using core [of "tl w" uminus] by (simp only:)
    next
      case nm: False
      have "arg_int p = (if length p \<le> 30 \<and> w \<noteq> [] \<and> list_all is_digit w \<and> int64 (decimal_value w) then Some (decimal_value w) else None)"
        using w nm by (simp add: arg_int_def w_def [symmetric] Let_def)
      moreover have "resp_arg_to_ll p = (if length p > 30 then None
          else if takeWhile is_digit w = [] \<or> dropWhile is_digit w \<noteq> [] \<or> \<not> int64 (dec_val 0 (takeWhile is_digit w))
          then None else Some (dec_val 0 (takeWhile is_digit w)))"
        using False nm by (simp add: resp_arg_to_ll_def c_str_def w_def [symmetric] Let_def)
      ultimately show ?thesis using core [of w "\<lambda>x. x"] by (simp only:)
    qed
  qed
qed

section \<open>What each command promises\<close>

text \<open>A reading command, given what it answers for each type of value.\<close>

definition spec_read :: "bytes \<Rightarrow> reply list \<Rightarrow> (rvalue \<Rightarrow> reply list) \<Rightarrow> rdb \<Rightarrow> rdb \<times> reply list" where
  "spec_read k absent f M = (M, case M k of None \<Rightarrow> absent | Some (v, x) \<Rightarrow> f v)"

definition on_str :: "(bytes \<Rightarrow> reply list) \<Rightarrow> rvalue \<Rightarrow> reply list" where
  "on_str f v = (case v of Str b \<Rightarrow> f b | _ \<Rightarrow> wrongtype)"

definition on_lst :: "(bytes list \<Rightarrow> reply list) \<Rightarrow> rvalue \<Rightarrow> reply list" where
  "on_lst f v = (case v of Lst l \<Rightarrow> f l | _ \<Rightarrow> wrongtype)"

definition on_hsh :: "((bytes \<rightharpoonup> bytes) \<Rightarrow> reply list) \<Rightarrow> rvalue \<Rightarrow> reply list" where
  "on_hsh f v = (case v of Hsh h \<Rightarrow> f h | _ \<Rightarrow> wrongtype)"

text \<open>Keys.\<close>

definition type_name :: "rvalue \<Rightarrow> string" where
  "type_name v = (case v of Str _ \<Rightarrow> ''string'' | Lst _ \<Rightarrow> ''list'' | Hsh _ \<Rightarrow> ''hash''
     | Other u \<Rightarrow> if isvector u then ''vector'' else ''none'')"

definition spec_del :: "bytes list \<Rightarrow> rdb \<Rightarrow> rdb \<times> reply list" where
  "spec_del ks M = (M |` (- set ks), [Number (int (card {k \<in> set ks. M k \<noteq> None}))])"

definition spec_expire :: "int \<Rightarrow> int \<Rightarrow> bytes \<Rightarrow> bytes \<Rightarrow> rdb \<Rightarrow> rdb \<times> reply list" where
  "spec_expire n mul k arg M =
     (case arg_int arg of
        None \<Rightarrow> (M, not_integer)
      | Some delta \<Rightarrow>
          if delta \<le> 0 then (M(k := None), bool_reply (M k \<noteq> None))
          else if n + delta * mul > INT64_MAX then (M, err (quoted ''ERR invalid expire time in '' ''expire''))
          else (case M k of None \<Rightarrow> (M, bool_reply False) | Some (v, x) \<Rightarrow> (M(k \<mapsto> (v, n + delta * mul)), bool_reply True)))"

definition spec_ttl :: "int \<Rightarrow> int \<Rightarrow> bytes \<Rightarrow> rdb \<Rightarrow> rdb \<times> reply list" where
  "spec_ttl n unit k M =
     (M, [Number (case M k of None \<Rightarrow> -2 | Some (v, x) \<Rightarrow> if x = 0 then -1 else (x - n) div unit)])"

definition spec_persist :: "bytes \<Rightarrow> rdb \<Rightarrow> rdb \<times> reply list" where
  "spec_persist k M = (case M k of Some (v, x) \<Rightarrow> if x \<noteq> 0 then (M(k \<mapsto> (v, 0)), [Number 1]) else (M, [Number 0]) | None \<Rightarrow> (M, [Number 0]))"

text \<open>Strings.\<close>

definition spec_set :: "int \<Rightarrow> int option \<Rightarrow> bool \<Rightarrow> bool \<Rightarrow> bytes \<Rightarrow> bytes \<Rightarrow> rdb \<Rightarrow> rdb \<times> reply list" where
  "spec_set n ttl only_new only_old k v M =
     (if only_new \<and> only_old then (M, err ''ERR syntax error'')
      else if only_new \<and> M k \<noteq> None \<or> only_old \<and> M k = None then (M, [Null])
      else (M(k \<mapsto> (Str v, case ttl of None \<Rightarrow> 0 | Some us \<Rightarrow> min INT64_MAX (n + us))), ok_reply))"

definition spec_incr :: "bytes \<Rightarrow> int \<Rightarrow> rdb \<Rightarrow> rdb \<times> reply list" where
  "spec_incr k delta M =
     (let add = (\<lambda>i. if int64 (i + delta) then (put_val M k (Str (fmt_int (i + delta))), [Number (i + delta)])
                     else (M, err ''ERR increment or decrement would overflow'')) in
      case M k of
        None \<Rightarrow> add 0
      | Some (Str b, x) \<Rightarrow> (case arg_int b of None \<Rightarrow> (M, not_integer) | Some i \<Rightarrow> add i)
      | _ \<Rightarrow> (M, wrongtype))"

definition spec_append :: "bytes \<Rightarrow> bytes \<Rightarrow> rdb \<Rightarrow> rdb \<times> reply list" where
  "spec_append k add M =
     (case M k of
        None \<Rightarrow> (put_val M k (Str add), [Number (int (length add))])
      | Some (Str b, x) \<Rightarrow> (put_val M k (Str (b @ add)), [Number (int (length (b @ add)))])
      | _ \<Rightarrow> (M, wrongtype))"

text \<open>Lists.\<close>

definition spec_push :: "bool \<Rightarrow> bytes \<Rightarrow> bytes list \<Rightarrow> rdb \<Rightarrow> rdb \<times> reply list" where
  "spec_push left k vs M =
     (let push = (\<lambda>l. let l' = (if left then rev vs @ l else l @ vs) in (put_val M k (Lst l'), [Number (int (length l'))])) in
      case M k of None \<Rightarrow> push [] | Some (Lst l, x) \<Rightarrow> push l | _ \<Rightarrow> (M, wrongtype))"

definition spec_pop :: "bool \<Rightarrow> bytes \<Rightarrow> rdb \<Rightarrow> rdb \<times> reply list" where
  "spec_pop left k M =
     (case M k of
        None \<Rightarrow> (M, [Null])
      | Some (Lst l, x) \<Rightarrow>
          if l = [] then (M, [Null])
          else (let l' = (if left then tl l else butlast l) in
                (if l' = [] then M(k := None) else put_val M k (Lst l'), [Bulk (if left then hd l else last l)]))
      | _ \<Rightarrow> (M, wrongtype))"

definition spec_index :: "int \<Rightarrow> bytes list \<Rightarrow> reply list" where
  "spec_index i l = (if - int (length l) \<le> i \<and> i < int (length l) then [Bulk (l ! nat (i mod int (length l)))] else [Null])"

definition spec_range :: "int \<Rightarrow> int \<Rightarrow> bytes list \<Rightarrow> reply list" where
  "spec_range start stop l =
     (let n = int (length l); ix = (\<lambda>i. if i < 0 then i + n else i);
          xs = map (\<lambda>i. l ! nat i) [max 0 (ix start) .. min (n - 1) (ix stop)] in
      Header (int (length xs)) # map Bulk xs)"

text \<open>Hashes.\<close>

fun field_pairs :: "bytes list \<Rightarrow> (bytes \<times> bytes) list" where
  "field_pairs (f # v # rest) = (if 0 \<in> set f then field_pairs rest else (f, v) # field_pairs rest)"
| "field_pairs _ = []"

definition spec_hset :: "bytes \<Rightarrow> bytes list \<Rightarrow> rdb \<Rightarrow> rdb \<times> reply list" where
  "spec_hset k fvs M =
     (let put = (\<lambda>h. let h' = h ++ map_of (rev (field_pairs fvs)) in (put_val M k (Hsh h'), [Number (int (card (dom h' - dom h)))])) in
      case M k of None \<Rightarrow> put Map.empty | Some (Hsh h, x) \<Rightarrow> put h | _ \<Rightarrow> (M, wrongtype))"

definition spec_hdel :: "bytes \<Rightarrow> bytes list \<Rightarrow> rdb \<Rightarrow> rdb \<times> reply list" where
  "spec_hdel k fs M =
     (case M k of
        None \<Rightarrow> (M, [Number 0])
      | Some (Hsh h, x) \<Rightarrow>
          (let h' = h |` (- set fs) in
           (if h' = Map.empty then M(k := None) else put_val M k (Hsh h'), [Number (int (card (dom h \<inter> set fs)))]))
      | _ \<Rightarrow> (M, wrongtype))"

definition arity :: "bool \<Rightarrow> rdb \<Rightarrow> rdb \<times> reply list \<Rightarrow> rdb \<times> reply list" where
  "arity ok M r = (if ok then r else (M, wrong_args))"

definition incr_by :: "int \<Rightarrow> bytes \<Rightarrow> bytes \<Rightarrow> rdb \<Rightarrow> rdb \<times> reply list" where
  "incr_by sign k arg M = (case arg_int arg of None \<Rightarrow> (M, not_integer)
     | Some d \<Rightarrow> if sign < 0 \<and> d = INT64_MIN then (M, not_integer) else spec_incr k (if sign < 0 then - d else d) M)"

text \<open>
  The options of \<open>SET\<close>.  The arguments after the value are read as words: \<open>EX\<close> and \<open>PX\<close> take the
  argument that follows, however it is spelled, and are no words when nothing follows.  The first word
  at fault decides the error: an unknown word and a second time to live are syntax errors, a time to
  live must be positive and fit in 64 bits as microseconds.
\<close>

datatype set_word = Ttl int bytes | If_new | If_old | Unknown_word

definition spelled :: "string \<Rightarrow> bytes \<Rightarrow> bool" where
  "spelled name a = (map toupper a = bytes_of name)"

definition set_flag :: "bytes \<Rightarrow> set_word" where
  "set_flag a = (if spelled ''NX'' a then If_new else if spelled ''XX'' a then If_old else Unknown_word)"

fun set_words :: "bytes list \<Rightarrow> set_word list" where
  "set_words [] = []"
| "set_words [a] = [set_flag a]"
| "set_words (a # b # as) =
     (if spelled ''EX'' a then Ttl 1000000 b # set_words as
      else if spelled ''PX'' a then Ttl 1000 b # set_words as
      else set_flag a # set_words (b # as))"

definition is_ttl :: "set_word \<Rightarrow> bool" where
  "is_ttl w = (case w of Ttl _ _ \<Rightarrow> True | _ \<Rightarrow> False)"

definition ttl_us :: "int \<Rightarrow> bytes \<Rightarrow> int option" where
  "ttl_us unit b = (case arg_int b of None \<Rightarrow> None
     | Some t \<Rightarrow> if 0 < t \<and> t * unit \<le> INT64_MAX then Some (t * unit) else None)"

definition word_fault :: "set_word list \<Rightarrow> set_word \<Rightarrow> reply list option" where
  "word_fault before w = (case w of
     Unknown_word \<Rightarrow> Some (err ''ERR syntax error'')
   | Ttl unit b \<Rightarrow> if list_ex is_ttl before then Some (err ''ERR syntax error'')
                  else if ttl_us unit b = None then Some (err (quoted ''ERR invalid expire time in '' ''set'')) else None
   | _ \<Rightarrow> None)"

fun first_fault :: "set_word list \<Rightarrow> set_word list \<Rightarrow> reply list option" where
  "first_fault before [] = None"
| "first_fault before (w # ws) = (case word_fault before w of Some r \<Rightarrow> Some r | None \<Rightarrow> first_fault (before @ [w]) ws)"

fun set_ttl :: "set_word list \<Rightarrow> int option" where
  "set_ttl [] = None"
| "set_ttl (w # ws) = (case w of Ttl unit b \<Rightarrow> ttl_us unit b | _ \<Rightarrow> set_ttl ws)"

definition set_args :: "int \<Rightarrow> bytes list \<Rightarrow> rdb \<Rightarrow> rdb \<times> reply list" where
  "set_args n argv M =
     (let ws = set_words (drop 3 argv) in
      case first_fault [] ws of
        Some r \<Rightarrow> (M, r)
      | None \<Rightarrow> spec_set n (set_ttl ws) (If_new \<in> set ws) (If_old \<in> set ws) (argv ! 1) (argv ! 2) M)"

section \<open>Hashes as maps\<close>

definition hash_ok :: "exp dict \<Rightarrow> bool" where
  "hash_ok d = (dict_ok d \<and> list_all (\<lambda>x. isblob (kv_val x)) (dict_entries d))"

lemma c_str_id: "0 \<notin> set f \<Longrightarrow> c_str f = f"
  by (auto simp: c_str_def takeWhile_eq_all_conv)

lemma hash_blobs:
  assumes "dict_ok d"
  shows "hash_ok d = (\<forall>key x. snd (set_get_keyval_dict d key None) = Some x \<longrightarrow> isblob (kv_val x))"
proof
  assume "hash_ok d"
  then show "\<forall>key x. snd (set_get_keyval_dict d key None) = Some x \<longrightarrow> isblob (kv_val x)"
    by (simp add: dict_get_entry [OF assms] hash_ok_def list_all_iff)
next
  assume a: "\<forall>key x. snd (set_get_keyval_dict d key None) = Some x \<longrightarrow> isblob (kv_val x)"
  have "isblob (kv_val x)" if "x \<in> set (dict_entries d)" for x
    using a dict_get_entry [OF assms, of "kv_name x" x] dict_entry_name [OF assms that] that by simp
  then show "hash_ok d" using assms by (simp add: hash_ok_def list_all_iff)
qed

lemma hash_map_get: "0 \<notin> set f \<Longrightarrow> hash_map d f = map_option (\<lambda>x. blob_bytes (kv_val x)) (snd (set_get_keyval_dict d f None))"
  by (simp add: hash_map_def dict_lookup_def option.map_comp comp_def)

lemma hash_map_nul: "0 \<in> set f \<Longrightarrow> hash_map d f = None"
  by (simp add: hash_map_def)

lemma field_of_map: "map_option blob_bytes (field_of d f) = hash_map d f"
  by (auto simp: field_of_def resp_dup_key_def resp_dict_field_get_def hash_map_get hash_map_nul option.map_comp comp_def)

lemma hash_empty: "hash_ok create_dict" "hash_map create_dict = Map.empty"
  by (simp_all add: hash_blobs [OF dict_create_ok(1)] dict_create_ok(2) hash_map_def dict_lookup_def fun_eq_iff)

lemma hash_put:
  assumes "hash_ok d" "0 \<notin> set f"
  shows "hash_ok (fst (set_get_keyval_dict d f (Some (BLOB v)))) \<and> hash_map (fst (set_get_keyval_dict d f (Some (BLOB v)))) = (hash_map d)(f \<mapsto> v)"
proof -
  have d: "dict_ok d" using assms(1) by (simp add: hash_ok_def)
  note s = dict_set_ok [OF d, of f "BLOB v"]
  have "hash_map (fst (set_get_keyval_dict d f (Some (BLOB v)))) g = ((hash_map d)(f \<mapsto> v)) g" for g
    using assms(2) by (cases "0 \<in> set g") (auto simp: hash_map_nul hash_map_get s(2) c_str_id blob_bytes_def)
  then show ?thesis using s assms(1) by (auto simp: hash_blobs [OF s(1)] hash_blobs [OF d] isblob_def split: if_splits)
qed

lemma hash_drop:
  assumes "hash_ok d" "0 \<notin> set f"
  shows "hash_ok (fst (del_keyval_dict d f)) \<and> hash_map (fst (del_keyval_dict d f)) = (hash_map d)(f := None)
    \<and> snd (del_keyval_dict d f) = (hash_map d f \<noteq> None)"
proof -
  have d: "dict_ok d" using assms(1) by (simp add: hash_ok_def)
  note s = dict_del_ok [OF d, of f]
  have "hash_map (fst (del_keyval_dict d f)) g = ((hash_map d)(f := None)) g" for g
    using assms(2) by (cases "0 \<in> set g") (auto simp: hash_map_nul hash_map_get s(2) c_str_id)
  then show ?thesis using s assms by (auto simp: hash_blobs [OF s(1)] hash_blobs [OF d] hash_map_get split: if_splits)
qed

text \<open>The fields in the order of the table.\<close>

definition hash_fields :: "exp dict \<Rightarrow> (bytes \<times> bytes) list" where
  "hash_fields d = map (\<lambda>x. (kv_name x, blob_bytes (kv_val x))) (dict_entries d)"

lemma hash_fields_map:
  assumes "hash_ok d"
  shows "distinct (map fst (hash_fields d)) \<and> map_of (hash_fields d) = hash_map d \<and> dict_used d = length (hash_fields d)"
proof -
  have d: "dict_ok d" using assms by (simp add: hash_ok_def)
  have n: "distinct (map fst (hash_fields d))" using dict_names_distinct [OF d] by (simp add: hash_fields_def comp_def)
  have "map_of (hash_fields d) f = hash_map d f" for f
  proof (cases "hash_map d f")
    case None
    have "f \<notin> fst ` set (hash_fields d)"
    proof
      assume "f \<in> fst ` set (hash_fields d)"
      then obtain x where x: "x \<in> set (dict_entries d)" "kv_name x = f" by (auto simp: hash_fields_def)
      then have c: "c_str f = f" using dict_entry_name [OF d] by blast
      moreover have "0 \<notin> set (c_str f)" by (auto simp: c_str_def dest: set_takeWhileD)
      ultimately have "0 \<notin> set f" by simp
      then show False using None x c dict_get_entry [OF d, of f x] by (simp add: hash_map_get)
    qed
    then show ?thesis using None by (simp add: map_of_eq_None_iff)
  next
    case (Some v)
    then have z: "0 \<notin> set f" by (auto simp: hash_map_def split: if_splits)
    then obtain x where x: "snd (set_get_keyval_dict d f None) = Some x" "blob_bytes (kv_val x) = v"
      using Some by (auto simp: hash_map_get)
    then have "x \<in> set (dict_entries d)" "kv_name x = f" using dict_get_entry [OF d, of f x] c_str_id [OF z] by simp_all
    then have "(f, v) \<in> set (hash_fields d)" using x by (auto simp: hash_fields_def)
    then show ?thesis using map_of_is_SomeI [OF n] Some by simp
  qed
  then have "map_of (hash_fields d) = hash_map d" by (rule ext)
  then show ?thesis using n d by (simp add: dict_ok_def hash_fields_def)
qed

lemma hash_count:
  assumes "hash_ok d"
  shows "dict_used d = card (dom (hash_map d)) \<and> finite (dom (hash_map d))"
proof -
  note f = hash_fields_map [OF assms]
  have "dom (hash_map d) = set (map fst (hash_fields d))" using f dom_map_of_conv_image_fst [of "hash_fields d"] by simp
  then show ?thesis using f distinct_card [of "map fst (hash_fields d)"] by simp
qed

lemma hash_clone:
  assumes "hash_ok d"
  shows "hash_ok (resp_dict_clone d) \<and> hash_map (resp_dict_clone d) = hash_map d"
proof -
  have d: "dict_ok d" using assms by (simp add: hash_ok_def)
  have "resp_dict_clone d = the (dict_copy (Some d))" by (simp add: resp_dict_clone_def dict_copy_def)
  then obtain c where c: "resp_dict_clone d = c" "dict_ok c"
    "\<And>key. snd (set_get_keyval_dict c key None) = map_option (\<lambda>k. Keyval (kv_name k) (kv_val k) 0) (snd (set_get_keyval_dict d key None))"
    using dict_copy_ok [OF d] by auto
  have "hash_map c f = hash_map d f" for f
    by (cases "0 \<in> set f") (auto simp: hash_map_nul hash_map_get c(3) option.map_comp comp_def)
  then show ?thesis using c assms by (auto simp: hash_blobs [OF c(2)] hash_blobs [OF d])
qed

section \<open>The commands implement it\<close>

definition implements :: "resp_env \<Rightarrow> resp_srv \<Rightarrow> cmd_result \<Rightarrow> rdb \<times> reply list \<Rightarrow> bool" where
  "implements e s res sp = (\<exists>s1. res = Some (s1, snd sp) \<and> srv_ok s1 \<and> shut_rd s1 = shut_rd s \<and> view (now e) s1 = fst sp)"

lemma impl_reply: "srv_ok s \<Longrightarrow> implements e s (Some (s, r)) (view (now e) s, r)"
  by (simp add: implements_def)

lemma impl_kept: "kept (now e) s s1 \<Longrightarrow> implements e s (Some (s1, r)) (view (now e) s, r)"
  using keptD [of "now e" s s1] by (simp add: implements_def)

lemma impl_kept_trans:
  assumes "implements e s1 res (f (view (now e) s1))" "kept (now e) s s1"
  shows "implements e s res (f (view (now e) s))"
  using assms keptD [OF assms(2)] by (simp add: implements_def)

lemma impl_arity:
  assumes "srv_ok s" "ok \<Longrightarrow> implements e s x sp"
  shows "implements e s (if \<not> ok then Some (s, wrong_args) else x) (arity ok (view (now e) s) sp)"
  using assms by (simp add: implements_def arity_def)

lemma abs_type:
  shows "isblob v = (\<exists>b. abs_val v = Str b)" "islist v = (\<exists>l. abs_val v = Lst l)" "isdict v = (\<exists>h. abs_val v = Hsh h)"
  by (cases v; simp add: isblob_def islist_def isdict_def abs_val_def)+

lemma abs_Str: "abs_val v = Str b \<Longrightarrow> blob_bytes v = b"
  by (cases v) (simp_all add: abs_val_def blob_bytes_def)

lemma abs_Lst: "abs_val v = Lst l \<Longrightarrow> map blob_bytes (list_items v) = l"
  by (cases v) (simp_all add: abs_val_def list_items_def)

lemma abs_Hsh: "abs_val v = Hsh h \<Longrightarrow> val_ok v \<Longrightarrow> hash_map (dict_ptr v) = h \<and> hash_ok (dict_ptr v)"
  by (cases v) (simp_all add: abs_val_def dict_ptr_def val_ok_def hash_ok_def)

lemma abs_new: "abs_val (BLOB b) = Str b" "abs_val (LIST l) = Lst (map blob_bytes l)" "abs_val (DICT d) = Hsh (hash_map d)"
  "val_ok (BLOB b)" "val_ok (LIST l) = list_all isblob l" "val_ok (DICT d) = hash_ok d"
  by (simp_all add: abs_val_def val_ok_def hash_ok_def)

text \<open>What a lookup finds, in terms of the view.\<close>

lemma lookup_cases:
  assumes "srv_ok s" "key_legal k" "resp_kv_lookup e k s = (s1, v)"
  obtains (absent) "kept (now e) s s1" "v = None" "view (now e) s k = None" "addr (now e) s1 k = None"
  | (found) a x where "kept (now e) s s1" "v = Some a" "view (now e) s k = Some (abs_val (obj s1 a), x)" "val_ok (obj s1 a)"
      "addr (now e) s1 k = Some a"
proof (cases v)
  case None
  then show ?thesis using lookup_ok [OF assms] addr_none [OF assms(1)] keptD(3) absent by metis
next
  case (Some a)
  then have k: "kept (now e) s s1" "addr (now e) s k = Some a" using lookup_ok [OF assms] by simp_all
  obtain x where "view (now e) s k = Some (abs_val (obj s a), x)" using addr_obj(4) [OF assms(1) k(2)] by blast
  then show ?thesis using found [of a x] Some k addr_obj(2) [OF assms(1) k(2)] keptD(3,4) [OF k(1)] by simp
qed

lemma peek_lookup: "srv_ok s \<Longrightarrow> key_legal k \<Longrightarrow> resp_kv_peek e k s = (s1, v) \<Longrightarrow>
    kept (now e) s s1 \<and> (case v of None \<Rightarrow> view (now e) s k = None
      | Some a \<Rightarrow> addr (now e) s k = Some a \<and> (\<exists>x. view (now e) s k = Some (abs_val (obj s1 a), x)))"
  using peek_ok [of s k e s1 v] addr_none [of s "now e" k] addr_obj(4) [of s "now e" k] keptD(4) [of "now e" s s1]
  by (auto split: option.splits)

lemma read_str:
  assumes "srv_ok s" "key_legal k"
  shows "implements e s (case resp_kv_peek e k s of (s1, None) \<Rightarrow> Some (s1, r)
      | (s1, Some a) \<Rightarrow> Some (s1, if \<not> isblob (obj s1 a) then wrongtype else f (blob_bytes (obj s1 a))))
    (spec_read k r (on_str f) (view (now e) s))"
proof -
  obtain s1 v where p: "resp_kv_peek e k s = (s1, v)" by (metis surj_pair)
  note l = peek_lookup [OF assms p]
  then have k: "implements e s (Some (s1, q)) (view (now e) s, q)" for q by (intro impl_kept) simp
  show ?thesis
  proof (cases v)
    case None
    then show ?thesis using l k p by (simp add: spec_read_def)
  next
    case (Some a)
    then obtain x where x: "view (now e) s k = Some (abs_val (obj s1 a), x)" using l by auto
    have "(if \<not> isblob (obj s1 a) then wrongtype else f (blob_bytes (obj s1 a))) = on_str f (abs_val (obj s1 a))"
      by (auto simp: on_str_def abs_type abs_Str split: rvalue.split)
    then show ?thesis using Some x k p by (simp add: spec_read_def)
  qed
qed

lemma read_val:
  assumes "srv_ok s" "key_legal k"
    and "\<And>v. val_ok v \<Longrightarrow> (if \<not> ok v then wrongtype else f v) = g (abs_val v)"
  shows "implements e s (read_cmd e k ok r f s) (spec_read k r g (view (now e) s))"
proof -
  obtain s1 v where p: "resp_kv_lookup e k s = (s1, v)" by (metis surj_pair)
  show ?thesis
  proof (rule lookup_cases [OF assms(1,2) p])
    assume "kept (now e) s s1" "v = None" "view (now e) s k = None"
    then show ?thesis using impl_kept [of e s s1 r] p by (simp add: read_cmd_def spec_read_def)
  next
    fix a x
    assume "kept (now e) s s1" "v = Some a" "view (now e) s k = Some (abs_val (obj s1 a), x)" "val_ok (obj s1 a)"
    then show ?thesis using impl_kept [of e s s1] assms(3) [of "obj s1 a"] p by (simp add: read_cmd_def spec_read_def)
  qed
qed

text \<open>A turn that ends with an exchange.\<close>

lemma impl_swap:
  assumes "srv_ok s" "key_legal k" "mem_ok e" "cur = addr (now e) s k" "cur = None \<longrightarrow> kv s \<noteq> None \<and> has_room e s k" "val_ok v"
  shows "\<exists>s1. swap_obj e k cur v r s = Some (s1, Some r) \<and> implements e s (Some (s1, r)) (put_val (view (now e) s) k (abs_val v), r)"
  using swap_ok [OF assms] by (fastforce simp: implements_def)

text \<open>A loop whose first turn answers.\<close>

definition turn_ok :: "resp_env \<Rightarrow> resp_srv \<Rightarrow> (resp_srv \<times> reply list option) option \<Rightarrow> rdb \<times> reply list \<Rightarrow> bool" where
  "turn_ok e s res sp = (\<exists>s1. res = Some (s1, Some (snd sp)) \<and> implements e s (Some (s1, snd sp)) sp)"

lemma turn_loop: "turn_ok e s (f s) sp \<Longrightarrow> 0 < m \<Longrightarrow> implements e s (retry m f s) sp"
  by (auto simp: turn_ok_def retry_first)

lemma turn_reply: "res = Some (s1, Some r) \<Longrightarrow> kept (now e) s s1 \<Longrightarrow> turn_ok e s res (view (now e) s, r)"
  using impl_kept [of e s s1 r] by (auto simp: turn_ok_def)

lemma turn_swap:
  assumes "res = swap_obj e k cur v r s1" "kept (now e) s s1" "key_legal k" "mem_ok e" "cur = addr (now e) s1 k"
    and "cur = None \<longrightarrow> kv s \<noteq> None \<and> has_room e s k" "val_ok v" "w = abs_val v"
  shows "turn_ok e s res (put_val (view (now e) s) k w, r)"
proof -
  have "cur = None \<longrightarrow> kv s1 \<noteq> None \<and> has_room e s1 k"
    using assms(6) kept_None [OF assms(2)] room_kept [of e s k s1] assms(2) by auto
  from impl_swap [OF keptD(1) [OF assms(2)] assms(3-5) this assms(7), of r] keptD [OF assms(2)] assms(1,8)
  show ?thesis by (auto simp: turn_ok_def implements_def)
qed

lemma ensure_wrap:
  assumes "srv_ok s" "has_room e s k"
    and "\<And>s1. srv_ok s1 \<Longrightarrow> kv s1 \<noteq> None \<Longrightarrow> has_room e s1 k \<Longrightarrow> implements e s1 (f s1) (sp (view (now e) s1))"
  shows "implements e s (let s1 = resp_kv_ensure e s in if kv s1 = None then Some (s1, no_memory) else f s1) (sp (view (now e) s))"
proof -
  note o = ensure_ok [OF assms(1,2), of "now e"]
  have "implements e (resp_kv_ensure e s) (f (resp_kv_ensure e s)) (sp (view (now e) (resp_kv_ensure e s)))"
    using assms(3) o by blast
  moreover have "kv (resp_kv_ensure e s) \<noteq> None" using o by simp
  ultimately show ?thesis using o by (simp only: Let_def implements_def if_False simp_thms)
qed

section \<open>Strings\<close>

lemma arg_int64: "resp_arg_to_ll p = Some v \<Longrightarrow> int64 v"
  by (auto simp: resp_arg_to_ll_def Let_def split: if_splits)

lemma incr_room:
  assumes "int64 i" "int64 d"
  shows "((d > 0 \<and> i > INT64_MAX - d) \<or> (d < 0 \<and> i < INT64_MIN - d)) = (\<not> int64 (i + d))"
  using assms by (auto simp: int64_def)

lemma incr_add_ok:
  assumes "kept (now e) s s1" "key_legal k" "mem_ok e" "cur = addr (now e) s1 k" "cur = None \<longrightarrow> kv s \<noteq> None \<and> has_room e s k"
    and "int64 i" "int64 d" "res = incr_add e k cur i d s1"
  shows "turn_ok e s res (if int64 (i + d) then (put_val (view (now e) s) k (Str (fmt_int (i + d))), [Number (i + d)])
    else (view (now e) s, err ''ERR increment or decrement would overflow''))"
proof (cases "int64 (i + d)")
  case True
  have "res = swap_obj e k cur (BLOB (resp_i64_to_ascii (i + d))) [Number (i + d)] s1"
    using True assms(8) by (simp add: incr_add_def incr_room [OF assms(6,7)])
  from turn_swap [OF this assms(1-5)] show ?thesis using True by (simp add: abs_new i64_ascii)
next
  case False
  have "res = Some (s1, Some (err ''ERR increment or decrement would overflow''))"
    using False assms(8) by (simp add: incr_add_def incr_room [OF assms(6,7)])
  from turn_reply [OF this assms(1)] show ?thesis using False by simp
qed

lemma incr_turn_ok:
  assumes "srv_ok s" "key_legal k" "mem_ok e" "kv s \<noteq> None" "has_room e s k" "int64 d"
  shows "turn_ok e s (incr_turn e k d s) (spec_incr k d (view (now e) s))"
proof -
  obtain s1 v where p: "resp_kv_lookup e k s = (s1, v)" by (metis surj_pair)
  show ?thesis
  proof (rule lookup_cases [OF assms(1,2) p])
    assume a: "kept (now e) s s1" "v = None" "view (now e) s k = None" "addr (now e) s1 k = None"
    have "incr_turn e k d s = incr_add e k None 0 d s1" using p a by (simp add: incr_turn_def)
    from incr_add_ok [OF a(1) assms(2,3) _ _ _ assms(6) this]
    show ?thesis using a assms by (simp add: spec_incr_def Let_def int64_def INT64_MIN_def INT64_MAX_def)
  next
    fix a x
    assume a: "kept (now e) s s1" "v = Some a" "view (now e) s k = Some (abs_val (obj s1 a), x)" "addr (now e) s1 k = Some a"
    show ?thesis
    proof (cases "\<exists>b. abs_val (obj s1 a) = Str b")
      case False
      then have "incr_turn e k d s = Some (s1, Some wrongtype)" using p a by (simp add: incr_turn_def abs_type)
      from turn_reply [OF this a(1)] show ?thesis
        using a False by (cases "abs_val (obj s1 a)") (simp_all add: spec_incr_def Let_def)
    next
      case True
      then obtain b where b: "abs_val (obj s1 a) = Str b" ..
      have ll: "resp_blob_to_ll (obj s1 a) = resp_arg_to_ll b" by (simp add: resp_blob_to_ll_def abs_Str [OF b])
      show ?thesis
      proof (cases "resp_arg_to_ll b")
        case None
        then have "incr_turn e k d s = Some (s1, Some not_integer)" using p a b ll by (simp add: incr_turn_def abs_type)
        from turn_reply [OF this a(1)] show ?thesis using a b None by (simp add: spec_incr_def arg_int_eq Let_def)
      next
        case (Some i)
        then have "incr_turn e k d s = incr_add e k (Some a) i d s1" using p a b ll by (simp add: incr_turn_def abs_type)
        from incr_add_ok [OF a(1) assms(2,3) _ _ arg_int64 [OF Some] assms(6) this]
        show ?thesis using a b Some by (simp add: spec_incr_def arg_int_eq Let_def)
      qed
    qed
  qed
qed

lemma apply_incr_ok:
  assumes "srv_ok s" "key_legal k" "mem_ok e" "has_room e s k" "int64 d"
  shows "implements e s (resp_apply_incr e k d s) (spec_incr k d (view (now e) s))"
  unfolding resp_apply_incr_def
proof (rule ensure_wrap [OF assms(1,4)])
  fix s1 assume "srv_ok s1" "kv s1 \<noteq> None" "has_room e s1 k"
  from incr_turn_ok [OF this(1) assms(2,3) this(2,3) assms(5)]
  show "implements e s1 (retry 1002 (incr_turn e k d) s1) (spec_incr k d (view (now e) s1))" by (rule turn_loop) simp
qed

lemma incrby_ok:
  assumes "srv_ok s" "key_legal (argv ! 1)" "mem_ok e" "length argv = 3 \<longrightarrow> has_room e s (argv ! 1)"
  shows "implements e s (cmd_incrby_decrby e sign argv s)
    (arity (length argv = 3) (view (now e) s) (incr_by sign (argv ! 1) (argv ! 2) (view (now e) s)))"
  unfolding cmd_incrby_decrby_def
proof (rule impl_arity [OF assms(1)])
  assume l: "length argv = 3"
  show "implements e s
      (case resp_arg_to_ll (argv ! 2) of None \<Rightarrow> Some (s, not_integer)
       | Some delta \<Rightarrow>
          if sign < 0 then (if delta = INT64_MIN then Some (s, not_integer) else resp_apply_incr e (argv ! 1) (- delta) s)
          else resp_apply_incr e (argv ! 1) delta s)
      (incr_by sign (argv ! 1) (argv ! 2) (view (now e) s))"
  proof (cases "resp_arg_to_ll (argv ! 2)")
    case None
    then show ?thesis using impl_reply [OF assms(1)] by (simp add: incr_by_def arg_int_eq)
  next
    case (Some d)
    note i = arg_int64 [OF Some]
    then have m: "d \<noteq> INT64_MIN \<Longrightarrow> int64 (- d)" by (auto simp: int64_def INT64_MIN_def INT64_MAX_def)
    show ?thesis
      using Some l impl_reply [OF assms(1)] apply_incr_ok [OF assms(1,2,3) _ i] apply_incr_ok [OF assms(1,2,3) _ m] assms(4)
      by (simp add: incr_by_def arg_int_eq)
  qed
qed

lemma append_ok:
  assumes "srv_ok s" "key_legal (argv ! 1)" "mem_ok e" "length argv = 3 \<longrightarrow> has_room e s (argv ! 1)"
  shows "implements e s (cmd_append e argv s) (arity (length argv = 3) (view (now e) s) (spec_append (argv ! 1) (argv ! 2) (view (now e) s)))"
  unfolding cmd_append_def
proof (rule impl_arity [OF assms(1)], rule ensure_wrap [OF assms(1)])
  assume "length argv = 3"
  then show "has_room e s (argv ! 1)" using assms(4) by simp
next
  let ?k = "argv ! 1" and ?v = "argv ! 2"
  fix s0 assume s0: "srv_ok s0" "kv s0 \<noteq> None" "has_room e s0 ?k"
  obtain s1 v where p: "resp_kv_lookup e ?k s0 = (s1, v)" by (metis surj_pair)
  have "turn_ok e s0 (append_turn e ?k ?v s0) (spec_append ?k ?v (view (now e) s0))"
  proof (rule lookup_cases [OF s0(1) assms(2) p])
    assume a: "kept (now e) s0 s1" "v = None" "view (now e) s0 ?k = None" "addr (now e) s1 ?k = None"
    have "append_turn e ?k ?v s0 = swap_obj e ?k None (BLOB ?v) [Number (int (length ?v))] s1" using p a by (simp add: append_turn_def)
    from turn_swap [OF this a(1) assms(2,3)] show ?thesis using a s0 by (simp add: spec_append_def abs_new)
  next
    fix a x
    assume a: "kept (now e) s0 s1" "v = Some a" "view (now e) s0 ?k = Some (abs_val (obj s1 a), x)" "addr (now e) s1 ?k = Some a"
    show ?thesis
    proof (cases "\<exists>b. abs_val (obj s1 a) = Str b")
      case False
      then have "append_turn e ?k ?v s0 = Some (s1, Some wrongtype)" using p a by (simp add: append_turn_def abs_type)
      from turn_reply [OF this a(1)] show ?thesis using a False by (cases "abs_val (obj s1 a)") (simp_all add: spec_append_def)
    next
      case True
      then obtain b where b: "abs_val (obj s1 a) = Str b" ..
      have "append_turn e ?k ?v s0 = swap_obj e ?k (Some a) (BLOB (b @ ?v)) [Number (int (length (b @ ?v)))] s1"
        using p a b by (simp add: append_turn_def abs_type abs_Str [OF b])
      from turn_swap [OF this a(1) assms(2,3)] show ?thesis using a b by (simp add: spec_append_def abs_new)
    qed
  qed
  then show "implements e s0 (retry 1001 (append_turn e ?k ?v) s0) (spec_append ?k ?v (view (now e) s0))" by (rule turn_loop) simp
qed

text \<open>The options of \<open>SET\<close> leave a time to live that is not negative.\<close>

text \<open>What the option parser has after some words.\<close>

definition opts_ok :: "set_word list \<Rightarrow> set_opts \<Rightarrow> bool" where
  "opts_ok ws o1 = (0 \<le> expire_us o1 \<and> have_expire o1 = list_ex is_ttl ws \<and> nx o1 = (If_new \<in> set ws) \<and> xx o1 = (If_old \<in> set ws)
     \<and> set_ttl ws = (if expire_us o1 = 0 then None else Some (expire_us o1)))"

lemma spelled_eq: "resp_cmd_eq a (bytes_of n) = spelled n a"
  by (auto simp: resp_cmd_eq_def spelled_def list_eq_iff_nth_eq)

lemma set_ttl_append: "set_ttl (bs @ ws) = (if list_ex is_ttl bs then set_ttl bs else set_ttl ws)"
  by (induction bs) (auto simp: is_ttl_def split: set_word.splits)

lemma no_ttl: "\<not> list_ex is_ttl ws \<Longrightarrow> set_ttl ws = None"
  by (induction ws) (auto simp: is_ttl_def split: set_word.splits)

lemma ttl_div:
  assumes "0 < u"
  shows "(t * u \<le> INT64_MAX) = (\<not> t > INT64_MAX div u)"
proof -
  have "t \<le> INT64_MAX div u" if "t * u \<le> INT64_MAX" using zdiv_mono1 [OF that assms] assms by simp
  moreover have "t * u \<le> INT64_MAX" if "t \<le> INT64_MAX div u"
  proof -
    have "t * u \<le> INT64_MAX div u * u" using that assms by (simp add: mult_right_mono)
    also have "\<dots> \<le> INT64_MAX" using div_mult_mod_eq [of INT64_MAX u] pos_mod_sign [OF assms, of INT64_MAX] by linarith
    finally show ?thesis .
  qed
  ultimately show ?thesis by (auto simp: not_less)
qed

lemma expire_opt_ok:
  assumes "opts_ok bs o1" "0 < u"
  shows "case word_fault bs (Ttl u b) of Some r \<Rightarrow> expire_opt b u o1 = Inl r
    | None \<Rightarrow> \<exists>o2. expire_opt b u o1 = Inr o2 \<and> opts_ok (bs @ [Ttl u b]) o2"
proof (cases "list_ex is_ttl bs")
  case True
  then show ?thesis using assms(1) by (simp add: word_fault_def expire_opt_def opts_ok_def syntax_error_def)
next
  case False
  then have h: "\<not> have_expire o1" using assms(1) by (simp add: opts_ok_def)
  show ?thesis
  proof (cases "ttl_us u b")
    case None
    then show ?thesis using False h
      by (auto simp: word_fault_def expire_opt_def ttl_us_def arg_int_eq ttl_div [OF assms(2)] set_expire_error_def split: option.splits if_splits)
  next
    case (Some us)
    then obtain t where t: "resp_arg_to_ll b = Some t" "0 < t" "\<not> t > INT64_MAX div u" "us = t * u"
      by (auto simp: ttl_us_def arg_int_eq ttl_div [OF assms(2)] split: option.splits if_splits)
    then have "expire_opt b u o1 = Inr (o1\<lparr>expire_us := us, have_expire := True\<rparr>)" using h by (simp add: expire_opt_def)
    moreover have "0 < us" using t assms(2) by simp
    ultimately show ?thesis using False Some assms(1)
      by (simp add: word_fault_def opts_ok_def set_ttl_append is_ttl_def)
  qed
qed

lemma flag_ok:
  assumes "opts_ok bs o1"
  shows "w = If_new \<Longrightarrow> opts_ok (bs @ [w]) (o1\<lparr>nx := True\<rparr>)" "w = If_old \<Longrightarrow> opts_ok (bs @ [w]) (o1\<lparr>xx := True\<rparr>)"
  using assms no_ttl [of bs] by (auto simp: opts_ok_def set_ttl_append is_ttl_def split: if_splits)

lemma set_options_words:
  assumes "opts_ok bs o1"
  shows "case first_fault bs (set_words as) of Some r \<Rightarrow> set_options as o1 = Inl r
    | None \<Rightarrow> \<exists>o2. set_options as o1 = Inr o2 \<and> opts_ok (bs @ set_words as) o2"
  using assms
proof (induction as arbitrary: bs o1 rule: set_words.induct)
  case 1
  then show ?case by simp
next
  case (2 a)
  then show ?case
    using flag_ok [OF 2] by (auto simp: spelled_eq set_flag_def word_fault_def syntax_error_def simp del: bytes_of_Cons)
next
  case (3 a b as)
  consider (ex) "spelled ''EX'' a" | (px) "\<not> spelled ''EX'' a" "spelled ''PX'' a"
    | (flag) "\<not> spelled ''EX'' a" "\<not> spelled ''PX'' a" by blast
  then show ?case
  proof cases
    case ex
    show ?thesis
    proof (cases "word_fault bs (Ttl 1000000 b)")
      case None
      then obtain o2 where o: "expire_opt b 1000000 o1 = Inr o2" "opts_ok (bs @ [Ttl 1000000 b]) o2"
        using expire_opt_ok [OF "3.prems", of 1000000 b] by auto
      show ?thesis using "3.IH"(1) [OF ex o(2)] ex None o(1) by (simp add: spelled_eq del: bytes_of_Cons split: option.splits)
    qed (use expire_opt_ok [OF "3.prems", of 1000000 b] ex in \<open>simp add: spelled_eq del: bytes_of_Cons\<close>)
  next
    case px
    show ?thesis
    proof (cases "word_fault bs (Ttl 1000 b)")
      case None
      then obtain o2 where o: "expire_opt b 1000 o1 = Inr o2" "opts_ok (bs @ [Ttl 1000 b]) o2"
        using expire_opt_ok [OF "3.prems", of 1000 b] by auto
      show ?thesis using "3.IH"(2) [OF px o(2)] px None o(1) by (simp add: spelled_eq del: bytes_of_Cons split: option.splits)
    qed (use expire_opt_ok [OF "3.prems", of 1000 b] px in \<open>simp add: spelled_eq del: bytes_of_Cons\<close>)
  next
    case flag
    note ih = "3.IH"(3) [OF flag]
    have w: "set_words (a # b # as) = set_flag a # set_words (b # as)" using flag by simp
    show ?thesis
    proof (cases "set_flag a")
      case If_new
      then have "set_options (a # b # as) o1 = set_options (b # as) (o1\<lparr>nx := True\<rparr>)"
        using flag by (auto simp: spelled_eq set_flag_def simp del: bytes_of_Cons split: if_splits)
      moreover have "word_fault bs (set_flag a) = None" using If_new by (simp add: word_fault_def)
      ultimately show ?thesis using ih [OF flag_ok(1) [OF "3.prems" If_new]]
        by (simp only: w first_fault.simps option.case append_assoc append_Cons append_Nil)
    next
      case If_old
      then have "set_options (a # b # as) o1 = set_options (b # as) (o1\<lparr>xx := True\<rparr>)"
        using flag by (auto simp: spelled_eq set_flag_def simp del: bytes_of_Cons split: if_splits)
      moreover have "word_fault bs (set_flag a) = None" using If_old by (simp add: word_fault_def)
      ultimately show ?thesis using ih [OF flag_ok(2) [OF "3.prems" If_old]]
        by (simp only: w first_fault.simps option.case append_assoc append_Cons append_Nil)
    next
      case Unknown_word
      then show ?thesis using flag by (auto simp: spelled_eq set_flag_def word_fault_def syntax_error_def simp del: bytes_of_Cons split: if_splits)
    qed (simp add: set_flag_def split: if_splits)
  qed
qed

lemma deadline_ok:
  assumes "srv_ok s" "key_legal k" "mem_ok e" "0 \<le> us" "0 \<le> now e" "now e < INT64_MAX" "view (now e) s k = Some (v, 0)"
  shows "srv_ok (set_deadline e k us s) \<and> shut_rd (set_deadline e k us s) = shut_rd s
    \<and> view (now e) (set_deadline e k us s) = (view (now e) s)(k \<mapsto> (v, if us = 0 then 0 else min INT64_MAX (now e + us)))"
proof (cases "us = 0")
  case True
  then show ?thesis using assms(1,7) by (simp add: set_deadline_def fun_upd_idem)
next
  case False
  define d where "d = (if us > INT64_MAX - now e then INT64_MAX else now e + us)"
  have d: "d > now e" "d = min INT64_MAX (now e + us)" using False assms(4,6) by (auto simp: d_def)
  obtain s1 c where p: "resp_kv_peek e k s = (s1, c)" by (metis surj_pair)
  note l = peek_lookup [OF assms(1,2) p]
  then obtain a where a: "c = Some a" "addr (now e) s k = Some a" "v = abs_val (obj s1 a)"
    using assms(7) by (auto split: option.splits)
  have k: "kept (now e) s s1" using l by simp
  obtain s2 b where t: "touch_obj e k a d s1 = (s2, b)" by (metis surj_pair)
  have "fst (kv_mem e)" using assms(3) by (simp add: mem_ok_def)
  from touch_ok [OF keptD(1) [OF k] assms(2) t this] have "srv_ok s2" "shut_rd s2 = shut_rd s"
    "view (now e) s2 = (view (now e) s)(k \<mapsto> (v, d))" using d a keptD [OF k] by simp_all
  moreover have "set_deadline e k us s = s2" using False p a t by (simp add: set_deadline_def d_def Let_def)
  ultimately show ?thesis using False d by simp
qed

lemma set_fast_ok:
  assumes "srv_ok s" "key_legal k" "mem_ok e" "set_fast e k v s = (s1, b)"
  shows "if b then srv_ok s1 \<and> shut_rd s1 = shut_rd s \<and> view (now e) s1 = (view (now e) s)(k \<mapsto> (Str v, 0)) else kept (now e) s s1"
proof -
  obtain s0 c where p: "resp_kv_peek e k s = (s0, c)" by (metis surj_pair)
  note l = peek_lookup [OF assms(1,2) p]
  then have k: "kept (now e) s s0" by simp
  show ?thesis
  proof (cases "\<exists>a. c = Some a \<and> isblob (obj s0 a) \<and> blob_bytes (obj s0 a) = v")
    case False
    then have "s1 = s0" "\<not> b" using assms(4) p by (auto simp: set_fast_def split: option.splits if_splits)
    then show ?thesis using k by simp
  next
    case True
    then obtain a where a: "c = Some a" "isblob (obj s0 a)" "blob_bytes (obj s0 a) = v" by blast
    have "abs_val (obj s0 a) = Str v" using a(2,3) abs_Str by (auto simp: abs_type)
    moreover have "touch_obj e k a 0 s0 = (s1, b)" using assms(4) p a by (simp add: set_fast_def)
    moreover have "fst (kv_mem e)" using assms(3) by (simp add: mem_ok_def)
    moreover have "addr (now e) s0 k = Some a" using l a keptD(3) [OF k] by simp
    ultimately show ?thesis using touch_ok [OF keptD(1) [OF k] assms(2), of e a 0 s1 b] keptD [OF k] by simp
  qed
qed

definition opts_set :: "int \<Rightarrow> set_opts \<Rightarrow> bytes \<Rightarrow> bytes \<Rightarrow> rdb \<Rightarrow> rdb \<times> reply list" where
  "opts_set n o1 = spec_set n (if expire_us o1 = 0 then None else Some (expire_us o1)) (nx o1) (xx o1)"

lemma spec_set_simps: "opts_set n o1 k v M =
     (if nx o1 \<and> xx o1 then (M, syntax_error)
      else if nx o1 \<and> M k \<noteq> None \<or> xx o1 \<and> M k = None then (M, [Null])
      else (M(k \<mapsto> (Str v, if expire_us o1 = 0 then 0 else min INT64_MAX (n + expire_us o1))), ok_reply))"
  by (cases "M k") (simp_all add: opts_set_def spec_set_def syntax_error_def)

lemma set_slow_ok:
  assumes "srv_ok s" "key_legal k" "mem_ok e" "has_room e s k" "0 \<le> now e" "now e < INT64_MAX" "0 \<le> expire_us o1" "\<not> (nx o1 \<and> xx o1)"
  shows "implements e s (set_slow e o1 k v s) (opts_set (now e) o1 k v (view (now e) s))"
proof -
  obtain s1 a where n: "new_obj (BLOB v) s = (s1, a)" by (metis surj_pair)
  define s2 where "s2 = resp_kv_ensure e s1"
  have "val_ok (BLOB v)" by (simp add: abs_new)
  note o1 = new_obj_ok [OF assms(1) this n]
  have r1: "has_room e s1 k" using assms(4) by (rule room_slots) (simp_all add: o1)
  note o2 = ensure_ok [OF _ r1, folded s2_def]
  have ob: "objs s2 = objs s1" by (simp add: s2_def resp_kv_ensure_def split: option.split)
  have s2: "srv_ok s2" "kv s2 \<noteq> None" "has_room e s2 k" "view (now e) s2 = view (now e) s" "shut_rd s2 = shut_rd s"
    "obj_ok s2 (Some a)" "abs_val (obj s2 a) = Str v"
    using o1 o2 ob by (auto simp: obj_ok_def obj_def abs_new)
  have dl: "implements e s (Some (set_deadline e k (expire_us o1) s3, ok_reply))
      ((view (now e) s)(k \<mapsto> (Str v, if expire_us o1 = 0 then 0 else min INT64_MAX (now e + expire_us o1))), ok_reply)"
    if "srv_ok s3" "shut_rd s3 = shut_rd s" "view (now e) s3 = (view (now e) s)(k \<mapsto> (Str v, 0))" for s3
    using deadline_ok [OF that(1) assms(2,3,7,5,6), of "Str v"] that by (simp add: implements_def)
  have sl: "set_slow e o1 k v s =
      (if nx o1 \<or> xx o1 then
        (case (if nx o1 then set_nx_obj e k a s2 else Some (set_xx_obj e k a s2)) of
           None \<Rightarrow> None
         | Some (s3, True) \<Rightarrow> Some (set_deadline e k (expire_us o1) s3, ok_reply)
         | Some (s3, False) \<Rightarrow>
             (case resp_kv_peek e k s3 of (s4, cur) \<Rightarrow>
                Some (s4, if (nx o1 \<and> cur = None) \<or> (xx o1 \<and> cur \<noteq> None) then err ''ERR OOM in SET'' else [Null])))
      else (case resp_kv_set e k a s2 of
           (s3, False) \<Rightarrow> Some (s3, err ''ERR table full'')
         | (s3, True) \<Rightarrow> Some (set_deadline e k (expire_us o1) s3, ok_reply)))"
    unfolding set_slow_def n Let_def prod.case s2_def [symmetric] by (simp only: s2(2) if_False)
  have miss: "implements e s (case resp_kv_peek e k s3 of (s4, cur) \<Rightarrow>
      Some (s4, if (nx o1 \<and> cur = None) \<or> (xx o1 \<and> cur \<noteq> None) then err ''ERR OOM in SET'' else [Null])) (view (now e) s, [Null])"
    if "srv_ok s3" "shut_rd s3 = shut_rd s" "view (now e) s3 = view (now e) s" "nx o1 \<longrightarrow> view (now e) s k \<noteq> None"
      "xx o1 \<longrightarrow> view (now e) s k = None" for s3
  proof -
    obtain s4 c where p: "resp_kv_peek e k s3 = (s4, c)" by (metis surj_pair)
    note l = peek_lookup [OF that(1) assms(2) p]
    then have "(c = None) = (view (now e) s k = None)" using that(3) by (auto split: option.splits)
    then have "\<not> ((nx o1 \<and> c = None) \<or> (xx o1 \<and> c \<noteq> None))" using that(4,5) assms(8) by auto
    then have "(if (nx o1 \<and> c = None) \<or> (xx o1 \<and> c \<noteq> None) then err ''ERR OOM in SET'' else [Null]) = [Null]" by (simp only: if_False)
    moreover have "implements e s (Some (s4, [Null])) (view (now e) s, [Null])"
      using l keptD [of "now e" s3 s4] that(1-3) by (simp add: implements_def)
    ultimately show ?thesis unfolding p prod.case by (simp only:)
  qed
  show ?thesis
  proof (cases "nx o1")
    case True
    obtain s3 where x: "set_nx_obj e k a s2 = Some (s3, view (now e) s2 k = None)" "srv_ok s3" "objs s3 = objs s2" "shut_rd s3 = shut_rd s2"
      "view (now e) s3 = (if view (now e) s2 k = None then (view (now e) s2)(k \<mapsto> (abs_val (obj s2 a), 0)) else view (now e) s2)"
      using set_nx_ok [OF s2(1) assms(2,3) s2(2,3,6)] by blast
    show ?thesis
      using sl True assms(8) x s2 dl [of s3] miss [of s3] by (cases "view (now e) s k") (simp_all add: spec_set_simps)
  next
    case nn: False
    show ?thesis
    proof (cases "xx o1")
      case True
      obtain s3 b where x: "set_xx_obj e k a s2 = (s3, b)" by (metis surj_pair)
      have "fst (kv_mem e)" using assms(3) by (simp add: mem_ok_def)
      note w = set_xx_ok [OF s2(1) assms(2) x this s2(6)]
      show ?thesis
        using sl True nn w x s2 dl [of s3] miss [of s3] by (cases "view (now e) s k") (simp_all add: spec_set_simps)
    next
      case False
      obtain s3 b where x: "resp_kv_set e k a s2 = (s3, b)" by (metis surj_pair)
      note w = set_ok [OF s2(1) assms(2,3) s2(2,3,6) x]
      show ?thesis using sl False nn w x s2 dl [of s3] by (simp add: spec_set_simps)
    qed
  qed
qed

lemma cmd_set_ok:
  assumes "srv_ok s" "key_legal (argv ! 1)" "mem_ok e" "3 \<le> length argv \<longrightarrow> has_room e s (argv ! 1)" "0 \<le> now e" "now e < INT64_MAX"
  shows "implements e s (cmd_set e argv s) (arity (3 \<le> length argv) (view (now e) s) (set_args (now e) argv (view (now e) s)))"
proof (cases "length argv < 3")
  case True
  then show ?thesis using assms(1) by (simp add: cmd_set_def arity_def implements_def)
next
  case l: False
  let ?k = "argv ! 1" and ?v = "argv ! 2" and ?ws = "set_words (drop 3 argv)"
  have "opts_ok [] no_opts" by (simp add: opts_ok_def no_opts_def)
  note w0 = set_options_words [OF this, of "drop 3 argv", unfolded append_Nil]
  show ?thesis
  proof (cases "first_fault [] ?ws")
    case (Some r)
    then have "set_options (drop 3 argv) no_opts = Inl r" using w0 by simp
    then show ?thesis using Some l assms(1) by (simp add: cmd_set_def arity_def implements_def set_args_def Let_def)
  next
    case None
    then obtain o1 where Inr: "set_options (drop 3 argv) no_opts = Inr o1" and oo: "opts_ok ?ws o1" using w0 by auto
    have p: "0 \<le> expire_us o1" using oo by (simp add: opts_ok_def)
    have r: "has_room e s ?k" using assms(4) l by simp
    have sp: "arity (3 \<le> length argv) (view (now e) s) (set_args (now e) argv (view (now e) s)) = opts_set (now e) o1 ?k ?v (view (now e) s)"
      using l None oo by (simp add: arity_def set_args_def Let_def opts_set_def opts_ok_def)
    show ?thesis
    proof (cases "nx o1 \<and> xx o1")
      case True
      then show ?thesis using l Inr assms(1) unfolding sp by (simp add: cmd_set_def implements_def spec_set_simps)
    next
      case nb: False
      show ?thesis
      proof (cases "\<not> nx o1 \<and> \<not> xx o1 \<and> expire_us o1 = 0 \<and> kv s \<noteq> None")
        case False
        then have "cmd_set e argv s = set_slow e o1 ?k ?v s" using l Inr nb by (auto simp: cmd_set_def)
        then show ?thesis using set_slow_ok [OF assms(1-3) r assms(5,6) p nb] unfolding sp by simp
      next
        case True
        obtain s1 b where f: "set_fast e ?k ?v s = (s1, b)" by (metis surj_pair)
        note w = set_fast_ok [OF assms(1-3) f]
        have c: "cmd_set e argv s = (if b then Some (s1, ok_reply) else set_slow e o1 ?k ?v s1)"
          using l Inr nb True f by (auto simp: cmd_set_def)
        show ?thesis
        proof (cases b)
          case b: True
          then show ?thesis using c w True unfolding sp by (simp add: implements_def spec_set_simps)
        next
          case b: False
          then have k: "kept (now e) s s1" using w by simp
          have "implements e s1 (set_slow e o1 ?k ?v s1) (opts_set (now e) o1 ?k ?v (view (now e) s1))"
            by (rule set_slow_ok [OF keptD(1) [OF k] assms(2,3) room_kept [OF r k] assms(5,6) p nb])
          from impl_kept_trans [where f = "opts_set (now e) o1 ?k ?v", OF this k] show ?thesis using c b unfolding sp by simp
        qed
      qed
    qed
  qed
qed

end
