(* ===== verification/RespRefine.thy ===== *)
theory RespRefine
  imports RespSpec
begin

text \<open>
  The commands on keys, lists and hashes, the table of what every command promises, and the
  properties of the server: each command implements its specification on a table with room, what
  the enumerating commands show, and what a client gets for a stream of requests.
\<close>

section \<open>Keys\<close>

lemma view_live: "view n s k = Some (v, x) \<Longrightarrow> x = 0 \<or> n < x"
  by (auto simp: view_def deref_def purge_k entry_expired_def split: option.splits if_splits)

lemma type_ok:
  assumes "srv_ok s" "key_legal (argv ! 1)"
  shows "implements e s (cmd_type e argv s) (arity (length argv = 2) (view (now e) s)
    (spec_read (argv ! 1) [Status (bytes_of ''none'')] (\<lambda>v. [Status (bytes_of (type_name v))]) (view (now e) s)))"
  unfolding cmd_type_def
proof (rule impl_arity [OF assms(1)])
  obtain s1 v where p: "resp_kv_lookup e (argv ! 1) s = (s1, v)" by (metis surj_pair)
  have t: "resp_type_name v = type_name (abs_val v)" for v
    by (cases v) (simp_all add: resp_type_name_def type_name_def abs_val_def isblob_def islist_def isdict_def isvector_def)
  show "implements e s (case resp_kv_lookup e (argv ! 1) s of (s1, None) \<Rightarrow> Some (s1, [Status (bytes_of ''none'')])
      | (s1, Some a) \<Rightarrow> Some (s1, [Status (bytes_of (resp_type_name (obj s1 a)))]))
    (spec_read (argv ! 1) [Status (bytes_of ''none'')] (\<lambda>v. [Status (bytes_of (type_name v))]) (view (now e) s))"
  proof (rule lookup_cases [OF assms p])
    assume "kept (now e) s s1" "v = None" "view (now e) s (argv ! 1) = None"
    then show ?thesis using impl_kept [of e s s1] p by (simp add: spec_read_def)
  next
    fix a x
    assume "kept (now e) s s1" "v = Some a" "view (now e) s (argv ! 1) = Some (abs_val (obj s1 a), x)"
    then show ?thesis using impl_kept [of e s s1] p t by (simp add: spec_read_def)
  qed
qed

lemma del_loop_ok:
  assumes "srv_ok s" "\<forall>k \<in> set ks. key_legal k" "del_loop e ks s n = (s1, m)"
  shows "srv_ok s1 \<and> shut_rd s1 = shut_rd s \<and> view (now e) s1 = view (now e) s |` (- set ks)
    \<and> m = n + int (card {k \<in> set ks. view (now e) s k \<noteq> None})"
  using assms
proof (induction ks arbitrary: s n)
  case Nil
  then show ?case by (simp add: restrict_map_def)
next
  case (Cons k ks)
  obtain s0 b where d: "resp_kv_del e k s = (s0, b)" by (metis surj_pair)
  note o = del_ok [OF Cons.prems(1) _ d]
  have l: "del_loop e ks s0 (if b then n + 1 else n) = (s1, m)" using Cons.prems(3) d by simp
  have kl: "key_legal k" using Cons.prems(2) by simp
  have i: "srv_ok s1 \<and> shut_rd s1 = shut_rd s0 \<and> view (now e) s1 = view (now e) s0 |` (- set ks)
    \<and> m = (if b then n + 1 else n) + int (card {k \<in> set ks. view (now e) s0 k \<noteq> None})"
    using Cons.IH [OF conjunct1 [OF o [OF kl]] _ l] Cons.prems(2) by simp
  let ?A = "{j \<in> set ks. view (now e) s0 j \<noteq> None}"
  have A: "k \<notin> ?A" "finite ?A" using o [OF kl] by simp_all
  have "{j \<in> set (k # ks). view (now e) s j \<noteq> None} = (if b then insert k ?A else ?A)"
    using o [OF kl] by (auto split: if_splits)
  then have C: "int (card {j \<in> set (k # ks). view (now e) s j \<noteq> None}) = (if b then 1 else 0) + int (card ?A)"
    using A by simp
  have R: "view (now e) s0 |` (- set ks) = view (now e) s |` (- set (k # ks))"
    using o [OF kl] by (auto simp: restrict_map_def fun_eq_iff)
  have "m = n + int (card {j \<in> set (k # ks). view (now e) s j \<noteq> None})" unfolding C using i by simp
  moreover have "view (now e) s1 = view (now e) s |` (- set (k # ks))" using i R by (simp only:)
  ultimately show ?case using i o [OF kl] by (simp only: simp_thms)
qed

lemma exists_loop_ok:
  assumes "srv_ok s" "\<forall>k \<in> set ks. key_legal k" "exists_loop e ks s n = (s1, m)"
  shows "kept (now e) s s1 \<and> m = n + int (length (filter (\<lambda>k. view (now e) s k \<noteq> None) ks))"
  using assms
proof (induction ks arbitrary: s n)
  case (Cons k ks)
  obtain s0 v where l: "resp_kv_lookup e k s = (s0, v)" by (metis surj_pair)
  have kl: "key_legal k" using Cons.prems(2) by simp
  note o = lookup_ok [OF Cons.prems(1) kl l]
  have x: "exists_loop e ks s0 (if v \<noteq> None then n + 1 else n) = (s1, m)" using Cons.prems(3) l by simp
  have k: "kept (now e) s s0" using o by simp
  have i: "kept (now e) s0 s1 \<and> m = (if v \<noteq> None then n + 1 else n) + int (length (filter (\<lambda>k. view (now e) s0 k \<noteq> None) ks))"
    using Cons.IH [OF keptD(1) [OF k] _ x] Cons.prems(2) by simp
  have "(v \<noteq> None) = (view (now e) s k \<noteq> None)" using o view_at [OF Cons.prems(1), of "now e" k] by (simp split: option.split)
  then show ?case using i k keptD(2) [OF k] by (auto simp: kept_def)
qed simp

lemma expire_ok:
  assumes "srv_ok s" "key_legal (argv ! 1)" "mem_ok e" "0 \<le> now e"
  shows "implements e s (cmd_expire e millis argv s) (arity (length argv = 3) (view (now e) s)
    (spec_expire (now e) (if millis then 1000 else 1000000) (argv ! 1) (argv ! 2) (view (now e) s)))"
proof -
  let ?k = "argv ! 1" and ?M = "view (now e) s"
  define mul :: int where "mul = (if millis then 1000 else 1000000)"
  have mul: "mul > 0" by (simp add: mul_def)
  show ?thesis
  proof (cases "length argv = 3")
    case False
    then show ?thesis using assms(1) by (simp add: cmd_expire_def arity_def implements_def)
  next
    case l: True
    show ?thesis
    proof (cases "resp_arg_to_ll (argv ! 2)")
      case None
      then show ?thesis using l assms(1) by (simp add: cmd_expire_def arity_def implements_def spec_expire_def arg_int_eq)
    next
      case (Some d)
      obtain s1 b where del: "resp_kv_del e ?k s = (s1, b)" by (metis surj_pair)
      obtain s2 c where ts: "resp_kv_set_expiry e ?k (now e + d * mul) s = (s2, c)" by (metis surj_pair)
      have c: "cmd_expire e millis argv s =
          (if d \<le> 0 then Some (s1, bool_reply b)
           else if d > INT64_MAX div mul \<or> d * mul > INT64_MAX - now e
           then Some (s, err (quoted ''ERR invalid expire time in '' ''expire''))
           else Some (s2, bool_reply c))"
        using l Some del ts by (simp add: cmd_expire_def mul_def Let_def)
      have sp: "arity (length argv = 3) ?M (spec_expire (now e) (if millis then 1000 else 1000000) ?k (argv ! 2) ?M) =
          (if d \<le> 0 then (?M(?k := None), bool_reply (?M ?k \<noteq> None))
           else if now e + d * mul > INT64_MAX then (?M, err (quoted ''ERR invalid expire time in '' ''expire''))
           else (case ?M ?k of None \<Rightarrow> (?M, bool_reply False) | Some (v, x) \<Rightarrow> (?M(?k \<mapsto> (v, now e + d * mul)), bool_reply True)))"
        using l Some unfolding spec_expire_def arg_int_eq arity_def mul_def [symmetric] by simp
      show ?thesis
      proof (cases "d \<le> 0")
        case True
        then show ?thesis unfolding c sp using del_ok [OF assms(1,2) del] by (simp add: implements_def)
      next
        case False
        have "d * mul > INT64_MAX" if "d > INT64_MAX div mul"
        proof -
          have "INT64_MAX < (INT64_MAX div mul + 1) * mul"
            using div_mult_mod_eq [of INT64_MAX mul] pos_mod_bound [OF mul, of INT64_MAX] unfolding distrib_right mult_1 by linarith
          also have "\<dots> \<le> d * mul" using that mul by (intro mult_right_mono) simp_all
          finally show ?thesis .
        qed
        then have g: "(d > INT64_MAX div mul \<or> d * mul > INT64_MAX - now e) = (now e + d * mul > INT64_MAX)"
          using assms(4) by linarith
        have pos: "d * mul > 0" using False mul by simp
        have "fst (kv_mem e)" using assms(3) by (simp add: mem_ok_def)
        note w = set_expiry_ok [OF assms(1,2) ts this]
        show ?thesis unfolding c sp g using False w pos assms(1) by (auto simp: implements_def split: option.splits)
      qed
    qed
  qed
qed

lemma ttl_ok:
  assumes "srv_ok s" "key_legal (argv ! 1)" "0 \<le> now e"
  shows "implements e s (cmd_ttl e millis argv s) (arity (length argv = 2) (view (now e) s)
    (spec_ttl (now e) (if millis then 1000 else 1000000) (argv ! 1) (view (now e) s)))"
proof (cases "length argv = 2")
  case False
  then show ?thesis using assms(1) by (simp add: cmd_ttl_def arity_def implements_def)
next
  case True
  obtain s1 t where g: "resp_kv_get_expiry e (argv ! 1) s = (s1, t)" by (metis surj_pair)
  note o = get_expiry_ok [OF assms(1,2) g]
  then have k: "kept (now e) s s1" by simp
  note r = impl_kept [OF k]
  show ?thesis
  proof (cases "view (now e) s (argv ! 1)")
    case None
    then show ?thesis using o r True g by (simp add: cmd_ttl_def arity_def spec_ttl_def)
  next
    case (Some p)
    obtain v x where p: "p = (v, x)" by (metis surj_pair)
    have "x = 0 \<or> now e < x" using view_live Some p by blast
    then show ?thesis using o r True g Some p assms(3) by (auto simp: cmd_ttl_def arity_def spec_ttl_def Let_def max_def)
  qed
qed

lemma persist_ok:
  assumes "srv_ok s" "key_legal (argv ! 1)" "mem_ok e" "0 \<le> now e"
  shows "implements e s (cmd_persist e argv s) (arity (length argv = 2) (view (now e) s) (spec_persist (argv ! 1) (view (now e) s)))"
proof (cases "length argv = 2")
  case False
  then show ?thesis using assms(1) by (simp add: cmd_persist_def arity_def implements_def)
next
  case True
  let ?k = "argv ! 1"
  obtain s1 t where g: "resp_kv_get_expiry e ?k s = (s1, t)" by (metis surj_pair)
  note o = get_expiry_ok [OF assms(1,2) g]
  then have k: "kept (now e) s s1" by simp
  obtain s2 b where x: "resp_kv_set_expiry e ?k 0 s1 = (s2, b)" by (metis surj_pair)
  have "fst (kv_mem e)" using assms(3) by (simp add: mem_ok_def)
  note w = set_expiry_ok [OF keptD(1) [OF k] assms(2) x this]
  have c: "cmd_persist e argv s = (if t \<le> 0 then Some (s1, [Number 0]) else Some (s2, [Number 1]))"
    using True g x by (simp add: cmd_persist_def)
  show ?thesis
  proof (cases "view (now e) s ?k")
    case None
    then show ?thesis using o impl_kept [OF k] c True by (simp add: arity_def spec_persist_def)
  next
    case (Some p)
    obtain v y where p: "p = (v, y)" by (metis surj_pair)
    have "y = 0 \<or> now e < y" using view_live Some p by blast
    then show ?thesis using o impl_kept [OF k] c True w keptD [OF k] Some p assms(4) by (auto simp: arity_def spec_persist_def implements_def)
  qed
qed

lemma flush_ok:
  assumes "srv_ok s"
  shows "implements e s (cmd_flushdb s) (Map.empty, ok_reply)"
proof (cases "kv s")
  case None
  then show ?thesis using assms by (simp add: cmd_flushdb_def resp_kv_clear_def on_kv_def implements_def view_def deref_def ents_def purge_def)
next
  case (Some t)
  then have "lf_ok t" using assms by (simp add: srv_ok_def)
  obtain kc c where c: "retire_loop (\<lambda>_. True) [0..<nslots t] t 0 = (kc, c)" by (metis surj_pair)
  have "\<forall>i \<in> set [0..<nslots t]. i < nslots t" by simp
  note cl = retire_loop_ok [OF \<open>lf_ok t\<close> this c]
  have "lfkv_map kc = Map.empty" using cl by (simp add: retire_all [OF \<open>lf_ok t\<close>] fun_eq_iff split: option.split)
  moreover have "resp_kv_clear s = s\<lparr>kv := Some kc\<rparr>" using Some c by (simp add: resp_kv_clear_def on_kv_def lfkv_clear_def)
  ultimately show ?thesis using cl by (simp add: cmd_flushdb_def implements_def srv_ok_def view_def deref_def ents_def purge_def)
qed

section \<open>Lists\<close>

lemma push_all_map: "map blob_bytes (push_all left vs l) = (if left then rev vs @ map blob_bytes l else map blob_bytes l @ vs)"
  by (induction vs arbitrary: l) (simp_all add: push_all_def blob_bytes_def)

lemma push_all_ok: "list_all isblob l \<Longrightarrow> list_all isblob (push_all left vs l)"
  by (induction vs arbitrary: l) (simp_all add: push_all_def isblob_def)

lemma clone_list [simp]: "resp_list_clone l = l"
proof -
  have "foldl (\<lambda>l x. l @ [x]) a l = a @ l" for a by (induction l arbitrary: a) simp_all
  then show ?thesis by (simp add: resp_list_clone_def)
qed

lemma lst_blobs: "abs_val v = Lst l \<Longrightarrow> val_ok v \<Longrightarrow> list_all isblob (list_items v)"
  by (cases v) (simp_all add: abs_val_def val_ok_def list_items_def)

lemma push_turn_ok:
  assumes "srv_ok s" "key_legal k" "mem_ok e" "kv s \<noteq> None" "has_room e s k"
  shows "turn_ok e s (push_turn e left k vs s) (spec_push left k vs (view (now e) s))"
proof -
  obtain s1 v where p: "resp_kv_lookup e k s = (s1, v)" by (metis surj_pair)
  show ?thesis
  proof (rule lookup_cases [OF assms(1,2) p])
    assume a: "kept (now e) s s1" "v = None" "view (now e) s k = None" "addr (now e) s1 k = None"
    let ?l = "push_all left vs []"
    have m: "map blob_bytes ?l = (if left then rev vs else vs)" by (simp add: push_all_map)
    then have "length ?l = length (if left then rev vs else vs)" by (metis length_map)
    then have "push_turn e left k vs s = swap_obj e k None (LIST ?l) [Number (int (length (if left then rev vs else vs)))] s1"
      using p a by (simp add: push_turn_def)
    from turn_swap [OF this a(1) assms(2,3)] show ?thesis
      using a assms(4,5) m push_all_ok [of "[]" left vs] by (cases left) (simp_all add: spec_push_def abs_new)
  next
    fix a x
    assume a: "kept (now e) s s1" "v = Some a" "view (now e) s k = Some (abs_val (obj s1 a), x)" "val_ok (obj s1 a)"
      "addr (now e) s1 k = Some a"
    show ?thesis
    proof (cases "\<exists>l. abs_val (obj s1 a) = Lst l")
      case False
      then have "push_turn e left k vs s = Some (s1, Some wrongtype)" using p a by (simp add: push_turn_def abs_type)
      from turn_reply [OF this a(1)] show ?thesis
        using a False by (cases "abs_val (obj s1 a)") (simp_all add: spec_push_def Let_def)
    next
      case True
      then obtain l where l: "abs_val (obj s1 a) = Lst l" ..
      let ?l = "push_all left vs (list_items (obj s1 a))" and ?l' = "if left then rev vs @ l else l @ vs"
      have m: "map blob_bytes ?l = ?l'" using abs_Lst [OF l] by (simp add: push_all_map)
      then have "length ?l = length ?l'" by (metis length_map)
      then have "push_turn e left k vs s = swap_obj e k (Some a) (LIST ?l) [Number (int (length ?l'))] s1"
        using p a l by (simp add: push_turn_def abs_type)
      from turn_swap [OF this a(1) assms(2,3)] show ?thesis
        using a l m push_all_ok [OF lst_blobs [OF l a(4)], of left vs] by (cases left) (simp_all add: spec_push_def abs_new)
    qed
  qed
qed

lemma push_ok:
  assumes "srv_ok s" "key_legal (argv ! 1)" "mem_ok e" "3 \<le> length argv \<longrightarrow> has_room e s (argv ! 1)"
  shows "implements e s (cmd_lpush_rpush e left argv s)
    (arity (3 \<le> length argv) (view (now e) s) (spec_push left (argv ! 1) (drop 2 argv) (view (now e) s)))"
proof (cases "length argv < 3")
  case True
  then show ?thesis using assms(1) by (simp add: cmd_lpush_rpush_def arity_def implements_def)
next
  case False
  have "implements e s (let s1 = resp_kv_ensure e s in if kv s1 = None then Some (s1, no_memory)
      else retry 1001 (push_turn e left (argv ! 1) (drop 2 argv)) s1) (spec_push left (argv ! 1) (drop 2 argv) (view (now e) s))"
  proof (rule ensure_wrap [OF assms(1)])
    show "has_room e s (argv ! 1)" using assms(4) False by simp
  next
    fix s1 assume "srv_ok s1" "kv s1 \<noteq> None" "has_room e s1 (argv ! 1)"
    from push_turn_ok [OF this(1) assms(2,3) this(2,3)]
    show "implements e s1 (retry 1001 (push_turn e left (argv ! 1) (drop 2 argv)) s1)
      (spec_push left (argv ! 1) (drop 2 argv) (view (now e) s1))" by (rule turn_loop) simp
  qed
  then show ?thesis using False by (simp add: cmd_lpush_rpush_def arity_def)
qed

lemma turn_cas_None:
  assumes "kept (now e) s s1" "key_legal k" "mem_ok e" "addr (now e) s1 k = Some a"
    and "res = (let (s2, ok) = cas_obj e k a None s1 in Some (s2, if ok then Some r else None))"
  shows "turn_ok e s res ((view (now e) s)(k := None), r)"
proof -
  obtain s2 b where c: "cas_obj e k a None s1 = (s2, b)" by (metis surj_pair)
  have "fst (kv_mem e)" using assms(3) by (simp add: mem_ok_def)
  from cas_ok [OF keptD(1) [OF assms(1)] assms(2) c this _ assms(4)]
  show ?thesis using assms(5) c keptD [OF assms(1)] by (simp add: turn_ok_def implements_def)
qed

lemma pop_turn_ok:
  assumes "srv_ok s" "key_legal k" "mem_ok e"
  shows "turn_ok e s (pop_turn e left k s) (spec_pop left k (view (now e) s))"
proof -
  obtain s1 v where p: "resp_kv_lookup e k s = (s1, v)" by (metis surj_pair)
  show ?thesis
  proof (rule lookup_cases [OF assms(1,2) p])
    assume a: "kept (now e) s s1" "v = None" "view (now e) s k = None"
    then have "pop_turn e left k s = Some (s1, Some [Null])" using p by (simp add: pop_turn_def)
    from turn_reply [OF this a(1)] show ?thesis using a by (simp add: spec_pop_def)
  next
    fix a x
    assume a: "kept (now e) s s1" "v = Some a" "view (now e) s k = Some (abs_val (obj s1 a), x)" "val_ok (obj s1 a)"
      "addr (now e) s1 k = Some a"
    show ?thesis
    proof (cases "\<exists>l. abs_val (obj s1 a) = Lst l")
      case False
      then have "pop_turn e left k s = Some (s1, Some wrongtype)" using p a by (simp add: pop_turn_def abs_type)
      from turn_reply [OF this a(1)] show ?thesis
        using a False by (cases "abs_val (obj s1 a)") (simp_all add: spec_pop_def Let_def)
    next
      case True
      then obtain l where l: "abs_val (obj s1 a) = Lst l" ..
      define src where "src = list_items (obj s1 a)"
      have m: "map blob_bytes src = l" using abs_Lst [OF l] by (simp add: src_def)
      define r where "r = [Bulk (if left then hd l else last l)]"
      define rest where "rest = (if left then tl src else butlast src)"
      have mr: "map blob_bytes rest = (if left then tl l else butlast l)"
        by (simp add: rest_def m [symmetric] map_tl map_butlast)
      have pt: "pop_turn e left k s = (if l = [] then Some (s1, Some [Null])
          else if length l = 1 then (let (s2, ok) = cas_obj e k a None s1 in Some (s2, if ok then Some r else None))
          else swap_obj e k (Some a) (LIST rest) r s1)"
      proof -
        have "src \<noteq> [] \<Longrightarrow> [Bulk (blob_bytes (if left then hd src else last src))] = r"
          by (simp add: r_def m [symmetric] hd_map last_map)
        moreover have "(src = []) = (l = [])" "length src = length l" using m by (simp_all add: m [symmetric])
        ultimately show ?thesis using p a l
          by (auto simp: pop_turn_def abs_type src_def [symmetric] rest_def Let_def)
      qed
      have sp: "spec_pop left k (view (now e) s) = (if l = [] then (view (now e) s, [Null])
          else (if map blob_bytes rest = [] then (view (now e) s)(k := None) else put_val (view (now e) s) k (Lst (map blob_bytes rest)), r))"
        using a l by (simp add: spec_pop_def mr r_def Let_def)
      have bl: "list_all isblob rest" using lst_blobs [OF l a(4)]
        by (auto simp: rest_def src_def list_all_iff dest: in_set_butlastD list.set_sel(2)) (metis list.set_sel(2) tl_Nil empty_iff list.set(1))
      show ?thesis
      proof (cases "l = []")
        case True
        then show ?thesis unfolding sp using turn_reply [OF pt [unfolded if_P [OF True]] a(1)] by simp
      next
        case ne: False
        have e: "(map blob_bytes rest = []) = (length l = 1)" using ne unfolding mr by (cases l) auto
        show ?thesis
        proof (cases "length l = 1")
          case True
          then have "pop_turn e left k s = (let (s2, ok) = cas_obj e k a None s1 in Some (s2, if ok then Some r else None))"
            using pt ne by simp
          from turn_cas_None [OF a(1) assms(2,3) a(5) this] show ?thesis unfolding sp using ne e True by simp
        next
          case False
          then have "pop_turn e left k s = swap_obj e k (Some a) (LIST rest) r s1" using pt ne by simp
          from turn_swap [OF this a(1) assms(2,3)] show ?thesis unfolding sp using ne e False a(5) bl by (simp add: abs_new)
        qed
      qed
    qed
  qed
qed

lemma pop_ok:
  assumes "srv_ok s" "key_legal (argv ! 1)" "mem_ok e"
  shows "implements e s (cmd_lpop_rpop e left argv s) (arity (length argv = 2) (view (now e) s) (spec_pop left (argv ! 1) (view (now e) s)))"
  unfolding cmd_lpop_rpop_def
  by (rule impl_arity [OF assms(1)], rule turn_loop [where f = "pop_turn e left (argv ! 1)", OF pop_turn_ok [OF assms]]) simp

lemma on_list:
  assumes "\<And>l. q l = f (map blob_bytes l)"
  shows "(if \<not> islist v then wrongtype else q (list_items v)) = on_lst f (abs_val v)"
proof (cases "\<exists>l. abs_val v = Lst l")
  case True
  then obtain l where "abs_val v = Lst l" ..
  then show ?thesis using abs_Lst [of v l] assms by (simp add: abs_type on_lst_def)
next
  case False
  then show ?thesis by (cases "abs_val v") (simp_all add: abs_type on_lst_def)
qed

lemma llen_ok:
  assumes "srv_ok s" "key_legal (argv ! 1)"
  shows "implements e s (cmd_llen e argv s) (arity (length argv = 2) (view (now e) s)
    (spec_read (argv ! 1) [Number 0] (on_lst (\<lambda>l. [Number (int (length l))])) (view (now e) s)))"
  unfolding cmd_llen_def
proof (rule impl_arity [OF assms(1)], rule read_val [OF assms])
  fix v show "(if \<not> islist v then wrongtype else [Number (int (length (list_items v)))]) = on_lst (\<lambda>l. [Number (int (length l))]) (abs_val v)"
    by (rule on_list) simp
qed

lemma walk_nth: "0 \<le> i \<Longrightarrow> i < int (length l) \<Longrightarrow> list_walk l i = l ! nat i"
proof -
  assume i: "0 \<le> i" "i < int (length l)"
  have "rev l ! nat (int (length l) - 1 - i) = l ! nat i"
    using i by (subst rev_nth) (auto intro!: arg_cong [where f = "(!) l"])
  then show ?thesis by (simp add: list_walk_def)
qed

lemma index_reply:
  "(let ni = resp_norm_index i (int (length l)) in if ni < 0 then [Null] else [Bulk (blob_bytes (list_walk l ni))])
   = spec_index i (map blob_bytes l)"
proof -
  let ?n = "int (length l)"
  have p: "i mod ?n = i" if "0 \<le> i" "i < ?n" using that by simp
  have m: "i mod ?n = i + ?n" if "i < 0" "- ?n \<le> i" using that mod_pos_pos_trivial [of "i + ?n" ?n] by simp
  show ?thesis
  proof (cases "- ?n \<le> i \<and> i < ?n")
    case True
    then have n: "0 < ?n" by linarith
    have r: "resp_norm_index i ?n = i mod ?n" "0 \<le> i mod ?n" "i mod ?n < ?n"
      using True p m n by (simp_all add: resp_norm_index_def Let_def)
    then show ?thesis using True walk_nth [OF r(2,3)] by (simp add: spec_index_def Let_def)
  next
    case False
    then have "resp_norm_index i ?n = -1" by (auto simp: resp_norm_index_def Let_def)
    then show ?thesis using False by (simp add: spec_index_def Let_def)
  qed
qed

lemma lindex_ok:
  assumes "srv_ok s" "key_legal (argv ! 1)"
  shows "implements e s (cmd_lindex e argv s) (arity (length argv = 3) (view (now e) s)
    (case arg_int (argv ! 2) of None \<Rightarrow> (view (now e) s, not_integer)
     | Some i \<Rightarrow> spec_read (argv ! 1) [Null] (on_lst (spec_index i)) (view (now e) s)))"
  unfolding cmd_lindex_def arg_int_eq
proof (rule impl_arity [OF assms(1)], cases "resp_arg_to_ll (argv ! 2)")
  case None
  then show "implements e s (case resp_arg_to_ll (argv ! 2) of None \<Rightarrow> Some (s, not_integer)
      | Some idx \<Rightarrow> read_cmd e (argv ! 1) islist [Null] (\<lambda>v. let l = list_items v; ni = resp_norm_index idx (int (length l)) in
                 if ni < 0 then [Null] else [Bulk (blob_bytes (list_walk l ni))]) s)
    (case resp_arg_to_ll (argv ! 2) of None \<Rightarrow> (view (now e) s, not_integer)
     | Some i \<Rightarrow> spec_read (argv ! 1) [Null] (on_lst (spec_index i)) (view (now e) s))"
    using impl_reply [OF assms(1)] by simp
next
  case (Some i)
  have "implements e s (read_cmd e (argv ! 1) islist [Null] (\<lambda>v. let l = list_items v; ni = resp_norm_index i (int (length l)) in
      if ni < 0 then [Null] else [Bulk (blob_bytes (list_walk l ni))]) s) (spec_read (argv ! 1) [Null] (on_lst (spec_index i)) (view (now e) s))"
  proof (rule read_val [OF assms])
    fix v
    show "(if \<not> islist v then wrongtype else let l = list_items v; ni = resp_norm_index i (int (length l)) in
      if ni < 0 then [Null] else [Bulk (blob_bytes (list_walk l ni))]) = on_lst (spec_index i) (abs_val v)"
      unfolding Let_def [of "list_items v"] index_reply by (rule on_list) simp
  qed
  then show "implements e s (case resp_arg_to_ll (argv ! 2) of None \<Rightarrow> Some (s, not_integer)
      | Some idx \<Rightarrow> read_cmd e (argv ! 1) islist [Null] (\<lambda>v. let l = list_items v; ni = resp_norm_index idx (int (length l)) in
                 if ni < 0 then [Null] else [Bulk (blob_bytes (list_walk l ni))]) s)
    (case resp_arg_to_ll (argv ! 2) of None \<Rightarrow> (view (now e) s, not_integer)
     | Some i \<Rightarrow> spec_read (argv ! 1) [Null] (on_lst (spec_index i)) (view (now e) s))"
    using Some by simp
qed

lemma sub_list: "0 \<le> i \<Longrightarrow> i \<le> j \<Longrightarrow> j < int (length l) \<Longrightarrow>
    take (nat (j - i + 1)) (drop (nat i) l) = map (\<lambda>x. l ! nat x) [i..j]"
  by (rule nth_equalityI) (auto simp: nat_add_distrib)

lemma range_reply_spec: "range_reply a b l = spec_range a b (map blob_bytes l)"
proof -
  let ?n = "int (length l)"
  define ix where "ix = (\<lambda>i. if i < 0 then i + ?n else i)"
  define i where "i = max 0 (ix a)"
  define j where "j = min (?n - 1) (ix b)"
  have i: "(if a < 0 then max 0 (a + ?n) else a) = i" by (auto simp: i_def ix_def max_def)
  have j: "(let j0 = (if b < 0 then b + ?n else b) in if j0 \<ge> ?n then ?n - 1 else j0) = j" by (auto simp: j_def ix_def Let_def min_def)
  have code: "range_reply a b l = (if i > j \<or> i \<ge> ?n then [Header 0]
      else Header (j - i + 1) # map (\<lambda>v. Bulk (blob_bytes v)) (take (nat (j - i + 1)) (drop (nat i) l)))"
    unfolding range_reply_def Let_def [of ?n] i j by (simp only: Let_def)
  have xs: "map (\<lambda>x. map blob_bytes l ! nat x) [i..j] = map (\<lambda>x. blob_bytes (l ! nat x)) [i..j]"
    by (rule map_cong) (auto simp: i_def j_def nat_less_iff)
  have spec: "spec_range a b (map blob_bytes l) = Header (int (length [i..j])) # map Bulk (map (\<lambda>x. blob_bytes (l ! nat x)) [i..j])"
  proof -
    have "spec_range a b (map blob_bytes l) = Header (int (length (map (\<lambda>i. map blob_bytes l ! nat i) [max 0 (ix a)..min (?n - 1) (ix b)])))
        # map Bulk (map (\<lambda>i. map blob_bytes l ! nat i) [max 0 (ix a)..min (?n - 1) (ix b)])"
      by (simp only: spec_range_def Let_def length_map ix_def)
    then show ?thesis unfolding i_def [symmetric] j_def [symmetric] xs by (simp only: length_map)
  qed
  show ?thesis
  proof (cases "i > j \<or> i \<ge> ?n")
    case True
    then have "[i..j] = []" by (auto simp: j_def)
    then show ?thesis using True by (simp add: code spec)
  next
    case False
    then have "0 \<le> i" "i \<le> j" "j < ?n" by (auto simp: i_def j_def)
    then show ?thesis using False by (simp add: code spec sub_list comp_def)
  qed
qed

lemma lrange_ok:
  assumes "srv_ok s" "key_legal (argv ! 1)"
  shows "implements e s (cmd_lrange e argv s) (arity (length argv = 4) (view (now e) s)
    (case (arg_int (argv ! 2), arg_int (argv ! 3)) of
       (Some a, Some b) \<Rightarrow> spec_read (argv ! 1) [Header 0] (on_lst (spec_range a b)) (view (now e) s)
     | _ \<Rightarrow> (view (now e) s, not_integer)))"
proof -
  have r: "implements e s (read_cmd e (argv ! 1) islist [Header 0] (\<lambda>v. range_reply a b (list_items v)) s)
      (spec_read (argv ! 1) [Header 0] (on_lst (spec_range a b)) (view (now e) s))" for a b
  proof (rule read_val [OF assms])
    fix v show "(if \<not> islist v then wrongtype else range_reply a b (list_items v)) = on_lst (spec_range a b) (abs_val v)"
      by (rule on_list) (rule range_reply_spec)
  qed
  show ?thesis
    unfolding cmd_lrange_def arg_int_eq
    by (rule impl_arity [OF assms(1)]) (use r impl_reply [OF assms(1)] in \<open>auto split: option.split\<close>)
qed

section \<open>Hashes\<close>

lemma on_hash:
  assumes "val_ok v" "\<And>d. hash_ok d \<Longrightarrow> q d = f (hash_map d)"
  shows "(if \<not> isdict v then wrongtype else q (dict_ptr v)) = on_hsh f (abs_val v)"
proof (cases "\<exists>h. abs_val v = Hsh h")
  case True
  then obtain h where "abs_val v = Hsh h" ..
  then show ?thesis using abs_Hsh [of v h] assms by (auto simp: abs_type on_hsh_def)
next
  case False
  then show ?thesis by (cases "abs_val v") (simp_all add: abs_type on_hsh_def)
qed

lemma field_of_None: "(field_of d f = None) = (hash_map d f = None)"
  by (simp add: field_of_map [symmetric])

lemma hget_ok:
  assumes "srv_ok s" "key_legal (argv ! 1)"
  shows "implements e s (cmd_hget e argv s) (arity (length argv = 3) (view (now e) s)
    (spec_read (argv ! 1) [Null] (on_hsh (\<lambda>h. case h (argv ! 2) of None \<Rightarrow> [Null] | Some v \<Rightarrow> [Bulk v])) (view (now e) s)))"
  unfolding cmd_hget_def
proof (rule impl_arity [OF assms(1)], rule read_val [OF assms])
  fix v assume v: "val_ok v"
  have "(case field_of d (argv ! 2) of None \<Rightarrow> [Null] | Some fv \<Rightarrow> [Bulk (blob_bytes fv)])
      = (case hash_map d (argv ! 2) of None \<Rightarrow> [Null] | Some v \<Rightarrow> [Bulk v])" for d
    by (simp add: field_of_map [symmetric] split: option.split)
  then show "(if \<not> isdict v then wrongtype else case field_of (dict_ptr v) (argv ! 2) of None \<Rightarrow> [Null] | Some fv \<Rightarrow> [Bulk (blob_bytes fv)])
      = on_hsh (\<lambda>h. case h (argv ! 2) of None \<Rightarrow> [Null] | Some v \<Rightarrow> [Bulk v]) (abs_val v)"
    by (intro on_hash [OF v]) simp
qed

lemma hexists_ok:
  assumes "srv_ok s" "key_legal (argv ! 1)"
  shows "implements e s (cmd_hexists e argv s) (arity (length argv = 3) (view (now e) s)
    (spec_read (argv ! 1) [Number 0] (on_hsh (\<lambda>h. bool_reply (h (argv ! 2) \<noteq> None))) (view (now e) s)))"
  unfolding cmd_hexists_def
proof (rule impl_arity [OF assms(1)], rule read_val [OF assms])
  fix v assume v: "val_ok v"
  show "(if \<not> isdict v then wrongtype else bool_reply (field_of (dict_ptr v) (argv ! 2) \<noteq> None))
      = on_hsh (\<lambda>h. bool_reply (h (argv ! 2) \<noteq> None)) (abs_val v)"
    by (intro on_hash [OF v]) (simp only: field_of_None)
qed

lemma hlen_ok:
  assumes "srv_ok s" "key_legal (argv ! 1)"
  shows "implements e s (cmd_hlen e argv s) (arity (length argv = 2) (view (now e) s)
    (spec_read (argv ! 1) [Number 0] (on_hsh (\<lambda>h. [Number (int (card (dom h)))])) (view (now e) s)))"
  unfolding cmd_hlen_def
proof (rule impl_arity [OF assms(1)], rule read_val [OF assms])
  fix v assume v: "val_ok v"
  show "(if \<not> isdict v then wrongtype else [Number (int (dict_used (dict_ptr v)))]) = on_hsh (\<lambda>h. [Number (int (card (dom h)))]) (abs_val v)"
    by (intro on_hash [OF v]) (simp add: hash_count)
qed

lemma field_set_new:
  assumes "hash_ok d" "0 \<notin> set f" "resp_dict_field_set d f (BLOB v) = (d', b)"
  shows "hash_ok d' \<and> hash_map d' = (hash_map d)(f \<mapsto> v) \<and> b = (hash_map d f = None)"
proof -
  have d': "d' = fst (set_get_keyval_dict d f (Some (BLOB v)))" "b = (dict_used d' > dict_used d)"
    using assms(3) by (auto simp: resp_dict_field_set_def Let_def)
  note p = hash_put [OF assms(1,2), of v, folded d'(1)]
  have "dom (hash_map d') = insert f (dom (hash_map d))" using p by simp
  then have "card (dom (hash_map d')) = (if hash_map d f = None then card (dom (hash_map d)) + 1 else card (dom (hash_map d)))"
    using hash_count [OF assms(1)] by (auto simp: domIff insert_absorb)
  then show ?thesis using p d'(2) hash_count [OF assms(1)] hash_count [of d'] by (auto split: if_splits)
qed

lemma hset_fields_ok:
  assumes "hash_ok d" "hset_fields fvs d n = (d', m)"
  shows "hash_ok d' \<and> hash_map d' = hash_map d ++ map_of (rev (field_pairs fvs))
    \<and> m = n + int (card (dom (hash_map d') - dom (hash_map d)))"
  using assms
proof (induction fvs d n rule: hset_fields.induct)
  case (1 f v rest d n)
  show ?case
  proof (cases "0 \<in> set f")
    case True
    then have "resp_dup_key f = None" by (simp add: resp_dup_key_def)
    then show ?thesis using 1 True by simp
  next
    case False
    obtain d1 b where s: "resp_dict_field_set d f (BLOB v) = (d1, b)" by (metis surj_pair)
    note w = field_set_new [OF 1(3) False s]
    have k: "resp_dup_key f = Some f" using False by (simp add: resp_dup_key_def)
    then have r: "hset_fields rest d1 (if b then n + 1 else n) = (d', m)" using 1(4) s by simp
    note i0 = 1(2) [OF k s [symmetric] refl conjunct1 [OF w] r]
    note i = conjunct1 [OF i0] conjunct1 [OF conjunct2 [OF i0]] conjunct2 [OF conjunct2 [OF i0]]
    have e: "hash_map d' = hash_map d ++ map_of (rev (field_pairs (f # v # rest)))"
      using w False unfolding i(2) by (auto simp: map_add_def fun_eq_iff split: option.split)
    let ?A = "dom (hash_map d') - dom (hash_map d1)"
    have fin: "finite ?A" using hash_count [OF i(1)] by simp
    have f: "f \<in> dom (hash_map d')" using i(2) w by auto
    have dm: "dom (hash_map d1) = insert f (dom (hash_map d))" "b = (f \<notin> dom (hash_map d))" using w by (simp_all add: domIff)
    have "X - D = (if f \<notin> D then insert f (X - insert f D) else X - insert f D)" if "f \<in> X" for X D :: "bytes set"
      using that by auto
    from this [OF f, of "dom (hash_map d)"] have "dom (hash_map d') - dom (hash_map d) = (if b then insert f ?A else ?A)"
      unfolding dm by (simp only: if_cancel)
    moreover have "card (insert f ?A) = 1 + card ?A" using card_insert_disjoint [OF fin, of f] dm(1) by simp
    ultimately have "card (dom (hash_map d') - dom (hash_map d)) = (if b then 1 else 0) + card ?A"
      by (simp only: if_True if_False add_0 split: if_split) simp
    then show ?thesis using i(1,3) e by simp
  qed
qed (simp_all add: map_add_def)

lemma hdel_fields_ok:
  assumes "hash_ok d" "hdel_fields fs d n = (d', m)"
  shows "hash_ok d' \<and> hash_map d' = hash_map d |` (- set fs) \<and> m = n + int (card (dom (hash_map d) \<inter> set fs))"
  using assms
proof (induction fs d n rule: hdel_fields.induct)
  case (2 f fs d n)
  show ?case
  proof (cases "0 \<in> set f")
    case True
    have k: "resp_dup_key f = None" using True by (simp add: resp_dup_key_def)
    have z: "hash_map d f = None" by (rule hash_map_nul [OF True])
    have i: "hash_ok d' \<and> hash_map d' = hash_map d |` (- set fs) \<and> m = n + int (card (dom (hash_map d) \<inter> set fs))"
      using 2(1) [OF k 2(3)] 2(4) k by simp
    have "hash_map d |` (- set fs) = hash_map d |` (- set (f # fs))" using z by (auto simp: restrict_map_def fun_eq_iff)
    moreover have "dom (hash_map d) \<inter> set fs = dom (hash_map d) \<inter> set (f # fs)" using z by auto
    ultimately show ?thesis using i by simp
  next
    case False
    obtain d1 b where s: "resp_dict_field_del d f = (d1, b)" by (metis surj_pair)
    then have d1: "d1 = fst (del_keyval_dict d f)" "b = snd (del_keyval_dict d f)" by (simp_all add: resp_dict_field_del_def)
    note w = hash_drop [OF 2(3) False, folded d1]
    have k: "resp_dup_key f = Some f" using False by (simp add: resp_dup_key_def)
    then have r: "hdel_fields fs d1 (if b then n + 1 else n) = (d', m)" using 2(4) s by simp
    note i = 2(2) [OF k s [symmetric] refl conjunct1 [OF w] r]
    have "hash_map d1 |` (- set fs) = hash_map d |` (- set (f # fs))" using w by (auto simp: restrict_map_def fun_eq_iff)
    moreover have "card (dom (hash_map d) \<inter> set (f # fs)) = (if b then 1 else 0) + card (dom (hash_map d1) \<inter> set fs)"
    proof -
      have "dom (hash_map d) \<inter> set (f # fs) = (if b then insert f (dom (hash_map d1) \<inter> set fs) else dom (hash_map d1) \<inter> set fs)"
        using w by auto
      then show ?thesis using w by simp
    qed
    ultimately show ?thesis using i by simp
  qed
qed (simp add: restrict_map_def)

lemma hset_turn_ok:
  assumes "srv_ok s" "key_legal k" "mem_ok e" "kv s \<noteq> None" "has_room e s k"
  shows "turn_ok e s (hset_turn e k fvs s) (spec_hset k fvs (view (now e) s))"
proof -
  obtain s1 v where p: "resp_kv_lookup e k s = (s1, v)" by (metis surj_pair)
  show ?thesis
  proof (rule lookup_cases [OF assms(1,2) p])
    assume a: "kept (now e) s s1" "v = None" "view (now e) s k = None" "addr (now e) s1 k = None"
    obtain h m where h: "hset_fields fvs create_dict 0 = (h, m)" by (metis surj_pair)
    note o = hset_fields_ok [OF hash_empty(1) h, unfolded hash_empty(2)]
    have "hset_turn e k fvs s = swap_obj e k None (DICT h) [Number m] s1" using p a h by (simp add: hset_turn_def)
    from turn_swap [OF this a(1) assms(2,3)] show ?thesis
      using a assms(4,5) o by (simp add: spec_hset_def abs_new Let_def)
  next
    fix a x
    assume a: "kept (now e) s s1" "v = Some a" "view (now e) s k = Some (abs_val (obj s1 a), x)" "val_ok (obj s1 a)"
      "addr (now e) s1 k = Some a"
    show ?thesis
    proof (cases "\<exists>h. abs_val (obj s1 a) = Hsh h")
      case False
      then have "hset_turn e k fvs s = Some (s1, Some wrongtype)" using p a by (simp add: hset_turn_def abs_type)
      from turn_reply [OF this a(1)] show ?thesis
        using a False by (cases "abs_val (obj s1 a)") (simp_all add: spec_hset_def Let_def)
    next
      case True
      then obtain h0 where h0: "abs_val (obj s1 a) = Hsh h0" ..
      note d = abs_Hsh [OF h0 a(4)]
      note c = hash_clone [OF conjunct2 [OF d]]
      obtain h m where h: "hset_fields fvs (resp_dict_clone (dict_ptr (obj s1 a))) 0 = (h, m)" by (metis surj_pair)
      note o = hset_fields_ok [OF conjunct1 [OF c] h]
      have "hset_turn e k fvs s = swap_obj e k (Some a) (DICT h) [Number m] s1" using p a h h0 by (simp add: hset_turn_def abs_type)
      from turn_swap [OF this a(1) assms(2,3)] show ?thesis
        using a h0 o c d by (simp add: spec_hset_def abs_new Let_def)
    qed
  qed
qed

definition spec_hset_cmd :: "bytes list \<Rightarrow> rdb \<Rightarrow> rdb \<times> reply list" where
  "spec_hset_cmd argv M = (if odd (length argv) then (M, err (quoted ''ERR wrong number of arguments for '' ''hset''))
     else spec_hset (argv ! 1) (drop 2 argv) M)"

lemma hset_ok:
  assumes "srv_ok s" "key_legal (argv ! 1)" "mem_ok e" "4 \<le> length argv \<longrightarrow> has_room e s (argv ! 1)"
  shows "implements e s (cmd_hset e argv s) (arity (4 \<le> length argv) (view (now e) s) (spec_hset_cmd argv (view (now e) s)))"
proof (cases "length argv < 4")
  case True
  then show ?thesis using assms(1) by (simp add: cmd_hset_def arity_def implements_def)
next
  case l: False
  then obtain m where m: "length argv = m + 4" using le_Suc_ex [of 4 "length argv"] by (auto simp: add.commute not_less)
  have od: "((length argv - 2) mod 2 \<noteq> 0) = odd (length argv)" unfolding m by (simp add: odd_iff_mod_2_eq_one)
  show ?thesis
  proof (cases "odd (length argv)")
    case True
    then show ?thesis using l od assms(1) by (simp add: cmd_hset_def arity_def implements_def spec_hset_cmd_def)
  next
    case False
    have "implements e s (let s1 = resp_kv_ensure e s in if kv s1 = None then Some (s1, no_memory)
        else retry 1001 (hset_turn e (argv ! 1) (drop 2 argv)) s1) (spec_hset (argv ! 1) (drop 2 argv) (view (now e) s))"
    proof (rule ensure_wrap [OF assms(1)])
      show "has_room e s (argv ! 1)" using assms(4) l by simp
    next
      fix s1 assume "srv_ok s1" "kv s1 \<noteq> None" "has_room e s1 (argv ! 1)"
      from hset_turn_ok [OF this(1) assms(2,3) this(2,3)]
      show "implements e s1 (retry 1001 (hset_turn e (argv ! 1) (drop 2 argv)) s1)
        (spec_hset (argv ! 1) (drop 2 argv) (view (now e) s1))" by (rule turn_loop) simp
    qed
    then show ?thesis using l od False by (simp add: cmd_hset_def arity_def spec_hset_cmd_def)
  qed
qed

lemma hdel_turn_ok:
  assumes "srv_ok s" "key_legal k" "mem_ok e"
  shows "turn_ok e s (hdel_turn e k fs s) (spec_hdel k fs (view (now e) s))"
proof -
  obtain s1 v where p: "resp_kv_lookup e k s = (s1, v)" by (metis surj_pair)
  show ?thesis
  proof (rule lookup_cases [OF assms(1,2) p])
    assume a: "kept (now e) s s1" "v = None" "view (now e) s k = None"
    then have "hdel_turn e k fs s = Some (s1, Some [Number 0])" using p by (simp add: hdel_turn_def)
    from turn_reply [OF this a(1)] show ?thesis using a by (simp add: spec_hdel_def)
  next
    fix a x
    assume a: "kept (now e) s s1" "v = Some a" "view (now e) s k = Some (abs_val (obj s1 a), x)" "val_ok (obj s1 a)"
      "addr (now e) s1 k = Some a"
    show ?thesis
    proof (cases "\<exists>h. abs_val (obj s1 a) = Hsh h")
      case False
      then have "hdel_turn e k fs s = Some (s1, Some wrongtype)" using p a by (simp add: hdel_turn_def abs_type)
      from turn_reply [OF this a(1)] show ?thesis
        using a False by (cases "abs_val (obj s1 a)") (simp_all add: spec_hdel_def Let_def)
    next
      case True
      then obtain h0 where h0: "abs_val (obj s1 a) = Hsh h0" ..
      note d = abs_Hsh [OF h0 a(4)]
      note c = hash_clone [OF conjunct2 [OF d]]
      obtain h m where h: "hdel_fields fs (resp_dict_clone (dict_ptr (obj s1 a))) 0 = (h, m)" by (metis surj_pair)
      note o = hdel_fields_ok [OF conjunct1 [OF c] h]
      have ht: "hdel_turn e k fs s = (if dict_used h = 0 then (let (s2, ok) = cas_obj e k a None s1 in Some (s2, if ok then Some [Number m] else None))
          else swap_obj e k (Some a) (DICT h) [Number m] s1)"
        using p a h h0 by (simp add: hdel_turn_def abs_type)
      have em: "(dict_used h = 0) = (hash_map h = Map.empty)" using hash_count [OF conjunct1 [OF o]] by simp
      have sp: "spec_hdel k fs (view (now e) s)
          = (if hash_map h = Map.empty then (view (now e) s)(k := None) else put_val (view (now e) s) k (Hsh (hash_map h)), [Number m])"
        using a h0 o c d by (simp add: spec_hdel_def Let_def)
      show ?thesis
      proof (cases "dict_used h = 0")
        case True
        from turn_cas_None [OF a(1) assms(2,3) a(5) ht [unfolded if_P [OF True]]] show ?thesis unfolding sp using em True by simp
      next
        case False
        from turn_swap [OF ht [unfolded if_not_P [OF False]] a(1) assms(2,3)] show ?thesis
          unfolding sp using em False a(5) o by (simp add: abs_new)
      qed
    qed
  qed
qed

lemma hdel_ok:
  assumes "srv_ok s" "key_legal (argv ! 1)" "mem_ok e"
  shows "implements e s (cmd_hdel e argv s) (arity (3 \<le> length argv) (view (now e) s) (spec_hdel (argv ! 1) (drop 2 argv) (view (now e) s)))"
  using turn_loop [where f = "hdel_turn e (argv ! 1) (drop 2 argv)", OF hdel_turn_ok [OF assms], of 1001] assms(1)
  by (auto simp: cmd_hdel_def arity_def implements_def)

section \<open>The table of promises\<close>

definition resp_spec :: "resp_kind_t \<Rightarrow> int \<Rightarrow> bytes list \<Rightarrow> rdb \<Rightarrow> rdb \<times> reply list" where
  "resp_spec h n argv M = (let k = argv ! 1; argc = length argv in case h of
     HK_TYPE \<Rightarrow> arity (argc = 2) M (spec_read k [Status (bytes_of ''none'')] (\<lambda>v. [Status (bytes_of (type_name v))]) M)
   | HK_DEL \<Rightarrow> arity (2 \<le> argc) M (spec_del (tl argv) M)
   | HK_EXISTS \<Rightarrow> arity (2 \<le> argc) M (M, [Number (int (length (filter (\<lambda>k. M k \<noteq> None) (tl argv))))])
   | HK_EXPIRE_S \<Rightarrow> arity (argc = 3) M (spec_expire n 1000000 k (argv ! 2) M)
   | HK_EXPIRE_MS \<Rightarrow> arity (argc = 3) M (spec_expire n 1000 k (argv ! 2) M)
   | HK_TTL_S \<Rightarrow> arity (argc = 2) M (spec_ttl n 1000000 k M)
   | HK_TTL_MS \<Rightarrow> arity (argc = 2) M (spec_ttl n 1000 k M)
   | HK_PERSIST \<Rightarrow> arity (argc = 2) M (spec_persist k M)
   | HK_FLUSHDB \<Rightarrow> (Map.empty, ok_reply)
   | HK_GET \<Rightarrow> arity (argc = 2) M (spec_read k [Null] (on_str (\<lambda>b. [Bulk b])) M)
   | HK_SET \<Rightarrow> arity (3 \<le> argc) M (set_args n argv M)
   | HK_STRLEN \<Rightarrow> arity (argc = 2) M (spec_read k [Number 0] (on_str (\<lambda>b. [Number (int (length b))])) M)
   | HK_INCR \<Rightarrow> arity (argc = 2) M (spec_incr k 1 M)
   | HK_DECR \<Rightarrow> arity (argc = 2) M (spec_incr k (-1) M)
   | HK_INCRBY \<Rightarrow> arity (argc = 3) M (incr_by 1 k (argv ! 2) M)
   | HK_DECRBY \<Rightarrow> arity (argc = 3) M (incr_by (-1) k (argv ! 2) M)
   | HK_APPEND \<Rightarrow> arity (argc = 3) M (spec_append k (argv ! 2) M)
   | HK_LPUSH \<Rightarrow> arity (3 \<le> argc) M (spec_push True k (drop 2 argv) M)
   | HK_RPUSH \<Rightarrow> arity (3 \<le> argc) M (spec_push False k (drop 2 argv) M)
   | HK_LPOP \<Rightarrow> arity (argc = 2) M (spec_pop True k M)
   | HK_RPOP \<Rightarrow> arity (argc = 2) M (spec_pop False k M)
   | HK_LLEN \<Rightarrow> arity (argc = 2) M (spec_read k [Number 0] (on_lst (\<lambda>l. [Number (int (length l))])) M)
   | HK_LINDEX \<Rightarrow> arity (argc = 3) M
       (case arg_int (argv ! 2) of None \<Rightarrow> (M, not_integer) | Some i \<Rightarrow> spec_read k [Null] (on_lst (spec_index i)) M)
   | HK_LRANGE \<Rightarrow> arity (argc = 4) M
       (case (arg_int (argv ! 2), arg_int (argv ! 3)) of
          (Some a, Some b) \<Rightarrow> spec_read k [Header 0] (on_lst (spec_range a b)) M
        | _ \<Rightarrow> (M, not_integer))
   | HK_HSET \<Rightarrow> arity (4 \<le> argc) M (spec_hset_cmd argv M)
   | HK_HGET \<Rightarrow> arity (argc = 3) M
       (spec_read k [Null] (on_hsh (\<lambda>h. case h (argv ! 2) of None \<Rightarrow> [Null] | Some v \<Rightarrow> [Bulk v])) M)
   | HK_HDEL \<Rightarrow> arity (3 \<le> argc) M (spec_hdel k (drop 2 argv) M)
   | HK_HEXISTS \<Rightarrow> arity (argc = 3) M (spec_read k [Number 0] (on_hsh (\<lambda>h. bool_reply (h (argv ! 2) \<noteq> None))) M)
   | HK_HLEN \<Rightarrow> arity (argc = 2) M (spec_read k [Number 0] (on_hsh (\<lambda>h. [Number (int (card (dom h)))])) M)
   | _ \<Rightarrow> (M, []))"

definition string_kinds :: "resp_kind_t set" where
  "string_kinds = {HK_GET, HK_SET, HK_STRLEN, HK_INCR, HK_DECR, HK_INCRBY, HK_DECRBY, HK_APPEND}"

definition key_kinds :: "resp_kind_t set" where
  "key_kinds = {HK_TYPE, HK_DEL, HK_EXISTS, HK_EXPIRE_S, HK_EXPIRE_MS, HK_TTL_S, HK_TTL_MS, HK_PERSIST, HK_FLUSHDB}"

definition list_kinds :: "resp_kind_t set" where
  "list_kinds = {HK_LPUSH, HK_RPUSH, HK_LPOP, HK_RPOP, HK_LLEN, HK_LINDEX, HK_LRANGE}"

definition hash_kinds :: "resp_kind_t set" where
  "hash_kinds = {HK_HSET, HK_HGET, HK_HDEL, HK_HEXISTS, HK_HLEN}"

text \<open>The circumstances of a command.\<close>

definition can_serve :: "resp_env \<Rightarrow> resp_srv \<Rightarrow> bytes list \<Rightarrow> bool" where
  "can_serve e s argv = (srv_ok s \<and> mem_ok e \<and> 0 \<le> now e \<and> now e < INT64_MAX \<and> list_all key_legal argv)"

text \<open>A command that may create a key also needs a place for it.\<close>

definition can_run :: "resp_env \<Rightarrow> resp_srv \<Rightarrow> bytes list \<Rightarrow> bool" where
  "can_run e s argv = (can_serve e s argv \<and> (1 < length argv \<longrightarrow> has_room e s (argv ! 1)))"

lemma can_serveD:
  assumes "can_serve e s argv"
  shows "srv_ok s" "mem_ok e" "0 \<le> now e" "now e < INT64_MAX" "\<forall>k \<in> set (tl argv). key_legal k"
    "1 < length argv \<Longrightarrow> key_legal (argv ! 1)"
proof -
  have t: "set (tl argv) \<subseteq> set argv" by (cases argv) auto
  show "srv_ok s" "mem_ok e" "0 \<le> now e" "now e < INT64_MAX" "\<forall>k \<in> set (tl argv). key_legal k"
    "1 < length argv \<Longrightarrow> key_legal (argv ! 1)"
    using assms t by (auto simp: can_serve_def list_all_iff)
qed

lemma can_run_serve: "can_run e s argv \<Longrightarrow> can_serve e s argv"
  by (simp add: can_run_def)

lemma can_run_room: "can_run e s argv \<Longrightarrow> 1 < length argv \<Longrightarrow> has_room e s (argv ! 1)"
  by (simp add: can_run_def)

lemmas can_runD = can_run_serve [THEN can_serveD(1)] can_run_serve [THEN can_serveD(2)] can_run_serve [THEN can_serveD(3)]
  can_run_serve [THEN can_serveD(4)] can_run_serve [THEN can_serveD(5)] can_run_serve [THEN can_serveD(6)] can_run_room

lemma run_short:
  assumes "srv_ok s" "\<not> 1 < length argv" "h \<in> string_kinds \<union> (key_kinds - {HK_FLUSHDB}) \<union> list_kinds \<union> hash_kinds"
  shows "implements e s (run_kind h e argv s) (resp_spec h (now e) argv (view (now e) s))"
proof -
  have "run_kind h e argv s = Some (s, wrong_args)"
    using assms(2,3) by (auto simp: string_kinds_def key_kinds_def list_kinds_def hash_kinds_def run_kind_def cmd_get_def cmd_set_def
      cmd_strlen_def cmd_incr_decr_def cmd_incrby_decrby_def cmd_append_def cmd_type_def cmd_del_def cmd_exists_def cmd_expire_def
      cmd_ttl_def cmd_persist_def cmd_lpush_rpush_def cmd_lpop_rpop_def cmd_llen_def cmd_lindex_def cmd_lrange_def cmd_hset_def
      cmd_hget_def cmd_hdel_def cmd_hexists_def cmd_hlen_def)
  moreover have "resp_spec h (now e) argv (view (now e) s) = (view (now e) s, wrong_args)"
    using assms(2,3) by (auto simp: string_kinds_def key_kinds_def list_kinds_def hash_kinds_def resp_spec_def arity_def Let_def)
  ultimately show ?thesis using impl_reply [OF assms(1)] by simp
qed

lemma string_kinds_ok:
  assumes "can_run e s argv" "h \<in> string_kinds"
  shows "implements e s (run_kind h e argv s) (resp_spec h (now e) argv (view (now e) s))"
proof (cases "1 < length argv")
  case False
  then show ?thesis using run_short [OF can_runD(1) [OF assms(1)]] assms(2) by blast
next
  case l: True
  note c = can_runD [OF assms(1)]
  note k = c(6) [OF l] and r = c(7) [OF l]
  have rg: "implements e s (cmd_get e argv s) (arity (length argv = 2) (view (now e) s)
      (spec_read (argv ! 1) [Null] (on_str (\<lambda>b. [Bulk b])) (view (now e) s)))"
    unfolding cmd_get_def by (rule impl_arity [OF c(1)], rule read_str [OF c(1) k])
  have rs: "implements e s (cmd_strlen e argv s) (arity (length argv = 2) (view (now e) s)
      (spec_read (argv ! 1) [Number 0] (on_str (\<lambda>b. [Number (int (length b))])) (view (now e) s)))"
    unfolding cmd_strlen_def by (rule impl_arity [OF c(1)], rule read_str [OF c(1) k])
  have i1: "int64 1" "int64 (-1)" by (simp_all add: int64_def INT64_MIN_def INT64_MAX_def)
  have ri: "implements e s (cmd_incr_decr e d argv s) (arity (length argv = 2) (view (now e) s) (spec_incr (argv ! 1) d (view (now e) s)))"
    if "int64 d" for d
    unfolding cmd_incr_decr_def by (rule impl_arity [OF c(1)], rule apply_incr_ok [OF c(1) k c(2) r that])
  have rb: "implements e s (cmd_incrby_decrby e d argv s)
      (arity (length argv = 3) (view (now e) s) (incr_by d (argv ! 1) (argv ! 2) (view (now e) s)))" for d
    using incrby_ok [OF c(1) k c(2)] r by blast
  have ra: "implements e s (cmd_append e argv s) (arity (length argv = 3) (view (now e) s) (spec_append (argv ! 1) (argv ! 2) (view (now e) s)))"
    using append_ok [OF c(1) k c(2)] r by blast
  have rt: "implements e s (cmd_set e argv s) (arity (3 \<le> length argv) (view (now e) s) (set_args (now e) argv (view (now e) s)))"
    using cmd_set_ok [OF c(1) k c(2) _ c(3,4)] r by blast
  show ?thesis
    using assms(2) rg rs ri [OF i1(1)] ri [OF i1(2)] rb ra rt
    unfolding string_kinds_def by (elim insertE emptyE) (simp_all only: run_kind_def resp_spec_def Let_def resp_kind_t.case)
qed

lemma key_kinds_ok:
  assumes "can_serve e s argv" "h \<in> key_kinds"
  shows "implements e s (run_kind h e argv s) (resp_spec h (now e) argv (view (now e) s))"
proof (cases "1 < length argv \<or> h = HK_FLUSHDB")
  case False
  then show ?thesis using run_short [OF can_serveD(1) [OF assms(1)]] assms(2) by blast
next
  case l: True
  note c = can_serveD [OF assms(1)]
  have f: "h = HK_FLUSHDB \<Longrightarrow> ?thesis" using flush_ok [OF c(1)] by (simp add: run_kind_def resp_spec_def Let_def)
  show ?thesis
  proof (cases "h = HK_FLUSHDB")
    case False
    then have l: "1 < length argv" using l by simp
    note k = c(6) [OF l]
    have l2: "\<not> length argv < 2" "2 \<le> length argv" using l by simp_all
    obtain s1 m where d: "del_loop e (tl argv) s 0 = (s1, m)" by (metis surj_pair)
    have rd: "implements e s (cmd_del e argv s) (arity (2 \<le> length argv) (view (now e) s) (spec_del (tl argv) (view (now e) s)))"
      using del_loop_ok [OF c(1,5) d] d l2 by (simp add: cmd_del_def implements_def arity_def spec_del_def)
    obtain s2 m2 where x: "exists_loop e (tl argv) s 0 = (s2, m2)" by (metis surj_pair)
    have rx: "implements e s (cmd_exists e argv s) (arity (2 \<le> length argv) (view (now e) s)
        (view (now e) s, [Number (int (length (filter (\<lambda>k. view (now e) s k \<noteq> None) (tl argv))))]))"
      using exists_loop_ok [OF c(1,5) x] x l2 impl_kept [of e s s2] by (simp add: cmd_exists_def arity_def)
    show ?thesis
      using assms(2) rd rx flush_ok [OF c(1)] type_ok [OF c(1) k] expire_ok [OF c(1) k c(2,3), of True] expire_ok [OF c(1) k c(2,3), of False]
        ttl_ok [OF c(1) k c(3), of True] ttl_ok [OF c(1) k c(3), of False] persist_ok [OF c(1) k c(2,3)]
      unfolding key_kinds_def
      by (elim insertE emptyE) (simp_all only: run_kind_def resp_spec_def Let_def resp_kind_t.case if_True if_False)
  qed (use f in blast)
qed

lemma list_kinds_ok:
  assumes "can_run e s argv" "h \<in> list_kinds"
  shows "implements e s (run_kind h e argv s) (resp_spec h (now e) argv (view (now e) s))"
proof (cases "1 < length argv")
  case False
  then show ?thesis using run_short [OF can_runD(1) [OF assms(1)]] assms(2) by blast
next
  case l: True
  note c = can_runD [OF assms(1)]
  note k = c(6) [OF l] and r = c(7) [OF l]
  have rp: "implements e s (cmd_lpush_rpush e left argv s)
      (arity (3 \<le> length argv) (view (now e) s) (spec_push left (argv ! 1) (drop 2 argv) (view (now e) s)))" for left
    using push_ok [OF c(1) k c(2)] r by blast
  show ?thesis
    using assms(2) rp pop_ok [OF c(1) k c(2)] llen_ok [OF c(1) k] lindex_ok [OF c(1) k] lrange_ok [OF c(1) k]
    unfolding list_kinds_def by (elim insertE emptyE) (simp_all only: run_kind_def resp_spec_def Let_def resp_kind_t.case)
qed

lemma hash_kinds_ok:
  assumes "can_run e s argv" "h \<in> hash_kinds"
  shows "implements e s (run_kind h e argv s) (resp_spec h (now e) argv (view (now e) s))"
proof (cases "1 < length argv")
  case False
  then show ?thesis using run_short [OF can_runD(1) [OF assms(1)]] assms(2) by blast
next
  case l: True
  note c = can_runD [OF assms(1)]
  note k = c(6) [OF l] and r = c(7) [OF l]
  have rp: "implements e s (cmd_hset e argv s) (arity (4 \<le> length argv) (view (now e) s) (spec_hset_cmd argv (view (now e) s)))"
    using hset_ok [OF c(1) k c(2)] r by blast
  show ?thesis
    using assms(2) rp hdel_ok [OF c(1) k c(2)] hget_ok [OF c(1) k] hexists_ok [OF c(1) k] hlen_ok [OF c(1) k]
    unfolding hash_kinds_def by (elim insertE emptyE) (simp_all only: run_kind_def resp_spec_def Let_def resp_kind_t.case)
qed

section \<open>The enumerating commands\<close>

lemma foreach_keys:
  "foreach_loop t n resp_keys_snap_cb is c = c @ map fst (List.map_filter (shown t n) is)"
proof (induction "is" arbitrary: c)
  case (Cons i "is")
  show ?case
  proof (cases "entry_at t i")
    case None
    then show ?thesis using Cons.IH by (auto simp: shown_def entry_at_def List.map_filter_simps split: option.splits)
  next
    case (Some x)
    obtain k en where x: "x = (k, en)" by (metis surj_pair)
    then obtain a where "slots t ! i = Some a" "s_key (rec_at t a) = k" "s_entry (rec_at t a) = Some en"
      using Some by (auto simp: entry_at_Some)
    then show ?thesis
      using Cons.IH Some x by (cases "e_val en") (simp_all add: shown_def List.map_filter_simps resp_keys_snap_cb_def)
  qed
qed (simp add: List.map_filter_simps)

lemma shown_keys:
  assumes "srv_ok s" "kv s = Some t"
  shows "distinct (map fst (List.map_filter (shown t n) [0..<nslots t]))
    \<and> set (map fst (List.map_filter (shown t n) [0..<nslots t])) = dom (view n s)"
proof -
  have ok: "lf_ok t" "ents s = lfkv_map t" using assms by (simp_all add: srv_ok_def ents_def)
  note u = lf_okD(5) [OF ok(1)]
  have "(k \<in> set (map fst (List.map_filter (shown t n) [0..<nslots t]))) = (k \<in> dom (view n s))" for k
  proof
    assume "k \<in> set (map fst (List.map_filter (shown t n) [0..<nslots t]))"
    then obtain i a x where i: "i < nslots t" "shown t n i = Some (k, a, x)" by (auto simp: List.map_filter_def)
    then have e: "entry_at t i = Some (k, \<lparr>e_val = Some a, e_expiry = x\<rparr>)" "\<not> entry_expired \<lparr>e_val = Some a, e_expiry = x\<rparr> n"
      by (simp_all add: shown_iff)
    then have "lfkv_map t k = Some \<lparr>e_val = Some a, e_expiry = x\<rparr>"
      unfolding lfkv_map_def entries_map_iff [OF u] using i(1) by blast
    then show "k \<in> dom (view n s)" using e(2) ok by (auto simp: view_def deref_def purge_k)
  next
    assume "k \<in> dom (view n s)"
    then obtain en where en: "lfkv_map t k = Some en" "\<not> entry_expired en n"
      by (auto simp: view_def deref_def purge_k ok(2) split: option.splits if_splits)
    have "obj_ok s (e_val en)" using assms(1) en(1) ok(2) by (auto simp: srv_ok_def ran_def)
    then obtain a where a: "e_val en = Some a" by (auto simp: obj_ok_def)
    obtain i where i: "i < nslots t" "entry_at t i = Some (k, en)" using en(1) unfolding lfkv_map_def entries_map_iff [OF u] by blast
    then have "shown t n i = Some (k, a, e_expiry en)" using a en(2) by (simp add: shown_def)
    then show "k \<in> set (map fst (List.map_filter (shown t n) [0..<nslots t]))" using i(1) by (force simp: List.map_filter_def)
  qed
  then show ?thesis using shown_distinct [OF u order_refl, of n] by blast
qed

lemma evict_ok:
  assumes "srv_ok s" "s1 = resp_kv_evict_expired e s"
  shows "srv_ok s1 \<and> objs s1 = objs s \<and> shut_rd s1 = shut_rd s \<and> ents s1 = purge (now e) (ents s) \<and> (kv s1 = None) = (kv s = None)"
proof (cases "kv s")
  case None
  then have "ents s = Map.empty" by (simp add: ents_def)
  moreover have "s1 = s" using assms(2) None by (simp add: resp_kv_evict_expired_def on_kv_def)
  ultimately show ?thesis using assms(1) by (simp add: purge_def)
next
  case (Some t)
  then have ok: "lf_ok t" "ents s = lfkv_map t" using assms(1) by (simp_all add: srv_ok_def ents_def)
  obtain t' c where t': "retire_loop (\<lambda>en. entry_expired en (now e)) [0..<nslots t] t 0 = (t', c)" by (metis surj_pair)
  have "\<forall>i \<in> set [0..<nslots t]. i < nslots t" by simp
  note l = retire_loop_ok [OF ok(1) this t']
  have m: "lfkv_map t' = purge (now e) (lfkv_map t)" using l by (simp add: retire_all [OF ok(1)] purge_def)
  have s1: "s1 = s\<lparr>kv := Some t'\<rparr>" using assms(2) Some t' by (simp add: resp_kv_evict_expired_def on_kv_def lfkv_evict_expired_def)
  have "ran (purge (now e) (lfkv_map t)) \<subseteq> ran (lfkv_map t)" by (auto simp: ran_def purge_k split: option.splits if_splits)
  then have "\<forall>en \<in> ran (lfkv_map t'). obj_ok s1 (e_val en)"
    using assms(1) ok(2) s1 unfolding m by (auto simp: srv_ok_def obj_ok_def obj_def)
  then show ?thesis using l s1 Some ok(2) m by (simp add: srv_ok_def ents_def)
qed

lemma count_ok:
  assumes "srv_ok s"
  shows "resp_kv_count s = card (dom (ents s))"
proof (cases "kv s")
  case None
  then show ?thesis by (simp add: resp_kv_count_def ents_def)
next
  case (Some t)
  then have ok: "lf_ok t" "ents s = lfkv_map t" using assms by (simp_all add: srv_ok_def ents_def)
  note u = lf_okD(5) [OF ok(1)]
  let ?I = "{i. i < nslots t \<and> entry_at t i \<noteq> None}" and ?f = "\<lambda>i. fst (the (entry_at t i))"
  have inj: "inj_on ?f ?I"
  proof (rule inj_onI)
    fix i j assume i: "i \<in> ?I" "j \<in> ?I" "?f i = ?f j"
    then obtain k en en' where "entry_at t i = Some (k, en)" "entry_at t j = Some (k, en')" by auto
    then show "i = j" using u i(1,2) unfolding keys_unique_def by blast
  qed
  have img: "?f ` ?I = dom (lfkv_map t)"
  proof (rule set_eqI)
    fix k
    have "(k \<in> dom (lfkv_map t)) = (\<exists>en i. i < nslots t \<and> entry_at t i = Some (k, en))"
      unfolding lfkv_map_def dom_def mem_Collect_eq using entries_map_iff [OF u, of k] by auto
    then show "(k \<in> ?f ` ?I) = (k \<in> dom (lfkv_map t))" by force
  qed
  have c: "live_count (nslots t) (entry_at t) = card (dom (lfkv_map t))"
    unfolding live_count_def img [symmetric] by (rule card_image [OF inj, symmetric])
  obtain b where b: "b \<le> 62" "nslots t = 2 ^ b" using lf_okD(1) [OF ok(1)] by blast
  have "live_count (nslots t) (entry_at t) \<le> nslots t"
    unfolding live_count_def using card_mono [of "{..<nslots t}" ?I] by auto
  also have "\<dots> \<le> 2 ^ 62" unfolding b(2) using b(1) by (intro power_increasing) simp_all
  finally have "live_count (nslots t) (entry_at t) < 2 ^ 64" by simp
  then have "unat (kcount t) = live_count (nslots t) (entry_at t)"
    unfolding lf_okD(7) [OF ok(1)] by (simp add: unat_of_nat take_bit_eq_mod)
  then show ?thesis using Some ok(2) c by (simp add: resp_kv_count_def lfkv_count_def)
qed

lemma keys_star_ok:
  assumes "srv_ok s"
  shows "\<exists>s1 ks. cmd_keys_star e [name, bytes_of ''*''] s = Some (s1, Header (int (length ks)) # map Bulk ks)
    \<and> srv_ok s1 \<and> view (now e) s1 = view (now e) s \<and> distinct ks \<and> set ks = dom (view (now e) s)
    \<and> cmd_dbsize s1 = Some (s1, [Number (int (length ks))])"
proof -
  define s1 where "s1 = resp_kv_evict_expired e s"
  note o = evict_ok [OF assms s1_def]
  have v: "view (now e) s1 = view (now e) s" using o by (simp add: view_def purge_later)
  have "dom (ents s1) = dom (view (now e) s1)" using o by (auto simp: view_def deref_def purge_k split: option.splits if_splits)
  then have cnt: "resp_kv_count s1 = card (dom (view (now e) s))" using count_ok o v by simp
  show ?thesis
  proof (cases "kv s1")
    case None
    then have d: "dom (view (now e) s) = {}" using v by (simp add: view_def deref_def ents_def purge_def)
    have "cmd_keys_star e [name, bytes_of ''*''] s = Some (s1, Header (int (length [])) # map Bulk [])"
      using None by (simp add: cmd_keys_star_def s1_def [symmetric] Let_def)
    then show ?thesis using o v cnt d by (intro exI [of _ s1] exI [of _ "[]"]) (simp add: cmd_dbsize_def)
  next
    case (Some t)
    define ks where "ks = map fst (List.map_filter (shown t (now e)) [0..<nslots t])"
    have k: "distinct ks \<and> set ks = dom (view (now e) s)" using shown_keys [of s1 t "now e"] o Some v by (simp add: ks_def)
    then have "length ks = card (dom (view (now e) s))" using distinct_card [of ks] by simp
    moreover have "cmd_keys_star e [name, bytes_of ''*''] s = Some (s1, Header (int (length ks)) # map Bulk ks)"
      using Some by (simp add: cmd_keys_star_def s1_def [symmetric] Let_def lfkv_foreach_def foreach_keys ks_def)
    ultimately show ?thesis using o v cnt k by (intro exI [of _ s1] exI [of _ ks]) (simp add: cmd_dbsize_def)
  qed
qed

text \<open>What \<open>HKEYS\<close>, \<open>HVALS\<close> and \<open>HGETALL\<close> may answer for a key.\<close>

definition shows_fields :: "bool \<Rightarrow> bool \<Rightarrow> (rvalue \<times> int) option \<Rightarrow> reply list \<Rightarrow> bool" where
  "shows_fields keys vals entry r = (case entry of
     None \<Rightarrow> r = [Header 0]
   | Some (Hsh h, x) \<Rightarrow> (\<exists>xs. distinct (map fst xs) \<and> map_of xs = h
       \<and> r = Header (int (length xs) * (if keys \<and> vals then 2 else 1))
              # concat (map (\<lambda>(f, v). (if keys then [Bulk f] else []) @ (if vals then [Bulk v] else [])) xs))
   | _ \<Rightarrow> r = wrongtype)"

lemma emit_ok:
  assumes "srv_ok s" "key_legal k"
  shows "\<exists>s1 r. cmd_hkeys_hvals_hgetall e keys vals [name, k] s = Some (s1, r)
    \<and> srv_ok s1 \<and> view (now e) s1 = view (now e) s \<and> shows_fields keys vals (view (now e) s k) r"
proof -
  obtain s1 v where p: "resp_kv_lookup e k s = (s1, v)" by (metis surj_pair)
  show ?thesis
  proof (rule lookup_cases [OF assms p])
    assume "kept (now e) s s1" "v = None" "view (now e) s k = None"
    then show ?thesis using p keptD [of "now e" s s1] by (simp add: cmd_hkeys_hvals_hgetall_def read_cmd_def shows_fields_def)
  next
    fix a y
    assume a: "kept (now e) s s1" "v = Some a" "view (now e) s k = Some (abs_val (obj s1 a), y)" "val_ok (obj s1 a)"
    show ?thesis
    proof (cases "\<exists>h. abs_val (obj s1 a) = Hsh h")
      case False
      then have "cmd_hkeys_hvals_hgetall e keys vals [name, k] s = Some (s1, wrongtype)"
        using p a(2) by (simp add: cmd_hkeys_hvals_hgetall_def read_cmd_def abs_type)
      moreover have "shows_fields keys vals (view (now e) s k) wrongtype"
        using a(3) False by (cases "abs_val (obj s1 a)") (simp_all add: shows_fields_def)
      ultimately show ?thesis using keptD [OF a(1)] by simp
    next
      case True
      then obtain h where h: "abs_val (obj s1 a) = Hsh h" ..
      let ?xs = "hash_fields (dict_ptr (obj s1 a))"
      note d = abs_Hsh [OF h a(4)]
      note f = hash_fields_map [OF conjunct2 [OF d]]
      have "cmd_hkeys_hvals_hgetall e keys vals [name, k] s = Some (s1, hash_emit keys vals (dict_ptr (obj s1 a)))"
        using p a(2) h by (simp add: cmd_hkeys_hvals_hgetall_def read_cmd_def abs_type)
      moreover have "hash_emit keys vals (dict_ptr (obj s1 a)) = Header (int (length ?xs) * (if keys \<and> vals then 2 else 1))
          # concat (map (\<lambda>(f, v). (if keys then [Bulk f] else []) @ (if vals then [Bulk v] else [])) ?xs)"
        using f by (simp add: hash_emit_def hash_fields_def dict_entries_def comp_def)
      moreover have "distinct (map fst ?xs) \<and> map_of ?xs = h" using f d by simp
      ultimately have "shows_fields keys vals (view (now e) s k) (hash_emit keys vals (dict_ptr (obj s1 a)))"
        unfolding a(3) h by (auto simp: shows_fields_def intro!: exI [of _ ?xs])
      then show ?thesis using p a(2) h keptD [OF a(1)] by (simp add: cmd_hkeys_hvals_hgetall_def read_cmd_def abs_type)
    qed
  qed
qed

section \<open>A client's stream of requests\<close>

lemma dispatch_kind:
  assumes "resp_cmd_table_init = Some tbl" "argv \<noteq> []" "map_of resp_cmd_seed (map toupper (argv ! 0)) = Some h"
  shows "resp_dispatch tbl e argv s = run_kind h e argv s"
proof -
  obtain t where t: "resp_cmd_table_init = Some t" "\<forall>cmd. resp_cmd_lookup t cmd = map_of resp_cmd_seed (map toupper cmd)"
    using lookup_exact by blast
  have "Some t = Some tbl" by (rule trans [OF t(1) [symmetric] assms(1)])
  then have "resp_cmd_lookup tbl (argv ! 0) = Some h" using t(2) assms(3) by simp
  then show ?thesis using assms(2) by (cases argv) (simp_all add: resp_dispatch_def)
qed

text \<open>The requests, one after the other.\<close>

fun run_all :: "resp_cmd_table \<Rightarrow> (nat \<Rightarrow> resp_env) \<Rightarrow> nat \<Rightarrow> bytes list list \<Rightarrow> resp_srv \<Rightarrow> cmd_result" where
  "run_all tbl es i [] s = Some (s, [])"
| "run_all tbl es i (r # rs) s =
     (case resp_dispatch tbl (es i) r s of
        None \<Rightarrow> None
      | Some (s1, out) \<Rightarrow> map_option (\<lambda>(s2, out2). (s2, out @ out2)) (run_all tbl es (i + 1) rs s1))"

definition request_ok :: "bytes list \<Rightarrow> bool" where
  "request_ok r = (length r \<le> RESP_MAX_ARGS \<and> (\<forall>a \<in> set r. length a \<le> RESP_MAX_BULK))"

definition window_ok :: "resp_in \<Rightarrow> bool" where
  "window_ok c = (rhead c \<le> rlen c \<and> rlen c \<le> rcap c)"

lemma window_advance: "window (c\<lparr>pool := p, rhead := rhead c + n\<rparr>) = drop n (window c)"
  by (simp add: window_def drop_take add.commute)

lemma window_length: "window_ok c \<Longrightarrow> length (window c) = rlen c - rhead c"
  by (auto simp: window_def window_ok_def rcap_def min_def)

lemma input_loop_ok:
  assumes "window_ok c" "\<forall>r \<in> set reqs. request_ok r" "request_ok lst" "t < length (resp_request lst)"
    and "window c = concat (map resp_request reqs) @ take t (resp_request lst)"
  shows "case run_all tbl es i reqs s of
      None \<Rightarrow> input_loop (\<lambda>_. True) tbl es i c s = None
    | Some (s1, out) \<Rightarrow> (\<exists>c1. input_loop (\<lambda>_. True) tbl es i c s = Some (c1, s1, out, True)
        \<and> window_ok c1 \<and> window c1 = take t (resp_request lst))"
  using assms
proof (induction reqs arbitrary: c s i)
  case Nil
  have "fst (resp_parse_one (\<lambda>_. True) (window c) (pool c)) = Need_more"
    using parse_request_ok [of lst "[]" "pool c"] Nil(3-5) by (simp add: request_ok_def)
  then obtain cap where "resp_parse_one (\<lambda>_. True) (window c) (pool c) = (Need_more, cap)" by (metis surjective_pairing)
  then show ?case using Nil by (simp add: input_loop.simps window_ok_def rcap_def window_def)
next
  case (Cons r reqs)
  have w: "window c = resp_request r @ concat (map resp_request reqs) @ take t (resp_request lst)" using Cons.prems(5) by simp
  have ro: "length r \<le> RESP_MAX_ARGS" "\<forall>a \<in> set r. length a \<le> RESP_MAX_BULK" using Cons.prems(2) by (simp_all add: request_ok_def)
  obtain sl cap where p: "resp_parse_one (\<lambda>_. True) (window c) (pool c) = (Parsed (length (resp_request r)) sl, cap)"
    "slices (window c) sl = r"
    using parse_request_ok [OF ro, of "concat (map resp_request reqs) @ take t (resp_request lst)" "pool c"] w by auto
  define c' where "c' = c\<lparr>pool := cap, rhead := rhead c + length (resp_request r)\<rparr>"
  have w': "window c' = concat (map resp_request reqs) @ take t (resp_request lst)"
    unfolding c'_def window_advance w by simp
  have "length (resp_request r) \<le> rlen c - rhead c" using window_length [OF Cons.prems(1)] w by simp
  then have ok: "window_ok c'" using Cons.prems(1) by (auto simp: window_ok_def c'_def rcap_def)
  have l: "input_loop (\<lambda>_. True) tbl es i c s = (case resp_dispatch tbl (es i) r s of
             None \<Rightarrow> None
           | Some (s1, o1) \<Rightarrow>
               (case input_loop (\<lambda>_. True) tbl es (i + 1) c' s1 of
                  None \<Rightarrow> None
                | Some (c2, s2, rs, fine) \<Rightarrow> Some (c2, s2, o1 @ rs, fine)))"
    unfolding c'_def by (subst input_loop.simps) (simp add: p)
  show ?case
  proof (cases "resp_dispatch tbl (es i) r s")
    case None
    then show ?thesis by (simp add: l)
  next
    case (Some x)
    obtain s1 o1 where x: "x = (s1, o1)" by (metis surj_pair)
    have ih: "case run_all tbl es (i + 1) reqs s1 of
        None \<Rightarrow> input_loop (\<lambda>_. True) tbl es (i + 1) c' s1 = None
      | Some (s2, out) \<Rightarrow> (\<exists>c1. input_loop (\<lambda>_. True) tbl es (i + 1) c' s1 = Some (c1, s2, out, True)
          \<and> window_ok c1 \<and> window c1 = take t (resp_request lst))"
      by (rule Cons.IH [OF ok _ Cons.prems(3,4) w']) (use Cons.prems(2) in simp)
    show ?thesis using Some x ih by (cases "run_all tbl es (i + 1) reqs s1") (auto simp: l)
  qed
qed

lemma process_ok:
  assumes "window_ok c" "\<forall>r \<in> set reqs. request_ok r" "request_ok lst" "t < length (resp_request lst)"
    and "window c = concat (map resp_request reqs) @ take t (resp_request lst)"
  shows "case run_all tbl es 0 reqs s of
      None \<Rightarrow> resp_process_input (\<lambda>_. True) tbl es c s = None
    | Some (s1, out) \<Rightarrow> (\<exists>c1. resp_process_input (\<lambda>_. True) tbl es c s = Some (c1, s1, out)
        \<and> window_ok c1 \<and> window c1 = take t (resp_request lst))"
proof (cases "run_all tbl es 0 reqs s")
  case None
  then show ?thesis using input_loop_ok [OF assms, of tbl es 0 s] by (simp add: resp_process_input_def)
next
  case (Some x)
  obtain s1 out where x: "x = (s1, out)" by (metis surj_pair)
  obtain c1 where c1: "input_loop (\<lambda>_. True) tbl es 0 c s = Some (c1, s1, out, True)" "window_ok c1" "window c1 = take t (resp_request lst)"
    using input_loop_ok [OF assms, of tbl es 0 s] Some x by auto
  show ?thesis
  proof (cases "rhead c1 = rlen c1")
    case True
    then have "window c1 = []" by (simp add: window_def)
    then show ?thesis using c1 Some x True by (simp add: resp_process_input_def window_ok_def window_def)
  next
    case False
    then show ?thesis using c1 Some x by (simp add: resp_process_input_def)
  qed
qed

text \<open>The buffer before a read: its capacity is a power of two times its first one.\<close>

definition in_ok :: "resp_in \<Rightarrow> bool" where
  "in_ok c = (window_ok c \<and> (\<exists>k \<le> 12. rcap c = RESP_RBUF_INIT * 2 ^ k))"

lemma slide_window:
  assumes "window_ok c"
  shows "window_ok (read_slide c) \<and> window (read_slide c) = window c \<and> rcap (read_slide c) = rcap c
    \<and> (rlen (read_slide c) + 4096 > rcap c \<longrightarrow> rlen (read_slide c) = length (window c))"
proof (cases "rlen c + 4096 > rcap c \<and> rhead c > 0")
  case True
  define n where "n = rlen c - rhead c"
  have n: "rhead c + n = rlen c" "rlen c \<le> length (rbuf c)" using assms by (simp_all add: n_def window_ok_def rcap_def)
  have s: "read_slide c = c\<lparr>rbuf := take n (drop (rhead c) (rbuf c)) @ drop n (rbuf c), rlen := n, rhead := 0\<rparr>"
    using True by (simp add: read_slide_def n_def Let_def)
  show ?thesis using n unfolding s by (auto simp: window_ok_def window_def rcap_def n_def [symmetric])
next
  case False
  then have "read_slide c = c" by (auto simp: read_slide_def)
  moreover have "rlen c + 4096 > rcap c \<longrightarrow> rlen c = length (window c)" using False window_length [OF assms] by auto
  ultimately show ?thesis using assms by simp
qed

lemma room_ok:
  assumes "in_ok c" "read_room al c = r"
  shows "case r of None \<Rightarrow> length (window c) + 4096 > RESP_RBUF_MAX \<or> \<not> al (2 * rcap c)
    | Some c1 \<Rightarrow> in_ok c1 \<and> window c1 = window c \<and> rlen c1 + 4096 \<le> rcap c1"
proof -
  define d where "d = read_slide c"
  have c: "window_ok c" using assms(1) by (simp add: in_ok_def)
  note s = slide_window [OF c, folded d_def]
  obtain k where k: "k \<le> 12" "rcap c = 4096 * 2 ^ k" using assms(1) by (auto simp: in_ok_def RESP_RBUF_INIT_def)
  have m: "RESP_RBUF_MAX = 4096 * 2 ^ 12" by (simp add: RESP_RBUF_MAX_def)
  have dok: "in_ok d" using s assms(1) by (auto simp: in_ok_def)
  show ?thesis
  proof (cases "rlen d + 4096 > rcap d")
    case False
    then have "r = Some d" using assms(2) by (simp add: read_room_def d_def [symmetric] Let_def)
    then show ?thesis using False s dok by simp
  next
    case True
    then have len: "rlen d = length (window c)" using s by simp
    show ?thesis
    proof (cases "k = 12")
      case True
      then have rc: "rcap d = RESP_RBUF_MAX" using s k(2) unfolding m by simp
      have "r = (if rlen d + 4096 > rcap d then
          (if rcap d \<ge> RESP_RBUF_MAX then None
           else (let cap = min (rcap d * 2) RESP_RBUF_MAX in if \<not> al cap then None else Some (d\<lparr>rbuf := rbuf d @ replicate (cap - rcap d) 0\<rparr>)))
         else Some d)"
        using assms(2) unfolding read_room_def d_def [symmetric] Let_def [of d] by (rule sym)
      then have "r = None" using \<open>rlen d + 4096 > rcap d\<close> unfolding rc by (simp only: if_True order_refl)
      moreover have "length (window c) + 4096 > RESP_RBUF_MAX" using \<open>rlen d + 4096 > rcap d\<close> unfolding rc len .
      ultimately show ?thesis by simp
    next
      case False
      then have k1: "Suc k \<le> 12" using k(1) by simp
      then have "(2 :: nat) ^ Suc k \<le> 2 ^ 12" by (intro power_increasing) simp_all
      then have le: "2 * rcap d \<le> RESP_RBUF_MAX" using s k(2) m by simp
      have pos: "0 < rcap d" "4096 \<le> rcap d" using s k(2) by simp_all
      have dd: "rcap d * 2 - rcap d = rcap d" by simp
      have r: "r = (if \<not> al (2 * rcap d) then None else Some (d\<lparr>rbuf := rbuf d @ replicate (rcap d) 0\<rparr>))"
        using assms(2) [symmetric] \<open>rlen d + 4096 > rcap d\<close> le pos
        by (simp add: read_room_def d_def [symmetric] Let_def min_def mult.commute [of 2] dd)
      let ?c1 = "d\<lparr>rbuf := rbuf d @ replicate (rcap d) 0\<rparr>"
      have dw: "rhead d \<le> rlen d" "rlen d \<le> length (rbuf d)" using s by (simp_all add: window_ok_def rcap_def)
      have rc: "rcap ?c1 = RESP_RBUF_INIT * 2 ^ Suc k" using s k(2) by (simp add: rcap_def RESP_RBUF_INIT_def)
      have "window ?c1 = window d" using dw by (simp add: window_def)
      moreover have "in_ok ?c1" unfolding in_ok_def
      proof (intro conjI exI)
        show "window_ok ?c1" using dw by (simp add: window_ok_def rcap_def)
      qed (rule k1, rule rc)
      moreover have "rlen ?c1 + 4096 \<le> rcap ?c1" using pos dw by (simp add: rcap_def)
      ultimately show ?thesis using r s by simp
    qed
  qed
qed

lemma read_window:
  assumes "window_ok c" "rlen c + length p \<le> rcap c"
  shows "window_ok (read_bytes p c) \<and> window (read_bytes p c) = window c @ p \<and> rcap (read_bytes p c) = rcap c"
proof -
  let ?b = "rbuf c" and ?h = "rhead c" and ?n = "rlen c"
  have c: "?h \<le> ?n" "?n + length p \<le> length ?b" using assms by (simp_all add: window_ok_def rcap_def)
  have w: "window c = drop ?h (take ?n ?b)" by (simp add: window_def drop_take)
  have "drop ?h (put_at ?n p ?b) = window c @ p @ drop (?n + length p) ?b"
    using c by (simp add: put_at_def w)
  moreover have "?n + length p - ?h = length (window c @ p)" using c window_length [OF assms(1)] by simp
  ultimately have "window (read_bytes p c) = window c @ p"
    unfolding window_def [of "read_bytes p c"] by (simp add: read_bytes_def)
  moreover have "length (put_at ?n p ?b) = length ?b" using c by (simp add: put_at_def)
  ultimately show ?thesis using c by (simp add: window_ok_def rcap_def read_bytes_def)
qed

section \<open>Properties\<close>

definition sample_env :: resp_env where
  "sample_env = \<lparr>now = 1000, kv_mem = (True, True), fresh_kv = lfkv_new True False 2, save_cmd = (\<lambda>_. []), user_cmd = (\<lambda>_ _. None)\<rparr>"

definition sample_srv :: resp_srv where
  "sample_srv = \<lparr>kv = None, objs = [], shut_rd = False\<rparr>"

lemma sample_can_run: "list_all key_legal argv \<Longrightarrow> can_run sample_env sample_srv argv"
  using two_slots by (auto simp: can_run_def can_serve_def srv_ok_def sample_srv_def ents_def mem_ok_def sample_env_def INT64_MAX_def has_room_def)

lemma sample_view: "view n sample_srv = Map.empty"
  by (simp add: view_def deref_def ents_def sample_srv_def purge_def)

lemma bytes_legal: "length s < 2 ^ 32 \<Longrightarrow> key_legal (bytes_of s)"
  by (simp add: key_legal_def bytes_of_def)

text \<open>
  C1. Every string command (\<open>GET SET STRLEN INCR DECR INCRBY DECRBY APPEND\<close>, under any spelling of
  its name), dispatched through the table of commands, returns, answers what the abstract database answers
  and leaves the abstract database it should: \<open>SET\<close> with all its options, whose words, units and errors
  are specified on their own (\<open>set_words\<close>, \<open>word_fault\<close>, \<open>set_ttl\<close>), the arithmetic commands exactly on
  the 64-bit range and an error outside it, numbers in arguments and values read as \<open>arg_int\<close> says, the
  expiry kept by \<open>APPEND\<close> and the arithmetic and cleared by \<open>SET\<close>, the type and arity errors included.
  The table has room for the key or holds it, the clock is at least 0 and not at its maximum, arguments are
  shorter than \<open>2^32\<close> bytes and allocations succeed.
\<close>

theorem resp_string_commands:
  assumes "resp_cmd_table_init = Some tbl" "argv \<noteq> []" "map_of resp_cmd_seed (map toupper (argv ! 0)) = Some h"
    and "can_run e s argv" "h \<in> string_kinds"
  shows "implements e s (resp_dispatch tbl e argv s) (resp_spec h (now e) argv (view (now e) s))"
  unfolding dispatch_kind [OF assms(1-3)] by (rule string_kinds_ok [OF assms(4,5)])

theorem resp_string_commands_witness:
  "\<exists>tbl s1. resp_cmd_table_init = Some tbl
     \<and> resp_dispatch tbl sample_env [bytes_of ''incrby'', bytes_of ''k'', bytes_of ''-7''] sample_srv = Some (s1, [Number (-7)])
     \<and> view 1000 s1 = [bytes_of ''k'' \<mapsto> (Str (bytes_of ''-7''), 0)]"
proof -
  let ?a = "[bytes_of ''incrby'', bytes_of ''k'', bytes_of ''-7'']"
  obtain tbl where t: "resp_cmd_table_init = Some tbl" using lookup_exact by blast
  have m: "map_of resp_cmd_seed (map toupper (?a ! 0)) = Some HK_INCRBY" by code_simp
  have arg: "resp_arg_to_ll (bytes_of ''-7'') = Some (-7)" by code_simp
  have f: "fmt_int (-7) = bytes_of ''-7''" by code_simp
  have r: "resp_spec HK_INCRBY 1000 ?a Map.empty = ([bytes_of ''k'' \<mapsto> (Str (bytes_of ''-7''), 0)], [Number (-7)])"
    using arg f by (simp add: resp_spec_def arity_def incr_by_def arg_int_eq spec_incr_def put_val_def int64_def INT64_MIN_def INT64_MAX_def Let_def del: bytes_of_Cons)
  have "implements sample_env sample_srv (resp_dispatch tbl sample_env ?a sample_srv)
      (resp_spec HK_INCRBY (now sample_env) ?a (view (now sample_env) sample_srv))"
    by (rule resp_string_commands [OF t _ m sample_can_run]) (simp_all add: bytes_legal string_kinds_def del: bytes_of_Cons)
  then show ?thesis using t r by (auto simp: implements_def sample_view sample_env_def)
qed

text \<open>
  C23. Every command on keys (\<open>TYPE DEL UNLINK EXISTS EXPIRE PEXPIRE TTL PTTL PERSIST FLUSHDB FLUSHALL\<close>),
  dispatched through the table of commands, returns and does what the abstract database does: a key is
  counted once however often \<open>DEL\<close> names it and as often as \<open>EXISTS\<close> names it, an expiry that does not
  fit the clock is refused, one that is not in the future deletes, and a key whose time has come is absent.
  No room in the table is needed, whatever the keys named: the database is well formed, the clock is at
  least 0 and not at its maximum, arguments are shorter than \<open>2^32\<close> bytes and allocations succeed.
\<close>

theorem resp_key_commands:
  assumes "resp_cmd_table_init = Some tbl" "argv \<noteq> []" "map_of resp_cmd_seed (map toupper (argv ! 0)) = Some h"
    and "can_serve e s argv" "h \<in> key_kinds"
  shows "implements e s (resp_dispatch tbl e argv s) (resp_spec h (now e) argv (view (now e) s))"
  unfolding dispatch_kind [OF assms(1-3)] by (rule key_kinds_ok [OF assms(4,5)])

theorem resp_key_commands_witness:
  "\<exists>tbl s1. resp_cmd_table_init = Some tbl
     \<and> resp_dispatch tbl sample_env [bytes_of ''Unlink'', bytes_of ''k''] sample_srv = Some (s1, [Number 0])"
proof -
  let ?a = "[bytes_of ''Unlink'', bytes_of ''k'']"
  obtain tbl where t: "resp_cmd_table_init = Some tbl" using lookup_exact by blast
  have m: "map_of resp_cmd_seed (map toupper (?a ! 0)) = Some HK_DEL" by code_simp
  have "implements sample_env sample_srv (resp_dispatch tbl sample_env ?a sample_srv)
      (resp_spec HK_DEL (now sample_env) ?a (view (now sample_env) sample_srv))"
    by (rule resp_key_commands [OF t _ m can_run_serve [OF sample_can_run]]) (simp_all add: bytes_legal key_kinds_def del: bytes_of_Cons)
  then show ?thesis using t by (auto simp: implements_def sample_view resp_spec_def arity_def spec_del_def Let_def simp del: bytes_of_Cons)
qed

text \<open>
  C4. Every list command (\<open>LPUSH RPUSH LPOP RPOP LLEN LINDEX LRANGE\<close>), dispatched through the table of
  commands on a keyspace with room, returns and does what it does on a sequence: pushes on either end, pops
  that remove the key with its last element, and indices from either end with the bounds of \<open>LRANGE\<close> clipped.
\<close>

theorem resp_list_commands:
  assumes "resp_cmd_table_init = Some tbl" "argv \<noteq> []" "map_of resp_cmd_seed (map toupper (argv ! 0)) = Some h"
    and "can_run e s argv" "h \<in> list_kinds"
  shows "implements e s (resp_dispatch tbl e argv s) (resp_spec h (now e) argv (view (now e) s))"
  unfolding dispatch_kind [OF assms(1-3)] by (rule list_kinds_ok [OF assms(4,5)])

theorem resp_list_commands_witness:
  "\<exists>tbl s1. resp_cmd_table_init = Some tbl
     \<and> resp_dispatch tbl sample_env [bytes_of ''LPUSH'', bytes_of ''k'', bytes_of ''a'', bytes_of ''b''] sample_srv = Some (s1, [Number 2])
     \<and> view 1000 s1 = [bytes_of ''k'' \<mapsto> (Lst [bytes_of ''b'', bytes_of ''a''], 0)]"
proof -
  let ?a = "[bytes_of ''LPUSH'', bytes_of ''k'', bytes_of ''a'', bytes_of ''b'']"
  obtain tbl where t: "resp_cmd_table_init = Some tbl" using lookup_exact by blast
  have m: "map_of resp_cmd_seed (map toupper (?a ! 0)) = Some HK_LPUSH" by code_simp
  have r: "resp_spec HK_LPUSH 1000 ?a Map.empty = ([bytes_of ''k'' \<mapsto> (Lst [bytes_of ''b'', bytes_of ''a''], 0)], [Number 2])"
    by (simp add: resp_spec_def arity_def spec_push_def put_val_def Let_def del: bytes_of_Cons)
  have "implements sample_env sample_srv (resp_dispatch tbl sample_env ?a sample_srv)
      (resp_spec HK_LPUSH (now sample_env) ?a (view (now sample_env) sample_srv))"
    by (rule resp_list_commands [OF t _ m sample_can_run]) (simp_all add: bytes_legal list_kinds_def del: bytes_of_Cons)
  then show ?thesis using t r by (auto simp: implements_def sample_view sample_env_def simp del: bytes_of_Cons)
qed

text \<open>
  C22. Every command on the fields of a hash (\<open>HSET HGET HDEL HEXISTS HLEN\<close>), dispatched through the table of
  commands on a keyspace with room, returns and does what it does on a finite map: \<open>HSET\<close> lets the last value
  of a field win and counts the new fields, \<open>HDEL\<close> counts the fields that were there and removes the key with
  the last one, and a field with an embedded NUL is never stored and never found.
\<close>

theorem resp_hash_commands:
  assumes "resp_cmd_table_init = Some tbl" "argv \<noteq> []" "map_of resp_cmd_seed (map toupper (argv ! 0)) = Some h"
    and "can_run e s argv" "h \<in> hash_kinds"
  shows "implements e s (resp_dispatch tbl e argv s) (resp_spec h (now e) argv (view (now e) s))"
  unfolding dispatch_kind [OF assms(1-3)] by (rule hash_kinds_ok [OF assms(4,5)])

theorem resp_hash_commands_witness:
  "\<exists>tbl s1. resp_cmd_table_init = Some tbl
     \<and> resp_dispatch tbl sample_env [bytes_of ''hset'', bytes_of ''k'', [0], bytes_of ''v''] sample_srv = Some (s1, [Number 0])
     \<and> view 1000 s1 = [bytes_of ''k'' \<mapsto> (Hsh Map.empty, 0)]"
proof -
  let ?a = "[bytes_of ''hset'', bytes_of ''k'', [0], bytes_of ''v'']"
  obtain tbl where t: "resp_cmd_table_init = Some tbl" using lookup_exact by blast
  have m: "map_of resp_cmd_seed (map toupper (?a ! 0)) = Some HK_HSET" by code_simp
  have r: "resp_spec HK_HSET 1000 ?a Map.empty = ([bytes_of ''k'' \<mapsto> (Hsh Map.empty, 0)], [Number 0])"
    by (simp add: resp_spec_def arity_def spec_hset_cmd_def spec_hset_def put_val_def Let_def del: bytes_of_Cons)
  have "implements sample_env sample_srv (resp_dispatch tbl sample_env ?a sample_srv)
      (resp_spec HK_HSET (now sample_env) ?a (view (now sample_env) sample_srv))"
    by (rule resp_hash_commands [OF t _ m sample_can_run]) (simp_all add: bytes_legal hash_kinds_def key_legal_def del: bytes_of_Cons)
  then show ?thesis using t r by (auto simp: implements_def sample_view sample_env_def simp del: bytes_of_Cons)
qed

text \<open>
  C24. The commands that enumerate, on any well-formed database: \<open>KEYS *\<close> names every key whose time has
  not come exactly once, under a header with their number, and leaves the database as it is, so that
  \<open>DBSIZE\<close> then answers that number, also when there is no keyspace yet and the number is 0.
  \<open>HKEYS\<close>, \<open>HVALS\<close> and \<open>HGETALL\<close> leave it as it is too and, for any key, show every field of its hash
  exactly once, with its value, under a header with the number of the replies that follow, nothing under
  a header 0 when the key is absent, and the type error when it holds anything else.
\<close>

theorem resp_enumerations_exact:
  assumes "srv_ok s"
  shows "(\<exists>s1 ks. cmd_keys_star e [name, bytes_of ''*''] s = Some (s1, Header (int (length ks)) # map Bulk ks)
      \<and> srv_ok s1 \<and> view (now e) s1 = view (now e) s \<and> distinct ks \<and> set ks = dom (view (now e) s)
      \<and> cmd_dbsize s1 = Some (s1, [Number (int (length ks))]))
    \<and> (key_legal k \<longrightarrow> (\<exists>s1 r. cmd_hkeys_hvals_hgetall e keys vals [name, k] s = Some (s1, r)
      \<and> srv_ok s1 \<and> view (now e) s1 = view (now e) s \<and> shows_fields keys vals (view (now e) s k) r))"
  by (intro conjI impI keys_star_ok [OF assms] emit_ok [OF assms])

theorem resp_enumerations_exact_witness:
  "\<exists>s s1. cmd_hset sample_env [[], bytes_of ''k'', bytes_of ''f'', bytes_of ''v''] sample_srv = Some (s, [Number 1])
     \<and> cmd_keys_star sample_env [[], bytes_of ''*''] s = Some (s1, [Header 1, Bulk (bytes_of ''k'')])"
proof -
  let ?a = "[[], bytes_of ''k'', bytes_of ''f'', bytes_of ''v'']" and ?k = "bytes_of ''k''"
  have "can_run sample_env sample_srv ?a" by (rule sample_can_run) (simp add: bytes_legal key_legal_def del: bytes_of_Cons)
  note c = can_runD [OF this]
  have n: "(0 :: byte) \<notin> set (bytes_of ''f'')" by code_simp
  have sp: "arity (4 \<le> length ?a) Map.empty (spec_hset_cmd ?a Map.empty) = ([?k \<mapsto> (Hsh [bytes_of ''f'' \<mapsto> bytes_of ''v''], 0)], [Number 1])"
    using n by (simp add: arity_def spec_hset_cmd_def spec_hset_def put_val_def Let_def del: bytes_of_Cons)
  obtain s where s: "cmd_hset sample_env ?a sample_srv = Some (s, [Number 1])" "srv_ok s"
    "view (now sample_env) s = [?k \<mapsto> (Hsh [bytes_of ''f'' \<mapsto> bytes_of ''v''], 0)]"
    using hset_ok [of sample_srv ?a sample_env] c sp by (auto simp: implements_def sample_view simp del: bytes_of_Cons)
  from resp_enumerations_exact [OF s(2), of sample_env "[]" ?k True True]
  obtain s1 ks where k: "cmd_keys_star sample_env [[], bytes_of ''*''] s = Some (s1, Header (int (length ks)) # map Bulk ks)"
    "distinct ks" "set ks = {?k}"
    by (auto simp: bytes_legal s(3) simp del: bytes_of_Cons)
  have "length ks = 1" using distinct_card [OF k(2)] k(3) by simp
  then have "ks = [?k]" using k(3) by (cases ks) auto
  then show ?thesis using s(1) k(1) by (auto simp del: bytes_of_Cons)
qed

text \<open>
  C3. A window that holds any number of requests and a part of the next is processed as the requests
  one after the other, each under its own circumstances: the replies are theirs, in order, the part is
  left in the window for the next read, and the loop returns whenever every command does.
\<close>

theorem resp_pipeline:
  assumes "window_ok c" "\<forall>r \<in> set reqs. request_ok r" "request_ok lst" "t < length (resp_request lst)"
    and "window c = concat (map resp_request reqs) @ take t (resp_request lst)"
  shows "case run_all tbl es 0 reqs s of
      None \<Rightarrow> resp_process_input (\<lambda>_. True) tbl es c s = None
    | Some (s1, out) \<Rightarrow> (\<exists>c1. resp_process_input (\<lambda>_. True) tbl es c s = Some (c1, s1, out)
        \<and> window_ok c1 \<and> window c1 = take t (resp_request lst))"
  by (rule process_ok [OF assms])

theorem resp_pipeline_witness:
  "\<exists>tbl c1. resp_cmd_table_init = Some tbl
     \<and> resp_process_input (\<lambda>_. True) tbl (\<lambda>_. sample_env)
         (read_bytes (resp_request [bytes_of ''ping''] @ resp_request [bytes_of ''Quit''] @ bytes_of ''*1'') resp_client_new) sample_srv
       = Some (c1, sample_srv\<lparr>shut_rd := True\<rparr>, [Status (bytes_of ''PONG''), Status (bytes_of ''OK'')])
     \<and> window c1 = bytes_of ''*1''"
proof -
  let ?rs = "[[bytes_of ''ping''], [bytes_of ''Quit'']]" and ?l = "[bytes_of ''ping'']"
  obtain tbl where t: "resp_cmd_table_init = Some tbl" using lookup_exact by blast
  define p where "p = resp_request [bytes_of ''ping''] @ resp_request [bytes_of ''Quit''] @ bytes_of ''*1''"
  have len: "length p = 30" unfolding p_def by code_simp
  have part: "take 2 (resp_request ?l) = bytes_of ''*1''" by code_simp
  have w0: "window_ok resp_client_new" "window resp_client_new = []" "rlen resp_client_new = 0" "rcap resp_client_new = 4096"
    by (simp_all add: window_ok_def window_def resp_client_new_def rcap_def RESP_RBUF_INIT_def)
  have "rlen resp_client_new + length p \<le> rcap resp_client_new" unfolding len w0(3,4) by simp
  note w = read_window [OF w0(1) this, unfolded w0(2)]
  have win: "window (read_bytes p resp_client_new) = concat (map resp_request ?rs) @ take 2 (resp_request ?l)"
    using w unfolding part by (simp add: p_def del: bytes_of_Cons)
  have m: "map_of resp_cmd_seed (map toupper ([bytes_of ''ping''] ! 0)) = Some HK_PING"
    "map_of resp_cmd_seed (map toupper ([bytes_of ''Quit''] ! 0)) = Some HK_QUIT" by code_simp+
  have ra: "run_all tbl (\<lambda>_. sample_env) 0 ?rs sample_srv
      = Some (sample_srv\<lparr>shut_rd := True\<rparr>, [Status (bytes_of ''PONG''), Status (bytes_of ''OK'')])"
    using dispatch_kind [OF t _ m(1)] dispatch_kind [OF t _ m(2)]
    by (simp add: run_kind_def cmd_ping_def cmd_quit_def ok_reply_def del: bytes_of_Cons)
  have two: "2 < length (resp_request ?l)" by code_simp
  have rok: "request_ok ?l" "\<forall>r \<in> set ?rs. request_ok r"
    by (simp_all add: request_ok_def RESP_MAX_ARGS_def RESP_MAX_BULK_def bytes_of_def)
  show ?thesis
    using resp_pipeline [OF conjunct1 [OF w] rok(2,1) two win, of tbl "\<lambda>_. sample_env" sample_srv] ra t part
    by (auto simp: p_def simp del: bytes_of_Cons)
qed

text \<open>
  C29. Making room for a read keeps the window of unread bytes, whatever it has to move, keeps the
  capacity a power-of-two multiple of the first one within the bound, and leaves room for 4096 bytes; the client is dropped only
  when its unread bytes come within 4096 of the bound, or memory runs out.  Reading then appends exactly the bytes read.
\<close>

theorem resp_read_room:
  assumes "in_ok c"
  shows "case read_room al c of
      None \<Rightarrow> length (window c) + 4096 > RESP_RBUF_MAX \<or> \<not> al (2 * rcap c)
    | Some c1 \<Rightarrow> in_ok c1 \<and> rcap c1 \<le> RESP_RBUF_MAX \<and> window c1 = window c
        \<and> window (read_bytes (take (rcap c1 - rlen c1) p) c1) = window c @ take (rcap c1 - rlen c1) p \<and> 4096 \<le> rcap c1 - rlen c1"
proof (cases "read_room al c")
  case None
  then show ?thesis using room_ok [OF assms None] by simp
next
  case (Some c1)
  have r: "in_ok c1" "window c1 = window c" "rlen c1 + 4096 \<le> rcap c1" using room_ok [OF assms Some] by simp_all
  obtain k where k: "k \<le> 12" "rcap c1 = 4096 * 2 ^ k" using r(1) by (auto simp: in_ok_def RESP_RBUF_INIT_def)
  have "(2 :: nat) ^ k \<le> 2 ^ 12" using k(1) by (intro power_increasing) simp_all
  then have "rcap c1 \<le> RESP_RBUF_MAX" using k(2) by (simp add: RESP_RBUF_MAX_def)
  moreover have "rlen c1 + length (take (rcap c1 - rlen c1) p) \<le> rcap c1" using r(3) by simp
  ultimately show ?thesis using Some r read_window [of c1 "take (rcap c1 - rlen c1) p"] by (simp add: in_ok_def)
qed

theorem resp_read_room_witness:
  "case read_room (\<lambda>_. True) resp_client_new of
      None \<Rightarrow> length (window resp_client_new) + 4096 > RESP_RBUF_MAX
    | Some c1 \<Rightarrow> window (read_bytes (take (rcap c1 - rlen c1) (bytes_of ''PING'')) c1) = take (rcap c1 - rlen c1) (bytes_of ''PING'')"
proof -
  have "in_ok resp_client_new" "window resp_client_new = []"
    by (auto simp: in_ok_def window_ok_def window_def resp_client_new_def rcap_def RESP_RBUF_INIT_def intro: exI [of _ 0])
  then show ?thesis using resp_read_room [of resp_client_new "\<lambda>_. True" "bytes_of ''PING''"] by (auto simp del: bytes_of_Cons split: option.splits)
qed

text \<open>A command name with a line end in it is put into the error line as it is, so that one reply reads as two.\<close>

lemma unknown_command_splits:
  "concat (map wire (unknown_command (bytes_of ''x'' @ [CR, LF] @ bytes_of ''+OK'' @ [CR, LF])))
     = bytes_of ''-ERR unknown command '' @ [0x27] @ bytes_of ''x'' @ [CR, LF] @ bytes_of ''+OK'' @ [CR, LF] @ [0x27] @ [CR, LF]"
  by code_simp

end
