(* ===== verification/Spec2Isabelle.thy ===== *)
theory Spec2Isabelle
  imports Utf8 Dict Numeric Hamt Codec SetOps Deque DictCmds Msgpack Json Watch Mpsc Epoch Lfkv Refcount Cycles RespRefine
begin

text \<open>
  A verification development for alcove, a Lisp interpreter in C with a Redis-compatible
  key-value server (sources under \<open>src/\<close>).

  \<^bold>\<open>The program.\<close>  One translation unit, \<open>alcove.c\<close>, includes the evaluator, the data types and
  the builtins as fragments.  Values are cells (\<open>exp_t\<close>) with a reference count, or tagged
  immediates; frames are environments (\<open>env_t\<close>) with a count of their own.  Dropping the last
  reference frees a cell and what it owns; cycles are left to \<open>(gc-cycles)\<close>.  Containers are built
  on the chained dictionary (\<open>dict.h\<close>: hash maps, sets, environments), the trie (\<open>hamt.h\<close>) and the
  doubly linked list (\<open>deque.h\<close>); a container can carry watchers and a validator (\<open>watch.h\<close>) which
  its mutators call.  Blobs travel through the codecs (\<open>blob.h\<close>, \<open>msgpack.h\<close>, \<open>json.h\<close>).  The server
  (\<open>resp.c\<close>) reads requests into a client's window, dispatches each through a table of commands, keeps its
  data in the lock-free table of \<open>lfkv.c\<close>, which retires replaced entries through \<open>epoch.c\<close>, and writes the
  replies into a second window; its changes reach the language through the queue of \<open>mpsc.h\<close>.

  \<^bold>\<open>Theories and sources.\<close>  Definitions have the name of the function they translate; a loop or an
  early-return block that needs a definition of its own is named after its function.
  \<^item> \<open>Prelude\<close>: machine types, lists cut and read by offset, shared facts.  \<open>Interfaces\<close>: the contracts as
    locales, \<open>kv_store\<close> (a map by lookup after update, removal, empty; sessions of operations refine
    a finite map), \<open>byte_codec\<close> (a decoder that gives back the value and the rest of the input) and
    \<open>deque_adt\<close>.  \<open>Dict\<close> and \<open>Hamt\<close> interpret the first, \<open>Msgpack\<close> the second, \<open>Deque\<close> the third.
  \<^item> \<open>Value\<close>: \<open>exp_t\<close> as a datatype of values for the components where only the value matters, the fixnum
    range, truth, \<open>isequal\<close>, key texts.
  \<^item> \<open>Utf8\<close>: \<open>utf8.h\<close>.  \<open>Numeric\<close>: the rationals and decimals of \<open>numeric.h\<close>, with int64 and int128
    wrap-around and overflow tests where the code has them.
  \<^item> \<open>Dict\<close>: \<open>dict.h\<close>, tables of chains as lists of pairs.  \<open>DictCmds\<close>: \<open>builtins_dict.h\<close>.  \<open>SetOps\<close>: \<open>set.h\<close>.
    \<open>Deque\<close>: \<open>deque.h\<close> on an explicit heap of nodes, with the allocator as a parameter.
  \<^item> \<open>Hamt\<close>: \<open>hamt.h\<close>, nodes with a bitmap and a slot list, collision buckets, the commands.
  \<^item> \<open>Codec\<close>: \<open>blob.h\<close>, base64 and hex.  \<open>FloatText\<close>: what \<open>%.17g\<close> and \<open>strtod\<close> do to a double, as exact integer
    arithmetic.  \<open>Msgpack\<close>: \<open>msgpack.h\<close>.  \<open>Json\<close>: \<open>json.h\<close>.
  \<^item> \<open>Probe\<close>: the pointer tables shared by \<open>watch.h\<close> and \<open>weak.h\<close>.  \<open>Watch\<close>: \<open>watch.h\<close>, the evaluation of a
    hook being a parameter that may change the registry; the reachable registries include those in the middle
    of dispatches, with the stack of the objects whose hooks run.
  \<^item> \<open>Mpsc\<close>: \<open>mpsc.h\<close>, one inductive step relation over the memory accesses of all threads.  \<open>Epoch\<close>:
    \<open>epoch.c\<close>, the operations of one thread and an interleaving of atomic steps of readers, writers
    and collections.  \<open>Lfkv\<close>: \<open>lfkv.c\<close>, slots in a heap of records, a result that tells a return from a
    loop that does not end.
  \<^item> \<open>Refcount\<close>: \<open>unrefexp\<close>, \<open>unrefexp_free\<close>, \<open>bytecode_free\<close> and \<open>env.h\<close> on a graph of cells and
    environments.  \<open>Cycles\<close>: \<open>gc.h\<close> on the same graph.
  \<^item> \<open>Resp\<close>: the wire protocol of \<open>resp.c\<close>, output window, replies, parser, arguments.  \<open>RespTable\<close>: its table of
    commands.  \<open>RespCmds\<close>: the commands on the keyspace of \<open>Lfkv\<close>, the dispatch, the loop over the input and the
    read buffer.  \<open>RespSpec\<close>: the abstract database (keys to strings, lists and hashes with expiries), what
    each operation of the table and each string command does to it; integer arguments and the options of SET
    have a reading of their own there (\<open>arg_int\<close>, \<open>set_words\<close>, \<open>first_fault\<close>, \<open>set_ttl\<close>), independent of the
    parsers of the code.  \<open>RespRefine\<close>: keys, lists, hashes,
    enumerations, streams of requests, and the properties of the server.
\<close>

text \<open>
  \<^bold>\<open>What the lemmas show.\<close>
  \<^item> Refinement of an abstract type by every session of operations: \<open>dict_sessions_refine_map\<close>,
    \<open>hamt_sessions_refine_map\<close>, \<open>deque_sessions_refine_list\<close>, \<open>lfkv_sessions_refine_map\<close>; the commands
    over them, with errors and hooks, in \<open>DictCmds\<close>, \<open>SetOps\<close>, \<open>Hamt\<close> and \<open>Watch\<close>.
  \<^item> The server: \<open>implements\<close> says that a command returns, answers what \<open>resp_spec\<close> answers on the abstract
    database \<open>view\<close> and leaves the database \<open>resp_spec\<close> leaves; it is shown for every command on keys, strings,
    lists and hashes, from the lemmas of \<open>RespSpec\<close> on lookups (\<open>lookup_cases\<close>) and exchanges (\<open>swap_ok\<close>).
    \<open>resp_pipeline\<close> composes parser, dispatch and window; \<open>resp_replies_in_order\<close> says that what the socket
    takes is the replies, in order.
  \<^item> Round trips of the codecs on whatever the encoder accepts, the exact set of inputs the decoders
    accept where they are total (\<open>utf8_valid_exact\<close>, \<open>base64_decode_exact\<close>), termination and the order
    of decoded values on arbitrary input.
  \<^item> Exact arithmetic: results are the rational operation on the denotations, errors occur exactly
    when no representable result exists, rounding is within half a unit.
  \<^item> Concurrency: FIFO order and progress of the queue, no use after free and eventual freeing of
    retired pointers, and what two concurrent writers can do to the keyspace.
  \<^item> Memory: \<open>exact\<close> says every count is the number of owned references to a node plus those held from
    outside; \<open>release_keeps_reachable\<close> and \<open>gc_keeps_reachable\<close> preserve it and change nothing that can be
    reached; \<open>closure_cycle_freed\<close> and \<open>gc_frees_cycles\<close> say what is freed.
  \<^item> Where the code does not do what it means to, a theorem states what it does:
    \<open>lfkv_lock_cycles_hang\<close>, \<open>lfkv_set_nx_cases\<close>, \<open>lfkv_concurrent_sets\<close>, \<open>dec_mul_sign_lost\<close>,
    \<open>hamt_rational_key_missed\<close>, \<open>resp_arg_nul\<close>, \<open>unknown_command_splits\<close>.

  \<^bold>\<open>Bounds and fuel.\<close>  The decoders of \<open>Msgpack\<close> and \<open>Json\<close> recurse on the depth cap of the code (512
  levels, \<open>MP_MAX_DEPTH\<close> and \<open>JS_MAX_DEPTH\<close>, and one that reports the error); inside a container they take one unit of fuel a
  byte, and \<open>json_loops_terminate\<close> shows it is never used up.  A dequeue takes at most seven steps.  The
  loops of \<open>lfkv_set_nx\<close> can run for ever: the definition is partial and \<open>None\<close> is that case.  Releasing
  ends because the sum of all counts falls, the collector's walks because marks and counted
  environments only grow.  The epoch is a 64-bit word; the results on it assume fewer than
  2^64 retirements.  The collector compares counts as 32-bit words; its results assume counts below 2^31, the
  range of the code's \<open>int\<close>.  The commands of the server retry an exchange as often as the code does (1001 or
  1002 times); the first attempt succeeds when there is memory and room, a slot never used or a record of the
  key (\<open>has_room\<close>).  \<open>can_serve\<close> asks for legal keys and a clock within 64 bits; \<open>can_run\<close> asks for room as well, in the
  properties of the commands that can create a key.  Lengths that the code casts to \<open>int\<close> are cast in the model
  (\<open>c_int\<close>), and the JSON round trip is about texts below 2^31 bytes.

  \<^bold>\<open>Not modelled.\<close>  The evaluator, the bytecode compiler and its dispatch loop are single functions of
  thousands of lines over all of the heap; the just-in-time compilers emit machine code for two
  processors; the debugger, line editor, printers, operating-system, logging, foreign-function and
  persistence builtins are input and output; the tensor kernels of \<open>vector.h\<close> compute on doubles.
  Commands are modelled on evaluated arguments; a value that may be a C \<open>NULL\<close> is an option, or the word 0 in
  the trie.  The hooks of a container that change this same container are left out (\<open>SetOps\<close>, \<open>DictCmds\<close>,
  \<open>Deque\<close>); what hooks do to the registry is in \<open>Watch\<close>.  The atomics are sequentially consistent.  A failing
  \<open>malloc\<close> is modelled where the code handles it (\<open>Lfkv\<close>, \<open>Watch\<close>, \<open>Cycles\<close>) and left out of the codecs'
  output buffers.  In \<open>Refcount\<close> and \<open>Cycles\<close> a cell is what it owns: payload memory without
  references, the slots of the environment arena and the hooks of weak references are not there, and
  the trie of a persistent map counts as its values.  Of the server, sockets and the event loops are
  parameters or left out, as are \<open>SAVE\<close>, \<open>BGSAVE\<close>, the commands defined in the language, the \<open>redis-\<close>
  builtins of the language and the extra databases they select; a command runs without another reactor in
  between and reads the clock once, and the reference counts of stored values are not followed.
\<close>

end
